(* ===== verification/Prelude.thy ===== *)
theory Prelude
  imports Main "HOL-Library.Monad_Syntax" "HOL-Library.Multiset"
begin

text \<open>
  What every component shares. A C function is a HOL function into \<open>'a option\<close>: the value
  \<open>None\<close> is a run that a failed \<open>assert\<close>, a NULL dereference, an access outside an array, a read
  of an indeterminate cell or a shift by too much brings to an end (and, for a loop written with
  \<open>partial_function\<close>, a run that does not end). Statuses the C code itself returns are values.
  A function that allocates takes the answers of \<open>malloc\<close> as an argument, so that both the
  success and the failure branch are modelled.
\<close>

section \<open>Faults\<close>

named_theorems c_simps \<open>unfolding rules for the C primitives\<close>

definition c_assert :: "bool \<Rightarrow> unit option" where
  "c_assert b = (if b then Some () else None)"

lemma c_assert_simps [simp, c_simps]:
  "c_assert True = Some ()" "c_assert False = None"
  by (simp_all add: c_assert_def)

lemma c_assert_eq_Some [simp, c_simps]: "c_assert b = Some u \<longleftrightarrow> b"
  by (simp add: c_assert_def)

lemma bind_c_assert [simp, c_simps]:
  "Option.bind (c_assert b) f = (if b then f () else None)"
  by (simp add: c_assert_def)

section \<open>Arrays\<close>

text \<open>An array of known length; an access past its end is a fault.\<close>

definition aget :: "'a list \<Rightarrow> nat \<Rightarrow> 'a option" where
  "aget xs i = (if i < length xs then Some (xs ! i) else None)"

definition aset :: "'a list \<Rightarrow> nat \<Rightarrow> 'a \<Rightarrow> 'a list option" where
  "aset xs i v = (if i < length xs then Some (xs[i := v]) else None)"

lemma aget_in [simp, c_simps]: "i < length xs \<Longrightarrow> aget xs i = Some (xs ! i)"
  by (simp add: aget_def)

lemma aget_out [simp, c_simps]: "length xs \<le> i \<Longrightarrow> aget xs i = None"
  by (simp add: aget_def)

lemma aset_in [simp, c_simps]: "i < length xs \<Longrightarrow> aset xs i v = Some (xs[i := v])"
  by (simp add: aset_def)

lemma aset_out [simp, c_simps]: "length xs \<le> i \<Longrightarrow> aset xs i v = None"
  by (simp add: aset_def)

lemma aget_eq_Some: "aget xs i = Some x \<longleftrightarrow> i < length xs \<and> xs ! i = x"
  by (simp add: aget_def)

lemma aset_eq_Some: "aset xs i v = Some ys \<longleftrightarrow> i < length xs \<and> ys = xs[i := v]"
  by (auto simp: aset_def)

text \<open>A freshly allocated array holds indeterminate cells (\<open>None\<close>); reading one is a fault.\<close>

definition cget :: "'a option list \<Rightarrow> nat \<Rightarrow> 'a option" where
  "cget xs i = Option.bind (aget xs i) id"

lemma cget_eq_Some: "cget xs i = Some x \<longleftrightarrow> i < length xs \<and> xs ! i = Some x"
  by (auto simp: cget_def aget_def)

section \<open>Unsigned arithmetic of size_t\<close>

definition szsub :: "nat \<Rightarrow> nat \<Rightarrow> nat" where
  "szsub a b = (a + (2 ^ 64 - b)) mod 2 ^ 64"

lemma szsub_ge: "b \<le> a \<Longrightarrow> a < 2 ^ 64 \<Longrightarrow> szsub a b = a - b"
proof -
  assume "b \<le> a" and "a < 2 ^ 64"
  then have "a + (2 ^ 64 - b) = (a - b) + 2 ^ 64" and "a - b < 2 ^ 64" by auto
  then show ?thesis by (metis mod_add_self2 mod_less szsub_def)
qed

lemma szsub_0_1: "szsub 0 1 = 2 ^ 64 - 1"
  by (simp add: szsub_def)

lemma szsub_less: "szsub a b < 2 ^ 64"
  by (simp add: szsub_def)

text \<open>The conversion \<open>(size_t)\<close> of a signed number.\<close>

definition to_size :: "int \<Rightarrow> nat" where
  "to_size p = nat (p mod 2 ^ 64)"

lemma to_size_int [simp]: "n < 2 ^ 64 \<Longrightarrow> to_size (int n) = n"
  by (simp add: to_size_def nat_mod_distrib)

section \<open>Addresses and generic pointers\<close>

text \<open>
  Heap cells have addresses; a C pointer to a cell is an \<open>addr option\<close> with \<open>None\<close> for NULL. A
  \<open>void *\<close> field holds NULL, a pointer back to the container (the dummy nodes of the lists store
  one) or user data.
\<close>

type_synonym addr = nat

datatype 'd vptr = Null | ListPtr addr | Elem 'd

section \<open>Arithmetic of int\<close>

text \<open>The type \<open>int\<close> of C has 32 bits. An operation that leaves its range is a fault; a conversion to it
  wraps around.\<close>

definition int32 :: "int \<Rightarrow> int option" where
  "int32 x = (if - (2 ^ 31) \<le> x \<and> x < 2 ^ 31 then Some x else None)"

definition to_int32 :: "int \<Rightarrow> int" where
  "to_int32 x = (x + 2 ^ 31) mod 2 ^ 32 - 2 ^ 31"

lemma int32_in: "0 \<le> x \<Longrightarrow> x < 2 ^ 31 \<Longrightarrow> int32 x = Some x"
  by (simp add: int32_def)

lemma to_int32_ok: "0 \<le> x \<Longrightarrow> x < 2 ^ 31 \<Longrightarrow> to_int32 x = x"
  by (simp add: to_int32_def)

section \<open>Facts on lists and multisets\<close>

lemma mset_swap_list:
  "i < length xs \<Longrightarrow> j < length xs \<Longrightarrow> mset (xs[i := xs ! j, j := xs ! i]) = mset xs"
  using mset_swap [of j xs i] by simp

lemma sorted_nth_le:
  "sorted (xs :: 'a::linorder list) \<Longrightarrow> i \<le> j \<Longrightarrow> j < length xs \<Longrightarrow> xs ! i \<le> xs ! j"
  by (rule sorted_nth_mono)

section \<open>Walking a list with an action\<close>

text \<open>The traversals call an action on each element; it returns a status and changes what its
  parameter points to, and a status other than 0 stops the traversal.\<close>

fun run_action :: "('a \<Rightarrow> 'p \<Rightarrow> int \<times> 'p) \<Rightarrow> 'a list \<Rightarrow> int \<Rightarrow> 'p \<Rightarrow> int \<times> 'p" where
  "run_action action [] result param = (result, param)"
| "run_action action (d # ds) result param =
     (case action d param of (r, p) \<Rightarrow> if r = 0 then run_action action ds r p else (r, p))"

lemma run_action_append:
  "run_action f (xs @ ys) 0 p = (case run_action f xs 0 p of (r, q) \<Rightarrow> if r = 0 then run_action f ys 0 q else (r, q))"
  by (induction xs arbitrary: p) (auto split: prod.splits)

section \<open>What a comparison function must promise\<close>

text \<open>A comparison orders a key: its sign is that of the difference of the keys.\<close>

locale key_comparison =
  fixes cmp :: "'v \<Rightarrow> 'v \<Rightarrow> int" and key :: "'v \<Rightarrow> int"
  assumes cmp_less: "cmp x y < 0 \<longleftrightarrow> key x < key y"
    and cmp_greater: "0 < cmp x y \<longleftrightarrow> key y < key x"
begin

lemma cmp_zero: "cmp x y = 0 \<longleftrightarrow> key x = key y"
  using cmp_less [of x y] cmp_greater [of x y] by linarith

end

text \<open>Indexes in a window of the length of the ring have different remainders.\<close>

lemma mod_near: "d \<le> a \<Longrightarrow> d \<le> b \<Longrightarrow> a < d + C \<Longrightarrow> b < d + C \<Longrightarrow> a mod C = b mod C \<Longrightarrow> a = (b :: nat)"
proof -
  have near: "a = b" if "a mod C = b mod C" "a \<le> b" "b < a + C" for a b :: nat
  proof -
    have "C dvd b - a" using that by (metis mod_eq_dvd_iff_nat)
    then show ?thesis using that by (auto dest: dvd_imp_le)
  qed
  assume "d \<le> a" "d \<le> b" "a < d + C" "b < d + C" "a mod C = b mod C"
  then show ?thesis using near [of a b] near [of b a] by (cases "a \<le> b") auto
qed

end
