(* ===== verification/BitArray.thy ===== *)
theory BitArray
  imports Prelude "HOL-Library.Word"
begin

unbundle bit_operations_syntax

text \<open>
  The 64-bit bit array of \<open>ds/bit_array/bit_array.c\<close>: every operation of the file on a
  \<open>64 word\<close>. Indices are 1-based as in the C code. A shift by 64 or more, which C leaves
  undefined, is a fault. The lemmas read each operation bit by bit.
\<close>

section \<open>The operations\<close>

type_synonym bit_array_t = "64 word"

definition SIZE_OF_BIT_ARRAY :: nat where
  "SIZE_OF_BIT_ARRAY = 64"

definition shl :: "bit_array_t \<Rightarrow> nat \<Rightarrow> bit_array_t option" where
  "shl x n = (if n < 64 then Some (push_bit n x) else None)"

definition shr :: "bit_array_t \<Rightarrow> nat \<Rightarrow> bit_array_t option" where
  "shr x n = (if n < 64 then Some (drop_bit n x) else None)"

definition BitsArrSetAll :: "bit_array_t \<Rightarrow> bit_array_t" where
  "BitsArrSetAll arr = 0xFFFFFFFFFFFFFFFF"

definition BitsArrResetAll :: "bit_array_t \<Rightarrow> bit_array_t" where
  "BitsArrResetAll arr = 0"

definition BitsArrSetOn :: "bit_array_t \<Rightarrow> nat \<Rightarrow> bit_array_t option" where
  "BitsArrSetOn arr idx = do {
     c_assert (SIZE_OF_BIT_ARRAY \<ge> idx);
     m \<leftarrow> shl 1 (szsub idx 1);
     Some (arr OR m)
   }"

definition BitsArrSetOff :: "bit_array_t \<Rightarrow> nat \<Rightarrow> bit_array_t option" where
  "BitsArrSetOff arr idx = do {
     c_assert (SIZE_OF_BIT_ARRAY \<ge> idx);
     m \<leftarrow> shl 1 (szsub idx 1);
     Some (arr AND NOT m)
   }"

definition BitsArrGetVal :: "bit_array_t \<Rightarrow> nat \<Rightarrow> int option" where
  "BitsArrGetVal arr idx = do {
     c_assert (SIZE_OF_BIT_ARRAY \<ge> idx);
     m \<leftarrow> shl 1 (szsub idx 1);
     Some (if arr AND m \<noteq> 0 then 1 else 0)
   }"

definition BitsArrRotR :: "bit_array_t \<Rightarrow> nat \<Rightarrow> bit_array_t option" where
  "BitsArrRotR arr steps = (let steps = steps mod SIZE_OF_BIT_ARRAY in do {
     a \<leftarrow> shl arr (szsub SIZE_OF_BIT_ARRAY steps);
     b \<leftarrow> shr arr steps;
     Some (a OR b)
   })"

definition BitsArrRotL :: "bit_array_t \<Rightarrow> nat \<Rightarrow> bit_array_t option" where
  "BitsArrRotL arr steps = (let steps = steps mod SIZE_OF_BIT_ARRAY in do {
     a \<leftarrow> shl arr steps;
     b \<leftarrow> shr arr (szsub SIZE_OF_BIT_ARRAY steps);
     Some (a OR b)
   })"

lemma clear_lowest_decreases:
  fixes arr :: "'a::len word"
  assumes "arr \<noteq> 0"
  shows "unat (arr AND (arr - 1)) < unat arr"
proof -
  have "arr AND (arr - 1) \<le> arr - 1" by (rule word_and_le1)
  moreover have "arr - 1 < arr" using measure_unat [OF assms] by (simp add: word_less_nat_alt)
  ultimately have "arr AND (arr - 1) < arr" by (rule le_less_trans)
  then show ?thesis by (simp add: word_less_nat_alt)
qed

text \<open>The loop \<open>while (0 != arr) { arr &= arr - 1; ++count; }\<close>.\<close>

function count_on_loop :: "bit_array_t \<Rightarrow> nat \<Rightarrow> nat" where
  "count_on_loop arr cnt =
     (if 0 \<noteq> arr then count_on_loop (arr AND (arr - 1)) (Suc cnt) else cnt)"
  by pat_completeness auto
termination
  by (relation "measure (\<lambda>(arr, cnt). unat arr)") (auto intro: clear_lowest_decreases)

declare count_on_loop.simps [simp del]

definition BitsArrCountOn :: "bit_array_t \<Rightarrow> nat" where
  "BitsArrCountOn arr = count_on_loop arr 0"


definition arr_lut_count :: "nat list" where
  "arr_lut_count = [0,1,1,2,1,2,2,3,1,2,2,3,2,3,3,4]"

text \<open>The loop of \<open>BitsArrCountOnLut\<close>, run for the nibbles that remain (\<open>16 - i\<close> of them).\<close>

fun count_on_lut_loop :: "nat \<Rightarrow> bit_array_t \<Rightarrow> nat \<Rightarrow> nat" where
  "count_on_lut_loop 0 arr cnt = cnt"
| "count_on_lut_loop (Suc left) arr cnt =
     count_on_lut_loop left (drop_bit 4 arr) (cnt + arr_lut_count ! unat (arr AND 0xf))"

definition BitsArrCountOnLut :: "bit_array_t \<Rightarrow> nat" where
  "BitsArrCountOnLut arr = count_on_lut_loop 16 arr 0"

definition BitsArrCountOff :: "bit_array_t \<Rightarrow> nat" where
  "BitsArrCountOff arr = szsub SIZE_OF_BIT_ARRAY (BitsArrCountOn arr)"

definition BitsArrSetBit :: "bit_array_t \<Rightarrow> nat \<Rightarrow> int \<Rightarrow> bit_array_t option" where
  "BitsArrSetBit arr idx boolean_val = do {
     c_assert (SIZE_OF_BIT_ARRAY \<ge> idx);
     if boolean_val = 1 then BitsArrSetOn arr idx else BitsArrSetOff arr idx
   }"

definition BitsArrMirror :: "bit_array_t \<Rightarrow> bit_array_t" where
  "BitsArrMirror arr =
    (let arr = drop_bit 32 arr OR push_bit 32 arr;
         arr = drop_bit 16 (arr AND 0xFFFF0000FFFF0000) OR push_bit 16 (arr AND 0x0000FFFF0000FFFF);
         arr = drop_bit 8 (arr AND 0xFF00FF00FF00FF00) OR push_bit 8 (arr AND 0x00FF00FF00FF00FF);
         arr = drop_bit 4 (arr AND 0xF0F0F0F0F0F0F0F0) OR push_bit 4 (arr AND 0x0F0F0F0F0F0F0F0F);
         arr = drop_bit 2 (arr AND 0xCCCCCCCCCCCCCCCC) OR push_bit 2 (arr AND 0x3333333333333333);
         arr = drop_bit 1 (arr AND 0xAAAAAAAAAAAAAAAA) OR push_bit 1 (arr AND 0x5555555555555555)
     in arr)"

definition arr_lut_mirror :: "bit_array_t list" where
  "arr_lut_mirror = [0,8,4,12,2,10,6,14,1,9,5,13,3,11,7,15]"

fun mirror_lut_loop :: "nat \<Rightarrow> bit_array_t \<Rightarrow> bit_array_t \<Rightarrow> bit_array_t" where
  "mirror_lut_loop 0 arr mirror_arr = mirror_arr"
| "mirror_lut_loop (Suc left) arr mirror_arr =
     mirror_lut_loop left (drop_bit 4 arr)
       (push_bit 4 mirror_arr OR arr_lut_mirror ! unat (arr AND 0xf))"

definition BitsArrMirrorLut :: "bit_array_t \<Rightarrow> bit_array_t" where
  "BitsArrMirrorLut arr = mirror_lut_loop 16 arr 0"

definition BitsArrFlip :: "bit_array_t \<Rightarrow> bit_array_t" where
  "BitsArrFlip arr = NOT arr"

text \<open>
  \<open>BitsArrToString\<close> writes the terminating zero at index 64 of \<open>dest\<close>, then the digits from
  index 63 down to 0; a \<open>dest\<close> with fewer than 65 characters is written past its end.
\<close>

fun to_string_loop :: "nat \<Rightarrow> bit_array_t \<Rightarrow> char list \<Rightarrow> char list option" where
  "to_string_loop 0 arr dest = Some dest"
| "to_string_loop (Suc i) arr dest = do {
     dest \<leftarrow> aset dest i (if arr AND 1 = 1 then CHR ''1'' else CHR ''0'');
     to_string_loop i (drop_bit 1 arr) dest
   }"

definition BitsArrToString :: "bit_array_t \<Rightarrow> char list \<Rightarrow> char list option" where
  "BitsArrToString arr dest = do {
     dest \<leftarrow> aset dest SIZE_OF_BIT_ARRAY (CHR 0x00);
     to_string_loop SIZE_OF_BIT_ARRAY arr dest
   }"

section \<open>Counting bits\<close>

text \<open>The reference count: the indices below 64 at which the word has a bit.\<close>

fun ones_nat :: "nat \<Rightarrow> nat" where
  "ones_nat n = (if n = 0 then 0 else n mod 2 + ones_nat (n div 2))"
declare ones_nat.simps [simp del]

definition ones :: "bit_array_t \<Rightarrow> nat" where
  "ones arr = length (filter (bit arr) [0..<64])"

lemma ones_nat_0 [simp]: "ones_nat 0 = 0"
  by (simp add: ones_nat.simps)

lemma ones_nat_rec: "ones_nat n = n mod 2 + ones_nat (n div 2)"
  by (cases "n = 0") (simp_all add: ones_nat.simps [of n])

lemma ones_nat_clear_lowest: "n \<noteq> 0 \<Longrightarrow> ones_nat n = Suc (ones_nat (n AND (n - 1)))"
proof (induction n rule: less_induct)
  case (less n)
  show ?case
  proof (cases "odd n")
    case True
    then have "n mod 2 = 1" by (simp add: odd_iff_mod_2_eq_one)
    moreover from True have "n AND (n - 1) = 2 * (n div 2)"
      by (subst and_nat_rec) (auto elim!: oddE)
    ultimately show ?thesis
      using ones_nat_rec [of n] ones_nat_rec [of "2 * (n div 2)"] by (simp only:) simp
  next
    case False
    define m where "m = n div 2"
    from False less.prems have n: "n = 2 * m" and m: "m \<noteq> 0" "m < n" by (auto simp: m_def)
    then have "(n - 1) div 2 = m - 1" by arith
    with n have "n AND (n - 1) = 2 * (m AND (m - 1))" by (subst and_nat_rec) simp
    with n less.IH [OF m(2) m(1)] show ?thesis
      using ones_nat_rec [of n] ones_nat_rec [of "2 * (m AND (m - 1))"] by simp
  qed
qed

lemma length_filter_bit: "n < 2 ^ m \<Longrightarrow> length (filter (bit n) [0..<m]) = ones_nat n"
proof (induction m arbitrary: n)
  case 0
  then show ?case by simp
next
  case (Suc m)
  have "[0..<Suc m] = 0 # map Suc [0..<m]" by (simp add: upt_conv_Cons map_Suc_upt)
  moreover have "filter (bit n) (map Suc [0..<m]) = map Suc (filter (bit (n div 2)) [0..<m])"
    by (simp add: filter_map comp_def bit_Suc)
  moreover from Suc.prems have "n div 2 < 2 ^ m" by auto
  ultimately show ?case
    using Suc.IH [of "n div 2"] ones_nat_rec [of n] by (simp add: bit_0 odd_iff_mod_2_eq_one)
qed

lemma ones_eq: "ones arr = ones_nat (unat arr)"
proof -
  have "bit arr = bit (unat arr)" by (rule ext) (auto simp: bit_unsigned_iff dest: bit_imp_le_length)
  moreover have "unat arr < 2 ^ 64" using unsigned_less [of arr] by simp
  ultimately show ?thesis by (simp add: ones_def length_filter_bit)
qed

lemma count_on_loop_eq: "count_on_loop arr n = n + ones arr"
proof (induction arr n rule: count_on_loop.induct)
  case (1 arr cnt)
  show ?case
  proof (cases "arr = 0")
    case True
    then show ?thesis by (simp add: count_on_loop.simps ones_eq)
  next
    case False
    then have "unat arr \<noteq> 0" by (simp add: unat_eq_0)
    moreover have "unat (arr AND (arr - 1)) = unat arr AND (unat arr - 1)"
      using False by (simp add: unsigned_and_eq unat_minus_one)
    ultimately have "ones arr = Suc (ones (arr AND (arr - 1)))"
      by (simp add: ones_eq ones_nat_clear_lowest [of "unat arr"])
    with 1 False show ?thesis by (simp add: count_on_loop.simps [of arr])
  qed
qed

lemma BitsArrCountOn_eq: "BitsArrCountOn arr = ones arr"
  by (simp add: BitsArrCountOn_def count_on_loop_eq)

lemma ones_nat_rec4:
  "ones_nat k = of_bool (bit k 0) + of_bool (bit k 1) + of_bool (bit k 2) + of_bool (bit k 3)
     + ones_nat (k div 16)"
  using ones_nat_rec [of k] ones_nat_rec [of "k div 2"] ones_nat_rec [of "k div 4"]
    ones_nat_rec [of "k div 8"]
  by (simp add: div_mult2_eq [symmetric] bit_iff_odd odd_iff_mod_2_eq_one)

lemma ones_nat_nibble: "ones_nat n = ones_nat (n mod 16) + ones_nat (n div 16)"
proof -
  have m: "n mod 16 = take_bit 4 n" by (simp add: take_bit_eq_mod)
  have "n mod 16 div 16 = 0" by simp
  then have z: "take_bit 4 n div 16 = 0" by (simp only: m)
  have "ones_nat (n mod 16) =
      of_bool (bit n 0) + of_bool (bit n 1) + of_bool (bit n 2) + of_bool (bit n 3)"
    using ones_nat_rec4 [of "n mod 16"] z by (simp only: m bit_take_bit_iff) simp
  then show ?thesis using ones_nat_rec4 [of n] by simp
qed

lemma arr_lut_count_nth: "k < 16 \<Longrightarrow> arr_lut_count ! k = ones_nat k"
proof -
  have "\<forall>k \<in> set [0..<16]. arr_lut_count ! k = ones_nat k" by code_simp
  then show "k < 16 \<Longrightarrow> arr_lut_count ! k = ones_nat k" by simp
qed

lemma unat_nibble: "unat (arr AND 0xf :: bit_array_t) = unat arr mod 16"
proof -
  have "arr AND 0xf = take_bit 4 arr" by (simp add: take_bit_eq_mask mask_numeral)
  moreover have "unat (take_bit 4 arr) = take_bit 4 (unat arr)" by (rule unsigned_take_bit_eq)
  moreover have "take_bit 4 (unat arr) = unat arr mod 16" by (simp add: take_bit_eq_mod)
  ultimately show ?thesis by simp
qed

lemma unat_drop_nibble: "unat (drop_bit 4 arr :: bit_array_t) = unat arr div 16"
  by (simp only: unat_drop_bit_eq) (simp add: drop_bit_eq_div)

lemma count_on_lut_loop_eq:
  "unat arr < 16 ^ k \<Longrightarrow> count_on_lut_loop k arr n = n + ones arr"
proof (induction k arbitrary: arr n)
  case 0
  then have "arr = 0" by (simp add: unat_eq_0)
  then show ?case by (simp add: ones_eq)
next
  case (Suc k)
  then have "unat (drop_bit 4 arr) < 16 ^ k" by (simp add: unat_drop_nibble div_less_iff_less_mult mult.commute)
  with Suc.IH show ?case
    using ones_nat_nibble [of "unat arr"]
    by (simp add: ones_eq unat_nibble unat_drop_nibble arr_lut_count_nth)
qed

lemma BitsArrCountOnLut_eq: "BitsArrCountOnLut arr = ones arr"
proof -
  have "unat arr < 2 ^ 64" using unsigned_less [of arr] by simp
  then show ?thesis by (simp add: BitsArrCountOnLut_def count_on_lut_loop_eq)
qed

text \<open>Both counting routines return the number of set bits: the loop that clears the lowest bit
  until the word is zero, and the one that sums sixteen table entries, one per nibble. The count of
  unset bits is the rest of the 64.\<close>

theorem BitsArrCount_correct:
  "BitsArrCountOn arr = ones arr \<and> BitsArrCountOnLut arr = ones arr \<and>
   BitsArrCountOff arr = 64 - ones arr"
proof -
  have "ones arr \<le> 64" using length_filter_le [of "bit arr" "[0..<64]"] by (simp add: ones_def)
  then show ?thesis
    by (simp add: BitsArrCountOn_eq BitsArrCountOnLut_eq BitsArrCountOff_def SIZE_OF_BIT_ARRAY_def szsub_ge)
qed


section \<open>Single bits\<close>

lemma shl_1 [simp]: "1 \<le> i \<Longrightarrow> i \<le> 64 \<Longrightarrow> shl 1 (szsub i 1) = Some (push_bit (i - 1) 1)"
  by (simp add: shl_def szsub_ge)

lemma shl_1_0: "shl 1 (szsub 0 1) = None"
  by (simp add: shl_def szsub_def)

lemma BitsArrGetVal_eq:
  "1 \<le> i \<Longrightarrow> i \<le> 64 \<Longrightarrow> BitsArrGetVal arr i = Some (of_bool (bit arr (i - 1)))"
  by (simp add: BitsArrGetVal_def SIZE_OF_BIT_ARRAY_def and_exp_eq_0_iff_not_bit del: One_nat_def)

lemma BitsArrSetOn_bit:
  "1 \<le> i \<Longrightarrow> i \<le> 64 \<Longrightarrow>
   \<exists>arr'. BitsArrSetOn arr i = Some arr' \<and> (\<forall>k<64. bit arr' k \<longleftrightarrow> (k = i - 1 \<or> bit arr k))"
  by (auto simp: BitsArrSetOn_def SIZE_OF_BIT_ARRAY_def bit_simps simp del: One_nat_def push_bit_of_1)

lemma BitsArrSetOff_bit:
  "1 \<le> i \<Longrightarrow> i \<le> 64 \<Longrightarrow>
   \<exists>arr'. BitsArrSetOff arr i = Some arr' \<and> (\<forall>k<64. bit arr' k \<longleftrightarrow> (k \<noteq> i - 1 \<and> bit arr k))"
  by (auto simp: BitsArrSetOff_def SIZE_OF_BIT_ARRAY_def bit_simps simp del: One_nat_def push_bit_of_1)

lemma bit_index_0:
  "BitsArrSetOn arr 0 = None" "BitsArrSetOff arr 0 = None" "BitsArrGetVal arr 0 = None"
  by (simp_all only: BitsArrSetOn_def BitsArrSetOff_def BitsArrGetVal_def shl_1_0) simp_all

text \<open>C16. Setting a bit and reading the array back: for an index between 1 and 64 the write
  succeeds, the bit read at that index is the value written (1 only for the value 1), and every other
  bit reads as before.\<close>

theorem BitsArrSetBit_GetVal:
  assumes "1 \<le> i" and "i \<le> 64"
  shows "\<exists>arr'. BitsArrSetBit arr i v = Some arr' \<and>
    (\<forall>j. 1 \<le> j \<and> j \<le> 64 \<longrightarrow>
      BitsArrGetVal arr' j = (if j = i then Some (of_bool (v = 1)) else BitsArrGetVal arr j))"
proof -
  have "j - 1 < 64 \<and> (j - 1 = i - 1 \<longleftrightarrow> j = i)" if "1 \<le> j" "j \<le> 64" for j :: nat
    using that assms by arith
  then show ?thesis
    using BitsArrSetOn_bit [OF assms, of arr] BitsArrSetOff_bit [OF assms, of arr] assms
    by (auto simp: BitsArrSetBit_def SIZE_OF_BIT_ARRAY_def BitsArrGetVal_eq simp del: One_nat_def)
qed

theorem BitsArrSetBit_GetVal_witness:
  "\<exists>arr'. BitsArrSetBit 5 2 1 = Some arr' \<and>
    (\<forall>j. 1 \<le> j \<and> j \<le> 64 \<longrightarrow>
      BitsArrGetVal arr' j = (if j = 2 then Some (of_bool ((1::int) = 1)) else BitsArrGetVal 5 j))"
  by (rule BitsArrSetBit_GetVal) simp_all

lemma SetAll_bit: "k < 64 \<Longrightarrow> bit (BitsArrSetAll arr) k"
proof -
  have "BitsArrSetAll arr = - 1" by (simp add: BitsArrSetAll_def)
  then show "k < 64 \<Longrightarrow> bit (BitsArrSetAll arr) k" by simp
qed

section \<open>Rotation\<close>

lemma RotR_bit:
  assumes "s mod 64 \<noteq> 0"
  shows "\<exists>r. BitsArrRotR arr s = Some r \<and> (\<forall>k<64. bit r k \<longleftrightarrow> bit arr ((k + s) mod 64))"
proof -
  define t where "t = s mod 64"
  have t: "0 < t" "t < 64" using assms by (auto simp: t_def)
  have idx: "(k + s) mod 64 = (if k + t < 64 then k + t else k + t - 64)" if "k < 64" for k
  proof -
    have "(k + s) mod 64 = (k + t) mod 64" by (simp add: t_def mod_add_right_eq)
    then show ?thesis using that t by (auto simp: mod_if)
  qed
  have "BitsArrRotR arr s = Some (push_bit (64 - t) arr OR drop_bit t arr)"
    using t by (simp add: BitsArrRotR_def SIZE_OF_BIT_ARRAY_def shl_def shr_def szsub_ge flip: t_def)
  moreover have "bit (push_bit (64 - t) arr OR drop_bit t arr) k \<longleftrightarrow> bit arr ((k + s) mod 64)"
    if "k < 64" for k
    using that t by (auto simp: bit_simps idx add.commute dest: bit_imp_le_length)
  ultimately show ?thesis by blast
qed

lemma RotL_bit:
  assumes "s mod 64 \<noteq> 0"
  shows "\<exists>r. BitsArrRotL arr s = Some r \<and> (\<forall>k<64. bit r ((k + s) mod 64) \<longleftrightarrow> bit arr k)"
proof -
  define t where "t = s mod 64"
  have t: "0 < t" "t < 64" using assms by (auto simp: t_def)
  have idx: "(k + s) mod 64 = (if k + t < 64 then k + t else k + t - 64)" if "k < 64" for k
  proof -
    have "(k + s) mod 64 = (k + t) mod 64" by (simp add: t_def mod_add_right_eq)
    then show ?thesis using that t by (auto simp: mod_if)
  qed
  have "BitsArrRotL arr s = Some (push_bit t arr OR drop_bit (64 - t) arr)"
    using t by (simp add: BitsArrRotL_def SIZE_OF_BIT_ARRAY_def shl_def shr_def szsub_ge flip: t_def)
  moreover have "bit (push_bit t arr OR drop_bit (64 - t) arr) ((k + s) mod 64) \<longleftrightarrow> bit arr k"
    if "k < 64" for k
    using that t by (auto simp: bit_simps idx add.commute dest: bit_imp_le_length)
  ultimately show ?thesis by blast
qed

text \<open>Rotating left and then right by the same number of steps gives the array back, for every
  step count that is no multiple of 64 (for those the C code shifts by 64, which is undefined).\<close>

theorem RotL_RotR:
  assumes "s mod 64 \<noteq> 0"
  shows "Option.bind (BitsArrRotL arr s) (\<lambda>r. BitsArrRotR r s) = Some arr"
proof -
  obtain l where l: "BitsArrRotL arr s = Some l" "\<forall>k<64. bit l ((k + s) mod 64) \<longleftrightarrow> bit arr k"
    using RotL_bit [OF assms] by blast
  obtain r where r: "BitsArrRotR l s = Some r" "\<forall>k<64. bit r k \<longleftrightarrow> bit l ((k + s) mod 64)"
    using RotR_bit [OF assms] by blast
  have "r = arr" using l(2) r(2) by (intro bit_word_eqI) simp
  with l(1) r(1) show ?thesis by simp
qed

theorem RotL_RotR_witness:
  "Option.bind (BitsArrRotL 6 67) (\<lambda>r. BitsArrRotR r 67) = Some 6"
  by (rule RotL_RotR) simp

lemma Rot_by_0: "s mod 64 = 0 \<Longrightarrow> BitsArrRotL arr s = None \<and> BitsArrRotR arr s = None"
  by (auto simp: BitsArrRotL_def BitsArrRotR_def shl_def shr_def SIZE_OF_BIT_ARRAY_def szsub_ge Let_def bind_eq_None_conv)

section \<open>Mirror\<close>

lemma all_less_64: "(\<forall>k<64. P k) \<longleftrightarrow> (\<forall>k \<in> set [0..<64]. P k)"
  by auto

lemma swap_groups:
  fixes arr m m' :: bit_array_t
  assumes "\<And>k. k < 64 \<Longrightarrow> bit m k \<longleftrightarrow> odd (k div n)" and "\<And>k. k < 64 \<Longrightarrow> bit m' k \<longleftrightarrow> even (k div n)"
    and "0 < n" and "2 * n dvd 64" and "k < 64"
  shows "bit (drop_bit n (arr AND m) OR push_bit n (arr AND m')) k \<longleftrightarrow>
         bit arr (if even (k div n) then k + n else k - n)"
proof -
  have d: "(k + n) div n = Suc (k div n)" using assms(3) by (simp add: div_add_self2)
  have lt: "k + n < 64" if "even (k div n)"
  proof -
    obtain c where c: "64 = 2 * n * c" using assms(4) by (elim dvdE)
    have "k div n < 2 * c" using \<open>k < 64\<close> assms(3) c
      by (simp add: div_less_iff_less_mult mult.commute mult.left_commute)
    moreover have "Suc q < 2 * c" if "even q" "q < 2 * c" for q
      using that by (auto elim!: evenE)
    ultimately have "Suc (k div n) < 2 * c" using that by blast
    then have "Suc (Suc (k div n)) * n \<le> 2 * c * n" by (intro mult_le_mono1) simp
    moreover have "k < Suc (k div n) * n" using assms(3) by (rule dividend_less_div_times [of n k, simplified mult.commute [of n], folded mult_Suc]) 
    ultimately show ?thesis using c by (simp add: algebra_simps)
  qed
  have ge: "n \<le> k" if "odd (k div n)"
    using that by (cases "k < n") simp_all
  have sub: "even ((k - n) div n) \<longleftrightarrow> odd (k div n)" if le: "n \<le> k"
  proof -
    obtain q where "k = q + n" using le_Suc_ex [OF le] by (auto simp: add.commute)
    then show ?thesis using assms(3) by (simp add: div_add_self2)
  qed
  have m: "bit m (k + n) \<longleftrightarrow> even (k div n)" if "k + n < 64" using assms(1) [OF that] d by simp
  have m': "bit m' (k - n) \<longleftrightarrow> odd (k div n)" if "n \<le> k" using assms(2) [of "k - n"] \<open>k < 64\<close> sub [OF that] by simp
  have B: "bit (drop_bit n (arr AND m) OR push_bit n (arr AND m')) k \<longleftrightarrow>
      (k + n < 64 \<and> bit arr (k + n) \<and> bit m (k + n)) \<or> (n \<le> k \<and> bit arr (k - n) \<and> bit m' (k - n))"
    using \<open>k < 64\<close> by (auto simp: bit_or_iff bit_and_iff bit_push_bit_iff bit_drop_bit_eq add.commute dest: bit_imp_le_length)
  show ?thesis
  proof (cases "even (k div n)")
    case True
    with lt [OF True] m [OF lt [OF True]] m' show ?thesis unfolding B by auto
  next
    case False
    with m m' [OF ge [OF False]] ge [OF False] show ?thesis unfolding B by auto
  qed
qed

lemma swap_halves:
  "k < 64 \<Longrightarrow> bit (drop_bit 32 arr OR push_bit 32 arr :: bit_array_t) k \<longleftrightarrow>
     bit arr (if even (k div 32) then k + 32 else k - 32)"
proof -
  assume k: "k < 64"
  show ?thesis
  proof (cases "k < 32")
    case True
    then show ?thesis by (auto simp: bit_simps add.commute dest: bit_imp_le_length)
  next
    case False
    define q where "q = k - 32"
    with False k have "k = q + 32" "q < 32" by auto
    moreover have "\<not> bit arr (64 + q)" by (auto dest: bit_imp_le_length)
    ultimately show ?thesis by (auto simp: bit_simps div_add_self2)
  qed
qed

lemma mirror_masks:
  assumes "k < 64"
  shows "bit (0xFFFF0000FFFF0000 :: bit_array_t) k \<longleftrightarrow> odd (k div 16)"
    "bit (0x0000FFFF0000FFFF :: bit_array_t) k \<longleftrightarrow> even (k div 16)"
    "bit (0xFF00FF00FF00FF00 :: bit_array_t) k \<longleftrightarrow> odd (k div 8)"
    "bit (0x00FF00FF00FF00FF :: bit_array_t) k \<longleftrightarrow> even (k div 8)"
    "bit (0xF0F0F0F0F0F0F0F0 :: bit_array_t) k \<longleftrightarrow> odd (k div 4)"
    "bit (0x0F0F0F0F0F0F0F0F :: bit_array_t) k \<longleftrightarrow> even (k div 4)"
    "bit (0xCCCCCCCCCCCCCCCC :: bit_array_t) k \<longleftrightarrow> odd (k div 2)"
    "bit (0x3333333333333333 :: bit_array_t) k \<longleftrightarrow> even (k div 2)"
    "bit (0xAAAAAAAAAAAAAAAA :: bit_array_t) k \<longleftrightarrow> odd (k div 1)"
    "bit (0x5555555555555555 :: bit_array_t) k \<longleftrightarrow> even (k div 1)"
proof -
  have "list_all (\<lambda>k. bit (0xFFFF0000FFFF0000 :: bit_array_t) k \<longleftrightarrow> odd (k div 16)) [0..<64]" by code_simp
  moreover have "list_all (\<lambda>k. bit (0x0000FFFF0000FFFF :: bit_array_t) k \<longleftrightarrow> even (k div 16)) [0..<64]" by code_simp
  moreover have "list_all (\<lambda>k. bit (0xFF00FF00FF00FF00 :: bit_array_t) k \<longleftrightarrow> odd (k div 8)) [0..<64]" by code_simp
  moreover have "list_all (\<lambda>k. bit (0x00FF00FF00FF00FF :: bit_array_t) k \<longleftrightarrow> even (k div 8)) [0..<64]" by code_simp
  moreover have "list_all (\<lambda>k. bit (0xF0F0F0F0F0F0F0F0 :: bit_array_t) k \<longleftrightarrow> odd (k div 4)) [0..<64]" by code_simp
  moreover have "list_all (\<lambda>k. bit (0x0F0F0F0F0F0F0F0F :: bit_array_t) k \<longleftrightarrow> even (k div 4)) [0..<64]" by code_simp
  moreover have "list_all (\<lambda>k. bit (0xCCCCCCCCCCCCCCCC :: bit_array_t) k \<longleftrightarrow> odd (k div 2)) [0..<64]" by code_simp
  moreover have "list_all (\<lambda>k. bit (0x3333333333333333 :: bit_array_t) k \<longleftrightarrow> even (k div 2)) [0..<64]" by code_simp
  moreover have "list_all (\<lambda>k. bit (0xAAAAAAAAAAAAAAAA :: bit_array_t) k \<longleftrightarrow> odd (k div 1)) [0..<64]" by code_simp
  moreover have "list_all (\<lambda>k. bit (0x5555555555555555 :: bit_array_t) k \<longleftrightarrow> even (k div 1)) [0..<64]" by code_simp
  ultimately show "bit (0xFFFF0000FFFF0000 :: bit_array_t) k \<longleftrightarrow> odd (k div 16)"
    "bit (0x0000FFFF0000FFFF :: bit_array_t) k \<longleftrightarrow> even (k div 16)"
    "bit (0xFF00FF00FF00FF00 :: bit_array_t) k \<longleftrightarrow> odd (k div 8)"
    "bit (0x00FF00FF00FF00FF :: bit_array_t) k \<longleftrightarrow> even (k div 8)"
    "bit (0xF0F0F0F0F0F0F0F0 :: bit_array_t) k \<longleftrightarrow> odd (k div 4)"
    "bit (0x0F0F0F0F0F0F0F0F :: bit_array_t) k \<longleftrightarrow> even (k div 4)"
    "bit (0xCCCCCCCCCCCCCCCC :: bit_array_t) k \<longleftrightarrow> odd (k div 2)"
    "bit (0x3333333333333333 :: bit_array_t) k \<longleftrightarrow> even (k div 2)"
    "bit (0xAAAAAAAAAAAAAAAA :: bit_array_t) k \<longleftrightarrow> odd (k div 1)"
    "bit (0x5555555555555555 :: bit_array_t) k \<longleftrightarrow> even (k div 1)"
    using assms by (simp_all only: list_all_iff set_upt atLeastLessThan_iff le0 simp_thms Ball_def)
qed

definition flip_group :: "nat \<Rightarrow> nat \<Rightarrow> nat" where
  "flip_group n k = (if even (k div n) then k + n else k - n)"

lemma flip_group_xor:
  assumes "k < 64"
  shows "flip_group 32 k = k XOR 32" "flip_group 16 k = k XOR 16" "flip_group 8 k = k XOR 8"
    "flip_group 4 k = k XOR 4" "flip_group 2 k = k XOR 2" "flip_group 1 k = k XOR 1"
    "k XOR 63 = 63 - k"
    "k XOR 16 < 64" "k XOR 8 < 64" "k XOR 4 < 64" "k XOR 2 < 64" "k XOR 1 < 64"
proof -
  have "list_all (\<lambda>k. flip_group 32 k = k XOR 32 \<and> flip_group 16 k = k XOR 16 \<and> flip_group 8 k = k XOR 8
    \<and> flip_group 4 k = k XOR 4 \<and> flip_group 2 k = k XOR 2 \<and> flip_group 1 k = k XOR 1
    \<and> k XOR 63 = 63 - k \<and> k XOR 16 < 64 \<and> k XOR 8 < 64 \<and> k XOR 4 < 64 \<and> k XOR 2 < 64 \<and> k XOR 1 < 64)
    [0..<64]" by code_simp
  then show "flip_group 32 k = k XOR 32" "flip_group 16 k = k XOR 16" "flip_group 8 k = k XOR 8"
    "flip_group 4 k = k XOR 4" "flip_group 2 k = k XOR 2" "flip_group 1 k = k XOR 1"
    "k XOR 63 = 63 - k"
    "k XOR 16 < 64" "k XOR 8 < 64" "k XOR 4 < 64" "k XOR 2 < 64" "k XOR 1 < 64"
    using assms by (simp_all only: list_all_iff set_upt atLeastLessThan_iff le0 simp_thms Ball_def)
qed

lemma flip_groups_mirror:
  assumes k: "k < 64"
  shows "flip_group 32 (flip_group 16 (flip_group 8 (flip_group 4 (flip_group 2 (flip_group 1 k))))) = 63 - k"
    "flip_group 16 (flip_group 8 (flip_group 4 (flip_group 2 (flip_group 1 k)))) < 64"
    "flip_group 8 (flip_group 4 (flip_group 2 (flip_group 1 k))) < 64"
    "flip_group 4 (flip_group 2 (flip_group 1 k)) < 64"
    "flip_group 2 (flip_group 1 k) < 64"
    "flip_group 1 k < 64"
proof -
  note l1 = flip_group_xor(12) [OF k]
  note l2 = flip_group_xor(11) [OF l1]
  note l3 = flip_group_xor(10) [OF l2]
  note l4 = flip_group_xor(9) [OF l3]
  note lt = l1 l2 l3 l4 flip_group_xor(8) [OF l4]
  have e: "(1 XOR (2 XOR (4 XOR (8 XOR (16 XOR 32)))) :: nat) = 63" by code_simp
  show "flip_group 32 (flip_group 16 (flip_group 8 (flip_group 4 (flip_group 2 (flip_group 1 k))))) = 63 - k"
    by (simp only: flip_group_xor k lt) (simp only: xor.assoc e flip_group_xor(7) [OF k])
  show "flip_group 16 (flip_group 8 (flip_group 4 (flip_group 2 (flip_group 1 k)))) < 64"
    "flip_group 8 (flip_group 4 (flip_group 2 (flip_group 1 k))) < 64"
    "flip_group 4 (flip_group 2 (flip_group 1 k)) < 64"
    "flip_group 2 (flip_group 1 k) < 64" "flip_group 1 k < 64"
    by (simp_all only: flip_group_xor k lt)
qed

lemmas swap_mask = swap_groups [folded flip_group_def, OF mirror_masks(1,2)]
  swap_groups [folded flip_group_def, OF mirror_masks(3,4)]
  swap_groups [folded flip_group_def, OF mirror_masks(5,6)]
  swap_groups [folded flip_group_def, OF mirror_masks(7,8)]
  swap_groups [folded flip_group_def, OF mirror_masks(9,10)]

lemma BitsArrMirror_bit:
  assumes k: "k < 64"
  shows "bit (BitsArrMirror arr) k \<longleftrightarrow> bit arr (63 - k)"
proof -
  note f = flip_groups_mirror [OF k]
  have d: "2 * 16 dvd (64::nat)" "2 * 8 dvd (64::nat)" "2 * 4 dvd (64::nat)" "2 * 2 dvd (64::nat)" "2 * 1 dvd (64::nat)"
    by simp_all
  show ?thesis
    unfolding BitsArrMirror_def Let_def
    using f d k
    by (simp only: swap_mask zero_less_numeral zero_less_one swap_halves [folded flip_group_def])
qed

lemma lut_mirror_bit:
  assumes "n < 16" and "i < 64"
  shows "bit (arr_lut_mirror ! n) i \<longleftrightarrow> i < 4 \<and> bit n (3 - i)"
proof -
  have "list_all (\<lambda>n. list_all (\<lambda>i. bit (arr_lut_mirror ! n) i \<longleftrightarrow> i < 4 \<and> bit n (3 - i)) [0..<64]) [0..<16]"
    by code_simp
  then show ?thesis using assms by (simp_all only: list_all_iff set_upt atLeastLessThan_iff le0 simp_thms Ball_def)
qed

lemma bit_nibble: "i < 4 \<Longrightarrow> bit (unat (arr AND 0xf :: bit_array_t)) i \<longleftrightarrow> bit arr i"
proof -
  have "arr AND 0xf = take_bit 4 arr" by (simp add: take_bit_eq_mask mask_numeral)
  then show "i < 4 \<Longrightarrow> ?thesis" by (simp add: bit_unsigned_iff bit_take_bit_iff)
qed

lemma nibble_less: "unat (arr AND 0xf :: bit_array_t) < 16"
proof -
  have "arr AND 0xf \<le> (0xf :: bit_array_t)" by (rule word_and_le1)
  then show ?thesis by (simp add: word_le_nat_alt)
qed

lemma mirror_lut_loop_bit:
  "j < 64 \<Longrightarrow> 4 * k \<le> 64 \<Longrightarrow> bit (mirror_lut_loop k arr m) j \<longleftrightarrow>
     (if j < 4 * k then bit arr (4 * k - 1 - j) else bit m (j - 4 * k))"
proof (induction k arbitrary: arr m)
  case 0
  then show ?case by simp
next
  case (Suc k)
  let ?m = "push_bit 4 m OR arr_lut_mirror ! unat (arr AND 0xf)"
  have IH: "bit (mirror_lut_loop (Suc k) arr m) j \<longleftrightarrow>
     (if j < 4 * k then bit (drop_bit 4 arr) (4 * k - 1 - j) else bit ?m (j - 4 * k))"
    using Suc by simp
  consider (a) "j < 4 * k" | (b) "4 * k \<le> j" "j < 4 * k + 4" | (c) "4 * k + 4 \<le> j" by linarith
  then show ?case
  proof cases
    case a
    then have "4 + (4 * k - 1 - j) = 4 * Suc k - 1 - j" by simp
    with a IH show ?thesis by (simp add: bit_simps)
  next
    case b
    then have "j - 4 * k < 4" "3 - (j - 4 * k) = 4 * Suc k - 1 - j" "j - 4 * k < 64" using Suc.prems by auto
    with b IH show ?thesis
      by (simp add: bit_or_iff bit_push_bit_iff lut_mirror_bit [OF nibble_less] bit_nibble del: bit_unsigned_iff)
  next
    case c
    then have "j - 4 * k - 4 = j - 4 * Suc k" "\<not> j - 4 * k < 4" "j - 4 * k < 64" using Suc.prems by auto
    with c IH show ?thesis by (auto simp add: bit_simps lut_mirror_bit [OF nibble_less])
  qed
qed

lemma BitsArrMirrorLut_eq: "BitsArrMirrorLut arr = BitsArrMirror arr"
  by (intro bit_word_eqI) (simp add: BitsArrMirrorLut_def mirror_lut_loop_bit BitsArrMirror_bit)

text \<open>The mirror, computed with six rounds of masks and shifts, moves the bit at index \<open>63 - k\<close>
  to index \<open>k\<close>; it is its own inverse, and the table-driven version computes the same word.\<close>

theorem BitsArrMirror_reverses:
  "(\<forall>k<64. bit (BitsArrMirror arr) k \<longleftrightarrow> bit arr (63 - k)) \<and> BitsArrMirror (BitsArrMirror arr) = arr
     \<and> BitsArrMirrorLut arr = BitsArrMirror arr"
  by (auto simp: BitsArrMirror_bit BitsArrMirrorLut_eq intro!: bit_word_eqI)

lemma BitsArrMirror_reverses_witness: "bit (BitsArrMirror 1) 63 \<and> BitsArrMirrorLut 1 = BitsArrMirror 1"
  using BitsArrMirror_reverses [of 1] by (simp add: bit_1_iff)

section \<open>Text\<close>

lemma to_string_loop_eq:
  "i \<le> length dest \<Longrightarrow> i \<le> 64 \<Longrightarrow> to_string_loop i arr dest =
     Some (rev (map (\<lambda>k. if bit arr k then CHR ''1'' else CHR ''0'') [0..<i]) @ drop i dest)"
proof (induction i arbitrary: arr dest)
  case 0
  then show ?case by simp
next
  case (Suc i)
  let ?c = "if bit arr 0 then CHR ''1'' else CHR ''0''"
  have "arr AND 1 = 1 \<longleftrightarrow> bit arr 0" by (simp add: and_one_eq bit_0 odd_iff_mod_2_eq_one)
  moreover have "drop i (dest[i := ?c]) = ?c # drop (Suc i) dest"
    using Suc.prems by (simp add: Cons_nth_drop_Suc [symmetric] drop_update_cancel)
  moreover have "rev (map (\<lambda>k. if bit arr k then CHR ''1'' else CHR ''0'') [0..<Suc i]) =
      rev (map (\<lambda>k. if bit (drop_bit 1 arr) k then CHR ''1'' else CHR ''0'') [0..<i]) @ [?c]"
    by (simp add: upt_conv_Cons map_Suc_upt [symmetric] bit_drop_bit_eq comp_def del: upt_Suc)
  ultimately show ?case using Suc by simp
qed


lemma BitsArrToString_eq:
  "65 \<le> length dest \<Longrightarrow> BitsArrToString arr dest =
     Some (rev (map (\<lambda>k. if bit arr k then CHR ''1'' else CHR ''0'') [0..<64]) @ CHR 0x00 # drop 65 dest)"
proof -
  assume "65 \<le> length dest"
  then have "drop 64 (dest[64 := CHR 0x00]) = CHR 0x00 # drop 65 dest"
    using Cons_nth_drop_Suc [of 64 "dest[64 := CHR 0x00]"] by simp
  with \<open>65 \<le> length dest\<close> show ?thesis
    by (simp add: BitsArrToString_def SIZE_OF_BIT_ARRAY_def to_string_loop_eq)
qed

lemma BitsArrToString_short: "length dest \<le> 64 \<Longrightarrow> BitsArrToString arr dest = None"
  by (simp add: BitsArrToString_def SIZE_OF_BIT_ARRAY_def)

end
