(* ===== verification/CircularBuffer.thy ===== *)
theory CircularBuffer
  imports Prelude
begin

text \<open>
  The byte ring of \<open>ds/circular_buffer/circular_buffer.c\<close>. A buffer of capacity \<open>n\<close> holds \<open>n + 1\<close>
  cells, one of which stays free so that equal indices mean empty. Reads and writes are two
  \<open>memcpy\<close> calls around the end of the array. The abstraction is the list of bytes between the
  read and the write index; reading and writing are dropping from its front and appending to it.
\<close>

section \<open>State and operations\<close>

record CBuffer =
  cb_capacity :: nat
  cb_read_index :: nat
  cb_write_index :: nat
  cb_buffer_array :: "char list"

definition FREE_BYTE :: nat where
  "FREE_BYTE = 1"

text \<open>\<open>memcpy(dst + doff, src + soff, n)\<close> between two arrays.\<close>

definition copied :: "char list \<Rightarrow> nat \<Rightarrow> char list \<Rightarrow> nat \<Rightarrow> nat \<Rightarrow> char list" where
  "copied dst doff src soff n = take doff dst @ take n (drop soff src) @ drop (doff + n) dst"

definition memcpy :: "char list \<Rightarrow> nat \<Rightarrow> char list \<Rightarrow> nat \<Rightarrow> nat \<Rightarrow> char list option" where
  "memcpy dst doff src soff n =
     (if doff + n \<le> length dst \<and> soff + n \<le> length src
      then Some (copied dst doff src soff n) else None)"

definition szmod :: "nat \<Rightarrow> nat \<Rightarrow> nat option" where
  "szmod a b = (if b = 0 then None else Some (a mod b))"

text \<open>The answer of \<open>malloc\<close> is NULL or the cells of \<open>buffer_array\<close>, with arbitrary contents.\<close>

definition CBufferCreate :: "char list option \<Rightarrow> nat \<Rightarrow> CBuffer option" where
  "CBufferCreate mem cap =
     (case mem of None \<Rightarrow> None
      | Some cells \<Rightarrow> Some \<lparr>cb_capacity = (cap + FREE_BYTE) mod 2 ^ 64, cb_read_index = 0,
                            cb_write_index = 0, cb_buffer_array = cells\<rparr>)"

definition CBufferSize :: "CBuffer \<Rightarrow> nat option" where
  "CBufferSize c =
     szmod ((szsub (cb_write_index c) (cb_read_index c) + cb_capacity c) mod 2 ^ 64) (cb_capacity c)"

definition CBufferIsEmpty :: "CBuffer \<Rightarrow> bool option" where
  "CBufferIsEmpty c = do { n \<leftarrow> CBufferSize c; Some (n = 0) }"

definition CBufferFreeSpace :: "CBuffer \<Rightarrow> nat option" where
  "CBufferFreeSpace c = do { n \<leftarrow> CBufferSize c; Some (szsub (szsub (cb_capacity c) FREE_BYTE) n) }"

definition CBufferRead :: "CBuffer \<Rightarrow> char list \<Rightarrow> nat \<Rightarrow> (nat \<times> char list \<times> CBuffer) option" where
  "CBufferRead c output count_bytes = do {
     size \<leftarrow> CBufferSize c;
     let count_bytes = min size count_bytes;
     let first = min count_bytes (szsub (cb_capacity c) (cb_read_index c));
     output \<leftarrow> memcpy output 0 (cb_buffer_array c) (cb_read_index c) first;
     let c = c\<lparr>cb_read_index := cb_read_index c + first\<rparr>;
     let second = szsub count_bytes first;
     output \<leftarrow> memcpy output first (cb_buffer_array c) 0 second;
     r \<leftarrow> szmod (cb_read_index c + second) (cb_capacity c);
     Some (count_bytes, output, c\<lparr>cb_read_index := r\<rparr>)
   }"

definition CBufferWrite :: "CBuffer \<Rightarrow> char list \<Rightarrow> nat \<Rightarrow> (nat \<times> CBuffer) option" where
  "CBufferWrite c input count_bytes = do {
     free \<leftarrow> CBufferFreeSpace c;
     let count_bytes = min free count_bytes;
     let first = min count_bytes (szsub (cb_capacity c) (cb_write_index c));
     cells \<leftarrow> memcpy (cb_buffer_array c) (cb_write_index c) input 0 first;
     let c = c\<lparr>cb_buffer_array := cells, cb_write_index := cb_write_index c + first\<rparr>;
     let second = szsub count_bytes first;
     cells \<leftarrow> memcpy (cb_buffer_array c) 0 input first second;
     w \<leftarrow> szmod (cb_write_index c + second) (cb_capacity c);
     Some (count_bytes, c\<lparr>cb_buffer_array := cells, cb_write_index := w\<rparr>)
   }"

section \<open>Invariant and abstraction\<close>

definition cb_inv :: "CBuffer \<Rightarrow> bool" where
  "cb_inv c \<longleftrightarrow> 0 < cb_capacity c \<and> cb_capacity c < 2 ^ 63 \<and> cb_read_index c < cb_capacity c
     \<and> cb_write_index c < cb_capacity c \<and> length (cb_buffer_array c) = cb_capacity c"

definition cb_len :: "CBuffer \<Rightarrow> nat" where
  "cb_len c = (cb_write_index c + cb_capacity c - cb_read_index c) mod cb_capacity c"

definition cb_abs :: "CBuffer \<Rightarrow> char list" where
  "cb_abs c = map (\<lambda>i. cb_buffer_array c ! ((cb_read_index c + i) mod cb_capacity c)) [0..<cb_len c]"

lemma length_cb_abs [simp]: "length (cb_abs c) = cb_len c"
  by (simp add: cb_abs_def)

lemma nth_cb_abs:
  "i < cb_len c \<Longrightarrow>
   cb_abs c ! i = cb_buffer_array c ! ((cb_read_index c + i) mod cb_capacity c)"
  by (simp add: cb_abs_def)

lemma cb_len_less: "cb_inv c \<Longrightarrow> cb_len c < cb_capacity c"
  by (simp add: cb_inv_def cb_len_def)

lemma ring_distance:
  "r < cap \<Longrightarrow> w < cap \<Longrightarrow> (w + cap - r) mod cap = (if r \<le> w then w - r else w + cap - r :: nat)"
proof (cases "r \<le> w")
  case True
  moreover assume "r < cap" "w < cap"
  ultimately have "w + cap - r = (w - r) + cap" and "w - r < cap" by auto
  with True show ?thesis by (metis mod_add_self2 mod_less)
qed simp

lemma cb_len_cases:
  "cb_inv c \<Longrightarrow> cb_len c = (if cb_read_index c \<le> cb_write_index c
     then cb_write_index c - cb_read_index c
     else cb_write_index c + cb_capacity c - cb_read_index c)"
  by (simp add: cb_inv_def cb_len_def ring_distance)

lemma size_no_wrap:
  assumes "r < cap" and "w < cap" and "cap < 2 ^ 63"
  shows "(szsub w r + cap) mod 2 ^ 64 = w + cap - r"
proof (cases "r \<le> w")
  case True
  have "w < 2 ^ 64" and "w - r + cap < 2 ^ 64" using assms by auto
  with True show ?thesis by (simp only: szsub_ge mod_less)
next
  case False
  have "w + (2 ^ 64 - r) < 2 ^ 64" using False assms by auto
  then have "szsub w r = w + (2 ^ 64 - r)" by (simp only: szsub_def mod_less)
  moreover have "w + (2 ^ 64 - r) + cap = (w + cap - r) + 2 ^ 64" and "w + cap - r < 2 ^ 64"
    using False assms by auto
  ultimately show ?thesis by (simp only: mod_add_self2 mod_less)
qed

lemma CBufferSize_eq: "cb_inv c \<Longrightarrow> CBufferSize c = Some (cb_len c)"
  by (simp add: CBufferSize_def szmod_def cb_len_def cb_inv_def size_no_wrap del: power_numeral numeral_power_eq_of_nat_cancel_iff)

lemma CBufferFreeSpace_eq:
  "cb_inv c \<Longrightarrow> CBufferFreeSpace c = Some (cb_capacity c - 1 - cb_len c)"
proof -
  assume inv: "cb_inv c"
  then have "0 < cb_capacity c" "cb_capacity c < 2 ^ 63" "cb_len c < cb_capacity c"
    using cb_len_less [OF inv] by (simp_all add: cb_inv_def)
  then have "szsub (cb_capacity c) 1 = cb_capacity c - 1"
    "szsub (cb_capacity c - 1) (cb_len c) = cb_capacity c - 1 - cb_len c"
    by (simp_all add: szsub_ge)
  then show ?thesis by (simp only: CBufferFreeSpace_def CBufferSize_eq [OF inv] FREE_BYTE_def bind.bind_lunit)
qed

section \<open>Copying around the end of the array\<close>

lemma memcpy_Some:
  "doff + n \<le> length dst \<Longrightarrow> soff + n \<le> length src \<Longrightarrow>
   memcpy dst doff src soff n = Some (copied dst doff src soff n)"
  by (simp add: memcpy_def)

lemma length_copied:
  "doff + n \<le> length dst \<Longrightarrow> soff + n \<le> length src \<Longrightarrow> length (copied dst doff src soff n) = length dst"
  by (simp add: copied_def)

lemma nth_copied:
  assumes "doff + n \<le> length dst" and "soff + n \<le> length src" and "j < length dst"
  shows "copied dst doff src soff n ! j =
    (if doff \<le> j \<and> j < doff + n then src ! (soff + (j - doff)) else dst ! j)"
proof -
  consider "j < doff" | "doff \<le> j" "j < doff + n" | "doff + n \<le> j" by linarith
  then show ?thesis
  proof cases
    case 3
    then obtain q where "j = doff + n + q" using le_Suc_ex by blast
    with assms show ?thesis by (simp add: nth_append copied_def)
  qed (use assms in \<open>auto simp: nth_append copied_def\<close>)
qed

lemma add_mod_wrap:
  "a < m \<Longrightarrow> b < m \<Longrightarrow> (a + b) mod m = (if a + b < m then a + b else a + b - (m::nat))"
  using ring_distance [of 0 m] by (auto simp: le_mod_geq)

text \<open>The array after \<open>k\<close> bytes of \<open>input\<close> are copied in at index \<open>w\<close>, around the end.\<close>

definition ring_put :: "char list \<Rightarrow> nat \<Rightarrow> char list \<Rightarrow> nat \<Rightarrow> char list" where
  "ring_put cells w input k =
     map (\<lambda>j. if j < k - min k (length cells - w) then input ! (min k (length cells - w) + j)
              else if w \<le> j \<and> j < w + min k (length cells - w) then input ! (j - w)
              else cells ! j) [0..<length cells]"

lemma ring_put_at:
  assumes "w < length cells" and "k < length cells" and "t < k"
  shows "ring_put cells w input k ! ((w + t) mod length cells) = input ! t"
proof -
  have "(w + t) mod length cells = (if w + t < length cells then w + t else w + t - length cells)"
    using assms by (intro add_mod_wrap) auto
  with assms show ?thesis by (auto simp: ring_put_def min_def)
qed

lemma ring_put_other:
  assumes "r < length cells" and "n + k < length cells" and "w = (r + n) mod length cells" and "i < n"
  shows "ring_put cells w input k ! ((r + i) mod length cells) = cells ! ((r + i) mod length cells)"
proof -
  have w: "w = (if r + n < length cells then r + n else r + n - length cells)"
    unfolding assms(3) using assms(1,2) by (intro add_mod_wrap) auto
  have "(r + i) mod length cells = (if r + i < length cells then r + i else r + i - length cells)"
    using assms by (intro add_mod_wrap) auto
  moreover have "w < length cells" using w assms(1,2) by auto
  ultimately show ?thesis using w assms(1,2,4) by (auto simp: ring_put_def min_def)
qed

lemma CBufferWrite_eq:
  assumes inv: "cb_inv c" and k: "k = min (cb_capacity c - 1 - cb_len c) n" and len: "k \<le> length input"
  shows "CBufferWrite c input n = Some (k, c\<lparr>cb_buffer_array := ring_put (cb_buffer_array c) (cb_write_index c) input k,
     cb_write_index := (cb_write_index c + k) mod cb_capacity c\<rparr>)"
proof -
  have ks: "min (cb_capacity c - Suc (cb_len c)) n = k" using k by simp
  let ?w = "cb_write_index c" and ?cap = "cb_capacity c" and ?b = "cb_buffer_array c"
  define first where "first = min k (?cap - ?w)"
  have bnd: "?w < ?cap" "length ?b = ?cap" "?cap < 2 ^ 63" "k < ?cap" "first \<le> k" "first \<le> ?cap - ?w"
    using inv k by (auto simp: cb_inv_def first_def)
  have sub: "szsub ?cap ?w = ?cap - ?w" "szsub k first = k - first" using bnd by (auto simp: szsub_ge)
  let ?b1 = "copied ?b ?w input 0 first"
  let ?b2 = "copied ?b1 0 input first (k - first)"
  have l1: "length ?b1 = ?cap" using bnd len by (subst length_copied) auto
  have m1: "memcpy ?b ?w input 0 first = Some ?b1"
    using bnd len by (intro memcpy_Some) auto
  have m2: "memcpy ?b1 0 input first (k - first) = Some ?b2"
    using bnd len l1 by (intro memcpy_Some) auto
  have "?b2 = ring_put ?b ?w input k"
  proof (rule nth_equalityI)
    have "length ?b2 = ?cap" using l1 bnd len by (subst length_copied) auto
    then show "length ?b2 = length (ring_put ?b ?w input k)" using bnd by (simp add: ring_put_def)
    fix j assume "j < length ?b2"
    with \<open>length ?b2 = ?cap\<close> have j: "j < ?cap" by simp
    have "?b2 ! j = (if 0 \<le> j \<and> j < 0 + (k - first) then input ! (first + (j - 0)) else ?b1 ! j)"
      by (rule nth_copied) (use l1 bnd len j in auto)
    moreover have "?b1 ! j = (if ?w \<le> j \<and> j < ?w + first then input ! (0 + (j - ?w)) else ?b ! j)"
      by (rule nth_copied) (use bnd len j in auto)
    ultimately show "?b2 ! j = ring_put ?b ?w input k ! j"
      using j bnd by (simp add: ring_put_def flip: first_def)
  qed
  moreover have "?w + first + (k - first) = ?w + k" using bnd by simp
  ultimately show ?thesis
    using bnd(1) by (simp add: CBufferWrite_def CBufferFreeSpace_eq [OF inv] Let_def szmod_def m1 m2 sub
        first_def [symmetric] ks)
qed

lemma CBufferRead_eq:
  assumes inv: "cb_inv c" and k: "k = min (cb_len c) n" and len: "k \<le> length output"
  shows "CBufferRead c output n = Some (k, take k (cb_abs c) @ drop k output,
     c\<lparr>cb_read_index := (cb_read_index c + k) mod cb_capacity c\<rparr>)"
proof -
  let ?r = "cb_read_index c" and ?cap = "cb_capacity c" and ?b = "cb_buffer_array c"
  define first where "first = min k (?cap - ?r)"
  have bnd: "?r < ?cap" "length ?b = ?cap" "?cap < 2 ^ 63" "k < ?cap" "first \<le> k" "first \<le> ?cap - ?r"
    "k \<le> cb_len c"
    using inv k cb_len_less [OF inv] by (auto simp: cb_inv_def first_def)
  have sub: "szsub ?cap ?r = ?cap - ?r" "szsub k first = k - first" using bnd by (auto simp: szsub_ge)
  let ?o1 = "copied output 0 ?b ?r first"
  let ?o2 = "copied ?o1 first ?b 0 (k - first)"
  have l1: "length ?o1 = length output" using bnd len by (subst length_copied) auto
  have m1: "memcpy output 0 ?b ?r first = Some ?o1" using bnd len by (intro memcpy_Some) auto
  have m2: "memcpy ?o1 first ?b 0 (k - first) = Some ?o2" using bnd len l1 by (intro memcpy_Some) auto
  have "?o2 = take k (cb_abs c) @ drop k output"
  proof (rule nth_equalityI)
    have l2: "length ?o2 = length output" using l1 bnd len by (subst length_copied) auto
    then show "length ?o2 = length (take k (cb_abs c) @ drop k output)" using bnd len by simp
    fix j assume "j < length ?o2"
    with l2 have j: "j < length output" by simp
    have "?o2 ! j = (if first \<le> j \<and> j < first + (k - first) then ?b ! (0 + (j - first)) else ?o1 ! j)"
      by (rule nth_copied) (use l1 bnd len j in auto)
    moreover have "?o1 ! j = (if 0 \<le> j \<and> j < 0 + first then ?b ! (?r + (j - 0)) else output ! j)"
      by (rule nth_copied) (use bnd len j in auto)
    moreover have "cb_abs c ! j = ?b ! (if ?r + j < ?cap then ?r + j else ?r + j - ?cap)" if "j < k"
      using that bnd by (simp add: cb_abs_def add_mod_wrap)
    ultimately show "?o2 ! j = (take k (cb_abs c) @ drop k output) ! j"
      using j bnd len by (auto simp: nth_append min_def first_def add.commute)
  qed
  moreover have "?r + first + (k - first) = ?r + k" using bnd by simp
  ultimately show ?thesis
    using bnd(1) by (simp add: CBufferRead_def CBufferSize_eq [OF inv] Let_def szmod_def m1 m2 sub
        first_def [symmetric] k [symmetric])
qed

section \<open>Properties\<close>

lemma cb_len_write:
  assumes "r < cap" and "w < cap" and "(w + cap - r) mod cap + k < (cap::nat)"
  shows "((w + k) mod cap + cap - r) mod cap = (w + cap - r) mod cap + k"
proof -
  have "((w + k) mod cap + (cap - r)) mod cap = (w + k + (cap - r)) mod cap" by (rule mod_add_left_eq)
  also have "w + k + (cap - r) = (w + (cap - r)) + k" by simp
  also have "((w + (cap - r)) + k) mod cap = ((w + (cap - r)) mod cap + k) mod cap"
    by (rule mod_add_left_eq [symmetric])
  finally show ?thesis using assms by simp
qed

lemma cb_write_index_eq:
  assumes "cb_inv c"
  shows "cb_write_index c = (cb_read_index c + cb_len c) mod cb_capacity c"
  using assms cb_len_less [OF assms] cb_len_cases [OF assms]
  by (auto simp: add_mod_wrap cb_inv_def)


text \<open>C14. Writing into a well-formed ring stores as many of the \<open>n\<close> bytes as there are free cells
  and returns that number; the contents grow at the back by exactly those bytes, and the ring stays
  well-formed. No byte outside the array is touched (the run is not a fault).\<close>

theorem CBufferWrite_appends:
  assumes inv: "cb_inv c" and len: "min (cb_capacity c - 1 - cb_len c) n \<le> length input"
  shows "\<exists>c'. CBufferWrite c input n = Some (min (cb_capacity c - 1 - cb_len c) n, c') \<and> cb_inv c' \<and>
    cb_capacity c' = cb_capacity c \<and>
    cb_abs c' = cb_abs c @ take (min (cb_capacity c - 1 - cb_len c) n) input"
proof -
  define k where "k = min (cb_capacity c - 1 - cb_len c) n"
  let ?cap = "cb_capacity c" and ?r = "cb_read_index c" and ?b = "cb_buffer_array c"
  let ?c = "c\<lparr>cb_buffer_array := ring_put ?b (cb_write_index c) input k,
     cb_write_index := (cb_write_index c + k) mod ?cap\<rparr>"
  note lt = cb_len_less [OF inv]
  have sum: "cb_len c + k < ?cap" using lt by (auto simp: k_def)
  have lk: "k \<le> length input" using len by (simp add: k_def)
  have bnd: "?r < ?cap" "cb_write_index c < ?cap" "length ?b = ?cap" using inv by (auto simp: cb_inv_def)
  have inv': "cb_inv ?c" using inv by (auto simp: cb_inv_def ring_put_def)
  have len': "cb_len ?c = cb_len c + k"
    using cb_len_write [OF bnd(1,2)] sum by (simp add: cb_len_def)
  have w: "cb_write_index c = (?r + cb_len c) mod ?cap" by (rule cb_write_index_eq [OF inv])
  have "cb_abs ?c = cb_abs c @ take k input"
  proof (rule nth_equalityI)
    show "length (cb_abs ?c) = length (cb_abs c @ take k input)" using lk by (simp add: len')
    fix i assume "i < length (cb_abs ?c)"
    then have i: "i < cb_len c + k" by (simp add: len')
    have n: "cb_abs ?c ! i = ring_put ?b (cb_write_index c) input k ! ((?r + i) mod ?cap)"
      using nth_cb_abs [of i ?c] i len' by simp
    show "cb_abs ?c ! i = (cb_abs c @ take k input) ! i"
    proof (cases "i < cb_len c")
      case True
      have "ring_put ?b (cb_write_index c) input k ! ((?r + i) mod length ?b) = ?b ! ((?r + i) mod length ?b)"
        by (rule ring_put_other [of _ _ "cb_len c"]) (use bnd sum w True in auto)
      with True n bnd show ?thesis by (simp add: nth_append nth_cb_abs)
    next
      case False
      then obtain t where t: "i = cb_len c + t" "t < k" using i le_Suc_ex [of "cb_len c" i] by auto
      have "(?r + i) mod ?cap = (?r + cb_len c + t) mod ?cap" by (simp only: t(1) add.assoc)
      also have "\<dots> = (cb_write_index c + t) mod ?cap" by (simp only: w mod_add_left_eq)
      finally have "(?r + i) mod ?cap = (cb_write_index c + t) mod ?cap" .
      moreover have "ring_put ?b (cb_write_index c) input k ! ((cb_write_index c + t) mod length ?b) = input ! t"
        by (rule ring_put_at) (use bnd sum t in auto)
      ultimately show ?thesis using n bnd t lk by (simp add: nth_append)
    qed
  qed
  with CBufferWrite_eq [OF inv k_def] len inv' show ?thesis by (auto simp: k_def)
qed

text \<open>Reading from a well-formed ring returns as many of the \<open>n\<close> bytes as it holds: they are the
  oldest bytes, copied to the front of \<open>output\<close> with the rest of \<open>output\<close> untouched, and the ring
  keeps exactly the younger ones.\<close>

theorem CBufferRead_drops:
  assumes inv: "cb_inv c" and len: "min (cb_len c) n \<le> length output"
  shows "\<exists>c'. CBufferRead c output n =
      Some (min (cb_len c) n, take (min (cb_len c) n) (cb_abs c) @ drop (min (cb_len c) n) output, c') \<and>
    cb_inv c' \<and> cb_capacity c' = cb_capacity c \<and> cb_abs c' = drop (min (cb_len c) n) (cb_abs c)"
proof -
  define k where "k = min (cb_len c) n"
  let ?cap = "cb_capacity c" and ?r = "cb_read_index c" and ?w = "cb_write_index c"
  let ?c = "c\<lparr>cb_read_index := (?r + k) mod ?cap\<rparr>"
  note lt = cb_len_less [OF inv]
  have bnd: "?r < ?cap" "?w < ?cap" "k \<le> cb_len c" using inv by (auto simp: cb_inv_def k_def)
  have inv': "cb_inv ?c" using inv by (auto simp: cb_inv_def)
  have "cb_len c < ?cap" by (rule lt)
  have len': "cb_len ?c = cb_len c - k"
    using cb_len_cases [OF inv] cb_len_cases [OF inv'] lt bnd
    by (auto simp: add_mod_wrap split: if_splits)
  have "cb_abs ?c = drop k (cb_abs c)"
  proof (rule nth_equalityI)
    show "length (cb_abs ?c) = length (drop k (cb_abs c))" by (simp add: len')
    fix i assume "i < length (cb_abs ?c)"
    then have "i < cb_len c - k" "k + i < cb_len c" by (auto simp: len')
    moreover have "((?r + k) mod ?cap + i) mod ?cap = (?r + (k + i)) mod ?cap"
      by (simp add: mod_add_left_eq add.assoc)
    ultimately show "cb_abs ?c ! i = drop k (cb_abs c) ! i" by (simp add: cb_abs_def len')
  qed
  with CBufferRead_eq [OF inv k_def] len inv' show ?thesis by (auto simp: k_def)
qed

definition ring_example :: CBuffer where
  "ring_example = \<lparr>cb_capacity = 4, cb_read_index = 2, cb_write_index = 0, cb_buffer_array = ''dcab''\<rparr>"

lemma ring_example: "cb_inv ring_example" "cb_len ring_example = 2" "cb_capacity ring_example = 4"
  by (simp_all add: ring_example_def cb_inv_def cb_len_def)

theorem CBufferWrite_appends_witness:
  "\<exists>c'. CBufferWrite ring_example ''xyz'' 3 = Some (min (cb_capacity ring_example - 1 - cb_len ring_example) 3, c')
     \<and> cb_inv c' \<and> cb_capacity c' = cb_capacity ring_example \<and> cb_abs c' = cb_abs ring_example @
       take (min (cb_capacity ring_example - 1 - cb_len ring_example) 3) ''xyz''"
  by (rule CBufferWrite_appends) (simp_all add: ring_example)

theorem CBufferRead_drops_witness:
  "\<exists>c'. CBufferRead ring_example ''___'' 3 =
      Some (min (cb_len ring_example) 3, take (min (cb_len ring_example) 3) (cb_abs ring_example)
         @ drop (min (cb_len ring_example) 3) ''___'', c') \<and>
    cb_inv c' \<and> cb_capacity c' = cb_capacity ring_example \<and>
    cb_abs c' = drop (min (cb_len ring_example) 3) (cb_abs ring_example)"
  by (rule CBufferRead_drops) (simp_all add: ring_example)

lemma CBufferCreate_inv:
  assumes "cap + 1 < 2 ^ 63" and "length cells = cap + 1"
  shows "\<exists>c. CBufferCreate (Some cells) cap = Some c \<and> cb_inv c \<and> cb_abs c = [] \<and> cb_capacity c = cap + 1"
proof -
  have "(cap + 1) mod 2 ^ 64 = cap + 1" using assms(1) by (intro mod_less) auto
  with assms show ?thesis by (auto simp: CBufferCreate_def FREE_BYTE_def cb_inv_def cb_abs_def cb_len_def)
qed

lemma CBufferIsEmpty_iff: "cb_inv c \<Longrightarrow> CBufferIsEmpty c = Some (cb_abs c = [])"
  by (simp add: CBufferIsEmpty_def CBufferSize_eq cb_abs_def)

end
