(* ===== verification/Stacks.thy ===== *)
theory Stacks
  imports Prelude
begin

text \<open>
  The two implementations of \<open>stack.h\<close>: \<open>ds/stack/stack.c\<close> (a struct with an array and an index)
  and \<open>ds/stack/advanced/stack_advanced.c\<close> (one block of words, of which the first two hold the
  capacity and the index). The locale \<open>bounded_stack\<close> states what a client of \<open>stack.h\<close> may rely on,
  with the elements as a list whose head is the top; both implementations interpret it. Its client
  is \<open>SortStack\<close> of \<open>c/recursion/recursion.c\<close>, written against the operations of the header and
  proved to sort once, inside the locale.
\<close>

section \<open>The array stack\<close>

record 'v stack =
  stack_elements :: "'v option list"
  stack_pointer :: int
  stack_capacity :: nat

text \<open>The two answers of \<open>malloc\<close>: for the struct and for the array of elements.\<close>

definition StackCreate :: "bool \<Rightarrow> bool \<Rightarrow> nat \<Rightarrow> 'v stack option" where
  "StackCreate mem1 mem2 cap =
     (if \<not> mem1 then None
      else if \<not> mem2 then None
      else Some \<lparr>stack_elements = replicate cap None, stack_pointer = - 1, stack_capacity = cap\<rparr>)"

definition StackPop :: "'v stack \<Rightarrow> 'v stack option" where
  "StackPop s = do {
     c_assert (- 1 \<noteq> stack_pointer s);
     p \<leftarrow> int32 (stack_pointer s - 1);
     Some (s\<lparr>stack_pointer := p\<rparr>)
   }"

definition StackPush :: "'v stack \<Rightarrow> 'v \<Rightarrow> 'v stack option" where
  "StackPush s element = do {
     c_assert (stack_capacity s \<noteq> (nat (stack_pointer s mod 2 ^ 64) + 1) mod 2 ^ 64);
     p \<leftarrow> int32 (stack_pointer s + 1);
     let s = s\<lparr>stack_pointer := p\<rparr>;
     c_assert (0 \<le> stack_pointer s);
     cells \<leftarrow> aset (stack_elements s) (nat (stack_pointer s)) (Some element);
     Some (s\<lparr>stack_elements := cells\<rparr>)
   }"

definition StackPeek :: "'v stack \<Rightarrow> 'v option" where
  "StackPeek s = do {
     c_assert (0 \<le> stack_pointer s);
     cget (stack_elements s) (nat (stack_pointer s))
   }"

definition StackSize :: "'v stack \<Rightarrow> nat option" where
  "StackSize s = do { n \<leftarrow> int32 (stack_pointer s + 1); Some (nat (n mod 2 ^ 64)) }"

definition StackIsEmpty :: "'v stack \<Rightarrow> bool" where
  "StackIsEmpty s \<longleftrightarrow> stack_pointer s = - 1"

definition StackCapacity :: "'v stack \<Rightarrow> nat" where
  "StackCapacity s = stack_capacity s"

text \<open>The index is an \<open>int\<close>, so a stack never holds more than \<open>2 ^ 31\<close> elements, whatever its capacity.\<close>

definition stack_limit :: "'v stack \<Rightarrow> nat" where
  "stack_limit s = min (stack_capacity s) (2 ^ 31)"

definition stack_inv :: "'v stack \<Rightarrow> bool" where
  "stack_inv s \<longleftrightarrow> - 1 \<le> stack_pointer s \<and> stack_pointer s < 2 ^ 31 \<and> nat (stack_pointer s + 1) \<le> stack_capacity s
     \<and> stack_capacity s < 2 ^ 61 \<and> length (stack_elements s) = stack_capacity s
     \<and> (\<forall>i < nat (stack_pointer s + 1). stack_elements s ! i \<noteq> None)"

definition stack_abs :: "'v stack \<Rightarrow> 'v list" where
  "stack_abs s = rev (map the (take (nat (stack_pointer s + 1)) (stack_elements s)))"

section \<open>The one-block stack\<close>

text \<open>A word of the block holds a size, an element, or is still indeterminate.\<close>

datatype 'v word_cell = Indeterminate | SizeT nat | VoidPtr 'v

type_synonym 'v adv_stack = "'v word_cell list"

definition size_at :: "'v adv_stack \<Rightarrow> nat \<Rightarrow> nat option" where
  "size_at s i = Option.bind (aget s i) (\<lambda>c. case c of SizeT n \<Rightarrow> Some n | _ \<Rightarrow> None)"

definition ptr_at :: "'v adv_stack \<Rightarrow> nat \<Rightarrow> 'v option" where
  "ptr_at s i = Option.bind (aget s i) (\<lambda>c. case c of VoidPtr v \<Rightarrow> Some v | _ \<Rightarrow> None)"

abbreviation STACK_CAPACITY :: "'v adv_stack \<Rightarrow> nat option" where
  "STACK_CAPACITY s \<equiv> size_at s 0"

abbreviation STACK_POINTER :: "'v adv_stack \<Rightarrow> nat option" where
  "STACK_POINTER s \<equiv> size_at s 1"

definition AdvStackCreate :: "bool \<Rightarrow> nat \<Rightarrow> 'v adv_stack option" where
  "AdvStackCreate mem cap =
     (if \<not> mem then None
      else Some ((replicate (cap + 2) Indeterminate)[0 := SizeT cap, 1 := SizeT 1]))"

definition AdvStackPop :: "'v adv_stack \<Rightarrow> 'v adv_stack option" where
  "AdvStackPop s = do {
     sp \<leftarrow> STACK_POINTER s;
     c_assert (1 \<noteq> sp);
     aset s 1 (SizeT (szsub sp 1))
   }"

definition AdvStackPush :: "'v adv_stack \<Rightarrow> 'v \<Rightarrow> 'v adv_stack option" where
  "AdvStackPush s element = do {
     sp \<leftarrow> STACK_POINTER s;
     cap \<leftarrow> STACK_CAPACITY s;
     c_assert (sp \<noteq> (cap + 1) mod 2 ^ 64);
     s \<leftarrow> aset s 1 (SizeT ((sp + 1) mod 2 ^ 64));
     sp \<leftarrow> STACK_POINTER s;
     aset s sp (VoidPtr element)
   }"

definition AdvStackPeek :: "'v adv_stack \<Rightarrow> 'v option" where
  "AdvStackPeek s = do {
     sp \<leftarrow> STACK_POINTER s;
     c_assert (0 \<noteq> sp);
     ptr_at s sp
   }"

definition AdvStackSize :: "'v adv_stack \<Rightarrow> nat option" where
  "AdvStackSize s = do { sp \<leftarrow> STACK_POINTER s; Some (szsub sp 1) }"

definition AdvStackIsEmpty :: "'v adv_stack \<Rightarrow> bool option" where
  "AdvStackIsEmpty s = do { sp \<leftarrow> STACK_POINTER s; Some (sp = 1) }"

definition AdvStackCapacity :: "'v adv_stack \<Rightarrow> nat option" where
  "AdvStackCapacity s = STACK_CAPACITY s"

definition adv_sp :: "'v adv_stack \<Rightarrow> nat" where
  "adv_sp s = (case s ! 1 of SizeT n \<Rightarrow> n | _ \<Rightarrow> 0)"

definition adv_cap :: "'v adv_stack \<Rightarrow> nat" where
  "adv_cap s = length s - 2"

definition the_ptr :: "'v word_cell \<Rightarrow> 'v" where
  "the_ptr c = (case c of VoidPtr v \<Rightarrow> v)"

definition adv_inv :: "'v adv_stack \<Rightarrow> bool" where
  "adv_inv s \<longleftrightarrow> 2 \<le> length s \<and> length s < 2 ^ 61 \<and> s ! 0 = SizeT (length s - 2)
     \<and> s ! 1 = SizeT (adv_sp s) \<and> 1 \<le> adv_sp s \<and> adv_sp s < length s
     \<and> (\<forall>i. 2 \<le> i \<and> i \<le> adv_sp s \<longrightarrow> (\<exists>v. s ! i = VoidPtr v))"

definition adv_abs :: "'v adv_stack \<Rightarrow> 'v list" where
  "adv_abs s = rev (map the_ptr (drop 2 (take (Suc (adv_sp s)) s)))"

section \<open>The contract of stack.h\<close>

locale bounded_stack =
  fixes push :: "'s \<Rightarrow> 'v \<Rightarrow> 's option"
    and pop :: "'s \<Rightarrow> 's option"
    and peek :: "'s \<Rightarrow> 'v option"
    and is_empty :: "'s \<Rightarrow> bool option"
    and size_of :: "'s \<Rightarrow> nat option"
    and inv :: "'s \<Rightarrow> bool"
    and abs :: "'s \<Rightarrow> 'v list"
    and cap :: "'s \<Rightarrow> nat"
  assumes bounded: "inv s \<Longrightarrow> length (abs s) \<le> cap s"
    and push_ok: "inv s \<Longrightarrow> length (abs s) < cap s \<Longrightarrow>
      \<exists>s'. push s x = Some s' \<and> inv s' \<and> abs s' = x # abs s \<and> cap s' = cap s"
    and push_full: "inv s \<Longrightarrow> length (abs s) = cap s \<Longrightarrow> push s x = None"
    and pop_ok: "inv s \<Longrightarrow> abs s = x # xs \<Longrightarrow>
      \<exists>s'. pop s = Some s' \<and> inv s' \<and> abs s' = xs \<and> cap s' = cap s"
    and pop_empty: "inv s \<Longrightarrow> abs s = [] \<Longrightarrow> pop s = None"
    and peek_ok: "inv s \<Longrightarrow> abs s = x # xs \<Longrightarrow> peek s = Some x"
    and is_empty_iff: "inv s \<Longrightarrow> is_empty s = Some (abs s = [])"
    and size_eq: "inv s \<Longrightarrow> length (abs s) < 2 ^ 31 \<Longrightarrow> size_of s = Some (length (abs s))"
begin

lemma push_then_pop:
  assumes "inv s"
  shows "(length (abs s) < cap s \<and> (\<exists>s' s''. push s x = Some s' \<and> peek s' = Some x \<and>
      pop s' = Some s'' \<and> abs s'' = abs s \<and> inv s'')) \<or> (length (abs s) = cap s \<and> push s x = None)"
proof (cases "length (abs s) < cap s")
  case True
  from push_ok [OF assms True, of x] obtain s' where
    s': "push s x = Some s'" "inv s'" "abs s' = x # abs s" by auto
  from peek_ok [OF s'(2,3)] pop_ok [OF s'(2,3)] s'(1) True show ?thesis by auto
next
  case False
  with bounded [OF assms] have "length (abs s) = cap s" by simp
  with push_full [OF assms this] show ?thesis by blast
qed

end

section \<open>Both stacks meet the contract\<close>

lemma stack_take_Suc:
  "stack_inv s \<Longrightarrow> 0 \<le> stack_pointer s \<Longrightarrow>
   stack_abs s = the (stack_elements s ! nat (stack_pointer s)) #
     rev (map the (take (nat (stack_pointer s)) (stack_elements s)))"
proof -
  assume inv: "stack_inv s" and p: "0 \<le> stack_pointer s"
  then have "nat (stack_pointer s + 1) = Suc (nat (stack_pointer s))" by simp
  moreover from this inv have "nat (stack_pointer s) < length (stack_elements s)" by (simp add: stack_inv_def)
  ultimately show ?thesis by (simp add: stack_abs_def take_Suc_conv_app_nth)
qed

lemma length_stack_abs: "stack_inv s \<Longrightarrow> length (stack_abs s) = nat (stack_pointer s + 1)"
  by (simp add: stack_abs_def stack_inv_def)

lemma stack_within_capacity: "stack_inv s \<Longrightarrow> length (stack_abs s) \<le> stack_capacity s"
  by (simp add: length_stack_abs stack_inv_def)

lemma size_cast: "- 1 \<le> p \<Longrightarrow> nat (p + 1) < 2 ^ 61 \<Longrightarrow> (nat (p mod 2 ^ 64) + 1) mod 2 ^ 64 = nat (p + 1)"
proof (cases "p = - 1")
  case True
  then show ?thesis by simp
next
  case False
  assume "- 1 \<le> p" "nat (p + 1) < 2 ^ 61"
  with False have "0 \<le> p" "p < 2 ^ 61" by auto
  then have "p mod 2 ^ 64 = p" by (intro mod_pos_pos_trivial) auto
  moreover have "(nat p + 1) mod 2 ^ 64 = nat p + 1" using \<open>p < 2 ^ 61\<close> \<open>0 \<le> p\<close> by (intro mod_less) auto
  ultimately show ?thesis using \<open>0 \<le> p\<close> by (simp add: nat_add_distrib)
qed

lemma StackPush_ok:
  assumes inv: "stack_inv s" and lt: "length (stack_abs s) < stack_capacity s" "length (stack_abs s) < 2 ^ 31"
  shows "\<exists>s'. StackPush s x = Some s' \<and> stack_inv s' \<and> stack_abs s' = x # stack_abs s
    \<and> stack_capacity s' = stack_capacity s"
proof -
  let ?n = "nat (stack_pointer s + 1)"
  have n: "?n < stack_capacity s" "stack_capacity s < 2 ^ 61" "- 1 \<le> stack_pointer s" "stack_pointer s + 1 < 2 ^ 31"
    "length (stack_elements s) = stack_capacity s" using inv lt
    by (simp_all add: length_stack_abs [OF inv]) (simp_all add: stack_inv_def)
  have "(nat (stack_pointer s mod 2 ^ 64) + 1) mod 2 ^ 64 = ?n" using n by (intro size_cast) auto
  with n have "StackPush s x = Some (s\<lparr>stack_pointer := stack_pointer s + 1,
      stack_elements := (stack_elements s)[?n := Some x]\<rparr>)" (is "_ = Some ?s'")
    by (simp add: StackPush_def int32_in)
  moreover have S: "nat (stack_pointer s + 1 + 1) = Suc ?n" "nat (2 + stack_pointer s) = Suc ?n" using n by auto
  have "stack_inv ?s'" using inv n by (auto simp: stack_inv_def S nth_list_update less_Suc_eq)
  moreover have "stack_abs ?s' = x # stack_abs s"
    using n by (simp add: stack_abs_def S take_Suc_conv_app_nth)
  ultimately show ?thesis by auto
qed

lemma StackPush_full:
  assumes inv: "stack_inv s" and eq: "length (stack_abs s) = stack_limit s"
  shows "StackPush s x = None"
proof -
  have "nat (stack_pointer s + 1) = stack_limit s" using eq by (simp add: length_stack_abs [OF inv])
  then have "nat (stack_pointer s + 1) = stack_capacity s \<or> int32 (stack_pointer s + 1) = None"
    by (auto simp: stack_limit_def int32_def min_def split: if_splits)
  moreover have "(nat (stack_pointer s mod 2 ^ 64) + 1) mod 2 ^ 64 = nat (stack_pointer s + 1)"
    using inv by (intro size_cast) (auto simp: stack_inv_def)
  ultimately show ?thesis by (auto simp: StackPush_def)
qed

lemma StackPop_ok:
  assumes inv: "stack_inv s" and ne: "stack_abs s = x # xs"
  shows "StackPop s = Some (s\<lparr>stack_pointer := stack_pointer s - 1\<rparr>)"
    and "stack_inv (s\<lparr>stack_pointer := stack_pointer s - 1\<rparr>)"
    and "stack_abs (s\<lparr>stack_pointer := stack_pointer s - 1\<rparr>) = xs"
    and "StackPeek s = Some x"
proof -
  have "0 < length (stack_abs s)" using ne by simp
  then have p: "0 \<le> stack_pointer s" using length_stack_abs [OF inv] by simp
  then show "StackPop s = Some (s\<lparr>stack_pointer := stack_pointer s - 1\<rparr>)"
    using inv by (simp add: StackPop_def int32_def stack_inv_def)
  have "nat (stack_pointer s + 1) = Suc (nat (stack_pointer s))" using p by simp
  then show "stack_inv (s\<lparr>stack_pointer := stack_pointer s - 1\<rparr>)" using inv p by (simp add: stack_inv_def)
  show "stack_abs (s\<lparr>stack_pointer := stack_pointer s - 1\<rparr>) = xs"
    using stack_take_Suc [OF inv p] ne by (simp add: stack_abs_def)
  have "nat (stack_pointer s) < nat (stack_pointer s + 1)" using p by simp
  then have "nat (stack_pointer s) < length (stack_elements s)"
    "stack_elements s ! nat (stack_pointer s) \<noteq> None" using inv by (auto simp: stack_inv_def)
  then show "StackPeek s = Some x"
    using stack_take_Suc [OF inv p] ne p by (auto simp: StackPeek_def cget_eq_Some)
qed

lemma StackPop_empty: "stack_inv s \<Longrightarrow> stack_abs s = [] \<Longrightarrow> StackPop s = None"
  using length_stack_abs [of s] by (auto simp: StackPop_def stack_inv_def)

lemma StackSize_eq:
  assumes inv: "stack_inv s" and small: "length (stack_abs s) < 2 ^ 31"
  shows "StackSize s = Some (length (stack_abs s))"
proof -
  have b: "0 \<le> stack_pointer s + 1" "stack_pointer s + 1 < 2 ^ 31"
    using inv small length_stack_abs [OF inv] by (auto simp: stack_inv_def)
  moreover from b have "(stack_pointer s + 1) mod 2 ^ 64 = stack_pointer s + 1" by (intro mod_pos_pos_trivial) auto
  ultimately show ?thesis by (simp add: StackSize_def int32_in length_stack_abs [OF inv])
qed

interpretation arr: bounded_stack StackPush StackPop StackPeek "\<lambda>s. Some (StackIsEmpty s)"
  StackSize stack_inv stack_abs stack_limit
proof unfold_locales
  fix s :: "'a stack" assume "stack_inv s"
  then show "length (stack_abs s) \<le> stack_limit s"
    by (auto simp: length_stack_abs stack_inv_def stack_limit_def nat_le_iff)
next
  fix s :: "'a stack" and x assume "stack_inv s" "length (stack_abs s) < stack_limit s"
  then show "\<exists>s'. StackPush s x = Some s' \<and> stack_inv s' \<and> stack_abs s' = x # stack_abs s \<and> stack_limit s' = stack_limit s"
    using StackPush_ok [of s x] by (auto simp: stack_limit_def)
next
  fix s :: "'a stack" and x xs assume "stack_inv s" "stack_abs s = x # xs"
  from StackPop_ok(1-3) [OF this]
  show "\<exists>s'. StackPop s = Some s' \<and> stack_inv s' \<and> stack_abs s' = xs \<and> stack_limit s' = stack_limit s"
    by (simp add: stack_limit_def)
next
  fix s :: "'a stack" assume "stack_inv s"
  then show "Some (StackIsEmpty s) = Some (stack_abs s = [])"
    using length_stack_abs [of s] by (auto simp: StackIsEmpty_def stack_inv_def)
qed (simp_all add: StackPush_full StackPop_ok StackPop_empty StackSize_eq)

lemma adv_regs:
  assumes "adv_inv s"
  shows "size_at s (Suc 0) = Some (adv_sp s)" and "size_at s 0 = Some (length s - 2)"
proof -
  have "0 < length s" "1 < length s" using assms by (auto simp: adv_inv_def)
  then show "size_at s (Suc 0) = Some (adv_sp s)" "size_at s 0 = Some (length s - 2)"
    using assms by (simp_all add: adv_inv_def size_at_def)
qed

lemma length_adv_abs: "adv_inv s \<Longrightarrow> length (adv_abs s) = adv_sp s - 1"
  by (auto simp: adv_inv_def adv_abs_def)

lemma adv_sp_upd: "2 \<le> length s \<Longrightarrow> i \<noteq> 1 \<Longrightarrow> adv_sp (s[1 := SizeT n, i := c]) = n"
  by (simp add: adv_sp_def)

lemma AdvPush_ok:
  assumes inv: "adv_inv s" and lt: "length (adv_abs s) < adv_cap s"
  shows "\<exists>s'. AdvStackPush s x = Some s' \<and> adv_inv s' \<and> adv_abs s' = x # adv_abs s \<and> adv_cap s' = adv_cap s"
proof -
  let ?n = "adv_sp s" and ?s = "s[1 := SizeT (Suc (adv_sp s)), Suc (adv_sp s) := VoidPtr x]"
  have n: "1 \<le> ?n" "Suc ?n < length s" "length s < 2 ^ 61" "2 \<le> length s"
    using inv lt by (auto simp: length_adv_abs [OF inv] adv_cap_def) (auto simp: adv_inv_def)
  have m: "(length s - 2 + 1) mod 2 ^ 64 = length s - 1" "(?n + 1) mod 2 ^ 64 = Suc ?n"
    using n by (auto intro!: mod_less)
  have "size_at (s[Suc 0 := SizeT (Suc ?n)]) (Suc 0) = Some (Suc ?n)" using n by (simp add: size_at_def)
  then have push: "AdvStackPush s x = Some ?s" using n m
    by (simp add: AdvStackPush_def adv_regs [OF inv])
  have sp: "adv_sp ?s = Suc ?n" using n by (intro adv_sp_upd) auto
  have inv': "adv_inv ?s"
    using inv n unfolding adv_inv_def sp by (auto simp: nth_list_update le_Suc_eq)
  have "drop 2 (take (Suc (Suc ?n)) ?s) = drop 2 (take (Suc ?n) s) @ [VoidPtr x]"
  proof -
    have "take (Suc (Suc ?n)) ?s = take (Suc ?n) (s[1 := SizeT (Suc ?n)]) @ [VoidPtr x]"
      using n by (simp add: take_Suc_conv_app_nth)
    moreover have "drop 2 (take (Suc ?n) (s[1 := SizeT (Suc ?n)])) = drop 2 (take (Suc ?n) s)"
      using n by (simp add: take_update_swap drop_update_cancel)
    ultimately show ?thesis using n by simp
  qed
  then have "adv_abs ?s = x # adv_abs s" by (simp add: adv_abs_def sp the_ptr_def del: One_nat_def)
  with push inv' show ?thesis by (simp add: adv_cap_def)
qed

lemma AdvPush_full:
  assumes inv: "adv_inv s" and eq: "length (adv_abs s) = adv_cap s"
  shows "AdvStackPush s x = None"
proof -
  have n: "1 \<le> adv_sp s" "length s < 2 ^ 61" "2 \<le> length s" using inv by (auto simp: adv_inv_def)
  then have "(length s - 2 + 1) mod 2 ^ 64 = length s - 1" by (auto intro!: mod_less)
  moreover have "adv_sp s = length s - 1" using eq n by (simp add: length_adv_abs [OF inv] adv_cap_def)
  ultimately show ?thesis by (simp add: AdvStackPush_def adv_regs [OF inv])
qed

lemma AdvPop_ok:
  assumes inv: "adv_inv s" and ne: "adv_abs s = x # xs"
  shows "\<exists>s'. AdvStackPop s = Some s' \<and> adv_inv s' \<and> adv_abs s' = xs \<and> adv_cap s' = adv_cap s"
    and "AdvStackPeek s = Some x"
proof -
  have "0 < length (adv_abs s)" using ne by simp
  then have n: "2 \<le> adv_sp s" "adv_sp s < length s" "length s < 2 ^ 61"
    using length_adv_abs [OF inv] inv by (auto simp: adv_inv_def)
  let ?n = "adv_sp s" and ?s = "s[1 := SizeT (adv_sp s - 1)]"
  have T: "adv_abs s = the_ptr (s ! ?n) # rev (map the_ptr (drop 2 (take ?n s)))"
    using n by (simp add: adv_abs_def take_Suc_conv_app_nth)
  have pop: "AdvStackPop s = Some ?s"
    using n by (simp add: AdvStackPop_def adv_regs [OF inv] szsub_ge)
  have sp: "adv_sp ?s = ?n - 1" using n by (simp add: adv_sp_def)
  have inv': "adv_inv ?s" using inv n unfolding adv_inv_def sp by (auto simp: nth_list_update)
  have "adv_abs ?s = xs"
    using T ne n by (simp add: adv_abs_def sp take_update_swap drop_update_cancel del: One_nat_def)
  with pop inv' show "\<exists>s'. AdvStackPop s = Some s' \<and> adv_inv s' \<and> adv_abs s' = xs \<and> adv_cap s' = adv_cap s"
    by (simp add: adv_cap_def)
  obtain v where "s ! ?n = VoidPtr v" using inv n by (auto simp: adv_inv_def)
  with T ne n show "AdvStackPeek s = Some x"
    by (simp add: AdvStackPeek_def adv_regs [OF inv] ptr_at_def the_ptr_def)
qed

lemma AdvPop_empty: "adv_inv s \<Longrightarrow> adv_abs s = [] \<Longrightarrow> AdvStackPop s = None"
  using length_adv_abs [of s] by (auto simp: AdvStackPop_def adv_regs) (auto simp: adv_inv_def)

interpretation adv: bounded_stack AdvStackPush AdvStackPop AdvStackPeek AdvStackIsEmpty
  AdvStackSize adv_inv adv_abs adv_cap
proof unfold_locales
  fix s :: "'a adv_stack" assume inv: "adv_inv s"
  then show "length (adv_abs s) \<le> adv_cap s" using length_adv_abs [OF inv] by (auto simp: adv_inv_def adv_cap_def)
  have n: "1 \<le> adv_sp s" "adv_sp s < 2 ^ 64" using inv by (auto simp: adv_inv_def)
  then show "AdvStackSize s = Some (length (adv_abs s))"
    by (simp add: AdvStackSize_def adv_regs [OF inv] length_adv_abs [OF inv] szsub_ge)
  have "length (adv_abs s) = 0 \<longleftrightarrow> adv_sp s = 1" using length_adv_abs [OF inv] n by auto
  then show "AdvStackIsEmpty s = Some (adv_abs s = [])"
    by (simp add: AdvStackIsEmpty_def adv_regs [OF inv])
next
  fix s :: "'a adv_stack" and x assume "adv_inv s" "length (adv_abs s) < adv_cap s"
  then show "\<exists>s'. AdvStackPush s x = Some s' \<and> adv_inv s' \<and> adv_abs s' = x # adv_abs s \<and> adv_cap s' = adv_cap s"
    by (rule AdvPush_ok)
next
  fix s :: "'a adv_stack" and x xs assume "adv_inv s" "adv_abs s = x # xs"
  from AdvPop_ok [OF this]
  show "\<exists>s'. AdvStackPop s = Some s' \<and> adv_inv s' \<and> adv_abs s' = xs \<and> adv_cap s' = adv_cap s"
    "AdvStackPeek s = Some x" by simp_all
qed (simp_all add: AdvPush_full AdvPop_empty)

section \<open>Sorting a stack\<close>

text \<open>
  \<open>SortStack\<close> of \<open>c/recursion/recursion.c\<close> pops everything and puts each element back in its
  place. The file is linked against one implementation of \<open>stack.h\<close>, so the operations are
  arguments; elements are compared as the pointers they are.
\<close>

partial_function (option) SortElemnt ::
  "('s \<Rightarrow> bool option) \<Rightarrow> ('s \<Rightarrow> 'v option) \<Rightarrow> ('s \<Rightarrow> 's option) \<Rightarrow> ('s \<Rightarrow> 'v \<Rightarrow> 's option)
   \<Rightarrow> 's \<Rightarrow> 'v::linorder \<Rightarrow> 's option" where
  "SortElemnt isempty peek pop push stack element = do {
     e \<leftarrow> isempty stack;
     here \<leftarrow> (if e then Some True else do { top \<leftarrow> peek stack; Some (element \<ge> top) });
     if here then push stack element
     else do {
       container \<leftarrow> peek stack;
       stack \<leftarrow> pop stack;
       stack \<leftarrow> SortElemnt isempty peek pop push stack element;
       push stack container
     }
   }"

text \<open>
  The type of the elements does not occur in the result of \<open>SortStack\<close>, so it is fixed by the
  operations it is given.
\<close>

partial_function (option) SortStack ::
  "('s \<Rightarrow> bool option) \<Rightarrow> ('s \<Rightarrow> 'v::linorder option) \<Rightarrow> ('s \<Rightarrow> 's option) \<Rightarrow> ('s \<Rightarrow> 'v \<Rightarrow> 's option)
   \<Rightarrow> 's \<Rightarrow> 's option" where
  "SortStack isempty peek pop push stack = do {
     e \<leftarrow> isempty stack;
     if \<not> e then do {
       element \<leftarrow> peek stack;
       stack \<leftarrow> pop stack;
       stack \<leftarrow> SortStack isempty peek pop push stack;
       SortElemnt isempty peek pop push stack element
     } else Some stack
   }"

fun insert_desc :: "'v::linorder \<Rightarrow> 'v list \<Rightarrow> 'v list" where
  "insert_desc x [] = [x]"
| "insert_desc x (y # ys) = (if y \<le> x then x # y # ys else y # insert_desc x ys)"

lemma set_insert_desc: "set (insert_desc x ys) = insert x (set ys)"
  by (induction ys) auto

lemma mset_insert_desc: "mset (insert_desc x ys) = {#x#} + mset ys"
  by (induction ys) auto

lemma length_insert_desc: "length (insert_desc x ys) = Suc (length ys)"
  by (induction ys) auto

lemma sorted_insert_desc: "sorted_wrt (\<ge>) ys \<Longrightarrow> sorted_wrt (\<ge>) (insert_desc x ys)"
  by (induction ys) (auto simp: set_insert_desc)

locale ordered_stack = bounded_stack push pop peek is_empty size_of inv abs cap
  for push :: "'s \<Rightarrow> 'v::linorder \<Rightarrow> 's option" and pop peek is_empty size_of inv abs cap
begin

lemma SortElemnt_insert:
  "inv s \<Longrightarrow> abs s = ys \<Longrightarrow> length ys < cap s \<Longrightarrow>
   \<exists>s'. SortElemnt is_empty peek pop push s x = Some s' \<and> inv s' \<and> abs s' = insert_desc x ys \<and> cap s' = cap s"
proof (induction ys arbitrary: s)
  case Nil
  with push_ok [of s x] show ?case by (simp add: SortElemnt.simps is_empty_iff)
next
  case (Cons y ys)
  show ?case
  proof (cases "y \<le> x")
    case True
    with Cons push_ok [of s x] show ?thesis
      by (simp add: SortElemnt.simps [of _ _ _ _ s] is_empty_iff peek_ok [of s y ys])
  next
    case False
    from pop_ok [of s y ys] Cons.prems obtain s1 where
      s1: "pop s = Some s1" "inv s1" "abs s1 = ys" "cap s1 = cap s" by auto
    with Cons.IH [of s1] Cons.prems obtain s2 where
      s2: "SortElemnt is_empty peek pop push s1 x = Some s2" "inv s2" "abs s2 = insert_desc x ys" "cap s2 = cap s"
      by auto
    with push_ok [of s2 y] Cons.prems obtain s3 where
      "push s2 y = Some s3" "inv s3" "abs s3 = y # insert_desc x ys" "cap s3 = cap s"
      by (auto simp: length_insert_desc)
    with s1 s2 False Cons.prems show ?thesis
      by (simp add: SortElemnt.simps [of _ _ _ _ s] is_empty_iff peek_ok [of s y ys])
  qed
qed

lemma SortStack_sorts:
  "inv s \<Longrightarrow> \<exists>s'. SortStack is_empty peek pop push s = Some s' \<and> inv s' \<and>
    sorted_wrt (\<ge>) (abs s') \<and> mset (abs s') = mset (abs s) \<and> cap s' = cap s"
proof (induction "abs s" arbitrary: s)
  case Nil
  then show ?case by (simp add: SortStack.simps [of _ _ _ _ s] is_empty_iff)
next
  case (Cons y ys)
  from pop_ok [of s y ys] Cons.prems Cons.hyps(2) obtain s1 where
    s1: "pop s = Some s1" "inv s1" "abs s1 = ys" "cap s1 = cap s" by auto
  with Cons.hyps(1) [of s1] obtain s2 where
    s2: "SortStack is_empty peek pop push s1 = Some s2" "inv s2" "sorted_wrt (\<ge>) (abs s2)"
      "mset (abs s2) = mset ys" "cap s2 = cap s" by auto
  have "length (abs s2) = length ys" using mset_eq_length [OF s2(4)] .
  then have "length (abs s2) < cap s2" using bounded [OF Cons.prems] Cons.hyps(2) s2(5) by (metis Suc_le_eq length_Cons)
  with SortElemnt_insert [OF s2(2) refl, of y] obtain s3 where
    "SortElemnt is_empty peek pop push s2 y = Some s3" "inv s3" "abs s3 = insert_desc y (abs s2)" "cap s3 = cap s"
    using s2(5) by auto
  with s1 s2 Cons.prems peek_ok [of s y ys] Cons.hyps(2) [symmetric] show ?case
    by (simp add: SortStack.simps [of _ _ _ _ s] is_empty_iff sorted_insert_desc mset_insert_desc)
qed

end

interpretation arr_ord: ordered_stack StackPush StackPop StackPeek "\<lambda>s. Some (StackIsEmpty s)"
  StackSize stack_inv stack_abs stack_limit
  by unfold_locales

interpretation adv_ord: ordered_stack AdvStackPush AdvStackPop AdvStackPeek AdvStackIsEmpty
  AdvStackSize adv_inv adv_abs adv_cap
  by unfold_locales

section \<open>Properties\<close>

text \<open>C15. Sorting a stack: on a well-formed array stack \<open>SortStack\<close> returns (it neither fails nor
  overflows), the elements are those it held, and they lie in descending order from the top; on the
  one-block stack the same program does the same.\<close>

theorem SortStack_correct:
  fixes s :: "'v::linorder stack" and t :: "'v adv_stack"
  assumes "stack_inv s" and "adv_inv t"
  shows "\<exists>s' t'. SortStack (\<lambda>s. Some (StackIsEmpty s)) StackPeek StackPop StackPush s = Some s' \<and>
      sorted_wrt (\<ge>) (stack_abs s') \<and> mset (stack_abs s') = mset (stack_abs s) \<and>
    SortStack AdvStackIsEmpty AdvStackPeek AdvStackPop AdvStackPush t = Some t' \<and>
      sorted_wrt (\<ge>) (adv_abs t') \<and> mset (adv_abs t') = mset (adv_abs t)"
  using arr_ord.SortStack_sorts [OF assms(1)] adv_ord.SortStack_sorts [OF assms(2)] by blast

definition stack_example :: "nat stack" where
  "stack_example = \<lparr>stack_elements = [Some 3, Some 9, Some 4, None], stack_pointer = 2, stack_capacity = 4\<rparr>"

definition adv_example :: "nat adv_stack" where
  "adv_example = [SizeT 2, SizeT 3, VoidPtr 8, VoidPtr 5]"

lemma stack_example_inv: "stack_inv stack_example"
proof -
  have "i < 3 \<longleftrightarrow> i = 0 \<or> i = 1 \<or> i = (2::nat)" for i by auto
  then show ?thesis by (auto simp: stack_inv_def stack_example_def)
qed

lemma adv_example_inv: "adv_inv adv_example"
proof -
  have "adv_sp adv_example = 3" by (simp add: adv_example_def adv_sp_def)
  moreover have "2 \<le> i \<and> i \<le> 3 \<longleftrightarrow> i = 2 \<or> i = (3::nat)" for i by auto
  ultimately show ?thesis by (auto simp: adv_inv_def adv_example_def)
qed

theorem SortStack_correct_witness:
  "\<exists>s' t'. SortStack (\<lambda>s. Some (StackIsEmpty s)) StackPeek StackPop StackPush stack_example = Some s' \<and>
      sorted_wrt (\<ge>) (stack_abs s') \<and> mset (stack_abs s') = mset (stack_abs stack_example) \<and>
    SortStack AdvStackIsEmpty AdvStackPeek AdvStackPop AdvStackPush adv_example = Some t' \<and>
      sorted_wrt (\<ge>) (adv_abs t') \<and> mset (adv_abs t') = mset (adv_abs adv_example)"
  by (rule SortStack_correct [OF stack_example_inv adv_example_inv])

text \<open>Both stacks are last-in first-out and bounded: below the limit (the
  capacity, and for the array stack also \<open>2 ^ 31\<close>) a push succeeds, the pushed element is then on top and
  popping it restores the contents; at the limit the push is a fault (the assertion, or the overflow of
  the index), and on an empty stack the assertion stops the pop.\<close>

theorem stacks_lifo:
  fixes s :: "'v stack" and t :: "'v adv_stack"
  assumes "stack_inv s" and "adv_inv t"
  shows "((length (stack_abs s) < stack_limit s \<and>
        (\<exists>s' s''. StackPush s x = Some s' \<and> StackPeek s' = Some x \<and> StackPop s' = Some s'' \<and>
          stack_abs s'' = stack_abs s \<and> stack_inv s''))
      \<or> (length (stack_abs s) = stack_limit s \<and> StackPush s x = None))
    \<and> ((length (adv_abs t) < adv_cap t \<and>
        (\<exists>t' t''. AdvStackPush t x = Some t' \<and> AdvStackPeek t' = Some x \<and> AdvStackPop t' = Some t'' \<and>
          adv_abs t'' = adv_abs t \<and> adv_inv t''))
      \<or> (length (adv_abs t) = adv_cap t \<and> AdvStackPush t x = None))
    \<and> (stack_abs s = [] \<longrightarrow> StackPop s = None) \<and> (adv_abs t = [] \<longrightarrow> AdvStackPop t = None)"
  using arr.push_then_pop [OF assms(1)] adv.push_then_pop [OF assms(2)]
    arr.pop_empty [OF assms(1)] adv.pop_empty [OF assms(2)] by (intro conjI) auto

theorem stacks_lifo_witness:
  "((length (stack_abs stack_example) < stack_limit stack_example \<and>
        (\<exists>s' s''. StackPush stack_example 7 = Some s' \<and> StackPeek s' = Some 7 \<and> StackPop s' = Some s'' \<and>
          stack_abs s'' = stack_abs stack_example \<and> stack_inv s''))
      \<or> (length (stack_abs stack_example) = stack_limit stack_example \<and> StackPush stack_example 7 = None))
    \<and> ((length (adv_abs adv_example) < adv_cap adv_example \<and>
        (\<exists>t' t''. AdvStackPush adv_example 7 = Some t' \<and> AdvStackPeek t' = Some 7 \<and> AdvStackPop t' = Some t'' \<and>
          adv_abs t'' = adv_abs adv_example \<and> adv_inv t''))
      \<or> (length (adv_abs adv_example) = adv_cap adv_example \<and> AdvStackPush adv_example 7 = None))"
  using stacks_lifo [OF stack_example_inv adv_example_inv, of 7] by blast

lemma StackCreate_inv:
  assumes "cap < 2 ^ 61"
  shows "\<exists>s. StackCreate True True cap = Some s \<and> stack_inv s \<and> stack_abs s = [] \<and> stack_capacity s = cap"
  using assms by (simp add: StackCreate_def stack_inv_def stack_abs_def)

lemma AdvStackCreate_inv:
  assumes "cap + 2 < 2 ^ 61"
  shows "\<exists>s :: 'v adv_stack. AdvStackCreate True cap = Some s \<and> adv_inv s \<and> adv_abs s = [] \<and> adv_cap s = cap"
proof -
  define s :: "'v adv_stack" where "s = SizeT cap # SizeT 1 # replicate cap Indeterminate"
  have s: "(replicate (cap + 2) Indeterminate)[0 := SizeT cap, 1 := SizeT 1] = s"
    by (simp add: s_def)
  have sp: "adv_sp s = 1" and len: "length s = cap + 2" by (simp_all add: s_def adv_sp_def)
  have "adv_inv s" using assms unfolding adv_inv_def sp len by (simp add: s_def)
  moreover have "adv_abs s = []" unfolding adv_abs_def sp by (simp add: s_def)
  moreover have "adv_cap s = cap" by (simp add: adv_cap_def len)
  moreover have "AdvStackCreate True cap = Some s" unfolding AdvStackCreate_def s by simp
  ultimately show ?thesis by blast
qed

end
