(* ===== verification/DynVector.thy ===== *)
theory DynVector
  imports Prelude
begin

text \<open>
  The growing array of \<open>ds/dynamic_vector/vector.c\<close>. Indices of the interface start at 1; the
  field \<open>pointer\<close> is the index of the last element, or -1. The abstraction is the list of the
  elements up to it. The field is an \<open>int\<close>: an increment, a decrement or a sum that leaves the 32 bits is a
  fault. \<open>realloc\<close> answers with success or NULL and keeps the old cells.
\<close>

section \<open>State and operations\<close>

record 'v Vector =
  vec_elements :: "'v option list"
  vec_capacity :: nat
  vec_pointer :: int

definition GROWTH_FACTOR :: nat where
  "GROWTH_FACTOR = 2"

text \<open>A block of \<open>sizeof(void *) * n\<close> bytes (the product wraps) seen as cells.\<close>

definition cells_of :: "nat \<Rightarrow> nat" where
  "cells_of n = (8 * n) mod 2 ^ 64 div 8"

definition VectorCreate :: "bool \<Rightarrow> bool \<Rightarrow> nat \<Rightarrow> 'v Vector option" where
  "VectorCreate mem1 mem2 cap =
     (if \<not> mem1 then None
      else if \<not> mem2 then None
      else Some \<lparr>vec_elements = replicate (cells_of cap) None, vec_capacity = cap, vec_pointer = - 1\<rparr>)"

definition VectorPopBack :: "'v Vector \<Rightarrow> 'v Vector option" where
  "VectorPopBack v = do { p \<leftarrow> int32 (vec_pointer v - 1); Some (v\<lparr>vec_pointer := p\<rparr>) }"

definition VectorReserve :: "bool \<Rightarrow> 'v Vector \<Rightarrow> nat \<Rightarrow> int \<times> 'v Vector" where
  "VectorReserve mem v new_capacity =
     (if \<not> mem then (1, v)
      else (0, v\<lparr>vec_elements := take (cells_of new_capacity) (vec_elements v)
                   @ replicate (cells_of new_capacity - length (vec_elements v)) None,
                 vec_capacity := new_capacity\<rparr>))"

definition VectorIsFull :: "'v Vector \<Rightarrow> bool" where
  "VectorIsFull v \<longleftrightarrow> to_size (vec_pointer v) = szsub (vec_capacity v) 1"

definition VectorPushBack :: "bool \<Rightarrow> 'v Vector \<Rightarrow> 'v \<Rightarrow> (int \<times> 'v Vector) option" where
  "VectorPushBack mem v element =
    (let (status, v) = (if VectorIsFull v
                        then VectorReserve mem v ((vec_capacity v * GROWTH_FACTOR) mod 2 ^ 64)
                        else (0, v))
     in if status = 1 then Some (1, v)
        else do {
          p \<leftarrow> int32 (vec_pointer v + 1);
          let v = v\<lparr>vec_pointer := p\<rparr>;
          c_assert (0 \<le> vec_pointer v);
          cells \<leftarrow> aset (vec_elements v) (nat (vec_pointer v)) (Some element);
          Some (0, v\<lparr>vec_elements := cells\<rparr>)
        })"

definition VectorGetElement :: "'v Vector \<Rightarrow> nat \<Rightarrow> 'v option" where
  "VectorGetElement v index = do {
     c_assert (index \<le> (to_size (vec_pointer v) + 1) mod 2 ^ 64);
     cget (vec_elements v) (szsub index 1)
   }"

definition VectorSetElement :: "'v Vector \<Rightarrow> 'v \<Rightarrow> nat \<Rightarrow> 'v Vector option" where
  "VectorSetElement v element index = do {
     c_assert (index \<le> (to_size (vec_pointer v) + 1) mod 2 ^ 64);
     cells \<leftarrow> aset (vec_elements v) (szsub index 1) (Some element);
     Some (v\<lparr>vec_elements := cells\<rparr>)
   }"

definition VectorSize :: "'v Vector \<Rightarrow> nat option" where
  "VectorSize v = do { n \<leftarrow> int32 (vec_pointer v + 1); Some (to_size n) }"

definition VectorCapacity :: "'v Vector \<Rightarrow> nat" where
  "VectorCapacity v = vec_capacity v"

definition VectorShrinkToFit :: "bool \<Rightarrow> 'v Vector \<Rightarrow> (int \<times> 'v Vector) option" where
  "VectorShrinkToFit mem v = do {
     n \<leftarrow> int32 (vec_pointer v + 1);
     let (status, v) = VectorReserve mem v (to_size n);
     Some (if status = 1 then (1, v) else (0, v))
   }"

section \<open>Invariant and abstraction\<close>

text \<open>A vector holds fewer than \<open>2 ^ 31\<close> elements, so that its length is an \<open>int\<close>.\<close>

definition vec_inv :: "'v Vector \<Rightarrow> bool" where
  "vec_inv v \<longleftrightarrow> - 1 \<le> vec_pointer v \<and> vec_pointer v < 2 ^ 31 - 1 \<and> nat (vec_pointer v + 1) \<le> vec_capacity v
     \<and> vec_capacity v < 2 ^ 60 \<and> length (vec_elements v) = vec_capacity v
     \<and> (\<forall>i < nat (vec_pointer v + 1). vec_elements v ! i \<noteq> None)"

definition vec_len :: "'v Vector \<Rightarrow> nat" where
  "vec_len v = nat (vec_pointer v + 1)"

definition vec_abs :: "'v Vector \<Rightarrow> 'v list" where
  "vec_abs v = map the (take (vec_len v) (vec_elements v))"

lemma vec_facts:
  assumes "vec_inv v"
  shows "vec_len v \<le> vec_capacity v" and "vec_capacity v < 2 ^ 60" and "vec_len v < 2 ^ 31"
    and "length (vec_elements v) = vec_capacity v" and "vec_pointer v = int (vec_len v) - 1"
    and "length (vec_abs v) = vec_len v"
    and "i < vec_len v \<Longrightarrow> vec_elements v ! i = Some (vec_abs v ! i)"
    and "vec_len v < 2 ^ 60"
  using assms by (auto simp: vec_inv_def vec_len_def vec_abs_def)

lemma vec_invI:
  "vec_pointer v = int n - 1 \<Longrightarrow> n < 2 ^ 31 \<Longrightarrow> n \<le> vec_capacity v \<Longrightarrow> vec_capacity v < 2 ^ 60 \<Longrightarrow>
   length (vec_elements v) = vec_capacity v \<Longrightarrow>
   (\<And>i. i < n \<Longrightarrow> vec_elements v ! i = Some (xs ! i)) \<Longrightarrow> length xs = n \<Longrightarrow>
   vec_inv v \<and> vec_abs v = xs \<and> vec_len v = n"
  by (auto simp: vec_inv_def vec_len_def vec_abs_def intro!: nth_equalityI)

lemma to_size_pred: "0 < n \<Longrightarrow> n < 2 ^ 64 \<Longrightarrow> to_size (int n - 1) = n - 1"
proof -
  assume "0 < n" "n < 2 ^ 64"
  then have "int n - 1 = int (n - 1)" "n - 1 < 2 ^ 64" by auto
  then show ?thesis by (simp only: to_size_int)
qed

lemma size_cast_pred: "n < 2 ^ 60 \<Longrightarrow> (to_size (int n - 1) + 1) mod 2 ^ 64 = n"
proof (cases "n = 0")
  case True
  then show ?thesis by (simp add: to_size_def)
next
  case False
  assume "n < 2 ^ 60"
  then show ?thesis using False by (simp add: to_size_pred)
qed

lemma VectorSize_eq: "vec_inv v \<Longrightarrow> VectorSize v = Some (vec_len v)"
  using vec_facts(3,5) [of v] by (simp add: VectorSize_def int32_in)

lemma VectorIsFull_iff: "vec_inv v \<Longrightarrow> 0 < vec_capacity v \<Longrightarrow> VectorIsFull v \<longleftrightarrow> vec_len v = vec_capacity v"
proof -
  assume inv: "vec_inv v" and pos: "0 < vec_capacity v"
  note f = vec_facts [OF inv]
  have c: "szsub (vec_capacity v) 1 = vec_capacity v - 1" using f(2) pos by (intro szsub_ge) auto
  show ?thesis
  proof (cases "vec_len v = 0")
    case True
    then have "to_size (vec_pointer v) = 2 ^ 64 - 1" using f(5) by (simp add: to_size_def)
    with c True pos f(2) show ?thesis by (simp add: VectorIsFull_def)
  next
    case False
    with f have "to_size (vec_pointer v) = vec_len v - 1" by (simp add: to_size_pred)
    with c False pos f(1) show ?thesis by (auto simp: VectorIsFull_def)
  qed
qed

lemma VectorGetElement_eq:
  assumes inv: "vec_inv v" and i: "1 \<le> i" "i \<le> vec_len v"
  shows "VectorGetElement v i = Some (vec_abs v ! (i - 1))"
proof -
  note f = vec_facts [OF inv]
  have "szsub i 1 = i - 1" using i f(3) by (intro szsub_ge) auto
  moreover have "(to_size (vec_pointer v) + 1) mod 2 ^ 64 = vec_len v"
    unfolding f(5) using f(8) by (rule size_cast_pred)
  moreover have "i - 1 < vec_len v" using i by simp
  ultimately show ?thesis
    using f(7) [of "i - 1"] i f(1,4) by (simp add: VectorGetElement_def cget_eq_Some)
qed

lemma VectorSetElement_eq:
  assumes inv: "vec_inv v" and i: "1 \<le> i" "i \<le> vec_len v"
  shows "\<exists>v'. VectorSetElement v x i = Some v' \<and> vec_inv v' \<and> vec_abs v' = (vec_abs v)[i - 1 := x]
    \<and> vec_len v' = vec_len v \<and> vec_capacity v' = vec_capacity v"
proof -
  note f = vec_facts [OF inv]
  let ?v = "v\<lparr>vec_elements := (vec_elements v)[i - 1 := Some x]\<rparr>"
  have "szsub i 1 = i - 1" using i f(3) by (intro szsub_ge) auto
  moreover have "(to_size (vec_pointer v) + 1) mod 2 ^ 64 = vec_len v"
    unfolding f(5) using f(8) by (rule size_cast_pred)
  moreover have "i - 1 < vec_len v" using i by simp
  ultimately have "VectorSetElement v x i = Some ?v"
    using i f(1,4) by (simp add: VectorSetElement_def)
  moreover have "vec_inv ?v \<and> vec_abs ?v = (vec_abs v)[i - 1 := x] \<and> vec_len ?v = vec_len v"
    using f i by (intro vec_invI) (auto simp: nth_list_update)
  ultimately show ?thesis by simp
qed

lemma VectorPopBack_eq:
  assumes inv: "vec_inv v" and ne: "0 < vec_len v"
  shows "\<exists>v'. VectorPopBack v = Some v' \<and> vec_inv v' \<and> vec_abs v' = butlast (vec_abs v)
    \<and> vec_len v' = vec_len v - 1 \<and> vec_capacity v' = vec_capacity v"
proof -
  note f = vec_facts [OF inv]
  let ?v = "v\<lparr>vec_pointer := vec_pointer v - 1\<rparr>"
  have "VectorPopBack v = Some ?v" using f(3,5) by (simp add: VectorPopBack_def int32_def)
  moreover have "vec_inv ?v \<and> vec_abs ?v = butlast (vec_abs v) \<and> vec_len ?v = vec_len v - 1"
    using f ne by (intro vec_invI) (auto simp: nth_butlast)
  ultimately show ?thesis by simp
qed

lemma cells_of_eq: "n < 2 ^ 61 \<Longrightarrow> cells_of n = n"
  by (simp add: cells_of_def)

lemma VectorReserve_ok:
  assumes inv: "vec_inv v" and n: "vec_len v \<le> n" "n < 2 ^ 60"
  shows "\<exists>v'. VectorReserve True v n = (0, v') \<and> vec_inv v' \<and> vec_abs v' = vec_abs v \<and> vec_capacity v' = n
    \<and> vec_len v' = vec_len v"
proof -
  note f = vec_facts [OF inv]
  let ?v = "v\<lparr>vec_elements := take n (vec_elements v) @ replicate (n - length (vec_elements v)) None, vec_capacity := n\<rparr>"
  have "VectorReserve True v n = (0, ?v)" using n by (simp add: VectorReserve_def cells_of_eq)
  moreover have "vec_inv ?v \<and> vec_abs ?v = vec_abs v \<and> vec_len ?v = vec_len v"
    using f n by (intro vec_invI) (auto simp: nth_append)
  ultimately show ?thesis by simp
qed

section \<open>Properties\<close>

lemma push_below_capacity:
  assumes inv: "vec_inv v" and lt: "vec_len v < vec_capacity v" "vec_len v < 2 ^ 31 - 1"
  shows "\<exists>v'. (do { p \<leftarrow> int32 (vec_pointer v + 1);
          let v = v\<lparr>vec_pointer := p\<rparr>;
          c_assert (0 \<le> vec_pointer v);
          cells \<leftarrow> aset (vec_elements v) (nat (vec_pointer v)) (Some x);
          Some (0::int, v\<lparr>vec_elements := cells\<rparr>) }) = Some (0, v') \<and> vec_inv v' \<and> vec_abs v' = vec_abs v @ [x]
          \<and> vec_capacity v' = vec_capacity v"
proof -
  note f = vec_facts [OF inv]
  let ?v = "v\<lparr>vec_pointer := int (vec_len v), vec_elements := (vec_elements v)[vec_len v := Some x]\<rparr>"
  have "vec_inv ?v \<and> vec_abs ?v = vec_abs v @ [x] \<and> vec_len ?v = Suc (vec_len v)"
    using f lt by (intro vec_invI) (auto simp: nth_append nth_list_update less_Suc_eq)
  with f lt show ?thesis by (simp add: int32_in)
qed

lemma VectorPushBack_ok:
  assumes inv: "vec_inv v" and pos: "0 < vec_capacity v" and room: "vec_len v < 2 ^ 31 - 1"
    and mem: "vec_len v = vec_capacity v \<Longrightarrow> mem"
  shows "\<exists>v'. VectorPushBack mem v x = Some (0, v') \<and> vec_inv v' \<and> vec_abs v' = vec_abs v @ [x]
    \<and> vec_capacity v' = (if vec_len v = vec_capacity v then 2 * vec_capacity v else vec_capacity v)"
proof (cases "vec_len v = vec_capacity v")
  case True
  then have full: "VectorIsFull v" using inv pos by (simp add: VectorIsFull_iff)
  have small: "vec_capacity v < 2 ^ 31" using room True by simp
  then have c: "(vec_capacity v * GROWTH_FACTOR) mod 2 ^ 64 = 2 * vec_capacity v" by (simp add: GROWTH_FACTOR_def)
  obtain v' where v': "VectorReserve True v (2 * vec_capacity v) = (0, v')" "vec_inv v'"
    "vec_abs v' = vec_abs v" "vec_capacity v' = 2 * vec_capacity v" "vec_len v' = vec_len v"
    using VectorReserve_ok [OF inv, of "2 * vec_capacity v"] small vec_facts(1) [OF inv] by auto
  from push_below_capacity [OF v'(2), of x] v'(3-5) pos True room mem
  show ?thesis using full c v'(1) by (simp add: VectorPushBack_def del: One_nat_def)
next
  case False
  then have "vec_len v < vec_capacity v" "\<not> VectorIsFull v"
    using inv pos vec_facts(1) [OF inv] by (auto simp: VectorIsFull_iff)
  with push_below_capacity [OF inv _ room, of x] False show ?thesis by (simp add: VectorPushBack_def)
qed

lemma VectorPushBack_no_memory:
  assumes inv: "vec_inv v" and pos: "0 < vec_capacity v" and full: "vec_len v = vec_capacity v"
  shows "VectorPushBack False v x = Some (1, v)"
  using VectorIsFull_iff [OF inv pos] full by (simp add: VectorPushBack_def VectorReserve_def)

text \<open>Pushing onto a well-formed vector of positive capacity with fewer than \<open>2 ^ 31 - 1\<close> elements (the array
  doubles when it is full): if \<open>realloc\<close> succeeds the element is appended and 0 is returned; if the vector
  is full and \<open>realloc\<close> fails, 1 is returned and the vector is unchanged.\<close>

theorem VectorPushBack_appends:
  assumes inv: "vec_inv v" and pos: "0 < vec_capacity v" and room: "vec_len v < 2 ^ 31 - 1"
  shows "(if vec_len v = vec_capacity v \<and> \<not> mem then VectorPushBack mem v x = Some (1, v)
    else (\<exists>v'. VectorPushBack mem v x = Some (0, v') \<and> vec_inv v' \<and> vec_abs v' = vec_abs v @ [x]))"
proof (cases "vec_len v = vec_capacity v \<and> \<not> mem")
  case True
  then show ?thesis using VectorPushBack_no_memory [OF inv pos] by simp
next
  case False
  then show ?thesis using VectorPushBack_ok [OF inv pos room, of mem x] by auto
qed

text \<open>A push or a pop that would take the index out of its 32 bits is undefined.\<close>

lemma push_index_overflow:
  "vec_pointer v = 2 ^ 31 - 1 \<Longrightarrow> \<not> VectorIsFull v \<Longrightarrow> VectorPushBack mem v x = None \<and> VectorSize v = None"
  by (simp add: VectorPushBack_def VectorSize_def int32_def)

definition vec_example :: "nat Vector" where
  "vec_example = \<lparr>vec_elements = [Some 4, Some 7], vec_capacity = 2, vec_pointer = 1\<rparr>"

lemma vec_example: "vec_inv vec_example" "vec_len vec_example = 2" "vec_capacity vec_example = 2"
proof -
  have "i < 2 \<longleftrightarrow> i = 0 \<or> i = (1::nat)" for i by auto
  then show "vec_inv vec_example" "vec_len vec_example = 2" "vec_capacity vec_example = 2"
    by (auto simp: vec_inv_def vec_example_def vec_len_def)
qed

theorem VectorPushBack_appends_witness:
  "(if vec_len vec_example = vec_capacity vec_example \<and> \<not> True then VectorPushBack True vec_example 9 = Some (1, vec_example)
    else (\<exists>v'. VectorPushBack True vec_example 9 = Some (0, v') \<and> vec_inv v' \<and> vec_abs v' = vec_abs vec_example @ [9]))"
  by (rule VectorPushBack_appends) (simp_all add: vec_example)

text \<open>A vector created with capacity 0 never grows: doubling leaves 0, and the first push writes
  outside the array.\<close>

lemma push_capacity_0:
  assumes "VectorCreate True True 0 = Some v"
  shows "VectorPushBack True v x = None"
  using assms by (auto simp: VectorCreate_def VectorPushBack_def VectorIsFull_def VectorReserve_def
      to_size_def cells_of_def szsub_def GROWTH_FACTOR_def int32_def)

lemma VectorCreate_inv:
  "cap < 2 ^ 60 \<Longrightarrow> \<exists>v. VectorCreate True True cap = Some v \<and> vec_inv v \<and> vec_abs v = []"
  by (simp add: VectorCreate_def vec_inv_def vec_abs_def vec_len_def cells_of_eq)

lemma VectorShrinkToFit_abs:
  assumes inv: "vec_inv v"
  shows "\<exists>v'. VectorShrinkToFit True v = Some (0, v') \<and> vec_inv v' \<and> vec_abs v' = vec_abs v \<and> vec_capacity v' = vec_len v"
proof -
  have "int32 (vec_pointer v + 1) = Some (int (vec_len v))" "to_size (int (vec_len v)) = vec_len v"
    using vec_facts(3,5) [OF inv] by (simp_all add: int32_in)
  with VectorReserve_ok [OF inv order_refl vec_facts(8) [OF inv]] show ?thesis
    by (auto simp: VectorShrinkToFit_def)
qed

end
