(* ===== verification/Dlist.thy ===== *)
theory Dlist
  imports Prelude
begin

text \<open>
  The doubly linked list of \<open>ds/dlist/dlist.c\<close> over an explicit store of nodes. A list at address
  \<open>l\<close> is one allocated block with its two dummy nodes at \<open>l\<close> and \<open>Suc l\<close>; an iterator is a pointer
  to a node. The operations read and write the store in the order of the C code. The lemmas relate
  a store to the list of node addresses between the dummies (\<open>dlist\<close>) and to the data they hold
  (\<open>contents\<close>).
\<close>

section \<open>The store\<close>

record 'd dnode =
  nd_data :: "'d vptr"
  next_node :: "addr option"
  prev_node :: "addr option"

type_synonym 'd dheap = "addr \<Rightarrow> 'd dnode option"

definition load :: "'d dheap \<Rightarrow> addr option \<Rightarrow> 'd dnode option" where
  "load h p = (case p of None \<Rightarrow> None | Some a \<Rightarrow> h a)"

definition set_next :: "'d dheap \<Rightarrow> addr option \<Rightarrow> addr option \<Rightarrow> 'd dheap option" where
  "set_next h p v = do { n \<leftarrow> load h p; Some (h(the p \<mapsto> n\<lparr>next_node := v\<rparr>)) }"

definition set_prev :: "'d dheap \<Rightarrow> addr option \<Rightarrow> addr option \<Rightarrow> 'd dheap option" where
  "set_prev h p v = do { n \<leftarrow> load h p; Some (h(the p \<mapsto> n\<lparr>prev_node := v\<rparr>)) }"

definition set_data :: "'d dheap \<Rightarrow> addr option \<Rightarrow> 'd vptr \<Rightarrow> 'd dheap option" where
  "set_data h p v = do { n \<leftarrow> load h p; Some (h(the p \<mapsto> n\<lparr>nd_data := v\<rparr>)) }"

definition free_node :: "'d dheap \<Rightarrow> addr option \<Rightarrow> 'd dheap option" where
  "free_node h p = do { n \<leftarrow> load h p; Some (h(the p := None)) }"

section \<open>The operations\<close>

abbreviation (input) begin_dummy :: "addr \<Rightarrow> addr" where "begin_dummy l \<equiv> l"
abbreviation (input) end_dummy :: "addr \<Rightarrow> addr" where "end_dummy l \<equiv> Suc l"

definition DlistCreate :: "'d dheap \<Rightarrow> addr option \<Rightarrow> addr option \<times> 'd dheap" where
  "DlistCreate h mem =
     (case mem of None \<Rightarrow> (None, h)
      | Some l \<Rightarrow> (Some l,
          h(begin_dummy l \<mapsto> \<lparr>nd_data = ListPtr l, next_node = Some (end_dummy l), prev_node = None\<rparr>,
            end_dummy l \<mapsto> \<lparr>nd_data = ListPtr l, next_node = None, prev_node = Some (begin_dummy l)\<rparr>)))"

definition DlistNext :: "'d dheap \<Rightarrow> addr option \<Rightarrow> addr option option" where
  "DlistNext h iter = do { c_assert (None \<noteq> iter); n \<leftarrow> load h iter; Some (next_node n) }"

definition DlistPrev :: "'d dheap \<Rightarrow> addr option \<Rightarrow> addr option option" where
  "DlistPrev h iter = do { c_assert (None \<noteq> iter); n \<leftarrow> load h iter; Some (prev_node n) }"

definition DlistBegin :: "'d dheap \<Rightarrow> addr \<Rightarrow> addr option option" where
  "DlistBegin h l = do { n \<leftarrow> load h (Some (begin_dummy l)); Some (next_node n) }"

definition DlistEnd :: "addr \<Rightarrow> addr option" where
  "DlistEnd l = Some (end_dummy l)"

definition DlistIsSameIter :: "addr option \<Rightarrow> addr option \<Rightarrow> bool option" where
  "DlistIsSameIter one two = do { c_assert (None \<noteq> one); c_assert (None \<noteq> two); Some (one = two) }"

definition DlistGetData :: "'d dheap \<Rightarrow> addr option \<Rightarrow> 'd vptr option" where
  "DlistGetData h iter = do {
     c_assert (None \<noteq> iter);
     nx \<leftarrow> DlistNext h iter; c_assert (None \<noteq> nx);
     pv \<leftarrow> DlistPrev h iter; c_assert (None \<noteq> pv);
     n \<leftarrow> load h iter;
     Some (nd_data n)
   }"

definition DlistSetData :: "'d dheap \<Rightarrow> addr option \<Rightarrow> 'd vptr \<Rightarrow> 'd dheap option" where
  "DlistSetData h iter v = do {
     c_assert (None \<noteq> iter);
     nx \<leftarrow> DlistNext h iter; c_assert (None \<noteq> nx);
     pv \<leftarrow> DlistPrev h iter; c_assert (None \<noteq> pv);
     set_data h iter v
   }"

definition DlistIsEmpty :: "'d dheap \<Rightarrow> addr \<Rightarrow> bool option" where
  "DlistIsEmpty h l = do { b \<leftarrow> DlistBegin h l; Some (b = DlistEnd l) }"

text \<open>\<open>CreatNewNode\<close>: a fresh node with all fields NULL.\<close>

definition CreatNewNode :: "'d dheap \<Rightarrow> addr option \<Rightarrow> addr option \<times> 'd dheap" where
  "CreatNewNode h mem =
     (case mem of None \<Rightarrow> (None, h)
      | Some n \<Rightarrow> (Some n, h(n \<mapsto> \<lparr>nd_data = Null, next_node = None, prev_node = None\<rparr>)))"

definition DlistInsert ::
  "'d dheap \<Rightarrow> addr option \<Rightarrow> addr \<Rightarrow> addr option \<Rightarrow> 'd vptr \<Rightarrow> (addr option \<times> 'd dheap) option" where
  "DlistInsert h mem l wh v = do {
     c_assert (None \<noteq> wh);
     let (new_node, h) = CreatNewNode h mem;
     if new_node = None then Some (DlistEnd l, h)
     else do {
       h \<leftarrow> set_next h new_node wh;
       w \<leftarrow> load h wh;
       h \<leftarrow> set_prev h new_node (prev_node w);
       h \<leftarrow> DlistSetData h new_node v;
       w \<leftarrow> load h wh;
       h \<leftarrow> set_next h (prev_node w) new_node;
       h \<leftarrow> set_prev h wh new_node;
       Some (new_node, h)
     }
   }"

definition DlistRemove :: "'d dheap \<Rightarrow> addr \<Rightarrow> addr option \<Rightarrow> (addr option \<times> 'd dheap) option" where
  "DlistRemove h l iter = do {
     c_assert (None \<noteq> iter);
     c_assert (Some (end_dummy l) \<noteq> iter);
     buffer \<leftarrow> DlistNext h iter;
     n \<leftarrow> load h iter;
     pv \<leftarrow> DlistPrev h iter;
     h \<leftarrow> set_prev h (next_node n) pv;
     n \<leftarrow> load h iter;
     nx \<leftarrow> DlistNext h iter;
     h \<leftarrow> set_next h (prev_node n) nx;
     h \<leftarrow> free_node h iter;
     Some (buffer, h)
   }"

definition DlistPushFront ::
  "'d dheap \<Rightarrow> addr option \<Rightarrow> addr \<Rightarrow> 'd vptr \<Rightarrow> (addr option \<times> 'd dheap) option" where
  "DlistPushFront h mem l v = do { b \<leftarrow> DlistBegin h l; DlistInsert h mem l b v }"

definition DlistPushBack ::
  "'d dheap \<Rightarrow> addr option \<Rightarrow> addr \<Rightarrow> 'd vptr \<Rightarrow> (addr option \<times> 'd dheap) option" where
  "DlistPushBack h mem l v = DlistInsert h mem l (DlistEnd l) v"

definition DlistPopFront :: "'d dheap \<Rightarrow> addr \<Rightarrow> 'd dheap option" where
  "DlistPopFront h l = do {
     e \<leftarrow> DlistIsEmpty h l;
     c_assert (\<not> e);
     b \<leftarrow> DlistBegin h l;
     (_, h) \<leftarrow> DlistRemove h l b;
     Some h
   }"

definition DlistPopBack :: "'d dheap \<Rightarrow> addr \<Rightarrow> 'd dheap option" where
  "DlistPopBack h l = do {
     e \<leftarrow> DlistIsEmpty h l;
     c_assert (\<not> e);
     p \<leftarrow> DlistPrev h (DlistEnd l);
     (_, h) \<leftarrow> DlistRemove h l p;
     Some h
   }"

text \<open>The loop of \<open>DlistDestroy\<close>; freeing the list frees the block with both dummies.\<close>

partial_function (option) destroy_loop :: "'d dheap \<Rightarrow> addr option \<Rightarrow> 'd dheap option" where
  "destroy_loop h node_runner = do {
     nx \<leftarrow> DlistNext h node_runner;
     if None \<noteq> nx then do {
       h \<leftarrow> free_node h node_runner;
       destroy_loop h nx
     } else Some h
   }"

definition DlistDestroy :: "'d dheap \<Rightarrow> addr \<Rightarrow> 'd dheap option" where
  "DlistDestroy h l = do {
     b \<leftarrow> DlistBegin h l;
     h \<leftarrow> destroy_loop h b;
     h \<leftarrow> free_node h (Some (begin_dummy l));
     free_node h (Some (end_dummy l))
   }"

partial_function (option) size_loop :: "'d dheap \<Rightarrow> addr option \<Rightarrow> addr option \<Rightarrow> nat \<Rightarrow> nat option" where
  "size_loop h end_of_list node_runner nodes_counter =
     (if end_of_list \<noteq> node_runner then do {
        nx \<leftarrow> DlistNext h node_runner;
        size_loop h end_of_list nx (Suc nodes_counter)
      } else Some nodes_counter)"

definition DlistSize :: "'d dheap \<Rightarrow> addr \<Rightarrow> nat option" where
  "DlistSize h l = do { b \<leftarrow> DlistBegin h l; size_loop h (DlistEnd l) b 0 }"

partial_function (option) DlistFind ::
  "'d dheap \<Rightarrow> addr option \<Rightarrow> addr option \<Rightarrow> ('d vptr \<Rightarrow> 'k \<Rightarrow> int) \<Rightarrow> 'k \<Rightarrow> addr option option" where
  "DlistFind h runner to is_match data_to_compare = do {
     same \<leftarrow> DlistIsSameIter runner to;
     if same then Some runner
     else do {
       d \<leftarrow> DlistGetData h runner;
       if is_match d data_to_compare = 0 then do {
         nx \<leftarrow> DlistNext h runner;
         DlistFind h nx to is_match data_to_compare
       } else Some runner
     }
   }"

text \<open>\<open>DlistMultiFind\<close> takes one answer of \<open>malloc\<close> for each node it adds to \<open>dest\<close>.\<close>

partial_function (option) DlistMultiFind ::
  "'d dheap \<Rightarrow> addr option list \<Rightarrow> addr \<Rightarrow> addr option \<Rightarrow> addr option \<Rightarrow> ('d vptr \<Rightarrow> 'k \<Rightarrow> int) \<Rightarrow> 'k
   \<Rightarrow> (int \<times> 'd dheap) option" where
  "DlistMultiFind h mems dest runner to is_match data_to_compare = do {
     same \<leftarrow> DlistIsSameIter runner to;
     if same then Some (0, h)
     else do {
       d \<leftarrow> DlistGetData h runner;
       if is_match d data_to_compare = 1 then do {
         c_assert (mems \<noteq> []);
         (new, h) \<leftarrow> DlistPushBack h (hd mems) dest d;
         nx \<leftarrow> DlistNext h new;
         if nx = None then Some (1, h)
         else do {
           nx \<leftarrow> DlistNext h runner;
           DlistMultiFind h (tl mems) dest nx to is_match data_to_compare
         }
       } else do {
         nx \<leftarrow> DlistNext h runner;
         DlistMultiFind h mems dest nx to is_match data_to_compare
       }
     }
   }"

text \<open>The action of \<open>DlistForEach\<close> returns a status and changes what \<open>param\<close> points to.\<close>

partial_function (option) DlistForEach ::
  "'d dheap \<Rightarrow> addr option \<Rightarrow> addr option \<Rightarrow> ('d vptr \<Rightarrow> 'p \<Rightarrow> int \<times> 'p) \<Rightarrow> int \<Rightarrow> 'p \<Rightarrow> (int \<times> 'p) option" where
  "DlistForEach h runner to action result param = do {
     same \<leftarrow> DlistIsSameIter runner to;
     if same then Some (result, param)
     else do {
       n \<leftarrow> load h runner;
       let (result, param) = action (nd_data n) param;
       if result = 0 then do {
         nx \<leftarrow> DlistNext h runner;
         DlistForEach h nx to action result param
       } else Some (result, param)
     }
   }"

definition DlistSplice ::
  "'d dheap \<Rightarrow> addr option \<Rightarrow> addr option \<Rightarrow> addr option \<Rightarrow> (addr option \<times> 'd dheap) option" where
  "DlistSplice h wh src_from src_to = do {
     src_from_prev \<leftarrow> DlistPrev h src_from;
     c_assert (None \<noteq> wh); c_assert (None \<noteq> src_from); c_assert (None \<noteq> src_to);
     p \<leftarrow> DlistPrev h src_to; h \<leftarrow> set_next h p wh;
     p \<leftarrow> DlistPrev h wh; h \<leftarrow> set_next h p src_from;
     p \<leftarrow> DlistPrev h src_from; h \<leftarrow> set_next h p src_to;
     p \<leftarrow> DlistPrev h wh; h \<leftarrow> set_prev h src_from p;
     p \<leftarrow> DlistPrev h src_to; h \<leftarrow> set_prev h wh p;
     h \<leftarrow> set_prev h src_to src_from_prev;
     r \<leftarrow> DlistPrev h wh;
     Some (r, h)
   }"

section \<open>Reading a store field by field\<close>

definition nxt :: "'d dheap \<Rightarrow> addr \<Rightarrow> addr option" where
  "nxt h a = (case h a of None \<Rightarrow> None | Some n \<Rightarrow> next_node n)"

definition prv :: "'d dheap \<Rightarrow> addr \<Rightarrow> addr option" where
  "prv h a = (case h a of None \<Rightarrow> None | Some n \<Rightarrow> prev_node n)"

definition dat :: "'d dheap \<Rightarrow> addr \<Rightarrow> 'd vptr" where
  "dat h a = (case h a of None \<Rightarrow> Null | Some n \<Rightarrow> nd_data n)"

named_theorems store_simps \<open>the fields of an updated store\<close>

lemma load_Some [store_simps]: "a \<in> dom h \<Longrightarrow> load h (Some a) = Some (the (h a))"
  by (auto simp: load_def)

lemma load_None [store_simps]: "load h None = None"
  by (simp add: load_def)

lemma fields [store_simps]:
  assumes "a \<in> dom h"
  shows "next_node (the (h a)) = nxt h a" "prev_node (the (h a)) = prv h a" "nd_data (the (h a)) = dat h a"
  using assms by (auto simp: nxt_def prv_def dat_def)

definition upd_next :: "'d dheap \<Rightarrow> addr \<Rightarrow> addr option \<Rightarrow> 'd dheap" where
  "upd_next h a v = h(a \<mapsto> (the (h a))\<lparr>next_node := v\<rparr>)"

definition upd_prev :: "'d dheap \<Rightarrow> addr \<Rightarrow> addr option \<Rightarrow> 'd dheap" where
  "upd_prev h a v = h(a \<mapsto> (the (h a))\<lparr>prev_node := v\<rparr>)"

definition upd_data :: "'d dheap \<Rightarrow> addr \<Rightarrow> 'd vptr \<Rightarrow> 'd dheap" where
  "upd_data h a v = h(a \<mapsto> (the (h a))\<lparr>nd_data := v\<rparr>)"

lemma set_next_Some [store_simps]: "a \<in> dom h \<Longrightarrow> set_next h (Some a) v = Some (upd_next h a v)"
  by (simp add: set_next_def upd_next_def load_Some)

lemma set_prev_Some [store_simps]: "a \<in> dom h \<Longrightarrow> set_prev h (Some a) v = Some (upd_prev h a v)"
  by (simp add: set_prev_def upd_prev_def load_Some)

lemma set_data_Some [store_simps]: "a \<in> dom h \<Longrightarrow> set_data h (Some a) v = Some (upd_data h a v)"
  by (simp add: set_data_def upd_data_def load_Some)

lemma free_node_Some [store_simps]: "a \<in> dom h \<Longrightarrow> free_node h (Some a) = Some (h(a := None))"
  by (simp add: free_node_def load_Some)

lemma dom_upd [store_simps]:
  assumes "a \<in> dom h"
  shows "dom (upd_next h a v) = dom h" "dom (upd_prev h a v) = dom h" "dom (upd_data h a d) = dom h"
  using assms by (auto simp: upd_next_def upd_prev_def upd_data_def)

lemma nxt_upd [store_simps]:
  assumes "a \<in> dom h"
  shows "nxt (upd_next h a v) = (nxt h)(a := v)" "nxt (upd_prev h a v) = nxt h" "nxt (upd_data h a d) = nxt h"
  using assms by (auto simp: upd_next_def upd_prev_def upd_data_def nxt_def fun_eq_iff)

lemma prv_upd [store_simps]:
  assumes "a \<in> dom h"
  shows "prv (upd_next h a v) = prv h" "prv (upd_prev h a v) = (prv h)(a := v)" "prv (upd_data h a d) = prv h"
  using assms by (auto simp: upd_next_def upd_prev_def upd_data_def prv_def fun_eq_iff)

lemma dat_upd [store_simps]:
  assumes "a \<in> dom h"
  shows "dat (upd_next h a v) = dat h" "dat (upd_prev h a v) = dat h" "dat (upd_data h a d) = (dat h)(a := d)"
  using assms by (auto simp: upd_next_def upd_prev_def upd_data_def dat_def fun_eq_iff)

lemma new_node_fields [store_simps]:
  "nxt (h(a \<mapsto> n)) = (nxt h)(a := next_node n)" "prv (h(a \<mapsto> n)) = (prv h)(a := prev_node n)"
  "dat (h(a \<mapsto> n)) = (dat h)(a := nd_data n)"
  by (auto simp: nxt_def prv_def dat_def fun_eq_iff)

lemma freed_fields [store_simps]:
  "nxt (h(a := None)) = (nxt h)(a := None)" "prv (h(a := None)) = (prv h)(a := None)"
  "dat (h(a := None)) = (dat h)(a := Null)"
  by (auto simp: nxt_def prv_def dat_def fun_eq_iff)

lemma step_simps [store_simps]:
  assumes "a \<in> dom h"
  shows "DlistNext h (Some a) = Some (nxt h a)" "DlistPrev h (Some a) = Some (prv h a)"
  using assms by (simp_all add: DlistNext_def DlistPrev_def load_Some fields)

lemma DlistBegin_simp [store_simps]: "l \<in> dom h \<Longrightarrow> DlistBegin h l = Some (nxt h l)"
  by (simp add: DlistBegin_def load_Some fields)

lemma DlistIsSameIter_simp [store_simps]: "DlistIsSameIter (Some a) (Some b) = Some (a = b)"
  by (simp add: DlistIsSameIter_def)

lemma data_simps [store_simps]:
  assumes "a \<in> dom h" "nxt h a = Some x" "prv h a = Some y"
  shows "DlistGetData h (Some a) = Some (dat h a)" "DlistSetData h (Some a) v = Some (upd_data h a v)"
  using assms by (simp_all add: DlistGetData_def DlistSetData_def store_simps)

section \<open>Chains of nodes\<close>

fun linked :: "(addr \<Rightarrow> addr option) \<Rightarrow> (addr \<Rightarrow> addr option) \<Rightarrow> addr list \<Rightarrow> bool" where
  "linked nx pv (x # y # zs) \<longleftrightarrow> nx x = Some y \<and> pv y = Some x \<and> linked nx pv (y # zs)"
| "linked nx pv _ \<longleftrightarrow> True"

lemma linked_split:
  "linked nx pv (xs @ p # w # ys) \<longleftrightarrow>
     linked nx pv (xs @ [p]) \<and> nx p = Some w \<and> pv w = Some p \<and> linked nx pv (w # ys)"
proof (induction xs)
  case (Cons x xs)
  then show ?case by (cases xs) auto
qed simp

lemma linked_next_upd [simp]:
  "a \<notin> set (butlast xs) \<Longrightarrow> linked (nx(a := v)) pv xs = linked nx pv xs"
  by (induction nx pv xs rule: linked.induct) (auto split: if_splits)

lemma linked_prev_upd [simp]:
  "a \<notin> set (tl xs) \<Longrightarrow> linked nx (pv(a := v)) xs = linked nx pv xs"
  by (induction nx pv xs rule: linked.induct) auto

lemma linked_appendD: "linked nx pv (xs @ ys) \<Longrightarrow> linked nx pv xs \<and> linked nx pv ys"
proof (induction xs)
  case (Cons x xs)
  then show ?case by (cases xs; cases ys) auto
qed simp

lemma linked_insert:
  assumes "linked nx pv (xs @ p # w # ys)" "distinct (xs @ p # w # ys)" "n \<notin> set (xs @ p # w # ys)"
  shows "linked (nx(n := Some w, p := Some n)) (pv(n := Some p, w := Some n)) (xs @ p # n # w # ys)"
proof -
  have "n \<noteq> p" "n \<noteq> w" "p \<noteq> w" "n \<notin> set ys" "p \<notin> set ys" "w \<notin> set ys" "n \<notin> set xs" "p \<notin> set xs" "w \<notin> set xs"
    using assms(2,3) by auto
  moreover have "linked nx pv (xs @ [p])" "linked nx pv (w # ys)" "nx p = Some w" "pv w = Some p"
    using assms(1) by (simp_all add: linked_split)
  moreover have "n \<notin> set (tl (xs @ [p]))" "w \<notin> set (tl (xs @ [p]))" "p \<notin> set (butlast (w # ys))" "n \<notin> set (butlast (w # ys))"
    using calculation by (cases xs; auto dest: in_set_butlastD)+
  ultimately have "linked (nx(n := Some w, p := Some n)) (pv(n := Some p, w := Some n)) (xs @ [p])"
    "linked (nx(n := Some w, p := Some n)) (pv(n := Some p, w := Some n)) (w # ys)"
    by simp_all
  then show ?thesis using \<open>n \<noteq> p\<close> \<open>n \<noteq> w\<close> linked_split [of _ _ xs p n "w # ys"] by simp
qed

lemma linked_remove:
  assumes "linked nx pv (xs @ p # n # w # ys)" "distinct (xs @ p # n # w # ys)"
  shows "linked (nx(p := Some w, n := None)) (pv(w := Some p, n := None)) (xs @ p # w # ys)"
proof -
  have "n \<noteq> p" "n \<noteq> w" "p \<noteq> w" "n \<notin> set ys" "p \<notin> set ys" "w \<notin> set ys" "n \<notin> set xs" "p \<notin> set xs" "w \<notin> set xs"
    using assms(2) by auto
  moreover have "linked nx pv (xs @ [p])" "linked nx pv (w # ys)"
    using assms(1) linked_split [of nx pv xs p n "w # ys"] by simp_all
  moreover have "n \<notin> set (tl (xs @ [p]))" "w \<notin> set (tl (xs @ [p]))" "p \<notin> set (butlast (w # ys))" "n \<notin> set (butlast (w # ys))"
    using calculation by (cases xs; auto dest: in_set_butlastD)+
  ultimately have "linked (nx(p := Some w, n := None)) (pv(w := Some p, n := None)) (xs @ [p])"
    "linked (nx(p := Some w, n := None)) (pv(w := Some p, n := None)) (w # ys)"
    by simp_all
  then show ?thesis using \<open>n \<noteq> p\<close> \<open>n \<noteq> w\<close> linked_split [of _ _ xs p w ys] by simp
qed

definition cells :: "addr \<Rightarrow> addr list \<Rightarrow> addr set" where
  "cells l ns = set (l # ns @ [Suc l])"

definition dlist :: "'d dheap \<Rightarrow> addr \<Rightarrow> addr list \<Rightarrow> bool" where
  "dlist h l ns \<longleftrightarrow> linked (nxt h) (prv h) (l # ns @ [Suc l]) \<and> distinct (l # ns @ [Suc l])
     \<and> cells l ns \<subseteq> dom h \<and> prv h l = None \<and> nxt h (Suc l) = None"

definition contents :: "'d dheap \<Rightarrow> addr list \<Rightarrow> 'd vptr list" where
  "contents h ns = map (dat h) ns"

lemma dlist_chain:
  assumes "dlist h l ns" "l # ns @ [Suc l] = zs"
  shows "linked (nxt h) (prv h) zs" "distinct zs" "set zs \<subseteq> dom h" "cells l ns = set zs"
  using assms unfolding dlist_def cells_def by blast+

text \<open>Two stores that agree on a set of addresses.\<close>

definition same_on :: "addr set \<Rightarrow> 'd dheap \<Rightarrow> 'd dheap \<Rightarrow> bool" where
  "same_on A h h' \<longleftrightarrow> (\<forall>a \<in> A. h' a = h a)"

lemma same_onD: "same_on A h h' \<Longrightarrow> a \<in> A \<Longrightarrow> nxt h' a = nxt h a \<and> prv h' a = prv h a \<and> dat h' a = dat h a \<and> (a \<in> dom h' \<longleftrightarrow> a \<in> dom h)"
  by (simp add: same_on_def nxt_def prv_def dat_def dom_def)

lemma same_on_refl: "same_on A h h"
  by (simp add: same_on_def)

lemma same_on_upd:
  "same_on (- A) h h' \<Longrightarrow> a \<in> A \<Longrightarrow> same_on (- A) h (upd_next h' a v)"
  "same_on (- A) h h' \<Longrightarrow> a \<in> A \<Longrightarrow> same_on (- A) h (upd_prev h' a v)"
  "same_on (- A) h h' \<Longrightarrow> a \<in> A \<Longrightarrow> same_on (- A) h (upd_data h' a d)"
  by (auto simp: same_on_def upd_next_def upd_prev_def upd_data_def)

lemma same_on_subset: "same_on A h h' \<Longrightarrow> B \<subseteq> A \<Longrightarrow> same_on B h h'"
  by (auto simp: same_on_def)

lemma same_on_trans: "same_on A h h' \<Longrightarrow> same_on A h' h'' \<Longrightarrow> same_on A h h''"
  by (auto simp: same_on_def)

lemma linked_cong:
  "\<forall>a \<in> set xs. nx' a = nx a \<and> pv' a = pv a \<Longrightarrow> linked nx' pv' xs = linked nx pv xs"
  by (induction nx pv xs rule: linked.induct) auto

lemma dlist_frame:
  assumes "dlist h l ns" "same_on (cells l ns) h h'"
  shows "dlist h' l ns \<and> contents h' ns = contents h ns"
proof -
  have "linked (nxt h') (prv h') (l # ns @ [Suc l]) = linked (nxt h) (prv h) (l # ns @ [Suc l])"
    using same_onD [OF assms(2)] by (intro linked_cong) (auto simp: cells_def)
  moreover have "cells l ns \<subseteq> dom h'" using assms(1) same_onD [OF assms(2)] unfolding dlist_def by blast
  moreover have "prv h' l = None" "nxt h' (Suc l) = None"
    using assms(1) same_onD [OF assms(2)] by (auto simp: dlist_def cells_def)
  moreover have "contents h' ns = contents h ns"
    using same_onD [OF assms(2)] by (auto simp: contents_def cells_def)
  ultimately show ?thesis using assms(1) unfolding dlist_def by blast
qed

text \<open>A list cut at a position: \<open>p\<close> is the node before it, \<open>w\<close> the node at it (or a dummy).\<close>

lemma chain_split:
  obtains as p w bs where "l # xs = as @ [p]" "ys @ [Suc l] = w # bs"
    "l # (xs @ ys) @ [Suc l] = as @ p # w # bs" "p = last (l # xs)" "w = hd (ys @ [Suc l])"
proof -
  have "l # xs = butlast (l # xs) @ [last (l # xs)]" by simp
  moreover have "ys @ [Suc l] = hd (ys @ [Suc l]) # tl (ys @ [Suc l])" by simp
  ultimately show thesis using that
    by (metis append.assoc append_Cons append_Nil)
qed

lemma dlistD:
  assumes "dlist h l (xs @ ys)" "w = hd (ys @ [Suc l])" "p = last (l # xs)"
  shows "w \<in> dom h" "p \<in> dom h" "nxt h p = Some w" "prv h w = Some p" "w \<noteq> l" "p \<noteq> Suc l" "p \<noteq> w"
proof -
  obtain as bs where c: "l # (xs @ ys) @ [Suc l] = as @ p # w # bs" "l # xs = as @ [p]" "ys @ [Suc l] = w # bs"
    using chain_split [of l xs ys] assms(2,3) by metis
  then have "cells l (xs @ ys) = set (as @ p # w # bs)" by (simp only: cells_def)
  moreover have "linked (nxt h) (prv h) (as @ p # w # bs)" "distinct (as @ p # w # bs)"
    using dlist_chain [OF assms(1) c(1)] by simp_all
  ultimately show "w \<in> dom h" "p \<in> dom h" "nxt h p = Some w" "prv h w = Some p" "p \<noteq> w"
    using assms(1) by (auto simp: dlist_def linked_split)
  show "w \<noteq> l" using assms(1,2) by (cases ys) (auto simp: dlist_def)
  show "p \<noteq> Suc l" using assms(1,3) last_in_set [of xs]
    by (cases "xs = []") (auto simp: dlist_def simp del: last_in_set)
qed

section \<open>Insertion and removal\<close>

lemma DlistInsert_spec:
  assumes L: "dlist h l (xs @ ys)" and n: "n \<notin> dom h" and w: "w = hd (ys @ [Suc l])"
  shows "\<exists>h'. DlistInsert h (Some n) l (Some w) v = Some (Some n, h') \<and> dlist h' l (xs @ n # ys)
           \<and> dat h' = (dat h)(n := v) \<and> dom h' = insert n (dom h) \<and> same_on (- insert n (cells l (xs @ ys))) h h'"
proof -
  define p where "p = last (l # xs)"
  note d = dlistD [OF L w p_def]
  obtain as bs where c: "l # (xs @ ys) @ [Suc l] = as @ p # w # bs" "l # xs = as @ [p]" "ys @ [Suc l] = w # bs"
    using chain_split [of l xs ys] w p_def by metis
  have cl: "cells l (xs @ ys) = set (as @ p # w # bs)" using c by (simp only: cells_def)
  have ne: "n \<noteq> p" "n \<noteq> w" using n d by auto
  define h1 where "h1 = h(n \<mapsto> \<lparr>nd_data = Null, next_node = None, prev_node = None\<rparr>)"
  define h' where "h' = upd_prev (upd_next (upd_data (upd_prev (upd_next h1 n (Some w)) n (Some p)) n v) p (Some n)) w (Some n)"
  have D1: "dom h1 = insert n (dom h)" by (auto simp: h1_def)
  have F1: "nxt h1 = (nxt h)(n := None)" "prv h1 = (prv h)(n := None)" "dat h1 = (dat h)(n := Null)"
    by (simp_all add: h1_def store_simps)
  have run: "DlistInsert h (Some n) l (Some w) v = Some (Some n, h')"
    using d ne by (simp add: DlistInsert_def CreatNewNode_def h1_def [symmetric] h'_def store_simps D1 F1)
  have D': "dom h' = insert n (dom h)" using d D1 by (simp add: h'_def store_simps insert_absorb)
  have F': "nxt h' = (nxt h)(n := Some w, p := Some n)" "prv h' = (prv h)(n := Some p, w := Some n)" "dat h' = (dat h)(n := v)"
    using d D1 by (simp_all add: h'_def store_simps F1)
  have nc: "n \<notin> set (as @ p # w # bs)" using n L cl by (auto simp: dlist_def)
  have lk: "linked (nxt h) (prv h) (as @ p # w # bs)" "distinct (as @ p # w # bs)"
    using dlist_chain [OF L c(1)] by simp_all
  have c': "l # (xs @ n # ys) @ [Suc l] = as @ p # n # w # bs" using c(2,3) by (metis append.assoc append_Cons append_Nil)
  have "linked (nxt h') (prv h') (l # (xs @ n # ys) @ [Suc l])"
    unfolding F' c' using linked_insert [OF lk nc] .
  moreover have "distinct (l # (xs @ n # ys) @ [Suc l])" unfolding c' using lk(2) nc by auto
  moreover have "cells l (xs @ n # ys) \<subseteq> dom h'" using L D' by (auto simp: dlist_def cells_def)
  moreover have "prv h' l = None" "nxt h' (Suc l) = None"
    using L d(5,6) nc c(1) F' n by (auto simp: dlist_def cells_def)
  ultimately have "dlist h' l (xs @ n # ys)" unfolding dlist_def by blast
  moreover have "same_on (- insert n (cells l (xs @ ys))) h h'"
    unfolding cl by (auto simp: same_on_def h'_def h1_def upd_next_def upd_prev_def upd_data_def)
  ultimately show ?thesis using run D' F' by blast
qed

lemma DlistRemove_spec:
  assumes L: "dlist h l (xs @ n # ys)" and w: "w = hd (ys @ [Suc l])"
  shows "\<exists>h'. DlistRemove h l (Some n) = Some (Some w, h') \<and> dlist h' l (xs @ ys)
           \<and> dat h' = (dat h)(n := Null) \<and> dom h' = dom h - {n} \<and> same_on (- cells l (xs @ n # ys)) h h'"
proof -
  define p where "p = last (l # xs)"
  have "dlist h l ((xs @ [n]) @ ys)" using L by simp
  note d1 = dlistD [OF L, of n p] and d2 = dlistD [OF this w, of n]
  have d: "p \<in> dom h" "nxt h p = Some n" "prv h n = Some p" "n \<noteq> l" "p \<noteq> Suc l" "p \<noteq> n"
    "w \<in> dom h" "n \<in> dom h" "nxt h n = Some w" "prv h w = Some n" "w \<noteq> l" "n \<noteq> Suc l" "n \<noteq> w"
    using d1 d2 by (auto simp: p_def)
  obtain as bs where c: "l # (xs @ ys) @ [Suc l] = as @ p # w # bs" "l # xs = as @ [p]" "ys @ [Suc l] = w # bs"
    using chain_split [of l xs ys] w p_def by metis
  have c': "l # (xs @ n # ys) @ [Suc l] = as @ p # n # w # bs" using c(2,3) by (metis append.assoc append_Cons append_Nil)
  have lk: "linked (nxt h) (prv h) (as @ p # n # w # bs)" "distinct (as @ p # n # w # bs)"
    using dlist_chain [OF L c'] by simp_all
  have ne: "p \<noteq> w" using lk(2) by auto
  define h' where "h' = (upd_next (upd_prev h w (Some p)) p (Some w))(n := None)"
  have run: "DlistRemove h l (Some n) = Some (Some w, h')"
    using d ne by (simp add: DlistRemove_def h'_def store_simps)
  have D': "dom h' = dom h - {n}" using d by (simp add: h'_def store_simps)
  have F': "nxt h' = (nxt h)(p := Some w, n := None)" "prv h' = (prv h)(w := Some p, n := None)" "dat h' = (dat h)(n := Null)"
    using d by (simp_all add: h'_def store_simps)
  have "linked (nxt h') (prv h') (l # (xs @ ys) @ [Suc l])"
    unfolding F' c(1) using linked_remove [OF lk] .
  moreover have "distinct (l # (xs @ ys) @ [Suc l])" unfolding c(1) using lk(2) by auto
  moreover have "cells l (xs @ ys) \<subseteq> dom h'" using L D' by (auto simp: dlist_def cells_def)
  moreover have "prv h' l = None" "nxt h' (Suc l) = None"
    using L d F' by (auto simp: dlist_def)
  ultimately have "dlist h' l (xs @ ys)" unfolding dlist_def by blast
  moreover have "same_on (- cells l (xs @ n # ys)) h h'"
    unfolding cells_def c' by (auto simp: same_on_def h'_def upd_next_def upd_prev_def)
  ultimately show ?thesis using run D' F' by blast
qed


lemma DlistCreate_spec:
  assumes "l \<notin> dom h" "Suc l \<notin> dom h"
  shows "\<exists>h'. DlistCreate h (Some l) = (Some l, h') \<and> dlist h' l [] \<and> dom h' = {l, Suc l} \<union> dom h
           \<and> same_on (- {l, Suc l}) h h'"
  by (auto simp: DlistCreate_def dlist_def cells_def same_on_def store_simps)

lemma DlistInsert_fails:
  assumes "w \<noteq> None"
  shows "DlistInsert h None l w v = Some (Some (Suc l), h)"
  using assms by (cases w) (simp_all add: DlistInsert_def CreatNewNode_def DlistEnd_def)

lemma contents_append [simp]: "contents h (xs @ ys) = contents h xs @ contents h ys"
  by (simp add: contents_def)

lemma contents_Cons [simp]: "contents h (x # ys) = dat h x # contents h ys"
  by (simp add: contents_def)

lemma contents_Nil [simp]: "contents h [] = []"
  by (simp add: contents_def)

lemma length_contents [simp]: "length (contents h ns) = length ns"
  by (simp add: contents_def)

lemma contents_upd: "dat h' = (dat h)(n := v) \<Longrightarrow> n \<notin> set xs \<Longrightarrow> contents h' xs = contents h xs"
  by (auto simp: contents_def)

lemma contents_takeWhile:
  "contents h (takeWhile (\<lambda>n. test (dat h n)) ns) = takeWhile test (contents h ns)"
  "contents h (dropWhile (\<lambda>n. test (dat h n)) ns) = dropWhile test (contents h ns)"
  by (simp_all add: contents_def takeWhile_map dropWhile_map comp_def)

lemma dropWhile_contents_cases:
  obtains (none) "dropWhile (\<lambda>n. test (dat h n)) ns = []" "dropWhile test (contents h ns) = []"
  | (some) n xs ys where "dropWhile (\<lambda>n. test (dat h n)) ns = n # ys" "dropWhile test (contents h ns) = dat h n # contents h ys"
    "ns = xs @ n # ys" "takeWhile test (contents h ns) = contents h xs" "\<not> test (dat h n)"
proof (cases "dropWhile (\<lambda>n. test (dat h n)) ns")
  case Nil
  then show thesis using none contents_takeWhile(2) [of h test ns] by (metis contents_Nil)
next
  case (Cons n ys)
  moreover have "\<not> test (dat h n)" using Cons unfolding dropWhile_eq_Cons_conv by blast
  ultimately show thesis
    using some [of n ys "takeWhile (\<lambda>n. test (dat h n)) ns"] contents_takeWhile [of h test ns]
      takeWhile_dropWhile_id [of "\<lambda>n. test (dat h n)" ns] by simp
qed

lemma dlist_distinct: "dlist h l ns \<Longrightarrow> distinct ns"
  by (simp add: dlist_def)

lemma dlist_dom: "dlist h l ns \<Longrightarrow> cells l ns \<subseteq> dom h"
  by (simp add: dlist_def)

lemma dlist_node_dom: "dlist h l ns \<Longrightarrow> n \<in> set ns \<Longrightarrow> n \<in> dom h"
  by (auto simp: dlist_def cells_def)

lemma dlist_begin: "dlist h l ns \<Longrightarrow> DlistBegin h l = Some (Some (hd (ns @ [Suc l])))"
  using dlistD(2,3) [of h l "[]" ns, OF _ refl refl] by (simp add: store_simps)

lemma dlist_node:
  assumes "dlist h l (xs @ n # ys)"
  shows "nxt h n = Some (hd (ys @ [Suc l]))" "prv h n = Some (last (l # xs))" "n \<noteq> Suc l" "n \<in> dom h" "n \<noteq> l"
proof -
  have L: "dlist h l ((xs @ [n]) @ ys)" using assms by simp
  show "nxt h n = Some (hd (ys @ [Suc l]))" using dlistD(3) [OF L refl refl] by simp
  show "prv h n = Some (last (l # xs))" using dlistD(4) [OF assms refl refl] by simp
  show "n \<noteq> Suc l" "n \<in> dom h" "n \<noteq> l" using assms by (auto simp: dlist_def cells_def)
qed

lemma dlist_node_steps:
  assumes "dlist h l (xs @ n # ys)"
  shows "DlistNext h (Some n) = Some (Some (hd (ys @ [Suc l])))" "DlistPrev h (Some n) = Some (Some (last (l # xs)))"
    "DlistGetData h (Some n) = Some (dat h n)" "load h (Some n) = Some (the (h n))" "nd_data (the (h n)) = dat h n"
    "DlistSetData h (Some n) v = Some (upd_data h n v)"
  using dlist_node [OF assms] by (simp_all add: store_simps)

lemma DlistIsEmpty_iff: "dlist h l ns \<Longrightarrow> DlistIsEmpty h l = Some (ns = [])"
  by (cases ns) (simp_all add: DlistIsEmpty_def dlist_begin DlistEnd_def dlist_node(3) [of h l "[]"])

lemma DlistSetData_spec:
  assumes "dlist h l (xs @ n # ys)"
  shows "dlist (upd_data h n v) l (xs @ n # ys)"
  using assms dlist_node [OF assms] unfolding dlist_def by (simp add: store_simps)

text \<open>The new node's data, and the data of the others, after an insertion or a removal.\<close>

lemma DlistInsert_contents:
  assumes L: "dlist h l (xs @ ys)" and n: "n \<notin> dom h" and w: "w = hd (ys @ [Suc l])"
  shows "\<exists>h'. DlistInsert h (Some n) l (Some w) v = Some (Some n, h') \<and> dlist h' l (xs @ n # ys)
           \<and> contents h' (xs @ n # ys) = contents h xs @ v # contents h ys
           \<and> dom h' = insert n (dom h) \<and> same_on (- insert n (cells l (xs @ ys))) h h'"
proof -
  obtain h' where h': "DlistInsert h (Some n) l (Some w) v = Some (Some n, h')" "dlist h' l (xs @ n # ys)"
    "dat h' = (dat h)(n := v)" "dom h' = insert n (dom h)" "same_on (- insert n (cells l (xs @ ys))) h h'"
    using DlistInsert_spec [OF assms] by blast
  have "n \<notin> set xs" "n \<notin> set ys" using h'(2) by (auto simp: dlist_def)
  then show ?thesis using h' by (simp add: contents_upd)
qed

lemma DlistRemove_contents:
  assumes L: "dlist h l (xs @ n # ys)" and w: "w = hd (ys @ [Suc l])"
  shows "\<exists>h'. DlistRemove h l (Some n) = Some (Some w, h') \<and> dlist h' l (xs @ ys)
           \<and> contents h' (xs @ ys) = contents h (xs @ ys)
           \<and> dom h' = dom h - {n} \<and> same_on (- cells l (xs @ n # ys)) h h'"
proof -
  obtain h' where h': "DlistRemove h l (Some n) = Some (Some w, h')" "dlist h' l (xs @ ys)"
    "dat h' = (dat h)(n := Null)" "dom h' = dom h - {n}" "same_on (- cells l (xs @ n # ys)) h h'"
    using DlistRemove_spec [OF assms] by blast
  have "n \<notin> set (xs @ ys)" using L by (auto simp: dlist_def)
  then show ?thesis using h' contents_upd [OF h'(3)] by blast
qed

lemma DlistPopFront_spec:
  assumes L: "dlist h l (n # ns)"
  shows "\<exists>h'. DlistPopFront h l = Some h' \<and> dlist h' l ns \<and> contents h' ns = contents h ns
           \<and> dom h' = dom h - {n} \<and> same_on (- cells l (n # ns)) h h'"
  using DlistRemove_contents [of h l "[]" n ns] L
  by (fastforce simp: DlistPopFront_def DlistIsEmpty_iff dlist_begin)

lemma DlistPopBack_spec:
  assumes L: "dlist h l (ns @ [n])"
  shows "\<exists>h'. DlistPopBack h l = Some h' \<and> dlist h' l ns \<and> contents h' ns = contents h ns
           \<and> dom h' = dom h - {n} \<and> same_on (- cells l (ns @ [n])) h h'"
proof -
  have "DlistPrev h (DlistEnd l) = Some (Some n)"
    using dlistD(1,4) [of h l "ns @ [n]" "[]", OF _ refl refl] L by (simp add: DlistEnd_def store_simps)
  then show ?thesis using DlistRemove_contents [of h l ns n "[]"] L
    by (fastforce simp: DlistPopBack_def DlistIsEmpty_iff)
qed

section \<open>The traversals\<close>

lemma size_loop_spec:
  "dlist h l (xs @ ys) \<Longrightarrow>
   size_loop h (Some (Suc l)) (Some (hd (ys @ [Suc l]))) k = Some (k + length ys)"
proof (induction ys arbitrary: xs k)
  case Nil
  show ?case by (simp add: size_loop.simps)
next
  case (Cons n ys)
  have "size_loop h (Some (Suc l)) (Some (hd (ys @ [Suc l]))) (Suc k) = Some (Suc k + length ys)"
    using Cons.IH [of "xs @ [n]"] Cons.prems by simp
  then show ?case using Cons.prems dlist_node [OF Cons.prems]
    by (subst size_loop.simps) (simp add: dlist_node_steps)
qed

lemma DlistSize_spec: "dlist h l ns \<Longrightarrow> DlistSize h l = Some (length ns)"
  using size_loop_spec [of h l "[]" ns 0] by (simp add: DlistSize_def dlist_begin DlistEnd_def)

text \<open>The node a pointer inside or at the end of the list is at differs from those before it.\<close>

lemma dlist_hd_notin:
  assumes "dlist h l (xs @ n # ys @ zs)"
  shows "hd (zs @ [Suc l]) \<noteq> n"
  using assms by (cases zs) (auto simp: dlist_def)

lemma DlistFind_spec:
  "dlist h l (xs @ ys @ zs) \<Longrightarrow>
   DlistFind h (Some (hd (ys @ zs @ [Suc l]))) (Some (hd (zs @ [Suc l]))) is_match k =
     Some (Some (hd (dropWhile (\<lambda>n. is_match (dat h n) k = 0) ys @ zs @ [Suc l])))"
proof (induction ys arbitrary: xs)
  case Nil
  show ?case by (simp add: DlistFind.simps DlistIsSameIter_simp)
next
  case (Cons n ys)
  have L: "dlist h l (xs @ n # ys @ zs)" "dlist h l ((xs @ [n]) @ ys @ zs)" using Cons.prems by simp_all
  show ?case using dlist_hd_notin [OF L(1)] dlist_node_steps [OF L(1)] Cons.IH [OF L(2)]
    by (subst DlistFind.simps) (simp add: DlistIsSameIter_simp)
qed

lemma DlistForEach_spec:
  "dlist h l (xs @ ys @ zs) \<Longrightarrow>
   DlistForEach h (Some (hd (ys @ zs @ [Suc l]))) (Some (hd (zs @ [Suc l]))) action r p =
     Some (run_action action (contents h ys) r p)"
proof (induction ys arbitrary: xs r p)
  case Nil
  show ?case by (simp add: DlistForEach.simps DlistIsSameIter_simp)
next
  case (Cons n ys)
  have L: "dlist h l (xs @ n # ys @ zs)" "dlist h l ((xs @ [n]) @ ys @ zs)" using Cons.prems by simp_all
  show ?case using dlist_hd_notin [OF L(1)] dlist_node_steps [OF L(1)] Cons.IH [OF L(2)]
    by (subst DlistForEach.simps) (auto simp: DlistIsSameIter_simp split: prod.split)
qed

lemma destroy_loop_spec:
  "\<lbrakk>linked (nxt h) (prv h) (ys @ [e]); distinct (ys @ [e]); set (ys @ [e]) \<subseteq> dom h; nxt h e = None\<rbrakk> \<Longrightarrow>
   \<exists>h'. destroy_loop h (Some (hd (ys @ [e]))) = Some h' \<and> h' = h |` (- set ys)"
proof (induction ys arbitrary: h)
  case Nil
  then show ?case by (subst destroy_loop.simps) (simp add: store_simps restrict_map_def)
next
  case (Cons n ys)
  have nx: "nxt h n = Some (hd (ys @ [e]))" using Cons.prems(1) by (cases ys) auto
  define h1 where "h1 = h(n := None)"
  have "linked (nxt h1) (prv h1) (ys @ [e])"
    using Cons.prems(1,2) by (subst linked_cong [of _ _ "nxt h" _ "prv h"])
      (cases ys; auto simp: h1_def store_simps)+
  moreover have "distinct (ys @ [e])" "set (ys @ [e]) \<subseteq> dom h1" "nxt h1 e = None"
    using Cons.prems by (auto simp: h1_def store_simps)
  ultimately obtain h' where h': "destroy_loop h1 (Some (hd (ys @ [e]))) = Some h'" "h' = h1 |` (- set ys)"
    using Cons.IH by blast
  have "h1 |` (- set ys) = h |` (- set (n # ys))" by (auto simp: h1_def restrict_map_def fun_eq_iff)
  then show ?case using h' nx Cons.prems(3) by (subst destroy_loop.simps) (simp add: store_simps h1_def)
qed

lemma DlistDestroy_spec:
  assumes "dlist h l ns"
  shows "DlistDestroy h l = Some (h |` (- cells l ns))"
proof -
  note c = dlist_chain [OF assms refl]
  have "linked (nxt h) (prv h) (ns @ [Suc l])" using c(1) by (cases ns) auto
  then have "destroy_loop h (Some (hd (ns @ [Suc l]))) = Some (h |` (- set ns))"
    using destroy_loop_spec [of h ns "Suc l"] c assms by (auto simp: dlist_def)
  moreover have "l \<in> dom (h |` (- set ns))" "Suc l \<in> dom ((h |` (- set ns))(l := None))" using c by auto
  moreover have "(h |` (- set ns))(l := None, Suc l := None) = h |` (- cells l ns)"
    by (auto simp: cells_def restrict_map_def fun_eq_iff)
  ultimately show ?thesis using assms by (simp add: DlistDestroy_def dlist_begin store_simps)
qed

section \<open>Splicing and copying\<close>

lemma linked_join:
  "xs \<noteq> [] \<Longrightarrow> ys \<noteq> [] \<Longrightarrow>
   linked nx pv (xs @ ys) \<longleftrightarrow> linked nx pv xs \<and> nx (last xs) = Some (hd ys) \<and> pv (hd ys) = Some (last xs) \<and> linked nx pv ys"
proof -
  assume "xs \<noteq> []" "ys \<noteq> []"
  then have "xs = butlast xs @ [last xs]" "ys = hd ys # tl ys" by simp_all
  then show ?thesis using linked_split [of nx pv "butlast xs" "last xs" "hd ys" "tl ys"]
    by (metis append.assoc append_Cons append_Nil)
qed

lemma butlast_last_notin: "distinct xs \<Longrightarrow> xs \<noteq> [] \<Longrightarrow> last xs \<notin> set (butlast xs)"
  by (induction xs) (auto split: if_splits dest: in_set_butlastD)

lemma tl_hd_notin: "distinct xs \<Longrightarrow> xs \<noteq> [] \<Longrightarrow> hd xs \<notin> set (tl xs)"
  by (cases xs) auto

text \<open>The six assignments of \<open>DlistSplice\<close> on the chains of the two lists.\<close>

lemma linked_splice:
  assumes L1: "linked nx pv (as @ bs)" and L2: "linked nx pv (cs @ ms @ ds)"
    and ne: "as \<noteq> []" "bs \<noteq> []" "cs \<noteq> []" "ms \<noteq> []" "ds \<noteq> []"
    and D: "distinct (as @ bs @ cs @ ms @ ds)"
  defines "nx' \<equiv> nx(last ms := Some (hd bs), last as := Some (hd ms), last cs := Some (hd ds))"
    and "pv' \<equiv> pv(hd ms := Some (last as), hd bs := Some (last ms), hd ds := Some (last cs))"
  shows "linked nx' pv' (as @ ms @ bs) \<and> linked nx' pv' (cs @ ds)"
proof -
  have ins: "last as \<in> set as" "hd bs \<in> set bs" "last cs \<in> set cs" "hd ms \<in> set ms" "last ms \<in> set ms" "hd ds \<in> set ds"
    using ne by auto
  have seg: "linked nx pv as" "linked nx pv bs" "linked nx pv cs" "linked nx pv ms" "linked nx pv ds"
    using L1 L2 ne linked_join by (metis append_is_Nil_conv)+
  have dis: "\<And>x. x \<in> set as \<Longrightarrow> x \<notin> set bs \<and> x \<notin> set cs \<and> x \<notin> set ms \<and> x \<notin> set ds"
    "\<And>x. x \<in> set bs \<Longrightarrow> x \<notin> set cs \<and> x \<notin> set ms \<and> x \<notin> set ds"
    "\<And>x. x \<in> set cs \<Longrightarrow> x \<notin> set ms \<and> x \<notin> set ds" "\<And>x. x \<in> set ms \<Longrightarrow> x \<notin> set ds"
    "distinct as" "distinct bs" "distinct cs" "distinct ms" "distinct ds"
    using D by auto
  have nb: "last as \<notin> set (butlast as)" "last cs \<notin> set (butlast cs)" "last ms \<notin> set (butlast ms)"
    "hd bs \<notin> set (tl bs)" "hd ms \<notin> set (tl ms)" "hd ds \<notin> set (tl ds)"
    using dis ne by (simp_all add: butlast_last_notin tl_hd_notin)
  have seg': "linked nx' pv' xs"
    if x: "linked nx pv xs" "last as \<notin> set (butlast xs)" "last cs \<notin> set (butlast xs)" "last ms \<notin> set (butlast xs)"
      "hd bs \<notin> set (tl xs)" "hd ms \<notin> set (tl xs)" "hd ds \<notin> set (tl xs)" for xs
    using x by (simp add: nx'_def pv'_def)
  have out: "x \<notin> set xs \<Longrightarrow> x \<notin> set (butlast xs) \<and> x \<notin> set (tl xs)" for x :: nat and xs
    by (cases xs) (auto dest: in_set_butlastD)
  have "linked nx' pv' as" "linked nx' pv' bs" "linked nx' pv' cs" "linked nx' pv' ms" "linked nx' pv' ds"
    by (rule seg'; use seg nb out dis ins in blast)+
  moreover have "nx' (last as) = Some (hd ms)" "pv' (hd ms) = Some (last as)" "nx' (last ms) = Some (hd bs)"
    "pv' (hd bs) = Some (last ms)" "nx' (last cs) = Some (hd ds)" "pv' (hd ds) = Some (last cs)"
    using ins dis by (auto simp: nx'_def pv'_def)
  ultimately show ?thesis using ne by (simp add: linked_join)
qed

lemma DlistSplice_spec:
  assumes L1: "dlist h l (xs @ ys)" and L2: "dlist h k (us @ ms @ vs)" and m: "ms \<noteq> []"
    and dj: "cells l (xs @ ys) \<inter> cells k (us @ ms @ vs) = {}"
    and w: "w = hd (ys @ [Suc l])" and t: "t = hd (vs @ [Suc k])"
  shows "\<exists>h'. DlistSplice h (Some w) (Some (hd ms)) (Some t) = Some (Some (last ms), h')
           \<and> dlist h' l (xs @ ms @ ys) \<and> dlist h' k (us @ vs) \<and> dat h' = dat h \<and> dom h' = dom h
           \<and> same_on (- (cells l (xs @ ys) \<union> cells k (us @ ms @ vs))) h h'"
proof -
  define as where "as = l # xs" define bs where "bs = ys @ [Suc l]"
  define cs where "cs = k # us" define ds where "ds = vs @ [Suc k]"
  have ne: "as \<noteq> []" "bs \<noteq> []" "cs \<noteq> []" "ds \<noteq> []" by (simp_all add: as_def bs_def cs_def ds_def)
  have eq: "l # (xs @ ys) @ [Suc l] = as @ bs" "k # (us @ ms @ vs) @ [Suc k] = cs @ ms @ ds"
    by (simp_all add: as_def bs_def cs_def ds_def)
  note c1 = dlist_chain [OF L1 eq(1)] and c2 = dlist_chain [OF L2 eq(2)]
  have D: "distinct (as @ bs @ cs @ ms @ ds)" using c1 c2 dj by auto
  have wt: "w = hd bs" "t = hd ds" using w t by (simp_all add: bs_def ds_def)
  have ln: "nxt h (last as) = Some w" "prv h w = Some (last as)" "nxt h (last cs) = Some (hd ms)"
    "prv h (hd ms) = Some (last cs)" "nxt h (last ms) = Some t" "prv h t = Some (last ms)"
    using c1(1) c2(1) ne m wt by (simp_all add: linked_join)
  have ins: "last as \<in> set as" "w \<in> set bs" "last cs \<in> set cs" "hd ms \<in> set ms" "last ms \<in> set ms" "t \<in> set ds"
    using ne m wt by auto
  have dm: "last as \<in> dom h" "w \<in> dom h" "last cs \<in> dom h" "hd ms \<in> dom h" "last ms \<in> dom h" "t \<in> dom h"
    using ins c1(3) c2(3) by auto
  have nq: "w \<noteq> hd ms" "w \<noteq> t" "hd ms \<noteq> t" using D ins by auto
  define h' where "h' = upd_prev (upd_prev (upd_prev (upd_next (upd_next (upd_next h (last ms) (Some w))
     (last as) (Some (hd ms))) (last cs) (Some t)) (hd ms) (Some (last as))) w (Some (last ms))) t (Some (last cs))"
  have F': "nxt h' = (nxt h)(last ms := Some w, last as := Some (hd ms), last cs := Some t)"
    "prv h' = (prv h)(hd ms := Some (last as), w := Some (last ms), t := Some (last cs))"
    "dat h' = dat h" "dom h' = dom h"
    using dm by (simp_all add: h'_def store_simps)
  have run: "DlistSplice h (Some w) (Some (hd ms)) (Some t) = Some (Some (last ms), h')"
    using dm ln nq by (simp add: DlistSplice_def h'_def store_simps)
  have S: "linked (nxt h') (prv h') (as @ ms @ bs) \<and> linked (nxt h') (prv h') (cs @ ds)"
    unfolding F' wt by (rule linked_splice) (use c1 c2 ne m D in simp_all)
  have pos: "Suc l \<in> set bs" "Suc k \<in> set ds" "l \<in> set as" "k \<in> set cs"
    by (simp_all add: as_def bs_def cs_def ds_def)
  have dis: "set as \<inter> set bs = {}" "set as \<inter> set cs = {}" "set as \<inter> set ms = {}" "set as \<inter> set ds = {}"
    "set bs \<inter> set cs = {}" "set bs \<inter> set ms = {}" "set bs \<inter> set ds = {}" "set cs \<inter> set ms = {}" "set cs \<inter> set ds = {}"
    "set ms \<inter> set ds = {}"
    using D by auto
  have ends: "last ms \<noteq> Suc l" "last as \<noteq> Suc l" "last cs \<noteq> Suc l" "last ms \<noteq> Suc k" "last as \<noteq> Suc k" "last cs \<noteq> Suc k"
    "hd ms \<noteq> l" "w \<noteq> l" "t \<noteq> l" "hd ms \<noteq> k" "w \<noteq> k" "t \<noteq> k"
    using pos dis ins by (metis disjoint_iff)+
  have ch: "l # (xs @ ms @ ys) @ [Suc l] = as @ ms @ bs" "k # (us @ vs) @ [Suc k] = cs @ ds"
    by (simp_all add: as_def bs_def cs_def ds_def)
  have e: "prv h' l = None" "nxt h' (Suc l) = None" "prv h' k = None" "nxt h' (Suc k) = None"
    using L1 L2 ends unfolding dlist_def F' by (metis fun_upd_apply)+
  have dd: "distinct (as @ ms @ bs)" "distinct (cs @ ds)" using D by auto
  have ss: "set (as @ ms @ bs) \<subseteq> dom h'" "set (cs @ ds) \<subseteq> dom h'" using c1(3) c2(3) by (auto simp: F')
  have "dlist h' l (xs @ ms @ ys)" "dlist h' k (us @ vs)"
    by (simp_all only: dlist_def cells_def ch S dd ss e simp_thms)
  moreover
  have "same_on (- (cells l (xs @ ys) \<union> cells k (us @ ms @ vs))) h h'"
    unfolding h'_def c1(4) c2(4) by (intro same_on_upd same_on_refl) (use ins in simp_all)
  ultimately show ?thesis using run F' by blast
qed

lemma DlistPushBack_spec:
  assumes "dlist h l ns" "n \<notin> dom h"
  shows "\<exists>h'. DlistPushBack h (Some n) l v = Some (Some n, h') \<and> dlist h' l (ns @ [n])
           \<and> contents h' (ns @ [n]) = contents h ns @ [v] \<and> dom h' = insert n (dom h)
           \<and> same_on (- insert n (cells l ns)) h h'"
  using DlistInsert_contents [of h l ns "[]" n "Suc l" v] assms by (auto simp: DlistPushBack_def DlistEnd_def)

text \<open>
  \<open>DlistMultiFind\<close> copies to the back of \<open>dest\<close>, in order, the data of the range for which the
  predicate answers exactly 1, when every allocation succeeds with a fresh address.
\<close>

lemma DlistMultiFind_spec:
  "\<lbrakk>dlist h k (xs @ ys @ zs); dlist h l ns; cells k (xs @ ys @ zs) \<inter> cells l ns = {};
    length new = length (filter (\<lambda>d. is_match d key = 1) (contents h ys)); distinct new; set new \<inter> dom h = {}\<rbrakk> \<Longrightarrow>
   \<exists>h'. DlistMultiFind h (map Some new) l (Some (hd (ys @ zs @ [Suc k]))) (Some (hd (zs @ [Suc k]))) is_match key = Some (0, h')
     \<and> dlist h' k (xs @ ys @ zs) \<and> dlist h' l (ns @ new)
     \<and> contents h' (ns @ new) = contents h ns @ filter (\<lambda>d. is_match d key = 1) (contents h ys)
     \<and> contents h' (xs @ ys @ zs) = contents h (xs @ ys @ zs)"
proof (induction ys arbitrary: xs h ns new)
  case Nil
  then show ?case by (subst DlistMultiFind.simps) (simp add: DlistIsSameIter_simp)
next
  case (Cons n ys)
  have L: "dlist h k (xs @ n # ys @ zs)" "dlist h k ((xs @ [n]) @ ys @ zs)" using Cons.prems(1) by simp_all
  note st = dlist_hd_notin [OF L(1)] dlist_node_steps [OF L(1)]
  show ?case
  proof (cases "is_match (dat h n) key = 1")
    case False
    then have "length new = length (filter (\<lambda>d. is_match d key = 1) (contents h ys))"
      using Cons.prems(4) by simp
    then show ?thesis using Cons.IH [OF L(2) Cons.prems(2)] Cons.prems(3,5,6) False st
      by (subst DlistMultiFind.simps) (simp add: DlistIsSameIter_simp)
  next
    case True
    then obtain m new' where nw: "new = m # new'" "length new' = length (filter (\<lambda>d. is_match d key = 1) (contents h ys))"
      using Cons.prems(4) by (cases new) auto
    have mf: "m \<notin> dom h" using Cons.prems(6) nw by auto
    obtain h1 where h1: "DlistPushBack h (Some m) l (dat h n) = Some (Some m, h1)" "dlist h1 l (ns @ [m])"
      "contents h1 (ns @ [m]) = contents h ns @ [dat h n]" "dom h1 = insert m (dom h)"
      "same_on (- insert m (cells l ns)) h h1"
      using DlistPushBack_spec [OF Cons.prems(2) mf, of "dat h n"] by blast
    have "cells k (xs @ (n # ys) @ zs) \<subseteq> - insert m (cells l ns)"
      using Cons.prems(1,3) mf dlist_dom [OF Cons.prems(1)] by auto
    then have fr: "dlist h1 k (xs @ n # ys @ zs)" "contents h1 (xs @ n # ys @ zs) = contents h (xs @ n # ys @ zs)"
      using dlist_frame [OF Cons.prems(1) same_on_subset [OF h1(5)]] by simp_all
    have L1: "dlist h1 k ((xs @ [n]) @ ys @ zs)" using fr by simp
    have dj: "cells k ((xs @ [n]) @ ys @ zs) \<inter> cells l (ns @ [m]) = {}"
      using Cons.prems(3) mf dlist_dom [OF Cons.prems(1)] by (auto simp: cells_def)
    have cy: "contents h1 ys = contents h ys" "contents h1 xs = contents h xs" "contents h1 zs = contents h zs" "dat h1 n = dat h n"
      using fr(2) by simp_all
    have "distinct new'" "set new' \<inter> dom h1 = {}" using Cons.prems(5,6) nw h1(4) by auto
    then obtain h' where h': "DlistMultiFind h1 (map Some new') l (Some (hd (ys @ zs @ [Suc k]))) (Some (hd (zs @ [Suc k]))) is_match key = Some (0, h')"
      "dlist h' k ((xs @ [n]) @ ys @ zs)" "dlist h' l ((ns @ [m]) @ new')"
      "contents h' ((ns @ [m]) @ new') = contents h1 (ns @ [m]) @ filter (\<lambda>d. is_match d key = 1) (contents h1 ys)"
      "contents h' ((xs @ [n]) @ ys @ zs) = contents h1 ((xs @ [n]) @ ys @ zs)"
      using Cons.IH [OF L1 h1(2) dj, of new'] nw(2) cy by auto
    have "DlistNext h1 (Some m) = Some (Some (Suc l))" using dlist_node_steps(1) [of h1 l ns m "[]"] h1(2) by simp
    then have "DlistMultiFind h (map Some new) l (Some (hd ((n # ys) @ zs @ [Suc k]))) (Some (hd (zs @ [Suc k]))) is_match key = Some (0, h')"
      using h'(1) True st nw h1(1) dlist_node_steps(1) [OF fr(1)]
      by (subst DlistMultiFind.simps) (simp add: DlistIsSameIter_simp)
    then show ?thesis using h' h1(3) cy True nw by auto
  qed
qed

section \<open>The properties of the list\<close>

text \<open>C3. Inserting before any position of a well-formed list puts the data at that position of the
  list's contents, keeps the list well formed, returns the new node, and leaves every other cell of
  the store alone; removing that node again gives back the old contents and frees exactly it.\<close>

theorem DlistInsert_DlistRemove:
  assumes "dlist h l (xs @ ys)" and "n \<notin> dom h" and "w = hd (ys @ [Suc l])"
  shows "\<exists>h1 h2. DlistInsert h (Some n) l (Some w) v = Some (Some n, h1)
    \<and> dlist h1 l (xs @ n # ys) \<and> contents h1 (xs @ n # ys) = contents h xs @ v # contents h ys
    \<and> same_on (- insert n (cells l (xs @ ys))) h h1
    \<and> DlistRemove h1 l (Some n) = Some (Some w, h2)
    \<and> dlist h2 l (xs @ ys) \<and> contents h2 (xs @ ys) = contents h (xs @ ys) \<and> dom h2 = dom h"
proof -
  obtain h1 where h1: "DlistInsert h (Some n) l (Some w) v = Some (Some n, h1)" "dlist h1 l (xs @ n # ys)"
    "contents h1 (xs @ n # ys) = contents h xs @ v # contents h ys" "dom h1 = insert n (dom h)"
    "same_on (- insert n (cells l (xs @ ys))) h h1"
    using DlistInsert_contents [OF assms] by blast
  obtain h2 where h2: "DlistRemove h1 l (Some n) = Some (Some w, h2)" "dlist h2 l (xs @ ys)"
    "contents h2 (xs @ ys) = contents h1 (xs @ ys)" "dom h2 = dom h1 - {n}"
    using DlistRemove_contents [OF h1(2) assms(3)] by blast
  have "contents h1 (xs @ ys) = contents h (xs @ ys)" using h1(3) by simp
  moreover have "dom h2 = dom h" using h2(4) h1(4) assms(2) by auto
  ultimately show ?thesis using h1 h2 by metis
qed

definition two_nodes :: "nat dheap" where
  "two_nodes = [0 \<mapsto> \<lparr>nd_data = ListPtr 0, next_node = Some 5, prev_node = None\<rparr>,
     5 \<mapsto> \<lparr>nd_data = Elem 50, next_node = Some 7, prev_node = Some 0\<rparr>,
     7 \<mapsto> \<lparr>nd_data = Elem 70, next_node = Some 1, prev_node = Some 5\<rparr>,
     1 \<mapsto> \<lparr>nd_data = ListPtr 0, next_node = None, prev_node = Some 7\<rparr>]"

lemma two_nodes_dlist: "dlist two_nodes 0 [5, 7]"
  by (auto simp: dlist_def two_nodes_def cells_def nxt_def prv_def)

lemma DlistInsert_DlistRemove_witness:
  "dlist two_nodes 0 ([5] @ [7]) \<and> 9 \<notin> dom two_nodes \<and>
   (\<exists>h1 h2. DlistInsert two_nodes (Some 9) 0 (Some 7) (Elem 60) = Some (Some 9, h1)
    \<and> contents h1 ([5] @ 9 # [7]) = [Elem 50, Elem 60, Elem 70]
    \<and> DlistRemove h1 0 (Some 9) = Some (Some 7, h2) \<and> dlist h2 0 ([5] @ [7]))"
proof -
  have L: "dlist two_nodes 0 ([5] @ [7])" using two_nodes_dlist by simp
  have n: "9 \<notin> dom two_nodes" by (simp add: two_nodes_def)
  have c: "contents two_nodes [5] @ Elem 60 # contents two_nodes [7] = [Elem 50, Elem 60, Elem 70]"
    by (simp add: dat_def two_nodes_def)
  show ?thesis using L n DlistInsert_DlistRemove [OF L n, of 7 "Elem 60"] c by auto
qed

text \<open>Splicing a non-empty range of one list before a position of another list moves its nodes
  there in order, without copying data or touching any other cell, and returns the last node
  moved.\<close>

theorem DlistSplice_moves:
  assumes "dlist h l (xs @ ys)" and "dlist h k (us @ ms @ vs)" and "ms \<noteq> []"
    and "cells l (xs @ ys) \<inter> cells k (us @ ms @ vs) = {}"
  shows "\<exists>h'. DlistSplice h (Some (hd (ys @ [Suc l]))) (Some (hd ms)) (Some (hd (vs @ [Suc k]))) = Some (Some (last ms), h')
    \<and> dlist h' l (xs @ ms @ ys) \<and> dlist h' k (us @ vs) \<and> dat h' = dat h \<and> dom h' = dom h
    \<and> same_on (- (cells l (xs @ ys) \<union> cells k (us @ ms @ vs))) h h'"
  using DlistSplice_spec [OF assms refl refl] .

definition two_lists :: "nat dheap" where
  "two_lists = two_nodes(
     20 \<mapsto> \<lparr>nd_data = ListPtr 20, next_node = Some 31, prev_node = None\<rparr>,
     31 \<mapsto> \<lparr>nd_data = Elem 10, next_node = Some 32, prev_node = Some 20\<rparr>,
     32 \<mapsto> \<lparr>nd_data = Elem 90, next_node = Some 21, prev_node = Some 31\<rparr>,
     21 \<mapsto> \<lparr>nd_data = ListPtr 20, next_node = None, prev_node = Some 32\<rparr>)"

lemma DlistSplice_moves_witness:
  "\<exists>h'. DlistSplice two_lists (Some 7) (Some 31) (Some 32) = Some (Some 31, h')
     \<and> dlist h' 0 [5, 31, 7] \<and> dlist h' 20 [32]"
proof -
  have 1: "dlist two_lists 0 ([5] @ [7])" "dlist two_lists 20 ([] @ [31] @ [32])"
    by (auto simp: dlist_def two_lists_def two_nodes_def cells_def nxt_def prv_def)
  have 2: "cells 0 ([5] @ [7]) \<inter> cells 20 ([] @ [31] @ [32]) = {}" by (simp add: cells_def)
  show ?thesis using DlistSplice_moves [OF 1 _ 2] by auto
qed

text \<open>An empty range is not a no-op: the predecessor of \<open>where\<close> is linked to the source node, so the
  first list loses its tail.\<close>

lemma DlistSplice_empty_range:
  "\<exists>h'. DlistSplice two_lists (Some 7) (Some 32) (Some 32) = Some (Some 5, h')
     \<and> \<not> linked (nxt h') (prv h') [0, 5, 7, 1] \<and> nxt h' 5 = Some 32"
  by (simp add: DlistSplice_def DlistPrev_def set_next_def set_prev_def load_def two_lists_def two_nodes_def nxt_def prv_def)

end
