(* ===== verification/SortedList.thy ===== *)
theory SortedList
  imports Dlist
begin

text \<open>
  The sorted list of \<open>ds/sorted_list/sorted_list.c\<close> on the doubly linked list: a handle holds the
  address of the list and the comparison function (a function pointer: its address and its
  behaviour). An iterator is the internal list iterator; the back pointer that the debug build
  stores beside it is never read. The locale \<open>insertion_order\<close> states what a comparison function
  must promise for insertion to keep the list ordered.
\<close>

section \<open>The operations\<close>

datatype 'd cmp_ptr = CmpPtr (cmp_addr: nat) (cmp_code: "'d vptr \<Rightarrow> 'd vptr \<Rightarrow> int")

record 'd sorted_list =
  sl_list :: addr
  sort_func :: "'d cmp_ptr"

definition CreatIter :: "addr option \<Rightarrow> 'd sorted_list \<Rightarrow> addr option" where
  "CreatIter iter list = iter"

definition GetInternalIterFromIter :: "addr option \<Rightarrow> addr option" where
  "GetInternalIterFromIter iter = iter"

definition UpdateInternalIter :: "addr option \<Rightarrow> addr option \<Rightarrow> addr option" where
  "UpdateInternalIter iter node = node"

lemmas iter_defs = CreatIter_def GetInternalIterFromIter_def UpdateInternalIter_def

text \<open>\<open>mem1\<close> answers the allocation of the handle, \<open>mem2\<close> that of the list inside it.\<close>

definition SortedListCreate ::
  "'d dheap \<Rightarrow> bool \<Rightarrow> addr option \<Rightarrow> 'd cmp_ptr \<Rightarrow> 'd sorted_list option \<times> 'd dheap" where
  "SortedListCreate h mem1 mem2 f =
     (if \<not> mem1 then (None, h)
      else case DlistCreate h mem2 of
        (None, h') \<Rightarrow> (None, h')
      | (Some l, h') \<Rightarrow> (Some \<lparr>sl_list = l, sort_func = f\<rparr>, h'))"

definition SortedListDestroy :: "'d dheap \<Rightarrow> 'd sorted_list \<Rightarrow> 'd dheap option" where
  "SortedListDestroy h s = DlistDestroy h (sl_list s)"

definition SortedListIsEmpty :: "'d dheap \<Rightarrow> 'd sorted_list \<Rightarrow> bool option" where
  "SortedListIsEmpty h s = DlistIsEmpty h (sl_list s)"

definition SortedListSize :: "'d dheap \<Rightarrow> 'd sorted_list \<Rightarrow> nat option" where
  "SortedListSize h s = DlistSize h (sl_list s)"

definition SortedListBegin :: "'d dheap \<Rightarrow> 'd sorted_list \<Rightarrow> addr option option" where
  "SortedListBegin h s = do { b \<leftarrow> DlistBegin h (sl_list s); Some (CreatIter b s) }"

definition SortedListEnd :: "'d sorted_list \<Rightarrow> addr option" where
  "SortedListEnd s = CreatIter (DlistEnd (sl_list s)) s"

definition SortedListIsSameIter :: "addr option \<Rightarrow> addr option \<Rightarrow> bool option" where
  "SortedListIsSameIter one two = do {
     c_assert (None \<noteq> GetInternalIterFromIter one);
     c_assert (None \<noteq> GetInternalIterFromIter two);
     DlistIsSameIter (GetInternalIterFromIter one) (GetInternalIterFromIter two)
   }"

definition SortedListNext :: "'d dheap \<Rightarrow> addr option \<Rightarrow> addr option option" where
  "SortedListNext h iter = do {
     c_assert (None \<noteq> GetInternalIterFromIter iter);
     n \<leftarrow> DlistNext h (GetInternalIterFromIter iter);
     Some (UpdateInternalIter iter n)
   }"

definition SortedListPrev :: "'d dheap \<Rightarrow> addr option \<Rightarrow> addr option option" where
  "SortedListPrev h iter = do {
     c_assert (None \<noteq> GetInternalIterFromIter iter);
     n \<leftarrow> DlistPrev h (GetInternalIterFromIter iter);
     Some (UpdateInternalIter iter n)
   }"

definition SortedListGetData :: "'d dheap \<Rightarrow> addr option \<Rightarrow> 'd vptr option" where
  "SortedListGetData h iter = DlistGetData h (GetInternalIterFromIter iter)"

text \<open>
  The loop the search functions share: advance \<open>runner\<close> while it is not at \<open>to\<close> and the test on its
  data holds.
\<close>

partial_function (option) scan_while ::
  "'d dheap \<Rightarrow> addr option \<Rightarrow> ('d vptr \<Rightarrow> bool) \<Rightarrow> addr option \<Rightarrow> addr option option" where
  "scan_while h to test runner = do {
     same \<leftarrow> SortedListIsSameIter runner to;
     if same then Some runner
     else do {
       d \<leftarrow> SortedListGetData h runner;
       if test d then do {
         nx \<leftarrow> SortedListNext h runner;
         scan_while h to test nx
       } else Some runner
     }
   }"

definition SortedListInsert ::
  "'d dheap \<Rightarrow> addr option \<Rightarrow> 'd sorted_list \<Rightarrow> 'd vptr \<Rightarrow> (addr option \<times> 'd dheap) option" where
  "SortedListInsert h mem s v = do {
     runner \<leftarrow> SortedListBegin h s;
     runner \<leftarrow> scan_while h (SortedListEnd s) (\<lambda>d. 0 \<le> cmp_code (sort_func s) d v) runner;
     (it, h) \<leftarrow> DlistInsert h mem (sl_list s) (GetInternalIterFromIter runner) v;
     Some (CreatIter it s, h)
   }"

definition SortedListRemove ::
  "'d dheap \<Rightarrow> 'd sorted_list \<Rightarrow> addr option \<Rightarrow> (addr option \<times> 'd dheap) option" where
  "SortedListRemove h s iter = do {
     (it, h) \<leftarrow> DlistRemove h (sl_list s) (GetInternalIterFromIter iter);
     Some (CreatIter it s, h)
   }"

definition SortedListPopFront :: "'d dheap \<Rightarrow> 'd sorted_list \<Rightarrow> 'd dheap option" where
  "SortedListPopFront h s = do {
     b \<leftarrow> DlistBegin h (sl_list s);
     (_, h) \<leftarrow> DlistRemove h (sl_list s) b;
     Some h
   }"

definition SortedListPopBack :: "'d dheap \<Rightarrow> 'd sorted_list \<Rightarrow> 'd dheap option" where
  "SortedListPopBack h s = do {
     p \<leftarrow> DlistPrev h (DlistEnd (sl_list s));
     (_, h) \<leftarrow> DlistRemove h (sl_list s) p;
     Some h
   }"

definition SortedListFind ::
  "'d dheap \<Rightarrow> 'd sorted_list \<Rightarrow> addr option \<Rightarrow> addr option \<Rightarrow> 'd vptr \<Rightarrow> addr option option" where
  "SortedListFind h s from to key = do {
     c_assert (None \<noteq> GetInternalIterFromIter from);
     c_assert (None \<noteq> GetInternalIterFromIter to);
     scan_while h to (\<lambda>d. cmp_code (sort_func s) d key \<noteq> 0) from
   }"

definition SortedListFindIf ::
  "'d dheap \<Rightarrow> 'd sorted_list \<Rightarrow> addr option \<Rightarrow> addr option \<Rightarrow> ('d vptr \<Rightarrow> 'k \<Rightarrow> int) \<Rightarrow> 'k \<Rightarrow> addr option option" where
  "SortedListFindIf h s from to search_func key = do {
     c_assert (None \<noteq> GetInternalIterFromIter from);
     c_assert (None \<noteq> GetInternalIterFromIter to);
     scan_while h to (\<lambda>d. search_func d key \<noteq> 0) from
   }"

partial_function (option) SortedListForEach ::
  "'d dheap \<Rightarrow> addr option \<Rightarrow> addr option \<Rightarrow> ('d vptr \<Rightarrow> 'p \<Rightarrow> int \<times> 'p) \<Rightarrow> int \<Rightarrow> 'p \<Rightarrow> (int \<times> 'p) option" where
  "SortedListForEach h runner to action result param = do {
     same \<leftarrow> SortedListIsSameIter runner to;
     if same then Some (result, param)
     else do {
       d \<leftarrow> SortedListGetData h runner;
       let (result, param) = action d param;
       if result = 0 then do {
         nx \<leftarrow> SortedListNext h runner;
         SortedListForEach h nx to action result param
       } else Some (result, param)
     }
   }"

text \<open>
  The data of the first node of \<open>src\<close>, which the inner loop reads at each turn, does not change in
  that loop and is read before it.
\<close>

partial_function (option) merge_loop ::
  "'d dheap \<Rightarrow> 'd sorted_list \<Rightarrow> 'd sorted_list \<Rightarrow> addr option \<Rightarrow> 'd dheap option" where
  "merge_loop h dest src dest_runner = do {
     e \<leftarrow> SortedListIsEmpty h src;
     if e then Some h
     else do {
       first \<leftarrow> SortedListBegin h src;
       d \<leftarrow> SortedListGetData h first;
       dest_runner \<leftarrow> scan_while h (SortedListEnd dest) (\<lambda>x. 0 < cmp_code (sort_func dest) x d) dest_runner;
       second \<leftarrow> SortedListNext h first;
       (_, h) \<leftarrow> DlistSplice h (GetInternalIterFromIter dest_runner) (GetInternalIterFromIter first)
                  (GetInternalIterFromIter second);
       merge_loop h dest src dest_runner
     }
   }"

definition SortedListMerge :: "'d dheap \<Rightarrow> 'd sorted_list \<Rightarrow> 'd sorted_list \<Rightarrow> 'd dheap option" where
  "SortedListMerge h dest src = do {
     c_assert (cmp_addr (sort_func dest) = cmp_addr (sort_func src));
     dest_runner \<leftarrow> SortedListBegin h dest;
     merge_loop h dest src dest_runner
   }"

section \<open>The operations on the list of contents\<close>

lemmas sl_simps = iter_defs SortedListNext_def SortedListPrev_def SortedListGetData_def SortedListBegin_def
  SortedListEnd_def SortedListIsSameIter_def SortedListIsEmpty_def SortedListSize_def SortedListDestroy_def
  SortedListPopFront_def SortedListPopBack_def SortedListRemove_def DlistIsSameIter_simp DlistEnd_def

lemma scan_while_spec:
  "dlist h l (xs @ ys @ zs) \<Longrightarrow>
   scan_while h (Some (hd (zs @ [Suc l]))) test (Some (hd (ys @ zs @ [Suc l]))) =
     Some (Some (hd (dropWhile (\<lambda>n. test (dat h n)) ys @ zs @ [Suc l])))"
proof (induction ys arbitrary: xs)
  case Nil
  show ?case by (simp add: scan_while.simps sl_simps)
next
  case (Cons n ys)
  have L: "dlist h l (xs @ n # ys @ zs)" "dlist h l ((xs @ [n]) @ ys @ zs)" using Cons.prems by simp_all
  show ?case using dlist_hd_notin [OF L(1)] dlist_node_steps [OF L(1)] Cons.IH [OF L(2)]
    by (subst scan_while.simps) (simp add: sl_simps)
qed

lemma scan_while_end:
  "dlist h l (xs @ ys) \<Longrightarrow>
   scan_while h (Some (Suc l)) test (Some (hd (ys @ [Suc l]))) =
     Some (Some (hd (dropWhile (\<lambda>n. test (dat h n)) ys @ [Suc l])))"
  using scan_while_spec [of h l xs ys "[]"] by simp

lemma SortedListForEach_spec:
  "dlist h l (xs @ ys @ zs) \<Longrightarrow>
   SortedListForEach h (Some (hd (ys @ zs @ [Suc l]))) (Some (hd (zs @ [Suc l]))) action r p =
     Some (run_action action (contents h ys) r p)"
proof (induction ys arbitrary: xs r p)
  case Nil
  show ?case by (simp add: SortedListForEach.simps sl_simps)
next
  case (Cons n ys)
  have L: "dlist h l (xs @ n # ys @ zs)" "dlist h l ((xs @ [n]) @ ys @ zs)" using Cons.prems by simp_all
  show ?case using dlist_hd_notin [OF L(1)] dlist_node_steps [OF L(1)] Cons.IH [OF L(2)]
    by (subst SortedListForEach.simps) (auto simp: sl_simps split: prod.split)
qed

definition insert_by :: "('a \<Rightarrow> 'a \<Rightarrow> int) \<Rightarrow> 'a \<Rightarrow> 'a list \<Rightarrow> 'a list" where
  "insert_by f d ds = takeWhile (\<lambda>x. 0 \<le> f x d) ds @ d # dropWhile (\<lambda>x. 0 \<le> f x d) ds"

lemma mset_insert_by [simp]: "mset (insert_by f d ds) = add_mset d (mset ds)"
  unfolding insert_by_def by simp (metis mset_append takeWhile_dropWhile_id)

lemma SortedListInsert_spec:
  assumes L: "dlist h (sl_list s) ns" and n: "n \<notin> dom h"
  shows "\<exists>h' ns'. SortedListInsert h (Some n) s v = Some (Some n, h') \<and> dlist h' (sl_list s) ns'
           \<and> contents h' ns' = insert_by (cmp_code (sort_func s)) v (contents h ns)
           \<and> set ns' = insert n (set ns) \<and> dom h' = insert n (dom h)
           \<and> same_on (- insert n (cells (sl_list s) ns)) h h'"
proof -
  let ?l = "sl_list s" and ?t = "\<lambda>d. 0 \<le> cmp_code (sort_func s) d v"
  let ?xs = "takeWhile (\<lambda>n. ?t (dat h n)) ns" and ?ys = "dropWhile (\<lambda>n. ?t (dat h n)) ns"
  have e: "?xs @ ?ys = ns" by simp
  have L': "dlist h ?l (?xs @ ?ys)" using L by (simp only: e)
  obtain h' where h': "DlistInsert h (Some n) ?l (Some (hd (?ys @ [Suc ?l]))) v = Some (Some n, h')"
    "dlist h' ?l (?xs @ n # ?ys)" "contents h' (?xs @ n # ?ys) = contents h ?xs @ v # contents h ?ys"
    "dom h' = insert n (dom h)" "same_on (- insert n (cells ?l (?xs @ ?ys))) h h'"
    using DlistInsert_contents [OF L' n refl] by blast
  have "SortedListInsert h (Some n) s v = Some (Some n, h')"
    using h'(1) L scan_while_end [of h ?l "[]" ns ?t]
    by (simp add: SortedListInsert_def sl_simps dlist_begin)
  moreover have "set (?xs @ n # ?ys) = insert n (set ns)"
  proof -
    have "set ?xs \<union> set ?ys = set ns" using e by (metis set_append)
    then show ?thesis by simp
  qed
  moreover have "contents h' (?xs @ n # ?ys) = insert_by (cmp_code (sort_func s)) v (contents h ns)"
    using h'(3) by (simp add: insert_by_def contents_takeWhile [of h ?t])
  moreover have "same_on (- insert n (cells ?l ns)) h h'" using h'(5) by (simp only: e)
  ultimately show ?thesis using h'(2,4) by blast
qed

lemma SortedListInsert_fails:
  assumes "dlist h (sl_list s) ns"
  shows "SortedListInsert h None s v = Some (SortedListEnd s, h)"
  using assms scan_while_end [of h "sl_list s" "[]" ns]
  by (simp add: SortedListInsert_def sl_simps dlist_begin DlistInsert_fails)

section \<open>What the comparison function must promise\<close>

definition ordered_by :: "('a \<Rightarrow> 'a \<Rightarrow> int) \<Rightarrow> 'a list \<Rightarrow> bool" where
  "ordered_by f ds = sorted_wrt (\<lambda>x y. 0 \<le> f x y) ds"

text \<open>An element that is passed over goes before the new one; one that stops the scan, and all that
  may follow it, goes after. This does not ask the comparison to be transitive.\<close>

text \<open>The merge of two lists of contents, as the loop builds it: \<open>ps\<close> is behind the runner.\<close>

fun merge_contents :: "('a \<Rightarrow> 'a \<Rightarrow> int) \<Rightarrow> 'a list \<Rightarrow> 'a list \<Rightarrow> 'a list \<Rightarrow> 'a list" where
  "merge_contents f ps rs [] = ps @ rs"
| "merge_contents f ps rs (s # ss) =
     merge_contents f (ps @ takeWhile (\<lambda>x. 0 < f x s) rs @ [s]) (dropWhile (\<lambda>x. 0 < f x s) rs) ss"

lemma mset_merge_contents: "mset (merge_contents f ps rs ss) = mset ps + mset rs + mset ss"
proof (induction f ps rs ss rule: merge_contents.induct)
  case (2 f ps rs s ss)
  have "mset (takeWhile (\<lambda>x. 0 < f x s) rs) + mset (dropWhile (\<lambda>x. 0 < f x s) rs) = mset rs"
    by (metis mset_append takeWhile_dropWhile_id)
  then show ?case using 2 by (simp add: ac_simps)
qed simp

locale insertion_order =
  fixes f :: "'a \<Rightarrow> 'a \<Rightarrow> int" and valid :: "'a set"
  assumes stop: "x \<in> valid \<Longrightarrow> d \<in> valid \<Longrightarrow> f x d < 0 \<Longrightarrow> 0 \<le> f d x"
    and stop_after: "x \<in> valid \<Longrightarrow> d \<in> valid \<Longrightarrow> y \<in> valid \<Longrightarrow> f x d < 0 \<Longrightarrow> 0 \<le> f x y \<Longrightarrow> 0 \<le> f d y"
begin

lemma insert_by_ordered:
  "ordered_by f ds \<Longrightarrow> set ds \<subseteq> valid \<Longrightarrow> d \<in> valid \<Longrightarrow> ordered_by f (insert_by f d ds)"
proof (induction ds)
  case (Cons x ds)
  show ?case
  proof (cases "0 \<le> f x d")
    case True
    then have "insert_by f d (x # ds) = x # insert_by f d ds" by (simp add: insert_by_def)
    moreover have "set (insert_by f d ds) = insert d (set ds)"
      by (metis mset_insert_by set_mset_add_mset_insert set_mset_mset)
    ultimately show ?thesis using Cons True by (auto simp: ordered_by_def)
  next
    case False
    then have "f x d < 0" by simp
    then have "0 \<le> f d x" "\<forall>y \<in> set ds. 0 \<le> f d y"
      using Cons.prems stop [of x d] stop_after [of x d] by (auto simp: ordered_by_def)
    then show ?thesis using Cons.prems False by (simp add: ordered_by_def insert_by_def)
  qed
qed (simp add: ordered_by_def insert_by_def)

end

text \<open>A comparison that reads a total preorder, as merging needs.\<close>

locale total_comparison = insertion_order +
  assumes trans: "x \<in> valid \<Longrightarrow> y \<in> valid \<Longrightarrow> z \<in> valid \<Longrightarrow> 0 \<le> f x y \<Longrightarrow> 0 \<le> f y z \<Longrightarrow> 0 \<le> f x z"
    and conv: "x \<in> valid \<Longrightarrow> y \<in> valid \<Longrightarrow> f x y \<le> 0 \<Longrightarrow> 0 \<le> f y x"
begin

text \<open>One round of merging: \<open>ps\<close> is behind the runner, \<open>rs\<close> ahead of it, \<open>s\<close> is inserted between.\<close>

lemma merge_round:
  assumes "ordered_by f (ps @ rs)" "ordered_by f (s # ss)" "\<forall>p \<in> set ps. \<forall>x \<in> set (s # ss). 0 \<le> f p x"
    and V: "set (ps @ rs @ s # ss) \<subseteq> valid"
  defines "as \<equiv> takeWhile (\<lambda>x. 0 < f x s) rs" and "bs \<equiv> dropWhile (\<lambda>x. 0 < f x s) rs"
  shows "ordered_by f ((ps @ as @ [s]) @ bs) \<and> (\<forall>p \<in> set (ps @ as @ [s]). \<forall>x \<in> set ss. 0 \<le> f p x)"
proof -
  have rs: "as @ bs = rs" by (simp add: as_def bs_def)
  then have v: "set as \<subseteq> valid" "set bs \<subseteq> valid" "s \<in> valid" "set ss \<subseteq> valid" using V by auto
  have "sorted_wrt (\<lambda>x y. 0 \<le> f x y) (ps @ as @ bs)" using assms(1) rs by (simp add: ordered_by_def)
  then have o: "sorted_wrt (\<lambda>x y. 0 \<le> f x y) ps" "sorted_wrt (\<lambda>x y. 0 \<le> f x y) as" "sorted_wrt (\<lambda>x y. 0 \<le> f x y) bs"
    "\<forall>p \<in> set ps. \<forall>x \<in> set as \<union> set bs. 0 \<le> f p x" "\<forall>a \<in> set as. \<forall>b \<in> set bs. 0 \<le> f a b"
    by (auto simp: sorted_wrt_append)
  have s: "\<forall>x \<in> set ss. 0 \<le> f s x" using assms(2) by (simp add: ordered_by_def)
  have a: "\<forall>a \<in> set as. 0 \<le> f a s" by (auto simp: as_def dest: set_takeWhileD)
  have b: "\<forall>b \<in> set bs. 0 \<le> f s b"
  proof (cases bs)
    case (Cons b bs')
    then have "f b s \<le> 0" unfolding bs_def by (meson dropWhile_eq_Cons_conv not_le_imp_less)
    then have "0 \<le> f s b" using conv v Cons by simp
    moreover have "\<forall>y \<in> set bs'. 0 \<le> f b y" using o(3) Cons by simp
    ultimately show ?thesis using trans [of s b] v Cons by auto
  qed simp
  have as: "\<forall>a \<in> set as. \<forall>x \<in> set ss. 0 \<le> f a x" using a s trans [of _ s] v by blast
  have "ordered_by f ((ps @ as @ [s]) @ bs)"
    using o a b assms(3) by (auto simp: ordered_by_def sorted_wrt_append)
  moreover have "\<forall>p \<in> set (ps @ as @ [s]). \<forall>x \<in> set ss. 0 \<le> f p x"
    using assms(3) s as by auto
  ultimately show ?thesis by blast
qed

lemma merge_contents_ordered:
  "\<lbrakk>ordered_by f (ps @ rs); ordered_by f ss; \<forall>p \<in> set ps. \<forall>x \<in> set ss. 0 \<le> f p x; set (ps @ rs @ ss) \<subseteq> valid\<rbrakk>
   \<Longrightarrow> ordered_by f (merge_contents f ps rs ss)"
proof (induction ss arbitrary: ps rs)
  case (Cons s ss)
  let ?as = "takeWhile (\<lambda>x. 0 < f x s) rs" and ?bs = "dropWhile (\<lambda>x. 0 < f x s) rs"
  have "set (ps @ rs @ s # ss) \<subseteq> valid" using Cons.prems(4) by simp
  then have r: "ordered_by f ((ps @ ?as @ [s]) @ ?bs)" "\<forall>p \<in> set (ps @ ?as @ [s]). \<forall>x \<in> set ss. 0 \<le> f p x"
    using merge_round [OF Cons.prems(1,2,3)] by blast+
  have "set ((ps @ ?as @ [s]) @ ?bs @ ss) \<subseteq> valid"
    using Cons.prems(4) by (auto dest: set_takeWhileD set_dropWhileD)
  moreover have "ordered_by f ss" using Cons.prems(2) by (simp add: ordered_by_def)
  ultimately show ?case using Cons.IH [OF r(1) _ r(2)] by simp
qed simp

end

section \<open>The merge on the store\<close>

lemma merge_loop_spec:
  assumes f: "f = cmp_code (sort_func dest)"
  shows "\<lbrakk>dlist h (sl_list dest) (ps @ rs); dlist h (sl_list src) ss;
     cells (sl_list dest) (ps @ rs) \<inter> cells (sl_list src) ss = {}\<rbrakk> \<Longrightarrow>
   \<exists>h' ns. merge_loop h dest src (Some (hd (rs @ [Suc (sl_list dest)]))) = Some h'
     \<and> dlist h' (sl_list dest) ns \<and> dlist h' (sl_list src) []
     \<and> contents h' ns = merge_contents f (contents h ps) (contents h rs) (contents h ss)
     \<and> set ns = set ps \<union> set rs \<union> set ss \<and> dom h' = dom h
     \<and> same_on (- (cells (sl_list dest) (ps @ rs) \<union> cells (sl_list src) ss)) h h'"
proof (induction ss arbitrary: h ps rs)
  case Nil
  have "merge_loop h dest src (Some (hd (rs @ [Suc (sl_list dest)]))) = Some h"
    using Nil.prems(2) by (subst merge_loop.simps) (simp add: sl_simps DlistIsEmpty_iff)
  then show ?case using Nil.prems by (intro exI [of _ h] exI [of _ "ps @ rs"]) (simp add: same_on_refl)
next
  case (Cons s ss)
  let ?l = "sl_list dest" and ?k = "sl_list src" and ?t = "\<lambda>x. 0 < f x (dat h s)"
  let ?as = "takeWhile (\<lambda>n. ?t (dat h n)) rs" and ?bs = "dropWhile (\<lambda>n. ?t (dat h n)) rs"
  have e: "?as @ ?bs = rs" by simp
  have L: "dlist h ?l ((ps @ ?as) @ ?bs)" using Cons.prems(1) e by simp
  have K: "dlist h ?k ([] @ [s] @ ss)" using Cons.prems(2) by simp
  have dj: "cells ?l ((ps @ ?as) @ ?bs) \<inter> cells ?k ([] @ [s] @ ss) = {}" using Cons.prems(3) e by simp
  obtain h1 where h1: "DlistSplice h (Some (hd (?bs @ [Suc ?l]))) (Some (hd [s])) (Some (hd (ss @ [Suc ?k]))) = Some (Some (last [s]), h1)"
    "dlist h1 ?l ((ps @ ?as) @ [s] @ ?bs)" "dlist h1 ?k ([] @ ss)" "dat h1 = dat h" "dom h1 = dom h"
    "same_on (- (cells ?l ((ps @ ?as) @ ?bs) \<union> cells ?k ([] @ [s] @ ss))) h h1"
    using DlistSplice_spec [OF L K _ dj refl refl] by blast
  have "set ?as \<union> set ?bs = set rs" using e by (metis set_append)
  then have cl: "cells ?l ((ps @ ?as @ [s]) @ ?bs) = insert s (cells ?l (ps @ rs))" by (auto simp: cells_def)
  have "s \<notin> cells ?k ss" using Cons.prems(2) by (auto simp: dlist_def cells_def)
  then have dj1: "cells ?l ((ps @ ?as @ [s]) @ ?bs) \<inter> cells ?k ss = {}"
    unfolding cl using Cons.prems(3) by (auto simp: cells_def)
  have L1: "dlist h1 ?l ((ps @ ?as @ [s]) @ ?bs)" "dlist h1 ?k ss" using h1(2,3) by simp_all
  obtain h' ns where h': "merge_loop h1 dest src (Some (hd (?bs @ [Suc ?l]))) = Some h'"
    "dlist h' ?l ns" "dlist h' ?k []"
    "contents h' ns = merge_contents f (contents h1 (ps @ ?as @ [s])) (contents h1 ?bs) (contents h1 ss)"
    "set ns = set (ps @ ?as @ [s]) \<union> set ?bs \<union> set ss" "dom h' = dom h1"
    "same_on (- (cells ?l ((ps @ ?as @ [s]) @ ?bs) \<union> cells ?k ss)) h1 h'"
    using Cons.IH [OF L1 dj1] by blast
  have run: "merge_loop h dest src (Some (hd (rs @ [Suc ?l]))) = Some h'"
    using h1(1) h'(1) Cons.prems(2) dlist_node_steps [of h ?k "[]" s ss] scan_while_end [of h ?l ps rs ?t] Cons.prems(1)
    by (subst merge_loop.simps) (simp add: sl_simps DlistIsEmpty_iff dlist_begin f)
  have ct: "contents h1 xs = contents h xs" for xs using h1(4) by (simp add: contents_def)
  have "contents h' ns = merge_contents f (contents h ps) (contents h rs) (contents h (s # ss))"
    using h'(4) by (simp add: ct contents_takeWhile [of h ?t] h1(4))
  moreover have "set ns = set ps \<union> set rs \<union> set (s # ss)"
    using h'(5) \<open>set ?as \<union> set ?bs = set rs\<close> by auto
  moreover have "same_on (- (cells ?l (ps @ rs) \<union> cells ?k (s # ss))) h h'"
  proof (rule same_on_trans)
    show "same_on (- (cells ?l (ps @ rs) \<union> cells ?k (s # ss))) h h1" using h1(6) e by simp
    show "same_on (- (cells ?l (ps @ rs) \<union> cells ?k (s # ss))) h1 h'"
      by (rule same_on_subset [OF h'(7)]) (unfold cl, auto simp: cells_def)
  qed
  ultimately show ?case using run h'(2,3,6) h1(5) by (metis (no_types))
qed

section \<open>The comparison of the unit test\<close>

text \<open>\<open>test/sorted_list_test.c\<close> stores small integers in the pointers themselves and compares by
  difference; within \<open>small_ints\<close> the difference fits an \<open>int\<close>.\<close>

fun pointer_int :: "int vptr \<Rightarrow> int" where
  "pointer_int Null = 0"
| "pointer_int (ListPtr a) = int a"
| "pointer_int (Elem i) = i"

definition compare_func :: "int vptr \<Rightarrow> int vptr \<Rightarrow> int" where
  "compare_func data data_to_compare = pointer_int data_to_compare - pointer_int data"

definition small_ints :: "int vptr set" where
  "small_ints = Elem ` {- (2 ^ 30) ..< 2 ^ 30}"

interpretation test_order: total_comparison compare_func small_ints
  by unfold_locales (auto simp: compare_func_def)

section \<open>The properties of the sorted list\<close>

text \<open>Inserting into an ordered list, with a comparison function that keeps the insertion
  contract, gives an ordered list with exactly the new element added; equal elements stay in the
  order in which they arrived, and the other lists of the store are unchanged.\<close>

theorem SortedListInsert_ordered:
  assumes "insertion_order (cmp_code (sort_func s)) valid" and "dlist h (sl_list s) ns" and "n \<notin> dom h"
    and "ordered_by (cmp_code (sort_func s)) (contents h ns)" and "set (contents h ns) \<subseteq> valid" and "v \<in> valid"
  shows "\<exists>h' ns'. SortedListInsert h (Some n) s v = Some (Some n, h') \<and> dlist h' (sl_list s) ns'
    \<and> ordered_by (cmp_code (sort_func s)) (contents h' ns')
    \<and> mset (contents h' ns') = add_mset v (mset (contents h ns))
    \<and> contents h' ns' = takeWhile (\<lambda>x. 0 \<le> cmp_code (sort_func s) x v) (contents h ns) @ v
                          # dropWhile (\<lambda>x. 0 \<le> cmp_code (sort_func s) x v) (contents h ns)
    \<and> same_on (- insert n (cells (sl_list s) ns)) h h'"
proof -
  obtain h' ns' where h': "SortedListInsert h (Some n) s v = Some (Some n, h')" "dlist h' (sl_list s) ns'"
    "contents h' ns' = insert_by (cmp_code (sort_func s)) v (contents h ns)"
    "same_on (- insert n (cells (sl_list s) ns)) h h'"
    using SortedListInsert_spec [OF assms(2,3), of v] by blast
  have "ordered_by (cmp_code (sort_func s)) (contents h' ns')"
    using insertion_order.insert_by_ordered [OF assms(1,4,5,6)] h'(3) by simp
  then show ?thesis using h' by (metis insert_by_def mset_insert_by)
qed

definition test_heap :: "int dheap" where
  "test_heap = [0 \<mapsto> \<lparr>nd_data = ListPtr 0, next_node = Some 5, prev_node = None\<rparr>,
     5 \<mapsto> \<lparr>nd_data = Elem 50, next_node = Some 7, prev_node = Some 0\<rparr>,
     7 \<mapsto> \<lparr>nd_data = Elem 70, next_node = Some 1, prev_node = Some 5\<rparr>,
     1 \<mapsto> \<lparr>nd_data = ListPtr 0, next_node = None, prev_node = Some 7\<rparr>,
     20 \<mapsto> \<lparr>nd_data = ListPtr 20, next_node = Some 31, prev_node = None\<rparr>,
     31 \<mapsto> \<lparr>nd_data = Elem 10, next_node = Some 32, prev_node = Some 20\<rparr>,
     32 \<mapsto> \<lparr>nd_data = Elem 60, next_node = Some 21, prev_node = Some 31\<rparr>,
     21 \<mapsto> \<lparr>nd_data = ListPtr 20, next_node = None, prev_node = Some 32\<rparr>]"

definition test_list :: "addr \<Rightarrow> int sorted_list" where
  "test_list l = \<lparr>sl_list = l, sort_func = CmpPtr 1 compare_func\<rparr>"

lemma test_heap_lists: "dlist test_heap 0 [5, 7]" "dlist test_heap 20 [31, 32]"
  by (auto simp: dlist_def test_heap_def cells_def nxt_def prv_def)

lemma test_heap_dat: "dat test_heap 5 = Elem 50" "dat test_heap 7 = Elem 70" "dat test_heap 31 = Elem 10" "dat test_heap 32 = Elem 60"
  by (simp_all add: dat_def test_heap_def)

lemma test_heap_contents: "contents test_heap [5, 7] = [Elem 50, Elem 70]" "contents test_heap [31, 32] = [Elem 10, Elem 60]"
  by (simp_all add: contents_def dat_def test_heap_def)

lemma SortedListInsert_ordered_witness:
  "\<exists>h' ns'. SortedListInsert test_heap (Some 9) (test_list 0) (Elem 60) = Some (Some 9, h')
    \<and> dlist h' 0 ns' \<and> ordered_by compare_func (contents h' ns') \<and> contents h' ns' = [Elem 50, Elem 60, Elem 70]"
proof -
  have o: "insertion_order (cmp_code (sort_func (test_list 0))) small_ints"
    using test_order.insertion_order_axioms by (simp add: test_list_def)
  have c: "ordered_by (cmp_code (sort_func (test_list 0))) (contents test_heap [5, 7])"
    "set (contents test_heap [5, 7]) \<subseteq> small_ints" "Elem 60 \<in> small_ints"
    unfolding test_heap_contents by (simp_all add: ordered_by_def test_list_def compare_func_def small_ints_def)
  have L: "dlist test_heap (sl_list (test_list 0)) [5, 7]" "9 \<notin> dom test_heap"
    using test_heap_lists by (simp_all add: test_list_def test_heap_def)
  show ?thesis using SortedListInsert_ordered [OF o L c]
    by (auto simp: test_heap_dat test_list_def compare_func_def)
qed

text \<open>Merging an ordered list into another one with the same comparison function moves all its
  nodes: the destination holds both contents in order, the source is left empty, no node is
  allocated or freed, and the loop ends.\<close>

theorem SortedListMerge_ordered:
  assumes "total_comparison (cmp_code (sort_func dest)) valid" and "cmp_addr (sort_func dest) = cmp_addr (sort_func src)"
    and "dlist h (sl_list dest) ns" and "dlist h (sl_list src) ss" and "cells (sl_list dest) ns \<inter> cells (sl_list src) ss = {}"
    and "ordered_by (cmp_code (sort_func dest)) (contents h ns)" and "ordered_by (cmp_code (sort_func dest)) (contents h ss)"
    and "set (contents h ns @ contents h ss) \<subseteq> valid"
  shows "\<exists>h' ns'. SortedListMerge h dest src = Some h' \<and> dlist h' (sl_list dest) ns' \<and> dlist h' (sl_list src) []
    \<and> ordered_by (cmp_code (sort_func dest)) (contents h' ns')
    \<and> mset (contents h' ns') = mset (contents h ns) + mset (contents h ss)
    \<and> set ns' = set ns \<union> set ss \<and> dom h' = dom h"
proof -
  let ?f = "cmp_code (sort_func dest)"
  have L: "dlist h (sl_list dest) ([] @ ns)" "cells (sl_list dest) ([] @ ns) \<inter> cells (sl_list src) ss = {}"
    using assms(3,5) by simp_all
  obtain h' ns' where h': "merge_loop h dest src (Some (hd (ns @ [Suc (sl_list dest)]))) = Some h'"
    "dlist h' (sl_list dest) ns'" "dlist h' (sl_list src) []"
    "contents h' ns' = merge_contents ?f (contents h []) (contents h ns) (contents h ss)"
    "set ns' = set [] \<union> set ns \<union> set ss" "dom h' = dom h"
    using merge_loop_spec [OF refl L(1) assms(4) L(2)] by blast
  have "ordered_by ?f (contents h' ns')"
    unfolding h'(4) by (rule total_comparison.merge_contents_ordered [OF assms(1)]) (use assms(6-8) in simp_all)
  moreover have "mset (contents h' ns') = mset (contents h ns) + mset (contents h ss)"
    using h'(4) by (simp add: mset_merge_contents)
  moreover have "SortedListMerge h dest src = Some h'"
    using h'(1) assms(2,3) by (simp add: SortedListMerge_def SortedListBegin_def CreatIter_def dlist_begin)
  ultimately show ?thesis using h' by auto
qed

lemma SortedListMerge_ordered_witness:
  "\<exists>h' ns'. SortedListMerge test_heap (test_list 0) (test_list 20) = Some h' \<and> dlist h' 0 ns' \<and> dlist h' 20 []
    \<and> ordered_by compare_func (contents h' ns') \<and> mset (contents h' ns') = {#Elem 10, Elem 50, Elem 60, Elem 70#}"
proof -
  have o: "total_comparison (cmp_code (sort_func (test_list 0))) small_ints"
    using test_order.total_comparison_axioms by (simp add: test_list_def)
  have 1: "cmp_addr (sort_func (test_list 0)) = cmp_addr (sort_func (test_list 20))" by (simp add: test_list_def)
  have L: "dlist test_heap (sl_list (test_list 0)) [5, 7]" "dlist test_heap (sl_list (test_list 20)) [31, 32]"
    "cells (sl_list (test_list 0)) [5, 7] \<inter> cells (sl_list (test_list 20)) [31, 32] = {}"
    using test_heap_lists by (simp_all add: test_list_def cells_def)
  have c: "ordered_by (cmp_code (sort_func (test_list 0))) (contents test_heap [5, 7])"
    "ordered_by (cmp_code (sort_func (test_list 0))) (contents test_heap [31, 32])"
    "set (contents test_heap [5, 7] @ contents test_heap [31, 32]) \<subseteq> small_ints"
    unfolding test_heap_contents by (simp_all add: ordered_by_def test_list_def compare_func_def small_ints_def)
  show ?thesis using SortedListMerge_ordered [OF o 1 L c]
    by (auto simp: test_heap_dat test_list_def add_mset_commute)
qed

end
