(* ===== verification/PQInterface.thy ===== *)
theory PQInterface
  imports Prelude
begin

text \<open>
  The interface \<open>pqueue.h\<close> that the sorted-list queue and the heap queue both implement, as a locale:
  what enqueue, dequeue and the emptiness test promise of the multiset a queue represents, and what a
  client obtains from it.
\<close>

fun push_all :: "('m \<Rightarrow> 's \<Rightarrow> 'a \<Rightarrow> (int \<times> 's) option) \<Rightarrow> ('m \<times> 'a) list \<Rightarrow> 's \<Rightarrow> 's option" where
  "push_all push [] s = Some s"
| "push_all push ((m, x) # xs) s = do { (status, s) \<leftarrow> push m s x; if status = 0 then push_all push xs s else None }"

fun pop_times :: "('s \<Rightarrow> ('a \<times> 's) option) \<Rightarrow> nat \<Rightarrow> 's \<Rightarrow> ('a list \<times> 's) option" where
  "pop_times pop 0 s = Some ([], s)"
| "pop_times pop (Suc n) s = do { (x, s) \<leftarrow> pop s; (xs, s) \<leftarrow> pop_times pop n s; Some (x # xs, s) }"

locale priority_queue =
  fixes rep :: "'s \<Rightarrow> 'a multiset \<Rightarrow> bool" and valid :: "'a set" and can_push :: "'m \<Rightarrow> 's \<Rightarrow> bool"
    and push :: "'m \<Rightarrow> 's \<Rightarrow> 'a \<Rightarrow> (int \<times> 's) option" and pop :: "'s \<Rightarrow> ('a \<times> 's) option"
    and is_empty :: "'s \<Rightarrow> bool option" and before :: "'a \<Rightarrow> 'a \<Rightarrow> bool"
  assumes push_adds: "rep s M \<Longrightarrow> x \<in> valid \<Longrightarrow> can_push m s \<Longrightarrow> \<exists>s'. push m s x = Some (0, s') \<and> rep s' (add_mset x M)"
    and pop_first: "rep s M \<Longrightarrow> M \<noteq> {#} \<Longrightarrow>
      \<exists>x s' M'. pop s = Some (x, s') \<and> M = add_mset x M' \<and> rep s' M' \<and> (\<forall>y \<in># M'. before x y)"
    and is_empty_iff: "rep s M \<Longrightarrow> is_empty s = Some (M = {#})"
begin

lemma pop_times_ordered:
  "rep s M \<Longrightarrow> \<exists>xs s'. pop_times pop (size M) s = Some (xs, s') \<and> mset xs = M \<and> sorted_wrt before xs \<and> rep s' {#}"
proof (induction "size M" arbitrary: s M)
  case 0
  then show ?case by simp
next
  case (Suc n)
  then have "M \<noteq> {#}" by auto
  then obtain x s1 M1 where 1: "pop s = Some (x, s1)" "M = add_mset x M1" "rep s1 M1" "\<forall>y \<in># M1. before x y"
    using pop_first Suc.prems by blast
  then obtain xs s' where 2: "pop_times pop (size M1) s1 = Some (xs, s')" "mset xs = M1" "sorted_wrt before xs" "rep s' {#}"
    using Suc.hyps(1) [of M1 s1] Suc.hyps(2) by auto
  have "\<forall>y \<in> set xs. before x y" using 1(4) 2(2) by auto
  then show ?case using 1 2 by auto
qed

text \<open>A loop that pops until the queue is empty ends, with the empty queue.\<close>

lemma clearing_loop_ends:
  assumes rec: "\<And>s. clear s = do { e \<leftarrow> is_empty s; if e then Some s else do { (_, s) \<leftarrow> pop s; clear s } }"
  shows "rep s M \<Longrightarrow> \<exists>s'. clear s = Some s' \<and> rep s' {#}"
proof (induction "size M" arbitrary: s M)
  case 0
  then have "clear s = Some s" using rec [of s] is_empty_iff [of s M] by simp
  then show ?case using 0 by auto
next
  case (Suc n)
  then have ne: "M \<noteq> {#}" by auto
  then obtain x s1 M1 where 1: "pop s = Some (x, s1)" "M = add_mset x M1" "rep s1 M1"
    using pop_first Suc.prems by blast
  have "clear s = clear s1" using rec [of s] is_empty_iff [OF Suc.prems] ne 1(1) by simp
  then show ?case using Suc.hyps(1) [of M1 s1] Suc.hyps(2) 1 by simp
qed

end

end
