(* ===== verification/PriorityQueue.thy ===== *)
theory PriorityQueue
  imports SortedList PQInterface
begin

text \<open>
  The priority queue of \<open>ds/pqueue/pqueue.c\<close> on the sorted list. Any comparison function that keeps
  the insertion contract makes it an instance of the queue interface (the \<open>sublocale\<close> below).
\<close>

section \<open>The operations\<close>

record 'd PQueue =
  queue :: "'d sorted_list"

definition PQCreate ::
  "'d dheap \<Rightarrow> bool \<Rightarrow> bool \<Rightarrow> addr option \<Rightarrow> 'd cmp_ptr \<Rightarrow> 'd PQueue option \<times> 'd dheap" where
  "PQCreate h mem0 mem1 mem2 f =
     (if \<not> mem0 then (None, h)
      else case SortedListCreate h mem1 mem2 f of
        (None, h') \<Rightarrow> (None, h')
      | (Some s, h') \<Rightarrow> (Some \<lparr>queue = s\<rparr>, h'))"

definition PQDestroy :: "'d dheap \<Rightarrow> 'd PQueue \<Rightarrow> 'd dheap option" where
  "PQDestroy h q = SortedListDestroy h (queue q)"

definition PQSize :: "'d dheap \<Rightarrow> 'd PQueue \<Rightarrow> nat option" where
  "PQSize h q = SortedListSize h (queue q)"

definition PQIsEmpty :: "'d dheap \<Rightarrow> 'd PQueue \<Rightarrow> bool option" where
  "PQIsEmpty h q = SortedListIsEmpty h (queue q)"

definition PQEnpqueue :: "addr option \<Rightarrow> 'd dheap \<Rightarrow> 'd PQueue \<Rightarrow> 'd vptr \<Rightarrow> (int \<times> 'd dheap) option" where
  "PQEnpqueue mem h q v = do {
     (it, h) \<leftarrow> SortedListInsert h mem (queue q) v;
     same \<leftarrow> SortedListIsSameIter (SortedListEnd (queue q)) it;
     Some (if same then 1 else 0, h)
   }"

definition PQPeek :: "'d dheap \<Rightarrow> 'd PQueue \<Rightarrow> 'd vptr option" where
  "PQPeek h q = do { b \<leftarrow> SortedListBegin h (queue q); SortedListGetData h b }"

definition PQDepqueue :: "'d dheap \<Rightarrow> 'd PQueue \<Rightarrow> ('d vptr \<times> 'd dheap) option" where
  "PQDepqueue h q = do {
     d \<leftarrow> PQPeek h q;
     h \<leftarrow> SortedListPopFront h (queue q);
     Some (d, h)
   }"

partial_function (option) PQClear :: "'d dheap \<Rightarrow> 'd PQueue \<Rightarrow> 'd dheap option" where
  "PQClear h q = do {
     e \<leftarrow> PQIsEmpty h q;
     if e then Some h
     else do {
       (_, h) \<leftarrow> PQDepqueue h q;
       PQClear h q
     }
   }"

definition WrapIsMatch :: "'d vptr \<Rightarrow> ('d vptr \<Rightarrow> 'k \<Rightarrow> int) \<times> 'k \<Rightarrow> int" where
  "WrapIsMatch data wrapper = (if fst wrapper data (snd wrapper) = 0 then 1 else 0)"

text \<open>The result starts as NULL and stays so when nothing matches.\<close>

definition PQErase :: "'d dheap \<Rightarrow> 'd PQueue \<Rightarrow> ('d vptr \<Rightarrow> 'k \<Rightarrow> int) \<Rightarrow> 'k \<Rightarrow> ('d vptr \<times> 'd dheap) option" where
  "PQErase h q is_match key = do {
     b \<leftarrow> SortedListBegin h (queue q);
     it \<leftarrow> SortedListFindIf h (queue q) b (SortedListEnd (queue q)) WrapIsMatch (is_match, key);
     same \<leftarrow> SortedListIsSameIter (SortedListEnd (queue q)) it;
     if \<not> same then do {
       d \<leftarrow> SortedListGetData h it;
       (_, h) \<leftarrow> SortedListRemove h (queue q) it;
       Some (d, h)
     } else Some (Null, h)
   }"

section \<open>The operations on a well-formed queue\<close>

lemma PQSize_spec: "dlist h (sl_list (queue q)) ns \<Longrightarrow> PQSize h q = Some (length ns)"
  by (simp add: PQSize_def SortedListSize_def DlistSize_spec)

lemma PQIsEmpty_spec: "dlist h (sl_list (queue q)) ns \<Longrightarrow> PQIsEmpty h q = Some (ns = [])"
  by (simp add: PQIsEmpty_def SortedListIsEmpty_def DlistIsEmpty_iff)

lemma PQPeek_spec: "dlist h (sl_list (queue q)) (n # ns) \<Longrightarrow> PQPeek h q = Some (dat h n)"
  using dlist_node_steps [of h _ "[]" n ns] by (simp add: PQPeek_def sl_simps dlist_begin)

lemma PQDepqueue_spec:
  assumes L: "dlist h (sl_list (queue q)) (n # ns)"
  shows "\<exists>h'. PQDepqueue h q = Some (dat h n, h') \<and> dlist h' (sl_list (queue q)) ns
    \<and> contents h' ns = contents h ns \<and> dom h' = dom h - {n} \<and> same_on (- cells (sl_list (queue q)) (n # ns)) h h'"
  using DlistRemove_contents [of h "sl_list (queue q)" "[]" n ns] PQPeek_spec [OF L] L
  by (auto simp: PQDepqueue_def SortedListPopFront_def dlist_begin)

lemma PQEnpqueue_spec:
  assumes L: "dlist h (sl_list (queue q)) ns" and n: "n \<notin> dom h"
  shows "\<exists>h' ns'. PQEnpqueue (Some n) h q v = Some (0, h') \<and> dlist h' (sl_list (queue q)) ns'
    \<and> contents h' ns' = insert_by (cmp_code (sort_func (queue q))) v (contents h ns)
    \<and> set ns' = insert n (set ns) \<and> dom h' = insert n (dom h)
    \<and> same_on (- insert n (cells (sl_list (queue q)) ns)) h h'"
proof -
  have "Suc (sl_list (queue q)) \<in> dom h" using dlist_dom [OF L] by (auto simp: cells_def)
  then have "n \<noteq> Suc (sl_list (queue q))" using n by blast
  then show ?thesis using SortedListInsert_spec [OF assms, of v] by (auto simp: PQEnpqueue_def sl_simps)
qed

lemma PQEnpqueue_no_memory:
  assumes L: "dlist h (sl_list (queue q)) ns"
  shows "PQEnpqueue None h q v = Some (1, h)"
  using SortedListInsert_fails [OF L] by (simp add: PQEnpqueue_def sl_simps)

text \<open>Erasing removes the first element that matches, and no other.\<close>

lemma PQErase_spec:
  fixes is_match :: "'d vptr \<Rightarrow> 'k \<Rightarrow> int" and key :: 'k
  assumes L: "dlist h (sl_list (queue q)) ns"
  defines "no \<equiv> \<lambda>d. is_match d key = 0"
  shows "(case dropWhile no (contents h ns) of
      [] \<Rightarrow> PQErase h q is_match key = Some (Null, h)
    | d # ds \<Rightarrow> \<exists>h' ns'. PQErase h q is_match key = Some (d, h') \<and> dlist h' (sl_list (queue q)) ns'
        \<and> contents h' ns' = takeWhile no (contents h ns) @ ds \<and> set ns' \<subseteq> set ns)"
proof -
  let ?l = "sl_list (queue q)"
  have w: "(WrapIsMatch d (is_match, key) \<noteq> 0) = no d" for d by (simp add: WrapIsMatch_def no_def)
  let ?xs = "takeWhile (\<lambda>n. no (dat h n)) ns"
  have find: "SortedListFindIf h (queue q) (Some (hd (ns @ [Suc ?l]))) (SortedListEnd (queue q)) WrapIsMatch (is_match, key)
    = Some (Some (hd (dropWhile (\<lambda>n. no (dat h n)) ns @ [Suc ?l])))"
    using scan_while_end [of h ?l "[]" ns no] L by (simp add: SortedListFindIf_def sl_simps w)
  show ?thesis
  proof (cases "dropWhile (\<lambda>n. no (dat h n)) ns")
    case Nil
    then have "dropWhile no (contents h ns) = []" using contents_takeWhile(2) [of h no ns] by (metis contents_Nil)
    then show ?thesis using find Nil L
      by (simp add: PQErase_def sl_simps dlist_begin del: dropWhile_eq_Nil_conv)
  next
    case (Cons n ys)
    have ns: "ns = ?xs @ n # ys" using Cons by (metis takeWhile_dropWhile_id)
    have L': "dlist h ?l (?xs @ n # ys)" using L ns by simp
    have c: "dropWhile no (contents h ns) = dat h n # contents h ys" "takeWhile no (contents h ns) = contents h ?xs"
      using contents_takeWhile [of h no ns] Cons by simp_all
    obtain h' where h': "DlistRemove h ?l (Some n) = Some (Some (hd (ys @ [Suc ?l])), h')" "dlist h' ?l (?xs @ ys)"
      "contents h' (?xs @ ys) = contents h (?xs @ ys)"
      using DlistRemove_contents [OF L' refl] by blast
    have "PQErase h q is_match key = Some (dat h n, h')"
      using find Cons L h'(1) dlist_node(3) [OF L'] dlist_node_steps [OF L'] by (simp add: PQErase_def sl_simps dlist_begin)
    moreover have "set (?xs @ ys) \<subseteq> set ns" using ns by (metis Un_iff list.set_intros(2) set_append subsetI)
    ultimately show ?thesis using h'(2,3) unfolding c(1) c(2) list.case
      by (intro exI [of _ h'] exI [of _ "?xs @ ys"]) simp
  qed
qed

section \<open>The interface\<close>

text \<open>The state of a queue is the store and the handle; it represents a multiset of data when its
  nodes hold them in an order that the comparison accepts.\<close>

type_synonym 'd pq_state = "'d dheap \<times> 'd PQueue"

definition pq_rep :: "('d vptr \<Rightarrow> 'd vptr \<Rightarrow> int) \<Rightarrow> 'd vptr set \<Rightarrow> 'd pq_state \<Rightarrow> 'd vptr multiset \<Rightarrow> bool" where
  "pq_rep f valid s M \<longleftrightarrow> (\<exists>ns. dlist (fst s) (sl_list (queue (snd s))) ns \<and> mset (contents (fst s) ns) = M
     \<and> ordered_by f (contents (fst s) ns) \<and> set_mset M \<subseteq> valid \<and> cmp_code (sort_func (queue (snd s))) = f)"

definition pq_push :: "addr option \<Rightarrow> 'd pq_state \<Rightarrow> 'd vptr \<Rightarrow> (int \<times> 'd pq_state) option" where
  "pq_push mem s v = do { (r, h) \<leftarrow> PQEnpqueue mem (fst s) (snd s) v; Some (r, (h, snd s)) }"

definition pq_pop :: "'d pq_state \<Rightarrow> ('d vptr \<times> 'd pq_state) option" where
  "pq_pop s = do { (d, h) \<leftarrow> PQDepqueue (fst s) (snd s); Some (d, (h, snd s)) }"

definition pq_empty :: "'d pq_state \<Rightarrow> bool option" where
  "pq_empty s = PQIsEmpty (fst s) (snd s)"

definition fresh :: "addr option \<Rightarrow> 'd pq_state \<Rightarrow> bool" where
  "fresh mem s \<longleftrightarrow> (\<exists>n. mem = Some n \<and> n \<notin> dom (fst s))"

locale pq_order = insertion_order f valid for f :: "'d vptr \<Rightarrow> 'd vptr \<Rightarrow> int" and valid
begin

lemma pq_push_rep:
  assumes "pq_rep f valid s M" "v \<in> valid" "fresh mem s"
  shows "\<exists>s'. pq_push mem s v = Some (0, s') \<and> pq_rep f valid s' (add_mset v M)"
proof -
  obtain ns where ns: "dlist (fst s) (sl_list (queue (snd s))) ns" "mset (contents (fst s) ns) = M"
    "ordered_by f (contents (fst s) ns)" "set_mset M \<subseteq> valid" "cmp_code (sort_func (queue (snd s))) = f"
    using assms(1) by (auto simp: pq_rep_def)
  obtain n where n: "mem = Some n" "n \<notin> dom (fst s)" using assms(3) by (auto simp: fresh_def)
  obtain h' ns' where h': "PQEnpqueue (Some n) (fst s) (snd s) v = Some (0, h')" "dlist h' (sl_list (queue (snd s))) ns'"
    "contents h' ns' = insert_by f v (contents (fst s) ns)"
    using PQEnpqueue_spec [OF ns(1) n(2), of v] ns(5) by blast
  have "set (contents (fst s) ns) \<subseteq> valid" using ns(2,4) by auto
  then have "ordered_by f (contents h' ns')" using insert_by_ordered [OF ns(3) _ assms(2)] h'(3) by simp
  moreover have "mset (contents h' ns') = add_mset v M" using h'(3) ns(2) by simp
  ultimately show ?thesis using h'(1,2) ns n assms(2)
    by (intro exI [of _ "(h', snd s)"]) (auto simp: pq_push_def pq_rep_def)
qed

lemma pq_pop_rep:
  assumes "pq_rep f valid s M" "M \<noteq> {#}"
  shows "\<exists>x s' M'. pq_pop s = Some (x, s') \<and> M = add_mset x M' \<and> pq_rep f valid s' M' \<and> (\<forall>y \<in># M'. 0 \<le> f x y)"
proof -
  obtain ns where ns: "dlist (fst s) (sl_list (queue (snd s))) ns" "mset (contents (fst s) ns) = M"
    "ordered_by f (contents (fst s) ns)" "set_mset M \<subseteq> valid" "cmp_code (sort_func (queue (snd s))) = f"
    using assms(1) by (auto simp: pq_rep_def)
  then obtain n ms where n: "ns = n # ms" using assms(2) by (cases ns) auto
  obtain h' where h': "PQDepqueue (fst s) (snd s) = Some (dat (fst s) n, h')" "dlist h' (sl_list (queue (snd s))) ms"
    "contents h' ms = contents (fst s) ms"
    using PQDepqueue_spec ns(1) n by blast
  have M: "M = add_mset (dat (fst s) n) (mset (contents (fst s) ms))" using ns(2) n by simp
  have o: "ordered_by f (contents (fst s) ms)" "\<forall>y \<in> set (contents (fst s) ms). 0 \<le> f (dat (fst s) n) y"
    using ns(3) n by (simp_all add: ordered_by_def)
  have "pq_rep f valid (h', snd s) (mset (contents (fst s) ms))"
    using h' o ns(4,5) M by (auto simp: pq_rep_def)
  then show ?thesis using M h'(1) o(2)
    by (intro exI [of _ "dat (fst s) n"] exI [of _ "(h', snd s)"] exI [of _ "mset (contents (fst s) ms)"]) (simp add: pq_pop_def)
qed

lemma pq_empty_rep: "pq_rep f valid s M \<Longrightarrow> pq_empty s = Some (M = {#})"
  by (auto simp: pq_rep_def pq_empty_def PQIsEmpty_spec contents_def)

end

sublocale pq_order \<subseteq> list_pq: priority_queue "pq_rep f valid" valid fresh pq_push pq_pop pq_empty "\<lambda>x y. 0 \<le> f x y"
  by unfold_locales (blast intro: pq_push_rep pq_pop_rep pq_empty_rep)+

text \<open>\<open>PQClear\<close> on the pair of store and handle.\<close>

lemma PQClear_step:
  "map_option (\<lambda>h. (h, snd s)) (PQClear (fst s) (snd s)) = do {
     e \<leftarrow> pq_empty s;
     if e then Some s else do { (_, s) \<leftarrow> pq_pop s; map_option (\<lambda>h. (h, snd s)) (PQClear (fst s) (snd s)) } }"
proof (cases "PQIsEmpty (fst s) (snd s)")
  case (Some e)
  then show ?thesis
    by (cases e; cases "PQDepqueue (fst s) (snd s)") (simp_all add: PQClear.simps [of "fst s"] pq_empty_def pq_pop_def split_beta)
qed (simp add: PQClear.simps pq_empty_def)

context pq_order
begin

lemma pops_ordered:
  "pq_rep f valid s M \<Longrightarrow> \<exists>xs s'. pop_times pq_pop (size M) s = Some (xs, s') \<and> mset xs = M
     \<and> sorted_wrt (\<lambda>x y. 0 \<le> f x y) xs \<and> pq_rep f valid s' {#}"
  by (rule list_pq.pop_times_ordered)

lemma clear_empties:
  assumes "pq_rep f valid s M"
  shows "\<exists>h'. PQClear (fst s) (snd s) = Some h' \<and> pq_rep f valid (h', snd s) {#}"
  using list_pq.clearing_loop_ends [OF PQClear_step assms] by auto

text \<open>Enqueuing a list of data, each in a node at an address not used before.\<close>

lemma push_all_rep:
  "pq_rep f valid s M \<Longrightarrow> set vs \<subseteq> valid \<Longrightarrow> length ns = length vs \<Longrightarrow> distinct ns \<Longrightarrow> set ns \<inter> dom (fst s) = {} \<Longrightarrow>
   \<exists>s'. push_all pq_push (zip (map Some ns) vs) s = Some s' \<and> pq_rep f valid s' (M + mset vs)"
proof (induction vs arbitrary: ns s M)
  case (Cons v vs)
  then obtain n ms where n: "ns = n # ms" "n \<notin> dom (fst s)" "n \<notin> set ms" by (cases ns) auto
  have "fresh (Some n) s" using n(2) by (simp add: fresh_def)
  then obtain s1 where s1: "pq_push (Some n) s v = Some (0, s1)" "pq_rep f valid s1 (add_mset v M)"
    using pq_push_rep Cons.prems by (metis insert_subset list.set(2))
  obtain ks where "dlist (fst s) (sl_list (queue (snd s))) ks" using Cons.prems(1) by (auto simp: pq_rep_def)
  then have "dom (fst s1) = insert n (dom (fst s))"
  proof -
    assume "dlist (fst s) (sl_list (queue (snd s))) ks"
    then obtain h' where h': "PQEnpqueue (Some n) (fst s) (snd s) v = Some (0, h')" "dom h' = insert n (dom (fst s))"
      using PQEnpqueue_spec n(2) by blast
    then have "s1 = (h', snd s)" using s1(1) by (simp add: pq_push_def)
    then show ?thesis using h'(2) by simp
  qed
  then have "set ms \<inter> dom (fst s1) = {}" using Cons.prems(5) n by auto
  then obtain s' where "push_all pq_push (zip (map Some ms) vs) s1 = Some s'" "pq_rep f valid s' (add_mset v M + mset vs)"
    using Cons.IH [OF s1(2), of ms] Cons.prems n(1) by auto
  then show ?case using s1(1) n(1) by (intro exI [of _ s']) simp
qed (intro exI, simp)

lemma created_rep:
  assumes "cmp_code cmp = f" "l \<notin> dom h" "Suc l \<notin> dom h"
  shows "\<exists>q h'. PQCreate h True True (Some l) cmp = (Some q, h') \<and> pq_rep f valid (h', q) {#} \<and> dom h' = {l, Suc l} \<union> dom h"
proof -
  obtain h' where "DlistCreate h (Some l) = (Some l, h')" "dlist h' l []" "dom h' = {l, Suc l} \<union> dom h"
    using DlistCreate_spec [OF assms(2,3)] by blast
  then show ?thesis using assms(1)
    by (intro exI [of _ "\<lparr>queue = \<lparr>sl_list = l, sort_func = cmp\<rparr>\<rparr>"] exI [of _ h'])
      (auto simp: PQCreate_def SortedListCreate_def pq_rep_def contents_def ordered_by_def)
qed

end

interpretation test_pq: pq_order compare_func small_ints
  by (simp add: pq_order_def test_order.insertion_order_axioms)

section \<open>Properties\<close>

text \<open>C4. Creating a list-based priority queue with a comparison function that keeps the insertion
  contract, enqueuing any list of valid data (each allocation succeeds at an address not in use) and
  dequeuing as many times returns exactly these data, none before one that the comparison function
  puts strictly earlier, and leaves the queue empty; clearing instead always ends with an empty
  queue.\<close>

theorem PQ_enqueue_dequeue_ordered:
  assumes "insertion_order (cmp_code cmp) valid" and "l \<notin> dom h" and "Suc l \<notin> dom h" and "set vs \<subseteq> valid"
    and "length ns = length vs" and "distinct ns" and "set ns \<inter> (dom h \<union> {l, Suc l}) = {}"
  shows "\<exists>q h0 s xs s'. PQCreate h True True (Some l) cmp = (Some q, h0)
    \<and> push_all pq_push (zip (map Some ns) vs) (h0, q) = Some s
    \<and> pop_times pq_pop (length vs) s = Some (xs, s') \<and> mset xs = mset vs
    \<and> sorted_wrt (\<lambda>x y. 0 \<le> cmp_code cmp x y) xs \<and> PQIsEmpty (fst s') (snd s') = Some True
    \<and> (\<exists>h'. PQClear (fst s) (snd s) = Some h' \<and> PQIsEmpty h' (snd s) = Some True)"
proof -
  let ?f = "cmp_code cmp"
  have o: "pq_order ?f valid" using assms(1) by (simp add: pq_order_def)
  obtain q h0 where c: "PQCreate h True True (Some l) cmp = (Some q, h0)" "pq_rep ?f valid (h0, q) {#}"
    "dom h0 = {l, Suc l} \<union> dom h"
    using pq_order.created_rep [OF o refl assms(2,3)] by blast
  have "set ns \<inter> dom (fst (h0, q)) = {}" using assms(7) c(3) by auto
  then obtain s where p: "push_all pq_push (zip (map Some ns) vs) (h0, q) = Some s" "pq_rep ?f valid s (mset vs)"
    using pq_order.push_all_rep [OF o c(2) assms(4-6)] by auto
  obtain xs s' where x: "pop_times pq_pop (length vs) s = Some (xs, s')" "mset xs = mset vs"
    "sorted_wrt (\<lambda>x y. 0 \<le> ?f x y) xs" "pq_rep ?f valid s' {#}"
    using pq_order.pops_ordered [OF o p(2)] by auto
  have "PQIsEmpty (fst s') (snd s') = Some True" using pq_order.pq_empty_rep [OF o x(4)] by (simp add: pq_empty_def)
  moreover have "\<exists>h'. PQClear (fst s) (snd s) = Some h' \<and> PQIsEmpty h' (snd s) = Some True"
    using pq_order.clear_empties [OF o p(2)] pq_order.pq_empty_rep [OF o] by (fastforce simp: pq_empty_def)
  ultimately show ?thesis using c(1) p(1) x(1-3) by blast
qed

theorem PQ_enqueue_dequeue_ordered_witness:
  "\<exists>q h0 s xs s'. PQCreate Map.empty True True (Some 0) (CmpPtr 0 compare_func) = (Some q, h0)
    \<and> push_all pq_push [(Some 7, Elem 70), (Some 5, Elem 50), (Some 9, Elem 60)] (h0, q) = Some s
    \<and> pop_times pq_pop 3 s = Some (xs, s') \<and> mset xs = {#Elem 50, Elem 60, Elem 70#}
    \<and> sorted_wrt (\<lambda>x y. 0 \<le> compare_func x y) xs"
proof -
  have "set [Elem 70, Elem 50, Elem 60] \<subseteq> small_ints" by (auto simp: small_ints_def)
  from PQ_enqueue_dequeue_ordered [of "CmpPtr 0 compare_func" small_ints 0 Map.empty "[Elem 70, Elem 50, Elem 60]" "[7, 5, 9]",
      OF _ _ _ this] test_order.insertion_order_axioms
  show ?thesis by (auto simp: add_mset_commute numeral_3_eq_3)
qed

text \<open>Erasing removes the first datum that matches, in queue order, and returns it; it returns
  NULL and changes nothing when no datum matches.\<close>

theorem PQErase_first_match:
  fixes is_match :: "'d vptr \<Rightarrow> 'k \<Rightarrow> int" and key :: 'k
  assumes "dlist h (sl_list (queue q)) ns"
  shows "(case dropWhile (\<lambda>d. is_match d key = 0) (contents h ns) of
      [] \<Rightarrow> PQErase h q is_match key = Some (Null, h)
    | d # ds \<Rightarrow> \<exists>h' ns'. PQErase h q is_match key = Some (d, h') \<and> dlist h' (sl_list (queue q)) ns'
        \<and> contents h' ns' = takeWhile (\<lambda>d. is_match d key = 0) (contents h ns) @ ds)"
  using PQErase_spec [OF assms, of is_match key]
  by (cases "dropWhile (\<lambda>d. is_match d key = 0) (contents h ns)") (auto simp del: dropWhile_eq_Nil_conv)

definition same_data :: "int vptr \<Rightarrow> int \<Rightarrow> int" where
  "same_data d i = (if d = Elem i then 1 else 0)"

theorem PQErase_first_match_witness:
  "\<exists>h' ns'. PQErase test_heap \<lparr>queue = test_list 0\<rparr> same_data 70 = Some (Elem 70, h') \<and> dlist h' 0 ns'
     \<and> contents h' ns' = [Elem 50]"
proof -
  have "dlist test_heap (sl_list (queue \<lparr>queue = test_list 0\<rparr>)) [5, 7]" using test_heap_lists by (simp add: test_list_def)
  from PQErase_first_match [OF this, of same_data 70] show ?thesis
    by (simp add: test_heap_dat same_data_def test_list_def)
qed

end
