(* ===== verification/Heap.thy ===== *)
theory Heap
  imports DynVector
begin

text \<open>
  The binary heap of \<open>ds/heap/heap.c\<close> in a growing vector: the element of index \<open>i\<close> (from 0) has its
  children at \<open>2 * i + 1\<close> and \<open>2 * i + 2\<close>, and the largest element, in the order of the comparison
  function, is at the front. The locale \<open>key_comparison\<close> of the prelude is what the comparison
  must promise.
\<close>

section \<open>State and operations\<close>

record 'v Heap =
  heap_vector :: "'v Vector"
  compare_fn :: "'v \<Rightarrow> 'v \<Rightarrow> int"

definition GET_CHILD1 :: "nat \<Rightarrow> nat" where "GET_CHILD1 index = 2 * index + 1"
definition GET_CHILD2 :: "nat \<Rightarrow> nat" where "GET_CHILD2 index = 2 * index + 2"

definition GetParent :: "nat \<Rightarrow> nat" where
  "GetParent index = (if index = 0 then 0 else (index - 1) div 2)"

definition HeapCreate :: "bool \<Rightarrow> bool \<Rightarrow> bool \<Rightarrow> ('v \<Rightarrow> 'v \<Rightarrow> int) \<Rightarrow> 'v Heap option" where
  "HeapCreate mem0 mem1 mem2 cmp =
     (if \<not> mem0 then None
      else case VectorCreate mem1 mem2 7 of
        None \<Rightarrow> None
      | Some v \<Rightarrow> Some \<lparr>heap_vector = v, compare_fn = cmp\<rparr>)"

definition SwapByIndex :: "'v Vector \<Rightarrow> nat \<Rightarrow> nat \<Rightarrow> 'v Vector option" where
  "SwapByIndex v index big_child = do {
     container \<leftarrow> VectorGetElement v (index + 1);
     container2 \<leftarrow> VectorGetElement v (big_child + 1);
     v \<leftarrow> VectorSetElement v container2 (index + 1);
     VectorSetElement v container (big_child + 1)
   }"

definition GetBigChild :: "'v Vector \<Rightarrow> ('v \<Rightarrow> 'v \<Rightarrow> int) \<Rightarrow> nat \<Rightarrow> nat \<Rightarrow> nat option" where
  "GetBigChild v cmp child1 child2 =
     do {
        n \<leftarrow> VectorSize v;
        if n \<le> child2 then Some (if n \<le> child1 then (child1 - 1) div 2 else child1)
        else do {
          a \<leftarrow> VectorGetElement v (child1 + 1);
          b \<leftarrow> VectorGetElement v (child2 + 1);
          if 0 < cmp a b then Some child1 else Some child2
        }
      }"

partial_function (option) up_loop ::
  "('v \<Rightarrow> 'v \<Rightarrow> int) \<Rightarrow> 'v \<Rightarrow> 'v Vector \<Rightarrow> nat \<Rightarrow> nat \<Rightarrow> 'v Vector option" where
  "up_loop cmp data v index parent =
     (if index \<noteq> 0 then do {
        p \<leftarrow> VectorGetElement v (parent + 1);
        if cmp p data < 0 then do {
          v \<leftarrow> SwapByIndex v parent index;
          up_loop cmp data v parent (GetParent parent)
        } else Some v
      } else Some v)"

definition HeapIfyUp :: "'v Heap \<Rightarrow> nat \<Rightarrow> 'v \<Rightarrow> 'v Heap option" where
  "HeapIfyUp hp index data = do {
     v \<leftarrow> up_loop (compare_fn hp) data (heap_vector hp) index (GetParent index);
     Some (hp\<lparr>heap_vector := v\<rparr>)
   }"

partial_function (option) down_loop ::
  "('v \<Rightarrow> 'v \<Rightarrow> int) \<Rightarrow> 'v \<Rightarrow> 'v Vector \<Rightarrow> nat \<Rightarrow> nat \<Rightarrow> 'v Vector option" where
  "down_loop cmp data v index big_child =
     do {
      n \<leftarrow> VectorSize v;
      if index + 1 < n then do {
        b \<leftarrow> VectorGetElement v (big_child + 1);
        if 0 < cmp b data then do {
          v \<leftarrow> SwapByIndex v index big_child;
          big \<leftarrow> GetBigChild v cmp (GET_CHILD1 big_child) (GET_CHILD2 big_child);
          down_loop cmp data v big_child big
        } else Some v
      } else Some v
     }"

definition HeapIfyDown :: "'v Heap \<Rightarrow> nat \<Rightarrow> 'v \<Rightarrow> 'v Heap option" where
  "HeapIfyDown hp index data = do {
     big \<leftarrow> GetBigChild (heap_vector hp) (compare_fn hp) (GET_CHILD1 index) (GET_CHILD2 index);
     v \<leftarrow> down_loop (compare_fn hp) data (heap_vector hp) index big;
     Some (hp\<lparr>heap_vector := v\<rparr>)
   }"

definition HeapPop :: "'v Heap \<Rightarrow> 'v Heap option" where
  "HeapPop hp = do {
     n \<leftarrow> VectorSize (heap_vector hp);
     last_element \<leftarrow> VectorGetElement (heap_vector hp) n;
     v \<leftarrow> VectorSetElement (heap_vector hp) last_element 1;
     v \<leftarrow> VectorPopBack v;
     HeapIfyDown (hp\<lparr>heap_vector := v\<rparr>) 0 last_element
   }"

definition HeapPush :: "bool \<Rightarrow> 'v Heap \<Rightarrow> 'v \<Rightarrow> (int \<times> 'v Heap) option" where
  "HeapPush mem hp data = do {
     (res, v) \<leftarrow> VectorPushBack mem (heap_vector hp) data;
     if res \<noteq> 0 then Some (res, hp\<lparr>heap_vector := v\<rparr>)
     else do {
       size \<leftarrow> VectorSize v;
       hp \<leftarrow> HeapIfyUp (hp\<lparr>heap_vector := v\<rparr>) (szsub size 1) data;
       Some (0, hp)
     }
   }"

definition HeapPeek :: "'v Heap \<Rightarrow> 'v option" where
  "HeapPeek hp = VectorGetElement (heap_vector hp) 1"

definition HeapIsEmpty :: "'v Heap \<Rightarrow> bool option" where
  "HeapIsEmpty hp = do { n \<leftarrow> VectorSize (heap_vector hp); Some (0 = n) }"

definition HeapSize :: "'v Heap \<Rightarrow> nat option" where
  "HeapSize hp = VectorSize (heap_vector hp)"

text \<open>The \<open>do ... while\<close> of \<open>HeapRemove\<close>: the index it stops at and the data there.\<close>

partial_function (option) remove_scan ::
  "'v Vector \<Rightarrow> nat \<Rightarrow> ('v \<Rightarrow> 'k \<Rightarrow> int) \<Rightarrow> 'k \<Rightarrow> nat \<Rightarrow> (nat \<times> 'v) option" where
  "remove_scan v vector_size match_func key runner = do {
     let runner = runner + 1;
     d \<leftarrow> VectorGetElement v runner;
     if runner < vector_size \<and> match_func d key \<noteq> 0 then remove_scan v vector_size match_func key runner
     else Some (runner, d)
   }"

text \<open>The result \<open>None\<close> of the first component is the NULL the function returns.\<close>

definition HeapRemove ::
  "'v Heap \<Rightarrow> ('v \<Rightarrow> 'k \<Rightarrow> int) \<Rightarrow> 'k \<Rightarrow> ('v option \<times> 'v Heap) option" where
  "HeapRemove hp match_func key = do {
     vector_size \<leftarrow> VectorSize (heap_vector hp);
     (runner, data_of_runner) \<leftarrow> remove_scan (heap_vector hp) vector_size match_func key 0;
     if runner = vector_size then Some (None, hp)
     else do {
       last_element \<leftarrow> VectorGetElement (heap_vector hp) vector_size;
       v \<leftarrow> VectorSetElement (heap_vector hp) last_element runner;
       v \<leftarrow> VectorPopBack v;
       hp \<leftarrow> HeapIfyDown (hp\<lparr>heap_vector := v\<rparr>) (runner - 1) last_element;
       Some (Some data_of_runner, hp)
     }
   }"

section \<open>Positions\<close>

lemma GetParent_less: "0 < i \<Longrightarrow> GetParent i < i"
  by (simp add: GetParent_def)

lemma GetParent_child: "0 < j \<Longrightarrow> GetParent j = i \<longleftrightarrow> j = 2 * i + 1 \<or> j = 2 * i + 2"
  by (auto simp: GetParent_def)

lemma all_children:
  "(\<forall>j < n. 0 < j \<and> GetParent j = i \<longrightarrow> P j) \<longleftrightarrow> (2 * i + 1 < n \<longrightarrow> P (2 * i + 1)) \<and> (2 * i + 2 < n \<longrightarrow> P (2 * i + 2))"
  by (metis GetParent_child add_gr_0 zero_less_numeral zero_less_one)

abbreviation swapped :: "'a list \<Rightarrow> nat \<Rightarrow> nat \<Rightarrow> 'a list" where
  "swapped xs i j \<equiv> xs[i := xs ! j, j := xs ! i]"

lemma SwapByIndex_spec:
  assumes v: "vec_inv v" and i: "i < vec_len v" and j: "j < vec_len v"
  shows "\<exists>v'. SwapByIndex v i j = Some v' \<and> vec_inv v' \<and> vec_abs v' = swapped (vec_abs v) i j
    \<and> vec_len v' = vec_len v \<and> vec_capacity v' = vec_capacity v"
proof -
  obtain v1 where v1: "VectorSetElement v (vec_abs v ! j) (i + 1) = Some v1" "vec_inv v1"
    "vec_abs v1 = (vec_abs v)[i := vec_abs v ! j]" "vec_len v1 = vec_len v" "vec_capacity v1 = vec_capacity v"
    using VectorSetElement_eq [OF v, of "i + 1" "vec_abs v ! j"] i by auto
  obtain v2 where v2: "VectorSetElement v1 (vec_abs v ! i) (j + 1) = Some v2" "vec_inv v2"
    "vec_abs v2 = (vec_abs v1)[j := vec_abs v ! i]" "vec_len v2 = vec_len v1" "vec_capacity v2 = vec_capacity v1"
    using VectorSetElement_eq [OF v1(2), of "j + 1" "vec_abs v ! i"] j v1(4) by auto
  show ?thesis using v1 v2 VectorGetElement_eq [OF v, of "i + 1"] VectorGetElement_eq [OF v, of "j + 1"] i j
    by (simp add: SwapByIndex_def)
qed

section \<open>The heap order\<close>

definition heap_ordered :: "('v \<Rightarrow> int) \<Rightarrow> 'v list \<Rightarrow> bool" where
  "heap_ordered key xs \<longleftrightarrow> (\<forall>j < length xs. 0 < j \<longrightarrow> key (xs ! j) \<le> key (xs ! GetParent j))"

definition is_heap :: "('v \<Rightarrow> 'v \<Rightarrow> int) \<Rightarrow> ('v \<Rightarrow> int) \<Rightarrow> 'v Heap \<Rightarrow> bool" where
  "is_heap cmp key hp \<longleftrightarrow> compare_fn hp = cmp \<and> vec_inv (heap_vector hp) \<and> 0 < vec_capacity (heap_vector hp)
     \<and> heap_ordered key (vec_abs (heap_vector hp))"

definition heap_elems :: "'v Heap \<Rightarrow> 'v multiset" where
  "heap_elems hp = mset (vec_abs (heap_vector hp))"

text \<open>The order holds except between \<open>i\<close> and its parent, or between \<open>i\<close> and its children.\<close>

definition ordered_above :: "('v \<Rightarrow> int) \<Rightarrow> 'v list \<Rightarrow> nat \<Rightarrow> bool" where
  "ordered_above key xs i \<longleftrightarrow> (\<forall>j < length xs. 0 < j \<and> j \<noteq> i \<longrightarrow> key (xs ! j) \<le> key (xs ! GetParent j))
     \<and> (\<forall>j < length xs. 0 < j \<and> 0 < i \<and> GetParent j = i \<longrightarrow> key (xs ! j) \<le> key (xs ! GetParent i))"

definition ordered_below :: "('v \<Rightarrow> int) \<Rightarrow> 'v list \<Rightarrow> nat \<Rightarrow> bool" where
  "ordered_below key xs i \<longleftrightarrow> (\<forall>j < length xs. 0 < j \<and> GetParent j \<noteq> i \<longrightarrow> key (xs ! j) \<le> key (xs ! GetParent j))
     \<and> (\<forall>j < length xs. 0 < j \<and> 0 < i \<and> GetParent j = i \<longrightarrow> key (xs ! j) \<le> key (xs ! GetParent i))"

context key_comparison
begin

lemma up_step:
  assumes o: "ordered_above key xs i" and i: "0 < i" "i < length xs" and less: "key (xs ! GetParent i) < key (xs ! i)"
  shows "ordered_above key (swapped xs (GetParent i) i) (GetParent i)"
proof -
  let ?p = "GetParent i" let ?ys = "swapped xs ?p i"
  have p: "?p < i" using i by (simp add: GetParent_less)
  have ys: "?ys ! j = (if j = i then xs ! ?p else if j = ?p then xs ! i else xs ! j)" if "j < length xs" for j
    using that i p by (auto simp: nth_list_update)
  have o1: "key (xs ! j) \<le> key (xs ! GetParent j)" if "j < length xs" "0 < j" "j \<noteq> i" for j
    using o that by (simp add: ordered_above_def)
  have o2: "key (xs ! j) \<le> key (xs ! ?p)" if "j < length xs" "0 < j" "GetParent j = i" for j
    using o that i by (simp add: ordered_above_def)
  have "key (?ys ! j) \<le> key (?ys ! GetParent j)" if j: "j < length xs" "0 < j" "j \<noteq> ?p" for j
  proof -
    have pj: "GetParent j < length xs" "GetParent j < j" using j GetParent_less [of j] by auto
    show ?thesis using o1 [OF j(1,2)] o2 [OF j(1,2)] less j pj p by (auto simp: ys)
  qed
  moreover have "key (?ys ! j) \<le> key (?ys ! GetParent ?p)"
    if j: "j < length xs" "0 < j" "0 < ?p" "GetParent j = ?p" for j
  proof -
    have pp: "GetParent ?p < ?p" using j by (simp add: GetParent_less)
    have "key (xs ! ?p) \<le> key (xs ! GetParent ?p)" using o1 [of ?p] p i j by simp
    then show ?thesis using o1 [OF j(1,2)] j pp p i GetParent_less [of j] by (auto simp: ys)
  qed
  ultimately show ?thesis unfolding ordered_above_def by simp
qed

lemma up_stop:
  assumes "ordered_above key xs i" and "i = 0 \<or> key (xs ! i) \<le> key (xs ! GetParent i)"
  shows "heap_ordered key xs"
  using assms unfolding heap_ordered_def ordered_above_def by blast

lemma down_step:
  assumes o: "ordered_below key xs i" and b: "0 < b" "b < length xs" "GetParent b = i"
    and big: "\<forall>j < length xs. 0 < j \<and> GetParent j = i \<longrightarrow> key (xs ! j) \<le> key (xs ! b)"
    and less: "key (xs ! i) < key (xs ! b)"
  shows "ordered_below key (swapped xs i b) b"
proof -
  define ys where "ys = swapped xs i b"
  have i: "i < b" using b GetParent_less by blast
  have ys_nth: "ys ! j = (if j = i then xs ! b else if j = b then xs ! i else xs ! j)" if "j < length xs" for j
    using that i b by (auto simp: ys_def nth_list_update)
  have o1: "key (xs ! j) \<le> key (xs ! GetParent j)" if "j < length xs" "0 < j" "GetParent j \<noteq> i" for j
    using o that by (simp add: ordered_below_def)
  have "key (ys ! j) \<le> key (ys ! GetParent j)" if j: "j < length xs" "0 < j" "GetParent j \<noteq> b" for j
  proof -
    have pj: "GetParent j < length xs" "GetParent j < j" using j GetParent_less [of j] by auto
    show ?thesis
    proof (cases "j = i")
      case True
      then have "key (xs ! b) \<le> key (xs ! GetParent i)" using o b j(2) by (simp add: ordered_below_def)
      then show ?thesis using True j pj i by (simp add: ys_nth)
    next
      case False
      then show ?thesis using o1 [OF j(1,2)] big less j pj by (auto simp: ys_nth)
    qed
  qed
  moreover have "key (ys ! j) \<le> key (ys ! GetParent b)" if j: "j < length xs" "0 < j" "GetParent j = b" for j
  proof -
    have "j \<noteq> i" "j \<noteq> b" using j i GetParent_less [of j] by auto
    moreover have "key (xs ! j) \<le> key (xs ! b)" using o1 [OF j(1,2)] j i by simp
    ultimately show ?thesis using j i b by (simp add: ys_nth)
  qed
  ultimately show ?thesis using b unfolding ordered_below_def ys_def [symmetric] by (simp add: ys_def)
qed

lemma down_stop:
  assumes "ordered_below key xs i" and "\<forall>j < length xs. 0 < j \<and> GetParent j = i \<longrightarrow> key (xs ! j) \<le> key (xs ! i)"
  shows "heap_ordered key xs"
  using assms unfolding heap_ordered_def ordered_below_def by metis

text \<open>The loops always end, keep the elements, and restore the order.\<close>

lemma up_loop_spec:
  "\<lbrakk>vec_inv v; i < vec_len v; vec_abs v ! i = data\<rbrakk> \<Longrightarrow>
   \<exists>v'. up_loop cmp data v i (GetParent i) = Some v' \<and> vec_inv v' \<and> vec_len v' = vec_len v
     \<and> vec_capacity v' = vec_capacity v \<and> mset (vec_abs v') = mset (vec_abs v)
     \<and> (ordered_above key (vec_abs v) i \<longrightarrow> heap_ordered key (vec_abs v'))"
proof (induction i arbitrary: v rule: less_induct)
  case (less i)
  note inv = less.prems(1)
  show ?case
  proof (cases "i = 0")
    case True
    then show ?thesis using inv up_stop by (subst up_loop.simps) auto
  next
    case False
    let ?p = "GetParent i"
    have p: "?p < i" "?p < vec_len v" using False less.prems(2) GetParent_less [of i] by auto
    have g: "VectorGetElement v (?p + 1) = Some (vec_abs v ! ?p)"
      using VectorGetElement_eq [OF inv, of "?p + 1"] p by simp
    show ?thesis
    proof (cases "cmp (vec_abs v ! ?p) data < 0")
      case stop: False
      then have "ordered_above key (vec_abs v) i \<longrightarrow> heap_ordered key (vec_abs v)"
        using up_stop [of "vec_abs v" i] less.prems(3) cmp_less by (auto simp: not_less)
      then show ?thesis using inv g stop False by (subst up_loop.simps) auto
    next
      case go: True
      obtain v1 where v1: "SwapByIndex v ?p i = Some v1" "vec_inv v1" "vec_abs v1 = swapped (vec_abs v) ?p i"
        "vec_len v1 = vec_len v" "vec_capacity v1 = vec_capacity v"
        using SwapByIndex_spec [OF inv p(2) less.prems(2)] by blast
      have len: "length (vec_abs v) = vec_len v" using vec_facts(6) [OF inv] .
      have d1: "vec_abs v1 ! ?p = data" "?p < vec_len v1"
        using v1 p less.prems len by (simp_all add: nth_list_update)
      obtain v' where v': "up_loop cmp data v1 ?p (GetParent ?p) = Some v'" "vec_inv v'" "vec_len v' = vec_len v1"
        "vec_capacity v' = vec_capacity v1" "mset (vec_abs v') = mset (vec_abs v1)"
        "ordered_above key (vec_abs v1) ?p \<longrightarrow> heap_ordered key (vec_abs v')"
        using less.IH [OF p(1) v1(2) d1(2,1)] by blast
      have "mset (vec_abs v1) = mset (vec_abs v)" using v1(3) p less.prems(2) len by (simp add: mset_swap_list)
      moreover have "ordered_above key (vec_abs v) i \<longrightarrow> ordered_above key (vec_abs v1) ?p"
        using up_step [of "vec_abs v" i] False less.prems go len cmp_less v1(3) by auto
      ultimately show ?thesis using v' v1 g go False by (subst up_loop.simps) simp
    qed
  qed
qed

lemma GetBigChild_spec:
  assumes inv: "vec_inv v"
  shows "\<exists>b. GetBigChild v cmp (GET_CHILD1 i) (GET_CHILD2 i) = Some b
    \<and> (if vec_len v \<le> 2 * i + 1 then b = i
       else 0 < b \<and> b < vec_len v \<and> GetParent b = i
         \<and> (\<forall>j < vec_len v. 0 < j \<and> GetParent j = i \<longrightarrow> key (vec_abs v ! j) \<le> key (vec_abs v ! b)))"
proof -
  note s = VectorSize_eq [OF inv] and g = VectorGetElement_eq [OF inv]
  consider (none) "vec_len v \<le> 2 * i + 1" | (one) "vec_len v = 2 * i + 2" | (two) "2 * i + 2 < vec_len v" by linarith
  then show ?thesis
  proof cases
    case none
    then show ?thesis by (simp add: GetBigChild_def GET_CHILD1_def GET_CHILD2_def s)
  next
    case one
    then show ?thesis unfolding all_children
      by (simp add: GetBigChild_def GET_CHILD1_def GET_CHILD2_def s GetParent_def)
  next
    case two
    have "VectorGetElement v (2 * i + 2) = Some (vec_abs v ! (2 * i + 1))" "VectorGetElement v (2 * i + 3) = Some (vec_abs v ! (2 * i + 2))"
      using g [of "2 * i + 2"] g [of "2 * i + 3"] two by (simp_all add: numeral_3_eq_3 numeral_2_eq_2)
    then show ?thesis using two cmp_greater unfolding all_children
      by (auto simp: GetBigChild_def GET_CHILD1_def GET_CHILD2_def s GetParent_def not_less numeral_3_eq_3)
  qed
qed

lemma down_loop_spec:
  "\<lbrakk>vec_inv v; i < vec_len v; vec_abs v ! i = data; GetBigChild v cmp (GET_CHILD1 i) (GET_CHILD2 i) = Some b\<rbrakk> \<Longrightarrow>
   \<exists>v'. down_loop cmp data v i b = Some v' \<and> vec_inv v' \<and> vec_len v' = vec_len v
     \<and> vec_capacity v' = vec_capacity v \<and> mset (vec_abs v') = mset (vec_abs v)
     \<and> (ordered_below key (vec_abs v) i \<longrightarrow> heap_ordered key (vec_abs v'))"
proof (induction "vec_len v - i" arbitrary: v i b rule: less_induct)
  case less
  note inv = less.prems(1)
  have len: "length (vec_abs v) = vec_len v" using vec_facts(6) [OF inv] .
  note s = VectorSize_eq [OF inv]
  have B: "if vec_len v \<le> 2 * i + 1 then b = i
       else 0 < b \<and> b < vec_len v \<and> GetParent b = i
         \<and> (\<forall>j < vec_len v. 0 < j \<and> GetParent j = i \<longrightarrow> key (vec_abs v ! j) \<le> key (vec_abs v ! b))"
    using GetBigChild_spec [OF inv, of i] less.prems(4) by auto
  have bl: "b < vec_len v" using B less.prems(2) by (auto split: if_splits)
  have g: "VectorGetElement v (b + 1) = Some (vec_abs v ! b)" using VectorGetElement_eq [OF inv, of "b + 1"] bl by simp
  show ?case
  proof (cases "i + 1 < vec_len v \<and> 0 < cmp (vec_abs v ! b) data")
    case False
    have "key (vec_abs v ! j) \<le> key (vec_abs v ! i)" if "j < vec_len v" "0 < j" "GetParent j = i" for j
    proof -
      have j: "j = 2 * i + 1 \<or> j = 2 * i + 2" using that GetParent_child by blast
      then have "\<not> vec_len v \<le> 2 * i + 1" "i + 1 < vec_len v" using that by auto
      then have "key (vec_abs v ! j) \<le> key (vec_abs v ! b)" "\<not> key data < key (vec_abs v ! b)"
        using B that False cmp_greater by auto
      then show ?thesis using less.prems(3) by simp
    qed
    then have "ordered_below key (vec_abs v) i \<longrightarrow> heap_ordered key (vec_abs v)" using down_stop [of "vec_abs v" i] len by auto
    moreover have "down_loop cmp data v i b = Some v" using False g by (subst down_loop.simps) (auto simp: s)
    ultimately show ?thesis using inv by blast
  next
    case True
    then have nl: "\<not> vec_len v \<le> 2 * i + 1" using B less.prems(3) cmp_greater [of data data] by (auto split: if_splits)
    then have b: "0 < b" "GetParent b = i" "\<forall>j < vec_len v. 0 < j \<and> GetParent j = i \<longrightarrow> key (vec_abs v ! j) \<le> key (vec_abs v ! b)"
      using B by simp_all
    have ib: "i < b" using b GetParent_less by blast
    obtain v1 where v1: "SwapByIndex v i b = Some v1" "vec_inv v1" "vec_abs v1 = swapped (vec_abs v) i b"
      "vec_len v1 = vec_len v" "vec_capacity v1 = vec_capacity v"
      using SwapByIndex_spec [OF inv less.prems(2) bl] by blast
    obtain b1 where b1: "GetBigChild v1 cmp (GET_CHILD1 b) (GET_CHILD2 b) = Some b1"
      using GetBigChild_spec [OF v1(2), of b] by auto
    have d1: "vec_abs v1 ! b = data" "b < vec_len v1"
      using v1 bl less.prems len by (simp_all add: nth_list_update)
    obtain v' where v': "down_loop cmp data v1 b b1 = Some v'" "vec_inv v'" "vec_len v' = vec_len v1"
      "vec_capacity v' = vec_capacity v1" "mset (vec_abs v') = mset (vec_abs v1)"
      "ordered_below key (vec_abs v1) b \<longrightarrow> heap_ordered key (vec_abs v')"
      using less.hyps [of v1 b, OF _ v1(2) d1(2,1) b1] diff_less_mono2 [OF ib, of "vec_len v"] ib bl v1(4) by auto
    have "mset (vec_abs v1) = mset (vec_abs v)" using v1(3) bl less.prems(2) len by (simp add: mset_swap_list)
    moreover have "ordered_below key (vec_abs v) i \<longrightarrow> ordered_below key (vec_abs v1) b"
      using down_step [of "vec_abs v" i b] b bl True less.prems(3) cmp_greater v1(3) len by auto
    ultimately show ?thesis using v' v1 g True b1 by (subst down_loop.simps) (simp add: s)
  qed
qed

text \<open>The operations on a heap: \<open>is_heap\<close> is the invariant, \<open>heap_elems\<close> the multiset it stores.\<close>

lemma HeapIfyDown_spec:
  assumes "vec_inv v" "i < vec_len v" "vec_abs v ! i = data" "compare_fn hp = cmp" "heap_vector hp = v"
  shows "\<exists>v'. HeapIfyDown hp i data = Some (hp\<lparr>heap_vector := v'\<rparr>) \<and> vec_inv v' \<and> vec_len v' = vec_len v
     \<and> vec_capacity v' = vec_capacity v \<and> mset (vec_abs v') = mset (vec_abs v)
     \<and> (ordered_below key (vec_abs v) i \<longrightarrow> heap_ordered key (vec_abs v'))"
proof -
  obtain b where b: "GetBigChild v cmp (GET_CHILD1 i) (GET_CHILD2 i) = Some b"
    using GetBigChild_spec [OF assms(1), of i] by auto
  show ?thesis using down_loop_spec [OF assms(1,2,3) b] b assms(4,5) by (auto simp: HeapIfyDown_def)
qed

lemma HeapPush_spec:
  assumes H: "is_heap cmp key hp" and room: "vec_len (heap_vector hp) < 2 ^ 31 - 1"
    and mem: "vec_len (heap_vector hp) = vec_capacity (heap_vector hp) \<Longrightarrow> mem"
  shows "\<exists>hp'. HeapPush mem hp x = Some (0, hp') \<and> is_heap cmp key hp' \<and> heap_elems hp' = add_mset x (heap_elems hp)"
proof -
  let ?v = "heap_vector hp"
  have h: "vec_inv ?v" "0 < vec_capacity ?v" "compare_fn hp = cmp" "heap_ordered key (vec_abs ?v)"
    using H by (simp_all add: is_heap_def)
  obtain v1 where v1: "VectorPushBack mem ?v x = Some (0, v1)" "vec_inv v1" "vec_abs v1 = vec_abs ?v @ [x]"
    "vec_capacity v1 = (if vec_len ?v = vec_capacity ?v then 2 * vec_capacity ?v else vec_capacity ?v)"
    using VectorPushBack_ok [OF h(1,2) room mem] by blast
  let ?n = "vec_len ?v"
  have n: "length (vec_abs ?v) = ?n" "vec_len v1 = Suc ?n"
    using vec_facts(6) [OF h(1)] vec_facts(6) [OF v1(2)] v1(3) by simp_all
  have at: "vec_abs v1 ! ?n = x" "?n < vec_len v1"
    using v1(3) n nth_append_length [of "vec_abs ?v" x "[]"] by simp_all
  obtain v' where v': "up_loop cmp x v1 ?n (GetParent ?n) = Some v'" "vec_inv v'" "vec_len v' = vec_len v1"
    "vec_capacity v' = vec_capacity v1" "mset (vec_abs v') = mset (vec_abs v1)"
    "ordered_above key (vec_abs v1) ?n \<longrightarrow> heap_ordered key (vec_abs v')"
    using up_loop_spec [OF v1(2) at(2,1)] by blast
  have "ordered_above key (vec_abs v1) ?n"
    unfolding ordered_above_def
  proof (intro conjI allI impI)
    fix j assume "j < length (vec_abs v1)" "0 < j \<and> j \<noteq> ?n"
    then show "key (vec_abs v1 ! j) \<le> key (vec_abs v1 ! GetParent j)"
      using h(4) v1(3) n(1) GetParent_less [of j] by (auto simp: nth_append heap_ordered_def)
  next
    fix j assume "j < length (vec_abs v1)" "0 < j \<and> 0 < ?n \<and> GetParent j = ?n"
    then show "key (vec_abs v1 ! j) \<le> key (vec_abs v1 ! GetParent ?n)"
      using v1(3) n(1) GetParent_less [of j] by auto
  qed
  then have "is_heap cmp key (hp\<lparr>heap_vector := v'\<rparr>)" using v' v1(4) h by (simp add: is_heap_def)
  moreover have "HeapPush mem hp x = Some (0, hp\<lparr>heap_vector := v'\<rparr>)"
    using v1(1) v'(1) h(3) n(2) VectorSize_eq [OF v1(2)] vec_facts(3) [OF v1(2)]
    by (simp add: HeapPush_def HeapIfyUp_def szsub_ge)
  ultimately show ?thesis using v'(5) v1(3) by (auto simp: heap_elems_def)
qed

text \<open>Both removals overwrite position \<open>i\<close> with the last element, drop the last cell and sift down.\<close>

lemma replace_by_last:
  assumes v: "vec_inv v" and i: "i < vec_len v" and hp: "compare_fn hp = cmp" "heap_vector hp = v"
    and that: "i < vec_len v - 1 \<or> i = 0"
  defines "x \<equiv> last (vec_abs v)"
  shows "\<exists>v1 v2 v'. VectorGetElement v (vec_len v) = Some x \<and> VectorSetElement v x (i + 1) = Some v1
    \<and> VectorPopBack v1 = Some v2 \<and> HeapIfyDown (hp\<lparr>heap_vector := v2\<rparr>) i x = Some (hp\<lparr>heap_vector := v'\<rparr>)
    \<and> vec_inv v' \<and> vec_capacity v' = vec_capacity v
    \<and> add_mset (vec_abs v ! i) (mset (vec_abs v')) = mset (vec_abs v)
    \<and> (heap_ordered key (vec_abs v) \<and> i = 0 \<longrightarrow> heap_ordered key (vec_abs v'))"
proof -
  note len = vec_facts(6,3) [OF v]
  have ne: "vec_abs v \<noteq> []" using i len by auto
  have xlast: "x = vec_abs v ! (vec_len v - 1)" using ne len by (simp add: x_def last_conv_nth)
  obtain v1 where v1: "VectorSetElement v x (i + 1) = Some v1" "vec_inv v1" "vec_abs v1 = (vec_abs v)[i := x]"
    "vec_len v1 = vec_len v" "vec_capacity v1 = vec_capacity v"
    using VectorSetElement_eq [OF v, of "i + 1" x] i by auto
  obtain v2 where pop: "VectorPopBack v1 = Some v2" and v2: "vec_inv v2" "vec_abs v2 = butlast ((vec_abs v)[i := x])"
    "vec_len v2 = vec_len v - 1" "vec_capacity v2 = vec_capacity v"
    using VectorPopBack_eq [OF v1(2)] v1 i by auto
  have g: "VectorGetElement v (vec_len v) = Some x"
    using VectorGetElement_eq [OF v, of "vec_len v"] i xlast by simp
  show ?thesis
  proof (cases "i < vec_len v - 1")
    case True
    have at: "i < vec_len v2" "vec_abs v2 ! i = x" using True v2 len by (simp_all add: nth_butlast)
    obtain v' where v': "HeapIfyDown (hp\<lparr>heap_vector := v2\<rparr>) i x = Some (hp\<lparr>heap_vector := v2\<rparr>\<lparr>heap_vector := v'\<rparr>)"
      "vec_inv v'" "vec_len v' = vec_len v2" "vec_capacity v' = vec_capacity v2" "mset (vec_abs v') = mset (vec_abs v2)"
      "ordered_below key (vec_abs v2) i \<longrightarrow> heap_ordered key (vec_abs v')"
      using HeapIfyDown_spec [OF v2(1) at, of "hp\<lparr>heap_vector := v2\<rparr>"] hp by auto
    obtain ys where ys: "vec_abs v = ys @ [x]" using ne x_def by (metis append_butlast_last_id)
    have iy: "i < length ys" using True len ys by simp
    then have b: "vec_abs v2 = ys[i := x]" using v2(2) ys by (simp add: list_update_append)
    have "add_mset (ys ! i) (mset (ys[i := x])) = add_mset x (mset ys)"
      using iy by (simp add: mset_update)
    then have "add_mset (vec_abs v ! i) (mset (vec_abs v')) = mset (vec_abs v)"
      using v'(5) b ys iy by (simp add: nth_append)
    moreover have "heap_ordered key (vec_abs v) \<and> i = 0 \<longrightarrow> ordered_below key (vec_abs v2) i"
    proof (intro impI)
      assume ho: "heap_ordered key (vec_abs v) \<and> i = 0"
      have "key (ys ! j) \<le> key (ys ! GetParent j)" if "j < length ys" "0 < j" for j
      proof -
        have "key (vec_abs v ! j) \<le> key (vec_abs v ! GetParent j)" using ho that ys by (simp add: heap_ordered_def)
        then show ?thesis using that ys GetParent_less [of j] by (simp add: nth_append)
      qed
      then show "ordered_below key (vec_abs v2) i"
        using ho GetParent_less unfolding b ordered_below_def by (auto simp: nth_list_update)
    qed
    ultimately show ?thesis using g v1(1) pop v' v2(4) by auto
  next
    case False
    then have one: "vec_len v = 1" "i = 0" using that i by auto
    then have e: "vec_abs v2 = []" "vec_len v2 = 0" "vec_abs v = [x]"
      using v2 len xlast by (auto simp: length_Suc_conv)
    have "HeapIfyDown (hp\<lparr>heap_vector := v2\<rparr>) i x = Some (hp\<lparr>heap_vector := v2\<rparr>)"
      using VectorSize_eq [OF v2(1)] e(2) one
      by (simp add: HeapIfyDown_def GetBigChild_def GET_CHILD1_def GET_CHILD2_def down_loop.simps)
    then show ?thesis using g v1(1) pop v2 e one
      by (intro exI [of _ v1] exI [of _ v2] exI [of _ v2]) (simp add: heap_ordered_def)
  qed
qed

lemma heap_ordered_max: "heap_ordered key xs \<Longrightarrow> j < length xs \<Longrightarrow> key (xs ! j) \<le> key (xs ! 0)"
proof (induction j rule: less_induct)
  case (less j)
  show ?case
  proof (cases "j = 0")
    case False
    then have "GetParent j < j" by (simp add: GetParent_less)
    then have "key (xs ! GetParent j) \<le> key (xs ! 0)" using less by simp
    moreover have "key (xs ! j) \<le> key (xs ! GetParent j)" using less.prems False by (simp add: heap_ordered_def)
    ultimately show ?thesis by simp
  qed simp
qed

lemma HeapPop_spec:
  assumes H: "is_heap cmp key hp" and ne: "heap_elems hp \<noteq> {#}"
  shows "\<exists>x hp'. HeapPeek hp = Some x \<and> HeapPop hp = Some hp' \<and> is_heap cmp key hp'
    \<and> heap_elems hp = add_mset x (heap_elems hp') \<and> (\<forall>y \<in># heap_elems hp'. key y \<le> key x)"
proof -
  let ?v = "heap_vector hp"
  have h: "vec_inv ?v" "0 < vec_capacity ?v" "compare_fn hp = cmp" "heap_ordered key (vec_abs ?v)"
    using H by (simp_all add: is_heap_def)
  note len = vec_facts(6) [OF h(1)]
  have pos: "0 < vec_len ?v" using ne len by (cases "vec_abs ?v"; simp add: heap_elems_def)
  obtain v1 v2 v' where v: "VectorGetElement ?v (vec_len ?v) = Some (last (vec_abs ?v))"
    "VectorSetElement ?v (last (vec_abs ?v)) (0 + 1) = Some v1" "VectorPopBack v1 = Some v2"
    "HeapIfyDown (hp\<lparr>heap_vector := v2\<rparr>) 0 (last (vec_abs ?v)) = Some (hp\<lparr>heap_vector := v'\<rparr>)"
    "vec_inv v'" "vec_capacity v' = vec_capacity ?v"
    "add_mset (vec_abs ?v ! 0) (mset (vec_abs v')) = mset (vec_abs ?v)"
    "heap_ordered key (vec_abs ?v) \<and> (0::nat) = 0 \<longrightarrow> heap_ordered key (vec_abs v')"
    using replace_by_last [OF h(1) pos h(3) refl] by auto
  have "HeapPop hp = Some (hp\<lparr>heap_vector := v'\<rparr>)" using v(1-4) VectorSize_eq [OF h(1)] by (simp add: HeapPop_def)
  moreover have "HeapPeek hp = Some (vec_abs ?v ! 0)"
    using VectorGetElement_eq [OF h(1), of 1] pos by (simp add: HeapPeek_def)
  moreover have "is_heap cmp key (hp\<lparr>heap_vector := v'\<rparr>)" using v h by (simp add: is_heap_def)
  moreover have "\<forall>y \<in> set (vec_abs ?v). key y \<le> key (vec_abs ?v ! 0)"
    using heap_ordered_max [OF h(4)] by (metis in_set_conv_nth)
  moreover have "set_mset (mset (vec_abs v')) \<subseteq> set (vec_abs ?v)" using v(7) by (metis set_mset_add_mset_insert set_mset_mset subset_insertI)
  ultimately show ?thesis using v(7) by (auto simp: heap_elems_def)
qed

end


section \<open>The comparison of the unit test\<close>

definition CmpFun :: "int \<Rightarrow> int \<Rightarrow> int" where
  "CmpFun data data_to_compare = data - data_to_compare"

interpretation int_heap: key_comparison CmpFun "\<lambda>x. x"
  by unfold_locales (simp_all add: CmpFun_def)

section \<open>Properties of the heap\<close>

text \<open>C5. A heap whose comparison function orders a key: pushing (with memory when the vector is full)
  adds the element and keeps the heap order, as long as the heap has fewer than \<open>2 ^ 31 - 1\<close> elements (the
  vector counts them in an \<open>int\<close>); peeking then popping a non-empty heap returns and removes an element of
  largest key and keeps the heap order; an empty heap answers that it is empty.\<close>

theorem HeapPush_HeapPop:
  assumes "key_comparison cmp key" and "is_heap cmp key hp"
  shows "(size (heap_elems hp) < 2 ^ 31 - 1 \<longrightarrow>
      (\<exists>hp'. HeapPush True hp x = Some (0, hp') \<and> is_heap cmp key hp' \<and> heap_elems hp' = add_mset x (heap_elems hp)))
    \<and> (if heap_elems hp = {#} then HeapIsEmpty hp = Some True
       else \<exists>m hp'. HeapPeek hp = Some m \<and> HeapPop hp = Some hp' \<and> is_heap cmp key hp'
         \<and> heap_elems hp = add_mset m (heap_elems hp') \<and> (\<forall>y \<in># heap_elems hp'. key y \<le> key m))"
proof (rule conjI)
  have v: "vec_inv (heap_vector hp)" using assms(2) by (simp add: is_heap_def)
  then have "size (heap_elems hp) = vec_len (heap_vector hp)" using vec_facts(6) by (simp add: heap_elems_def)
  then show "size (heap_elems hp) < 2 ^ 31 - 1 \<longrightarrow>
      (\<exists>hp'. HeapPush True hp x = Some (0, hp') \<and> is_heap cmp key hp' \<and> heap_elems hp' = add_mset x (heap_elems hp))"
    using key_comparison.HeapPush_spec [OF assms(1,2)] by simp
  have "HeapIsEmpty hp = Some True" if e: "heap_elems hp = {#}"
  proof -
    have "vec_len (heap_vector hp) = 0" using vec_facts(6) [OF v] e by (simp add: heap_elems_def)
    then show ?thesis using VectorSize_eq [OF v] by (simp add: HeapIsEmpty_def)
  qed
  then show "if heap_elems hp = {#} then HeapIsEmpty hp = Some True
       else \<exists>m hp'. HeapPeek hp = Some m \<and> HeapPop hp = Some hp' \<and> is_heap cmp key hp'
         \<and> heap_elems hp = add_mset m (heap_elems hp') \<and> (\<forall>y \<in># heap_elems hp'. key y \<le> key m)"
    using key_comparison.HeapPop_spec [OF assms(1,2)] by (simp add: if_split)
qed

definition heap_example :: "int Heap" where
  "heap_example = \<lparr>heap_vector = \<lparr>vec_elements = [Some 9, Some 4, Some 7, None], vec_capacity = 4, vec_pointer = 2\<rparr>,
     compare_fn = CmpFun\<rparr>"

lemma heap_example: "is_heap CmpFun (\<lambda>x. x) heap_example" "heap_elems heap_example = {#9, 4, 7#}"
proof -
  have abs: "vec_abs (heap_vector heap_example) = [9, 4, 7]"
    by (simp add: heap_example_def vec_abs_def vec_len_def)
  have inv: "vec_inv (heap_vector heap_example) \<and> vec_abs (heap_vector heap_example) = [9, 4, 7] \<and> vec_len (heap_vector heap_example) = 3"
    by (rule vec_invI) (auto simp: heap_example_def numeral_3_eq_3 less_Suc_eq)
  have "heap_ordered (\<lambda>x. x) [9, 4, 7 :: int]"
    by (simp add: heap_ordered_def GetParent_def All_less_Suc)
  then show "is_heap CmpFun (\<lambda>x. x) heap_example" using inv by (simp add: is_heap_def heap_example_def)
  show "heap_elems heap_example = {#9, 4, 7#}" by (simp add: heap_elems_def abs)
qed

theorem HeapPush_HeapPop_witness:
  "(\<exists>hp'. HeapPush True heap_example 5 = Some (0, hp') \<and> is_heap CmpFun (\<lambda>x. x) hp' \<and> heap_elems hp' = {#5, 9, 4, 7#})
   \<and> (\<exists>m hp'. HeapPeek heap_example = Some m \<and> HeapPop heap_example = Some hp' \<and> is_heap CmpFun (\<lambda>x. x) hp'
     \<and> {#9, 4, 7#} = add_mset m (heap_elems hp') \<and> (\<forall>y \<in># heap_elems hp'. y \<le> m))"
proof -
  have ne: "{#9, 4, 7#} \<noteq> ({#} :: int multiset)" and n: "size {#9, 4, 7 :: int#} < 2 ^ 31 - 1" by simp_all
  note P = HeapPush_HeapPop [OF int_heap.key_comparison_axioms heap_example(1), of 5]
  from P show ?thesis unfolding heap_example(2) if_not_P [OF ne] using n by blast
qed

lemma remove_scan_spec:
  "\<lbrakk>vec_inv v; r < vec_len v\<rbrakk> \<Longrightarrow>
   \<exists>i. remove_scan v (vec_len v) mf k r = Some (Suc i, vec_abs v ! i) \<and> r \<le> i \<and> i < vec_len v
     \<and> (\<forall>j. r \<le> j \<and> j < i \<longrightarrow> mf (vec_abs v ! j) k \<noteq> 0) \<and> (Suc i < vec_len v \<longrightarrow> mf (vec_abs v ! i) k = 0)"
proof (induction "vec_len v - r" arbitrary: r rule: less_induct)
  case less
  have g: "VectorGetElement v (Suc r) = Some (vec_abs v ! r)"
    using VectorGetElement_eq [OF less.prems(1), of "Suc r"] less.prems(2) by simp
  show ?case
  proof (cases "Suc r < vec_len v \<and> mf (vec_abs v ! r) k \<noteq> 0")
    case True
    then obtain i where i: "remove_scan v (vec_len v) mf k (Suc r) = Some (Suc i, vec_abs v ! i)" "Suc r \<le> i" "i < vec_len v"
      "\<forall>j. Suc r \<le> j \<and> j < i \<longrightarrow> mf (vec_abs v ! j) k \<noteq> 0" "Suc i < vec_len v \<longrightarrow> mf (vec_abs v ! i) k = 0"
      using less.hyps [of "Suc r"] less.prems by (auto simp: diff_less_mono2)
    have "mf (vec_abs v ! j) k \<noteq> 0" if "r \<le> j" "j < i" for j
      using that i(4) True by (cases "j = r") auto
    then show ?thesis using i True g by (subst remove_scan.simps) auto
  next
    case False
    then show ?thesis using g less.prems(2) by (subst remove_scan.simps) (auto intro!: exI [of _ r])
  qed
qed

text \<open>\<open>HeapRemove\<close> takes out the first element that matches among all but the last one, and
  removes exactly it; it returns NULL and leaves the heap alone when no element before the last
  matches, even if the last one does.\<close>


theorem HeapRemove_first_match:
  assumes "key_comparison cmp key" and "is_heap cmp key hp" and "heap_elems hp \<noteq> {#}"
  shows "\<exists>i hp'. let xs = vec_abs (heap_vector hp) in
    i < length xs \<and> (\<forall>j < i. match_func (xs ! j) k \<noteq> 0)
    \<and> (if Suc i < length xs
       then match_func (xs ! i) k = 0 \<and> HeapRemove hp match_func k = Some (Some (xs ! i), hp')
         \<and> vec_inv (heap_vector hp') \<and> add_mset (xs ! i) (heap_elems hp') = heap_elems hp
       else HeapRemove hp match_func k = Some (None, hp))"
proof -
  let ?v = "heap_vector hp"
  have h: "vec_inv ?v" "compare_fn hp = cmp" using assms(2) by (simp_all add: is_heap_def)
  note len = vec_facts(6) [OF h(1)] and s = VectorSize_eq [OF h(1)]
  have pos: "0 < vec_len ?v" using assms(3) len by (cases "vec_abs ?v"; simp add: heap_elems_def)
  obtain i where i: "remove_scan ?v (vec_len ?v) match_func k 0 = Some (Suc i, vec_abs ?v ! i)" "i < vec_len ?v"
    "\<forall>j. 0 \<le> j \<and> j < i \<longrightarrow> match_func (vec_abs ?v ! j) k \<noteq> 0"
    "Suc i < vec_len ?v \<longrightarrow> match_func (vec_abs ?v ! i) k = 0"
    using remove_scan_spec [OF h(1) pos, of match_func k] by blast
  show ?thesis
  proof (cases "Suc i < vec_len ?v")
    case False
    then have "HeapRemove hp match_func k = Some (None, hp)" using i s by (simp add: HeapRemove_def)
    then show ?thesis using i False len by (auto simp: Let_def)
  next
    case True
    then have "i < vec_len ?v - 1 \<or> i = 0" by auto
    then obtain v1 v2 v' where v: "VectorGetElement ?v (vec_len ?v) = Some (last (vec_abs ?v))"
      "VectorSetElement ?v (last (vec_abs ?v)) (i + 1) = Some v1" "VectorPopBack v1 = Some v2"
      "HeapIfyDown (hp\<lparr>heap_vector := v2\<rparr>) i (last (vec_abs ?v)) = Some (hp\<lparr>heap_vector := v'\<rparr>)"
      "vec_inv v'" "add_mset (vec_abs ?v ! i) (mset (vec_abs v')) = mset (vec_abs ?v)"
      using key_comparison.replace_by_last [OF assms(1) h(1) i(2) h(2) refl] by auto
    have "HeapRemove hp match_func k = Some (Some (vec_abs ?v ! i), hp\<lparr>heap_vector := v'\<rparr>)"
      using i(1) v(1-4) s True by (simp add: HeapRemove_def)
    then show ?thesis using i True len v
      by (intro exI [of _ i] exI [of _ "hp\<lparr>heap_vector := v'\<rparr>"]) (simp add: Let_def heap_elems_def)
  qed
qed

definition same_int :: "int \<Rightarrow> int \<Rightarrow> int" where
  "same_int a b = (if a = b then 0 else 1)"

theorem HeapRemove_first_match_witness:
  "\<exists>i hp'. i < 3 \<and> (\<forall>j < i. same_int ([9, 4, 7] ! j) 4 \<noteq> 0)
    \<and> (if Suc i < 3
       then same_int ([9, 4, 7] ! i) 4 = 0 \<and> HeapRemove heap_example same_int 4 = Some (Some ([9, 4, 7] ! i), hp')
         \<and> vec_inv (heap_vector hp') \<and> add_mset ([9, 4, 7] ! i) (heap_elems hp') = {#9, 4, 7#}
       else HeapRemove heap_example same_int 4 = Some (None, heap_example))"
proof -
  have ne: "heap_elems heap_example \<noteq> {#}" by (simp add: heap_example(2))
  have a: "vec_abs (heap_vector heap_example) = [9, 4, 7]" "length [9, 4, 7::int] = 3"
    by (simp_all add: heap_example_def vec_abs_def vec_len_def)
  show ?thesis
    using HeapRemove_first_match [OF int_heap.key_comparison_axioms heap_example(1) ne, of same_int 4]
    unfolding a(1) Let_def a(2) heap_example(2) .
qed

text \<open>The order is not always kept: the last element moved into the hole is sifted down only, and may
  be larger than its new parent.\<close>

definition heap_broken_by_remove :: "int Heap" where
  "heap_broken_by_remove = \<lparr>heap_vector = \<lparr>vec_elements = map Some [10, 5, 9, 1, 2, 8, 7], vec_capacity = 7, vec_pointer = 6\<rparr>,
     compare_fn = CmpFun\<rparr>"

lemmas heap_eval = HeapRemove_def remove_scan.simps VectorGetElement_def VectorSetElement_def VectorSize_def to_size_def
  int32_def szsub_def cget_def aget_def aset_def HeapIfyDown_def GetBigChild_def GET_CHILD1_def GET_CHILD2_def VectorPopBack_def
  down_loop.simps SwapByIndex_def

lemma HeapRemove_breaks_order:
  "\<exists>hp'. HeapRemove heap_broken_by_remove same_int 1 = Some (Some 1, hp')
     \<and> vec_abs (heap_vector hp') = [10, 5, 9, 7, 2, 8] \<and> \<not> heap_ordered (\<lambda>x. x) (vec_abs (heap_vector hp'))"
  by (simp add: heap_broken_by_remove_def heap_eval same_int_def CmpFun_def vec_abs_def vec_len_def)
    (auto simp: heap_ordered_def GetParent_def eval_nat_numeral intro!: exI [of _ "3 :: nat"])

end
