(* ===== verification/HeapPQ.thy ===== *)
theory HeapPQ
  imports Heap PQInterface
begin

text \<open>
  The second implementation of the priority queue, \<open>ds/pqueue/heap_PQ.c\<close>, on the heap. Its functions
  have the names of those of \<open>pqueue.c\<close>; here they carry the suffix \<open>_heap\<close>.
\<close>

record 'v PQueue_heap =
  queue_heap :: "'v Heap"

definition PQCreate_heap :: "bool \<Rightarrow> bool \<Rightarrow> bool \<Rightarrow> bool \<Rightarrow> ('v \<Rightarrow> 'v \<Rightarrow> int) \<Rightarrow> 'v PQueue_heap option" where
  "PQCreate_heap mem mem0 mem1 mem2 f =
     (if \<not> mem then None
      else case HeapCreate mem0 mem1 mem2 f of None \<Rightarrow> None | Some hp \<Rightarrow> Some \<lparr>queue_heap = hp\<rparr>)"

definition PQSize_heap :: "'v PQueue_heap \<Rightarrow> nat option" where
  "PQSize_heap q = HeapSize (queue_heap q)"

definition PQIsEmpty_heap :: "'v PQueue_heap \<Rightarrow> bool option" where
  "PQIsEmpty_heap q = HeapIsEmpty (queue_heap q)"

definition PQEnpqueue_heap :: "bool \<Rightarrow> 'v PQueue_heap \<Rightarrow> 'v \<Rightarrow> (int \<times> 'v PQueue_heap) option" where
  "PQEnpqueue_heap mem q data = do { (r, hp) \<leftarrow> HeapPush mem (queue_heap q) data; Some (r, q\<lparr>queue_heap := hp\<rparr>) }"

definition PQPeek_heap :: "'v PQueue_heap \<Rightarrow> 'v option" where
  "PQPeek_heap q = HeapPeek (queue_heap q)"

definition PQDepqueue_heap :: "'v PQueue_heap \<Rightarrow> ('v \<times> 'v PQueue_heap) option" where
  "PQDepqueue_heap q = do {
     data \<leftarrow> HeapPeek (queue_heap q);
     hp \<leftarrow> HeapPop (queue_heap q);
     Some (data, q\<lparr>queue_heap := hp\<rparr>)
   }"

partial_function (option) PQClear_heap :: "'v PQueue_heap \<Rightarrow> 'v PQueue_heap option" where
  "PQClear_heap q = do {
     e \<leftarrow> PQIsEmpty_heap q;
     if e then Some q
     else do {
       (_, q) \<leftarrow> PQDepqueue_heap q;
       PQClear_heap q
     }
   }"

definition PQErase_heap :: "'v PQueue_heap \<Rightarrow> ('v \<Rightarrow> 'k \<Rightarrow> int) \<Rightarrow> 'k \<Rightarrow> ('v option \<times> 'v PQueue_heap) option" where
  "PQErase_heap q is_match key = do {
     (d, hp) \<leftarrow> HeapRemove (queue_heap q) is_match key;
     Some (d, q\<lparr>queue_heap := hp\<rparr>)
   }"

section \<open>The interface\<close>

definition hpq_rep :: "('v \<Rightarrow> 'v \<Rightarrow> int) \<Rightarrow> ('v \<Rightarrow> int) \<Rightarrow> 'v PQueue_heap \<Rightarrow> 'v multiset \<Rightarrow> bool" where
  "hpq_rep cmp key q M \<longleftrightarrow> is_heap cmp key (queue_heap q) \<and> heap_elems (queue_heap q) = M"

definition hpq_can_push :: "bool \<Rightarrow> 'v PQueue_heap \<Rightarrow> bool" where
  "hpq_can_push mem q \<longleftrightarrow> (let v = heap_vector (queue_heap q) in
     vec_len v < 2 ^ 31 - 1 \<and> (vec_len v = vec_capacity v \<longrightarrow> mem))"

definition hpq_push :: "bool \<Rightarrow> 'v PQueue_heap \<Rightarrow> 'v \<Rightarrow> (int \<times> 'v PQueue_heap) option" where
  "hpq_push mem q v = PQEnpqueue_heap mem q v"

definition hpq_empty :: "'v PQueue_heap \<Rightarrow> bool option" where
  "hpq_empty q = PQIsEmpty_heap q"

lemma HeapIsEmpty_iff:
  assumes "is_heap cmp key hp"
  shows "HeapIsEmpty hp = Some (heap_elems hp = {#})"
proof -
  have v: "vec_inv (heap_vector hp)" using assms by (simp add: is_heap_def)
  show ?thesis using vec_facts(6) [OF v] VectorSize_eq [OF v]
    by (cases "vec_abs (heap_vector hp)") (simp_all add: HeapIsEmpty_def heap_elems_def)
qed

text \<open>Any comparison of keys makes the heap queue an instance of the queue interface.\<close>

sublocale key_comparison \<subseteq> heap_pq: priority_queue "hpq_rep cmp key" UNIV hpq_can_push hpq_push PQDepqueue_heap
  hpq_empty "\<lambda>x y. key y \<le> key x"
proof unfold_locales
  fix q M x m assume "hpq_rep cmp key q M" "hpq_can_push m q"
  then show "\<exists>q'. hpq_push m q x = Some (0, q') \<and> hpq_rep cmp key q' (add_mset x M)"
    using HeapPush_spec [of "queue_heap q" m x]
    by (auto simp: hpq_rep_def hpq_can_push_def hpq_push_def PQEnpqueue_heap_def Let_def)
next
  fix q M assume q: "hpq_rep cmp key q M" "M \<noteq> {#}"
  then obtain x hp where "HeapPeek (queue_heap q) = Some x" "HeapPop (queue_heap q) = Some hp" "is_heap cmp key hp"
    "M = add_mset x (heap_elems hp)" "\<forall>y \<in># heap_elems hp. key y \<le> key x"
    using HeapPop_spec [of "queue_heap q"] by (auto simp: hpq_rep_def)
  then show "\<exists>x q' M'. PQDepqueue_heap q = Some (x, q') \<and> M = add_mset x M' \<and> hpq_rep cmp key q' M' \<and> (\<forall>y \<in># M'. key y \<le> key x)"
    by (auto simp: PQDepqueue_heap_def hpq_rep_def)
next
  fix q M assume "hpq_rep cmp key q M"
  then show "hpq_empty q = Some (M = {#})"
    using HeapIsEmpty_iff by (auto simp: hpq_rep_def hpq_empty_def PQIsEmpty_heap_def)
qed

context key_comparison
begin

lemma hpq_pops_ordered:
  "hpq_rep cmp key q M \<Longrightarrow> \<exists>xs q'. pop_times PQDepqueue_heap (size M) q = Some (xs, q') \<and> mset xs = M
     \<and> sorted_wrt (\<lambda>x y. key y \<le> key x) xs \<and> hpq_rep cmp key q' {#}"
  by (rule heap_pq.pop_times_ordered)

lemma PQClear_heap_ends: "hpq_rep cmp key q M \<Longrightarrow> \<exists>q'. PQClear_heap q = Some q' \<and> hpq_rep cmp key q' {#}"
  by (rule heap_pq.clearing_loop_ends) (simp_all add: PQClear_heap.simps hpq_empty_def)

lemma hpq_push_all:
  "hpq_rep cmp key q M \<Longrightarrow> size M + length xs < 2 ^ 31 \<Longrightarrow>
   \<exists>q'. push_all hpq_push (map (Pair True) xs) q = Some q' \<and> hpq_rep cmp key q' (M + mset xs)"
proof (induction xs arbitrary: q M)
  case (Cons x xs)
  let ?v = "heap_vector (queue_heap q)"
  have "vec_inv ?v" "heap_elems (queue_heap q) = M" using Cons.prems(1) by (simp_all add: hpq_rep_def is_heap_def)
  then have "vec_len ?v = size M" using vec_facts(6) [of ?v] by (auto simp: heap_elems_def)
  then have "hpq_can_push True q" using Cons.prems(2) by (simp add: hpq_can_push_def)
  then obtain q1 where q1: "hpq_push True q x = Some (0, q1)" "hpq_rep cmp key q1 (add_mset x M)"
    using heap_pq.push_adds [OF Cons.prems(1)] by blast
  then show ?case using Cons.IH [OF q1(2)] Cons.prems(2) by auto
qed simp

end

lemma PQCreate_heap_rep:
  "\<exists>q. PQCreate_heap True True True True cmp = Some q \<and> hpq_rep cmp key q {#}"
proof -
  obtain v where v: "VectorCreate True True 7 = Some (v :: 'a Vector)" "vec_inv v" "vec_abs v = []" "vec_capacity v = 7"
    using VectorCreate_inv [of 7] by (auto simp: VectorCreate_def)
  then show ?thesis
    by (auto simp: PQCreate_heap_def HeapCreate_def hpq_rep_def is_heap_def heap_elems_def heap_ordered_def)
qed

section \<open>Properties\<close>

text \<open>C6. Creating a heap-based priority queue (memory never runs out), enqueuing any list of fewer than
  \<open>2 ^ 31\<close> elements and dequeuing as many times returns exactly these elements in descending order of
  key and leaves the queue empty; clearing instead always ends with an empty queue.\<close>

theorem PQDepqueue_heap_ordered:
  assumes "key_comparison cmp key" and "length vs < 2 ^ 31"
  shows "\<exists>q0 q xs q'. PQCreate_heap True True True True cmp = Some q0
    \<and> push_all hpq_push (map (Pair True) vs) q0 = Some q
    \<and> pop_times PQDepqueue_heap (length vs) q = Some (xs, q') \<and> mset xs = mset vs
    \<and> sorted_wrt (\<lambda>x y. key y \<le> key x) xs \<and> PQIsEmpty_heap q' = Some True
    \<and> (\<exists>q'. PQClear_heap q = Some q' \<and> PQIsEmpty_heap q' = Some True)"
proof -
  have e: "PQIsEmpty_heap q' = Some True" if "hpq_rep cmp key q' {#}" for q'
    using that HeapIsEmpty_iff [of cmp key "queue_heap q'"] by (simp add: hpq_rep_def PQIsEmpty_heap_def)
  obtain q0 where c: "PQCreate_heap True True True True cmp = Some q0" "hpq_rep cmp key q0 {#}"
    using PQCreate_heap_rep by blast
  obtain q where p: "push_all hpq_push (map (Pair True) vs) q0 = Some q" "hpq_rep cmp key q (mset vs)"
    using key_comparison.hpq_push_all [OF assms(1) c(2), of vs] assms(2) by auto
  obtain xs q' where x: "pop_times PQDepqueue_heap (length vs) q = Some (xs, q')" "mset xs = mset vs"
    "sorted_wrt (\<lambda>x y. key y \<le> key x) xs" "hpq_rep cmp key q' {#}"
    using key_comparison.hpq_pops_ordered [OF assms(1) p(2)] by auto
  then show ?thesis using c(1) p e key_comparison.PQClear_heap_ends [OF assms(1) p(2)] by blast
qed

theorem PQDepqueue_heap_ordered_witness:
  "\<exists>q0 q xs q'. PQCreate_heap True True True True CmpFun = Some q0
    \<and> push_all hpq_push [(True, 4), (True, 9), (True, 7)] q0 = Some q
    \<and> pop_times PQDepqueue_heap 3 q = Some (xs, q') \<and> mset xs = {#4, 9, 7#} \<and> sorted_wrt (\<ge>) xs"
proof -
  have "length [4, 9, 7 :: int] < 2 ^ 31" by simp
  from PQDepqueue_heap_ordered [OF int_heap.key_comparison_axioms this] show ?thesis
    by (auto simp: numeral_3_eq_3)
qed

end
