(* ===== verification/Task.thy ===== *)
theory Task
  imports Prelude "HOL-Library.Word"
begin

text \<open>
  Unique identifiers (\<open>ds/uid/uid.c\<close>) and tasks (\<open>ds/task/task.c\<close>). The process id and the clock come
  from the operating system and are arguments; the static counter is a state that is passed along.
  The code of an action is represented by a name of type \<open>'a\<close>, its parameter by a value of type
  \<open>'p\<close>; the scheduler's run is told what an activation does.
\<close>

section \<open>Unique identifiers\<close>

record UID =
  uid_pid :: int
  uid_time_stamp :: int
  uid_counter :: nat

definition initial_counter :: nat where
  "initial_counter = 1"

definition UIDCreate :: "int \<Rightarrow> int \<Rightarrow> nat \<Rightarrow> UID \<times> nat" where
  "UIDCreate pid now inner_counter =
     (\<lparr>uid_pid = pid, uid_time_stamp = now, uid_counter = inner_counter\<rparr>, (inner_counter + 1) mod 2 ^ 64)"

definition UIDIsSame :: "UID \<Rightarrow> UID \<Rightarrow> bool" where
  "UIDIsSame one two \<longleftrightarrow> uid_pid one = uid_pid two \<and> uid_time_stamp one = uid_time_stamp two
     \<and> uid_counter one = uid_counter two"

definition UIDGetBadUid :: UID where
  "UIDGetBadUid = \<lparr>uid_pid = 0, uid_time_stamp = 0, uid_counter = 0\<rparr>"

lemma UIDIsSame_eq: "UIDIsSame u v \<longleftrightarrow> u = v"
  by (cases u; cases v) (simp add: UIDIsSame_def)

text \<open>The uids that a process makes with clock readings \<open>ts\<close>.\<close>

fun make_uids :: "int \<Rightarrow> int list \<Rightarrow> nat \<Rightarrow> UID list" where
  "make_uids pid [] c = []"
| "make_uids pid (t # ts) c = (case UIDCreate pid t c of (u, c') \<Rightarrow> u # make_uids pid ts c')"

lemma make_uids_counters:
  "c + length ts \<le> 2 ^ 64 \<Longrightarrow> map uid_counter (make_uids pid ts c) = [c ..< c + length ts]"
proof (induction ts arbitrary: c)
  case (Cons t ts)
  show ?case
  proof (cases ts)
    case (Cons t' ts')
    then have "(c + 1) mod 2 ^ 64 = c + 1" using Cons.prems by simp
    moreover have "map uid_counter (make_uids pid ts (c + 1)) = [c + 1 ..< c + 1 + length ts]"
      using Cons.IH [of "c + 1"] Cons.prems by simp
    moreover have "[c ..< c + length (t # ts)] = c # [c + 1 ..< c + 1 + length ts]"
      by (simp add: upt_conv_Cons del: upt_Suc)
    ultimately show ?thesis by (simp add: UIDCreate_def del: upt_Suc)
  qed (simp add: UIDCreate_def)
qed simp

section \<open>Tasks\<close>

record ('a, 'p) task =
  interval :: nat
  task_data :: 'p
  task_action :: 'a
  time_to_execute :: int
  task_UID :: UID

text \<open>\<open>time(NULL) + interval\<close>: the sum is computed in 64 bits and stored in a signed 64-bit field.\<close>

definition time_plus :: "int \<Rightarrow> nat \<Rightarrow> int" where
  "time_plus now n = sint (word_of_int (now + int n) :: 64 word)"

definition TaskCreate ::
  "bool \<Rightarrow> int \<Rightarrow> int \<Rightarrow> nat \<Rightarrow> nat \<Rightarrow> 'a \<Rightarrow> 'p \<Rightarrow> ('a, 'p) task option \<times> nat" where
  "TaskCreate mem pid now inner_counter n action_func data =
     (if \<not> mem then (None, inner_counter)
      else case UIDCreate pid now inner_counter of
        (u, c) \<Rightarrow> (Some \<lparr>interval = n, task_data = data, task_action = action_func,
                     time_to_execute = time_plus now n, task_UID = u\<rparr>, c))"

definition TaskGetUid :: "('a, 'p) task \<Rightarrow> UID" where
  "TaskGetUid t = task_UID t"

definition TaskGetTimeToExecute :: "('a, 'p) task \<Rightarrow> int" where
  "TaskGetTimeToExecute t = time_to_execute t"

definition TaskSetTimeToExecute :: "int \<Rightarrow> ('a, 'p) task \<Rightarrow> ('a, 'p) task" where
  "TaskSetTimeToExecute now t = t\<lparr>time_to_execute := time_plus now (interval t)\<rparr>"

text \<open>\<open>TaskActivateFunc\<close> calls the action with its data; what the action does to the state \<open>'s\<close> it can
  reach is given by \<open>run_action\<close>.\<close>

definition TaskActivateFunc :: "('a \<Rightarrow> 'p \<Rightarrow> 's \<Rightarrow> (int \<times> 's) option) \<Rightarrow> ('a, 'p) task \<Rightarrow> 's \<Rightarrow> (int \<times> 's) option" where
  "TaskActivateFunc act t s = act (task_action t) (task_data t) s"

lemma time_plus_small:
  assumes "0 \<le> now" "now + int n < 2 ^ 63"
  shows "time_plus now n = now + int n"
proof -
  have "sint (word_of_int (now + int n) :: 64 word) = signed_take_bit 63 (now + int n)"
    by transfer simp
  also have "\<dots> = now + int n" using assms by (intro signed_take_bit_int_eq_self) simp_all
  finally show ?thesis by (simp add: time_plus_def)
qed

section \<open>Properties\<close>

text \<open>The uids a process creates are pairwise different, whatever the clock reads, and none of them
  is the bad uid, as long as the counter starts at 1 and does not wrap.\<close>

theorem make_uids_distinct:
  assumes "length ts < 2 ^ 64"
  shows "pairwise (\<lambda>u v. \<not> UIDIsSame u v) (set (make_uids pid ts initial_counter))
    \<and> distinct (make_uids pid ts initial_counter) \<and> UIDGetBadUid \<notin> set (make_uids pid ts initial_counter)"
proof -
  have c: "map uid_counter (make_uids pid ts 1) = [1 ..< 1 + length ts]"
    by (rule make_uids_counters) (use assms in simp)
  have "distinct (map uid_counter (make_uids pid ts 1))" unfolding c by (rule distinct_upt)
  then have "distinct (make_uids pid ts 1)" by (simp add: distinct_map)
  moreover have "0 \<notin> set (map uid_counter (make_uids pid ts 1))" unfolding c by auto
  then have "UIDGetBadUid \<notin> set (make_uids pid ts 1)" by (force simp: UIDGetBadUid_def)
  ultimately show ?thesis by (auto simp: UIDIsSame_eq pairwise_def initial_counter_def)
qed

theorem make_uids_distinct_witness:
  "distinct (make_uids 77 [100, 100, 100] initial_counter)"
  using make_uids_distinct [of "[100, 100, 100]" 77] by simp

end
