(* ===== verification/Scheduler.thy ===== *)
theory Scheduler
  imports Task PriorityQueue
begin

text \<open>
  The scheduler of \<open>ds/scheduler/scheduler.c\<close> on the list-based priority queue. The state holds the
  store of the queue's nodes, the handle, the stop flag, the uid counter, the clock and a world \<open>'w\<close>
  that the actions change. What an action does, how far the clock has moved on when it is read, when a
  sleep ends and with what result, and which address \<open>malloc\<close> answers are arguments.
\<close>

section \<open>State and operations\<close>

record ('a, 'p, 'w) Scheduler =
  sch_heap :: "('a, 'p) task dheap"
  container :: "('a, 'p) task PQueue"
  stop_flag :: int
  sch_counter :: nat
  clock :: int
  world :: 'w

datatype run_status = FINISH_ALL_WORK | STOPPED | ERROR

text \<open>The difference of two times is converted to \<open>int\<close>, 32 bits. A pointer that is no task is not
  a valid argument of the comparison; the value there is never used.\<close>

definition time_diff :: "int \<Rightarrow> int \<Rightarrow> int" where
  "time_diff a b = sint (word_of_int (a - b + 1) :: 32 word)"

fun ComparFunc :: "('a, 'p) task vptr \<Rightarrow> ('a, 'p) task vptr \<Rightarrow> int" where
  "ComparFunc (Elem task_on_container) (Elem task_to_add) =
     time_diff (TaskGetTimeToExecute task_to_add) (TaskGetTimeToExecute task_on_container)"
| "ComparFunc _ _ = 0"

fun ComparUID :: "('a, 'p) task vptr \<Rightarrow> UID \<Rightarrow> int" where
  "ComparUID (Elem task_on_container) uid = (if UIDIsSame (TaskGetUid task_on_container) uid then 1 else 0)"
| "ComparUID _ _ = 0"

definition SchedulerCreate ::
  "('a, 'p) task dheap \<Rightarrow> int \<Rightarrow> nat \<Rightarrow> int \<Rightarrow> 'w \<Rightarrow> bool \<Rightarrow> bool \<Rightarrow> bool \<Rightarrow> addr option \<Rightarrow> ('a, 'p, 'w) Scheduler option" where
  "SchedulerCreate h garbage c now w mem mem0 mem1 mem2 =
     (if \<not> mem then None
      else case PQCreate h mem0 mem1 mem2 (CmpPtr 1 ComparFunc) of
        (None, h') \<Rightarrow> None
      | (Some q, h') \<Rightarrow> Some \<lparr>sch_heap = h', container = q, stop_flag = garbage, sch_counter = c, clock = now, world = w\<rparr>)"

definition SchedulerSize :: "('a, 'p, 'w) Scheduler \<Rightarrow> nat option" where
  "SchedulerSize s = PQSize (sch_heap s) (container s)"

definition SchedulerIsEmpty :: "('a, 'p, 'w) Scheduler \<Rightarrow> bool option" where
  "SchedulerIsEmpty s = PQIsEmpty (sch_heap s) (container s)"

definition SchedulerAdd ::
  "bool \<Rightarrow> addr option \<Rightarrow> int \<Rightarrow> ('a, 'p, 'w) Scheduler \<Rightarrow> 'a \<Rightarrow> 'p \<Rightarrow> nat \<Rightarrow> (UID \<times> ('a, 'p, 'w) Scheduler) option" where
  "SchedulerAdd mem node_mem pid s action_func param interval_in_sec =
     (case TaskCreate mem pid (clock s) (sch_counter s) interval_in_sec action_func param of
        (None, c) \<Rightarrow> Some (UIDGetBadUid, s\<lparr>sch_counter := c\<rparr>)
      | (Some new_task, c) \<Rightarrow> do {
          (failed, h) \<leftarrow> PQEnpqueue node_mem (sch_heap s) (container s) (Elem new_task);
          let s = s\<lparr>sch_heap := h, sch_counter := c\<rparr>;
          Some (if failed \<noteq> 0 then UIDGetBadUid else TaskGetUid new_task, s)
        })"

definition SchedulerPause :: "('a, 'p, 'w) Scheduler \<Rightarrow> ('a, 'p, 'w) Scheduler" where
  "SchedulerPause s = s\<lparr>stop_flag := 1\<rparr>"

fun as_task :: "('a, 'p) task vptr \<Rightarrow> ('a, 'p) task option" where
  "as_task (Elem t) = Some t"
| "as_task _ = None"

text \<open>Waiting for a task. \<open>os_time w c\<close> is what \<open>time(NULL)\<close> answers when the clock last showed \<open>c\<close>;
  \<open>os_sleep w c n\<close> is the clock after \<open>sleep(n)\<close> called at \<open>c\<close>, with the result of the call (the seconds
  that were left when a signal ended it); both may depend on the world \<open>w\<close>. The code reads the clock for
  the test and again for the argument, which is converted to \<open>unsigned int\<close>, and ignores the result.\<close>

definition wait_for ::
  "('w \<Rightarrow> int \<Rightarrow> int) \<Rightarrow> ('w \<Rightarrow> int \<Rightarrow> nat \<Rightarrow> int \<times> nat) \<Rightarrow> 'w \<Rightarrow> ('a, 'p) task \<Rightarrow> int \<Rightarrow> int" where
  "wait_for os_time os_sleep w exe_task now =
     (let first = os_time w now
      in if 0 < TaskGetTimeToExecute exe_task - first
         then let second = os_time w first
              in fst (os_sleep w second (nat ((TaskGetTimeToExecute exe_task - second) mod 2 ^ 32)))
         else first)"

partial_function (option) run_loop ::
  "('a \<Rightarrow> 'p \<Rightarrow> ('a, 'p, 'w) Scheduler \<Rightarrow> (int \<times> ('a, 'p, 'w) Scheduler) option)
   \<Rightarrow> ('w \<Rightarrow> int \<Rightarrow> int) \<Rightarrow> ('w \<Rightarrow> int \<Rightarrow> nat \<Rightarrow> int \<times> nat)
   \<Rightarrow> (('a, 'p) task dheap \<Rightarrow> addr option) \<Rightarrow> ('a, 'p, 'w) Scheduler \<Rightarrow> (bool \<times> ('a, 'p, 'w) Scheduler) option" where
  "run_loop act os_time os_sleep malloc s = do {
     e \<leftarrow> SchedulerIsEmpty s;
     if \<not> e \<and> stop_flag s = 0 then do {
       (d, h) \<leftarrow> PQDepqueue (sch_heap s) (container s);
       exe_task \<leftarrow> as_task d;
       let s = s\<lparr>sch_heap := h, clock := wait_for os_time os_sleep (world s) exe_task (clock s)\<rparr>;
       (return_status, s) \<leftarrow> TaskActivateFunc act exe_task s;
       if return_status = 0 then do {
         let s = s\<lparr>clock := os_time (world s) (clock s)\<rparr>;
         (failed, h) \<leftarrow> PQEnpqueue (malloc (sch_heap s)) (sch_heap s) (container s)
                          (Elem (TaskSetTimeToExecute (clock s) exe_task));
         if failed \<noteq> 0 then Some (False, s\<lparr>sch_heap := h\<rparr>)
         else run_loop act os_time os_sleep malloc (s\<lparr>sch_heap := h\<rparr>)
       } else run_loop act os_time os_sleep malloc s
     } else Some (True, s)
   }"

definition SchedulerRun ::
  "('a \<Rightarrow> 'p \<Rightarrow> ('a, 'p, 'w) Scheduler \<Rightarrow> (int \<times> ('a, 'p, 'w) Scheduler) option)
   \<Rightarrow> ('w \<Rightarrow> int \<Rightarrow> int) \<Rightarrow> ('w \<Rightarrow> int \<Rightarrow> nat \<Rightarrow> int \<times> nat)
   \<Rightarrow> (('a, 'p) task dheap \<Rightarrow> addr option) \<Rightarrow> ('a, 'p, 'w) Scheduler \<Rightarrow> (run_status \<times> ('a, 'p, 'w) Scheduler) option" where
  "SchedulerRun act os_time os_sleep malloc s = do {
     (ok, s) \<leftarrow> run_loop act os_time os_sleep malloc (s\<lparr>stop_flag := 0\<rparr>);
     if \<not> ok then Some (ERROR, s)
     else do {
       e \<leftarrow> SchedulerIsEmpty s;
       Some (if e then FINISH_ALL_WORK else STOPPED, s)
     }
   }"

definition SchedulerRemove :: "('a, 'p, 'w) Scheduler \<Rightarrow> UID \<Rightarrow> (int \<times> ('a, 'p, 'w) Scheduler) option" where
  "SchedulerRemove s uid = do {
     (d, h) \<leftarrow> PQErase (sch_heap s) (container s) ComparUID uid;
     Some (if d \<noteq> Null then 0 else 1, s\<lparr>sch_heap := h\<rparr>)
   }"

partial_function (option) SchedulerClear :: "('a, 'p, 'w) Scheduler \<Rightarrow> ('a, 'p, 'w) Scheduler option" where
  "SchedulerClear s = do {
     e \<leftarrow> PQIsEmpty (sch_heap s) (container s);
     if e then Some s
     else do {
       (d, h) \<leftarrow> PQDepqueue (sch_heap s) (container s);
       _ \<leftarrow> as_task d;
       SchedulerClear (s\<lparr>sch_heap := h\<rparr>)
     }
   }"

definition SchedulerDestroy :: "('a, 'p, 'w) Scheduler \<Rightarrow> ('a, 'p) task dheap option" where
  "SchedulerDestroy s = do {
     s \<leftarrow> SchedulerClear s;
     PQDestroy (sch_heap s) (container s)
   }"

section \<open>The order of the tasks\<close>

text \<open>Tasks whose times lie within a window that a 32-bit difference can measure.\<close>

definition near :: "int \<Rightarrow> ('a, 'p) task vptr set" where
  "near b = {d. \<exists>t. d = Elem t \<and> b \<le> time_to_execute t \<and> time_to_execute t < b + 2 ^ 31 - 1}"

fun due :: "('a, 'p) task vptr \<Rightarrow> int" where
  "due (Elem t) = time_to_execute t"
| "due _ = 0"

lemma ComparFunc_near:
  assumes "x \<in> near b" "y \<in> near b"
  shows "ComparFunc x y = due y - due x + 1"
proof -
  obtain t u where e: "x = Elem t" "y = Elem u" and
    r: "- (2 ^ 31) \<le> time_to_execute u - time_to_execute t + 1" "time_to_execute u - time_to_execute t + 1 < 2 ^ 31"
    using assms by (auto simp: near_def)
  have "sint (word_of_int (time_to_execute u - time_to_execute t + 1) :: 32 word)
      = signed_take_bit 31 (time_to_execute u - time_to_execute t + 1)"
    by transfer simp
  also have "\<dots> = time_to_execute u - time_to_execute t + 1" using r by (intro signed_take_bit_int_eq_self) simp_all
  finally show ?thesis using e by (simp add: time_diff_def TaskGetTimeToExecute_def)
qed

text \<open>The comparison keeps the insertion contract although its relation, a slack of one second, is
  not transitive.\<close>

interpretation sched_order: pq_order ComparFunc "near b" for b
  by unfold_locales (auto simp: ComparFunc_near)

lemma ComparFunc_slack: "x \<in> near b \<Longrightarrow> y \<in> near b \<Longrightarrow> 0 \<le> ComparFunc x y \<longleftrightarrow> due x \<le> due y + 1"
  by (auto simp: ComparFunc_near)

definition sched_rep :: "int \<Rightarrow> ('a, 'p, 'w) Scheduler \<Rightarrow> ('a, 'p) task vptr multiset \<Rightarrow> bool" where
  "sched_rep b s M \<longleftrightarrow> pq_rep ComparFunc (near b) (sch_heap s, container s) M"

lemma sched_pop:
  assumes "sched_rep b s M" "M \<noteq> {#}"
  shows "\<exists>t h' M'. PQDepqueue (sch_heap s) (container s) = Some (Elem t, h') \<and> M = add_mset (Elem t) M'
    \<and> pq_rep ComparFunc (near b) (h', container s) M' \<and> (\<forall>d \<in># M'. time_to_execute t \<le> due d + 1)"
proof -
  obtain x s' M' where p: "pq_pop (sch_heap s, container s) = Some (x, s')" "M = add_mset x M'"
    "pq_rep ComparFunc (near b) s' M'" "\<forall>y \<in># M'. 0 \<le> ComparFunc x y"
    using sched_order.pq_pop_rep assms unfolding sched_rep_def by blast
  have v: "set_mset M \<subseteq> near b" using assms(1) by (auto simp: sched_rep_def pq_rep_def)
  then obtain t where t: "x = Elem t" using p(2) by (auto simp: near_def)
  obtain h' where h': "PQDepqueue (sch_heap s) (container s) = Some (x, h')" "s' = (h', container s)"
    using p(1) by (auto simp: pq_pop_def bind_eq_Some_conv)
  have "\<forall>d \<in># M'. time_to_execute t \<le> due d + 1"
  proof
    fix d assume "d \<in># M'"
    then have "0 \<le> ComparFunc x d" "x \<in> near b" "d \<in> near b" using p(2,4) v by auto
    then show "time_to_execute t \<le> due d + 1" using ComparFunc_slack t by fastforce
  qed
  then show ?thesis using p h' t by blast
qed

lemma sched_empty: "sched_rep b s M \<Longrightarrow> SchedulerIsEmpty s = Some (M = {#})"
  using sched_order.pq_empty_rep by (fastforce simp: sched_rep_def SchedulerIsEmpty_def pq_empty_def)

section \<open>A run of one-shot tasks\<close>

text \<open>An action that does not touch the queue or the stop flag, returns a non-zero status (the task is
  not to be repeated), does not turn the clock back, and is recorded with its time.\<close>

type_synonym ('a, 'p) log = "('a \<times> 'p \<times> int) list"

definition one_shot :: "('a \<Rightarrow> 'p \<Rightarrow> ('a, 'p, ('a, 'p) log) Scheduler \<Rightarrow> (int \<times> ('a, 'p, ('a, 'p) log) Scheduler) option) \<Rightarrow> bool" where
  "one_shot act \<longleftrightarrow> (\<forall>a p s. \<exists>r c. act a p s = Some (r, s\<lparr>world := world s @ [(a, p, clock s)], clock := c\<rparr>) \<and> r \<noteq> 0 \<and> clock s \<le> c)"

text \<open>What is documented of \<open>time\<close> and \<open>sleep\<close>: the clock counts up, and when \<open>sleep\<close> answers 0 the
  requested time has elapsed. (Otherwise a signal has ended the sleep early.)\<close>

definition clock_laws :: "('w \<Rightarrow> int \<Rightarrow> int) \<Rightarrow> ('w \<Rightarrow> int \<Rightarrow> nat \<Rightarrow> int \<times> nat) \<Rightarrow> bool" where
  "clock_laws os_time os_sleep \<longleftrightarrow> (\<forall>w c. c \<le> os_time w c) \<and> (\<forall>w c n. c \<le> fst (os_sleep w c n))
     \<and> (\<forall>w c n. snd (os_sleep w c n) = 0 \<longrightarrow> c + int n \<le> fst (os_sleep w c n))"

definition never_interrupted :: "('w \<Rightarrow> int \<Rightarrow> nat \<Rightarrow> int \<times> nat) \<Rightarrow> bool" where
  "never_interrupted os_sleep \<longleftrightarrow> (\<forall>w c n. snd (os_sleep w c n) = 0)"

text \<open>The log that a list of tasks leaves when they run in order, and that each has run at or after its
  time.\<close>

definition ran :: "('a, 'p) task list \<Rightarrow> ('a, 'p) log \<Rightarrow> bool" where
  "ran ts l \<longleftrightarrow> list_all2 (\<lambda>t (a, p, c). a = task_action t \<and> p = task_data t) ts l"

definition in_time :: "('a, 'p) task list \<Rightarrow> ('a, 'p) log \<Rightarrow> bool" where
  "in_time ts l \<longleftrightarrow> list_all2 (\<lambda>t (a, p, c). time_to_execute t \<le> c) ts l"

lemma wait_for_later: "clock_laws os_time os_sleep \<Longrightarrow> now \<le> wait_for os_time os_sleep w t now"
proof -
  assume "clock_laws os_time os_sleep"
  then have m: "c \<le> os_time w c" "c \<le> fst (os_sleep w c n)" for c n by (simp_all add: clock_laws_def)
  have "now \<le> fst (os_sleep w (os_time w (os_time w now)) n)" for n
    using m(1) [of now] m(1) [of "os_time w now"] m(2) [of "os_time w (os_time w now)" n] by linarith
  then show ?thesis using m(1) [of now] by (simp add: wait_for_def Let_def)
qed

lemma wait_for_enough:
  assumes "clock_laws os_time os_sleep" "never_interrupted os_sleep" "time_to_execute t - now < 2 ^ 32"
  shows "time_to_execute t \<le> wait_for os_time os_sleep w t now"
proof (cases "0 < time_to_execute t - os_time w now")
  case True
  define second where "second = os_time w (os_time w now)"
  define n where "n = nat ((time_to_execute t - second) mod 2 ^ 32)"
  have w: "wait_for os_time os_sleep w t now = fst (os_sleep w second n)"
    using True by (simp add: wait_for_def TaskGetTimeToExecute_def second_def n_def Let_def)
  have c: "second \<le> fst (os_sleep w second n)" "second + int n \<le> fst (os_sleep w second n)"
    using assms(1,2) unfolding clock_laws_def never_interrupted_def by blast+
  have "now \<le> os_time w now" "os_time w now \<le> second" using assms(1) by (auto simp: clock_laws_def second_def)
  then have "int n = time_to_execute t - second" if "second \<le> time_to_execute t"
    using that assms(3) by (simp add: n_def)
  then show ?thesis using w c by (cases "second \<le> time_to_execute t") auto
qed (simp add: wait_for_def TaskGetTimeToExecute_def)

lemma run_loop_one_shot:
  assumes act: "one_shot act" and cl: "clock_laws os_time os_sleep"
  shows "sched_rep b s M \<Longrightarrow> stop_flag s = 0 \<Longrightarrow>
   \<exists>s' ts l. run_loop act os_time os_sleep malloc s = Some (True, s') \<and> sched_rep b s' {#} \<and> world s' = world s @ l
     \<and> mset (map Elem ts) = M \<and> ran ts l \<and> (never_interrupted os_sleep \<and> b - 2 ^ 31 \<le> clock s \<longrightarrow> in_time ts l)
     \<and> sorted_wrt (\<lambda>t u. time_to_execute t \<le> time_to_execute u + 1) ts"
proof (induction "size M" arbitrary: s M)
  case 0
  then have "run_loop act os_time os_sleep malloc s = Some (True, s)"
    using sched_empty [of b s M] by (subst run_loop.simps) simp
  then show ?case using 0 by (intro exI [of _ s] exI [of _ "[]"]) (simp add: ran_def in_time_def)
next
  case (Suc n)
  then have ne: "M \<noteq> {#}" by auto
  obtain t h' M' where p: "PQDepqueue (sch_heap s) (container s) = Some (Elem t, h')" "M = add_mset (Elem t) M'"
    "pq_rep ComparFunc (near b) (h', container s) M'" "\<forall>d \<in># M'. time_to_execute t \<le> due d + 1"
    using sched_pop [OF Suc.prems(1) ne] by blast
  define w where "w = wait_for os_time os_sleep (world s) t (clock s)"
  let ?s1 = "s\<lparr>sch_heap := h', clock := w\<rparr>"
  obtain r c where a: "act (task_action t) (task_data t) ?s1
      = Some (r, ?s1\<lparr>world := world ?s1 @ [(task_action t, task_data t, clock ?s1)], clock := c\<rparr>)" "r \<noteq> 0" "clock ?s1 \<le> c"
    using act unfolding one_shot_def by blast
  let ?s2 = "?s1\<lparr>world := world ?s1 @ [(task_action t, task_data t, clock ?s1)], clock := c\<rparr>"
  have r2: "sched_rep b ?s2 M'" "stop_flag ?s2 = 0" using p(3) Suc.prems(2) by (simp_all add: sched_rep_def)
  have n: "n = size M'" using Suc.hyps(2) p(2) by simp
  have later: "clock s \<le> clock ?s2" using wait_for_later [OF cl, of "clock s" "world s" t] a(3) by (simp add: w_def)
  have "Elem t \<in> near b" using Suc.prems(1) p(2) by (auto simp: sched_rep_def pq_rep_def)
  then have tn: "time_to_execute t - clock s < 2 ^ 32" if "b - 2 ^ 31 \<le> clock s" using that by (auto simp: near_def)
  obtain s' ts l where i: "run_loop act os_time os_sleep malloc ?s2 = Some (True, s')" "sched_rep b s' {#}" "world s' = world ?s2 @ l"
    "mset (map Elem ts) = M'" "ran ts l" "never_interrupted os_sleep \<and> b - 2 ^ 31 \<le> clock ?s2 \<longrightarrow> in_time ts l"
    "sorted_wrt (\<lambda>t u. time_to_execute t \<le> time_to_execute u + 1) ts"
    using Suc.hyps(1) [OF n r2] by blast
  have "run_loop act os_time os_sleep malloc s = Some (True, s')"
    using sched_empty [OF Suc.prems(1)] ne Suc.prems(2) p(1) a(1,2) i(1)
    by (subst run_loop.simps) (simp add: TaskActivateFunc_def w_def)
  moreover have "world s' = world s @ (task_action t, task_data t, w) # l" using i(3) by simp
  moreover have "mset (map Elem (t # ts)) = M" using i(4) p(2) by simp
  moreover have "ran (t # ts) ((task_action t, task_data t, w) # l)" using i(5) by (simp add: ran_def)
  moreover have "never_interrupted os_sleep \<and> b - 2 ^ 31 \<le> clock s \<longrightarrow> in_time (t # ts) ((task_action t, task_data t, w) # l)"
    using i(6) later wait_for_enough [OF cl _ tn] by (auto simp: in_time_def w_def)
  moreover have "\<forall>u \<in> set ts. time_to_execute t \<le> time_to_execute u + 1"
  proof
    fix u assume "u \<in> set ts"
    then have "Elem u \<in># M'" using i(4) by (metis image_eqI list.set_map set_mset_mset)
    then show "time_to_execute t \<le> time_to_execute u + 1" using p(4) by fastforce
  qed
  then have "sorted_wrt (\<lambda>t u. time_to_execute t \<le> time_to_execute u + 1) (t # ts)" using i(7) by simp
  ultimately show ?case using i(2) by blast
qed

section \<open>Properties\<close>

text \<open>C2. Running a scheduler whose tasks' times lie within one 32-bit window and whose actions do not
  touch the queue or the stop flag, answer that they are not to be repeated and record the time they
  start at: when the clock never goes back and a sleep that answers 0 has lasted as long as requested (the
  documented behaviour of \<open>time\<close> and \<open>sleep\<close>), the run ends with \<open>FINISH_ALL_WORK\<close> and an empty queue, and
  every task has run exactly once, in the order of their times up to one second. If moreover no sleep is
  ended early by a signal and the run starts at most \<open>2 ^ 31\<close> seconds before the window, no task has run
  before its time (the code does not test the result of \<open>sleep\<close>, so a signal makes it run a task early).\<close>

theorem SchedulerRun_one_shot:
  assumes "one_shot act" and "clock_laws os_time os_sleep" and "sched_rep b s M"
  shows "\<exists>s' ts l. SchedulerRun act os_time os_sleep malloc s = Some (FINISH_ALL_WORK, s') \<and> SchedulerIsEmpty s' = Some True
    \<and> world s' = world s @ l \<and> mset (map Elem ts) = M \<and> ran ts l
    \<and> sorted_wrt (\<lambda>t u. time_to_execute t \<le> time_to_execute u + 1) ts
    \<and> (never_interrupted os_sleep \<and> b - 2 ^ 31 \<le> clock s \<longrightarrow> in_time ts l)"
proof -
  have "sched_rep b (s\<lparr>stop_flag := 0\<rparr>) M" using assms(3) by (simp add: sched_rep_def)
  then obtain s' ts l where r: "run_loop act os_time os_sleep malloc (s\<lparr>stop_flag := 0\<rparr>) = Some (True, s')" "sched_rep b s' {#}"
    "world s' = world s @ l" "mset (map Elem ts) = M" "ran ts l"
    "sorted_wrt (\<lambda>t u. time_to_execute t \<le> time_to_execute u + 1) ts"
    "never_interrupted os_sleep \<and> b - 2 ^ 31 \<le> clock s \<longrightarrow> in_time ts l"
    using run_loop_one_shot [OF assms(1,2), of b "s\<lparr>stop_flag := 0\<rparr>" M malloc] by auto
  have "SchedulerRun act os_time os_sleep malloc s = Some (FINISH_ALL_WORK, s')" "SchedulerIsEmpty s' = Some True"
    using r(1) sched_empty [OF r(2)] by (simp_all add: SchedulerRun_def)
  then show ?thesis using r(3-7) by blast
qed

definition task_at :: "int \<Rightarrow> (nat, nat) task" where
  "task_at t = \<lparr>interval = 5, task_data = 0, task_action = 0, time_to_execute = t,
     task_UID = \<lparr>uid_pid = 7, uid_time_stamp = 0, uid_counter = nat t\<rparr>\<rparr>"

definition sched_example :: "(nat, nat, (nat, nat) log) Scheduler" where
  "sched_example = \<lparr>sch_heap = [0 \<mapsto> \<lparr>nd_data = ListPtr 0, next_node = Some 5, prev_node = None\<rparr>,
     5 \<mapsto> \<lparr>nd_data = Elem (task_at 11), next_node = Some 7, prev_node = Some 0\<rparr>,
     7 \<mapsto> \<lparr>nd_data = Elem (task_at 10), next_node = Some 1, prev_node = Some 5\<rparr>,
     1 \<mapsto> \<lparr>nd_data = ListPtr 0, next_node = None, prev_node = Some 7\<rparr>],
     container = \<lparr>queue = \<lparr>sl_list = 0, sort_func = CmpPtr 1 ComparFunc\<rparr>\<rparr>,
     stop_flag = 0, sch_counter = 3, clock = 6, world = []\<rparr>"

lemma near_task_at: "Elem (task_at t) \<in> near 0 \<longleftrightarrow> 0 \<le> t \<and> t < 2 ^ 31 - 1"
  by (auto simp: near_def task_at_def)

lemma due_task_at: "due (Elem (task_at t)) = t"
  by (simp add: task_at_def)

lemma sched_example_rep: "sched_rep 0 sched_example {#Elem (task_at 11), Elem (task_at 10)#}"
proof -
  have "0 \<le> ComparFunc (Elem (task_at 11)) (Elem (task_at 10))"
    using ComparFunc_slack [of "Elem (task_at 11)" 0 "Elem (task_at 10)"]
    unfolding due_task_at by (simp add: near_task_at)
  then show ?thesis unfolding sched_rep_def pq_rep_def
    by (intro exI [of _ "[5, 7]"]) (auto simp: sched_example_def dlist_def cells_def nxt_def prv_def dat_def contents_def
        ordered_by_def near_task_at)
qed

definition log_action :: "nat \<Rightarrow> nat \<Rightarrow> (nat, nat, (nat, nat) log) Scheduler \<Rightarrow> (int \<times> (nat, nat, (nat, nat) log) Scheduler) option" where
  "log_action a p s = Some (1, s\<lparr>world := world s @ [(a, p, clock s)], clock := clock s + 2\<rparr>)"

definition sleep_to_the_end :: "(nat, nat) log \<Rightarrow> int \<Rightarrow> nat \<Rightarrow> int \<times> nat" where
  "sleep_to_the_end w c n = (c + int n, 0)"

theorem SchedulerRun_one_shot_witness:
  "\<exists>s' ts l. SchedulerRun log_action (\<lambda>w c. c) sleep_to_the_end (\<lambda>h. None) sched_example = Some (FINISH_ALL_WORK, s')
    \<and> mset (map Elem ts) = {#Elem (task_at 11), Elem (task_at 10)#} \<and> ran ts l \<and> in_time ts l"
proof -
  have "one_shot log_action" by (auto simp: one_shot_def log_action_def)
  moreover have "clock_laws (\<lambda>w c. c) sleep_to_the_end" "never_interrupted sleep_to_the_end" "0 - 2 ^ 31 \<le> clock sched_example"
    by (simp_all add: clock_laws_def never_interrupted_def sleep_to_the_end_def sched_example_def)
  ultimately show ?thesis using SchedulerRun_one_shot [OF _ _ sched_example_rep] by blast
qed

text \<open>A task due at 10 runs at 8 when a signal ends the wait that starts at 7; and when the clock passes
  its time between the two readings, the negative difference becomes a wait of more than a century.\<close>

lemma signal_runs_early:
  "wait_for (\<lambda>w c. c) (\<lambda>w c n. (c + 1, n - 1)) () (task_at 10) 7 = 8"
  by (simp add: wait_for_def TaskGetTimeToExecute_def task_at_def)

lemma late_second_reading:
  "wait_for (\<lambda>w c. c + 2) (\<lambda>w c n. (c + int n, 0)) () (task_at 10) 7 = 11 + (2 ^ 32 - 1)"
  by (simp add: wait_for_def TaskGetTimeToExecute_def task_at_def)

lemma SchedulerAdd_spec:
  assumes R: "sched_rep b s M" and n: "n \<notin> dom (sch_heap s)"
    and T: "TaskCreate True pid (clock s) (sch_counter s) i a p = (Some t, c)" and near: "Elem t \<in> near b"
  shows "\<exists>s'. SchedulerAdd True (Some n) pid s a p i = Some (task_UID t, s') \<and> sched_rep b s' (add_mset (Elem t) M)
    \<and> sch_counter s' = c \<and> stop_flag s' = stop_flag s \<and> world s' = world s"
proof -
  have "fresh (Some n) (sch_heap s, container s)" using n by (simp add: fresh_def)
  then obtain s' where s': "pq_push (Some n) (sch_heap s, container s) (Elem t) = Some (0, s')"
    "pq_rep ComparFunc (near b) s' (add_mset (Elem t) M)"
    using sched_order.pq_push_rep R near unfolding sched_rep_def by blast
  then obtain h' where "PQEnpqueue (Some n) (sch_heap s) (container s) (Elem t) = Some (0, h')" "s' = (h', container s)"
    by (auto simp: pq_push_def bind_eq_Some_conv)
  then show ?thesis using T s'(2)
    by (intro exI [of _ "s\<lparr>sch_heap := h', sch_counter := c\<rparr>"]) (simp add: SchedulerAdd_def sched_rep_def TaskGetUid_def)
qed

text \<open>Adding a task when both allocations succeed returns the uid of a new task due \<open>interval\<close>
  seconds from now and adds exactly that task; when the task or its node cannot be allocated, it
  returns the bad uid and the tasks are unchanged.\<close>

theorem SchedulerAdd_correct:
  assumes "sched_rep b s M" and "n \<notin> dom (sch_heap s)" and "0 \<le> clock s" and "clock s + int i < 2 ^ 63"
    and "b \<le> clock s + int i" and "clock s + int i < b + 2 ^ 31 - 1"
  shows "(\<exists>t s'. SchedulerAdd True (Some n) pid s a p i = Some (TaskGetUid t, s') \<and> sched_rep b s' (add_mset (Elem t) M)
      \<and> TaskGetTimeToExecute t = clock s + int i \<and> task_action t = a \<and> task_data t = p
      \<and> uid_counter (TaskGetUid t) = sch_counter s)
    \<and> (\<exists>s'. SchedulerAdd False (Some n) pid s a p i = Some (UIDGetBadUid, s') \<and> sched_rep b s' M)
    \<and> (\<exists>s'. SchedulerAdd True None pid s a p i = Some (UIDGetBadUid, s') \<and> sched_rep b s' M)"
proof -
  define t where "t = \<lparr>interval = i, task_data = p, task_action = a, time_to_execute = time_plus (clock s) i,
    task_UID = fst (UIDCreate pid (clock s) (sch_counter s))\<rparr>"
  have T: "TaskCreate True pid (clock s) (sch_counter s) i a p = (Some t, (sch_counter s + 1) mod 2 ^ 64)"
    by (simp add: TaskCreate_def UIDCreate_def t_def)
  have time: "time_to_execute t = clock s + int i" using time_plus_small [OF assms(3,4)] by (simp add: t_def)
  have nt: "Elem t \<in> near b" using assms(5,6) time by (simp add: near_def)
  obtain ns where "dlist (sch_heap s) (sl_list (queue (container s))) ns" using assms(1) by (auto simp: sched_rep_def pq_rep_def)
  then have "SchedulerAdd True None pid s a p i = Some (UIDGetBadUid, s\<lparr>sch_counter := (sch_counter s + 1) mod 2 ^ 64\<rparr>)"
    using T by (simp add: SchedulerAdd_def PQEnpqueue_no_memory)
  moreover have "SchedulerAdd False (Some n) pid s a p i = Some (UIDGetBadUid, s)"
    by (simp add: SchedulerAdd_def TaskCreate_def)
  moreover have "\<exists>s'. SchedulerAdd True (Some n) pid s a p i = Some (TaskGetUid t, s') \<and> sched_rep b s' (add_mset (Elem t) M)"
    using SchedulerAdd_spec [OF assms(1,2) T nt] by (auto simp: TaskGetUid_def)
  moreover have "task_action t = a" "task_data t = p" "uid_counter (TaskGetUid t) = sch_counter s"
    by (simp_all add: t_def TaskGetUid_def UIDCreate_def)
  ultimately show ?thesis using time assms(1) by (auto simp: sched_rep_def TaskGetTimeToExecute_def)
qed

theorem SchedulerAdd_correct_witness:
  "\<exists>t s'. SchedulerAdd True (Some 9) 7 sched_example 4 5 30 = Some (TaskGetUid t, s')
     \<and> sched_rep 0 s' {#Elem t, Elem (task_at 11), Elem (task_at 10)#} \<and> TaskGetTimeToExecute t = 36"
proof -
  have "9 \<notin> dom (sch_heap sched_example)" "clock sched_example = 6" by (simp_all add: sched_example_def)
  then show ?thesis using SchedulerAdd_correct [OF sched_example_rep, of 9 30 7 4 5] by auto
qed

text \<open>Removing a uid that some task of the queue has takes out one such task and returns 0;
  otherwise it returns 1 and changes nothing.\<close>

theorem SchedulerRemove_correct:
  assumes "sched_rep b s M"
  shows "if \<exists>d \<in># M. ComparUID d uid \<noteq> 0
    then \<exists>t s' M'. SchedulerRemove s uid = Some (0, s') \<and> M = add_mset (Elem t) M' \<and> sched_rep b s' M' \<and> TaskGetUid t = uid
    else SchedulerRemove s uid = Some (1, s)"
proof -
  let ?q = "container s" and ?no = "\<lambda>d. ComparUID d uid = 0"
  obtain ns where ns: "dlist (sch_heap s) (sl_list (queue ?q)) ns" "mset (contents (sch_heap s) ns) = M"
    "ordered_by ComparFunc (contents (sch_heap s) ns)" "set_mset M \<subseteq> near b" "cmp_code (sort_func (queue ?q)) = ComparFunc"
    using assms by (auto simp: sched_rep_def pq_rep_def)
  let ?ds = "contents (sch_heap s) ns"
  note E = PQErase_spec [OF ns(1), of ComparUID uid]
  have all: "(\<exists>d \<in># M. ComparUID d uid \<noteq> 0) \<longleftrightarrow> dropWhile ?no ?ds \<noteq> []" using ns(2) by auto
  show ?thesis
  proof (cases "dropWhile ?no ?ds")
    case Nil
    then have "PQErase (sch_heap s) ?q ComparUID uid = Some (Null, sch_heap s)" using E by (simp del: dropWhile_eq_Nil_conv)
    then show ?thesis using all Nil by (simp add: SchedulerRemove_def del: dropWhile_eq_Nil_conv)
  next
    case (Cons d ds)
    then obtain h' ns' where h': "PQErase (sch_heap s) ?q ComparUID uid = Some (d, h')" "dlist h' (sl_list (queue ?q)) ns'"
      "contents h' ns' = takeWhile ?no ?ds @ ds"
      using E by (auto simp del: dropWhile_eq_Nil_conv)
    have ds: "?ds = takeWhile ?no ?ds @ d # ds" using Cons takeWhile_dropWhile_id [of ?no ?ds] by simp
    have "mset ?ds = add_mset d (mset (takeWhile ?no ?ds @ ds))" by (subst ds) simp
    then have M: "M = add_mset d (mset (takeWhile ?no ?ds @ ds))" using ns(2) by simp
    then have "d \<in> near b" using ns(4) by auto
    then obtain t where t: "d = Elem t" by (auto simp: near_def)
    have "ComparUID d uid \<noteq> 0" using Cons unfolding dropWhile_eq_Cons_conv by blast
    then have u: "TaskGetUid t = uid" using t by (auto simp: UIDIsSame_eq split: if_splits)
    have "ordered_by ComparFunc (takeWhile ?no ?ds @ ds)"
    proof -
      have "ordered_by ComparFunc (takeWhile ?no ?ds @ d # ds)" using ns(3) by (subst (asm) ds)
      then show ?thesis by (simp add: ordered_by_def sorted_wrt_append del: ComparFunc.simps)
    qed
    then have "sched_rep b (s\<lparr>sch_heap := h'\<rparr>) (mset (takeWhile ?no ?ds @ ds))"
      using h' ns(4,5) M unfolding sched_rep_def pq_rep_def by auto
    then show ?thesis using all Cons h'(1) M t u by (auto simp: SchedulerRemove_def simp del: dropWhile_eq_Nil_conv)
  qed
qed

theorem SchedulerRemove_correct_witness:
  "if \<exists>d \<in># {#Elem (task_at 11), Elem (task_at 10)#}. ComparUID d (task_UID (task_at 10)) \<noteq> 0
    then \<exists>t s' M'. SchedulerRemove sched_example (task_UID (task_at 10)) = Some (0, s')
      \<and> {#Elem (task_at 11), Elem (task_at 10)#} = add_mset (Elem t) M' \<and> sched_rep 0 s' M' \<and> TaskGetUid t = task_UID (task_at 10)
    else SchedulerRemove sched_example (task_UID (task_at 10)) = Some (1, sched_example)"
  by (rule SchedulerRemove_correct [OF sched_example_rep])

text \<open>The slack is real: a task due at 10 that is added after one due at 11 is queued behind it.\<close>

lemma later_task_first:
  "insert_by ComparFunc (Elem (task_at 10)) [Elem (task_at 11)] = [Elem (task_at 11), Elem (task_at 10)]"
proof -
  have "0 \<le> ComparFunc (Elem (task_at 11)) (Elem (task_at 10))"
    using ComparFunc_slack [of "Elem (task_at 11)" 0 "Elem (task_at 10)"]
    unfolding due_task_at by (simp add: near_task_at)
  then show ?thesis by (simp add: insert_by_def del: ComparFunc.simps)
qed

text \<open>Clearing empties the queue; a task is freed at each turn.\<close>

lemma SchedulerClear_spec:
  "sched_rep b s M \<Longrightarrow> \<exists>s'. SchedulerClear s = Some s' \<and> sched_rep b s' {#}"
proof (induction "size M" arbitrary: s M)
  case 0
  then show ?case using sched_empty [of b s M] by (subst SchedulerClear.simps) (auto simp: SchedulerIsEmpty_def)
next
  case (Suc n)
  then have ne: "M \<noteq> {#}" by auto
  obtain t h' M' where p: "PQDepqueue (sch_heap s) (container s) = Some (Elem t, h')" "M = add_mset (Elem t) M'"
    "pq_rep ComparFunc (near b) (h', container s) M'"
    using sched_pop [OF Suc.prems ne] by blast
  have "n = size M'" using Suc.hyps(2) p(2) by simp
  moreover have "sched_rep b (s\<lparr>sch_heap := h'\<rparr>) M'" using p(3) by (simp add: sched_rep_def)
  ultimately show ?case using Suc.hyps(1) [of M' "s\<lparr>sch_heap := h'\<rparr>"] sched_empty [OF Suc.prems] ne p(1)
    by (subst SchedulerClear.simps) (simp add: SchedulerIsEmpty_def)
qed

end
