(* ===== verification/HashTable.thy ===== *)
theory HashTable
  imports Dlist
begin

text \<open>
  The hash table of \<open>ds/hash/hash.c\<close>: an array of doubly linked lists. The hash function is used as an
  index without reduction, so it must stay below the capacity. The locale \<open>dictionary\<close> is the
  interface a client sees; the locale \<open>hash_contract\<close> is what the table asks of the hash and match
  functions, discharged here for those of \<open>ds/hash/spell_checker.c\<close>.
\<close>

section \<open>State and operations\<close>

record 'd hash_table =
  hash_func :: "'d vptr \<Rightarrow> nat"
  match_func :: "'d vptr \<Rightarrow> 'd vptr \<Rightarrow> int"
  ht_capacity :: nat
  hash_arr :: "addr option list option"

text \<open>\<open>ht_list h t i\<close> is the list pointer \<open>hash_arr[i]\<close>: NULL, out of range and a NULL array fault.\<close>

definition ht_list :: "'d hash_table \<Rightarrow> nat \<Rightarrow> addr option" where
  "ht_list t i = do { arr \<leftarrow> hash_arr t; cget arr i }"

text \<open>The first \<open>i\<close> lists of the array are destroyed in order.\<close>

fun destroy_lists :: "'d dheap \<Rightarrow> 'd hash_table \<Rightarrow> nat \<Rightarrow> 'd dheap option" where
  "destroy_lists h t 0 = Some h"
| "destroy_lists h t (Suc j) = do { h \<leftarrow> destroy_lists h t j; l \<leftarrow> ht_list t j; DlistDestroy h l }"

definition DestroyBySize :: "'d dheap \<Rightarrow> 'd hash_table \<Rightarrow> nat \<Rightarrow> 'd dheap option" where
  "DestroyBySize h t i = destroy_lists h t i"

text \<open>
  \<open>InitHashArray\<close>: \<open>mems\<close> answers the allocations of the lists. The result tells whether the table
  itself was freed on the way (when a list could not be allocated).
\<close>

fun init_loop :: "'d dheap \<Rightarrow> 'd hash_table \<Rightarrow> addr option list \<Rightarrow> nat \<Rightarrow> nat \<Rightarrow> (bool \<times> 'd hash_table \<times> 'd dheap) option" where
  "init_loop h t mems i 0 = Some (False, t, h)"
| "init_loop h t mems i (Suc n) = do {
     c_assert (mems \<noteq> []);
     let (l, h) = DlistCreate h (hd mems);
     arr \<leftarrow> hash_arr t;
     arr \<leftarrow> aset arr i l;
     let t = t\<lparr>hash_arr := Some arr\<rparr>;
     if l = None then do { h \<leftarrow> DestroyBySize h t i; Some (True, t\<lparr>hash_arr := None\<rparr>, h) }
     else init_loop h t (tl mems) (Suc i) n
   }"

definition InitHashArray ::
  "'d dheap \<Rightarrow> bool \<Rightarrow> addr option list \<Rightarrow> 'd hash_table \<Rightarrow> (bool \<times> 'd hash_table \<times> 'd dheap) option" where
  "InitHashArray h mem mems t =
     (if \<not> mem then Some (False, t\<lparr>hash_arr := None\<rparr>, h)
      else init_loop h (t\<lparr>hash_arr := Some (replicate ((8 * ht_capacity t) mod 2 ^ 64 div 8) None)\<rparr>) mems 0 (ht_capacity t))"

text \<open>What \<open>HashCreate\<close> returns: NULL, a table, or a pointer to a table that was already freed.\<close>

datatype 'd created = NoTable | Table "'d hash_table" | FreedTable

definition HashCreate ::
  "'d dheap \<Rightarrow> bool \<Rightarrow> bool \<Rightarrow> addr option list \<Rightarrow> ('d vptr \<Rightarrow> nat) \<Rightarrow> ('d vptr \<Rightarrow> 'd vptr \<Rightarrow> int) \<Rightarrow> nat
   \<Rightarrow> ('d created \<times> 'd dheap) option" where
  "HashCreate h mem1 mem2 mems hf mf capacity =
     (if \<not> mem1 then Some (NoTable, h)
      else do {
        (freed, t, h) \<leftarrow> InitHashArray h mem2 mems
           \<lparr>hash_func = hf, match_func = mf, ht_capacity = capacity, hash_arr = None\<rparr>;
        Some (if freed then FreedTable else Table t, h)
      })"

definition HashDestroy :: "'d dheap \<Rightarrow> 'd hash_table \<Rightarrow> 'd dheap option" where
  "HashDestroy h t = DestroyBySize h t (ht_capacity t)"

partial_function (option) hash_size_loop :: "'d dheap \<Rightarrow> 'd hash_table \<Rightarrow> nat \<Rightarrow> nat \<Rightarrow> nat option" where
  "hash_size_loop h t i sofar =
     (if i < ht_capacity t then do {
        l \<leftarrow> ht_list t i;
        n \<leftarrow> DlistSize h l;
        hash_size_loop h t (Suc i) (sofar + n)
      } else Some sofar)"

definition HashSize :: "'d dheap \<Rightarrow> 'd hash_table \<Rightarrow> nat option" where
  "HashSize h t = hash_size_loop h t 0 0"

definition HashIsEmpty :: "'d dheap \<Rightarrow> 'd hash_table \<Rightarrow> bool option" where
  "HashIsEmpty h t = do { n \<leftarrow> HashSize h t; Some (0 = n) }"

definition HashInsert :: "addr option \<Rightarrow> 'd dheap \<Rightarrow> 'd hash_table \<Rightarrow> 'd vptr \<Rightarrow> (int \<times> 'd dheap) option" where
  "HashInsert mem h t data = do {
     let index = hash_func t data;
     l \<leftarrow> ht_list t index;
     b \<leftarrow> DlistBegin h l;
     iter \<leftarrow> DlistFind h b (DlistEnd l) (match_func t) data;
     same \<leftarrow> DlistIsSameIter (DlistEnd l) iter;
     if \<not> same then do {
       h \<leftarrow> DlistSetData h iter data;
       Some (1, h)
     } else do {
       (iter, h) \<leftarrow> DlistPushBack h mem l data;
       same \<leftarrow> DlistIsSameIter (DlistEnd l) iter;
       Some (if same then 0 else 1, h)
     }
   }"

definition FindData :: "'d dheap \<Rightarrow> 'd hash_table \<Rightarrow> 'd vptr \<Rightarrow> addr option option" where
  "FindData h t data = do {
     let index = hash_func t data;
     l \<leftarrow> ht_list t index;
     b \<leftarrow> DlistBegin h l;
     iter \<leftarrow> DlistFind h b (DlistEnd l) (match_func t) data;
     same \<leftarrow> DlistIsSameIter iter (DlistEnd l);
     Some (if same then None else iter)
   }"

definition HashRemove :: "'d dheap \<Rightarrow> 'd hash_table \<Rightarrow> 'd vptr \<Rightarrow> 'd dheap option" where
  "HashRemove h t data = do {
     let index = hash_func t data;
     iter \<leftarrow> FindData h t data;
     if iter \<noteq> None then do {
       l \<leftarrow> ht_list t index;
       (_, h) \<leftarrow> DlistRemove h l iter;
       Some h
     } else Some h
   }"

definition HashFind :: "'d dheap \<Rightarrow> 'd hash_table \<Rightarrow> 'd vptr \<Rightarrow> 'd vptr option" where
  "HashFind h t data = do {
     iter \<leftarrow> FindData h t data;
     if iter = None then Some Null else DlistGetData h iter
   }"

partial_function (option) hash_each_loop ::
  "'d dheap \<Rightarrow> 'd hash_table \<Rightarrow> ('d vptr \<Rightarrow> 'p \<Rightarrow> int \<times> 'p) \<Rightarrow> nat \<Rightarrow> int \<Rightarrow> 'p \<Rightarrow> (int \<times> 'p) option" where
  "hash_each_loop h t action i res param =
     (if i < ht_capacity t \<and> 0 = res then do {
        l \<leftarrow> ht_list t i;
        b \<leftarrow> DlistBegin h l;
        (res, param) \<leftarrow> DlistForEach h b (DlistEnd l) action 0 param;
        hash_each_loop h t action (Suc i) res param
      } else Some (res, param))"

definition HashForEach :: "'d dheap \<Rightarrow> 'd hash_table \<Rightarrow> ('d vptr \<Rightarrow> 'p \<Rightarrow> int \<times> 'p) \<Rightarrow> 'p \<Rightarrow> (int \<times> 'p) option" where
  "HashForEach h t action param = hash_each_loop h t action 0 0 param"

section \<open>The lists of a table\<close>

definition buckets :: "'d dheap \<Rightarrow> addr list \<Rightarrow> addr list list \<Rightarrow> bool" where
  "buckets h ls nss \<longleftrightarrow> length ls = length nss \<and> (\<forall>i < length ls. dlist h (ls ! i) (nss ! i))
     \<and> (\<forall>i < length ls. \<forall>j < length ls. i \<noteq> j \<longrightarrow> cells (ls ! i) (nss ! i) \<inter> cells (ls ! j) (nss ! j) = {})"

lemma buckets_update:
  assumes B: "buckets h ls nss" and i: "i < length ls" and L: "dlist h' (ls ! i) ns'"
    and S: "same_on (- (N \<union> cells (ls ! i) (nss ! i))) h h'" and N: "N \<inter> dom h = {}" and ns: "set ns' \<subseteq> N \<union> set (nss ! i)"
  shows "buckets h' ls (nss[i := ns'])" and "\<And>j. j < length ls \<Longrightarrow> j \<noteq> i \<Longrightarrow> contents h' (nss ! j) = contents h (nss ! j)"
proof -
  have other: "dlist h' (ls ! j) (nss ! j) \<and> contents h' (nss ! j) = contents h (nss ! j)
      \<and> cells (ls ! j) (nss ! j) \<inter> (N \<union> cells (ls ! i) (nss ! i)) = {}" if j: "j < length ls" "j \<noteq> i" for j
  proof -
    have d: "dlist h (ls ! j) (nss ! j)" "cells (ls ! j) (nss ! j) \<inter> cells (ls ! i) (nss ! i) = {}"
      using B i j by (auto simp: buckets_def)
    then have dj: "cells (ls ! j) (nss ! j) \<inter> (N \<union> cells (ls ! i) (nss ! i)) = {}"
      using N dlist_dom [OF d(1)] by blast
    then show ?thesis using dlist_frame [OF d(1)] same_on_subset [OF S] by (metis disjoint_eq_subset_Compl)
  qed
  then show "\<And>j. j < length ls \<Longrightarrow> j \<noteq> i \<Longrightarrow> contents h' (nss ! j) = contents h (nss ! j)" by blast
  have c: "cells (ls ! i) ns' \<subseteq> N \<union> cells (ls ! i) (nss ! i)" using ns by (auto simp: cells_def)
  have dj: "cells (ls ! j) (nss ! j) \<inter> cells (ls ! i) ns' = {}" if "j < length ls" "j \<noteq> i" for j
    using other [OF that] c by blast
  show "buckets h' ls (nss[i := ns'])"
    unfolding buckets_def
  proof (intro conjI allI impI)
    show "length ls = length (nss[i := ns'])" using B by (simp add: buckets_def)
    show "dlist h' (ls ! j) (nss[i := ns'] ! j)" if "j < length ls" for j
      using that B L other [of j] by (cases "j = i") (auto simp: buckets_def)
    show "cells (ls ! j) (nss[i := ns'] ! j) \<inter> cells (ls ! k) (nss[i := ns'] ! k) = {}"
      if jk: "j < length ls" "k < length ls" "j \<noteq> k" for j k
    proof -
      have "length nss = length ls" using B by (simp add: buckets_def)
      then show ?thesis using jk B dj [of j] dj [of k] i
        by (cases "j = i"; cases "k = i") (simp_all add: buckets_def Int_commute)
    qed
  qed
qed

text \<open>\<open>hash_rep t h ds\<close>: the list of index \<open>i\<close> is well formed and holds the data \<open>ds ! i\<close>.\<close>

definition hash_rep :: "'d hash_table \<Rightarrow> 'd dheap \<Rightarrow> 'd vptr list list \<Rightarrow> bool" where
  "hash_rep t h ds \<longleftrightarrow> (\<exists>ls nss. hash_arr t = Some (map Some ls) \<and> length ls = ht_capacity t \<and> buckets h ls nss
     \<and> ds = map (contents h) nss)"

lemma hash_rep_list:
  assumes "hash_arr t = Some (map Some ls)" "i < length ls"
  shows "ht_list t i = Some (ls ! i)"
  using assms by (simp add: ht_list_def cget_eq_Some)

lemma find_dropWhile: "List.find P xs = (case dropWhile (\<lambda>x. \<not> P x) xs of [] \<Rightarrow> None | x # _ \<Rightarrow> Some x)"
  by (induction xs) auto

lemma HashFind_spec:
  assumes R: "hash_rep t h ds" and i: "hash_func t k < ht_capacity t"
  shows "HashFind h t k = Some (case List.find (\<lambda>d. match_func t d k \<noteq> 0) (ds ! hash_func t k) of None \<Rightarrow> Null | Some d \<Rightarrow> d)"
proof -
  let ?i = "hash_func t k" and ?no = "\<lambda>d. match_func t d k = 0"
  obtain ls nss where t: "hash_arr t = Some (map Some ls)" "length ls = ht_capacity t" "buckets h ls nss" "ds = map (contents h) nss"
    using R by (auto simp: hash_rep_def)
  have L: "dlist h (ls ! ?i) (nss ! ?i)" and n: "?i < length nss" using t i by (auto simp: buckets_def)
  note f = DlistFind_spec [of h "ls ! ?i" "[]" "nss ! ?i" "[]" "match_func t" k]
  note l = hash_rep_list [OF t(1), of ?i]
  have d: "ds ! ?i = contents h (nss ! ?i)" using t n by simp
  show ?thesis
  proof (cases rule: dropWhile_contents_cases [of ?no h "nss ! ?i"])
    case none
    then show ?thesis using f l L d i t(2)
      by (simp add: HashFind_def FindData_def dlist_begin DlistEnd_def DlistIsSameIter_simp find_dropWhile del: dropWhile_eq_Nil_conv)
  next
    case (some n xs ys)
    have L': "dlist h (ls ! ?i) (xs @ n # ys)" using L some(3) by simp
    show ?thesis using f l L d i t(2) some(1,2) dlist_node(3) [OF L'] dlist_node_steps [OF L']
      by (simp add: HashFind_def FindData_def dlist_begin DlistEnd_def DlistIsSameIter_simp find_dropWhile)
  qed
qed


lemma hash_repI:
  assumes t: "hash_arr t = Some (map Some ls)" "length ls = ht_capacity t" and B: "buckets h' ls (nss[i := ns'])"
    and o: "\<And>j. j < length ls \<Longrightarrow> j \<noteq> i \<Longrightarrow> contents h' (nss ! j) = contents h (nss ! j)"
    and i: "i < length ls" and c: "contents h' ns' = C"
  shows "hash_rep t h' ((map (contents h) nss)[i := C])"
proof -
  have n: "length nss = length ls" using B by (simp add: buckets_def)
  have "map (contents h') (nss[i := ns']) = (map (contents h) nss)[i := C]"
    by (rule nth_equalityI) (use n o c i in \<open>auto simp: nth_list_update\<close>)
  then show ?thesis using t B unfolding hash_rep_def by metis
qed

text \<open>What insertion and removal do to the contents of one list.\<close>

definition put_data :: "('a \<Rightarrow> 'a \<Rightarrow> int) \<Rightarrow> 'a \<Rightarrow> 'a list \<Rightarrow> 'a list" where
  "put_data mf v C = takeWhile (\<lambda>d. mf d v = 0) C @ v # tl (dropWhile (\<lambda>d. mf d v = 0) C)"

definition del_data :: "('a \<Rightarrow> 'a \<Rightarrow> int) \<Rightarrow> 'a \<Rightarrow> 'a list \<Rightarrow> 'a list" where
  "del_data mf v C = takeWhile (\<lambda>d. mf d v = 0) C @ tl (dropWhile (\<lambda>d. mf d v = 0) C)"

lemma HashInsert_spec:
  assumes R: "hash_rep t h ds" and i: "hash_func t v < ht_capacity t" and n: "n \<notin> dom h"
  shows "\<exists>h'. HashInsert (Some n) h t v = Some (1, h') \<and> dom h' \<subseteq> insert n (dom h)
    \<and> hash_rep t h' (ds[hash_func t v := put_data (match_func t) v (ds ! hash_func t v)])"
proof -
  let ?i = "hash_func t v" and ?no = "\<lambda>d. match_func t d v = 0"
  obtain ls nss where t: "hash_arr t = Some (map Some ls)" "length ls = ht_capacity t" "buckets h ls nss" "ds = map (contents h) nss"
    using R by (auto simp: hash_rep_def)
  let ?l = "ls ! ?i" and ?ns = "nss ! ?i"
  have L: "dlist h ?l ?ns" and i': "?i < length nss" "?i < length ls" using t i by (auto simp: buckets_def)
  have f: "DlistFind h (Some (hd (?ns @ [Suc ?l]))) (Some (Suc ?l)) (match_func t) v
      = Some (Some (hd (dropWhile (\<lambda>n. ?no (dat h n)) ?ns @ [Suc ?l])))"
    using DlistFind_spec [of h ?l "[]" ?ns "[]" "match_func t" v] L by simp
  note l = hash_rep_list [OF t(1), of ?i]
  have d: "ds ! ?i = contents h ?ns" using t i' by simp
  show ?thesis
  proof (cases rule: dropWhile_contents_cases [of ?no h ?ns])
    case none
    then have p: "put_data (match_func t) v (ds ! ?i) = contents h ?ns @ [v]"
      using takeWhile_dropWhile_id [of ?no "contents h ?ns"] by (simp add: put_data_def d del: dropWhile_eq_Nil_conv)
    obtain h' where h': "DlistPushBack h (Some n) ?l v = Some (Some n, h')" "dlist h' ?l (?ns @ [n])"
      "contents h' (?ns @ [n]) = contents h ?ns @ [v]" "dom h' = insert n (dom h)" "same_on (- insert n (cells ?l ?ns)) h h'"
      using DlistPushBack_spec [OF L n, of v] by blast
    have nl: "n \<noteq> Suc ?l" using dlist_dom [OF L] n by (auto simp: cells_def)
    have "HashInsert (Some n) h t v = Some (1, h')"
      using f none h'(1) nl L l i' by (simp add: HashInsert_def dlist_begin DlistEnd_def DlistIsSameIter_simp del: dropWhile_eq_Nil_conv)
    moreover have S: "same_on (- ({n} \<union> cells ?l ?ns)) h h'" using h'(5) by simp
    have "hash_rep t h' (ds[?i := contents h ?ns @ [v]])"
      unfolding t(4)
      by (rule hash_repI [OF t(1,2) buckets_update(1) [OF t(3) i'(2) h'(2) S] buckets_update(2) [OF t(3) i'(2) h'(2) S] i'(2) h'(3)])
        (use n in auto)
    ultimately show ?thesis using p h'(4) by auto
  next
    case (some m xs ys)
    then have p: "put_data (match_func t) v (ds ! ?i) = contents h xs @ v # contents h ys" by (simp add: put_data_def d)
    have L': "dlist h ?l (xs @ m # ys)" using L some(3) by simp
    let ?h = "upd_data h m v"
    have m: "m \<in> dom h" "m \<notin> set xs" "m \<notin> set ys" using L' by (auto simp: dlist_def cells_def)
    have c: "contents ?h ?ns = contents h xs @ v # contents h ys" using m by (simp add: some(3) store_simps contents_upd)
    have "HashInsert (Some n) h t v = Some (1, ?h)"
      using f some(1) L l i' dlist_node(3) [OF L'] dlist_node_steps [OF L']
      by (simp add: HashInsert_def dlist_begin DlistEnd_def DlistIsSameIter_simp)
    moreover have S: "same_on (- ({} \<union> cells ?l ?ns)) h ?h"
      by (rule same_on_upd(3) [OF same_on_refl]) (simp add: some(3) cells_def)
    have L2: "dlist ?h ?l ?ns" using DlistSetData_spec [OF L'] some(3) by simp
    have "hash_rep t ?h (ds[?i := contents h xs @ v # contents h ys])"
      unfolding t(4)
      by (rule hash_repI [OF t(1,2) buckets_update(1) [OF t(3) i'(2) L2 S] buckets_update(2) [OF t(3) i'(2) L2 S] i'(2) c]) auto
    moreover have "dom ?h = dom h" using m by (simp add: store_simps)
    ultimately show ?thesis using p by auto
  qed
qed

lemma HashRemove_spec:
  assumes R: "hash_rep t h ds" and i: "hash_func t v < ht_capacity t"
  shows "\<exists>h'. HashRemove h t v = Some h' \<and> dom h' \<subseteq> dom h
    \<and> hash_rep t h' (ds[hash_func t v := del_data (match_func t) v (ds ! hash_func t v)])"
proof -
  let ?i = "hash_func t v" and ?no = "\<lambda>d. match_func t d v = 0"
  obtain ls nss where t: "hash_arr t = Some (map Some ls)" "length ls = ht_capacity t" "buckets h ls nss" "ds = map (contents h) nss"
    using R by (auto simp: hash_rep_def)
  let ?l = "ls ! ?i" and ?ns = "nss ! ?i"
  have L: "dlist h ?l ?ns" and i': "?i < length nss" "?i < length ls" using t i by (auto simp: buckets_def)
  have f: "DlistFind h (Some (hd (?ns @ [Suc ?l]))) (Some (Suc ?l)) (match_func t) v
      = Some (Some (hd (dropWhile (\<lambda>n. ?no (dat h n)) ?ns @ [Suc ?l])))"
    using DlistFind_spec [of h ?l "[]" ?ns "[]" "match_func t" v] L by simp
  note l = hash_rep_list [OF t(1), of ?i]
  have d: "ds ! ?i = contents h ?ns" using t i' by simp
  show ?thesis
  proof (cases rule: dropWhile_contents_cases [of ?no h ?ns])
    case none
    then have p: "del_data (match_func t) v (ds ! ?i) = ds ! ?i"
      using takeWhile_dropWhile_id [of ?no "contents h ?ns"] by (simp add: del_data_def d del: dropWhile_eq_Nil_conv)
    have "HashRemove h t v = Some h"
      using f none L l i' by (simp add: HashRemove_def FindData_def dlist_begin DlistEnd_def DlistIsSameIter_simp del: dropWhile_eq_Nil_conv)
    then show ?thesis using p R by simp
  next
    case (some m xs ys)
    then have p: "del_data (match_func t) v (ds ! ?i) = contents h (xs @ ys)" by (simp add: del_data_def d)
    have L': "dlist h ?l (xs @ m # ys)" using L some(3) by simp
    obtain h' where h': "DlistRemove h ?l (Some m) = Some (Some (hd (ys @ [Suc ?l])), h')" "dlist h' ?l (xs @ ys)"
      "contents h' (xs @ ys) = contents h (xs @ ys)" "same_on (- cells ?l (xs @ m # ys)) h h'" "dom h' = dom h - {m}"
      using DlistRemove_contents [OF L' refl] by blast
    have "HashRemove h t v = Some h'"
      using f some(1) L l i' dlist_node(3) [OF L'] h'(1)
      by (simp add: HashRemove_def FindData_def dlist_begin DlistEnd_def DlistIsSameIter_simp)
    moreover have S: "same_on (- ({} \<union> cells ?l ?ns)) h h'" using h'(4) some(3) by simp
    have "hash_rep t h' (ds[?i := contents h (xs @ ys)])"
      unfolding t(4)
      by (rule hash_repI [OF t(1,2) buckets_update(1) [OF t(3) i'(2) h'(2) S] buckets_update(2) [OF t(3) i'(2) h'(2) S] i'(2) h'(3)])
        (auto simp: some(3))
    ultimately show ?thesis using p h'(5) by auto
  qed
qed

lemma HashSize_spec:
  assumes "hash_rep t h ds"
  shows "HashSize h t = Some (length (concat ds))"
proof -
  obtain ls nss where t: "hash_arr t = Some (map Some ls)" "length ls = ht_capacity t" "buckets h ls nss" "ds = map (contents h) nss"
    using assms by (auto simp: hash_rep_def)
  have n: "length nss = length ls" using t(3) by (simp add: buckets_def)
  have "hash_size_loop h t i k = Some (k + length (concat (drop i ds)))" if "i \<le> length ls" for i k
    using that
  proof (induction "length ls - i" arbitrary: i k)
    case 0
    then show ?case using t n by (subst hash_size_loop.simps) simp
  next
    case (Suc m)
    then have i: "i < length ls" by simp
    then have "dlist h (ls ! i) (nss ! i)" using t(3) by (simp add: buckets_def)
    then have "DlistSize h (ls ! i) = Some (length (ds ! i))" using DlistSize_spec t(4) i n by fastforce
    moreover have "i < length ds" using i t(4) n by simp
    then have "drop i ds = ds ! i # drop (Suc i) ds" by (rule Cons_nth_drop_Suc [symmetric])
    moreover have "hash_size_loop h t (Suc i) (k + length (ds ! i)) = Some (k + length (ds ! i) + length (concat (drop (Suc i) ds)))"
      using Suc.hyps(1) [of "Suc i"] Suc.hyps(2) i by simp
    ultimately show ?case using i t(2) hash_rep_list [OF t(1) i] by (subst hash_size_loop.simps) simp
  qed
  from this [of 0 0] show ?thesis by (simp add: HashSize_def)
qed

section \<open>The dictionary interface\<close>

datatype 'a dict_op = Put 'a | Del 'a

fun dict_run :: "('m \<Rightarrow> 's \<Rightarrow> 'a \<Rightarrow> (int \<times> 's) option) \<Rightarrow> ('s \<Rightarrow> 'a \<Rightarrow> 's option) \<Rightarrow> ('s \<Rightarrow> 'm) \<Rightarrow> 'a dict_op list \<Rightarrow> 's \<Rightarrow> 's option" where
  "dict_run ins del malloc [] s = Some s"
| "dict_run ins del malloc (Put v # ops) s = do { (_, s) \<leftarrow> ins (malloc s) s v; dict_run ins del malloc ops s }"
| "dict_run ins del malloc (Del v # ops) s = do { s \<leftarrow> del s v; dict_run ins del malloc ops s }"

text \<open>What a lookup of \<open>k\<close> gives after the operations, when it gave \<open>cur\<close> before.\<close>

fun dict_spec :: "('a \<Rightarrow> 'a \<Rightarrow> bool) \<Rightarrow> 'a \<Rightarrow> 'a \<Rightarrow> 'a dict_op list \<Rightarrow> 'a \<Rightarrow> 'a" where
  "dict_spec same none k [] cur = cur"
| "dict_spec same none k (Put v # ops) cur = dict_spec same none k ops (if same v k then v else cur)"
| "dict_spec same none k (Del v # ops) cur = dict_spec same none k ops (if same v k then none else cur)"

fun op_arg :: "'a dict_op \<Rightarrow> 'a" where
  "op_arg (Put v) = v" | "op_arg (Del v) = v"

locale dictionary =
  fixes rep :: "'s \<Rightarrow> bool" and valid :: "'a set" and same :: "'a \<Rightarrow> 'a \<Rightarrow> bool" and none :: 'a
    and fresh :: "'m \<Rightarrow> 's \<Rightarrow> bool" and ins :: "'m \<Rightarrow> 's \<Rightarrow> 'a \<Rightarrow> (int \<times> 's) option"
    and del :: "'s \<Rightarrow> 'a \<Rightarrow> 's option" and find :: "'s \<Rightarrow> 'a \<Rightarrow> 'a option"
  assumes find_ins: "rep s \<Longrightarrow> v \<in> valid \<Longrightarrow> fresh m s \<Longrightarrow> \<exists>s'. ins m s v = Some (1, s') \<and> rep s'
      \<and> (\<forall>k \<in> valid. find s' k = (if same v k then Some v else find s k))"
    and find_del: "rep s \<Longrightarrow> v \<in> valid \<Longrightarrow> \<exists>s'. del s v = Some s' \<and> rep s'
      \<and> (\<forall>k \<in> valid. find s' k = (if same v k then Some none else find s k))"
begin

lemma dict_run_find:
  assumes "\<And>s. rep s \<Longrightarrow> fresh (malloc s) s"
  shows "rep s \<Longrightarrow> op_arg ` set ops \<subseteq> valid \<Longrightarrow> \<exists>s'. dict_run ins del malloc ops s = Some s' \<and> rep s'
    \<and> (\<forall>k \<in> valid. \<forall>c. find s k = Some c \<longrightarrow> find s' k = Some (dict_spec same none k ops c))"
proof (induction ops arbitrary: s)
  case (Cons x ops)
  show ?case
  proof (cases x)
    case (Put v)
    then obtain s1 where s1: "ins (malloc s) s v = Some (1, s1)" "rep s1"
      "\<forall>k \<in> valid. find s1 k = (if same v k then Some v else find s k)"
      using find_ins [OF Cons.prems(1) _ assms [OF Cons.prems(1)], of v] Cons.prems(2) by auto
    obtain s' where "dict_run ins del malloc ops s1 = Some s'" "rep s'"
      "\<forall>k \<in> valid. \<forall>c. find s1 k = Some c \<longrightarrow> find s' k = Some (dict_spec same none k ops c)"
      using Cons.IH [OF s1(2)] Cons.prems(2) by auto
    then show ?thesis using s1 Put by auto
  next
    case (Del v)
    then obtain s1 where s1: "del s v = Some s1" "rep s1"
      "\<forall>k \<in> valid. find s1 k = (if same v k then Some none else find s k)"
      using find_del [OF Cons.prems(1), of v] Cons.prems(2) by auto
    obtain s' where "dict_run ins del malloc ops s1 = Some s'" "rep s'"
      "\<forall>k \<in> valid. \<forall>c. find s1 k = Some c \<longrightarrow> find s' k = Some (dict_spec same none k ops c)"
      using Cons.IH [OF s1(2)] Cons.prems(2) by auto
    then show ?thesis using s1 Del by auto
  qed
qed simp

end

section \<open>The contract of the hash and match functions\<close>

locale hash_contract =
  fixes t :: "'d hash_table" and valid :: "'d vptr set"
  assumes bound: "x \<in> valid \<Longrightarrow> hash_func t x < ht_capacity t"
    and no_null: "Null \<notin> valid"
    and refl: "x \<in> valid \<Longrightarrow> match_func t x x \<noteq> 0"
    and sym: "x \<in> valid \<Longrightarrow> y \<in> valid \<Longrightarrow> match_func t x y \<noteq> 0 \<Longrightarrow> match_func t y x \<noteq> 0"
    and trans: "x \<in> valid \<Longrightarrow> y \<in> valid \<Longrightarrow> z \<in> valid \<Longrightarrow> match_func t x y \<noteq> 0 \<Longrightarrow> match_func t y z \<noteq> 0 \<Longrightarrow> match_func t x z \<noteq> 0"
    and cong: "x \<in> valid \<Longrightarrow> y \<in> valid \<Longrightarrow> match_func t x y \<noteq> 0 \<Longrightarrow> hash_func t x = hash_func t y"
begin

abbreviation mf :: "'d vptr \<Rightarrow> 'd vptr \<Rightarrow> int" where "mf \<equiv> match_func t"

definition bucket_ok :: "'d vptr list \<Rightarrow> bool" where
  "bucket_ok C \<longleftrightarrow> set C \<subseteq> valid \<and> sorted_wrt (\<lambda>x y. mf x y = 0) C"

definition table_ok :: "'d dheap \<Rightarrow> bool" where
  "table_ok h \<longleftrightarrow> finite (dom h) \<and> (\<exists>ds. hash_rep t h ds \<and> (\<forall>C \<in> set ds. bucket_ok C))"

abbreviation look :: "'d vptr \<Rightarrow> 'd vptr list \<Rightarrow> 'd vptr option" where
  "look k C \<equiv> List.find (\<lambda>d. mf d k \<noteq> 0) C"

lemma match_cong: "x \<in> valid \<Longrightarrow> y \<in> valid \<Longrightarrow> k \<in> valid \<Longrightarrow> mf x y \<noteq> 0 \<Longrightarrow> (mf x k \<noteq> 0) = (mf y k \<noteq> 0)"
  using sym trans by metis

lemma put_data_ok:
  "bucket_ok C \<Longrightarrow> v \<in> valid \<Longrightarrow> bucket_ok (put_data mf v C)"
  and look_put_data:
  "bucket_ok C \<Longrightarrow> v \<in> valid \<Longrightarrow> k \<in> valid \<Longrightarrow> look k (put_data mf v C) = (if mf v k \<noteq> 0 then Some v else look k C)"
proof -
  have set_put: "set (put_data mf v C) \<subseteq> insert v (set C)" for v C
    by (induction C) (auto simp: put_data_def)
  show "bucket_ok C \<Longrightarrow> v \<in> valid \<Longrightarrow> bucket_ok (put_data mf v C)"
  proof (induction C)
    case (Cons d C)
    show ?case
    proof (cases "mf d v = 0")
      case True
      then have "put_data mf v (d # C) = d # put_data mf v C" by (simp add: put_data_def)
      then show ?thesis using Cons True set_put [of v C] by (auto simp: bucket_ok_def)
    next
      case False
      have "mf v y = 0" if "y \<in> set C" for y
        using that Cons.prems False match_cong [of d v y] by (auto simp: bucket_ok_def)
      then show ?thesis using False Cons.prems by (auto simp: bucket_ok_def put_data_def)
    qed
  qed (simp add: bucket_ok_def put_data_def)
  show "bucket_ok C \<Longrightarrow> v \<in> valid \<Longrightarrow> k \<in> valid \<Longrightarrow> look k (put_data mf v C) = (if mf v k \<noteq> 0 then Some v else look k C)"
  proof (induction C)
    case (Cons d C)
    have d: "d \<in> valid" "bucket_ok C" using Cons.prems by (auto simp: bucket_ok_def)
    show ?case
    proof (cases "mf d v = 0")
      case True
      then have p: "put_data mf v (d # C) = d # put_data mf v C" by (simp add: put_data_def)
      have "mf d k = 0" if "mf v k \<noteq> 0" using that True d Cons.prems sym trans by metis
      then show ?thesis using Cons.IH Cons.prems d p by auto
    next
      case False
      then show ?thesis using match_cong [of d v k] d Cons.prems by (simp add: put_data_def)
    qed
  qed (simp add: put_data_def)
qed

lemma look_none: "bucket_ok (d # C) \<Longrightarrow> k \<in> valid \<Longrightarrow> mf d k \<noteq> 0 \<Longrightarrow> look k C = None"
proof -
  assume C: "bucket_ok (d # C)" and k: "k \<in> valid" "mf d k \<noteq> 0"
  have "mf y k = 0" if y: "y \<in> set C" for y
  proof (rule ccontr)
    assume "mf y k \<noteq> 0"
    moreover have v: "y \<in> valid" "d \<in> valid" "mf d y = 0" using C y by (auto simp: bucket_ok_def)
    ultimately show False using sym [of y k] trans [of d k y] k by simp
  qed
  then show ?thesis by (simp add: find_None_iff)
qed

lemma del_data_ok:
  "bucket_ok C \<Longrightarrow> bucket_ok (del_data mf v C)"
  and look_del_data:
  "bucket_ok C \<Longrightarrow> v \<in> valid \<Longrightarrow> k \<in> valid \<Longrightarrow> look k (del_data mf v C) = (if mf v k \<noteq> 0 then None else look k C)"
proof -
  have set_del: "set (del_data mf v C) \<subseteq> set C" for v C
    by (induction C) (auto simp: del_data_def)
  show "bucket_ok C \<Longrightarrow> bucket_ok (del_data mf v C)"
  proof (induction C)
    case (Cons d C)
    then show ?case using set_del [of v C]
      by (cases "mf d v = 0") (auto simp: bucket_ok_def del_data_def)
  qed (simp add: bucket_ok_def del_data_def)
  show "bucket_ok C \<Longrightarrow> v \<in> valid \<Longrightarrow> k \<in> valid \<Longrightarrow> look k (del_data mf v C) = (if mf v k \<noteq> 0 then None else look k C)"
  proof (induction C)
    case (Cons d C)
    have d: "d \<in> valid" "bucket_ok C" using Cons.prems by (auto simp: bucket_ok_def)
    show ?case
    proof (cases "mf d v = 0")
      case True
      then have p: "del_data mf v (d # C) = d # del_data mf v C" by (simp add: del_data_def)
      have "mf d k = 0" if "mf v k \<noteq> 0" using that True d Cons.prems sym trans by metis
      then show ?thesis using Cons.IH Cons.prems d p by auto
    next
      case False
      then show ?thesis using match_cong [of d v k] d Cons.prems look_none [of d C k]
        by (auto simp: del_data_def)
    qed
  qed (simp add: del_data_def)
qed

lemma table_find:
  assumes "hash_rep t h ds" "k \<in> valid"
  shows "HashFind h t k = Some (case look k (ds ! hash_func t k) of None \<Rightarrow> Null | Some d \<Rightarrow> d)"
  using HashFind_spec [OF assms(1) bound [OF assms(2)]] .

lemma hash_rep_length: "hash_rep t h ds \<Longrightarrow> length ds = ht_capacity t"
  by (auto simp: hash_rep_def buckets_def)

text \<open>Replacing the list of one index keeps the others.\<close>

lemma table_ok_update:
  assumes "hash_rep t h ds" "\<forall>C \<in> set ds. bucket_ok C" "v \<in> valid" "bucket_ok C"
    and R: "hash_rep t h' (ds[hash_func t v := C])"
    and fin: "finite (dom h')" and k: "k \<in> valid" and same: "mf v k = 0 \<Longrightarrow> look k C = look k (ds ! hash_func t v)"
  shows "table_ok h'" and "HashFind h' t k = (if mf v k \<noteq> 0
    then Some (case look k C of None \<Rightarrow> Null | Some d \<Rightarrow> d) else HashFind h t k)"
proof -
  have i: "hash_func t v < length ds" using assms(1,3) bound hash_rep_length by metis
  show "table_ok h'" unfolding table_ok_def using fin R assms(2,4) by (metis insert_iff set_update_subset_insert subsetD)
  show "HashFind h' t k = (if mf v k \<noteq> 0 then Some (case look k C of None \<Rightarrow> Null | Some d \<Rightarrow> d) else HashFind h t k)"
    using table_find [OF R k] table_find [OF assms(1) k] i same cong [OF assms(3) k]
    by (cases "hash_func t k = hash_func t v") (auto simp: nth_list_update)
qed

end

sublocale hash_contract \<subseteq> dict: dictionary table_ok valid "\<lambda>x y. match_func t x y \<noteq> 0" Null "\<lambda>m h. \<exists>n. m = Some n \<and> n \<notin> dom h"
  "\<lambda>m h v. HashInsert m h t v" "\<lambda>h v. HashRemove h t v" "\<lambda>h v. HashFind h t v"
proof unfold_locales
  fix h v m assume h: "table_ok h" "v \<in> valid" "\<exists>n. m = Some n \<and> n \<notin> dom h"
  then obtain n ds where n: "m = Some n" "n \<notin> dom h" "hash_rep t h ds" "\<forall>C \<in> set ds. bucket_ok C" and fd: "finite (dom h)"
    by (auto simp: table_ok_def)
  let ?C = "put_data mf v (ds ! hash_func t v)"
  have ok: "bucket_ok (ds ! hash_func t v)" using n(4) bound [OF h(2)] hash_rep_length [OF n(3)] by simp
  obtain h' where h': "HashInsert (Some n) h t v = Some (1, h')" "hash_rep t h' (ds[hash_func t v := ?C])"
    "dom h' \<subseteq> insert n (dom h)"
    using HashInsert_spec [OF n(3) bound [OF h(2)] n(2)] by blast
  then have f: "finite (dom h')" using fd finite_subset by blast
  note u = table_ok_update [OF n(3,4) h(2) put_data_ok [OF ok h(2)] h'(2) f]
  have "table_ok h'" using u(1) [OF h(2)] look_put_data [OF ok h(2) h(2)] by auto
  moreover have "HashFind h' t k = (if mf v k \<noteq> 0 then Some v else HashFind h t k)" if "k \<in> valid" for k
    using u(2) [OF that] look_put_data [OF ok h(2) that] by auto
  ultimately show "\<exists>s'. HashInsert m h t v = Some (1, s') \<and> table_ok s'
      \<and> (\<forall>k \<in> valid. HashFind s' t k = (if mf v k \<noteq> 0 then Some v else HashFind h t k))"
    using h'(1) n(1) by auto
next
  fix h v assume h: "table_ok h" "v \<in> valid"
  then obtain ds where n: "hash_rep t h ds" "\<forall>C \<in> set ds. bucket_ok C" and fd: "finite (dom h)" by (auto simp: table_ok_def)
  let ?C = "del_data mf v (ds ! hash_func t v)"
  have ok: "bucket_ok (ds ! hash_func t v)" using n(2) bound [OF h(2)] hash_rep_length [OF n(1)] by simp
  obtain h' where h': "HashRemove h t v = Some h'" "hash_rep t h' (ds[hash_func t v := ?C])" "dom h' \<subseteq> dom h"
    using HashRemove_spec [OF n(1) bound [OF h(2)]] by blast
  then have f: "finite (dom h')" using fd finite_subset by blast
  note u = table_ok_update [OF n h(2) del_data_ok [OF ok] h'(2) f]
  have "table_ok h'" using u(1) [OF h(2)] look_del_data [OF ok h(2) h(2)] by auto
  moreover have "HashFind h' t k = (if mf v k \<noteq> 0 then Some Null else HashFind h t k)" if "k \<in> valid" for k
    using u(2) [OF that] look_del_data [OF ok h(2) that] by auto
  ultimately show "\<exists>s'. HashRemove h t v = Some s' \<and> table_ok s'
      \<and> (\<forall>k \<in> valid. HashFind s' t k = (if mf v k \<noteq> 0 then Some Null else HashFind h t k))"
    using h'(1) by auto
qed

context hash_contract
begin

lemma dictionary_run:
  assumes "\<And>h. finite (dom h) \<Longrightarrow> \<exists>n. malloc h = Some n \<and> n \<notin> dom h" "table_ok h" "op_arg ` set ops \<subseteq> valid"
  shows "\<exists>h'. dict_run (\<lambda>m h v. HashInsert m h t v) (\<lambda>h v. HashRemove h t v) malloc ops h = Some h'
    \<and> (\<forall>k \<in> valid. \<forall>c. HashFind h t k = Some c \<longrightarrow> HashFind h' t k = Some (dict_spec (\<lambda>x y. mf x y \<noteq> 0) Null k ops c))"
proof -
  have "\<exists>n. malloc s = Some n \<and> n \<notin> dom s" if "table_ok s" for s using that assms(1) by (auto simp: table_ok_def)
  from dict.dict_run_find [OF this assms(2,3)] show ?thesis by blast
qed

lemma empty_table_ok:
  "hash_rep t h (replicate (ht_capacity t) []) \<Longrightarrow> finite (dom h) \<Longrightarrow> table_ok h"
  by (auto simp: table_ok_def bucket_ok_def)

lemma empty_table_find:
  "hash_rep t h (replicate (ht_capacity t) []) \<Longrightarrow> k \<in> valid \<Longrightarrow> HashFind h t k = Some Null"
  using table_find [of h "replicate (ht_capacity t) []" k] bound by simp

end

section \<open>Creation\<close>

definition blocks :: "addr list \<Rightarrow> addr list" where
  "blocks ms = concat (map (\<lambda>m. [m, Suc m]) ms)"

lemma buckets_snoc:
  assumes B: "buckets h ls (replicate (length ls) [])" and m: "m \<notin> dom h" "Suc m \<notin> dom h"
    and L: "dlist h' m []" and S: "same_on (- {m, Suc m}) h h'"
  shows "buckets h' (ls @ [m]) (replicate (length (ls @ [m])) [])"
proof -
  have old: "dlist h' (ls ! i) [] \<and> cells (ls ! i) [] \<inter> cells m [] = {}" if "i < length ls" for i
  proof -
    have d: "dlist h (ls ! i) []" using B that by (simp add: buckets_def)
    have "cells (ls ! i) [] \<inter> {m, Suc m} = {}" using dlist_dom [OF d] m by blast
    then show ?thesis using dlist_frame [OF d same_on_subset [OF S]] by (auto simp: cells_def)
  qed
  have pair: "cells (ls ! i) [] \<inter> cells (ls ! j) [] = {}" if "i < length ls" "j < length ls" "i \<noteq> j" for i j
    using B that by (simp add: buckets_def)
  show ?thesis unfolding buckets_def
  proof (intro conjI allI impI)
    fix i assume i: "i < length (ls @ [m])"
    then show "dlist h' ((ls @ [m]) ! i) (replicate (length (ls @ [m])) [] ! i)"
      using old L by (cases "i < length ls") (auto simp: nth_append simp del: replicate.simps)
    fix j assume "j < length (ls @ [m])" "i \<noteq> j"
    then show "cells ((ls @ [m]) ! i) (replicate (length (ls @ [m])) [] ! i) \<inter> cells ((ls @ [m]) ! j) (replicate (length (ls @ [m])) [] ! j) = {}"
      using i old [of i] old [of j] pair [of i j]
      by (cases "i < length ls"; cases "j < length ls") (auto simp: nth_append simp del: replicate.simps)
  qed simp
qed

lemma init_loop_spec:
  "\<lbrakk>buckets h ls (replicate (length ls) []); distinct (blocks ms); set (blocks ms) \<inter> dom h = {};
    hash_arr t = Some (map Some ls @ replicate (length ms) None); finite (dom h)\<rbrakk> \<Longrightarrow>
   \<exists>h'. init_loop h t (map Some ms) (length ls) (length ms) = Some (False, t\<lparr>hash_arr := Some (map Some (ls @ ms))\<rparr>, h')
     \<and> buckets h' (ls @ ms) (replicate (length (ls @ ms)) []) \<and> finite (dom h')"
proof (induction ms arbitrary: h ls t)
  case Nil
  then show ?case by (cases t) simp
next
  case (Cons m ms)
  have m: "m \<notin> dom h" "Suc m \<notin> dom h" using Cons.prems(3) by (auto simp: blocks_def)
  obtain h1 where h1: "DlistCreate h (Some m) = (Some m, h1)" "dlist h1 m []" "dom h1 = {m, Suc m} \<union> dom h" "same_on (- {m, Suc m}) h h1"
    using DlistCreate_spec [OF m] by blast
  let ?t = "t\<lparr>hash_arr := Some (map Some (ls @ [m]) @ replicate (length ms) None)\<rparr>"
  have B: "buckets h1 (ls @ [m]) (replicate (length (ls @ [m])) [])" by (rule buckets_snoc [OF Cons.prems(1) m h1(2,4)])
  have d: "distinct (blocks ms)" "set (blocks ms) \<inter> dom h1 = {}" "finite (dom h1)"
    using Cons.prems(2,3,5) h1(3) by (auto simp: blocks_def)
  obtain h' where h': "init_loop h1 ?t (map Some ms) (length (ls @ [m])) (length ms)
      = Some (False, ?t\<lparr>hash_arr := Some (map Some ((ls @ [m]) @ ms))\<rparr>, h')"
    "buckets h' ((ls @ [m]) @ ms) (replicate (length ((ls @ [m]) @ ms)) [])" "finite (dom h')"
    using Cons.IH [OF B d(1,2) _ d(3), of ?t] by auto
  have "(map Some ls @ replicate (Suc (length ms)) None)[length ls := Some m] = map Some (ls @ [m]) @ replicate (length ms) None"
    by (simp add: list_update_append)
  then have "init_loop h t (map Some (m # ms)) (length ls) (length (m # ms)) = init_loop h1 ?t (map Some ms) (length (ls @ [m])) (length ms)"
    using h1(1) Cons.prems(4) by simp
  then show ?case using h' by simp
qed

lemma HashCreate_spec:
  fixes hf :: "'d vptr \<Rightarrow> nat" and mf :: "'d vptr \<Rightarrow> 'd vptr \<Rightarrow> int" and h :: "'d dheap"
  assumes ms: "distinct (blocks ms)" "set (blocks ms) \<inter> dom h = {}" and fin: "finite (dom h)" and small: "length ms < 2 ^ 61"
  defines "t \<equiv> \<lparr>hash_func = hf, match_func = mf, ht_capacity = length ms, hash_arr = Some (map Some ms)\<rparr>"
  shows "\<exists>h'. HashCreate h True True (map Some ms) hf mf (length ms) = Some (Table t, h')
    \<and> hash_rep t h' (replicate (length ms) []) \<and> finite (dom h')"
proof -
  let ?t = "\<lparr>hash_func = hf, match_func = mf, ht_capacity = length ms, hash_arr = Some (replicate (length ms) None)\<rparr> :: 'd hash_table"
  have "buckets h [] (replicate (length []) [])" by (simp add: buckets_def)
  from init_loop_spec [OF this ms _ fin, of ?t] obtain h' where
    h': "init_loop h ?t (map Some ms) 0 (length ms) = Some (False, t, h')" "buckets h' ms (replicate (length ms) [])" "finite (dom h')"
    by (auto simp: t_def)
  have "(8 * length ms) mod 2 ^ 64 div 8 = length ms" using small by simp
  then have "HashCreate h True True (map Some ms) hf mf (length ms) = Some (Table t, h')"
    using h'(1) by (simp add: HashCreate_def InitHashArray_def)
  moreover have "map (contents h') (replicate (length ms) []) = replicate (length ms) []" by simp
  then have "hash_rep t h' (replicate (length ms) [])" using h'(2) by (force simp: hash_rep_def t_def)
  ultimately show ?thesis using h'(3) by blast
qed

section \<open>The spell checker's functions\<close>

text \<open>\<open>HashCodeDic\<close> reads the first character, as a signed \<open>char\<close> converted to \<open>size_t\<close>; the empty
  word has its terminator there. Data that are no string have no value; 0 stands for it.\<close>

definition char_size :: "char \<Rightarrow> nat" where
  "char_size c = (let n = of_char c in if n < 128 then n else 2 ^ 64 - 256 + n)"

fun HashCodeDic :: "string vptr \<Rightarrow> nat" where
  "HashCodeDic (Elem []) = 0"
| "HashCodeDic (Elem (c # _)) = char_size c mod 65"
| "HashCodeDic _ = 0"

fun CmpFuncDic :: "string vptr \<Rightarrow> string vptr \<Rightarrow> int" where
  "CmpFuncDic (Elem a) (Elem b) = (if a = b then 1 else 0)"
| "CmpFuncDic _ _ = 0"

definition spell_table :: "addr option list option \<Rightarrow> string hash_table" where
  "spell_table arr = \<lparr>hash_func = HashCodeDic, match_func = CmpFuncDic, ht_capacity = 65, hash_arr = arr\<rparr>"

lemma HashCodeDic_less: "HashCodeDic x < 65"
  by (cases x rule: HashCodeDic.cases) simp_all

interpretation spell: hash_contract "spell_table arr" "range Elem" for arr
  by unfold_locales (auto simp: spell_table_def HashCodeDic_less split: if_splits)

section \<open>Properties\<close>

text \<open>C1. A table created with enough memory, whose hash and match functions keep their contract, is a
  dictionary: after any sequence of insertions and removals (allocations succeeding), looking up a
  key gives the data last inserted that matches it, or NULL when none was or it was removed.\<close>

theorem HashTable_is_dictionary:
  assumes "hash_contract \<lparr>hash_func = hf, match_func = mf, ht_capacity = length ms, hash_arr = Some (map Some ms)\<rparr> valid"
    and "distinct (blocks ms)" and "set (blocks ms) \<inter> dom h = {}" and "finite (dom h)" and "length ms < 2 ^ 61"
    and "\<And>h. finite (dom h) \<Longrightarrow> \<exists>n. malloc h = Some n \<and> n \<notin> dom h"
    and "op_arg ` set ops \<subseteq> valid" and "k \<in> valid"
  shows "\<exists>t h0 h'. HashCreate h True True (map Some ms) hf mf (length ms) = Some (Table t, h0)
    \<and> dict_run (\<lambda>m h v. HashInsert m h t v) (\<lambda>h v. HashRemove h t v) malloc ops h0 = Some h'
    \<and> HashFind h' t k = Some (dict_spec (\<lambda>x y. mf x y \<noteq> 0) Null k ops Null)"
proof -
  let ?t = "\<lparr>hash_func = hf, match_func = mf, ht_capacity = length ms, hash_arr = Some (map Some ms)\<rparr>"
  obtain h0 where h0: "HashCreate h True True (map Some ms) hf mf (length ms) = Some (Table ?t, h0)"
    "hash_rep ?t h0 (replicate (ht_capacity ?t) [])" "finite (dom h0)"
    using HashCreate_spec [OF assms(2-5)] by auto
  note ok = hash_contract.empty_table_ok [OF assms(1) h0(2,3)]
  note none = hash_contract.empty_table_find [OF assms(1) h0(2) assms(8)]
  show ?thesis
    using hash_contract.dictionary_run [OF assms(1,6) ok assms(7)] none h0(1) assms(8) by fastforce
qed

definition next_free :: "'d dheap \<Rightarrow> addr option" where
  "next_free h = Some (LEAST n. n \<notin> dom h)"

lemma next_free: "finite (dom h) \<Longrightarrow> \<exists>n. next_free h = Some n \<and> n \<notin> dom h"
  unfolding next_free_def by (metis LeastI_ex ex_new_if_finite infinite_UNIV_nat)

theorem HashTable_is_dictionary_witness:
  "\<exists>t h0 h'. HashCreate Map.empty True True (map Some (map ((*) 2) [0 ..< 65])) HashCodeDic CmpFuncDic 65 = Some (Table t, h0)
    \<and> dict_run (\<lambda>m h v. HashInsert m h t v) (\<lambda>h v. HashRemove h t v) next_free [Put (Elem ''tea''), Put (Elem ''cup''), Del (Elem ''tea'')] h0 = Some h'
    \<and> HashFind h' t (Elem ''cup'') = Some (Elem ''cup'')"
proof -
  let ?ms = "map ((*) 2) [0 ..< 65] :: addr list"
  have d: "distinct (blocks ?ms)" by (simp add: blocks_def upt_conv_Cons)
  have c: "hash_contract \<lparr>hash_func = HashCodeDic, match_func = CmpFuncDic, ht_capacity = length ?ms, hash_arr = Some (map Some ?ms)\<rparr> (range Elem)"
    using spell.hash_contract_axioms [of "Some (map Some ?ms)"] by (simp add: spell_table_def)
  have s: "dict_spec (\<lambda>x y. CmpFuncDic x y \<noteq> 0) Null (Elem ''cup'') [Put (Elem ''tea''), Put (Elem ''cup''), Del (Elem ''tea'')] Null = Elem ''cup''"
    by simp
  show ?thesis
    using HashTable_is_dictionary [OF c d _ _ _ next_free, of Map.empty "[Put (Elem ''tea''), Put (Elem ''cup''), Del (Elem ''tea'')]" "Elem ''cup''"] s
    by simp
qed

text \<open>The number of elements is the total length of the lists, and the table is empty exactly when
  all of them are.\<close>

theorem HashSize_counts:
  assumes "hash_rep t h ds"
  shows "HashSize h t = Some (length (concat ds)) \<and> HashIsEmpty h t = Some (\<forall>C \<in> set ds. C = [])"
  using HashSize_spec [OF assms] by (auto simp: HashIsEmpty_def)

definition one_list_heap :: "nat dheap" where
  "one_list_heap = [0 \<mapsto> \<lparr>nd_data = ListPtr 0, next_node = Some 5, prev_node = None\<rparr>,
     5 \<mapsto> \<lparr>nd_data = Elem 8, next_node = Some 1, prev_node = Some 0\<rparr>,
     1 \<mapsto> \<lparr>nd_data = ListPtr 0, next_node = None, prev_node = Some 5\<rparr>]"

definition one_list_table :: "nat hash_table" where
  "one_list_table = \<lparr>hash_func = \<lambda>_. 0, match_func = \<lambda>_ _. 0, ht_capacity = 1, hash_arr = Some [Some 0]\<rparr>"

theorem HashSize_counts_witness:
  "HashSize one_list_heap one_list_table = Some 1 \<and> HashIsEmpty one_list_heap one_list_table = Some False"
proof -
  have "dat one_list_heap 5 = Elem 8" by (simp add: dat_def one_list_heap_def)
  then have "hash_rep one_list_table one_list_heap [[Elem 8]]"
    unfolding hash_rep_def one_list_table_def
    by (intro exI [of _ "[0]"] exI [of _ "[[5]]"]) (auto simp: buckets_def dlist_def cells_def nxt_def prv_def one_list_heap_def)
  from HashSize_counts [OF this] show ?thesis by simp
qed

text \<open>When a list cannot be allocated, the half-built table is freed and a pointer to it is returned.\<close>

lemma HashCreate_dangling:
  "\<exists>h. HashCreate Map.empty True True [Some 4, None] hf mf 2 = Some (FreedTable, h)"
proof -
  have "(8 * 2) mod 2 ^ 64 div 8 = Suc (Suc 0)" by simp
  then show ?thesis
    unfolding HashCreate_def InitHashArray_def hash_table.simps
    by (simp add: numeral_2_eq_2 DlistCreate_def DestroyBySize_def ht_list_def cget_def
      aget_def aset_def DlistDestroy_def DlistBegin_def load_def destroy_loop.simps DlistNext_def free_node_def)
qed

end
