(* ===== verification/Avl.thy ===== *)
theory Avl
  imports Prelude
begin

text \<open>
  The balanced search tree of \<open>ds/avl/avl.c\<close>. A node is reachable by one path only, so a tree is a
  datatype and assigning a son is building the node again. The field \<open>height\<close> holds the balance
  factor (left minus right), except that the rotations store the height of the subtree there; the
  lemmas show that insertion never depends on such a value.
\<close>

section \<open>Data and simple operations\<close>

datatype 'v AVL_node = NULL_node | AVLNode (left_son: "'v AVL_node") (node_data: 'v) (bal: int) (right_son: "'v AVL_node")

datatype relatives = LEFT | RIGHT

fun is_NULL :: "'v AVL_node \<Rightarrow> bool" where
  "is_NULL NULL_node = True"
| "is_NULL _ = False"

text \<open>\<open>NodeCreate\<close> clears the node, so that its \<open>height\<close> is 0.\<close>

definition NodeCreate :: "bool \<Rightarrow> 'v \<Rightarrow> 'v AVL_node" where
  "NodeCreate mem data = (if mem then AVLNode NULL_node data 0 NULL_node else NULL_node)"

definition GetDirection :: "('v \<Rightarrow> 'v \<Rightarrow> int) \<Rightarrow> 'v \<Rightarrow> 'v \<Rightarrow> relatives" where
  "GetDirection compare data insert_data = (if 0 < compare data insert_data then LEFT else RIGHT)"

fun NodeIsLeaf :: "'v AVL_node \<Rightarrow> bool" where
  "NodeIsLeaf NULL_node = False"
| "NodeIsLeaf (AVLNode l d b r) = (is_NULL l \<and> is_NULL r)"

fun NodeTreeSize :: "'v AVL_node \<Rightarrow> nat" where
  "NodeTreeSize NULL_node = 0"
| "NodeTreeSize (AVLNode l d b r) =
     (if NodeIsLeaf (AVLNode l d b r) then 1 else 1 + NodeTreeSize l + NodeTreeSize r)"

fun NodeHeigth :: "'v AVL_node \<Rightarrow> nat" where
  "NodeHeigth NULL_node = 0"
| "NodeHeigth (AVLNode l d b r) =
     (if NodeIsLeaf (AVLNode l d b r) then 1
      else if 1 + NodeHeigth l > 1 + NodeHeigth r then 1 + NodeHeigth l else 1 + NodeHeigth r)"

text \<open>Storing a value in the field \<open>height\<close>.\<close>

fun set_bal :: "'v AVL_node \<Rightarrow> int \<Rightarrow> 'v AVL_node option" where
  "set_bal NULL_node v = None"
| "set_bal (AVLNode l d b r) v = Some (AVLNode l d v r)"

text \<open>A rotation of a node without the son it pivots on dereferences NULL. The height stored in the
  pivot is taken after that of the node has been stored.\<close>

fun RotateRight :: "'v AVL_node \<Rightarrow> 'v AVL_node option" where
  "RotateRight (AVLNode (AVLNode ll ld lb lr) d b r) =
     (let node = AVLNode lr d (int (NodeHeigth (AVLNode lr d b r))) r
      in set_bal (AVLNode ll ld lb node) (int (NodeHeigth (AVLNode ll ld lb node))))"
| "RotateRight _ = None"

fun RotateLeft :: "'v AVL_node \<Rightarrow> 'v AVL_node option" where
  "RotateLeft (AVLNode l d b (AVLNode rl rd rb rr)) =
     (let node = AVLNode l d (int (NodeHeigth (AVLNode l d b rl))) rl
      in set_bal (AVLNode node rd rb rr) (int (NodeHeigth (AVLNode node rd rb rr))))"
| "RotateLeft _ = None"

definition BalanceTreeIfNeeded :: "'v AVL_node \<Rightarrow> 'v AVL_node option" where
  "BalanceTreeIfNeeded node = (case node of
     NULL_node \<Rightarrow> None
   | AVLNode l d b r \<Rightarrow>
       if 1 < b then
         (if is_NULL l then None
          else if - 1 < bal l then RotateRight node
          else do { l' \<leftarrow> RotateLeft l; RotateRight (AVLNode l' d b r) })
       else if b < - 1 then
         (if is_NULL r then None
          else if bal r < 1 then RotateLeft node
          else do { r' \<leftarrow> RotateRight r; RotateLeft (AVLNode l d b r') })
       else Some node)"

definition bal_of :: "'v AVL_node \<Rightarrow> 'v AVL_node \<Rightarrow> int" where
  "bal_of l r = int (NodeHeigth l) - int (NodeHeigth r)"

section \<open>Insertion and search\<close>

fun BalancedInsert :: "bool \<Rightarrow> ('v \<Rightarrow> 'v \<Rightarrow> int) \<Rightarrow> 'v \<Rightarrow> 'v AVL_node \<Rightarrow> 'v AVL_node option" where
  "BalancedInsert mem compare data NULL_node = Some (NodeCreate mem data)"
| "BalancedInsert mem compare data (AVLNode l d b r) =
     (case GetDirection compare d data of
        LEFT \<Rightarrow> do {
          l' \<leftarrow> BalancedInsert mem compare data l;
          if is_NULL l' then Some NULL_node else BalanceTreeIfNeeded (AVLNode l' d (bal_of l' r) r)
        }
      | RIGHT \<Rightarrow> do {
          r' \<leftarrow> BalancedInsert mem compare data r;
          if is_NULL r' then Some NULL_node else BalanceTreeIfNeeded (AVLNode l d (bal_of l r') r')
        })"

record 'v AVL =
  avl_compare :: "'v \<Rightarrow> 'v \<Rightarrow> int"
  avl_root :: "'v AVL_node"

definition AVLCreate :: "bool \<Rightarrow> ('v \<Rightarrow> 'v \<Rightarrow> int) \<Rightarrow> 'v AVL option" where
  "AVLCreate mem compare = (if mem then Some \<lparr>avl_compare = compare, avl_root = NULL_node\<rparr> else None)"

definition AVLInsert :: "bool \<Rightarrow> 'v AVL \<Rightarrow> 'v \<Rightarrow> (int \<times> 'v AVL) option" where
  "AVLInsert mem tree data = do {
     root \<leftarrow> BalancedInsert mem (avl_compare tree) data (avl_root tree);
     Some (if is_NULL root then 0 else 1, tree\<lparr>avl_root := root\<rparr>)
   }"

definition AVLIsEmpty :: "'v AVL \<Rightarrow> bool" where
  "AVLIsEmpty tree \<longleftrightarrow> is_NULL (avl_root tree)"

definition AVLSize :: "'v AVL \<Rightarrow> nat" where
  "AVLSize tree = NodeTreeSize (avl_root tree)"

definition AVLHeight :: "'v AVL \<Rightarrow> nat" where
  "AVLHeight tree = NodeHeigth (avl_root tree)"

text \<open>The search returns the key it was given, not the data found; \<open>None\<close> is NULL.\<close>

fun NodeFind :: "('v \<Rightarrow> 'v \<Rightarrow> int) \<Rightarrow> 'v AVL_node \<Rightarrow> 'v \<Rightarrow> 'v option" where
  "NodeFind compare NULL_node k = None"
| "NodeFind compare (AVLNode l d b r) k =
     (if compare d k = 0 then Some k
      else if NodeIsLeaf (AVLNode l d b r) then None
      else case GetDirection compare d k of
        LEFT \<Rightarrow> if is_NULL l then None else NodeFind compare l k
      | RIGHT \<Rightarrow> if is_NULL r then None else NodeFind compare r k)"

definition AVLFind :: "'v AVL \<Rightarrow> 'v \<Rightarrow> 'v option" where
  "AVLFind tree k = NodeFind (avl_compare tree) (avl_root tree) k"

section \<open>Removal\<close>

text \<open>
  \<open>MostLeftNode\<close> and the relinking that follows it in \<open>RemoveWithTwoSons\<close>: the data of the leftmost
  node, and the subtree with that node replaced by its right son. No \<open>height\<close> on the way changes.
\<close>

fun take_most_left :: "'v AVL_node \<Rightarrow> ('v \<times> 'v AVL_node) option" where
  "take_most_left NULL_node = None"
| "take_most_left (AVLNode l d b r) =
     (if is_NULL l then Some (d, r)
      else do { (x, l') \<leftarrow> take_most_left l; Some (x, AVLNode l' d b r) })"

fun RemoveWithTwoSons :: "'v AVL_node \<Rightarrow> 'v AVL_node option" where
  "RemoveWithTwoSons NULL_node = None"
| "RemoveWithTwoSons (AVLNode l d b r) = do { (x, r') \<leftarrow> take_most_left r; Some (AVLNode l x b r') }"

fun GetNumOfSons :: "'v AVL_node \<Rightarrow> nat option" where
  "GetNumOfSons NULL_node = None"
| "GetNumOfSons (AVLNode l d b r) = Some ((if is_NULL l then 0 else 1) + (if is_NULL r then 0 else 2))"

text \<open>Removing the root: with one son, the fields of the son but not its \<open>height\<close> are copied into the
  root. (The code also evaluates \<open>relatives[2]\<close>, outside the array, and does not use the value.)\<close>

fun remove_root :: "'v AVL_node \<Rightarrow> 'v AVL_node option" where
  "remove_root node = do {
     sons \<leftarrow> GetNumOfSons node;
     if sons = 0 then Some NULL_node
     else if sons = 1 then (case node of AVLNode (AVLNode ll ld lb lr) d b r \<Rightarrow> Some (AVLNode ll ld b lr) | _ \<Rightarrow> None)
     else if sons = 2 then (case node of AVLNode l d b (AVLNode rl rd rb rr) \<Rightarrow> Some (AVLNode rl rd b rr) | _ \<Rightarrow> None)
     else RemoveWithTwoSons node
   }"

text \<open>What becomes of a son that is removed from its parent.\<close>

fun remove_son :: "'v AVL_node \<Rightarrow> 'v AVL_node option" where
  "remove_son node = do {
     sons \<leftarrow> GetNumOfSons node;
     if sons = 0 then Some NULL_node
     else if sons = 1 then Some (left_son node)
     else if sons = 2 then Some (right_son node)
     else RemoveWithTwoSons node
   }"

fun RemoveNode :: "'v AVL_node \<Rightarrow> relatives \<Rightarrow> 'v AVL_node option" where
  "RemoveNode NULL_node direction = Some NULL_node"
| "RemoveNode (AVLNode l d b r) LEFT = do { l' \<leftarrow> remove_son l; Some (AVLNode l' d b r) }"
| "RemoveNode (AVLNode l d b r) RIGHT = do { r' \<leftarrow> remove_son r; Some (AVLNode l d b r') }"

fun refresh :: "'v AVL_node \<Rightarrow> 'v AVL_node option" where
  "refresh NULL_node = None"
| "refresh (AVLNode l d b r) = BalanceTreeIfNeeded (AVLNode l d (bal_of l r) r)"

text \<open>\<open>FindToRemove\<close> returns the parent of the node it removed (or the root when there is none), and
  each caller rebalances and returns what it was given in place of its own node.\<close>

fun FindToRemove :: "'v AVL_node \<Rightarrow> 'v AVL_node \<Rightarrow> 'v AVL_node \<Rightarrow> 'v \<Rightarrow> ('v \<Rightarrow> 'v \<Rightarrow> int) \<Rightarrow> relatives \<Rightarrow> 'v AVL_node option" where
  "FindToRemove root NULL_node parent_node data compare direction = Some root"
| "FindToRemove root (AVLNode l d b r) parent_node data compare direction =
     (if compare d data = 0 then RemoveNode parent_node direction
      else do {
        node \<leftarrow> (case GetDirection compare d data of
           LEFT \<Rightarrow> FindToRemove root l (AVLNode l d b r) data compare LEFT
         | RIGHT \<Rightarrow> FindToRemove root r (AVLNode l d b r) data compare RIGHT);
        refresh node
      })"

definition AVLRemove :: "'v AVL \<Rightarrow> 'v \<Rightarrow> 'v AVL option" where
  "AVLRemove tree data =
     (case avl_root tree of
        NULL_node \<Rightarrow> Some tree
      | AVLNode l d b r \<Rightarrow>
          if avl_compare tree d data = 0
          then do { root \<leftarrow> remove_root (AVLNode l d b r); Some (tree\<lparr>avl_root := root\<rparr>) }
          else do {
            root \<leftarrow> FindToRemove (avl_root tree) (avl_root tree) NULL_node data (avl_compare tree) LEFT;
            Some (tree\<lparr>avl_root := root\<rparr>)
          })"

section \<open>Traversals\<close>

fun AVLForEachPreOrder :: "('v \<Rightarrow> 'p \<Rightarrow> int \<times> 'p) \<Rightarrow> 'v AVL_node \<Rightarrow> 'p \<Rightarrow> int \<times> 'p" where
  "AVLForEachPreOrder f NULL_node p = (0, p)"
| "AVLForEachPreOrder f (AVLNode l d b r) p =
     (let (res, p) = f d p in
      if res = 0 then
        (let (res, p) = AVLForEachPreOrder f l p in
         if res = 0 then AVLForEachPreOrder f r p else (res, p))
      else (res, p))"

fun AVLForEachInOrder :: "('v \<Rightarrow> 'p \<Rightarrow> int \<times> 'p) \<Rightarrow> 'v AVL_node \<Rightarrow> 'p \<Rightarrow> int \<times> 'p" where
  "AVLForEachInOrder f NULL_node p = (0, p)"
| "AVLForEachInOrder f (AVLNode l d b r) p =
     (let (res, p) = AVLForEachInOrder f l p in
      if res = 0 then
        (let (res, p) = f d p in
         if res = 0 then AVLForEachInOrder f r p else (res, p))
      else (res, p))"

fun AVLForEachPostOrder :: "('v \<Rightarrow> 'p \<Rightarrow> int \<times> 'p) \<Rightarrow> 'v AVL_node \<Rightarrow> 'p \<Rightarrow> int \<times> 'p" where
  "AVLForEachPostOrder f NULL_node p = (0, p)"
| "AVLForEachPostOrder f (AVLNode l d b r) p =
     (let (res, p) = AVLForEachPostOrder f l p in
      if res = 0 then
        (let (res, p) = AVLForEachPostOrder f r p in
         if res = 0 then f d p else (res, p))
      else (res, p))"

definition AVLForEach :: "'v AVL \<Rightarrow> ('v \<Rightarrow> 'p \<Rightarrow> int \<times> 'p) \<Rightarrow> 'p \<Rightarrow> int \<Rightarrow> int \<times> 'p" where
  "AVLForEach tree operation param travesal_type =
     (if travesal_type = 1 then AVLForEachPreOrder operation (avl_root tree) param
      else if travesal_type = 2 then AVLForEachInOrder operation (avl_root tree) param
      else if travesal_type = 3 then AVLForEachPostOrder operation (avl_root tree) param
      else (0, param))"

section \<open>Orders, balance\<close>

fun preorder :: "'v AVL_node \<Rightarrow> 'v list" where
  "preorder NULL_node = []" | "preorder (AVLNode l d b r) = d # preorder l @ preorder r"

fun inorder :: "'v AVL_node \<Rightarrow> 'v list" where
  "inorder NULL_node = []" | "inorder (AVLNode l d b r) = inorder l @ d # inorder r"

fun postorder :: "'v AVL_node \<Rightarrow> 'v list" where
  "postorder NULL_node = []" | "postorder (AVLNode l d b r) = postorder l @ postorder r @ [d]"

fun balanced :: "'v AVL_node \<Rightarrow> bool" where
  "balanced NULL_node = True"
| "balanced (AVLNode l d b r) \<longleftrightarrow> \<bar>bal_of l r\<bar> \<le> 1 \<and> balanced l \<and> balanced r"

lemma is_NULL_iff [simp]: "is_NULL t \<longleftrightarrow> t = NULL_node"
  by (cases t) auto

lemma NodeHeigth_Node [simp]: "NodeHeigth (AVLNode l d b r) = Suc (max (NodeHeigth l) (NodeHeigth r))"
  by auto

declare NodeHeigth.simps(2) [simp del]

lemma NodeHeigth_0 [simp]: "NodeHeigth t = 0 \<longleftrightarrow> t = NULL_node"
  by (cases t) auto

lemma NodeTreeSize_inorder: "NodeTreeSize t = length (inorder t)"
  by (induction t) auto

lemma inorder_empty [simp]: "inorder t = [] \<longleftrightarrow> t = NULL_node"
  by (cases t) auto

lemma RotateRight_inorder: "RotateRight t = Some t' \<Longrightarrow> inorder t' = inorder t"
  by (cases t rule: RotateRight.cases) (auto simp: Let_def)

lemma RotateLeft_inorder: "RotateLeft t = Some t' \<Longrightarrow> inorder t' = inorder t"
  by (cases t rule: RotateLeft.cases) (auto simp: Let_def)

lemma Balance_inorder: "BalanceTreeIfNeeded t = Some t' \<Longrightarrow> inorder t' = inorder t"
  by (auto simp: BalanceTreeIfNeeded_def bind_eq_Some_conv split: AVL_node.splits if_splits
      dest!: RotateRight_inorder RotateLeft_inorder)

text \<open>What insertion leaves in the root when the tree has grown: its exact balance factor, not 0.\<close>

definition grown :: "'v AVL_node \<Rightarrow> 'v AVL_node \<Rightarrow> bool" where
  "grown t t' \<longleftrightarrow> t' \<noteq> NULL_node \<and> balanced t' \<and> (NodeHeigth t' = NodeHeigth t
     \<or> NodeHeigth t' = Suc (NodeHeigth t) \<and> (t = NULL_node \<or> bal t' = bal_of (left_son t') (right_son t') \<and> bal t' \<noteq> 0))"

lemma grown_left:
  assumes t: "balanced (AVLNode l d b r)" and g: "grown l l'"
  shows "\<exists>t'. BalanceTreeIfNeeded (AVLNode l' d (bal_of l' r) r) = Some t' \<and> grown (AVLNode l d b r) t'"
proof (cases "bal_of l' r \<le> 1")
  case True
  then have "BalanceTreeIfNeeded (AVLNode l' d (bal_of l' r) r) = Some (AVLNode l' d (bal_of l' r) r)"
    using t g by (auto simp: BalanceTreeIfNeeded_def grown_def bal_of_def)
  then show ?thesis using True t g by (auto simp: grown_def bal_of_def max_def split: if_splits)
next
  case False
  then have h: "NodeHeigth l' = Suc (NodeHeigth l)" "NodeHeigth l = Suc (NodeHeigth r)" "bal_of l' r = 2"
    using t g by (auto simp: grown_def bal_of_def)
  then have "l \<noteq> NULL_node" by auto
  then obtain ll ld lb lr where l': "l' = AVLNode ll ld lb lr" "lb = bal_of ll lr" "\<bar>lb\<bar> \<le> 1" "lb \<noteq> 0" "balanced ll" "balanced lr"
    using g h(1) by (cases l') (auto simp: grown_def)
  then have lb: "lb = 1 \<or> lb = - 1" by linarith
  show ?thesis
  proof (cases "lb = 1")
    case True
    then have "NodeHeigth ll = Suc (NodeHeigth r)" "NodeHeigth lr = NodeHeigth r" using l' h by (auto simp: bal_of_def max_def split: if_splits)
    then show ?thesis using l' h True t by (auto simp: BalanceTreeIfNeeded_def grown_def bal_of_def Let_def)
  next
    case False
    then have hh: "NodeHeigth lr = Suc (NodeHeigth r)" "NodeHeigth ll = NodeHeigth r" "lb = - 1"
      using l' lb h by (auto simp: bal_of_def max_def split: if_splits)
    then obtain a e eb c where "lr = AVLNode a e eb c" by (cases lr) auto
    then show ?thesis using l' h hh t by (auto simp: BalanceTreeIfNeeded_def grown_def bal_of_def Let_def)
  qed
qed

lemma grown_right:
  assumes t: "balanced (AVLNode l d b r)" and g: "grown r r'"
  shows "\<exists>t'. BalanceTreeIfNeeded (AVLNode l d (bal_of l r') r') = Some t' \<and> grown (AVLNode l d b r) t'"
proof (cases "- 1 \<le> bal_of l r'")
  case True
  then have "BalanceTreeIfNeeded (AVLNode l d (bal_of l r') r') = Some (AVLNode l d (bal_of l r') r')"
    using t g by (auto simp: BalanceTreeIfNeeded_def grown_def bal_of_def)
  then show ?thesis using True t g by (auto simp: grown_def bal_of_def max_def split: if_splits)
next
  case False
  then have h: "NodeHeigth r' = Suc (NodeHeigth r)" "NodeHeigth r = Suc (NodeHeigth l)" "bal_of l r' = - 2"
    using t g by (auto simp: grown_def bal_of_def)
  then have "r \<noteq> NULL_node" by auto
  then obtain rl rd rb rr where r': "r' = AVLNode rl rd rb rr" "rb = bal_of rl rr" "\<bar>rb\<bar> \<le> 1" "rb \<noteq> 0" "balanced rl" "balanced rr"
    using g h(1) by (cases r') (auto simp: grown_def)
  then have rb: "rb = 1 \<or> rb = - 1" by linarith
  show ?thesis
  proof (cases "rb = - 1")
    case True
    then have "NodeHeigth rr = Suc (NodeHeigth l)" "NodeHeigth rl = NodeHeigth l" using r' h by (auto simp: bal_of_def max_def split: if_splits)
    then show ?thesis using r' h True t by (auto simp: BalanceTreeIfNeeded_def grown_def bal_of_def Let_def)
  next
    case False
    then have hh: "NodeHeigth rl = Suc (NodeHeigth l)" "NodeHeigth rr = NodeHeigth l" "rb = 1"
      using r' rb h by (auto simp: bal_of_def max_def split: if_splits)
    then obtain a e eb c where "rl = AVLNode a e eb c" by (cases rl) auto
    then show ?thesis using r' h hh t by (auto simp: BalanceTreeIfNeeded_def grown_def bal_of_def Let_def)
  qed
qed

lemma BalancedInsert_grown:
  "balanced t \<Longrightarrow> \<exists>t'. BalancedInsert True cmp x t = Some t' \<and> grown t t' \<and> mset (inorder t') = add_mset x (mset (inorder t))"
proof (induction t)
  case NULL_node
  then show ?case by (simp add: NodeCreate_def grown_def bal_of_def)
next
  case (AVLNode l d b r)
  show ?case
  proof (cases "GetDirection cmp d x")
    case LEFT
    obtain l' where l': "BalancedInsert True cmp x l = Some l'" "grown l l'" "mset (inorder l') = add_mset x (mset (inorder l))"
      using AVLNode by auto
    obtain t' where "BalanceTreeIfNeeded (AVLNode l' d (bal_of l' r) r) = Some t'" "grown (AVLNode l d b r) t'"
      using grown_left [OF AVLNode.prems l'(2)] by blast
    then show ?thesis using LEFT l' Balance_inorder by (fastforce simp: grown_def)
  next
    case RIGHT
    obtain r' where r': "BalancedInsert True cmp x r = Some r'" "grown r r'" "mset (inorder r') = add_mset x (mset (inorder r))"
      using AVLNode by auto
    obtain t' where "BalanceTreeIfNeeded (AVLNode l d (bal_of l r') r') = Some t'" "grown (AVLNode l d b r) t'"
      using grown_right [OF AVLNode.prems r'(2)] by blast
    then show ?thesis using RIGHT r' Balance_inorder by (fastforce simp: grown_def)
  qed
qed

section \<open>Order\<close>

context key_comparison
begin

abbreviation search_tree :: "'v AVL_node \<Rightarrow> bool" where
  "search_tree t \<equiv> sorted (map key (inorder t))"

lemma direction_left: "GetDirection cmp d x = LEFT \<longleftrightarrow> key x < key d"
  by (simp add: GetDirection_def cmp_greater)

lemma BalancedInsert_sorted:
  "search_tree t \<Longrightarrow> BalancedInsert True cmp x t = Some t' \<Longrightarrow> balanced t \<Longrightarrow> search_tree t'"
proof (induction t arbitrary: t')
  case NULL_node
  then show ?case by (auto simp: NodeCreate_def)
next
  case (AVLNode l d b r)
  have s: "search_tree l" "search_tree r" "\<forall>y \<in> set (inorder l). key y \<le> key d" "\<forall>y \<in> set (inorder r). key d \<le> key y"
    using AVLNode.prems(1) by (auto simp: sorted_append)
  have lr: "\<forall>y \<in> set (inorder l). \<forall>z \<in> set (inorder r). key y \<le> key z" using AVLNode.prems(1) by (auto simp: sorted_append)
  show ?case
  proof (cases "GetDirection cmp d x")
    case LEFT
    obtain l' where l': "BalancedInsert True cmp x l = Some l'" "grown l l'" "mset (inorder l') = add_mset x (mset (inorder l))"
      using BalancedInsert_grown [of l cmp x] AVLNode.prems(3) by auto
    then have i: "inorder t' = inorder l' @ d # inorder r"
      using AVLNode.prems(2) LEFT Balance_inorder by (fastforce simp: grown_def)
    have "set (inorder l') = insert x (set (inorder l))" using l'(3) by (metis set_mset_add_mset_insert set_mset_mset)
    moreover have "search_tree l'" using AVLNode.IH(1) [OF s(1) l'(1)] AVLNode.prems(3) by simp
    moreover have "key x < key d" using LEFT direction_left by simp
    ultimately show ?thesis unfolding i using s lr by (fastforce simp: sorted_append)
  next
    case RIGHT
    obtain r' where r': "BalancedInsert True cmp x r = Some r'" "grown r r'" "mset (inorder r') = add_mset x (mset (inorder r))"
      using BalancedInsert_grown [of r cmp x] AVLNode.prems(3) by auto
    then have i: "inorder t' = inorder l @ d # inorder r'"
      using AVLNode.prems(2) RIGHT Balance_inorder by (fastforce simp: grown_def)
    have "set (inorder r') = insert x (set (inorder r))" using r'(3) by (metis set_mset_add_mset_insert set_mset_mset)
    moreover have "search_tree r'" using AVLNode.IH(2) [OF s(2) r'(1)] AVLNode.prems(3) by simp
    moreover have "key d \<le> key x" using RIGHT direction_left [of d x] by simp
    ultimately show ?thesis unfolding i using s lr by (fastforce simp: sorted_append)
  qed
qed

lemma NodeFind_iff:
  "search_tree t \<Longrightarrow> NodeFind cmp t k = (if \<exists>d \<in> set (inorder t). key d = key k then Some k else None)"
proof (induction t)
  case (AVLNode l d b r)
  have s: "search_tree l" "search_tree r" "\<forall>y \<in> set (inorder l). key y \<le> key d" "\<forall>y \<in> set (inorder r). key d \<le> key y"
    using AVLNode.prems by (auto simp: sorted_append)
  show ?case
  proof (cases "key d = key k")
    case True
    then show ?thesis by (simp add: cmp_zero)
  next
    case False
    show ?thesis
    proof (cases "key k < key d")
      case True
      then have "\<not> (\<exists>y \<in> set (inorder r). key y = key k)" using s(4) by force
      then show ?thesis using False True AVLNode.IH(1) [OF s(1)] direction_left [of d k] by (cases l; cases r) (auto simp: cmp_zero)
    next
      case right: False
      then have "\<not> (\<exists>y \<in> set (inorder l). key y = key k)" using s(3) False by force
      moreover have "GetDirection cmp d k = RIGHT" using right direction_left [of d k] relatives.exhaust by metis
      ultimately show ?thesis using False AVLNode.IH(2) [OF s(2)] by (cases l; cases r) (auto simp: cmp_zero)
    qed
  qed
qed simp

end

lemma AVLForEach_orders:
  "AVLForEachPreOrder f t p = run_action f (preorder t) 0 p"
  "AVLForEachInOrder f t p = run_action f (inorder t) 0 p"
  "AVLForEachPostOrder f t p = run_action f (postorder t) 0 p"
  by (induction t arbitrary: p) (auto simp: run_action_append split: prod.splits)

section \<open>Removal\<close>

lemma take_most_left_inorder: "t \<noteq> NULL_node \<Longrightarrow> \<exists>x t'. take_most_left t = Some (x, t') \<and> inorder t = x # inorder t'"
  by (induction t) auto

lemma RemoveWithTwoSons_inorder:
  "r \<noteq> NULL_node \<Longrightarrow> \<exists>t'. RemoveWithTwoSons (AVLNode l d b r) = Some t' \<and> inorder t' = inorder l @ inorder r"
  using take_most_left_inorder [of r] by auto

lemma remove_root_inorder:
  "\<exists>t'. remove_root (AVLNode l d b r) = Some t' \<and> inorder t' = inorder l @ inorder r"
proof (cases "l = NULL_node \<or> r = NULL_node")
  case True
  then show ?thesis by (cases l; cases r) auto
next
  case False
  then show ?thesis using RemoveWithTwoSons_inorder [of r l d b] by simp
qed

lemma remove_son_inorder:
  "\<exists>t'. remove_son (AVLNode l d b r) = Some t' \<and> inorder t' = inorder l @ inorder r"
proof (cases "l = NULL_node \<or> r = NULL_node")
  case True
  then show ?thesis by (cases l; cases r) auto
next
  case False
  then show ?thesis using RemoveWithTwoSons_inorder [of r l d b] by simp
qed

text \<open>When nothing matches, each caller rebalances the root again, which does not change it.\<close>

fun exact_root :: "'v AVL_node \<Rightarrow> 'v AVL_node" where
  "exact_root NULL_node = NULL_node"
| "exact_root (AVLNode l d b r) = AVLNode l d (bal_of l r) r"

lemma refresh_balanced: "balanced t \<Longrightarrow> t \<noteq> NULL_node \<Longrightarrow> refresh t = Some (exact_root t)"
  by (cases t) (auto simp: BalanceTreeIfNeeded_def)

lemma exact_root_facts [simp]:
  "balanced (exact_root t) = balanced t" "exact_root t = NULL_node \<longleftrightarrow> t = NULL_node" "exact_root (exact_root t) = exact_root t"
  "inorder (exact_root t) = inorder t"
  by (cases t; simp)+

lemma FindToRemove_absent:
  assumes root: "balanced root" "root \<noteq> NULL_node"
  shows "\<forall>d \<in> set (inorder t). cmp d k \<noteq> 0 \<Longrightarrow>
    \<exists>t'. FindToRemove root t parent k cmp dir = Some t' \<and> (t' = root \<or> t' = exact_root root)"
proof (induction t arbitrary: parent dir)
  case (AVLNode l d b r)
  have L: "\<exists>t'. FindToRemove root l (AVLNode l d b r) k cmp LEFT = Some t' \<and> (t' = root \<or> t' = exact_root root)"
    and R: "\<exists>t'. FindToRemove root r (AVLNode l d b r) k cmp RIGHT = Some t' \<and> (t' = root \<or> t' = exact_root root)"
    using AVLNode by simp_all
  have "refresh root = Some (exact_root root)" "refresh (exact_root root) = Some (exact_root root)"
    using refresh_balanced [OF root] refresh_balanced [of "exact_root root"] root by simp_all
  then show ?case using L R AVLNode.prems by (auto split: relatives.split)
qed simp

section \<open>Properties\<close>

text \<open>C17. Inserting into a balanced search tree, when memory is available, never dereferences NULL and
  gives a balanced search tree with exactly the new element added; the heights of the sons of each
  node differ by at most one although the stored balance factors are not always exact.\<close>

theorem AVLInsert_balanced:
  assumes "key_comparison (avl_compare tree) key" and "balanced (avl_root tree)"
    and "sorted (map key (inorder (avl_root tree)))"
  shows "\<exists>tree'. AVLInsert True tree x = Some (1, tree') \<and> balanced (avl_root tree')
    \<and> sorted (map key (inorder (avl_root tree')))
    \<and> mset (inorder (avl_root tree')) = add_mset x (mset (inorder (avl_root tree)))
    \<and> AVLSize tree' = AVLSize tree + 1 \<and> AVLHeight tree' \<le> AVLHeight tree + 1"
proof -
  obtain t' where t': "BalancedInsert True (avl_compare tree) x (avl_root tree) = Some t'" "grown (avl_root tree) t'"
    "mset (inorder t') = add_mset x (mset (inorder (avl_root tree)))"
    using BalancedInsert_grown [OF assms(2)] by blast
  have "length (inorder t') = length (inorder (avl_root tree)) + 1"
    using t'(3) by (metis Suc_eq_plus1 size_add_mset size_mset)
  moreover have "sorted (map key (inorder t'))"
    using key_comparison.BalancedInsert_sorted [OF assms(1,3) t'(1) assms(2)] .
  ultimately show ?thesis using t'
    by (auto simp: AVLInsert_def grown_def AVLSize_def AVLHeight_def NodeTreeSize_inorder)
qed

definition int_diff :: "int \<Rightarrow> int \<Rightarrow> int" where
  "int_diff a b = a - b"

interpretation int_diff: key_comparison int_diff "\<lambda>x. x"
  by unfold_locales (simp_all add: int_diff_def)

definition avl_example :: "int AVL" where
  "avl_example = \<lparr>avl_compare = int_diff, avl_root = AVLNode (AVLNode NULL_node 10 0 NULL_node) 20 1 NULL_node\<rparr>"

theorem AVLInsert_balanced_witness:
  "\<exists>tree'. AVLInsert True avl_example 15 = Some (1, tree') \<and> balanced (avl_root tree')
     \<and> sorted (inorder (avl_root tree')) \<and> mset (inorder (avl_root tree')) = {#15, 10, 20#}"
proof -
  have "balanced (avl_root avl_example)" "sorted (map (\<lambda>x. x) (inorder (avl_root avl_example)))"
    "key_comparison (avl_compare avl_example) (\<lambda>x. x)"
    using int_diff.key_comparison_axioms by (simp_all add: avl_example_def bal_of_def)
  moreover have "inorder (avl_root avl_example) = [10, 20]" by (simp add: avl_example_def)
  ultimately show ?thesis using AVLInsert_balanced [of avl_example "\<lambda>x. x" 15] by auto
qed

text \<open>Searching a search tree answers the key exactly when some element compares equal to it, and
  NULL otherwise.\<close>

theorem AVLFind_correct:
  assumes "key_comparison (avl_compare tree) key" and "sorted (map key (inorder (avl_root tree)))"
  shows "AVLFind tree k = (if \<exists>d \<in> set (inorder (avl_root tree)). avl_compare tree d k = 0 then Some k else None)"
  using key_comparison.NodeFind_iff [OF assms, of k] key_comparison.cmp_zero [OF assms(1)] by (simp add: AVLFind_def)

theorem AVLFind_correct_witness: "AVLFind avl_example 10 = Some 10 \<and> AVLFind avl_example 11 = None"
proof -
  have "sorted (map (\<lambda>x. x) (inorder (avl_root avl_example)))" "key_comparison (avl_compare avl_example) (\<lambda>x. x)"
    using int_diff.key_comparison_axioms by (simp_all add: avl_example_def)
  from AVLFind_correct [OF this(2,1), of 10] AVLFind_correct [OF this(2,1), of 11] show ?thesis
    by (simp add: avl_example_def int_diff_def)
qed

text \<open>The three traversals call the action on the elements in pre-, in- and post-order, stop at the
  first non-zero status and return it; any other traversal type does nothing.\<close>

theorem AVLForEach_traverses:
  "AVLForEach tree f p 1 = run_action f (preorder (avl_root tree)) 0 p
   \<and> AVLForEach tree f p 2 = run_action f (inorder (avl_root tree)) 0 p
   \<and> AVLForEach tree f p 3 = run_action f (postorder (avl_root tree)) 0 p
   \<and> AVLForEach tree f p 0 = (0, p)"
  by (simp add: AVLForEach_def AVLForEach_orders)

text \<open>Removing data that compare equal to the root takes exactly the root out and keeps the order of
  the others; removing data that no element compares equal to leaves the elements of a balanced
  tree as they are.\<close>

theorem AVLRemove_root_or_absent:
  assumes "avl_root tree = AVLNode l d b r"
  shows "if avl_compare tree d x = 0
    then \<exists>tree'. AVLRemove tree x = Some tree' \<and> inorder (avl_root tree') = inorder l @ inorder r
    else balanced (avl_root tree) \<and> (\<forall>y \<in> set (inorder (avl_root tree)). avl_compare tree y x \<noteq> 0)
      \<longrightarrow> (\<exists>tree'. AVLRemove tree x = Some tree' \<and> inorder (avl_root tree') = inorder (avl_root tree))"
proof (cases "avl_compare tree d x = 0")
  case True
  obtain t' where "remove_root (AVLNode l d b r) = Some t'" "inorder t' = inorder l @ inorder r"
    using remove_root_inorder [of l d b r] by (elim exE conjE)
  then show ?thesis using True assms by (auto simp: AVLRemove_def simp del: remove_root.simps)
next
  case False
  have "\<exists>tree'. AVLRemove tree x = Some tree' \<and> inorder (avl_root tree') = inorder (avl_root tree)"
    if a: "balanced (avl_root tree)" "\<forall>y \<in> set (inorder (avl_root tree)). avl_compare tree y x \<noteq> 0"
  proof -
    obtain t' where "FindToRemove (avl_root tree) (avl_root tree) NULL_node x (avl_compare tree) LEFT = Some t'"
      "t' = avl_root tree \<or> t' = exact_root (avl_root tree)"
      using FindToRemove_absent [of "avl_root tree" "avl_root tree" "avl_compare tree" x] a assms by fastforce
    then show ?thesis using False assms by (auto simp: AVLRemove_def simp del: FindToRemove.simps)
  qed
  then show ?thesis using False by simp
qed

theorem AVLRemove_root_or_absent_witness:
  "\<exists>tree'. AVLRemove avl_example 20 = Some tree' \<and> inorder (avl_root tree') = [10]"
proof -
  have "avl_root avl_example = AVLNode (AVLNode NULL_node 10 0 NULL_node) 20 1 NULL_node" by (simp add: avl_example_def)
  from AVLRemove_root_or_absent [OF this, of 20] show ?thesis by (simp add: avl_example_def int_diff_def)
qed

text \<open>When memory runs out during an insertion into a non-empty tree, NULL is handed up to the root: the
  whole tree is lost.\<close>

lemma AVLInsert_no_memory: "BalancedInsert False cmp x t = Some NULL_node"
  by (induction t) (auto simp: NodeCreate_def split: relatives.split)

text \<open>Removing an element two levels below the root loses the root and its other subtree: the son of
  the root takes the place of the root.\<close>

definition avl_deep :: "int AVL" where
  "avl_deep = \<lparr>avl_compare = int_diff, avl_root = AVLNode (AVLNode (AVLNode NULL_node 5 0 NULL_node) 10 0 (AVLNode NULL_node 15 0 NULL_node))
     20 0 (AVLNode NULL_node 30 0 NULL_node)\<rparr>"

lemma AVLRemove_loses_nodes:
  "\<exists>tree'. AVLRemove avl_deep 5 = Some tree' \<and> inorder (avl_root tree') = [10, 15] \<and> inorder (avl_root avl_deep) = [5, 10, 15, 20, 30]"
  by (simp add: AVLRemove_def avl_deep_def int_diff_def GetDirection_def bal_of_def BalanceTreeIfNeeded_def)

text \<open>A rotation stores the height where the balance factor belongs. A later removal reads it and
  rotates the wrong way, through a NULL son: after these insertions and removals the run faults.\<close>

definition avl_after :: "int list \<Rightarrow> int list \<Rightarrow> int AVL option" where
  "avl_after ins del = do {
     t \<leftarrow> foldl (\<lambda>t x. do { t \<leftarrow> t; (_, t) \<leftarrow> AVLInsert True t x; Some t }) (AVLCreate True int_diff) ins;
     foldl (\<lambda>t x. do { t \<leftarrow> t; AVLRemove t x }) (Some t) del
   }"

lemmas avl_eval = avl_after_def AVLCreate_def AVLInsert_def AVLRemove_def int_diff_def GetDirection_def bal_of_def
  BalanceTreeIfNeeded_def NodeCreate_def Let_def

lemma AVLRemove_faults: "avl_after [20, 10, 30, 5, 15, 12] [10, 12, 5] = None"
  by (simp add: avl_eval)

lemma AVLRemove_fault_step: "\<exists>t. avl_after [20, 10, 30, 5, 15, 12] [10, 12] = Some t"
  by (simp add: avl_eval)

section \<open>Destruction\<close>

text \<open>The nodes in the order in which they are freed, named by their data; \<open>AVLDestroyByElement\<close> frees what is
  below its node and reads the node, so NULL faults.\<close>

fun AVLDestroyByElement :: "'v AVL_node \<Rightarrow> 'v list option" where
  "AVLDestroyByElement NULL_node = None"
| "AVLDestroyByElement (AVLNode l d b r) = do {
     fl \<leftarrow> (if is_NULL l then Some [] else do { f \<leftarrow> AVLDestroyByElement l; Some (f @ [node_data l]) });
     fr \<leftarrow> (if is_NULL r then Some [] else do { f \<leftarrow> AVLDestroyByElement r; Some (f @ [node_data r]) });
     Some (fl @ fr)
   }"

definition AVLDestroy :: "'v AVL \<Rightarrow> 'v list option" where
  "AVLDestroy tree = (if \<not> AVLIsEmpty tree
     then do { f \<leftarrow> AVLDestroyByElement (avl_root tree); Some (f @ [node_data (avl_root tree)]) }
     else Some [])"

lemma AVLDestroyByElement_all:
  "t \<noteq> NULL_node \<Longrightarrow> \<exists>f. AVLDestroyByElement t = Some f \<and> add_mset (node_data t) (mset f) = mset (inorder t)"
proof (induction t)
  case (AVLNode l d b r)
  obtain fl where fl: "(if is_NULL l then Some [] else do { f \<leftarrow> AVLDestroyByElement l; Some (f @ [node_data l]) }) = Some fl"
    "mset fl = mset (inorder l)"
    using AVLNode.IH(1) by (cases l) (auto simp del: AVLDestroyByElement.simps)
  obtain fr where fr: "(if is_NULL r then Some [] else do { f \<leftarrow> AVLDestroyByElement r; Some (f @ [node_data r]) }) = Some fr"
    "mset fr = mset (inorder r)"
    using AVLNode.IH(2) by (cases r) (auto simp del: AVLDestroyByElement.simps)
  have "AVLDestroyByElement (AVLNode l d b r) = Some (fl @ fr)" by (simp only: AVLDestroyByElement.simps fl(1) fr(1) bind.bind_lunit)
  then show ?case using fl(2) fr(2) by (intro exI [of _ "fl @ fr"]) simp
qed simp

lemma AVLDestroy_frees_all: "\<exists>f. AVLDestroy tree = Some f \<and> mset f = mset (inorder (avl_root tree))"
proof (cases "avl_root tree = NULL_node")
  case True
  then show ?thesis by (simp add: AVLDestroy_def AVLIsEmpty_def)
next
  case False
  then have "\<not> is_NULL (avl_root tree)" by (cases "avl_root tree") simp_all
  then show ?thesis using AVLDestroyByElement_all [OF False] by (auto simp: AVLDestroy_def AVLIsEmpty_def)
qed

end
