(* ===== verification/Sorts.thy ===== *)
theory Sorts
  imports Prelude
begin

text \<open>
  The comparison sorts of \<open>ds/utils/sorts/sorts.c\<close> on arrays of \<open>int\<close>. An access outside the array is
  a fault, the index arithmetic is that of \<open>size_t\<close>, and a loop that does not end has the value
  \<open>None\<close>. Each sort is shown to return a sorted permutation, and the lengths for which it
  does not are named.
\<close>

section \<open>Swapping sorts\<close>

definition SwapInt :: "'a list \<Rightarrow> nat \<Rightarrow> nat \<Rightarrow> 'a list option" where
  "SwapInt arr i j = do {
     a \<leftarrow> aget arr i;
     b \<leftarrow> aget arr j;
     arr \<leftarrow> aset arr i b;
     aset arr j a
   }"

partial_function (option) bubble_inner :: "int list \<Rightarrow> nat \<Rightarrow> nat \<Rightarrow> int list option" where
  "bubble_inner arr limit sort_index =
     (if sort_index < limit then do {
        a \<leftarrow> aget arr sort_index;
        b \<leftarrow> aget arr (sort_index + 1);
        arr \<leftarrow> (if a > b then SwapInt arr sort_index (sort_index + 1) else Some arr);
        bubble_inner arr limit (sort_index + 1)
      } else Some arr)"

partial_function (option) bubble_outer :: "int list \<Rightarrow> nat \<Rightarrow> nat \<Rightarrow> int list option" where
  "bubble_outer arr len runner =
     (if runner < szsub len 1 then do {
        arr \<leftarrow> bubble_inner arr (szsub (szsub len runner) 1) 0;
        bubble_outer arr len (runner + 1)
      } else Some arr)"

definition BubbleSort :: "int list \<Rightarrow> nat \<Rightarrow> int list option" where
  "BubbleSort arr len = bubble_outer arr len 0"

partial_function (option) min_loop :: "int list \<Rightarrow> nat \<Rightarrow> nat \<Rightarrow> nat \<Rightarrow> nat option" where
  "min_loop arr len runner min_index =
     (if runner < len then do {
        a \<leftarrow> aget arr runner;
        m \<leftarrow> aget arr min_index;
        min_loop arr len (runner + 1) (if a < m then runner else min_index)
      } else Some min_index)"

partial_function (option) selection_outer :: "int list \<Rightarrow> nat \<Rightarrow> nat \<Rightarrow> int list option" where
  "selection_outer arr len sort_index =
     (if sort_index < szsub len 1 then do {
        min_index \<leftarrow> min_loop arr len sort_index sort_index;
        arr \<leftarrow> SwapInt arr sort_index min_index;
        selection_outer arr len (sort_index + 1)
      } else Some arr)"

definition SelectionSort :: "int list \<Rightarrow> nat \<Rightarrow> int list option" where
  "SelectionSort arr len = selection_outer arr len 0"

partial_function (option) insertion_inner :: "int list \<Rightarrow> nat \<Rightarrow> int list option" where
  "insertion_inner arr sort_runner =
     (if 0 < sort_runner then do {
        a \<leftarrow> aget arr (sort_runner - 1);
        b \<leftarrow> aget arr sort_runner;
        if a > b then do {
          arr \<leftarrow> SwapInt arr sort_runner (sort_runner - 1);
          insertion_inner arr (sort_runner - 1)
        } else Some arr
      } else Some arr)"

partial_function (option) insertion_outer :: "int list \<Rightarrow> nat \<Rightarrow> nat \<Rightarrow> int list option" where
  "insertion_outer arr len runner =
     (if runner < len then do {
        arr \<leftarrow> insertion_inner arr runner;
        insertion_outer arr len (runner + 1)
      } else Some arr)"

definition InsertionSort :: "int list \<Rightarrow> nat \<Rightarrow> int list option" where
  "InsertionSort arr len = insertion_outer arr len 1"

section \<open>Merge sort\<close>

text \<open>
  Positions are offsets in the whole array: \<open>arr1\<close> is \<open>off\<close> and \<open>arr2\<close> is \<open>mid\<close>. The buffer of
  \<open>MergeBySize\<close> is filled from its start and is the list of what was written. \<open>mem\<close> answers
  \<open>malloc\<close>; when it fails the slice stays as it was.
\<close>

partial_function (option) merge_both ::
  "int list \<Rightarrow> nat \<Rightarrow> nat \<Rightarrow> nat \<Rightarrow> nat \<Rightarrow> int list \<Rightarrow> (nat \<times> nat \<times> int list) option" where
  "merge_both arr runner1 end1 runner2 end2 buf =
     (if runner1 \<noteq> end1 \<and> runner2 \<noteq> end2 then do {
        a \<leftarrow> aget arr runner1;
        b \<leftarrow> aget arr runner2;
        if a < b then merge_both arr (runner1 + 1) end1 runner2 end2 (buf @ [a])
        else merge_both arr runner1 end1 (runner2 + 1) end2 (buf @ [b])
      } else Some (runner1, runner2, buf))"

partial_function (option) merge_rest :: "int list \<Rightarrow> nat \<Rightarrow> nat \<Rightarrow> int list \<Rightarrow> int list option" where
  "merge_rest arr runner end_of buf =
     (if runner \<noteq> end_of then do {
        a \<leftarrow> aget arr runner;
        merge_rest arr (runner + 1) end_of (buf @ [a])
      } else Some buf)"

definition MergeBySize :: "bool \<Rightarrow> int list \<Rightarrow> nat \<Rightarrow> nat \<Rightarrow> nat \<Rightarrow> int list option" where
  "MergeBySize mem arr off mid len = do {
     a \<leftarrow> aget arr mid;
     b \<leftarrow> aget arr (mid - 1);
     if a > b then Some arr
     else if \<not> mem then Some arr
     else do {
       (runner1, runner2, buf) \<leftarrow> merge_both arr off mid mid (off + len) [];
       buf \<leftarrow> merge_rest arr runner1 mid buf;
       buf \<leftarrow> merge_rest arr runner2 (off + len) buf;
       Some (take off arr @ buf @ drop (off + len) arr)
     }
   }"

partial_function (option) MergeSort :: "(nat \<Rightarrow> nat \<Rightarrow> bool) \<Rightarrow> int list \<Rightarrow> nat \<Rightarrow> nat \<Rightarrow> int list option" where
  "MergeSort mem arr off num_of_elements =
     (if num_of_elements = 1 then Some arr
      else do {
        arr \<leftarrow> MergeSort mem arr off (num_of_elements div 2);
        arr \<leftarrow> MergeSort mem arr (off + num_of_elements div 2) (num_of_elements div 2 + num_of_elements mod 2);
        MergeBySize (mem off num_of_elements) arr off (off + num_of_elements div 2) num_of_elements
      })"

section \<open>Quick sort\<close>

text \<open>
  The elements are opaque and \<open>size\<close> is their size in bytes; positions are counted in elements
  and are integers because the slice left of the first element ends before it. \<open>VoidSwap\<close>
  saves an element in a pointer variable of 8 bytes, so a larger one overruns it.
\<close>

definition elem_get :: "'v list \<Rightarrow> int \<Rightarrow> 'v option" where
  "elem_get arr i = (if 0 \<le> i then aget arr (nat i) else None)"

definition VoidSwap :: "'v list \<Rightarrow> int \<Rightarrow> int \<Rightarrow> nat \<Rightarrow> 'v list option" where
  "VoidSwap arr i j size_in_bytes = do {
     c_assert (size_in_bytes \<le> 8);
     a \<leftarrow> elem_get arr i;
     b \<leftarrow> elem_get arr j;
     Some (arr[nat i := b, nat j := a])
   }"

partial_function (option) run_forward :: "('v \<Rightarrow> 'v \<Rightarrow> int) \<Rightarrow> 'v list \<Rightarrow> int \<Rightarrow> int \<Rightarrow> int \<Rightarrow> int option" where
  "run_forward compare arr pivot runner back_runner =
     (if runner < back_runner then do {
        p \<leftarrow> elem_get arr pivot;
        a \<leftarrow> elem_get arr runner;
        if 0 \<le> compare p a then run_forward compare arr pivot (runner + 1) back_runner
        else Some runner
      } else Some runner)"

partial_function (option) run_back :: "('v \<Rightarrow> 'v \<Rightarrow> int) \<Rightarrow> 'v list \<Rightarrow> int \<Rightarrow> int \<Rightarrow> int \<Rightarrow> int option" where
  "run_back compare arr pivot runner back_runner = do {
     a \<leftarrow> elem_get arr back_runner;
     p \<leftarrow> elem_get arr pivot;
     if 0 < compare a p \<and> back_runner \<ge> runner then run_back compare arr pivot runner (back_runner - 1)
     else Some back_runner
   }"

partial_function (option) partition_loop ::
  "('v \<Rightarrow> 'v \<Rightarrow> int) \<Rightarrow> nat \<Rightarrow> 'v list \<Rightarrow> int \<Rightarrow> int \<Rightarrow> int \<Rightarrow> ('v list \<times> int) option" where
  "partition_loop compare sz arr pivot runner back_runner =
     (if runner < back_runner then do {
        runner \<leftarrow> run_forward compare arr pivot runner back_runner;
        back_runner \<leftarrow> run_back compare arr pivot runner back_runner;
        arr \<leftarrow> (if runner < back_runner then VoidSwap arr runner back_runner sz else Some arr);
        partition_loop compare sz arr pivot runner back_runner
      } else Some (arr, back_runner))"

partial_function (option) QuickSortByIndexes ::
  "('v \<Rightarrow> 'v \<Rightarrow> int) \<Rightarrow> nat \<Rightarrow> 'v list \<Rightarrow> int \<Rightarrow> int \<Rightarrow> 'v list option" where
  "QuickSortByIndexes compare sz arr first last_elem =
     (if first < last_elem then do {
        (arr, back_runner) \<leftarrow> partition_loop compare sz arr first first last_elem;
        arr \<leftarrow> VoidSwap arr first back_runner sz;
        arr \<leftarrow> QuickSortByIndexes compare sz arr first (back_runner - 1);
        QuickSortByIndexes compare sz arr (back_runner + 1) last_elem
      } else Some arr)"

definition QuickSort :: "('v \<Rightarrow> 'v \<Rightarrow> int) \<Rightarrow> nat \<Rightarrow> 'v list \<Rightarrow> nat \<Rightarrow> 'v list option" where
  "QuickSort compare sz base nmemb = QuickSortByIndexes compare sz base 0 (int nmemb - 1)"

section \<open>Bubble sort\<close>

lemma SwapInt_in: "i < length xs \<Longrightarrow> j < length xs \<Longrightarrow> SwapInt xs i j = Some (xs[i := xs ! j, j := xs ! i])"
  by (simp add: SwapInt_def)

lemma swap_adjacent: "(as @ x # y # bs)[length as := y, Suc (length as) := x] = as @ y # x # bs"
  by (simp add: list_update_append)

lemma bubble_inner_spec:
  "\<lbrakk>\<forall>a \<in> set as. a \<le> x\<rbrakk> \<Longrightarrow>
   \<exists>zs z. bubble_inner (as @ x # bs @ cs) (length as + length bs) (length as) = Some (zs @ z # cs)
     \<and> mset (zs @ [z]) = mset (as @ x # bs) \<and> (\<forall>a \<in> set zs. a \<le> z)"
proof (induction bs arbitrary: as x)
  case Nil
  have "bubble_inner (as @ x # [] @ cs) (length as + length []) (length as) = Some (as @ x # cs)"
    by (simp add: bubble_inner.simps)
  then show ?case using Nil by (intro exI [of _ as] exI [of _ x]) simp
next
  case (Cons y bs)
  define u v where "u = min x y" and "v = max x y"
  have uv: "{#u, v#} = {#x, y#}" by (simp add: u_def v_def min_def max_def add_mset_commute)
  have "bubble_inner (as @ x # (y # bs) @ cs) (length as + length (y # bs)) (length as)
      = bubble_inner ((as @ [u]) @ v # bs @ cs) (length (as @ [u]) + length bs) (length (as @ [u]))"
    using swap_adjacent [of as x y "bs @ cs"]
    by (subst bubble_inner.simps) (simp add: SwapInt_in nth_append u_def v_def min_def max_def)
  moreover have "\<forall>a \<in> set (as @ [u]). a \<le> v" using Cons.prems by (auto simp: u_def v_def)
  then obtain zs z where "bubble_inner ((as @ [u]) @ v # bs @ cs) (length (as @ [u]) + length bs) (length (as @ [u])) = Some (zs @ z # cs)"
    "mset (zs @ [z]) = mset ((as @ [u]) @ v # bs)" "\<forall>a \<in> set zs. a \<le> z"
    using Cons.IH by blast
  moreover have "mset ((as @ [u]) @ v # bs) = mset (as @ x # y # bs)" using uv by simp
  ultimately show ?case by metis
qed

lemma bubble_outer_spec:
  "\<lbrakk>sorted cs; \<forall>p \<in> set ps. \<forall>c \<in> set cs. p \<le> c; ps \<noteq> []; length (ps @ cs) < 2 ^ 64\<rbrakk> \<Longrightarrow>
   \<exists>ys. bubble_outer (ps @ cs) (length (ps @ cs)) (length cs) = Some ys \<and> sorted ys \<and> mset ys = mset (ps @ cs)"
proof (induction ps arbitrary: cs rule: length_induct)
  case (1 ps)
  let ?n = "length (ps @ cs)"
  have n1: "szsub ?n 1 = ?n - 1" using 1(5) by (intro szsub_ge) (cases ps, use 1(4) in auto)
  obtain x bs where ps: "ps = x # bs" using 1(4) by (cases ps) auto
  show ?case
  proof (cases bs)
    case Nil
    then have "bubble_outer (ps @ cs) ?n (length cs) = Some (ps @ cs)" using ps n1 by (subst bubble_outer.simps) simp
    then show ?thesis using 1(2,3) ps Nil by simp
  next
    case (Cons b bs')
    have "szsub ?n (length cs) = length ps" using 1(5) szsub_ge [of "length cs" ?n] by simp
    moreover have "szsub (length ps) 1 = length bs" using 1(5) szsub_ge [of 1 "length ps"] ps by simp
    ultimately have lim: "szsub (szsub ?n (length cs)) 1 = length [] + length bs" by simp
    obtain zs z where z: "bubble_inner ([] @ x # bs @ cs) (length [] + length bs) (length []) = Some (zs @ z # cs)"
      "mset (zs @ [z]) = mset ([] @ x # bs)" "\<forall>a \<in> set zs. a \<le> z"
      using bubble_inner_spec [of "[]" x bs cs] by auto
    have len: "length zs = length bs" using arg_cong [OF z(2), of size] by simp
    have ne: "zs \<noteq> []" using len Cons by auto
    have st: "set (zs @ [z]) = set ps" using arg_cong [OF z(2), of set_mset] ps by simp
    have s: "sorted (z # cs)" "\<forall>p \<in> set zs. \<forall>c \<in> set (z # cs). p \<le> c" using 1(2,3) st z(3) by auto
    have "bubble_outer (ps @ cs) ?n (length cs) = bubble_outer (zs @ z # cs) (length (zs @ z # cs)) (length (z # cs))"
      using z(1) lim n1 ps Cons len by (subst bubble_outer.simps) simp
    moreover have "\<exists>ys. bubble_outer (zs @ z # cs) (length (zs @ z # cs)) (length (z # cs)) = Some ys
        \<and> sorted ys \<and> mset ys = mset (zs @ z # cs)"
      using 1(1)[rule_format, of zs "z # cs"] s ne len Cons ps 1(5) by simp
    moreover have "mset (zs @ z # cs) = mset (ps @ cs)" using z(2) ps by (simp add: add.assoc)
    ultimately show ?thesis by metis
  qed
qed

lemma BubbleSort_spec:
  "\<lbrakk>arr \<noteq> []; length arr < 2 ^ 64\<rbrakk> \<Longrightarrow> \<exists>ys. BubbleSort arr (length arr) = Some ys \<and> sorted ys \<and> mset ys = mset arr"
  using bubble_outer_spec [of "[]" arr] by (simp add: BubbleSort_def)

section \<open>Selection sort\<close>

lemma min_loop_spec:
  "\<lbrakk>m < length xs; r \<le> length xs; i \<le> m; \<forall>j. i \<le> j \<and> j < r \<longrightarrow> xs ! m \<le> xs ! j\<rbrakk> \<Longrightarrow>
   \<exists>k. min_loop xs (length xs) r m = Some k \<and> i \<le> k \<and> k < length xs \<and> (\<forall>j. i \<le> j \<and> j < length xs \<longrightarrow> xs ! k \<le> xs ! j)"
  if "i \<le> r" for xs
  using that
proof (induction "length xs - r" arbitrary: r m)
  case 0
  then have "min_loop xs (length xs) r m = Some m" by (subst min_loop.simps) simp
  then show ?case using 0 by auto
next
  case (Suc n)
  then have r: "r < length xs" by simp
  let ?m = "if xs ! r < xs ! m then r else m"
  have e: "min_loop xs (length xs) r m = min_loop xs (length xs) (r + 1) ?m"
    using r Suc.prems(1) by (subst min_loop.simps) simp
  have "xs ! ?m \<le> xs ! j" if "i \<le> j" "j < Suc r" for j
    using that Suc.prems(4) by (cases "j = r") (auto simp: less_Suc_eq split: if_splits intro: order_trans less_imp_le)
  then show ?case unfolding e using Suc r by (intro Suc.hyps(1)) auto
qed

lemma selection_outer_spec:
  "\<lbrakk>sorted (take i xs); \<forall>a \<in> set (take i xs). \<forall>b \<in> set (drop i xs). a \<le> b; i < length xs; length xs < 2 ^ 64\<rbrakk> \<Longrightarrow>
   \<exists>ys. selection_outer xs (length xs) i = Some ys \<and> sorted ys \<and> mset ys = mset xs"
proof (induction "length xs - i" arbitrary: xs i)
  case (Suc n)
  have n1: "szsub (length xs) 1 = length xs - 1" using Suc.prems(3,4) by (intro szsub_ge) auto
  show ?case
  proof (cases "i < length xs - 1")
    case False
    then have i: "length xs = Suc i" using Suc.prems(3) by simp
    then have "xs = take i xs @ drop i xs" "length (drop i xs) = 1" by simp_all
    then obtain z where "drop i xs = [z]" "xs = take i xs @ [z]" by (metis length_0_conv length_Suc_conv One_nat_def)
    then have "sorted xs" using Suc.prems(1,2) by (metis list.set_intros(1) sorted_append sorted1 set_ConsD empty_iff list.set(1))
    moreover have "selection_outer xs (length xs) i = Some xs" using n1 False by (subst selection_outer.simps) simp
    ultimately show ?thesis by simp
  next
    case True
    obtain k where k: "min_loop xs (length xs) i i = Some k" "i \<le> k" "k < length xs" "\<forall>j. i \<le> j \<and> j < length xs \<longrightarrow> xs ! k \<le> xs ! j"
      using min_loop_spec [of i i i xs] Suc.prems(3) by auto
    let ?ys = "xs[i := xs ! k, k := xs ! i]"
    have ms: "mset ?ys = mset xs" using k Suc.prems(3) by (simp add: mset_swap_list)
    have tk: "take i ?ys = take i xs" using k(2) by simp
    have di: "mset (drop i ?ys) = mset (drop i xs)"
      using ms tk by (metis append_take_drop_id mset_append add_left_cancel)
    have yi: "?ys ! i = xs ! k" using k Suc.prems(3) by (auto simp: nth_list_update)
    have hd: "drop i ?ys = xs ! k # drop (Suc i) ?ys" using Suc.prems(3) yi by (metis Cons_nth_drop_Suc length_list_update)
    have le: "xs ! k \<le> b" if "b \<in> set (drop i xs)" for b
      using that k(4) by (auto simp: in_set_conv_nth)
    have sd: "set (drop i ?ys) = set (drop i xs)" using di by (metis set_mset_mset)
    have tS: "take (Suc i) ?ys = take i xs @ [xs ! k]" using tk yi Suc.prems(3) by (metis length_list_update take_Suc_conv_app_nth)
    have k_in: "xs ! k \<in> set (drop i xs)" using hd sd by (metis list.set_intros(1))
    have dS: "set (drop (Suc i) ?ys) \<subseteq> set (drop i xs)" using hd sd by (metis set_subset_Cons)
    have "sorted (take (Suc i) ?ys)" unfolding tS using Suc.prems(1,2) k_in by (auto simp: sorted_append)
    moreover have "\<forall>a \<in> set (take (Suc i) ?ys). \<forall>b \<in> set (drop (Suc i) ?ys). a \<le> b"
      unfolding tS using Suc.prems(2) le dS by auto
    ultimately have "\<exists>zs. selection_outer ?ys (length ?ys) (Suc i) = Some zs \<and> sorted zs \<and> mset zs = mset ?ys"
      using Suc.hyps(1) [of ?ys "Suc i"] Suc.hyps(2) True Suc.prems(4) by simp
    moreover have "selection_outer xs (length xs) i = selection_outer ?ys (length ?ys) (Suc i)"
      using n1 True k SwapInt_in [of i xs k] Suc.prems(3) by (subst selection_outer.simps) simp
    ultimately show ?thesis using ms by simp
  qed
qed simp

lemma SelectionSort_spec:
  "\<lbrakk>arr \<noteq> []; length arr < 2 ^ 64\<rbrakk> \<Longrightarrow> \<exists>ys. SelectionSort arr (length arr) = Some ys \<and> sorted ys \<and> mset ys = mset arr"
  using selection_outer_spec [of 0 arr] by (simp add: SelectionSort_def)

section \<open>Insertion sort\<close>

lemma insertion_inner_spec:
  "\<lbrakk>sorted (as @ bs); \<forall>b \<in> set bs. x < b\<rbrakk> \<Longrightarrow>
   \<exists>ys. insertion_inner (as @ x # bs @ cs) (length as) = Some (ys @ cs) \<and> sorted ys \<and> mset ys = mset (as @ x # bs)"
proof (induction as arbitrary: bs rule: rev_induct)
  case Nil
  have "insertion_inner ([] @ x # bs @ cs) (length []) = Some ((x # bs) @ cs)" by (simp add: insertion_inner.simps)
  then show ?case using Nil by (intro exI [of _ "x # bs"]) auto
next
  case (snoc a as)
  let ?xs = "(as @ [a]) @ x # bs @ cs"
  have g: "aget ?xs (length (as @ [a]) - 1) = Some a" "aget ?xs (length (as @ [a])) = Some x"
    by (simp_all add: aget_def nth_append)
  show ?case
  proof (cases "a > x")
    case False
    have "insertion_inner ?xs (length (as @ [a])) = Some (((as @ [a]) @ x # bs) @ cs)"
      using g False by (subst insertion_inner.simps) simp
    moreover have "sorted ((as @ [a]) @ x # bs)" using snoc.prems False by (auto simp: sorted_append less_imp_le)
    ultimately show ?thesis by blast
  next
    case True
    have sw: "SwapInt ?xs (length (as @ [a])) (length (as @ [a]) - 1) = Some (as @ x # (a # bs) @ cs)"
      using swap_adjacent [of as a x "bs @ cs"] by (simp add: SwapInt_def nth_append list_update_append)
    have "insertion_inner ?xs (length (as @ [a])) = insertion_inner (as @ x # (a # bs) @ cs) (length as)"
      using g True sw by (subst insertion_inner.simps) simp
    moreover have "sorted (as @ a # bs)" "\<forall>b \<in> set (a # bs). x < b" using snoc.prems True by auto
    then obtain ys where "insertion_inner (as @ x # (a # bs) @ cs) (length as) = Some (ys @ cs)" "sorted ys" "mset ys = mset (as @ x # a # bs)"
      using snoc.IH [of "a # bs"] by auto
    ultimately show ?thesis by (intro exI [of _ ys]) (simp add: add_mset_commute)
  qed
qed

lemma insertion_outer_spec:
  "sorted as \<Longrightarrow> as \<noteq> [] \<Longrightarrow> \<exists>ys. insertion_outer (as @ bs) (length (as @ bs)) (length as) = Some ys \<and> sorted ys \<and> mset ys = mset (as @ bs)"
proof (induction bs arbitrary: as)
  case Nil
  then show ?case by (subst insertion_outer.simps) simp
next
  case (Cons b bs)
  obtain ys where y: "insertion_inner (as @ b # bs) (length as) = Some (ys @ bs)" "sorted ys" "mset ys = mset (as @ [b])"
    using insertion_inner_spec [of as "[]" b bs] Cons.prems(1) by auto
  have len: "length ys = Suc (length as)" using arg_cong [OF y(3), of size] by simp
  then have "insertion_outer (as @ b # bs) (length (as @ b # bs)) (length as) = insertion_outer (ys @ bs) (length (ys @ bs)) (length ys)"
    using y(1) by (subst insertion_outer.simps) simp
  moreover have "ys \<noteq> []" using len by auto
  ultimately show ?case using Cons.IH [OF y(2)] y(3) by auto
qed

lemma InsertionSort_spec: "\<exists>ys. InsertionSort arr (length arr) = Some ys \<and> sorted ys \<and> mset ys = mset arr"
proof (cases arr)
  case Nil
  then show ?thesis by (simp add: InsertionSort_def insertion_outer.simps)
next
  case (Cons a arr')
  then show ?thesis using insertion_outer_spec [of "[a]" arr'] by (simp add: InsertionSort_def)
qed

section \<open>Merge sort\<close>

lemma merge_rest_spec:
  "r \<le> e \<Longrightarrow> e \<le> length xs \<Longrightarrow> merge_rest xs r e buf = Some (buf @ take (e - r) (drop r xs))"
proof (induction "e - r" arbitrary: r buf)
  case 0
  then show ?case by (subst merge_rest.simps) simp
next
  case (Suc n)
  then have "merge_rest xs r e buf = merge_rest xs (r + 1) e (buf @ [xs ! r])"
    by (subst merge_rest.simps) simp
  also have "\<dots> = Some ((buf @ [xs ! r]) @ take (e - (r + 1)) (drop (r + 1) xs))"
    using Suc by (intro Suc.hyps(1)) auto
  also have "xs ! r # take (e - (r + 1)) (drop (r + 1) xs) = take (e - r) (drop r xs)"
    using Suc by (simp add: take_Cons' Cons_nth_drop_Suc [symmetric])
  ultimately show ?case by simp
qed

fun merge_lists :: "int list \<Rightarrow> int list \<Rightarrow> int list" where
  "merge_lists [] ys = ys"
| "merge_lists xs [] = xs"
| "merge_lists (x # xs) (y # ys) = (if x < y then x # merge_lists xs (y # ys) else y # merge_lists (x # xs) ys)"

lemma merge_lists_Nil2 [simp]: "merge_lists xs [] = xs"
  by (cases xs) simp_all

lemma mset_merge_lists: "mset (merge_lists xs ys) = mset xs + mset ys"
  by (induction xs ys rule: merge_lists.induct) simp_all

lemma set_merge_lists: "set (merge_lists xs ys) = set xs \<union> set ys"
  by (metis mset_merge_lists set_mset_mset set_mset_union)

lemma sorted_merge_lists: "sorted xs \<Longrightarrow> sorted ys \<Longrightarrow> sorted (merge_lists xs ys)"
  by (induction xs ys rule: merge_lists.induct) (auto simp: set_merge_lists)

lemma merge_both_spec:
  "\<lbrakk>r1 \<le> e1; e1 \<le> length xs; r2 \<le> e2; e2 \<le> length xs\<rbrakk> \<Longrightarrow>
   \<exists>s1 s2 out. merge_both xs r1 e1 r2 e2 buf = Some (s1, s2, buf @ out) \<and> s1 \<le> e1 \<and> s2 \<le> e2
     \<and> merge_lists (take (e1 - r1) (drop r1 xs)) (take (e2 - r2) (drop r2 xs))
       = out @ take (e1 - s1) (drop s1 xs) @ take (e2 - s2) (drop s2 xs)"
proof (induction "(e1 - r1) + (e2 - r2)" arbitrary: r1 r2 buf rule: less_induct)
  case less
  show ?case
  proof (cases "r1 \<noteq> e1 \<and> r2 \<noteq> e2")
    case False
    then have "merge_both xs r1 e1 r2 e2 buf = Some (r1, r2, buf)" by (subst merge_both.simps) auto
    then show ?thesis using False less.prems by (intro exI [of _ r1] exI [of _ r2] exI [of _ "[]"]) auto
  next
    case True
    have c1: "take (e1 - r1) (drop r1 xs) = xs ! r1 # take (e1 - Suc r1) (drop (Suc r1) xs)"
      and c2: "take (e2 - r2) (drop r2 xs) = xs ! r2 # take (e2 - Suc r2) (drop (Suc r2) xs)"
      using True less.prems by (simp_all add: take_Cons' Cons_nth_drop_Suc [symmetric])
    have d1: "(e1 - Suc r1) + (e2 - r2) < (e1 - r1) + (e2 - r2)"
      and d2: "(e1 - r1) + (e2 - Suc r2) < (e1 - r1) + (e2 - r2)"
      using True less.prems by linarith+
    show ?thesis
    proof (cases "xs ! r1 < xs ! r2")
      case lt: True
      then have s: "merge_both xs r1 e1 r2 e2 buf = merge_both xs (Suc r1) e1 r2 e2 (buf @ [xs ! r1])"
        using True less.prems by (subst merge_both.simps) simp
      obtain s1 s2 out where o: "merge_both xs (Suc r1) e1 r2 e2 (buf @ [xs ! r1]) = Some (s1, s2, (buf @ [xs ! r1]) @ out)"
        "s1 \<le> e1" "s2 \<le> e2" "merge_lists (take (e1 - Suc r1) (drop (Suc r1) xs)) (take (e2 - r2) (drop r2 xs))
         = out @ take (e1 - s1) (drop s1 xs) @ take (e2 - s2) (drop s2 xs)"
        using less.hyps [OF d1, of "buf @ [xs ! r1]"] True less.prems by auto
      show ?thesis using o(4) lt unfolding c1 c2
        by (intro exI [of _ s1] exI [of _ s2] exI [of _ "xs ! r1 # out"]) (simp add: s o)
    next
      case ge: False
      then have s: "merge_both xs r1 e1 r2 e2 buf = merge_both xs r1 e1 (Suc r2) e2 (buf @ [xs ! r2])"
        using True less.prems by (subst merge_both.simps) simp
      obtain s1 s2 out where o: "merge_both xs r1 e1 (Suc r2) e2 (buf @ [xs ! r2]) = Some (s1, s2, (buf @ [xs ! r2]) @ out)"
        "s1 \<le> e1" "s2 \<le> e2" "merge_lists (take (e1 - r1) (drop r1 xs)) (take (e2 - Suc r2) (drop (Suc r2) xs))
         = out @ take (e1 - s1) (drop s1 xs) @ take (e2 - s2) (drop s2 xs)"
        using less.hyps [OF d2, of "buf @ [xs ! r2]"] True less.prems by auto
      show ?thesis using o(4) ge unfolding c1 c2
        by (intro exI [of _ s1] exI [of _ s2] exI [of _ "xs ! r2 # out"]) (simp add: s o)
    qed
  qed
qed

text \<open>The slice of \<open>n\<close> elements at \<open>off\<close>, and an array in which only that slice was permuted.\<close>

definition slice :: "nat \<Rightarrow> nat \<Rightarrow> 'a list \<Rightarrow> 'a list" where
  "slice off n xs = take n (drop off xs)"

lemma slice_join: "slice off a xs @ slice (off + a) b xs = slice off (a + b) xs"
  by (simp add: slice_def take_add add.commute)

lemma slice_split: "off + n \<le> length xs \<Longrightarrow> xs = take off xs @ slice off n xs @ drop (off + n) xs"
  by (metis append_take_drop_id drop_drop add.commute slice_def)

lemma length_slice [simp]: "off + n \<le> length xs \<Longrightarrow> length (slice off n xs) = n"
  by (simp add: slice_def)

definition permutes_slice :: "nat \<Rightarrow> nat \<Rightarrow> 'a list \<Rightarrow> 'a list \<Rightarrow> bool" where
  "permutes_slice off n xs ys \<longleftrightarrow> length ys = length xs \<and> take off ys = take off xs
     \<and> drop (off + n) ys = drop (off + n) xs \<and> mset (slice off n ys) = mset (slice off n xs)"

lemma permutes_slice_refl [simp]: "permutes_slice off n xs xs"
  by (simp add: permutes_slice_def)

lemma permutes_slice_trans: "permutes_slice off n xs ys \<Longrightarrow> permutes_slice off n ys zs \<Longrightarrow> permutes_slice off n xs zs"
  by (simp add: permutes_slice_def)

lemma MergeBySize_spec:
  assumes "0 < a" "0 < b" "off + (a + b) \<le> length xs" "sorted (slice off a xs)" "sorted (slice (off + a) b xs)"
  shows "\<exists>ys. MergeBySize True xs off (off + a) (a + b) = Some ys \<and> permutes_slice off (a + b) xs ys \<and> sorted (slice off (a + b) ys)"
proof (cases "xs ! (off + a) > xs ! (off + a - 1)")
  case True
  have *: "p \<le> q" if pq: "p \<in> set (slice off a xs)" "q \<in> set (slice (off + a) b xs)" for p q
  proof -
    obtain i where i: "i < a" "p = slice off a xs ! i" using pq(1) assms(3) by (force simp: in_set_conv_nth)
    obtain j where j: "j < b" "q = slice (off + a) b xs ! j" using pq(2) assms(3) by (force simp: in_set_conv_nth)
    have "p \<le> slice off a xs ! (a - 1)" using i assms by (auto intro!: sorted_nth_mono)
    also have "\<dots> = xs ! (off + a - 1)" using assms by (simp add: slice_def)
    also have "\<dots> \<le> xs ! (off + a)" using True by simp
    also have "\<dots> = slice (off + a) b xs ! 0" using assms by (simp add: slice_def)
    also have "\<dots> \<le> q" using j assms by (auto intro!: sorted_nth_mono)
    finally show ?thesis .
  qed
  have "sorted (slice off (a + b) xs)"
    unfolding slice_join [symmetric] sorted_append using assms(4,5) * by auto
  moreover have "MergeBySize True xs off (off + a) (a + b) = Some xs"
    using True assms by (simp add: MergeBySize_def)
  ultimately show ?thesis by auto
next
  case False
  let ?m = "merge_lists (slice off a xs) (slice (off + a) b xs)"
  let ?ys = "take off xs @ ?m @ drop (off + (a + b)) xs"
  have lm: "length ?m = a + b"
    using arg_cong [OF mset_merge_lists [of "slice off a xs" "slice (off + a) b xs"], of size] assms(3) by simp
  obtain s1 s2 out where o: "merge_both xs off (off + a) (off + a) (off + (a + b)) [] = Some (s1, s2, out)"
    "s1 \<le> off + a" "s2 \<le> off + (a + b)"
    "?m = out @ take (off + a - s1) (drop s1 xs) @ take (off + (a + b) - s2) (drop s2 xs)"
    using merge_both_spec [of off "off + a" xs "off + a" "off + (a + b)" "[]"] assms(3)
    by (auto simp: slice_def)
  have "MergeBySize True xs off (off + a) (a + b) = Some ?ys"
    using False assms o(1-3) by (simp add: MergeBySize_def merge_rest_spec o(4))
  moreover have sl: "slice off (a + b) ?ys = ?m" using lm assms(3) by (simp add: slice_def)
  moreover have "permutes_slice off (a + b) xs ?ys"
    unfolding permutes_slice_def sl using lm assms(3)
    by (simp add: mset_merge_lists flip: slice_join)
  ultimately show ?thesis using sorted_merge_lists [OF assms(4,5)] by metis
qed

lemma slice_alt: "slice off n xs = drop off (take (off + n) xs)"
  by (simp add: slice_def take_drop add.commute)

lemma permutes_slice_after: "permutes_slice off a xs ys \<Longrightarrow> slice (off + a) b ys = slice (off + a) b xs"
  by (simp add: permutes_slice_def slice_def)

lemma permutes_slice_before: "permutes_slice (off + a) b xs ys \<Longrightarrow> slice off a ys = slice off a xs"
  by (simp add: permutes_slice_def slice_alt)

lemma permutes_slice_left:
  assumes "permutes_slice off a xs ys" shows "permutes_slice off (a + b) xs ys"
proof -
  have "drop b (drop (off + a) ys) = drop b (drop (off + a) xs)"
    using assms by (simp add: permutes_slice_def)
  then show ?thesis
    using assms permutes_slice_after [OF assms, of b] unfolding permutes_slice_def slice_join [symmetric]
    by (simp add: add.commute add.left_commute)
qed

lemma permutes_slice_right:
  assumes "permutes_slice (off + a) b xs ys" shows "permutes_slice off (a + b) xs ys"
proof -
  have "take off (take (off + a) ys) = take off (take (off + a) xs)"
    using assms by (simp only: permutes_slice_def)
  then have "take off ys = take off xs" by simp
  then show ?thesis
    using assms permutes_slice_before [OF assms] unfolding permutes_slice_def slice_join [symmetric]
    by (simp add: add.assoc)
qed

lemma MergeSort_spec:
  "\<lbrakk>0 < n; off + n \<le> length xs\<rbrakk> \<Longrightarrow>
   \<exists>ys. MergeSort (\<lambda>_ _. True) xs off n = Some ys \<and> permutes_slice off n xs ys \<and> sorted (slice off n ys)"
proof (induction n arbitrary: off xs rule: less_induct)
  case (less n)
  show ?case
  proof (cases "n = 1")
    case True
    then have "sorted (slice off n xs)" using less.prems by (simp add: slice_def take_Suc_conv_app_nth)
    then show ?thesis using True by (subst MergeSort.simps) simp
  next
    case False
    define a b where "a = n div 2" and "b = n div 2 + n mod 2"
    have ab: "0 < a" "a < n" "0 < b" "b < n" "n = a + b" using False less.prems by (auto simp: a_def b_def) presburger+
    obtain ys where y: "MergeSort (\<lambda>_ _. True) xs off a = Some ys" "permutes_slice off a xs ys" "sorted (slice off a ys)"
      using less.IH [of a off xs] ab less.prems by auto
    have ly: "length ys = length xs" using y(2) by (simp add: permutes_slice_def)
    obtain zs where z: "MergeSort (\<lambda>_ _. True) ys (off + a) b = Some zs" "permutes_slice (off + a) b ys zs" "sorted (slice (off + a) b zs)"
      using less.IH [of b "off + a" ys] ab less.prems ly by auto
    have lz: "length zs = length xs" using z(2) ly by (simp add: permutes_slice_def)
    obtain ws where w: "MergeBySize True zs off (off + a) (a + b) = Some ws" "permutes_slice off (a + b) zs ws" "sorted (slice off (a + b) ws)"
      using MergeBySize_spec [of a b off zs] ab(1,3) less.prems lz y(3) z(3) permutes_slice_before [OF z(2)] ab(5) by auto
    have "MergeSort (\<lambda>_ _. True) xs off n = Some ws"
      using False y(1) z(1) w(1) [folded ab(5)] b_def [folded a_def, symmetric]
      by (subst MergeSort.simps) (simp add: a_def [symmetric])
    moreover have "permutes_slice off (a + b) xs ws"
      using permutes_slice_trans [OF permutes_slice_trans [OF permutes_slice_left [OF y(2)] permutes_slice_right [OF z(2)]] w(2)] .
    ultimately show ?thesis using w(3) ab(5) by blast
  qed
qed

lemma slice_whole [simp]: "slice 0 (length xs) xs = xs"
  by (simp add: slice_def)

lemma permutes_slice_whole: "permutes_slice 0 (length xs) xs ys \<Longrightarrow> mset ys = mset xs \<and> slice 0 (length xs) ys = ys"
  by (auto simp: permutes_slice_def slice_def)

lemma MergeSort_whole:
  assumes "arr \<noteq> []"
  shows "\<exists>ys. MergeSort (\<lambda>_ _. True) arr 0 (length arr) = Some ys \<and> sorted ys \<and> mset ys = mset arr"
proof -
  obtain ys where "MergeSort (\<lambda>_ _. True) arr 0 (length arr) = Some ys" "permutes_slice 0 (length arr) arr ys"
    "sorted (slice 0 (length arr) ys)"
    using MergeSort_spec [of "length arr" 0 arr] assms by auto
  then show ?thesis using permutes_slice_whole [of arr ys] by simp
qed

text \<open>With no element the two halves are empty too, and the recursion has no end.\<close>

lemma MergeSort_returns_nonempty: "MergeSort mem arr off n = Some ys \<Longrightarrow> n \<noteq> 0"
proof (rule MergeSort.raw_induct [of "\<lambda>_ _ _ n _. n \<noteq> 0"])
  fix f :: "(nat \<Rightarrow> nat \<Rightarrow> bool) \<Rightarrow> int list \<Rightarrow> nat \<Rightarrow> nat \<Rightarrow> int list option" and mem arr off n ys
  assume "\<And>mem arr off n ys. f mem arr off n = Some ys \<Longrightarrow> n \<noteq> 0"
    and "(if n = 1 then Some arr
          else do {
            arr \<leftarrow> f mem arr off (n div 2);
            arr \<leftarrow> f mem arr (off + n div 2) (n div 2 + n mod 2);
            MergeBySize (mem off n) arr off (off + n div 2) n
          }) = Some ys"
  then show "n \<noteq> 0" by (auto split: if_splits simp: bind_eq_Some_conv) (metis div_0 gr0I)
qed

section \<open>Quick sort\<close>

lemma elem_get_int [simp]: "elem_get arr (int i) = aget arr i"
  by (simp add: elem_get_def)

lemma elem_get_Suc [simp]: "elem_get arr (1 + int i) = aget arr (Suc i)"
  using elem_get_int [of arr "Suc i"] by (simp del: elem_get_int)

lemma VoidSwap_in:
  "i < length xs \<Longrightarrow> j < length xs \<Longrightarrow> sz \<le> 8 \<Longrightarrow> VoidSwap xs (int i) (int j) sz = Some (xs[i := xs ! j, j := xs ! i])"
  by (simp add: VoidSwap_def)

lemma slice_one: "i < length xs \<Longrightarrow> slice i 1 xs = [xs ! i]"
  by (simp add: slice_def take_Suc_conv_app_nth)

lemma in_set_slice: "off + n \<le> length xs \<Longrightarrow> x \<in> set (slice off n xs) \<Longrightarrow> \<exists>i. off \<le> i \<and> i < off + n \<and> x = xs ! i"
  unfolding in_set_conv_nth
  by (elim exE conjE) (rule_tac x = "off + i" in exI, simp add: slice_def)

lemma permutes_slice_nth_before: "permutes_slice off n xs ys \<Longrightarrow> i < off \<Longrightarrow> ys ! i = xs ! i"
  by (metis nth_take permutes_slice_def)

lemma permutes_slice_nth_after: "permutes_slice off n xs ys \<Longrightarrow> off + n \<le> i \<Longrightarrow> i < length xs \<Longrightarrow> ys ! i = xs ! i"
  unfolding permutes_slice_def
  using nth_drop [of "off + n" xs "i - (off + n)"] nth_drop [of "off + n" ys "i - (off + n)"] by simp

lemma permutes_slice_set: "permutes_slice off n xs ys \<Longrightarrow> set (slice off n ys) = set (slice off n xs)"
  unfolding permutes_slice_def by (metis set_mset_mset)

lemma permutes_slice_swap:
  assumes "off + n \<le> length xs" "off \<le> i" "i < off + n" "off \<le> j" "j < off + n"
  shows "permutes_slice off n xs (xs[i := xs ! j, j := xs ! i])"
proof -
  have "slice off n (xs[i := xs ! j, j := xs ! i])
      = (slice off n xs)[i - off := slice off n xs ! (j - off), j - off := slice off n xs ! (i - off)]"
    using assms by (simp add: slice_def drop_update_swap take_update_swap)
  then show ?thesis using assms by (simp add: permutes_slice_def mset_swap_list)
qed

context key_comparison
begin

lemma run_forward_spec:
  "\<lbrakk>r \<le> b; b < length xs; p < length xs\<rbrakk> \<Longrightarrow>
   \<exists>r'. run_forward cmp xs (int p) (int r) (int b) = Some (int r') \<and> r \<le> r' \<and> r' \<le> b
     \<and> (\<forall>i. r \<le> i \<and> i < r' \<longrightarrow> key (xs ! i) \<le> key (xs ! p)) \<and> (r' < b \<longrightarrow> key (xs ! p) < key (xs ! r'))"
proof (induction "b - r" arbitrary: r)
  case 0
  then show ?case by (subst run_forward.simps) auto
next
  case (Suc n)
  then have rb: "r < b" and nb: "n = b - Suc r" by simp_all
  show ?case
  proof (cases "0 \<le> cmp (xs ! p) (xs ! r)")
    case True
    then have e: "run_forward cmp xs (int p) (int r) (int b) = run_forward cmp xs (int p) (int (Suc r)) (int b)"
      using rb Suc.prems by (subst run_forward.simps) (simp add: add.commute)
    have k: "key (xs ! r) \<le> key (xs ! p)" using True cmp_less [of "xs ! p" "xs ! r"] by linarith
    obtain r' where r': "run_forward cmp xs (int p) (int (Suc r)) (int b) = Some (int r')" "Suc r \<le> r'" "r' \<le> b"
      "\<forall>i. Suc r \<le> i \<and> i < r' \<longrightarrow> key (xs ! i) \<le> key (xs ! p)" "r' < b \<longrightarrow> key (xs ! p) < key (xs ! r')"
      using Suc.hyps(1) [OF nb] Suc.prems rb by auto
    have "key (xs ! i) \<le> key (xs ! p)" if "r \<le> i" "i < r'" for i
      using that r'(4) k by (cases "i = r") auto
    then show ?thesis unfolding e using r' by (intro exI [of _ r']) auto
  next
    case False
    then have "run_forward cmp xs (int p) (int r) (int b) = Some (int r)"
      using rb Suc.prems by (subst run_forward.simps) simp
    then show ?thesis using False cmp_less [of "xs ! p" "xs ! r"] rb by auto
  qed
qed

lemma run_back_spec:
  "\<lbrakk>p < r; r \<le> b + 1; b < length xs; \<forall>i. p \<le> i \<and> i < r \<longrightarrow> key (xs ! i) \<le> key (xs ! p)\<rbrakk> \<Longrightarrow>
   \<exists>b'. run_back cmp xs (int p) (int r) (int b) = Some (int b') \<and> r \<le> b' + 1 \<and> b' \<le> b
     \<and> (\<forall>i. b' < i \<and> i \<le> b \<longrightarrow> key (xs ! p) < key (xs ! i)) \<and> key (xs ! b') \<le> key (xs ! p)"
proof (induction b)
  case 0
  have "r = 1" "p = 0" using 0(1,2) by auto
  then show ?case using 0(3) by (subst run_back.simps) (auto simp: elem_get_def)
next
  case (Suc b)
  have pl: "p < length xs" using Suc.prems by simp
  show ?case
  proof (cases "0 < cmp (xs ! Suc b) (xs ! p) \<and> r \<le> Suc b")
    case True
    then have e: "run_back cmp xs (int p) (int r) (int (Suc b)) = run_back cmp xs (int p) (int r) (int b)"
      using Suc.prems pl by (subst run_back.simps) simp
    have k: "key (xs ! p) < key (xs ! Suc b)" using True cmp_greater by blast
    obtain b' where b': "run_back cmp xs (int p) (int r) (int b) = Some (int b')" "r \<le> b' + 1" "b' \<le> b"
      "\<forall>i. b' < i \<and> i \<le> b \<longrightarrow> key (xs ! p) < key (xs ! i)" "key (xs ! b') \<le> key (xs ! p)"
      using Suc.IH Suc.prems True by auto
    have "key (xs ! p) < key (xs ! i)" if "b' < i" "i \<le> Suc b" for i
      using that b'(4) k by (cases "i = Suc b") auto
    then show ?thesis unfolding e using b' by (intro exI [of _ b']) auto
  next
    case False
    then have e: "run_back cmp xs (int p) (int r) (int (Suc b)) = Some (int (Suc b))"
      using Suc.prems pl by (subst run_back.simps) auto
    have "key (xs ! Suc b) \<le> key (xs ! p)"
    proof (cases "r \<le> Suc b")
      case True
      then show ?thesis using False cmp_greater [of "xs ! Suc b" "xs ! p"] by linarith
    next
      case False
      then show ?thesis using Suc.prems by auto
    qed
    then show ?thesis using e Suc.prems by (intro exI [of _ "Suc b"]) auto
  qed
qed

lemma partition_loop_spec:
  "\<lbrakk>f \<le> r; f \<le> b; b \<le> l; l < length xs; sz \<le> 8; \<forall>i. f \<le> i \<and> i < r \<longrightarrow> key (xs ! i) \<le> key (xs ! f);
    \<forall>i. b < i \<and> i \<le> l \<longrightarrow> key (xs ! f) < key (xs ! i); r < b \<longrightarrow> key (xs ! r) \<le> key (xs ! f);
    b \<le> r \<longrightarrow> key (xs ! b) \<le> key (xs ! f)\<rbrakk> \<Longrightarrow>
   \<exists>ys b'. partition_loop cmp sz xs (int f) (int r) (int b) = Some (ys, int b') \<and> f \<le> b' \<and> b' \<le> l
     \<and> permutes_slice f (l + 1 - f) xs ys \<and> (\<forall>i. f \<le> i \<and> i \<le> b' \<longrightarrow> key (ys ! i) \<le> key (ys ! f))
     \<and> (\<forall>i. b' < i \<and> i \<le> l \<longrightarrow> key (ys ! f) < key (ys ! i))"
proof (induction "b - r" arbitrary: r b xs rule: less_induct)
  case less
  note pre = less.prems
  show ?case
  proof (cases "r < b")
    case False
    then have "partition_loop cmp sz xs (int f) (int r) (int b) = Some (xs, int b)" by (subst partition_loop.simps) simp
    moreover have "key (xs ! i) \<le> key (xs ! f)" if "f \<le> i" "i \<le> b" for i
      using that pre(6,9) False by (cases "i = b") auto
    ultimately show ?thesis using pre by (intro exI [of _ xs] exI [of _ b]) auto
  next
    case True
    obtain r1 where r1: "run_forward cmp xs (int f) (int r) (int b) = Some (int r1)" "r \<le> r1" "r1 \<le> b"
      "\<forall>i. r \<le> i \<and> i < r1 \<longrightarrow> key (xs ! i) \<le> key (xs ! f)" "r1 < b \<longrightarrow> key (xs ! f) < key (xs ! r1)"
      using run_forward_spec [of r b xs f] True pre by auto
    have rr: "r < r1" using r1(2,5) pre(8) True by (cases "r = r1") auto
    have lo: "key (xs ! i) \<le> key (xs ! f)" if "f \<le> i" "i < r1" for i
      using that r1(4) pre(6) by (cases "i < r") auto
    obtain b1 where b1: "run_back cmp xs (int f) (int r1) (int b) = Some (int b1)" "r1 \<le> b1 + 1" "b1 \<le> b"
      "\<forall>i. b1 < i \<and> i \<le> b \<longrightarrow> key (xs ! f) < key (xs ! i)" "key (xs ! b1) \<le> key (xs ! f)"
      using run_back_spec [of f r1 b xs] lo rr r1(3) pre(1,3,4) by auto
    have hi: "key (xs ! f) < key (xs ! i)" if "b1 < i" "i \<le> l" for i
      using that b1(4) pre(7) by (cases "i \<le> b") auto
    let ?ys = "if r1 < b1 then xs[r1 := xs ! b1, b1 := xs ! r1] else xs"
    have st: "partition_loop cmp sz xs (int f) (int r) (int b) = partition_loop cmp sz ?ys (int f) (int r1) (int b1)"
      using True r1(1) b1(1,3) VoidSwap_in [of r1 xs b1 sz] pre(3,4,5) by (subst partition_loop.simps) simp
    have ys: "length ?ys = length xs" "?ys ! f = xs ! f"
      using rr pre(1) by (auto simp: nth_list_update)
    have per: "permutes_slice f (l + 1 - f) xs ?ys"
      using permutes_slice_swap [of f "l + 1 - f" xs r1 b1] rr pre(1,3,4) b1(3) by auto
    have dec: "b1 - r1 < b - r" using True b1(3) rr by linarith
    have "\<exists>zs b'. partition_loop cmp sz ?ys (int f) (int r1) (int b1) = Some (zs, int b') \<and> f \<le> b' \<and> b' \<le> l
     \<and> permutes_slice f (l + 1 - f) ?ys zs \<and> (\<forall>i. f \<le> i \<and> i \<le> b' \<longrightarrow> key (zs ! i) \<le> key (zs ! f))
     \<and> (\<forall>i. b' < i \<and> i \<le> l \<longrightarrow> key (zs ! f) < key (zs ! i))"
    proof (rule less.hyps [OF dec], unfold ys)
      show "f \<le> r1" "f \<le> b1" "b1 \<le> l" "l < length xs" "sz \<le> 8" using rr pre b1(2,3) by auto
      show "\<forall>i. f \<le> i \<and> i < r1 \<longrightarrow> key (?ys ! i) \<le> key (xs ! f)" using lo by auto
      show "\<forall>i. b1 < i \<and> i \<le> l \<longrightarrow> key (xs ! f) < key (?ys ! i)" using hi by auto
      show "r1 < b1 \<longrightarrow> key (?ys ! r1) \<le> key (xs ! f)" using b1(3,5) pre(3,4) by simp
      show "b1 \<le> r1 \<longrightarrow> key (?ys ! b1) \<le> key (xs ! f)" using b1(5) by simp
    qed
    then show ?thesis unfolding st using permutes_slice_trans [OF per] by blast
  qed
qed

lemma QuickSortByIndexes_spec:
  "f + n \<le> length xs \<Longrightarrow> sz \<le> 8 \<Longrightarrow>
   \<exists>ys. QuickSortByIndexes cmp sz xs (int f) (int (f + n) - 1) = Some ys \<and> permutes_slice f n xs ys
     \<and> sorted (map key (slice f n ys))"
proof (induction n arbitrary: f xs rule: less_induct)
  case (less n)
  show ?case
  proof (cases "n \<le> 1")
    case True
    then have "sorted (map key (slice f n xs))" using less.prems(1) by (cases n) (auto simp: slice_def take_Suc_conv_app_nth)
    then show ?thesis using True by (subst QuickSortByIndexes.simps) (auto intro: exI [of _ xs])
  next
    case False
    define l where "l = f + n - 1"
    have l: "f < l" "l < length xs" "l + 1 - f = n" "int (f + n) - 1 = int l" using False less.prems by (auto simp: l_def)
    obtain ys b where p: "partition_loop cmp sz xs (int f) (int f) (int l) = Some (ys, int b)" "f \<le> b" "b \<le> l"
      "permutes_slice f n xs ys" "\<forall>i. f \<le> i \<and> i \<le> b \<longrightarrow> key (ys ! i) \<le> key (ys ! f)"
      "\<forall>i. b < i \<and> i \<le> l \<longrightarrow> key (ys ! f) < key (ys ! i)"
      using partition_loop_spec [of f f l l xs sz] l less.prems by auto
    define k where "k = b - f"
    define zs where "zs = ys[f := ys ! b, b := ys ! f]"
    have b: "b = f + k" "k < n" using p(2,3) l by (auto simp: k_def)
    have ly: "length ys = length xs" using p(4) by (simp add: permutes_slice_def)
    have lz: "length zs = length xs" by (simp add: zs_def ly)
    have z: "permutes_slice f n xs zs"
      using permutes_slice_trans [OF p(4) permutes_slice_swap [of f n ys f b]] b ly less.prems by (simp add: zs_def)
    have zb: "zs ! b = ys ! f" using b ly less.prems by (simp add: zs_def)
    have zl: "key (zs ! i) \<le> key (zs ! b)" if "f \<le> i" "i < b" for i
      unfolding zb using that p(5) b ly less.prems(1) by (cases "i = f") (auto simp: zs_def nth_list_update)
    have zr: "key (zs ! b) < key (zs ! i)" if "b < i" "i \<le> l" for i
      unfolding zb using that p(6) b by (auto simp: zs_def nth_list_update)
    have bl: "b < length xs" using b less.prems by simp
    obtain us where u: "QuickSortByIndexes cmp sz zs (int f) (int (f + k) - 1) = Some us" "permutes_slice f k zs us"
      "sorted (map key (slice f k us))"
      using less.IH [of k f zs] b less.prems lz by auto
    define m where "m = n - k - 1"
    have m: "n = k + (1 + m)" "m < n" using b by (auto simp: m_def)
    have lu: "length us = length xs" using u(2) lz by (simp add: permutes_slice_def)
    obtain ws where w: "QuickSortByIndexes cmp sz us (int (b + 1)) (int (b + 1 + m) - 1) = Some ws" "permutes_slice (b + 1) m us ws"
      "sorted (map key (slice (b + 1) m ws))"
      using less.IH [of m "b + 1" us] b m less.prems lu by auto
    have lw: "length ws = length xs" using w(2) lu by (simp add: permutes_slice_def)
    have idx: "int (b + 1 + m) - 1 = int l" "int b + 1 = int (b + 1)" using m(1) b(1) by (auto simp: l_def)
    have "QuickSortByIndexes cmp sz xs (int f) (int (f + n) - 1) = Some ws"
      using l(1) p(1) VoidSwap_in [of f ys b sz] bl ly l(2) less.prems(2) u(1) [folded b(1)] w(1) [unfolded idx(1)]
      unfolding l(4) by (subst QuickSortByIndexes.simps) (simp add: zs_def [symmetric] idx(2))
    moreover have "permutes_slice f n xs ws"
    proof (rule permutes_slice_trans [OF permutes_slice_trans [OF z]])
      show "permutes_slice f n zs us" using permutes_slice_left [OF u(2), of "1 + m"] m(1) by simp
      show "permutes_slice f n us ws"
        using permutes_slice_right [of f "k + 1" m us ws] w(2) b(1) m(1) by (simp add: add.assoc)
    qed
    moreover have "sorted (map key (slice f n ws))"
    proof -
      have wb: "ws ! b = zs ! b"
        using permutes_slice_nth_before [OF w(2), of b] permutes_slice_nth_after [OF u(2), of b] b(1) bl lz by simp
      have "slice f k ws = slice f k us"
        using permutes_slice_before [of f k "1 + m" us ws] permutes_slice_right [of b 1 m us ws] w(2) b(1) by simp
      then have left: "key x \<le> key (zs ! b)" if "x \<in> set (slice f k ws)" for x
        using that permutes_slice_set [OF u(2)] in_set_slice [of f k zs x] zl b less.prems lz by auto
      have "slice (b + 1) m us = slice (b + 1) m zs"
        using permutes_slice_after [OF permutes_slice_left [OF u(2), of 1], of m] b(1) by (simp add: add.assoc)
      then have right: "key (zs ! b) < key x" if "x \<in> set (slice (b + 1) m ws)" for x
        using that permutes_slice_set [OF w(2)] in_set_slice [of "b + 1" m zs x] zr b m less.prems lz by (auto simp: l_def)
      have "slice f n ws = slice f k ws @ zs ! b # slice (b + 1) m ws"
        unfolding m(1) slice_join [symmetric] using slice_one [of b ws] bl lw wb b(1) by simp
      moreover have "key x \<le> key y" if "x \<in> set (slice f k ws)" "y \<in> set (slice (b + 1) m ws)" for x y
        using order_trans [OF left [OF that(1)] less_imp_le [OF right [OF that(2)]]] .
      ultimately show ?thesis
        using u(3) w(3) left right \<open>slice f k ws = slice f k us\<close> by (auto simp: sorted_append less_imp_le)
    qed
    ultimately show ?thesis by blast
  qed
qed

end

section \<open>What the sorts promise\<close>

text \<open>C21. On every non-empty array of ints, bubble sort, selection sort and insertion sort, and merge
  sort when its buffers can be allocated, end inside the array and all leave it as the reference
  \<open>sort\<close> does: in ascending order, with the elements it had.\<close>

theorem int_sorts_agree:
  assumes "arr \<noteq> []" and "length arr < 2 ^ 64"
  shows "BubbleSort arr (length arr) = Some (sort arr) \<and> SelectionSort arr (length arr) = Some (sort arr)
    \<and> InsertionSort arr (length arr) = Some (sort arr) \<and> MergeSort (\<lambda>_ _. True) arr 0 (length arr) = Some (sort arr)"
proof -
  have *: "r = Some (sort arr)" if "\<exists>ys. r = Some ys \<and> sorted ys \<and> mset ys = mset arr" for r
    using that properties_for_sort [of _ arr] by auto
  have "\<exists>ys. MergeSort (\<lambda>_ _. True) arr 0 (length arr) = Some ys \<and> sorted ys \<and> mset ys = mset arr"
    using MergeSort_whole [OF assms(1)] .
  then show ?thesis
    using BubbleSort_spec [OF assms] SelectionSort_spec [OF assms] InsertionSort_spec [of arr] by (auto intro: *)
qed

theorem int_sorts_agree_witness:
  "BubbleSort [3, 1, 2] 3 = Some [1, 2, 3] \<and> MergeSort (\<lambda>_ _. True) [3, 1, 2] 0 3 = Some [1, 2, 3]"
  using int_sorts_agree [of "[3, 1, 2]"] by (simp add: numeral_3_eq_3)

text \<open>With no element the bound \<open>length - 1\<close> wraps and both swapping sorts read outside the array.\<close>

lemma BubbleSort_empty: "BubbleSort [] 0 = None"
  unfolding BubbleSort_def
  by (subst bubble_outer.simps, subst bubble_inner.simps) (simp add: szsub_def)

lemma SelectionSort_empty: "SelectionSort [] 0 = None"
  unfolding SelectionSort_def
  by (subst selection_outer.simps, subst min_loop.simps) (simp add: szsub_def SwapInt_def)

text \<open>Insertion sort has no such bound; merge sort of no element never returns.\<close>

lemma InsertionSort_empty: "InsertionSort [] 0 = Some []"
  using InsertionSort_spec [of "[]"] by simp

lemma MergeSort_empty: "MergeSort mem arr off 0 = None"
  using MergeSort_returns_nonempty [of mem arr off 0] by (cases "MergeSort mem arr off 0") auto

text \<open>C22. Quick sort with a comparison that orders a key, on elements of at most 8 bytes, ends inside
  the array and leaves it sorted by the key, with the elements it had.\<close>

theorem QuickSort_sorts:
  assumes "key_comparison cmp key" and "sz \<le> 8"
  shows "\<exists>ys. QuickSort cmp sz arr (length arr) = Some ys \<and> sorted (map key ys) \<and> mset ys = mset arr"
proof -
  obtain ys where "QuickSort cmp sz arr (length arr) = Some ys" "permutes_slice 0 (length arr) arr ys"
    "sorted (map key (slice 0 (length arr) ys))"
    using key_comparison.QuickSortByIndexes_spec [OF assms(1), of 0 "length arr" arr sz] assms(2)
    by (auto simp: QuickSort_def)
  then show ?thesis using permutes_slice_whole [of arr ys] by auto
qed

theorem QuickSort_sorts_witness:
  "\<exists>ys. QuickSort (\<lambda>x y. x - y) 4 [3, 1, 2, 1] (length [3, 1, 2, 1 :: int]) = Some ys
     \<and> sorted (map id ys) \<and> mset ys = mset [3, 1, 2, 1]"
  by (rule QuickSort_sorts) (unfold_locales, auto)

text \<open>An element of more than 8 bytes does not fit the variable \<open>VoidSwap\<close> saves it in.\<close>

lemma VoidSwap_too_big: "8 < sz \<Longrightarrow> VoidSwap arr i j sz = None"
  by (simp add: VoidSwap_def)

end
