(* ===== verification/CString.thy ===== *)
theory CString
  imports Prelude
begin

text \<open>
  Characters and strings of C. A \<open>char\<close> is signed, so its value is negative from 128 on. A buffer
  is a list of characters, a pointer into it is an offset, and a string starts at an offset and
  ends before the first NUL.
\<close>

section \<open>Characters\<close>

definition c_char :: "char \<Rightarrow> int" where
  "c_char c = (let n = (of_char c :: nat) in if n < 128 then int n else int n - 256)"

definition NUL :: char where
  "NUL = CHR 0x00"

definition digit :: "nat \<Rightarrow> char" where
  "digit d = char_of (48 + d)"

lemma c_char_digit: "d < 10 \<Longrightarrow> c_char (digit d) = 48 + int d"
  by (simp add: c_char_def digit_def)

lemma c_char_NUL [simp]: "c_char NUL = 0"
  by (simp add: c_char_def NUL_def)

lemma c_char_inj: "c_char a = c_char b \<longleftrightarrow> a = b"
proof
  assume a: "c_char a = c_char b"
  define m n where "m = (of_char a :: nat)" and "n = (of_char b :: nat)"
  have "m < 256" "n < 256" by (simp_all only: m_def n_def nat_of_char_less_256)
  moreover have "(if m < 128 then int m else int m - 256) = (if n < 128 then int n else int n - 256)"
    using a by (simp only: c_char_def Let_def m_def n_def)
  ultimately have "m = n" by (auto split: if_splits)
  then show "a = b" by (simp add: m_def n_def)
qed simp

lemma c_char_eq_0: "c_char c = 0 \<longleftrightarrow> c = NUL"
  using c_char_inj [of c NUL] by simp

lemma digit_neq: "d < 10 \<Longrightarrow> c_char c \<notin> {48..57} \<Longrightarrow> digit d \<noteq> c"
  using c_char_digit [of d] by auto

section \<open>Decimal notation\<close>

text \<open>What \<open>sprintf\<close> writes for \<open>%u\<close>.\<close>

fun show_u :: "nat \<Rightarrow> string" where
  "show_u n = (if n < 10 then [digit n] else show_u (n div 10) @ [digit (n mod 10)])"

declare show_u.simps [simp del]

lemma show_u_not_Nil: "show_u n \<noteq> []"
  by (subst show_u.simps) simp

lemma set_show_u: "c \<in> set (show_u n) \<Longrightarrow> \<exists>d < 10. c = digit d"
proof (induction n rule: show_u.induct)
  case (1 n)
  then show ?case
    by (cases "n < 10") (auto simp: show_u.simps [of n] intro: exI [of _ "n mod 10"])
qed

section \<open>Strings in a buffer\<close>

definition str_at :: "string \<Rightarrow> nat \<Rightarrow> string \<Rightarrow> bool" where
  "str_at buf i s \<longleftrightarrow> NUL \<notin> set s \<and> (\<exists>rest. drop i buf = s @ NUL # rest)"

lemma str_at_Nil: "str_at buf i [] \<longleftrightarrow> aget buf i = Some NUL"
proof
  assume "str_at buf i []"
  then obtain rest where "drop i buf = NUL # rest" by (auto simp: str_at_def)
  then show "aget buf i = Some NUL"
    by (metis aget_eq_Some drop_all length_drop list.distinct(1) not_less nth_via_drop)
next
  assume "aget buf i = Some NUL"
  then have "drop i buf = NUL # drop (Suc i) buf" by (metis aget_eq_Some Cons_nth_drop_Suc)
  then show "str_at buf i []" by (simp add: str_at_def)
qed

lemma str_at_Cons: "str_at buf i (c # s) \<longleftrightarrow> aget buf i = Some c \<and> c \<noteq> NUL \<and> str_at buf (Suc i) s"
proof
  assume a: "str_at buf i (c # s)"
  then obtain rest where r: "drop i buf = c # s @ NUL # rest" "c \<noteq> NUL" "NUL \<notin> set s" by (auto simp: str_at_def)
  then have "i < length buf" by (metis drop_all list.distinct(1) not_less)
  then have "aget buf i = Some c" "drop (Suc i) buf = s @ NUL # rest"
    using r(1) Cons_nth_drop_Suc [of i buf] by (auto simp: aget_eq_Some)
  then show "aget buf i = Some c \<and> c \<noteq> NUL \<and> str_at buf (Suc i) s" using r by (auto simp: str_at_def)
next
  assume a: "aget buf i = Some c \<and> c \<noteq> NUL \<and> str_at buf (Suc i) s"
  then have "drop i buf = c # drop (Suc i) buf" by (metis aget_eq_Some Cons_nth_drop_Suc)
  then show "str_at buf i (c # s)" using a by (auto simp: str_at_def)
qed

lemmas str_at_simps = str_at_Nil str_at_Cons

lemma str_at_length: "str_at buf i s \<Longrightarrow> i + length s < length buf"
  by (induction s arbitrary: i) (fastforce simp: str_at_simps aget_eq_Some)+

lemma str_at_append: "str_at buf i (s @ t) \<Longrightarrow> str_at buf (i + length s) t"
  by (induction s arbitrary: i) (fastforce simp: str_at_simps)+

lemma str_at_nth: "str_at buf i s \<Longrightarrow> k < length s \<Longrightarrow> buf ! (i + k) = s ! k \<and> s ! k \<noteq> NUL"
proof (induction s arbitrary: i k)
  case (Cons c s)
  then show ?case using Cons.IH [of "Suc i" "k - 1"] by (cases k) (auto simp: str_at_simps aget_eq_Some)
qed simp

lemma str_at_end: "str_at buf i s \<Longrightarrow> aget buf (i + length s) = Some NUL"
  using str_at_append [of buf i s "[]"] by (simp add: str_at_Nil)

lemma str_at_unique: "str_at buf i s \<Longrightarrow> str_at buf i t \<Longrightarrow> s = t"
proof (induction s arbitrary: i t)
  case Nil
  then show ?case by (cases t) (auto simp: str_at_simps)
next
  case (Cons c s)
  then show ?case by (cases t) (auto simp: str_at_simps)
qed

lemma str_at_I:
  "\<lbrakk>i + length s < length buf; \<And>k. k < length s \<Longrightarrow> buf ! (i + k) = s ! k; buf ! (i + length s) = NUL; NUL \<notin> set s\<rbrakk>
   \<Longrightarrow> str_at buf i s"
proof (induction s arbitrary: i)
  case Nil
  then show ?case by (simp add: str_at_Nil)
next
  case (Cons c s)
  have "buf ! i = c" using Cons.prems(2) [of 0] by simp
  moreover have "buf ! (Suc i + k) = s ! k" if "k < length s" for k
    using Cons.prems(2) [of "Suc k"] that by simp
  ultimately show ?case using Cons.IH [of "Suc i"] Cons.prems by (auto simp: str_at_Cons aget_eq_Some)
qed

end
