(* ===== verification/Strings.thy ===== *)
theory Strings
  imports CString
begin

text \<open>
  The string functions of \<open>c/ws2/string.c\<close> and, with the prefix \<open>rec_\<close>, their recursive versions of
  \<open>c/recursion/recursion.c\<close>. A pointer argument is a buffer and an offset; the functions that write
  return the new destination buffer. Running past the end of a buffer is a fault.
\<close>

section \<open>Length, comparison and copy\<close>

partial_function (option) strlen_loop :: "string \<Rightarrow> nat \<Rightarrow> nat \<Rightarrow> nat option" where
  "strlen_loop buf s i = do {
     c \<leftarrow> aget buf s;
     if c \<noteq> NUL then strlen_loop buf (s + 1) (i + 1) else Some i
   }"

definition Strlen :: "string \<Rightarrow> nat \<Rightarrow> nat option" where
  "Strlen buf s = strlen_loop buf s 0"

partial_function (option) rec_Strlen :: "string \<Rightarrow> nat \<Rightarrow> nat option" where
  "rec_Strlen buf s = do {
     c \<leftarrow> aget buf s;
     if c = NUL then Some 0 else do { n \<leftarrow> rec_Strlen buf (s + 1); Some (1 + n) }
   }"

partial_function (option) Strcmp :: "string \<Rightarrow> nat \<Rightarrow> string \<Rightarrow> nat \<Rightarrow> int option" where
  "Strcmp b1 str1 b2 str2 = do {
     c1 \<leftarrow> aget b1 str1;
     c2 \<leftarrow> aget b2 str2;
     if c1 \<noteq> NUL \<and> c1 = c2 then Strcmp b1 (str1 + 1) b2 (str2 + 1)
     else Some (c_char c1 - c_char c2)
   }"

partial_function (option) rec_Strcmp :: "string \<Rightarrow> nat \<Rightarrow> string \<Rightarrow> nat \<Rightarrow> int option" where
  "rec_Strcmp b1 s1 b2 s2 = do {
     c1 \<leftarrow> aget b1 s1;
     c2 \<leftarrow> aget b2 s2;
     if c1 = NUL \<or> c1 \<noteq> c2 then Some (c_char c1 - c_char c2)
     else rec_Strcmp b1 (s1 + 1) b2 (s2 + 1)
   }"

partial_function (option) strcpy_loop :: "string \<Rightarrow> nat \<Rightarrow> string \<Rightarrow> nat \<Rightarrow> nat \<Rightarrow> string option" where
  "strcpy_loop dest d src s i = do {
     c \<leftarrow> aget src (s + i);
     if c \<noteq> NUL then do { dest \<leftarrow> aset dest (d + i) c; strcpy_loop dest d src s (i + 1) }
     else aset dest (d + i) NUL
   }"

definition Strcpy :: "string \<Rightarrow> nat \<Rightarrow> string \<Rightarrow> nat \<Rightarrow> string option" where
  "Strcpy dest d src s = strcpy_loop dest d src s 0"

partial_function (option) rec_Strcpy :: "string \<Rightarrow> nat \<Rightarrow> string \<Rightarrow> nat \<Rightarrow> string option" where
  "rec_Strcpy dest d src s = do {
     c \<leftarrow> aget src s;
     if c = NUL then aset dest d c
     else do { dest \<leftarrow> aset dest d c; rec_Strcpy dest (d + 1) src (s + 1) }
   }"

partial_function (option) strncpy_loop :: "string \<Rightarrow> nat \<Rightarrow> string \<Rightarrow> nat \<Rightarrow> nat \<Rightarrow> nat \<Rightarrow> string option" where
  "strncpy_loop dest d src s n i =
     (if i < n then do {
        c \<leftarrow> aget src (s + i);
        if c \<noteq> NUL then do { dest \<leftarrow> aset dest (d + i) c; strncpy_loop dest d src s n (i + 1) }
        else aset dest (d + i) NUL
      } else aset dest (d + i) NUL)"

definition Strncpy :: "string \<Rightarrow> nat \<Rightarrow> string \<Rightarrow> nat \<Rightarrow> nat \<Rightarrow> string option" where
  "Strncpy dest d src s n = strncpy_loop dest d src s n 0"

text \<open>\<open>Strdup\<close> copies into a new buffer whose cells are indeterminate, and does not test the
  answer \<open>mem\<close> of \<open>malloc\<close>; NULL has no cell to write to.\<close>

partial_function (option) strdup_loop :: "char option list \<Rightarrow> string \<Rightarrow> nat \<Rightarrow> nat \<Rightarrow> char option list option" where
  "strdup_loop new str s i = do {
     c \<leftarrow> aget str (s + i);
     if c \<noteq> NUL then do { new \<leftarrow> aset new i (Some c); strdup_loop new str s (i + 1) } else Some new
   }"

definition Strdup :: "bool \<Rightarrow> string \<Rightarrow> nat \<Rightarrow> char option list option" where
  "Strdup mem str s = do {
     n \<leftarrow> Strlen str s;
     strdup_loop (if mem then replicate (n + 1) None else []) str s 0
   }"

section \<open>Concatenation\<close>

partial_function (option) find_end :: "string \<Rightarrow> nat \<Rightarrow> nat option" where
  "find_end buf d = do { c \<leftarrow> aget buf d; if c \<noteq> NUL then find_end buf (d + 1) else Some d }"

partial_function (option) strcat_copy :: "string \<Rightarrow> nat \<Rightarrow> string \<Rightarrow> nat \<Rightarrow> string option" where
  "strcat_copy dest d src s = do {
     c \<leftarrow> aget src s;
     if c \<noteq> NUL then do { dest \<leftarrow> aset dest d c; strcat_copy dest (d + 1) src (s + 1) }
     else aset dest (d + 1) NUL
   }"

definition Strcat :: "string \<Rightarrow> nat \<Rightarrow> string \<Rightarrow> nat \<Rightarrow> string option" where
  "Strcat dest d src s = do { e \<leftarrow> find_end dest d; strcat_copy dest e src s }"

partial_function (option) strncat_copy :: "string \<Rightarrow> nat \<Rightarrow> string \<Rightarrow> nat \<Rightarrow> nat \<Rightarrow> nat \<Rightarrow> string option" where
  "strncat_copy dest i src s j n = do {
     c \<leftarrow> aget src (s + j);
     if c \<noteq> NUL \<and> j < n then do { dest \<leftarrow> aset dest i c; strncat_copy dest (i + 1) src s (j + 1) n }
     else aset dest (i + 1) NUL
   }"

definition Strncat :: "string \<Rightarrow> nat \<Rightarrow> string \<Rightarrow> nat \<Rightarrow> nat \<Rightarrow> string option" where
  "Strncat dest d src s n = do { i \<leftarrow> find_end dest d; strncat_copy dest i src s 0 n }"

partial_function (option) rec_Strcat :: "string \<Rightarrow> nat \<Rightarrow> string \<Rightarrow> nat \<Rightarrow> string option" where
  "rec_Strcat dest d src s = do {
     c \<leftarrow> aget dest d;
     if c = NUL then do {
       a \<leftarrow> aget src s;
       dest \<leftarrow> aset dest d a;
       dest \<leftarrow> aset dest (d + 1) NUL;
       if a = NUL then aset dest d a else rec_Strcat dest (d + 1) src (s + 1)
     } else rec_Strcat dest (d + 1) src s
   }"

section \<open>Searching\<close>

partial_function (option) strchr_loop :: "string \<Rightarrow> nat \<Rightarrow> int \<Rightarrow> nat option option" where
  "strchr_loop buf str c = do {
     a \<leftarrow> aget buf str;
     if a \<noteq> NUL then (if c_char a = c then Some (Some str) else strchr_loop buf (str + 1) c)
     else Some None
   }"

definition Strchr :: "string \<Rightarrow> nat \<Rightarrow> int \<Rightarrow> nat option option" where
  "Strchr buf str c = (if c = 0 then Some (Some str) else strchr_loop buf str c)"

partial_function (option) match_here :: "string \<Rightarrow> nat \<Rightarrow> string \<Rightarrow> nat \<Rightarrow> nat option" where
  "match_here b1 tmp_c1 b2 tmp_c2 = do {
     c1 \<leftarrow> aget b1 tmp_c1;
     if c1 \<noteq> NUL then do {
       c2 \<leftarrow> aget b2 tmp_c2;
       if c2 \<noteq> NUL \<and> c1 = c2 then match_here b1 (tmp_c1 + 1) b2 (tmp_c2 + 1) else Some tmp_c1
     } else Some tmp_c1
   }"

partial_function (option) Strstr :: "string \<Rightarrow> nat \<Rightarrow> string \<Rightarrow> nat \<Rightarrow> nat option option" where
  "Strstr hb haystack nb needle = do {
     c \<leftarrow> aget hb haystack;
     if c \<noteq> NUL then do {
       tmp_c1 \<leftarrow> match_here nb needle hb haystack;
       e \<leftarrow> aget nb tmp_c1;
       if e = NUL then Some (Some haystack) else Strstr hb (haystack + 1) nb needle
     } else Some None
   }"

partial_function (option) IsNeedleIn :: "string \<Rightarrow> nat \<Rightarrow> string \<Rightarrow> nat \<Rightarrow> bool option" where
  "IsNeedleIn hb haystack nb needle = do {
     c \<leftarrow> aget nb needle;
     if c = NUL then Some True
     else do {
       a \<leftarrow> aget hb haystack;
       if c \<noteq> a then Some False else IsNeedleIn hb (haystack + 1) nb (needle + 1)
     }
   }"

partial_function (option) rec_Strstr :: "string \<Rightarrow> nat \<Rightarrow> string \<Rightarrow> nat \<Rightarrow> nat option option" where
  "rec_Strstr hb haystack nb needle = do {
     here \<leftarrow> IsNeedleIn hb haystack nb needle;
     if here then Some (Some haystack)
     else do {
       c \<leftarrow> aget hb haystack;
       if c = NUL then Some None else rec_Strstr hb (haystack + 1) nb needle
     }
   }"

partial_function (option) accept_loop :: "string \<Rightarrow> nat \<Rightarrow> char \<Rightarrow> bool option" where
  "accept_loop ab ptr_accept a = do {
     c \<leftarrow> aget ab ptr_accept;
     if c = NUL then Some False else if c = a then Some True else accept_loop ab (ptr_accept + 1) a
   }"

partial_function (option) strspn_loop :: "string \<Rightarrow> nat \<Rightarrow> string \<Rightarrow> nat \<Rightarrow> nat \<Rightarrow> nat option" where
  "strspn_loop buf str ab accept n = do {
     c \<leftarrow> aget buf str;
     if c \<noteq> NUL then do {
       found \<leftarrow> accept_loop ab accept c;
       if found then strspn_loop buf (str + 1) ab accept (n + 1) else Some n
     } else Some 0
   }"

definition Strspn :: "string \<Rightarrow> nat \<Rightarrow> string \<Rightarrow> nat \<Rightarrow> nat option" where
  "Strspn buf str ab accept = strspn_loop buf str ab accept 0"

section \<open>Comparison without case, palindromes\<close>

definition Case_Char :: "char \<Rightarrow> char \<Rightarrow> bool" where
  "Case_Char a b = (let c1 = c_char a; c2 = c_char b in
     if c1 = c2 then False
     else if 65 \<le> c1 \<and> c1 \<le> 90 \<and> c1 = c2 - 32 then False
     else if 97 \<le> c1 \<and> c1 \<le> 122 \<and> c1 = c2 + 32 then False
     else True)"

definition c_tolower :: "int \<Rightarrow> int" where
  "c_tolower c = (if 65 \<le> c \<and> c \<le> 90 then c + 32 else c)"

partial_function (option) Strcasecmp :: "string \<Rightarrow> nat \<Rightarrow> string \<Rightarrow> nat \<Rightarrow> int option" where
  "Strcasecmp b1 str1 b2 str2 = do {
     c1 \<leftarrow> aget b1 str1;
     if c1 \<noteq> NUL then do {
       c2 \<leftarrow> aget b2 str2;
       if \<not> Case_Char c1 c2 then Strcasecmp b1 (str1 + 1) b2 (str2 + 1)
       else Some (c_tolower (c_char c1) - c_tolower (c_char c2))
     } else Some 0
   }"

partial_function (option) palindrom_loop :: "string \<Rightarrow> int \<Rightarrow> int \<Rightarrow> bool option" where
  "palindrom_loop buf str right =
     (if right > str then do {
        c_assert (0 \<le> str);
        a \<leftarrow> aget buf (nat right);
        b \<leftarrow> aget buf (nat str);
        if a = b then palindrom_loop buf (str + 1) (right - 1) else Some (right \<le> str)
      } else Some (right \<le> str))"

definition IsPalindrom :: "string \<Rightarrow> nat \<Rightarrow> bool option" where
  "IsPalindrom buf str = do { n \<leftarrow> Strlen buf str; palindrom_loop buf (int str) (int str + int n - 1) }"

section \<open>What is written\<close>

definition put :: "'a list \<Rightarrow> nat \<Rightarrow> 'a list \<Rightarrow> 'a list" where
  "put dest d xs = take d dest @ xs @ drop (d + length xs) dest"

lemma put_Cons: "d < length dest \<Longrightarrow> put (dest[d := c]) (Suc d) xs = put dest d (c # xs)"
  by (simp add: put_def take_Suc_conv_app_nth)

lemma put_one: "d < length dest \<Longrightarrow> put dest d [c] = dest[d := c]"
  by (simp add: put_def upd_conv_take_nth_drop)

lemma length_put [simp]: "d + length xs \<le> length dest \<Longrightarrow> length (put dest d xs) = length dest"
  by (simp add: put_def)

lemma put_str: "\<lbrakk>d + length s < length dest; NUL \<notin> set s\<rbrakk> \<Longrightarrow> str_at (put dest d (s @ [NUL])) d s"
  by (simp add: str_at_def put_def)

section \<open>Length and comparison\<close>

lemma strlen_loop_spec: "str_at buf s t \<Longrightarrow> strlen_loop buf s i = Some (i + length t)"
  by (induction t arbitrary: s i) (subst strlen_loop.simps, simp add: str_at_simps)+

lemma Strlen_spec: "str_at buf s t \<Longrightarrow> Strlen buf s = Some (length t)"
  by (simp add: Strlen_def strlen_loop_spec)

lemma rec_Strlen_spec: "str_at buf s t \<Longrightarrow> rec_Strlen buf s = Some (length t)"
  by (induction t arbitrary: s) (subst rec_Strlen.simps, simp add: str_at_simps)+

text \<open>The comparison of two strings: the difference of the first characters that differ.\<close>

fun cmp_str :: "string \<Rightarrow> string \<Rightarrow> int" where
  "cmp_str [] [] = 0"
| "cmp_str [] (b # bs) = - c_char b"
| "cmp_str (a # as) [] = c_char a"
| "cmp_str (a # as) (b # bs) = (if a = b then cmp_str as bs else c_char a - c_char b)"

lemma cmp_str_eq_0: "NUL \<notin> set as \<Longrightarrow> NUL \<notin> set bs \<Longrightarrow> cmp_str as bs = 0 \<longleftrightarrow> as = bs"
  by (induction as bs rule: cmp_str.induct) (auto simp: c_char_eq_0 c_char_inj)

lemma Strcmp_spec: "str_at b1 i s \<Longrightarrow> str_at b2 j t \<Longrightarrow> Strcmp b1 i b2 j = Some (cmp_str s t)"
  by (induction s t arbitrary: i j rule: cmp_str.induct) (subst Strcmp.simps, simp add: str_at_simps)+

lemma rec_Strcmp_spec: "str_at b1 i s \<Longrightarrow> str_at b2 j t \<Longrightarrow> rec_Strcmp b1 i b2 j = Some (cmp_str s t)"
  by (induction s t arbitrary: i j rule: cmp_str.induct) (subst rec_Strcmp.simps, simp add: str_at_simps)+

section \<open>Copies\<close>

lemma strcpy_loop_spec:
  "\<lbrakk>str_at src (s + i) t; d + i + length t < length dest\<rbrakk> \<Longrightarrow>
   strcpy_loop dest d src s i = Some (put dest (d + i) (t @ [NUL]))"
proof (induction t arbitrary: i dest)
  case Nil
  then show ?case by (subst strcpy_loop.simps) (simp add: str_at_simps put_one)
next
  case (Cons c t)
  then show ?case
    by (subst strcpy_loop.simps) (simp add: str_at_simps put_Cons)
qed

lemma Strcpy_spec: "str_at src s t \<Longrightarrow> d + length t < length dest \<Longrightarrow> Strcpy dest d src s = Some (put dest d (t @ [NUL]))"
  using strcpy_loop_spec [of src s 0 t d dest] by (simp add: Strcpy_def)

lemma rec_Strcpy_spec:
  "\<lbrakk>str_at src s t; d + length t < length dest\<rbrakk> \<Longrightarrow> rec_Strcpy dest d src s = Some (put dest d (t @ [NUL]))"
proof (induction t arbitrary: d s dest)
  case Nil
  then show ?case by (subst rec_Strcpy.simps) (simp add: str_at_simps put_one)
next
  case (Cons c t)
  then show ?case by (subst rec_Strcpy.simps) (simp add: str_at_simps put_Cons)
qed

lemma strncpy_loop_spec:
  "\<lbrakk>str_at src (s + i) t; d + i + min (n - i) (length t) < length dest\<rbrakk> \<Longrightarrow>
   strncpy_loop dest d src s n i = Some (put dest (d + i) (take (n - i) t @ [NUL]))"
proof (induction t arbitrary: i dest)
  case Nil
  then show ?case by (subst strncpy_loop.simps) (simp add: str_at_simps put_one)
next
  case (Cons c t)
  show ?case
  proof (cases "i < n")
    case True
    then have "n - i = Suc (n - Suc i)" by simp
    then show ?thesis using Cons True
      by (subst strncpy_loop.simps) (simp add: str_at_simps put_Cons)
  next
    case False
    then show ?thesis using Cons by (subst strncpy_loop.simps) (simp add: put_one)
  qed
qed

lemma strdup_loop_spec:
  "\<lbrakk>str_at str (s + i) t; i + length t \<le> length new\<rbrakk> \<Longrightarrow> strdup_loop new str s i = Some (put new i (List.map Some t))"
proof (induction t arbitrary: i new)
  case Nil
  then show ?case by (subst strdup_loop.simps) (simp add: str_at_simps put_def)
next
  case (Cons c t)
  then show ?case by (subst strdup_loop.simps) (simp add: str_at_simps put_Cons)
qed

text \<open>The copy is made, but its terminator is never written.\<close>

lemma Strdup_no_terminator: "str_at str s t \<Longrightarrow> Strdup True str s = Some (List.map Some t @ [None])"
  using strdup_loop_spec [of str s 0 t "replicate (length t + 1) None"]
  by (simp add: Strdup_def Strlen_spec put_def flip: replicate_append_same)

lemma Strdup_no_memory: "str_at str s t \<Longrightarrow> t \<noteq> [] \<Longrightarrow> Strdup False str s = None"
  by (cases t) (simp_all add: Strdup_def Strlen_spec, subst strdup_loop.simps, simp add: str_at_simps)

section \<open>Concatenation\<close>

lemma find_end_spec: "str_at buf d t \<Longrightarrow> find_end buf d = Some (d + length t)"
  by (induction t arbitrary: d) (subst find_end.simps, simp add: str_at_simps)+

lemma strcat_copy_spec:
  "\<lbrakk>str_at src s t; d + length t + 1 < length dest\<rbrakk> \<Longrightarrow>
   strcat_copy dest d src s = Some ((put dest d t)[d + length t + 1 := NUL])"
proof (induction t arbitrary: d s dest)
  case Nil
  then show ?case by (subst strcat_copy.simps) (simp add: str_at_simps put_def)
next
  case (Cons c t)
  then show ?case by (subst strcat_copy.simps) (simp add: str_at_simps put_Cons)
qed

text \<open>The terminator goes one cell too far: the cell that should hold it keeps what it held.\<close>

lemma Strcat_spec:
  assumes "str_at dest d u" "str_at src s t" "d + length u + length t + 1 < length dest"
  shows "Strcat dest d src s = Some ((put dest (d + length u) t)[d + length u + length t + 1 := NUL])"
  using find_end_spec [OF assms(1)] strcat_copy_spec [OF assms(2,3)] by (simp add: Strcat_def)

lemma strncat_copy_spec:
  "\<lbrakk>str_at src (s + j) t; i + min (n - j) (length t) + 1 < length dest\<rbrakk> \<Longrightarrow>
   strncat_copy dest i src s j n = Some ((put dest i (take (n - j) t))[i + min (n - j) (length t) + 1 := NUL])"
proof (induction t arbitrary: i j dest)
  case Nil
  then show ?case by (subst strncat_copy.simps) (simp add: str_at_simps put_def)
next
  case (Cons c t)
  show ?case
  proof (cases "j < n")
    case True
    then have "n - j = Suc (n - Suc j)" by simp
    then show ?thesis using Cons True by (subst strncat_copy.simps) (simp add: str_at_simps put_Cons)
  next
    case False
    then show ?thesis using Cons by (subst strncat_copy.simps) (simp add: str_at_simps put_def)
  qed
qed

lemma put_here: "xs \<noteq> [] \<Longrightarrow> put (dest[d := c]) d xs = put dest d xs"
  by (cases xs) (simp_all add: put_def)

text \<open>The recursive version writes the terminator twice, so it needs one cell more than the string.\<close>

lemma rec_Strcat_copy:
  "\<lbrakk>str_at src s t; d + length t + 1 < length dest; dest ! d = NUL\<rbrakk> \<Longrightarrow>
   rec_Strcat dest d src s = Some (put dest d (t @ [NUL, NUL]))"
proof (induction t arbitrary: d s dest)
  case Nil
  have "put dest d [NUL, NUL] = dest[d := NUL, Suc d := NUL]"
    using Nil put_Cons [of d dest NUL "[NUL]"] put_one [of "Suc d" "dest[d := NUL]" NUL] by simp
  then show ?case using Nil by (subst rec_Strcat.simps) (simp add: str_at_simps list_update_swap)
next
  case (Cons c t)
  let ?dest = "dest[d := c, Suc d := NUL]"
  have "rec_Strcat dest d src s = rec_Strcat ?dest (Suc d) src (Suc s)"
    using Cons.prems by (subst rec_Strcat.simps) (simp add: str_at_simps)
  also have "\<dots> = Some (put ?dest (Suc d) (t @ [NUL, NUL]))"
    using Cons by (intro Cons.IH) (auto simp: str_at_simps)
  also have "put ?dest (Suc d) (t @ [NUL, NUL]) = put dest d (c # t @ [NUL, NUL])"
    using Cons.prems by (simp add: put_here put_Cons)
  finally show ?case by simp
qed

lemma rec_Strcat_spec:
  "\<lbrakk>str_at dest d u; str_at src s t; d + length u + length t + 1 < length dest\<rbrakk> \<Longrightarrow>
   rec_Strcat dest d src s = Some (put dest (d + length u) (t @ [NUL, NUL]))"
proof (induction u arbitrary: d)
  case Nil
  then show ?case using rec_Strcat_copy [of src s t d dest] by (simp add: str_at_simps aget_eq_Some)
next
  case (Cons c u)
  then show ?case by (subst rec_Strcat.simps) (simp add: str_at_simps)
qed

text \<open>In a buffer filled with NUL behind its string, both versions give the concatenation.\<close>

lemma put_append_str:
  assumes "str_at dest d u" "d + length u + length t < length dest" "NUL \<notin> set t"
  shows "str_at (put dest (d + length u) (t @ [NUL])) d (u @ t)"
proof -
  obtain rest where r: "drop d dest = u @ NUL # rest" "NUL \<notin> set u" using assms(1) by (auto simp: str_at_def)
  have "take (d + length u) dest = take d dest @ u"
    using r(1) by (simp add: take_add)
  moreover have "length (take d dest) = d" using assms(2) by simp
  ultimately show ?thesis using assms(3) r(2) by (simp add: str_at_def put_def)
qed

section \<open>Search of a string\<close>

text \<open>The reference: the first position at which the needle starts.\<close>

fun first_sub :: "string \<Rightarrow> string \<Rightarrow> nat option" where
  "first_sub n [] = (if n = [] then Some 0 else None)"
| "first_sub n (c # h) = (if take (length n) (c # h) = n then Some 0 else map_option Suc (first_sub n h))"

lemma first_sub_Some:
  "first_sub n h = Some k \<longleftrightarrow> k \<le> length h \<and> take (length n) (drop k h) = n \<and> (\<forall>j < k. take (length n) (drop j h) \<noteq> n)"
proof (induction h arbitrary: k)
  case Nil
  then show ?case by auto
next
  case (Cons c h)
  show ?case
  proof (cases k)
    case 0
    then show ?thesis by auto
  next
    case (Suc m)
    have "(\<forall>j < Suc m. take (length n) (drop j (c # h)) \<noteq> n)
        \<longleftrightarrow> take (length n) (c # h) \<noteq> n \<and> (\<forall>j < m. take (length n) (drop j h) \<noteq> n)"
      by (auto simp: less_Suc_eq_0_disj)
    then show ?thesis using Suc Cons.IH [of m] by auto
  qed
qed

lemma IsNeedleIn_spec:
  "str_at hb i h \<Longrightarrow> str_at nb j n \<Longrightarrow> IsNeedleIn hb i nb j = Some (take (length n) h = n)"
proof (induction n arbitrary: h i j)
  case Nil
  then show ?case by (subst IsNeedleIn.simps) (simp add: str_at_simps)
next
  case (Cons c n)
  then show ?case by (cases h) (subst IsNeedleIn.simps, force simp: str_at_simps)+
qed

lemma rec_Strstr_spec:
  "str_at hb i h \<Longrightarrow> str_at nb j n \<Longrightarrow> rec_Strstr hb i nb j = Some (map_option ((+) i) (first_sub n h))"
proof (induction h arbitrary: i)
  case Nil
  then show ?case
    using IsNeedleIn_spec [OF Nil] by (subst rec_Strstr.simps) (simp add: str_at_simps)
next
  case (Cons c h)
  have "map_option ((+) i) (map_option Suc (first_sub n h)) = map_option ((+) (Suc i)) (first_sub n h)"
    by (cases "first_sub n h") simp_all
  then show ?case
    using IsNeedleIn_spec [OF Cons.prems] Cons by (subst rec_Strstr.simps) (simp add: str_at_simps)
qed

lemma match_here_spec:
  "str_at nb j n \<Longrightarrow> str_at hb i h \<Longrightarrow>
   \<exists>k. match_here nb j hb i = Some (j + k) \<and> k \<le> length n \<and> (k = length n \<longleftrightarrow> take (length n) h = n)"
proof (induction n arbitrary: h i j)
  case Nil
  then show ?case by (subst match_here.simps) (simp add: str_at_simps)
next
  case (Cons c n)
  note j = Cons.prems(1) [unfolded str_at_Cons]
  show ?case
  proof (cases h)
    case Nil
    then show ?thesis using Cons.prems by (subst match_here.simps) (auto simp: str_at_simps intro: exI [of _ 0])
  next
    case (Cons a h')
    then have a: "aget hb i = Some a" "a \<noteq> NUL" "str_at hb (Suc i) h'" using Cons.prems(2) by (auto simp: str_at_simps)
    show ?thesis
    proof (cases "a = c")
      case True
      obtain k where k: "match_here nb (Suc j) hb (Suc i) = Some (Suc j + k)" "k \<le> length n" "k = length n \<longleftrightarrow> take (length n) h' = n"
        using Cons.IH [of "Suc j" "Suc i" h'] j a(3) by auto
      then show ?thesis using True a j \<open>h = a # h'\<close>
        by (subst match_here.simps) (auto intro: exI [of _ "Suc k"])
    next
      case False
      then show ?thesis using a j \<open>h = a # h'\<close> by (subst match_here.simps) (auto intro: exI [of _ 0])
    qed
  qed
qed

lemma Strstr_spec:
  "str_at hb i h \<Longrightarrow> str_at nb j n \<Longrightarrow>
   Strstr hb i nb j = Some (if h = [] then None else map_option ((+) i) (first_sub n h))"
proof (induction h arbitrary: i)
  case Nil
  then show ?case by (subst Strstr.simps) (simp add: str_at_simps)
next
  case (Cons c h)
  obtain k where k: "match_here nb j hb i = Some (j + k)" "k \<le> length n" "k = length n \<longleftrightarrow> take (length n) (c # h) = n"
    using match_here_spec [OF Cons.prems(2,1)] by auto
  have "aget nb (j + k) = Some NUL \<longleftrightarrow> k = length n" "\<exists>e. aget nb (j + k) = Some e"
    using k(2) str_at_end [OF Cons.prems(2)] str_at_nth [OF Cons.prems(2), of k] str_at_length [OF Cons.prems(2)]
    by (auto simp: aget_eq_Some le_less)
  then obtain e where e: "aget nb (j + k) = Some e" "e = NUL \<longleftrightarrow> take (length n) (c # h) = n" using k(3) by auto
  show ?case
  proof (cases "take (length n) (c # h) = n")
    case True
    then show ?thesis using Cons.prems k(1) e by (subst Strstr.simps) (simp add: str_at_simps)
  next
    case False
    have m: "map_option ((+) i) (map_option Suc (first_sub n h)) = map_option ((+) (Suc i)) (first_sub n h)"
      by (cases "first_sub n h") simp_all
    have "Strstr hb i nb j = Strstr hb (Suc i) nb j"
      using Cons.prems k(1) e False by (subst Strstr.simps) (simp add: str_at_simps)
    also have "\<dots> = Some (if h = [] then None else map_option ((+) (Suc i)) (first_sub n h))"
      using Cons by (simp add: str_at_simps)
    finally show ?thesis using False m by auto
  qed
qed

section \<open>Characters, spans, comparison without case, palindromes\<close>

lemma strchr_loop_spec:
  "str_at buf i s \<Longrightarrow> strchr_loop buf i (c_char a) =
     Some (if a \<in> set s then Some (i + length (takeWhile (\<lambda>b. b \<noteq> a) s)) else None)"
  by (induction s arbitrary: i) (subst strchr_loop.simps, simp add: str_at_simps c_char_inj)+

lemma accept_loop_spec: "str_at ab j t \<Longrightarrow> a \<noteq> NUL \<Longrightarrow> accept_loop ab j a = Some (a \<in> set t)"
  by (induction t arbitrary: j) (subst accept_loop.simps, auto simp: str_at_simps)+

text \<open>\<open>Strspn\<close> counts the prefix of accepted characters, but answers 0 when it is the whole string.\<close>

lemma strspn_loop_spec:
  "\<lbrakk>str_at buf i s; str_at ab j t\<rbrakk> \<Longrightarrow> strspn_loop buf i ab j n =
     Some (if set s \<subseteq> set t then 0 else n + length (takeWhile (\<lambda>c. c \<in> set t) s))"
  by (induction s arbitrary: i n) (subst strspn_loop.simps, simp add: str_at_simps accept_loop_spec)+

lemma Strspn_spec:
  "\<lbrakk>str_at buf i s; str_at ab j t\<rbrakk> \<Longrightarrow> Strspn buf i ab j =
     Some (if set s \<subseteq> set t then 0 else length (takeWhile (\<lambda>c. c \<in> set t) s))"
  by (simp add: Strspn_def strspn_loop_spec)

lemma c_tolower_cases:
  "c_tolower x = c_tolower y \<longleftrightarrow>
     x = y \<or> 65 \<le> x \<and> x \<le> 90 \<and> x = y - 32 \<or> 65 \<le> y \<and> y \<le> 90 \<and> y = x - 32"
  by (simp add: c_tolower_def) linarith

lemma Case_Char_tolower: "\<not> Case_Char a b \<longleftrightarrow> c_tolower (c_char a) = c_tolower (c_char b)"
  unfolding c_tolower_cases Case_Char_def Let_def by auto

text \<open>Equal up to case, as far as the first string goes.\<close>

definition same_char :: "char \<Rightarrow> char \<Rightarrow> bool" where
  "same_char a b \<longleftrightarrow> c_tolower (c_char a) = c_tolower (c_char b)"

lemma same_char_NUL: "same_char a NUL \<longleftrightarrow> a = NUL"
  using c_tolower_cases [of "c_char a" 0] by (auto simp: same_char_def c_char_eq_0)

fun case_cmp :: "string \<Rightarrow> string \<Rightarrow> int" where
  "case_cmp [] bs = 0"
| "case_cmp (a # as) [] = c_tolower (c_char a)"
| "case_cmp (a # as) (b # bs) =
     (if same_char a b then case_cmp as bs else c_tolower (c_char a) - c_tolower (c_char b))"

lemma Strcasecmp_spec: "str_at b1 i s \<Longrightarrow> str_at b2 j t \<Longrightarrow> Strcasecmp b1 i b2 j = Some (case_cmp s t)"
proof (induction s t arbitrary: i j rule: case_cmp.induct)
  case (2 a as)
  have "Case_Char a NUL" using 2 same_char_NUL [of a] Case_Char_tolower [of a NUL] by (auto simp: same_char_def str_at_simps)
  then show ?case using 2 by (subst Strcasecmp.simps) (simp add: str_at_simps c_tolower_def)
qed (subst Strcasecmp.simps, simp add: str_at_simps same_char_def flip: Case_Char_tolower)+

text \<open>A string is found equal to every string it is a prefix of.\<close>

lemma case_cmp_prefix: "case_cmp s (s @ t) = 0"
  by (induction s) (auto simp: same_char_def)

lemma case_cmp_eq_0:
  "NUL \<notin> set s \<Longrightarrow> case_cmp s t = 0 \<longleftrightarrow> length s \<le> length t \<and> list_all2 same_char s (take (length s) t)"
proof (induction s t rule: case_cmp.induct)
  case (2 a as)
  then show ?case using same_char_NUL [of a] by (auto simp: same_char_def c_tolower_def)
next
  case (3 a as b bs)
  then show ?case by (auto simp: same_char_def)
qed simp

lemma palindrom_loop_spec:
  "\<lbrakk>str_at buf i (xs @ s @ ys); length xs = length ys; xs = rev ys\<rbrakk> \<Longrightarrow>
   palindrom_loop buf (int (i + length xs)) (int (i + length xs) + int (length s) - 1) = Some (s = rev s)"
proof (induction s arbitrary: xs ys rule: length_induct)
  case (1 s)
  show ?case
  proof (cases "length s \<le> 1")
    case True
    then have "s = rev s" by (cases s) auto
    then show ?thesis using True by (subst palindrom_loop.simps) auto
  next
    case False
    then obtain a m b where s: "s = a # m @ [b]" by (cases s; cases "tl s" rule: rev_cases) auto
    let ?l = "i + length xs" and ?r = "i + length xs + length m + 1"
    have at: "aget buf ?l = Some a" "aget buf ?r = Some b"
      using str_at_nth [OF 1(2), of "length xs"] str_at_nth [OF 1(2), of "length xs + length m + 1"]
        str_at_length [OF 1(2)] by (simp_all add: s aget_eq_Some nth_append add.assoc)
    have st: "palindrom_loop buf (int ?l) (int ?l + int (length s) - 1)
        = (if a = b then palindrom_loop buf (int (i + length (xs @ [a]))) (int (i + length (xs @ [a])) + int (length m) - 1) else Some False)"
      using at by (subst palindrom_loop.simps) (simp add: s nat_add_distrib algebra_simps)
    show ?thesis
    proof (cases "a = b")
      case True
      then have "palindrom_loop buf (int (i + length (xs @ [a]))) (int (i + length (xs @ [a])) + int (length m) - 1) = Some (m = rev m)"
        using 1(1) [rule_format, of m "xs @ [a]" "b # ys"] 1(2,3,4) by (simp add: s)
      then show ?thesis using st True by (simp add: s)
    next
      case False
      then show ?thesis using st by (simp add: s)
    qed
  qed
qed

lemma IsPalindrom_spec: "str_at buf i s \<Longrightarrow> IsPalindrom buf i = Some (s = rev s)"
  using palindrom_loop_spec [of buf i "[]" s "[]"] Strlen_spec [of buf i s] by (simp add: IsPalindrom_def)

section \<open>What the functions promise\<close>

text \<open>On strings in buffers the loops and their recursive versions agree: \<open>Strlen\<close> gives the length,
  \<open>Strcmp\<close> is 0 exactly on equal strings, and \<open>Strcpy\<close> leaves the string, terminated, in a
  destination with room for it and changes nothing else there.\<close>

theorem strings_agree:
  assumes "str_at b1 i s" and "str_at b2 j t" and "d + length s < length dest"
  shows "Strlen b1 i = Some (length s) \<and> rec_Strlen b1 i = Some (length s)
    \<and> rec_Strcmp b1 i b2 j = Strcmp b1 i b2 j \<and> (Strcmp b1 i b2 j = Some 0 \<longleftrightarrow> s = t)
    \<and> rec_Strcpy dest d b1 i = Strcpy dest d b1 i
    \<and> (\<exists>r. Strcpy dest d b1 i = Some r \<and> str_at r d s \<and> length r = length dest
         \<and> take d r = take d dest \<and> drop (d + length s + 1) r = drop (d + length s + 1) dest)"
proof -
  have nul: "NUL \<notin> set s" "NUL \<notin> set t" using assms by (auto simp: str_at_def)
  have "take d (put dest d (s @ [NUL])) = take d dest"
    "drop (d + length s + 1) (put dest d (s @ [NUL])) = drop (d + length s + 1) dest"
    using assms(3) by (simp_all add: put_def)
  then show ?thesis
    using assms nul put_str [OF assms(3) nul(1)] cmp_str_eq_0 [OF nul]
    by (simp add: Strlen_spec rec_Strlen_spec Strcmp_spec rec_Strcmp_spec Strcpy_spec rec_Strcpy_spec)
qed

lemma str_at_ab: "str_at (''ab'' @ [NUL]) 0 ''ab''"
  by (simp add: str_at_def NUL_def)

theorem strings_agree_witness:
  "Strlen (''ab'' @ [NUL]) 0 = Some 2 \<and> Strcmp (''ab'' @ [NUL]) 0 (''ab'' @ [NUL]) 0 = Some 0
   \<and> (\<exists>r. Strcpy ''xxxx'' 1 (''ab'' @ [NUL]) 0 = Some r \<and> str_at r 1 ''ab'')"
  using strings_agree [OF str_at_ab str_at_ab, of 1 "''xxxx''"] by auto

text \<open>Both versions of \<open>Strstr\<close> give the first position of the haystack at which the needle starts, and
  NULL when there is none; on the empty haystack the loop gives NULL even for the empty needle.\<close>

theorem Strstr_first:
  assumes "str_at hb i h" and "str_at nb j n"
  shows "(\<exists>p. rec_Strstr hb i nb j = Some p
       \<and> (\<forall>k. p = Some (i + k) \<longleftrightarrow> k \<le> length h \<and> take (length n) (drop k h) = n
                              \<and> (\<forall>m < k. take (length n) (drop m h) \<noteq> n))
       \<and> (p = None \<longleftrightarrow> (\<forall>k \<le> length h. take (length n) (drop k h) \<noteq> n)))
    \<and> Strstr hb i nb j = (if h = [] then Some None else rec_Strstr hb i nb j)"
proof -
  let ?p = "map_option ((+) i) (first_sub n h)"
  have some: "?p = Some (i + k) \<longleftrightarrow> first_sub n h = Some k" for k by (cases "first_sub n h") auto
  have none: "first_sub n h = None \<longleftrightarrow> (\<forall>k \<le> length h. take (length n) (drop k h) \<noteq> n)"
  proof
    assume f: "first_sub n h = None"
    show "\<forall>k \<le> length h. take (length n) (drop k h) \<noteq> n"
    proof (rule ccontr)
      assume "\<not> ?thesis"
      then obtain k where k: "k \<le> length h \<and> take (length n) (drop k h) = n" by blast
      define l where "l = (LEAST k. k \<le> length h \<and> take (length n) (drop k h) = n)"
      have "l \<le> length h \<and> take (length n) (drop l h) = n" unfolding l_def by (rule LeastI [of _ k]) (rule k)
      moreover have "\<forall>m < l. take (length n) (drop m h) \<noteq> n"
        using not_less_Least [of _ "\<lambda>k. k \<le> length h \<and> take (length n) (drop k h) = n"] calculation
        unfolding l_def by (meson less_imp_le order_trans)
      ultimately have "first_sub n h = Some l" using first_sub_Some by blast
      then show False using f by simp
    qed
  next
    assume "\<forall>k \<le> length h. take (length n) (drop k h) \<noteq> n"
    then show "first_sub n h = None" using first_sub_Some [of n h] by (cases "first_sub n h") auto
  qed
  show ?thesis
    unfolding rec_Strstr_spec [OF assms] Strstr_spec [OF assms]
    by (rule conjI, rule exI [of _ ?p], use some none first_sub_Some [of n h] in auto)
qed

theorem Strstr_first_witness:
  "Strstr (''aab'' @ [NUL]) 0 (''ab'' @ [NUL]) 0 = Some (Some 1)"
proof -
  have "str_at (''aab'' @ [NUL]) 0 ''aab''" by (simp add: str_at_def NUL_def)
  from Strstr_first [OF this str_at_ab] obtain p where p: "rec_Strstr (''aab'' @ [NUL]) 0 (''ab'' @ [NUL]) 0 = Some p"
    "p = Some 1 \<longleftrightarrow> (1 :: nat) \<le> 3 \<and> (\<forall>m < 1. take 2 (drop m ''aab'') \<noteq> ''ab'')"
    "Strstr (''aab'' @ [NUL]) 0 (''ab'' @ [NUL]) 0 = rec_Strstr (''aab'' @ [NUL]) 0 (''ab'' @ [NUL]) 0"
    by (auto dest: spec [of _ 1])
  then show ?thesis by simp
qed

text \<open>A destination filled with NUL behind its string hides the misplaced terminator of \<open>Strcat\<close>.\<close>

lemma Strcat_on_zeroed:
  assumes "str_at dest d u" "str_at src s t" "d + length u + length t + 1 < length dest"
    and zero: "dest ! (d + length u + length t) = NUL" "dest ! (d + length u + length t + 1) = NUL"
  shows "\<exists>r. Strcat dest d src s = Some r \<and> str_at r d (u @ t)"
proof -
  let ?e = "d + length u"
  have "drop (?e + length t) dest = NUL # drop (Suc (?e + length t)) dest"
    using assms(3) Cons_nth_drop_Suc [of "?e + length t" dest] zero(1) by simp
  then have "put dest ?e t = put dest ?e (t @ [NUL])"
    by (simp add: put_def)
  moreover have "(put dest ?e t) ! (?e + length t + 1) = NUL"
    using assms(3) zero(2) by (simp add: put_def nth_append add.assoc)
  then have "(put dest ?e t)[?e + length t + 1 := NUL] = put dest ?e t" by (metis list_update_id)
  moreover have "str_at (put dest ?e (t @ [NUL])) d (u @ t)"
    using put_append_str [OF assms(1), of t] assms(2,3) by (simp add: str_at_def)
  ultimately show ?thesis using Strcat_spec [OF assms(1-3)] by auto
qed

lemma Strcat_keeps_garbage:
  "Strcat (''a'' @ [NUL, CHR ''x'', CHR ''y'', CHR ''z'']) 0 (''b'' @ [NUL]) 0 = Some (''abx'' @ [NUL, CHR ''z''])"
  by (simp add: Strcat_def find_end.simps strcat_copy.simps aget_def aset_def NUL_def)

end
