(* ===== verification/Recursion.thy ===== *)
theory Recursion
  imports Prelude
begin

text \<open>
  The number and list recursions of \<open>c/recursion/recursion.c\<close>: the two Fibonacci functions on
  \<open>int\<close>, whose overflow is a fault, and \<open>FlipList\<close> on a store of list nodes. The string functions
  of the same file are in the theory of strings, its stack sort in the theory of stacks.
\<close>

section \<open>Fibonacci\<close>

partial_function (option) fib_loop :: "int \<Rightarrow> int \<Rightarrow> int \<Rightarrow> int \<Rightarrow> int option" where
  "fib_loop element_index first second i =
     (if i < element_index then do {
        second \<leftarrow> int32 (second + first);
        first \<leftarrow> int32 (second - first);
        fib_loop element_index first second (i + 1)
      } else Some second)"

definition FibonacciIteratively :: "int \<Rightarrow> int option" where
  "FibonacciIteratively element_index = fib_loop element_index 1 1 2"

partial_function (option) FibonacciRecursively :: "int \<Rightarrow> int option" where
  "FibonacciRecursively element_index =
     (if element_index = 0 then Some 0
      else if element_index = 1 then Some 1
      else do {
        a \<leftarrow> FibonacciRecursively (element_index - 2);
        b \<leftarrow> FibonacciRecursively (element_index - 1);
        int32 (a + b)
      })"

fun fib :: "nat \<Rightarrow> int" where
  "fib 0 = 0"
| "fib (Suc 0) = 1"
| "fib (Suc (Suc n)) = fib (Suc n) + fib n"

lemma fib_nonneg: "0 \<le> fib n"
  by (induction n rule: fib.induct) auto

lemma fib_mono: "fib n \<le> fib (n + k)"
proof (induction k)
  case (Suc k)
  have "fib m \<le> fib (Suc m)" for m
    by (induction m rule: fib.induct) (use fib_nonneg in auto)
  then show ?case using Suc order_trans by fastforce
qed simp

fun fib_pair :: "nat \<Rightarrow> int \<times> int" where
  "fib_pair 0 = (0, 1)"
| "fib_pair (Suc n) = (case fib_pair n of (a, b) \<Rightarrow> (b, a + b))"

lemma fib_pair: "fib_pair n = (fib n, fib (Suc n))"
  by (induction n) simp_all

lemma fib_46: "fib 46 = 1836311903" "fib 45 = 1134903170"
proof -
  have "fib_pair 45 = (1134903170, 1836311903)" by (simp add: eval_nat_numeral)
  then show "fib 46 = 1836311903" "fib 45 = 1134903170"
    unfolding fib_pair by (simp_all only: prod.inject) (simp add: eval_nat_numeral del: fib.simps)
qed

lemma fib_bound: "n \<le> 46 \<Longrightarrow> fib n < 2 ^ 31"
  using fib_mono [of n "46 - n"] fib_46 by simp

lemma fib_loop_spec:
  "\<lbrakk>2 \<le> i; i \<le> n; n \<le> 46\<rbrakk> \<Longrightarrow> fib_loop (int n) (fib (i - 1)) (fib i) (int i) = Some (fib n)"
proof (induction "n - i" arbitrary: i)
  case 0
  then show ?case by (subst fib_loop.simps) simp
next
  case (Suc m)
  obtain j where j: "i = Suc j" using Suc.prems by (cases i) auto
  have i: "i < n" using Suc.hyps(2) by simp
  have f: "fib i + fib (i - 1) = fib (Suc i)" by (simp add: j)
  then have g: "fib (Suc i) - fib (i - 1) = fib i" by simp
  have "int32 (fib i + fib (i - 1)) = Some (fib (Suc i))" "int32 (fib (Suc i) - fib (i - 1)) = Some (fib i)"
    unfolding f g using Suc.hyps(2) Suc.prems by (auto intro!: int32_in fib_bound [simplified] fib_nonneg simp del: fib.simps)
  then have "fib_loop (int n) (fib (i - 1)) (fib i) (int i) = fib_loop (int n) (fib (Suc i - 1)) (fib (Suc i)) (int (Suc i))"
    using i by (subst fib_loop.simps) (simp add: add.commute del: fib.simps)
  then show ?case using Suc.hyps(1) [of "Suc i"] Suc.hyps(2) Suc.prems by (simp del: fib.simps)
qed

lemma FibonacciIteratively_spec: "\<lbrakk>1 \<le> n; n \<le> 46\<rbrakk> \<Longrightarrow> FibonacciIteratively (int n) = Some (fib n)"
  using fib_loop_spec [of 2 n]
  by (cases "n = 1") (simp_all add: FibonacciIteratively_def fib_loop.simps [of 1] numeral_2_eq_2)

lemma FibonacciRecursively_spec: "n \<le> 46 \<Longrightarrow> FibonacciRecursively (int n) = Some (fib n)"
proof (induction n rule: fib.induct)
  case (3 n)
  have "int (Suc (Suc n)) - 2 = int n" "int (Suc (Suc n)) - 1 = int (Suc n)" by simp_all
  then show ?case
    using 3 fib_bound [of "Suc (Suc n)"] fib_nonneg [of "Suc (Suc n)"]
    by (subst FibonacciRecursively.simps) (simp add: int32_in add.commute)
qed (subst FibonacciRecursively.simps, simp)+

text \<open>At index 0 the loop answers 1, the recursion 0.\<close>

lemma Fibonacci_differ_at_0: "FibonacciIteratively 0 = Some 1" "FibonacciRecursively 0 = Some 0"
  by (simp_all add: FibonacciIteratively_def fib_loop.simps [of 0] FibonacciRecursively.simps [of 0])

text \<open>From 47 on the sum does not fit an \<open>int\<close>, in both.\<close>

lemma FibonacciRecursively_overflow: "FibonacciRecursively (int (47 + n)) = None"
proof (induction n)
  case 0
  have "FibonacciRecursively 45 = Some (fib 45)" "FibonacciRecursively 46 = Some (fib 46)"
    using FibonacciRecursively_spec [of 45] FibonacciRecursively_spec [of 46] by simp_all
  then show ?case by (subst FibonacciRecursively.simps) (simp add: fib_46 int32_def)
next
  case (Suc n)
  have "int (47 + Suc n) - 1 = int (47 + n)" by simp
  then show ?case using Suc
    by (subst FibonacciRecursively.simps) (cases "FibonacciRecursively (int (47 + Suc n) - 2)"; simp)
qed

section \<open>Flipping a linked list\<close>

record 'd lnode =
  ldata :: 'd
  lnext :: "addr option"

type_synonym 'd lstore = "addr \<Rightarrow> 'd lnode option"

partial_function (option) FlipList :: "'d lstore \<Rightarrow> addr \<Rightarrow> ('d lstore \<times> addr) option" where
  "FlipList s node = do {
     n \<leftarrow> s node;
     case lnext n of
       None \<Rightarrow> Some (s, node)
     | Some nxt \<Rightarrow> do {
         (s, new_head) \<leftarrow> FlipList s nxt;
         n \<leftarrow> s node;
         nxt \<leftarrow> lnext n;
         m \<leftarrow> s nxt;
         let s = s(nxt \<mapsto> m\<lparr>lnext := Some node\<rparr>);
         n \<leftarrow> s node;
         Some (s(node \<mapsto> n\<lparr>lnext := None\<rparr>), new_head)
       }
   }"

text \<open>\<open>chain s p as q\<close>: from \<open>p\<close> the nodes \<open>as\<close> are linked in this order, and the last leads to \<open>q\<close>.\<close>

fun chain :: "'d lstore \<Rightarrow> addr option \<Rightarrow> addr list \<Rightarrow> addr option \<Rightarrow> bool" where
  "chain s p [] q = (p = q)"
| "chain s p (a # as) q = (p = Some a \<and> (\<exists>n. s a = Some n \<and> chain s (lnext n) as q))"

lemma chain_append: "chain s p (as @ bs) q \<longleftrightarrow> (\<exists>r. chain s p as r \<and> chain s r bs q)"
  by (induction as arbitrary: p) auto

lemma chain_upd: "a \<notin> set as \<Longrightarrow> chain (s(a \<mapsto> n)) p as q \<longleftrightarrow> chain s p as q"
  by (induction as arbitrary: p) auto

lemma FlipList_spec:
  "\<lbrakk>chain s (Some a) (a # as) None; distinct (a # as)\<rbrakk> \<Longrightarrow>
   \<exists>s' b. FlipList s a = Some (s', b) \<and> chain s' (Some b) (rev (a # as)) None
     \<and> (\<forall>x. x \<notin> set (a # as) \<longrightarrow> s' x = s x) \<and> (\<forall>x. map_option ldata (s' x) = map_option ldata (s x))"
proof (induction as arbitrary: a)
  case Nil
  then show ?case by (subst FlipList.simps) auto
next
  case (Cons c as)
  obtain n where n: "s a = Some n" "lnext n = Some c" using Cons.prems(1) by auto
  obtain s' b where f: "FlipList s c = Some (s', b)" "chain s' (Some b) (rev (c # as)) None"
    "\<forall>x. x \<notin> set (c # as) \<longrightarrow> s' x = s x" "\<forall>x. map_option ldata (s' x) = map_option ldata (s x)"
    using Cons.IH [of c] Cons.prems by auto
  have a: "s' a = Some n" "a \<noteq> c" using f(3) n Cons.prems(2) by auto
  obtain m where m: "s' c = Some m" "chain s' (Some b) (rev as) (Some c)"
    using f(2) by (auto simp: chain_append)
  let ?s = "s'(c \<mapsto> m\<lparr>lnext := Some a\<rparr>, a \<mapsto> n\<lparr>lnext := None\<rparr>)"
  have "FlipList s a = Some (?s, b)" using n f(1) a m(1) by (subst FlipList.simps) simp
  moreover have "chain ?s (Some b) (rev (a # c # as)) None"
    using m(2) Cons.prems(2) a(2) by (simp add: chain_append chain_upd)
  moreover have "\<forall>x. x \<notin> set (a # c # as) \<longrightarrow> ?s x = s x" using f(3) by auto
  moreover have "\<forall>x. map_option ldata (?s x) = map_option ldata (s x)"
    using f(4) m(1) a(1) n(1) by (metis (no_types, lifting) fun_upd_apply lnode.select_convs(1) lnode.surjective lnode.update_convs(2) option.simps(9))
  ultimately show ?case by blast
qed

section \<open>What the functions promise\<close>

text \<open>From index 1 to 46 the loop and the recursion give the Fibonacci number, which fits an \<open>int\<close>.\<close>

lemma Fibonacci_agree:
  assumes "1 \<le> n" and "n \<le> 46"
  shows "FibonacciIteratively (int n) = FibonacciRecursively (int n) \<and> FibonacciRecursively (int n) = Some (fib n)"
  using FibonacciIteratively_spec [OF assms] FibonacciRecursively_spec [OF assms(2)] by simp

end
