(* ===== verification/Slist.thy ===== *)
theory Slist
  imports Prelude
begin

text \<open>
  The singly linked list of \<open>ds/slist/slist.c\<close> over a store of nodes and of list structures. The
  last node is a dummy whose data points back to the list. An iterator is a pointer to a node; the
  element at an iterator is in the node, so that insertion at an iterator moves the old element
  into the new node and removal copies the next element over the removed one.
\<close>

section \<open>The store\<close>

record 'd slist_node =
  sdata :: "'d vptr"
  next_link :: "addr option"

record slist =
  head :: addr
  tail :: addr

record 'd sstore =
  nodes :: "addr \<Rightarrow> 'd slist_node option"
  lists :: "addr \<Rightarrow> slist option"

definition node_at :: "'d sstore \<Rightarrow> addr option \<Rightarrow> 'd slist_node option" where
  "node_at s p = (case p of None \<Rightarrow> None | Some a \<Rightarrow> nodes s a)"

definition put_node :: "'d sstore \<Rightarrow> addr option \<Rightarrow> 'd slist_node \<Rightarrow> 'd sstore" where
  "put_node s p n = s\<lparr>nodes := (nodes s)(the p \<mapsto> n)\<rparr>"

definition set_link :: "'d sstore \<Rightarrow> addr option \<Rightarrow> addr option \<Rightarrow> 'd sstore option" where
  "set_link s p v = do { n \<leftarrow> node_at s p; Some (put_node s p (n\<lparr>next_link := v\<rparr>)) }"

definition set_tail :: "'d sstore \<Rightarrow> addr \<Rightarrow> addr \<Rightarrow> 'd sstore option" where
  "set_tail s l a = do { x \<leftarrow> lists s l; Some (s\<lparr>lists := (lists s)(l \<mapsto> x\<lparr>tail := a\<rparr>)\<rparr>) }"

definition set_head :: "'d sstore \<Rightarrow> addr \<Rightarrow> addr \<Rightarrow> 'd sstore option" where
  "set_head s l a = do { x \<leftarrow> lists s l; Some (s\<lparr>lists := (lists s)(l \<mapsto> x\<lparr>head := a\<rparr>)\<rparr>) }"

text \<open>The cast of a node's data to the list it belongs to.\<close>

definition as_list :: "'d vptr \<Rightarrow> addr option" where
  "as_list v = (case v of ListPtr l \<Rightarrow> Some l | _ \<Rightarrow> None)"

section \<open>The operations\<close>

definition SlistCreate :: "'d sstore \<Rightarrow> addr option \<Rightarrow> addr option \<Rightarrow> addr option \<times> 'd sstore" where
  "SlistCreate s mem_list mem_node =
     (case mem_list of None \<Rightarrow> (None, s)
      | Some l \<Rightarrow> (case mem_node of None \<Rightarrow> (None, s)
          | Some d \<Rightarrow> (Some l, s\<lparr>nodes := (nodes s)(d \<mapsto> \<lparr>sdata = ListPtr l, next_link = None\<rparr>),
                                 lists := (lists s)(l \<mapsto> \<lparr>head = d, tail = d\<rparr>)\<rparr>)))"

definition SlistBegin :: "'d sstore \<Rightarrow> addr \<Rightarrow> addr option option" where
  "SlistBegin s l = do { x \<leftarrow> lists s l; Some (Some (head x)) }"

definition SlistEnd :: "'d sstore \<Rightarrow> addr \<Rightarrow> addr option option" where
  "SlistEnd s l = do { x \<leftarrow> lists s l; Some (Some (tail x)) }"

definition SlistNext :: "'d sstore \<Rightarrow> addr option \<Rightarrow> addr option option" where
  "SlistNext s iter = do { c_assert (iter \<noteq> None); n \<leftarrow> node_at s iter; Some (next_link n) }"

definition SlistGetData :: "'d sstore \<Rightarrow> addr option \<Rightarrow> 'd vptr option" where
  "SlistGetData s iter = do { c_assert (iter \<noteq> None); n \<leftarrow> node_at s iter; Some (sdata n) }"

definition SlistSetData :: "'d sstore \<Rightarrow> addr option \<Rightarrow> 'd vptr \<Rightarrow> 'd sstore option" where
  "SlistSetData s iter v = do {
     c_assert (iter \<noteq> None);
     n \<leftarrow> node_at s iter;
     Some (put_node s iter (n\<lparr>sdata := v\<rparr>))
   }"

definition SlistIsSameIter :: "'d sstore \<Rightarrow> addr option \<Rightarrow> addr option \<Rightarrow> bool option" where
  "SlistIsSameIter s one two = do {
     c_assert (one \<noteq> None);
     c_assert (two \<noteq> None);
     n \<leftarrow> node_at s one;
     m \<leftarrow> node_at s two;
     Some (next_link n = next_link m)
   }"

partial_function (option) GetEndByNext :: "'d sstore \<Rightarrow> addr option \<Rightarrow> addr option option" where
  "GetEndByNext s node_runner = do {
     n \<leftarrow> node_at s node_runner;
     if next_link n \<noteq> None then GetEndByNext s (next_link n) else Some node_runner
   }"

definition SlistInsert ::
  "'d sstore \<Rightarrow> addr option \<Rightarrow> addr option \<Rightarrow> 'd vptr \<Rightarrow> (addr option \<times> 'd sstore) option" where
  "SlistInsert s mem wh v = do {
     c_assert (wh \<noteq> None);
     case mem of
       None \<Rightarrow> do { e \<leftarrow> GetEndByNext s wh; Some (e, s) }
     | Some new_node \<Rightarrow> do {
         w \<leftarrow> node_at s wh;
         let s = put_node s mem \<lparr>sdata = Null, next_link = next_link w\<rparr>;
         s \<leftarrow> SlistSetData s mem (sdata w);
         s \<leftarrow> set_link s wh mem;
         s \<leftarrow> SlistSetData s wh v;
         n \<leftarrow> node_at s mem;
         s \<leftarrow> (if next_link n = None then do { l \<leftarrow> as_list (sdata n); set_tail s l new_node } else Some s);
         Some (wh, s)
       }
   }"

definition SlistRemove :: "'d sstore \<Rightarrow> addr option \<Rightarrow> (addr option \<times> 'd sstore) option" where
  "SlistRemove s iter = do {
     c_assert (iter \<noteq> None);
     nx \<leftarrow> SlistNext s iter;
     if nx = None then Some (None, s)
     else do {
       d \<leftarrow> SlistGetData s nx;
       s \<leftarrow> SlistSetData s iter d;
       nn \<leftarrow> SlistNext s nx;
       s \<leftarrow> (if nn = None then do {
                 n \<leftarrow> node_at s iter;
                 l \<leftarrow> as_list (sdata n);
                 s \<leftarrow> set_tail s l (the iter);
                 set_head s l (the iter)
               } else Some s);
       buffer \<leftarrow> SlistNext s iter;
       b \<leftarrow> node_at s buffer;
       s \<leftarrow> set_link s iter (next_link b);
       Some (iter, s\<lparr>nodes := (nodes s)(the buffer := None)\<rparr>)
     }
   }"

text \<open>The traversals: the action returns a status and changes what its parameter points to.
  \<open>SlistForEach\<close> passes the data of \<open>from\<close>, not that of the runner, and always returns 0.\<close>

partial_function (option) SlistForEach ::
  "'d sstore \<Rightarrow> addr option \<Rightarrow> addr option \<Rightarrow> addr option \<Rightarrow> ('d vptr \<Rightarrow> 'p \<Rightarrow> int \<times> 'p) \<Rightarrow> 'p \<Rightarrow> (int \<times> 'p) option" where
  "SlistForEach s from runner to action_func param = do {
     same \<leftarrow> SlistIsSameIter s runner to;
     if same then Some (0, param)
     else do {
       n \<leftarrow> node_at s from;
       case action_func (sdata n) param of (status, param) \<Rightarrow>
         if status = 0 then do { nx \<leftarrow> SlistNext s runner; SlistForEach s from nx to action_func param }
         else Some (0, param)
     }
   }"

partial_function (option) SlistFind ::
  "'d sstore \<Rightarrow> addr option \<Rightarrow> addr option \<Rightarrow> 'k \<Rightarrow> ('d vptr \<Rightarrow> 'k \<Rightarrow> bool) \<Rightarrow> addr option option" where
  "SlistFind s runner to data_to_compare is_match_func = do {
     same \<leftarrow> SlistIsSameIter s runner to;
     if same then Some runner
     else do {
       d \<leftarrow> SlistGetData s runner;
       if is_match_func d data_to_compare then Some runner
       else do { nx \<leftarrow> SlistNext s runner; SlistFind s nx to data_to_compare is_match_func }
     }
   }"

definition CountNode :: "'d vptr \<Rightarrow> nat \<Rightarrow> int \<times> nat" where
  "CountNode v param = (0, param + 1)"

definition SlistCount :: "'d sstore \<Rightarrow> addr \<Rightarrow> nat option" where
  "SlistCount s l = do {
     b \<leftarrow> SlistBegin s l;
     e \<leftarrow> SlistEnd s l;
     (_, n) \<leftarrow> SlistForEach s b b e CountNode 0;
     Some n
   }"

partial_function (option) slist_destroy_loop :: "'d sstore \<Rightarrow> addr option \<Rightarrow> 'd sstore option" where
  "slist_destroy_loop s node_runner = do {
     n \<leftarrow> node_at s node_runner;
     let s = s\<lparr>nodes := (nodes s)(the node_runner := None)\<rparr>;
     if next_link n \<noteq> None then slist_destroy_loop s (next_link n) else Some s
   }"

definition SlistDestroy :: "'d sstore \<Rightarrow> addr \<Rightarrow> 'd sstore option" where
  "SlistDestroy s l = do {
     x \<leftarrow> lists s l;
     s \<leftarrow> slist_destroy_loop s (Some (head x));
     Some (s\<lparr>lists := (lists s)(l := None)\<rparr>)
   }"

definition SlistAppend :: "'d sstore \<Rightarrow> addr \<Rightarrow> addr \<Rightarrow> 'd sstore option" where
  "SlistAppend s dest src = do {
     sb \<leftarrow> SlistBegin s src;
     n \<leftarrow> node_at s sb;
     if next_link n = None then Some s
     else do {
       se \<leftarrow> SlistEnd s src;
       de \<leftarrow> SlistEnd s dest;
       d \<leftarrow> SlistGetData s de;
       s \<leftarrow> SlistSetData s se d;
       d \<leftarrow> SlistGetData s sb;
       s \<leftarrow> SlistSetData s de d;
       n \<leftarrow> node_at s sb;
       s \<leftarrow> set_link s de (next_link n);
       x \<leftarrow> lists s src;
       s \<leftarrow> set_tail s dest (tail x);
       s \<leftarrow> SlistSetData s sb (ListPtr src);
       s \<leftarrow> set_link s sb None;
       x \<leftarrow> lists s src;
       set_tail s src (head x)
     }
   }"

section \<open>Lists in the store\<close>

text \<open>\<open>chain n a xs d\<close>: from node \<open>a\<close> the nodes \<open>xs\<close>, each with its element, lead to \<open>d\<close>.\<close>

fun schain :: "(addr \<Rightarrow> 'd slist_node option) \<Rightarrow> addr \<Rightarrow> (addr \<times> 'd) list \<Rightarrow> addr \<Rightarrow> bool" where
  "schain n a [] d = (a = d)"
| "schain n a ((b, v) # xs) d =
     (a = b \<and> (\<exists>c. n b = Some \<lparr>sdata = Elem v, next_link = Some c\<rparr> \<and> schain n c xs d))"

definition slist_of :: "'d sstore \<Rightarrow> addr \<Rightarrow> (addr \<times> 'd) list \<Rightarrow> addr \<Rightarrow> bool" where
  "slist_of s l xs d \<longleftrightarrow> (\<exists>a. lists s l = Some \<lparr>head = a, tail = d\<rparr> \<and> schain (nodes s) a xs d)
     \<and> nodes s d = Some \<lparr>sdata = ListPtr l, next_link = None\<rparr> \<and> distinct (List.map fst xs @ [d])"

text \<open>What a client sees of a list: its elements.\<close>

definition elements :: "'d sstore \<Rightarrow> addr \<Rightarrow> 'd list \<Rightarrow> bool" where
  "elements s l vs \<longleftrightarrow> (\<exists>xs d. slist_of s l xs d \<and> List.map snd xs = vs)"

lemma elementsI: "slist_of s l xs d \<Longrightarrow> elements s l (List.map snd xs)"
  by (auto simp: elements_def)

lemma schain_upd: "b \<notin> fst ` set xs \<Longrightarrow> schain (n(b := v)) a xs d = schain n a xs d"
  by (induction xs arbitrary: a) auto

lemma schain_append: "schain n a (xs @ ys) d \<longleftrightarrow> (\<exists>b. schain n a xs b \<and> schain n b ys d)"
  by (induction xs arbitrary: a) (auto, blast+)

lemma SlistCreate_spec:
  "SlistCreate s (Some l) (Some d) = (Some l, s') \<Longrightarrow> elements s' l []"
  by (auto simp: SlistCreate_def elements_def slist_of_def)

lemmas slist_ops = SlistBegin_def SlistEnd_def SlistNext_def SlistGetData_def SlistSetData_def
  set_link_def set_tail_def set_head_def put_node_def node_at_def as_list_def

section \<open>Insertion\<close>

lemma GetEndByNext_spec:
  "schain (nodes s) a xs d \<Longrightarrow> nodes s d = Some \<lparr>sdata = v, next_link = None\<rparr> \<Longrightarrow> GetEndByNext s (Some a) = Some (Some d)"
proof (induction xs arbitrary: a)
  case Nil
  then show ?case by (subst GetEndByNext.simps) (simp add: node_at_def)
next
  case (Cons x xs)
  then show ?case by (cases x) (subst GetEndByNext.simps, auto simp: node_at_def)
qed

text \<open>The node at a position: the first of what follows, or the dummy.\<close>

definition node_of :: "(addr \<times> 'd) list \<Rightarrow> addr \<Rightarrow> addr" where
  "node_of ys d = (case ys of [] \<Rightarrow> d | (a, _) # _ \<Rightarrow> a)"

lemma schain_start: "schain n a ys d \<Longrightarrow> a = node_of ys d"
  by (cases ys) (auto simp: node_of_def)

lemma schain_split: "schain n a (xs @ ys) d \<longleftrightarrow> schain n a xs (node_of ys d) \<and> schain n (node_of ys d) ys d"
  using schain_start unfolding schain_append by metis

lemma SlistInsert_end:
  assumes s: "slist_of s l xs d" and n: "n \<notin> insert d (fst ` set xs)"
  shows "\<exists>s'. SlistInsert s (Some n) (Some d) (Elem v) = Some (Some d, s') \<and> slist_of s' l (xs @ [(d, v)]) n
    \<and> (\<forall>b. b \<noteq> n \<and> b \<noteq> d \<longrightarrow> nodes s' b = nodes s b) \<and> (\<forall>k. k \<noteq> l \<longrightarrow> lists s' k = lists s k)"
proof -
  obtain a where a: "lists s l = Some \<lparr>head = a, tail = d\<rparr>" "schain (nodes s) a xs d"
    "nodes s d = Some \<lparr>sdata = ListPtr l, next_link = None\<rparr>" "distinct (List.map fst xs @ [d])"
    using s by (auto simp: slist_of_def)
  let ?s = "s\<lparr>nodes := (nodes s)(n \<mapsto> \<lparr>sdata = ListPtr l, next_link = None\<rparr>, d \<mapsto> \<lparr>sdata = Elem v, next_link = Some n\<rparr>),
              lists := (lists s)(l \<mapsto> \<lparr>head = a, tail = n\<rparr>)\<rparr>"
  have "SlistInsert s (Some n) (Some d) (Elem v) = Some (Some d, ?s)"
    using a n by (simp add: SlistInsert_def slist_ops fun_upd_twist)
  moreover have "schain (nodes ?s) a (xs @ [(d, v)]) n"
    using a(2,4) n by (simp add: schain_append schain_upd)
  then have "slist_of ?s l (xs @ [(d, v)]) n" using a n by (auto simp: slist_of_def)
  ultimately show ?thesis by (intro exI [of _ ?s]) simp
qed

lemma SlistInsert_inside:
  assumes s: "slist_of s l (xs @ (w, u) # ys) d" and n: "n \<notin> insert d (insert w (fst ` set (xs @ ys)))"
  shows "\<exists>s'. SlistInsert s (Some n) (Some w) (Elem v) = Some (Some w, s') \<and> slist_of s' l (xs @ (w, v) # (n, u) # ys) d
    \<and> (\<forall>b. b \<noteq> n \<and> b \<noteq> w \<longrightarrow> nodes s' b = nodes s b) \<and> lists s' = lists s"
proof -
  obtain a where a: "lists s l = Some \<lparr>head = a, tail = d\<rparr>" "schain (nodes s) a (xs @ (w, u) # ys) d"
    "nodes s d = Some \<lparr>sdata = ListPtr l, next_link = None\<rparr>" "distinct (List.map fst (xs @ (w, u) # ys) @ [d])"
    using s by (auto simp: slist_of_def)
  obtain c where c: "schain (nodes s) a xs w" "nodes s w = Some \<lparr>sdata = Elem u, next_link = Some c\<rparr>" "schain (nodes s) c ys d"
    using a(2) by (auto simp: schain_append)
  let ?s = "s\<lparr>nodes := (nodes s)(n \<mapsto> \<lparr>sdata = Elem u, next_link = Some c\<rparr>, w \<mapsto> \<lparr>sdata = Elem v, next_link = Some n\<rparr>)\<rparr>"
  have "SlistInsert s (Some n) (Some w) (Elem v) = Some (Some w, ?s)"
    using c n by (simp add: SlistInsert_def slist_ops fun_upd_twist)
  moreover have "schain (nodes ?s) a (xs @ (w, v) # (n, u) # ys) d"
    using a(4) c n by (auto simp: schain_append schain_upd image_Un)
  then have "slist_of ?s l (xs @ (w, v) # (n, u) # ys) d" using a n by (auto simp: slist_of_def)
  ultimately show ?thesis by (intro exI [of _ ?s]) simp
qed

lemma SlistInsert_no_memory:
  assumes "slist_of s l (xs @ ys) d"
  shows "SlistInsert s None (Some (node_of ys d)) v = Some (Some d, s)"
  using assms GetEndByNext_spec [of s "node_of ys d" ys d] by (auto simp: slist_of_def SlistInsert_def schain_split)

section \<open>Removal\<close>

lemma SlistRemove_inside:
  assumes s: "slist_of s l (xs @ (w, u) # (b, v) # ys) d"
  shows "\<exists>s'. SlistRemove s (Some w) = Some (Some w, s') \<and> slist_of s' l (xs @ (w, v) # ys) d
    \<and> (\<forall>c. c \<noteq> w \<and> c \<noteq> b \<longrightarrow> nodes s' c = nodes s c) \<and> lists s' = lists s"
proof -
  obtain a where a: "lists s l = Some \<lparr>head = a, tail = d\<rparr>" "schain (nodes s) a (xs @ (w, u) # (b, v) # ys) d"
    "nodes s d = Some \<lparr>sdata = ListPtr l, next_link = None\<rparr>" "distinct (List.map fst (xs @ (w, u) # (b, v) # ys) @ [d])"
    using s by (auto simp: slist_of_def)
  obtain c where c: "schain (nodes s) a xs w" "nodes s w = Some \<lparr>sdata = Elem u, next_link = Some b\<rparr>"
    "nodes s b = Some \<lparr>sdata = Elem v, next_link = Some c\<rparr>" "schain (nodes s) c ys d"
    using a(2) by (auto simp: schain_append)
  let ?s = "s\<lparr>nodes := (nodes s)(w \<mapsto> \<lparr>sdata = Elem v, next_link = Some c\<rparr>, b := None)\<rparr>"
  have "SlistRemove s (Some w) = Some (Some w, ?s)"
    using c a(4) by (auto simp: SlistRemove_def slist_ops)
  moreover have "schain (nodes ?s) a (xs @ (w, v) # ys) d"
    using a(4) c by (auto simp: schain_append schain_upd)
  then have "slist_of ?s l (xs @ (w, v) # ys) d" using a by (auto simp: slist_of_def)
  ultimately show ?thesis by (intro exI [of _ ?s]) simp
qed

text \<open>Removing the last element moves the head too: whatever came before it is lost.\<close>

lemma SlistRemove_last:
  assumes s: "slist_of s l (xs @ [(w, u)]) d"
  shows "\<exists>s'. SlistRemove s (Some w) = Some (Some w, s') \<and> slist_of s' l [] w
    \<and> (\<forall>c. c \<noteq> w \<and> c \<noteq> d \<longrightarrow> nodes s' c = nodes s c) \<and> (\<forall>k. k \<noteq> l \<longrightarrow> lists s' k = lists s k)"
proof -
  obtain a where a: "lists s l = Some \<lparr>head = a, tail = d\<rparr>" "schain (nodes s) a (xs @ [(w, u)]) d"
    "nodes s d = Some \<lparr>sdata = ListPtr l, next_link = None\<rparr>" "distinct (List.map fst (xs @ [(w, u)]) @ [d])"
    using s by (auto simp: slist_of_def)
  then have c: "nodes s w = Some \<lparr>sdata = Elem u, next_link = Some d\<rparr>" "w \<noteq> d" by (auto simp: schain_append)
  let ?s = "s\<lparr>nodes := (nodes s)(w \<mapsto> \<lparr>sdata = ListPtr l, next_link = None\<rparr>, d := None),
              lists := (lists s)(l \<mapsto> \<lparr>head = w, tail = w\<rparr>)\<rparr>"
  have "SlistRemove s (Some w) = Some (Some w, ?s)"
    using a c by (auto simp: SlistRemove_def slist_ops)
  moreover have "slist_of ?s l [] w" using c(2) by (simp add: slist_of_def)
  ultimately show ?thesis by (intro exI [of _ ?s]) simp
qed

lemma SlistRemove_end: "slist_of s l xs d \<Longrightarrow> SlistRemove s (Some d) = Some (None, s)"
  by (auto simp: slist_of_def SlistRemove_def slist_ops)

section \<open>Traversal\<close>

lemma SlistCount_loop:
  "\<lbrakk>schain (nodes s) r ys d; nodes s d = Some \<lparr>sdata = v, next_link = None\<rparr>; nodes s f \<noteq> None\<rbrakk> \<Longrightarrow>
   SlistForEach s (Some f) (Some r) (Some d) CountNode n = Some (0, n + length ys)"
proof (induction ys arbitrary: r n)
  case Nil
  then show ?case by (subst SlistForEach.simps) (simp add: SlistIsSameIter_def node_at_def)
next
  case (Cons y ys)
  obtain c where c: "y = (r, snd y)" "nodes s r = Some \<lparr>sdata = Elem (snd y), next_link = Some c\<rparr>" "schain (nodes s) c ys d"
    using Cons.prems(1) by (cases y) auto
  have "SlistForEach s (Some f) (Some r) (Some d) CountNode n = SlistForEach s (Some f) (Some c) (Some d) CountNode (n + 1)"
    using c Cons.prems(2,3) by (subst SlistForEach.simps) (auto simp: SlistIsSameIter_def SlistNext_def node_at_def CountNode_def)
  then show ?case using Cons.IH [OF c(3) Cons.prems(2,3), of "n + 1"] by simp
qed

lemma SlistCount_spec: "slist_of s l xs d \<Longrightarrow> SlistCount s l = Some (length xs)"
proof -
  assume "slist_of s l xs d"
  then obtain a where a: "lists s l = Some \<lparr>head = a, tail = d\<rparr>" "schain (nodes s) a xs d"
    "nodes s d = Some \<lparr>sdata = ListPtr l, next_link = None\<rparr>" by (auto simp: slist_of_def)
  have "nodes s a \<noteq> None" using a(2,3) by (cases xs) auto
  then show ?thesis using a SlistCount_loop [of s a xs d _ a 0] by (simp add: SlistCount_def SlistBegin_def SlistEnd_def)
qed

lemma SlistFind_spec:
  "\<lbrakk>schain (nodes s) r ys d; nodes s d = Some \<lparr>sdata = v, next_link = None\<rparr>\<rbrakk> \<Longrightarrow>
   SlistFind s (Some r) (Some d) k m = Some (Some (node_of (dropWhile (\<lambda>(_, x). \<not> m (Elem x) k) ys) d))"
proof (induction ys arbitrary: r)
  case Nil
  then show ?case by (subst SlistFind.simps) (simp add: SlistIsSameIter_def node_at_def node_of_def)
next
  case (Cons y ys)
  obtain c where c: "y = (r, snd y)" "nodes s r = Some \<lparr>sdata = Elem (snd y), next_link = Some c\<rparr>" "schain (nodes s) c ys d"
    using Cons.prems(1) by (cases y) auto
  have "SlistFind s (Some r) (Some d) k m = (if m (Elem (snd y)) k then Some (Some r) else SlistFind s (Some c) (Some d) k m)"
    using c Cons.prems(2) by (subst SlistFind.simps) (auto simp: SlistIsSameIter_def SlistNext_def SlistGetData_def node_at_def)
  then show ?case using Cons.IH [OF c(3) Cons.prems(2)] c(1) by (cases y) (auto simp: node_of_def)
qed

section \<open>Joining two lists\<close>

lemma SlistAppend_spec:
  assumes s: "slist_of s dest xs d" and t: "slist_of s src ys e" and ne: "dest \<noteq> src"
    and apart: "insert d (fst ` set xs) \<inter> insert e (fst ` set ys) = {}"
  shows "\<exists>s'. SlistAppend s dest src = Some s' \<and> elements s' dest (List.map snd (xs @ ys)) \<and> elements s' src []
    \<and> (\<forall>k. k \<notin> {dest, src} \<longrightarrow> lists s' k = lists s k)"
proof -
  obtain a where a: "lists s dest = Some \<lparr>head = a, tail = d\<rparr>" "schain (nodes s) a xs d"
    "nodes s d = Some \<lparr>sdata = ListPtr dest, next_link = None\<rparr>" "distinct (List.map fst xs @ [d])"
    using s by (auto simp: slist_of_def)
  obtain b where b: "lists s src = Some \<lparr>head = b, tail = e\<rparr>" "schain (nodes s) b ys e"
    "nodes s e = Some \<lparr>sdata = ListPtr src, next_link = None\<rparr>" "distinct (List.map fst ys @ [e])"
    using t by (auto simp: slist_of_def)
  show ?thesis
  proof (cases ys)
    case Nil
    then have "SlistAppend s dest src = Some s" using b by (auto simp: SlistAppend_def slist_ops)
    then show ?thesis using s t Nil by (intro exI [of _ s]) (auto simp: elements_def)
  next
    case (Cons y zs)
    obtain v c where y: "y = (b, v)" "nodes s b = Some \<lparr>sdata = Elem v, next_link = Some c\<rparr>" "schain (nodes s) c zs e"
      using b(2) Cons by (cases y) auto
    have dis: "b \<noteq> e" "b \<noteq> d" "e \<noteq> d" "b \<notin> fst ` set zs" "d \<notin> fst ` set zs" "e \<notin> fst ` set zs"
      "b \<notin> fst ` set xs" "d \<notin> fst ` set xs" "e \<notin> fst ` set xs" "distinct (List.map fst xs)" "distinct (List.map fst zs)"
      "fst ` set xs \<inter> fst ` set zs = {}"
      using a(4) b(4) apart unfolding Cons y(1) by auto
    let ?s = "s\<lparr>nodes := (nodes s)(e \<mapsto> \<lparr>sdata = ListPtr dest, next_link = None\<rparr>, d \<mapsto> \<lparr>sdata = Elem v, next_link = Some c\<rparr>,
                     b \<mapsto> \<lparr>sdata = ListPtr src, next_link = None\<rparr>),
                lists := (lists s)(dest \<mapsto> \<lparr>head = a, tail = e\<rparr>, src \<mapsto> \<lparr>head = b, tail = b\<rparr>)\<rparr>"
    have "SlistAppend s dest src = Some ?s"
      using a(1,3) b(1,3) y(2) dis(1-3) ne by (simp add: SlistAppend_def slist_ops fun_upd_twist)
    moreover have "slist_of ?s dest (xs @ (d, v) # zs) e"
      using a(2) y(3) dis ne by (auto simp: slist_of_def schain_append schain_upd)
    then have "elements ?s dest (List.map snd (xs @ (d, v) # zs))" by (rule elementsI)
    then have "elements ?s dest (List.map snd (xs @ ys))" by (simp add: Cons y(1))
    moreover have "slist_of ?s src [] b" by (simp add: slist_of_def)
    then have "elements ?s src []" using elementsI [of ?s src "[]" b] by simp
    ultimately show ?thesis by (intro exI [of _ ?s]) simp
  qed
qed

section \<open>Destruction\<close>

lemma slist_destroy_loop_spec:
  "\<lbrakk>schain (nodes s) a xs d; nodes s d = Some \<lparr>sdata = v, next_link = None\<rparr>; distinct (List.map fst xs @ [d])\<rbrakk> \<Longrightarrow>
   \<exists>s'. slist_destroy_loop s (Some a) = Some s' \<and> lists s' = lists s
     \<and> (\<forall>b. nodes s' b = (if b = d \<or> b \<in> fst ` set xs then None else nodes s b))"
proof (induction xs arbitrary: a s)
  case Nil
  then show ?case by (subst slist_destroy_loop.simps) (auto simp: node_at_def)
next
  case (Cons x xs)
  obtain c where c: "fst x = a" "nodes s a = Some \<lparr>sdata = Elem (snd x), next_link = Some c\<rparr>" "schain (nodes s) c xs d"
    using Cons.prems(1) by (cases x) auto
  let ?s = "s\<lparr>nodes := (nodes s)(a := None)\<rparr>"
  have "slist_destroy_loop s (Some a) = slist_destroy_loop ?s (Some c)"
    using c(2) by (subst slist_destroy_loop.simps) (simp add: node_at_def)
  moreover have "schain (nodes ?s) c xs d" "nodes ?s d = Some \<lparr>sdata = v, next_link = None\<rparr>" "distinct (List.map fst xs @ [d])"
    using c(1,3) Cons.prems(2,3) by (auto simp: schain_upd)
  moreover from this obtain s' where "slist_destroy_loop ?s (Some c) = Some s'" "lists s' = lists ?s"
    "\<forall>b. nodes s' b = (if b = d \<or> b \<in> fst ` set xs then None else nodes ?s b)"
    using Cons.IH [of ?s c] by blast
  ultimately show ?case using c(1) by (intro exI [of _ s']) simp
qed

lemma SlistDestroy_spec:
  "slist_of s l xs d \<Longrightarrow> \<exists>s'. SlistDestroy s l = Some s' \<and> lists s' l = None
     \<and> (\<forall>b \<in> insert d (fst ` set xs). nodes s' b = None) \<and> (\<forall>b. b \<notin> insert d (fst ` set xs) \<longrightarrow> nodes s' b = nodes s b)"
  using slist_destroy_loop_spec [of s _ xs d "ListPtr l"] by (fastforce simp: slist_of_def SlistDestroy_def)

end
