(* ===== verification/Queue.thy ===== *)
theory Queue
  imports Slist
begin

text \<open>
  The queue of \<open>ds/queue/queue.c\<close>: a structure that holds a singly linked list; elements enter at
  the end and leave at the beginning. A queue is named by the address of its list.
\<close>

section \<open>The operations\<close>

record queue =
  list_of :: addr

definition QCreate :: "'d sstore \<Rightarrow> bool \<Rightarrow> addr option \<Rightarrow> addr option \<Rightarrow> queue option \<times> 'd sstore" where
  "QCreate s mem mem_list mem_node =
     (if \<not> mem then (None, s)
      else (case SlistCreate s mem_list mem_node of (new_list, s) \<Rightarrow>
        (case new_list of None \<Rightarrow> (None, s) | Some l \<Rightarrow> (Some \<lparr>list_of = l\<rparr>, s))))"

definition QDestroy :: "'d sstore \<Rightarrow> queue \<Rightarrow> 'd sstore option" where
  "QDestroy s q = SlistDestroy s (list_of q)"

definition QSize :: "'d sstore \<Rightarrow> queue \<Rightarrow> nat option" where
  "QSize s q = SlistCount s (list_of q)"

definition QueueIsEmpty :: "'d sstore \<Rightarrow> queue \<Rightarrow> bool option" where
  "QueueIsEmpty s q = do { n \<leftarrow> SlistCount s (list_of q); Some (0 = n) }"

definition QEnqueue :: "'d sstore \<Rightarrow> addr option \<Rightarrow> queue \<Rightarrow> 'd \<Rightarrow> (bool \<times> 'd sstore) option" where
  "QEnqueue s mem q v = do {
     tail_before_insert \<leftarrow> SlistEnd s (list_of q);
     e \<leftarrow> SlistEnd s (list_of q);
     (_, s) \<leftarrow> SlistInsert s mem e (Elem v);
     e \<leftarrow> SlistEnd s (list_of q);
     Some (tail_before_insert = e, s)
   }"

definition QDequeue :: "'d sstore \<Rightarrow> queue \<Rightarrow> 'd sstore option" where
  "QDequeue s q = do {
     b \<leftarrow> SlistBegin s (list_of q);
     (_, s) \<leftarrow> SlistRemove s b;
     Some s
   }"

definition QPeek :: "'d sstore \<Rightarrow> queue \<Rightarrow> 'd vptr option" where
  "QPeek s q = do { b \<leftarrow> SlistBegin s (list_of q); SlistGetData s b }"

definition QAppend :: "'d sstore \<Rightarrow> queue \<Rightarrow> queue \<Rightarrow> 'd sstore option" where
  "QAppend s dest src = SlistAppend s (list_of dest) (list_of src)"

section \<open>The contract of a queue\<close>

text \<open>A queue in a state represents the elements in it, oldest first.\<close>

locale fifo =
  fixes repr :: "'s \<Rightarrow> 'd list \<Rightarrow> bool" and fresh :: "'s \<Rightarrow> addr \<Rightarrow> bool"
    and enq :: "'s \<Rightarrow> addr \<Rightarrow> 'd \<Rightarrow> 's option" and deq :: "'s \<Rightarrow> 's option" and peek :: "'s \<Rightarrow> 'd option"
  assumes enq: "repr s vs \<Longrightarrow> fresh s n \<Longrightarrow> \<exists>s'. enq s n v = Some s' \<and> repr s' (vs @ [v])"
    and deq: "repr s (v # vs) \<Longrightarrow> \<exists>s'. deq s = Some s' \<and> repr s' vs"
    and peek: "repr s (v # vs) \<Longrightarrow> peek s = Some v"

text \<open>Emptying a queue: look at the oldest element, remove it, go on.\<close>

fun drain :: "('s \<Rightarrow> 's option) \<Rightarrow> ('s \<Rightarrow> 'd option) \<Rightarrow> nat \<Rightarrow> 's \<Rightarrow> ('d list \<times> 's) option" where
  "drain deq peek 0 s = Some ([], s)"
| "drain deq peek (Suc n) s = do {
     v \<leftarrow> peek s;
     s \<leftarrow> deq s;
     (vs, s) \<leftarrow> drain deq peek n s;
     Some (v # vs, s)
   }"

context fifo
begin

lemma drain_repr: "repr s vs \<Longrightarrow> \<exists>s'. drain deq peek (length vs) s = Some (vs, s') \<and> repr s' []"
proof (induction vs arbitrary: s)
  case (Cons v vs)
  obtain s1 where s1: "deq s = Some s1" "repr s1 vs" using deq [OF Cons.prems] by blast
  then obtain s2 where "drain deq peek (length vs) s1 = Some (vs, s2)" "repr s2 []" using Cons.IH by blast
  then show ?case using s1 peek [OF Cons.prems] by simp
qed simp

lemma enq_drain:
  assumes "repr s vs" "fresh s n"
  shows "\<exists>s1 s2. enq s n v = Some s1 \<and> drain deq peek (Suc (length vs)) s1 = Some (vs @ [v], s2) \<and> repr s2 []"
proof -
  obtain s1 where s1: "enq s n v = Some s1" "repr s1 (vs @ [v])" using enq [OF assms] by blast
  then show ?thesis using drain_repr [OF s1(2)] by simp
qed

end

section \<open>The list is a queue\<close>

definition node_free :: "'d sstore \<Rightarrow> addr \<Rightarrow> bool" where
  "node_free s n \<longleftrightarrow> nodes s n = None"

lemma schain_nodes: "schain m a xs d \<Longrightarrow> b \<in> fst ` set xs \<Longrightarrow> m b \<noteq> None"
proof (induction xs arbitrary: a)
  case (Cons x xs)
  obtain c v where x: "x = (c, v)" by (cases x)
  show ?case
  proof (cases "b = c")
    case True
    then show ?thesis using Cons.prems(1) x by auto
  next
    case False
    then show ?thesis using Cons.IH Cons.prems x by auto
  qed
qed simp

lemma slist_nodes: "slist_of s l xs d \<Longrightarrow> b \<in> insert d (fst ` set xs) \<Longrightarrow> nodes s b \<noteq> None"
  using schain_nodes [of "nodes s" _ xs d b] unfolding slist_of_def by blast

lemma QEnqueue_spec:
  assumes "elements s (list_of q) vs" "node_free s n"
  shows "\<exists>s'. QEnqueue s (Some n) q v = Some (False, s') \<and> elements s' (list_of q) (vs @ [v])"
proof -
  obtain xs d where xs: "slist_of s (list_of q) xs d" "List.map snd xs = vs" using assms(1) by (auto simp: elements_def)
  have n: "n \<notin> insert d (fst ` set xs)" using slist_nodes [OF xs(1), of n] assms(2) by (auto simp: node_free_def)
  obtain s' where s': "SlistInsert s (Some n) (Some d) (Elem v) = Some (Some d, s')" "slist_of s' (list_of q) (xs @ [(d, v)]) n"
    using SlistInsert_end [OF xs(1) n] by blast
  have "SlistEnd s (list_of q) = Some (Some d)" "SlistEnd s' (list_of q) = Some (Some n)"
    using xs(1) s'(2) by (auto simp: slist_of_def SlistEnd_def)
  then show ?thesis using s' n elementsI [OF s'(2)] xs(2) by (simp add: QEnqueue_def)
qed

lemma QEnqueue_no_memory: "elements s (list_of q) vs \<Longrightarrow> QEnqueue s None q v = Some (True, s)"
  using SlistInsert_no_memory [of s "list_of q" _ "[]" _ "Elem v"]
  by (fastforce simp: elements_def QEnqueue_def SlistEnd_def slist_of_def node_of_def)

lemma QDequeue_spec:
  assumes "elements s (list_of q) (v # vs)"
  shows "\<exists>s'. QDequeue s q = Some s' \<and> elements s' (list_of q) vs"
proof -
  obtain w xs d where xs: "slist_of s (list_of q) ((w, v) # xs) d" "List.map snd xs = vs"
    using assms by (auto simp: elements_def)
  then have b: "SlistBegin s (list_of q) = Some (Some w)" by (auto simp: slist_of_def SlistBegin_def)
  show ?thesis
  proof (cases xs)
    case Nil
    then obtain s' where "SlistRemove s (Some w) = Some (Some w, s')" "slist_of s' (list_of q) [] w"
      using SlistRemove_last [of s "list_of q" "[]" w v d] xs(1) by auto
    then show ?thesis using b Nil xs(2) elementsI [of s' "list_of q" "[]" w] by (simp add: QDequeue_def)
  next
    case (Cons x ys)
    obtain c u where x: "x = (c, u)" by (cases x)
    obtain s' where s': "SlistRemove s (Some w) = Some (Some w, s')" "slist_of s' (list_of q) ((w, u) # ys) d"
      using SlistRemove_inside [of s "list_of q" "[]" w v c u ys d] xs(1) Cons x by auto
    then show ?thesis using b Cons x xs(2) elementsI [OF s'(2)] by (simp add: QDequeue_def)
  qed
qed

lemma QDequeue_empty: "elements s (list_of q) [] \<Longrightarrow> QDequeue s q = Some s"
  using SlistRemove_end [of s "list_of q" "[]"]
  by (auto simp: elements_def QDequeue_def SlistBegin_def slist_of_def)

lemma QPeek_spec: "elements s (list_of q) (v # vs) \<Longrightarrow> QPeek s q = Some (Elem v)"
  by (auto simp: elements_def slist_of_def QPeek_def SlistBegin_def SlistGetData_def node_at_def)

text \<open>Peeking at an empty queue shows the pointer to its own list.\<close>

lemma QPeek_empty: "elements s (list_of q) [] \<Longrightarrow> QPeek s q = Some (ListPtr (list_of q))"
  by (auto simp: elements_def slist_of_def QPeek_def SlistBegin_def SlistGetData_def node_at_def)

lemma QSize_spec: "elements s (list_of q) vs \<Longrightarrow> QSize s q = Some (length vs) \<and> QueueIsEmpty s q = Some (vs = [])"
  using SlistCount_spec by (fastforce simp: elements_def QSize_def QueueIsEmpty_def)

definition q_enq :: "queue \<Rightarrow> 'd sstore \<Rightarrow> addr \<Rightarrow> 'd \<Rightarrow> 'd sstore option" where
  "q_enq q s n v = map_option snd (QEnqueue s (Some n) q v)"

definition q_peek :: "queue \<Rightarrow> 'd sstore \<Rightarrow> 'd option" where
  "q_peek q s = do { v \<leftarrow> QPeek s q; case v of Elem d \<Rightarrow> Some d | _ \<Rightarrow> None }"

interpretation slist_queue: fifo "\<lambda>s. elements s (list_of q)" node_free "q_enq q" "\<lambda>s. QDequeue s q" "q_peek q" for q
proof (unfold_locales, goal_cases)
  case (1 s vs n v)
  then show ?case using QEnqueue_spec [of s q vs n v] by (auto simp: q_enq_def)
next
  case (2 s v vs)
  then show ?case by (rule QDequeue_spec)
next
  case (3 s v vs)
  then show ?case using QPeek_spec [of s q v vs] by (simp add: q_peek_def)
qed

section \<open>What the queue promises\<close>

text \<open>C40. A queue gives its elements back in the order they came in: after an element is enqueued, peeking
  and dequeuing yields the elements that were there, oldest first, then the new one, and leaves
  the queue empty; the size counts them, and with no memory the queue stays as it was and says so.\<close>

theorem Queue_fifo:
  assumes "elements s (list_of q) vs" and "node_free s n"
  shows "QSize s q = Some (length vs) \<and> QEnqueue s None q v = Some (True, s)
    \<and> (\<exists>s1 s2. QEnqueue s (Some n) q v = Some (False, s1) \<and> elements s1 (list_of q) (vs @ [v])
         \<and> drain (\<lambda>s. QDequeue s q) (q_peek q) (Suc (length vs)) s1 = Some (vs @ [v], s2) \<and> elements s2 (list_of q) [])"
proof -
  obtain s1 where s1: "QEnqueue s (Some n) q v = Some (False, s1)" "elements s1 (list_of q) (vs @ [v])"
    using QEnqueue_spec [OF assms] by blast
  then show ?thesis
    using slist_queue.drain_repr [OF s1(2)] QSize_spec [OF assms(1)] QEnqueue_no_memory [OF assms(1)] by auto
qed

definition empty_store :: "nat sstore" where
  "empty_store = \<lparr>nodes = (\<lambda>_. None), lists = (\<lambda>_. None)\<rparr>"

theorem Queue_fifo_witness:
  "\<exists>s0 q s1 s2. QCreate empty_store True (Some 1) (Some 2) = (Some q, s0) \<and> QEnqueue s0 (Some 3) q 7 = Some (False, s1)
     \<and> drain (\<lambda>s. QDequeue s q) (q_peek q) 1 s1 = Some ([7 :: nat], s2)"
proof -
  obtain s0 where s0: "SlistCreate empty_store (Some 1) (Some 2) = (Some 1, s0)" by (simp add: SlistCreate_def)
  then have e: "elements s0 (list_of \<lparr>list_of = 1\<rparr>) []" "node_free s0 3"
    using SlistCreate_spec [OF s0] by (auto simp: SlistCreate_def empty_store_def node_free_def)
  show ?thesis using Queue_fifo [OF e, of 7] s0 by (auto simp: QCreate_def)
qed

end
