(* ===== verification/Dhcp.thy ===== *)
theory Dhcp
  imports CString "HOL-Library.Word"
begin

unbundle bit_operations_syntax

text \<open>
  The address allocator of \<open>ds/dhcp/dhcp.c\<close>: the hosts of a network are the leaves of a binary
  trie over the host bits, a leaf is full when its address is taken, and an inner node is full
  when both its children are. The trie is modelled as a tree of nodes with NULL children, its
  abstraction is the set \<open>occ\<close> of the host numbers taken.
\<close>

section \<open>The trie\<close>

type_synonym ip = "32 word"

datatype full = NOT_FULL | FULL

datatype bit_dir = ZERO | ONE

datatype dhcp_status = SUCCESS | DOUBLE_FREE | FREE_FAILURE | MALLOC_FAILURE

datatype dhcp_node = NULL_NODE | Node (zero_son: dhcp_node) (one_son: dhcp_node) (is_full: full)

record dhcp =
  root :: dhcp_node
  num_of_bits_for_network :: nat
  sub_net :: ip

definition dhcp_NodeCreate :: "bool \<Rightarrow> dhcp_node" where
  "dhcp_NodeCreate mem = (if mem then Node NULL_NODE NULL_NODE NOT_FULL else NULL_NODE)"

fun get_child :: "bit_dir \<Rightarrow> dhcp_node \<Rightarrow> dhcp_node option" where
  "get_child _ NULL_NODE = None"
| "get_child ZERO (Node z e f) = Some z"
| "get_child ONE (Node z e f) = Some e"

fun set_child :: "bit_dir \<Rightarrow> dhcp_node \<Rightarrow> dhcp_node \<Rightarrow> dhcp_node option" where
  "set_child _ c NULL_NODE = None"
| "set_child ZERO c (Node z e f) = Some (Node c e f)"
| "set_child ONE c (Node z e f) = Some (Node z c f)"

fun set_full :: "full \<Rightarrow> dhcp_node \<Rightarrow> dhcp_node option" where
  "set_full f NULL_NODE = None"
| "set_full f (Node z e _) = Some (Node z e f)"

text \<open>
  The shift \<open>direction << 31\<close> of an \<open>int\<close> sets the sign bit, which the C standard leaves undefined; the model takes
  the word that every compiler for two's complement gives. The direction at \<open>num_of_bits\<close> is the bit below it. With no bit left the code shifts by
  \<open>SIZE_MAX\<close>, which C leaves undefined: \<open>ub\<close> is what the machine answers.
\<close>

definition direction_of :: "bit_dir \<Rightarrow> ip \<Rightarrow> nat \<Rightarrow> bit_dir" where
  "direction_of ub req_ip num_of_bits =
     (if num_of_bits = 0 then ub else if bit req_ip (num_of_bits - 1) then ONE else ZERO)"

section \<open>Creation\<close>

text \<open>
  \<open>mem d i\<close> answers the allocation of the \<open>d\<close> path in round \<open>i\<close>. \<open>DhcpInit\<close> tests the runners and
  not the new nodes, so that a failed allocation is written through in the next round: a fault.
\<close>

partial_function (option) init_path :: "(bit_dir \<Rightarrow> nat \<Rightarrow> bool) \<Rightarrow> bit_dir \<Rightarrow> nat \<Rightarrow> nat \<Rightarrow> dhcp_node \<Rightarrow> dhcp_node option" where
  "init_path mem d num_of_bits i runner =
     (if num_of_bits > i then do {
        child \<leftarrow> init_path mem d num_of_bits ((i + 1) mod 2 ^ 32) (dhcp_NodeCreate (mem d i));
        set_child d child runner
      } else set_full FULL runner)"

definition DhcpInit :: "(bit_dir \<Rightarrow> nat \<Rightarrow> bool) \<Rightarrow> dhcp \<Rightarrow> dhcp option" where
  "DhcpInit mem dhcp = do {
     let num_of_bits = szsub 32 (num_of_bits_for_network dhcp);
     if num_of_bits > 0 then do {
       z \<leftarrow> init_path mem ZERO num_of_bits 1 (dhcp_NodeCreate (mem ZERO 0));
       e \<leftarrow> init_path mem ONE num_of_bits 1 (dhcp_NodeCreate (mem ONE 0));
       root \<leftarrow> set_child ZERO z (root dhcp);
       root \<leftarrow> set_child ONE e root;
       Some (dhcp\<lparr>root := root\<rparr>)
     } else do {
       root \<leftarrow> set_full FULL (root dhcp);
       Some (dhcp\<lparr>root := root\<rparr>)
     }
   }"

definition DhcpCreate :: "bool \<Rightarrow> bool \<Rightarrow> (bit_dir \<Rightarrow> nat \<Rightarrow> bool) \<Rightarrow> ip \<Rightarrow> nat \<Rightarrow> dhcp option option" where
  "DhcpCreate mem mem_root mem_path net num_of_bits =
     (if \<not> mem then Some None
      else if dhcp_NodeCreate mem_root = NULL_NODE then Some None
      else do {
        dhcp \<leftarrow> DhcpInit mem_path \<lparr>root = dhcp_NodeCreate mem_root,
                                    num_of_bits_for_network = num_of_bits, sub_net = net\<rparr>;
        Some (Some dhcp)
      })"

section \<open>Allocation\<close>

definition UpdateFullness :: "dhcp_node \<Rightarrow> dhcp_node option" where
  "UpdateFullness node = do {
     z \<leftarrow> get_child ZERO node;
     e \<leftarrow> get_child ONE node;
     if (z \<noteq> NULL_NODE \<and> is_full z = FULL) \<and> (e \<noteq> NULL_NODE \<and> is_full e = FULL)
     then set_full FULL node else Some node
   }"

fun AllocateSpecificIp :: "(nat \<Rightarrow> bool) \<Rightarrow> ip \<Rightarrow> nat \<Rightarrow> dhcp_node \<Rightarrow> (dhcp_node \<times> dhcp_status) option" where
  "AllocateSpecificIp mem req_ip 0 node = do { node \<leftarrow> set_full FULL node; Some (node, SUCCESS) }"
| "AllocateSpecificIp mem req_ip (Suc n) node = do {
     let direction = direction_of ZERO req_ip (Suc n);
     c \<leftarrow> get_child direction node;
     let c = (if c = NULL_NODE then dhcp_NodeCreate (mem n) else c);
     node \<leftarrow> set_child direction c node;
     if c = NULL_NODE then Some (node, MALLOC_FAILURE)
     else do {
       (c, status) \<leftarrow> AllocateSpecificIp mem req_ip n c;
       node \<leftarrow> set_child direction c node;
       if status \<noteq> SUCCESS then Some (node, MALLOC_FAILURE)
       else do { node \<leftarrow> UpdateFullness node; Some (node, SUCCESS) }
     }
   }"

definition dhcp_GetDirection :: "dhcp_node \<Rightarrow> bit_dir option" where
  "dhcp_GetDirection node = do {
     z \<leftarrow> get_child ZERO node;
     Some (if z = NULL_NODE \<or> is_full z = NOT_FULL then ZERO else ONE)
   }"

fun AllocateSmallestIp ::
  "(nat \<Rightarrow> bool) \<Rightarrow> nat \<Rightarrow> dhcp_node \<Rightarrow> ip \<Rightarrow> (dhcp_node \<times> ip \<times> dhcp_status) option" where
  "AllocateSmallestIp mem 0 node allocated_ip = do {
     c_assert (node \<noteq> NULL_NODE);
     if is_full node = FULL then Some (node, allocated_ip, MALLOC_FAILURE)
     else do { node \<leftarrow> set_full FULL node; Some (node, allocated_ip, SUCCESS) }
   }"
| "AllocateSmallestIp mem (Suc n) node allocated_ip = do {
     c_assert (node \<noteq> NULL_NODE);
     if is_full node = FULL then Some (node, allocated_ip, MALLOC_FAILURE)
     else do {
       direction \<leftarrow> dhcp_GetDirection node;
       c \<leftarrow> get_child direction node;
       let c = (if c = NULL_NODE then dhcp_NodeCreate (mem n) else c);
       node \<leftarrow> set_child direction c node;
       if c = NULL_NODE then Some (node, allocated_ip, MALLOC_FAILURE)
       else do {
         (c, allocated_ip, status) \<leftarrow> AllocateSmallestIp mem n c allocated_ip;
         node \<leftarrow> set_child direction c node;
         if status = SUCCESS then do {
           let allocated_ip = drop_bit 1 allocated_ip OR (if direction = ONE then push_bit 31 1 else 0);
           node \<leftarrow> UpdateFullness node;
           Some (node, allocated_ip, SUCCESS)
         } else Some (node, allocated_ip, MALLOC_FAILURE)
       }
     }
   }"

fun occupied_loop :: "bit_dir \<Rightarrow> ip \<Rightarrow> nat \<Rightarrow> dhcp_node \<Rightarrow> bool" where
  "occupied_loop ub req_ip num_of_bits NULL_NODE = (num_of_bits = 0)"
| "occupied_loop ub req_ip num_of_bits (Node z e f) =
     (if 0 < (num_of_bits + 1) mod 2 ^ 64 then
        f = FULL \<or> (case direction_of ub req_ip num_of_bits of
            ZERO \<Rightarrow> occupied_loop ub req_ip (szsub num_of_bits 1) z
          | ONE \<Rightarrow> occupied_loop ub req_ip (szsub num_of_bits 1) e)
      else num_of_bits = 0)"

definition IsOccupied :: "bit_dir \<Rightarrow> dhcp \<Rightarrow> ip \<Rightarrow> nat \<Rightarrow> bool" where
  "IsOccupied ub dhcp req_ip num_of_bits = occupied_loop ub req_ip num_of_bits (root dhcp)"

definition host_part :: "nat \<Rightarrow> ip \<Rightarrow> ip" where
  "host_part net ip = drop_bit net (push_bit net ip)"

definition DhcpAllocateIp ::
  "(nat \<Rightarrow> bool) \<Rightarrow> bit_dir \<Rightarrow> dhcp \<Rightarrow> ip \<Rightarrow> ip \<Rightarrow> (dhcp \<times> ip \<times> dhcp_status) option" where
  "DhcpAllocateIp mem ub dhcp allocated_ip requested_ip = do {
     let net = num_of_bits_for_network dhcp;
     let num_of_bits = szsub 32 net;
     c_assert (net < 32);
     let req_ip = host_part net requested_ip;
     if requested_ip = 0 \<or> IsOccupied ub dhcp req_ip num_of_bits then do {
       (r, allocated_ip, status) \<leftarrow> AllocateSmallestIp mem num_of_bits (root dhcp) allocated_ip;
       Some (dhcp\<lparr>root := r\<rparr>, drop_bit net allocated_ip OR sub_net dhcp, status)
     } else do {
       (r, status) \<leftarrow> AllocateSpecificIp mem req_ip num_of_bits (root dhcp);
       Some (dhcp\<lparr>root := r\<rparr>, if status = SUCCESS then sub_net dhcp OR req_ip else allocated_ip, status)
     }
   }"

section \<open>Release and counting\<close>

fun FreeIp :: "ip \<Rightarrow> nat \<Rightarrow> dhcp_node \<Rightarrow> dhcp_node option" where
  "FreeIp req_ip 0 node = set_full NOT_FULL node"
| "FreeIp req_ip (Suc n) node = do {
     let direction = direction_of ZERO req_ip (Suc n);
     c \<leftarrow> get_child direction node;
     c \<leftarrow> FreeIp req_ip n c;
     node \<leftarrow> set_child direction c node;
     set_full NOT_FULL node
   }"

definition DhcpFreeIp :: "bit_dir \<Rightarrow> dhcp \<Rightarrow> ip \<Rightarrow> (dhcp \<times> dhcp_status) option" where
  "DhcpFreeIp ub dhcp ip = do {
     let net = num_of_bits_for_network dhcp;
     let num_of_bits = szsub 32 net;
     c_assert (net < 32);
     let broadcast = drop_bit net (- 1);
     let req_ip = host_part net ip;
     if req_ip = 0 \<or> req_ip = broadcast then Some (dhcp, FREE_FAILURE)
     else if \<not> IsOccupied ub dhcp req_ip num_of_bits then Some (dhcp, DOUBLE_FREE)
     else do {
       r \<leftarrow> FreeIp req_ip num_of_bits (root dhcp);
       Some (dhcp\<lparr>root := r\<rparr>, SUCCESS)
     }
   }"

fun CountOccupied :: "dhcp_node \<Rightarrow> nat \<Rightarrow> nat \<Rightarrow> nat" where
  "CountOccupied NULL_NODE num_of_bits n = n"
| "CountOccupied (Node z e f) num_of_bits n =
     (if num_of_bits = 0 \<and> f = FULL then n + 1
      else CountOccupied e (szsub num_of_bits 1) (CountOccupied z (szsub num_of_bits 1) n))"

definition DhcpCountFree :: "dhcp \<Rightarrow> nat" where
  "DhcpCountFree dhcp =
     (let num_of_bits = szsub 32 (num_of_bits_for_network dhcp)
      in szsub (2 ^ num_of_bits) (CountOccupied (root dhcp) num_of_bits 0))"

section \<open>Addresses as text\<close>

definition IPToString :: "ip \<Rightarrow> string" where
  "IPToString ip =
     (let byte1 = unat (drop_bit 24 ip AND 0xff); byte2 = unat (drop_bit 16 ip AND 0xff);
          byte3 = unat (drop_bit 8 ip AND 0xff); byte4 = unat (ip AND 0xff)
      in show_u byte1 @ ''.'' @ show_u byte2 @ ''.'' @ show_u byte3 @ ''.'' @ show_u byte4)"

fun byte_loop :: "string \<Rightarrow> ip \<Rightarrow> ip \<times> string" where
  "byte_loop [] byte_num = (byte_num, [])"
| "byte_loop (c # ip) byte_num =
     (if c \<noteq> CHR ''.'' then byte_loop ip (byte_num * 10 + of_int (c_char c - 48))
      else (byte_num, c # ip))"

lemma length_byte_loop: "length (snd (byte_loop ip b)) \<le> length ip"
  by (induction ip b rule: byte_loop.induct) auto

lemma byte_loop_shorter: "(b', rest) = byte_loop (c # cs) b \<Longrightarrow> length rest - Suc 0 < Suc (length cs)"
  using length_byte_loop [of "c # cs" b] by (metis One_nat_def diff_le_self le_imp_less_Suc le_trans length_Cons less_Suc_eq_le snd_conv diff_le_mono diff_Suc_1)

function to_ip_loop :: "string \<Rightarrow> ip \<Rightarrow> ip" where
  "to_ip_loop [] ip_num = ip_num"
| "to_ip_loop (c # cs) ip_num =
     (case byte_loop (c # cs) 0 of (byte_num, rest) \<Rightarrow> to_ip_loop (tl rest) (push_bit 8 ip_num + byte_num))"
  by pat_completeness auto
termination
  by (relation "measure (\<lambda>(cs, _). length cs)") (auto dest!: byte_loop_shorter simp del: byte_loop.simps)

definition StringToIp :: "string \<Rightarrow> ip" where
  "StringToIp ip = to_ip_loop ip 0"

section \<open>The set of hosts taken\<close>

fun occ :: "nat \<Rightarrow> dhcp_node \<Rightarrow> nat set" where
  "occ n NULL_NODE = {}"
| "occ 0 (Node z e f) = (if f = FULL then {0} else {})"
| "occ (Suc n) (Node z e f) = occ n z \<union> (+) (2 ^ n) ` occ n e"

text \<open>Well-formed: a leaf has no sons, an inner node is full when both its sons are.\<close>

fun wf_trie :: "nat \<Rightarrow> dhcp_node \<Rightarrow> bool" where
  "wf_trie n NULL_NODE = False"
| "wf_trie 0 (Node z e f) = (z = NULL_NODE \<and> e = NULL_NODE)"
| "wf_trie (Suc n) (Node z e f) = ((z = NULL_NODE \<or> wf_trie n z) \<and> (e = NULL_NODE \<or> wf_trie n e)
     \<and> (f = FULL \<longleftrightarrow> z \<noteq> NULL_NODE \<and> is_full z = FULL \<and> e \<noteq> NULL_NODE \<and> is_full e = FULL))"

lemma occ_less: "occ n t \<subseteq> {..<2 ^ n}"
  by (induction n t rule: occ.induct) (auto simp: subset_iff)

lemma occ_lessD: "k \<in> occ n t \<Longrightarrow> k < 2 ^ n"
  using occ_less by blast

lemma split_hosts: "A \<subseteq> {..<2 ^ n} \<Longrightarrow> B \<subseteq> {..<2 ^ n} \<Longrightarrow>
  A \<union> (+) (2 ^ n) ` B = {..<2 ^ Suc n :: nat} \<longleftrightarrow> A = {..<2 ^ n} \<and> B = {..<2 ^ n}"
proof
  assume ab: "A \<subseteq> {..<2 ^ n}" "B \<subseteq> {..<2 ^ n}" and u: "A \<union> (+) (2 ^ n) ` B = {..<2 ^ Suc n}"
  have "k \<in> A" if "k < 2 ^ n" for k
  proof -
    have "k \<in> A \<union> (+) (2 ^ n) ` B" using that unfolding u by simp
    then show ?thesis using that by auto
  qed
  moreover have "k \<in> B" if "k < 2 ^ n" for k
  proof -
    have "2 ^ n + k \<in> A \<union> (+) (2 ^ n) ` B" using that unfolding u by simp
    then show ?thesis using ab(1) by auto
  qed
  ultimately show "A = {..<2 ^ n} \<and> B = {..<2 ^ n}" using ab by auto
next
  assume "A = {..<2 ^ n} \<and> B = {..<2 ^ n}"
  moreover have "k < 2 ^ n \<or> (\<exists>j < 2 ^ n. k = 2 ^ n + j)" if "k < 2 * 2 ^ n" for k :: nat
    using that by (metis add.commute le_add_diff_inverse2 mult_2 nat_add_left_cancel_less not_less)
  ultimately show "A \<union> (+) (2 ^ n) ` B = {..<2 ^ Suc n}" by auto
qed

lemma full_iff: "wf_trie n t \<Longrightarrow> is_full t = FULL \<longleftrightarrow> occ n t = {..<2 ^ n}"
proof (induction n arbitrary: t)
  case 0
  then obtain f where "t = Node NULL_NODE NULL_NODE f" by (cases t) auto
  then show ?case by (cases f) (auto simp: lessThan_Suc)
next
  case (Suc n)
  then obtain z e f where t: "t = Node z e f" by (cases t) auto
  have son: "c \<noteq> NULL_NODE \<and> is_full c = FULL \<longleftrightarrow> occ n c = {..<2 ^ n}" if "c = NULL_NODE \<or> wf_trie n c" for c
  proof (cases c)
    case NULL_NODE
    have "(0::nat) \<in> {..<2 ^ n}" by simp
    then show ?thesis using NULL_NODE by (metis empty_iff occ.simps(1))
  next
    case Node
    then show ?thesis using Suc.IH [of c] that by blast
  qed
  have "is_full t = FULL \<longleftrightarrow> (z \<noteq> NULL_NODE \<and> is_full z = FULL) \<and> (e \<noteq> NULL_NODE \<and> is_full e = FULL)"
    using Suc.prems by (simp add: t)
  also have "\<dots> \<longleftrightarrow> occ n z = {..<2 ^ n} \<and> occ n e = {..<2 ^ n}"
    using son [of z] son [of e] Suc.prems unfolding t wf_trie.simps by blast
  also have "\<dots> \<longleftrightarrow> occ (Suc n) t = {..<2 ^ Suc n}"
    unfolding t occ.simps by (rule split_hosts [OF occ_less occ_less, symmetric])
  finally show ?case .
qed

section \<open>Bits of the host number\<close>

lemma take_bit_dir:
  "n < 32 \<Longrightarrow> take_bit (Suc n) (unat (ip :: ip)) = (if bit ip n then 2 ^ n else 0) + take_bit n (unat ip)"
  by (simp add: take_bit_Suc_from_most bit_unsigned_iff)

lemma direction_of_Suc: "direction_of ub ip (Suc n) = (if bit ip n then ONE else ZERO)"
  by (simp add: direction_of_def)

section \<open>Allocation of a given host\<close>

lemma UpdateFullness_wf:
  assumes "z = NULL_NODE \<or> wf_trie n z" "e = NULL_NODE \<or> wf_trie n e"
    and "f = FULL \<Longrightarrow> z \<noteq> NULL_NODE \<and> is_full z = FULL \<and> e \<noteq> NULL_NODE \<and> is_full e = FULL"
  shows "\<exists>g. UpdateFullness (Node z e f) = Some (Node z e g) \<and> wf_trie (Suc n) (Node z e g)"
  using assms by (cases f) (auto simp: UpdateFullness_def)

lemma wf_new: "wf_trie n (Node NULL_NODE NULL_NODE NOT_FULL)" "occ n (Node NULL_NODE NULL_NODE NOT_FULL) = {}"
  by (cases n; simp)+

lemma wf_not_NULL: "wf_trie n t \<Longrightarrow> t \<noteq> NULL_NODE"
  by auto

lemma AllocateSpecificIp_spec:
  "\<lbrakk>n \<le> 32; wf_trie n t\<rbrakk> \<Longrightarrow> \<exists>t'. AllocateSpecificIp (\<lambda>_. True) ip n t = Some (t', SUCCESS) \<and> wf_trie n t'
     \<and> occ n t' = insert (take_bit n (unat ip)) (occ n t)"
proof (induction n arbitrary: t)
  case 0
  then show ?case by (cases t) auto
next
  case (Suc n)
  then obtain z e f where t: "t = Node z e f" by (cases t) auto
  define c where "c = (if bit ip n then e else z)"
  define c' where "c' = (if c = NULL_NODE then Node NULL_NODE NULL_NODE NOT_FULL else c)"
  have c': "wf_trie n c'" "occ n c' = occ n c" "c \<noteq> NULL_NODE \<Longrightarrow> c' = c"
    using Suc.prems(2) wf_new by (auto simp: c'_def c_def t)
  obtain d where d: "AllocateSpecificIp (\<lambda>_. True) ip n c' = Some (d, SUCCESS)" "wf_trie n d"
    "occ n d = insert (take_bit n (unat ip)) (occ n c)"
    using Suc.IH [OF _ c'(1)] Suc.prems(1) c'(2) by auto
  have dN: "d \<noteq> NULL_NODE" using d(2) by auto
  have full: "is_full d = FULL" if "c \<noteq> NULL_NODE" "is_full c = FULL"
  proof -
    have "occ n c = {..<2 ^ n}" using that full_iff [OF c'(1)] c'(2,3) by auto
    then have "occ n d = {..<2 ^ n}" using d(3) occ_less [of n d] by auto
    then show ?thesis using full_iff [OF d(2)] by simp
  qed
  have zw: "z = NULL_NODE \<or> wf_trie n z" "e = NULL_NODE \<or> wf_trie n e"
    and zf: "f = FULL \<Longrightarrow> z \<noteq> NULL_NODE \<and> is_full z = FULL \<and> e \<noteq> NULL_NODE \<and> is_full e = FULL"
    using Suc.prems(2) by (auto simp: t)
  show ?case
  proof (cases "bit ip n")
    case True
    then have c: "c = e" by (simp add: c_def)
    obtain g where g: "UpdateFullness (Node z d f) = Some (Node z d g)" "wf_trie (Suc n) (Node z d g)"
      using UpdateFullness_wf [of z n d f] zw zf d(2) dN full [unfolded c] by blast
    have "AllocateSpecificIp (\<lambda>_. True) ip (Suc n) t = Some (Node z d g, SUCCESS)"
      using d(1) g(1) True
      by (cases "e = NULL_NODE") (simp_all add: t direction_of_Suc c'_def c dhcp_NodeCreate_def)
    moreover have "occ (Suc n) (Node z d g) = insert (take_bit (Suc n) (unat ip)) (occ (Suc n) t)"
      using d(3) take_bit_dir [of n ip] Suc.prems(1) True by (simp add: t c)
    ultimately show ?thesis using g(2) by blast
  next
    case False
    then have c: "c = z" by (simp add: c_def)
    obtain g where g: "UpdateFullness (Node d e f) = Some (Node d e g)" "wf_trie (Suc n) (Node d e g)"
      using UpdateFullness_wf [of d n e f] zw zf d(2) dN full [unfolded c] by blast
    have "AllocateSpecificIp (\<lambda>_. True) ip (Suc n) t = Some (Node d e g, SUCCESS)"
      using d(1) g(1) False
      by (cases "z = NULL_NODE") (simp_all add: t direction_of_Suc c'_def c dhcp_NodeCreate_def)
    moreover have "occ (Suc n) (Node d e g) = insert (take_bit (Suc n) (unat ip)) (occ (Suc n) t)"
      using d(3) take_bit_dir [of n ip] Suc.prems(1) False by (simp add: t c)
    ultimately show ?thesis using g(2) by blast
  qed
qed

section \<open>Allocation of the smallest host\<close>

text \<open>The \<open>k\<close> below which every host is taken, and which is not.\<close>

definition first_free :: "nat set \<Rightarrow> nat \<Rightarrow> bool" where
  "first_free A k \<longleftrightarrow> k \<notin> A \<and> {..<k} \<subseteq> A"

lemma first_free_unique: "first_free A j \<Longrightarrow> first_free A k \<Longrightarrow> j = k"
  by (metis first_free_def lessThan_iff linorder_neqE_nat subsetD)

lemma first_free_low: "k < 2 ^ n \<Longrightarrow> first_free A k \<Longrightarrow> first_free (A \<union> (+) (2 ^ n) ` B) k"
  by (auto simp: first_free_def)

lemma first_free_high: "A = {..<2 ^ n} \<Longrightarrow> first_free B k \<Longrightarrow> first_free (A \<union> (+) (2 ^ n) ` B) (2 ^ n + k)"
proof -
  assume a: "A = {..<2 ^ n}" and b: "first_free B k"
  have "j \<in> (+) (2 ^ n) ` B" if "2 ^ n \<le> j" "j < 2 ^ n + k" for j
    using that b by (intro image_eqI [of _ _ "j - 2 ^ n"]) (auto simp: first_free_def)
  then show ?thesis using a b by (auto simp: first_free_def not_less)
qed

text \<open>The address is shifted in from the top, the leaf's bit last.\<close>

definition shifted :: "nat \<Rightarrow> nat \<Rightarrow> ip \<Rightarrow> ip" where
  "shifted n k ip = push_bit (32 - n) (of_nat k) OR drop_bit n ip"

lemma shifted_0: "shifted 0 0 ip = ip"
  by (simp add: shifted_def)

lemma bit_shifted:
  "j < 32 \<Longrightarrow> bit (shifted n k ip) j \<longleftrightarrow> 32 - n \<le> j \<and> bit k (j - (32 - n)) \<or> bit ip (n + j)"
  by (auto simp: shifted_def bit_or_iff bit_push_bit_iff bit_drop_bit_eq bit_of_nat_iff)

lemma bit_add_exp: "k < 2 ^ n \<Longrightarrow> bit (2 ^ n + k) m \<longleftrightarrow> m = n \<or> bit (k :: nat) m"
proof -
  assume k: "k < 2 ^ n"
  have nk: "\<not> bit k m" if "n \<le> m" for m
    using k that by (metis bit_take_bit_iff not_less take_bit_nat_eq_self)
  have "2 ^ n + k = 2 ^ n OR k"
    by (rule disjunctive_add) (use nk in \<open>auto simp: bit_exp_iff\<close>)
  then show ?thesis by (auto simp: bit_or_iff bit_exp_iff)
qed

lemma bit_less_exp: "k < 2 ^ n \<Longrightarrow> bit (k :: nat) m \<Longrightarrow> m < n"
  by (metis bit_take_bit_iff take_bit_nat_eq_self)

lemma shifted_Suc:
  assumes "n < 32" "k < 2 ^ n"
  shows "drop_bit 1 (shifted n k ip) OR (if d then push_bit 31 1 else 0) = shifted (Suc n) ((if d then 2 ^ n else 0) + k) ip"
proof (rule bit_word_eqI)
  fix i assume i: "i < LENGTH(32)"
  have top: "bit (if d then push_bit 31 1 else 0 :: ip) i \<longleftrightarrow> d \<and> i = 31"
    using i by (simp add: bit_push_bit_iff del: push_bit_of_1) (auto simp: bit_1_iff)
  have "bit (drop_bit 1 (shifted n k ip)) i \<longleftrightarrow> 31 - n \<le> i \<and> bit k (i - (31 - n)) \<or> bit ip (Suc n + i)"
  proof (cases "Suc i < 32")
    case True
    then show ?thesis using bit_shifted [of "Suc i" n k ip] assms(1)
      by (auto simp: bit_drop_bit_eq Suc_diff_le)
  next
    case False
    then show ?thesis using i bit_less_exp [OF assms(2), of "i - (31 - n)"] assms(1)
      by (auto simp: bit_drop_bit_eq dest: bit_imp_le_length)
  qed
  moreover have "bit ((if d then 2 ^ n else 0) + k) (i - (31 - n)) \<longleftrightarrow> d \<and> i - (31 - n) = n \<or> bit k (i - (31 - n))"
    using bit_add_exp [OF assms(2)] by simp
  ultimately show "bit (drop_bit 1 (shifted n k ip) OR (if d then push_bit 31 1 else 0)) i
      = bit (shifted (Suc n) ((if d then 2 ^ n else 0) + k) ip) i"
    using top i bit_shifted [of i "Suc n" "(if d then 2 ^ n else 0) + k" ip] assms(1)
    unfolding bit_or_iff by auto
qed

lemma AllocateSmallestIp_spec:
  "\<lbrakk>n \<le> 32; wf_trie n t; is_full t = NOT_FULL\<rbrakk> \<Longrightarrow>
   \<exists>t' k. AllocateSmallestIp (\<lambda>_. True) n t ip = Some (t', shifted n k ip, SUCCESS) \<and> wf_trie n t'
     \<and> first_free (occ n t) k \<and> k < 2 ^ n \<and> occ n t' = insert k (occ n t)"
proof (induction n arbitrary: t)
  case 0
  then show ?case by (cases t) (auto simp: shifted_0 first_free_def intro!: exI [of _ 0])
next
  case (Suc n)
  then obtain z e where t: "t = Node z e NOT_FULL" by (cases t) auto
  define d where "d \<longleftrightarrow> z \<noteq> NULL_NODE \<and> is_full z = FULL"
  define c where "c = (if d then e else z)"
  define c' where "c' = (if c = NULL_NODE then Node NULL_NODE NULL_NODE NOT_FULL else c)"
  have zw: "z = NULL_NODE \<or> wf_trie n z" "e = NULL_NODE \<or> wf_trie n e" "\<not> (d \<and> e \<noteq> NULL_NODE \<and> is_full e = FULL)"
    using Suc.prems(2) by (auto simp: t d_def)
  have c': "wf_trie n c'" "is_full c' = NOT_FULL" "occ n c' = occ n c"
    using zw wf_new d_def by (auto simp: c'_def c_def) (metis full.exhaust)+
  obtain s k where s: "AllocateSmallestIp (\<lambda>_. True) n c' ip = Some (s, shifted n k ip, SUCCESS)" "wf_trie n s"
    "first_free (occ n c) k" "k < 2 ^ n" "occ n s = insert k (occ n c)"
    using Suc.IH [OF _ c'(1,2)] Suc.prems(1) c'(3) by auto
  define k' where "k' = (if d then 2 ^ n else 0) + k"
  have sh: "drop_bit 1 (shifted n k ip) OR (if d then push_bit 31 1 else 0) = shifted (Suc n) k' ip"
    using shifted_Suc [of n k ip d] s(4) Suc.prems(1) by (simp add: k'_def)
  have dir: "dhcp_GetDirection t = Some (if d then ONE else ZERO)"
    by (auto simp: dhcp_GetDirection_def t d_def) (metis full.exhaust)+
  show ?case
  proof (cases d)
    case True
    then have c: "c = e" by (simp add: c_def)
    obtain g where g: "UpdateFullness (Node z s NOT_FULL) = Some (Node z s g)" "wf_trie (Suc n) (Node z s g)"
      using UpdateFullness_wf [of z n s NOT_FULL] zw s(2) by auto
    have "AllocateSmallestIp (\<lambda>_. True) (Suc n) t ip = Some (Node z s g, shifted (Suc n) k' ip, SUCCESS)"
      using s(1) g(1) dir sh True unfolding t
      by (cases "e = NULL_NODE") (simp_all add: c'_def c dhcp_NodeCreate_def)
    moreover have "first_free (occ (Suc n) t) k'"
      using first_free_high [of "occ n z" n "occ n e" k] s(3) True full_iff [of n z] zw(1) by (simp add: t c k'_def d_def)
    moreover have "occ (Suc n) (Node z s g) = insert k' (occ (Suc n) t)"
      using s(5) True by (simp add: t c k'_def)
    ultimately show ?thesis using g(2) s(4) True by (auto simp: k'_def)
  next
    case False
    then have c: "c = z" by (simp add: c_def)
    obtain g where g: "UpdateFullness (Node s e NOT_FULL) = Some (Node s e g)" "wf_trie (Suc n) (Node s e g)"
      using UpdateFullness_wf [of s n e NOT_FULL] zw s(2) by auto
    have "AllocateSmallestIp (\<lambda>_. True) (Suc n) t ip = Some (Node s e g, shifted (Suc n) k' ip, SUCCESS)"
      using s(1) g(1) dir sh False unfolding t
      by (cases "z = NULL_NODE") (simp_all add: c'_def c dhcp_NodeCreate_def)
    moreover have "first_free (occ (Suc n) t) k'"
      using first_free_low [of k n "occ n z" "occ n e"] s(3,4) False by (simp add: t c k'_def)
    moreover have "occ (Suc n) (Node s e g) = insert k' (occ (Suc n) t)"
      using s(5) False by (simp add: t c k'_def)
    ultimately show ?thesis using g(2) s(4) False by (auto simp: k'_def)
  qed
qed

section \<open>Which hosts the allocator takes for occupied\<close>

text \<open>
  \<open>IsOccupied\<close> also answers yes when the node above the leaf exists and the leaf does not: its
  counter has then reached 0, which it reads as having found the leaf.
\<close>

fun leaf_missing :: "ip \<Rightarrow> nat \<Rightarrow> dhcp_node \<Rightarrow> bool" where
  "leaf_missing ip n NULL_NODE = (n = 0)"
| "leaf_missing ip 0 (Node z e f) = False"
| "leaf_missing ip (Suc n) (Node z e f) = leaf_missing ip n (if bit ip n then e else z)"

lemma in_occ_dir:
  assumes "n < 32"
  shows "take_bit (Suc n) (unat (ip :: ip)) \<in> occ (Suc n) (Node z e f) \<longleftrightarrow> take_bit n (unat ip) \<in> occ n (if bit ip n then e else z)"
proof -
  define m where "m = take_bit n (unat ip)"
  have "m < 2 ^ n" by (simp add: m_def)
  then show ?thesis
    using occ_lessD [of "2 ^ n + m" n z] take_bit_dir [OF assms, of ip] by (auto simp: m_def [symmetric])
qed

lemma occupied_loop_spec:
  "\<lbrakk>n \<le> 32; t = NULL_NODE \<or> wf_trie n t\<rbrakk> \<Longrightarrow>
   occupied_loop ub ip n t \<longleftrightarrow> take_bit n (unat ip) \<in> occ n t \<or> leaf_missing ip n t"
proof (induction n arbitrary: t)
  case 0
  have "occupied_loop ub ip (2 ^ 64 - 1) NULL_NODE = False" by simp
  then show ?case using 0 by (cases t) (auto simp: szsub_def direction_of_def split: bit_dir.splits)
next
  case (Suc n)
  show ?case
  proof (cases t)
    case NULL_NODE
    then show ?thesis by simp
  next
    case (Node z e f)
    let ?c = "if bit ip n then e else z"
    have w: "wf_trie (Suc n) t" using Suc.prems(2) Node by simp
    have c: "occupied_loop ub ip n ?c \<longleftrightarrow> take_bit n (unat ip) \<in> occ n ?c \<or> leaf_missing ip n ?c"
      using Suc.IH [of ?c] Suc.prems(1) w Node by auto
    have inocc: "take_bit (Suc n) (unat ip) \<in> occ (Suc n) t \<longleftrightarrow> take_bit n (unat ip) \<in> occ n ?c"
      unfolding Node by (rule in_occ_dir) (use Suc.prems(1) in simp)
    have "szsub (Suc n) 1 = n" using szsub_ge [of 1 "Suc n"] Suc.prems(1) by simp
    then have l: "occupied_loop ub ip (Suc n) t \<longleftrightarrow> f = FULL \<or> occupied_loop ub ip n ?c"
      using Suc.prems(1) by (simp add: Node direction_of_Suc)
    have f: "take_bit (Suc n) (unat ip) \<in> occ (Suc n) t" if "f = FULL"
    proof -
      have "occ (Suc n) t = {..<2 ^ Suc n}" using full_iff [OF w] that by (simp add: Node)
      then show ?thesis by (simp only: lessThan_iff take_bit_nat_less_exp)
    qed
    show ?thesis using l c f inocc by (auto simp: Node simp del: occ.simps)
  qed
qed

section \<open>Release\<close>

lemma FreeIp_spec:
  "\<lbrakk>n \<le> 32; wf_trie n t; take_bit n (unat ip) \<in> occ n t\<rbrakk> \<Longrightarrow> \<exists>t'. FreeIp ip n t = Some t' \<and> wf_trie n t'
     \<and> occ n t' = occ n t - {take_bit n (unat ip)} \<and> is_full t' = NOT_FULL"
proof (induction n arbitrary: t)
  case 0
  then show ?case by (cases t) (auto split: if_splits)
next
  case (Suc n)
  then obtain z e f where t: "t = Node z e f" by (cases t) auto
  let ?c = "if bit ip n then e else z"
  have inocc: "take_bit n (unat ip) \<in> occ n ?c"
    using in_occ_dir [of n ip z e f] Suc.prems(1,3) unfolding t by simp
  then have w: "wf_trie n ?c" using Suc.prems(2) by (auto simp: t)
  obtain d where d: "FreeIp ip n ?c = Some d" "wf_trie n d" "occ n d = occ n ?c - {take_bit n (unat ip)}" "is_full d = NOT_FULL"
    using Suc.IH [OF _ w inocc] Suc.prems(1) by auto
  have not_high: "False" if "take_bit n (unat ip) = 2 ^ n + x" for x
    using that take_bit_nat_less_exp [of n "unat ip"] by linarith
  show ?case
  proof (cases "bit ip n")
    case True
    then have "FreeIp ip (Suc n) t = Some (Node z d NOT_FULL)" using d(1) by (simp add: t direction_of_Suc)
    moreover have "occ (Suc n) (Node z d NOT_FULL) = occ (Suc n) t - {take_bit (Suc n) (unat ip)}"
      using True d(3) take_bit_dir [of n ip] Suc.prems(1) occ_lessD [of _ n z] by (auto simp: t)
    ultimately show ?thesis using Suc.prems(2) d(2,4) by (auto simp: t)
  next
    case False
    then have "FreeIp ip (Suc n) t = Some (Node d e NOT_FULL)" using d(1) by (simp add: t direction_of_Suc)
    moreover have "occ (Suc n) (Node d e NOT_FULL) = occ (Suc n) t - {take_bit (Suc n) (unat ip)}"
      using False d(3) take_bit_dir [of n ip] Suc.prems(1) by (auto simp: t dest: not_high)
    ultimately show ?thesis using Suc.prems(2) d(2,4) by (auto simp: t)
  qed
qed

lemma FreeIp_leaf_missing: "leaf_missing ip n t \<Longrightarrow> FreeIp ip n t = None"
  by (induction ip n t rule: leaf_missing.induct)
    (auto simp: direction_of_Suc split: if_splits elim: leaf_missing.elims)

section \<open>Counting\<close>

lemma card_occ_Suc: "card (occ (Suc n) (Node z e f)) = card (occ n z) + card (occ n e)"
proof -
  have fin: "finite (occ n t)" for t using occ_less finite_lessThan by (rule finite_subset)
  have "occ n z \<inter> (+) (2 ^ n) ` occ n e = {}" using occ_lessD [of _ n z] by fastforce
  then show ?thesis using fin by (simp add: card_Un_disjoint card_image)
qed

lemma CountOccupied_spec:
  "\<lbrakk>n \<le> 32; t = NULL_NODE \<or> wf_trie n t\<rbrakk> \<Longrightarrow> CountOccupied t n c = c + card (occ n t)"
proof (induction n arbitrary: t c)
  case 0
  then show ?case by (cases t) auto
next
  case (Suc n)
  show ?case
  proof (cases t)
    case (Node z e f)
    have "szsub (Suc n) 1 = n" using szsub_ge [of 1 "Suc n"] Suc.prems(1) by simp
    moreover have "z = NULL_NODE \<or> wf_trie n z" "e = NULL_NODE \<or> wf_trie n e" using Suc.prems(2) Node by auto
    ultimately show ?thesis using Suc.IH [of z] Suc.IH [of e] Suc.prems(1) unfolding Node card_occ_Suc by simp
  qed simp
qed

section \<open>The allocator\<close>

definition host_bits :: "dhcp \<Rightarrow> nat" where
  "host_bits d = 32 - num_of_bits_for_network d"

definition wf_dhcp :: "dhcp \<Rightarrow> bool" where
  "wf_dhcp d \<longleftrightarrow> num_of_bits_for_network d < 32 \<and> wf_trie (host_bits d) (root d)"

definition taken :: "dhcp \<Rightarrow> nat set" where
  "taken d = occ (host_bits d) (root d)"

definition host :: "dhcp \<Rightarrow> ip \<Rightarrow> nat" where
  "host d ip = take_bit (host_bits d) (unat ip)"

lemma szsub_32: "n \<le> 32 \<Longrightarrow> szsub 32 n = 32 - n"
  by (simp add: szsub_ge)

lemma host_part_unat: "net \<le> 32 \<Longrightarrow> unat (host_part net ip) = take_bit (32 - net) (unat ip)"
proof -
  assume n: "net \<le> 32"
  have "host_part net ip = take_bit (32 - net) ip"
  proof (rule bit_word_eqI)
    fix i assume "i < LENGTH(32)"
    then show "bit (host_part net ip) i = bit (take_bit (32 - net) ip) i"
      using n by (auto simp: host_part_def bit_drop_bit_eq bit_push_bit_iff bit_take_bit_iff dest: bit_imp_le_length)
  qed
  then show ?thesis by (simp add: unsigned_take_bit_eq)
qed

lemma shifted_down:
  assumes "net < 32" "k < 2 ^ (32 - net)"
  shows "drop_bit net (shifted (32 - net) k ip) = of_nat k"
proof (rule bit_word_eqI)
  fix i assume i: "i < LENGTH(32)"
  have "bit (drop_bit net (shifted (32 - net) k ip)) i \<longleftrightarrow> net + i < 32 \<and> bit (shifted (32 - net) k ip) (net + i)"
    by (auto simp: bit_drop_bit_eq dest: bit_imp_le_length)
  also have "\<dots> \<longleftrightarrow> bit k i"
  proof (cases "net + i < 32")
    case True
    have "\<not> bit ip (32 - net + (net + i))" using assms(1) by (auto dest: bit_imp_le_length)
    then show ?thesis using bit_shifted [OF True, of "32 - net" k ip] True assms(1) by auto
  next
    case False
    then show ?thesis using bit_less_exp [OF assms(2), of i] by auto
  qed
  finally show "bit (drop_bit net (shifted (32 - net) k ip)) i = bit (of_nat k :: ip) i"
    using i by (simp add: bit_of_nat_iff)
qed

lemma IsOccupied_spec:
  "wf_dhcp d \<Longrightarrow> IsOccupied ub d (host_part (num_of_bits_for_network d) ip) (host_bits d)
     \<longleftrightarrow> host d ip \<in> taken d \<or> leaf_missing (host_part (num_of_bits_for_network d) ip) (host_bits d) (root d)"
  using occupied_loop_spec [of "host_bits d" "root d" ub "host_part (num_of_bits_for_network d) ip"]
    host_part_unat [of "num_of_bits_for_network d" ip]
  by (simp add: wf_dhcp_def IsOccupied_def host_def taken_def host_bits_def)

lemma not_NOT_FULL: "is_full t \<noteq> FULL \<Longrightarrow> is_full t = NOT_FULL"
  by (cases "is_full t") auto

lemma of_nat_host:
  "num_of_bits_for_network d < 32 \<Longrightarrow> of_nat (host d ip) = host_part (num_of_bits_for_network d) ip"
proof -
  assume "num_of_bits_for_network d < 32"
  then have "host d ip = unat (host_part (num_of_bits_for_network d) ip)"
    using host_part_unat [of "num_of_bits_for_network d" ip] by (simp add: host_def host_bits_def)
  then show ?thesis by simp
qed

lemma DhcpAllocateIp_spec:
  assumes wf: "wf_dhcp d" and free: "taken d \<noteq> {..<2 ^ host_bits d}"
  shows "\<exists>d' k. DhcpAllocateIp (\<lambda>_. True) ub d ip0 req = Some (d', sub_net d OR of_nat k, SUCCESS)
    \<and> wf_dhcp d' \<and> sub_net d' = sub_net d \<and> host_bits d' = host_bits d
    \<and> k < 2 ^ host_bits d \<and> k \<notin> taken d \<and> taken d' = insert k (taken d)
    \<and> (if req = 0 \<or> IsOccupied ub d (host_part (num_of_bits_for_network d) req) (host_bits d)
       then first_free (taken d) k else k = host d req)"
proof -
  let ?net = "num_of_bits_for_network d"
  have net: "?net < 32" "wf_trie (host_bits d) (root d)" "host_bits d \<le> 32" "szsub 32 ?net = host_bits d"
    using wf by (auto simp: wf_dhcp_def host_bits_def szsub_32)
  show ?thesis
  proof (cases "req = 0 \<or> IsOccupied ub d (host_part ?net req) (host_bits d)")
    case True
    have "is_full (root d) = NOT_FULL"
      using free full_iff [OF net(2)] by (intro not_NOT_FULL) (simp add: taken_def)
    then obtain t k where t: "AllocateSmallestIp (\<lambda>_. True) (host_bits d) (root d) ip0 = Some (t, shifted (host_bits d) k ip0, SUCCESS)"
      "wf_trie (host_bits d) t" "first_free (taken d) k" "k < 2 ^ host_bits d" "occ (host_bits d) t = insert k (taken d)"
      using AllocateSmallestIp_spec [OF net(3,2), where ip = ip0] by (auto simp: taken_def)
    have "drop_bit ?net (shifted (host_bits d) k ip0) = of_nat k"
      using shifted_down [of ?net k ip0] t(4) net(1) by (simp add: host_bits_def)
    then have "DhcpAllocateIp (\<lambda>_. True) ub d ip0 req = Some (d\<lparr>root := t\<rparr>, sub_net d OR of_nat k, SUCCESS)"
      using True t(1) net(1,4) by (simp add: DhcpAllocateIp_def or.commute)
    then show ?thesis using t net(1) True
      by (intro exI [of _ "d\<lparr>root := t\<rparr>"] exI [of _ k])
        (simp add: wf_dhcp_def host_bits_def taken_def first_free_def)
  next
    case False
    let ?ip = "host_part ?net req"
    have u: "take_bit (host_bits d) (unat ?ip) = host d req"
      using host_part_unat [of ?net req] net(1) by (simp add: host_def host_bits_def)
    obtain t where t: "AllocateSpecificIp (\<lambda>_. True) ?ip (host_bits d) (root d) = Some (t, SUCCESS)"
      "wf_trie (host_bits d) t" "occ (host_bits d) t = insert (host d req) (taken d)"
      using AllocateSpecificIp_spec [OF net(3,2), of ?ip] by (auto simp: u taken_def)
    have "DhcpAllocateIp (\<lambda>_. True) ub d ip0 req = Some (d\<lparr>root := t\<rparr>, sub_net d OR of_nat (host d req), SUCCESS)"
      using False t(1) net(1,4) by (simp add: DhcpAllocateIp_def of_nat_host)
    moreover have "host d req \<notin> taken d" using False IsOccupied_spec [OF wf, of ub req] by simp
    moreover have "host d req < 2 ^ host_bits d" by (simp add: host_def)
    ultimately show ?thesis using t net(1) False
      by (intro exI [of _ "d\<lparr>root := t\<rparr>"] exI [of _ "host d req"])
        (simp add: wf_dhcp_def host_bits_def taken_def)
  qed
qed

lemma DhcpAllocateIp_full:
  assumes wf: "wf_dhcp d" and full: "taken d = {..<2 ^ host_bits d}"
  shows "DhcpAllocateIp mem ub d ip0 req = Some (d, drop_bit (num_of_bits_for_network d) ip0 OR sub_net d, MALLOC_FAILURE)"
proof -
  let ?net = "num_of_bits_for_network d"
  have net: "?net < 32" "wf_trie (host_bits d) (root d)" "szsub 32 ?net = host_bits d"
    using wf by (auto simp: wf_dhcp_def host_bits_def szsub_32)
  have "host d req \<in> taken d" unfolding full by (simp add: host_def)
  then have o: "IsOccupied ub d (host_part ?net req) (host_bits d)" using IsOccupied_spec [OF wf] by simp
  have f: "is_full (root d) = FULL" using full full_iff [OF net(2)] by (simp add: taken_def)
  have "AllocateSmallestIp mem (host_bits d) (root d) ip0 = Some (root d, ip0, MALLOC_FAILURE)"
    using f wf_not_NULL [OF net(2)] by (cases "host_bits d") auto
  then show ?thesis using o net(1,3) by (simp add: DhcpAllocateIp_def)
qed

lemma broadcast_host:
  "num_of_bits_for_network d < 32 \<Longrightarrow>
   host_part (num_of_bits_for_network d) ip = drop_bit (num_of_bits_for_network d) (- 1) \<longleftrightarrow> host d ip = 2 ^ host_bits d - 1"
proof -
  let ?net = "num_of_bits_for_network d"
  assume n: "?net < 32"
  have "drop_bit ?net (- 1) = host_part ?net (- 1)"
  proof (rule bit_word_eqI)
    fix i assume "i < LENGTH(32)"
    then show "bit (drop_bit ?net (- 1 :: ip)) i = bit (host_part ?net (- 1)) i"
      using n by (auto simp: host_part_def bit_drop_bit_eq bit_push_bit_iff bit_mask_iff simp del: push_bit_minus_one_eq_not_mask)
  qed
  moreover have "unat (host_part ?net (- 1)) = 2 ^ host_bits d - 1"
  proof -
    have "unat (- 1 :: ip) = mask 32" by (simp add: unsigned_minus_1_eq_mask)
    then have "take_bit (32 - ?net) (unat (- 1 :: ip)) = mask (32 - ?net)" by (simp add: take_bit_of_mask min_def)
    then show ?thesis using n by (simp add: host_part_unat host_bits_def mask_eq_exp_minus_1)
  qed
  moreover have "unat (host_part ?net ip) = host d ip"
    using n by (simp add: host_part_unat host_def host_bits_def)
  ultimately show ?thesis by (metis word_eq_iff_unsigned [where ?'a = nat])
qed

lemma zero_host:
  "num_of_bits_for_network d < 32 \<Longrightarrow> host_part (num_of_bits_for_network d) ip = 0 \<longleftrightarrow> host d ip = 0"
  using host_part_unat [of "num_of_bits_for_network d" ip]
  by (simp add: host_def host_bits_def) (metis unat_eq_zero unat_0)

lemma DhcpCountFree_spec: "wf_dhcp d \<Longrightarrow> DhcpCountFree d = 2 ^ host_bits d - card (taken d)"
proof -
  assume "wf_dhcp d"
  then have net: "num_of_bits_for_network d < 32" "wf_trie (host_bits d) (root d)" "host_bits d \<le> 32"
    "szsub 32 (num_of_bits_for_network d) = host_bits d"
    by (auto simp: wf_dhcp_def host_bits_def szsub_32)
  have "card (taken d) \<le> 2 ^ host_bits d"
    unfolding taken_def using card_mono [OF finite_lessThan occ_less] by (metis card_lessThan)
  moreover have "(2 :: nat) ^ host_bits d \<le> 2 ^ 32" using net(3) by (intro power_increasing) auto
  ultimately show ?thesis
    using net CountOccupied_spec [of "host_bits d" "root d" 0] szsub_ge [of "card (taken d)" "2 ^ host_bits d"]
    by (simp add: DhcpCountFree_def taken_def Let_def)
qed

section \<open>Creation\<close>

lemma init_path_spec:
  assumes mem: "\<And>d i. mem d i" and n: "n < 2 ^ 32"
  shows "i \<le> n \<Longrightarrow> \<exists>t. init_path mem d n i (Node NULL_NODE NULL_NODE NOT_FULL) = Some t \<and> wf_trie (n - i) t
    \<and> occ (n - i) t = {if d = ZERO then 0 else 2 ^ (n - i) - 1} \<and> (is_full t = FULL \<longleftrightarrow> i = n)"
proof (induction "n - i" arbitrary: i)
  case 0
  then show ?case by (subst init_path.simps) auto
next
  case (Suc m)
  then have i: "i < n" "m = n - Suc i" "n - i = Suc m" by auto
  have "(i + 1) mod 2 ^ 32 = Suc i" using i n by simp
  moreover obtain t where t: "init_path mem d n (Suc i) (Node NULL_NODE NULL_NODE NOT_FULL) = Some t" "wf_trie m t"
    "occ m t = {if d = ZERO then 0 else 2 ^ m - 1}"
    using Suc.hyps(1) [OF i(2)] i by auto
  ultimately have "init_path mem d n i (Node NULL_NODE NULL_NODE NOT_FULL)
      = Some (if d = ZERO then Node t NULL_NODE NOT_FULL else Node NULL_NODE t NOT_FULL)"
    using i(1) mem by (subst init_path.simps) (cases d; simp add: dhcp_NodeCreate_def)
  then show ?case using t(2,3) i by (cases d) auto
qed

text \<open>A new allocator has taken the address of the network and the broadcast address.\<close>

lemma DhcpCreate_spec:
  assumes mem: "\<And>d i. mem d i" and net: "net \<le> 30"
  shows "\<exists>d. DhcpCreate True True mem a net = Some (Some d) \<and> wf_dhcp d \<and> taken d = {0, 2 ^ (32 - net) - 1}
    \<and> sub_net d = a \<and> host_bits d = 32 - net"
proof -
  let ?n = "32 - net"
  have n: "?n < 2 ^ 32" "1 \<le> ?n" "szsub 32 net = ?n" "?n = Suc (?n - 1)" "?n - 1 \<noteq> 0" using net by (auto simp: szsub_32)
  let ?new = "Node NULL_NODE NULL_NODE NOT_FULL"
  obtain z where z: "init_path mem ZERO ?n 1 ?new = Some z" "wf_trie (?n - 1) z" "occ (?n - 1) z = {0}" "is_full z \<noteq> FULL"
    using init_path_spec [of mem ?n 1 ZERO] mem n by auto
  obtain e where e: "init_path mem ONE ?n 1 ?new = Some e" "wf_trie (?n - 1) e" "occ (?n - 1) e = {2 ^ (?n - 1) - 1}" "is_full e \<noteq> FULL"
    using init_path_spec [of mem ?n 1 ONE] mem n by auto
  let ?d = "\<lparr>root = Node z e NOT_FULL, num_of_bits_for_network = net, sub_net = a\<rparr>"
  have "DhcpCreate True True mem a net = Some (Some ?d)"
    using z(1) e(1) n mem by (simp add: DhcpCreate_def DhcpInit_def dhcp_NodeCreate_def)
  moreover have "wf_trie ?n (Node z e NOT_FULL)"
    using z(2,4) e(2,4) by (subst n(4)) simp
  moreover have "occ ?n (Node z e NOT_FULL) = {0, 2 ^ ?n - 1}"
  proof -
    have "(2 :: nat) ^ (?n - 1) + (2 ^ (?n - 1) - 1) = 2 ^ ?n - 1"
      using n(4) by (metis Nat.add_diff_assoc mult_2 one_le_numeral one_le_power power_Suc)
    then show ?thesis using z(3) e(3) by (subst n(4)) (simp add: insert_commute)
  qed
  ultimately show ?thesis using net by (intro exI [of _ ?d]) (simp add: wf_dhcp_def host_bits_def taken_def)
qed

text \<open>When a node of the two first paths cannot be allocated, the next step writes through NULL.\<close>

lemma DhcpCreate_no_memory:
  assumes "net \<le> 30" "\<not> mem ZERO 0"
  shows "DhcpCreate True True mem a net = None"
proof -
  have n: "szsub 32 net = 32 - net" "1 < 32 - net" using assms(1) by (auto simp: szsub_32)
  then have "init_path mem ZERO (32 - net) 1 NULL_NODE = None"
    by (subst init_path.simps) (cases "init_path mem ZERO (32 - net) 2 (dhcp_NodeCreate (mem ZERO 1))"; simp)
  then show ?thesis using n assms(2) by (simp add: DhcpCreate_def DhcpInit_def dhcp_NodeCreate_def Let_def)
qed

section \<open>Round trip of addresses\<close>

lemma byte_loop_digit:
  "d < 10 \<Longrightarrow> byte_loop (digit d # s) b = byte_loop s (b * 10 + of_nat d)"
  using digit_neq [of d "CHR ''.''"] c_char_digit [of d] by (simp add: c_char_def)

lemma byte_loop_show_u: "n < 2 ^ 32 \<Longrightarrow> byte_loop (show_u n @ s) 0 = byte_loop s (of_nat n)"
proof (induction n arbitrary: s rule: show_u.induct)
  case (1 n)
  show ?case
  proof (cases "n < 10")
    case True
    then show ?thesis by (subst show_u.simps) (simp add: byte_loop_digit del: byte_loop.simps)
  next
    case False
    then have "byte_loop (show_u n @ s) 0 = byte_loop ([digit (n mod 10)] @ s) (of_nat (n div 10))"
      using 1 by (subst show_u.simps) simp
    also have "\<dots> = byte_loop s (of_nat (n div 10) * 10 + of_nat (n mod 10))"
      by (simp add: byte_loop_digit del: byte_loop.simps)
    also have "(of_nat (n div 10) * 10 + of_nat (n mod 10) :: ip) = of_nat n"
      by (metis div_mult_mod_eq of_nat_add of_nat_mult of_nat_numeral)
    finally show ?thesis .
  qed
qed

lemma to_ip_byte: "n < 256 \<Longrightarrow> to_ip_loop (show_u n @ ''.'' @ s) a = to_ip_loop s (push_bit 8 a + of_nat n)"
proof -
  assume "n < 256"
  then have "byte_loop (show_u n @ ''.'' @ s) 0 = (of_nat n, ''.'' @ s)" using byte_loop_show_u [of n "''.'' @ s"] by simp
  then show ?thesis by (cases "show_u n") (use show_u_not_Nil [of n] in \<open>simp_all del: byte_loop.simps\<close>)
qed

lemma to_ip_last: "n < 256 \<Longrightarrow> to_ip_loop (show_u n) a = push_bit 8 a + of_nat n"
proof -
  assume "n < 256"
  then have "byte_loop (show_u n) 0 = (of_nat n, [])" using byte_loop_show_u [of n "[]"] by simp
  then show ?thesis by (cases "show_u n") (use show_u_not_Nil [of n] in \<open>simp_all del: byte_loop.simps\<close>)
qed

lemma join_byte: "push_bit 8 a + (b AND 0xff) = push_bit 8 a OR take_bit 8 (b :: ip)"
proof -
  have "(0xff :: ip) = mask 8" by (simp add: mask_eq_exp_minus_1)
  then have b: "b AND 0xff = take_bit 8 b" by (simp add: take_bit_eq_mask)
  show ?thesis unfolding b by (rule disjunctive_add) (auto simp: bit_push_bit_iff bit_take_bit_iff)
qed

lemma four_bytes:
  "push_bit 8 (push_bit 8 (push_bit 8 (push_bit 8 0 + (drop_bit 24 ip AND 0xff)) + (drop_bit 16 ip AND 0xff))
    + (drop_bit 8 ip AND 0xff)) + (ip AND 0xff) = (ip :: ip)"
  unfolding join_byte
proof (rule bit_word_eqI)
  fix i assume "i < LENGTH(32)"
  then consider "i < 8" | "8 \<le> i" "i < 16" | "16 \<le> i" "i < 24" | "24 \<le> i" "i < 32" by fastforce
  then show "bit (push_bit 8 (push_bit 8 (push_bit 8 (push_bit 8 0 OR take_bit 8 (drop_bit 24 ip)) OR take_bit 8 (drop_bit 16 ip))
     OR take_bit 8 (drop_bit 8 ip)) OR take_bit 8 ip) i = bit ip i"
    by cases (auto simp: bit_or_iff bit_push_bit_iff bit_take_bit_iff bit_drop_bit_eq)
qed

lemma StringToIp_IPToString_spec: "StringToIp (IPToString ip) = ip"
proof -
  have lt: "unat (w AND 0xff) < 256" for w :: ip
  proof -
    have "unat (w AND 0xff) \<le> unat (0xff :: ip)" using word_and_le1 by (metis word_le_nat_alt)
    then show ?thesis by simp
  qed
  show ?thesis
    unfolding StringToIp_def IPToString_def Let_def append_assoc
    by (simp only: to_ip_byte [OF lt] to_ip_last [OF lt] of_nat_unat ucast_id four_bytes)
qed

section \<open>What the allocator promises\<close>

text \<open>C29. As long as memory does not run out, an allocator with a free host answers SUCCESS, with an address of
  its network whose host was not taken and now is, all other hosts unchanged. Of a requested address only
  the host bits count, also when it belongs to another network: the answer is that host of the
  allocator's own network when the request is neither 0 nor a host seen as occupied, and the smallest
  free one otherwise. (The header promises the smallest free one for an address of another network;
  \<open>foreign_request\<close> below is an example.) With no free host it answers MALLOC_FAILURE and stays as it was.\<close>

theorem DhcpAllocateIp_correct:
  assumes "wf_dhcp d"
  shows "if taken d = {..<2 ^ host_bits d}
    then \<exists>ip. DhcpAllocateIp (\<lambda>_. True) ub d ip0 req = Some (d, ip, MALLOC_FAILURE)
    else \<exists>d' k. DhcpAllocateIp (\<lambda>_. True) ub d ip0 req = Some (d', sub_net d OR of_nat k, SUCCESS)
      \<and> wf_dhcp d' \<and> sub_net d' = sub_net d \<and> host_bits d' = host_bits d
      \<and> k < 2 ^ host_bits d \<and> k \<notin> taken d \<and> taken d' = insert k (taken d)
      \<and> (if req = 0 \<or> IsOccupied ub d (host_part (num_of_bits_for_network d) req) (host_bits d)
         then first_free (taken d) k else k = host d req)"
  using DhcpAllocateIp_full [OF assms] DhcpAllocateIp_spec [OF assms] by simp

definition small_net :: dhcp where
  "small_net = \<lparr>root = Node (Node (Node NULL_NODE NULL_NODE FULL) NULL_NODE NOT_FULL)
                           (Node NULL_NODE (Node NULL_NODE NULL_NODE FULL) NOT_FULL) NOT_FULL,
               num_of_bits_for_network = 30, sub_net = 0xC0A80000\<rparr>"

lemma small_net_wf: "wf_dhcp small_net" "taken small_net = {0, 3}" "host_bits small_net = 2"
  by (auto simp: small_net_def wf_dhcp_def taken_def host_bits_def numeral_2_eq_2)

lemma small_net_sel: "sub_net small_net = 0xC0A80000" "num_of_bits_for_network small_net = 30"
  by (simp_all add: small_net_def)

theorem DhcpAllocateIp_correct_witness:
  "\<exists>d' k. DhcpAllocateIp (\<lambda>_. True) ZERO small_net 0 0 = Some (d', 0xC0A80000 OR of_nat k, SUCCESS)
     \<and> k \<notin> {0, 3} \<and> taken d' = insert k {0, 3}"
proof -
  have "1 \<in> {..<2 ^ 2 :: nat}" "1 \<notin> {0, 3 :: nat}" by simp_all
  then have "{0, 3} \<noteq> {..<2 ^ 2 :: nat}" by blast
  then show ?thesis
    using DhcpAllocateIp_correct [OF small_net_wf(1), of ZERO 0 0]
    unfolding small_net_wf(2,3) small_net_sel by (simp del: insert_iff) blast
qed

text \<open>C30. Of an address only the host bits count for \<open>DhcpFreeIp\<close>, also when it belongs to another network: it
  answers FREE_FAILURE for the hosts of the network and broadcast addresses, gives back a host that is
  taken (and only that one, so that one more host is free), answers DOUBLE_FREE for a host that is not,
  and faults when only the leaf of the host is missing. (The header promises FREE_FAILURE for an address
  that does not exist; \<open>foreign_free\<close> below gives back a host with an address of another network.)\<close>

theorem DhcpFreeIp_correct:
  assumes "wf_dhcp d"
  shows "if host d ip = 0 \<or> host d ip = 2 ^ host_bits d - 1 then DhcpFreeIp ub d ip = Some (d, FREE_FAILURE)
    else if leaf_missing (host_part (num_of_bits_for_network d) ip) (host_bits d) (root d) then DhcpFreeIp ub d ip = None
    else if host d ip \<in> taken d then \<exists>d'. DhcpFreeIp ub d ip = Some (d', SUCCESS) \<and> wf_dhcp d'
      \<and> taken d' = taken d - {host d ip} \<and> DhcpCountFree d' = DhcpCountFree d + 1
    else DhcpFreeIp ub d ip = Some (d, DOUBLE_FREE)"
proof -
  let ?net = "num_of_bits_for_network d" and ?ip = "host_part (num_of_bits_for_network d) ip"
  have net: "?net < 32" "wf_trie (host_bits d) (root d)" "host_bits d \<le> 32" "szsub 32 ?net = host_bits d"
    using assms by (auto simp: wf_dhcp_def host_bits_def szsub_32)
  have u: "take_bit (host_bits d) (unat ?ip) = host d ip"
    using host_part_unat [of ?net ip] net(1) by (simp add: host_def host_bits_def)
  note simps = DhcpFreeIp_def Let_def net(1,4) zero_host [OF net(1)] broadcast_host [OF net(1), simplified] IsOccupied_spec [OF assms]
  have "\<exists>d'. DhcpFreeIp ub d ip = Some (d', SUCCESS) \<and> wf_dhcp d' \<and> taken d' = taken d - {host d ip}
      \<and> DhcpCountFree d' = DhcpCountFree d + 1"
    if h: "host d ip \<noteq> 0" "host d ip \<noteq> 2 ^ host_bits d - 1" "host d ip \<in> taken d"
  proof -
    obtain t where t: "FreeIp ?ip (host_bits d) (root d) = Some t" "wf_trie (host_bits d) t"
      "occ (host_bits d) t = taken d - {host d ip}"
      using FreeIp_spec [OF net(3,2), of ?ip] h(3) by (auto simp: u taken_def)
    let ?d = "d\<lparr>root := t\<rparr>"
    have d': "wf_dhcp ?d" "taken ?d = taken d - {host d ip}" "host_bits ?d = host_bits d"
      using t net(1) by (simp_all add: wf_dhcp_def taken_def host_bits_def)
    have fin: "finite (taken d)" unfolding taken_def using occ_less finite_lessThan by (rule finite_subset)
    have "card (taken d) \<le> 2 ^ host_bits d"
      unfolding taken_def using card_mono [OF finite_lessThan occ_less] by (metis card_lessThan)
    moreover have "0 < card (taken d)" using h(3) fin card_gt_0_iff by blast
    ultimately have "DhcpCountFree ?d = DhcpCountFree d + 1"
      unfolding DhcpCountFree_spec [OF d'(1)] DhcpCountFree_spec [OF assms] d'(2,3) card_Diff_singleton [OF h(3)] by linarith
    moreover have "DhcpFreeIp ub d ip = Some (?d, SUCCESS)" using h t(1) by (simp add: simps)
    ultimately show ?thesis using d' by blast
  qed
  moreover have "DhcpFreeIp ub d ip = None"
    if "host d ip \<noteq> 0" "host d ip \<noteq> 2 ^ host_bits d - 1" "leaf_missing ?ip (host_bits d) (root d)"
    using that FreeIp_leaf_missing [OF that(3)] by (simp add: simps)
  moreover have "DhcpFreeIp ub d ip = Some (d, FREE_FAILURE)" if "host d ip = 0 \<or> host d ip = 2 ^ host_bits d - 1"
    using that by (simp add: simps)
  moreover have "DhcpFreeIp ub d ip = Some (d, DOUBLE_FREE)"
    if "host d ip \<noteq> 0" "host d ip \<noteq> 2 ^ host_bits d - 1" "\<not> leaf_missing ?ip (host_bits d) (root d)" "host d ip \<notin> taken d"
    using that by (simp add: simps)
  ultimately show ?thesis by (simp only: if_bool_eq_conj) blast
qed

theorem DhcpFreeIp_correct_witness:
  "DhcpFreeIp ZERO small_net 0xC0A80002 = None \<and> DhcpFreeIp ZERO small_net 0xC0A80003 = Some (small_net, FREE_FAILURE)"
proof -
  have h: "host small_net 0xC0A80002 = 2" "host small_net 0xC0A80003 = 3"
    unfolding host_def small_net_wf(3) by (simp_all add: take_bit_eq_mod)
  have p: "host_part 30 0xC0A80002 = 2"
    using of_nat_host [where d = small_net and ip = "0xC0A80002"] by (simp add: h small_net_sel)
  have m: "leaf_missing 2 2 (root small_net)"
    by (simp add: small_net_def numeral_2_eq_2)
  show ?thesis
    using DhcpFreeIp_correct [OF small_net_wf(1), where ip = "0xC0A80002" and ub = ZERO] DhcpFreeIp_correct [OF small_net_wf(1), where ip = "0xC0A80003" and ub = ZERO] m
    unfolding h small_net_wf(2,3) small_net_sel p by simp
qed

text \<open>The network 192.168.0.0 with three host bits, as it is created, and the address 10.0.0.2 of another one: the
  request is answered by 192.168.0.2, not by the smallest free address 192.168.0.1, and freeing 10.0.0.2 gives
  back 192.168.0.2. The header promises the smallest free address and FREE_FAILURE.\<close>

definition three_bits :: dhcp where
  "three_bits = \<lparr>root = Node (Node (Node (Node NULL_NODE NULL_NODE FULL) NULL_NODE NOT_FULL) NULL_NODE NOT_FULL)
       (Node NULL_NODE (Node NULL_NODE (Node NULL_NODE NULL_NODE FULL) NOT_FULL) NOT_FULL) NOT_FULL,
     num_of_bits_for_network = 29, sub_net = 0xC0A80000\<rparr>"

lemma three_bits_facts: "szsub 32 29 = Suc (Suc (Suc 0))" "host_part 29 0x0A000002 = 2" "host_part 29 0xC0A80002 = 2"
    "\<not> bit (2 :: ip) 0" "bit (2 :: ip) (Suc 0)" "\<not> bit (2 :: ip) (Suc (Suc 0))" "drop_bit 29 (- 1 :: ip) = 7" "mask 3 = (7 :: ip)"
  by (simp_all add: szsub_def host_part_def bit_numeral_rec mask_eq_exp_minus_1)

lemma szsub_small: "szsub (Suc 0) (Suc 0) = 0" "szsub (Suc (Suc 0)) (Suc 0) = Suc 0" "szsub (Suc (Suc (Suc 0))) (Suc 0) = Suc (Suc 0)"
    "szsub 8 (Suc (Suc (Suc 0))) = 5" "szsub 8 (Suc (Suc 0)) = 6"
  by (simp_all add: szsub_def)

lemmas three_bits_eval = szsub_small DhcpAllocateIp_def DhcpFreeIp_def three_bits_def three_bits_facts IsOccupied_def direction_of_def
  dhcp_NodeCreate_def UpdateFullness_def szsub_0_1 DhcpCountFree_def

lemma three_bits_created: "DhcpCreate True True (\<lambda>_ _. True) 0xC0A80000 29 = Some (Some three_bits)"
  by (simp add: DhcpCreate_def DhcpInit_def init_path.simps three_bits_eval)

lemma foreign_request:
  "map_option (\<lambda>(d, ip, status). (ip, status)) (DhcpAllocateIp (\<lambda>_. True) ZERO three_bits 0 0x0A000002) = Some (0xC0A80002, SUCCESS)"
  by (simp add: three_bits_eval)

lemma foreign_free:
  "do { (d, ip, status) \<leftarrow> DhcpAllocateIp (\<lambda>_. True) ZERO three_bits 0 0xC0A80002;
        (d', status) \<leftarrow> DhcpFreeIp ZERO d 0x0A000002;
        Some (DhcpCountFree d, DhcpCountFree d', status) } = Some (5, 6, SUCCESS)"
  by (simp add: three_bits_eval)

text \<open>Reading back the dotted text of any address gives the address.\<close>

theorem StringToIp_IPToString: "StringToIp (IPToString ip) = ip"
  by (rule StringToIp_IPToString_spec)

section \<open>Destruction\<close>

text \<open>The paths of the nodes in the order in which they are freed.\<close>

fun dhcp_DestroyByElement :: "dhcp_node \<Rightarrow> bit_dir list \<Rightarrow> bit_dir list list" where
  "dhcp_DestroyByElement NULL_NODE p = []"
| "dhcp_DestroyByElement (Node z e f) p =
     dhcp_DestroyByElement z (p @ [ZERO]) @ dhcp_DestroyByElement e (p @ [ONE]) @ [p]"

definition DhcpDestroy :: "dhcp \<Rightarrow> bit_dir list list" where
  "DhcpDestroy d = dhcp_DestroyByElement (root d) []"

fun node_at :: "dhcp_node \<Rightarrow> bit_dir list \<Rightarrow> bool" where
  "node_at NULL_NODE p = False"
| "node_at (Node z e f) [] = True"
| "node_at (Node z e f) (ZERO # p) = node_at z p"
| "node_at (Node z e f) (ONE # p) = node_at e p"

lemma DestroyByElement_set: "set (dhcp_DestroyByElement t p) = {p @ q |q. node_at t q}"
proof (induction t arbitrary: p)
  case (Node z e f)
  have "{p @ q |q. node_at (Node z e f) q} = {p} \<union> {p @ ZERO # q |q. node_at z q} \<union> {p @ ONE # q |q. node_at e q}"
  proof (intro equalityI subsetI)
    fix x assume "x \<in> {p @ q |q. node_at (Node z e f) q}"
    then obtain q where q: "x = p @ q" "node_at (Node z e f) q" by blast
    show "x \<in> {p} \<union> {p @ ZERO # q |q. node_at z q} \<union> {p @ ONE # q |q. node_at e q}"
      using q by (cases "(Node z e f, q)" rule: node_at.cases) auto
  qed (fastforce)
  then show ?case using Node by simp
qed simp

text \<open>Every node is freed exactly once.\<close>

lemma DhcpDestroy_frees_all: "set (DhcpDestroy d) = {p. node_at (root d) p}" "distinct (DhcpDestroy d)"
proof -
  show "set (DhcpDestroy d) = {p. node_at (root d) p}" by (simp add: DhcpDestroy_def DestroyByElement_set)
  have "distinct (dhcp_DestroyByElement t p)" for t p
    by (induction t arbitrary: p) (auto simp: DestroyByElement_set)
  then show "distinct (DhcpDestroy d)" by (simp add: DhcpDestroy_def)
qed

end
