(* ===== verification/Fsa.thy ===== *)
theory Fsa
  imports Prelude
begin

text \<open>
  The fixed size allocator of \<open>system_programming/fsa/fsa.c\<close>. It lives in the memory it manages:
  the memory is an array of words (\<open>size_t\<close>), the three words of the structure come first, and the
  first word of every free block holds the offset in bytes of the next free one. A block is named
  by its offset in bytes from the allocator.
\<close>

section \<open>The allocator\<close>

type_synonym words = "nat list"

definition SIZE_OF_WORD :: nat where
  "SIZE_OF_WORD = 8"

definition SIZE_OF_FSA :: nat where
  "SIZE_OF_FSA = 24"

definition sz :: "nat \<Rightarrow> nat" where
  "sz x = x mod 2 ^ 64"

definition CALCULATE_BLOCK_SIZE :: "nat \<Rightarrow> nat" where
  "CALCULATE_BLOCK_SIZE block_size =
     szsub (sz (block_size + SIZE_OF_WORD * (if block_size mod SIZE_OF_WORD \<noteq> 0 then 1 else 0)))
           (block_size mod SIZE_OF_WORD)"

definition FSASuggestSize :: "nat \<Rightarrow> nat \<Rightarrow> nat option" where
  "FSASuggestSize block_size num_of_blocks = do {
     c_assert (0 < block_size);
     c_assert (0 < num_of_blocks);
     Some (sz (SIZE_OF_FSA + sz (CALCULATE_BLOCK_SIZE block_size * num_of_blocks)))
   }"

partial_function (option) free_list_loop :: "words \<Rightarrow> nat \<Rightarrow> nat \<Rightarrow> nat \<Rightarrow> nat \<Rightarrow> words option" where
  "free_list_loop m block_size num_of_blocks offset fsa_runner =
     (if num_of_blocks \<noteq> 1 then do {
        m \<leftarrow> aset m fsa_runner (sz (offset + block_size));
        free_list_loop m block_size (szsub num_of_blocks 1) (sz (offset + block_size))
          (fsa_runner + block_size div SIZE_OF_WORD)
      } else aset m fsa_runner 0)"

definition CreatFreeList :: "words \<Rightarrow> words option" where
  "CreatFreeList m = do {
     block_size \<leftarrow> aget m 0;
     num_of_blocks \<leftarrow> aget m 1;
     free_list_loop m block_size num_of_blocks SIZE_OF_FSA 3
   }"

definition FSAInit :: "words \<Rightarrow> nat \<Rightarrow> nat \<Rightarrow> words option option" where
  "FSAInit m memory_size block_size = do {
     least \<leftarrow> FSASuggestSize block_size 1;
     if memory_size < least then Some None
     else do {
       let block_size = CALCULATE_BLOCK_SIZE block_size;
       m \<leftarrow> aset m 0 block_size;
       m \<leftarrow> aset m 1 ((memory_size - SIZE_OF_FSA) div block_size);
       m \<leftarrow> aset m 2 SIZE_OF_FSA;
       m \<leftarrow> CreatFreeList m;
       Some (Some m)
     }
   }"

definition FSAAlloc :: "words \<Rightarrow> (words \<times> nat option) option" where
  "FSAAlloc m = do {
     n \<leftarrow> aget m 1;
     if 0 < n then do {
       next_free \<leftarrow> aget m 2;
       let block = next_free div SIZE_OF_WORD;
       next_free \<leftarrow> aget m block;
       m \<leftarrow> aset m 2 next_free;
       m \<leftarrow> aset m 1 (n - 1);
       Some (m, Some (block * SIZE_OF_WORD))
     } else Some (m, None)
   }"

definition FSAFree :: "words \<Rightarrow> nat \<Rightarrow> words option" where
  "FSAFree m block = do {
     next_free \<leftarrow> aget m 2;
     m \<leftarrow> aset m (block div SIZE_OF_WORD) next_free;
     m \<leftarrow> aset m 2 block;
     n \<leftarrow> aget m 1;
     aset m 1 (sz (n + 1))
   }"

definition FSACountFree :: "words \<Rightarrow> nat option" where
  "FSACountFree m = aget m 1"

section \<open>The pool of free blocks\<close>

text \<open>Block \<open>k\<close> begins at byte \<open>24 + k * bs\<close>; \<open>q\<close> is the block size in words.\<close>

definition blk :: "nat \<Rightarrow> nat \<Rightarrow> nat" where
  "blk q k = 24 + k * (8 * q)"

fun links :: "words \<Rightarrow> nat \<Rightarrow> nat list \<Rightarrow> bool" where
  "links m p [] = (p = 0)"
| "links m p (x # xs) = (p = x \<and> links m (m ! (x div 8)) xs)"

definition pool :: "words \<Rightarrow> nat \<Rightarrow> nat \<Rightarrow> nat list \<Rightarrow> bool" where
  "pool m q n fs \<longleftrightarrow> 0 < q \<and> 3 + n * q \<le> length m \<and> length m < 2 ^ 61 \<and> m ! 0 = 8 * q \<and> m ! 1 = length fs
     \<and> links m (m ! 2) fs \<and> distinct fs \<and> set fs \<subseteq> blk q ` {..<n}"

lemma blk_div: "blk q k div 8 = 3 + k * q"
  by (simp add: blk_def)

lemma blk_dvd: "blk q k div 8 * 8 = blk q k"
  by (simp add: blk_def)

lemma blk_inj: "0 < q \<Longrightarrow> blk q j = blk q k \<longleftrightarrow> j = k"
  by (simp add: blk_def)

lemma blk_apart:
  assumes "0 < q" "j \<noteq> k" "i < q" shows "blk q j div 8 \<noteq> blk q k div 8 + i"
proof
  assume "blk q j div 8 = blk q k div 8 + i"
  then have e: "j * q = k * q + i" by (simp add: blk_div)
  then have "(j * q) div q = (k * q + i) div q" by simp
  then show False using assms by simp
qed

lemma blk_in: "k < n \<Longrightarrow> i < q \<Longrightarrow> 3 + n * q \<le> l \<Longrightarrow> blk q k div 8 + i < l"
proof -
  assume a: "k < n" "i < q" "3 + n * q \<le> l"
  then have "Suc k * q \<le> n * q" by (intro mult_right_mono) auto
  then show ?thesis using a(2,3) by (simp add: blk_div)
qed

lemma links_upd: "\<lbrakk>i < length m; \<forall>x \<in> set xs. x div 8 \<noteq> i\<rbrakk> \<Longrightarrow> links (m[i := v]) p xs \<longleftrightarrow> links m p xs"
  by (induction xs arbitrary: p) auto

lemma pool_length: "pool m q n fs \<Longrightarrow> length fs \<le> n \<and> n < 2 ^ 61"
proof -
  assume p: "pool m q n fs"
  then have "card (set fs) \<le> card (blk q ` {..<n})" by (intro card_mono) (auto simp: pool_def)
  also have "\<dots> \<le> n" using card_image_le [of "{..<n}" "blk q"] by simp
  finally have "length fs \<le> n" using p by (simp add: pool_def distinct_card)
  moreover have "n \<le> n * q" "3 + n * q \<le> length m" "length m < 2 ^ 61" using p by (auto simp: pool_def)
  ultimately show ?thesis by linarith
qed

lemma pool_block: "pool m q n fs \<Longrightarrow> x \<in> set fs \<Longrightarrow> \<exists>j < n. x = blk q j"
  by (auto simp: pool_def)

section \<open>Allocation and release\<close>

lemma FSAAlloc_empty: "pool m q n [] \<Longrightarrow> FSAAlloc m = Some (m, None)"
  by (auto simp: pool_def FSAAlloc_def)

lemma head_facts:
  assumes "pool m q n fs" "x \<in> set fs"
  shows "3 \<le> x div 8" "x div 8 < length m" "x div 8 * 8 = x"
proof -
  obtain j where "j < n" "x = blk q j" using pool_block [OF assms] by blast
  then show "3 \<le> x div 8" "x div 8 < length m" "x div 8 * 8 = x"
    using assms(1) blk_in [of j n 0 q "length m"] blk_dvd [of q j] by (auto simp: pool_def blk_div)
qed

lemma FSAAlloc_takes:
  assumes p: "pool m q n (b # fs)"
  shows "\<exists>m'. FSAAlloc m = Some (m', Some b) \<and> pool m' q n fs \<and> (\<forall>i \<ge> 3. m' ! i = m ! i)"
proof -
  note b = head_facts [OF p, of b]
  let ?m = "m[2 := m ! (b div 8), 1 := length fs]"
  have l: "length m > 2" "m ! 2 = b" "m ! 1 = Suc (length fs)" using p by (auto simp: pool_def)
  have "FSAAlloc m = Some (?m, Some b)"
    using b l by (simp add: FSAAlloc_def SIZE_OF_WORD_def)
  moreover have "links ?m (m ! (b div 8)) fs"
    using p head_facts(1) [OF p] l(1) by (subst links_upd, simp, fastforce)+ (simp add: pool_def)
  then have "pool ?m q n fs" using p l by (simp add: pool_def)
  ultimately show ?thesis by (intro exI [of _ ?m]) simp
qed

lemma FSAFree_returns:
  assumes p: "pool m q n fs" and k: "k < n" and new: "blk q k \<notin> set fs"
  shows "\<exists>m'. FSAFree m (blk q k) = Some m' \<and> pool m' q n (blk q k # fs)
    \<and> (\<forall>i \<ge> 3. i \<noteq> blk q k div 8 \<longrightarrow> m' ! i = m ! i)"
proof -
  let ?b = "blk q k" and ?i = "blk q k div 8"
  have q: "0 < q" using p by (simp add: pool_def)
  have i: "3 \<le> ?i" "?i < length m" using blk_in [of k n 0 q "length m"] k p q by (auto simp: pool_def blk_div)
  have l: "length m > 2" "m ! 1 = length fs" using p i by (auto simp: pool_def)
  have sz: "sz (length fs + 1) = length fs + 1" using pool_length [OF p] by (simp add: sz_def)
  let ?m = "m[?i := m ! 2, 2 := ?b, 1 := length fs + 1]"
  have "FSAFree m ?b = Some ?m"
    using i l sz by (simp add: FSAFree_def SIZE_OF_WORD_def)
  moreover have "links ?m (m ! 2) fs"
  proof -
    have "x div 8 \<noteq> ?i" if "x \<in> set fs" for x
      using pool_block [OF p that] that new blk_apart [OF q, of _ k 0] q by (metis add_0_right)
    then show ?thesis using p head_facts(1) [OF p] i l(1)
      by (subst links_upd, simp, fastforce)+ (simp add: pool_def)
  qed
  then have "pool ?m q n (?b # fs)"
    using p k new i l(1) by (simp add: pool_def)
  ultimately show ?thesis by (intro exI [of _ ?m]) simp
qed

text \<open>What a client writes inside its own block leaves the pool alone.\<close>

lemma pool_client_write:
  assumes p: "pool m q n fs" and k: "k < n" and own: "blk q k \<notin> set fs" and i: "i < q"
  shows "pool (m[blk q k div 8 + i := v]) q n fs"
proof -
  have q: "0 < q" using p by (simp add: pool_def)
  have j: "blk q k div 8 + i < length m" "3 \<le> blk q k div 8 + i"
    using blk_in [OF k i] p by (auto simp: pool_def blk_div)
  have "x div 8 \<noteq> blk q k div 8 + i" if "x \<in> set fs" for x
    using pool_block [OF p that] that own blk_apart [OF q _ i] by metis
  then have "links (m[blk q k div 8 + i := v]) (m ! 2) fs"
    using p j(1) by (subst links_upd) (auto simp: pool_def)
  moreover have "blk q k div 8 + i \<noteq> 0" "blk q k div 8 + i \<noteq> 1" "blk q k div 8 + i \<noteq> 2" using j(2) by linarith+
  ultimately show ?thesis using p j(1) by (simp add: pool_def)
qed

section \<open>Initialisation\<close>

lemma CALCULATE_BLOCK_SIZE_spec:
  assumes "0 < bs" "bs < 2 ^ 63"
  shows "\<exists>q. CALCULATE_BLOCK_SIZE bs = 8 * q \<and> 0 < q \<and> bs \<le> 8 * q \<and> 8 * q < bs + 8"
proof (cases "bs mod 8 = 0")
  case True
  then have "CALCULATE_BLOCK_SIZE bs = bs" using assms
    by (simp add: CALCULATE_BLOCK_SIZE_def SIZE_OF_WORD_def sz_def szsub_def)
  then show ?thesis using True assms by (intro exI [of _ "bs div 8"]) auto
next
  case False
  have "CALCULATE_BLOCK_SIZE bs = bs + 8 - bs mod 8"
    using assms False by (simp add: CALCULATE_BLOCK_SIZE_def SIZE_OF_WORD_def sz_def szsub_ge)
  moreover have "bs + 8 - bs mod 8 = 8 * (bs div 8 + 1)"
    by (metis (no_types, lifting) add.commute add_diff_cancel_right' distrib_left mult_div_mod_eq mult.right_neutral add.assoc diff_add_inverse2)
  moreover have "bs \<le> 8 * (bs div 8 + 1)" "8 * (bs div 8 + 1) < bs + 8" using False by presburger+
  ultimately show ?thesis by (intro exI [of _ "bs div 8 + 1"]) auto
qed

lemma free_list_loop_spec:
  "\<lbrakk>0 < q; k < n; 3 + n * q \<le> length m; length m < 2 ^ 61\<rbrakk> \<Longrightarrow>
   \<exists>m'. free_list_loop m (8 * q) (n - k) (blk q k) (blk q k div 8) = Some m' \<and> length m' = length m
     \<and> links m' (blk q k) (List.map (blk q) [k..<n]) \<and> (\<forall>i < blk q k div 8. m' ! i = m ! i)"
proof (induction "n - k" arbitrary: k m)
  case 0
  then show ?case by simp
next
  case (Suc d)
  have q: "blk q k div 8 < length m" using blk_in [of k n 0 q "length m"] Suc.prems by simp
  show ?case
  proof (cases "n - k = 1")
    case True
    then have "[k..<n] = [k]" using Suc.prems by (simp add: upt_rec)
    then show ?thesis using True q by (subst free_list_loop.simps) (auto simp: nth_list_update)
  next
    case False
    then have k: "Suc k < n" "d = n - Suc k" using Suc.hyps(2) by auto
    have n1: "szsub (n - k) 1 = n - Suc k"
    proof -
      have "n \<le> n * q" using Suc.prems(1) by simp
      moreover have "n * q < 2 ^ 64" using Suc.prems(3,4) by simp
      ultimately have "n < 2 ^ 64" by (rule le_less_trans)
      then show ?thesis using k(1) szsub_ge [of 1 "n - k"] by simp
    qed
    have b: "blk q k + 8 * q = blk q (Suc k)" "blk q k div 8 + q = blk q (Suc k) div 8" by (simp_all add: blk_def)
    have "blk q (Suc k) div 8 < length m" using blk_in [of "Suc k" n 0 q "length m"] Suc.prems k by simp
    then have "blk q (Suc k) < 2 ^ 64" using Suc.prems(4) blk_dvd [of q "Suc k"] by simp
    then have s: "sz (blk q k + 8 * q) = blk q (Suc k)" by (simp add: sz_def b)
    let ?m = "m[blk q k div 8 := blk q (Suc k)]"
    have st: "free_list_loop m (8 * q) (n - k) (blk q k) (blk q k div 8)
        = free_list_loop ?m (8 * q) (n - Suc k) (blk q (Suc k)) (blk q (Suc k) div 8)"
      using q False n1 s b by (subst free_list_loop.simps) (simp add: SIZE_OF_WORD_def)
    obtain m' where m': "free_list_loop ?m (8 * q) (n - Suc k) (blk q (Suc k)) (blk q (Suc k) div 8) = Some m'"
      "length m' = length m" "links m' (blk q (Suc k)) (List.map (blk q) [Suc k..<n])"
      "\<forall>i < blk q (Suc k) div 8. m' ! i = ?m ! i"
      using Suc.hyps(1) [OF k(2), of ?m] Suc.prems k by auto
    have lt: "blk q k div 8 < blk q (Suc k) div 8" using Suc.prems(1) by (simp add: blk_div)
    then have "m' ! (blk q k div 8) = blk q (Suc k)" using m'(4) q by simp
    then have "links m' (blk q k) (List.map (blk q) [k..<n])"
      using m'(3) k(1) by (simp add: upt_rec [of k])
    then show ?thesis unfolding st using m' lt by (intro exI [of _ m']) auto
  qed
qed

lemma FSAInit_spec:
  assumes bs: "0 < bs" "bs < 2 ^ 63" and q: "CALCULATE_BLOCK_SIZE bs = 8 * q"
    and ms: "24 + 8 * q \<le> memory_size" "memory_size \<le> 8 * length m" "length m < 2 ^ 61"
  shows "\<exists>m'. FSAInit m memory_size bs = Some (Some m')
    \<and> pool m' q ((memory_size - 24) div (8 * q)) (List.map (blk q) [0..<(memory_size - 24) div (8 * q)])"
proof -
  have q0: "0 < q" using CALCULATE_BLOCK_SIZE_spec [OF bs] q by auto
  let ?n = "(memory_size - 24) div (8 * q)"
  have n: "0 < ?n" using ms(1) q0 by (simp add: div_greater_zero_iff)
  have "?n * (8 * q) \<le> memory_size - 24" by (rule div_times_less_eq_dividend)
  then have "8 * (?n * q) \<le> memory_size - 24" by (simp only: mult.left_commute)
  then have fit: "3 + ?n * q \<le> length m" using ms(1,2) by linarith
  have least: "FSASuggestSize bs 1 = Some (24 + 8 * q)"
    using bs q ms by (simp add: FSASuggestSize_def SIZE_OF_FSA_def sz_def)
  let ?m = "m[0 := 8 * q, 1 := ?n, 2 := 24]"
  have l: "2 < length m" using fit n by (cases ?n) auto
  then have l01: "0 < length m" "Suc 0 < length m" by linarith+
  obtain m' where m': "free_list_loop ?m (8 * q) ?n 24 3 = Some m'" "length m' = length m"
    "links m' 24 (List.map (blk q) [0..<?n])" "\<forall>i < 3. m' ! i = ?m ! i"
    using free_list_loop_spec [OF q0 n, of ?m] fit ms(3) by (auto simp: blk_def)
  have "FSAInit m memory_size bs = Some (Some m')"
    using m'(1) least ms(1) l l01 by (simp add: FSAInit_def q SIZE_OF_FSA_def CreatFreeList_def Let_def)
  moreover have "m' ! 0 = 8 * q" "m' ! 1 = ?n" "m' ! 2 = 24" using m'(4) l l01 by auto
  moreover have "distinct (List.map (blk q) [0..<?n])" using q0 by (simp add: distinct_map inj_on_def blk_inj)
  ultimately show ?thesis using m'(2,3) q0 fit ms(3) by (intro exI [of _ m']) (auto simp: pool_def)
qed

section \<open>Programs with an allocator\<close>

text \<open>A client allocates, gives back a block it holds, and writes words of blocks it holds. A block is named by its offset.\<close>

datatype fsa_op = Alloc | Free nat | Write nat nat nat

fun fsa_exec :: "fsa_op \<Rightarrow> words \<Rightarrow> (words \<times> nat option) option" where
  "fsa_exec Alloc m = FSAAlloc m"
| "fsa_exec (Free b) m = do { m \<leftarrow> FSAFree m b; Some (m, None) }"
| "fsa_exec (Write b i v) m = do { m \<leftarrow> aset m (b div 8 + i) v; Some (m, None) }"

fun fsa_run :: "fsa_op list \<Rightarrow> words \<Rightarrow> (words \<times> nat option list) option" where
  "fsa_run [] m = Some (m, [])"
| "fsa_run (op # ops) m = do { (m, r) \<leftarrow> fsa_exec op m; (m, rs) \<leftarrow> fsa_run ops m; Some (m, r # rs) }"

text \<open>What the program means: the free blocks are a stack, and what has been written in a block stays until it is given back.\<close>

type_synonym stock = "nat list \<times> (nat \<times> nat \<rightharpoonup> nat)"

fun stock_exec :: "fsa_op \<Rightarrow> stock \<Rightarrow> stock \<times> nat option" where
  "stock_exec Alloc (fs, d) = (case fs of [] \<Rightarrow> ((fs, d), None) | b # fs \<Rightarrow> ((fs, d), Some b))"
| "stock_exec (Free b) (fs, d) = ((b # fs, \<lambda>(c, i). if c = b then None else d (c, i)), None)"
| "stock_exec (Write b i v) (fs, d) = ((fs, d((b, i) \<mapsto> v)), None)"

fun stock_run :: "fsa_op list \<Rightarrow> stock \<Rightarrow> stock \<times> nat option list" where
  "stock_run [] s = (s, [])"
| "stock_run (op # ops) s = (let (s, r) = stock_exec op s; (s, rs) = stock_run ops s in (s, r # rs))"

definition held :: "nat \<Rightarrow> nat \<Rightarrow> nat list \<Rightarrow> nat \<Rightarrow> bool" where
  "held q n fs b \<longleftrightarrow> (\<exists>k<n. b = blk q k) \<and> b \<notin> set fs"

fun fsa_allowed :: "nat \<Rightarrow> nat \<Rightarrow> fsa_op \<Rightarrow> stock \<Rightarrow> bool" where
  "fsa_allowed q n Alloc s \<longleftrightarrow> True"
| "fsa_allowed q n (Free b) s \<longleftrightarrow> held q n (fst s) b"
| "fsa_allowed q n (Write b i v) s \<longleftrightarrow> held q n (fst s) b \<and> i < q"

fun well_used :: "nat \<Rightarrow> nat \<Rightarrow> fsa_op list \<Rightarrow> stock \<Rightarrow> bool" where
  "well_used q n [] s \<longleftrightarrow> True"
| "well_used q n (op # ops) s \<longleftrightarrow> fsa_allowed q n op s \<and> well_used q n ops (fst (stock_exec op s))"

definition fsa_rel :: "nat \<Rightarrow> nat \<Rightarrow> words \<Rightarrow> stock \<Rightarrow> bool" where
  "fsa_rel q n m s \<longleftrightarrow> pool m q n (fst s)
     \<and> (\<forall>b i v. snd s (b, i) = Some v \<longrightarrow> held q n (fst s) b \<and> i < q \<and> m ! (b div 8 + i) = v)"

lemma block_words_inj:
  assumes "i < q" "j < q" "blk q a div 8 + i = blk q b div 8 + j"
  shows "a = b \<and> i = j"
proof -
  have e: "a * q + i = b * q + j" using assms(3) by (simp add: blk_div)
  have "(a * q + i) div q = a" "(b * q + j) div q = b" "(a * q + i) mod q = i" "(b * q + j) mod q = j" using assms(1,2) by simp_all
  then show ?thesis using e by metis
qed

lemma fsa_exec_ok:
  assumes R: "fsa_rel q n m s" and a: "fsa_allowed q n op s"
  shows "\<exists>m'. fsa_exec op m = Some (m', snd (stock_exec op s)) \<and> fsa_rel q n m' (fst (stock_exec op s))"
proof -
  obtain fs d where s: "s = (fs, d)" by (cases s)
  have p: "pool m q n fs" and d: "d (b, i) = Some v \<Longrightarrow> held q n (fst s) b \<and> i < q \<and> m ! (b div 8 + i) = v" for b i v
    using R s by (simp_all add: fsa_rel_def)
  have three: "3 \<le> b div 8 + i" if "held q n (fst s) b" for b i using that by (auto simp: held_def blk_div)
  show ?thesis
  proof (cases op)
    case Alloc
    show ?thesis
    proof (cases fs)
      case Nil
      then show ?thesis using FSAAlloc_empty p R s Alloc by simp
    next
      case (Cons b fs')
      obtain m' where m': "FSAAlloc m = Some (m', Some b)" "pool m' q n fs'" "\<forall>i \<ge> 3. m' ! i = m ! i"
        using FSAAlloc_takes p Cons by blast
      have "held q n fs' c \<and> i < q \<and> m' ! (c div 8 + i) = v" if "d (c, i) = Some v" for c i v
        using d [OF that] three [of c i] m'(3) s Cons by (auto simp: held_def)
      then show ?thesis using m'(1,2) s Cons Alloc by (simp add: fsa_rel_def)
    qed
  next
    case (Free b)
    then obtain k where k: "k < n" "b = blk q k" "b \<notin> set fs" using a s by (auto simp: held_def)
    obtain m' where m': "FSAFree m b = Some m'" "pool m' q n (b # fs)" "\<forall>i \<ge> 3. i \<noteq> b div 8 \<longrightarrow> m' ! i = m ! i"
      using FSAFree_returns p k by blast
    have "held q n (b # fs) c \<and> i < q \<and> m' ! (c div 8 + i) = v" if "d (c, i) = Some v" "c \<noteq> b" for c i v
    proof -
      have c: "held q n (fst s) c" "i < q" "m ! (c div 8 + i) = v" using d [OF that(1)] by simp_all
      then obtain j where "c = blk q j" by (auto simp: held_def)
      then have "c div 8 + i \<noteq> b div 8" using block_words_inj [of i q 0 j k] c(2) that(2) k(2) by auto
      then show ?thesis using c three [OF c(1), of i] m'(3) that(2) s by (auto simp: held_def)
    qed
    then show ?thesis using m'(1,2) s Free by (simp add: fsa_rel_def)
  next
    case (Write b i v)
    then obtain k where k: "k < n" "b = blk q k" "b \<notin> set fs" "i < q" using a s by (auto simp: held_def)
    have l: "b div 8 + i < length m" using blk_in [of k n i q "length m"] k p by (simp add: pool_def)
    have "held q n fs c \<and> j < q \<and> m[b div 8 + i := v] ! (c div 8 + j) = w" if "(d((b, i) \<mapsto> v)) (c, j) = Some w" for c j w
    proof (cases "(c, j) = (b, i)")
      case True
      then show ?thesis using that k l by (auto simp: held_def)
    next
      case False
      then have c: "held q n (fst s) c" "j < q" "m ! (c div 8 + j) = w" using d [of c j w] that by auto
      then obtain a where "c = blk q a" by (auto simp: held_def)
      then have "c div 8 + j \<noteq> b div 8 + i" using block_words_inj [of j q i a k] c(2) k(2,4) False by auto
      then show ?thesis using c s by simp
    qed
    then show ?thesis using pool_client_write [OF p k(1) _ k(4)] k(2,3) l s Write by (simp add: fsa_rel_def)
  qed
qed

lemma fsa_run_ok:
  "fsa_rel q n m s \<Longrightarrow> well_used q n ops s \<Longrightarrow>
   \<exists>m'. fsa_run ops m = Some (m', snd (stock_run ops s)) \<and> fsa_rel q n m' (fst (stock_run ops s))"
proof (induction ops arbitrary: m s)
  case (Cons op ops)
  obtain m1 where "fsa_exec op m = Some (m1, snd (stock_exec op s))" "fsa_rel q n m1 (fst (stock_exec op s))"
    using fsa_exec_ok Cons.prems by fastforce
  then show ?case using Cons.IH [of m1 "fst (stock_exec op s)"] Cons.prems(2) by (auto simp: split_beta Let_def)
qed simp

section \<open>What the allocator promises\<close>

text \<open>C31. In a memory with room for at least one block, \<open>FSAInit\<close> makes an allocator of \<open>n\<close> disjoint blocks of \<open>q\<close> words, each with
  room for the size asked for. Then, whatever a client does that gives back and writes only blocks it holds: the
  free blocks are a stack that begins with all blocks in ascending order, so an allocation answers the block freed
  last or, when all freed ones have been handed out again, the lowest one never handed out, and NULL when there is
  none; the count is the number of free blocks; and what the client writes in a block stays there until it
  gives the block back.\<close>

theorem FSA_is_pool:
  assumes "0 < bs" and "bs < 2 ^ 63" and "24 + CALCULATE_BLOCK_SIZE bs \<le> memory_size" and "memory_size \<le> 8 * length m"
    and "length m < 2 ^ 61" and "q = CALCULATE_BLOCK_SIZE bs div 8" and "n = (memory_size - 24) div (8 * q)"
    and "well_used q n ops (List.map (blk q) [0..<n], \<lambda>_. None)"
  shows "\<exists>m0 m'. FSAInit m memory_size bs = Some (Some m0) \<and> bs \<le> 8 * q \<and> 0 < n
    \<and> (let ((fs, d), rs) = stock_run ops (List.map (blk q) [0..<n], \<lambda>_. None)
       in fsa_run ops m0 = Some (m', rs) \<and> FSACountFree m' = Some (length fs)
         \<and> (\<forall>b i v. d (b, i) = Some v \<longrightarrow> m' ! (b div 8 + i) = v))"
proof -
  have q: "CALCULATE_BLOCK_SIZE bs = 8 * q" "0 < q" "bs \<le> 8 * q"
    using CALCULATE_BLOCK_SIZE_spec [OF assms(1,2)] assms(6) by auto
  have n: "0 < n" using assms(3) q assms(7) by (simp add: div_greater_zero_iff)
  obtain m0 where m0: "FSAInit m memory_size bs = Some (Some m0)" "pool m0 q n (List.map (blk q) [0..<n])"
    using FSAInit_spec [OF assms(1,2) q(1) _ assms(4,5)] assms(3) q(1) unfolding assms(7) by auto
  let ?s = "(List.map (blk q) [0..<n], \<lambda>_. None) :: stock"
  have "fsa_rel q n m0 ?s" using m0(2) by (simp add: fsa_rel_def)
  then obtain m' where m': "fsa_run ops m0 = Some (m', snd (stock_run ops ?s))" "fsa_rel q n m' (fst (stock_run ops ?s))"
    using fsa_run_ok assms(8) by blast
  obtain fs d rs where r: "stock_run ops ?s = ((fs, d), rs)" by (metis surj_pair)
  have p: "pool m' q n fs" "\<forall>b i v. d (b, i) = Some v \<longrightarrow> m' ! (b div 8 + i) = v"
    using m'(2) unfolding r fsa_rel_def by auto
  have "FSACountFree m' = Some (length fs)" using p(1) by (auto simp: pool_def FSACountFree_def aget_eq_Some)
  then show ?thesis using m0(1) q(3) n m'(1) p(2) unfolding r Let_def by auto
qed

text \<open>Seven words hold the structure and two blocks of ten bytes, rounded up to sixteen: after both are handed
  out there is none, and the one given back is the next.\<close>

theorem FSA_is_pool_witness:
  "\<exists>m0 m'. FSAInit (replicate 7 0) 56 10 = Some (Some m0)
    \<and> fsa_run [Alloc, Alloc, Write 40 (Suc 0) 99, Alloc, Free 24, Alloc] m0 = Some (m', [Some 24, Some 40, None, None, None, Some 24])
    \<and> FSACountFree m' = Some 0 \<and> m' ! 6 = 99"
proof -
  let ?ops = "[Alloc, Alloc, Write 40 (Suc 0) 99, Alloc, Free 24, Alloc]"
  have c: "CALCULATE_BLOCK_SIZE 10 = 16" by (simp add: CALCULATE_BLOCK_SIZE_def SIZE_OF_WORD_def sz_def szsub_def)
  have s: "List.map (blk 2) [0..<2] = [24, 40]" by (simp add: blk_def upt_rec)
  have h: "(\<exists>k<2. 24 = blk 2 k)" "(\<exists>k<2. 40 = blk 2 k)"
    by (rule exI [of _ 0], simp add: blk_def) (rule exI [of _ 1], simp add: blk_def)
  have w: "well_used 2 2 ?ops ([24, 40], \<lambda>_. None)" using h by (simp add: held_def)
  let ?d = "(\<lambda>(c, i). if c = 24 then None else ((\<lambda>_. None)((40, Suc 0) \<mapsto> 99)) (c, i)) :: nat \<times> nat \<rightharpoonup> nat"
  have r: "stock_run ?ops ([24, 40], \<lambda>_. None) = (([], ?d), [Some 24, Some 40, None, None, None, Some 24])" by simp
  have "length (replicate 7 (0 :: nat)) = 7" by simp
  then obtain m0 m' where m: "FSAInit (replicate 7 0) 56 10 = Some (Some m0)"
    "fsa_run ?ops m0 = Some (m', [Some 24, Some 40, None, None, None, Some 24])" "FSACountFree m' = Some (length ([] :: nat list))"
    "\<forall>b i v. ?d (b, i) = Some v \<longrightarrow> m' ! (b div 8 + i) = v"
    using FSA_is_pool [of 10 56 "replicate 7 0" 2 2 ?ops, unfolded s c r Let_def prod.case] w by fastforce
  have "m' ! (40 div 8 + Suc 0) = 99" using m(4) [rule_format, of 40 "Suc 0" 99] by simp
  then show ?thesis using m(1-3) by auto
qed

end
