(* ===== verification/Vsa.thy ===== *)
theory Vsa
  imports Prelude
begin

text \<open>
  The variable size allocator of \<open>system_programming/vsa/vsa.c\<close> as it is compiled without
  \<open>NDEBUG\<close>. The managed memory is a sequence of blocks, each behind a header of 16 bytes that
  holds its size, negative when the block is in use; a header of size 0 ends the sequence. A
  header is found at its offset in bytes; reading a header where none was written is a fault.
  A \<open>size_t\<close> is a number below 2 ^ 64, a \<open>long\<close> an integer of 64 bits: the conversions between the two
  (\<open>to_long\<close>, \<open>to_size\<close>) are written where the code has them, explicitly or by a mixed
  expression, and arithmetic on \<open>long\<close> outside its range is a fault (\<open>int64\<close>).
\<close>

section \<open>Headers\<close>

record vsa_header =
  block_size :: int
  magic_num :: "int option"

type_synonym vsa = "nat \<Rightarrow> vsa_header option"

definition SIZE_OF_VSA_STRUCT :: nat where
  "SIZE_OF_VSA_STRUCT = 16"

definition SPECIAL_MAGIC_NUM :: int where
  "SPECIAL_MAGIC_NUM = 6897104101114"

definition END_OF_VSA :: int where
  "END_OF_VSA = 0"

definition to_long :: "nat \<Rightarrow> int" where
  "to_long n = (let m = n mod 2 ^ 64 in if m < 2 ^ 63 then int m else int m - 2 ^ 64)"

definition int64 :: "int \<Rightarrow> int option" where
  "int64 i = (if - (2 ^ 63) \<le> i \<and> i < 2 ^ 63 then Some i else None)"

lemma to_long_small: "n < 2 ^ 63 \<Longrightarrow> to_long n = int n"
  by (simp add: to_long_def)

lemma to_long_huge: "2 ^ 63 \<le> n \<Longrightarrow> n < 2 ^ 64 \<Longrightarrow> to_long n = int n - 2 ^ 64"
  by (simp add: to_long_def)

lemma int64_in: "- (2 ^ 63) \<le> i \<Longrightarrow> i < 2 ^ 63 \<Longrightarrow> int64 i = Some i"
  by (simp add: int64_def)

definition VsaSetBlockSize :: "vsa \<Rightarrow> nat \<Rightarrow> int \<Rightarrow> vsa" where
  "VsaSetBlockSize h allocator memory_size =
     h(allocator \<mapsto> \<lparr>block_size = memory_size, magic_num = Some SPECIAL_MAGIC_NUM\<rparr>)"

text \<open>An assignment to \<open>block_size\<close> alone leaves the magic number of the place, if it had one.\<close>

definition set_block_size :: "vsa \<Rightarrow> nat \<Rightarrow> int \<Rightarrow> vsa" where
  "set_block_size h a s =
     h(a \<mapsto> (case h a of None \<Rightarrow> \<lparr>block_size = s, magic_num = None\<rparr> | Some x \<Rightarrow> x\<lparr>block_size := s\<rparr>))"

definition CheckMagicNum :: "vsa \<Rightarrow> nat \<Rightarrow> bool option" where
  "CheckMagicNum h allocator = do {
     x \<leftarrow> h allocator;
     m \<leftarrow> magic_num x;
     Some (m = SPECIAL_MAGIC_NUM)
   }"

definition GetNextBlock :: "vsa \<Rightarrow> nat \<Rightarrow> nat option" where
  "GetNextBlock h allocator = do {
     x \<leftarrow> h allocator;
     s \<leftarrow> int64 \<bar>block_size x\<bar>;
     Some (allocator + nat s + SIZE_OF_VSA_STRUCT)
   }"

definition MergeFreeBlocks :: "nat \<Rightarrow> nat \<Rightarrow> nat" where
  "MergeFreeBlocks first_memory_size second_memory_size =
     (first_memory_size + second_memory_size + SIZE_OF_VSA_STRUCT) mod 2 ^ 64"

text \<open>Its callers pass and store the \<open>long\<close> of a header.\<close>

abbreviation merged_size :: "vsa_header \<Rightarrow> vsa_header \<Rightarrow> int" where
  "merged_size x y \<equiv> to_long (MergeFreeBlocks (to_size (block_size x)) (to_size (block_size y)))"

lemma merged_sum:
  "s + t + 16 < 2 ^ 63 \<Longrightarrow> to_long (MergeFreeBlocks (to_size (int s)) (to_size (int t))) = int (s + t + 16)"
  by (simp add: to_size_int MergeFreeBlocks_def SIZE_OF_VSA_STRUCT_def to_long_small)

section \<open>Operations\<close>

definition VSAInit :: "vsa \<Rightarrow> nat \<Rightarrow> vsa option option" where
  "VSAInit h memory_size =
     (if memory_size < 2 * SIZE_OF_VSA_STRUCT then Some None
      else do {
        let h = VsaSetBlockSize h 0 (to_long (memory_size - 2 * SIZE_OF_VSA_STRUCT));
        e \<leftarrow> GetNextBlock h 0;
        Some (Some (VsaSetBlockSize h e END_OF_VSA))
      })"

text \<open>When a free block is too small and the next one is not free, the runner is moved by the
  size of the block without its header.\<close>

partial_function (option) FindEnoughBLockSize :: "vsa \<Rightarrow> nat \<Rightarrow> nat \<Rightarrow> (vsa \<times> nat) option" where
  "FindEnoughBLockSize h runner size_in_bytes = do {
     x \<leftarrow> h runner;
     if to_long size_in_bytes > block_size x \<and> END_OF_VSA \<noteq> block_size x then
       (if block_size x < 0 then do {
          next_block \<leftarrow> GetNextBlock h runner;
          FindEnoughBLockSize h next_block size_in_bytes
        } else do {
          next_block \<leftarrow> GetNextBlock h runner;
          y \<leftarrow> h next_block;
          if block_size y > 0
          then FindEnoughBLockSize (set_block_size h runner (merged_size x y)) runner size_in_bytes
          else FindEnoughBLockSize h (runner + nat (block_size x)) size_in_bytes
        })
     else Some (h, runner)
   }"

text \<open>The size is a \<open>long\<close> here, which may be negative. The size of the remaining block is computed as a
  \<open>size_t\<close> and stored as a \<open>long\<close>.\<close>

definition AllocateBlock :: "vsa \<Rightarrow> nat \<Rightarrow> int \<Rightarrow> (vsa \<times> nat) option" where
  "AllocateBlock h runner size_in_bytes = do {
     x \<leftarrow> h runner;
     needed \<leftarrow> int64 (size_in_bytes + int SIZE_OF_VSA_STRUCT);
     h \<leftarrow> (if needed \<ge> block_size x then do {
             s \<leftarrow> int64 (- block_size x);
             Some (VsaSetBlockSize h runner s)
           } else do {
             c_assert (0 \<le> int runner + size_in_bytes);
             let next_block = nat (int runner + size_in_bytes) + SIZE_OF_VSA_STRUCT;
             d \<leftarrow> int64 (block_size x - size_in_bytes);
             s \<leftarrow> int64 (- size_in_bytes);
             Some (set_block_size (set_block_size h next_block (to_long (szsub (to_size d) SIZE_OF_VSA_STRUCT))) runner s)
           });
     Some (h, runner + SIZE_OF_VSA_STRUCT)
   }"

definition VSAAlloc :: "vsa \<Rightarrow> nat \<Rightarrow> nat \<Rightarrow> (vsa \<times> nat option) option" where
  "VSAAlloc h allocator size_in_bytes = do {
     ok \<leftarrow> CheckMagicNum h allocator;
     c_assert ok;
     (h, runner) \<leftarrow> FindEnoughBLockSize h allocator size_in_bytes;
     x \<leftarrow> h runner;
     if END_OF_VSA = block_size x then Some (h, None)
     else do {
       (h, p) \<leftarrow> AllocateBlock h runner (to_long size_in_bytes);
       Some (h, Some p)
     }
   }"

definition VSAFree :: "vsa \<Rightarrow> nat \<Rightarrow> vsa option" where
  "VSAFree h block = do {
     c_assert (SIZE_OF_VSA_STRUCT \<le> block);
     let block_to_free = block - SIZE_OF_VSA_STRUCT;
     x \<leftarrow> h block_to_free;
     s \<leftarrow> int64 \<bar>block_size x\<bar>;
     Some (set_block_size h block_to_free s)
   }"

partial_function (option) join_loop :: "vsa \<Rightarrow> nat \<Rightarrow> nat \<Rightarrow> (vsa \<times> nat) option" where
  "join_loop h runner next_block = do {
     x \<leftarrow> h runner;
     if 0 < block_size x then do {
       y \<leftarrow> h next_block;
       if 0 < block_size y then do {
         let h = VsaSetBlockSize h runner (merged_size x y);
         next_block \<leftarrow> GetNextBlock h runner;
         join_loop h runner next_block
       } else Some (h, next_block)
     } else Some (h, next_block)
   }"

partial_function (option) largest_loop :: "vsa \<Rightarrow> nat \<Rightarrow> int \<Rightarrow> (vsa \<times> int) option" where
  "largest_loop h runner mx = do {
     x \<leftarrow> h runner;
     if 0 \<noteq> block_size x then do {
       next_block \<leftarrow> GetNextBlock h runner;
       (h, next_block) \<leftarrow> join_loop h runner next_block;
       x \<leftarrow> h runner;
       largest_loop h next_block (if mx < block_size x then block_size x else mx)
     } else Some (h, mx)
   }"

definition VSALargestChunkAvailable :: "vsa \<Rightarrow> nat \<Rightarrow> (vsa \<times> int) option" where
  "VSALargestChunkAvailable h allocator = do {
     ok \<leftarrow> CheckMagicNum h allocator;
     c_assert ok;
     largest_loop h allocator 0
   }"

section \<open>The sequence of blocks\<close>

text \<open>A block is its size and whether it is in use.\<close>

type_synonym vblock = "nat \<times> bool"

fun layout :: "vsa \<Rightarrow> nat \<Rightarrow> vblock list \<Rightarrow> bool" where
  "layout h a [] = (\<exists>x. h a = Some x \<and> block_size x = 0)"
| "layout h a ((s, u) # bs) =
     (0 < s \<and> (\<exists>x. h a = Some x \<and> block_size x = (if u then - int s else int s)) \<and> layout h (a + s + 16) bs)"

fun extent :: "vblock list \<Rightarrow> nat" where
  "extent [] = 0"
| "extent ((s, u) # bs) = s + 16 + extent bs"

fun used_blocks :: "nat \<Rightarrow> vblock list \<Rightarrow> (nat \<times> nat) list" where
  "used_blocks a [] = []"
| "used_blocks a ((s, u) # bs) = (if u then [(a + 16, s)] else []) @ used_blocks (a + s + 16) bs"

fun coalesce :: "vblock list \<Rightarrow> vblock list" where
  "coalesce ((s, False) # (t, False) # bs) = coalesce ((s + t + 16, False) # bs)"
| "coalesce (b # bs) = b # coalesce bs"
| "coalesce [] = []"

fun largest :: "vblock list \<Rightarrow> nat" where
  "largest [] = 0"
| "largest ((s, u) # bs) = (if u then largest bs else max s (largest bs))"

fun alloc_in :: "nat \<Rightarrow> nat \<Rightarrow> vblock list \<Rightarrow> (vblock list \<times> nat option) option" where
  "alloc_in n a [] = Some ([], None)"
| "alloc_in n a ((s, True) # bs) = map_option (\<lambda>(bs', r). ((s, True) # bs', r)) (alloc_in n (a + s + 16) bs)"
| "alloc_in n a ((s, False) # bs) =
     (if n \<le> s then Some (if s \<le> n + 16 then (s, True) # bs else (n, True) # (s - n - 16, False) # bs, Some (a + 16))
      else (case bs of (t, False) # bs' \<Rightarrow> alloc_in n a ((s + t + 16, False) # bs') | _ \<Rightarrow> None))"

fun free_in :: "nat \<Rightarrow> nat \<Rightarrow> vblock list \<Rightarrow> vblock list" where
  "free_in a p [] = []"
| "free_in a p ((s, u) # bs) = (if p = a + 16 then (s, False) # bs else (s, u) # free_in (a + s + 16) p bs)"

lemma layout_frame: "(\<forall>x \<ge> a. h' x = h x) \<Longrightarrow> layout h' a bs = layout h a bs"
  by (induction bs arbitrary: a) auto

lemma layout_upd: "b < a \<Longrightarrow> layout (h(b \<mapsto> v)) a bs = layout h a bs"
  by (rule layout_frame) simp

lemma layout_head: "layout h a bs \<Longrightarrow> \<exists>x. h a = Some x"
  by (cases bs) auto

lemma GetNextBlock_layout: "layout h a ((s, u) # bs) \<Longrightarrow> s < 2 ^ 63 \<Longrightarrow> GetNextBlock h a = Some (a + s + 16)"
  by (auto simp: GetNextBlock_def SIZE_OF_VSA_STRUCT_def int64_def)

lemma extent_coalesce: "extent (coalesce bs) = extent bs"
  by (induction bs rule: coalesce.induct) auto

lemma extent_free_in: "extent (free_in a p bs) = extent bs"
  by (induction bs arbitrary: a) auto

lemma extent_alloc_in: "alloc_in n a bs = Some (bs', r) \<Longrightarrow> extent bs' = extent bs"
  by (induction n a bs arbitrary: bs' r rule: alloc_in.induct) (auto split: if_splits list.splits bool.splits)

lemma used_blocks_coalesce: "used_blocks a (coalesce bs) = used_blocks a bs"
proof (induction bs arbitrary: a rule: coalesce.induct)
  case (1 s t bs)
  have "a + s + 16 + t + 16 = a + (s + t + 16) + 16" by simp
  then show ?case using 1 [of a] by (simp only: coalesce.simps used_blocks.simps if_False append_Nil)
qed (simp_all only: coalesce.simps used_blocks.simps split_paired_all)

definition ok_magic :: "vsa \<Rightarrow> nat \<Rightarrow> bool" where
  "ok_magic h a \<longleftrightarrow> (\<exists>x. h a = Some x \<and> magic_num x = Some SPECIAL_MAGIC_NUM)"

lemma ok_magic_set: "ok_magic (VsaSetBlockSize h a s) a"
  by (simp add: ok_magic_def VsaSetBlockSize_def)

lemma ok_magic_set_size: "ok_magic h a \<Longrightarrow> ok_magic (set_block_size h b s) a"
  by (auto simp: ok_magic_def set_block_size_def)

lemma ok_magic_frame: "h' a = h a \<Longrightarrow> ok_magic h' a = ok_magic h a"
  by (simp add: ok_magic_def)

definition wf_vsa :: "vsa \<Rightarrow> vblock list \<Rightarrow> bool" where
  "wf_vsa h bs \<longleftrightarrow> layout h 0 bs \<and> ok_magic h 0 \<and> extent bs < 2 ^ 63"

lemma CheckMagicNum_ok: "ok_magic h a \<Longrightarrow> CheckMagicNum h a = Some True"
  by (auto simp: ok_magic_def CheckMagicNum_def)

section \<open>Initialisation\<close>

lemma VSAInit_spec:
  "32 < memory_size \<Longrightarrow> memory_size < 2 ^ 63 \<Longrightarrow> \<exists>h'. VSAInit h memory_size = Some (Some h') \<and> wf_vsa h' [(memory_size - 32, False)]"
  by (auto simp: VSAInit_def SIZE_OF_VSA_STRUCT_def GetNextBlock_def VsaSetBlockSize_def wf_vsa_def ok_magic_def END_OF_VSA_def to_long_small int64_def)

section \<open>The largest chunk\<close>

lemma join_loop_spec:
  "layout h a ((s, u) # bs) \<Longrightarrow> extent ((s, u) # bs) < 2 ^ 63 \<Longrightarrow> \<exists>h' t rest. join_loop h a (a + s + 16) = Some (h', a + t + 16)
     \<and> layout h' a ((t, u) # rest) \<and> coalesce ((s, u) # bs) = (t, u) # coalesce rest
     \<and> (\<forall>x < a. h' x = h x) \<and> (ok_magic h a \<longrightarrow> ok_magic h' a) \<and> length rest \<le> length bs"
proof (induction bs arbitrary: h s)
  case Nil
  then have "join_loop h a (a + s + 16) = Some (h, a + s + 16)"
    by (subst join_loop.simps) auto
  moreover have "coalesce ((s, u) # []) = (s, u) # coalesce []" by (cases u) simp_all
  ultimately show ?case using Nil by (intro exI [of _ h] exI [of _ s] exI [of _ "[]"]) simp
next
  case (Cons b bs)
  obtain t v where b: "b = (t, v)" by (cases b)
  obtain x y where x: "h a = Some x" "block_size x = (if u then - int s else int s)"
    "h (a + s + 16) = Some y" "block_size y = (if v then - int t else int t)" "0 < s" "0 < t"
    "layout h (a + s + 16 + t + 16) bs"
    using Cons.prems by (auto simp: b)
  show ?case
  proof (cases "u \<or> v")
    case True
    then have "join_loop h a (a + s + 16) = Some (h, a + s + 16)"
      using x by (subst join_loop.simps) auto
    moreover have "coalesce ((s, u) # b # bs) = (s, u) # coalesce (b # bs)" using True by (cases u; cases v; simp add: b)
    ultimately show ?thesis using Cons.prems by (intro exI [of _ h] exI [of _ s] exI [of _ "b # bs"]) simp
  next
    case False
    then have uv: "u = False" "v = False" by auto
    let ?h = "VsaSetBlockSize h a (int (s + t + 16))"
    have e: "a + s + 16 + t + 16 = a + (s + t + 16) + 16" by simp
    have "layout ?h (a + (s + t + 16) + 16) bs"
      unfolding VsaSetBlockSize_def using x(7) [unfolded e] by (subst layout_upd) simp_all
    then have g: "layout ?h a ((s + t + 16, False) # bs)" by (simp add: VsaSetBlockSize_def)
    have s: "s + t + 16 < 2 ^ 63" "extent ((s + t + 16, False) # bs) < 2 ^ 63" using Cons.prems(2) by (simp_all add: b)
    have st: "join_loop h a (a + s + 16) = join_loop ?h a (a + (s + t + 16) + 16)"
      using x uv GetNextBlock_layout [OF g s(1)]
      by (subst join_loop.simps) (simp add: merged_sum [OF s(1)] Let_def)
    obtain h' t' rest where h': "join_loop ?h a (a + (s + t + 16) + 16) = Some (h', a + t' + 16)"
      "layout h' a ((t', False) # rest)" "coalesce ((s + t + 16, False) # bs) = (t', False) # coalesce rest"
      "\<forall>x < a. h' x = ?h x" "ok_magic ?h a \<longrightarrow> ok_magic h' a" "length rest \<le> length bs"
      using Cons.IH [of ?h "s + t + 16"] g uv s(2) by blast
    have "\<forall>x < a. h' x = h x" using h'(4) by (simp add: VsaSetBlockSize_def)
    moreover have "ok_magic h' a" using h'(5) ok_magic_set by blast
    moreover have "coalesce ((s, u) # b # bs) = (t', u) # coalesce rest" using h'(3) by (simp add: uv b)
    ultimately show ?thesis unfolding st using h'(1,2,6) uv
      by (intro exI [of _ h'] exI [of _ t'] exI [of _ rest]) simp
  qed
qed

lemma coalesce_used: "coalesce ((s, True) # bs) = (s, True) # coalesce bs"
  by simp

lemma largest_loop_spec:
  "layout h a bs \<Longrightarrow> extent bs < 2 ^ 63 \<Longrightarrow> 0 \<le> mx \<Longrightarrow> \<exists>h'. largest_loop h a mx = Some (h', max mx (int (largest (coalesce bs))))
     \<and> layout h' a (coalesce bs) \<and> (\<forall>x < a. h' x = h x) \<and> (ok_magic h a \<longrightarrow> ok_magic h' a)"
proof (induction "length bs" arbitrary: h a bs mx rule: less_induct)
  case less
  show ?case
  proof (cases bs)
    case Nil
    then show ?thesis using less.prems by (subst largest_loop.simps) auto
  next
    case (Cons b bs')
    obtain s u where b: "b = (s, u)" by (cases b)
    have l: "layout h a ((s, u) # bs')" using less.prems Cons b by simp
    obtain h1 t rest where m: "join_loop h a (a + s + 16) = Some (h1, a + t + 16)"
      "layout h1 a ((t, u) # rest)" "coalesce ((s, u) # bs') = (t, u) # coalesce rest" "\<forall>x < a. h1 x = h x"
      "ok_magic h a \<longrightarrow> ok_magic h1 a" "length rest \<le> length bs'"
      using join_loop_spec [OF l] less.prems(2) by (auto simp: Cons b)
    have e: "s < 2 ^ 63" "extent rest < 2 ^ 63"
      using less.prems(2) arg_cong [OF m(3), of extent] by (simp_all add: Cons b extent_coalesce)
    obtain x where x: "h1 a = Some x" "block_size x = (if u then - int t else int t)" "0 < t" using m(2) by auto
    define mx' where "mx' = (if mx < block_size x then block_size x else mx)"
    have mx': "0 \<le> mx'" "mx' = max mx (if u then 0 else int t)" using x(2,3) less.prems(3) by (auto simp: mx'_def)
    obtain h2 where r: "largest_loop h1 (a + t + 16) mx' = Some (h2, max mx' (int (largest (coalesce rest))))"
      "layout h2 (a + t + 16) (coalesce rest)" "\<forall>x < a + t + 16. h2 x = h1 x"
      using less.hyps [of rest h1 "a + t + 16" mx'] m(2,6) Cons mx'(1) e(2) by auto
    have "largest_loop h a mx = largest_loop h1 (a + t + 16) mx'"
      using l GetNextBlock_layout [OF l e(1)] m(1) x(1) by (subst largest_loop.simps) (auto simp: mx'_def)
    moreover have "max mx' (int (largest (coalesce rest))) = max mx (int (largest (coalesce bs)))"
      unfolding Cons b m(3) mx'(2) using less.prems(3) by (auto simp: max_def)
    moreover have "layout h2 a (coalesce bs)"
      unfolding Cons b m(3) using r(2,3) x by simp
    moreover have "\<forall>x < a. h2 x = h x" using r(3) m(4) by simp
    moreover have "ok_magic h a \<longrightarrow> ok_magic h2 a" using m(5) r(3) ok_magic_frame [of h2 a h1] by simp
    ultimately show ?thesis using r(1) by auto
  qed
qed

section \<open>Allocation and release\<close>

lemma layout_set: "b < a \<Longrightarrow> layout (set_block_size h b v) a bs = layout h a bs"
  by (rule layout_frame) (simp add: set_block_size_def)

lemma block_size_set: "\<exists>x. set_block_size h a v a = Some x \<and> block_size x = v"
  by (simp add: set_block_size_def split: option.splits)

lemma set_block_size_other: "x \<noteq> a \<Longrightarrow> set_block_size h a v x = h x"
  by (simp add: set_block_size_def)

definition alloc_tail :: "vsa \<Rightarrow> nat \<Rightarrow> nat \<Rightarrow> (vsa \<times> nat option) option" where
  "alloc_tail h runner size_in_bytes = do {
     (h, runner) \<leftarrow> FindEnoughBLockSize h runner size_in_bytes;
     x \<leftarrow> h runner;
     if END_OF_VSA = block_size x then Some (h, None)
     else do {
       (h, p) \<leftarrow> AllocateBlock h runner (to_long size_in_bytes);
       Some (h, Some p)
     }
   }"

lemma alloc_found:
  assumes l: "layout h a ((s, False) # bs)" and n: "0 < n" "n \<le> s" and e: "s + 16 < 2 ^ 63"
  shows "\<exists>h'. alloc_tail h a n = Some (h', Some (a + 16))
    \<and> layout h' a (if s \<le> n + 16 then (s, True) # bs else (n, True) # (s - n - 16, False) # bs)
    \<and> (\<forall>x < a. h' x = h x) \<and> (ok_magic h a \<longrightarrow> ok_magic h' a)"
proof -
  obtain x where x: "h a = Some x" "block_size x = int s" "0 < s" "layout h (a + s + 16) bs" using l by auto
  have ln: "to_long n = int n" using to_long_small n e by simp
  have find: "FindEnoughBLockSize h a n = Some (h, a)" using x n ln by (subst FindEnoughBLockSize.simps) simp
  show ?thesis
  proof (cases "s \<le> n + 16")
    case True
    let ?h = "VsaSetBlockSize h a (- int s)"
    have "alloc_tail h a n = Some (?h, Some (a + 16))"
      using find x True n e ln by (simp add: alloc_tail_def AllocateBlock_def END_OF_VSA_def SIZE_OF_VSA_STRUCT_def Let_def int64_def)
    moreover have "layout ?h (a + s + 16) bs" unfolding VsaSetBlockSize_def using x(4) by (subst layout_upd) simp_all
    ultimately show ?thesis using True x(3) ok_magic_set [of h a] by (auto simp: VsaSetBlockSize_def)
  next
    case False
    let ?h1 = "set_block_size h (a + n + 16) (int s - int n - 16)"
    have "to_size (int s - int n) = s - n" using to_size_int [of "s - n"] n e by (simp add: of_nat_diff)
    then have rem: "to_long (szsub (to_size (int s - int n)) 16) = int s - int n - 16"
      using False e by (simp add: szsub_ge to_long_small)
    let ?h = "set_block_size ?h1 a (- int n)"
    have "alloc_tail h a n = Some (?h, Some (a + 16))"
      using find x False n e ln rem
      by (simp add: alloc_tail_def AllocateBlock_def END_OF_VSA_def SIZE_OF_VSA_STRUCT_def Let_def int64_def nat_int_add)
    moreover have "layout ?h a ((n, True) # (s - n - 16, False) # bs)"
    proof -
      have "layout ?h (a + n + 16 + (s - n - 16) + 16) bs"
        using x(4) False by (simp add: layout_set)
      moreover have "\<exists>y. ?h (a + n + 16) = Some y \<and> block_size y = int (s - n - 16)"
        using block_size_set [of h "a + n + 16" "int s - int n - 16"] False
        by (simp add: set_block_size_other diff_diff_eq)
      ultimately show ?thesis using n(1) False block_size_set [of ?h1 a "- int n"] by simp
    qed
    moreover have "\<forall>x < a. ?h x = h x" by (simp add: set_block_size_other)
    ultimately show ?thesis using False ok_magic_set_size by auto
  qed
qed

lemma alloc_in_grow:
  "\<not> n \<le> s \<Longrightarrow> alloc_in n a ((s, False) # bs) = Some z \<Longrightarrow>
   \<exists>t cs. bs = (t, False) # cs \<and> alloc_in n a ((s + t + 16, False) # cs) = Some z"
  by (subst (asm) alloc_in.simps(3)) (auto simp del: alloc_in.simps split: list.splits bool.splits)

lemma alloc_tail_spec:
  "\<lbrakk>layout h a bs; 0 < n; alloc_in n a bs = Some (bs', r); n < 2 ^ 63; extent bs < 2 ^ 63\<rbrakk> \<Longrightarrow>
   \<exists>h'. alloc_tail h a n = Some (h', r) \<and> layout h' a bs' \<and> (\<forall>x < a. h' x = h x) \<and> (ok_magic h a \<longrightarrow> ok_magic h' a)"
proof (induction n a bs arbitrary: h bs' r rule: alloc_in.induct)
  case (1 n a)
  then have "FindEnoughBLockSize h a n = Some (h, a)" by (subst FindEnoughBLockSize.simps) (auto simp: END_OF_VSA_def)
  then show ?case using 1 by (auto simp: alloc_tail_def END_OF_VSA_def)
next
  case (2 n a s bs)
  obtain x where x: "h a = Some x" "block_size x = - int s" "0 < s" "layout h (a + s + 16) bs" using 2(2) by auto
  obtain cs where cs: "alloc_in n (a + s + 16) bs = Some (cs, r)" "bs' = (s, True) # cs" using 2(4) by auto
  have "FindEnoughBLockSize h a n = FindEnoughBLockSize h (a + s + 16) n"
    using x 2(3,5,6) GetNextBlock_layout [OF 2(2)] to_long_small [of n]
    by (subst FindEnoughBLockSize.simps) (simp add: END_OF_VSA_def)
  then have st: "alloc_tail h a n = alloc_tail h (a + s + 16) n" by (simp add: alloc_tail_def)
  obtain h' where h': "alloc_tail h (a + s + 16) n = Some (h', r)" "layout h' (a + s + 16) cs" "\<forall>x < a + s + 16. h' x = h x"
    using 2(1) [OF x(4) 2(3) cs(1) 2(5)] 2(6) by auto
  have a: "h' a = h a" using h'(3) by simp
  have "layout h' a ((s, True) # cs)" using h'(2) x(1-3) by (simp add: a)
  moreover have "\<forall>x < a. h' x = h x" using h'(3) by simp
  ultimately show ?case unfolding st cs(2) using h'(1) ok_magic_frame [of h' a h, OF a] by blast
next
  case (3 n a s bs)
  show ?case
  proof (cases "n \<le> s")
    case True
    then show ?thesis using alloc_found [OF 3(2,3) True] 3(4,6) by auto
  next
    case False
    then obtain t cs where bs: "bs = (t, False) # cs" "alloc_in n a ((s + t + 16, False) # cs) = Some (bs', r)"
      using alloc_in_grow [OF False 3(4)] by blast
    obtain x y where x: "h a = Some x" "block_size x = int s" "0 < s" "h (a + s + 16) = Some y" "block_size y = int t" "0 < t"
      "layout h (a + s + 16 + t + 16) cs" using 3(2) bs(1) by auto
    let ?h = "set_block_size h a (int (s + t + 16))"
    have e: "a + s + 16 + t + 16 = a + (s + t + 16) + 16" by simp
    have "layout ?h (a + (s + t + 16) + 16) cs" using x(7) [unfolded e] by (simp add: layout_set)
    then have l: "layout ?h a ((s + t + 16, False) # cs)" using block_size_set [of h a "int (s + t + 16)"] by simp
    have s: "s < 2 ^ 63" "s + t + 16 < 2 ^ 63" "extent ((s + t + 16, False) # cs) < 2 ^ 63" using 3(6) by (simp_all add: bs(1))
    have "FindEnoughBLockSize h a n = FindEnoughBLockSize ?h a n"
      using x False GetNextBlock_layout [OF 3(2) s(1)] to_long_small [OF 3(5)] merged_sum [OF s(2)]
      by (subst FindEnoughBLockSize.simps) (simp add: END_OF_VSA_def)
    then have st: "alloc_tail h a n = alloc_tail ?h a n" by (simp add: alloc_tail_def)
    obtain h' where h': "alloc_tail ?h a n = Some (h', r)" "layout h' a bs'" "\<forall>x < a. h' x = ?h x" "ok_magic ?h a \<longrightarrow> ok_magic h' a"
      using 3(1) [OF False bs(1) refl refl l 3(3) bs(2) 3(5) s(3)] by blast
    have "\<forall>x < a. h' x = h x" using h'(3) by (simp add: set_block_size_other)
    then show ?thesis unfolding st using h' ok_magic_set_size by blast
  qed
qed

lemma VSAFree_spec:
  "\<lbrakk>layout h a bs; (p, s) \<in> set (used_blocks a bs); extent bs < 2 ^ 63\<rbrakk> \<Longrightarrow>
   \<exists>h'. VSAFree h p = Some h' \<and> layout h' a (free_in a p bs) \<and> (\<forall>x. x \<noteq> p - 16 \<longrightarrow> h' x = h x)
     \<and> (ok_magic h b \<longrightarrow> ok_magic h' b) \<and> a + 16 \<le> p"
proof (induction bs arbitrary: a)
  case Nil
  then show ?case by simp
next
  case (Cons c bs)
  obtain t u where c: "c = (t, u)" by (cases c)
  obtain x where x: "h a = Some x" "block_size x = (if u then - int t else int t)" "0 < t" "layout h (a + t + 16) bs"
    using Cons.prems(1) by (auto simp: c)
  show ?case
  proof (cases "p = a + 16")
    case True
    let ?h = "set_block_size h a (int t)"
    have "VSAFree h p = Some ?h" using True x Cons.prems(3) by (simp add: VSAFree_def SIZE_OF_VSA_STRUCT_def int64_def c)
    moreover have "layout ?h a ((t, False) # bs)" using x block_size_set [of h a "int t"] by (simp add: layout_set)
    ultimately show ?thesis using True ok_magic_set_size by (intro exI [of _ ?h]) (simp add: c set_block_size_other)
  next
    case False
    then have "(p, s) \<in> set (used_blocks (a + t + 16) bs)" using Cons.prems(2) by (auto simp: c split: if_splits)
    then obtain h' where h': "VSAFree h p = Some h'" "layout h' (a + t + 16) (free_in (a + t + 16) p bs)"
      "\<forall>x. x \<noteq> p - 16 \<longrightarrow> h' x = h x" "ok_magic h b \<longrightarrow> ok_magic h' b" "a + t + 16 + 16 \<le> p"
      using Cons.IH [OF x(4)] Cons.prems(3) by (auto simp: c)
    then have "h' a = h a" by auto
    then show ?thesis using h' x False by (intro exI [of _ h']) (simp add: c)
  qed
qed

lemma used_ge: "(p, s) \<in> set (used_blocks a bs) \<Longrightarrow> a + 16 \<le> p"
  by (induction bs arbitrary: a) (fastforce split: if_splits)+

lemma used_free_in:
  "(p, s) \<in> set (used_blocks a bs) \<Longrightarrow> set (used_blocks a (free_in a p bs)) = set (used_blocks a bs) - {(p, s)}"
proof (induction bs arbitrary: a)
  case (Cons c bs)
  obtain t u where c: "c = (t, u)" by (cases c)
  show ?case
  proof (cases "p = a + 16")
    case True
    then have "(p, x) \<notin> set (used_blocks (a + t + 16) bs)" for x using used_ge [of p x "a + t + 16" bs] by auto
    then show ?thesis using True Cons.prems by (auto simp: c split: if_splits)
  next
    case False
    then show ?thesis using Cons.IH [of "a + t + 16"] Cons.prems by (auto simp: c split: if_splits)
  qed
qed simp

text \<open>The block handed out: new, and of the size asked for at least.\<close>

lemma alloc_in_used:
  "alloc_in n a bs = Some (bs', Some p) \<Longrightarrow>
   \<exists>s \<ge> n. set (used_blocks a bs') = insert (p, s) (set (used_blocks a bs)) \<and> (\<forall>x. (p, x) \<notin> set (used_blocks a bs))"
proof (induction n a bs arbitrary: bs' rule: alloc_in.induct)
  case (2 n a s bs)
  then obtain cs where cs: "alloc_in n (a + s + 16) bs = Some (cs, Some p)" "bs' = (s, True) # cs" by auto
  obtain t where t: "t \<ge> n" "set (used_blocks (a + s + 16) cs) = insert (p, t) (set (used_blocks (a + s + 16) bs))"
    "\<forall>x. (p, x) \<notin> set (used_blocks (a + s + 16) bs)" using 2(1) [OF cs(1)] by blast
  have "a + s + 16 + 16 \<le> p" using used_ge [of p t "a + s + 16" cs] t(2) by simp
  then show ?case using t by (auto simp: cs(2))
next
  case (3 n a s bs)
  show ?case
  proof (cases "n \<le> s")
    case True
    have no: "(a + 16, x) \<notin> set (used_blocks (a + s + 16) bs)" for x
      using used_ge [of "a + 16" x "a + s + 16" bs] by auto
    have p: "p = a + 16" using True 3(2) by simp
    show ?thesis
    proof (cases "s \<le> n + 16")
      case le: True
      then have "bs' = (s, True) # bs" using True 3(2) by simp
      then show ?thesis using True p no by (intro exI [of _ s]) simp
    next
      case False
      then have b: "bs' = (n, True) # (s - n - 16, False) # bs" using True 3(2) by simp
      have "a + n + 16 + (s - n - 16) + 16 = a + s + 16" using False by simp
      then have "set (used_blocks a bs') = insert (p, n) (set (used_blocks a ((s, False) # bs)))"
        unfolding b p used_blocks.simps by (simp only: if_True if_False append_Nil append_Cons list.set)
      moreover have "(p, x) \<notin> set (used_blocks a ((s, False) # bs))" for x using no p by simp
      ultimately show ?thesis by blast
    qed
  next
    case False
    then obtain t cs where bs: "bs = (t, False) # cs" "alloc_in n a ((s + t + 16, False) # cs) = Some (bs', Some p)"
      using alloc_in_grow [OF False 3(2)] by blast
    have "a + s + 16 + t + 16 = a + (s + t + 16) + 16" by simp
    then have "used_blocks a ((s + t + 16, False) # cs) = used_blocks a ((s, False) # bs)"
      by (simp only: bs(1) used_blocks.simps if_False append_Nil)
    then show ?thesis using 3(1) [OF False bs(1) refl refl bs(2)] by simp
  qed
qed simp

text \<open>Blocks in use do not overlap.\<close>

lemma used_apart:
  "\<lbrakk>(p, s) \<in> set (used_blocks a bs); (q, t) \<in> set (used_blocks a bs); p < q\<rbrakk> \<Longrightarrow> p + s + 16 \<le> q"
proof (induction bs arbitrary: a)
  case (Cons c bs)
  obtain r u where c: "c = (r, u)" by (cases c)
  show ?case
  proof (cases "p = a + 16 \<and> s = r \<and> u")
    case True
    then have "(q, t) \<in> set (used_blocks (a + r + 16) bs)" using Cons.prems by (auto simp: c split: if_splits)
    then show ?thesis using used_ge [of q t "a + r + 16" bs] True by simp
  next
    case False
    then have p: "(p, s) \<in> set (used_blocks (a + r + 16) bs)" using Cons.prems by (auto simp: c split: if_splits)
    then have "q \<noteq> a + 16" using used_ge [of p s "a + r + 16" bs] Cons.prems(3) by auto
    then have "(q, t) \<in> set (used_blocks (a + r + 16) bs)" using Cons.prems(2) by (auto simp: c split: if_splits)
    then show ?thesis using Cons.IH p Cons.prems(3) by blast
  qed
qed simp

section \<open>What the allocator promises\<close>

text \<open>C32. The allocator implements its sequence of blocks, of less than 2 ^ 63 bytes altogether. For a
  request of at least one byte and fewer than 2 ^ 63, when the search of the code stays on headers (where \<open>alloc_in\<close>
  is defined: it is not when a free block is too small and the block behind it is in use or is the end), \<open>VSAAlloc\<close> returns a
  new block of the size asked for at least, or NULL when only blocks in use were found; \<open>VSAFree\<close> of a block in use frees it and no other; and
  \<open>VSALargestChunkAvailable\<close> joins neighbouring free blocks, keeps those in use where they are, and
  returns the size of the largest free one.\<close>

theorem VSA_refines_blocks:
  assumes "wf_vsa h bs"
  shows "(\<forall>n bs' r. 0 < n \<and> n < 2 ^ 63 \<and> alloc_in n 0 bs = Some (bs', r) \<longrightarrow>
        (\<exists>h'. VSAAlloc h 0 n = Some (h', r) \<and> wf_vsa h' bs'
          \<and> (\<forall>p. r = Some p \<longrightarrow> (\<exists>s \<ge> n. set (used_blocks 0 bs') = insert (p, s) (set (used_blocks 0 bs))
                                   \<and> (\<forall>x. (p, x) \<notin> set (used_blocks 0 bs))))))
    \<and> (\<forall>p s. (p, s) \<in> set (used_blocks 0 bs) \<longrightarrow>
        (\<exists>h' bs'. VSAFree h p = Some h' \<and> wf_vsa h' bs' \<and> set (used_blocks 0 bs') = set (used_blocks 0 bs) - {(p, s)}))
    \<and> (\<exists>h'. VSALargestChunkAvailable h 0 = Some (h', int (largest (coalesce bs))) \<and> wf_vsa h' (coalesce bs)
        \<and> used_blocks 0 (coalesce bs) = used_blocks 0 bs)"
proof -
  have l: "layout h 0 bs" "ok_magic h 0" "extent bs < 2 ^ 63" using assms by (auto simp: wf_vsa_def)
  have "\<exists>h'. VSAAlloc h 0 n = Some (h', r) \<and> wf_vsa h' bs'" if "0 < n" "n < 2 ^ 63" "alloc_in n 0 bs = Some (bs', r)" for n bs' r
    using alloc_tail_spec [OF l(1) that(1,3,2) l(3)] l(2,3) CheckMagicNum_ok [OF l(2)] extent_alloc_in [OF that(3)]
    by (auto simp: VSAAlloc_def alloc_tail_def wf_vsa_def)
  moreover have "\<exists>h' bs'. VSAFree h p = Some h' \<and> wf_vsa h' bs' \<and> set (used_blocks 0 bs') = set (used_blocks 0 bs) - {(p, s)}"
    if "(p, s) \<in> set (used_blocks 0 bs)" for p s
    using VSAFree_spec [OF l(1) that l(3), of 0] used_free_in [OF that] l(2,3) extent_free_in [of 0 p bs]
    unfolding wf_vsa_def by metis
  moreover have "\<exists>h'. VSALargestChunkAvailable h 0 = Some (h', int (largest (coalesce bs))) \<and> wf_vsa h' (coalesce bs)"
    using largest_loop_spec [OF l(1,3), of 0] l(2,3) CheckMagicNum_ok [OF l(2)]
    by (auto simp: VSALargestChunkAvailable_def wf_vsa_def extent_coalesce)
  ultimately show ?thesis using alloc_in_used [of _ 0 bs] used_blocks_coalesce by (metis (no_types, lifting))
qed

theorem VSA_refines_blocks_witness:
  "\<exists>h h1 h2. VSAInit (\<lambda>_. None) 132 = Some (Some h) \<and> VSAAlloc h 0 20 = Some (h1, Some 16)
     \<and> wf_vsa h1 [(20, True), (64, False)] \<and> VSALargestChunkAvailable h1 0 = Some (h2, 64)"
proof -
  obtain h where h: "VSAInit (\<lambda>_. None) 132 = Some (Some h)" "wf_vsa h [(100, False)]" using VSAInit_spec [of 132] by auto
  have "alloc_in 20 0 [(100, False)] = Some ([(20, True), (64, False)], Some 16)" by simp
  then obtain h1 where h1: "VSAAlloc h 0 20 = Some (h1, Some 16)" "wf_vsa h1 [(20, True), (64, False)]"
    using VSA_refines_blocks [OF h(2), THEN conjunct1, rule_format, of 20] by auto
  then show ?thesis using VSA_refines_blocks [OF h1(2), THEN conjunct2, THEN conjunct2] h by auto
qed

text \<open>The step over a free block that is too small lands inside a block, not on a header.\<close>

lemma VSAAlloc_misses_header:
  assumes "h 0 = Some \<lparr>block_size = 8, magic_num = Some SPECIAL_MAGIC_NUM\<rparr>"
    and "h 24 = Some \<lparr>block_size = - 40, magic_num = Some SPECIAL_MAGIC_NUM\<rparr>" and "h 8 = None"
  shows "VSAAlloc h 0 16 = None"
proof -
  have "FindEnoughBLockSize h 0 16 = FindEnoughBLockSize h 8 16"
    using assms by (subst FindEnoughBLockSize.simps) (simp add: END_OF_VSA_def GetNextBlock_def SIZE_OF_VSA_STRUCT_def to_long_small int64_def)
  also have "\<dots> = None" using assms(3) by (subst FindEnoughBLockSize.simps) simp
  finally show ?thesis using assms(1) by (simp add: VSAAlloc_def CheckMagicNum_def)
qed

text \<open>A size of 2 ^ 63 or more is negative as a \<open>long\<close>, and the search stops at a block in use. When
  the negative size is close to the size of that block it is handed out a second time and marked free;
  otherwise a header is written in front of it, for the first block outside the memory.\<close>

lemma VSAAlloc_huge_size:
  assumes "wf_vsa h ((s, True) # bs)" and "2 ^ 63 \<le> n" and "n + s \<le> 2 ^ 64"
  shows "if 2 ^ 64 \<le> n + s + 16 then \<exists>h'. VSAAlloc h 0 n = Some (h', Some 16) \<and> wf_vsa h' ((s, False) # bs)
    else VSAAlloc h 0 n = None"
proof -
  obtain x where x: "h 0 = Some x" "block_size x = - int s" "0 < s" "layout h (s + 16) bs" "CheckMagicNum h 0 = Some True"
    using assms(1) CheckMagicNum_ok [of h 0] by (auto simp: wf_vsa_def)
  have ln: "to_long n = int n - 2 ^ 64" using to_long_huge assms(2,3) x(3) by simp
  let ?h = "VsaSetBlockSize h 0 (int s)"
  have "FindEnoughBLockSize h 0 n = Some (h, 0)"
    using x ln assms(2,3) by (subst FindEnoughBLockSize.simps) simp
  then have a: "VSAAlloc h 0 n = do { (h, p) \<leftarrow> AllocateBlock h 0 (to_long n); Some (h, Some p) }"
    using x by (simp add: VSAAlloc_def END_OF_VSA_def)
  have small: "s < 2 ^ 63" using assms(1) by (simp add: wf_vsa_def)
  show ?thesis
  proof (cases "2 ^ 64 \<le> n + s + 16")
    case True
    then have "AllocateBlock h 0 (to_long n) = Some (?h, 16)"
      using x ln assms(2,3) small by (simp add: AllocateBlock_def SIZE_OF_VSA_STRUCT_def int64_def)
    moreover have "wf_vsa ?h ((s, False) # bs)"
      using assms(1) x ok_magic_set [of h 0] by (simp add: wf_vsa_def VsaSetBlockSize_def layout_upd)
    ultimately show ?thesis using True a by simp
  next
    case False
    then have "AllocateBlock h 0 (to_long n) = None"
      using x ln assms(2,3) small by (simp add: AllocateBlock_def SIZE_OF_VSA_STRUCT_def int64_def)
    then show ?thesis using False a by simp
  qed
qed

text \<open>A request of no bytes splits a large enough free block and writes the header of the end over it.\<close>

lemma VSAAlloc_zero_size:
  assumes "wf_vsa h ((s, False) # bs)" and "16 < s"
  shows "\<exists>h'. VSAAlloc h 0 0 = Some (h', Some 16) \<and> wf_vsa h' []"
proof -
  obtain x where x: "h 0 = Some x" "block_size x = int s" "CheckMagicNum h 0 = Some True"
    using assms(1) CheckMagicNum_ok [of h 0] by (auto simp: wf_vsa_def)
  have "FindEnoughBLockSize h 0 0 = Some (h, 0)"
    using x by (subst FindEnoughBLockSize.simps) (simp add: to_long_small)
  moreover have "s < 2 ^ 63" using assms(1) by (simp add: wf_vsa_def)
  ultimately have "VSAAlloc h 0 0
      = Some (set_block_size (set_block_size h 16 (to_long (szsub (to_size (int s)) 16))) 0 0, Some 16)"
    using x assms(2) to_long_small [of 0]
    by (simp add: VSAAlloc_def AllocateBlock_def END_OF_VSA_def SIZE_OF_VSA_STRUCT_def int64_def)
  moreover have "wf_vsa (set_block_size (set_block_size h 16 v) 0 0) []" for v
    using assms(1) ok_magic_set_size block_size_set by (simp add: wf_vsa_def)
  ultimately show ?thesis by blast
qed

end
