(* ===== verification/Calc.thy ===== *)
theory Calc
  imports Stacks CString
begin

text \<open>
  The calculator of \<open>ds/utils/calc/calc.c\<close> with its lexer \<open>ds/utils/parser/parser.c\<close>, on the stack of
  \<open>ds/stack/stack.c\<close>: operands and pending operators wait on two stacks, and an operator is applied
  as soon as one of no higher priority follows. The arithmetic of \<open>double\<close> and the conversion
  \<open>strtod\<close> are parameters. The main result says that the two stacks compute what the syntax tree
  of the expression means.
\<close>

section \<open>What the code takes from the platform\<close>

record 'n double_arith =
  d_zero :: 'n
  d_plus :: "'n \<Rightarrow> 'n \<Rightarrow> 'n"
  d_minus :: "'n \<Rightarrow> 'n \<Rightarrow> 'n"
  d_times :: "'n \<Rightarrow> 'n \<Rightarrow> 'n"
  d_divide :: "'n \<Rightarrow> 'n \<Rightarrow> 'n"
  d_pow :: "'n \<Rightarrow> 'n \<Rightarrow> 'n"
  d_round :: "'n \<Rightarrow> 'n"
  d_eq :: "'n \<Rightarrow> 'n \<Rightarrow> bool"
  d_less :: "'n \<Rightarrow> 'n \<Rightarrow> bool"
  d_le :: "'n \<Rightarrow> 'n \<Rightarrow> bool"

text \<open>\<open>strtod\<close> of a position in the text: the number and the position behind it, which is the start
  where no number can be read.\<close>

type_synonym 'n strtod = "string \<Rightarrow> nat \<Rightarrow> 'n \<times> nat"

section \<open>State\<close>

datatype calc_status = SUCCESS | MATH_ERROR | SYNTAX_ERROR | MALLOC_ERROR

datatype calc_state = WAIT_FOR_NUM | WAIT_FOR_OP

record 'n calc =
  num_stack :: "'n stack option"
  op_stack :: "char stack option"
  math_exp :: nat
  curren_state :: calc_state
  parantheses_counter :: int

text \<open>The answers of \<open>malloc\<close>: for the calculator, and two for each stack. The stacks are not tested
  for NULL; their use is a fault then.\<close>

definition CalcInit :: "bool \<times> bool \<Rightarrow> bool \<times> bool \<Rightarrow> nat \<Rightarrow> 'n calc option" where
  "CalcInit mem_num mem_op exp = do {
     ops \<leftarrow> StackCreate (fst mem_op) (snd mem_op) 1000;
     ops \<leftarrow> StackPush ops (CHR ''#'');
     Some \<lparr>num_stack = StackCreate (fst mem_num) (snd mem_num) 100, op_stack = Some ops,
       math_exp = exp, curren_state = WAIT_FOR_NUM, parantheses_counter = 0\<rparr>
   }"

text \<open>Freeing goes through both pointers.\<close>

definition CalcDestroy :: "'n calc \<Rightarrow> unit option" where
  "CalcDestroy calc = do { _ \<leftarrow> num_stack calc; _ \<leftarrow> op_stack calc; Some () }"

definition peek_num :: "'n calc \<Rightarrow> 'n option" where
  "peek_num calc = Option.bind (num_stack calc) StackPeek"

definition peek_op :: "'n calc \<Rightarrow> char option" where
  "peek_op calc = Option.bind (op_stack calc) StackPeek"

definition push_num :: "'n calc \<Rightarrow> 'n \<Rightarrow> 'n calc option" where
  "push_num calc x = do { s \<leftarrow> num_stack calc; s \<leftarrow> StackPush s x; Some (calc\<lparr>num_stack := Some s\<rparr>) }"

definition push_op :: "'n calc \<Rightarrow> char \<Rightarrow> 'n calc option" where
  "push_op calc c = do { s \<leftarrow> op_stack calc; s \<leftarrow> StackPush s c; Some (calc\<lparr>op_stack := Some s\<rparr>) }"

definition pop_num :: "'n calc \<Rightarrow> 'n calc option" where
  "pop_num calc = do { s \<leftarrow> num_stack calc; s \<leftarrow> StackPop s; Some (calc\<lparr>num_stack := Some s\<rparr>) }"

definition pop_op :: "'n calc \<Rightarrow> 'n calc option" where
  "pop_op calc = do { s \<leftarrow> op_stack calc; s \<leftarrow> StackPop s; Some (calc\<lparr>op_stack := Some s\<rparr>) }"

section \<open>The lexer\<close>

definition GetNum :: "'n double_arith \<Rightarrow> 'n strtod \<Rightarrow> string \<Rightarrow> nat \<Rightarrow> ('n \<times> nat \<times> char option) option" where
  "GetNum ar strtod str p = do {
     c \<leftarrow> aget str p;
     if c = CHR ''('' \<or> c = CHR ''['' \<or> c = CHR ''{'' then Some (d_zero ar, p + 1, Some c)
     else (case strtod str p of (v, end_ptr) \<Rightarrow> Some (v, end_ptr, None))
   }"

definition GetOp :: "string \<Rightarrow> nat \<Rightarrow> (char \<times> nat) option" where
  "GetOp str p = do { c \<leftarrow> aget str p; Some (c, p + 1) }"

section \<open>The operators and the tables\<close>

definition CalcPlus :: "'n double_arith \<Rightarrow> 'n \<Rightarrow> 'n \<Rightarrow> calc_status \<Rightarrow> 'n \<times> calc_status" where
  "CalcPlus ar num1 num2 exit_status = (d_plus ar num1 num2, exit_status)"

definition CalcMinus :: "'n double_arith \<Rightarrow> 'n \<Rightarrow> 'n \<Rightarrow> calc_status \<Rightarrow> 'n \<times> calc_status" where
  "CalcMinus ar num1 num2 exit_status = (d_minus ar num1 num2, exit_status)"

definition CalcMultiply :: "'n double_arith \<Rightarrow> 'n \<Rightarrow> 'n \<Rightarrow> calc_status \<Rightarrow> 'n \<times> calc_status" where
  "CalcMultiply ar num1 num2 exit_status = (d_times ar num1 num2, exit_status)"

definition CalcDivide :: "'n double_arith \<Rightarrow> 'n \<Rightarrow> 'n \<Rightarrow> calc_status \<Rightarrow> 'n \<times> calc_status" where
  "CalcDivide ar num1 num2 exit_status =
     (if \<not> d_eq ar (d_zero ar) num2 then (d_divide ar num1 num2, exit_status)
      else (d_zero ar, MATH_ERROR))"

definition CalcPower :: "'n double_arith \<Rightarrow> 'n \<Rightarrow> 'n \<Rightarrow> calc_status \<Rightarrow> 'n \<times> calc_status" where
  "CalcPower ar num1 num2 exit_status =
     (if (d_eq ar num1 (d_zero ar) \<and> d_le ar num2 (d_zero ar))
         \<or> (d_less ar num1 (d_zero ar) \<and> \<not> d_eq ar (d_round ar num2) num2)
      then (d_zero ar, MATH_ERROR)
      else (d_pow ar num1 num2, exit_status))"

text \<open>The tables as \<open>LutInit\<close> leaves them. They have 256 entries; a negative character is an index
  outside. The second column of \<open>operators_lut\<close> holds the priority of an operator and the opening
  bracket of a closing one.\<close>

definition lut_priority :: "char \<Rightarrow> int" where
  "lut_priority c =
     (if c = CHR ''+'' \<or> c = CHR ''-'' then 1
      else if c = CHR ''*'' \<or> c = CHR ''/'' then 2
      else if c = CHR ''^'' then 3
      else if c = CHR '')'' then c_char (CHR ''('')
      else if c = CHR '']'' then c_char (CHR ''['')
      else if c = CHR ''}'' then c_char (CHR ''{'')
      else 0)"

definition GetOperatorPriority :: "char \<Rightarrow> int option" where
  "GetOperatorPriority operator = (if c_char operator < 0 then None else Some (lut_priority operator))"

definition func_lut :: "'n double_arith \<Rightarrow> char \<Rightarrow> ('n \<Rightarrow> 'n \<Rightarrow> calc_status \<Rightarrow> 'n \<times> calc_status) option" where
  "func_lut ar c =
     (if c = CHR ''+'' then Some (CalcPlus ar)
      else if c = CHR ''-'' then Some (CalcMinus ar)
      else if c = CHR ''*'' then Some (CalcMultiply ar)
      else if c = CHR ''/'' then Some (CalcDivide ar)
      else if c = CHR ''^'' then Some (CalcPower ar)
      else None)"

section \<open>The handlers\<close>

text \<open>Every handler returns the calculator, the exit status and the number it computed.\<close>

definition CalcOperation ::
  "'n double_arith \<Rightarrow> 'n calc \<Rightarrow> calc_status \<Rightarrow> ('n calc \<times> calc_status \<times> 'n) option" where
  "CalcOperation ar calc exit_status = do {
     num2 \<leftarrow> peek_num calc;
     calc \<leftarrow> pop_num calc;
     num1 \<leftarrow> peek_num calc;
     calc \<leftarrow> pop_num calc;
     operator \<leftarrow> peek_op calc;
     f \<leftarrow> func_lut ar operator;
     let (operand, exit_status) = f num1 num2 exit_status;
     calc \<leftarrow> push_num calc operand;
     calc \<leftarrow> pop_op calc;
     Some (calc, exit_status, operand)
   }"

definition WaitForNum ::
  "'n double_arith \<Rightarrow> 'n strtod \<Rightarrow> string \<Rightarrow> 'n calc \<Rightarrow> calc_status \<Rightarrow> ('n calc \<times> calc_status \<times> 'n) option" where
  "WaitForNum ar strtod str calc exit_status = do {
     let check_for_getnum = math_exp calc;
     (num, end_ptr, parantheses) \<leftarrow> GetNum ar strtod str (math_exp calc);
     let calc = calc\<lparr>math_exp := end_ptr\<rparr>;
     first \<leftarrow> aget str check_for_getnum;
     if end_ptr = check_for_getnum \<or> first = NUL then Some (calc, SYNTAX_ERROR, d_zero ar)
     else (case parantheses of
       Some c \<Rightarrow> do {
         calc \<leftarrow> push_op calc c;
         Some (calc\<lparr>parantheses_counter := parantheses_counter calc + 1\<rparr>, SUCCESS, d_zero ar)
       }
     | None \<Rightarrow> do {
         calc \<leftarrow> push_num calc num;
         Some (calc\<lparr>curren_state := WAIT_FOR_OP\<rparr>, SUCCESS, d_zero ar)
       })
   }"

partial_function (option) parantheses_loop ::
  "'n double_arith \<Rightarrow> 'n calc \<Rightarrow> calc_status \<Rightarrow> 'n \<Rightarrow> ('n calc \<times> calc_status \<times> 'n) option" where
  "parantheses_loop ar calc exit_status res = do {
     current_operator \<leftarrow> peek_op calc;
     if current_operator \<noteq> CHR ''['' \<and> current_operator \<noteq> CHR ''{'' \<and> current_operator \<noteq> CHR ''(''
        \<and> current_operator \<noteq> CHR ''#''
     then do {
       (calc, exit_status, res) \<leftarrow> CalcOperation ar calc exit_status;
       parantheses_loop ar calc exit_status res
     } else Some (calc, exit_status, res)
   }"

definition Parantheses ::
  "'n double_arith \<Rightarrow> string \<Rightarrow> 'n calc \<Rightarrow> calc_status \<Rightarrow> ('n calc \<times> calc_status \<times> 'n) option" where
  "Parantheses ar str calc exit_status = do {
     operator \<leftarrow> aget str (math_exp calc - 1);
     res \<leftarrow> peek_num calc;
     (calc, exit_status, res) \<leftarrow> parantheses_loop ar calc exit_status res;
     current_operator \<leftarrow> peek_op calc;
     opening \<leftarrow> GetOperatorPriority operator;
     if current_operator = CHR ''#'' \<or> opening \<noteq> c_char current_operator
     then Some (calc, SYNTAX_ERROR, d_zero ar)
     else do {
       calc \<leftarrow> pop_op (calc\<lparr>parantheses_counter := parantheses_counter calc - 1\<rparr>);
       Some (calc, exit_status, res)
     }
   }"

definition TwoPowerInRow :: "'n calc \<Rightarrow> char \<Rightarrow> bool option" where
  "TwoPowerInRow calc oper =
     (if oper = CHR ''^'' then do { top \<leftarrow> peek_op calc; Some (top = CHR ''^'') } else Some False)"

definition CorrectOperator ::
  "'n double_arith \<Rightarrow> string \<Rightarrow> 'n calc \<Rightarrow> calc_status \<Rightarrow> ('n calc \<times> calc_status \<times> 'n) option" where
  "CorrectOperator ar str calc exit_status = do {
     operator \<leftarrow> aget str (math_exp calc - 1);
     two \<leftarrow> TwoPowerInRow calc operator;
     wait \<leftarrow> (if two then Some True else do {
       a \<leftarrow> GetOperatorPriority operator;
       top \<leftarrow> peek_op calc;
       b \<leftarrow> GetOperatorPriority top;
       Some (a > b)
     });
     if wait then do {
       calc \<leftarrow> push_op calc operator;
       Some (calc\<lparr>curren_state := WAIT_FOR_NUM\<rparr>, exit_status, d_zero ar)
     } else do {
       (calc, exit_status, _) \<leftarrow> CalcOperation ar calc exit_status;
       Some (calc\<lparr>math_exp := math_exp calc - 1\<rparr>, exit_status, d_zero ar)
     }
   }"

partial_function (option) end_loop ::
  "'n double_arith \<Rightarrow> 'n calc \<Rightarrow> calc_status \<Rightarrow> 'n \<Rightarrow> ('n calc \<times> calc_status \<times> 'n) option" where
  "end_loop ar calc exit_status operand = do {
     top \<leftarrow> peek_op calc;
     if top \<noteq> CHR ''#'' then do {
       (calc, exit_status, operand) \<leftarrow> CalcOperation ar calc exit_status;
       end_loop ar calc exit_status operand
     } else Some (calc, exit_status, operand)
   }"

definition EndOfEx ::
  "'n double_arith \<Rightarrow> 'n calc \<Rightarrow> calc_status \<Rightarrow> ('n calc \<times> calc_status \<times> 'n) option" where
  "EndOfEx ar calc exit_status = do {
     operand \<leftarrow> peek_num calc;
     end_loop ar calc exit_status operand
   }"

definition NotCorrectOperator ::
  "'n double_arith \<Rightarrow> 'n calc \<Rightarrow> calc_status \<Rightarrow> ('n calc \<times> calc_status \<times> 'n) option" where
  "NotCorrectOperator ar calc exit_status = Some (calc, SYNTAX_ERROR, d_zero ar)"

definition main_func_lut ::
  "'n double_arith \<Rightarrow> string \<Rightarrow> char \<Rightarrow> 'n calc \<Rightarrow> calc_status \<Rightarrow> ('n calc \<times> calc_status \<times> 'n) option" where
  "main_func_lut ar str c =
     (if c = NUL then EndOfEx ar
      else if c \<in> {CHR ''+'', CHR ''-'', CHR ''*'', CHR ''/'', CHR ''^''} then CorrectOperator ar str
      else if c \<in> {CHR '')'', CHR '']'', CHR ''}''} then Parantheses ar str
      else NotCorrectOperator ar)"

definition WaitForOp ::
  "'n double_arith \<Rightarrow> string \<Rightarrow> 'n calc \<Rightarrow> calc_status \<Rightarrow> ('n calc \<times> calc_status \<times> 'n) option" where
  "WaitForOp ar str calc exit_status = do {
     (c, end_ptr) \<leftarrow> GetOp str (math_exp calc);
     let calc = calc\<lparr>math_exp := end_ptr\<rparr>;
     if c_char c < 0 then None else do {
       (calc, exit_status, operand) \<leftarrow> main_func_lut ar str c calc exit_status;
       if exit_status \<noteq> SUCCESS then Some (calc, exit_status, d_zero ar)
       else Some (calc, exit_status, operand)
     }
   }"

definition state_lut ::
  "'n double_arith \<Rightarrow> 'n strtod \<Rightarrow> string \<Rightarrow> 'n calc \<Rightarrow> calc_status \<Rightarrow> ('n calc \<times> calc_status \<times> 'n) option" where
  "state_lut ar strtod str calc = (case curren_state calc of
     WAIT_FOR_NUM \<Rightarrow> WaitForNum ar strtod str calc
   | WAIT_FOR_OP \<Rightarrow> WaitForOp ar str calc)"

partial_function (option) calc_loop ::
  "'n double_arith \<Rightarrow> 'n strtod \<Rightarrow> string \<Rightarrow> 'n calc \<Rightarrow> calc_status \<Rightarrow> ('n \<times> calc_status) option" where
  "calc_loop ar strtod str calc exit_status = do {
     c \<leftarrow> aget str (math_exp calc);
     if c \<noteq> NUL then do {
       (calc, exit_status, _) \<leftarrow> state_lut ar strtod str calc exit_status;
       if exit_status \<noteq> SUCCESS then do { _ \<leftarrow> CalcDestroy calc; Some (d_zero ar, exit_status) }
       else calc_loop ar strtod str calc exit_status
     } else if parantheses_counter calc \<noteq> 0 then do {
       _ \<leftarrow> CalcDestroy calc;
       Some (d_zero ar, SYNTAX_ERROR)
     } else do {
       (calc, exit_status, res) \<leftarrow> state_lut ar strtod str calc exit_status;
       _ \<leftarrow> CalcDestroy calc;
       Some (res, exit_status)
     }
   }"

definition Calculate ::
  "'n double_arith \<Rightarrow> 'n strtod \<Rightarrow> bool \<Rightarrow> bool \<times> bool \<Rightarrow> bool \<times> bool \<Rightarrow> string \<Rightarrow> nat \<Rightarrow> calc_status
   \<Rightarrow> ('n \<times> calc_status) option" where
  "Calculate ar strtod mem mem_num mem_op str exp exit_status =
     (if \<not> mem then None
      else do { calc \<leftarrow> CalcInit mem_num mem_op exp; calc_loop ar strtod str calc exit_status })"

section \<open>Expressions and their meaning\<close>

datatype bin_op = Add | Sub | Mul | Div | Pow

datatype bracket = Round | Square | Curly

datatype expr = Num string | Bin bin_op expr expr | Group bracket expr

fun op_char :: "bin_op \<Rightarrow> char" where
  "op_char Add = CHR ''+''"
| "op_char Sub = CHR ''-''"
| "op_char Mul = CHR ''*''"
| "op_char Div = CHR ''/''"
| "op_char Pow = CHR ''^''"

fun open_char :: "bracket \<Rightarrow> char" where
  "open_char Round = CHR ''(''"
| "open_char Square = CHR ''[''"
| "open_char Curly = CHR ''{''"

fun close_char :: "bracket \<Rightarrow> char" where
  "close_char Round = CHR '')''"
| "close_char Square = CHR '']''"
| "close_char Curly = CHR ''}''"

fun show_expr :: "expr \<Rightarrow> string" where
  "show_expr (Num w) = w"
| "show_expr (Bin p l r) = show_expr l @ op_char p # show_expr r"
| "show_expr (Group b e) = open_char b # show_expr e @ [close_char b]"

fun op_prio :: "bin_op \<Rightarrow> int" where
  "op_prio Add = 1"
| "op_prio Sub = 1"
| "op_prio Mul = 2"
| "op_prio Div = 2"
| "op_prio Pow = 3"

fun expr_prio :: "expr \<Rightarrow> int" where
  "expr_prio (Bin p l r) = op_prio p"
| "expr_prio _ = 4"

text \<open>The trees that a reader of the text sees: \<open>^\<close> groups to the right, the others to the left.\<close>

fun parsed :: "expr \<Rightarrow> bool" where
  "parsed (Num w) \<longleftrightarrow> True"
| "parsed (Group b e) \<longleftrightarrow> parsed e"
| "parsed (Bin p l r) \<longleftrightarrow> parsed l \<and> parsed r \<and>
     (if p = Pow then expr_prio l = 4 \<and> 3 \<le> expr_prio r
      else op_prio p \<le> expr_prio l \<and> op_prio p < expr_prio r)"

fun lexemes :: "expr \<Rightarrow> string set" where
  "lexemes (Num w) = {w}"
| "lexemes (Bin p l r) = lexemes l \<union> lexemes r"
| "lexemes (Group b e) = lexemes e"

text \<open>How many numbers and how many operators and brackets wait at the same time.\<close>

fun num_depth :: "expr \<Rightarrow> nat" where
  "num_depth (Num w) = 1"
| "num_depth (Bin p l r) = max (num_depth l) (Suc (num_depth r))"
| "num_depth (Group b e) = num_depth e"

fun op_depth :: "expr \<Rightarrow> nat" where
  "op_depth (Num w) = 0"
| "op_depth (Bin p l r) = max (op_depth l) (Suc (op_depth r))"
| "op_depth (Group b e) = Suc (op_depth e)"

fun apply_op :: "'n double_arith \<Rightarrow> bin_op \<Rightarrow> 'n \<Rightarrow> 'n \<Rightarrow> 'n option" where
  "apply_op ar Add x y = Some (d_plus ar x y)"
| "apply_op ar Sub x y = Some (d_minus ar x y)"
| "apply_op ar Mul x y = Some (d_times ar x y)"
| "apply_op ar Div x y = (if d_eq ar (d_zero ar) y then None else Some (d_divide ar x y))"
| "apply_op ar Pow x y =
     (if (d_eq ar x (d_zero ar) \<and> d_le ar y (d_zero ar)) \<or> (d_less ar x (d_zero ar) \<and> \<not> d_eq ar (d_round ar y) y)
      then None else Some (d_pow ar x y))"

fun eval :: "'n double_arith \<Rightarrow> (string \<Rightarrow> 'n) \<Rightarrow> expr \<Rightarrow> 'n option" where
  "eval ar val (Num w) = Some (val w)"
| "eval ar val (Bin p l r) = do { x \<leftarrow> eval ar val l; y \<leftarrow> eval ar val r; apply_op ar p x y }"
| "eval ar val (Group b e) = eval ar val e"

text \<open>What the code relies on: in front of an operator, a closing bracket or the end of the text
  \<open>strtod\<close> reads the whole number and stops.\<close>

definition follow :: "char set" where
  "follow = {CHR ''+'', CHR ''-'', CHR ''*'', CHR ''/'', CHR ''^'', CHR '')'', CHR '']'', CHR ''}'', NUL}"

definition number_lexeme :: "'n strtod \<Rightarrow> string \<Rightarrow> 'n \<Rightarrow> bool" where
  "number_lexeme strtod w v \<longleftrightarrow> w \<noteq> [] \<and> hd w \<notin> {NUL, CHR ''('', CHR ''['', CHR ''{''}
     \<and> (\<forall>str p c rest. drop p str = w @ c # rest \<longrightarrow> c \<in> follow \<longrightarrow> strtod str p = (v, p + length w))"

text \<open>The numbers and operators that wait when an expression has been read, and what they are worth.\<close>

fun scan :: "'n double_arith \<Rightarrow> (string \<Rightarrow> 'n) \<Rightarrow> expr \<Rightarrow> ('n list \<times> bin_op list) option" where
  "scan ar val (Num w) = Some ([val w], [])"
| "scan ar val (Bin p l r) = do {
     x \<leftarrow> eval ar val l; (vs, ps) \<leftarrow> scan ar val r; Some (vs @ [x], ps @ [p]) }"
| "scan ar val (Group b e) = do { x \<leftarrow> eval ar val e; Some ([x], []) }"

fun reduce :: "'n double_arith \<Rightarrow> 'n list \<Rightarrow> bin_op list \<Rightarrow> 'n option" where
  "reduce ar (v # vs) [] = Some v"
| "reduce ar (y # x # vs) (p # ps) = do { v \<leftarrow> apply_op ar p x y; reduce ar (v # vs) ps }"
| "reduce ar _ _ = None"

lemma scan_lengths: "scan ar val e = Some (vs, ps) \<Longrightarrow> length vs = Suc (length ps)"
  by (induction e arbitrary: vs ps) (auto simp: bind_eq_Some_conv)

lemma scan_depth: "scan ar val e = Some (vs, ps) \<Longrightarrow> length ps \<le> op_depth e"
  by (induction e arbitrary: vs ps) (fastforce simp: bind_eq_Some_conv)+

lemma reduce_snoc:
  "length vs = Suc (length ps) \<Longrightarrow>
   reduce ar (vs @ [x]) (ps @ [p]) = Option.bind (reduce ar vs ps) (apply_op ar p x)"
proof (induction ar vs ps rule: reduce.induct)
  case (1 ar v vs)
  then show ?case by (cases "apply_op ar p x v") auto
next
  case (2 ar y z vs q ps)
  then show ?case by (cases "apply_op ar q z y") auto
qed auto

lemma eval_scan: "eval ar val e = do { (vs, ps) \<leftarrow> scan ar val e; reduce ar vs ps }"
proof (induction e)
  case (Bin p l r)
  show ?case
  proof (cases "eval ar val l")
    case (Some x)
    then show ?thesis using Bin.IH(2) scan_lengths [of ar val r]
      by (cases "scan ar val r") (auto simp: reduce_snoc)
  qed simp
next
  case (Group b e)
  then show ?case by (cases "eval ar val e") auto
qed simp

lemma scan_prio: "parsed e \<Longrightarrow> scan ar val e = Some (vs, ps) \<Longrightarrow> q \<in> set ps \<Longrightarrow> expr_prio e \<le> op_prio q"
  by (induction e arbitrary: vs ps) (fastforce simp: bind_eq_Some_conv split: if_splits)+

lemma scan_atom: "expr_prio e = 4 \<Longrightarrow> scan ar val e = Some (vs, ps) \<Longrightarrow> ps = []"
proof (cases e)
  case (Bin p l r)
  assume "expr_prio e = 4"
  then show ?thesis using Bin by (cases p) auto
qed (auto simp: bind_eq_Some_conv)

section \<open>The stacks of a calculator\<close>

definition calc_rep :: "'n calc \<Rightarrow> 'n list \<Rightarrow> char list \<Rightarrow> nat \<Rightarrow> calc_state \<Rightarrow> int \<Rightarrow> bool" where
  "calc_rep calc ns os p st k \<longleftrightarrow>
     (\<exists>s. num_stack calc = Some s \<and> stack_inv s \<and> stack_abs s = ns \<and> stack_capacity s = 100)
     \<and> (\<exists>s. op_stack calc = Some s \<and> stack_inv s \<and> stack_abs s = os \<and> stack_capacity s = 1000)
     \<and> math_exp calc = p \<and> curren_state calc = st \<and> parantheses_counter calc = k"

lemma calc_rep_bounds: "calc_rep calc ns os p st k \<Longrightarrow> length ns \<le> 100 \<and> length os \<le> 1000"
  unfolding calc_rep_def using stack_within_capacity by metis

lemma calc_rep_fields:
  "calc_rep calc ns os p st k \<Longrightarrow> math_exp calc = p \<and> curren_state calc = st \<and> parantheses_counter calc = k"
  by (simp add: calc_rep_def)

lemma calc_rep_update:
  "calc_rep calc ns os p st k \<Longrightarrow>
   calc_rep (calc\<lparr>math_exp := p', curren_state := st', parantheses_counter := k'\<rparr>) ns os p' st' k'"
  "calc_rep calc ns os p st k \<Longrightarrow> calc_rep (calc\<lparr>math_exp := p'\<rparr>) ns os p' st k"
  "calc_rep calc ns os p st k \<Longrightarrow> calc_rep (calc\<lparr>curren_state := st'\<rparr>) ns os p st' k"
  "calc_rep calc ns os p st k \<Longrightarrow> calc_rep (calc\<lparr>parantheses_counter := k'\<rparr>) ns os p st k'"
  by (simp_all add: calc_rep_def)

lemma CalcDestroy_rep: "calc_rep calc ns os p st k \<Longrightarrow> CalcDestroy calc = Some ()"
  by (auto simp: calc_rep_def CalcDestroy_def)

lemma peek_num_rep: "calc_rep calc (x # ns) os p st k \<Longrightarrow> peek_num calc = Some x"
  by (auto simp: calc_rep_def peek_num_def arr.peek_ok)

lemma peek_op_rep: "calc_rep calc ns (c # os) p st k \<Longrightarrow> peek_op calc = Some c"
  by (auto simp: calc_rep_def peek_op_def arr.peek_ok)

lemma pop_num_rep:
  assumes "calc_rep calc (x # ns) os p st k"
  obtains calc' where "pop_num calc = Some calc'" "calc_rep calc' ns os p st k"
proof -
  obtain s where s: "num_stack calc = Some s" "stack_inv s" "stack_abs s = x # ns" "stack_capacity s = 100"
    using assms by (auto simp: calc_rep_def)
  obtain s' where "StackPop s = Some s'" "stack_inv s'" "stack_abs s' = ns" "stack_capacity s' = 100"
    using StackPop_ok(1-3) [OF s(2,3)] s(4) by auto
  then show ?thesis using s assms by (intro that [of "calc\<lparr>num_stack := Some s'\<rparr>"]) (auto simp: pop_num_def calc_rep_def)
qed

lemma pop_op_rep:
  assumes "calc_rep calc ns (c # os) p st k"
  obtains calc' where "pop_op calc = Some calc'" "calc_rep calc' ns os p st k"
proof -
  obtain s where s: "op_stack calc = Some s" "stack_inv s" "stack_abs s = c # os" "stack_capacity s = 1000"
    using assms by (auto simp: calc_rep_def)
  obtain s' where "StackPop s = Some s'" "stack_inv s'" "stack_abs s' = os" "stack_capacity s' = 1000"
    using StackPop_ok(1-3) [OF s(2,3)] s(4) by auto
  then show ?thesis using s assms by (intro that [of "calc\<lparr>op_stack := Some s'\<rparr>"]) (auto simp: pop_op_def calc_rep_def)
qed

lemma push_num_rep:
  assumes "calc_rep calc ns os p st k" "length ns < 100"
  obtains calc' where "push_num calc x = Some calc'" "calc_rep calc' (x # ns) os p st k"
proof -
  obtain s where s: "num_stack calc = Some s" "stack_inv s" "stack_abs s = ns" "stack_capacity s = 100"
    using assms by (auto simp: calc_rep_def)
  obtain s' where "StackPush s x = Some s'" "stack_inv s'" "stack_abs s' = x # ns" "stack_capacity s' = 100"
    using StackPush_ok [OF s(2), of x] s assms(2) by auto
  then show ?thesis using s assms by (intro that [of "calc\<lparr>num_stack := Some s'\<rparr>"]) (auto simp: push_num_def calc_rep_def)
qed

lemma push_op_rep:
  assumes "calc_rep calc ns os p st k" "length os < 1000"
  obtains calc' where "push_op calc c = Some calc'" "calc_rep calc' ns (c # os) p st k"
proof -
  obtain s where s: "op_stack calc = Some s" "stack_inv s" "stack_abs s = os" "stack_capacity s = 1000"
    using assms by (auto simp: calc_rep_def)
  obtain s' where "StackPush s c = Some s'" "stack_inv s'" "stack_abs s' = c # os" "stack_capacity s' = 1000"
    using StackPush_ok [OF s(2), of c] s assms(2) by auto
  then show ?thesis using s assms by (intro that [of "calc\<lparr>op_stack := Some s'\<rparr>"]) (auto simp: push_op_def calc_rep_def)
qed

section \<open>Applying operators\<close>

lemma op_char_facts:
  "lut_priority (op_char q) = op_prio q" "\<not> c_char (op_char q) < 0" "op_char q \<in> follow"
  "op_char q \<noteq> NUL" "op_char q \<notin> {CHR ''('', CHR ''['', CHR ''{'', CHR ''#''}"
  "op_char q \<in> {CHR ''+'', CHR ''-'', CHR ''*'', CHR ''/'', CHR ''^''}"
  "op_char q = CHR ''^'' \<longleftrightarrow> q = Pow"
  by (cases q; simp add: lut_priority_def c_char_def follow_def NUL_def)+

lemma op_prio_range: "1 \<le> op_prio q" "op_prio q \<le> 3" "op_prio q \<le> 4"
  by (cases q; simp)+

lemma expr_prio_range: "1 \<le> expr_prio e \<and> expr_prio e \<le> 4"
  by (cases e) (auto simp: op_prio_range)

lemma func_lut_apply:
  "\<exists>f. func_lut ar (op_char q) = Some f \<and>
     f x y st = (case apply_op ar q x y of Some v \<Rightarrow> (v, st) | None \<Rightarrow> (d_zero ar, MATH_ERROR))"
  by (cases q) (auto simp: func_lut_def CalcPlus_def CalcMinus_def CalcMultiply_def CalcDivide_def CalcPower_def)

lemma CalcOperation_rep:
  assumes rep: "calc_rep calc (y # x # ns) (op_char q # os) p st k"
    and v: "(v, exit') = (case apply_op ar q x y of Some v \<Rightarrow> (v, exit_status) | None \<Rightarrow> (d_zero ar, MATH_ERROR))"
  obtains calc' where "CalcOperation ar calc exit_status = Some (calc', exit', v)"
    "calc_rep calc' (v # ns) os p st k"
proof -
  obtain c1 where c1: "pop_num calc = Some c1" "calc_rep c1 (x # ns) (op_char q # os) p st k"
    using pop_num_rep [OF rep] by blast
  obtain c2 where c2: "pop_num c1 = Some c2" "calc_rep c2 ns (op_char q # os) p st k"
    using pop_num_rep [OF c1(2)] by blast
  have "length ns < 100" using calc_rep_bounds [OF rep] by simp
  from push_num_rep [OF c2(2) this] obtain c3 where
    c3: "push_num c2 v = Some c3" "calc_rep c3 (v # ns) (op_char q # os) p st k" by blast
  obtain c4 where c4: "pop_op c3 = Some c4" "calc_rep c4 (v # ns) os p st k"
    using pop_op_rep [OF c3(2)] by blast
  obtain f where f: "func_lut ar (op_char q) = Some f" "f x y exit_status = (v, exit')"
    using func_lut_apply [of ar q x y exit_status] v by auto
  have "CalcOperation ar calc exit_status = Some (c4, exit', v)"
    unfolding CalcOperation_def
    using c1 c2 c3 c4 f peek_num_rep [OF rep] peek_num_rep [OF c1(2)] peek_op_rep [OF c2(2)] by simp
  then show thesis using that c4(2) by blast
qed

text \<open>Both loops that apply the waiting operators, up to a character that stops them. After an error
  they go on, and the error stays.\<close>

definition op_result :: "'n double_arith \<Rightarrow> 'n list \<Rightarrow> bin_op list \<Rightarrow> calc_status \<Rightarrow> 'n \<Rightarrow> calc_status \<Rightarrow> bool" where
  "op_result ar vs ps exit_status v exit' \<longleftrightarrow>
     (if exit_status = SUCCESS \<and> reduce ar vs ps \<noteq> None then exit' = SUCCESS \<and> reduce ar vs ps = Some v
      else exit' = MATH_ERROR)"

lemma op_result_step:
  assumes "(v, e) = (case apply_op ar q x y of Some v \<Rightarrow> (v, exit_status) | None \<Rightarrow> (d_zero ar, MATH_ERROR))"
    and "exit_status \<in> {SUCCESS, MATH_ERROR}" "op_result ar (v # vs) ps e w e'"
  shows "op_result ar (y # x # vs) (q # ps) exit_status w e'"
  using assms by (cases "apply_op ar q x y") (auto simp: op_result_def)

lemma loops_reduce:
  assumes "calc_rep calc (vs @ ns) (map op_char ps @ b # os) p st k" "length vs = Suc (length ps)"
    and "exit_status \<in> {SUCCESS, MATH_ERROR}"
  shows "\<exists>calc' v res exit'. calc_rep calc' (v # ns) (b # os) p st k \<and> op_result ar vs ps exit_status v exit'
      \<and> (start = hd vs \<longrightarrow> res = v)
      \<and> (b \<in> {CHR ''('', CHR ''['', CHR ''{'', CHR ''#''} \<longrightarrow>
           parantheses_loop ar calc exit_status start = Some (calc', exit', res))
      \<and> (b = CHR ''#'' \<longrightarrow> end_loop ar calc exit_status start = Some (calc', exit', res))"
  using assms
proof (induction ps arbitrary: calc vs exit_status start)
  case Nil
  then obtain v where [simp]: "vs = [v]" by (cases vs) auto
  have rep: "calc_rep calc (v # ns) (b # os) p st k" using Nil.prems by simp
  have "op_result ar vs [] exit_status v exit_status" using Nil.prems by (auto simp: op_result_def)
  moreover have "b \<in> {CHR ''('', CHR ''['', CHR ''{'', CHR ''#''} \<Longrightarrow>
      parantheses_loop ar calc exit_status start = Some (calc, exit_status, start)"
    using peek_op_rep [OF rep] by (subst parantheses_loop.simps) auto
  moreover have "b = CHR ''#'' \<Longrightarrow> end_loop ar calc exit_status start = Some (calc, exit_status, start)"
    using peek_op_rep [OF rep] by (subst end_loop.simps) auto
  ultimately show ?case using rep by auto
next
  case (Cons q ps)
  then obtain y x us where vs: "vs = y # x # us" by (cases vs; cases "tl vs") auto
  obtain v e where ve: "(v, e) = (case apply_op ar q x y of Some v \<Rightarrow> (v, exit_status) | None \<Rightarrow> (d_zero ar, MATH_ERROR))"
    by (metis surj_pair)
  have rep: "calc_rep calc (y # x # us @ ns) (op_char q # map op_char ps @ b # os) p st k"
    using Cons.prems(1) by (simp add: vs)
  obtain c where c: "CalcOperation ar calc exit_status = Some (c, e, v)"
    "calc_rep c (v # us @ ns) (map op_char ps @ b # os) p st k"
    using CalcOperation_rep [OF rep ve] by blast
  have "e \<in> {SUCCESS, MATH_ERROR}" using ve Cons.prems(3) by (auto split: option.splits)
  with Cons.IH [of c "v # us" e v] c(2) Cons.prems(2) obtain calc' w res exit' where
    w: "calc_rep calc' (w # ns) (b # os) p st k" "op_result ar (v # us) ps e w exit'" "res = w"
    "b \<in> {CHR ''('', CHR ''['', CHR ''{'', CHR ''#''} \<Longrightarrow> parantheses_loop ar c e v = Some (calc', exit', res)"
    "b = CHR ''#'' \<Longrightarrow> end_loop ar c e v = Some (calc', exit', res)"
    by (auto simp: vs)
  have peek: "peek_op calc = Some (op_char q)" by (rule peek_op_rep [OF rep])
  have "op_result ar vs (q # ps) exit_status w exit'"
    unfolding vs by (rule op_result_step [OF ve Cons.prems(3) w(2)])
  moreover have "b \<in> {CHR ''('', CHR ''['', CHR ''{'', CHR ''#''} \<Longrightarrow>
      parantheses_loop ar calc exit_status start = Some (calc', exit', res)"
    using w(4) peek c(1) op_char_facts(5) [of q] by (subst parantheses_loop.simps) auto
  moreover have "b = CHR ''#'' \<Longrightarrow> end_loop ar calc exit_status start = Some (calc', exit', res)"
    using w(5) peek c(1) op_char_facts(5) [of q] by (subst end_loop.simps) auto
  ultimately show ?case using w(1,3) by blast
qed

lemma parantheses_loop_reduce:
  assumes rep: "calc_rep calc (vs @ ns) (map op_char ps @ b # os) p st k" and "vs = x # xs" "length vs = Suc (length ps)"
    and b: "b \<in> {CHR ''('', CHR ''['', CHR ''{'', CHR ''#''}"
  obtains calc' v exit' where "calc_rep calc' (v # ns) (b # os) p st k" "op_result ar vs ps SUCCESS v exit'"
    "parantheses_loop ar calc SUCCESS x = Some (calc', exit', v)"
proof -
  have "hd vs = x" "SUCCESS \<in> {SUCCESS, MATH_ERROR}" using assms(2) by auto
  with loops_reduce [OF rep assms(3), where exit_status = SUCCESS and ar = ar and start = x] b that
  show thesis by blast
qed

section \<open>Reading an expression\<close>

lemma aget_drop: "drop p str = c # rest \<Longrightarrow> aget str p = Some c"
  by (metis aget_eq_Some drop_all list.distinct(1) not_less nth_via_drop)

lemma drop_drop_append: "drop p str = xs @ ys \<Longrightarrow> drop (p + length xs) str = ys"
  by (metis add.commute append_eq_conv_conj drop_drop)

text \<open>While an operator of no higher priority follows, the waiting operators are applied one by one;
  the position goes back to the operator each time.\<close>

lemma calc_loop_reduce:
  assumes "calc_rep calc (vs @ ns) (map op_char ps @ os) p WAIT_FOR_OP k" "length vs = Suc (length ps)"
    and str_p: "drop p str = op_char q # rest" and "\<forall>r \<in> set ps. op_prio q \<le> op_prio r" "q = Pow \<Longrightarrow> ps = []"
  shows "case reduce ar vs ps of
      None \<Rightarrow> calc_loop ar strtod str calc SUCCESS = Some (d_zero ar, MATH_ERROR)
    | Some v \<Rightarrow> \<exists>calc'. calc_rep calc' (v # ns) os p WAIT_FOR_OP k
        \<and> calc_loop ar strtod str calc SUCCESS = calc_loop ar strtod str calc' SUCCESS"
  using assms
proof (induction ps arbitrary: calc vs)
  case Nil
  then obtain v where "vs = [v]" by (cases vs) auto
  then show ?case using Nil.prems by auto
next
  case (Cons r ps)
  obtain y x us where vs: "vs = y # x # us" using Cons.prems(2) by (cases vs; cases "tl vs") auto
  obtain v e where ve: "(v, e) = (case apply_op ar r x y of Some v \<Rightarrow> (v, SUCCESS) | None \<Rightarrow> (d_zero ar, MATH_ERROR))"
    by (metis surj_pair)
  let ?calc = "calc\<lparr>math_exp := p + 1\<rparr>"
  have rep: "calc_rep ?calc (y # x # us @ ns) (op_char r # map op_char ps @ os) (p + 1) WAIT_FOR_OP k"
    using calc_rep_update(2) [OF Cons.prems(1), of "p + 1"] by (simp add: vs)
  obtain c where c: "CalcOperation ar ?calc SUCCESS = Some (c, e, v)"
    "calc_rep c (v # us @ ns) (map op_char ps @ os) (p + 1) WAIT_FOR_OP k"
    using CalcOperation_rep [OF rep ve] by blast
  let ?c = "c\<lparr>math_exp := p\<rparr>"
  have "math_exp c = p + 1" using calc_rep_fields [OF c(2)] by simp
  have rep': "calc_rep ?c ((v # us) @ ns) (map op_char ps @ os) p WAIT_FOR_OP k"
    using calc_rep_update(2) [OF c(2), of p] by simp
  have "q \<noteq> Pow" using Cons.prems(5) by auto
  moreover note \<open>math_exp c = p + 1\<close>
  moreover have "op_prio q \<le> op_prio r" using Cons.prems(4) by simp
  ultimately have corr: "CorrectOperator ar str ?calc SUCCESS = Some (?c, e, d_zero ar)"
    using aget_drop [OF str_p] peek_op_rep [OF rep] c(1) op_char_facts
    by (simp add: CorrectOperator_def TwoPowerInRow_def GetOperatorPriority_def)
  have fields: "math_exp calc = p" "curren_state calc = WAIT_FOR_OP" using calc_rep_fields [OF Cons.prems(1)] by auto
  have "main_func_lut ar str (op_char q) = CorrectOperator ar str"
    using op_char_facts(4,6) [of q] by (simp add: main_func_lut_def)
  then have step: "state_lut ar strtod str calc SUCCESS =
      Some (?c, e, if e \<noteq> SUCCESS then d_zero ar else d_zero ar)"
    using fields aget_drop [OF str_p] corr op_char_facts(2) [of q] by (simp add: state_lut_def WaitForOp_def GetOp_def)
  have loop: "calc_loop ar strtod str calc SUCCESS =
      (if e \<noteq> SUCCESS then Some (d_zero ar, e) else calc_loop ar strtod str ?c SUCCESS)"
    using step fields aget_drop [OF str_p] op_char_facts(4) [of q] CalcDestroy_rep [OF rep']
    by (subst calc_loop.simps) simp
  show ?case
  proof (cases "apply_op ar r x y")
    case None
    then show ?thesis using ve loop by (simp add: vs)
  next
    case (Some w)
    then have "e = SUCCESS" "v = w" using ve by auto
    with Cons.IH [OF rep'] Cons.prems(2-5) loop Some \<open>q \<noteq> Pow\<close> show ?thesis
      by (simp add: vs split: option.splits)
  qed
qed

text \<open>The operator on top of the stack gives way to an expression of priority \<open>k\<close>.\<close>

definition gives_way :: "char list \<Rightarrow> int \<Rightarrow> bool" where
  "gives_way os k \<longleftrightarrow> (\<exists>c cs. os = c # cs \<and> 0 \<le> c_char c \<and> (lut_priority c < k \<or> (c = CHR ''^'' \<and> k = 3)))"

lemma gives_way_mono: "gives_way os k \<Longrightarrow> k \<le> k' \<Longrightarrow> gives_way os k'"
proof -
  have "lut_priority (CHR ''^'') = 3" by (simp add: lut_priority_def)
  moreover assume "gives_way os k" "k \<le> k'"
  ultimately show ?thesis unfolding gives_way_def by (elim exE conjE disjE) auto
qed

lemma gives_way_op:
  "(if p = Pow then 3 \<le> k else op_prio p < k) \<Longrightarrow> gives_way (op_char p # os) k"
  using op_char_facts [of p] by (cases p) (auto simp: gives_way_def)

lemma open_char_facts:
  "open_char b \<in> {CHR ''('', CHR ''['', CHR ''{''}" "c_char (open_char b) = lut_priority (close_char b)"
  "0 \<le> c_char (open_char b)" "lut_priority (open_char b) = 0" "0 \<le> c_char (close_char b)"
  "close_char b \<in> {CHR '')'', CHR '']'', CHR ''}''}" "close_char b \<in> follow" "close_char b \<noteq> NUL"
  "open_char b \<noteq> NUL" "open_char b \<noteq> CHR ''#''"
  by (cases b; simp add: lut_priority_def c_char_def follow_def NUL_def)+

lemma gives_way_open: "gives_way (open_char b # os) (expr_prio e)"
  using open_char_facts [of b] expr_prio_range [of e] by (auto simp: gives_way_def)

lemma calc_loop_push:
  assumes rep: "calc_rep calc ns os p WAIT_FOR_OP k" and str_p: "drop p str = op_char q # rest"
    and "gives_way os (op_prio q)" "length os < 1000"
  shows "\<exists>calc'. calc_rep calc' ns (op_char q # os) (p + 1) WAIT_FOR_NUM k
    \<and> calc_loop ar strtod str calc SUCCESS = calc_loop ar strtod str calc' SUCCESS"
proof -
  let ?calc = "calc\<lparr>math_exp := p + 1\<rparr>"
  have rep1: "calc_rep ?calc ns os (p + 1) WAIT_FOR_OP k" by (rule calc_rep_update(2) [OF rep])
  obtain c cs where os: "os = c # cs" "0 \<le> c_char c" "lut_priority c < op_prio q \<or> (c = CHR ''^'' \<and> q = Pow)"
    using assms(3) by (cases q) (auto simp: gives_way_def)
  obtain c1 where c1: "push_op ?calc (op_char q) = Some c1" "calc_rep c1 ns (op_char q # os) (p + 1) WAIT_FOR_OP k"
    using push_op_rep [OF rep1 assms(4)] by blast
  let ?c = "c1\<lparr>curren_state := WAIT_FOR_NUM\<rparr>"
  have rep2: "calc_rep ?c ns (op_char q # os) (p + 1) WAIT_FOR_NUM k" by (rule calc_rep_update(3) [OF c1(2)])
  have peek: "peek_op ?calc = Some c" using peek_op_rep rep1 os(1) by blast
  have prio: "GetOperatorPriority (op_char q) = Some (op_prio q)" "GetOperatorPriority c = Some (lut_priority c)"
    using os(2) op_char_facts(1,2) [of q] by (simp_all add: GetOperatorPriority_def)
  have "CorrectOperator ar str ?calc SUCCESS = Some (?c, SUCCESS, d_zero ar)"
    using aget_drop [OF str_p] peek c1(1) os(3) prio
    by (auto simp: CorrectOperator_def TwoPowerInRow_def op_char_facts(7))
  moreover have "main_func_lut ar str (op_char q) = CorrectOperator ar str"
    using op_char_facts(4,6) [of q] by (simp add: main_func_lut_def)
  ultimately have "state_lut ar strtod str calc SUCCESS = Some (?c, SUCCESS, d_zero ar)"
    using calc_rep_fields [OF rep] aget_drop [OF str_p] op_char_facts(2) [of q]
    by (simp add: state_lut_def WaitForOp_def GetOp_def)
  then have "calc_loop ar strtod str calc SUCCESS = calc_loop ar strtod str ?c SUCCESS"
    using calc_rep_fields [OF rep] aget_drop [OF str_p] op_char_facts(4) [of q] by (subst calc_loop.simps) simp
  then show ?thesis using rep2 by blast
qed

lemma calc_loop_num:
  assumes rep: "calc_rep calc ns os p WAIT_FOR_NUM k" and w: "number_lexeme strtod w v"
    and str_p: "drop p str = w @ c # rest" and "c \<in> follow" "length ns < 100"
  shows "\<exists>calc'. calc_rep calc' (v # ns) os (p + length w) WAIT_FOR_OP k
    \<and> calc_loop ar strtod str calc st = calc_loop ar strtod str calc' SUCCESS"
proof -
  obtain d ds where d: "w = d # ds" "d \<notin> {NUL, CHR ''('', CHR ''['', CHR ''{''}"
    using w by (cases w) (auto simp: number_lexeme_def)
  have conv: "strtod str p = (v, p + length w)" using w assms(3,4) unfolding number_lexeme_def by blast
  have at: "aget str p = Some d" using aget_drop str_p d(1) by fastforce
  let ?calc = "calc\<lparr>math_exp := p + length w\<rparr>"
  have rep1: "calc_rep ?calc ns os (p + length w) WAIT_FOR_NUM k" by (rule calc_rep_update(2) [OF rep])
  obtain c1 where c1: "push_num ?calc v = Some c1" "calc_rep c1 (v # ns) os (p + length w) WAIT_FOR_NUM k"
    using push_num_rep [OF rep1 assms(5)] by blast
  let ?c = "c1\<lparr>curren_state := WAIT_FOR_OP\<rparr>"
  have rep2: "calc_rep ?c (v # ns) os (p + length w) WAIT_FOR_OP k" by (rule calc_rep_update(3) [OF c1(2)])
  have "state_lut ar strtod str calc st = Some (?c, SUCCESS, d_zero ar)"
    using calc_rep_fields [OF rep] at d conv c1(1) by (simp add: state_lut_def WaitForNum_def GetNum_def)
  then have "calc_loop ar strtod str calc st = calc_loop ar strtod str ?c SUCCESS"
    using calc_rep_fields [OF rep] at d(2) by (subst calc_loop.simps) simp
  then show ?thesis using rep2 by blast
qed

lemma calc_loop_open:
  assumes rep: "calc_rep calc ns os p WAIT_FOR_NUM k" and str_p: "drop p str = open_char b # rest"
    and "length os < 1000"
  shows "\<exists>calc'. calc_rep calc' ns (open_char b # os) (p + 1) WAIT_FOR_NUM (k + 1)
    \<and> calc_loop ar strtod str calc st = calc_loop ar strtod str calc' SUCCESS"
proof -
  let ?calc = "calc\<lparr>math_exp := p + 1\<rparr>"
  have rep1: "calc_rep ?calc ns os (p + 1) WAIT_FOR_NUM k" by (rule calc_rep_update(2) [OF rep])
  obtain c1 where c1: "push_op ?calc (open_char b) = Some c1"
    "calc_rep c1 ns (open_char b # os) (p + 1) WAIT_FOR_NUM k"
    using push_op_rep [OF rep1 assms(3)] by blast
  let ?c = "c1\<lparr>parantheses_counter := k + 1\<rparr>"
  have rep2: "calc_rep ?c ns (open_char b # os) (p + 1) WAIT_FOR_NUM (k + 1)" by (rule calc_rep_update(4) [OF c1(2)])
  have "state_lut ar strtod str calc st = Some (?c, SUCCESS, d_zero ar)"
    using calc_rep_fields [OF rep] aget_drop [OF str_p] c1 calc_rep_fields [OF c1(2)] open_char_facts(1,9) [of b]
    by (simp add: state_lut_def WaitForNum_def GetNum_def)
  then have "calc_loop ar strtod str calc st = calc_loop ar strtod str ?c SUCCESS"
    using calc_rep_fields [OF rep] aget_drop [OF str_p] open_char_facts(9) [of b] by (subst calc_loop.simps) simp
  then show ?thesis using rep2 by blast
qed

lemma calc_loop_close:
  assumes rep: "calc_rep calc (vs @ ns) (map op_char ps @ open_char b # os) p WAIT_FOR_OP k"
    and len: "length vs = Suc (length ps)" and str_p: "drop p str = close_char b # rest"
  shows "case reduce ar vs ps of
      None \<Rightarrow> calc_loop ar strtod str calc SUCCESS = Some (d_zero ar, MATH_ERROR)
    | Some v \<Rightarrow> \<exists>calc'. calc_rep calc' (v # ns) os (p + 1) WAIT_FOR_OP (k - 1)
        \<and> calc_loop ar strtod str calc SUCCESS = calc_loop ar strtod str calc' SUCCESS"
proof -
  let ?calc = "calc\<lparr>math_exp := p + 1\<rparr>"
  have rep1: "calc_rep ?calc (vs @ ns) (map op_char ps @ open_char b # os) (p + 1) WAIT_FOR_OP k"
    by (rule calc_rep_update(2) [OF rep])
  obtain x xs where x: "vs = x # xs" using len by (cases vs) auto
  have peek: "peek_num ?calc = Some x" using rep1 x by (auto intro: peek_num_rep)
  have "open_char b \<in> {CHR ''('', CHR ''['', CHR ''{'', CHR ''#''}" using open_char_facts(1) [of b] by blast
  then obtain c1 v e where c1: "calc_rep c1 (v # ns) (open_char b # os) (p + 1) WAIT_FOR_OP k"
    "op_result ar vs ps SUCCESS v e" "parantheses_loop ar ?calc SUCCESS x = Some (c1, e, v)"
    by (rule parantheses_loop_reduce [OF rep1 x len])
  obtain c2 where c2: "pop_op (c1\<lparr>parantheses_counter := k - 1\<rparr>) = Some c2"
    "calc_rep c2 (v # ns) os (p + 1) WAIT_FOR_OP (k - 1)"
    using pop_op_rep [OF calc_rep_update(4) [OF c1(1)]] by blast
  have "Parantheses ar str ?calc SUCCESS = Some (c2, e, v)"
    using aget_drop [OF str_p] peek c1(3) c2(1) peek_op_rep [OF c1(1)] calc_rep_fields [OF c1(1)] open_char_facts [of b]
    by (simp add: Parantheses_def GetOperatorPriority_def)
  moreover have "main_func_lut ar str (close_char b) = Parantheses ar str"
    using open_char_facts(6,8) [of b] by (cases b) (simp_all add: main_func_lut_def)
  ultimately have "state_lut ar strtod str calc SUCCESS = Some (c2, e, if e \<noteq> SUCCESS then d_zero ar else v)"
    using calc_rep_fields [OF rep] aget_drop [OF str_p] open_char_facts(5) [of b]
    by (simp add: state_lut_def WaitForOp_def GetOp_def)
  then have "calc_loop ar strtod str calc SUCCESS =
      (if e \<noteq> SUCCESS then Some (d_zero ar, e) else calc_loop ar strtod str c2 SUCCESS)"
    using calc_rep_fields [OF rep] aget_drop [OF str_p] open_char_facts(8) [of b] CalcDestroy_rep [OF c2(2)]
    by (subst calc_loop.simps) simp
  then show ?thesis using c1(2) c2(2) by (auto simp: op_result_def split: option.splits)
qed

section \<open>Correctness of the calculator\<close>

lemma calc_loop_expr:
  assumes "parsed e" "\<forall>w \<in> lexemes e. number_lexeme strtod w (val w)"
    and "calc_rep calc ns os p WAIT_FOR_NUM k" "drop p str = show_expr e @ c # rest" "c \<in> follow"
    and "length ns + num_depth e \<le> 100" "length os + op_depth e \<le> 1000" "gives_way os (expr_prio e)"
  shows "case scan ar val e of
      None \<Rightarrow> calc_loop ar strtod str calc st = Some (d_zero ar, MATH_ERROR)
    | Some (vs, ps) \<Rightarrow> \<exists>calc'. calc_rep calc' (vs @ ns) (map op_char ps @ os) (p + length (show_expr e)) WAIT_FOR_OP k
        \<and> calc_loop ar strtod str calc st = calc_loop ar strtod str calc' SUCCESS"
  using assms
proof (induction e arbitrary: calc ns os p k c rest st)
  case (Num w)
  then show ?case using calc_loop_num [of calc ns os p k strtod w "val w" str c rest ar st] by simp
next
  case (Group b e)
  have str_p: "drop p str = open_char b # show_expr e @ close_char b # c # rest" using Group.prems(4) by simp
  obtain c1 where c1: "calc_rep c1 ns (open_char b # os) (p + 1) WAIT_FOR_NUM (k + 1)"
    "calc_loop ar strtod str calc st = calc_loop ar strtod str c1 SUCCESS"
    using calc_loop_open [OF Group.prems(3) str_p, of ar strtod st] Group.prems(7) by auto
  have str1: "drop (p + 1) str = show_expr e @ close_char b # c # rest"
    using drop_drop_append [of p str "[open_char b]"] str_p by simp
  have ih: "case scan ar val e of None \<Rightarrow> calc_loop ar strtod str c1 SUCCESS = Some (d_zero ar, MATH_ERROR)
    | Some (vs, ps) \<Rightarrow> \<exists>calc'. calc_rep calc' (vs @ ns) (map op_char ps @ open_char b # os)
          (p + 1 + length (show_expr e)) WAIT_FOR_OP (k + 1)
        \<and> calc_loop ar strtod str c1 SUCCESS = calc_loop ar strtod str calc' SUCCESS"
    using Group.IH [OF _ _ c1(1) str1] Group.prems open_char_facts(7) [of b] gives_way_open by simp
  have str2: "drop (p + 1 + length (show_expr e)) str = close_char b # c # rest"
    using drop_drop_append [OF str1] by simp
  show ?case
  proof (cases "scan ar val e")
    case None
    then show ?thesis using ih c1(2) eval_scan [of ar val e] by simp
  next
    case (Some r)
    then obtain vs ps where vp: "scan ar val e = Some (vs, ps)" by (cases r) auto
    with ih obtain c2 where c2: "calc_rep c2 (vs @ ns) (map op_char ps @ open_char b # os)
        (p + 1 + length (show_expr e)) WAIT_FOR_OP (k + 1)"
      "calc_loop ar strtod str c1 SUCCESS = calc_loop ar strtod str c2 SUCCESS" by auto
    have "eval ar val e = reduce ar vs ps" using eval_scan [of ar val e] vp by simp
    then show ?thesis
      using calc_loop_close [OF c2(1) scan_lengths [OF vp] str2, of ar strtod] c1(2) c2(2)
      by (auto simp: ac_simps split: option.splits)
  qed
next
  case (Bin q l r)
  have str_p: "drop p str = show_expr l @ op_char q # show_expr r @ c # rest" using Bin.prems(4) by simp
  have le: "op_prio q \<le> expr_prio l" and way_r: "if q = Pow then 3 \<le> expr_prio r else op_prio q < expr_prio r"
    using Bin.prems(1) op_prio_range(3) [of q] by (auto split: if_splits)
  have way_l: "gives_way os (expr_prio l)" using gives_way_mono [OF _ le] Bin.prems(8) by simp
  have ihl: "case scan ar val l of None \<Rightarrow> calc_loop ar strtod str calc st = Some (d_zero ar, MATH_ERROR)
    | Some (vs, ps) \<Rightarrow> \<exists>calc'. calc_rep calc' (vs @ ns) (map op_char ps @ os) (p + length (show_expr l)) WAIT_FOR_OP k
        \<and> calc_loop ar strtod str calc st = calc_loop ar strtod str calc' SUCCESS"
    using Bin.IH(1) [OF _ _ Bin.prems(3) str_p _ _ _ way_l] Bin.prems op_char_facts(3) [of q] by simp
  have str1: "drop (p + length (show_expr l)) str = op_char q # show_expr r @ c # rest"
    by (rule drop_drop_append [OF str_p])
  have str2: "drop (p + length (show_expr l) + 1) str = show_expr r @ c # rest"
    using drop_drop_append [of "p + length (show_expr l)" str "[op_char q]"] str1 by simp
  show ?case
  proof (cases "eval ar val l")
    case None
    show ?thesis
    proof (cases "scan ar val l")
      case None
      then show ?thesis using ihl \<open>eval ar val l = None\<close> by simp
    next
      case (Some x)
      then obtain vs ps where vp: "scan ar val l = Some (vs, ps)" by (cases x) auto
      with ihl obtain c1 where c1: "calc_rep c1 (vs @ ns) (map op_char ps @ os) (p + length (show_expr l)) WAIT_FOR_OP k"
        "calc_loop ar strtod str calc st = calc_loop ar strtod str c1 SUCCESS" by auto
      have "\<forall>r \<in> set ps. op_prio q \<le> op_prio r" using scan_prio [OF _ vp] Bin.prems(1) le by fastforce
      moreover have "q = Pow \<Longrightarrow> ps = []" using scan_atom [OF _ vp] Bin.prems(1) by simp
      ultimately show ?thesis
        using calc_loop_reduce [OF c1(1) scan_lengths [OF vp] str1, of ar strtod] c1(2)
          eval_scan [of ar val l] vp None by simp
    qed
  next
    case (Some v)
    then obtain vs ps where vp: "scan ar val l = Some (vs, ps)" "reduce ar vs ps = Some v"
      using eval_scan [of ar val l] by (auto simp: bind_eq_Some_conv)
    with ihl obtain c1 where c1: "calc_rep c1 (vs @ ns) (map op_char ps @ os) (p + length (show_expr l)) WAIT_FOR_OP k"
      "calc_loop ar strtod str calc st = calc_loop ar strtod str c1 SUCCESS" by auto
    have "\<forall>r \<in> set ps. op_prio q \<le> op_prio r" using scan_prio [OF _ vp(1)] Bin.prems(1) le by fastforce
    moreover have "q = Pow \<Longrightarrow> ps = []" using scan_atom [OF _ vp(1)] Bin.prems(1) by simp
    ultimately obtain c2 where c2: "calc_rep c2 (v # ns) os (p + length (show_expr l)) WAIT_FOR_OP k"
      "calc_loop ar strtod str c1 SUCCESS = calc_loop ar strtod str c2 SUCCESS"
      using calc_loop_reduce [OF c1(1) scan_lengths [OF vp(1)] str1, of ar strtod] vp(2) by auto
    have "gives_way os (op_prio q)" "length os < 1000" using Bin.prems(7,8) by auto
    from calc_loop_push [OF c2(1) str1 this, of ar strtod] obtain c3 where
      c3: "calc_rep c3 (v # ns) (op_char q # os) (p + length (show_expr l) + 1) WAIT_FOR_NUM k"
      "calc_loop ar strtod str c2 SUCCESS = calc_loop ar strtod str c3 SUCCESS" by auto
    have ihr: "case scan ar val r of None \<Rightarrow> calc_loop ar strtod str c3 SUCCESS = Some (d_zero ar, MATH_ERROR)
      | Some (vs, ps) \<Rightarrow> \<exists>calc'. calc_rep calc' (vs @ v # ns) (map op_char ps @ op_char q # os)
            (p + length (show_expr l) + 1 + length (show_expr r)) WAIT_FOR_OP k
          \<and> calc_loop ar strtod str c3 SUCCESS = calc_loop ar strtod str calc' SUCCESS"
      using Bin.IH(2) [OF _ _ c3(1) str2 Bin.prems(5) _ _ gives_way_op [OF way_r]] Bin.prems by simp
    show ?thesis
    proof (cases "scan ar val r")
      case None
      then show ?thesis using ihr c1(2) c2(2) c3(2) Some by simp
    next
      case (Some y)
      then show ?thesis using ihr c1(2) c2(2) c3(2) \<open>eval ar val l = Some v\<close>
        by (cases y) (auto simp: ac_simps)
    qed
  qed
qed

lemma CalcInit_rep:
  "\<exists>calc. CalcInit (True, True) (True, True) p = Some calc \<and> calc_rep calc [] [CHR ''#''] p WAIT_FOR_NUM 0"
proof -
  define s where "s = (\<lparr>stack_elements = replicate 1000 None, stack_pointer = - 1, stack_capacity = 1000\<rparr> :: char stack)"
  have s: "stack_inv s" "stack_abs s = []" "stack_capacity s = 1000"
    by (simp_all add: s_def stack_inv_def stack_abs_def)
  obtain s' where s': "StackPush s (CHR ''#'') = Some s'" "stack_inv s'" "stack_abs s' = [CHR ''#'']" "stack_capacity s' = 1000"
    using StackPush_ok [OF s(1), of "CHR ''#''"] s by auto
  show ?thesis
    using s' unfolding CalcInit_def StackCreate_def
    by (simp add: calc_rep_def stack_inv_def stack_abs_def flip: s_def)
qed

lemma calc_loop_end:
  assumes rep: "calc_rep calc vs (map op_char ps @ [CHR ''#'']) p WAIT_FOR_OP 0"
    and len: "length vs = Suc (length ps)" and str_p: "drop p str = NUL # rest"
  shows "calc_loop ar strtod str calc SUCCESS =
    Some (case reduce ar vs ps of None \<Rightarrow> (d_zero ar, MATH_ERROR) | Some v \<Rightarrow> (v, SUCCESS))"
proof -
  let ?calc = "calc\<lparr>math_exp := p + 1\<rparr>"
  have rep1: "calc_rep ?calc (vs @ []) (map op_char ps @ CHR ''#'' # []) (p + 1) WAIT_FOR_OP 0"
    using calc_rep_update(2) [OF rep] by simp
  obtain x xs where x: "vs = x # xs" using len by (cases vs) auto
  have peek: "peek_num ?calc = Some x" using rep1 x by (auto intro: peek_num_rep)
  obtain c1 v e where c1: "calc_rep c1 [v] [CHR ''#''] (p + 1) WAIT_FOR_OP 0"
    "op_result ar vs ps SUCCESS v e" "end_loop ar ?calc SUCCESS x = Some (c1, e, v)"
    using loops_reduce [OF rep1 len, where exit_status = SUCCESS and ar = ar and start = x] x by auto
  have "state_lut ar strtod str calc SUCCESS = Some (c1, e, if e \<noteq> SUCCESS then d_zero ar else v)"
    using calc_rep_fields [OF rep] aget_drop [OF str_p] peek c1(3)
    by (simp add: state_lut_def WaitForOp_def GetOp_def main_func_lut_def EndOfEx_def)
  then show ?thesis
    using calc_rep_fields [OF rep] aget_drop [OF str_p] CalcDestroy_rep [OF c1(1)] c1(2)
    by (subst calc_loop.simps) (auto simp: op_result_def split: option.splits)
qed

text \<open>C34. The two-stack calculator computes the value of the expression it is given. Take a syntax
  tree in which \<open>^\<close> binds strongest and groups to the right, then \<open>*\<close> and \<open>/\<close>, then \<open>+\<close> and \<open>-\<close>, both
  grouping to the left, with brackets of the three kinds, and numbers that \<open>strtod\<close> reads as \<open>val\<close>.
  If at most 100 numbers and 999 operators wait at any time, \<open>Calculate\<close> on its text returns
  \<open>SUCCESS\<close> with the value of the tree, and 0 with \<open>MATH_ERROR\<close> exactly when the tree divides by zero
  or takes a power outside the domain, whatever the exit status was before.\<close>

theorem Calculate_evaluates:
  fixes ar :: "'n double_arith"
  assumes "parsed e" "\<forall>w \<in> lexemes e. number_lexeme strtod w (val w)"
    and "num_depth e \<le> 100" "op_depth e \<le> 999" and "str = pre @ show_expr e @ NUL # rest"
  shows "Calculate ar strtod True (True, True) (True, True) str (length pre) st =
    Some (case eval ar val e of None \<Rightarrow> (d_zero ar, MATH_ERROR) | Some v \<Rightarrow> (v, SUCCESS))"
proof -
  obtain calc :: "'n calc" where calc: "CalcInit (True, True) (True, True) (length pre) = Some calc"
    "calc_rep calc [] [CHR ''#''] (length pre) WAIT_FOR_NUM 0" using CalcInit_rep by blast
  have str_p: "drop (length pre) str = show_expr e @ NUL # rest" using assms(5) by simp
  have "gives_way [CHR ''#''] (expr_prio e)"
    using expr_prio_range [of e] by (simp add: gives_way_def lut_priority_def c_char_def)
  then have run: "case scan ar val e of None \<Rightarrow> calc_loop ar strtod str calc st = Some (d_zero ar, MATH_ERROR)
    | Some (vs, ps) \<Rightarrow> \<exists>calc'. calc_rep calc' (vs @ []) (map op_char ps @ [CHR ''#'']) (length pre + length (show_expr e)) WAIT_FOR_OP 0
        \<and> calc_loop ar strtod str calc st = calc_loop ar strtod str calc' SUCCESS"
    using calc_loop_expr [OF assms(1,2) calc(2) str_p, of ar st] assms(3,4) by (simp add: follow_def)
  have "drop (length pre + length (show_expr e)) str = NUL # rest" by (rule drop_drop_append [OF str_p])
  then have "calc_loop ar strtod str calc st =
      Some (case eval ar val e of None \<Rightarrow> (d_zero ar, MATH_ERROR) | Some v \<Rightarrow> (v, SUCCESS))"
    using run scan_lengths [of ar val e] eval_scan [of ar val e]
    by (auto simp: calc_loop_end split: option.splits)
  then show ?thesis using calc(1) by (simp add: Calculate_def)
qed

section \<open>Texts that are not expressions\<close>

lemma Parantheses_mismatch:
  assumes rep: "calc_rep calc (vs @ ns) (map op_char ps @ b # os) p WAIT_FOR_OP k"
    and len: "length vs = Suc (length ps)" and str_p: "drop p str = close_char b' # rest"
    and b: "b \<in> {CHR ''('', CHR ''['', CHR ''{'', CHR ''#''}" "b \<noteq> open_char b'"
  shows "calc_loop ar strtod str calc SUCCESS = Some (d_zero ar, SYNTAX_ERROR)"
proof -
  let ?calc = "calc\<lparr>math_exp := p + 1\<rparr>"
  have rep1: "calc_rep ?calc (vs @ ns) (map op_char ps @ b # os) (p + 1) WAIT_FOR_OP k"
    by (rule calc_rep_update(2) [OF rep])
  obtain x xs where x: "vs = x # xs" using len by (cases vs) auto
  have peek: "peek_num ?calc = Some x" using rep1 x by (auto intro: peek_num_rep)
  obtain c1 v e where c1: "calc_rep c1 (v # ns) (b # os) (p + 1) WAIT_FOR_OP k"
    "parantheses_loop ar ?calc SUCCESS x = Some (c1, e, v)"
    by (rule parantheses_loop_reduce [OF rep1 x len b(1)])
  have "c_char (open_char b') \<noteq> c_char b" using b(2) by (metis c_char_inj)
  then have "Parantheses ar str ?calc SUCCESS = Some (c1, SYNTAX_ERROR, d_zero ar)"
    using aget_drop [OF str_p] peek c1(2) peek_op_rep [OF c1(1)] open_char_facts(2,5) [of b']
    by (simp add: Parantheses_def GetOperatorPriority_def)
  moreover have "main_func_lut ar str (close_char b') = Parantheses ar str"
    using open_char_facts(6,8) [of b'] by (cases b') (simp_all add: main_func_lut_def)
  ultimately have "state_lut ar strtod str calc SUCCESS = Some (c1, SYNTAX_ERROR, d_zero ar)"
    using calc_rep_fields [OF rep] aget_drop [OF str_p] open_char_facts(5) [of b']
    by (simp add: state_lut_def WaitForOp_def GetOp_def)
  then show ?thesis
    using calc_rep_fields [OF rep] aget_drop [OF str_p] open_char_facts(8) [of b'] CalcDestroy_rep [OF c1(1)]
    by (subst calc_loop.simps) simp
qed

lemma missing_operand:
  assumes rep: "calc_rep calc ns os p WAIT_FOR_NUM k" and str_p: "drop p str = NUL # rest"
  shows "calc_loop ar strtod str calc SUCCESS = Some (d_zero ar, SYNTAX_ERROR)"
  using calc_rep_fields [OF rep] aget_drop [OF str_p] CalcDestroy_rep [OF rep] CalcDestroy_rep [OF calc_rep_update(2) [OF rep]]
  by (subst calc_loop.simps) (simp add: state_lut_def WaitForNum_def GetNum_def split_beta NUL_def)

lemma gives_way_top:
  "gives_way (op_char r # os) (op_prio q) \<longleftrightarrow> op_prio r < op_prio q \<or> (r = Pow \<and> q = Pow)"
  using op_char_facts [of r] by (cases r; cases q) (auto simp: gives_way_def)

lemma missing_after_operator:
  assumes "calc_rep calc (vs @ ns) (map op_char ps @ [CHR ''#'']) p WAIT_FOR_OP k" "length vs = Suc (length ps)"
    and "reduce ar vs ps \<noteq> None" "length ps < 999" and str_p: "drop p str = op_char q # NUL # rest"
  shows "calc_loop ar strtod str calc SUCCESS = Some (d_zero ar, SYNTAX_ERROR)"
  using assms(1-4)
proof (induction ps arbitrary: calc vs)
  have push: "calc_loop ar strtod str calc SUCCESS = Some (d_zero ar, SYNTAX_ERROR)"
    if "calc_rep calc ns' os p WAIT_FOR_OP k" "gives_way os (op_prio q)" "length os < 1000" for calc ns' os
    using calc_loop_push [OF that(1) str_p that(2,3), of ar strtod] missing_operand
      drop_drop_append [of p str "[op_char q]" "NUL # rest"] str_p by fastforce
  {
    case Nil
    have "gives_way [CHR ''#''] (op_prio q)"
      by (simp add: gives_way_def lut_priority_def c_char_def less_le_trans [OF _ op_prio_range(1)])
    then show ?case using push Nil.prems(1) by auto
  next
    case (Cons r ps)
    show ?case
    proof (cases "gives_way (map op_char (r # ps) @ [CHR ''#'']) (op_prio q)")
      case True
      then show ?thesis using push [OF Cons.prems(1)] Cons.prems(4) by simp
    next
      case False
      then have nle: "\<not> (op_prio r < op_prio q \<or> (r = Pow \<and> q = Pow))" by (simp add: gives_way_top)
      have le: "op_prio q \<le> op_prio r" "q \<noteq> Pow" using nle by (cases r; cases q; simp)+
      obtain y x us where vs: "vs = y # x # us" using Cons.prems(2) by (cases vs; cases "tl vs") auto
      obtain v where v: "apply_op ar r x y = Some v" "reduce ar (v # us) ps \<noteq> None"
        using Cons.prems(3) by (auto simp: vs bind_eq_Some_conv)
      have "calc_rep calc ([y, x] @ us @ ns) (map op_char [r] @ map op_char ps @ [CHR ''#'']) p WAIT_FOR_OP k"
        using Cons.prems(1) by (simp add: vs)
      from calc_loop_reduce [OF this _ str_p, of ar strtod] le v(1) obtain c where
        "calc_rep c ((v # us) @ ns) (map op_char ps @ [CHR ''#'']) p WAIT_FOR_OP k"
        "calc_loop ar strtod str calc SUCCESS = calc_loop ar strtod str c SUCCESS" by auto
      then show ?thesis using Cons.IH [of c "v # us"] v(2) Cons.prems(2,4) by (simp add: vs)
    qed
  }
qed

text \<open>Reading \<open>e\<close> after the prefix, up to a character that ends it.\<close>

lemma Calculate_prefix:
  fixes ar :: "'n double_arith"
  assumes e: "parsed e" "\<forall>w \<in> lexemes e. number_lexeme strtod w (val w)" "eval ar val e \<noteq> None"
    and depth: "num_depth e \<le> 100" "op_depth e < 999" and c: "c \<in> follow"
    and calc: "calc_rep calc [] os p WAIT_FOR_NUM k" "length os \<le> 2" "gives_way os (expr_prio e)"
    and str_p: "drop p str = show_expr e @ c # rest"
  obtains vs ps calc' v where "scan ar val e = Some (vs, ps)" "reduce ar vs ps = Some v"
    "calc_rep calc' (vs @ []) (map op_char ps @ os) (p + length (show_expr e)) WAIT_FOR_OP k"
    "calc_loop ar strtod str calc st = calc_loop ar strtod str calc' SUCCESS"
    "drop (p + length (show_expr e)) str = c # rest"
proof -
  obtain vs ps v where vp: "scan ar val e = Some (vs, ps)" "reduce ar vs ps = Some v"
    using e(3) eval_scan [of ar val e] by (auto simp: bind_eq_Some_conv split: option.splits)
  moreover from vp obtain calc' where "calc_rep calc' (vs @ []) (map op_char ps @ os) (p + length (show_expr e)) WAIT_FOR_OP k"
    "calc_loop ar strtod str calc st = calc_loop ar strtod str calc' SUCCESS"
    using calc_loop_expr [OF e(1,2) calc(1) str_p c, of ar st] depth calc(2,3) vp by auto
  ultimately show thesis using that drop_drop_append [OF str_p] by blast
qed

text \<open>The expression behind an opening bracket, and then the end of the text or a closing bracket of
  another kind.\<close>

lemma bracket_errors:
  fixes ar :: "'n double_arith"
  assumes e: "parsed e" "\<forall>w \<in> lexemes e. number_lexeme strtod w (val w)" "eval ar val e \<noteq> None"
    and depth: "num_depth e \<le> 100" "op_depth e < 999"
    and calc: "calc_rep calc [] [CHR ''#''] 0 WAIT_FOR_NUM 0"
    and c: "c = NUL \<or> (\<exists>b'. c = close_char b' \<and> b \<noteq> b')" and str: "str = open_char b # show_expr e @ c # rest"
  shows "calc_loop ar strtod str calc st = Some (d_zero ar, SYNTAX_ERROR)"
proof -
  have fol: "c \<in> follow" using c open_char_facts(7) by (auto simp: follow_def)
  obtain c1 where c1: "calc_rep c1 [] (open_char b # [CHR ''#'']) 1 WAIT_FOR_NUM 1"
    "calc_loop ar strtod str calc st = calc_loop ar strtod str c1 SUCCESS"
    using calc_loop_open [OF calc, of str b "show_expr e @ c # rest" ar strtod st] str by auto
  have str1: "drop 1 str = show_expr e @ c # rest" using str by simp
  obtain vs ps c2 v where c2: "scan ar val e = Some (vs, ps)" "reduce ar vs ps = Some v"
    "calc_rep c2 (vs @ []) (map op_char ps @ [open_char b, CHR ''#'']) (1 + length (show_expr e)) WAIT_FOR_OP 1"
    "calc_loop ar strtod str c1 SUCCESS = calc_loop ar strtod str c2 SUCCESS"
    "drop (1 + length (show_expr e)) str = c # rest"
    by (rule Calculate_prefix [OF e depth fol c1(1) _ gives_way_open str1, of SUCCESS]) simp_all
  have "calc_loop ar strtod str c2 SUCCESS = Some (d_zero ar, SYNTAX_ERROR)"
  proof (cases "c = NUL")
    case True
    then show ?thesis
      using calc_rep_fields [OF c2(3)] aget_drop [OF c2(5)] CalcDestroy_rep [OF c2(3)]
      by (subst calc_loop.simps) simp
  next
    case False
    with c obtain b' where b': "c = close_char b'" "b \<noteq> b'" by auto
    then have "open_char b \<noteq> open_char b'" by (cases b; cases b') auto
    then show ?thesis
      using Parantheses_mismatch [OF c2(3) scan_lengths [OF c2(1)]] c2(5) b'(1) open_char_facts(1) [of b] by auto
  qed
  then show ?thesis using c1(2) c2(4) by simp
qed

text \<open>The expression, and then a bracket that was never opened or an operator without operand.\<close>

lemma trailing_errors:
  fixes ar :: "'n double_arith"
  assumes e: "parsed e" "\<forall>w \<in> lexemes e. number_lexeme strtod w (val w)" "eval ar val e \<noteq> None"
    and depth: "num_depth e \<le> 100" "op_depth e < 999"
    and calc: "calc_rep calc [] [CHR ''#''] 0 WAIT_FOR_NUM 0"
    and c: "c = close_char b \<or> c = op_char q" and str: "str = show_expr e @ c # NUL # rest"
  shows "calc_loop ar strtod str calc st = Some (d_zero ar, SYNTAX_ERROR)"
proof -
  have fol: "c \<in> follow" using c open_char_facts(7) op_char_facts(3) by auto
  have str1: "drop 0 str = show_expr e @ c # NUL # rest" using str by simp
  have way: "gives_way [CHR ''#''] (expr_prio e)"
    using expr_prio_range [of e] by (simp add: gives_way_def lut_priority_def c_char_def)
  obtain vs ps c2 v where c2: "scan ar val e = Some (vs, ps)" "reduce ar vs ps = Some v"
    "calc_rep c2 (vs @ []) (map op_char ps @ [CHR ''#'']) (0 + length (show_expr e)) WAIT_FOR_OP 0"
    "calc_loop ar strtod str calc st = calc_loop ar strtod str c2 SUCCESS"
    "drop (0 + length (show_expr e)) str = c # NUL # rest"
    by (rule Calculate_prefix [OF e depth fol calc _ way str1, of st]) simp_all
  have "length ps < 999" using scan_depth [OF c2(1)] depth(2) by simp
  then have "calc_loop ar strtod str c2 SUCCESS = Some (d_zero ar, SYNTAX_ERROR)"
    using Parantheses_mismatch [OF c2(3) scan_lengths [OF c2(1)], of str b] open_char_facts(10) [of b]
      missing_after_operator [OF c2(3) scan_lengths [OF c2(1)], of ar str q rest] c2(2,5) c by auto
  then show ?thesis using c2(4) by simp
qed

text \<open>\<open>Calculate\<close> reports \<open>SYNTAX_ERROR\<close>, with the result 0, for the texts that are not expressions
  because a bracket is never closed, a bracket is closed by one of another kind, a closing bracket
  was never opened, or the operand after an operator is missing: each around any expression that has
  a value.\<close>

theorem Calculate_syntax_errors:
  fixes ar :: "'n double_arith"
  assumes e: "parsed e" "\<forall>w \<in> lexemes e. number_lexeme strtod w (val w)" "eval ar val e \<noteq> None"
    and depth: "num_depth e \<le> 100" "op_depth e < 999" and "b \<noteq> b'"
    and s: "s \<in> {open_char b # show_expr e, open_char b # show_expr e @ [close_char b'],
      show_expr e @ [close_char b], show_expr e @ [op_char q]}"
  shows "Calculate ar strtod True (True, True) (True, True) (s @ [NUL]) 0 st = Some (d_zero ar, SYNTAX_ERROR)"
proof -
  obtain calc :: "'n calc" where calc: "CalcInit (True, True) (True, True) 0 = Some calc"
    "calc_rep calc [] [CHR ''#''] 0 WAIT_FOR_NUM 0" using CalcInit_rep by blast
  note bracket = bracket_errors [OF e depth calc(2), where b = b and str = "s @ [NUL]" and st = st]
  note trailing = trailing_errors [OF e depth calc(2), where b = b and q = q and str = "s @ [NUL]" and st = st]
  have "close_char b' = NUL \<or> (\<exists>d. close_char b' = close_char d \<and> b \<noteq> d)" using \<open>b \<noteq> b'\<close> by blast
  then have "calc_loop ar strtod (s @ [NUL]) calc st = Some (d_zero ar, SYNTAX_ERROR)"
    using s bracket [of NUL "[]"] bracket [of "close_char b'" "[NUL]"]
      trailing [of "close_char b" "[]"] trailing [of "op_char q" "[]"] by auto
  then show ?thesis using calc(1) by (simp add: Calculate_def)
qed

text \<open>A concrete platform: whole numbers of one digit.\<close>

definition int_arith :: "int double_arith" where
  "int_arith = \<lparr>d_zero = 0, d_plus = (+), d_minus = (-), d_times = (*), d_divide = (div),
     d_pow = (\<lambda>x y. x ^ nat y), d_round = (\<lambda>x. x), d_eq = (=), d_less = (<), d_le = (\<le>)\<rparr>"

definition digit_value :: "char \<Rightarrow> int" where
  "digit_value c = c_char c - 48"

definition digit_strtod :: "int strtod" where
  "digit_strtod str p = (case aget str p of
     Some c \<Rightarrow> if 48 \<le> c_char c \<and> c_char c \<le> 57 then (digit_value c, p + 1) else (0, p)
   | None \<Rightarrow> (0, p))"

lemma number_lexeme_digit:
  "48 \<le> c_char c \<and> c_char c \<le> 57 \<Longrightarrow> number_lexeme digit_strtod [c] (digit_value c)"
proof -
  assume c: "48 \<le> c_char c \<and> c_char c \<le> 57"
  then have "c \<notin> {NUL, CHR ''('', CHR ''['', CHR ''{''}" by (auto simp: c_char_def NUL_def)
  moreover have "drop p str = [c] @ d # rest \<Longrightarrow> digit_strtod str p = (digit_value c, p + 1)" for str p d rest
    using c aget_drop [of p str c] by (simp add: digit_strtod_def)
  ultimately show ?thesis by (auto simp: number_lexeme_def)
qed

definition sample_expr :: expr where
  "sample_expr = Bin Sub (Bin Div (Bin Mul (Bin Pow (Num ''2'') (Bin Pow (Num ''3'') (Num ''2'')))
     (Group Square (Bin Add (Num ''1'') (Num ''4'')))) (Num ''5'')) (Num ''7'')"

lemma sample_expr_facts:
  "show_expr sample_expr = ''2^3^2*[1+4]/5-7''" "parsed sample_expr"
  "num_depth sample_expr = 3" "op_depth sample_expr = 3"
  "eval int_arith (\<lambda>w. digit_value (hd w)) sample_expr = Some 505"
  by (simp_all add: sample_expr_def int_arith_def digit_value_def c_char_def)

lemma sample_expr_lexemes: "\<forall>w \<in> lexemes sample_expr. number_lexeme digit_strtod w (digit_value (hd w))"
  by (auto simp: sample_expr_def c_char_def intro!: number_lexeme_digit)

lemma Calculate_evaluates_witness:
  "Calculate int_arith digit_strtod True (True, True) (True, True) (''2^3^2*[1+4]/5-7'' @ [NUL]) 0 MATH_ERROR
    = Some (505, SUCCESS)"
  using Calculate_evaluates [OF sample_expr_facts(2) sample_expr_lexemes, of "''2^3^2*[1+4]/5-7'' @ [NUL]" "[]" "[]" int_arith MATH_ERROR]
  by (simp add: sample_expr_facts)

lemma Calculate_syntax_errors_witness:
  "Calculate int_arith digit_strtod True (True, True) (True, True) (''(2^3^2*[1+4]/5-7}'' @ [NUL]) 0 SUCCESS
    = Some (0, SYNTAX_ERROR)"
proof -
  have "eval int_arith (\<lambda>w. digit_value (hd w)) sample_expr \<noteq> None" by (simp add: sample_expr_facts(5))
  from Calculate_syntax_errors [OF sample_expr_facts(2) sample_expr_lexemes this, of Round Curly
      "open_char Round # show_expr sample_expr @ [close_char Curly]" Add SUCCESS]
  show ?thesis by (simp add: sample_expr_facts int_arith_def)
qed

end
