(* ===== verification/Handshake.thy ===== *)
theory Handshake
  imports Prelude
begin

text \<open>
  The first producer and consumer, \<open>producers_consumers/ex1/ex1.c\<close>: two threads that take turns by a
  shared flag, on an array of 100 atomic integers. One access to shared memory is one step of its
  thread, and the scheduler may interleave the steps in any way. A thread that spins makes a step
  that changes nothing.
\<close>

section \<open>State\<close>

datatype producer_pc = P_spin | P_update nat | P_raise | P_end

datatype consumer_pc = C_spin | C_add nat | C_clear | C_end

definition ARR_SIZE :: nat where
  "ARR_SIZE = 100"

definition MAX_IDX :: nat where
  "MAX_IDX = 15"

text \<open>\<open>written\<close> is the static counter \<open>num\<close> of \<open>UpdateArr\<close>; \<open>printed\<close> is what \<open>SumPrint\<close> has written out.\<close>

record handshake =
  flag :: int
  arr :: "int list"
  written :: nat
  p_idx :: nat
  p_pc :: producer_pc
  acc :: nat
  c_idx :: nat
  c_pc :: consumer_pc
  printed :: "nat list"

definition handshake_init :: handshake where
  "handshake_init = \<lparr>flag = 0, arr = replicate ARR_SIZE 0, written = 0, p_idx = 0, p_pc = P_spin,
     acc = 0, c_idx = 0, c_pc = C_spin, printed = []\<rparr>"

section \<open>The two threads\<close>

text \<open>\<open>UpdateArr\<close> from index \<open>i\<close> on; when the array is full the counter goes up.\<close>

definition UpdateArr :: "handshake \<Rightarrow> nat \<Rightarrow> handshake option" where
  "UpdateArr s i =
     (if i < ARR_SIZE then do {
        a \<leftarrow> aset (arr s) i (int (written s));
        Some (s\<lparr>arr := a, p_pc := P_update (i + 1)\<rparr>)
      } else Some (s\<lparr>written := written s + 1, p_idx := p_idx s + 1, p_pc := P_raise\<rparr>))"

definition ProducerFunc :: "handshake \<Rightarrow> handshake option" where
  "ProducerFunc s = (case p_pc s of
     P_spin \<Rightarrow> Some (if flag s = 1 then s else s\<lparr>p_pc := P_update 0\<rparr>)
   | P_update i \<Rightarrow> UpdateArr s i
   | P_raise \<Rightarrow> Some (s\<lparr>flag := 1, p_pc := (if p_idx s < MAX_IDX then P_spin else P_end)\<rparr>)
   | P_end \<Rightarrow> None)"

text \<open>The sum is a \<open>size_t\<close>.\<close>

definition SumPrint :: "handshake \<Rightarrow> nat \<Rightarrow> handshake option" where
  "SumPrint s i =
     (if i < ARR_SIZE then do {
        x \<leftarrow> aget (arr s) i;
        Some (s\<lparr>acc := nat ((int (acc s) + x) mod 2 ^ 64), c_pc := C_add (i + 1)\<rparr>)
      } else Some (s\<lparr>printed := printed s @ [acc s], c_idx := c_idx s + 1, c_pc := C_clear\<rparr>))"

definition ConsumerFunc :: "handshake \<Rightarrow> handshake option" where
  "ConsumerFunc s = (case c_pc s of
     C_spin \<Rightarrow> Some (if flag s = 0 then s else s\<lparr>acc := 0, c_pc := C_add 0\<rparr>)
   | C_add i \<Rightarrow> SumPrint s i
   | C_clear \<Rightarrow> Some (s\<lparr>flag := 0, c_pc := (if c_idx s < MAX_IDX then C_spin else C_end)\<rparr>)
   | C_end \<Rightarrow> None)"

inductive handshake_step :: "handshake \<Rightarrow> handshake \<Rightarrow> bool" where
  producer: "ProducerFunc s = Some s' \<Longrightarrow> handshake_step s s'"
| consumer: "ConsumerFunc s = Some s' \<Longrightarrow> handshake_step s s'"

code_pred handshake_step .

section \<open>The invariant\<close>

text \<open>Whose turn it is decides what the other thread can be doing.\<close>

definition producer_turn :: "handshake \<Rightarrow> bool" where
  "producer_turn s \<longleftrightarrow> flag s = 0 \<and> c_pc s = (if c_idx s < MAX_IDX then C_spin else C_end)
     \<and> (case p_pc s of
          P_spin \<Rightarrow> written s = c_idx s \<and> c_idx s < MAX_IDX
        | P_update i \<Rightarrow> written s = c_idx s \<and> c_idx s < MAX_IDX \<and> i \<le> ARR_SIZE \<and> (\<forall>j<i. arr s ! j = int (c_idx s))
        | P_raise \<Rightarrow> written s = c_idx s + 1 \<and> c_idx s < MAX_IDX \<and> (\<forall>j<ARR_SIZE. arr s ! j = int (c_idx s))
        | P_end \<Rightarrow> written s = c_idx s \<and> c_idx s = MAX_IDX)"

definition consumer_turn :: "handshake \<Rightarrow> bool" where
  "consumer_turn s \<longleftrightarrow> flag s = 1 \<and> p_pc s = (if p_idx s < MAX_IDX then P_spin else P_end)
     \<and> (case c_pc s of
          C_spin \<Rightarrow> written s = c_idx s + 1 \<and> (\<forall>j<ARR_SIZE. arr s ! j = int (c_idx s))
        | C_add i \<Rightarrow> written s = c_idx s + 1 \<and> (\<forall>j<ARR_SIZE. arr s ! j = int (c_idx s)) \<and> i \<le> ARR_SIZE
            \<and> acc s = i * c_idx s
        | C_clear \<Rightarrow> written s = c_idx s
        | C_end \<Rightarrow> False)"

definition handshake_inv :: "handshake \<Rightarrow> bool" where
  "handshake_inv s \<longleftrightarrow> length (arr s) = ARR_SIZE \<and> p_idx s = written s \<and> written s \<le> MAX_IDX
     \<and> printed s = map (\<lambda>j. 100 * j) [0..<c_idx s] \<and> (producer_turn s \<or> consumer_turn s)"

lemma handshake_inv_init: "handshake_inv handshake_init"
  by (simp add: handshake_inv_def handshake_init_def producer_turn_def MAX_IDX_def)

lemma handshake_producer_inv: "handshake_inv s \<Longrightarrow> ProducerFunc s = Some s' \<Longrightarrow> handshake_inv s'"
  by (cases "p_pc s")
    (auto simp: handshake_inv_def producer_turn_def consumer_turn_def ProducerFunc_def UpdateArr_def
      aset_eq_Some nth_list_update less_Suc_eq split: if_splits)

lemma size_add:
  "n < 100 \<Longrightarrow> c \<le> MAX_IDX \<Longrightarrow> nat ((int (n * c) + int c) mod 2 ^ 64) = Suc n * c"
proof -
  assume a: "n < 100" "c \<le> MAX_IDX"
  then have "Suc n * c \<le> 100 * 15" unfolding MAX_IDX_def by (intro mult_le_mono) auto
  then have "int (Suc n * c) \<le> int 1500" by (simp only: of_nat_le_iff)
  then have "int (Suc n * c) mod 2 ^ 64 = int (Suc n * c)"
    by (intro mod_pos_pos_trivial of_nat_0_le_iff) (simp del: of_nat_mult)
  moreover have "int (n * c) + int c = int (Suc n * c)" by (simp add: algebra_simps)
  ultimately show ?thesis by (metis nat_int)
qed

lemma handshake_consumer_inv: "handshake_inv s \<Longrightarrow> ConsumerFunc s = Some s' \<Longrightarrow> handshake_inv s'"
proof (cases "c_pc s")
  case (C_add i)
  assume inv: "handshake_inv s" and step: "ConsumerFunc s = Some s'"
  then have c: "c_idx s < MAX_IDX" "i \<le> ARR_SIZE" "acc s = i * c_idx s" "\<forall>j<ARR_SIZE. arr s ! j = int (c_idx s)"
    using C_add by (auto simp: handshake_inv_def producer_turn_def consumer_turn_def split: if_splits)
  show ?thesis
  proof (cases "i < ARR_SIZE")
    case True
    then have "nat ((int (acc s) + arr s ! i) mod 2 ^ 64) = Suc i * c_idx s"
      using size_add [of i "c_idx s"] c by (simp add: ARR_SIZE_def)
    then show ?thesis
      using inv step C_add True c
      by (auto simp: handshake_inv_def producer_turn_def consumer_turn_def ConsumerFunc_def SumPrint_def aget_eq_Some
          split: if_splits)
  next
    case False
    have "map ((*) 100) [0..<c_idx s] @ [100 * c_idx s] = map ((*) 100) [0..<Suc (c_idx s)]" by simp
    with False show ?thesis
      using inv step C_add c
      by (auto simp del: upt_Suc simp: handshake_inv_def producer_turn_def consumer_turn_def ConsumerFunc_def SumPrint_def ARR_SIZE_def
          split: if_splits)
  qed
qed (auto simp: handshake_inv_def producer_turn_def consumer_turn_def ConsumerFunc_def split: if_splits)

lemma handshake_reach_inv: "handshake_step\<^sup>*\<^sup>* handshake_init s \<Longrightarrow> handshake_inv s"
proof (induction rule: rtranclp_induct)
  case (step s s')
  from step.hyps(2) step.IH show ?case
    by cases (auto intro: handshake_producer_inv handshake_consumer_inv)
qed (rule handshake_inv_init)

inductive_cases handshake_stepE: "handshake_step s s'"

section \<open>Safety\<close>

text \<open>C35. In every interleaving of the two threads the producer never writes the array while the
  consumer adds it up, and what the consumer has printed is 0, 100, 200 and so on without a gap or a
  repetition: every sum is that of an array written completely by one round of the producer, and
  there are at most 15 of them.\<close>

theorem handshake_safe:
  assumes "handshake_step\<^sup>*\<^sup>* handshake_init s"
  shows "\<not> ((\<exists>i. p_pc s = P_update i) \<and> (\<exists>i. c_pc s = C_add i))
    \<and> printed s = map (\<lambda>j. 100 * j) [0..<length (printed s)] \<and> length (printed s) \<le> 15"
proof -
  have inv: "handshake_inv s" by (rule handshake_reach_inv [OF assms])
  then have "length (printed s) = c_idx s" "c_idx s \<le> 15"
    by (auto simp: handshake_inv_def producer_turn_def consumer_turn_def MAX_IDX_def
        split: producer_pc.splits consumer_pc.splits)
  moreover have "\<not> ((\<exists>i. p_pc s = P_update i) \<and> (\<exists>i. c_pc s = C_add i))"
    using inv by (auto simp: handshake_inv_def producer_turn_def consumer_turn_def split: if_splits)
  ultimately show ?thesis using inv by (simp add: handshake_inv_def)
qed

section \<open>Progress and termination\<close>

text \<open>The steps each thread has left, spinning not counted.\<close>

definition producer_left :: "handshake \<Rightarrow> nat" where
  "producer_left s = (case p_pc s of
     P_spin \<Rightarrow> (MAX_IDX - p_idx s) * 103
   | P_update i \<Rightarrow> (MAX_IDX - p_idx s) * 103 - 1 - i
   | P_raise \<Rightarrow> (MAX_IDX - p_idx s) * 103 + 1
   | P_end \<Rightarrow> 0)"

definition consumer_left :: "handshake \<Rightarrow> nat" where
  "consumer_left s = (case c_pc s of
     C_spin \<Rightarrow> (MAX_IDX - c_idx s) * 103
   | C_add i \<Rightarrow> (MAX_IDX - c_idx s) * 103 - 1 - i
   | C_clear \<Rightarrow> (MAX_IDX - c_idx s) * 103 + 1
   | C_end \<Rightarrow> 0)"

definition handshake_left :: "handshake \<Rightarrow> nat" where
  "handshake_left s = producer_left s + consumer_left s"

lemma left_step: "k < m \<Longrightarrow> (m - k) * 103 = Suc ((m - Suc k) * 103 + 102)" for k m :: nat
  by (cases m) (simp_all add: Suc_diff_le)

lemma ProducerFunc_left:
  assumes "handshake_inv s" "ProducerFunc s = Some s'" "s' \<noteq> s"
  shows "producer_left s' < producer_left s \<and> consumer_left s' = consumer_left s"
proof -
  have "p_idx s < MAX_IDX" if "p_pc s = P_spin \<or> (\<exists>i. p_pc s = P_update i)"
    using assms(1) that by (auto simp: handshake_inv_def producer_turn_def consumer_turn_def split: if_splits)
  then show ?thesis
    using assms left_step [of "p_idx s" MAX_IDX]
    by (cases "p_pc s")
      (auto simp: producer_left_def consumer_left_def ProducerFunc_def UpdateArr_def ARR_SIZE_def aset_eq_Some
        handshake_inv_def producer_turn_def consumer_turn_def split: if_splits consumer_pc.splits)
qed

lemma ConsumerFunc_left:
  assumes "handshake_inv s" "ConsumerFunc s = Some s'" "s' \<noteq> s"
  shows "consumer_left s' < consumer_left s \<and> producer_left s' = producer_left s"
proof -
  have "c_idx s < MAX_IDX" if "(c_pc s = C_spin \<and> flag s = 1) \<or> (\<exists>i. c_pc s = C_add i)"
    using assms(1) that by (auto simp: handshake_inv_def producer_turn_def consumer_turn_def split: if_splits)
  then show ?thesis
    using assms left_step [of "c_idx s" MAX_IDX]
    by (cases "c_pc s")
      (auto simp: producer_left_def consumer_left_def ConsumerFunc_def SumPrint_def ARR_SIZE_def aget_eq_Some
        handshake_inv_def producer_turn_def consumer_turn_def split: if_splits producer_pc.splits)
qed

lemma handshake_left_less:
  assumes "handshake_step\<^sup>*\<^sup>* handshake_init s" "handshake_step s s'" "s' \<noteq> s"
  shows "handshake_left s' < handshake_left s"
  using assms(2) handshake_reach_inv [OF assms(1)] assms(3)
  by (elim handshake_stepE) (auto simp: handshake_left_def dest: ProducerFunc_left ConsumerFunc_left)

lemma handshake_progress:
  assumes "handshake_inv s" "\<not> (p_pc s = P_end \<and> c_pc s = C_end)"
  shows "\<exists>s'. handshake_step s s' \<and> s' \<noteq> s"
proof (cases "producer_turn s")
  case True
  then have "\<exists>s'. ProducerFunc s = Some s' \<and> p_pc s' \<noteq> p_pc s"
    using assms
    by (cases "p_pc s") (auto simp: ProducerFunc_def UpdateArr_def producer_turn_def handshake_inv_def)
  then show ?thesis by (metis producer)
next
  case False
  then have turn: "consumer_turn s" using assms(1) by (simp add: handshake_inv_def)
  then have "\<exists>s'. ConsumerFunc s = Some s' \<and> c_pc s' \<noteq> c_pc s"
    using assms
    by (cases "c_pc s") (auto simp: ConsumerFunc_def SumPrint_def consumer_turn_def handshake_inv_def)
  then show ?thesis by (metis consumer)
qed

text \<open>The two threads come to an end in every interleaving. Apart from spinning there are only
  finitely many steps: the relation of the steps that change something, on the reachable states, is
  well-founded; where no such step is possible both threads have returned; and then exactly the 15
  sums 0, 100, ..., 1400 have been printed.\<close>

theorem handshake_terminates:
  assumes "handshake_step\<^sup>*\<^sup>* handshake_init s"
  shows "wf {(s', s). handshake_step\<^sup>*\<^sup>* handshake_init s \<and> handshake_step s s' \<and> s' \<noteq> s}
    \<and> ((\<exists>s'. handshake_step s s' \<and> s' \<noteq> s)
      \<or> p_pc s = P_end \<and> c_pc s = C_end \<and> printed s = map (\<lambda>j. 100 * j) [0..<15])"
proof (intro conjI)
  have "{(s', s). handshake_step\<^sup>*\<^sup>* handshake_init s \<and> handshake_step s s' \<and> s' \<noteq> s} \<subseteq> measure handshake_left"
    using handshake_left_less by auto
  then show "wf {(s', s). handshake_step\<^sup>*\<^sup>* handshake_init s \<and> handshake_step s s' \<and> s' \<noteq> s}"
    by (rule wf_subset [OF wf_measure])
next
  have inv: "handshake_inv s" by (rule handshake_reach_inv [OF assms])
  then have "p_pc s = P_end \<Longrightarrow> c_pc s = C_end \<Longrightarrow> printed s = map (\<lambda>j. 100 * j) [0..<15]"
    by (auto simp: handshake_inv_def producer_turn_def consumer_turn_def MAX_IDX_def)
  then show "(\<exists>s'. handshake_step s s' \<and> s' \<noteq> s)
      \<or> p_pc s = P_end \<and> c_pc s = C_end \<and> printed s = map (\<lambda>j. 100 * j) [0..<15]"
    using handshake_progress [OF inv] by blast
qed

text \<open>A run: the producer starts to write while the consumer spins.\<close>

definition handshake_begun :: handshake where
  "handshake_begun = handshake_init\<lparr>p_pc := P_update 0\<rparr>"

lemma handshake_begun_reachable: "handshake_step\<^sup>*\<^sup>* handshake_init handshake_begun"
proof -
  have "handshake_step handshake_init handshake_init"
    by (rule consumer) (simp add: ConsumerFunc_def handshake_init_def)
  moreover have "handshake_step handshake_init handshake_begun"
    by (rule producer) (simp add: ProducerFunc_def handshake_init_def handshake_begun_def)
  ultimately show ?thesis by (meson converse_rtranclp_into_rtranclp rtranclp.rtrancl_refl)
qed

lemma handshake_safe_witness:
  "p_pc handshake_begun = P_update 0 \<and> \<not> (\<exists>i. c_pc handshake_begun = C_add i) \<and> length (printed handshake_begun) \<le> 15"
  using handshake_safe [OF handshake_begun_reachable] by (auto simp: handshake_begun_def)

lemma handshake_terminates_witness: "\<exists>s'. handshake_step handshake_begun s' \<and> s' \<noteq> handshake_begun"
  using handshake_terminates [OF handshake_begun_reachable] by (auto simp: handshake_begun_def)

end
