(* ===== verification/Broadcast.thy ===== *)
theory Broadcast
  imports Prelude
begin

text \<open>
  One sender and ten receivers, \<open>producers_consumers/ex5/ex5.c\<close>: each receiver signals on a semaphore
  that it is ready and waits on a condition variable for the message number to change; the sender
  collects ten signals, increments the number and broadcasts. A call of a synchronisation primitive
  or an access to the message is one step. A blocked call has no step, and \<open>pthread_cond_wait\<close> may
  return without a signal, as its documentation allows.
\<close>

section \<open>State\<close>

datatype thread = Producer | Consumer nat

datatype sender_pc = S_head | S_wait nat | S_lock | S_increment | S_broadcast | S_unlock | S_end

datatype receiver_pc =
  R_head | R_lock | R_post | R_test | R_blocked | R_woken | R_print | R_unlock | R_store | R_end

record receiver =
  local_msg :: int
  r_count :: nat
  r_pc :: receiver_pc
  received :: "int list"

record board =
  sem :: nat
  mutex :: "thread option"
  message :: int
  s_count :: nat
  s_pc :: sender_pc
  receivers :: "nat \<Rightarrow> receiver"

definition CONSUMERS_NUM :: nat where
  "CONSUMERS_NUM = 10"

definition receiver_init :: receiver where
  "receiver_init = \<lparr>local_msg = 0, r_count = 10, r_pc = R_head, received = []\<rparr>"

definition board_init :: board where
  "board_init = \<lparr>sem = 0, mutex = None, message = 0, s_count = 10, s_pc = S_head,
     receivers = (\<lambda>_. receiver_init)\<rparr>"

section \<open>The threads\<close>

definition sender :: "board \<Rightarrow> board option" where
  "sender s = (case s_pc s of
     S_head \<Rightarrow> Some (if s_count s \<noteq> 0 then s\<lparr>s_count := s_count s - 1, s_pc := S_wait 0\<rparr> else s\<lparr>s_pc := S_end\<rparr>)
   | S_wait i \<Rightarrow>
       if i < CONSUMERS_NUM then
         (if 0 < sem s then Some (s\<lparr>sem := sem s - 1, s_pc := S_wait (i + 1)\<rparr>) else None)
       else Some (s\<lparr>s_pc := S_lock\<rparr>)
   | S_lock \<Rightarrow> if mutex s = None then Some (s\<lparr>mutex := Some Producer, s_pc := S_increment\<rparr>) else None
   | S_increment \<Rightarrow> Some (s\<lparr>message := message s + 1, s_pc := S_broadcast\<rparr>)
   | S_broadcast \<Rightarrow> Some (s\<lparr>receivers := (\<lambda>c. if r_pc (receivers s c) = R_blocked
        then (receivers s c)\<lparr>r_pc := R_woken\<rparr> else receivers s c), s_pc := S_unlock\<rparr>)
   | S_unlock \<Rightarrow> Some (s\<lparr>mutex := None, s_pc := S_head\<rparr>)
   | S_end \<Rightarrow> None)"

abbreviation set_receiver :: "board \<Rightarrow> nat \<Rightarrow> receiver \<Rightarrow> board" where
  "set_receiver s c r \<equiv> s\<lparr>receivers := (receivers s)(c := r)\<rparr>"

definition receive :: "nat \<Rightarrow> board \<Rightarrow> board option" where
  "receive c s = (let r = receivers s c in case r_pc r of
     R_head \<Rightarrow> Some (set_receiver s c
        (if r_count r \<noteq> 0 then r\<lparr>r_count := r_count r - 1, r_pc := R_lock\<rparr> else r\<lparr>r_pc := R_end\<rparr>))
   | R_lock \<Rightarrow> if mutex s = None
       then Some (set_receiver (s\<lparr>mutex := Some (Consumer c)\<rparr>) c (r\<lparr>r_pc := R_post\<rparr>)) else None
   | R_post \<Rightarrow> Some (set_receiver (s\<lparr>sem := sem s + 1\<rparr>) c (r\<lparr>r_pc := R_test\<rparr>))
   | R_test \<Rightarrow> if local_msg r = message s
       then Some (set_receiver (s\<lparr>mutex := None\<rparr>) c (r\<lparr>r_pc := R_blocked\<rparr>))
       else Some (set_receiver s c (r\<lparr>r_pc := R_print\<rparr>))
   | R_blocked \<Rightarrow> None
   | R_woken \<Rightarrow> if mutex s = None
       then Some (set_receiver (s\<lparr>mutex := Some (Consumer c)\<rparr>) c (r\<lparr>r_pc := R_test\<rparr>)) else None
   | R_print \<Rightarrow> Some (set_receiver s c (r\<lparr>received := received r @ [message s], r_pc := R_unlock\<rparr>))
   | R_unlock \<Rightarrow> Some (set_receiver (s\<lparr>mutex := None\<rparr>) c (r\<lparr>r_pc := R_store\<rparr>))
   | R_store \<Rightarrow> Some (set_receiver s c (r\<lparr>local_msg := message s, r_pc := R_head\<rparr>))
   | R_end \<Rightarrow> None)"

inductive board_step :: "board \<Rightarrow> board \<Rightarrow> bool" where
  send: "sender s = Some s' \<Longrightarrow> board_step s s'"
| receive: "c < CONSUMERS_NUM \<Longrightarrow> receive c s = Some s' \<Longrightarrow> board_step s s'"
| spurious: "c < CONSUMERS_NUM \<Longrightarrow> r_pc (receivers s c) = R_blocked \<Longrightarrow>
    board_step s (set_receiver s c ((receivers s c)\<lparr>r_pc := R_woken\<rparr>))"

inductive_cases board_stepE: "board_step s s'"

section \<open>The invariant\<close>

definition posted :: "receiver_pc \<Rightarrow> bool" where
  "posted pc \<longleftrightarrow> pc \<in> {R_test, R_blocked, R_woken, R_print, R_unlock, R_store}"

text \<open>How often a receiver has signalled.\<close>

definition posts :: "receiver \<Rightarrow> int" where
  "posts r = local_msg r + (if posted (r_pc r) then 1 else 0)"

definition upto_msg :: "int \<Rightarrow> int list" where
  "upto_msg k = map (\<lambda>j. int j + 1) [0..<nat k]"

definition receiver_ok :: "int \<Rightarrow> sender_pc \<Rightarrow> receiver \<Rightarrow> bool" where
  "receiver_ok m pc r \<longleftrightarrow> 0 \<le> local_msg r \<and> local_msg r \<le> 10
     \<and> received r = upto_msg (local_msg r + (if r_pc r \<in> {R_unlock, R_store} then 1 else 0))
     \<and> int (r_count r) = (if r_pc r \<in> {R_head, R_end} then 10 else 9) - local_msg r
     \<and> (case r_pc r of
          R_head \<Rightarrow> m = local_msg r
        | R_lock \<Rightarrow> m = local_msg r
        | R_post \<Rightarrow> m = local_msg r
        | R_test \<Rightarrow> m = local_msg r \<or> m = local_msg r + 1
        | R_woken \<Rightarrow> m = local_msg r \<or> m = local_msg r + 1
        | R_blocked \<Rightarrow> m = local_msg r \<or> m = local_msg r + 1 \<and> pc = S_broadcast
        | R_print \<Rightarrow> m = local_msg r + 1
        | R_unlock \<Rightarrow> m = local_msg r + 1
        | R_store \<Rightarrow> m = local_msg r + 1
        | R_end \<Rightarrow> m = local_msg r \<and> local_msg r = 10)"

text \<open>The signals the sender has taken and the rounds it has left.\<close>

definition sender_ok :: "board \<Rightarrow> bool" where
  "sender_ok s \<longleftrightarrow> 0 \<le> message s \<and> (case s_pc s of
     S_head \<Rightarrow> int (s_count s) = 10 - message s
   | S_wait i \<Rightarrow> int (s_count s) = 9 - message s \<and> i \<le> CONSUMERS_NUM
   | S_lock \<Rightarrow> int (s_count s) = 9 - message s
   | S_increment \<Rightarrow> int (s_count s) = 9 - message s
   | S_broadcast \<Rightarrow> int (s_count s) = 10 - message s
   | S_unlock \<Rightarrow> int (s_count s) = 10 - message s
   | S_end \<Rightarrow> message s = 10)"

definition taken :: "board \<Rightarrow> int" where
  "taken s = 10 * message s + (case s_pc s of S_wait i \<Rightarrow> int i | S_lock \<Rightarrow> 10 | S_increment \<Rightarrow> 10 | _ \<Rightarrow> 0)"

definition mutex_ok :: "board \<Rightarrow> bool" where
  "mutex_ok s \<longleftrightarrow> (mutex s = Some Producer \<longleftrightarrow> s_pc s \<in> {S_increment, S_broadcast, S_unlock})
     \<and> (\<forall>c<CONSUMERS_NUM. mutex s = Some (Consumer c) \<longleftrightarrow> r_pc (receivers s c) \<in> {R_post, R_test, R_print, R_unlock})
     \<and> (\<forall>c. mutex s = Some (Consumer c) \<longrightarrow> c < CONSUMERS_NUM)"

definition board_inv :: "board \<Rightarrow> bool" where
  "board_inv s \<longleftrightarrow> sender_ok s \<and> mutex_ok s \<and> (\<forall>c<CONSUMERS_NUM. receiver_ok (message s) (s_pc s) (receivers s c))
     \<and> int (sem s) + taken s = (\<Sum>c<CONSUMERS_NUM. posts (receivers s c))"

lemma board_inv_init: "board_inv board_init"
  by (simp add: board_inv_def board_init_def receiver_init_def sender_ok_def mutex_ok_def receiver_ok_def taken_def
      posts_def posted_def upto_msg_def)

lemma posts_le: "receiver_ok m pc r \<Longrightarrow> m \<le> posts r \<and> posts r \<le> m + 1"
  by (auto simp: receiver_ok_def posts_def posted_def split: receiver_pc.splits)

lemma sum_update:
  "(c :: nat) < n \<Longrightarrow> (\<Sum>d<n. posts ((f(c := r)) d)) = (\<Sum>d<n. posts (f d)) - posts (f c) + posts r"
proof -
  assume c: "c < n"
  have "(\<Sum>d\<in>{..<n} - {c}. posts ((f(c := r)) d)) = (\<Sum>d\<in>{..<n} - {c}. posts (f d))"
    by (rule sum.cong) auto
  then show ?thesis
    using sum.remove [of "{..<n}" c "\<lambda>d. posts ((f(c := r)) d)"] sum.remove [of "{..<n}" c "\<lambda>d. posts (f d)"] c
    by simp
qed

text \<open>When the sender has its ten signals, every receiver has signalled for the next message.\<close>

lemma all_posted:
  assumes inv: "board_inv s" and pc: "s_pc s \<in> {S_lock, S_increment}" and c: "c < CONSUMERS_NUM"
  shows "posts (receivers s c) = message s + 1"
proof (rule ccontr)
  assume "posts (receivers s c) \<noteq> message s + 1"
  moreover have le: "posts (receivers s d) \<le> message s + 1" if "d < CONSUMERS_NUM" for d
    using inv that posts_le unfolding board_inv_def by blast
  ultimately have "posts (receivers s c) < message s + 1" using c by fastforce
  then have "(\<Sum>d<CONSUMERS_NUM. posts (receivers s d)) < (\<Sum>d<CONSUMERS_NUM. message s + 1)"
    using le c by (intro sum_strict_mono_ex1) auto
  moreover have "int (sem s) + (10 * message s + 10) = (\<Sum>d<CONSUMERS_NUM. posts (receivers s d))"
    using inv pc by (auto simp: board_inv_def taken_def)
  ultimately show False by (simp add: CONSUMERS_NUM_def)
qed

section \<open>Every step keeps the invariant\<close>

lemma receiver_ok_sender:
  "receiver_ok m pc r \<Longrightarrow> pc \<noteq> S_broadcast \<Longrightarrow> receiver_ok m pc' r"
  by (auto simp: receiver_ok_def split: receiver_pc.splits)

lemma sender_inv:
  assumes inv: "board_inv s" and step: "sender s = Some s'"
  shows "board_inv s'"
proof (cases "s_pc s")
  case S_increment
  have s': "s' = s\<lparr>message := message s + 1, s_pc := S_broadcast\<rparr>" using step S_increment by (simp add: sender_def)
  have "receiver_ok (message s + 1) S_broadcast (receivers s c)" if c: "c < CONSUMERS_NUM" for c
  proof -
    have "receiver_ok (message s) S_increment (receivers s c)" using inv c S_increment by (simp add: board_inv_def)
    then show ?thesis using all_posted [OF inv _ c] S_increment
      by (auto simp: receiver_ok_def posts_def posted_def split: receiver_pc.splits)
  qed
  then show ?thesis using inv s' S_increment
    by (auto simp: board_inv_def sender_ok_def mutex_ok_def taken_def)
next
  case S_broadcast
  define wake where "wake r = (if r_pc r = R_blocked then r\<lparr>r_pc := R_woken\<rparr> else r)" for r :: receiver
  have s': "s' = s\<lparr>receivers := (\<lambda>c. wake (receivers s c)), s_pc := S_unlock\<rparr>"
    using step S_broadcast by (simp add: sender_def wake_def)
  have pcs: "r_pc (wake r) = R_post \<longleftrightarrow> r_pc r = R_post" "r_pc (wake r) = R_test \<longleftrightarrow> r_pc r = R_test"
    "r_pc (wake r) = R_print \<longleftrightarrow> r_pc r = R_print" "r_pc (wake r) = R_unlock \<longleftrightarrow> r_pc r = R_unlock"
    "posts (wake r) = posts r" for r
    by (simp_all add: wake_def posts_def posted_def)
  have "receiver_ok (message s) S_unlock (wake r)" if "receiver_ok (message s) S_broadcast r" for r
    using that by (auto simp: receiver_ok_def wake_def split: receiver_pc.splits)
  then show ?thesis using inv s' S_broadcast
    by (auto simp: board_inv_def sender_ok_def mutex_ok_def taken_def pcs)
next
  case (S_wait i)
  then show ?thesis using inv step receiver_ok_sender [of "message s" "S_wait i"]
    by (auto simp: sender_def board_inv_def sender_ok_def mutex_ok_def taken_def CONSUMERS_NUM_def split: if_splits)
next
  case S_head
  then show ?thesis using inv step receiver_ok_sender [of "message s" S_head]
    by (auto simp: sender_def board_inv_def sender_ok_def mutex_ok_def taken_def split: if_splits)
next
  case S_lock
  then show ?thesis using inv step receiver_ok_sender [of "message s" S_lock]
    by (auto simp: sender_def board_inv_def sender_ok_def mutex_ok_def taken_def split: if_splits)
next
  case S_unlock
  then show ?thesis using inv step receiver_ok_sender [of "message s" S_unlock]
    by (auto simp: sender_def board_inv_def sender_ok_def mutex_ok_def taken_def split: if_splits)
qed (use step in \<open>simp add: sender_def\<close>)

text \<open>A step of one receiver: what it must do to the semaphore and the mutex.\<close>

lemma board_inv_receiver:
  assumes inv: "board_inv s" and c: "c < CONSUMERS_NUM"
    and s': "s' = s\<lparr>sem := n, mutex := x, receivers := (receivers s)(c := r)\<rparr>"
    and ok: "receiver_ok (message s) (s_pc s) r" and sem: "int n - int (sem s) = posts r - posts (receivers s c)"
    and mutex: "x = mutex s \<and> (r_pc r \<in> {R_post, R_test, R_print, R_unlock} \<longleftrightarrow>
          r_pc (receivers s c) \<in> {R_post, R_test, R_print, R_unlock})
      \<or> mutex s = None \<and> x = Some (Consumer c) \<and> r_pc r \<in> {R_post, R_test, R_print, R_unlock}
      \<or> mutex s = Some (Consumer c) \<and> x = None \<and> r_pc r \<notin> {R_post, R_test, R_print, R_unlock}"
  shows "board_inv s'"
proof -
  have "sender_ok s'" using inv s' by (auto simp: board_inv_def sender_ok_def split: sender_pc.splits)
  moreover have "mutex_ok s'"
  proof -
    have "mutex_ok s" using inv by (simp add: board_inv_def)
    then show ?thesis using mutex c unfolding s' mutex_ok_def
      by (elim disjE) (auto split: if_splits)
  qed
  moreover have "\<forall>d<CONSUMERS_NUM. receiver_ok (message s') (s_pc s') (receivers s' d)"
    using inv ok by (simp add: s' board_inv_def)
  moreover have "int (sem s') + taken s' = (\<Sum>d<CONSUMERS_NUM. posts (receivers s' d))"
    using inv sem sum_update [OF c, of "receivers s" r] by (simp add: s' board_inv_def taken_def)
  ultimately show ?thesis by (simp add: board_inv_def)
qed

lemma upto_msg_Suc: "0 \<le> k \<Longrightarrow> upto_msg k @ [k + 1] = upto_msg (k + 1)"
  by (simp add: upto_msg_def nat_add_distrib)

lemma receive_inv:
  assumes inv: "board_inv s" and c: "c < CONSUMERS_NUM" and step: "receive c s = Some s'"
  shows "board_inv s'"
proof -
  let ?r = "receivers s c"
  have ok: "receiver_ok (message s) (s_pc s) ?r" using inv c by (simp add: board_inv_def)
  have held: "r_pc ?r \<in> {R_post, R_test, R_print, R_unlock} \<Longrightarrow> mutex s = Some (Consumer c)"
    using inv c by (simp add: board_inv_def mutex_ok_def)
  note frame = board_inv_receiver [OF inv c]
  show ?thesis
  proof (cases "r_pc ?r")
    case R_head
    with step ok show ?thesis
      by (intro frame [where s' = s' and n = "sem s" and x = "mutex s" and r = "if r_count ?r \<noteq> 0 then ?r\<lparr>r_count := r_count ?r - 1, r_pc := R_lock\<rparr>
          else ?r\<lparr>r_pc := R_end\<rparr>"])
        (auto simp: receive_def Let_def receiver_ok_def posts_def posted_def split: if_splits)
  next
    case R_lock
    with step ok show ?thesis
      by (intro frame [where s' = s' and n = "sem s" and x = "Some (Consumer c)" and r = "?r\<lparr>r_pc := R_post\<rparr>"])
        (auto simp: receive_def Let_def receiver_ok_def posts_def posted_def split: if_splits)
  next
    case R_post
    with step ok held show ?thesis
      by (intro frame [where s' = s' and n = "sem s + 1" and x = "mutex s" and r = "?r\<lparr>r_pc := R_test\<rparr>"])
        (auto simp: receive_def Let_def receiver_ok_def posts_def posted_def)
  next
    case R_test
    show ?thesis
    proof (cases "local_msg ?r = message s")
      case True
      with R_test step ok held show ?thesis
        by (intro frame [where s' = s' and n = "sem s" and x = None and r = "?r\<lparr>r_pc := R_blocked\<rparr>"])
          (auto simp: receive_def Let_def receiver_ok_def posts_def posted_def)
    next
      case False
      with R_test step ok held show ?thesis
        by (intro frame [where s' = s' and n = "sem s" and x = "mutex s" and r = "?r\<lparr>r_pc := R_print\<rparr>"])
          (auto simp: receive_def Let_def receiver_ok_def posts_def posted_def)
    qed
  next
    case R_woken
    with step ok show ?thesis
      by (intro frame [where s' = s' and n = "sem s" and x = "Some (Consumer c)" and r = "?r\<lparr>r_pc := R_test\<rparr>"])
        (auto simp: receive_def Let_def receiver_ok_def posts_def posted_def split: if_splits)
  next
    case R_print
    with step ok held show ?thesis
      by (intro frame [where s' = s' and n = "sem s" and x = "mutex s" and r = "?r\<lparr>received := received ?r @ [message s], r_pc := R_unlock\<rparr>"])
        (auto simp: receive_def Let_def receiver_ok_def posts_def posted_def upto_msg_Suc)
  next
    case R_unlock
    with step ok held show ?thesis
      by (intro frame [where s' = s' and n = "sem s" and x = None and r = "?r\<lparr>r_pc := R_store\<rparr>"])
        (auto simp: receive_def Let_def receiver_ok_def posts_def posted_def)
  next
    case R_store
    have "message s \<le> 10" using inv by (auto simp: board_inv_def sender_ok_def split: sender_pc.splits)
    with R_store step ok show ?thesis
      by (intro frame [where s' = s' and n = "sem s" and x = "mutex s" and r = "?r\<lparr>local_msg := message s, r_pc := R_head\<rparr>"])
        (auto simp: receive_def Let_def receiver_ok_def posts_def posted_def)
  qed (use step in \<open>simp_all add: receive_def\<close>)
qed

lemma spurious_inv:
  assumes inv: "board_inv s" and c: "c < CONSUMERS_NUM" and blocked: "r_pc (receivers s c) = R_blocked"
  shows "board_inv (set_receiver s c ((receivers s c)\<lparr>r_pc := R_woken\<rparr>))"
proof -
  have "receiver_ok (message s) (s_pc s) (receivers s c)" using inv c by (simp add: board_inv_def)
  with blocked show ?thesis
    by (intro board_inv_receiver [OF inv c, where n = "sem s" and x = "mutex s" and r = "(receivers s c)\<lparr>r_pc := R_woken\<rparr>"])
      (auto simp: receiver_ok_def posts_def posted_def)
qed

lemma board_reach_inv: "board_step\<^sup>*\<^sup>* board_init s \<Longrightarrow> board_inv s"
proof (induction rule: rtranclp_induct)
  case (step s s')
  from step.hyps(2) step.IH show ?case
    by (elim board_stepE) (auto intro: sender_inv receive_inv spurious_inv)
qed (rule board_inv_init)

section \<open>What the receivers see\<close>

text \<open>In every interleaving, with spurious wake-ups, each receiver prints the message numbers
  1, 2, 3 and so on without a gap or a repetition, and the sender is never more than one message
  ahead of any receiver and never behind: the board shows the last number a receiver has printed or
  the next one.\<close>

theorem broadcast_in_order:
  assumes "board_step\<^sup>*\<^sup>* board_init s" and "c < CONSUMERS_NUM"
  shows "received (receivers s c) = map (\<lambda>j. int j + 1) [0..<length (received (receivers s c))]
    \<and> int (length (received (receivers s c))) \<le> message s
    \<and> message s \<le> int (length (received (receivers s c))) + 1"
proof -
  have "receiver_ok (message s) (s_pc s) (receivers s c)"
    using board_reach_inv [OF assms(1)] assms(2) by (simp add: board_inv_def)
  then show ?thesis
    by (auto simp: receiver_ok_def upto_msg_def nat_add_distrib split: receiver_pc.splits)
qed

section \<open>No deadlock\<close>

text \<open>Who holds the mutex can always go on.\<close>

lemma receive_enabled: "r_pc (receivers s c) \<in> {R_head, R_post, R_test, R_print, R_unlock, R_store} \<Longrightarrow> \<exists>s'. receive c s = Some s'"
  by (auto simp: receive_def Let_def)

lemma receive_enabled_lock: "mutex s = None \<Longrightarrow> r_pc (receivers s c) \<in> {R_lock, R_woken} \<Longrightarrow> \<exists>s'. receive c s = Some s'"
  by (auto simp: receive_def Let_def)

lemma sender_enabled: "s_pc s \<in> {S_head, S_increment, S_broadcast, S_unlock} \<Longrightarrow> \<exists>s'. sender s = Some s'"
  by (auto simp: sender_def)

lemma sender_enabled_wait:
  assumes inv: "board_inv s" and stuck: "\<forall>c<CONSUMERS_NUM. r_pc (receivers s c) \<in> {R_blocked, R_end}"
    and pc: "s_pc s = S_wait i" "i < CONSUMERS_NUM"
  shows "0 < sem s"
proof -
  have "posts (receivers s c) = message s + 1" if c: "c < CONSUMERS_NUM" for c
  proof -
    have "receiver_ok (message s) (S_wait i) (receivers s c)" "message s < 10"
      using inv c pc(1) by (auto simp: board_inv_def sender_ok_def)
    then show ?thesis using stuck c by (auto simp: receiver_ok_def posts_def posted_def)
  qed
  then have "int (sem s) + taken s = 10 * (message s + 1)"
    using inv by (simp add: board_inv_def CONSUMERS_NUM_def)
  then show ?thesis using pc by (simp add: taken_def CONSUMERS_NUM_def)
qed

text \<open>When nobody can make a step, everybody has returned.\<close>

lemma board_stuck:
  assumes inv: "board_inv s" and stuck: "\<nexists>s'. sender s = Some s'" "\<And>c. c < CONSUMERS_NUM \<Longrightarrow> \<nexists>s'. receive c s = Some s'"
  shows "s_pc s = S_end \<and> (\<forall>c<CONSUMERS_NUM. r_pc (receivers s c) \<in> {R_blocked, R_end})"
proof -
  have free: "mutex s = None"
  proof (cases "mutex s")
    case (Some t)
    show ?thesis
    proof (cases t)
      case Producer
      then have "s_pc s \<in> {S_increment, S_broadcast, S_unlock}" using inv Some by (simp add: board_inv_def mutex_ok_def)
      then show ?thesis using sender_enabled stuck(1) by blast
    next
      case (Consumer c)
      then have "c < CONSUMERS_NUM" "r_pc (receivers s c) \<in> {R_post, R_test, R_print, R_unlock}"
        using inv Some by (auto simp: board_inv_def mutex_ok_def)
      then show ?thesis using receive_enabled [of s c] stuck(2) by blast
    qed
  qed
  have pcs: "r_pc (receivers s c) \<in> {R_blocked, R_end}" if "c < CONSUMERS_NUM" for c
    using receive_enabled [of s c] receive_enabled_lock [OF free, of c] stuck(2) [OF that]
    by (cases "r_pc (receivers s c)") auto
  have "s_pc s = S_end"
  proof (cases "s_pc s")
    case (S_wait i)
    then show ?thesis using sender_enabled_wait [OF inv _ S_wait] pcs stuck(1)
      by (cases "i < CONSUMERS_NUM") (auto simp: sender_def)
  next
    case S_lock
    then show ?thesis using free stuck(1) by (simp add: sender_def)
  qed (use sender_enabled stuck(1) in auto)
  then show ?thesis using pcs by blast
qed

text \<open>C37. There is no deadlock and no lost wake-up: in every reachable state either the sender or a
  receiver can make a step of its own (a spurious wake-up is not needed), or all have returned, the
  ten messages have been sent, and every receiver has printed exactly the numbers 1 to 10.\<close>

theorem broadcast_no_deadlock:
  assumes "board_step\<^sup>*\<^sup>* board_init s"
  shows "(\<exists>s'. sender s = Some s') \<or> (\<exists>c<CONSUMERS_NUM. \<exists>s'. receive c s = Some s')
    \<or> (s_pc s = S_end \<and> message s = 10
       \<and> (\<forall>c\<in>{..<CONSUMERS_NUM}. r_pc (receivers s c) = R_end \<and> received (receivers s c) = [1, 2, 3, 4, 5, 6, 7, 8, 9, 10]))"
proof (rule ccontr)
  assume "\<not> ?thesis"
  then have stuck: "\<nexists>s'. sender s = Some s'" "\<And>c. c < CONSUMERS_NUM \<Longrightarrow> \<nexists>s'. receive c s = Some s'"
    and open_end: "\<not> (s_pc s = S_end \<and> message s = 10
       \<and> (\<forall>c\<in>{..<CONSUMERS_NUM}. r_pc (receivers s c) = R_end \<and> received (receivers s c) = [1, 2, 3, 4, 5, 6, 7, 8, 9, 10]))"
    by blast+
  have inv: "board_inv s" by (rule board_reach_inv [OF assms])
  have "s_pc s = S_end" and pcs: "\<And>c. c < CONSUMERS_NUM \<Longrightarrow> r_pc (receivers s c) \<in> {R_blocked, R_end}"
    using board_stuck [OF inv stuck] by blast+
  then have m: "message s = 10" using inv by (simp add: board_inv_def sender_ok_def)
  have "r_pc (receivers s c) = R_end \<and> received (receivers s c) = upto_msg 10" if c: "c < CONSUMERS_NUM" for c
  proof -
    have "receiver_ok 10 S_end (receivers s c)" using inv c m \<open>s_pc s = S_end\<close> by (simp add: board_inv_def)
    then show ?thesis using pcs [OF c] by (auto simp: receiver_ok_def)
  qed
  moreover have "upto_msg 10 = [1, 2, 3, 4, 5, 6, 7, 8, 9, 10]" by (simp add: upto_msg_def upt_rec)
  ultimately show False using open_end \<open>s_pc s = S_end\<close> m by auto
qed

text \<open>A state on the way: the first receiver has read its counter.\<close>

definition board_begun :: board where
  "board_begun = set_receiver board_init 0 (receiver_init\<lparr>r_count := 9, r_pc := R_lock\<rparr>)"

lemma board_begun_reachable: "board_step\<^sup>*\<^sup>* board_init board_begun"
proof -
  have "receive 0 board_init = Some board_begun"
    by (simp add: receive_def board_init_def receiver_init_def board_begun_def)
  then have "board_step board_init board_begun"
    by (intro board_step.receive [of 0]) (simp_all add: CONSUMERS_NUM_def)
  then show ?thesis by blast
qed

lemma broadcast_in_order_witness: "message board_begun = 0 \<and> length (received (receivers board_begun 0)) \<le> 0"
  using broadcast_in_order [OF board_begun_reachable, of 0] by (simp add: board_begun_def board_init_def CONSUMERS_NUM_def)

lemma broadcast_no_deadlock_witness:
  "(\<exists>s'. sender board_begun = Some s') \<or> (\<exists>c<CONSUMERS_NUM. \<exists>s'. receive c board_begun = Some s')"
  using broadcast_no_deadlock [OF board_begun_reachable] by (auto simp: board_begun_def board_init_def)

end
