(* ===== verification/BoundedBuffer.thy ===== *)
theory BoundedBuffer
  imports Prelude
begin

text \<open>
  The bounded buffer of \<open>producers_consumers/ex3/ex3_2.c\<close>: ten producers and ten consumers, each of
  which moves one element, a ring of ten cells, two counting semaphores and a mutex for either end of
  the ring. A producer and a consumer may work on the ring at the same time. Every call and every
  access to the ring is one step, and a blocked call has no step.
\<close>

section \<open>The queue\<close>

record fsq =
  arr :: "int list"
  capacity :: nat
  write_idx :: nat
  read_idx :: nat

definition FSQ_ELEMENTS :: nat where
  "FSQ_ELEMENTS = 10"

text \<open>The two answers of \<open>malloc\<close>; \<open>None\<close> is NULL.\<close>

definition FsqCreat :: "bool \<Rightarrow> bool \<Rightarrow> nat \<Rightarrow> fsq option" where
  "FsqCreat mem1 mem2 n =
     (if \<not> mem1 then None
      else if \<not> mem2 then None
      else Some \<lparr>arr = replicate n 0, capacity = n, write_idx = 0, read_idx = 0\<rparr>)"

text \<open>Both operations first advance their index and then use the cell.\<close>

definition enq_advance :: "fsq \<Rightarrow> fsq option" where
  "enq_advance q = (if capacity q = 0 then None else Some (q\<lparr>write_idx := (write_idx q + 1) mod capacity q\<rparr>))"

definition enq_store :: "fsq \<Rightarrow> int \<Rightarrow> fsq option" where
  "enq_store q x = do { a \<leftarrow> aset (arr q) (write_idx q) x; Some (q\<lparr>arr := a\<rparr>) }"

definition FsqEnq :: "fsq \<Rightarrow> int \<Rightarrow> fsq option" where
  "FsqEnq q x = do { q \<leftarrow> enq_advance q; enq_store q x }"

definition deq_advance :: "fsq \<Rightarrow> fsq option" where
  "deq_advance q = (if capacity q = 0 then None else Some (q\<lparr>read_idx := (read_idx q + 1) mod capacity q\<rparr>))"

definition deq_load :: "fsq \<Rightarrow> int option" where
  "deq_load q = aget (arr q) (read_idx q)"

definition FsqDeq :: "fsq \<Rightarrow> (fsq \<times> int) option" where
  "FsqDeq q = do { q \<leftarrow> deq_advance q; x \<leftarrow> deq_load q; Some (q, x) }"

section \<open>The threads\<close>

datatype enq_pc = E_wait | E_lock | E_advance | E_store | E_count | E_unlock | E_post | E_done

datatype deq_pc = D_wait | D_lock | D_advance | D_load | D_unlock | D_post | D_done

text \<open>\<open>next_data\<close> is the static counter \<open>i\<close> of \<open>ProducerFunc\<close>; \<open>out\<close> lists what \<open>FsqDeq\<close> has
  returned, in the order of the calls.\<close>

record buffer =
  fsq :: fsq
  sem_write :: nat
  sem_read :: nat
  lock_enq :: "nat option"
  lock_deq :: "nat option"
  next_data :: nat
  out :: "int list"
  producers :: "nat \<Rightarrow> enq_pc"
  consumers :: "nat \<Rightarrow> deq_pc"

definition buffer_init :: buffer where
  "buffer_init = \<lparr>fsq = the (FsqCreat True True FSQ_ELEMENTS), sem_write = FSQ_ELEMENTS, sem_read = 0,
     lock_enq = None, lock_deq = None, next_data = 1, out = [],
     producers = (\<lambda>_. E_wait), consumers = (\<lambda>_. D_wait)\<rparr>"

definition ProducerFunc :: "nat \<Rightarrow> buffer \<Rightarrow> buffer option" where
  "ProducerFunc p s = (let at = (\<lambda>pc s. s\<lparr>producers := (producers s)(p := pc)\<rparr>) in
     case producers s p of
       E_wait \<Rightarrow> if 0 < sem_write s then Some (at E_lock (s\<lparr>sem_write := sem_write s - 1\<rparr>)) else None
     | E_lock \<Rightarrow> if lock_enq s = None then Some (at E_advance (s\<lparr>lock_enq := Some p\<rparr>)) else None
     | E_advance \<Rightarrow> do { q \<leftarrow> enq_advance (fsq s); Some (at E_store (s\<lparr>fsq := q\<rparr>)) }
     | E_store \<Rightarrow> do { q \<leftarrow> enq_store (fsq s) (int (next_data s)); Some (at E_count (s\<lparr>fsq := q\<rparr>)) }
     | E_count \<Rightarrow> Some (at E_unlock (s\<lparr>next_data := next_data s + 1\<rparr>))
     | E_unlock \<Rightarrow> Some (at E_post (s\<lparr>lock_enq := None\<rparr>))
     | E_post \<Rightarrow> Some (at E_done (s\<lparr>sem_read := sem_read s + 1\<rparr>))
     | E_done \<Rightarrow> None)"

definition ConsumerFunc :: "nat \<Rightarrow> buffer \<Rightarrow> buffer option" where
  "ConsumerFunc c s = (let at = (\<lambda>pc s. s\<lparr>consumers := (consumers s)(c := pc)\<rparr>) in
     case consumers s c of
       D_wait \<Rightarrow> if 0 < sem_read s then Some (at D_lock (s\<lparr>sem_read := sem_read s - 1\<rparr>)) else None
     | D_lock \<Rightarrow> if lock_deq s = None then Some (at D_advance (s\<lparr>lock_deq := Some c\<rparr>)) else None
     | D_advance \<Rightarrow> do { q \<leftarrow> deq_advance (fsq s); Some (at D_load (s\<lparr>fsq := q\<rparr>)) }
     | D_load \<Rightarrow> do { x \<leftarrow> deq_load (fsq s); Some (at D_unlock (s\<lparr>out := out s @ [x]\<rparr>)) }
     | D_unlock \<Rightarrow> Some (at D_post (s\<lparr>lock_deq := None\<rparr>))
     | D_post \<Rightarrow> Some (at D_done (s\<lparr>sem_write := sem_write s + 1\<rparr>))
     | D_done \<Rightarrow> None)"

inductive buffer_step :: "buffer \<Rightarrow> buffer \<Rightarrow> bool" where
  producer: "p < FSQ_ELEMENTS \<Longrightarrow> ProducerFunc p s = Some s' \<Longrightarrow> buffer_step s s'"
| consumer: "c < FSQ_ELEMENTS \<Longrightarrow> ConsumerFunc c s = Some s' \<Longrightarrow> buffer_step s s'"

inductive_cases buffer_stepE: "buffer_step s s'"

section \<open>Counting threads\<close>

text \<open>How far a thread has come, and how many have come at least so far.\<close>

fun enq_rank :: "enq_pc \<Rightarrow> nat" where
  "enq_rank E_wait = 0"
| "enq_rank E_lock = 1"
| "enq_rank E_advance = 2"
| "enq_rank E_store = 3"
| "enq_rank E_count = 4"
| "enq_rank E_unlock = 5"
| "enq_rank E_post = 6"
| "enq_rank E_done = 7"

fun deq_rank :: "deq_pc \<Rightarrow> nat" where
  "deq_rank D_wait = 0"
| "deq_rank D_lock = 1"
| "deq_rank D_advance = 2"
| "deq_rank D_load = 3"
| "deq_rank D_unlock = 4"
| "deq_rank D_post = 5"
| "deq_rank D_done = 6"

definition past :: "(nat \<Rightarrow> nat) \<Rightarrow> nat \<Rightarrow> nat" where
  "past f k = (\<Sum>p<FSQ_ELEMENTS. of_bool (k \<le> f p))"

lemma past_update:
  assumes "p < FSQ_ELEMENTS" "f p = k" "g = f(p := Suc k)"
  shows "past g j = past f j + of_bool (j = Suc k)"
proof -
  have "(\<Sum>q\<in>{..<FSQ_ELEMENTS} - {p}. of_bool (j \<le> g q)) = (\<Sum>q\<in>{..<FSQ_ELEMENTS} - {p}. of_bool (j \<le> f q) :: nat)"
    using assms(3) by (intro sum.cong) auto
  then show ?thesis
    using assms sum.remove [of "{..<FSQ_ELEMENTS}" p "\<lambda>q. of_bool (j \<le> g q) :: nat"]
      sum.remove [of "{..<FSQ_ELEMENTS}" p "\<lambda>q. of_bool (j \<le> f q) :: nat"]
    by (simp add: past_def of_bool_def)
qed

lemma past_mono: "j \<le> k \<Longrightarrow> past f k \<le> past f j"
  unfolding past_def by (intro sum_mono) (auto simp: of_bool_def)

lemma past_le: "past f k \<le> FSQ_ELEMENTS"
proof -
  have "past f k \<le> (\<Sum>p<FSQ_ELEMENTS. 1)" unfolding past_def by (intro sum_mono) (simp add: of_bool_def)
  then show ?thesis by simp
qed

lemma past_all: "past f k = FSQ_ELEMENTS \<Longrightarrow> p < FSQ_ELEMENTS \<Longrightarrow> k \<le> f p"
proof (rule ccontr)
  assume a: "past f k = FSQ_ELEMENTS" "p < FSQ_ELEMENTS" "\<not> k \<le> f p"
  then have "past f k < (\<Sum>p<FSQ_ELEMENTS. 1)"
    unfolding past_def by (intro sum_strict_mono_ex1) (auto simp: of_bool_def)
  with a(1) show False by simp
qed

text \<open>A lock around the ranks \<open>2\<close> to \<open>m - 1\<close>: it is held by the thread that has one of them, and
  that thread is the only one between those who have not entered and those who have left.\<close>

definition inside :: "(nat \<Rightarrow> nat) \<Rightarrow> nat option \<Rightarrow> nat \<Rightarrow> nat" where
  "inside f lock j = (case lock of None \<Rightarrow> 0 | Some p \<Rightarrow> of_bool (j \<le> f p))"

definition lock_ok :: "(nat \<Rightarrow> nat) \<Rightarrow> nat \<Rightarrow> nat option \<Rightarrow> bool" where
  "lock_ok f m lock \<longleftrightarrow>
     (\<forall>p. lock = Some p \<longleftrightarrow> p < FSQ_ELEMENTS \<and> 2 \<le> f p \<and> f p < m)
     \<and> (\<forall>j. 2 \<le> j \<longrightarrow> j \<le> m \<longrightarrow> past f j = past f m + inside f lock j)"

lemma lock_okI:
  assumes "\<And>p. lock = Some p \<longleftrightarrow> p < FSQ_ELEMENTS \<and> 2 \<le> f p \<and> f p < m"
    and "\<And>j. 2 \<le> j \<Longrightarrow> j \<le> m \<Longrightarrow> past f j = past f m + inside f lock j"
  shows "lock_ok f m lock"
  using assms unfolding lock_ok_def by blast

lemma lock_ok_owner: "lock_ok f m lock \<Longrightarrow> lock = Some p \<longleftrightarrow> p < FSQ_ELEMENTS \<and> 2 \<le> f p \<and> f p < m"
  unfolding lock_ok_def by blast

lemma lock_ok_counts: "lock_ok f m lock \<Longrightarrow> 2 \<le> j \<Longrightarrow> j \<le> m \<Longrightarrow> past f j = past f m + inside f lock j"
  unfolding lock_ok_def by blast

lemma lock_ok_holder:
  "lock_ok f m lock \<Longrightarrow> p < FSQ_ELEMENTS \<Longrightarrow> 2 \<le> f p \<Longrightarrow> f p < m \<Longrightarrow> lock = Some p"
  by (simp add: lock_ok_owner)

lemma lock_ok_acquire:
  assumes ok: "lock_ok f m None" and f: "f p = 1" "p < FSQ_ELEMENTS" and m: "2 < m" and g: "g = f(p := 2)"
  shows "lock_ok g m (Some p)"
proof (rule lock_okI)
  have "g = f(p := Suc 1)" by (simp add: g numeral_2_eq_2)
  then have P: "past g j = past f j + of_bool (j = 2)" for j
    using past_update [of p f 1 g j] f by (simp add: numeral_2_eq_2)
  show "past g j = past g m + inside g (Some p) j" if "2 \<le> j" "j \<le> m" for j
    using lock_ok_counts [OF ok that] that m unfolding P by (simp add: g inside_def of_bool_def)
  show "Some p = Some q \<longleftrightarrow> q < FSQ_ELEMENTS \<and> 2 \<le> g q \<and> g q < m" for q
    using lock_ok_owner [OF ok, of q] f m by (cases "q = p") (simp_all add: g)
qed

lemma lock_ok_inside:
  assumes ok: "lock_ok f m lock" and f: "f p = k" "p < FSQ_ELEMENTS" and k: "2 \<le> k" "Suc k < m"
    and g: "g = f(p := Suc k)"
  shows "lock_ok g m lock"
proof (rule lock_okI)
  have l: "lock = Some p" using lock_ok_holder [OF ok f(2)] f(1) k by simp
  show "past g j = past g m + inside g lock j" if "2 \<le> j" "j \<le> m" for j
    using lock_ok_counts [OF ok that] k f(1) unfolding past_update [OF f(2,1) g] l
    by (simp add: g inside_def of_bool_def)
  show "lock = Some q \<longleftrightarrow> q < FSQ_ELEMENTS \<and> 2 \<le> g q \<and> g q < m" for q
    using lock_ok_owner [OF ok, of q] f k by (cases "q = p") (simp_all add: g l)
qed

lemma lock_ok_release:
  assumes ok: "lock_ok f m lock" and f: "f p = k" "p < FSQ_ELEMENTS" and k: "2 \<le> k" "m = Suc k"
    and g: "g = f(p := Suc k)"
  shows "lock_ok g m None"
proof (rule lock_okI)
  have l: "lock = Some p" using lock_ok_holder [OF ok f(2)] f(1) k by simp
  show "past g j = past g m + inside g None j" if "2 \<le> j" "j \<le> m" for j
    using lock_ok_counts [OF ok that] k f(1) that unfolding past_update [OF f(2,1) g] l
    by (simp add: inside_def of_bool_def)
  show "None = Some q \<longleftrightarrow> q < FSQ_ELEMENTS \<and> 2 \<le> g q \<and> g q < m" for q
    using lock_ok_owner [OF ok, of q] f k by (cases "q = p") (auto simp: g l)
qed

lemma lock_ok_outside:
  assumes ok: "lock_ok f m lock" and f: "f p = k" "p < FSQ_ELEMENTS" and k: "k = 0 \<or> m \<le> k" "2 < m"
    and g: "g = f(p := Suc k)"
  shows "lock_ok g m lock"
proof (rule lock_okI)
  have l: "lock \<noteq> Some p" using lock_ok_owner [OF ok, of p] f(1) k by auto
  then have "inside g lock j = inside f lock j" for j by (cases lock) (auto simp: inside_def g)
  moreover have "past g j = past f j" if "2 \<le> j" "j \<le> m" for j
    using that k unfolding past_update [OF f(2,1) g] by (auto simp: of_bool_def)
  ultimately show "past g j = past g m + inside g lock j" if "2 \<le> j" "j \<le> m" for j
    using lock_ok_counts [OF ok that] that k by simp
  show "lock = Some q \<longleftrightarrow> q < FSQ_ELEMENTS \<and> 2 \<le> g q \<and> g q < m" for q
    using lock_ok_owner [OF ok, of q] f k l by (cases "q = p") (auto simp: g)
qed

lemma lock_ok_past:
  assumes "lock_ok f m lock" "f p = k" "p < FSQ_ELEMENTS" "2 \<le> k" "k < m" "2 \<le> j" "j \<le> m"
  shows "past f j = past f m + of_bool (j \<le> k)"
  using lock_ok_counts [OF assms(1,6,7)] lock_ok_holder [OF assms(1,3)] assms by (simp add: inside_def)

section \<open>The invariant\<close>

definition enq_ranks :: "buffer \<Rightarrow> nat \<Rightarrow> nat" where
  "enq_ranks s p = enq_rank (producers s p)"

definition deq_ranks :: "buffer \<Rightarrow> nat \<Rightarrow> nat" where
  "deq_ranks s c = deq_rank (consumers s c)"

text \<open>The number of elements for which the index has been advanced (3) and the cell used (4) says
  where the indices stand and which cells hold which data.\<close>

definition ring_ok :: "fsq \<Rightarrow> (nat \<Rightarrow> nat) \<Rightarrow> (nat \<Rightarrow> nat) \<Rightarrow> bool" where
  "ring_ok q f g \<longleftrightarrow> capacity q = 10 \<and> length (arr q) = 10
     \<and> write_idx q = past f 3 mod 10 \<and> read_idx q = past g 3 mod 10
     \<and> (\<forall>k. past g 4 < k \<and> k \<le> past f 4 \<longrightarrow> arr q ! (k mod 10) = int k)"

definition counts_ok :: "buffer \<Rightarrow> (nat \<Rightarrow> nat) \<Rightarrow> (nat \<Rightarrow> nat) \<Rightarrow> bool" where
  "counts_ok s f g \<longleftrightarrow> sem_write s + past f 1 = 10 + past g 6 \<and> sem_read s + past g 1 = past f 7
     \<and> next_data s = past f 5 + 1 \<and> out s = map int [1..<Suc (past g 4)]"

definition buffer_inv :: "buffer \<Rightarrow> bool" where
  "buffer_inv s \<longleftrightarrow> lock_ok (enq_ranks s) 6 (lock_enq s) \<and> lock_ok (deq_ranks s) 5 (lock_deq s)
     \<and> counts_ok s (enq_ranks s) (deq_ranks s) \<and> ring_ok (fsq s) (enq_ranks s) (deq_ranks s)"

lemma buffer_inv_init: "buffer_inv buffer_init"
  by (simp add: buffer_inv_def buffer_init_def lock_ok_def inside_def past_def counts_ok_def ring_ok_def FsqCreat_def
      enq_ranks_def deq_ranks_def FSQ_ELEMENTS_def)

lemma ranks_update:
  "enq_ranks (s\<lparr>producers := (producers s)(p := pc)\<rparr>) = (enq_ranks s)(p := enq_rank pc)"
  "deq_ranks (s\<lparr>consumers := (consumers s)(c := dpc)\<rparr>) = (deq_ranks s)(c := deq_rank dpc)"
  by (auto simp: enq_ranks_def deq_ranks_def)

text \<open>The ring never overtakes itself.\<close>

lemma buffer_window:
  assumes "counts_ok s f g"
  shows "past f 3 \<le> 10 + past g 4 \<and> past g 3 \<le> past f 4"
proof -
  have "past f 3 \<le> past f 1" "past g 6 \<le> past g 4" "past g 3 \<le> past g 1" "past f 7 \<le> past f 4"
    by (simp_all add: past_mono)
  then show ?thesis using assms unfolding counts_ok_def by linarith
qed

lemma mod_window: "k < n \<Longrightarrow> n < k + 10 \<Longrightarrow> k mod 10 \<noteq> n mod (10 :: nat)"
proof
  assume a: "k < n" "n < k + 10" "k mod 10 = n mod 10"
  then have "10 dvd n - k" by (metis less_imp_le mod_eq_dvd_iff_nat)
  with a(1,2) show False by (auto dest: dvd_imp_le)
qed

lemma ranks_producer:
  "producers s' = (producers s)(p := pc) \<Longrightarrow> consumers s' = consumers s \<Longrightarrow>
   enq_ranks s' = (enq_ranks s)(p := enq_rank pc) \<and> deq_ranks s' = deq_ranks s"
  by (auto simp: enq_ranks_def deq_ranks_def)

lemma ranks_consumer:
  "consumers s' = (consumers s)(c := pc) \<Longrightarrow> producers s' = producers s \<Longrightarrow>
   deq_ranks s' = (deq_ranks s)(c := deq_rank pc) \<and> enq_ranks s' = enq_ranks s"
  by (auto simp: enq_ranks_def deq_ranks_def)

lemma ProducerFunc_inv:
  assumes inv: "buffer_inv s" and p: "p < FSQ_ELEMENTS" and step: "ProducerFunc p s = Some s'"
  shows "buffer_inv s'"
proof -
  define f g k where "f = enq_ranks s" and "g = deq_ranks s" and "k = enq_rank (producers s p)"
  define f' where "f' = f(p := Suc k)"
  have fk: "f p = k" by (simp add: f_def k_def enq_ranks_def)
  have P: "past f' j = past f j + of_bool (j = Suc k)" for j by (rule past_update [OF p fk f'_def])
  have locks: "lock_ok f 6 (lock_enq s)" "lock_ok g 5 (lock_deq s)"
    and cnt: "counts_ok s f g" and ring: "ring_ok (fsq s) f g"
    using inv by (simp_all add: buffer_inv_def f_def g_def)
  note window = buffer_window [OF cnt]
  have frame: "buffer_inv s'" if "producers s' = (producers s)(p := pc)" "consumers s' = consumers s"
    "lock_deq s' = lock_deq s" "enq_rank pc = Suc k" "lock_ok f' 6 (lock_enq s')" "counts_ok s' f' g"
    "ring_ok (fsq s') f' g" for pc
    using ranks_producer [OF that(1,2)] that locks(2) by (simp add: buffer_inv_def f'_def f_def g_def)
  show ?thesis
  proof (cases "producers s p")
    case E_wait
    then have s': "s' = s\<lparr>sem_write := sem_write s - 1, producers := (producers s)(p := E_lock)\<rparr>" "0 < sem_write s"
      using step by (auto simp: ProducerFunc_def split: if_splits)
    have k: "k = 0" by (simp add: k_def E_wait)
    show ?thesis
      using lock_ok_outside [OF locks(1) fk p _ _ f'_def] cnt ring s' k
      by (intro frame [of E_lock]) (simp_all add: counts_ok_def ring_ok_def P)
  next
    case E_lock
    then have s': "s' = s\<lparr>lock_enq := Some p, producers := (producers s)(p := E_advance)\<rparr>" "lock_enq s = None"
      using step by (auto simp: ProducerFunc_def split: if_splits)
    have k: "k = 1" by (simp add: k_def E_lock)
    have "f' = f(p := 2)" by (simp add: f'_def k numeral_2_eq_2)
    then have "lock_ok f' 6 (Some p)" using lock_ok_acquire [of f 6 p f'] locks(1) fk p s'(2) k by simp
    then show ?thesis
      using cnt ring s' k
      by (intro frame [of E_advance]) (simp_all add: counts_ok_def ring_ok_def P)
  next
    case E_advance
    have k: "k = 2" by (simp add: k_def E_advance)
    have s': "s' = s\<lparr>fsq := (fsq s)\<lparr>write_idx := (write_idx (fsq s) + 1) mod 10\<rparr>, producers := (producers s)(p := E_store)\<rparr>"
      using step E_advance ring by (auto simp: ProducerFunc_def enq_advance_def ring_ok_def)
    show ?thesis
      using lock_ok_inside [OF locks(1) fk p _ _ f'_def] cnt ring s' k
      by (intro frame [of E_store]) (simp_all add: counts_ok_def ring_ok_def P mod_Suc_eq)
  next
    case E_store
    have k: "k = 3" by (simp add: k_def E_store)
    let ?n = "past f 3"
    have n: "past f 4 = past f 5" "?n = Suc (past f 5)"
      using lock_ok_past [OF locks(1) fk p, of 4] lock_ok_past [OF locks(1) fk p, of 5]
        lock_ok_past [OF locks(1) fk p, of 3] by (simp_all add: k)
    have s': "s' = s\<lparr>fsq := (fsq s)\<lparr>arr := (arr (fsq s))[?n mod 10 := int ?n]\<rparr>, producers := (producers s)(p := E_count)\<rparr>"
      using step E_store ring cnt n by (auto simp: ProducerFunc_def enq_store_def ring_ok_def counts_ok_def aset_eq_Some)
    have "(arr (fsq s))[?n mod 10 := int ?n] ! (j mod 10) = int j" if "past g 4 < j" "j \<le> past f' 4" for j
    proof (cases "j = ?n")
      case True
      then show ?thesis using ring by (simp add: ring_ok_def)
    next
      case False
      with that n have "j \<le> past f 4" "j < ?n" by (simp_all add: P k)
      moreover have "?n < j + 10" using window that(1) by simp
      ultimately show ?thesis using mod_window [of j ?n] ring that(1) by (simp add: ring_ok_def nth_list_update)
    qed
    then have "ring_ok (fsq s') f' g" using ring by (simp add: ring_ok_def P k s')
    then show ?thesis
      using lock_ok_inside [OF locks(1) fk p _ _ f'_def] cnt s' k
      by (intro frame [of E_count]) (simp_all add: counts_ok_def P)
  next
    case E_count
    have k: "k = 4" by (simp add: k_def E_count)
    have s': "s' = s\<lparr>next_data := next_data s + 1, producers := (producers s)(p := E_unlock)\<rparr>"
      using step E_count by (simp add: ProducerFunc_def)
    show ?thesis
      using lock_ok_inside [OF locks(1) fk p _ _ f'_def] cnt ring s' k
      by (intro frame [of E_unlock]) (simp_all add: counts_ok_def ring_ok_def P)
  next
    case E_unlock
    have k: "k = 5" by (simp add: k_def E_unlock)
    have s': "s' = s\<lparr>lock_enq := None, producers := (producers s)(p := E_post)\<rparr>"
      using step E_unlock by (simp add: ProducerFunc_def)
    show ?thesis
      using lock_ok_release [OF locks(1) fk p _ _ f'_def] cnt ring s' k
      by (intro frame [of E_post]) (simp_all add: counts_ok_def ring_ok_def P)
  next
    case E_post
    have k: "k = 6" by (simp add: k_def E_post)
    have s': "s' = s\<lparr>sem_read := sem_read s + 1, producers := (producers s)(p := E_done)\<rparr>"
      using step E_post by (simp add: ProducerFunc_def)
    show ?thesis
      using lock_ok_outside [OF locks(1) fk p _ _ f'_def] cnt ring s' k
      by (intro frame [of E_done]) (simp_all add: counts_ok_def ring_ok_def P)
  next
    case E_done
    then show ?thesis using step by (simp add: ProducerFunc_def)
  qed
qed

lemma ConsumerFunc_inv:
  assumes inv: "buffer_inv s" and c: "c < FSQ_ELEMENTS" and step: "ConsumerFunc c s = Some s'"
  shows "buffer_inv s'"
proof -
  define f g k where "f = enq_ranks s" and "g = deq_ranks s" and "k = deq_rank (consumers s c)"
  define g' where "g' = g(c := Suc k)"
  have gk: "g c = k" by (simp add: g_def k_def deq_ranks_def)
  have P: "past g' j = past g j + of_bool (j = Suc k)" for j by (rule past_update [OF c gk g'_def])
  have locks: "lock_ok f 6 (lock_enq s)" "lock_ok g 5 (lock_deq s)"
    and cnt: "counts_ok s f g" and ring: "ring_ok (fsq s) f g"
    using inv by (simp_all add: buffer_inv_def f_def g_def)
  note window = buffer_window [OF cnt]
  have frame: "buffer_inv s'" if "consumers s' = (consumers s)(c := pc)" "producers s' = producers s"
    "lock_enq s' = lock_enq s" "deq_rank pc = Suc k" "lock_ok g' 5 (lock_deq s')" "counts_ok s' f g'"
    "ring_ok (fsq s') f g'" for pc
    using ranks_consumer [OF that(1,2)] that locks(1) by (simp add: buffer_inv_def g'_def f_def g_def)
  show ?thesis
  proof (cases "consumers s c")
    case D_wait
    then have s': "s' = s\<lparr>sem_read := sem_read s - 1, consumers := (consumers s)(c := D_lock)\<rparr>" "0 < sem_read s"
      using step by (auto simp: ConsumerFunc_def split: if_splits)
    have k: "k = 0" by (simp add: k_def D_wait)
    show ?thesis
      using lock_ok_outside [OF locks(2) gk c _ _ g'_def] cnt ring s' k
      by (intro frame [of D_lock]) (simp_all add: counts_ok_def ring_ok_def P)
  next
    case D_lock
    then have s': "s' = s\<lparr>lock_deq := Some c, consumers := (consumers s)(c := D_advance)\<rparr>" "lock_deq s = None"
      using step by (auto simp: ConsumerFunc_def split: if_splits)
    have k: "k = 1" by (simp add: k_def D_lock)
    have "g' = g(c := 2)" by (simp add: g'_def k numeral_2_eq_2)
    then have "lock_ok g' 5 (Some c)" using lock_ok_acquire [of g 5 c g'] locks(2) gk c s'(2) k by simp
    then show ?thesis
      using cnt ring s' k
      by (intro frame [of D_advance]) (simp_all add: counts_ok_def ring_ok_def P)
  next
    case D_advance
    have k: "k = 2" by (simp add: k_def D_advance)
    have s': "s' = s\<lparr>fsq := (fsq s)\<lparr>read_idx := (read_idx (fsq s) + 1) mod 10\<rparr>, consumers := (consumers s)(c := D_load)\<rparr>"
      using step D_advance ring by (auto simp: ConsumerFunc_def deq_advance_def ring_ok_def)
    show ?thesis
      using lock_ok_inside [OF locks(2) gk c _ _ g'_def] cnt ring s' k
      by (intro frame [of D_load]) (simp_all add: counts_ok_def ring_ok_def P mod_Suc_eq)
  next
    case D_load
    have k: "k = 3" by (simp add: k_def D_load)
    let ?n = "past g 3"
    have n: "?n = Suc (past g 4)"
      using lock_ok_past [OF locks(2) gk c, of 4] lock_ok_past [OF locks(2) gk c, of 3] by (simp add: k)
    then have "arr (fsq s) ! (?n mod 10) = int ?n" using ring window by (simp add: ring_ok_def)
    then have s': "s' = s\<lparr>out := out s @ [int ?n], consumers := (consumers s)(c := D_unlock)\<rparr>"
      using step D_load ring by (simp add: ConsumerFunc_def deq_load_def ring_ok_def)
    show ?thesis
      using lock_ok_inside [OF locks(2) gk c _ _ g'_def] cnt ring s' k n
      by (intro frame [of D_unlock]) (simp_all add: counts_ok_def ring_ok_def P)
  next
    case D_unlock
    have k: "k = 4" by (simp add: k_def D_unlock)
    have s': "s' = s\<lparr>lock_deq := None, consumers := (consumers s)(c := D_post)\<rparr>"
      using step D_unlock by (simp add: ConsumerFunc_def)
    show ?thesis
      using lock_ok_release [OF locks(2) gk c _ _ g'_def] cnt ring s' k
      by (intro frame [of D_post]) (simp_all add: counts_ok_def ring_ok_def P)
  next
    case D_post
    have k: "k = 5" by (simp add: k_def D_post)
    have s': "s' = s\<lparr>sem_write := sem_write s + 1, consumers := (consumers s)(c := D_done)\<rparr>"
      using step D_post by (simp add: ConsumerFunc_def)
    show ?thesis
      using lock_ok_outside [OF locks(2) gk c _ _ g'_def] cnt ring s' k
      by (intro frame [of D_done]) (simp_all add: counts_ok_def ring_ok_def P)
  next
    case D_done
    then show ?thesis using step by (simp add: ConsumerFunc_def)
  qed
qed

lemma buffer_reach_inv: "buffer_step\<^sup>*\<^sup>* buffer_init s \<Longrightarrow> buffer_inv s"
proof (induction rule: rtranclp_induct)
  case (step s s')
  from step.hyps(2) step.IH show ?case
    by (elim buffer_stepE) (auto intro: ProducerFunc_inv ConsumerFunc_inv)
qed (rule buffer_inv_init)

section \<open>Safety\<close>

text \<open>C36. In every interleaving the consumers take the data 1, 2, 3 and so on in the order the producers
  put them in, none lost and none twice, although a producer and a consumer may be in the ring at the
  same time: whenever one is about to write a cell and another to read one, the cells differ. The
  indices stay inside the array and the number of elements stays between 0 and 10.\<close>

theorem buffer_fifo:
  assumes "buffer_step\<^sup>*\<^sup>* buffer_init s"
  shows "out s = map int [1..<Suc (length (out s))]
    \<and> \<not> ((\<exists>p<FSQ_ELEMENTS. producers s p = E_store) \<and> (\<exists>c<FSQ_ELEMENTS. consumers s c = D_load)
        \<and> write_idx (fsq s) = read_idx (fsq s))
    \<and> write_idx (fsq s) < length (arr (fsq s)) \<and> read_idx (fsq s) < length (arr (fsq s))
    \<and> sem_write s \<le> 10 \<and> sem_read s \<le> 10"
proof -
  define f g where "f = enq_ranks s" and "g = deq_ranks s"
  have locks: "lock_ok f 6 (lock_enq s)" "lock_ok g 5 (lock_deq s)"
    and cnt: "counts_ok s f g" and ring: "ring_ok (fsq s) f g"
    using buffer_reach_inv [OF assms] by (simp_all add: buffer_inv_def f_def g_def)
  have "write_idx (fsq s) \<noteq> read_idx (fsq s)"
    if p: "p < FSQ_ELEMENTS" "producers s p = E_store" and c: "c < FSQ_ELEMENTS" "consumers s c = D_load" for p c
  proof -
    have fp: "f p = 3" "g c = 3" using p c by (simp_all add: f_def g_def enq_ranks_def deq_ranks_def)
    have "past f 3 = Suc (past f 4)" "past g 3 = Suc (past g 4)"
      using lock_ok_past [OF locks(1) fp(1) p(1), of 3] lock_ok_past [OF locks(1) fp(1) p(1), of 4]
        lock_ok_past [OF locks(2) fp(2) c(1), of 3] lock_ok_past [OF locks(2) fp(2) c(1), of 4] by simp_all
    then show ?thesis using buffer_window [OF cnt] mod_window [of "past g 3" "past f 3"] ring
      by (simp add: ring_ok_def)
  qed
  moreover have "past g 6 \<le> past g 1" "past f 7 \<le> past f 1" by (simp_all add: past_mono)
  then have "sem_write s \<le> 10 \<and> sem_read s \<le> 10"
    using cnt past_le [of f 7] unfolding counts_ok_def FSQ_ELEMENTS_def by linarith
  ultimately show ?thesis using cnt ring by (auto simp: counts_ok_def ring_ok_def)
qed

section \<open>Termination\<close>

text \<open>Every step advances one thread, so at most 130 steps are possible.\<close>

definition steps_left :: "buffer \<Rightarrow> nat" where
  "steps_left s = (\<Sum>p<FSQ_ELEMENTS. 7 - enq_ranks s p) + (\<Sum>c<FSQ_ELEMENTS. 6 - deq_ranks s c)"

lemma sum_decrease:
  fixes f :: "nat \<Rightarrow> nat"
  assumes "p < n" "f p < m"
  shows "(\<Sum>q<n. m - (f(p := Suc (f p))) q) < (\<Sum>q<n. m - f q)"
  using assms by (intro sum_strict_mono_ex1) (auto intro!: bexI [of _ p])

lemma ProducerFunc_rank:
  "ProducerFunc p s = Some s' \<Longrightarrow> enq_ranks s p < 7 \<and> enq_ranks s' = (enq_ranks s)(p := Suc (enq_ranks s p)) \<and> deq_ranks s' = deq_ranks s"
  by (cases "producers s p")
    (auto simp: ProducerFunc_def Let_def enq_ranks_def deq_ranks_def fun_eq_iff bind_eq_Some_conv split: if_splits)

lemma ConsumerFunc_rank:
  "ConsumerFunc c s = Some s' \<Longrightarrow> deq_ranks s c < 6 \<and> deq_ranks s' = (deq_ranks s)(c := Suc (deq_ranks s c)) \<and> enq_ranks s' = enq_ranks s"
  by (cases "consumers s c")
    (auto simp: ConsumerFunc_def Let_def enq_ranks_def deq_ranks_def fun_eq_iff bind_eq_Some_conv split: if_splits)

lemma steps_left_less:
  assumes "buffer_step s s'"
  shows "steps_left s' < steps_left s"
  using assms
proof (cases rule: buffer_step.cases)
  case (producer p)
  then show ?thesis
    using ProducerFunc_rank [OF producer(2)] sum_decrease [of p FSQ_ELEMENTS "enq_ranks s" 7]
    by (simp add: steps_left_def)
next
  case (consumer c)
  then show ?thesis
    using ConsumerFunc_rank [OF consumer(2)] sum_decrease [of c FSQ_ELEMENTS "deq_ranks s" 6]
    by (simp add: steps_left_def)
qed

lemma steps_left_init: "steps_left buffer_init = 130"
  by (simp add: steps_left_def buffer_init_def enq_ranks_def deq_ranks_def FSQ_ELEMENTS_def)

lemma run_length: "(buffer_step ^^ n) s s' \<Longrightarrow> n + steps_left s' \<le> steps_left s"
proof (induction n arbitrary: s')
  case (Suc n)
  then obtain t where "(buffer_step ^^ n) s t" "buffer_step t s'" by auto
  with Suc.IH steps_left_less show ?case by fastforce
qed simp

text \<open>A thread that cannot go on waits at a semaphore or for a lock, or is done.\<close>

lemma ProducerFunc_stuck:
  assumes "ring_ok (fsq s) f g" "f = enq_ranks s" "g = deq_ranks s" "ProducerFunc p s = None"
  shows "producers s p = E_done \<or> producers s p = E_wait \<and> sem_write s = 0 \<or> producers s p = E_lock \<and> lock_enq s \<noteq> None"
  using assms
  by (cases "producers s p")
    (auto simp: ProducerFunc_def Let_def ring_ok_def enq_advance_def enq_store_def split: if_splits)

lemma ConsumerFunc_stuck:
  assumes "ring_ok (fsq s) f g" "f = enq_ranks s" "g = deq_ranks s" "ConsumerFunc c s = None"
  shows "consumers s c = D_done \<or> consumers s c = D_wait \<and> sem_read s = 0 \<or> consumers s c = D_lock \<and> lock_deq s \<noteq> None"
  using assms
  by (cases "consumers s c")
    (auto simp: ConsumerFunc_def Let_def ring_ok_def deq_advance_def deq_load_def split: if_splits)

lemma buffer_stuck:
  assumes inv: "buffer_inv s" and stuck: "\<nexists>s'. buffer_step s s'"
  shows "(\<forall>p<FSQ_ELEMENTS. producers s p = E_done) \<and> (\<forall>c<FSQ_ELEMENTS. consumers s c = D_done)"
proof -
  define f g where "f = enq_ranks s" and "g = deq_ranks s"
  have locks: "lock_ok f 6 (lock_enq s)" "lock_ok g 5 (lock_deq s)"
    and cnt: "counts_ok s f g" and ring: "ring_ok (fsq s) f g"
    using inv by (simp_all add: buffer_inv_def f_def g_def)
  have P: "producers s p = E_done \<or> producers s p = E_wait \<and> sem_write s = 0 \<or> producers s p = E_lock \<and> lock_enq s \<noteq> None"
    if "p < FSQ_ELEMENTS" for p
    using ProducerFunc_stuck [OF ring f_def g_def, of p] stuck that by (metis not_None_eq producer)
  have C: "consumers s c = D_done \<or> consumers s c = D_wait \<and> sem_read s = 0 \<or> consumers s c = D_lock \<and> lock_deq s \<noteq> None"
    if "c < FSQ_ELEMENTS" for c
    using ConsumerFunc_stuck [OF ring f_def g_def, of c] stuck that by (metis not_None_eq consumer)
  have "lock_enq s = None"
  proof (cases "lock_enq s")
    case (Some p)
    then have "p < FSQ_ELEMENTS" "2 \<le> f p" "f p < 6" using lock_ok_owner [OF locks(1), of p] by simp_all
    then show ?thesis using P [of p] by (auto simp: f_def enq_ranks_def)
  qed
  moreover have "lock_deq s = None"
  proof (cases "lock_deq s")
    case (Some c)
    then have "c < FSQ_ELEMENTS" "2 \<le> g c" "g c < 5" using lock_ok_owner [OF locks(2), of c] by simp_all
    then show ?thesis using C [of c] by (auto simp: g_def deq_ranks_def)
  qed
  ultimately have pcs: "p < FSQ_ELEMENTS \<Longrightarrow> f p = 7 \<or> f p = 0 \<and> sem_write s = 0"
    "c < FSQ_ELEMENTS \<Longrightarrow> g c = 6 \<or> g c = 0 \<and> sem_read s = 0" for p c
    using P [of p] C [of c] by (auto simp: f_def g_def enq_ranks_def deq_ranks_def)
  have "of_bool (1 \<le> f q) = (of_bool (7 \<le> f q) :: nat)" "of_bool (1 \<le> g q) = (of_bool (6 \<le> g q) :: nat)"
    if "q < FSQ_ELEMENTS" for q using pcs(1) [OF that] pcs(2) [OF that] by auto
  then have "past f 1 = past f 7" "past g 1 = past g 6" unfolding past_def by (intro sum.cong; simp)+
  moreover have "sem_write s + past f 1 = 10 + past g 6" "sem_read s + past g 1 = past f 7"
    using cnt by (simp_all add: counts_ok_def)
  moreover have "past f 7 \<le> 10" "past g 6 \<le> 10" using past_le [of f 7] past_le [of g 6] by (simp_all add: FSQ_ELEMENTS_def)
  moreover have "sem_write s = 0 \<or> past f 7 = 10"
    using pcs(1) by (cases "sem_write s = 0") (auto simp: past_def FSQ_ELEMENTS_def)
  moreover have "sem_read s = 0 \<or> past g 6 = 10"
    using pcs(2) by (cases "sem_read s = 0") (auto simp: past_def FSQ_ELEMENTS_def)
  ultimately have "past f 7 = FSQ_ELEMENTS" "past g 6 = FSQ_ELEMENTS" unfolding FSQ_ELEMENTS_def by linarith+
  then have "p < FSQ_ELEMENTS \<Longrightarrow> f p = 7" "p < FSQ_ELEMENTS \<Longrightarrow> g p = 6" for p
    using past_all [of f 7 p] past_all [of g 6 p] pcs(1) [of p] pcs(2) [of p] by auto
  moreover have "enq_rank pc = 7 \<Longrightarrow> pc = E_done" "deq_rank dpc = 6 \<Longrightarrow> dpc = D_done" for pc dpc
    by (cases pc; simp) (cases dpc; simp)
  ultimately show ?thesis by (auto simp: f_def g_def enq_ranks_def deq_ranks_def)
qed

text \<open>The twenty threads always finish, whatever the scheduler does: no run has more than 130 steps,
  and a run that cannot be continued has ended with all threads done (there is no deadlock) and the
  consumers holding exactly the data 1 to 10.\<close>

theorem buffer_terminates:
  assumes "(buffer_step ^^ n) buffer_init s"
  shows "n \<le> 130 \<and> ((\<exists>s'. buffer_step s s')
    \<or> (\<forall>p\<in>{..<FSQ_ELEMENTS}. producers s p = E_done) \<and> (\<forall>c\<in>{..<FSQ_ELEMENTS}. consumers s c = D_done)
      \<and> out s = [1, 2, 3, 4, 5, 6, 7, 8, 9, 10])"
proof (intro conjI)
  show "n \<le> 130" using run_length [OF assms] by (simp add: steps_left_init)
  have inv: "buffer_inv s" using assms buffer_reach_inv relpowp_imp_rtranclp by metis
  show "(\<exists>s'. buffer_step s s')
    \<or> (\<forall>p\<in>{..<FSQ_ELEMENTS}. producers s p = E_done) \<and> (\<forall>c\<in>{..<FSQ_ELEMENTS}. consumers s c = D_done)
      \<and> out s = [1, 2, 3, 4, 5, 6, 7, 8, 9, 10]"
  proof (cases "\<exists>s'. buffer_step s s'")
    case False
    note fin = buffer_stuck [OF inv False]
    then have "past (deq_ranks s) 4 = 10" by (simp add: past_def deq_ranks_def FSQ_ELEMENTS_def)
    then have "out s = map int [1..<11]" using inv by (simp add: buffer_inv_def counts_ok_def)
    then show ?thesis using fin by (simp add: upt_rec)
  qed blast
qed

text \<open>A run of one step.\<close>

definition buffer_begun :: buffer where
  "buffer_begun = buffer_init\<lparr>sem_write := 9, producers := (producers buffer_init)(0 := E_lock)\<rparr>"

lemma buffer_begun_step: "buffer_step buffer_init buffer_begun"
  by (rule producer [of 0])
    (simp_all add: ProducerFunc_def buffer_begun_def buffer_init_def FSQ_ELEMENTS_def)

lemma buffer_fifo_witness: "sem_write buffer_begun \<le> 10 \<and> out buffer_begun = []"
  using buffer_fifo [of buffer_begun] buffer_begun_step by (auto simp: buffer_begun_def buffer_init_def)

lemma buffer_terminates_witness: "\<exists>s'. buffer_step buffer_begun s'"
  using buffer_terminates [of 1 buffer_begun] buffer_begun_step
  by (auto simp: buffer_begun_def buffer_init_def)

end
