(* ===== verification/SharedList.thy ===== *)
theory SharedList
  imports BoundedBuffer
begin

text \<open>
  The other programs of \<open>producers_consumers\<close>. \<open>ex2/ex2_1.c\<close> shares a list under one mutex, and a
  consumer gives the mutex back until it finds an element. \<open>ex2/ex2_2.c\<close> looks at a semaphore instead,
  whose first value is wrong. \<open>ex4/ex4.c\<close> shares the ring of \<open>ex3\<close>, but the semaphore is raised before
  the element is written. The first is proved safe; for the two others there are runs that go wrong.
\<close>

section \<open>The list\<close>

text \<open>The elements behind the dummy head. \<open>PushFront\<close> takes the answer of \<open>malloc\<close>; \<open>PopFront\<close> of the
  empty list follows NULL.\<close>

definition PushFront :: "bool \<Rightarrow> nat list \<Rightarrow> nat \<Rightarrow> nat list" where
  "PushFront mem chain data = (if mem then data # chain else chain)"

definition PopFront :: "nat list \<Rightarrow> (nat list \<times> nat) option" where
  "PopFront chain = (case chain of [] \<Rightarrow> None | x # xs \<Rightarrow> Some (xs, x))"

datatype holder = Prod nat | Cons nat

datatype push_pc = A_lock | A_raise | A_push | A_count | A_unlock | A_done

datatype pop_pc = B_first | B_unlock | B_lock | B_test | B_take | B_pop | B_release | B_done

record pool =
  chain :: "nat list"
  mutex :: "holder option"
  sem :: nat
  next_data :: nat
  pushers :: "nat \<Rightarrow> push_pc"
  poppers :: "nat \<Rightarrow> pop_pc"
  popped :: "nat list"

text \<open>The semaphore is created with the value 1 by \<open>SemIdCreate\<close> of \<open>ex2_2.c\<close>; \<open>ex2_1.c\<close> has none.\<close>

definition SemIdCreate_ex2 :: nat where
  "SemIdCreate_ex2 = 1"

definition pool_init :: "nat \<Rightarrow> pool" where
  "pool_init v = \<lparr>chain = [], mutex = None, sem = v, next_data = 1, pushers = (\<lambda>_. A_lock),
     poppers = (\<lambda>_. B_first), popped = []\<rparr>"

abbreviation push_at :: "nat \<Rightarrow> push_pc \<Rightarrow> pool \<Rightarrow> pool" where
  "push_at p pc s \<equiv> s\<lparr>pushers := (pushers s)(p := pc)\<rparr>"

abbreviation pop_at :: "nat \<Rightarrow> pop_pc \<Rightarrow> pool \<Rightarrow> pool" where
  "pop_at c pc s \<equiv> s\<lparr>poppers := (poppers s)(c := pc)\<rparr>"

section \<open>The threads of ex2_1.c\<close>

definition ProducerFunc_yield :: "bool \<Rightarrow> nat \<Rightarrow> pool \<Rightarrow> pool option" where
  "ProducerFunc_yield mem p s = (case pushers s p of
     A_lock \<Rightarrow> if mutex s = None then Some (push_at p A_push (s\<lparr>mutex := Some (Prod p)\<rparr>)) else None
   | A_raise \<Rightarrow> None
   | A_push \<Rightarrow> Some (push_at p A_count (s\<lparr>chain := PushFront mem (chain s) (next_data s)\<rparr>))
   | A_count \<Rightarrow> Some (push_at p A_unlock (s\<lparr>next_data := next_data s + 1\<rparr>))
   | A_unlock \<Rightarrow> Some (push_at p A_done (s\<lparr>mutex := None\<rparr>))
   | A_done \<Rightarrow> None)"

definition ConsumerFunc_yield :: "nat \<Rightarrow> pool \<Rightarrow> pool option" where
  "ConsumerFunc_yield c s = (case poppers s c of
     B_first \<Rightarrow> if mutex s = None then Some (pop_at c B_unlock (s\<lparr>mutex := Some (Cons c)\<rparr>)) else None
   | B_unlock \<Rightarrow> Some (pop_at c B_lock (s\<lparr>mutex := None\<rparr>))
   | B_lock \<Rightarrow> if mutex s = None then Some (pop_at c B_test (s\<lparr>mutex := Some (Cons c)\<rparr>)) else None
   | B_test \<Rightarrow> Some (pop_at c (if chain s = [] then B_unlock else B_pop) s)
   | B_take \<Rightarrow> None
   | B_pop \<Rightarrow> do { (xs, x) \<leftarrow> PopFront (chain s); Some (pop_at c B_release (s\<lparr>chain := xs, popped := popped s @ [x]\<rparr>)) }
   | B_release \<Rightarrow> Some (pop_at c B_done (s\<lparr>mutex := None\<rparr>))
   | B_done \<Rightarrow> None)"

inductive yield_step :: "pool \<Rightarrow> pool \<Rightarrow> bool" where
  push: "ProducerFunc_yield mem p s = Some s' \<Longrightarrow> yield_step s s'"
| pop: "ConsumerFunc_yield c s = Some s' \<Longrightarrow> yield_step s s'"

inductive_cases yield_stepE: "yield_step s s'"

text \<open>Who is between taking and giving back the mutex holds it; what has been pushed is below the counter,
  or equal to it while the holder is about to count.\<close>

definition push_section :: "push_pc \<Rightarrow> bool" where
  "push_section pc \<longleftrightarrow> pc \<in> {A_push, A_count, A_unlock}"

definition pop_section :: "pop_pc \<Rightarrow> bool" where
  "pop_section pc \<longleftrightarrow> pc \<in> {B_unlock, B_test, B_pop, B_release}"

definition owners_ok :: "pool \<Rightarrow> bool" where
  "owners_ok s \<longleftrightarrow> (\<forall>p. push_section (pushers s p) \<longrightarrow> mutex s = Some (Prod p))
     \<and> (\<forall>c. pop_section (poppers s c) \<longrightarrow> mutex s = Some (Cons c))"

definition counted :: "pool \<Rightarrow> nat" where
  "counted s = next_data s + (case mutex s of Some (Prod p) \<Rightarrow> of_bool (pushers s p = A_count) | _ \<Rightarrow> 0)"

definition data_ok :: "pool \<Rightarrow> bool" where
  "data_ok s \<longleftrightarrow> (\<forall>c. poppers s c = B_pop \<longrightarrow> chain s \<noteq> []) \<and> distinct (chain s @ popped s)
     \<and> (\<forall>x \<in> set (chain s @ popped s). 1 \<le> x \<and> x < counted s) \<and> 1 \<le> next_data s"

lemma owners_push: "owners_ok s \<Longrightarrow> push_section (pushers s p) \<Longrightarrow> mutex s = Some (Prod p)"
  by (simp add: owners_ok_def)

lemma owners_pop: "owners_ok s \<Longrightarrow> pop_section (poppers s c) \<Longrightarrow> mutex s = Some (Cons c)"
  by (simp add: owners_ok_def)

lemma section_simps [simp]:
  "push_section A_push" "push_section A_count" "push_section A_unlock"
  "\<not> push_section A_lock" "\<not> push_section A_raise" "\<not> push_section A_done"
  "pop_section B_unlock" "pop_section B_test" "pop_section B_pop" "pop_section B_release"
  "\<not> pop_section B_first" "\<not> pop_section B_lock" "\<not> pop_section B_take" "\<not> pop_section B_done"
  by (simp_all add: push_section_def pop_section_def)

lemma owners_push_step:
  assumes own: "owners_ok s" and p: "pushers s' = (pushers s)(p := pc)" "poppers s' = poppers s"
    and m: "mutex s' = mutex s \<and> push_section pc = push_section (pushers s p)
      \<or> mutex s = None \<and> mutex s' = Some (Prod p)
      \<or> mutex s = Some (Prod p) \<and> mutex s' = None \<and> \<not> push_section pc"
  shows "owners_ok s'"
  unfolding owners_ok_def p
proof (intro conjI allI impI)
  show "mutex s' = Some (Prod q)" if "push_section (((pushers s)(p := pc)) q)" for q
    using that m owners_push [OF own, of q] by (cases "q = p") auto
  show "mutex s' = Some (Cons c)" if "pop_section (poppers s c)" for c
    using that m owners_pop [OF own, of c] by auto
qed

lemma owners_pop_step:
  assumes own: "owners_ok s" and c: "poppers s' = (poppers s)(c := pc)" "pushers s' = pushers s"
    and m: "mutex s' = mutex s \<and> pop_section pc = pop_section (poppers s c)
      \<or> mutex s = None \<and> mutex s' = Some (Cons c)
      \<or> mutex s = Some (Cons c) \<and> mutex s' = None \<and> \<not> pop_section pc"
  shows "owners_ok s'"
  unfolding owners_ok_def c
proof (intro conjI allI impI)
  show "mutex s' = Some (Cons d)" if "pop_section (((poppers s)(c := pc)) d)" for d
    using that m owners_pop [OF own, of d] by (cases "d = c") auto
  show "mutex s' = Some (Prod p)" if "push_section (pushers s p)" for p
    using that m owners_push [OF own, of p] by auto
qed

lemma ProducerFunc_yield_inv:
  assumes own: "owners_ok s" and data: "data_ok s" and step: "ProducerFunc_yield mem p s = Some s'"
  shows "owners_ok s' \<and> data_ok s'"
proof (cases "pushers s p")
  case A_lock
  then have s': "s' = push_at p A_push (s\<lparr>mutex := Some (Prod p)\<rparr>)" "mutex s = None"
    using step by (auto simp: ProducerFunc_yield_def split: if_splits)
  have "owners_ok s'" using s' A_lock by (intro owners_push_step [OF own, of _ p A_push]) simp_all
  then show ?thesis using data s' by (simp add: data_ok_def counted_def)
next
  case A_push
  then have s': "s' = push_at p A_count (s\<lparr>chain := PushFront mem (chain s) (next_data s)\<rparr>)"
    using step by (simp add: ProducerFunc_yield_def)
  have m: "mutex s = Some (Prod p)" using owners_push [OF own] A_push by simp
  have "owners_ok s'" using s' A_push by (intro owners_push_step [OF own, of _ p A_count]) simp_all
  moreover have "poppers s c \<noteq> B_pop" for c using owners_pop [OF own, of c] m by auto
  ultimately show ?thesis using data m A_push unfolding s'
    by (auto simp: data_ok_def counted_def PushFront_def less_Suc_eq)
next
  case A_count
  then have s': "s' = push_at p A_unlock (s\<lparr>next_data := next_data s + 1\<rparr>)"
    using step by (simp add: ProducerFunc_yield_def)
  have m: "mutex s = Some (Prod p)" using owners_push [OF own] A_count by simp
  have "owners_ok s'" using s' A_count by (intro owners_push_step [OF own, of _ p A_unlock]) simp_all
  then show ?thesis using data m A_count s' by (simp add: data_ok_def counted_def)
next
  case A_unlock
  then have s': "s' = push_at p A_done (s\<lparr>mutex := None\<rparr>)" using step by (simp add: ProducerFunc_yield_def)
  have m: "mutex s = Some (Prod p)" using owners_push [OF own] A_unlock by simp
  have "owners_ok s'" using s' A_unlock m by (intro owners_push_step [OF own, of _ p A_done]) simp_all
  then show ?thesis using data m A_unlock s' by (simp add: data_ok_def counted_def)
qed (use step in \<open>simp_all add: ProducerFunc_yield_def\<close>)

lemma counted_free: "mutex s \<in> {None, Some (Cons c)} \<Longrightarrow> counted s = next_data s"
  by (auto simp: counted_def)

lemma ConsumerFunc_yield_inv:
  assumes own: "owners_ok s" and data: "data_ok s" and step: "ConsumerFunc_yield c s = Some s'"
  shows "owners_ok s' \<and> data_ok s'"
proof -
  have held: "pop_section (poppers s c) \<Longrightarrow> mutex s = Some (Cons c)" by (rule owners_pop [OF own])
  have same: "data_ok (pop_at c pc (s\<lparr>mutex := x\<rparr>))"
    if "mutex s \<in> {None, Some (Cons c)}" "x \<in> {None, Some (Cons c)}" "pc = B_pop \<Longrightarrow> chain s \<noteq> []" for pc x
    using data that counted_free [of s c] counted_free [of "pop_at c pc (s\<lparr>mutex := x\<rparr>)" c]
    by (auto simp: data_ok_def split: if_splits)
  show ?thesis
  proof (cases "poppers s c")
    case B_first
    then have s': "s' = pop_at c B_unlock (s\<lparr>mutex := Some (Cons c)\<rparr>)" "mutex s = None"
      using step by (auto simp: ConsumerFunc_yield_def split: if_splits)
    then show ?thesis using same [of "Some (Cons c)" B_unlock] owners_pop_step [OF own, of s' c B_unlock] by simp
  next
    case B_unlock
    then have s': "s' = pop_at c B_lock (s\<lparr>mutex := None\<rparr>)" "mutex s = Some (Cons c)"
      using step held by (auto simp: ConsumerFunc_yield_def)
    then show ?thesis using same [of None B_lock] owners_pop_step [OF own, of s' c B_lock] by simp
  next
    case B_lock
    then have s': "s' = pop_at c B_test (s\<lparr>mutex := Some (Cons c)\<rparr>)" "mutex s = None"
      using step by (auto simp: ConsumerFunc_yield_def split: if_splits)
    then show ?thesis using same [of "Some (Cons c)" B_test] owners_pop_step [OF own, of s' c B_test] by simp
  next
    case B_test
    let ?pc = "if chain s = [] then B_unlock else B_pop"
    have s': "s' = pop_at c ?pc s" "mutex s = Some (Cons c)" using step B_test held by (auto simp: ConsumerFunc_yield_def)
    have e: "s\<lparr>mutex := mutex s\<rparr> = s" by simp
    have "data_ok s'" using same [of "mutex s" ?pc, unfolded e] s' by (simp split: if_splits)
    then show ?thesis using s' B_test owners_pop_step [OF own, of s' c ?pc] by (simp split: if_splits)
  next
    case B_pop
    then obtain x xs where x: "chain s = x # xs" using data by (cases "chain s") (auto simp: data_ok_def)
    then have s': "s' = pop_at c B_release (s\<lparr>chain := xs, popped := popped s @ [x]\<rparr>)"
      using step B_pop by (simp add: ConsumerFunc_yield_def PopFront_def)
    have m: "mutex s = Some (Cons c)" using held B_pop by simp
    have "poppers s d \<noteq> B_pop" if "d \<noteq> c" for d using owners_pop [OF own, of d] m that by auto
    then have "data_ok s'" using data x m unfolding s' by (auto simp: data_ok_def counted_def)
    moreover have "owners_ok s'" using s' B_pop by (intro owners_pop_step [OF own, of s' c B_release]) simp_all
    ultimately show ?thesis by blast
  next
    case B_release
    then have s': "s' = pop_at c B_done (s\<lparr>mutex := None\<rparr>)" "mutex s = Some (Cons c)"
      using step held by (auto simp: ConsumerFunc_yield_def)
    then show ?thesis using same [of None B_done] owners_pop_step [OF own, of s' c B_done] by simp
  qed (use step in \<open>simp_all add: ConsumerFunc_yield_def\<close>)
qed

text \<open>The list under one mutex: no consumer pops from the empty list, every element is popped at most
  once, and it is one that a producer has pushed.\<close>

lemma yield_safe:
  assumes "yield_step\<^sup>*\<^sup>* (pool_init v) s"
  shows "(poppers s c = B_pop \<longrightarrow> chain s \<noteq> []) \<and> distinct (popped s) \<and> set (popped s) \<subseteq> {1..next_data s}"
proof -
  have "owners_ok s \<and> data_ok s"
    using assms
  proof (induction rule: rtranclp_induct)
    case base
    then show ?case by (simp add: pool_init_def owners_ok_def data_ok_def)
  next
    case (step s s')
    have "owners_ok s" "data_ok s" using step.IH by simp_all
    with step.hyps(2) show ?case
      by (blast elim: yield_stepE dest: ProducerFunc_yield_inv ConsumerFunc_yield_inv)
  qed
  then have d: "data_ok s" by simp
  have "counted s \<le> next_data s + 1" by (simp add: counted_def split: option.splits holder.splits)
  moreover have "1 \<le> x \<and> x < counted s" if "x \<in> set (popped s)" for x
    using d that unfolding data_ok_def by simp
  ultimately have "1 \<le> x \<and> x \<le> next_data s" if "x \<in> set (popped s)" for x using that by fastforce
  then have "set (popped s) \<subseteq> {1..next_data s}" by auto
  then show ?thesis using d by (auto simp: data_ok_def)
qed

section \<open>The threads of ex2_2.c\<close>

definition ProducerFunc_sem :: "bool \<Rightarrow> nat \<Rightarrow> pool \<Rightarrow> pool option" where
  "ProducerFunc_sem mem p s = (case pushers s p of
     A_lock \<Rightarrow> if mutex s = None then Some (push_at p A_raise (s\<lparr>mutex := Some (Prod p)\<rparr>)) else None
   | A_raise \<Rightarrow> Some (push_at p A_push (s\<lparr>sem := sem s + 1\<rparr>))
   | A_push \<Rightarrow> Some (push_at p A_count (s\<lparr>chain := PushFront mem (chain s) (next_data s)\<rparr>))
   | A_count \<Rightarrow> Some (push_at p A_unlock (s\<lparr>next_data := next_data s + 1\<rparr>))
   | A_unlock \<Rightarrow> Some (push_at p A_done (s\<lparr>mutex := None\<rparr>))
   | A_done \<Rightarrow> None)"

definition ConsumerFunc_sem :: "nat \<Rightarrow> pool \<Rightarrow> pool option" where
  "ConsumerFunc_sem c s = (case poppers s c of
     B_first \<Rightarrow> if mutex s = None then Some (pop_at c B_unlock (s\<lparr>mutex := Some (Cons c)\<rparr>)) else None
   | B_unlock \<Rightarrow> Some (pop_at c B_lock (s\<lparr>mutex := None\<rparr>))
   | B_lock \<Rightarrow> if mutex s = None then Some (pop_at c B_test (s\<lparr>mutex := Some (Cons c)\<rparr>)) else None
   | B_test \<Rightarrow> Some (pop_at c (if sem s = 0 then B_unlock else B_take) s)
   | B_take \<Rightarrow> if 0 < sem s then Some (pop_at c B_pop (s\<lparr>sem := sem s - 1\<rparr>)) else None
   | B_pop \<Rightarrow> do { (xs, x) \<leftarrow> PopFront (chain s); Some (pop_at c B_release (s\<lparr>chain := xs, popped := popped s @ [x]\<rparr>)) }
   | B_release \<Rightarrow> Some (pop_at c B_done (s\<lparr>mutex := None\<rparr>))
   | B_done \<Rightarrow> None)"

inductive sem_step :: "pool \<Rightarrow> pool \<Rightarrow> bool" where
  push: "ProducerFunc_sem mem p s = Some s' \<Longrightarrow> sem_step s s'"
| pop: "ConsumerFunc_sem c s = Some s' \<Longrightarrow> sem_step s s'"

text \<open>The first value of the semaphore lets a consumer through before any producer has run: it holds the
  mutex and pops from the empty list, which follows NULL.\<close>

lemma sem_pops_empty:
  "\<exists>s. sem_step\<^sup>*\<^sup>* (pool_init SemIdCreate_ex2) s \<and> poppers s 0 = B_pop \<and> chain s = [] \<and> ConsumerFunc_sem 0 s = None"
proof -
  define s1 where "s1 = pop_at 0 B_unlock ((pool_init 1)\<lparr>mutex := Some (Cons 0)\<rparr>)"
  define s2 where "s2 = pop_at 0 B_lock (s1\<lparr>mutex := None\<rparr>)"
  define s3 where "s3 = pop_at 0 B_test (s2\<lparr>mutex := Some (Cons 0)\<rparr>)"
  define s4 where "s4 = pop_at 0 B_take s3"
  define s5 where "s5 = pop_at 0 B_pop (s4\<lparr>sem := 0\<rparr>)"
  note defs = ConsumerFunc_sem_def s1_def s2_def s3_def s4_def s5_def pool_init_def
  have "ConsumerFunc_sem 0 (pool_init 1) = Some s1" "ConsumerFunc_sem 0 s1 = Some s2" "ConsumerFunc_sem 0 s2 = Some s3"
    "ConsumerFunc_sem 0 s3 = Some s4" "ConsumerFunc_sem 0 s4 = Some s5"
    by (simp_all add: defs)
  then have "sem_step (pool_init 1) s1" "sem_step s1 s2" "sem_step s2 s3" "sem_step s3 s4" "sem_step s4 s5"
    by (blast intro: sem_step.pop)+
  then have "sem_step\<^sup>*\<^sup>* (pool_init 1) s5"
    by (blast intro: converse_rtranclp_into_rtranclp)
  moreover have "poppers s5 0 = B_pop \<and> chain s5 = [] \<and> ConsumerFunc_sem 0 s5 = None" by (simp add: defs PopFront_def)
  ultimately show ?thesis unfolding SemIdCreate_ex2_def by blast
qed

section \<open>The threads of ex4.c\<close>

datatype enq4_pc = G_raise | G_lock | G_enq | G_count | G_unlock | G_done

datatype deq4_pc = H_take | H_lock | H_check | H_deq | H_unlock | H_done

text \<open>\<open>SemIdCreate\<close> of this program overwrites the value it is given by 0.\<close>

record ring4 =
  ring :: fsq
  sem4 :: nat
  lock4 :: "holder option"
  next4 :: nat
  enqs :: "nat \<Rightarrow> enq4_pc"
  deqs :: "nat \<Rightarrow> deq4_pc"
  taken4 :: "int list"

definition SemIdCreate_ex4 :: "nat \<Rightarrow> nat" where
  "SemIdCreate_ex4 val = 0"

definition ring4_init :: ring4 where
  "ring4_init = \<lparr>ring = the (FsqCreat True True FSQ_ELEMENTS), sem4 = SemIdCreate_ex4 1, lock4 = None, next4 = 1,
     enqs = (\<lambda>_. G_raise), deqs = (\<lambda>_. H_take), taken4 = []\<rparr>"

abbreviation enq4_at :: "nat \<Rightarrow> enq4_pc \<Rightarrow> ring4 \<Rightarrow> ring4" where
  "enq4_at p pc s \<equiv> s\<lparr>enqs := (enqs s)(p := pc)\<rparr>"

abbreviation deq4_at :: "nat \<Rightarrow> deq4_pc \<Rightarrow> ring4 \<Rightarrow> ring4" where
  "deq4_at c pc s \<equiv> s\<lparr>deqs := (deqs s)(c := pc)\<rparr>"

definition ProducerFunc_ex4 :: "nat \<Rightarrow> ring4 \<Rightarrow> ring4 option" where
  "ProducerFunc_ex4 p s = (case enqs s p of
     G_raise \<Rightarrow> Some (enq4_at p G_lock (s\<lparr>sem4 := sem4 s + 1\<rparr>))
   | G_lock \<Rightarrow> if lock4 s = None then Some (enq4_at p G_enq (s\<lparr>lock4 := Some (Prod p)\<rparr>)) else None
   | G_enq \<Rightarrow> do { q \<leftarrow> FsqEnq (ring s) (int (next4 s)); Some (enq4_at p G_count (s\<lparr>ring := q\<rparr>)) }
   | G_count \<Rightarrow> Some (enq4_at p G_unlock (s\<lparr>next4 := next4 s + 1\<rparr>))
   | G_unlock \<Rightarrow> Some (enq4_at p G_done (s\<lparr>lock4 := None\<rparr>))
   | G_done \<Rightarrow> None)"

text \<open>When more elements are announced than the ring holds, the oldest are given up.\<close>

definition ConsumerFunc_ex4 :: "nat \<Rightarrow> ring4 \<Rightarrow> ring4 option" where
  "ConsumerFunc_ex4 c s = (case deqs s c of
     H_take \<Rightarrow> if 0 < sem4 s then Some (deq4_at c H_lock (s\<lparr>sem4 := sem4 s - 1\<rparr>)) else None
   | H_lock \<Rightarrow> if lock4 s = None then Some (deq4_at c H_check (s\<lparr>lock4 := Some (Cons c)\<rparr>)) else None
   | H_check \<Rightarrow> Some (deq4_at c H_deq
        (if capacity (ring s) < sem4 s
         then s\<lparr>ring := (ring s)\<lparr>read_idx := (write_idx (ring s) + 1) mod capacity (ring s)\<rparr>, sem4 := capacity (ring s)\<rparr>
         else s))
   | H_deq \<Rightarrow> do { (q, x) \<leftarrow> FsqDeq (ring s); Some (deq4_at c H_unlock (s\<lparr>ring := q, taken4 := taken4 s @ [x]\<rparr>)) }
   | H_unlock \<Rightarrow> Some (deq4_at c H_done (s\<lparr>lock4 := None\<rparr>))
   | H_done \<Rightarrow> None)"

inductive ring4_step :: "ring4 \<Rightarrow> ring4 \<Rightarrow> bool" where
  enq: "ProducerFunc_ex4 p s = Some s' \<Longrightarrow> ring4_step s s'"
| deq: "ConsumerFunc_ex4 c s = Some s' \<Longrightarrow> ring4_step s s'"

text \<open>A producer announces its element before it takes the lock. A consumer that gets the lock first
  takes a cell that nobody has written: its datum is the 0 of \<open>memset\<close>.\<close>

lemma ring4_stale_read:
  "\<exists>s. ring4_step\<^sup>*\<^sup>* ring4_init s \<and> taken4 s = [0] \<and> next4 s = 1 \<and> (\<forall>p. enqs s p \<in> {G_raise, G_lock})"
proof -
  define s1 where "s1 = enq4_at 0 G_lock (ring4_init\<lparr>sem4 := 1\<rparr>)"
  define s2 where "s2 = deq4_at 0 H_lock (s1\<lparr>sem4 := 0\<rparr>)"
  define s3 where "s3 = deq4_at 0 H_check (s2\<lparr>lock4 := Some (Cons 0)\<rparr>)"
  define s4 where "s4 = deq4_at 0 H_deq s3"
  define s5 where "s5 = deq4_at 0 H_unlock (s4\<lparr>ring := (ring s4)\<lparr>read_idx := 1\<rparr>, taken4 := [0]\<rparr>)"
  note defs = s1_def s2_def s3_def s4_def s5_def ring4_init_def SemIdCreate_ex4_def FsqCreat_def FSQ_ELEMENTS_def
  have "ProducerFunc_ex4 0 ring4_init = Some s1" "ConsumerFunc_ex4 0 s1 = Some s2" "ConsumerFunc_ex4 0 s2 = Some s3"
    "ConsumerFunc_ex4 0 s3 = Some s4" "ConsumerFunc_ex4 0 s4 = Some s5"
    by (simp_all add: ProducerFunc_ex4_def ConsumerFunc_ex4_def FsqDeq_def deq_advance_def deq_load_def defs)
  then have "ring4_step ring4_init s1" "ring4_step s1 s2" "ring4_step s2 s3" "ring4_step s3 s4" "ring4_step s4 s5"
    by (blast intro: ring4_step.intros)+
  then have "ring4_step\<^sup>*\<^sup>* ring4_init s5" by (blast intro: converse_rtranclp_into_rtranclp)
  moreover have "taken4 s5 = [0] \<and> next4 s5 = 1 \<and> (\<forall>p. enqs s5 p \<in> {G_raise, G_lock})" by (simp add: defs)
  ultimately show ?thesis by blast
qed

end
