(* ===== verification/Numbers.thy ===== *)
theory Numbers
  imports Recursion Strings "HOL-Library.Signed_Division"
begin

text \<open>
  The conversions between \<open>int\<close> and text of \<open>c/ws9/ws9_itoa.c\<close>, in base 10 and in any base up to 36.
  An \<open>int\<close> has 32 bits and an overflow is a fault. The conversions to text write into the buffer of
  the caller and set a terminator only behind a negative number, so the results are about buffers that
  are filled with NUL, as those of the callers in the file are.
\<close>

section \<open>The functions\<close>

text \<open>Division of an \<open>int\<close> truncates; by 0 it is a fault. A negative base can only come from a
  conversion of a large \<open>size_t\<close>.\<close>

partial_function (option) digit_loop :: "int \<Rightarrow> int \<Rightarrow> nat \<Rightarrow> nat option" where
  "digit_loop num base cnt =
     (if num \<noteq> 0 then
        if base = 0 then None
        else digit_loop (num sdiv base) base (cnt + 1)
      else Some cnt)"

definition DigitCounter :: "int \<Rightarrow> int \<Rightarrow> nat option" where
  "DigitCounter num base = digit_loop num base 0"

definition char_of_int :: "int \<Rightarrow> char" where
  "char_of_int x = char_of (nat (x mod 256))"

partial_function (option) itoa_loop :: "int \<Rightarrow> string \<Rightarrow> nat \<Rightarrow> nat \<Rightarrow> string option" where
  "itoa_loop num buf off cnt =
     (if num \<noteq> 0 then do {
        c_assert (0 < off + cnt);
        buf \<leftarrow> aset buf (off + cnt - 1) (char_of_int (num smod 10 + 48));
        itoa_loop (num sdiv 10) buf off (cnt - 1)
      } else Some buf)"

text \<open>The sign: the number is negated, the count goes up and a terminator is set.\<close>

definition put_sign :: "int \<Rightarrow> string \<Rightarrow> nat \<Rightarrow> nat \<Rightarrow> (int \<times> string \<times> nat) option" where
  "put_sign num buf off cnt =
     (if num < 0 then do {
        num \<leftarrow> int32 (num * - 1);
        buf \<leftarrow> aset buf off (CHR ''-'');
        let cnt = cnt + 1;
        buf \<leftarrow> aset buf (off + cnt) NUL;
        Some (num, buf, cnt)
      } else Some (num, buf, cnt))"

text \<open>The buffer may be NULL, and then so is the result.\<close>

definition Itoa :: "int \<Rightarrow> string option \<Rightarrow> nat \<Rightarrow> string option option" where
  "Itoa num string_num off = do {
     cnt \<leftarrow> DigitCounter num 10;
     case string_num of
       None \<Rightarrow> Some None
     | Some buf \<Rightarrow> do {
         (num, buf, cnt) \<leftarrow> put_sign num buf off cnt;
         buf \<leftarrow> itoa_loop num buf off cnt;
         Some (Some buf)
       }
   }"

partial_function (option) itoa_base_loop :: "int \<Rightarrow> string \<Rightarrow> nat \<Rightarrow> nat \<Rightarrow> nat \<Rightarrow> string option" where
  "itoa_base_loop num buf off cnt base =
     (if num \<noteq> 0 then do {
        c_assert (0 < base \<and> 0 < off + cnt);
        let d = num mod int base;
        buf \<leftarrow> aset buf (off + cnt - 1) (char_of_int (if d < 10 then d + 48 else d + 55));
        itoa_base_loop (num div int base) buf off (cnt - 1) base
      } else Some buf)"

text \<open>The base is a \<open>size_t\<close>; after the assertion it is at most 36. In the loop the number is not
  negative, and the unsigned remainder and quotient are those of the integers.\<close>

definition ItoaAnyBase :: "int \<Rightarrow> string option \<Rightarrow> nat \<Rightarrow> nat \<Rightarrow> string option option" where
  "ItoaAnyBase num str off base = do {
     c_assert (base \<le> 36);
     cnt \<leftarrow> DigitCounter num (int base);
     case str of
       None \<Rightarrow> Some None
     | Some buf \<Rightarrow> do {
         (num, buf, cnt) \<leftarrow> put_sign num buf off cnt;
         buf \<leftarrow> itoa_base_loop num buf off cnt base;
         Some (Some buf)
       }
   }"

text \<open>\<open>isddigit\<close> is called but defined nowhere in the repository; it is a parameter.\<close>

partial_function (option) atoi_loop :: "(char \<Rightarrow> bool) \<Rightarrow> string \<Rightarrow> nat \<Rightarrow> int \<Rightarrow> int option" where
  "atoi_loop isddigit str p num = do {
     c \<leftarrow> aget str p;
     if isddigit c then do {
       num \<leftarrow> int32 (num * 10);
       num \<leftarrow> int32 (num + (c_char c - 48));
       atoi_loop isddigit str (p + 1) num
     } else Some num
   }"

definition Atoi :: "(char \<Rightarrow> bool) \<Rightarrow> string \<Rightarrow> nat \<Rightarrow> int option" where
  "Atoi isddigit str p = do {
     c \<leftarrow> aget str p;
     let (sign, p) = (if c = CHR ''-'' then (- 1, p + 1) else (1, p));
     num \<leftarrow> atoi_loop isddigit str p 0;
     int32 (num * sign)
   }"

definition isupper :: "char \<Rightarrow> bool" where
  "isupper c \<longleftrightarrow> 65 \<le> c_char c \<and> c_char c \<le> 90"

text \<open>Here the base is an \<open>unsigned int\<close>, so the sum is computed modulo \<open>2 ^ 32\<close> and then stored in an
  \<open>int\<close>.\<close>

partial_function (option) atoi_base_loop :: "string \<Rightarrow> nat \<Rightarrow> nat \<Rightarrow> int \<Rightarrow> int option" where
  "atoi_base_loop str p base num = do {
     c \<leftarrow> aget str p;
     if c \<noteq> NUL then do {
       let digit_to_add = c_char c - 48;
       let digit_to_add = (if isupper c then digit_to_add - 7 else digit_to_add);
       atoi_base_loop str (p + 1) base (to_int32 (num * int base + digit_to_add))
     } else Some num
   }"

definition AtoiAnyBase :: "string \<Rightarrow> nat \<Rightarrow> nat \<Rightarrow> int option" where
  "AtoiAnyBase str p base = do {
     c_assert (base \<le> 36 \<and> base \<noteq> 0 \<and> base \<noteq> 1);
     c \<leftarrow> aget str p;
     let (sign, p) = (if c = CHR ''-'' then (- 1, p + 1) else (1, p));
     num \<leftarrow> atoi_base_loop str p base 0;
     int32 (num * sign)
   }"

section \<open>Digits\<close>

definition digit_char :: "nat \<Rightarrow> char" where
  "digit_char d = char_of (if d < 10 then d + 48 else d + 55)"

definition digit_of :: "char \<Rightarrow> int" where
  "digit_of c = (if isupper c then c_char c - 48 - 7 else c_char c - 48)"

text \<open>The digits of a number; 0 has none.\<close>

fun digits :: "nat \<Rightarrow> nat \<Rightarrow> string" where
  "digits b n = (if n = 0 \<or> b < 2 then [] else digits b (n div b) @ [digit_char (n mod b)])"

declare digits.simps [simp del]

lemma digits_0 [simp]: "digits b 0 = []"
  by (subst digits.simps) simp

lemma digits_rec: "0 < n \<Longrightarrow> 2 \<le> b \<Longrightarrow> digits b n = digits b (n div b) @ [digit_char (n mod b)]"
  by (subst digits.simps) simp

lemma c_char_digit_char: "d < 36 \<Longrightarrow> c_char (digit_char d) = (if d < 10 then int d + 48 else int d + 55)"
  by (auto simp: c_char_def digit_char_def)

lemma digit_char_facts:
  assumes "d < 36"
  shows "digit_of (digit_char d) = int d" "digit_char d \<noteq> NUL" "digit_char d \<noteq> CHR ''-''"
    "char_of_int (if int d < 10 then int d + 48 else int d + 55) = digit_char d"
proof -
  have c: "c_char (digit_char d) = (if d < 10 then int d + 48 else int d + 55)" by (rule c_char_digit_char [OF assms])
  then show "digit_of (digit_char d) = int d" using assms by (auto simp: digit_of_def isupper_def)
  have "c_char (digit_char d) \<noteq> 0" "c_char (digit_char d) \<noteq> 45" using c by (auto split: if_splits)
  moreover have "c_char (CHR ''-'') = 45" by (simp add: c_char_def)
  ultimately show "digit_char d \<noteq> NUL" "digit_char d \<noteq> CHR ''-''" by auto
  show "char_of_int (if int d < 10 then int d + 48 else int d + 55) = digit_char d"
    using assms by (auto simp: char_of_int_def digit_char_def nat_add_distrib)
qed

lemma digit_char_decimal: "d < 10 \<Longrightarrow> c_char (digit_char d) = 48 + int d"
  using c_char_digit [of d] by (simp add: digit_char_def digit_def add.commute)

lemma set_digits:
  "2 \<le> b \<Longrightarrow> b \<le> 36 \<Longrightarrow> c \<in> set (digits b n) \<Longrightarrow> \<exists>d < b. c = digit_char d"
proof (induction n rule: less_induct)
  case (less n)
  then have n: "0 < n" by (cases n) auto
  then have "n div b < n" "n mod b < b" using less.prems by simp_all
  have "c \<in> set (digits b (n div b)) \<or> c = digit_char (n mod b)"
    using less.prems(3) digits_rec [OF n less.prems(1)] by auto
  then show ?case using less.IH [OF \<open>n div b < n\<close> less.prems(1,2)] \<open>n mod b < b\<close> by blast
qed

lemma digits_not_NUL: "2 \<le> b \<Longrightarrow> b \<le> 36 \<Longrightarrow> NUL \<notin> set (digits b n) \<and> CHR ''-'' \<notin> set (digits b n)"
  using set_digits digit_char_facts(2,3) by (metis less_le_trans)

section \<open>Writing a number\<close>

lemma digit_loop_spec: "2 \<le> b \<Longrightarrow> digit_loop n (int b) k = Some (k + length (digits b (nat \<bar>n\<bar>)))"
proof (induction "nat \<bar>n\<bar>" arbitrary: n k rule: less_induct)
  case less
  show ?case
  proof (cases "n = 0")
    case True
    then show ?thesis by (subst digit_loop.simps) simp
  next
    case False
    have "0 \<le> \<bar>n\<bar> div int b" using less.prems by (simp add: pos_imp_zdiv_nonneg_iff)
    then have a: "nat \<bar>n sdiv int b\<bar> = nat \<bar>n\<bar> div b"
      using less.prems False by (simp add: signed_divide_int_def abs_mult nat_div_distrib abs_sgn_eq)
    have "nat \<bar>n\<bar> div b < nat \<bar>n\<bar>" using False less.prems by simp
    then have "digit_loop (n sdiv int b) (int b) (k + 1) = Some (k + 1 + length (digits b (nat \<bar>n\<bar> div b)))"
      using less.hyps [of "n sdiv int b" "k + 1"] less.prems a by simp
    then show ?thesis
      using False less.prems digits_rec [of "nat \<bar>n\<bar>" b] by (subst digit_loop.simps) simp
  qed
qed

lemma DigitCounter_spec: "2 \<le> b \<Longrightarrow> DigitCounter n (int b) = Some (length (digits b (nat \<bar>n\<bar>)))"
  by (simp add: DigitCounter_def digit_loop_spec)

text \<open>Base 0 divides by zero.\<close>

lemma DigitCounter_base_0: "n \<noteq> 0 \<Longrightarrow> DigitCounter n 0 = None"
  by (simp add: DigitCounter_def digit_loop.simps)

lemma put_snoc:
  "d + length xs < length dest \<Longrightarrow> put (dest[d + length xs := c]) d xs = put dest d (xs @ [c])"
  by (simp add: put_def drop_update_cancel Cons_nth_drop_Suc upd_conv_take_nth_drop take_drop flip: drop_drop)

lemma itoa_base_loop_spec:
  assumes "2 \<le> b" "b \<le> 36" "off + k + length (digits b n) \<le> length buf"
  shows "itoa_base_loop (int n) buf off (k + length (digits b n)) b = Some (put buf (off + k) (digits b n))"
  using assms(3)
proof (induction n arbitrary: buf rule: less_induct)
  case (less n)
  show ?case
  proof (cases "n = 0")
    case True
    then show ?thesis by (subst itoa_base_loop.simps) (simp add: put_def)
  next
    case False
    let ?ds = "digits b (n div b)"
    have d: "digits b n = ?ds @ [digit_char (n mod b)]" using digits_rec False assms(1) by simp
    have "n mod b < b" using assms(1) by simp
    then have "n mod b < 36" using assms(2) by simp
    then have c: "char_of_int (if int (n mod b) < 10 then int (n mod b) + 48 else int (n mod b) + 55) = digit_char (n mod b)"
      by (rule digit_char_facts(4))
    have "itoa_base_loop (int (n div b)) (buf[off + k + length ?ds := digit_char (n mod b)]) off (k + length ?ds) b =
        Some (put (buf[off + k + length ?ds := digit_char (n mod b)]) (off + k) ?ds)"
      using less.IH [of "n div b"] less.prems False assms(1) d by simp
    then show ?thesis
      using False assms(1) less.prems d c put_snoc [of "off + k" ?ds buf]
      by (subst itoa_base_loop.simps) (simp add: Let_def add.assoc flip: zdiv_int zmod_int)
  qed
qed

lemma itoa_loop_base:
  "0 \<le> n \<Longrightarrow> itoa_loop n buf off cnt = itoa_base_loop n buf off cnt 10"
proof (induction "nat n" arbitrary: n buf cnt rule: less_induct)
  case less
  have s: "n sdiv 10 = n div 10" "n smod 10 = n mod 10"
    using less.prems by (simp_all add: signed_divide_int_def signed_modulo_int_def sgn_if)
  show ?case
  proof (cases "n = 0")
    case True
    then show ?thesis by (subst itoa_loop.simps, subst itoa_base_loop.simps) simp
  next
    case False
    have "itoa_loop (n div 10) b off k = itoa_base_loop (n div 10) b off k 10" for b k
      using less.hyps [of "n div 10"] less.prems False by simp
    then show ?thesis using s False
      by (subst itoa_loop.simps, subst itoa_base_loop.simps) (simp add: add.commute)
  qed
qed

text \<open>What a conversion leaves in the buffer.\<close>

definition number_text :: "nat \<Rightarrow> int \<Rightarrow> string" where
  "number_text b n = (if n < 0 then CHR ''-'' # digits b (nat \<bar>n\<bar>) else digits b (nat n))"

lemma put_sign_spec:
  assumes "- (2 ^ 31) < n" "off + length (number_text b n) < length buf"
  shows "put_sign n buf off (length (digits b (nat \<bar>n\<bar>))) =
    Some (\<bar>n\<bar>, if n < 0 then buf[off := CHR ''-'', off + length (number_text b n) := NUL] else buf, length (number_text b n))"
  using assms by (auto simp: put_sign_def number_text_def int32_def)

text \<open>Both conversions write the text, and behind a negative number the terminator.\<close>

lemma put_signed:
  assumes "off + length ds + 1 < length buf"
  shows "put (buf[off := c, off + Suc (length ds) := e]) (off + 1) ds = put buf off ((c # ds) @ [e])"
proof -
  have "take (off + 1) (buf[off := c, off + Suc (length ds) := e]) = take off buf @ [c]"
    using assms by (simp add: take_Suc_conv_app_nth)
  moreover have "drop (off + 1 + length ds) (buf[off := c, off + Suc (length ds) := e]) = e # drop (off + length ds + 2) buf"
    using assms by (subst Cons_nth_drop_Suc [symmetric]) simp_all
  ultimately show ?thesis by (simp add: put_def del: take_append drop_append)
qed

lemma itoa_text:
  assumes "2 \<le> b" "b \<le> 36" "- (2 ^ 31) < n" "off + length (number_text b n) < length buf"
  shows "(do { (m, buf, cnt) \<leftarrow> put_sign n buf off (length (digits b (nat \<bar>n\<bar>))); itoa_base_loop m buf off cnt b })
    = Some (put buf off (number_text b n @ (if n < 0 then [NUL] else [])))"
proof (cases "n < 0")
  case False
  then have "put_sign n buf off (length (digits b (nat \<bar>n\<bar>))) = Some (int (nat n), buf, 0 + length (digits b (nat n)))"
    using put_sign_spec [OF assms(3,4)] by (simp add: number_text_def)
  moreover have "itoa_base_loop (int (nat n)) buf off (0 + length (digits b (nat n))) b = Some (put buf (off + 0) (digits b (nat n)))"
    using assms(4) False by (intro itoa_base_loop_spec [OF assms(1,2)]) (simp add: number_text_def)
  ultimately show ?thesis using False by (simp add: number_text_def)
next
  case True
  let ?ds = "digits b (nat \<bar>n\<bar>)"
  let ?buf = "buf[off := CHR ''-'', off + Suc (length ?ds) := NUL]"
  have t: "number_text b n = CHR ''-'' # ?ds" using True by (simp add: number_text_def)
  have "put_sign n buf off (length ?ds) = Some (int (nat \<bar>n\<bar>), ?buf, 1 + length ?ds)"
    using put_sign_spec [OF assms(3,4)] True by (simp add: t)
  moreover have "itoa_base_loop (int (nat \<bar>n\<bar>)) ?buf off (1 + length ?ds) b = Some (put ?buf (off + 1) ?ds)"
    using assms(4) by (intro itoa_base_loop_spec [OF assms(1,2)]) (simp add: t)
  moreover have "put ?buf (off + 1) ?ds = put buf off ((CHR ''-'' # ?ds) @ [NUL])"
    using assms(4) t by (intro put_signed) simp
  ultimately show ?thesis using True by (simp add: t)
qed

lemma ItoaAnyBase_spec:
  assumes "2 \<le> b" "b \<le> 36" "- (2 ^ 31) < n" "off + length (number_text b n) < length buf"
  shows "ItoaAnyBase n (Some buf) off b = Some (Some (put buf off (number_text b n @ (if n < 0 then [NUL] else []))))"
  using itoa_text [OF assms] assms(1,2)
  by (auto simp: ItoaAnyBase_def DigitCounter_spec bind_eq_Some_conv split_def)

lemma Itoa_base: "Itoa n s off = ItoaAnyBase n s off 10"
proof -
  have "itoa_loop m b off k = itoa_base_loop m b off k 10" if "put_sign n buf off c = Some (m, b, k)" for m b k c buf
    using that by (intro itoa_loop_base) (auto simp: put_sign_def bind_eq_Some_conv int32_def split: if_splits)
  then have "do { (m, b, k) \<leftarrow> put_sign n buf off c; b \<leftarrow> itoa_loop m b off k; Some (Some b) } =
      do { (m, b, k) \<leftarrow> put_sign n buf off c; b \<leftarrow> itoa_base_loop m b off k 10; Some (Some b) }" for buf c
    by (cases "put_sign n buf off c") auto
  then show ?thesis by (cases s) (simp_all add: Itoa_def ItoaAnyBase_def)
qed

text \<open>The smallest \<open>int\<close> has no negation, and 0 is written as no character at all.\<close>

lemma Itoa_smallest: "Itoa (- (2 ^ 31)) (Some buf) off = None"
  using DigitCounter_spec [of 10 "- (2 ^ 31)"] by (simp add: Itoa_def put_sign_def int32_def)

lemma Itoa_zero: "off < length buf \<Longrightarrow> Itoa 0 (Some buf) off = Some (Some buf)"
  using ItoaAnyBase_spec [of 10 0 off buf] by (simp add: Itoa_base number_text_def put_def)

section \<open>Reading a number\<close>

fun value_from :: "nat \<Rightarrow> int \<Rightarrow> string \<Rightarrow> int" where
  "value_from b acc [] = acc"
| "value_from b acc (c # s) = value_from b (acc * int b + digit_of c) s"

lemma value_from_append: "value_from b acc (s @ t) = value_from b (value_from b acc s) t"
  by (induction s arbitrary: acc) simp_all

lemma value_digits: "2 \<le> b \<Longrightarrow> b \<le> 36 \<Longrightarrow> value_from b 0 (digits b n) = int n"
proof (induction n rule: less_induct)
  case (less n)
  show ?case
  proof (cases "n = 0")
    case False
    have "n mod b < b" using less.prems(1) by simp
    then have "digit_of (digit_char (n mod b)) = int (n mod b)" using less.prems(2) by (intro digit_char_facts(1)) simp
    moreover have "value_from b 0 (digits b (n div b)) = int (n div b)" using less False by simp
    moreover have "int (n div b) * int b + int (n mod b) = int n" by (metis div_mult_mod_eq of_nat_add of_nat_mult)
    ultimately show ?thesis using False less.prems(1) digits_rec [of n b] by (simp add: value_from_append)
  qed simp
qed

lemma value_from_mono:
  "0 \<le> acc \<Longrightarrow> 1 \<le> b \<Longrightarrow> \<forall>c \<in> set s. 0 \<le> digit_of c \<Longrightarrow> acc \<le> value_from b acc s"
proof (induction s arbitrary: acc)
  case (Cons c s)
  have "acc * 1 \<le> acc * int b" using Cons.prems by (intro mult_left_mono) auto
  then have "acc \<le> acc * int b + digit_of c" using Cons.prems by simp
  moreover have "acc * int b + digit_of c \<le> value_from b (acc * int b + digit_of c) s"
    using Cons by (intro Cons.IH) auto
  ultimately show ?case by simp
qed simp

lemma digits_facts:
  assumes "2 \<le> b" "b \<le> 36" "c \<in> set (digits b n)"
  shows "0 \<le> digit_of c" "c \<noteq> NUL" "b = 10 \<Longrightarrow> 48 \<le> c_char c \<and> c_char c \<le> 57"
proof -
  obtain d where d: "d < b" "c = digit_char d" using set_digits [OF assms] by blast
  then have "d < 36" using assms(2) by simp
  then show "0 \<le> digit_of c" "c \<noteq> NUL" using digit_char_facts d(2) by simp_all
  show "48 \<le> c_char c \<and> c_char c \<le> 57" if "b = 10" using that d digit_char_decimal [of d] by simp
qed

lemma digit_of_decimal: "48 \<le> c_char c \<Longrightarrow> c_char c \<le> 57 \<Longrightarrow> digit_of c = c_char c - 48"
  by (simp add: digit_of_def isupper_def)

text \<open>No intermediate value is larger than the final one, so a value below \<open>2 ^ 31\<close> is read without an
  overflow.\<close>

lemma atoi_base_loop_spec:
  assumes "2 \<le> b" "drop p str = s @ NUL # rest" "\<forall>c \<in> set s. 0 \<le> digit_of c \<and> c \<noteq> NUL"
    "0 \<le> acc" "value_from b acc s < 2 ^ 31"
  shows "atoi_base_loop str p b acc = Some (value_from b acc s)"
  using assms(2-)
proof (induction s arbitrary: p acc)
  case Nil
  then have "p < length str" "str ! p = NUL" by (cases "p < length str"; force simp: Cons_nth_drop_Suc [symmetric])+
  then show ?case by (subst atoi_base_loop.simps) (simp add: aget_def)
next
  case (Cons c s)
  from Cons.prems(1) have p: "p < length str" by (cases "p < length str") auto
  then have c: "str ! p = c" "drop (p + 1) str = s @ NUL # rest"
    using Cons.prems(1) by (simp_all add: Cons_nth_drop_Suc [symmetric])
  let ?a = "acc * int b + digit_of c"
  have a: "0 \<le> ?a" using Cons.prems by simp
  moreover have "?a \<le> value_from b ?a s" using Cons.prems a assms(1) by (intro value_from_mono) auto
  ultimately have "to_int32 ?a = ?a" using Cons.prems(4) by (intro to_int32_ok) auto
  moreover have "atoi_base_loop str (p + 1) b ?a = Some (value_from b ?a s)"
    using Cons.prems a c by (intro Cons.IH) auto
  ultimately show ?case using p c Cons.prems(2)
    by (subst atoi_base_loop.simps) (simp add: aget_def Let_def digit_of_def split: if_splits)
qed

lemma atoi_loop_spec:
  assumes "\<forall>c. isddigit c \<longleftrightarrow> 48 \<le> c_char c \<and> c_char c \<le> 57"
    "drop p str = s @ NUL # rest" "\<forall>c \<in> set s. 48 \<le> c_char c \<and> c_char c \<le> 57"
    "0 \<le> acc" "value_from 10 acc s < 2 ^ 31"
  shows "atoi_loop isddigit str p acc = Some (value_from 10 acc s)"
  using assms(2-)
proof (induction s arbitrary: p acc)
  case Nil
  then have "p < length str" "str ! p = NUL" by (cases "p < length str"; force simp: Cons_nth_drop_Suc [symmetric])+
  moreover have "\<not> isddigit NUL" using assms(1) by simp
  ultimately show ?case by (subst atoi_loop.simps) (simp add: aget_def)
next
  case (Cons c s)
  from Cons.prems(1) have p: "p < length str" by (cases "p < length str") auto
  then have c: "str ! p = c" "drop (p + 1) str = s @ NUL # rest"
    using Cons.prems(1) by (simp_all add: Cons_nth_drop_Suc [symmetric])
  have d: "digit_of c = c_char c - 48" "isddigit c" "0 \<le> digit_of c"
    using Cons.prems(2) digit_of_decimal [of c] assms(1) by auto
  let ?a = "acc * 10 + digit_of c"
  have a: "0 \<le> ?a" using Cons.prems(3) d(3) by simp
  have "?a \<le> value_from 10 ?a s" using Cons.prems(2) a digit_of_decimal by (intro value_from_mono) auto
  then have "int32 ?a = Some ?a" "int32 (acc * 10) = Some (acc * 10)"
    using Cons.prems(3,4) d(3) by (auto intro!: int32_in)
  moreover have "atoi_loop isddigit str (p + 1) ?a = Some (value_from 10 ?a s)"
    using Cons.prems a c by (intro Cons.IH) auto
  ultimately show ?case using p c d
    by (subst atoi_loop.simps) (simp add: aget_def)
qed

section \<open>The round trip\<close>

text \<open>In a buffer of zeros the text is followed by a NUL.\<close>

lemma put_in_zeros:
  assumes "\<forall>x \<in> set (drop off buf). x = NUL" "off + length s + 1 < length buf" "e = [] \<or> e = [NUL]"
  shows "\<exists>rest. drop off (put buf off (s @ e)) = s @ NUL # rest"
proof (cases "e = []")
  case True
  have "off + length s < length buf" using assms(2) by simp
  then have d: "drop (off + length s) buf = buf ! (off + length s) # drop (Suc (off + length s)) buf"
    by (rule Cons_nth_drop_Suc [symmetric])
  have "buf ! (off + length s) \<in> set (drop off buf)"
    using assms(2) by (auto simp: in_set_conv_nth intro: exI [of _ "length s"])
  then have "buf ! (off + length s) = NUL" using assms(1) by blast
  then show ?thesis using d True assms(2) by (simp add: put_def)
next
  case False
  then show ?thesis using assms(2,3) by (simp add: put_def)
qed

lemma number_digits:
  assumes "2 \<le> b" "b \<le> 36" "- (2 ^ 31) < n" "n < 2 ^ 31"
    "drop off str = number_text b n @ NUL # rest"
  shows "\<exists>c. aget str off = Some c \<and> (c = CHR ''-'' \<longleftrightarrow> n < 0) \<and>
    drop (if n < 0 then off + 1 else off) str = digits b (nat \<bar>n\<bar>) @ NUL # rest"
    "value_from b 0 (digits b (nat \<bar>n\<bar>)) = \<bar>n\<bar>" "\<bar>n\<bar> < 2 ^ 31"
proof -
  have o: "off < length str" using assms(5) by (cases "off < length str") auto
  then have e: "str ! off # drop (Suc off) str = number_text b n @ NUL # rest"
    using assms(5) by (simp add: Cons_nth_drop_Suc)
  have "c_char NUL \<noteq> c_char (CHR ''-'')" by (simp add: c_char_def NUL_def)
  then have "NUL \<noteq> CHR ''-''" by metis
  moreover have "CHR ''-'' \<notin> set (digits b (nat n))" using digits_not_NUL assms(1,2) by blast
  ultimately have "str ! off = CHR ''-'' \<longleftrightarrow> n < 0"
    using e by (cases "digits b (nat n)") (auto simp: number_text_def split: if_splits)
  moreover have "drop (if n < 0 then off + 1 else off) str = digits b (nat \<bar>n\<bar>) @ NUL # rest"
    using e assms(5) by (auto simp: number_text_def split: if_splits)
  ultimately show "\<exists>c. aget str off = Some c \<and> (c = CHR ''-'' \<longleftrightarrow> n < 0) \<and>
    drop (if n < 0 then off + 1 else off) str = digits b (nat \<bar>n\<bar>) @ NUL # rest"
    using o by (simp add: aget_def)
  show "value_from b 0 (digits b (nat \<bar>n\<bar>)) = \<bar>n\<bar>" using value_digits [OF assms(1,2), of "nat \<bar>n\<bar>"] by simp
  show "\<bar>n\<bar> < 2 ^ 31" using assms(3,4) by simp
qed

lemma int32_signed: "\<bar>n\<bar> < 2 ^ 31 \<Longrightarrow> int32 (\<bar>n\<bar> * (if n < 0 then - 1 else 1)) = Some n"
  by (auto simp: int32_def)

lemma AtoiAnyBase_spec:
  assumes "2 \<le> b" "b \<le> 36" "- (2 ^ 31) < n" "n < 2 ^ 31"
    "drop off str = number_text b n @ NUL # rest"
  shows "AtoiAnyBase str off b = Some n"
proof -
  note d = number_digits [OF assms]
  obtain c where c: "aget str off = Some c" "c = CHR ''-'' \<longleftrightarrow> n < 0"
    "drop (if n < 0 then off + 1 else off) str = digits b (nat \<bar>n\<bar>) @ NUL # rest" using d(1) by blast
  have "atoi_base_loop str (if n < 0 then off + 1 else off) b 0 = Some (value_from b 0 (digits b (nat \<bar>n\<bar>)))"
    using digits_facts(1,2) [OF assms(1,2)] d(2,3) by (intro atoi_base_loop_spec [OF assms(1) c(3)]) auto
  then show ?thesis using c(1,2) assms(1,2) int32_signed [OF d(3)] unfolding d(2)
    by (cases "n < 0") (simp_all add: AtoiAnyBase_def)
qed

lemma Atoi_spec:
  assumes "- (2 ^ 31) < n" "n < 2 ^ 31" "drop off str = number_text 10 n @ NUL # rest"
    "\<forall>c. isddigit c \<longleftrightarrow> 48 \<le> c_char c \<and> c_char c \<le> 57"
  shows "Atoi isddigit str off = Some n"
proof -
  have b: "2 \<le> (10 :: nat)" "(10 :: nat) \<le> 36" by simp_all
  note d = number_digits [OF b assms(1-3)]
  obtain c where c: "aget str off = Some c" "c = CHR ''-'' \<longleftrightarrow> n < 0"
    "drop (if n < 0 then off + 1 else off) str = digits 10 (nat \<bar>n\<bar>) @ NUL # rest" using d(1) by blast
  have "atoi_loop isddigit str (if n < 0 then off + 1 else off) 0 = Some (value_from 10 0 (digits 10 (nat \<bar>n\<bar>)))"
    using digits_facts(3) [OF b] d(2,3) by (intro atoi_loop_spec [OF assms(4) c(3)]) auto
  then show ?thesis using c(1,2) int32_signed [OF d(3)] unfolding d(2)
    by (cases "n < 0") (simp_all add: Atoi_def)
qed

text \<open>C33. Reading back a number that was written into a buffer of zeros gives the number, in base 10 with
  \<open>Itoa\<close> and \<open>Atoi\<close> and in every base from 2 to 36 with \<open>ItoaAnyBase\<close> and \<open>AtoiAnyBase\<close>, for every \<open>int\<close>
  but the smallest, if \<open>isddigit\<close> is the test for a decimal digit.\<close>

theorem Atoi_Itoa:
  assumes "2 \<le> b" "b \<le> 36" "- (2 ^ 31) < n" "n < 2 ^ 31"
    "\<forall>c. isddigit c \<longleftrightarrow> 48 \<le> c_char c \<and> c_char c \<le> 57"
    "\<forall>x \<in> set (drop off buf). x = NUL"
    "off + length (number_text b n) + 1 < length buf" "off + length (number_text 10 n) + 1 < length buf"
  shows "(do { str \<leftarrow> Itoa n (Some buf) off; s \<leftarrow> str; Atoi isddigit s off }) = Some n \<and>
    (do { str \<leftarrow> ItoaAnyBase n (Some buf) off b; s \<leftarrow> str; AtoiAnyBase s off b }) = Some n"
proof
  let ?e = "if n < 0 then [NUL] else []"
  have e: "?e = [] \<or> ?e = [NUL]" by simp
  obtain r where "drop off (put buf off (number_text 10 n @ ?e)) = number_text 10 n @ NUL # r"
    using put_in_zeros [OF assms(6,8) e] by blast
  from Atoi_spec [OF assms(3,4) this assms(5)]
  show "(do { str \<leftarrow> Itoa n (Some buf) off; s \<leftarrow> str; Atoi isddigit s off }) = Some n"
    using ItoaAnyBase_spec [of 10 n off buf] assms(3,8) by (simp add: Itoa_base)
  obtain r where "drop off (put buf off (number_text b n @ ?e)) = number_text b n @ NUL # r"
    using put_in_zeros [OF assms(6,7) e] by blast
  from AtoiAnyBase_spec [OF assms(1-4) this]
  show "(do { str \<leftarrow> ItoaAnyBase n (Some buf) off b; s \<leftarrow> str; AtoiAnyBase s off b }) = Some n"
    using ItoaAnyBase_spec [OF assms(1-3), of off buf] assms(7) by simp
qed

theorem Atoi_Itoa_witness:
  "(do { str \<leftarrow> Itoa (- 25) (Some (replicate 12 NUL)) 0; s \<leftarrow> str;
        Atoi (\<lambda>c. 48 \<le> c_char c \<and> c_char c \<le> 57) s 0 }) = Some (- 25)"
  by (rule conjunct1 [OF Atoi_Itoa [where b = 10]]) (simp_all add: number_text_def digits_rec)

end
