(* ===== verification/Bst.thy ===== *)
theory Bst
  imports Prelude "HOL-Library.Tree"
begin

text \<open>
  The binary search tree of \<open>ds/bst/bst.c\<close> over a store of nodes with links to parent and sons. The
  root is the left son of a dummy node, which is also the end iterator; the data of the dummy points
  to the first node.
\<close>

section \<open>The store\<close>

datatype raltives = PARENT | LEFT | RIGHT

text \<open>The data of a node is whatever the caller passed; that of the dummy is NULL or an iterator.\<close>

datatype 'd tdata = NoData | IterTo addr | Data 'd

record 'd tree_node =
  tdata_of :: "'d tdata"
  relatives :: "raltives \<Rightarrow> addr option"

record ('d, 'p) binary_search_tree =
  compare :: "'d tdata \<Rightarrow> 'd tdata \<Rightarrow> 'p option \<Rightarrow> int"
  params :: "'p option"
  dummy_root :: addr

type_synonym 'd tstore = "addr \<Rightarrow> 'd tree_node option"

definition node_at :: "'d tstore \<Rightarrow> addr option \<Rightarrow> 'd tree_node option" where
  "node_at s p = (case p of None \<Rightarrow> None | Some a \<Rightarrow> s a)"

definition rel :: "'d tstore \<Rightarrow> addr option \<Rightarrow> raltives \<Rightarrow> addr option option" where
  "rel s p k = do { n \<leftarrow> node_at s p; Some (relatives n k) }"

definition set_rel :: "'d tstore \<Rightarrow> addr option \<Rightarrow> raltives \<Rightarrow> addr option \<Rightarrow> 'd tstore option" where
  "set_rel s p k v = do { n \<leftarrow> node_at s p; Some (s(the p \<mapsto> n\<lparr>relatives := (relatives n)(k := v)\<rparr>)) }"

definition set_tdata :: "'d tstore \<Rightarrow> addr option \<Rightarrow> 'd tdata \<Rightarrow> 'd tstore option" where
  "set_tdata s p v = do { n \<leftarrow> node_at s p; Some (s(the p \<mapsto> n\<lparr>tdata_of := v\<rparr>)) }"

text \<open>The cast of a data pointer to an iterator.\<close>

definition as_iter :: "'d tdata \<Rightarrow> addr option option" where
  "as_iter v = (case v of NoData \<Rightarrow> Some None | IterTo a \<Rightarrow> Some (Some a) | Data _ \<Rightarrow> None)"

definition iter_data :: "addr option \<Rightarrow> 'd tdata" where
  "iter_data p = (case p of None \<Rightarrow> NoData | Some a \<Rightarrow> IterTo a)"

section \<open>The operations\<close>

definition BSTCreate ::
  "'d tstore \<Rightarrow> addr option \<Rightarrow> ('d tdata \<Rightarrow> 'd tdata \<Rightarrow> 'p option \<Rightarrow> int) \<Rightarrow> 'p option
    \<Rightarrow> ('d, 'p) binary_search_tree option \<times> 'd tstore" where
  "BSTCreate s mem cmp pars =
     (case mem of
        None \<Rightarrow> (None, s)
      | Some a \<Rightarrow> (Some \<lparr>compare = cmp, params = pars, dummy_root = a\<rparr>,
                   s(a \<mapsto> \<lparr>tdata_of = NoData, relatives = (\<lambda>_. None)\<rparr>)))"

definition BSTGetData :: "'d tstore \<Rightarrow> addr option \<Rightarrow> 'd tdata option" where
  "BSTGetData s iter = do { c_assert (iter \<noteq> None); n \<leftarrow> node_at s iter; Some (tdata_of n) }"

definition BSTIsSameIter :: "addr option \<Rightarrow> addr option \<Rightarrow> bool" where
  "BSTIsSameIter iter1 iter2 = (iter1 = iter2)"

definition BSTBegin :: "'d tstore \<Rightarrow> ('d, 'p) binary_search_tree \<Rightarrow> addr option option" where
  "BSTBegin s tree = do { n \<leftarrow> s (dummy_root tree); as_iter (tdata_of n) }"

definition BSTEnd :: "('d, 'p) binary_search_tree \<Rightarrow> addr option" where
  "BSTEnd tree = Some (dummy_root tree)"


partial_function (option) next_up :: "'d tstore \<Rightarrow> addr option \<Rightarrow> addr option option" where
  "next_up s runner = do {
     p \<leftarrow> rel s runner PARENT;
     r \<leftarrow> rel s p RIGHT;
     if runner = r then next_up s p else Some p
   }"

partial_function (option) next_left :: "'d tstore \<Rightarrow> addr option \<Rightarrow> addr option option" where
  "next_left s runner = do {
     l \<leftarrow> rel s runner LEFT;
     if l \<noteq> None then next_left s l else Some runner
   }"

definition BSTIterNext :: "'d tstore \<Rightarrow> addr option \<Rightarrow> addr option option" where
  "BSTIterNext s iter = do {
     c_assert (iter \<noteq> None);
     r \<leftarrow> rel s iter RIGHT;
     if r = None then next_up s iter else next_left s r
   }"

text \<open>The loop of the code reads the left son of the parent before it tests that there is a parent, so
  the test for NULL after the loop is never reached with NULL.\<close>

partial_function (option) prev_up :: "'d tstore \<Rightarrow> addr option \<Rightarrow> addr option option" where
  "prev_up s runner = do {
     p \<leftarrow> rel s runner PARENT;
     l \<leftarrow> rel s p LEFT;
     if runner = l \<and> p \<noteq> None then prev_up s p else Some runner
   }"

partial_function (option) prev_right :: "'d tstore \<Rightarrow> addr option \<Rightarrow> addr option option" where
  "prev_right s runner = do {
     r \<leftarrow> rel s runner RIGHT;
     if r \<noteq> None then prev_right s r else Some runner
   }"

definition BSTIterPrev :: "'d tstore \<Rightarrow> addr option \<Rightarrow> addr option option" where
  "BSTIterPrev s iter = do {
     c_assert (iter \<noteq> None);
     l \<leftarrow> rel s iter LEFT;
     if l = None then do {
       runner \<leftarrow> prev_up s iter;
       if runner = None then Some iter else rel s runner PARENT
     } else prev_right s l
   }"

partial_function (option) size_loop ::
  "'d tstore \<Rightarrow> ('d, 'p) binary_search_tree \<Rightarrow> addr option \<Rightarrow> nat \<Rightarrow> nat option" where
  "size_loop s tree runner cnt =
     (if BSTEnd tree \<noteq> runner then do {
        runner \<leftarrow> BSTIterNext s runner;
        size_loop s tree runner (Suc cnt)
      } else Some cnt)"

definition BSTSize :: "'d tstore \<Rightarrow> ('d, 'p) binary_search_tree \<Rightarrow> nat option" where
  "BSTSize s tree = do { runner \<leftarrow> BSTBegin s tree; size_loop s tree runner 0 }"



text \<open>The operation returns a status and changes what its parameter points to.\<close>

partial_function (option) for_each_loop ::
  "'d tstore \<Rightarrow> addr option \<Rightarrow> addr option \<Rightarrow> ('d tdata \<Rightarrow> 'q \<Rightarrow> int \<times> 'q) \<Rightarrow> int \<Rightarrow> 'q \<Rightarrow> (int \<times> 'q) option" where
  "for_each_loop s runner to operation status param =
     (if runner \<noteq> to \<and> status = 0 then do {
        d \<leftarrow> BSTGetData s runner;
        let (status, param) = operation d param;
        runner \<leftarrow> BSTIterNext s runner;
        for_each_loop s runner to operation status param
      } else Some (status, param))"

definition BSTForEach ::
  "'d tstore \<Rightarrow> addr option \<Rightarrow> addr option \<Rightarrow> ('d tdata \<Rightarrow> 'q \<Rightarrow> int \<times> 'q) \<Rightarrow> 'q \<Rightarrow> (int \<times> 'q) option" where
  "BSTForEach s from to operation param = do {
     c_assert (from \<noteq> None);
     c_assert (to \<noteq> None);
     for_each_loop s from to operation 0 param
   }"

definition NodeCreat :: "'d tstore \<Rightarrow> addr option \<Rightarrow> 'd tdata \<Rightarrow> 'd tstore" where
  "NodeCreat s mem data =
     (case mem of None \<Rightarrow> s | Some a \<Rightarrow> s(a \<mapsto> \<lparr>tdata_of = data, relatives = (\<lambda>_. None)\<rparr>))"

text \<open>The direction is 0, that is \<open>PARENT\<close>, as long as the loop has made no step.\<close>

partial_function (option) find_where ::
  "'d tstore \<Rightarrow> ('d, 'p) binary_search_tree \<Rightarrow> 'd tdata \<Rightarrow> addr option \<Rightarrow> addr option \<Rightarrow> raltives
    \<Rightarrow> (addr option \<times> raltives) option" where
  "find_where s tree data runner before_runner direction =
     (if runner \<noteq> None then do {
        n \<leftarrow> node_at s runner;
        if compare tree (tdata_of n) data (params tree) > 0
        then find_where s tree data (relatives n LEFT) runner LEFT
        else find_where s tree data (relatives n RIGHT) runner RIGHT
      } else Some (before_runner, direction))"

definition FindWhereToInsert ::
  "'d tstore \<Rightarrow> ('d, 'p) binary_search_tree \<Rightarrow> 'd tdata \<Rightarrow> raltives \<Rightarrow> (addr option \<times> raltives) option" where
  "FindWhereToInsert s tree data direction = do {
     runner \<leftarrow> rel s (Some (dummy_root tree)) LEFT;
     find_where s tree data runner None direction
   }"

definition InsertByDirection ::
  "'d tstore \<Rightarrow> ('d, 'p) binary_search_tree \<Rightarrow> raltives \<Rightarrow> addr option \<Rightarrow> addr option
    \<Rightarrow> (addr option \<times> 'd tstore) option" where
  "InsertByDirection s tree direction new_tree_node wh = (case direction of
     PARENT \<Rightarrow> do {
       s \<leftarrow> set_rel s (Some (dummy_root tree)) LEFT new_tree_node;
       s \<leftarrow> set_rel s new_tree_node PARENT (Some (dummy_root tree));
       s \<leftarrow> set_tdata s (Some (dummy_root tree)) (iter_data new_tree_node);
       Some (new_tree_node, s)
     }
   | LEFT \<Rightarrow> do {
       s \<leftarrow> set_rel s wh LEFT new_tree_node;
       s \<leftarrow> set_rel s new_tree_node PARENT wh;
       Some (new_tree_node, s)
     }
   | RIGHT \<Rightarrow> do {
       s \<leftarrow> set_rel s wh RIGHT new_tree_node;
       s \<leftarrow> set_rel s new_tree_node PARENT wh;
       Some (new_tree_node, s)
     })"

definition UpdateBeginByData ::
  "'d tstore \<Rightarrow> ('d, 'p) binary_search_tree \<Rightarrow> 'd tdata \<Rightarrow> addr option \<Rightarrow> 'd tstore option" where
  "UpdateBeginByData s tree data where_to_insert = do {
     d \<leftarrow> s (dummy_root tree);
     node_to_check \<leftarrow> as_iter (tdata_of d);
     n \<leftarrow> node_at s node_to_check;
     if 0 < compare tree (tdata_of n) data (params tree)
     then set_tdata s (Some (dummy_root tree)) (iter_data where_to_insert)
     else Some s
   }"

definition BSTInsert ::
  "'d tstore \<Rightarrow> addr option \<Rightarrow> ('d, 'p) binary_search_tree \<Rightarrow> 'd tdata \<Rightarrow> (addr option \<times> 'd tstore) option" where
  "BSTInsert s mem tree data =
     (case mem of
        None \<Rightarrow> Some (BSTEnd tree, s)
      | Some new_tree_node \<Rightarrow> do {
          let s = NodeCreat s mem data;
          (where_to_insert, direction) \<leftarrow> FindWhereToInsert s tree data PARENT;
          (where_to_insert, s) \<leftarrow> InsertByDirection s tree direction mem where_to_insert;
          s \<leftarrow> UpdateBeginByData s tree data where_to_insert;
          Some (mem, s)
        })"

definition GetNumOfSons :: "'d tstore \<Rightarrow> addr option \<Rightarrow> nat option" where
  "GetNumOfSons s iter = do {
     l \<leftarrow> rel s iter LEFT;
     r \<leftarrow> rel s iter RIGHT;
     Some ((if l \<noteq> None then 1 else 0) + (if r \<noteq> None then 2 else 0))
   }"

definition free_node :: "'d tstore \<Rightarrow> addr option \<Rightarrow> 'd tstore" where
  "free_node s p = (case p of None \<Rightarrow> s | Some a \<Rightarrow> s(a := None))"

definition RemoveWithNoSons :: "'d tstore \<Rightarrow> addr option \<Rightarrow> 'd tstore option" where
  "RemoveWithNoSons s iter = do {
     p \<leftarrow> rel s iter PARENT;
     pl \<leftarrow> rel s p LEFT;
     s \<leftarrow> (if iter = pl then set_rel s p LEFT None else set_rel s p RIGHT None);
     Some (free_node s iter)
   }"

definition RemoveWithLeftSon :: "'d tstore \<Rightarrow> addr option \<Rightarrow> 'd tstore option" where
  "RemoveWithLeftSon s iter = do {
     l \<leftarrow> rel s iter LEFT;
     p \<leftarrow> rel s iter PARENT;
     s \<leftarrow> set_rel s l PARENT p;
     pl \<leftarrow> rel s p LEFT;
     s \<leftarrow> (if iter = pl then set_rel s p LEFT l else set_rel s p RIGHT l);
     Some (free_node s iter)
   }"

definition RemoveWithRightSon :: "'d tstore \<Rightarrow> addr option \<Rightarrow> 'd tstore option" where
  "RemoveWithRightSon s iter = do {
     r \<leftarrow> rel s iter RIGHT;
     p \<leftarrow> rel s iter PARENT;
     s \<leftarrow> set_rel s r PARENT p;
     pr \<leftarrow> rel s p RIGHT;
     s \<leftarrow> (if iter = pr then set_rel s p RIGHT r else set_rel s p LEFT r);
     Some (free_node s iter)
   }"

definition RemoveWithTwoSons :: "'d tstore \<Rightarrow> addr option \<Rightarrow> 'd tstore option" where
  "RemoveWithTwoSons s iter = do {
     next_iter \<leftarrow> BSTIterNext s iter;
     l \<leftarrow> rel s iter LEFT;
     s \<leftarrow> set_rel s next_iter LEFT l;
     l \<leftarrow> rel s iter LEFT;
     s \<leftarrow> set_rel s l PARENT next_iter;
     s \<leftarrow> set_rel s iter LEFT None;
     r \<leftarrow> rel s iter RIGHT;
     p \<leftarrow> rel s iter PARENT;
     s \<leftarrow> set_rel s r PARENT p;
     pr \<leftarrow> rel s p RIGHT;
     s \<leftarrow> (if iter = pr then set_rel s p RIGHT r else set_rel s p LEFT r);
     Some (free_node s iter)
   }"

definition BSTRemove :: "'d tstore \<Rightarrow> addr option \<Rightarrow> ('d tdata \<times> 'd tstore) option" where
  "BSTRemove s iter = do {
     sons_num \<leftarrow> GetNumOfSons s iter;
     p \<leftarrow> rel s iter PARENT;
     c_assert (p \<noteq> None);
     data_to_return \<leftarrow> BSTGetData s iter;
     s \<leftarrow> (if sons_num = 0 then RemoveWithNoSons s iter
           else if sons_num = 1 then RemoveWithLeftSon s iter
           else if sons_num = 2 then RemoveWithRightSon s iter
           else RemoveWithTwoSons s iter);
     Some (data_to_return, s)
   }"



section \<open>Trees in the store\<close>

text \<open>The abstraction is a tree of addresses and data.\<close>

type_synonym 'd atree = "(addr \<times> 'd tdata) tree"

definition rels :: "addr option \<Rightarrow> addr option \<Rightarrow> addr option \<Rightarrow> raltives \<Rightarrow> addr option" where
  "rels p l r k = (case k of PARENT \<Rightarrow> p | LEFT \<Rightarrow> l | RIGHT \<Rightarrow> r)"

lemma rels_simps [simp]: "rels p l r PARENT = p" "rels p l r LEFT = l" "rels p l r RIGHT = r"
  by (simp_all add: rels_def)

lemma rels_upd [simp]:
  "(rels p l r)(PARENT := v) = rels v l r" "(rels p l r)(LEFT := v) = rels p v r" "(rels p l r)(RIGHT := v) = rels p l v"
  by (auto simp: rels_def fun_eq_iff split: raltives.splits)

lemma no_rels: "(\<lambda>_. None) = rels None None None"
  by (auto simp: rels_def fun_eq_iff split: raltives.splits)

fun root_of :: "'d atree \<Rightarrow> addr option" where
  "root_of \<langle>\<rangle> = None"
| "root_of \<langle>l, e, r\<rangle> = Some (fst e)"

fun tree_in :: "'d tstore \<Rightarrow> addr \<Rightarrow> 'd atree \<Rightarrow> bool" where
  "tree_in s p \<langle>\<rangle> = True"
| "tree_in s p \<langle>l, e, r\<rangle> \<longleftrightarrow>
     s (fst e) = Some \<lparr>tdata_of = snd e, relatives = rels (Some p) (root_of l) (root_of r)\<rparr> \<and>
     tree_in s (fst e) l \<and> tree_in s (fst e) r"

abbreviation addrs :: "(addr \<times> 'd tdata) list \<Rightarrow> addr set" where
  "addrs xs \<equiv> fst ` set xs"

lemma tree_in_cong: "(\<And>a. a \<in> addrs (inorder t) \<Longrightarrow> s' a = s a) \<Longrightarrow> tree_in s' p t = tree_in s p t"
  by (induction t arbitrary: p) (auto simp: image_Un)

lemma tree_in_upd [simp]: "a \<notin> addrs (inorder t) \<Longrightarrow> tree_in (s(a := x)) p t = tree_in s p t"
  by (rule tree_in_cong) auto

text \<open>What is around a subtree.\<close>

datatype 'e ctx = Top | InLeft 'e "'e tree" "'e ctx" | InRight "'e tree" 'e "'e ctx"

fun plug :: "'e ctx \<Rightarrow> 'e tree \<Rightarrow> 'e tree" where
  "plug Top t = t"
| "plug (InLeft e r c) t = plug c \<langle>t, e, r\<rangle>"
| "plug (InRight l e c) t = plug c \<langle>l, e, t\<rangle>"

fun before :: "'e ctx \<Rightarrow> 'e list" where
  "before Top = []"
| "before (InLeft e r c) = before c"
| "before (InRight l e c) = before c @ inorder l @ [e]"

fun after :: "'e ctx \<Rightarrow> 'e list" where
  "after Top = []"
| "after (InLeft e r c) = e # inorder r @ after c"
| "after (InRight l e c) = after c"

lemma inorder_plug [simp]: "inorder (plug c t) = before c @ inorder t @ after c"
  by (induction c arbitrary: t) simp_all

fun par :: "addr \<Rightarrow> (addr \<times> 'd tdata) ctx \<Rightarrow> addr" where
  "par d Top = d"
| "par d (InLeft e r c) = fst e"
| "par d (InRight l e c) = fst e"

fun side :: "'e ctx \<Rightarrow> raltives" where
  "side Top = LEFT"
| "side (InLeft e r c) = LEFT"
| "side (InRight l e c) = RIGHT"

text \<open>A context in the store; \<open>b\<close> is the data of the dummy, \<open>p\<close> the root of the subtree.\<close>

fun ctx_in :: "'d tstore \<Rightarrow> addr \<Rightarrow> 'd tdata \<Rightarrow> (addr \<times> 'd tdata) ctx \<Rightarrow> addr option \<Rightarrow> bool" where
  "ctx_in s d b Top p \<longleftrightarrow> s d = Some \<lparr>tdata_of = b, relatives = rels None p None\<rparr>"
| "ctx_in s d b (InLeft e r c) p \<longleftrightarrow>
     s (fst e) = Some \<lparr>tdata_of = snd e, relatives = rels (Some (par d c)) p (root_of r)\<rparr> \<and>
     tree_in s (fst e) r \<and> ctx_in s d b c (Some (fst e))"
| "ctx_in s d b (InRight l e c) p \<longleftrightarrow>
     s (fst e) = Some \<lparr>tdata_of = snd e, relatives = rels (Some (par d c)) (root_of l) p\<rparr> \<and>
     tree_in s (fst e) l \<and> ctx_in s d b c (Some (fst e))"

definition tree_at :: "'d tstore \<Rightarrow> addr \<Rightarrow> 'd tdata \<Rightarrow> 'd atree \<Rightarrow> bool" where
  "tree_at s d b t \<longleftrightarrow> ctx_in s d b Top (root_of t) \<and> tree_in s d t \<and> distinct (d # map fst (inorder t))"

lemma plug_in: "ctx_in s d b Top (root_of (plug c t)) \<and> tree_in s d (plug c t) \<longleftrightarrow>
    ctx_in s d b c (root_of t) \<and> tree_in s (par d c) t"
  by (induction c arbitrary: t) auto

lemma tree_at_plug: "tree_at s d b (plug c t) \<longleftrightarrow>
    ctx_in s d b c (root_of t) \<and> tree_in s (par d c) t \<and>
    distinct (d # map fst (before c @ inorder t @ after c))"
  using plug_in [of s d b c t] by (auto simp: tree_at_def)

lemma ctx_in_cong:
  "(\<And>a. a \<in> insert d (addrs (before c) \<union> addrs (after c)) \<Longrightarrow> s' a = s a) \<Longrightarrow> ctx_in s' d b c p = ctx_in s d b c p"
proof (induction c arbitrary: p)
  case (InLeft e r c)
  have "tree_in s' (fst e) r = tree_in s (fst e) r" using InLeft.prems by (intro tree_in_cong) auto
  moreover have "s' (fst e) = s (fst e)" using InLeft.prems by auto
  moreover have "ctx_in s' d b c (Some (fst e)) = ctx_in s d b c (Some (fst e))" using InLeft.prems by (intro InLeft.IH) auto
  ultimately show ?case by simp
next
  case (InRight l e c)
  have "tree_in s' (fst e) l = tree_in s (fst e) l" using InRight.prems by (intro tree_in_cong) auto
  moreover have "s' (fst e) = s (fst e)" using InRight.prems by auto
  moreover have "ctx_in s' d b c (Some (fst e)) = ctx_in s d b c (Some (fst e))" using InRight.prems by (intro InRight.IH) auto
  ultimately show ?case by simp
qed simp

lemma ctx_in_upd [simp]:
  "a \<noteq> d \<Longrightarrow> a \<notin> addrs (before c) \<Longrightarrow> a \<notin> addrs (after c) \<Longrightarrow> ctx_in (s(a := x)) d b c p = ctx_in s d b c p"
  by (rule ctx_in_cong) auto

lemma par_in: "par d c = d \<or> par d c \<in> addrs (before c) \<or> par d c \<in> addrs (after c)"
  by (cases c) auto

text \<open>Every position of the inorder list has its context.\<close>

lemma split_ctx:
  "inorder t = xs @ e # ys \<Longrightarrow>
   \<exists>c' l r. plug c t = plug c' \<langle>l, e, r\<rangle> \<and> before c' @ inorder l = before c @ xs \<and> inorder r @ after c' = ys @ after c"
proof (induction t arbitrary: xs ys c)
  case (Node l e' r)
  from Node.prems consider us where "inorder l = xs @ e # us" "ys = us @ e' # inorder r"
    | "xs = inorder l" "e = e'" "ys = inorder r"
    | us where "xs = inorder l @ e' # us" "inorder r = us @ e # ys"
    by (force simp: append_eq_append_conv2 append_eq_Cons_conv Cons_eq_append_conv)
  then show ?case
  proof cases
    case 1
    then show ?thesis using Node.IH(1) [of xs us "InLeft e' r c"] by auto
  next
    case 2
    then show ?thesis by (intro exI [of _ c] exI [of _ l] exI [of _ r]) simp
  next
    case 3
    then show ?thesis using Node.IH(2) [of us ys "InRight l e' c"] by auto
  qed
qed simp

lemma at_position:
  assumes "inorder t = xs @ e # ys"
  obtains c l r where "t = plug c \<langle>l, e, r\<rangle>" "xs = before c @ inorder l" "ys = inorder r @ after c"
proof -
  obtain c l r where "plug Top t = plug c \<langle>l, e, r\<rangle>" "before c @ inorder l = before Top @ xs" "inorder r @ after c = ys @ after Top"
    using split_ctx [OF assms, of Top] by blast
  then show thesis using that [of c l r] by simp
qed

section \<open>Iteration\<close>

definition nxt :: "addr \<Rightarrow> (addr \<times> 'd tdata) list \<Rightarrow> addr" where
  "nxt d ys = (case ys of [] \<Rightarrow> d | e # _ \<Rightarrow> fst e)"

lemma nxt_simps [simp]: "nxt d [] = d" "nxt d (e # ys) = fst e"
  by (simp_all add: nxt_def)

lemma nxt_append: "xs \<noteq> [] \<Longrightarrow> nxt d (xs @ ys) = nxt d xs"
  by (cases xs) simp_all

lemma rel_Some [simp]: "rel s (Some a) k = (case s a of None \<Rightarrow> None | Some n \<Rightarrow> Some (relatives n k))"
  by (cases "s a") (simp_all add: rel_def node_at_def)

lemma rel_None [simp]: "rel s None k = None"
  by (simp add: rel_def node_at_def)

lemma set_rel_Some [simp]:
  "set_rel s (Some a) k v =
     (case s a of None \<Rightarrow> None | Some n \<Rightarrow> Some (s(a \<mapsto> n\<lparr>relatives := (relatives n)(k := v)\<rparr>)))"
  by (cases "s a") (simp_all add: set_rel_def node_at_def)

lemma set_tdata_Some [simp]:
  "set_tdata s (Some a) v = (case s a of None \<Rightarrow> None | Some n \<Rightarrow> Some (s(a \<mapsto> n\<lparr>tdata_of := v\<rparr>)))"
  by (cases "s a") (simp_all add: set_tdata_def node_at_def)

lemma next_left_spec:
  "tree_in s p t \<Longrightarrow> t \<noteq> \<langle>\<rangle> \<Longrightarrow> next_left s (root_of t) = Some (Some (nxt d (inorder t)))"
proof (induction t arbitrary: p)
  case (Node l e r)
  show ?case
  proof (cases "l = \<langle>\<rangle>")
    case True
    then show ?thesis using Node.prems by (subst next_left.simps) simp
  next
    case False
    then have "root_of l \<noteq> None" "inorder l \<noteq> []" by (cases l; simp)+
    then show ?thesis using Node.prems Node.IH(1) [of "fst e"] False
      by (subst next_left.simps) (simp add: nxt_append)
  qed
qed simp

lemma next_up_spec:
  "ctx_in s d b c (Some a) \<Longrightarrow> (\<And>n. s a = Some n \<Longrightarrow> relatives n PARENT = Some (par d c)) \<Longrightarrow> s a \<noteq> None \<Longrightarrow>
   distinct (a # d # map fst (before c @ after c)) \<Longrightarrow>
   next_up s (Some a) = Some (Some (nxt d (after c)))"
proof (induction c arbitrary: a)
  case Top
  then show ?case by (subst next_up.simps) (auto split: option.splits)
next
  case (InLeft e r c)
  have "Some a \<noteq> root_of r" using InLeft.prems(4) by (cases r) auto
  then show ?case using InLeft.prems by (subst next_up.simps) (auto split: option.splits)
next
  case (InRight l e c)
  have "next_up s (Some (fst e)) = Some (Some (nxt d (after c)))"
    using InRight.prems by (intro InRight.IH) auto
  then show ?case using InRight.prems by (subst next_up.simps) (auto split: option.splits)
qed

lemma BSTIterNext_spec:
  assumes "tree_at s d b t" "inorder t = xs @ e # ys"
  shows "BSTIterNext s (Some (fst e)) = Some (Some (nxt d ys))"
proof -
  obtain c l r where t: "t = plug c \<langle>l, e, r\<rangle>" "ys = inorder r @ after c" using at_position [OF assms(2)] by metis
  then have at: "ctx_in s d b c (Some (fst e))"
      "s (fst e) = Some \<lparr>tdata_of = snd e, relatives = rels (Some (par d c)) (root_of l) (root_of r)\<rparr>"
      "tree_in s (fst e) r" "distinct (fst e # d # map fst (before c @ after c))"
    using assms(1) by (auto simp: tree_at_plug)
  show ?thesis
  proof (cases "r = \<langle>\<rangle>")
    case True
    then show ?thesis using next_up_spec [OF at(1) _ _ at(4)] at(2) t(2) by (simp add: BSTIterNext_def)
  next
    case False
    then obtain y where "root_of r = Some y" "inorder r \<noteq> []" by (cases r) auto
    then show ?thesis using next_left_spec [OF at(3) False] at(2) t(2) by (simp add: BSTIterNext_def nxt_append)
  qed
qed

lemma prev_right_spec:
  "tree_in s p t \<Longrightarrow> t \<noteq> \<langle>\<rangle> \<Longrightarrow> prev_right s (root_of t) = Some (Some (fst (last (inorder t))))"
proof (induction t arbitrary: p)
  case (Node l e r)
  show ?case
  proof (cases "r = \<langle>\<rangle>")
    case True
    then show ?thesis using Node.prems by (subst prev_right.simps) simp
  next
    case False
    then have "root_of r \<noteq> None" "inorder r \<noteq> []" by (cases r; simp)+
    then show ?thesis using Node.prems Node.IH(2) [of "fst e"] False
      by (subst prev_right.simps) simp
  qed
qed simp

lemma prev_up_spec:
  "ctx_in s d b c (Some a) \<Longrightarrow> (\<And>n. s a = Some n \<Longrightarrow> relatives n PARENT = Some (par d c)) \<Longrightarrow> s a \<noteq> None \<Longrightarrow>
   distinct (a # d # map fst (before c @ after c)) \<Longrightarrow>
   do { runner \<leftarrow> prev_up s (Some a); if runner = None then f else rel s runner PARENT } =
     (if before c = [] then None else Some (Some (fst (last (before c)))))"
proof (induction c arbitrary: a)
  case Top
  then show ?case
    by (subst prev_up.simps) (auto simp: prev_up.simps [of s "Some d"] split: option.splits)
next
  case (InLeft e r c)
  have "do { runner \<leftarrow> prev_up s (Some (fst e)); if runner = None then f else rel s runner PARENT } =
     (if before c = [] then None else Some (Some (fst (last (before c)))))"
    using InLeft.prems by (intro InLeft.IH) auto
  then show ?case using InLeft.prems by (subst prev_up.simps) (auto split: option.splits)
next
  case (InRight l e c)
  have "Some a \<noteq> root_of l" using InRight.prems(4) by (cases l) auto
  then show ?case using InRight.prems by (subst prev_up.simps) (auto split: option.splits)
qed

lemma BSTIterPrev_spec:
  assumes "tree_at s d b t" "inorder t = xs @ e # ys"
  shows "BSTIterPrev s (Some (fst e)) = (if xs = [] then None else Some (Some (fst (last xs))))"
proof -
  obtain c l r where t: "t = plug c \<langle>l, e, r\<rangle>" "xs = before c @ inorder l" using at_position [OF assms(2)] by metis
  then have at: "ctx_in s d b c (Some (fst e))"
      "s (fst e) = Some \<lparr>tdata_of = snd e, relatives = rels (Some (par d c)) (root_of l) (root_of r)\<rparr>"
      "tree_in s (fst e) l" "distinct (fst e # d # map fst (before c @ after c))"
    using assms(1) by (auto simp: tree_at_plug)
  show ?thesis
  proof (cases "l = \<langle>\<rangle>")
    case True
    then show ?thesis using prev_up_spec [OF at(1) _ _ at(4)] at(2) t(2) by (simp add: BSTIterPrev_def)
  next
    case False
    then obtain y where "root_of l = Some y" "inorder l \<noteq> []" by (cases l) auto
    then show ?thesis using prev_right_spec [OF at(3) False] at(2) t(2) by (simp add: BSTIterPrev_def)
  qed
qed


text \<open>Stepping back from the first element, or in an empty tree, dereferences NULL.\<close>

lemma BSTIterPrev_first: "tree_at s d b t \<Longrightarrow> inorder t = e # ys \<Longrightarrow> BSTIterPrev s (Some (fst e)) = None"
  using BSTIterPrev_spec [of s d b t "[]" e ys] by simp

lemma node_in: "tree_in s p t \<Longrightarrow> e \<in> set (inorder t) \<Longrightarrow> \<exists>n. s (fst e) = Some n \<and> tdata_of n = snd e"
  by (induction t arbitrary: p) auto

lemma BSTGetData_spec: "tree_at s d b t \<Longrightarrow> e \<in> set (inorder t) \<Longrightarrow> BSTGetData s (Some (fst e)) = Some (snd e)"
  using node_in [of s d t e] by (auto simp: tree_at_def BSTGetData_def node_at_def)

lemma bst_size_loop_spec:
  assumes "tree_at s (dummy_root T) b t"
  shows "inorder t = xs @ ys \<Longrightarrow> size_loop s T (Some (nxt (dummy_root T) ys)) k = Some (k + length ys)"
proof (induction ys arbitrary: xs k)
  case Nil
  then show ?case by (subst size_loop.simps) (simp add: BSTEnd_def)
next
  case (Cons e ys)
  have "fst e \<noteq> dummy_root T" using assms Cons.prems by (auto simp: tree_at_def)
  then show ?case using Cons.IH [of "xs @ [e]" "Suc k"] Cons.prems BSTIterNext_spec [OF assms Cons.prems]
    by (subst size_loop.simps) (simp add: BSTEnd_def)
qed



fun each :: "('d tdata \<Rightarrow> 'q \<Rightarrow> int \<times> 'q) \<Rightarrow> 'd tdata list \<Rightarrow> 'q \<Rightarrow> int \<times> 'q" where
  "each f [] q = (0, q)"
| "each f (x # xs) q = (case f x q of (status, q) \<Rightarrow> if status = 0 then each f xs q else (status, q))"

lemma for_each_loop_stop: "st \<noteq> 0 \<Longrightarrow> for_each_loop s p to f st q = Some (st, q)"
  by (subst for_each_loop.simps) simp

lemma for_each_loop_spec:
  assumes "tree_at s d b t"
  shows "inorder t = xs @ ys @ zs \<Longrightarrow>
    for_each_loop s (Some (nxt d (ys @ zs))) (Some (nxt d zs)) f 0 q = Some (each f (map snd ys) q)"
proof (induction ys arbitrary: xs q)
  case Nil
  then show ?case by (subst for_each_loop.simps) simp
next
  case (Cons e ys)
  have i: "inorder t = xs @ e # (ys @ zs)" using Cons.prems by simp
  have "fst e \<noteq> nxt d zs" using assms i by (cases zs) (auto simp: tree_at_def)
  then show ?case using Cons.IH [of "xs @ [e]"] i BSTIterNext_spec [OF assms i] BSTGetData_spec [OF assms, of e]
    by (subst for_each_loop.simps) (auto simp: for_each_loop_stop split: prod.splits)
qed

text \<open>The traversals start at the first element, so the data of the dummy must point to it. In a new
  tree it is NULL, and they fault.\<close>

definition begins :: "addr \<Rightarrow> 'd tdata \<Rightarrow> 'd atree \<Rightarrow> bool" where
  "begins d b t \<longleftrightarrow> b = IterTo (nxt d (inorder t))"

lemma BSTBegin_spec:
  "tree_at s (dummy_root T) b t \<Longrightarrow> begins (dummy_root T) b t \<Longrightarrow>
   BSTBegin s T = Some (Some (nxt (dummy_root T) (inorder t)))"
  by (simp add: tree_at_def begins_def BSTBegin_def as_iter_def)

lemma BSTSize_spec:
  "tree_at s (dummy_root T) b t \<Longrightarrow> begins (dummy_root T) b t \<Longrightarrow> BSTSize s T = Some (size t)"
  using bst_size_loop_spec [of s T b t "[]" "inorder t" 0] by (simp add: BSTSize_def BSTBegin_spec)


lemma BSTForEach_spec:
  "tree_at s d b t \<Longrightarrow> inorder t = xs @ ys @ zs \<Longrightarrow>
   BSTForEach s (Some (nxt d (ys @ zs))) (Some (nxt d zs)) f q = Some (each f (map snd ys) q)"
  by (simp add: BSTForEach_def for_each_loop_spec)

lemma BSTCreate_tree:
  "BSTCreate s (Some a) cmp ps = (Some T, s') \<Longrightarrow>
   dummy_root T = a \<and> compare T = cmp \<and> params T = ps \<and> tree_at s' a NoData \<langle>\<rangle>"
  by (auto simp: BSTCreate_def tree_at_def no_rels)

lemma BSTSize_new:
  "BSTCreate s (Some a) cmp ps = (Some T, s') \<Longrightarrow> BSTSize s' T = None"
  by (auto simp: BSTCreate_def BSTSize_def BSTBegin_def as_iter_def size_loop.simps BSTEnd_def BSTIterNext_def)

section \<open>Insertion\<close>

lemma set_side:
  assumes "ctx_in s d b c p" "distinct (d # map fst (before c @ after c))"
  shows "\<exists>s'. set_rel s (Some (par d c)) (side c) v = Some s' \<and> ctx_in s' d b c v \<and> (\<forall>a. a \<noteq> par d c \<longrightarrow> s' a = s a)"
  using assms by (cases c) auto

lemma tree_at_data:
  "tree_at s d b t \<Longrightarrow> \<exists>s'. set_tdata s (Some d) b' = Some s' \<and> tree_at s' d b' t \<and> (\<forall>a. a \<noteq> d \<longrightarrow> s' a = s a)"
  by (auto simp: tree_at_def image_iff)

lemma sorted_wrt_around:
  assumes "sorted_wrt P (as @ (bs @ e # cs) @ ds)"
  shows "x \<in> set bs \<Longrightarrow> P x e" "y \<in> set cs \<Longrightarrow> P e y"
  using assms by (simp_all add: sorted_wrt_append)

lemma find_where_spec:
  fixes T :: "('d, 'p) binary_search_tree" and v :: "'d tdata"
  defines "gt \<equiv> \<lambda>e :: addr \<times> 'd tdata. 0 < compare T (snd e) v (params T)"
  assumes "tree_in s (par d c) u" "sorted_wrt (\<lambda>x y. gt x \<longrightarrow> gt y) (inorder (plug c u))"
    "\<forall>e \<in> set (before c). \<not> gt e" "\<forall>e \<in> set (after c). gt e"
    "u \<noteq> \<langle>\<rangle> \<or> (c \<noteq> Top \<and> bf = Some (par d c) \<and> dir = side c)"
  shows "\<exists>c'. c' \<noteq> Top \<and> plug c' \<langle>\<rangle> = plug c u \<and> find_where s T v (root_of u) bf dir = Some (Some (par d c'), side c') \<and>
    (\<forall>e \<in> set (before c'). \<not> gt e) \<and> (\<forall>e \<in> set (after c'). gt e)"
  using assms(2-)
proof (induction u arbitrary: c bf dir)
  case Leaf
  then show ?case by (intro exI [of _ c]) (simp add: find_where.simps)
next
  case (Node l e r)
  have so: "sorted_wrt (\<lambda>x y. gt x \<longrightarrow> gt y) (before c @ (inorder l @ e # inorder r) @ after c)"
    using Node.prems(2) by simp
  have n: "node_at s (Some (fst e)) = Some \<lparr>tdata_of = snd e, relatives = rels (Some (par d c)) (root_of l) (root_of r)\<rparr>"
    using Node.prems(1) by (simp add: node_at_def)
  show ?case
  proof (cases "gt e")
    case True
    have "find_where s T v (root_of \<langle>l, e, r\<rangle>) bf dir = find_where s T v (root_of l) (Some (fst e)) LEFT"
      using True n by (subst find_where.simps) (simp add: gt_def)
    moreover have aft: "\<forall>x \<in> set (after (InLeft e r c)). gt x"
    proof -
      have "\<forall>y \<in> set (inorder r). gt e \<longrightarrow> gt y" using sorted_wrt_around(2) [OF so] by blast
      then show ?thesis using True Node.prems(4) by auto
    qed
    moreover from aft have "\<exists>c'. c' \<noteq> Top \<and> plug c' \<langle>\<rangle> = plug (InLeft e r c) l \<and>
        find_where s T v (root_of l) (Some (fst e)) LEFT = Some (Some (par d c'), side c') \<and>
        (\<forall>x \<in> set (before c'). \<not> gt x) \<and> (\<forall>x \<in> set (after c'). gt x)"
      using Node.prems(1,3) Node.prems(2) by (intro Node.IH(1)) (simp_all only: plug.simps before.simps par.simps tree_in.simps side.simps, simp)
    ultimately show ?thesis by simp
  next
    case False
    have "find_where s T v (root_of \<langle>l, e, r\<rangle>) bf dir = find_where s T v (root_of r) (Some (fst e)) RIGHT"
      using False n by (subst find_where.simps) (simp add: gt_def)
    moreover have bef: "\<forall>x \<in> set (before (InRight l e c)). \<not> gt x"
    proof -
      have "\<forall>x \<in> set (inorder l). gt x \<longrightarrow> gt e" using sorted_wrt_around(1) [OF so] by blast
      then show ?thesis using False Node.prems(3) by auto
    qed
    moreover from bef have "\<exists>c'. c' \<noteq> Top \<and> plug c' \<langle>\<rangle> = plug (InRight l e c) r \<and>
        find_where s T v (root_of r) (Some (fst e)) RIGHT = Some (Some (par d c'), side c') \<and>
        (\<forall>x \<in> set (before c'). \<not> gt x) \<and> (\<forall>x \<in> set (after c'). gt x)"
      using Node.prems(1,4) Node.prems(2) by (intro Node.IH(2)) (simp_all only: plug.simps after.simps par.simps tree_in.simps side.simps, simp)
    ultimately show ?thesis by simp
  qed
qed

text \<open>Linking a new leaf at an empty place.\<close>

lemma link_leaf:
  assumes "tree_at s d b (plug c \<langle>\<rangle>)" "s new = Some \<lparr>tdata_of = v, relatives = rels None None None\<rparr>"
    "new \<notin> insert d (addrs (inorder (plug c \<langle>\<rangle>)))"
  shows "\<exists>s' s''. set_rel s (Some (par d c)) (side c) (Some new) = Some s' \<and>
    set_rel s' (Some new) PARENT (Some (par d c)) = Some s'' \<and>
    tree_at s'' d b (plug c \<langle>\<langle>\<rangle>, (new, v), \<langle>\<rangle>\<rangle>) \<and>
    (\<forall>a. a \<notin> insert new (insert d (addrs (inorder (plug c \<langle>\<rangle>)))) \<longrightarrow> s'' a = s a)"
proof -
  have at: "ctx_in s d b c None" "distinct (d # map fst (before c @ after c))"
    using assms(1) by (auto simp: tree_at_plug)
  obtain s' where s': "set_rel s (Some (par d c)) (side c) (Some new) = Some s'" "ctx_in s' d b c (Some new)"
    "\<forall>a. a \<noteq> par d c \<longrightarrow> s' a = s a" using set_side [OF at, of "Some new"] by blast
  have "par d c \<noteq> new" using par_in [of d c] assms(3) by auto
  then have "s' new = Some \<lparr>tdata_of = v, relatives = rels None None None\<rparr>" using s'(3) assms(2) by simp
  then have "set_rel s' (Some new) PARENT (Some (par d c)) =
      Some (s'(new \<mapsto> \<lparr>tdata_of = v, relatives = rels (Some (par d c)) None None\<rparr>))" by simp
  moreover have "tree_at (s'(new \<mapsto> \<lparr>tdata_of = v, relatives = rels (Some (par d c)) None None\<rparr>)) d b
      (plug c \<langle>\<langle>\<rangle>, (new, v), \<langle>\<rangle>\<rangle>)"
    using at(2) s'(2) assms(3) by (auto simp: tree_at_plug image_Un)
  moreover have "\<forall>a. a \<notin> insert new (insert d (addrs (inorder (plug c \<langle>\<rangle>)))) \<longrightarrow> s' a = s a"
  proof (intro allI impI)
    fix a assume "a \<notin> insert new (insert d (addrs (inorder (plug c \<langle>\<rangle>))))"
    then have "a \<noteq> par d c" using par_in [of d c] by (auto simp: image_Un)
    then show "s' a = s a" using s'(3) by simp
  qed
  ultimately show ?thesis using s'(1) by auto
qed

lemma NodeCreat_tree:
  assumes "tree_at s d b t" "new \<notin> insert d (addrs (inorder t))"
  shows "tree_at (NodeCreat s (Some new) v) d b t"
    "NodeCreat s (Some new) v new = Some \<lparr>tdata_of = v, relatives = rels None None None\<rparr>"
    "a \<noteq> new \<Longrightarrow> NodeCreat s (Some new) v a = s a"
  using assms by (auto simp: tree_at_def NodeCreat_def no_rels)

lemma split_by: "\<forall>x \<in> set xs. \<not> P x \<Longrightarrow> \<forall>x \<in> set ys. P x \<Longrightarrow>
    takeWhile (\<lambda>x. \<not> P x) (xs @ ys) = xs \<and> dropWhile (\<lambda>x. \<not> P x) (xs @ ys) = ys"
  by (cases ys) (auto simp: takeWhile_eq_all_conv dropWhile_eq_self_iff)

lemma InsertByDirection_side:
  "c \<noteq> Top \<Longrightarrow> InsertByDirection s T (side c) n wh =
     do { s \<leftarrow> set_rel s wh (side c) n; s \<leftarrow> set_rel s n PARENT wh; Some (n, s) }"
  by (cases c) (simp_all add: InsertByDirection_def)

text \<open>The new element goes behind the elements that are not larger, and the data of the dummy points to
  the first element again.\<close>

lemma BSTInsert_empty:
  assumes "tree_at s (dummy_root T) b \<langle>\<rangle>" "new \<noteq> dummy_root T" "compare T v v (params T) = 0"
  shows "\<exists>s'. BSTInsert s (Some new) T v = Some (Some new, s') \<and>
    tree_at s' (dummy_root T) (IterTo new) \<langle>\<langle>\<rangle>, (new, v), \<langle>\<rangle>\<rangle> \<and>
    (\<forall>a. a \<notin> {new, dummy_root T} \<longrightarrow> s' a = s a)"
  using assms
  by (auto simp: BSTInsert_def NodeCreat_def tree_at_def FindWhereToInsert_def find_where.simps InsertByDirection_def
      UpdateBeginByData_def as_iter_def iter_data_def node_at_def no_rels)

lemma BSTInsert_node:
  fixes T :: "('d, 'p) binary_search_tree" and v :: "'d tdata"
  defines "gt \<equiv> \<lambda>e :: addr \<times> 'd tdata. 0 < compare T (snd e) v (params T)" and "d \<equiv> dummy_root T"
  assumes at: "tree_at s d b t" and b: "begins d b t" and t: "t \<noteq> \<langle>\<rangle>"
    and new: "new \<notin> insert d (addrs (inorder t))"
    and so: "sorted_wrt (\<lambda>x y. gt x \<longrightarrow> gt y) (inorder t)"
  shows "\<exists>s' b' t'. BSTInsert s (Some new) T v = Some (Some new, s') \<and> tree_at s' d b' t' \<and> begins d b' t' \<and>
    inorder t' = takeWhile (\<lambda>e. \<not> gt e) (inorder t) @ (new, v) # dropWhile (\<lambda>e. \<not> gt e) (inorder t) \<and>
    (\<forall>a. a \<notin> insert new (insert d (addrs (inorder t))) \<longrightarrow> s' a = s a)"
proof -
  let ?s = "NodeCreat s (Some new) v"
  note c = NodeCreat_tree [OF at new, where v = v]
  obtain c' where c': "c' \<noteq> Top" "plug c' \<langle>\<rangle> = t" "find_where ?s T v (root_of t) None PARENT = Some (Some (par d c'), side c')"
      "\<forall>e \<in> set (before c'). \<not> gt e" "\<forall>e \<in> set (after c'). gt e"
    using find_where_spec [of ?s d Top t T v None PARENT] c(1) so t by (auto simp: gt_def tree_at_def)
  have found_at: "FindWhereToInsert ?s T v PARENT = Some (Some (par d c'), side c')"
    using c(1) c'(3) by (simp add: FindWhereToInsert_def tree_at_def d_def)
  obtain s1 s2 where s2: "set_rel ?s (Some (par d c')) (side c') (Some new) = Some s1"
      "set_rel s1 (Some new) PARENT (Some (par d c')) = Some s2" "tree_at s2 d b (plug c' \<langle>\<langle>\<rangle>, (new, v), \<langle>\<rangle>\<rangle>)"
      "\<forall>a. a \<notin> insert new (insert d (addrs (inorder t))) \<longrightarrow> s2 a = ?s a"
    using link_leaf [of ?s d b c' new v] c(1,2) c'(2) new by blast
  have i: "inorder t = before c' @ after c'" using c'(2) by auto
  have i': "inorder (plug c' \<langle>\<langle>\<rangle>, (new, v), \<langle>\<rangle>\<rangle>) = before c' @ (new, v) # after c'" by simp
  have order: "before c' @ (new, v) # after c' =
      takeWhile (\<lambda>e. \<not> gt e) (inorder t) @ (new, v) # dropWhile (\<lambda>e. \<not> gt e) (inorder t)"
    using split_by [OF c'(4,5)] i by simp
  obtain e where e: "nxt d (inorder t) = fst e" "e \<in> set (inorder t)" "before c' = [] \<longleftrightarrow> gt e"
  proof -
    obtain e es where "inorder t = e # es" using t by (cases "inorder t") (auto simp: eq_inorder_Nil)
    then show thesis using that [of e] i c'(4,5) by (cases "before c'") auto
  qed
  obtain n where n: "s2 (fst e) = Some n" "tdata_of n = snd e"
    using node_in [of s2 d "plug c' \<langle>\<langle>\<rangle>, (new, v), \<langle>\<rangle>\<rangle>" e] s2(3) e(2) i by (auto simp: tree_at_def)
  have dum: "\<exists>m. s2 d = Some m \<and> tdata_of m = IterTo (fst e)" using s2(3) b e(1) by (auto simp: tree_at_def begins_def)
  have up: "UpdateBeginByData s2 T v (Some new) = (if gt e then set_tdata s2 (Some d) (IterTo new) else Some s2)"
    using dum n by (auto simp: UpdateBeginByData_def d_def gt_def as_iter_def node_at_def iter_data_def)
  obtain s3 where s3: "set_tdata s2 (Some d) (IterTo new) = Some s3"
      "tree_at s3 d (IterTo new) (plug c' \<langle>\<langle>\<rangle>, (new, v), \<langle>\<rangle>\<rangle>)" "\<forall>a. a \<noteq> d \<longrightarrow> s3 a = s2 a"
    using tree_at_data [OF s2(3)] by blast
  have ins: "BSTInsert s (Some new) T v = Some (Some new, if gt e then s3 else s2)"
    using found_at s2(1,2) up s3(1)
    by (simp add: BSTInsert_def InsertByDirection_side [OF c'(1)] del: set_rel_Some set_tdata_Some)
  have "begins d (if gt e then IterTo new else b) (plug c' \<langle>\<langle>\<rangle>, (new, v), \<langle>\<rangle>\<rangle>)"
    using e b i by (cases "before c'") (auto simp: begins_def)
  moreover have "\<forall>a. a \<notin> insert new (insert d (addrs (inorder t))) \<longrightarrow> (if gt e then s3 else s2) a = s a"
    using s2(4) s3(3) c(3) by auto
  moreover have "tree_at (if gt e then s3 else s2) d (if gt e then IterTo new else b) (plug c' \<langle>\<langle>\<rangle>, (new, v), \<langle>\<rangle>\<rangle>)"
    using s2(3) s3(2) by simp
  ultimately show ?thesis using ins order i' by metis
qed

section \<open>Removal\<close>

text \<open>A node with two sons is replaced by its right subtree, with the left one hung under the leftmost
  node of it; with one son or none this is the other subtree.\<close>

fun graft :: "'e tree \<Rightarrow> 'e tree \<Rightarrow> 'e tree" where
  "graft \<langle>\<rangle> l = l"
| "graft \<langle>r1, e, r2\<rangle> l = \<langle>graft r1 l, e, r2\<rangle>"

lemma inorder_graft [simp]: "inorder (graft r l) = inorder l @ inorder r"
  by (induction r) simp_all

lemma graft_Leaf [simp]: "graft r \<langle>\<rangle> = r"
  by (induction r) simp_all

lemma root_of_graft: "r \<noteq> \<langle>\<rangle> \<Longrightarrow> root_of (graft r l) = root_of r"
  by (cases r) simp_all

lemma graft_in:
  "tree_in s p r \<Longrightarrow> r \<noteq> \<langle>\<rangle> \<Longrightarrow> distinct (map fst (inorder r)) \<Longrightarrow> m = nxt d (inorder r) \<Longrightarrow>
   \<exists>s1. set_rel s (Some m) LEFT (root_of l) = Some s1 \<and> (\<forall>x. x \<noteq> m \<longrightarrow> s1 x = s x) \<and>
     (\<forall>s2. (\<forall>x \<in> addrs (inorder r). s2 x = s1 x) \<longrightarrow> tree_in s2 m l \<longrightarrow> tree_in s2 p (graft r l))"
proof (induction r arbitrary: p)
  case (Node r1 e r2)
  show ?case
  proof (cases "r1 = \<langle>\<rangle>")
    case True
    let ?s = "s(fst e \<mapsto> \<lparr>tdata_of = snd e, relatives = rels (Some p) (root_of l) (root_of r2)\<rparr>)"
    have "tree_in s2 p (graft \<langle>r1, e, r2\<rangle> l)"
      if a: "\<forall>x \<in> addrs (inorder \<langle>r1, e, r2\<rangle>). s2 x = ?s x" "tree_in s2 (fst e) l" for s2
    proof -
      have "fst e \<notin> addrs (inorder r2)" using Node.prems(3) by auto
      have "\<forall>x \<in> addrs (inorder r2). s2 x = s x"
      proof
        fix x assume x: "x \<in> addrs (inorder r2)"
        then have "x \<noteq> fst e" "x \<in> addrs (inorder \<langle>r1, e, r2\<rangle>)" using \<open>fst e \<notin> _\<close> by (metis, simp add: image_Un)
        then show "s2 x = s x" using bspec [OF a(1), of x] by simp
      qed
      then have "tree_in s2 (fst e) r2 = tree_in s (fst e) r2" by (intro tree_in_cong) auto
      then show ?thesis using a Node.prems(1) True by simp
    qed
    then show ?thesis using True Node.prems(1,4) by simp
  next
    case False
    then have ne: "inorder r1 \<noteq> []" by (simp add: eq_inorder_Nil)
    then have m: "m = nxt d (inorder r1)" using Node.prems(4) by (simp add: nxt_append)
    then have "m \<in> addrs (inorder r1)" using ne by (cases "inorder r1") auto
    moreover have "fst e \<notin> addrs (inorder r1)" "addrs (inorder r1) \<inter> addrs (inorder r2) = {}"
      using Node.prems(3) by (simp_all add: image_Un)
    ultimately have me: "m \<noteq> fst e" "m \<notin> addrs (inorder r2)" by (metis, blast)
    obtain s1 where s1: "set_rel s (Some m) LEFT (root_of l) = Some s1" "\<forall>x. x \<noteq> m \<longrightarrow> s1 x = s x"
      "\<And>s2. \<forall>x \<in> addrs (inorder r1). s2 x = s1 x \<Longrightarrow> tree_in s2 m l \<Longrightarrow> tree_in s2 (fst e) (graft r1 l)"
    proof -
      have "tree_in s (fst e) r1" "distinct (map fst (inorder r1))" using Node.prems by simp_all
      then show thesis using Node.IH(1) [OF _ False _ m] that by blast
    qed
    have "tree_in s2 p (graft \<langle>r1, e, r2\<rangle> l)"
      if a: "\<forall>x \<in> addrs (inorder \<langle>r1, e, r2\<rangle>). s2 x = s1 x" "tree_in s2 m l" for s2
    proof -
      have "s2 x = s x" if x: "x \<in> addrs (inorder r2)" for x
      proof -
        have "x \<noteq> m" "x \<in> addrs (inorder \<langle>r1, e, r2\<rangle>)" using x me(2) by (metis, simp add: image_Un)
        then show ?thesis using bspec [OF a(1), of x] s1(2) by simp
      qed
      then have "tree_in s2 (fst e) r2 = tree_in s (fst e) r2" by (rule tree_in_cong)
      moreover have "s2 (fst e) = s (fst e)" using a(1) s1(2) me(1) by auto
      moreover have "tree_in s2 (fst e) (graft r1 l)" using a by (intro s1(3)) auto
      ultimately show ?thesis using Node.prems(1) root_of_graft [OF False] by simp
    qed
    then show ?thesis using s1(1,2) by blast
  qed
qed simp

lemma reparent:
  assumes "tree_in s p t" "t \<noteq> \<langle>\<rangle>" "distinct (map fst (inorder t))"
  shows "\<exists>s'. set_rel s (root_of t) PARENT (Some q) = Some s' \<and> tree_in s' q t \<and>
    (\<forall>a. a \<notin> addrs (inorder t) \<longrightarrow> s' a = s a)"
  using assms by (cases t) auto

text \<open>The tests which son of its parent a node is.\<close>

lemma side_test:
  assumes "ctx_in s d b c (Some a)" "distinct (a # d # map fst (before c @ after c))"
  shows "\<exists>l r. rel s (Some (par d c)) LEFT = Some l \<and> rel s (Some (par d c)) RIGHT = Some r \<and>
    (Some a = l \<longleftrightarrow> side c = LEFT) \<and> (Some a = r \<longleftrightarrow> side c = RIGHT)"
proof (cases c)
  case (InLeft e r c')
  have "root_of r \<noteq> Some a" using assms(2) InLeft by (cases r) auto
  then show ?thesis using assms(1) InLeft by auto
next
  case (InRight l e c')
  have "root_of l \<noteq> Some a" using assms(2) InRight by (cases l) auto
  then show ?thesis using assms(1) InRight by auto
qed (use assms in auto)

lemma unlink:
  assumes "ctx_in s d b c (Some a)" "distinct (a # d # map fst (before c @ after c))"
  shows "\<exists>s'. (do { pr \<leftarrow> rel s (Some (par d c)) RIGHT;
        s \<leftarrow> (if Some a = pr then set_rel s (Some (par d c)) RIGHT v else set_rel s (Some (par d c)) LEFT v);
        Some (free_node s (Some a)) }) = Some s' \<and>
      (do { pl \<leftarrow> rel s (Some (par d c)) LEFT;
        s \<leftarrow> (if Some a = pl then set_rel s (Some (par d c)) LEFT v else set_rel s (Some (par d c)) RIGHT v);
        Some (free_node s (Some a)) }) = Some s' \<and>
      ctx_in s' d b c v \<and> s' a = None \<and> (\<forall>x. x \<noteq> a \<longrightarrow> x \<noteq> par d c \<longrightarrow> s' x = s x)"
proof -
  obtain l r where lr: "rel s (Some (par d c)) LEFT = Some l" "rel s (Some (par d c)) RIGHT = Some r"
    "Some a = l \<longleftrightarrow> side c = LEFT" "Some a = r \<longleftrightarrow> side c = RIGHT" using side_test [OF assms] by blast
  have "distinct (d # map fst (before c @ after c))" using assms(2) by simp
  from set_side [OF assms(1) this, of v] obtain s1 where s1: "set_rel s (Some (par d c)) (side c) v = Some s1"
    "ctx_in s1 d b c v" "\<forall>x. x \<noteq> par d c \<longrightarrow> s1 x = s x" by blast
  have "side c = LEFT \<or> side c = RIGHT" by (cases c) simp_all
  then have "(if Some a = r then set_rel s (Some (par d c)) RIGHT v else set_rel s (Some (par d c)) LEFT v) = Some s1"
    "(if Some a = l then set_rel s (Some (par d c)) LEFT v else set_rel s (Some (par d c)) RIGHT v) = Some s1"
    using s1(1) lr(3,4) by (auto simp del: set_rel_Some)
  moreover have "ctx_in (s1(a := None)) d b c v" using s1(2) assms(2) by auto
  ultimately show ?thesis using lr(1,2) s1(3)
    by (simp add: free_node_def del: rel_Some set_rel_Some)
qed

definition removed :: "'d tstore \<Rightarrow> addr \<Rightarrow> 'd tdata \<Rightarrow> (addr \<times> 'd tdata) ctx \<Rightarrow> 'd atree \<Rightarrow> addr \<times> 'd tdata \<Rightarrow> 'd atree
    \<Rightarrow> 'd tstore \<Rightarrow> bool" where
  "removed s d b c l e r s' \<longleftrightarrow> tree_at s' d b (plug c (graft r l)) \<and> s' (fst e) = None \<and>
     (\<forall>x. x \<notin> insert d (addrs (inorder (plug c \<langle>l, e, r\<rangle>))) \<longrightarrow> s' x = s x)"

lemma node_in_ctx:
  assumes at: "tree_at s d b (plug c \<langle>l, e, r\<rangle>)"
  shows "ctx_in s d b c (Some (fst e))"
    "s (fst e) = Some \<lparr>tdata_of = snd e, relatives = rels (Some (par d c)) (root_of l) (root_of r)\<rparr>"
    "tree_in s (fst e) l" "tree_in s (fst e) r"
    "distinct (fst e # d # map fst (before c @ after c))"
    "distinct (map fst (inorder l))" "distinct (map fst (inorder r))"
    "distinct (d # map fst (before c @ (inorder l @ inorder r) @ after c))"
    "x \<in> addrs (inorder l) \<union> addrs (inorder r) \<Longrightarrow> x \<noteq> fst e \<and> x \<noteq> d \<and> x \<notin> addrs (before c) \<and> x \<notin> addrs (after c)"
    "addrs (inorder l) \<inter> addrs (inorder r) = {}"
proof -
  show "ctx_in s d b c (Some (fst e))"
    "s (fst e) = Some \<lparr>tdata_of = snd e, relatives = rels (Some (par d c)) (root_of l) (root_of r)\<rparr>"
    "tree_in s (fst e) l" "tree_in s (fst e) r" using at by (simp_all add: tree_at_plug)
  have D: "distinct (d # map fst (before c @ (inorder l @ e # inorder r) @ after c))"
    using at by (simp add: tree_at_plug)
  then show "distinct (map fst (inorder l))" "distinct (map fst (inorder r))" by simp_all
  note D' = D [simplified, unfolded image_Un]
  show "distinct (fst e # d # map fst (before c @ after c))" using D' by (simp add: image_Un) blast
  show "distinct (d # map fst (before c @ (inorder l @ inorder r) @ after c))" using D' by (simp add: image_Un)
  show "addrs (inorder l) \<inter> addrs (inorder r) = {}" using D' by (simp add: image_Un) blast
  have "fst e \<notin> addrs (inorder l) \<union> addrs (inorder r)" "d \<notin> addrs (inorder l) \<union> addrs (inorder r)"
    "addrs (before c) \<inter> (addrs (inorder l) \<union> addrs (inorder r)) = {}"
    "addrs (after c) \<inter> (addrs (inorder l) \<union> addrs (inorder r)) = {}"
    using D' by (simp_all add: image_Un Int_Un_distrib Int_commute)
  then show "x \<noteq> fst e \<and> x \<noteq> d \<and> x \<notin> addrs (before c) \<and> x \<notin> addrs (after c)"
    if "x \<in> addrs (inorder l) \<union> addrs (inorder r)" using that by blast
qed

lemma node_not_par:
  assumes at: "tree_at s d b (plug c \<langle>l, e, r\<rangle>)"
  shows "par d c \<noteq> fst e" "par d c \<notin> addrs (inorder l) \<union> addrs (inorder r)"
    "x \<in> addrs (inorder l) \<union> addrs (inorder r) \<Longrightarrow> x \<noteq> fst e \<and> x \<noteq> par d c"
proof -
  have "fst e \<noteq> d \<and> fst e \<notin> addrs (before c) \<and> fst e \<notin> addrs (after c)" using node_in_ctx(5) [OF at] by simp
  then show "par d c \<noteq> fst e" using par_in [of d c] by metis
  show p: "par d c \<notin> addrs (inorder l) \<union> addrs (inorder r)" using par_in [of d c] node_in_ctx(9) [OF at] by blast
  show "x \<noteq> fst e \<and> x \<noteq> par d c" if "x \<in> addrs (inorder l) \<union> addrs (inorder r)"
    using that p node_in_ctx(9) [OF at that] by blast
qed

lemma removedI:
  assumes "tree_at s d b (plug c \<langle>l, e, r\<rangle>)"
    "ctx_in s' d b c (root_of (graft r l))" "tree_in s' (par d c) (graft r l)" "s' (fst e) = None"
    "\<And>x. x \<noteq> fst e \<Longrightarrow> x \<noteq> par d c \<Longrightarrow> x \<notin> addrs (inorder l) \<Longrightarrow> x \<notin> addrs (inorder r) \<Longrightarrow> s' x = s x"
  shows "removed s d b c l e r s'"
proof -
  have "s' x = s x" if x: "x \<notin> insert d (addrs (inorder (plug c \<langle>l, e, r\<rangle>)))" for x
  proof (rule assms(5))
    show "x \<noteq> fst e" "x \<notin> addrs (inorder l)" "x \<notin> addrs (inorder r)" using x by auto
    have "x \<noteq> d \<and> x \<notin> addrs (before c) \<and> x \<notin> addrs (after c)" using x by (simp add: image_Un)
    then show "x \<noteq> par d c" using par_in [of d c] by metis
  qed
  moreover have "distinct (d # map fst (before c @ inorder (graft r l) @ after c))"
    using node_in_ctx(8) [OF assms(1)] by simp
  ultimately show ?thesis using assms(2-4) by (simp only: removed_def tree_at_plug) blast
qed

lemma RemoveWithNoSons_spec:
  assumes at: "tree_at s d b (plug c \<langle>\<langle>\<rangle>, e, \<langle>\<rangle>\<rangle>)"
  shows "\<exists>s'. RemoveWithNoSons s (Some (fst e)) = Some s' \<and> removed s d b c \<langle>\<rangle> e \<langle>\<rangle> s'"
proof -
  note f = node_in_ctx [OF at]
  obtain s' where s': "(do { pl \<leftarrow> rel s (Some (par d c)) LEFT;
        s \<leftarrow> (if Some (fst e) = pl then set_rel s (Some (par d c)) LEFT None else set_rel s (Some (par d c)) RIGHT None);
        Some (free_node s (Some (fst e))) }) = Some s'"
      "ctx_in s' d b c None" "s' (fst e) = None" "\<forall>x. x \<noteq> fst e \<longrightarrow> x \<noteq> par d c \<longrightarrow> s' x = s x"
    using unlink [OF f(1,5), of None] by blast
  have "rel s (Some (fst e)) PARENT = Some (Some (par d c))" using f(2) by simp
  then have "RemoveWithNoSons s (Some (fst e)) = Some s'"
    using s'(1) by (simp add: RemoveWithNoSons_def del: rel_Some set_rel_Some)
  moreover have "removed s d b c \<langle>\<rangle> e \<langle>\<rangle> s'"
    using s'(2-4) by (intro removedI [OF at]) simp_all
  ultimately show ?thesis by blast
qed


lemma RemoveWithLeftSon_spec:
  assumes at: "tree_at s d b (plug c \<langle>l, e, \<langle>\<rangle>\<rangle>)" and l: "l \<noteq> \<langle>\<rangle>"
  shows "\<exists>s'. RemoveWithLeftSon s (Some (fst e)) = Some s' \<and> removed s d b c l e \<langle>\<rangle> s'"
proof -
  note f = node_in_ctx [OF at]
  obtain s1 where s1: "set_rel s (root_of l) PARENT (Some (par d c)) = Some s1" "tree_in s1 (par d c) l"
      "\<forall>x. x \<notin> addrs (inorder l) \<longrightarrow> s1 x = s x" using reparent [OF f(3) l f(6)] by blast
  have "ctx_in s1 d b c (Some (fst e)) = ctx_in s d b c (Some (fst e))"
    using s1(3) f(9) by (intro ctx_in_cong) blast
  then obtain s' where s': "(do { pl \<leftarrow> rel s1 (Some (par d c)) LEFT;
        s \<leftarrow> (if Some (fst e) = pl then set_rel s1 (Some (par d c)) LEFT (root_of l) else set_rel s1 (Some (par d c)) RIGHT (root_of l));
        Some (free_node s (Some (fst e))) }) = Some s'"
      "ctx_in s' d b c (root_of l)" "s' (fst e) = None" "\<forall>x. x \<noteq> fst e \<longrightarrow> x \<noteq> par d c \<longrightarrow> s' x = s1 x"
    using unlink [OF _ f(5), of s1 b "root_of l"] f(1) by blast
  have "rel s (Some (fst e)) PARENT = Some (Some (par d c))" "rel s (Some (fst e)) LEFT = Some (root_of l)"
    using f(2) by simp_all
  then have "RemoveWithLeftSon s (Some (fst e)) = Some s'"
    using s'(1) s1(1) by (simp add: RemoveWithLeftSon_def del: rel_Some set_rel_Some)
  moreover have "tree_in s' (par d c) l = tree_in s1 (par d c) l"
    using s'(4) node_not_par(3) [OF at] by (intro tree_in_cong) blast
  then have "removed s d b c l e \<langle>\<rangle> s'"
    using s'(2-4) s1(2,3) by (intro removedI [OF at]) simp_all
  ultimately show ?thesis by blast
qed

lemma RemoveWithRightSon_spec:
  assumes at: "tree_at s d b (plug c \<langle>\<langle>\<rangle>, e, r\<rangle>)" and r: "r \<noteq> \<langle>\<rangle>"
  shows "\<exists>s'. RemoveWithRightSon s (Some (fst e)) = Some s' \<and> removed s d b c \<langle>\<rangle> e r s'"
proof -
  note f = node_in_ctx [OF at]
  obtain s1 where s1: "set_rel s (root_of r) PARENT (Some (par d c)) = Some s1" "tree_in s1 (par d c) r"
      "\<forall>x. x \<notin> addrs (inorder r) \<longrightarrow> s1 x = s x" using reparent [OF f(4) r f(7)] by blast
  have "ctx_in s1 d b c (Some (fst e)) = ctx_in s d b c (Some (fst e))"
    using s1(3) f(9) by (intro ctx_in_cong) blast
  then obtain s' where s': "(do { pr \<leftarrow> rel s1 (Some (par d c)) RIGHT;
        s \<leftarrow> (if Some (fst e) = pr then set_rel s1 (Some (par d c)) RIGHT (root_of r) else set_rel s1 (Some (par d c)) LEFT (root_of r));
        Some (free_node s (Some (fst e))) }) = Some s'"
      "ctx_in s' d b c (root_of r)" "s' (fst e) = None" "\<forall>x. x \<noteq> fst e \<longrightarrow> x \<noteq> par d c \<longrightarrow> s' x = s1 x"
    using unlink [OF _ f(5), of s1 b "root_of r"] f(1) by blast
  have "rel s (Some (fst e)) PARENT = Some (Some (par d c))" "rel s (Some (fst e)) RIGHT = Some (root_of r)"
    using f(2) by simp_all
  then have "RemoveWithRightSon s (Some (fst e)) = Some s'"
    using s'(1) s1(1) by (simp add: RemoveWithRightSon_def del: rel_Some set_rel_Some)
  moreover have "tree_in s' (par d c) r = tree_in s1 (par d c) r"
    using s'(4) node_not_par(3) [OF at] by (intro tree_in_cong) blast
  then have "removed s d b c \<langle>\<rangle> e r s'"
    using s'(2-4) s1(2,3) by (intro removedI [OF at]) simp_all
  ultimately show ?thesis by blast
qed

text \<open>The first three assignments of the case of two sons hang the left subtree under the next node.\<close>

lemma hang_left:
  assumes at: "tree_at s d b (plug c \<langle>l, e, r\<rangle>)" and l: "l \<noteq> \<langle>\<rangle>" and r: "r \<noteq> \<langle>\<rangle>"
  shows "\<exists>m s1 s2 s3. BSTIterNext s (Some (fst e)) = Some (Some m) \<and>
    set_rel s (Some m) LEFT (root_of l) = Some s1 \<and> rel s1 (Some (fst e)) LEFT = Some (root_of l) \<and>
    set_rel s1 (root_of l) PARENT (Some m) = Some s2 \<and> set_rel s2 (Some (fst e)) LEFT None = Some s3 \<and>
    rel s3 (Some (fst e)) RIGHT = Some (root_of r) \<and> rel s3 (Some (fst e)) PARENT = Some (Some (par d c)) \<and>
    tree_in s3 (fst e) (graft r l) \<and>
    (\<forall>x. x \<noteq> fst e \<longrightarrow> x \<notin> addrs (inorder l) \<longrightarrow> x \<notin> addrs (inorder r) \<longrightarrow> s3 x = s x)"
proof -
  note f = node_in_ctx [OF at]
  let ?m = "nxt d (inorder r)" and ?a = "fst e"
  have ne: "inorder r \<noteq> []" using r by (simp add: eq_inorder_Nil)
  have "inorder (plug c \<langle>l, e, r\<rangle>) = (before c @ inorder l) @ e # (inorder r @ after c)" by simp
  from BSTIterNext_spec [OF at this] have next': "BSTIterNext s (Some ?a) = Some (Some ?m)"
    using ne by (simp add: nxt_append)
  have mr: "?m \<in> addrs (inorder r)" using ne by (cases "inorder r") auto
  then have ma: "?m \<noteq> ?a" and ml: "?m \<notin> addrs (inorder l)" using f(9) f(10) by (blast, blast)
  obtain s1 where s1: "set_rel s (Some ?m) LEFT (root_of l) = Some s1" "\<forall>x. x \<noteq> ?m \<longrightarrow> s1 x = s x"
    "\<And>s2. \<forall>x \<in> addrs (inorder r). s2 x = s1 x \<Longrightarrow> tree_in s2 ?m l \<Longrightarrow> tree_in s2 ?a (graft r l)"
    using graft_in [OF f(4) r f(7) refl, of d l] by blast
  have "tree_in s1 ?a l = tree_in s ?a l" using s1(2) ml by (intro tree_in_cong) metis
  then obtain s2 where s2: "set_rel s1 (root_of l) PARENT (Some ?m) = Some s2" "tree_in s2 ?m l"
      "\<forall>x. x \<notin> addrs (inorder l) \<longrightarrow> s2 x = s1 x" using reparent [OF _ l f(6)] f(3) by blast
  have g: "tree_in s2 ?a (graft r l)" using s2(2,3) f(10) by (intro s1(3)) blast+
  have al: "?a \<notin> addrs (inorder l)" "?a \<notin> addrs (inorder r)" using f(9) by blast+
  then have sa: "s2 ?a = Some \<lparr>tdata_of = snd e, relatives = rels (Some (par d c)) (root_of l) (root_of r)\<rparr>"
    "s1 ?a = Some \<lparr>tdata_of = snd e, relatives = rels (Some (par d c)) (root_of l) (root_of r)\<rparr>"
    using s2(3) s1(2) ma f(2) by (metis, metis)
  let ?s3 = "s2(?a \<mapsto> \<lparr>tdata_of = snd e, relatives = rels (Some (par d c)) None (root_of r)\<rparr>)"
  have "set_rel s2 (Some ?a) LEFT None = Some ?s3" using sa(1) by simp
  moreover have "tree_in ?s3 ?a (graft r l)" using g al by (subst tree_in_upd) (auto simp: image_Un)
  moreover have "?s3 x = s x" if "x \<noteq> ?a" "x \<notin> addrs (inorder l)" "x \<notin> addrs (inorder r)" for x
  proof -
    have "x \<noteq> ?m" using that(3) mr by metis
    then show ?thesis using that s2(3) s1(2) by simp
  qed
  moreover have "rel s1 (Some ?a) LEFT = Some (root_of l)" "rel ?s3 (Some ?a) RIGHT = Some (root_of r)"
    "rel ?s3 (Some ?a) PARENT = Some (Some (par d c))" using sa(2) by simp_all
  ultimately show ?thesis using next' s1(1) s2(1) by blast
qed

lemma RemoveWithTwoSons_spec:
  assumes at: "tree_at s d b (plug c \<langle>l, e, r\<rangle>)" and l: "l \<noteq> \<langle>\<rangle>" and r: "r \<noteq> \<langle>\<rangle>"
  shows "\<exists>s'. RemoveWithTwoSons s (Some (fst e)) = Some s' \<and> removed s d b c l e r s'"
proof -
  note f = node_in_ctx [OF at]
  have g: "graft r l \<noteq> \<langle>\<rangle>" "root_of (graft r l) = root_of r" "distinct (map fst (inorder (graft r l)))"
  proof -
    show "graft r l \<noteq> \<langle>\<rangle>" using r by (cases r) simp_all
    show "distinct (map fst (inorder (graft r l)))" using f(6,7,10) by simp
  qed (rule root_of_graft [OF r])
  obtain m s1 s2 s3 where h: "BSTIterNext s (Some (fst e)) = Some (Some m)"
    "set_rel s (Some m) LEFT (root_of l) = Some s1" "rel s1 (Some (fst e)) LEFT = Some (root_of l)"
    "set_rel s1 (root_of l) PARENT (Some m) = Some s2" "set_rel s2 (Some (fst e)) LEFT None = Some s3"
    "rel s3 (Some (fst e)) RIGHT = Some (root_of r)" "rel s3 (Some (fst e)) PARENT = Some (Some (par d c))"
    "tree_in s3 (fst e) (graft r l)"
    "\<forall>x. x \<noteq> fst e \<longrightarrow> x \<notin> addrs (inorder l) \<longrightarrow> x \<notin> addrs (inorder r) \<longrightarrow> s3 x = s x"
    using hang_left [OF at l r] by blast
  obtain s4 where s4: "set_rel s3 (root_of r) PARENT (Some (par d c)) = Some s4" "tree_in s4 (par d c) (graft r l)"
      "\<forall>x. x \<notin> addrs (inorder (graft r l)) \<longrightarrow> s4 x = s3 x"
    using reparent [OF h(8) g(1,3)] g(2) by metis
  have fr: "s4 x = s x" if "x \<noteq> fst e" "x \<notin> addrs (inorder l)" "x \<notin> addrs (inorder r)" for x
    using that h(9) s4(3) by (simp add: image_Un)
  have "ctx_in s4 d b c (Some (fst e)) = ctx_in s d b c (Some (fst e))"
  proof (rule ctx_in_cong)
    fix x assume x: "x \<in> insert d (addrs (before c) \<union> addrs (after c))"
    have "x \<noteq> fst e" using x f(5) by auto
    then show "s4 x = s x" using x f(9) by (intro fr) blast+
  qed
  then obtain s' where s': "(do { pr \<leftarrow> rel s4 (Some (par d c)) RIGHT;
        s \<leftarrow> (if Some (fst e) = pr then set_rel s4 (Some (par d c)) RIGHT (root_of r) else set_rel s4 (Some (par d c)) LEFT (root_of r));
        Some (free_node s (Some (fst e))) }) = Some s'"
      "ctx_in s' d b c (root_of r)" "s' (fst e) = None" "\<forall>x. x \<noteq> fst e \<longrightarrow> x \<noteq> par d c \<longrightarrow> s' x = s4 x"
    using unlink [OF _ f(5), of s4 b "root_of r"] f(1) by blast
  have "rel s (Some (fst e)) LEFT = Some (root_of l)" using f(2) by simp
  then have "RemoveWithTwoSons s (Some (fst e)) = Some s'"
    using s'(1) s4(1) h by (simp add: RemoveWithTwoSons_def del: rel_Some set_rel_Some)
  moreover have "tree_in s' (par d c) (graft r l) = tree_in s4 (par d c) (graft r l)"
  proof (rule tree_in_cong)
    fix x assume "x \<in> addrs (inorder (graft r l))"
    then have "x \<in> addrs (inorder l) \<union> addrs (inorder r)" by (simp add: image_Un)
    then show "s' x = s4 x" using s'(4) node_not_par(3) [OF at] by blast
  qed
  then have "removed s d b c l e r s'"
    using s'(2-4) s4(2) g(2) fr by (intro removedI [OF at]) simp_all
  ultimately show ?thesis by blast
qed

lemma BSTRemove_node:
  assumes at: "tree_at s d b (plug c \<langle>l, e, r\<rangle>)"
  shows "\<exists>s'. BSTRemove s (Some (fst e)) = Some (snd e, s') \<and> removed s d b c l e r s'"
proof -
  note f = node_in_ctx [OF at]
  have i: "inorder (plug c \<langle>l, e, r\<rangle>) = (before c @ inorder l) @ e # (inorder r @ after c)" by simp
  have "BSTGetData s (Some (fst e)) = Some (snd e)" using f(2) by (simp add: BSTGetData_def node_at_def)
  moreover have "rel s (Some (fst e)) PARENT = Some (Some (par d c))" "rel s (Some (fst e)) LEFT = Some (root_of l)"
    "rel s (Some (fst e)) RIGHT = Some (root_of r)" using f(2) by simp_all
  ultimately have rem: "BSTRemove s (Some (fst e)) = do {
      s \<leftarrow> (if l = \<langle>\<rangle> then if r = \<langle>\<rangle> then RemoveWithNoSons s (Some (fst e)) else RemoveWithRightSon s (Some (fst e))
           else if r = \<langle>\<rangle> then RemoveWithLeftSon s (Some (fst e)) else RemoveWithTwoSons s (Some (fst e)));
      Some (snd e, s) }"
    by (cases l; cases r) (simp_all add: BSTRemove_def GetNumOfSons_def del: rel_Some)
  show ?thesis
    using at RemoveWithNoSons_spec [of s d b c e] RemoveWithRightSon_spec [of s d b c e r]
      RemoveWithLeftSon_spec [of s d b c l e] RemoveWithTwoSons_spec [of s d b c l e r]
    unfolding rem by (cases "l = \<langle>\<rangle>"; cases "r = \<langle>\<rangle>") auto
qed

text \<open>Removal by position; the data of the dummy is not changed.\<close>

lemma BSTRemove_spec:
  assumes "tree_at s d b t" "inorder t = xs @ e # ys"
  shows "\<exists>s' t'. BSTRemove s (Some (fst e)) = Some (snd e, s') \<and> tree_at s' d b t' \<and> inorder t' = xs @ ys \<and>
    s' (fst e) = None \<and> (\<forall>x. x \<notin> insert d (addrs (inorder t)) \<longrightarrow> s' x = s x)"
proof -
  obtain c l r where t: "t = plug c \<langle>l, e, r\<rangle>" "xs = before c @ inorder l" "ys = inorder r @ after c"
    using at_position [OF assms(2)] by metis
  obtain s' where "BSTRemove s (Some (fst e)) = Some (snd e, s')" "removed s d b c l e r s'"
    using BSTRemove_node assms(1) t(1) by blast
  then show ?thesis using t by (intro exI [of _ s'] exI [of _ "plug c (graft r l)"]) (simp add: removed_def)
qed

text \<open>After the first element is removed, the tree still begins at the freed node.\<close>

lemma BSTRemove_first:
  assumes "tree_at s (dummy_root T) b t" "begins (dummy_root T) b t" "inorder t = e # ys"
  shows "\<exists>s'. BSTRemove s (Some (fst e)) = Some (snd e, s') \<and> BSTBegin s' T = Some (Some (fst e)) \<and>
    s' (fst e) = None \<and> BSTSize s' T = None"
proof -
  obtain s' t' where s': "BSTRemove s (Some (fst e)) = Some (snd e, s')" "tree_at s' (dummy_root T) b t'" "s' (fst e) = None"
    using BSTRemove_spec [OF assms(1), of "[]" e ys] assms(3) by auto
  have bg: "BSTBegin s' T = Some (Some (fst e))"
    using s'(2) assms(2,3) by (simp add: tree_at_def begins_def BSTBegin_def as_iter_def)
  have "dummy_root T \<noteq> fst e" using s'(2,3) by (auto simp: tree_at_def)
  then have "BSTSize s' T = None"
    using bg s'(3) by (simp add: BSTSize_def size_loop.simps [of s' T "Some (fst e)"] BSTEnd_def BSTIterNext_def)
  then show ?thesis using s' bg by blast
qed

section \<open>Destruction\<close>



section \<open>Ordered trees\<close>

context key_comparison
begin

text \<open>With a comparison by a key, the order of the keys is what the insertion needs.\<close>

lemma keys_sorted_wrt:
  "sorted (map (\<lambda>e. key (snd e)) es) \<Longrightarrow> sorted_wrt (\<lambda>x y. 0 < cmp (snd x) v \<longrightarrow> 0 < cmp (snd y) v) es"
  by (induction es) (auto simp: cmp_greater intro: order_less_le_trans)

lemma sorted_insertion:
  assumes "sorted (map (\<lambda>e. key (snd e)) es)"
  shows "sorted (map (\<lambda>e. key (snd e)) (takeWhile (\<lambda>e. \<not> 0 < cmp (snd e) v) es @ (a, v) # dropWhile (\<lambda>e. \<not> 0 < cmp (snd e) v) es))"
  using assms
proof (induction es)
  case (Cons e es)
  show ?case
  proof (cases "0 < cmp (snd e) v")
    case True
    then have "key v \<le> key (snd x)" if "x \<in> set (e # es)" for x
      using that Cons.prems by (auto simp: cmp_greater)
    then show ?thesis using Cons.prems True by simp
  next
    case False
    have le: "key (snd e) \<le> key (snd x)" if "x \<in> set (takeWhile (\<lambda>e. \<not> 0 < cmp (snd e) v) es @ (a, v) # dropWhile (\<lambda>e. \<not> 0 < cmp (snd e) v) es)" for x
      using that Cons.prems False by (auto simp: cmp_greater not_less dest: set_takeWhileD set_dropWhileD)
    show ?thesis using Cons False le [of "(a, v)"] le by auto
  qed
qed simp

end

text \<open>A tree that the functions can use: linked in the store, ordered by the keys, and with the dummy
  pointing to the first element.\<close>

definition search_tree_at :: "('d tdata \<Rightarrow> int) \<Rightarrow> 'd tstore \<Rightarrow> ('d, 'p) binary_search_tree \<Rightarrow> 'd atree \<Rightarrow> bool" where
  "search_tree_at key s T t \<longleftrightarrow> (\<exists>b. tree_at s (dummy_root T) b t \<and> (t \<noteq> \<langle>\<rangle> \<longrightarrow> begins (dummy_root T) b t)) \<and>
     sorted (map (\<lambda>e. key (snd e)) (inorder t))"

lemma BSTInsert_spec:
  assumes "key_comparison (\<lambda>x y. compare T x y (params T)) key" "search_tree_at key s T t"
    "new \<notin> insert (dummy_root T) (addrs (inorder t))"
  shows "\<exists>s' t'. BSTInsert s (Some new) T v = Some (Some new, s') \<and> search_tree_at key s' T t' \<and> t' \<noteq> \<langle>\<rangle> \<and>
    inorder t' = takeWhile (\<lambda>e. key (snd e) \<le> key v) (inorder t) @ (new, v) # dropWhile (\<lambda>e. key (snd e) \<le> key v) (inorder t) \<and>
    (\<forall>x. x \<notin> insert new (insert (dummy_root T) (addrs (inorder t))) \<longrightarrow> s' x = s x)"
proof -
  have K: "(\<lambda>e :: addr \<times> 'a tdata. \<not> 0 < compare T (snd e) v (params T)) = (\<lambda>e. key (snd e) \<le> key v)"
    using key_comparison.cmp_greater [OF assms(1)] by (simp add: not_less)
  let ?d = "dummy_root T"
  obtain b where b: "tree_at s ?d b t" "t \<noteq> \<langle>\<rangle> \<longrightarrow> begins ?d b t" and so: "sorted (map (\<lambda>e. key (snd e)) (inorder t))"
    using assms(2) by (auto simp: search_tree_at_def)
  note so' = key_comparison.sorted_insertion [OF assms(1) so, of v new, unfolded K]
  show ?thesis
  proof (cases "t = \<langle>\<rangle>")
    case True
    have "compare T v v (params T) = 0" using key_comparison.cmp_zero [OF assms(1)] by simp
    then obtain s' where "BSTInsert s (Some new) T v = Some (Some new, s')" "tree_at s' ?d (IterTo new) \<langle>\<langle>\<rangle>, (new, v), \<langle>\<rangle>\<rangle>"
        "\<forall>a. a \<notin> {new, ?d} \<longrightarrow> s' a = s a"
      using BSTInsert_empty [of s T b new v] b(1) True assms(3) by auto
    then show ?thesis using True
      by (intro exI [of _ s'] exI [of _ "\<langle>\<langle>\<rangle>, (new, v), \<langle>\<rangle>\<rangle>"]) (auto simp: search_tree_at_def begins_def)
  next
    case False
    obtain s' b' t' where "BSTInsert s (Some new) T v = Some (Some new, s')" "tree_at s' ?d b' t'" "begins ?d b' t'"
      and i: "inorder t' = takeWhile (\<lambda>e. key (snd e) \<le> key v) (inorder t) @ (new, v) # dropWhile (\<lambda>e. key (snd e) \<le> key v) (inorder t)"
      and "\<forall>a. a \<notin> insert new (insert ?d (addrs (inorder t))) \<longrightarrow> s' a = s a"
      using BSTInsert_node [OF b(1) _ False assms(3) key_comparison.keys_sorted_wrt [OF assms(1) so], of v] b(2) False
      unfolding K by blast
    moreover have "t' \<noteq> \<langle>\<rangle>" using i by auto
    ultimately show ?thesis using so' unfolding i [symmetric]
      by (intro exI [of _ s'] exI [of _ t']) (auto simp: search_tree_at_def i)
  qed
qed

text \<open>C18. Insertion into an ordered search tree of the store puts the new element behind all elements whose
  key is not larger and before the others, keeps the tree linked and ordered, keeps the dummy's pointer to
  the first element and leaves all other nodes of the store alone; without memory it returns the end and
  changes nothing.\<close>

theorem BSTInsert_ordered:
  assumes "key_comparison (\<lambda>x y. compare T x y (params T)) key" "search_tree_at key s T t"
    "new \<notin> insert (dummy_root T) (addrs (inorder t))"
  shows "BSTInsert s None T v = Some (BSTEnd T, s) \<and>
    (\<exists>s' t'. BSTInsert s (Some new) T v = Some (Some new, s') \<and> search_tree_at key s' T t' \<and>
      inorder t' = takeWhile (\<lambda>e. key (snd e) \<le> key v) (inorder t) @ (new, v) # dropWhile (\<lambda>e. key (snd e) \<le> key v) (inorder t) \<and>
      BSTSize s' T = Some (size t + 1) \<and>
      (\<forall>x. x \<notin> {new, dummy_root T} \<union> addrs (inorder t) \<longrightarrow> s' x = s x))"
proof -
  obtain s' t' where s': "BSTInsert s (Some new) T v = Some (Some new, s')" "search_tree_at key s' T t'" "t' \<noteq> \<langle>\<rangle>"
    and i: "inorder t' = takeWhile (\<lambda>e. key (snd e) \<le> key v) (inorder t) @ (new, v) # dropWhile (\<lambda>e. key (snd e) \<le> key v) (inorder t)"
    and fr: "\<forall>x. x \<notin> insert new (insert (dummy_root T) (addrs (inorder t))) \<longrightarrow> s' x = s x"
    using BSTInsert_spec [OF assms] by blast
  have "length (takeWhile P xs) + length (dropWhile P xs) = length xs" for P and xs :: "(addr \<times> 'a tdata) list"
    by (metis length_append takeWhile_dropWhile_id)
  then have "length (inorder t') = length (inorder t) + 1" unfolding i by simp
  moreover obtain b where "tree_at s' (dummy_root T) b t'" "begins (dummy_root T) b t'"
    using s'(2,3) by (auto simp: search_tree_at_def)
  note BSTSize_spec [OF this]
  ultimately have "BSTSize s' T = Some (size t + 1)" by simp
  then show ?thesis using s'(1,2) i fr by (auto simp: BSTInsert_def)
qed

text \<open>A comparison of integers and a tree of three elements.\<close>

fun int_key :: "int tdata \<Rightarrow> int" where
  "int_key (Data x) = x"
| "int_key _ = 0"

definition bst_example :: "(int, unit) binary_search_tree" where
  "bst_example = \<lparr>compare = (\<lambda>x y _. int_key x - int_key y), params = None, dummy_root = 0\<rparr>"

definition store_example :: "int tstore" where
  "store_example = [0 \<mapsto> \<lparr>tdata_of = IterTo 2, relatives = rels None (Some 1) None\<rparr>,
     1 \<mapsto> \<lparr>tdata_of = Data 20, relatives = rels (Some 0) (Some 2) (Some 3)\<rparr>,
     2 \<mapsto> \<lparr>tdata_of = Data 10, relatives = rels (Some 1) None None\<rparr>,
     3 \<mapsto> \<lparr>tdata_of = Data 30, relatives = rels (Some 1) None None\<rparr>]"

definition tree_example :: "int atree" where
  "tree_example = \<langle>\<langle>\<langle>\<rangle>, (2, Data 10), \<langle>\<rangle>\<rangle>, (1, Data 20), \<langle>\<langle>\<rangle>, (3, Data 30), \<langle>\<rangle>\<rangle>\<rangle>"

interpretation int_tree: key_comparison "\<lambda>x y. compare bst_example x y (params bst_example)" int_key
  by unfold_locales (auto simp: bst_example_def)

lemma tree_example_at:
  "tree_at store_example (dummy_root bst_example) (IterTo 2) tree_example"
  "begins (dummy_root bst_example) (IterTo 2) tree_example"
  "search_tree_at int_key store_example bst_example tree_example"
  by (auto simp: tree_at_def begins_def search_tree_at_def bst_example_def store_example_def tree_example_def)

theorem BSTInsert_ordered_witness:
  "\<exists>s' t'. BSTInsert store_example (Some 7) bst_example (Data 15) = Some (Some 7, s') \<and>
     search_tree_at int_key s' bst_example t' \<and>
     inorder t' = [(2, Data 10), (7, Data 15), (1, Data 20), (3, Data 30)] \<and> BSTSize s' bst_example = Some 4"
proof -
  have "7 \<notin> insert (dummy_root bst_example) (addrs (inorder tree_example))"
    by (simp add: bst_example_def tree_example_def)
  from BSTInsert_ordered [OF int_tree.key_comparison_axioms tree_example_at(3) this, of "Data 15"]
  show ?thesis by (auto simp: tree_example_def)
qed

text \<open>C19. Removing the element at an iterator returns its data, frees its node and leaves a linked tree with
  the other elements in their order, whatever the shape around the node is; nothing outside the tree
  changes. The pointer of the dummy to the first element is not changed: it is right afterwards exactly
  if the removed element was not the first.\<close>

theorem BSTRemove_correct:
  assumes "tree_at s (dummy_root T) b t" "begins (dummy_root T) b t" "inorder t = xs @ e # ys"
  shows "\<exists>s' t'. BSTRemove s (Some (fst e)) = Some (snd e, s') \<and> tree_at s' (dummy_root T) b t' \<and>
    inorder t' = xs @ ys \<and> s' (fst e) = None \<and>
    (\<forall>x. x \<notin> insert (dummy_root T) (addrs (inorder t)) \<longrightarrow> s' x = s x) \<and>
    (begins (dummy_root T) b t' \<longleftrightarrow> xs \<noteq> [])"
proof -
  obtain s' t' where s': "BSTRemove s (Some (fst e)) = Some (snd e, s')" "tree_at s' (dummy_root T) b t'"
    "inorder t' = xs @ ys" "s' (fst e) = None" "\<forall>x. x \<notin> insert (dummy_root T) (addrs (inorder t)) \<longrightarrow> s' x = s x"
    using BSTRemove_spec [OF assms(1,3)] by blast
  have "fst e \<noteq> nxt (dummy_root T) ys" using assms(1,3) by (cases ys) (auto simp: tree_at_def)
  then have "begins (dummy_root T) b t' \<longleftrightarrow> xs \<noteq> []"
    using assms(2,3) s'(3) by (cases xs) (auto simp: begins_def)
  then show ?thesis using s' by blast
qed

theorem BSTRemove_correct_witness:
  "\<exists>s' t'. BSTRemove store_example (Some 1) = Some (Data 20, s') \<and> inorder t' = [(2, Data 10), (3, Data 30)] \<and>
     tree_at s' (dummy_root bst_example) (IterTo 2) t' \<and> begins (dummy_root bst_example) (IterTo 2) t'"
  using BSTRemove_correct [OF tree_example_at(1,2), of "[(2, Data 10)]" "(1, Data 20)" "[(3, Data 30)]"]
  by (auto simp: tree_example_def)



end
