(* ===== verification/KeySorts.thy ===== *)
theory KeySorts
  imports Sorts "HOL-Library.Signed_Division"
begin

text \<open>
  The rest of \<open>ds/utils/sorts/sorts.c\<close>: counting sort by a key, radix sort on it, and the two binary
  searches. An \<open>int\<close> that overflows and an access outside an array are faults. A counting sort is shown
  to be the stable sort by its key, the radix sort a sort of non-negative numbers.
\<close>

section \<open>Counting sort and radix sort\<close>

text \<open>The conversion of a \<open>size_t\<close> to \<open>ssize_t\<close>.\<close>

definition ssize :: "nat \<Rightarrow> int" where
  "ssize n = (if n < 2 ^ 63 then int n else int n - 2 ^ 64)"

text \<open>The division is by a \<open>size_t\<close>: the number is converted to 64 unsigned bits and the quotient back.\<close>

definition GetKey :: "int \<Rightarrow> nat \<Rightarrow> int" where
  "GetKey num param =
     (if param = 0 then num
      else to_int32 (num mod 2 ^ 64 div int param) smod 10)"

partial_function (option) copy_loop ::
  "(int \<Rightarrow> nat \<Rightarrow> int) \<Rightarrow> nat \<Rightarrow> int list \<Rightarrow> nat \<Rightarrow> nat \<Rightarrow> int list \<Rightarrow> int \<Rightarrow> int \<Rightarrow> (int list \<times> int \<times> int) option" where
  "copy_loop get_key param arr len runner buffer mx mn =
     (if int runner < ssize len then do {
        a \<leftarrow> aget arr runner;
        buffer \<leftarrow> aset buffer runner a;
        let mx = (if mx > get_key a param then mx else get_key a param);
        let mn = (if mn < get_key a param then mn else get_key a param);
        copy_loop get_key param arr len (runner + 1) buffer mx mn
      } else Some (buffer, mx, mn))"

text \<open>An access to an array by an \<open>int\<close>.\<close>

definition int_get :: "'v list \<Rightarrow> int \<Rightarrow> 'v option" where
  "int_get arr i = (if 0 \<le> i then aget arr (nat i) else None)"

definition int_set :: "'v list \<Rightarrow> int \<Rightarrow> 'v \<Rightarrow> 'v list option" where
  "int_set arr i v = (if 0 \<le> i then aset arr (nat i) v else None)"

partial_function (option) count_loop ::
  "(int \<Rightarrow> nat \<Rightarrow> int) \<Rightarrow> nat \<Rightarrow> int list \<Rightarrow> nat \<Rightarrow> int \<Rightarrow> nat \<Rightarrow> int list \<Rightarrow> int list option" where
  "count_loop get_key param arr len offset runner digit_array =
     (if int runner < ssize len then do {
        a \<leftarrow> aget arr runner;
        i \<leftarrow> int32 (get_key a param + offset);
        d \<leftarrow> int_get digit_array i;
        d \<leftarrow> int32 (d + 1);
        digit_array \<leftarrow> int_set digit_array i d;
        count_loop get_key param arr len offset (runner + 1) digit_array
      } else Some digit_array)"

partial_function (option) sums_loop :: "int \<Rightarrow> nat \<Rightarrow> int list \<Rightarrow> int list option" where
  "sums_loop bound runner digit_array =
     (if int runner < bound then do {
        a \<leftarrow> aget digit_array runner;
        b \<leftarrow> aget digit_array (runner - 1);
        d \<leftarrow> int32 (a + b);
        digit_array \<leftarrow> aset digit_array runner d;
        sums_loop bound (runner + 1) digit_array
      } else Some digit_array)"

partial_function (option) place_loop ::
  "(int \<Rightarrow> nat \<Rightarrow> int) \<Rightarrow> nat \<Rightarrow> int list \<Rightarrow> int \<Rightarrow> int \<Rightarrow> int list \<Rightarrow> int list \<Rightarrow> int list option" where
  "place_loop get_key param buffer offset runner digit_array arr =
     (if 0 \<le> runner then do {
        b \<leftarrow> int_get buffer runner;
        curr \<leftarrow> int32 (get_key b param + offset);
        d \<leftarrow> int_get digit_array curr;
        i \<leftarrow> int32 (d - 1);
        arr \<leftarrow> int_set arr i b;
        digit_array \<leftarrow> int_set digit_array curr i;
        place_loop get_key param buffer offset (runner - 1) digit_array arr
      } else Some arr)"

text \<open>The first maximum and minimum are computed with \<open>GetKey\<close>, whatever the argument is. \<open>mem\<close> says
  whether the two allocations succeed; without them the array stays as it is.\<close>

definition CountingSort1 ::
  "bool \<times> bool \<Rightarrow> int list \<Rightarrow> nat \<Rightarrow> (int \<Rightarrow> nat \<Rightarrow> int) \<Rightarrow> nat \<Rightarrow> int list option" where
  "CountingSort1 mem arr len get_key param = do {
     a \<leftarrow> aget arr 0;
     let mx = GetKey a param;
     let mn = GetKey a param;
     if \<not> fst mem then Some arr
     else do {
       (buffer, mx, mn) \<leftarrow> copy_loop get_key param arr len 0 (replicate len 0) mx mn;
       n \<leftarrow> int32 (mx - mn);
       n \<leftarrow> int32 (n + 1);
       if \<not> snd mem then Some arr
       else do {
         let digit_array = replicate (nat n) 0;
         offset \<leftarrow> int32 (- mn);
         digit_array \<leftarrow> count_loop get_key param arr len offset 0 digit_array;
         digit_array \<leftarrow> sums_loop (mx - mn + 1) 1 digit_array;
         place_loop get_key param buffer offset (ssize (szsub len 1)) digit_array arr
       }
     }
   }"

definition CountingSort :: "bool \<times> bool \<Rightarrow> int list \<Rightarrow> nat \<Rightarrow> int list option" where
  "CountingSort mem arr len = CountingSort1 mem arr len GetKey 0"

partial_function (option) num_of_digit_loop :: "int \<Rightarrow> int \<Rightarrow> int option" where
  "num_of_digit_loop num cnt = (if num \<noteq> 0 then num_of_digit_loop (num sdiv 10) (cnt + 1) else Some cnt)"

definition GetNumOfDigit :: "int \<Rightarrow> int option" where
  "GetNumOfDigit num = num_of_digit_loop num 0"

partial_function (option) extrema_loop :: "int list \<Rightarrow> nat \<Rightarrow> nat \<Rightarrow> int \<Rightarrow> int \<Rightarrow> (int \<times> int) option" where
  "extrema_loop arr len runner mx mn =
     (if runner < len then do {
        a \<leftarrow> aget arr runner;
        extrema_loop arr len (runner + 1) (if mx > a then mx else a) (if mn < a then mn else a)
      } else Some (mx, mn))"

text \<open>\<open>mem\<close> answers the allocations of each pass.\<close>

partial_function (option) radix_loop ::
  "(nat \<Rightarrow> bool \<times> bool) \<Rightarrow> int list \<Rightarrow> nat \<Rightarrow> int \<Rightarrow> nat \<Rightarrow> int list option" where
  "radix_loop mem arr len max_digits ds =
     (if 0 < max_digits then do {
        arr \<leftarrow> CountingSort1 (mem ds) arr len GetKey ds;
        radix_loop mem arr len (max_digits - 1) (ds * 10 mod 2 ^ 64)
      } else Some arr)"

definition RadixSort :: "(nat \<Rightarrow> bool \<times> bool) \<Rightarrow> int list \<Rightarrow> nat \<Rightarrow> int list option" where
  "RadixSort mem arr len = do {
     a \<leftarrow> aget arr 0;
     (mx, mn) \<leftarrow> extrema_loop arr len 0 a a;
     d1 \<leftarrow> GetNumOfDigit mx;
     d2 \<leftarrow> GetNumOfDigit mn;
     radix_loop mem arr len (if d1 > d2 then d1 else d2) 1
   }"

section \<open>Binary search\<close>

text \<open>Pointers into the array are byte offsets. An element is read at an aligned offset inside the
  array; another offset is a fault.\<close>

definition read_at :: "'v list \<Rightarrow> nat \<Rightarrow> nat \<Rightarrow> 'v option" where
  "read_at arr sz p = (if p mod sz = 0 then aget arr (p div sz) else None)"

definition half :: "nat \<Rightarrow> nat \<Rightarrow> nat" where
  "half b sz = b div 2 - b div 2 mod sz"

partial_function (option) search_loop ::
  "('v \<Rightarrow> 'v \<Rightarrow> int) \<Rightarrow> 'v list \<Rightarrow> nat \<Rightarrow> 'v \<Rightarrow> nat \<Rightarrow> nat \<Rightarrow> nat \<Rightarrow> nat option" where
  "search_loop cmp_func arr sz data first mid last_p = do {
     m \<leftarrow> read_at arr sz mid;
     if cmp_func m data \<noteq> 0 \<and> first < mid then do {
       let (first, last_p) = (if 0 < cmp_func m data then (first, mid) else (mid, last_p));
       let mid = last_p - (last_p - first) div 2 - (last_p - first) div 2 mod sz;
       search_loop cmp_func arr sz data first mid last_p
     } else Some mid
   }"

definition BinarySearchIterative ::
  "'v list \<Rightarrow> ('v \<Rightarrow> 'v \<Rightarrow> int) \<Rightarrow> 'v \<Rightarrow> nat \<Rightarrow> nat \<Rightarrow> nat option option" where
  "BinarySearchIterative arr cmp_func data num_of_elements size_of_element = do {
     let bytes = num_of_elements * size_of_element;
     mid \<leftarrow> search_loop cmp_func arr size_of_element data 0 (half bytes size_of_element) bytes;
     m \<leftarrow> read_at arr size_of_element mid;
     if cmp_func data m \<noteq> 0 then Some None else Some (Some mid)
   }"

text \<open>The array of a recursive call starts at an offset.\<close>

partial_function (option) BinarySearchRecursive ::
  "'v list \<Rightarrow> nat \<Rightarrow> ('v \<Rightarrow> 'v \<Rightarrow> int) \<Rightarrow> 'v \<Rightarrow> nat \<Rightarrow> nat \<Rightarrow> nat option option" where
  "BinarySearchRecursive arr start cmp_func data num_of_elements size_of_element = do {
     let mid = start + half (num_of_elements * size_of_element) size_of_element;
     m \<leftarrow> read_at arr size_of_element mid;
     if cmp_func m data = 0 then Some (Some mid)
     else if num_of_elements = 1 then Some None
     else if 0 < cmp_func m data
     then BinarySearchRecursive arr start cmp_func data (num_of_elements div 2 + num_of_elements mod 2) size_of_element
     else BinarySearchRecursive arr mid cmp_func data (num_of_elements div 2 + num_of_elements mod 2) size_of_element
   }"

section \<open>Counting\<close>

lemma copy_loop_spec:
  "runner \<le> length arr \<Longrightarrow> length arr < 2 ^ 63 \<Longrightarrow> length buffer = length arr \<Longrightarrow> take runner buffer = take runner arr \<Longrightarrow>
   \<exists>hi lo. copy_loop get_key param arr (length arr) runner buffer mx mn = Some (arr, hi, lo) \<and>
     mx \<le> hi \<and> lo \<le> mn \<and> (\<forall>x \<in> set (drop runner arr). lo \<le> get_key x param \<and> get_key x param \<le> hi) \<and>
     hi \<in> insert mx ((\<lambda>x. get_key x param) ` set (drop runner arr)) \<and>
     lo \<in> insert mn ((\<lambda>x. get_key x param) ` set (drop runner arr))"
proof (induction "length arr - runner" arbitrary: runner buffer mx mn)
  case 0
  then show ?case by (subst copy_loop.simps) (simp add: ssize_def)
next
  case (Suc n)
  then have r: "runner < length arr" by simp
  let ?k = "get_key (arr ! runner) param"
  let ?mx = "if ?k < mx then mx else ?k" and ?mn = "if mn < ?k then mn else ?k"
  have d: "drop runner arr = arr ! runner # drop (runner + 1) arr" using r by (simp add: Cons_nth_drop_Suc)
  have "take (runner + 1) (buffer[runner := arr ! runner]) = take (runner + 1) arr"
    using Suc.prems r by (simp add: take_Suc_conv_app_nth)
  then obtain hi lo where h: "copy_loop get_key param arr (length arr) (runner + 1) (buffer[runner := arr ! runner]) ?mx ?mn = Some (arr, hi, lo)"
    "?mx \<le> hi" "lo \<le> ?mn" "\<forall>x \<in> set (drop (runner + 1) arr). lo \<le> get_key x param \<and> get_key x param \<le> hi"
    "hi \<in> insert ?mx ((\<lambda>x. get_key x param) ` set (drop (runner + 1) arr))"
    "lo \<in> insert ?mn ((\<lambda>x. get_key x param) ` set (drop (runner + 1) arr))"
  proof -
    have "n = length arr - (runner + 1)" using Suc.hyps(2) by simp
    from Suc.hyps(1) [OF this, of "buffer[runner := arr ! runner]" ?mx ?mn] show thesis
      using that r Suc.prems(2,3) \<open>take (runner + 1) _ = _\<close> by auto
  qed
  have "copy_loop get_key param arr (length arr) runner buffer mx mn = Some (arr, hi, lo)"
    using h(1) r Suc.prems by (subst copy_loop.simps) (simp add: ssize_def Let_def)
  moreover have "mx \<le> hi \<and> ?k \<le> hi \<and> lo \<le> mn \<and> lo \<le> ?k" using h(2,3) by (auto split: if_splits)
  ultimately show ?case using h(4-6) unfolding d by (intro exI [of _ hi] exI [of _ lo]) (auto split: if_splits)
qed

definition keyed :: "('a \<Rightarrow> int) \<Rightarrow> 'a list \<Rightarrow> int \<Rightarrow> 'a list" where
  "keyed k xs v = filter (\<lambda>x. k x = v) xs"

definition below :: "('a \<Rightarrow> int) \<Rightarrow> 'a list \<Rightarrow> int \<Rightarrow> nat" where
  "below k xs v = length (filter (\<lambda>x. k x < v) xs)"

lemma below_next: "below k xs (v + 1) = below k xs v + length (keyed k xs v)"
  by (induction xs) (auto simp: below_def keyed_def)

lemma below_le: "below k xs v \<le> length xs"
  by (simp add: below_def)

lemma keyed_le: "length (keyed k xs v) \<le> length xs"
  by (simp add: keyed_def)

lemma below_mono: "v \<le> w \<Longrightarrow> below k xs v \<le> below k xs w"
  by (induction xs) (auto simp: below_def)

text \<open>The first loop over the counters makes them the numbers of elements with each key.\<close>

lemma count_loop_spec:
  assumes "length arr < 2 ^ 31 - 1" "\<forall>x \<in> set arr. lo \<le> get_key x param \<and> get_key x param \<le> hi" "hi - lo + 1 < 2 ^ 31"
  shows "runner \<le> length arr \<Longrightarrow> length D = nat (hi - lo + 1) \<Longrightarrow>
    (\<forall>j < length D. D ! j = int (length (keyed (\<lambda>x. get_key x param) (take runner arr) (lo + int j)))) \<Longrightarrow>
    \<exists>D'. count_loop get_key param arr (length arr) (- lo) runner D = Some D' \<and> length D' = length D \<and>
      (\<forall>j < length D. D' ! j = int (length (keyed (\<lambda>x. get_key x param) arr (lo + int j))))"
proof (induction "length arr - runner" arbitrary: runner D)
  case 0
  then show ?case using assms(1) by (subst count_loop.simps) (simp add: ssize_def)
next
  case (Suc n)
  then have r: "runner < length arr" by simp
  let ?k = "get_key (arr ! runner) param" and ?t = "take runner arr"
  have k: "lo \<le> ?k" "?k \<le> hi" using assms(2) r by simp_all
  define i where "i = nat (?k - lo)"
  have i: "i < length D" "?k - lo = int i" "lo + int i = ?k" "nat (?k - lo) = i" using k Suc.prems(2) by (auto simp: i_def)
  let ?D = "D[i := D ! i + 1]"
  have di: "D ! i = int (length (keyed (\<lambda>x. get_key x param) ?t ?k))" using Suc.prems(3) i by simp
  then have "D ! i \<le> int (length arr)" using keyed_le [of "\<lambda>x. get_key x param" ?t ?k] r by simp
  then have i32: "int32 (?k - lo) = Some (?k - lo)" "int32 (D ! i + 1) = Some (D ! i + 1)"
    using k assms(1,3) di by (auto simp: int32_def)
  have next_D: "?D ! j = int (length (keyed (\<lambda>x. get_key x param) (take (runner + 1) arr) (lo + int j)))" if "j < length ?D" for j
    using that Suc.prems(3) i di r by (auto simp: take_Suc_conv_app_nth keyed_def nth_list_update)
  then obtain D' where D': "count_loop get_key param arr (length arr) (- lo) (runner + 1) ?D = Some D'" "length D' = length D"
    "\<forall>j < length D. D' ! j = int (length (keyed (\<lambda>x. get_key x param) arr (lo + int j)))"
  proof -
    have "n = length arr - (runner + 1)" using Suc.hyps(2) by simp
    from Suc.hyps(1) [OF this, of ?D] show thesis using that r Suc.prems(2) next_D by auto
  qed
  have "count_loop get_key param arr (length arr) (- lo) runner D = Some D'"
    using D'(1) r i i32 assms(1) by (subst count_loop.simps) (simp add: ssize_def int_get_def int_set_def)
  then show ?case using D' by auto
qed

text \<open>The second makes them the numbers of elements with at most each key.\<close>

lemma sums_loop_spec:
  assumes "length arr < 2 ^ 31 - 1" "\<forall>x \<in> set arr. lo \<le> k x"
  shows "0 < runner \<Longrightarrow> runner \<le> length D \<Longrightarrow>
    (\<forall>j < runner. D ! j = int (below k arr (lo + int j + 1))) \<Longrightarrow>
    (\<forall>j < length D. runner \<le> j \<longrightarrow> D ! j = int (length (keyed k arr (lo + int j)))) \<Longrightarrow>
    \<exists>D'. sums_loop (int (length D)) runner D = Some D' \<and> length D' = length D \<and>
      (\<forall>j < length D. D' ! j = int (below k arr (lo + int j + 1)))"
proof (induction "length D - runner" arbitrary: runner D)
  case 0
  then show ?case by (subst sums_loop.simps) simp
next
  case (Suc n)
  then have r: "runner < length D" by simp
  let ?D = "D[runner := D ! runner + D ! (runner - 1)]"
  have "D ! (runner - 1) = int (below k arr (lo + int runner))" "D ! runner = int (length (keyed k arr (lo + int runner)))"
    using Suc.prems r by (auto simp: of_nat_diff)
  then have v: "D ! runner + D ! (runner - 1) = int (below k arr (lo + int runner + 1))" by (simp add: below_next)
  then have i32: "int32 (D ! runner + D ! (runner - 1)) = Some (D ! runner + D ! (runner - 1))"
    using below_le [of k arr "lo + int runner + 1"] assms(1) by (simp add: int32_def)
  have "\<forall>j < runner + 1. ?D ! j = int (below k arr (lo + int j + 1))"
    using v Suc.prems(3) r by (auto simp: nth_list_update less_Suc_eq)
  moreover have "\<forall>j < length ?D. runner + 1 \<le> j \<longrightarrow> ?D ! j = int (length (keyed k arr (lo + int j)))"
    using Suc.prems(4) by auto
  moreover obtain D' where D': "sums_loop (int (length ?D)) (runner + 1) ?D = Some D'" "length D' = length ?D"
      "\<forall>j < length ?D. D' ! j = int (below k arr (lo + int j + 1))"
  proof -
    have "n = length ?D - (runner + 1)" using Suc.hyps(2) by simp
    from Suc.hyps(1) [OF this] show ?thesis using that r calculation by auto
  qed
  have "sums_loop (int (length D)) runner D = Some D'"
    using D'(1) r i32 Suc.prems(1) by (subst sums_loop.simps) simp
  then show ?case using D' by auto
qed

text \<open>The last loop fills the block of each key from behind.\<close>

lemma slice_upd_out: "i < off \<or> off + n \<le> i \<Longrightarrow> slice off n (xs[i := x]) = slice off n xs"
  by (auto simp: slice_def drop_update_swap)

lemma slice_upd_front: "i < length xs \<Longrightarrow> slice i (Suc n) (xs[i := x]) = x # slice (i + 1) n xs"
  by (simp add: slice_def flip: Cons_nth_drop_Suc)

lemma place_loop_spec:
  fixes arr :: "int list" and get_key :: "int \<Rightarrow> nat \<Rightarrow> int" and param :: nat
  defines "k \<equiv> \<lambda>x. get_key x param"
  assumes bounds: "length arr < 2 ^ 31 - 1" "\<forall>x \<in> set arr. lo \<le> k x \<and> k x \<le> hi" "hi - lo + 1 < 2 ^ 31"
  shows "m \<le> length arr \<Longrightarrow> length D = nat (hi - lo + 1) \<Longrightarrow> length A = length arr \<Longrightarrow>
    (\<forall>j < length D. D ! j = int (below k arr (lo + int j) + length (keyed k (take m arr) (lo + int j)))) \<Longrightarrow>
    (\<forall>v. slice (below k arr v + length (keyed k (take m arr) v)) (length (keyed k (drop m arr) v)) A = keyed k (drop m arr) v) \<Longrightarrow>
    \<exists>A'. place_loop get_key param arr (- lo) (int m - 1) D A = Some A' \<and> length A' = length arr \<and>
      (\<forall>v. slice (below k arr v) (length (keyed k arr v)) A' = keyed k arr v)"
proof (induction m arbitrary: D A)
  case 0
  then show ?case by (subst place_loop.simps) (simp add: keyed_def)
next
  case (Suc m)
  then have m: "m < length arr" by simp
  define x where "x = arr ! m"
  have k: "lo \<le> k x" "k x \<le> hi" using bounds(2) m by (simp_all add: x_def)
  define i where "i = nat (k x - lo)"
  have i: "i < length D" "lo + int i = k x" "nat (k x - lo) = i" using k Suc.prems(2) by (auto simp: i_def)
  define p where "p = below k arr (k x) + length (keyed k (take m arr) (k x))"
  have t: "take (Suc m) arr = take m arr @ [x]" and d: "drop m arr = x # drop (Suc m) arr"
    using m by (simp_all add: x_def take_Suc_conv_app_nth Cons_nth_drop_Suc)
  have di: "D ! i = int p + 1" using Suc.prems(4) i t by (simp add: p_def keyed_def)
  have all: "length (keyed k (take m arr) v) + length (keyed k (drop m arr) v) = length (keyed k arr v)" for v
    unfolding keyed_def by (metis append_take_drop_id filter_append length_append)
  have p: "below k arr (k x) \<le> p" "p < below k arr (k x + 1)"
    using all [of "k x"] d by (simp_all add: p_def below_next keyed_def)
  then have pl: "p < length arr" using below_le [of k arr "k x + 1"] by linarith
  let ?D = "D[i := int p]" and ?A = "A[p := x]"
  have "?D ! j = int (below k arr (lo + int j) + length (keyed k (take m arr) (lo + int j)))" if "j < length ?D" for j
    using that Suc.prems(4) i t by (auto simp: nth_list_update p_def keyed_def)
  moreover have "slice (below k arr v + length (keyed k (take m arr) v)) (length (keyed k (drop m arr) v)) ?A = keyed k (drop m arr) v" for v
  proof (cases "v = k x")
    case True
    then have "keyed k (drop m arr) v = x # keyed k (drop (Suc m) arr) v" "p = below k arr v + length (keyed k (take m arr) v)"
      "p + 1 = below k arr v + length (keyed k (take (Suc m) arr) v)"
      using d t by (simp_all add: keyed_def p_def)
    then show ?thesis using Suc.prems(5) slice_upd_front [of p A] pl Suc.prems(3) by (metis length_Cons)
  next
    case False
    have "keyed k (drop m arr) v = keyed k (drop (Suc m) arr) v" "keyed k (take (Suc m) arr) v = keyed k (take m arr) v"
      using d t False by (simp_all add: keyed_def)
    moreover have "p < below k arr v + length (keyed k (take m arr) v) \<or>
        below k arr v + length (keyed k (take m arr) v) + length (keyed k (drop m arr) v) \<le> p"
    proof (cases "v < k x")
      case True
      then have "below k arr (v + 1) \<le> below k arr (k x)" by (intro below_mono) simp
      then show ?thesis using all [of v] p(1) below_next [of k arr v] by linarith
    next
      case False
      then have "below k arr (k x + 1) \<le> below k arr v" using \<open>v \<noteq> k x\<close> by (intro below_mono) simp
      then show ?thesis using p(2) by linarith
    qed
    ultimately show ?thesis using Suc.prems(5) by (metis slice_upd_out)
  qed
  ultimately obtain A' where A': "place_loop get_key param arr (- lo) (int m - 1) ?D ?A = Some A'" "length A' = length arr"
      "\<forall>v. slice (below k arr v) (length (keyed k arr v)) A' = keyed k arr v"
    using Suc.IH [of ?D ?A] Suc.prems(2,3) m by auto
  have i32: "int32 (k x - lo) = Some (k x - lo)" "int32 (int p) = Some (int p)"
    using k bounds(1,3) pl by (auto simp: int32_def)
  have "place_loop get_key param arr (- lo) (int (Suc m) - 1) D A = Some A'"
    using A'(1) m i i32 di pl Suc.prems(3) k unfolding x_def k_def
    by (subst place_loop.simps) (simp add: int_get_def int_set_def)
  then show ?case using A'(2,3) by blast
qed

text \<open>A list whose blocks are those of the stable sort is the stable sort.\<close>

lemma sorted_blocks: "sorted (map k S) \<Longrightarrow> S = filter (\<lambda>x. k x < v) S @ keyed k S v @ filter (\<lambda>x. v < k x) S"
proof (induction S)
  case (Cons x S)
  consider "k x < v" | "k x = v" | "v < k x" by linarith
  then show ?case
  proof cases
    case 1
    then show ?thesis using Cons by (simp add: keyed_def)
  next
    case 2
    have "filter (\<lambda>y. k y < v) S = []" using Cons.prems 2 by (auto simp: filter_empty_conv)
    then show ?thesis using Cons 2 by (simp add: keyed_def)
  next
    case 3
    have "filter (\<lambda>y. k y < v) S = []" "keyed k S v = []" "filter (\<lambda>y. v < k y) S = S"
      using Cons.prems 3 by (auto simp: filter_empty_conv keyed_def filter_id_conv)
    then show ?thesis using 3 by (simp add: keyed_def)
  qed
qed (simp add: keyed_def)

lemma blocks_sort_key:
  assumes "length A = length arr" "\<forall>v. slice (below k arr v) (length (keyed k arr v)) A = keyed k arr v"
  shows "A = sort_key k arr"
proof (rule nth_equalityI)
  let ?S = "sort_key k arr"
  show "length A = length ?S" using assms(1) by simp
  fix i assume i: "i < length A"
  define v where "v = k (?S ! i)"
  have b: "length (filter (\<lambda>x. k x < v) ?S) = below k arr v"
  proof -
    have "mset (filter (\<lambda>x. k x < v) ?S) = mset (filter (\<lambda>x. k x < v) arr)" by simp
    then show ?thesis unfolding below_def by (rule mset_eq_length)
  qed
  have ke: "keyed k ?S v = keyed k arr v" by (simp add: keyed_def sort_key_stable del: filter_sort)
  have S: "?S = filter (\<lambda>x. k x < v) ?S @ keyed k arr v @ filter (\<lambda>x. v < k x) ?S"
    using sorted_blocks [of k ?S v] ke by simp
  define a where "a = filter (\<lambda>x. k x < v) ?S"
  define c where "c = filter (\<lambda>x. v < k x) ?S"
  have S': "?S = a @ keyed k arr v @ c" using S by (simp add: a_def c_def)
  have n1: "below k arr v \<le> i"
  proof (rule ccontr)
    assume "\<not> below k arr v \<le> i"
    then have "i < length a" using b by (simp add: a_def)
    then have "?S ! i \<in> set a" using S' by (metis nth_append nth_mem)
    then show False by (simp add: a_def v_def)
  qed
  have n2: "i < below k arr v + length (keyed k arr v)"
  proof (rule ccontr)
    assume "\<not> i < below k arr v + length (keyed k arr v)"
    then have "length (a @ keyed k arr v) \<le> i" using b by (simp add: a_def)
    then have "?S ! i = c ! (i - length (a @ keyed k arr v))" "i - length (a @ keyed k arr v) < length c"
      using S' i assms(1) by (metis append.assoc nth_append not_less, metis append.assoc length_append length_sort less_diff_conv2 add.commute)
    then have "?S ! i \<in> set c" by simp
    then show False by (simp add: c_def v_def)
  qed
  let ?j = "i - below k arr v"
  have "A ! i = slice (below k arr v) (length (keyed k arr v)) A ! ?j" using n1 n2 i by (simp add: slice_def)
  also have "\<dots> = keyed k arr v ! ?j" using assms(2) by simp
  also have "\<dots> = ?S ! i"
  proof -
    have "?j < length (keyed k arr v)" "length a = below k arr v" using n1 n2 b by (simp_all add: a_def less_diff_conv2)
    then show ?thesis using n1 by (subst S') (simp add: nth_append)
  qed
  finally show "A ! i = ?S ! i" .
qed

lemma szsub_pred: "0 < n \<Longrightarrow> n < 2 ^ 63 \<Longrightarrow> ssize (szsub n 1) = int n - 1"
  using szsub_ge [of 1 n] by (simp add: ssize_def of_nat_diff)

text \<open>Counting sort is the stable sort by the key, as long as the range of the keys fits an \<open>int\<close>.\<close>

lemma CountingSort1_spec:
  fixes arr :: "int list" and param :: nat
  defines "k \<equiv> \<lambda>x. GetKey x param"
  assumes "arr \<noteq> []" "length arr < 2 ^ 31 - 1" "\<forall>x \<in> set arr. \<forall>y \<in> set arr. k x - k y + 1 < 2 ^ 31"
    "\<forall>x \<in> set arr. - (2 ^ 31) < k x \<and> k x < 2 ^ 31"
  shows "CountingSort1 mem arr (length arr) GetKey param = Some (if fst mem \<and> snd mem then sort_key k arr else arr)"
proof (cases "fst mem")
  case True
  let ?a = "k (arr ! 0)"
  have a0: "aget arr 0 = Some (arr ! 0)" "arr ! 0 \<in> set arr" using assms(2) by simp_all
  obtain hi lo where c: "copy_loop GetKey param arr (length arr) 0 (replicate (length arr) 0) ?a ?a = Some (arr, hi, lo)"
    "?a \<le> hi" "lo \<le> ?a" "\<forall>x \<in> set arr. lo \<le> k x \<and> k x \<le> hi" "hi \<in> insert ?a (k ` set arr)" "lo \<in> insert ?a (k ` set arr)"
    using copy_loop_spec [of 0 arr "replicate (length arr) 0" GetKey param ?a ?a] assms(3) by (auto simp: k_def)
  have in_keys: "hi \<in> k ` set arr" "lo \<in> k ` set arr" using c(5,6) a0(2) by auto
  then have r: "hi - lo + 1 < 2 ^ 31" "- (2 ^ 31) < lo" using assms(4,5) by auto
  have lh: "lo \<le> hi" using c(2,3) by simp
  let ?N = "nat (hi - lo + 1)"
  have i32: "int32 (hi - lo) = Some (hi - lo)" "int32 (hi - lo + 1) = Some (hi - lo + 1)"
    using lh r by (auto simp: int32_def)
  have i32': "int32 (- lo) = Some (- lo)" using in_keys(2) assms(5) by (auto simp: int32_def)
  show ?thesis
  proof (cases "snd mem")
    case True
    have "\<exists>D. count_loop GetKey param arr (length arr) (- lo) 0 (replicate ?N 0) = Some D \<and> length D = ?N \<and>
        (\<forall>j < ?N. D ! j = int (length (keyed k arr (lo + int j))))"
      using count_loop_spec [of arr lo GetKey param hi 0 "replicate ?N 0"] assms(3) c(4) r(1)
      by (simp add: k_def keyed_def)
    then obtain D where D: "count_loop GetKey param arr (length arr) (- lo) 0 (replicate ?N 0) = Some D" "length D = ?N"
      "\<forall>j < ?N. D ! j = int (length (keyed k arr (lo + int j)))" by blast
    have "below k arr lo = 0" using c(4) by (auto simp: below_def filter_empty_conv)
    then have "D ! 0 = int (below k arr (lo + 1))" using D(3) lh by (simp add: below_next)
    moreover have "Suc 0 \<le> nat (hi - lo + 1)" using lh by linarith
    ultimately obtain E where E: "sums_loop (int (length D)) 1 D = Some E" "length E = ?N"
      "\<forall>j < ?N. E ! j = int (below k arr (lo + int j + 1))"
      using sums_loop_spec [of arr lo k 1 D] assms(3) c(4) D(2,3) lh by auto
    obtain A where A: "place_loop GetKey param arr (- lo) (int (length arr) - 1) E arr = Some A" "length A = length arr"
      "\<forall>v. slice (below k arr v) (length (keyed k arr v)) A = keyed k arr v"
      using place_loop_spec [of arr lo GetKey param hi "length arr" E arr] assms(3) c(4) r(1) E(2,3)
      by (auto simp: k_def below_next keyed_def slice_def)
    have "int (length D) = hi - lo + 1" using D(2) lh by simp
    moreover have "ssize (szsub (length arr) 1) = int (length arr) - 1" using assms(2,3) by (intro szsub_pred) auto
    ultimately have "CountingSort1 mem arr (length arr) GetKey param = Some A"
      using \<open>fst mem\<close> True a0(1) c(1) i32 i32' D(1) E(1) A(1) by (simp add: CountingSort1_def k_def Let_def)
    then show ?thesis using blocks_sort_key [OF A(2,3)] \<open>fst mem\<close> True by simp
  next
    case False
    then show ?thesis using True a0(1) c(1) i32 by (simp add: CountingSort1_def k_def Let_def)
  qed
next
  case False
  then show ?thesis using assms(2) by (simp add: CountingSort1_def)
qed

section \<open>Digits\<close>

lemma smod_nonneg: "0 \<le> x \<Longrightarrow> x smod 10 = x mod (10 :: int)"
  by (simp add: signed_modulo_int_def sgn_if)

lemma sdiv_nonneg: "0 \<le> x \<Longrightarrow> x sdiv 10 = x div (10 :: int)"
  by (simp add: signed_divide_int_def sgn_if)

lemma GetKey_digit: "0 \<le> x \<Longrightarrow> x < 2 ^ 31 \<Longrightarrow> GetKey x (10 ^ d) = x div 10 ^ d mod 10"
proof -
  assume x: "0 \<le> x" "x < 2 ^ 31"
  have "x div 10 ^ d \<le> x" using x(1) by (rule order_trans [OF zdiv_mono2 [of x 1]]) simp_all
  then have "to_int32 (x div 10 ^ d) = x div 10 ^ d" using x by (intro to_int32_ok) (auto simp: pos_imp_zdiv_nonneg_iff)
  then show ?thesis using x by (simp add: GetKey_def smod_nonneg pos_imp_zdiv_nonneg_iff)
qed

lemma num_of_digit_loop_spec:
  "0 \<le> x \<Longrightarrow> x < 10 ^ m \<Longrightarrow> \<exists>n \<le> m. num_of_digit_loop x c = Some (c + int n) \<and> x < 10 ^ n"
proof (induction m arbitrary: x c)
  case 0
  then show ?case by (subst num_of_digit_loop.simps) simp
next
  case (Suc m)
  show ?case
  proof (cases "x = 0")
    case True
    then show ?thesis by (subst num_of_digit_loop.simps) (auto intro!: exI [of _ 0])
  next
    case False
    have "x < 10 * 10 ^ m" using Suc.prems(2) by simp
    then have "x div 10 < 10 ^ m" by linarith
    then obtain n where n: "n \<le> m" "num_of_digit_loop (x div 10) (c + 1) = Some (c + 1 + int n)" "x div 10 < 10 ^ n"
      using Suc.IH [of "x div 10" "c + 1"] Suc.prems(1) by (auto simp: pos_imp_zdiv_nonneg_iff)
    have "x < 10 ^ Suc n" using n(3) by simp
    moreover have "num_of_digit_loop x c = Some (c + int (Suc n))"
      using False n(2) Suc.prems(1) by (subst num_of_digit_loop.simps) (simp add: sdiv_nonneg)
    ultimately show ?thesis using n(1) by (intro exI [of _ "Suc n"]) simp
  qed
qed

text \<open>A stable sort by a further digit keeps the order of the lower ones.\<close>

lemma sorted_wrt_within:
  "(\<And>v. sorted (map f (filter (\<lambda>x. g x = v) S))) \<Longrightarrow> sorted_wrt (\<lambda>x y. g x = g y \<longrightarrow> f x \<le> f y) S"
proof (induction S)
  case (Cons x S)
  have "sorted (map f (filter (\<lambda>y. g y = v) S))" for v using Cons.prems [of v] by (cases "g x = v") simp_all
  moreover have "\<forall>y \<in> set S. g x = g y \<longrightarrow> f x \<le> f y" using Cons.prems [of "g x"] by auto
  ultimately show ?case using Cons.IH by simp
qed simp

lemma sorted_wrt_both:
  "sorted_wrt P xs \<Longrightarrow> sorted_wrt Q xs \<Longrightarrow> (\<And>x y. P x y \<Longrightarrow> Q x y \<Longrightarrow> R x y) \<Longrightarrow> sorted_wrt R xs"
  by (induction xs) auto

lemma sort_next_digit:
  fixes f g :: "int \<Rightarrow> int"
  assumes "sorted (map f xs)" "\<And>x. 0 \<le> f x \<and> f x < M"
  shows "sorted (map (\<lambda>x. M * g x + f x) (sort_key g xs))"
proof -
  have "sorted (map f (filter (\<lambda>x. g x = v) (sort_key g xs)))" for v
    using sorted_filter [OF assms(1), of "\<lambda>x. g x = v"] by (simp add: sort_key_stable del: filter_sort)
  then have "sorted_wrt (\<lambda>x y. g x = g y \<longrightarrow> f x \<le> f y) (sort_key g xs)" by (rule sorted_wrt_within)
  moreover have "sorted_wrt (\<lambda>x y. g x \<le> g y) (sort_key g xs)"
    using sorted_sort_key [of g xs] by (simp add: sorted_wrt_map)
  ultimately have "sorted_wrt (\<lambda>x y. M * g x + f x \<le> M * g y + f y) (sort_key g xs)"
  proof (rule sorted_wrt_both)
    fix x y assume "g x = g y \<longrightarrow> f x \<le> f y" "g x \<le> g y"
    then consider "g x = g y" "f x \<le> f y" | "g x + 1 \<le> g y" by linarith
    then show "M * g x + f x \<le> M * g y + f y"
    proof cases
      case 2
      have "0 < M" using assms(2) [of x] by linarith
      then have "M * (g x + 1) \<le> M * g y" using 2 by (intro mult_left_mono) simp_all
      then show ?thesis using assms(2) [of x] assms(2) [of y] by (simp add: algebra_simps)
    qed simp
  qed
  then show ?thesis by (simp add: sorted_wrt_map)
qed

lemma mod_next_digit: "10 ^ d * (x div 10 ^ d mod 10) + x mod 10 ^ d = x mod (10 :: int) ^ Suc d"
  using zmod_zmult2_eq [of 10 x "10 ^ d"] by (simp add: mult.commute)

lemma sort_key_eq:
  assumes "\<And>x. x \<in> set xs \<Longrightarrow> f x = g x"
  shows "sort_key f xs = sort_key g xs"
proof (rule properties_for_sort_key)
  show "mset (sort_key g xs) = mset xs" by simp
  show "sorted (map f (sort_key g xs))"
  proof -
    have "map f (sort_key g xs) = map g (sort_key g xs)" using assms by (intro map_cong) simp_all
    then show ?thesis by (simp only: sorted_sort_key)
  qed
  fix y assume "y \<in> set (sort_key g xs)"
  then have fg: "filter (\<lambda>x. f y = f x) zs = filter (\<lambda>x. g x = g y) zs" if "set zs = set xs" for zs
    using that assms by (intro filter_cong) auto
  show "filter (\<lambda>x. f y = f x) (sort_key g xs) = filter (\<lambda>x. f y = f x) xs"
    using fg [of xs] fg [of "sort_key g xs"] by (simp add: sort_key_stable del: filter_sort)
qed

lemma radix_loop_spec:
  assumes "\<forall>p. mem p = (True, True)"
  shows "arr \<noteq> [] \<Longrightarrow> length arr < 2 ^ 31 - 1 \<Longrightarrow> \<forall>x \<in> set arr. 0 \<le> x \<and> x < 2 ^ 31 \<Longrightarrow> d + m \<le> 10 \<Longrightarrow>
    sorted (map (\<lambda>x. x mod 10 ^ d) arr) \<Longrightarrow>
    \<exists>ys. radix_loop mem arr (length arr) (int m) (10 ^ d) = Some ys \<and> mset ys = mset arr \<and>
      sorted (map (\<lambda>x. x mod 10 ^ (d + m)) ys)"
proof (induction m arbitrary: arr d)
  case 0
  then show ?case by (subst radix_loop.simps) simp
next
  case (Suc m)
  let ?k = "\<lambda>x. GetKey x (10 ^ d)" and ?g = "\<lambda>x :: int. x div 10 ^ d mod 10"
  have k: "?k x = ?g x" if "x \<in> set arr" for x using that Suc.prems(3) by (intro GetKey_digit) auto
  have g: "0 \<le> ?g x" "?g x < 10" for x by simp_all
  have "CountingSort1 (mem (10 ^ d)) arr (length arr) GetKey (10 ^ d) = Some (sort_key ?k arr)"
  proof -
    have kg: "0 \<le> ?k x" "?k x < 10" if "x \<in> set arr" for x unfolding k [OF that] by (rule g)+
    have "- (2 ^ 31) < ?k x \<and> ?k x < 2 ^ 31" if "x \<in> set arr" for x using kg [OF that] by simp
    moreover have "?k x - ?k y + 1 < 2 ^ 31" if "x \<in> set arr" "y \<in> set arr" for x y
      using kg [OF that(1)] kg [OF that(2)] by simp
    ultimately show ?thesis using CountingSort1_spec [OF Suc.prems(1,2), of "10 ^ d" "mem (10 ^ d)"] assms by simp
  qed
  then have c: "CountingSort1 (mem (10 ^ d)) arr (length arr) GetKey (10 ^ d) = Some (sort_key ?g arr)"
    using sort_key_eq [of arr ?k ?g] k by simp
  let ?arr = "sort_key ?g arr"
  have "sorted (map (\<lambda>x. 10 ^ d * ?g x + x mod 10 ^ d) ?arr)"
    using Suc.prems(5) by (intro sort_next_digit) simp_all
  then have so: "sorted (map (\<lambda>x. x mod 10 ^ Suc d) ?arr)" by (simp only: mod_next_digit)
  have "(10 :: nat) ^ Suc d \<le> 10 ^ 10" using Suc.prems(4) by (intro power_increasing) simp_all
  then have ds: "(10 ^ d * 10) mod 2 ^ 64 = (10 :: nat) ^ Suc d" by simp
  have "?arr \<noteq> []" using Suc.prems(1) by (metis length_0_conv length_sort)
  moreover have "length ?arr < 2 ^ 31 - 1" using Suc.prems(2) by simp
  moreover have "\<forall>x \<in> set ?arr. 0 \<le> x \<and> x < 2 ^ 31" using Suc.prems(3) by (simp only: set_sort)
  moreover have "Suc d + m \<le> 10" using Suc.prems(4) by simp
  ultimately obtain ys where ys: "radix_loop mem ?arr (length ?arr) (int m) (10 ^ Suc d) = Some ys" "mset ys = mset ?arr"
    "sorted (map (\<lambda>x. x mod 10 ^ (Suc d + m)) ys)"
    using Suc.IH [OF _ _ _ _ so] by blast
  have "radix_loop mem arr (length arr) (int (Suc m)) (10 ^ d) = Some ys"
  proof -
    have "radix_loop mem arr (length arr) (int (Suc m)) (10 ^ d) =
        radix_loop mem ?arr (length arr) (int (Suc m) - 1) (10 ^ d * 10 mod 2 ^ 64)"
      by (subst radix_loop.simps) (simp only: c of_nat_0_less_iff zero_less_Suc if_True bind.bind_lunit)
    also have "int (Suc m) - 1 = int m" by simp
    finally show ?thesis using ys(1) by (simp only: ds length_sort)
  qed
  then show ?case using ys(2,3) by (intro exI [of _ ys]) simp
qed

lemma extrema_loop_spec:
  "runner \<le> length arr \<Longrightarrow> \<exists>hi lo. extrema_loop arr (length arr) runner mx mn = Some (hi, lo) \<and>
     mx \<le> hi \<and> lo \<le> mn \<and> (\<forall>x \<in> set (drop runner arr). lo \<le> x \<and> x \<le> hi) \<and>
     hi \<in> insert mx (set (drop runner arr)) \<and> lo \<in> insert mn (set (drop runner arr))"
proof (induction "length arr - runner" arbitrary: runner mx mn)
  case 0
  then show ?case by (subst extrema_loop.simps) simp
next
  case (Suc n)
  then have r: "runner < length arr" by simp
  let ?a = "arr ! runner"
  let ?mx = "if ?a < mx then mx else ?a" and ?mn = "if mn < ?a then mn else ?a"
  have d: "drop runner arr = ?a # drop (runner + 1) arr" using r by (simp add: Cons_nth_drop_Suc)
  have "n = length arr - (runner + 1)" using Suc.hyps(2) by simp
  from Suc.hyps(1) [OF this, of ?mx ?mn] r
  obtain hi lo where h: "extrema_loop arr (length arr) (runner + 1) ?mx ?mn = Some (hi, lo)" "?mx \<le> hi" "lo \<le> ?mn"
    "\<forall>x \<in> set (drop (runner + 1) arr). lo \<le> x \<and> x \<le> hi"
    "hi \<in> insert ?mx (set (drop (runner + 1) arr))" "lo \<in> insert ?mn (set (drop (runner + 1) arr))" by auto
  have "extrema_loop arr (length arr) runner mx mn = Some (hi, lo)" using h(1) r by (subst extrema_loop.simps) simp
  moreover have "mx \<le> hi \<and> ?a \<le> hi \<and> lo \<le> mn \<and> lo \<le> ?a" using h(2,3) by (auto split: if_splits)
  ultimately show ?case using h(4-6) unfolding d by (intro exI [of _ hi] exI [of _ lo]) (auto split: if_splits)
qed

lemma RadixSort_spec:
  assumes "arr \<noteq> []" "length arr < 2 ^ 31 - 1" "\<forall>x \<in> set arr. 0 \<le> x \<and> x < 2 ^ 31" "\<forall>p. mem p = (True, True)"
  shows "RadixSort mem arr (length arr) = Some (sort arr)"
proof -
  have a: "aget arr 0 = Some (arr ! 0)" "arr ! 0 \<in> set arr" using assms(1) by simp_all
  obtain hi lo where e: "extrema_loop arr (length arr) 0 (arr ! 0) (arr ! 0) = Some (hi, lo)"
    "\<forall>x \<in> set arr. lo \<le> x \<and> x \<le> hi" "hi \<in> set arr" "lo \<in> set arr"
    using extrema_loop_spec [of 0 arr "arr ! 0" "arr ! 0"] a(2) by auto
  obtain n where n: "n \<le> 10" "num_of_digit_loop hi 0 = Some (int n)" "hi < 10 ^ n"
    using num_of_digit_loop_spec [of hi 10 0] e(3) assms(3) by fastforce
  obtain n' where n': "n' \<le> 10" "num_of_digit_loop lo 0 = Some (int n')"
    using num_of_digit_loop_spec [of lo 10 0] e(4) assms(3) by fastforce
  define m where "m = max n n'"
  have m: "(if int n > int n' then int n else int n') = int m" "m \<le> 10" "n \<le> m" using n(1) n'(1) by (auto simp: m_def)
  have "sorted (map (\<lambda>x. 0 :: int) xs)" for xs :: "int list" by (induction xs) simp_all
  then obtain ys where ys: "radix_loop mem arr (length arr) (int m) 1 = Some ys" "mset ys = mset arr"
    "sorted (map (\<lambda>x. x mod 10 ^ m) ys)"
    using radix_loop_spec [OF assms(4,1-3), of 0 m] m(2) by auto
  have "(10 :: int) ^ n \<le> 10 ^ m" using m(3) by (intro power_increasing) simp_all
  then have "hi < 10 ^ m" using n(3) by linarith
  then have "x mod 10 ^ m = x" if "x \<in> set ys" for x
    using that mset_eq_setD [OF ys(2)] e(2) assms(3) by (intro mod_pos_pos_trivial) force+
  then have "map (\<lambda>x. x mod 10 ^ m) ys = ys" by (simp add: map_idI)
  then have "sort arr = ys" using ys(2,3) by (intro properties_for_sort) simp_all
  then show ?thesis using a(1) e(1) n(2) n'(2) m(1) ys(1) by (simp add: RadixSort_def GetNumOfDigit_def)
qed

text \<open>C23. Counting sort and radix sort return the sorted array, for an array that is not empty and has fewer than
  \<open>2 ^ 31 - 1\<close> elements: counting sort for numbers of type \<open>int\<close> other than \<open>INT_MIN\<close> (which it negates) with a range
  whose size fits an \<open>int\<close>, radix sort, when memory does not run out, for numbers that are not negative. Without
  memory counting sort leaves the array as it is.\<close>

theorem key_sorts_sort:
  assumes "arr \<noteq> []" "length arr < 2 ^ 31 - 1"
  shows "((\<forall>x \<in> set arr. - (2 ^ 31) < x \<and> x < 2 ^ 31) \<and> (\<forall>x \<in> set arr. \<forall>y \<in> set arr. x - y + 1 < 2 ^ 31) \<longrightarrow>
      CountingSort mem1 arr (length arr) = Some (if fst mem1 \<and> snd mem1 then sort arr else arr)) \<and>
    ((\<forall>x \<in> set arr. 0 \<le> x \<and> x < 2 ^ 31) \<and> (\<forall>p. mem p = (True, True)) \<longrightarrow>
      RadixSort mem arr (length arr) = Some (sort arr))"
proof (intro conjI impI)
  assume "(\<forall>x \<in> set arr. - (2 ^ 31) < x \<and> x < 2 ^ 31) \<and> (\<forall>x \<in> set arr. \<forall>y \<in> set arr. x - y + 1 < 2 ^ 31)"
  then show "CountingSort mem1 arr (length arr) = Some (if fst mem1 \<and> snd mem1 then sort arr else arr)"
    using CountingSort1_spec [OF assms, of 0 mem1] by (simp add: CountingSort_def GetKey_def)
qed (use RadixSort_spec [OF assms] in blast)

theorem key_sorts_sort_witness:
  "CountingSort (True, True) [3, - 2, 3, 0] 4 = Some [- 2, 0, 3, 3] \<and>
   RadixSort (\<lambda>_. (True, True)) [170, 45, 7, 45] 4 = Some [7, 45, 45, 170]"
proof
  have l: "length [3, - 2, 3, 0 :: int] = 4" "length [170, 45, 7, 45 :: int] = 4" by simp_all
  show "CountingSort (True, True) [3, - 2, 3, 0] 4 = Some [- 2, 0, 3, 3]"
    using conjunct1 [OF key_sorts_sort [of "[3, - 2, 3, 0]" "(True, True)"]] unfolding l by simp
  show "RadixSort (\<lambda>_. (True, True)) [170, 45, 7, 45] 4 = Some [7, 45, 45, 170]"
    using conjunct2 [OF key_sorts_sort [of "[170, 45, 7, 45]" "(True, True)" "\<lambda>_. (True, True)"]] unfolding l by simp
qed

text \<open>On an empty array both read its first cell; a negative number has no decimal digits for the radix
  sort, because the division is unsigned.\<close>

lemma CountingSort_empty: "CountingSort mem [] 0 = None"
  by (simp add: CountingSort_def CountingSort1_def)

text \<open>The offset is the smallest number negated, which overflows for the smallest \<open>int\<close>.\<close>

lemma CountingSort_INT_MIN: "CountingSort (True, True) [- (2 ^ 31)] 1 = None"
  by (simp add: CountingSort_def CountingSort1_def copy_loop.simps GetKey_def to_int32_def int32_def aget_def)

lemma RadixSort_empty: "RadixSort mem [] 0 = None"
  by (simp add: RadixSort_def)

lemma GetKey_negative: "GetKey (- 40) 10 = - 3 \<and> GetKey (- 39) 10 = - 3"
  by (simp add: GetKey_def to_int32_def signed_modulo_int_def)

section \<open>Searching\<close>

lemma half_mult: "0 < sz \<Longrightarrow> half (n * sz) sz = n div 2 * sz"
proof -
  assume sz: "0 < sz"
  have "n * sz div 2 div sz = n * sz div sz div 2" by (simp only: div_mult2_eq [symmetric] mult.commute)
  then have "n * sz div 2 div sz = n div 2" using sz by simp
  then show ?thesis by (metis half_def minus_mod_eq_div_mult)
qed

lemma read_at_mult: "0 < sz \<Longrightarrow> i < length arr \<Longrightarrow> read_at arr sz (i * sz) = Some (arr ! i)"
  by (simp add: read_at_def)

lemma next_mid:
  fixes sz f l :: nat
  assumes "even sz" "0 < sz" "f < l"
  shows "l * sz - (l * sz - f * sz) div 2 - (l * sz - f * sz) div 2 mod sz = (f + (l - f) div 2) * sz"
proof -
  obtain h where h: "sz = 2 * h" using assms(1) by blast
  define n where "n = l - f"
  have l: "l = f + n" unfolding n_def using assms(3) by linarith
  have "(l * sz - f * sz) div 2 = n * h" by (simp add: l h algebra_simps flip: diff_mult_distrib2)
  moreover have "n * h mod sz = n mod 2 * h" by (simp add: h mult_mod_left mult.commute)
  moreover have "n * h + n mod 2 * h + n div 2 * sz = n * sz"
  proof -
    obtain q r where q: "n div 2 = q" "n mod 2 = r" "n = 2 * q + r" by (metis mult_div_mod_eq)
    show ?thesis unfolding q(1,2) by (simp add: q(3) h algebra_simps)
  qed
  ultimately show ?thesis by (simp add: l n_def [symmetric] distrib_right)
qed

context key_comparison
begin

definition found_at :: "'v list \<Rightarrow> 'v \<Rightarrow> nat \<Rightarrow> nat \<Rightarrow> bool" where
  "found_at arr data sz p \<longleftrightarrow> (\<exists>i < length arr. p = i * sz \<and> key (arr ! i) = key data)"

lemma halving_loop_spec:
  assumes "even sz" "0 < sz" "sorted (map key arr)"
  shows "f < l \<Longrightarrow> l \<le> length arr \<Longrightarrow> (\<forall>i < length arr. key (arr ! i) = key data \<longrightarrow> f \<le> i \<and> i < l) \<Longrightarrow>
    \<exists>m < length arr. search_loop cmp arr sz data (f * sz) ((f + (l - f) div 2) * sz) (l * sz) = Some (m * sz) \<and>
      (key (arr ! m) = key data \<or> (\<forall>i < length arr. key (arr ! i) \<noteq> key data))"
proof (induction "l - f" arbitrary: f l rule: less_induct)
  case less
  let ?m = "f + (l - f) div 2"
  have m: "?m < length arr" "?m < l" using less.prems by auto
  have mono: "key (arr ! i) \<le> key (arr ! j)" if "i \<le> j" "j < length arr" for i j
    using assms(3) that by (auto simp: sorted_iff_nth_mono)
  show ?case
  proof (cases "key (arr ! ?m) = key data \<or> \<not> f < ?m")
    case True
    have "f < ?m \<or> l = f + 1" using less.prems(1) by linarith
    then have "key (arr ! ?m) = key data \<or> (\<forall>i < length arr. key (arr ! i) \<noteq> key data)"
      using True less.prems(3) by (metis add.right_neutral add_diff_cancel_left' bits_1_div_2 less_add_one not_less order_antisym linorder_not_le less_Suc_eq_le Suc_eq_plus1)
    then show ?thesis using True m(1) assms(2)
      by (intro exI [of _ ?m]) (auto simp: search_loop.simps [of cmp arr sz data "f * sz"] read_at_mult cmp_zero)
  next
    case False
    let ?f = "if 0 < cmp (arr ! ?m) data then f else ?m" and ?l = "if 0 < cmp (arr ! ?m) data then ?m else l"
    have step: "search_loop cmp arr sz data (f * sz) (?m * sz) (l * sz) =
        search_loop cmp arr sz data (?f * sz) ((?f + (?l - ?f) div 2) * sz) (?l * sz)"
    proof -
      have r: "read_at arr sz (?m * sz) = Some (arr ! ?m)" using m(1) assms(2) by (simp add: read_at_mult)
      have c: "cmp (arr ! ?m) data \<noteq> 0" "f * sz < ?m * sz" using False assms(2) by (simp_all add: cmp_zero)
      show ?thesis
      proof (cases "0 < cmp (arr ! ?m) data")
        case True
        have "f < ?m" using False by simp
        from next_mid [OF assms(1,2) this] show ?thesis
          using True c by (subst search_loop.simps) (simp only: r bind.bind_lunit Let_def if_True prod.case simp_thms not_False_eq_True)
      next
        case no: False
        from next_mid [OF assms(1,2) m(2)] show ?thesis
          using no c by (subst search_loop.simps) (simp only: r bind.bind_lunit Let_def if_True if_False prod.case simp_thms not_False_eq_True)
      qed
    qed
    have fm: "f < ?m" using False by simp
    have "?l - ?f < l - f \<and> ?f < ?l \<and> ?l \<le> length arr"
    proof (cases "0 < cmp (arr ! ?m) data")
      case True
      then show ?thesis using fm m by (simp only: if_True) (intro conjI TrueI; linarith)
    next
      case False
      then show ?thesis using fm m less.prems(2) by (simp only: if_False) (intro conjI TrueI; linarith)
    qed
    moreover have "\<forall>i < length arr. key (arr ! i) = key data \<longrightarrow> ?f \<le> i \<and> i < ?l"
    proof (intro allI impI)
      fix i assume i: "i < length arr" "key (arr ! i) = key data"
      have fl: "f \<le> i" "i < l" using less.prems(3) i by simp_all
      show "?f \<le> i \<and> i < ?l"
      proof (cases "key data < key (arr ! ?m)")
        case True
        then have "i < ?m" using mono [of ?m i] i by (metis leD not_less)
        then show ?thesis using fl(1) True by (simp add: cmp_greater)
      next
        case not_greater: False
        then have "key (arr ! ?m) < key data" using False by linarith
        then have "?m \<le> i" using mono [of i ?m] i m(1) by (metis leD not_less less_imp_le)
        then show ?thesis using fl(2) not_greater by (simp add: cmp_greater)
      qed
    qed
    ultimately show ?thesis unfolding step by (intro less.hyps) auto
  qed
qed

lemma BinarySearchRecursive_spec:
  assumes "0 < sz" "sorted (map key arr)"
  shows "0 < n \<Longrightarrow> s + n \<le> length arr \<Longrightarrow> (\<forall>i < length arr. key (arr ! i) = key data \<longrightarrow> s \<le> i \<and> i < s + n) \<Longrightarrow>
    \<exists>r. BinarySearchRecursive arr (s * sz) cmp data n sz = Some r \<and>
      (case r of None \<Rightarrow> \<forall>i < length arr. key (arr ! i) \<noteq> key data | Some p \<Rightarrow> found_at arr data sz p)"
proof (induction n arbitrary: s rule: less_induct)
  case (less n)
  let ?m = "s + n div 2" and ?n = "n div 2 + n mod 2"
  have m: "?m < length arr" using less.prems(1,2) by linarith
  have mono: "key (arr ! i) \<le> key (arr ! j)" if "i \<le> j" "j < length arr" for i j
    using assms(2) that by (auto simp: sorted_iff_nth_mono)
  have step: "BinarySearchRecursive arr (s * sz) cmp data n sz =
      (if key (arr ! ?m) = key data then Some (Some (?m * sz)) else if n = 1 then Some None
       else BinarySearchRecursive arr ((if key data < key (arr ! ?m) then s else ?m) * sz) cmp data ?n sz)"
  proof -
    have "read_at arr sz (?m * sz) = Some (arr ! ?m)" using m assms(1) by (rule read_at_mult [rotated])
    moreover have "s * sz + half (n * sz) sz = ?m * sz" using assms(1) by (simp add: half_mult distrib_right)
    ultimately show ?thesis
      by (subst BinarySearchRecursive.simps) (simp only: Let_def bind.bind_lunit cmp_zero cmp_greater if_distrib [of "\<lambda>x. BinarySearchRecursive arr (x * sz) cmp data ?n sz"])
  qed
  consider "key (arr ! ?m) = key data" | "key (arr ! ?m) \<noteq> key data" "n = 1" | "key (arr ! ?m) \<noteq> key data" "1 < n"
    using less.prems(1) by linarith
  then show ?case
  proof cases
    case 1
    then show ?thesis using m step by (auto simp: found_at_def)
  next
    case 2
    have "key (arr ! i) \<noteq> key data" if "i < length arr" for i
    proof
      assume "key (arr ! i) = key data"
      then have "i = s" using less.prems(3) that 2(2) by fastforce
      then show False using 2 \<open>key (arr ! i) = key data\<close> by simp
    qed
    then show ?thesis using 2 step by auto
  next
    case 3
    let ?s = "if key data < key (arr ! ?m) then s else ?m"
    have n: "?n < n" "0 < ?n" "s + n = ?m + ?n" using 3(2) by presburger+
    have "\<forall>i < length arr. key (arr ! i) = key data \<longrightarrow> ?s \<le> i \<and> i < ?s + ?n"
    proof (intro allI impI)
      fix i assume i: "i < length arr" "key (arr ! i) = key data"
      have si: "s \<le> i" "i < s + n" using less.prems(3) i by simp_all
      show "?s \<le> i \<and> i < ?s + ?n"
      proof (cases "key data < key (arr ! ?m)")
        case True
        then have "i < ?m" using mono [of ?m i] i by (metis leD not_less)
        then show ?thesis using si True by simp
      next
        case False
        then have "key (arr ! ?m) < key data" using 3(1) by linarith
        then have "?m \<le> i" using mono [of i ?m] i m by (metis leD not_less less_imp_le)
        then show ?thesis using si(2) n(3) False by simp
      qed
    qed
    moreover have "?s + ?n \<le> length arr" using less.prems(2) n(3) by (cases "key data < key (arr ! ?m)") auto
    ultimately show ?thesis using less.IH [OF n(1,2)] step 3 by simp
  qed
qed

end

text \<open>In an array sorted by the keys both binary searches return: NULL exactly if no element compares
  equal to the data, and else the address of an element that does. The iterative one needs an even
  element size, because its next middle is aligned only then.\<close>

theorem binary_searches_find:
  assumes "key_comparison cmp key" "sorted (map key arr)" "arr \<noteq> []" "even sz" "0 < sz"
  shows "\<exists>r1 r2. BinarySearchIterative arr cmp data (length arr) sz = Some r1 \<and>
    BinarySearchRecursive arr 0 cmp data (length arr) sz = Some r2 \<and>
    (\<forall>r \<in> {r1, r2}. case r of None \<Rightarrow> \<forall>x \<in> set arr. cmp x data \<noteq> 0
       | Some p \<Rightarrow> \<exists>i < length arr. p = i * sz \<and> cmp (arr ! i) data = 0)"
proof -
  note zero = key_comparison.cmp_zero [OF assms(1)]
  have len: "0 < length arr" using assms(3) by simp
  obtain m where m: "m < length arr" "search_loop cmp arr sz data 0 (half (length arr * sz) sz) (length arr * sz) = Some (m * sz)"
    "key (arr ! m) = key data \<or> (\<forall>i < length arr. key (arr ! i) \<noteq> key data)"
    using key_comparison.halving_loop_spec [OF assms(1,4,5,2), of 0 "length arr" data] len half_mult [OF assms(5)] by auto
  let ?r1 = "if key (arr ! m) = key data then Some (m * sz) else None"
  have "BinarySearchIterative arr cmp data (length arr) sz = Some ?r1"
    using m(1,2) zero read_at_mult [OF assms(5) m(1)] by (auto simp: BinarySearchIterative_def)
  moreover obtain r where r: "BinarySearchRecursive arr 0 cmp data (length arr) sz = Some r"
    "case r of None \<Rightarrow> \<forall>i < length arr. key (arr ! i) \<noteq> key data | Some p \<Rightarrow> key_comparison.found_at key arr data sz p"
    using key_comparison.BinarySearchRecursive_spec [OF assms(1,5,2) len, of 0 data] by auto
  have none: "(\<forall>i < length arr. key (arr ! i) \<noteq> key data) \<longleftrightarrow> (\<forall>x \<in> set arr. cmp x data \<noteq> 0)"
    by (metis zero in_set_conv_nth)
  have "case ?r1 of None \<Rightarrow> \<forall>x \<in> set arr. cmp x data \<noteq> 0 | Some p \<Rightarrow> \<exists>i < length arr. p = i * sz \<and> cmp (arr ! i) data = 0"
    using m(1,3) none zero by auto
  moreover have "case r of None \<Rightarrow> \<forall>x \<in> set arr. cmp x data \<noteq> 0 | Some p \<Rightarrow> \<exists>i < length arr. p = i * sz \<and> cmp (arr ! i) data = 0"
    using r(2) none zero by (auto simp: key_comparison.found_at_def [OF assms(1)] split: option.splits)
  ultimately show ?thesis using r(1) by blast
qed

theorem binary_searches_find_witness:
  "\<exists>p. BinarySearchIterative [10, 20, 30 :: int] (\<lambda>x y. x - y) 20 3 4 = Some (Some p) \<and> p = 4"
proof -
  have k: "key_comparison (\<lambda>x y :: int. x - y) (\<lambda>x. x)" by unfold_locales auto
  have l: "length [10, 20, 30 :: int] = 3" by simp
  obtain r where r: "BinarySearchIterative [10, 20, 30 :: int] (\<lambda>x y. x - y) 20 3 4 = Some r"
    "case r of None \<Rightarrow> \<forall>x \<in> set [10, 20, 30 :: int]. x - 20 \<noteq> 0
       | Some p \<Rightarrow> \<exists>i < 3. p = i * 4 \<and> [10, 20, 30 :: int] ! i - 20 = 0"
    using binary_searches_find [OF k, of "[10, 20, 30]" 4 20, unfolded l] by auto
  have "i = 1" if "i < 3" "[10, 20, 30 :: int] ! i - 20 = 0" for i
    using that by (auto simp: less_Suc_eq numeral_3_eq_3)
  then have "r = Some 4" using r(2) by (cases r) auto
  then show ?thesis using r(1) by simp
qed

text \<open>With elements of one byte the iterative search reads behind the array.\<close>

lemma BinarySearchIterative_byte:
  "BinarySearchIterative [10, 20] (\<lambda>x y. x - y) (30 :: int) 2 1 = None"
  by (simp add: BinarySearchIterative_def half_def search_loop.simps read_at_def)

lemma BinarySearchRecursive_empty: "0 < sz \<Longrightarrow> BinarySearchRecursive [] 0 cmp data 0 sz = None"
  by (subst BinarySearchRecursive.simps) (simp add: read_at_def half_def)

end
