(* ===== verification/FirstSorts.thy ===== *)
theory FirstSorts
  imports KeySorts
begin

text \<open>
  The first versions of the searches and sorts, \<open>ds/utils/sorts/binary search/binarysearch.c\<close>: two binary
  searches, a merge sort that merges in place, and a quick sort by indexes. Pointers into the array are
  indexes. The generic search and the quick sort of the same file are those of \<open>sorts.c\<close>.
\<close>

section \<open>The searches\<close>

datatype where_result = FOUND | NOT_IN_THE_RANGE | LEFT_SIDE_OF_MID | RIGHT_SIDE_OF_MID

text \<open>Returns the status, the new bounds and middle, and the place where the number was found.\<close>

definition IsFound ::
  "int list \<Rightarrow> int \<Rightarrow> int \<Rightarrow> int \<Rightarrow> int \<Rightarrow> (where_result \<times> int \<times> int \<times> int \<times> int option) option" where
  "IsFound arr first mid last_p num = do {
     f \<leftarrow> int_get arr first;
     if f = num then Some (FOUND, first, mid, last_p, Some first)
     else do {
       m \<leftarrow> int_get arr mid;
       if m = num then Some (FOUND, first, mid, last_p, Some mid)
       else do {
         l \<leftarrow> int_get arr last_p;
         if l = num then Some (FOUND, first, mid, last_p, Some last_p)
         else if num < f \<or> num > l then Some (NOT_IN_THE_RANGE, first, mid, last_p, None)
         else if num < m then
           let last_p = mid - 1; mid = last_p - (last_p - first) sdiv 2 in Some (LEFT_SIDE_OF_MID, first, mid, last_p, None)
         else
           let first = mid + 1; mid = mid + (last_p - first) sdiv 2 in Some (RIGHT_SIDE_OF_MID, first, mid, last_p, None)
       }
     }
   }"

partial_function (option) find_loop :: "int list \<Rightarrow> int \<Rightarrow> int \<Rightarrow> int \<Rightarrow> int \<Rightarrow> int option option" where
  "find_loop arr first mid last_p num = do {
     (treg, first, mid, last_p, found) \<leftarrow> IsFound arr first mid last_p num;
     if treg = LEFT_SIDE_OF_MID \<or> treg = RIGHT_SIDE_OF_MID then find_loop arr first mid last_p num
     else if treg = FOUND then Some found
     else Some None
   }"

definition IterativeBinarySearch :: "int list \<Rightarrow> nat \<Rightarrow> int \<Rightarrow> int option option" where
  "IterativeBinarySearch arr len num = find_loop arr 0 (int (len div 2)) (int len - 1) num"

text \<open>The comparison gets the address of the parameter \<open>data\<close>, so \<open>data\<close> here is what that address holds.\<close>

partial_function (option) BinSearchRecursive ::
  "'v list \<Rightarrow> int \<Rightarrow> int \<Rightarrow> 'v \<Rightarrow> ('v \<Rightarrow> 'v \<Rightarrow> int) \<Rightarrow> int option option" where
  "BinSearchRecursive arr1 left right data cmp_func =
     (if left > right then Some None
      else do {
        let mid = (left + right) sdiv 2;
        m \<leftarrow> int_get arr1 mid;
        let comper_res = cmp_func data m;
        if comper_res = 0 then Some (Some mid)
        else if 0 < comper_res then BinSearchRecursive arr1 (mid + 1) right data cmp_func
        else BinSearchRecursive arr1 left (mid - 1) data cmp_func
      })"

definition BinarySearchRecursive_first :: "'v list \<Rightarrow> ('v \<Rightarrow> 'v \<Rightarrow> int) \<Rightarrow> 'v \<Rightarrow> nat \<Rightarrow> int option option" where
  "BinarySearchRecursive_first arr cmp_func data num_of_elements =
     BinSearchRecursive arr 0 (ssize (szsub num_of_elements 1)) data cmp_func"

section \<open>The merge sort in place\<close>

definition SwapIfNeed :: "int list \<Rightarrow> nat \<Rightarrow> nat \<Rightarrow> int list option" where
  "SwapIfNeed arr arr1 num_of_elements = do {
     a \<leftarrow> aget arr arr1;
     b \<leftarrow> aget arr (arr1 + 1);
     arr \<leftarrow> (if a > b then SwapInt arr arr1 (arr1 + 1) else Some arr);
     if num_of_elements = 3 then do {
       b \<leftarrow> aget arr (arr1 + 1);
       c \<leftarrow> aget arr (arr1 + 2);
       arr \<leftarrow> (if b > c then SwapInt arr (arr1 + 1) (arr1 + 2) else Some arr);
       a \<leftarrow> aget arr arr1;
       b \<leftarrow> aget arr (arr1 + 1);
       if a > b then SwapInt arr arr1 (arr1 + 1) else Some arr
     } else Some arr
   }"

partial_function (option) shift_back :: "int list \<Rightarrow> nat \<Rightarrow> nat \<Rightarrow> int list option" where
  "shift_back arr runner1 back_runner = (if back_runner > runner1 then do {
       x \<leftarrow> aget arr (back_runner - 1);
       arr \<leftarrow> aset arr back_runner x;
       shift_back arr runner1 (back_runner - 1)
     } else Some arr)"

partial_function (option) insert_loop :: "int list \<Rightarrow> nat \<Rightarrow> nat \<Rightarrow> nat \<Rightarrow> int list option" where
  "insert_loop arr runner1 runner2 end_of =
     (if runner1 \<le> runner2 \<and> runner2 < end_of then do {
        a \<leftarrow> aget arr runner1;
        b \<leftarrow> aget arr runner2;
        if a < b then insert_loop arr (runner1 + 1) runner2 end_of
        else do {
          arr \<leftarrow> shift_back arr runner1 runner2;
          arr \<leftarrow> aset arr runner1 b;
          insert_loop arr (runner1 + 1) (runner2 + 1) end_of
        }
      } else Some arr)"

definition MergBySize :: "int list \<Rightarrow> nat \<Rightarrow> nat \<Rightarrow> nat \<Rightarrow> int list option" where
  "MergBySize arr arr1 arr2 len = do {
     a \<leftarrow> aget arr arr2;
     b \<leftarrow> aget arr (arr2 - 1);
     if a > b then Some arr else insert_loop arr arr1 arr2 (arr1 + len)
   }"

partial_function (option) first_MergeSort :: "int list \<Rightarrow> nat \<Rightarrow> nat \<Rightarrow> int list option" where
  "first_MergeSort arr arr_to_sort num_of_elements =
     (if num_of_elements \<le> 3 then SwapIfNeed arr arr_to_sort num_of_elements
      else do {
        arr \<leftarrow> first_MergeSort arr arr_to_sort (num_of_elements div 2);
        arr \<leftarrow> first_MergeSort arr (arr_to_sort + num_of_elements div 2) (num_of_elements div 2 + num_of_elements mod 2);
        MergBySize arr arr_to_sort (arr_to_sort + num_of_elements div 2) num_of_elements
      })"

section \<open>The quick sort by indexes\<close>

partial_function (option) part_right :: "int list \<Rightarrow> int \<Rightarrow> int \<Rightarrow> int \<Rightarrow> int option" where
  "part_right arr1 last_p rnd_pivot runner = do {
     a \<leftarrow> int_get arr1 runner;
     p \<leftarrow> int_get arr1 rnd_pivot;
     if a \<le> p \<and> runner \<le> last_p then part_right arr1 last_p rnd_pivot (runner + 1) else Some runner
   }"

partial_function (option) part_left :: "int list \<Rightarrow> int \<Rightarrow> int \<Rightarrow> int \<Rightarrow> int option" where
  "part_left arr1 first rnd_pivot back_runner = do {
     a \<leftarrow> int_get arr1 back_runner;
     p \<leftarrow> int_get arr1 rnd_pivot;
     if a > p \<and> back_runner \<ge> first then part_left arr1 first rnd_pivot (back_runner - 1) else Some back_runner
   }"

definition int_swap :: "int list \<Rightarrow> int \<Rightarrow> int \<Rightarrow> int list option" where
  "int_swap arr i j = do { a \<leftarrow> int_get arr i; b \<leftarrow> int_get arr j; arr \<leftarrow> int_set arr i b; int_set arr j a }"

partial_function (option) part_loop :: "int list \<Rightarrow> int \<Rightarrow> int \<Rightarrow> int \<Rightarrow> int \<Rightarrow> int \<Rightarrow> (int list \<times> int) option" where
  "part_loop arr1 first last_p rnd_pivot runner back_runner =
     (if runner < back_runner then do {
        runner \<leftarrow> part_right arr1 last_p rnd_pivot runner;
        back_runner \<leftarrow> part_left arr1 first rnd_pivot back_runner;
        arr1 \<leftarrow> (if runner < back_runner then int_swap arr1 runner back_runner else Some arr1);
        part_loop arr1 first last_p rnd_pivot runner back_runner
      } else Some (arr1, back_runner))"

partial_function (option) partition_first :: "int list \<Rightarrow> int \<Rightarrow> int \<Rightarrow> int list option" where
  "partition_first arr1 first last_p =
     (if first < last_p then do {
        (arr1, back_runner) \<leftarrow> part_loop arr1 first last_p first first last_p;
        arr1 \<leftarrow> int_swap arr1 first back_runner;
        arr1 \<leftarrow> partition_first arr1 first (back_runner - 1);
        partition_first arr1 (back_runner + 1) last_p
      } else Some arr1)"

definition QuickSort1 :: "int list \<Rightarrow> nat \<Rightarrow> int list option" where
  "QuickSort1 arr num_of_elements = partition_first arr 0 (ssize (szsub num_of_elements 1))"

section \<open>The recursive search\<close>

lemma sdiv_2: "0 \<le> a \<Longrightarrow> a sdiv 2 = a div (2 :: int)"
  by (cases "a = 0") (simp_all add: signed_divide_int_def)

context key_comparison
begin

lemma BinSearchRecursive_spec:
  assumes s: "sorted (map key arr)"
  shows "0 \<le> l \<Longrightarrow> r < int (length arr) \<Longrightarrow>
    \<exists>res. BinSearchRecursive arr l r data cmp = Some res \<and>
      (case res of Some p \<Rightarrow> 0 \<le> p \<and> p < int (length arr) \<and> key (arr ! nat p) = key data
       | None \<Rightarrow> \<forall>i. l \<le> int i \<and> int i \<le> r \<longrightarrow> key (arr ! i) \<noteq> key data)"
proof (induction "nat (r - l + 1)" arbitrary: l r rule: less_induct)
  case less
  show ?case
  proof (cases "l > r")
    case True
    then show ?thesis by (subst BinSearchRecursive.simps) auto
  next
    case False
    let ?m = "(l + r) sdiv 2"
    have m: "l \<le> ?m" "?m \<le> r" "?m = (l + r) div 2" using False less.prems sdiv_2 [of "l + r"] by auto
    then have b: "0 \<le> ?m" "nat ?m < length arr" using less.prems by auto
    have get: "int_get arr ?m = Some (arr ! nat ?m)" using b by (simp add: int_get_def)
    have mono: "key (arr ! i) \<le> key (arr ! j)" if "i \<le> j" "j < length arr" for i j
      using sorted_nth_mono [OF s, of i j] that by simp
    consider "cmp data (arr ! nat ?m) = 0" | "0 < cmp data (arr ! nat ?m)" | "cmp data (arr ! nat ?m) < 0" by linarith
    then show ?thesis
    proof cases
      case 1
      then have "BinSearchRecursive arr l r data cmp = Some (Some ?m)"
        using False get by (subst BinSearchRecursive.simps) (simp add: Let_def)
      moreover have "key (arr ! nat ?m) = key data" using 1 cmp_zero by simp
      ultimately show ?thesis using b by auto
    next
      case 2
      then have "BinSearchRecursive arr l r data cmp = BinSearchRecursive arr (?m + 1) r data cmp"
        using False get by (subst BinSearchRecursive.simps) (simp add: Let_def)
      moreover obtain res where res: "BinSearchRecursive arr (?m + 1) r data cmp = Some res"
        "case res of Some p \<Rightarrow> 0 \<le> p \<and> p < int (length arr) \<and> key (arr ! nat p) = key data
         | None \<Rightarrow> \<forall>i. ?m + 1 \<le> int i \<and> int i \<le> r \<longrightarrow> key (arr ! i) \<noteq> key data"
        using less.hyps [of r "?m + 1"] m less.prems by auto
      moreover have "key (arr ! i) \<noteq> key data" if "int i \<le> ?m" for i
      proof -
        have "key (arr ! i) \<le> key (arr ! nat ?m)" using that b by (intro mono) auto
        moreover have "key (arr ! nat ?m) < key data" using 2 cmp_greater by simp
        ultimately show ?thesis by simp
      qed
      ultimately show ?thesis by (force split: option.splits)
    next
      case 3
      then have "BinSearchRecursive arr l r data cmp = BinSearchRecursive arr l (?m - 1) data cmp"
        using False get by (subst BinSearchRecursive.simps) (simp add: Let_def)
      moreover obtain res where res: "BinSearchRecursive arr l (?m - 1) data cmp = Some res"
        "case res of Some p \<Rightarrow> 0 \<le> p \<and> p < int (length arr) \<and> key (arr ! nat p) = key data
         | None \<Rightarrow> \<forall>i. l \<le> int i \<and> int i \<le> ?m - 1 \<longrightarrow> key (arr ! i) \<noteq> key data"
        using less.hyps [of "?m - 1" l] m less.prems by auto
      moreover have "key (arr ! i) \<noteq> key data" if "?m \<le> int i" "int i \<le> r" for i
      proof -
        have "key (arr ! nat ?m) \<le> key (arr ! i)" using that b less.prems by (intro mono) auto
        moreover have "key data < key (arr ! nat ?m)" using 3 cmp_less by simp
        ultimately show ?thesis by simp
      qed
      ultimately show ?thesis by (force split: option.splits)
    qed
  qed
qed

lemma BinarySearchRecursive_first_spec:
  assumes "sorted (map key arr)" "length arr < 2 ^ 63"
  shows "\<exists>res. BinarySearchRecursive_first arr cmp data (length arr) = Some res \<and>
      (case res of Some p \<Rightarrow> 0 \<le> p \<and> p < int (length arr) \<and> key (arr ! nat p) = key data
       | None \<Rightarrow> \<forall>x \<in> set arr. key x \<noteq> key data)"
proof -
  have r: "ssize (szsub (length arr) 1) = int (length arr) - 1"
  proof (cases "arr = []")
    case True
    then show ?thesis by (simp add: ssize_def szsub_0_1 del: One_nat_def)
  next
    case False
    then have "szsub (length arr) 1 = length arr - 1" using assms(2) by (intro szsub_ge) (auto simp: Suc_le_eq)
    moreover have "Suc 0 \<le> length arr" using False by (simp add: Suc_le_eq)
    ultimately show ?thesis using assms(2) by (auto simp: ssize_def of_nat_diff)
  qed
  obtain res where "BinSearchRecursive arr 0 (int (length arr) - 1) data cmp = Some res"
    and "case res of Some p \<Rightarrow> 0 \<le> p \<and> p < int (length arr) \<and> key (arr ! nat p) = key data
       | None \<Rightarrow> \<forall>i. 0 \<le> int i \<and> int i \<le> int (length arr) - 1 \<longrightarrow> key (arr ! i) \<noteq> key data"
    using BinSearchRecursive_spec [OF assms(1), of 0 "int (length arr) - 1" data] by auto
  then show ?thesis unfolding BinarySearchRecursive_first_def r
    by (intro exI [of _ res]) (auto simp: in_set_conv_nth split: option.splits)
qed

end


section \<open>The search with a loop\<close>

lemma find_loop_present:
  assumes s: "sorted arr" and p: "arr ! p = num"
  shows "0 \<le> first \<Longrightarrow> first \<le> int p \<Longrightarrow> int p \<le> last_p \<Longrightarrow> last_p < int (length arr)
    \<Longrightarrow> first - 1 \<le> mid \<Longrightarrow> mid \<le> last_p \<Longrightarrow> 0 \<le> mid \<Longrightarrow>
    \<exists>q. find_loop arr first mid last_p num = Some (Some q) \<and> 0 \<le> q \<and> q < int (length arr) \<and> arr ! nat q = num"
proof (induction "nat (2 * (last_p - first) + (if mid < first then 1 else 0))" arbitrary: first mid last_p rule: less_induct)
  case less
  have get: "int_get arr i = Some (arr ! nat i)" if "0 \<le> i" "i \<le> last_p" for i
    using that less.prems by (simp add: int_get_def)
  note gets = get [of first] get [of mid] get [of last_p]
  have mono: "arr ! nat i \<le> arr ! nat j" if "i \<le> j" "0 \<le> i" "j < int (length arr)" for i j
    using sorted_nth_mono [OF s, of "nat i" "nat j"] that by simp
  show ?case
  proof (cases "num \<in> {arr ! nat first, arr ! nat mid, arr ! nat last_p}")
    case True
    then show ?thesis using less.prems gets
      by (subst find_loop.simps) (auto simp: IsFound_def)
  next
    case False
    have P: "int p \<noteq> first" "int p \<noteq> mid" "int p \<noteq> last_p" using False p by auto
    have f: "arr ! nat first < num" using mono [of first "int p"] False p less.prems by auto
    have l: "num < arr ! nat last_p" using mono [of "int p" last_p] False p less.prems by auto
    show ?thesis
    proof (cases "num < arr ! nat mid")
      case True
      then have "\<not> mid \<le> int p" using mono [of mid "int p"] p less.prems by auto
      let ?mid = "mid - 1 - (mid - 1 - first) sdiv 2"
      have m: "?mid = mid - 1 - (mid - 1 - first) div 2" using \<open>\<not> mid \<le> int p\<close> less.prems by (simp add: sdiv_2)
      have "find_loop arr first mid last_p num = find_loop arr first ?mid (mid - 1) num"
        using True False f l less.prems gets by (subst find_loop.simps) (auto simp: IsFound_def Let_def)
      moreover have "first \<le> ?mid" "?mid \<le> mid - 1" unfolding m using \<open>\<not> mid \<le> int p\<close> less.prems by auto
      ultimately show ?thesis
        using less.hyps [of "mid - 1" first ?mid] less.prems P \<open>\<not> mid \<le> int p\<close> by auto
    next
      case F: False
      then have "arr ! nat mid < num" using False by auto
      then have "\<not> int p \<le> mid" using mono [of "int p" mid] p less.prems by auto
      let ?mid = "mid + (last_p - (mid + 1)) sdiv 2"
      have m: "?mid = mid + (last_p - (mid + 1)) div 2" using less.prems \<open>\<not> int p \<le> mid\<close> by (simp add: sdiv_2)
      have "find_loop arr first mid last_p num = find_loop arr (mid + 1) ?mid last_p num"
        using F False f l less.prems gets by (subst find_loop.simps) (auto simp: IsFound_def Let_def)
      moreover have "mid \<le> ?mid" "?mid \<le> last_p" "mid + 1 < last_p" unfolding m
        using \<open>\<not> int p \<le> mid\<close> P less.prems by auto
      moreover have "mid + 1 \<le> ?mid" if "mid < first" unfolding m using that less.prems P by auto
      moreover from this have "nat (2 * (last_p - (mid + 1)) + (if ?mid < mid + 1 then 1 else 0))
          < nat (2 * (last_p - first) + (if mid < first then 1 else 0))"
        using less.prems P by (cases "mid < first") auto
      note less.hyps [OF this]
      ultimately show ?thesis using less.prems P \<open>\<not> int p \<le> mid\<close> by auto
    qed
  qed
qed

lemma IterativeBinarySearch_present:
  assumes "sorted arr" "num \<in> set arr"
  shows "\<exists>q. IterativeBinarySearch arr (length arr) num = Some (Some q)
    \<and> 0 \<le> q \<and> q < int (length arr) \<and> arr ! nat q = num"
proof -
  obtain p where p: "p < length arr" "arr ! p = num" using assms(2) by (auto simp: in_set_conv_nth)
  then show ?thesis unfolding IterativeBinarySearch_def
    by (intro find_loop_present [OF assms(1) p(2)]) auto
qed

text \<open>A number that is missing between two neighbours may keep the search going round for ever.\<close>

lemma find_loop_stuck: "find_loop [1, 2, 3, 4, 6] 3 2 4 5 = None"
proof -
  have "arr = [1, 2, 3, 4, 6] \<and> first = 3 \<and> mid = 2 \<and> last_p = 4 \<and> num = 5 \<longrightarrow> False"
    if "find_loop arr first mid last_p num = Some r" for arr first mid last_p num r
    by (rule find_loop.raw_induct [of "\<lambda>arr first mid last_p num r. arr = [1, 2, 3, 4, 6] \<and> first = 3 \<and> mid = 2 \<and> last_p = 4 \<and> num = 5 \<longrightarrow> False", OF _ that])
      (fastforce simp: IsFound_def int_get_def Let_def signed_divide_int_def split: bind_splits)
  then show ?thesis by (metis not_Some_eq)
qed

lemma IterativeBinarySearch_stuck: "IterativeBinarySearch [1, 2, 3, 4, 6] 5 5 = None"
  unfolding IterativeBinarySearch_def
  by (subst find_loop.simps) (simp add: IsFound_def int_get_def Let_def signed_divide_int_def find_loop_stuck)

section \<open>The sorts\<close>

lemma aget_middle: "aget (xs @ y # ys) (length xs) = Some y"
  by (simp add: aget_def)

lemma aset_middle: "aset (xs @ y # ys) (length xs) z = Some (xs @ z # ys)"
  by (simp add: aset_def)

lemma shift_back_eq: "shift_back (P @ A @ y # T) (length P) (length P + length A) = Some (P @ hd (A @ [y]) # A @ T)"
proof (induction A arbitrary: y T rule: rev_induct)
  case Nil
  then show ?case by (subst shift_back.simps) simp
next
  case (snoc a A)
  have "aget ((P @ A) @ a # y # T) (length (P @ A)) = Some a"
    "aset ((P @ A @ [a]) @ y # T) (length (P @ A @ [a])) a = Some ((P @ A @ [a]) @ a # T)"
    by (rule aget_middle, rule aset_middle)
  then have "shift_back (P @ (A @ [a]) @ y # T) (length P) (length P + length (A @ [a]))
      = shift_back (P @ A @ a # a # T) (length P) (length P + length A)"
    by (subst shift_back.simps) simp
  then show ?case using snoc.IH [of a "a # T"] by (cases A) simp_all
qed

lemma insert_loop_eq:
  "insert_loop (P @ A @ B @ S) (length P) (length P + length A) (length P + length A + length B)
   = Some (P @ merge_lists A B @ S)"
proof (induction A B arbitrary: P rule: merge_lists.induct)
  case (1 B)
  show ?case
  proof (induction B arbitrary: P)
    case Nil
    then show ?case by (subst insert_loop.simps) simp
  next
    case (Cons y B)
    have "insert_loop (P @ [] @ (y # B) @ S) (length P) (length P + length []) (length P + length [] + length (y # B))
        = insert_loop ((P @ [y]) @ [] @ B @ S) (length (P @ [y])) (length (P @ [y])) (length (P @ [y]) + length B)"
      by (subst insert_loop.simps, subst shift_back.simps) (simp add: aget_middle aset_middle)
    then show ?case using Cons.IH [of "P @ [y]"] by simp
  qed
next
  case (2 x A)
  then show ?case by (subst insert_loop.simps) simp
next
  case (3 x A y B)
  have get: "aget (P @ x # A @ y # B @ S) (length P) = Some x"
    "aget ((P @ x # A) @ y # B @ S) (length (P @ x # A)) = Some y"
    by (rule aget_middle)+
  show ?case
  proof (cases "x < y")
    case True
    then have "insert_loop (P @ (x # A) @ (y # B) @ S) (length P) (length P + length (x # A))
          (length P + length (x # A) + length (y # B))
        = insert_loop ((P @ [x]) @ A @ (y # B) @ S) (length (P @ [x])) (length (P @ [x]) + length A)
          (length (P @ [x]) + length A + length (y # B))"
      using get by (subst insert_loop.simps) simp
    then show ?thesis using "3.IH"(1) [OF True, of "P @ [x]"] True by simp
  next
    case False
    have "shift_back (P @ (x # A) @ y # B @ S) (length P) (length P + length (x # A)) = Some (P @ x # (x # A) @ B @ S)"
      using shift_back_eq [of P "x # A" y "B @ S"] by simp
    then have "insert_loop (P @ (x # A) @ (y # B) @ S) (length P) (length P + length (x # A))
          (length P + length (x # A) + length (y # B))
        = insert_loop ((P @ [y]) @ (x # A) @ B @ S) (length (P @ [y])) (length (P @ [y]) + length (x # A))
          (length (P @ [y]) + length (x # A) + length B)"
      using get False by (subst insert_loop.simps) (simp add: aset_middle)
    then show ?thesis using "3.IH"(2) [OF False, of "P @ [y]"] False by simp
  qed
qed

lemma MergBySize_eq:
  assumes "sorted A" "sorted B" "A \<noteq> []" "B \<noteq> []"
  shows "\<exists>C. MergBySize (P @ A @ B @ S) (length P) (length P + length A) (length A + length B) = Some (P @ C @ S)
    \<and> sorted C \<and> mset C = mset A + mset B"
proof -
  obtain A' a where A: "A = A' @ [a]" using assms(3) by (cases A rule: rev_cases) auto
  obtain b B' where B: "B = b # B'" using assms(4) by (cases B) auto
  have get: "aget (P @ A @ B @ S) (length P + length A) = Some b" "aget (P @ A @ B @ S) (length P + length A - 1) = Some a"
    using aget_middle [of "P @ A" b "B' @ S"] aget_middle [of "P @ A'" a "B @ S"] by (simp_all add: A B)
  show ?thesis
  proof (cases "b > a")
    case True
    have "x \<le> y" if "x \<in> set A" "y \<in> set B" for x y
    proof -
      have "x \<le> a" "b \<le> y" using that assms(1,2) A B by (auto simp: sorted_append)
      then show ?thesis using True by simp
    qed
    then have "sorted (A @ B)" using assms by (simp add: sorted_append)
    then show ?thesis using get True by (intro exI [of _ "A @ B"]) (simp add: MergBySize_def)
  next
    case False
    then have "MergBySize (P @ A @ B @ S) (length P) (length P + length A) (length A + length B)
        = Some (P @ merge_lists A B @ S)"
      using get insert_loop_eq [of P A B S] by (simp add: MergBySize_def add.assoc)
    then show ?thesis using assms by (auto simp: sorted_merge_lists mset_merge_lists)
  qed
qed

lemma SwapIfNeed_two: "SwapIfNeed (P @ x # y # S) (length P) 2 = Some (P @ min x y # max x y # S)"
  using aget_middle [of "P @ [x]" y S] by (simp add: SwapIfNeed_def SwapInt_def aget_middle aset_def list_update_append min_def max_def)

lemma SwapIfNeed_three:
  "\<exists>Y. SwapIfNeed (P @ x # y # z # S) (length P) 3 = Some (P @ Y @ S) \<and> sorted Y \<and> mset Y = {#x, y, z#}"
proof -
  have get: "aget (P @ a # b # c # S) (length P) = Some a" "aget (P @ a # b # c # S) (Suc (length P)) = Some b"
    "aget (P @ a # b # c # S) (Suc (Suc (length P))) = Some c" for a b c
    by (simp_all add: aget_def nth_append)
  have swap: "SwapInt (P @ a # b # c # S) (length P) (Suc (length P)) = Some (P @ b # a # c # S)"
    "SwapInt (P @ a # b # c # S) (Suc (length P)) (Suc (Suc (length P))) = Some (P @ a # c # b # S)" for a b c
    by (simp_all add: SwapInt_def aget_def aset_def nth_append list_update_append)
  define m Y where "m = max x y" and "Y = [min (min x y) (min m z), max (min x y) (min m z), max m z]"
  have "SwapIfNeed (P @ x # y # z # S) (length P) 3 = Some (P @ Y @ S)"
    by (cases "x > y"; cases "max x y > z"; cases "min x y > min (max x y) z")
      (simp_all add: SwapIfNeed_def get swap min_def max_def m_def Y_def)
  moreover have "sorted Y" "mset Y = {#x, y, z#}" by (auto simp: Y_def m_def min_def max_def)
  ultimately show ?thesis by blast
qed

lemma first_MergeSort_slice:
  "2 \<le> length X \<Longrightarrow> \<exists>Y. first_MergeSort (P @ X @ S) (length P) (length X) = Some (P @ Y @ S) \<and> sorted Y \<and> mset Y = mset X"
proof (induction "length X" arbitrary: X P S rule: less_induct)
  case less
  consider "length X = 2" | "length X = 3" | "4 \<le> length X" using less.prems by linarith
  then show ?case
  proof cases
    case 1
    then obtain x y where "X = [x, y]" by (auto simp: length_Suc_conv numeral_eq_Suc)
    then show ?thesis using SwapIfNeed_two [of P x y S]
      by (subst first_MergeSort.simps) (auto simp: numeral_2_eq_2 min_def max_def intro!: exI [of _ "[min x y, max x y]"])
  next
    case 2
    then obtain x y z where "X = [x, y, z]" by (auto simp: length_Suc_conv numeral_eq_Suc)
    then show ?thesis using SwapIfNeed_three [of P x y z S]
      by (subst first_MergeSort.simps) (simp add: numeral_3_eq_3)
  next
    case 3
    let ?h = "length X div 2"
    let ?A = "take ?h X" and ?B = "drop ?h X"
    have h: "2 \<le> ?h" "?h < length X" "length ?A = ?h" "length ?B = ?h + length X mod 2"
      "2 \<le> length ?B" "length ?B < length X" using 3 by auto presburger+
    obtain A where A: "first_MergeSort (P @ ?A @ ?B @ S) (length P) ?h = Some (P @ A @ ?B @ S)" "sorted A" "mset A = mset ?A"
      using less.hyps [of ?A P "?B @ S"] h by auto
    have lA: "length A = ?h" using A(3) h(3) by (metis size_mset)
    obtain B where B: "first_MergeSort ((P @ A) @ ?B @ S) (length (P @ A)) (length ?B) = Some ((P @ A) @ B @ S)"
        "sorted B" "mset B = mset ?B"
      using less.hyps [OF h(6) h(5), of "P @ A" S] by auto
    have lB: "length B = length ?B" using B(3) by (metis size_mset)
    have "A \<noteq> []" "B \<noteq> []" using lA lB h by auto
    then obtain C where C: "MergBySize (P @ A @ B @ S) (length P) (length P + length A) (length A + length B) = Some (P @ C @ S)"
        "sorted C" "mset C = mset A + mset B"
      using MergBySize_eq [OF A(2) B(2)] by blast
    have "length A + length B = length X" using lA lB h(2) by (simp only: length_drop)
    moreover have "mset C = mset X" using C(3) A(3) B(3) by (simp add: mset_append [symmetric] del: mset_append)
    ultimately show ?thesis using A(1) B(1) C 3 lA h(4)
      by (subst first_MergeSort.simps) (simp del: length_drop add: append_assoc [symmetric] del: append_assoc)
  qed
qed

lemma first_MergeSort_spec:
  assumes "2 \<le> length arr"
  shows "first_MergeSort arr 0 (length arr) = Some (sort arr)"
  using first_MergeSort_slice [OF assms, of "[]" "[]"] by (auto simp: properties_for_sort)

lemma first_MergeSort_one: "first_MergeSort [x] 0 1 = None"
  by (subst first_MergeSort.simps) (simp add: SwapIfNeed_def aget_def)

lemma partition_reads_behind: "QuickSort1 [2, 1] 2 = None"
proof -
  have "part_right [2, 1] 1 0 0 = None"
    by (subst part_right.simps, subst part_right.simps, subst part_right.simps) (simp add: int_get_def)
  then show ?thesis unfolding QuickSort1_def
    by (subst partition_first.simps, subst part_loop.simps) (simp add: ssize_def szsub_ge)
qed

end
