(* ===== verification/KnightTour.thy ===== *)
theory KnightTour
  imports DynVector BitArray
begin

text \<open>
  The knight's tours of \<open>ds/knight_tour/knight_tour.c\<close>, on the bit array for the visited cells and the
  growing vector for the path. The code stores \<open>*(void **)&index\<close> in the vector and reads its low four
  bytes back; the elements of the vector are these numbers.
\<close>

section \<open>The table of moves\<close>

definition BOARD_SIZE :: nat where "BOARD_SIZE = 64"

definition MAX_POS_MOVE :: nat where "MAX_POS_MOVE = 8"

definition ALL_BITS_ON :: bit_array_t where "ALL_BITS_ON = 0xFFFFFFFFFFFFFFFF"

definition move_table :: "int list list" where
  "move_table = [[- 17, - 10, 6, 15, 17, 10, - 6, - 15], [- 2, - 1, 1, 2, 2, 1, - 1, - 2], [- 1, - 2, - 2, - 1, 1, 2, 2, 1]]"

definition LEGIT_ROW :: "nat \<Rightarrow> nat \<Rightarrow> bool" where
  "LEGIT_ROW cur_pos_idx move_index \<longleftrightarrow>
     0 \<le> int cur_pos_idx div 8 + move_table ! 1 ! move_index \<and> 8 > int cur_pos_idx div 8 + move_table ! 1 ! move_index"

definition LEGIT_COL :: "nat \<Rightarrow> nat \<Rightarrow> bool" where
  "LEGIT_COL cur_pos_idx move_index \<longleftrightarrow>
     0 \<le> int cur_pos_idx mod 8 + move_table ! 2 ! move_index \<and> 8 > int cur_pos_idx mod 8 + move_table ! 2 ! move_index"

type_synonym lut = "int list list"

definition set_cell :: "lut \<Rightarrow> nat \<Rightarrow> nat \<Rightarrow> int \<Rightarrow> lut" where
  "set_cell lut i p v = lut[i := (lut ! i)[p := v]]"

definition init_move :: "nat \<Rightarrow> nat \<Rightarrow> lut \<Rightarrow> lut" where
  "init_move cur_pos_idx move_index lut =
     (if LEGIT_ROW cur_pos_idx move_index then
        if LEGIT_COL cur_pos_idx move_index then
          let lut = set_cell lut move_index cur_pos_idx (move_table ! 0 ! move_index)
          in set_cell lut 8 cur_pos_idx (lut ! 8 ! cur_pos_idx + 1)
        else lut
      else lut)"

definition InitPossibleMoves :: "lut \<Rightarrow> lut" where
  "InitPossibleMoves lut =
     fold (\<lambda>cur_pos_idx lut. fold (init_move cur_pos_idx) [0..<MAX_POS_MOVE] lut) [0..<BOARD_SIZE] lut"

text \<open>The static table starts with zeros.\<close>

definition zero_lut :: lut where
  "zero_lut = replicate (MAX_POS_MOVE + 1) (replicate BOARD_SIZE 0)"

definition lut_get :: "lut \<Rightarrow> nat \<Rightarrow> int \<Rightarrow> int option" where
  "lut_get lut i p = do { row \<leftarrow> aget lut i; if 0 \<le> p then aget row (nat p) else None }"

section \<open>Backtracking\<close>

text \<open>The loop over the moves, with the recursive call as an argument; \<open>0\<close> is returned after the last
  one. \<open>mem\<close> answers the allocations of the vector.\<close>

fun back_loop ::
  "(int Vector \<Rightarrow> bit_array_t \<Rightarrow> int \<Rightarrow> (bit_array_t \<times> int Vector) option) \<Rightarrow> lut \<Rightarrow> bit_array_t \<Rightarrow> int
    \<Rightarrow> nat list \<Rightarrow> int Vector \<Rightarrow> (bit_array_t \<times> int Vector) option" where
  "back_loop walk lut is_visited index [] vector = do { vector \<leftarrow> VectorPopBack vector; Some (0, vector) }"
| "back_loop walk lut is_visited index (i # is) vector = do {
     next_move \<leftarrow> lut_get lut i index;
     go \<leftarrow> (if next_move \<noteq> 0 then do {
              v \<leftarrow> BitsArrGetVal is_visited (to_size (index + next_move + 1));
              Some (v = 0)
            } else Some False);
     if go then do {
       (r, vector) \<leftarrow> walk vector is_visited (index + next_move);
       if r = ALL_BITS_ON then Some (ALL_BITS_ON, vector)
       else back_loop walk lut is_visited index is vector
     } else back_loop walk lut is_visited index is vector
   }"

lemma back_loop_mono [partial_function_mono]:
  assumes "\<And>v b i. mono_option (\<lambda>f. B f v b i)"
  shows "mono_option (\<lambda>f. back_loop (B f) lut is_visited index is vector)"
proof (induction "is" arbitrary: vector)
  case Nil
  show ?case by (simp add: option.const_mono)
next
  case (Cons i "is")
  show ?case unfolding back_loop.simps
    by (intro bind_mono option.const_mono if_mono assms Cons) (auto split: prod.splits intro!: bind_mono option.const_mono if_mono assms Cons)
qed

partial_function (option) WalkThrowChessBackTracking ::
  "lut \<Rightarrow> (int Vector \<Rightarrow> bool) \<Rightarrow> int Vector \<Rightarrow> bit_array_t \<Rightarrow> int \<Rightarrow> (bit_array_t \<times> int Vector) option" where
  "WalkThrowChessBackTracking lut mem vector is_visited index = do {
     is_visited \<leftarrow> BitsArrSetBit is_visited (to_size (index + 1)) 1;
     (_, vector) \<leftarrow> VectorPushBack (mem vector) vector index;
     if is_visited = ALL_BITS_ON then Some (ALL_BITS_ON, vector)
     else back_loop (\<lambda>v b i. WalkThrowChessBackTracking lut mem v b i) lut is_visited index [0..<MAX_POS_MOVE] vector
   }"

section \<open>The heuristic walk\<close>

text \<open>The comparison reads the counter before it is decremented, the assignment after.\<close>

fun warnsdorff_loop ::
  "bit_array_t \<Rightarrow> int \<Rightarrow> nat list \<Rightarrow> lut \<Rightarrow> int \<Rightarrow> int \<Rightarrow> (lut \<times> int) option" where
  "warnsdorff_loop is_visited index [] lut mn min_index = Some (lut, min_index)"
| "warnsdorff_loop is_visited index (i # is) lut mn min_index = do {
     next_move \<leftarrow> lut_get lut i index;
     go \<leftarrow> (if next_move \<noteq> 0 then do {
              v \<leftarrow> BitsArrGetVal is_visited (to_size (index + next_move + 1));
              Some (v = 0)
            } else Some False);
     if go then do {
       c \<leftarrow> lut_get lut 8 (index + next_move);
       let lut = set_cell lut 8 (nat (index + next_move)) (c - 1);
       if mn > c then warnsdorff_loop is_visited index is lut (c - 1) next_move
       else warnsdorff_loop is_visited index is lut mn min_index
     } else warnsdorff_loop is_visited index is lut mn min_index
   }"

partial_function (option) WalkThrowChessWarnsdorff ::
  "(int Vector \<Rightarrow> bool) \<Rightarrow> lut \<Rightarrow> int Vector \<Rightarrow> bit_array_t \<Rightarrow> int \<Rightarrow> (bit_array_t \<times> lut \<times> int Vector) option" where
  "WalkThrowChessWarnsdorff mem lut vector is_visited index = do {
     is_visited \<leftarrow> BitsArrSetBit is_visited (to_size (index + 1)) 1;
     (_, vector) \<leftarrow> VectorPushBack (mem vector) vector index;
     if is_visited = ALL_BITS_ON then Some (ALL_BITS_ON, lut, vector)
     else do {
       (lut, min_index) \<leftarrow> warnsdorff_loop is_visited index [0..<MAX_POS_MOVE] lut 9 0;
       if min_index = 0 then Some (0, lut, vector)
       else WalkThrowChessWarnsdorff mem lut vector is_visited (index + min_index)
     }
   }"

section \<open>What the table holds\<close>

definition well_sized :: "lut \<Rightarrow> bool" where
  "well_sized lut \<longleftrightarrow> length lut = 9 \<and> (\<forall>i < 9. length (lut ! i) = 64)"

definition legit :: "nat \<Rightarrow> nat \<Rightarrow> bool" where
  "legit p i \<longleftrightarrow> LEGIT_ROW p i \<and> LEGIT_COL p i"

definition step_of :: "nat \<Rightarrow> nat \<Rightarrow> int" where
  "step_of p i = (if legit p i then move_table ! 0 ! i else 0)"

lemma set_cell_size: "well_sized lut \<Longrightarrow> i < 9 \<Longrightarrow> well_sized (set_cell lut i p v)"
  by (auto simp: well_sized_def set_cell_def nth_list_update)

lemma set_cell_nth:
  "well_sized lut \<Longrightarrow> i < 9 \<Longrightarrow> p < 64 \<Longrightarrow> j < 9 \<Longrightarrow> set_cell lut i p v ! j ! q = (if j = i \<and> q = p then v else lut ! j ! q)"
  by (auto simp: well_sized_def set_cell_def nth_list_update)

lemma init_move_size: "well_sized lut \<Longrightarrow> i < 8 \<Longrightarrow> well_sized (init_move p i lut)"
  by (simp add: init_move_def set_cell_size Let_def)

lemma init_move_nth:
  assumes "well_sized lut" "i < 8" "p < 64" "j < 8"
  shows "init_move p i lut ! j ! q = (if j = i \<and> q = p \<and> legit p i then move_table ! 0 ! i else lut ! j ! q)"
  using assms by (simp add: init_move_def Let_def set_cell_nth set_cell_size legit_def)

lemma init_row_spec:
  assumes "p < 64"
  shows "well_sized lut \<Longrightarrow> (\<forall>i \<in> set is. i < 8) \<Longrightarrow>
    well_sized (fold (init_move p) is lut) \<and>
    (\<forall>j < 8. \<forall>q. fold (init_move p) is lut ! j ! q =
       (if j \<in> set is \<and> q = p \<and> legit p j then move_table ! 0 ! j else lut ! j ! q))"
proof (induction "is" arbitrary: lut)
  case (Cons i "is")
  have "well_sized (init_move p i lut)" using Cons.prems by (simp add: init_move_size)
  then show ?case using Cons init_move_nth [OF Cons.prems(1) _ assms, of i] by auto
qed simp

lemma init_rows_spec:
  "well_sized lut \<Longrightarrow> (\<forall>p \<in> set ps. p < 64) \<Longrightarrow>
   well_sized (fold (\<lambda>p lut. fold (init_move p) [0..<8] lut) ps lut) \<and>
   (\<forall>j < 8. \<forall>q. fold (\<lambda>p lut. fold (init_move p) [0..<8] lut) ps lut ! j ! q =
      (if q \<in> set ps \<and> legit q j then move_table ! 0 ! j else lut ! j ! q))"
proof (induction ps arbitrary: lut)
  case (Cons p ps)
  have "\<forall>i \<in> set [0..<8]. i < (8 :: nat)" by simp
  note r = init_row_spec [OF _ Cons.prems(1) this, of p]
  then have "well_sized (fold (init_move p) [0..<8] lut)" using Cons.prems(2) by simp
  from Cons.IH [OF this] r Cons.prems(2) show ?case by (auto simp del: upt_rec_numeral)
qed simp

definition knight_lut :: "lut \<Rightarrow> bool" where
  "knight_lut lut \<longleftrightarrow> well_sized lut \<and> (\<forall>i < 8. \<forall>p < 64. lut ! i ! p = step_of p i)"

lemma InitPossibleMoves_spec: "knight_lut (InitPossibleMoves zero_lut)"
proof -
  have "well_sized zero_lut" by (auto simp: well_sized_def zero_lut_def MAX_POS_MOVE_def BOARD_SIZE_def simp del: replicate_Suc)
  moreover have "zero_lut ! j ! q = 0" if "j < 8" "q < 64" for j q
    using that by (auto simp: zero_lut_def MAX_POS_MOVE_def BOARD_SIZE_def simp del: replicate_Suc)
  ultimately show ?thesis using init_rows_spec [of zero_lut "[0..<64]"]
    by (auto simp: knight_lut_def InitPossibleMoves_def step_of_def MAX_POS_MOVE_def BOARD_SIZE_def simp del: upt_rec_numeral)
qed

text \<open>A knight goes two rows and one column, or one row and two columns.\<close>

definition knight :: "nat \<Rightarrow> nat \<Rightarrow> bool" where
  "knight p q \<longleftrightarrow> p < 64 \<and> q < 64 \<and>
     {\<bar>int q div 8 - int p div 8\<bar>, \<bar>int q mod 8 - int p mod 8\<bar>} = {1, 2}"

lemma less_8: "i < 8 \<longleftrightarrow> i \<in> {0, 1, 2, 3, 4, 5, 6, 7 :: nat}"
  by auto

lemma move_table_facts:
  "i < 8 \<Longrightarrow> move_table ! 0 ! i = 8 * move_table ! 1 ! i + move_table ! 2 ! i"
  "i < 8 \<Longrightarrow> {\<bar>move_table ! 1 ! i\<bar>, \<bar>move_table ! 2 ! i\<bar>} = {1, 2}"
  "i < 8 \<Longrightarrow> move_table ! 0 ! i \<noteq> 0"
proof -
  have "\<forall>i \<in> {0, 1, 2, 3, 4, 5, 6, 7}. move_table ! 0 ! i = 8 * move_table ! 1 ! i + move_table ! 2 ! i"
    "\<forall>i \<in> {0, 1, 2, 3, 4, 5, 6, 7}. {\<bar>move_table ! 1 ! i\<bar>, \<bar>move_table ! 2 ! i\<bar>} = {1, 2}"
    "\<forall>i \<in> {0, 1, 2, 3, 4, 5, 6, 7}. move_table ! 0 ! i \<noteq> 0"
    by (simp_all add: move_table_def doubleton_eq_iff)
  then show "i < 8 \<Longrightarrow> move_table ! 0 ! i = 8 * move_table ! 1 ! i + move_table ! 2 ! i"
    "i < 8 \<Longrightarrow> {\<bar>move_table ! 1 ! i\<bar>, \<bar>move_table ! 2 ! i\<bar>} = {1, 2}"
    "i < 8 \<Longrightarrow> move_table ! 0 ! i \<noteq> 0"
    unfolding less_8 by blast+
qed

lemma abs_cases: "\<bar>a\<bar> = k \<Longrightarrow> a = k \<or> a = - (k :: int)"
  by auto

lemma move_table_complete:
  assumes "{\<bar>a\<bar>, \<bar>b\<bar>} = {1, 2 :: int}"
  shows "\<exists>i < 8. move_table ! 1 ! i = a \<and> move_table ! 2 ! i = b"
proof -
  let ?at = "\<lambda>i :: nat. i < 8 \<and> move_table ! 1 ! i = a \<and> move_table ! 2 ! i = b"
  from assms have "(\<bar>a\<bar> = 1 \<and> \<bar>b\<bar> = 2) \<or> (\<bar>a\<bar> = 2 \<and> \<bar>b\<bar> = 1)" unfolding doubleton_eq_iff .
  then have "?at 1 \<or> ?at 2 \<or> ?at 5 \<or> ?at 6 \<or> ?at 0 \<or> ?at 3 \<or> ?at 4 \<or> ?at 7"
  proof
    assume "\<bar>a\<bar> = 1 \<and> \<bar>b\<bar> = 2"
    then show ?thesis using abs_cases [of a 1] abs_cases [of b 2] by (elim conjE) (auto simp: move_table_def simp del: abs_eq_iff)
  next
    assume "\<bar>a\<bar> = 2 \<and> \<bar>b\<bar> = 1"
    then show ?thesis using abs_cases [of a 2] abs_cases [of b 1] by (elim conjE) (auto simp: move_table_def simp del: abs_eq_iff)
  qed
  then show ?thesis by blast
qed

lemma row_col: "0 \<le> c \<Longrightarrow> c < 8 \<Longrightarrow> (8 * r + c) div 8 = r \<and> (8 * r + c) mod 8 = (c :: int)"
  by auto

lemma cell_less: "r \<le> 7 \<Longrightarrow> c \<le> 7 \<Longrightarrow> int q = 8 * r + c \<Longrightarrow> q < 64"
  by linarith

lemma knight_step:
  assumes p: "p < 64"
  shows "knight p q \<longleftrightarrow> (\<exists>i < 8. step_of p i \<noteq> 0 \<and> int q = int p + step_of p i)"
proof -
  define r c where "r = int p div 8" and "c = int p mod 8"
  have pr: "int p = 8 * r + c" by (simp add: r_def c_def)
  show ?thesis
  proof
    assume k: "knight p q"
    define r' c' where "r' = int q div 8" and "c' = int q mod 8"
    have q: "int q = 8 * r' + c'" "0 \<le> r'" "r' < 8" "0 \<le> c'" "c' < 8"
      using k by (auto simp: r'_def c'_def knight_def)
    obtain i where i: "i < 8" "move_table ! 1 ! i = r' - r" "move_table ! 2 ! i = c' - c"
      using move_table_complete [of "r' - r" "c' - c"] k by (auto simp: knight_def r_def c_def r'_def c'_def)
    have "legit p i" using i q by (simp add: legit_def LEGIT_ROW_def LEGIT_COL_def flip: r_def c_def)
    moreover have "int q = int p + move_table ! 0 ! i" using q(1) pr i move_table_facts(1) [OF i(1)] by simp
    ultimately show "\<exists>i < 8. step_of p i \<noteq> 0 \<and> int q = int p + step_of p i"
      using i(1) move_table_facts(3) by (intro exI [of _ i]) (simp add: step_of_def)
  next
    assume "\<exists>i < 8. step_of p i \<noteq> 0 \<and> int q = int p + step_of p i"
    then obtain i where i: "i < 8" "legit p i" "int q = int p + move_table ! 0 ! i"
      by (auto simp: step_of_def split: if_splits)
    let ?r = "r + move_table ! 1 ! i" and ?c = "c + move_table ! 2 ! i"
    have b: "0 \<le> ?r" "?r < 8" "0 \<le> ?c" "?c < 8"
      using i(2) by (simp_all add: legit_def LEGIT_ROW_def LEGIT_COL_def r_def c_def)
    have "int q = 8 * ?r + ?c" using i(3) pr move_table_facts(1) [OF i(1)] by simp
    with row_col [OF b(3,4), of ?r] have "int q div 8 = ?r" "int q mod 8 = ?c" by (metis, metis)
    moreover have "?r \<le> 7" "?c \<le> 7" using b by simp_all
    then have "q < 64" using \<open>int q = 8 * ?r + ?c\<close> by (rule cell_less)
    ultimately show "knight p q" using p move_table_facts(2) [OF i(1)] by (simp add: knight_def r_def c_def)
  qed
qed

lemma lut_next:
  assumes "knight_lut lut" "p < 64" "i < 8"
  shows "lut_get lut i (int p) = Some (step_of p i)"
    "step_of p i \<noteq> 0 \<Longrightarrow> \<exists>q. knight p q \<and> int q = int p + step_of p i"
proof -
  show "lut_get lut i (int p) = Some (step_of p i)"
    using assms by (simp add: lut_get_def knight_lut_def well_sized_def)
  assume s: "step_of p i \<noteq> 0"
  then have l: "legit p i" "step_of p i = move_table ! 0 ! i" by (simp_all add: step_of_def split: if_splits)
  then have "0 \<le> int p div 8 + move_table ! 1 ! i" "0 \<le> int p mod 8 + move_table ! 2 ! i"
    by (simp_all add: legit_def LEGIT_ROW_def LEGIT_COL_def)
  moreover have "int p = 8 * (int p div 8) + int p mod 8" by simp
  ultimately have "0 \<le> int p + step_of p i" using l(2) move_table_facts(1) [OF assms(3)] by linarith
  then have "int (nat (int p + step_of p i)) = int p + step_of p i" by simp
  then show "\<exists>q. knight p q \<and> int q = int p + step_of p i"
    using knight_step [OF assms(2)] s assms(3) by blast
qed

section \<open>Tours\<close>

text \<open>A tour of the cells outside \<open>V\<close> from \<open>p\<close>.\<close>

definition tour_from :: "nat set \<Rightarrow> nat \<Rightarrow> nat list \<Rightarrow> bool" where
  "tour_from V p path \<longleftrightarrow> path \<noteq> [] \<and> hd path = p \<and> distinct path \<and> set path = {..<64} - V \<and> successively knight path"

lemma tour_from_Cons:
  assumes "p < 64" "p \<notin> V"
  shows "tour_from V p (p # path) \<longleftrightarrow>
    (if insert p V \<inter> {..<64} = {..<64} then path = []
     else \<exists>q. knight p q \<and> q \<notin> insert p V \<and> tour_from (insert p V) q path)"
proof (cases path)
  case Nil
  then show ?thesis using assms by (auto simp: tour_from_def)
next
  case (Cons q rest)
  have "{..<64} - V = insert p ({..<64} - insert p V)" using assms by auto
  then show ?thesis using Cons assms by (auto simp: tour_from_def knight_def)
qed

text \<open>The bit array and the vector as the algorithms use them.\<close>

definition visits :: "bit_array_t \<Rightarrow> nat set \<Rightarrow> bool" where
  "visits b V \<longleftrightarrow> (\<forall>k < 64. bit b k \<longleftrightarrow> k \<in> V)"

definition holds :: "int Vector \<Rightarrow> nat list \<Rightarrow> bool" where
  "holds v xs \<longleftrightarrow> vec_inv v \<and> vec_abs v = map int xs \<and> 0 < vec_capacity v \<and> vec_capacity v \<le> 2 ^ 58"

lemma to_size_cell: "p < 64 \<Longrightarrow> to_size (int p + 1) = p + 1"
proof -
  assume "p < 64"
  then have "p + 1 < 2 ^ 64" "int p + 1 = int (p + 1)" by simp_all
  then show ?thesis by (simp only: to_size_int)
qed

lemma visit:
  assumes "visits b V" "p < 64"
  shows "\<exists>b'. BitsArrSetBit b (to_size (int p + 1)) 1 = Some b' \<and> visits b' (insert p V) \<and>
    (b' = ALL_BITS_ON \<longleftrightarrow> {..<64} \<subseteq> insert p V)"
proof -
  obtain b' where b': "BitsArrSetOn b (p + 1) = Some b'" "\<forall>k < 64. bit b' k \<longleftrightarrow> (k = p \<or> bit b k)"
    using BitsArrSetOn_bit [of "p + 1" b] assms(2) by auto
  then have v: "visits b' (insert p V)" using assms(1) by (auto simp: visits_def)
  have "b' = ALL_BITS_ON \<longleftrightarrow> (\<forall>k < 64. bit b' k)"
  proof
    assume "\<forall>k < 64. bit b' k"
    then have "b' = BitsArrSetAll b'" by (intro bit_word_eqI) (simp add: SetAll_bit)
    then show "b' = ALL_BITS_ON" by (simp add: BitsArrSetAll_def ALL_BITS_ON_def)
  next
    assume "b' = ALL_BITS_ON"
    then have "b' = BitsArrSetAll b'" by (simp add: BitsArrSetAll_def ALL_BITS_ON_def)
    then show "\<forall>k < 64. bit b' k" by (metis SetAll_bit)
  qed
  then show ?thesis using b' v assms(2) by (auto simp: visits_def BitsArrSetBit_def SIZE_OF_BIT_ARRAY_def to_size_cell)
qed

lemma visited: "visits b V \<Longrightarrow> q < 64 \<Longrightarrow> BitsArrGetVal b (to_size (int q + 1)) = Some (if q \<in> V then 1 else 0)"
  by (simp add: to_size_cell BitsArrGetVal_eq visits_def)

lemma push_cell:
  assumes "holds v xs" "length xs \<le> 2 ^ 30"
  shows "\<exists>st v'. VectorPushBack True v (int p) = Some (st, v') \<and> holds v' (xs @ [p])"
proof -
  have inv: "vec_inv v" "0 < vec_capacity v" "vec_capacity v \<le> 2 ^ 58" "vec_len v = length xs"
    using assms(1) vec_facts(6) [of v] by (auto simp: holds_def)
  then show ?thesis using VectorPushBack_ok [OF inv(1,2), of True "int p"] assms inv(4) by (auto simp: holds_def split: if_splits)
qed

lemma pop_cell:
  assumes "holds v (xs @ [p])"
  shows "\<exists>v'. VectorPopBack v = Some v' \<and> holds v' xs"
proof -
  have v: "vec_inv v" "vec_abs v = map int (xs @ [p])" using assms by (simp_all add: holds_def)
  then have "0 < vec_len v" using vec_facts(6) [OF v(1)] by simp
  then show ?thesis using VectorPopBack_eq [OF v(1)] assms by (auto simp: holds_def butlast_append)
qed

section \<open>Backtracking finds a tour if there is one\<close>

text \<open>What a call from \<open>p\<close> does when the cells in \<open>V\<close> are visited and the vector holds \<open>xs\<close>.\<close>

definition answers ::
  "(bit_array_t \<times> int Vector) option \<Rightarrow> nat list \<Rightarrow> (nat list \<Rightarrow> bool) \<Rightarrow> bool" where
  "answers r xs tour \<longleftrightarrow>
     (\<exists>v' path. r = Some (ALL_BITS_ON, v') \<and> tour path \<and> holds v' (xs @ path)) \<or>
     (\<exists>v'. r = Some (0, v') \<and> (\<forall>path. \<not> tour path) \<and> holds v' xs)"

lemma answers_cong: "answers r xs t \<Longrightarrow> (\<And>path. t path \<longleftrightarrow> t' path) \<Longrightarrow> answers r xs t'"
  by (simp add: answers_def)

text \<open>The tours that continue from \<open>p\<close> with one of the moves \<open>is\<close>.\<close>

definition goes_on :: "nat set \<Rightarrow> nat \<Rightarrow> nat list \<Rightarrow> nat list \<Rightarrow> bool" where
  "goes_on V p is path \<longleftrightarrow> (\<exists>rest. path = p # rest \<and>
     (\<exists>i \<in> set is. \<exists>q. step_of p i \<noteq> 0 \<and> int q = int p + step_of p i \<and> q \<notin> V \<and> tour_from V q rest))"

lemma goes_on_Cons:
  "goes_on V p (i # is) path \<longleftrightarrow> goes_on V p [i] path \<or> goes_on V p is path"
  unfolding goes_on_def by simp blast

lemma back_loop_spec:
  assumes lut: "knight_lut lut" and p: "p < 64" and b: "visits b V"
    and walk: "\<And>q v. knight p q \<Longrightarrow> q \<notin> V \<Longrightarrow> holds v (xs @ [p]) \<Longrightarrow> answers (walk v b (int q)) (xs @ [p]) (tour_from V q)"
  shows "(\<forall>i \<in> set is. i < 8) \<Longrightarrow> holds v (xs @ [p]) \<Longrightarrow>
    answers (back_loop walk lut b (int p) is v) xs (goes_on V p is)"
proof (induction "is" arbitrary: v)
  case Nil
  then show ?case by (auto simp: answers_def goes_on_def dest: pop_cell)
next
  case (Cons i "is")
  have i: "i < 8" using Cons.prems by simp
  have skip: ?case if "back_loop walk lut b (int p) (i # is) v = back_loop walk lut b (int p) is v'"
    "holds v' (xs @ [p])" "\<And>path. \<not> goes_on V p [i] path" for v'
  proof -
    have "answers (back_loop walk lut b (int p) is v') xs (goes_on V p is)"
      using Cons.IH [of v'] Cons.prems(1) that(2) by simp
    then show ?thesis using that(1,3) goes_on_Cons [of V p i "is"] by (simp add: answers_def)
  qed
  show ?case
  proof (cases "step_of p i = 0")
    case True
    then show ?thesis using lut_next(1) [OF lut p i] Cons.prems(2) by (intro skip) (simp_all add: goes_on_def)
  next
    case False
    then obtain q where q: "knight p q" "int q = int p + step_of p i" using lut_next(2) [OF lut p i] by blast
    have q64: "q < 64" using q(1) by (simp add: knight_def)
    have only: "goes_on V p [i] path \<longleftrightarrow> (\<exists>rest. path = p # rest \<and> q \<notin> V \<and> tour_from V q rest)" for path
      unfolding goes_on_def using False q(2) by (auto simp flip: q(2))
    have val: "BitsArrGetVal b (to_size (int p + step_of p i + 1)) = Some (if q \<in> V then 1 else 0)"
      using visited [OF b q64] q(2) by simp
    show ?thesis
    proof (cases "q \<in> V")
      case True
      then show ?thesis using lut_next(1) [OF lut p i] val only Cons.prems(2) by (intro skip) simp_all
    next
      case out: False
      have step: "back_loop walk lut b (int p) (i # is) v = do {
          (r, vector) \<leftarrow> walk v b (int q);
          if r = ALL_BITS_ON then Some (ALL_BITS_ON, vector)
          else back_loop walk lut b (int p) is vector }"
        using lut_next(1) [OF lut p i] val out False by (simp add: q(2))
      from walk [OF q(1) out Cons.prems(2), unfolded answers_def] show ?thesis
      proof (elim disjE exE conjE)
        fix v' path
        assume r: "walk v b (int q) = Some (ALL_BITS_ON, v')" "tour_from V q path" "holds v' ((xs @ [p]) @ path)"
        then have "goes_on V p (i # is) (p # path)" using only out goes_on_Cons by blast
        moreover have "back_loop walk lut b (int p) (i # is) v = Some (ALL_BITS_ON, v')" using step r(1) by simp
        ultimately show ?thesis
          using r(3) unfolding answers_def by (intro disjI1 exI [of _ v'] exI [of _ "p # path"]) simp
      next
        fix v'
        assume r: "walk v b (int q) = Some (0, v')" "\<forall>path. \<not> tour_from V q path" "holds v' (xs @ [p])"
        have "back_loop walk lut b (int p) (i # is) v = back_loop walk lut b (int p) is v'"
          unfolding step using r(1) by (simp add: ALL_BITS_ON_def)
        from this r(3) show ?thesis using r(2) only by (intro skip) auto
      qed
    qed
  qed
qed

lemma goes_on_all:
  assumes "p < 64" "p \<notin> V" "\<not> {..<64} \<subseteq> insert p V"
  shows "goes_on (insert p V) p [0..<MAX_POS_MOVE] path \<longleftrightarrow> tour_from V p path"
proof -
  have open_cells: "insert p V \<inter> {..<64} \<noteq> {..<64}" using assms(3) by blast
  have moves: "(\<exists>i \<in> set [0..<MAX_POS_MOVE]. \<exists>q. step_of p i \<noteq> 0 \<and> int q = int p + step_of p i \<and> q \<notin> insert p V \<and> tour_from (insert p V) q rest)
    \<longleftrightarrow> (\<exists>q. knight p q \<and> q \<notin> insert p V \<and> tour_from (insert p V) q rest)" for rest
  proof -
    have "i \<in> set [0..<MAX_POS_MOVE] \<longleftrightarrow> i < 8" for i by (simp add: MAX_POS_MOVE_def)
    then show ?thesis unfolding knight_step [OF assms(1)] by blast
  qed
  have "tour_from V p path \<Longrightarrow> \<exists>rest. path = p # rest" by (cases path) (auto simp: tour_from_def)
  then show ?thesis unfolding goes_on_def moves using tour_from_Cons [OF assms(1,2)] open_cells by metis
qed

lemma WalkThrowChessBackTracking_spec:
  assumes lut: "knight_lut lut"
  shows "p < 64 \<Longrightarrow> p \<notin> V \<Longrightarrow> visits b V \<Longrightarrow> holds v xs \<Longrightarrow> length xs + card ({..<64} - V) \<le> 2 ^ 30 \<Longrightarrow>
    answers (WalkThrowChessBackTracking lut (\<lambda>_. True) v b (int p)) xs (tour_from V p)"
proof (induction "card ({..<64} - V)" arbitrary: p V b v xs rule: less_induct)
  case less
  let ?V = "insert p V"
  have fewer: "card ({..<64} - V) = Suc (card ({..<64} - ?V))"
    unfolding Diff_insert [of _ p V] using less.prems(1,2) by (intro card.remove) auto
  obtain b' where b': "BitsArrSetBit b (to_size (int p + 1)) 1 = Some b'" "visits b' ?V"
    "b' = ALL_BITS_ON \<longleftrightarrow> {..<64} \<subseteq> ?V" using visit [OF less.prems(3,1)] by blast
  obtain st v' where v': "VectorPushBack True v (int p) = Some (st, v')" "holds v' (xs @ [p])"
    using push_cell [OF less.prems(4), of p] less.prems(5) by auto
  let ?walk = "WalkThrowChessBackTracking lut (\<lambda>_. True)"
  have call: "?walk v b (int p) = (if b' = ALL_BITS_ON then Some (ALL_BITS_ON, v')
      else back_loop ?walk lut b' (int p) [0..<MAX_POS_MOVE] v')"
    by (subst WalkThrowChessBackTracking.simps) (simp add: b'(1) v'(1) del: upt_rec_numeral)
  show ?case
  proof (cases "{..<64} \<subseteq> ?V")
    case True
    then have "tour_from V p [p]" using less.prems(1,2) by (auto simp: tour_from_def)
    then show ?thesis using call b'(3) True v'(2) by (auto simp: answers_def)
  next
    case False
    have "answers (back_loop ?walk lut b' (int p) [0..<MAX_POS_MOVE] v') xs (goes_on ?V p [0..<MAX_POS_MOVE])"
    proof (rule back_loop_spec [OF lut less.prems(1) b'(2) _ _ v'(2)])
      fix q v
      assume "knight p q" "q \<notin> ?V" "holds v (xs @ [p])"
      then show "answers (?walk v b' (int q)) (xs @ [p]) (tour_from ?V q)"
        using fewer less.prems(5) b'(2) by (intro less.hyps) (simp_all add: knight_def)
    qed (simp add: MAX_POS_MOVE_def)
    then show ?thesis using call b'(3) False goes_on_all [OF less.prems(1,2) False] by (simp add: answers_def)
  qed
qed

section \<open>There is a tour from every cell\<close>

definition knight_check :: "nat \<Rightarrow> nat \<Rightarrow> bool" where
  "knight_check p q \<longleftrightarrow> (let r = \<bar>int q div 8 - int p div 8\<bar>; c = \<bar>int q mod 8 - int p mod 8\<bar>
     in p < 64 \<and> q < 64 \<and> (r = 1 \<and> c = 2 \<or> r = 2 \<and> c = 1))"

lemma knight_code: "knight p q \<longleftrightarrow> knight_check p q"
  by (auto simp: knight_def knight_check_def Let_def doubleton_eq_iff)

text \<open>A tour that ends a knight's move away from its start; its rotations start at every cell.\<close>

definition closed_tour :: "nat list" where
  "closed_tour = [0, 17, 2, 8, 25, 40, 57, 51, 61, 55, 38, 23, 6, 12, 22, 7, 13, 3, 9, 24, 34, 49, 32, 42, 59,
     53, 63, 46, 31, 14, 4, 19, 29, 39, 54, 44, 50, 56, 41, 58, 48, 33, 16, 1, 18, 28, 11, 5, 15,
     21, 36, 26, 43, 60, 45, 62, 47, 30, 20, 35, 52, 37, 27, 10]"

lemma closed_tour_ok:
  "set closed_tour = {..<64}" "distinct closed_tour" "successively knight (closed_tour @ [hd closed_tour])"
proof -
  have "sort closed_tour = [0..<64]" by code_simp
  then show "set closed_tour = {..<64}" "distinct closed_tour"
    by (metis set_sort atLeast_upt, metis distinct_sort distinct_upt)
  have "successively knight_check (closed_tour @ [hd closed_tour])" by code_simp
  moreover have "knight = knight_check" by (intro ext knight_code)
  ultimately show "successively knight (closed_tour @ [hd closed_tour])" by (simp only:)
qed

lemma tour_exists: "p < 64 \<Longrightarrow> \<exists>path. tour_from {} p path"
proof -
  assume "p < 64"
  then have "p \<in> set closed_tour" using closed_tour_ok(1) by simp
  then obtain xs ys where c: "closed_tour = xs @ p # ys" by (meson split_list)
  let ?path = "p # ys @ xs"
  have "set ?path = {..<64}" "distinct ?path" using closed_tour_ok(1,2) unfolding c by auto
  moreover have "successively knight ?path"
    using closed_tour_ok(3) unfolding c by (cases xs; cases ys) (auto simp: successively_append_iff successively_Cons hd_append split: if_splits)
  ultimately show ?thesis by (auto simp: tour_from_def)
qed

lemma VectorCreate_holds: "VectorCreate True True 10 = Some v \<Longrightarrow> holds v []"
  using VectorCreate_inv [of 10] by (auto simp: VectorCreate_def holds_def)

text \<open>C24. Backtracking from any cell of an empty board, with a fresh vector and enough memory, returns
  with all bits on, and the vector then holds a knight's tour of all 64 cells that starts at that cell.\<close>

theorem backtracking_finds_tour:
  assumes "p < 64" and "VectorCreate True True 10 = Some v"
  shows "\<exists>v' path. WalkThrowChessBackTracking (InitPossibleMoves zero_lut) (\<lambda>_. True) v 0 (int p) = Some (ALL_BITS_ON, v') \<and>
    vec_abs v' = map int path \<and> hd path = p \<and> distinct path \<and> set path = {..<64} \<and> successively knight path"
proof -
  have "visits 0 {}" by (simp add: visits_def)
  from WalkThrowChessBackTracking_spec [OF InitPossibleMoves_spec assms(1) _ this VectorCreate_holds [OF assms(2)]]
  have "answers (WalkThrowChessBackTracking (InitPossibleMoves zero_lut) (\<lambda>_. True) v 0 (int p)) [] (tour_from {} p)"
    by simp
  with tour_exists [OF assms(1)] show ?thesis by (auto simp: answers_def tour_from_def holds_def)
qed

lemma backtracking_finds_tour_witness:
  "\<exists>v v' path. WalkThrowChessBackTracking (InitPossibleMoves zero_lut) (\<lambda>_. True) v 0 63 = Some (ALL_BITS_ON, v') \<and>
    vec_abs v' = map int path \<and> hd path = 63 \<and> distinct path \<and> set path = {..<64} \<and> successively knight path"
proof -
  obtain v where v: "VectorCreate True True 10 = Some (v :: int Vector)" using VectorCreate_inv [of 10] by auto
  have "(63 :: nat) < 64" "int 63 = 63" by simp_all
  with backtracking_finds_tour [OF this(1) v] show ?thesis by metis
qed

section \<open>The heuristic walk stays on the board\<close>

definition walk_from :: "nat set \<Rightarrow> nat \<Rightarrow> nat list \<Rightarrow> bool" where
  "walk_from V p path \<longleftrightarrow> path \<noteq> [] \<and> hd path = p \<and> distinct path \<and> set path \<subseteq> {..<64} - V \<and> successively knight path"

lemma walk_from_Cons:
  "p < 64 \<Longrightarrow> p \<notin> V \<Longrightarrow> knight p q \<Longrightarrow> walk_from (insert p V) q path \<Longrightarrow> walk_from V p (p # path)"
  by (cases path) (auto simp: walk_from_def)

lemma set_counter: "knight_lut lut \<Longrightarrow> knight_lut (set_cell lut 8 q c)"
  by (simp add: knight_lut_def set_cell_size) (auto simp: set_cell_def)

lemma warnsdorff_loop_spec:
  assumes p: "p < 64" and b: "visits b V"
  shows "knight_lut lut \<Longrightarrow> (\<forall>i \<in> set is. i < 8) \<Longrightarrow>
    \<exists>lut' m. warnsdorff_loop b (int p) is lut mn m0 = Some (lut', m) \<and> knight_lut lut' \<and>
      (m = m0 \<or> m \<noteq> 0 \<and> (\<exists>q. knight p q \<and> q \<notin> V \<and> int q = int p + m))"
proof (induction "is" arbitrary: lut mn m0)
  case (Cons i "is")
  then have i: "i < 8" by simp
  note get = lut_next(1) [OF Cons.prems(1) p i]
  show ?case
  proof (cases "step_of p i = 0")
    case True
    then show ?thesis using Cons get by simp
  next
    case False
    then obtain q where q: "knight p q" "int q = int p + step_of p i" using lut_next(2) [OF Cons.prems(1) p i] by blast
    then have q64: "q < 64" by (simp add: knight_def)
    have val: "BitsArrGetVal b (to_size (int p + step_of p i + 1)) = Some (if q \<in> V then 1 else 0)"
      using visited [OF b q64] q(2) by simp
    have counter: "lut_get lut 8 (int p + step_of p i) = Some (lut ! 8 ! q)"
      using Cons.prems(1) q64 by (simp add: lut_get_def knight_lut_def well_sized_def flip: q(2))
    have IH: "\<exists>lut' m. warnsdorff_loop b (int p) is (set_cell lut 8 q c) mn m0 = Some (lut', m) \<and> knight_lut lut' \<and>
        (m = m0 \<or> m \<noteq> 0 \<and> (\<exists>q. knight p q \<and> q \<notin> V \<and> int q = int p + m))" for c mn m0
      using Cons.IH [OF set_counter [OF Cons.prems(1)], of q c mn m0] Cons.prems(2) by simp
    have at: "nat (int p + step_of p i) = q" using q(2) by simp
    show ?thesis
    proof (cases "q \<in> V")
      case True
      then show ?thesis using Cons get val False by simp
    next
      case out: False
      have "warnsdorff_loop b (int p) (i # is) lut mn m0 =
          (if mn > lut ! 8 ! q then warnsdorff_loop b (int p) is (set_cell lut 8 q (lut ! 8 ! q - 1)) (lut ! 8 ! q - 1) (step_of p i)
           else warnsdorff_loop b (int p) is (set_cell lut 8 q (lut ! 8 ! q - 1)) mn m0)"
        using get val out False counter at by (simp add: Let_def)
      then show ?thesis using IH [of "lut ! 8 ! q - 1"] out False q by metis
    qed
  qed
qed simp

lemma WalkThrowChessWarnsdorff_spec:
  "knight_lut lut \<Longrightarrow> p < 64 \<Longrightarrow> p \<notin> V \<Longrightarrow> visits b V \<Longrightarrow> holds v xs \<Longrightarrow> length xs + card ({..<64} - V) \<le> 2 ^ 30 \<Longrightarrow>
   \<exists>r lut' v' path. WalkThrowChessWarnsdorff (\<lambda>_. True) lut v b (int p) = Some (r, lut', v') \<and>
     walk_from V p path \<and> holds v' (xs @ path) \<and> (r = 0 \<or> r = ALL_BITS_ON \<and> {..<64} \<subseteq> V \<union> set path)"
proof (induction "card ({..<64} - V)" arbitrary: lut p V b v xs rule: less_induct)
  case less
  let ?V = "insert p V"
  have fewer: "card ({..<64} - V) = Suc (card ({..<64} - ?V))"
    unfolding Diff_insert [of _ p V] using less.prems(2,3) by (intro card.remove) auto
  obtain b' where b': "BitsArrSetBit b (to_size (int p + 1)) 1 = Some b'" "visits b' ?V"
    "b' = ALL_BITS_ON \<longleftrightarrow> {..<64} \<subseteq> ?V" using visit [OF less.prems(4,2)] by blast
  obtain st v' where v': "VectorPushBack True v (int p) = Some (st, v')" "holds v' (xs @ [p])"
    using push_cell [OF less.prems(5), of p] less.prems(6) by auto
  have "\<forall>i \<in> set [0..<MAX_POS_MOVE]. i < 8" by (simp add: MAX_POS_MOVE_def)
  then obtain lut' m where m: "warnsdorff_loop b' (int p) [0..<MAX_POS_MOVE] lut 9 0 = Some (lut', m)" "knight_lut lut'"
    "m = 0 \<or> m \<noteq> 0 \<and> (\<exists>q. knight p q \<and> q \<notin> ?V \<and> int q = int p + m)"
    using warnsdorff_loop_spec [OF less.prems(2) b'(2) less.prems(1), of "[0..<MAX_POS_MOVE]" 9 0] by blast
  have call: "WalkThrowChessWarnsdorff (\<lambda>_. True) lut v b (int p) = (if b' = ALL_BITS_ON then Some (ALL_BITS_ON, lut, v')
      else if m = 0 then Some (0, lut', v') else WalkThrowChessWarnsdorff (\<lambda>_. True) lut' v' b' (int p + m))"
    by (subst WalkThrowChessWarnsdorff.simps) (simp add: b'(1) v'(1) m(1) del: upt_rec_numeral)
  have single: "walk_from V p [p]" using less.prems by (simp add: walk_from_def)
  consider "{..<64} \<subseteq> ?V" | "\<not> {..<64} \<subseteq> ?V" "m = 0"
    | q where "\<not> {..<64} \<subseteq> ?V" "m \<noteq> 0" "knight p q" "q \<notin> ?V" "int q = int p + m" using m(3) by blast
  then show ?case
  proof cases
    case 1
    then show ?thesis using call b'(3) single v'(2)
      by (intro exI [of _ ALL_BITS_ON] exI [of _ lut] exI [of _ v'] exI [of _ "[p]"]) auto
  next
    case 2
    then show ?thesis using call b'(3) single v'(2)
      by (intro exI [of _ 0] exI [of _ lut'] exI [of _ v'] exI [of _ "[p]"]) simp
  next
    case 3
    then have "q < 64" by (simp add: knight_def)
    with less.hyps [OF _ m(2) _ 3(4) b'(2) v'(2)] fewer less.prems(6)
    obtain r lut'' v'' path where r: "WalkThrowChessWarnsdorff (\<lambda>_. True) lut' v' b' (int q) = Some (r, lut'', v'')"
      "walk_from ?V q path" "holds v'' ((xs @ [p]) @ path)" "r = 0 \<or> r = ALL_BITS_ON \<and> {..<64} \<subseteq> ?V \<union> set path" by auto
    have "WalkThrowChessWarnsdorff (\<lambda>_. True) lut v b (int p) = Some (r, lut'', v'')"
      using call b'(3) 3 r(1) by simp
    moreover have "walk_from V p (p # path)" using walk_from_Cons less.prems(2,3) 3(3) r(2) by blast
    ultimately show ?thesis using r(3,4) by (intro exI [of _ r] exI [of _ lut''] exI [of _ v''] exI [of _ "p # path"]) auto
  qed
qed

text \<open>The heuristic walk from any cell of an empty board ends without a fault. The vector then holds
  a path of knight's moves that starts at that cell and visits no cell twice; when the result is all ones, the
  path visits every cell, and otherwise the result is 0 and the partial path stays in the vector.\<close>

theorem warnsdorff_walks:
  assumes "p < 64" and "VectorCreate True True 10 = Some v"
  shows "\<exists>r lut' v' path. WalkThrowChessWarnsdorff (\<lambda>_. True) (InitPossibleMoves zero_lut) v 0 (int p) = Some (r, lut', v') \<and>
    vec_abs v' = map int path \<and> hd path = p \<and> distinct path \<and> set path \<subseteq> {..<64} \<and> successively knight path \<and>
    (r = ALL_BITS_ON \<and> set path = {..<64} \<or> r = 0)"
proof -
  have "visits 0 {}" by (simp add: visits_def)
  from WalkThrowChessWarnsdorff_spec [OF InitPossibleMoves_spec assms(1) _ this VectorCreate_holds [OF assms(2)]]
  obtain r lut' v' path where r: "WalkThrowChessWarnsdorff (\<lambda>_. True) (InitPossibleMoves zero_lut) v 0 (int p) = Some (r, lut', v')"
    "walk_from {} p path" "holds v' path" "r = 0 \<or> r = ALL_BITS_ON \<and> {..<64} \<subseteq> set path" by auto
  then show ?thesis by (intro exI [of _ r] exI [of _ lut'] exI [of _ v'] exI [of _ path]) (auto simp: walk_from_def holds_def)
qed

lemma warnsdorff_walks_witness:
  "\<exists>v r lut' v' path. WalkThrowChessWarnsdorff (\<lambda>_. True) (InitPossibleMoves zero_lut) v 0 63 = Some (r, lut', v') \<and>
    vec_abs v' = map int path \<and> hd path = 63 \<and> distinct path \<and> set path \<subseteq> {..<64} \<and> successively knight path \<and>
    (r = ALL_BITS_ON \<and> set path = {..<64} \<or> r = 0)"
proof -
  obtain v where v: "VectorCreate True True 10 = Some (v :: int Vector)" using VectorCreate_inv [of 10] by auto
  have "(63 :: nat) < 64" "int 63 = 63" by simp_all
  with warnsdorff_walks [OF this(1) v] show ?thesis by metis
qed

end
