(* ===== verification/Memory.thy ===== *)
theory Memory
  imports Prelude "HOL-Library.Word"
begin

unbundle bit_operations_syntax

text \<open>
  \<open>Memset\<close>, \<open>Memcpy\<close> and \<open>Memmove\<close> of \<open>c/ws8/ws8.c\<close>, which work on words of eight bytes where they can.
  The memory maps the addresses of the objects to bytes; an access to another address is a fault. Words
  are stored with the low byte first. The code advances its byte pointers by \<open>++*(char *)&run_over\<close>,
  which increments the low byte of the pointer alone.
\<close>

section \<open>The memory\<close>

type_synonym memory = "nat \<rightharpoonup> 8 word"

definition store1 :: "memory \<Rightarrow> nat \<Rightarrow> 8 word \<Rightarrow> memory option" where
  "store1 m a b = (case m a of None \<Rightarrow> None | Some _ \<Rightarrow> Some (m(a \<mapsto> b)))"

fun store_bytes :: "memory \<Rightarrow> nat \<Rightarrow> 8 word list \<Rightarrow> memory option" where
  "store_bytes m a [] = Some m"
| "store_bytes m a (b # bs) = do { m \<leftarrow> store1 m a b; store_bytes m (a + 1) bs }"

fun load_bytes :: "memory \<Rightarrow> nat \<Rightarrow> nat \<Rightarrow> 8 word list option" where
  "load_bytes m a 0 = Some []"
| "load_bytes m a (Suc n) = do { b \<leftarrow> m a; bs \<leftarrow> load_bytes m (a + 1) n; Some (b # bs) }"

definition bytes_of :: "64 word \<Rightarrow> 8 word list" where
  "bytes_of w = map (\<lambda>i. ucast (drop_bit (8 * i) w)) [0..<8]"

definition word_of :: "8 word list \<Rightarrow> 64 word" where
  "word_of bs = foldr (\<lambda>b w. push_bit 8 w OR ucast b) bs 0"

definition load8 :: "memory \<Rightarrow> nat \<Rightarrow> 64 word option" where
  "load8 m a = do { bs \<leftarrow> load_bytes m a 8; Some (word_of bs) }"

definition store8 :: "memory \<Rightarrow> nat \<Rightarrow> 64 word \<Rightarrow> memory option" where
  "store8 m a w = store_bytes m a (bytes_of w)"

text \<open>The increment of the low byte of a pointer.\<close>

definition bump :: "nat \<Rightarrow> nat" where
  "bump p = p - p mod 256 + (p mod 256 + 1) mod 256"

section \<open>Memset\<close>

partial_function (option) memset_head :: "memory \<Rightarrow> int \<Rightarrow> nat \<Rightarrow> nat \<Rightarrow> (memory \<times> nat \<times> nat) option" where
  "memset_head m c run_over n = (if run_over mod 8 \<noteq> 0 \<and> 0 < n then do {
       m \<leftarrow> store1 m run_over (word_of_int (c AND 0xFF));
       memset_head m c (bump run_over) (n - 1)
     } else Some (m, run_over, n))"

definition memset_word :: "int \<Rightarrow> nat \<Rightarrow> 64 word" where
  "memset_word c n =
     (if n = 0 then 0 else fold (\<lambda>i word_c. push_bit 8 word_c OR word_of_int (c AND 0xFF)) [0..<8] 0)"

partial_function (option) memset_words :: "memory \<Rightarrow> 64 word \<Rightarrow> nat \<Rightarrow> nat \<Rightarrow> (memory \<times> nat \<times> nat) option" where
  "memset_words m word_c run_over n = (if 8 \<le> n then do {
       m \<leftarrow> store8 m run_over word_c;
       memset_words m word_c (run_over + 8) (n - 8)
     } else Some (m, run_over, n))"

partial_function (option) memset_tail :: "memory \<Rightarrow> int \<Rightarrow> nat \<Rightarrow> nat \<Rightarrow> memory option" where
  "memset_tail m c run_over n = (if 0 < n then do {
       m \<leftarrow> store1 m run_over (word_of_int c);
       memset_tail m c (bump run_over) (n - 1)
     } else Some m)"

definition Memset :: "memory \<Rightarrow> nat \<Rightarrow> int \<Rightarrow> nat \<Rightarrow> (nat \<times> memory) option" where
  "Memset m s c n = do {
     (m, run_over, n) \<leftarrow> memset_head m c s n;
     let word_c = memset_word c n;
     (m, run_over, n) \<leftarrow> memset_words m word_c run_over n;
     m \<leftarrow> memset_tail m c run_over n;
     Some (s, m)
   }"

section \<open>Memcpy\<close>

partial_function (option) memcpy_head :: "memory \<Rightarrow> nat \<Rightarrow> nat \<Rightarrow> nat \<Rightarrow> (memory \<times> nat \<times> nat \<times> nat) option" where
  "memcpy_head m dest src n = (if dest mod 8 \<noteq> 0 then do {
       b \<leftarrow> m src;
       m \<leftarrow> store1 m dest b;
       memcpy_head m (bump dest) (bump src) (szsub n 1)
     } else Some (m, dest, src, n))"

partial_function (option) memcpy_words :: "memory \<Rightarrow> nat \<Rightarrow> nat \<Rightarrow> nat \<Rightarrow> (memory \<times> nat \<times> nat \<times> nat) option" where
  "memcpy_words m dest src n = (if 8 \<le> n then do {
       w \<leftarrow> load8 m src;
       m \<leftarrow> store8 m dest w;
       memcpy_words m (dest + 8) (src + 8) (n - 8)
     } else Some (m, dest, src, n))"

partial_function (option) memcpy_tail :: "memory \<Rightarrow> nat \<Rightarrow> nat \<Rightarrow> nat \<Rightarrow> memory option" where
  "memcpy_tail m dest src n = (if 0 < n then do {
       b \<leftarrow> m src;
       m \<leftarrow> store1 m dest b;
       memcpy_tail m (bump dest) (bump src) (n - 1)
     } else Some m)"

definition Memcpy :: "memory \<Rightarrow> nat \<Rightarrow> nat \<Rightarrow> nat \<Rightarrow> (nat \<times> memory) option" where
  "Memcpy m dest src n = do {
     (m, d, s, n) \<leftarrow> memcpy_head m dest src n;
     (m, d, s, n) \<leftarrow> memcpy_words m d s n;
     m \<leftarrow> memcpy_tail m d s n;
     Some (dest, m)
   }"

section \<open>Memmove\<close>

text \<open>The library function \<open>memcpy\<close>, undefined on regions that overlap.\<close>

definition lib_memcpy :: "memory \<Rightarrow> nat \<Rightarrow> nat \<Rightarrow> nat \<Rightarrow> memory option" where
  "lib_memcpy m dest src n =
     (if n = 0 \<or> dest + n \<le> src \<or> src + n \<le> dest then do { bs \<leftarrow> load_bytes m src n; store_bytes m dest bs } else None)"

text \<open>The macros \<open>DEST_AND_N\<close> and \<open>DEST_AND_N_MINUS_8\<close> add the count, an unsigned number, to the address.\<close>

partial_function (option) memmove_head :: "memory \<Rightarrow> nat \<Rightarrow> nat \<Rightarrow> nat \<Rightarrow> (memory \<times> nat) option" where
  "memmove_head m dest src n = (if (dest + n) mod 2 ^ 64 mod 8 \<noteq> 0 then do {
       b \<leftarrow> m (szsub ((src + n) mod 2 ^ 64) 1);
       m \<leftarrow> store1 m (szsub ((dest + n) mod 2 ^ 64) 1) b;
       memmove_head m dest src (szsub n 1)
     } else Some (m, n))"

partial_function (option) memmove_words :: "memory \<Rightarrow> nat \<Rightarrow> nat \<Rightarrow> nat \<Rightarrow> (memory \<times> nat) option" where
  "memmove_words m dest src n = (if 8 \<le> n then do {
       w \<leftarrow> load8 m (szsub ((src + n) mod 2 ^ 64) 8);
       m \<leftarrow> store8 m (szsub ((dest + n) mod 2 ^ 64) 8) w;
       memmove_words m dest src (n - 8)
     } else Some (m, n))"

partial_function (option) memmove_tail :: "memory \<Rightarrow> nat \<Rightarrow> nat \<Rightarrow> nat \<Rightarrow> memory option" where
  "memmove_tail m dest src n = (if 0 < n then do {
       b \<leftarrow> m (szsub ((src + n) mod 2 ^ 64) 1);
       m \<leftarrow> store1 m (szsub ((dest + n) mod 2 ^ 64) 1) b;
       memmove_tail m dest src (n - 1)
     } else Some m)"

definition Memmove :: "memory \<Rightarrow> nat \<Rightarrow> nat \<Rightarrow> nat \<Rightarrow> (nat \<times> memory) option" where
  "Memmove m dest src n =
     (if dest < src \<or> dest > (src + n) mod 2 ^ 64 then do { m \<leftarrow> lib_memcpy m dest src n; Some (dest, m) }
      else do {
        (m, n) \<leftarrow> memmove_head m dest src n;
        (m, n) \<leftarrow> memmove_words m dest src n;
        m \<leftarrow> memmove_tail m dest src n;
        Some (dest, m)
      })"

section \<open>Bytes and words\<close>

definition valid :: "memory \<Rightarrow> nat \<Rightarrow> nat \<Rightarrow> bool" where
  "valid m a n \<longleftrightarrow> (\<forall>x. a \<le> x \<and> x < a + n \<longrightarrow> m x \<noteq> None)"

lemma validD: "valid m a n \<Longrightarrow> a \<le> x \<Longrightarrow> x < a + n \<Longrightarrow> \<exists>b. m x = Some b"
  by (auto simp: valid_def)

lemma store1_spec: "valid m a n \<Longrightarrow> 0 < n \<Longrightarrow> store1 m a b = Some (m(a \<mapsto> b))"
  using validD [of m a n a] by (auto simp: store1_def)

lemma store_bytes_spec:
  "valid m a (length bs) \<Longrightarrow> store_bytes m a bs = Some (\<lambda>x. if a \<le> x \<and> x < a + length bs then Some (bs ! (x - a)) else m x)"
proof (induction bs arbitrary: m a)
  case (Cons b bs)
  have "valid (m(a \<mapsto> b)) (a + 1) (length bs)" using Cons.prems by (auto simp: valid_def)
  note IH = Cons.IH [OF this]
  have "store1 m a b = Some (m(a \<mapsto> b))" by (rule store1_spec [OF Cons.prems]) simp
  then have "store_bytes m a (b # bs) =
      Some (\<lambda>x. if a + 1 \<le> x \<and> x < a + 1 + length bs then Some (bs ! (x - (a + 1))) else (m(a \<mapsto> b)) x)"
    by (simp only: store_bytes.simps bind.simps IH)
  also have "\<dots> = Some (\<lambda>x. if a \<le> x \<and> x < a + length (b # bs) then Some ((b # bs) ! (x - a)) else m x)"
    by (auto simp: nth_Cons' fun_eq_iff)
  finally show ?case .
qed (auto simp: fun_eq_iff)

lemma load_bytes_spec: "valid m a n \<Longrightarrow> load_bytes m a n = Some (map (the \<circ> m) [a..<a + n])"
proof (induction n arbitrary: a)
  case (Suc n)
  have "valid m (a + 1) n" using Suc.prems by (auto simp: valid_def)
  from Suc.IH [OF this] obtain b where "m a = Some b" "load_bytes m (a + 1) n = Some (map (the \<circ> m) [a + 1..<a + 1 + n])"
    using validD [OF Suc.prems, of a] by auto
  then show ?case by (simp add: upt_rec [of a])
qed simp

lemma bit_word_of:
  "k < 64 \<Longrightarrow> bit (word_of bs) k \<longleftrightarrow> k div 8 < length bs \<and> bit (bs ! (k div 8)) (k mod 8)"
proof (induction bs arbitrary: k)
  case (Cons b bs)
  show ?case
  proof (cases "k < 8")
    case True
    then show ?thesis by (simp add: word_of_def bit_simps)
  next
    case False
    then have "bit (word_of (b # bs)) k \<longleftrightarrow> bit (word_of bs) (k - 8)"
      using Cons.prems by (auto simp: word_of_def bit_simps dest: bit_imp_le_length)
    moreover have "k div 8 = Suc ((k - 8) div 8)" "k mod 8 = (k - 8) mod 8"
      using False by (auto simp: div_if [of 8 k] mod_if [of k 8])
    ultimately show ?thesis using Cons.IH [of "k - 8"] Cons.prems by simp
  qed
qed (simp add: word_of_def)

lemma bytes_of_word_of: "length bs = 8 \<Longrightarrow> bytes_of (word_of bs) = bs"
proof (rule nth_equalityI)
  fix i
  assume l: "length bs = 8" and "i < length (bytes_of (word_of bs))"
  then have i: "i < 8" by (simp add: bytes_of_def)
  have "ucast (drop_bit (8 * i) (word_of bs)) = bs ! i"
  proof (rule bit_word_eqI)
    fix k
    assume k: "k < LENGTH(8)"
    then have "(8 * i + k) div 8 = i" "(8 * i + k) mod 8 = k" by simp_all
    with k i l show "bit (ucast (drop_bit (8 * i) (word_of bs)) :: 8 word) k \<longleftrightarrow> bit (bs ! i) k"
      by (simp add: bit_simps bit_word_of)
  qed
  then show "bytes_of (word_of bs) ! i = bs ! i" using i by (simp add: bytes_of_def del: upt_rec_numeral)
qed (simp add: bytes_of_def)

section \<open>Copies and fills\<close>

definition copied :: "memory \<Rightarrow> nat \<Rightarrow> nat \<Rightarrow> nat \<Rightarrow> memory" where
  "copied m dest src n = (\<lambda>x. if dest \<le> x \<and> x < dest + n then m (src + (x - dest)) else m x)"

definition filled :: "memory \<Rightarrow> nat \<Rightarrow> 8 word \<Rightarrow> nat \<Rightarrow> memory" where
  "filled m s b n = (\<lambda>x. if s \<le> x \<and> x < s + n then Some b else m x)"

lemma copied_0 [simp]: "copied m d s 0 = m"
  by (auto simp: copied_def fun_eq_iff)

lemma filled_0 [simp]: "filled m s b 0 = m"
  by (auto simp: filled_def fun_eq_iff)

lemma valid_sub: "valid m a n \<Longrightarrow> a \<le> a' \<Longrightarrow> a' + n' \<le> a + n \<Longrightarrow> valid m a' n'"
  by (auto simp: valid_def)

lemma valid_copied: "valid m s n \<Longrightarrow> valid m a k \<Longrightarrow> valid (copied m d s n) a k"
proof -
  assume v: "valid m s n" "valid m a k"
  have "m (s + (x - d)) \<noteq> None" if "d \<le> x" "x < d + n" for x
    using that v(1) [unfolded valid_def, rule_format, of "s + (x - d)"] by linarith
  then show ?thesis using v(2) by (simp add: valid_def copied_def del: not_None_eq)
qed

lemma valid_filled: "valid m a k \<Longrightarrow> valid (filled m s b n) a k"
  by (simp add: valid_def filled_def)

lemma copied_forward: "d \<le> s \<or> s + (a + b) \<le> d \<Longrightarrow> copied (copied m d s a) (d + a) (s + a) b = copied m d s (a + b)"
  by (auto simp: copied_def fun_eq_iff intro!: arg_cong [where f = m])

lemma copied_backward: "s \<le> d \<or> d + (a + b) \<le> s \<Longrightarrow> copied (copied m (d + a) (s + a) b) d s a = copied m d s (a + b)"
  by (auto simp: copied_def fun_eq_iff intro!: arg_cong [where f = m])

lemma filled_step: "filled (filled m s b k) (s + k) b n = filled m s b (k + n)"
  by (auto simp: filled_def fun_eq_iff)

lemma copy1:
  "valid m s (Suc n) \<Longrightarrow> valid m d (Suc n) \<Longrightarrow> do { b \<leftarrow> m s; m \<leftarrow> store1 m d b; f m } = f (copied m d s 1)"
  using validD [of m s "Suc n" s] store1_spec [of m d "Suc n"]
  by (auto simp: copied_def fun_upd_def fun_eq_iff intro!: arg_cong [where f = f])

lemma copy8:
  assumes "valid m s 8" "valid m d 8"
  shows "do { w \<leftarrow> load8 m s; m \<leftarrow> store8 m d w; f m } = f (copied m d s 8)"
proof -
  let ?bs = "map (the \<circ> m) [s..<s + 8]"
  have "store8 m d (word_of ?bs) = Some (\<lambda>x. if d \<le> x \<and> x < d + 8 then Some (?bs ! (x - d)) else m x)"
    unfolding store8_def using store_bytes_spec [of m d ?bs] assms(2) bytes_of_word_of [of ?bs] by simp
  also have "\<dots> = Some (copied m d s 8)"
    using validD [OF assms(1)] by (fastforce simp: copied_def fun_eq_iff)
  finally show ?thesis using load_bytes_spec [OF assms(1)] by (simp add: load8_def del: upt_rec_numeral)
qed

section \<open>What the loops do\<close>

text \<open>The number of bytes up to the next multiple of eight.\<close>

definition pad :: "nat \<Rightarrow> nat" where
  "pad p = (8 - p mod 8) mod 8"

lemma pad_less: "pad p < 8"
  by (simp add: pad_def)

lemma pad_0: "pad p = 0 \<longleftrightarrow> p mod 8 = 0"
  by (cases "p mod 8 = 0") (simp_all add: pad_def)

lemma pad_Suc: "p mod 8 \<noteq> 0 \<Longrightarrow> pad p = Suc (pad (p + 1))"
  by (auto simp: pad_def mod_Suc)

lemma pad_aligned: "(p + pad p) mod 8 = 0"
proof -
  have "(p + pad p) mod 8 = (p mod 8 + (8 - p mod 8)) mod 8" unfolding pad_def by presburger
  then show ?thesis by simp
qed

lemma bump_low: "p mod 256 < 255 \<Longrightarrow> bump p = p + 1 \<and> (p + 1) mod 256 = p mod 256 + 1"
  by (simp add: bump_def mod_Suc)

lemma low_byte: "c AND 0xFF = take_bit 8 (c :: int)"
  by (simp add: take_bit_eq_mask mask_eq_exp_minus_1)

lemma byte_of_int: "word_of_int (c AND 0xFF) = (word_of_int c :: 8 word)"
  unfolding low_byte by (rule bit_word_eqI) (simp add: bit_simps)

lemma byte_in_word: "word_of_int (c AND 0xFF) = (ucast (word_of_int c :: 8 word) :: 64 word)"
  unfolding low_byte by (rule bit_word_eqI) (simp add: bit_simps)

lemma memset_head_spec:
  "valid m p n \<Longrightarrow> p mod 256 + min (pad p) n < 256 \<Longrightarrow>
   memset_head m c p n = Some (filled m p (word_of_int c) (min (pad p) n), p + min (pad p) n, n - min (pad p) n)"
proof (induction n arbitrary: m p)
  case 0
  show ?case by (subst memset_head.simps) simp
next
  case (Suc n)
  show ?case
  proof (cases "p mod 8 = 0")
    case True
    then show ?thesis using pad_0 [of p] by (subst memset_head.simps) simp
  next
    case False
    note pad_Suc [OF False]
    then have m: "min (pad p) (Suc n) = Suc (min (pad (p + 1)) n)" by simp
    then have b: "bump p = p + 1" "(p + 1) mod 256 + min (pad (p + 1)) n < 256"
      using bump_low [of p] Suc.prems(2) by simp_all
    let ?m = "filled m p (word_of_int c) 1"
    have s: "store1 m p (word_of_int (c AND 0xFF)) = Some ?m"
      using store1_spec [OF Suc.prems(1)] by (auto simp: filled_def byte_of_int fun_eq_iff)
    have "valid ?m (p + 1) n" by (rule valid_filled) (rule valid_sub [OF Suc.prems(1)], simp_all)
    from Suc.IH [OF this b(2)] show ?thesis
      using False b(1) s filled_step [of m p "word_of_int c" 1 "min (pad (p + 1)) n"] m
      by (subst memset_head.simps) simp
  qed
qed

lemma fold_const: "fold (\<lambda>i. f) xs a = (f ^^ length xs) a"
  by (induction xs arbitrary: a) (simp_all add: funpow_swap1)

lemma memset_word_bytes: "0 < n \<Longrightarrow> bytes_of (memset_word c n) = replicate 8 (word_of_int c)"
proof -
  assume "0 < n"
  then have w: "memset_word c n = word_of (replicate 8 (word_of_int c))"
    by (simp add: memset_word_def word_of_def byte_in_word fold_const)
  show ?thesis unfolding w by (rule bytes_of_word_of) simp
qed

lemma memset_words_spec:
  "valid m p n \<Longrightarrow> bytes_of w = replicate 8 b \<Longrightarrow>
   memset_words m w p n = Some (filled m p b (8 * (n div 8)), p + 8 * (n div 8), n mod 8)"
proof (induction n arbitrary: m p rule: less_induct)
  case (less n)
  show ?case
  proof (cases "8 \<le> n")
    case False
    then show ?thesis by (subst memset_words.simps) simp
  next
    case True
    have v: "valid m p (length (bytes_of w))" using less.prems True by (auto intro: valid_sub)
    have s: "store8 m p w = Some (filled m p b 8)"
      using store_bytes_spec [OF v] less.prems(2) by (auto simp: store8_def filled_def fun_eq_iff)
    have "valid (filled m p b 8) (p + 8) (n - 8)"
      using True by (intro valid_filled valid_sub [OF less.prems(1)]) simp_all
    from less.IH [OF _ this less.prems(2)] have "memset_words (filled m p b 8) w (p + 8) (n - 8) =
        Some (filled (filled m p b 8) (p + 8) b (8 * ((n - 8) div 8)), p + 8 + 8 * ((n - 8) div 8), (n - 8) mod 8)"
      using True by simp
    moreover have "8 + 8 * ((n - 8) div 8) = 8 * (n div 8)" "(n - 8) mod 8 = n mod 8"
      using True by (simp_all add: le_div_geq le_mod_geq)
    ultimately show ?thesis using True s
      by (subst memset_words.simps) (simp add: filled_step add.assoc)
  qed
qed

lemma memset_tail_spec:
  "valid m p n \<Longrightarrow> p mod 256 + n \<le> 256 \<Longrightarrow> memset_tail m c p n = Some (filled m p (word_of_int c) n)"
proof (induction n arbitrary: m p)
  case 0
  show ?case by (subst memset_tail.simps) simp
next
  case (Suc n)
  let ?m = "filled m p (word_of_int c) 1"
  note IH = Suc.IH and prems = Suc.prems
  have s: "store1 m p (word_of_int c) = Some ?m"
    using store1_spec [OF prems(1)] by (auto simp: filled_def fun_eq_iff)
  have "memset_tail ?m c (bump p) n = Some (filled m p (word_of_int c) (Suc n))"
  proof (cases n)
    case 0
    then show ?thesis by (subst memset_tail.simps) simp
  next
    case (Suc k)
    then have b: "bump p = p + 1" "(p + 1) mod 256 + n \<le> 256" using bump_low [of p] prems(2) by simp_all
    have "valid ?m (p + 1) n" by (rule valid_filled) (rule valid_sub [OF prems(1)], simp_all)
    from IH [OF this b(2)] show ?thesis using b(1) filled_step [of m p "word_of_int c" 1 n] by simp
  qed
  then show ?case using s by (subst memset_tail.simps) simp
qed

lemma memcpy_head_spec:
  "valid m p n \<Longrightarrow> valid m q n \<Longrightarrow> p \<le> q \<or> q + n \<le> p \<Longrightarrow> pad p \<le> n \<Longrightarrow> n < 2 ^ 64 \<Longrightarrow>
   p mod 256 + pad p < 256 \<Longrightarrow> q mod 256 + pad p < 256 \<Longrightarrow>
   memcpy_head m p q n = Some (copied m p q (pad p), p + pad p, q + pad p, n - pad p)"
proof (induction n arbitrary: m p q)
  case 0
  then show ?case using pad_0 [of p] by (subst memcpy_head.simps) simp
next
  case (Suc n)
  show ?case
  proof (cases "p mod 8 = 0")
    case True
    then show ?thesis using pad_0 [of p] by (subst memcpy_head.simps) simp
  next
    case False
    note m = pad_Suc [OF False]
    have b: "bump p = p + 1" "bump q = q + 1" "(p + 1) mod 256 + pad (p + 1) < 256" "(q + 1) mod 256 + pad (p + 1) < 256"
      using bump_low [of p] bump_low [of q] Suc.prems m by simp_all
    let ?m = "copied m p q 1"
    have v: "valid ?m (p + 1) n" "valid ?m (q + 1) n"
      by (intro valid_copied valid_sub [OF Suc.prems(1)] valid_sub [OF Suc.prems(2)]; simp)+
    have "memcpy_head m p q (Suc n) = memcpy_head ?m (p + 1) (q + 1) n"
      using copy1 [OF Suc.prems(2,1)] False b(1,2) szsub_ge [of 1 "Suc n"] Suc.prems(5)
      by (subst memcpy_head.simps) simp
    also have "\<dots> = Some (copied ?m (p + 1) (q + 1) (pad (p + 1)), p + 1 + pad (p + 1), q + 1 + pad (p + 1), n - pad (p + 1))"
      using v b(3,4) Suc.prems m by (intro Suc.IH) auto
    also have "copied ?m (p + 1) (q + 1) (pad (p + 1)) = copied m p q (pad p)"
      using copied_forward [of p q 1 "pad (p + 1)" m] Suc.prems m by auto
    finally show ?thesis using m by simp
  qed
qed

lemma memcpy_words_spec:
  "valid m p n \<Longrightarrow> valid m q n \<Longrightarrow> p \<le> q \<or> q + n \<le> p \<Longrightarrow>
   memcpy_words m p q n = Some (copied m p q (8 * (n div 8)), p + 8 * (n div 8), q + 8 * (n div 8), n mod 8)"
proof (induction n arbitrary: m p q rule: less_induct)
  case (less n)
  show ?case
  proof (cases "8 \<le> n")
    case False
    then show ?thesis by (subst memcpy_words.simps) simp
  next
    case True
    let ?m = "copied m p q 8" and ?k = "8 * ((n - 8) div 8)"
    have k: "8 + ?k = 8 * (n div 8)" "(n - 8) mod 8 = n mod 8" using True by (simp_all add: le_div_geq le_mod_geq)
    have v8: "valid m q 8" "valid m p 8" using True by (auto intro: valid_sub [OF less.prems(1)] valid_sub [OF less.prems(2)])
    have v: "valid ?m (p + 8) (n - 8)" "valid ?m (q + 8) (n - 8)"
      using True by (intro valid_copied valid_sub [OF less.prems(1)] valid_sub [OF less.prems(2)] v8; simp)+
    have "memcpy_words m p q n = memcpy_words ?m (p + 8) (q + 8) (n - 8)"
      using copy8 [OF v8] True by (subst memcpy_words.simps) simp
    also have "\<dots> = Some (copied ?m (p + 8) (q + 8) ?k, p + 8 + ?k, q + 8 + ?k, n mod 8)"
      unfolding k(2) [symmetric] using True v less.prems(3) by (intro less.IH) auto
    also have "copied ?m (p + 8) (q + 8) ?k = copied m p q (8 * (n div 8))"
    proof -
      have "8 * (n div 8) \<le> n" by simp
      then show ?thesis unfolding k(1) [symmetric] using less.prems(3) by (intro copied_forward) linarith
    qed
    finally show ?thesis unfolding k(1) [symmetric] by (simp add: add.assoc)
  qed
qed

lemma memcpy_tail_spec:
  "valid m p n \<Longrightarrow> valid m q n \<Longrightarrow> p \<le> q \<or> q + n \<le> p \<Longrightarrow> p mod 256 + n \<le> 256 \<Longrightarrow> q mod 256 + n \<le> 256 \<Longrightarrow>
   memcpy_tail m p q n = Some (copied m p q n)"
proof (induction n arbitrary: m p q)
  case 0
  show ?case by (subst memcpy_tail.simps) simp
next
  case (Suc n)
  note IH = Suc.IH and prems = Suc.prems
  let ?m = "copied m p q 1"
  have "memcpy_tail m p q (Suc n) = memcpy_tail ?m (bump p) (bump q) n"
    using copy1 [OF prems(2,1)] by (subst memcpy_tail.simps) simp
  also have "\<dots> = Some (copied m p q (Suc n))"
  proof (cases n)
    case 0
    then show ?thesis by (subst memcpy_tail.simps) simp
  next
    case (Suc k)
    then have b: "bump p = p + 1" "bump q = q + 1" "(p + 1) mod 256 + n \<le> 256" "(q + 1) mod 256 + n \<le> 256"
      using bump_low [of p] bump_low [of q] prems(4,5) by simp_all
    have v: "valid ?m (p + 1) n" "valid ?m (q + 1) n"
      by (intro valid_copied valid_sub [OF prems(1)] valid_sub [OF prems(2)]; simp)+
    from IH [OF v _ b(3,4)] prems(3) show ?thesis
      using b(1,2) copied_forward [of p q 1 n m] by auto
  qed
  finally show ?case .
qed

lemma memmove_head_spec:
  "valid m d n \<Longrightarrow> valid m s n \<Longrightarrow> s \<le> d \<Longrightarrow> d + n < 2 ^ 64 \<Longrightarrow> (d + n) mod 8 \<le> n \<Longrightarrow>
   memmove_head m d s n = Some (copied m (d + (n - (d + n) mod 8)) (s + (n - (d + n) mod 8)) ((d + n) mod 8), n - (d + n) mod 8)"
proof (induction n arbitrary: m)
  case 0
  then show ?case by (subst memmove_head.simps) simp
next
  case (Suc n)
  show ?case
  proof (cases "(d + Suc n) mod 8 = 0")
    case True
    then show ?thesis using Suc.prems(4) by (subst memmove_head.simps) simp
  next
    case False
    then have k: "(d + Suc n) mod 8 = Suc ((d + n) mod 8)" by (simp add: mod_Suc split: if_splits)
    let ?m = "copied m (d + n) (s + n) 1" and ?k = "(d + n) mod 8"
    have v1: "valid m (d + n) (Suc 0)" "valid m (s + n) (Suc 0)"
      by (rule valid_sub [OF Suc.prems(1)]; simp) (rule valid_sub [OF Suc.prems(2)]; simp)
    have v: "valid ?m d n" "valid ?m s n"
      by (intro valid_copied valid_sub [OF Suc.prems(1)] valid_sub [OF Suc.prems(2)]; simp)+
    have "memmove_head m d s (Suc n) = memmove_head ?m d s n"
      using copy1 [OF v1(2,1), of "\<lambda>m. memmove_head m d s n"] False szsub_ge [of 1 "Suc n"] szsub_ge [of 1 "Suc (d + n)"]
        szsub_ge [of 1 "Suc (s + n)"] Suc.prems(3,4)
      by (subst memmove_head.simps) simp
    also have "\<dots> = Some (copied ?m (d + (n - ?k)) (s + (n - ?k)) ?k, n - ?k)"
      using v Suc.prems k by (intro Suc.IH) auto
    also have "copied ?m (d + (n - ?k)) (s + (n - ?k)) ?k = copied m (d + (n - ?k)) (s + (n - ?k)) (Suc ?k)"
    proof -
      have "?k \<le> n" using Suc.prems(5) k by simp
      then have e: "d + n = d + (n - ?k) + ?k" "s + n = s + (n - ?k) + ?k" by simp_all
      show ?thesis using copied_backward [of "s + (n - ?k)" "d + (n - ?k)" ?k 1 m] Suc.prems(3) by (simp flip: e)
    qed
    finally show ?thesis using k by simp
  qed
qed

lemma memmove_words_spec:
  "valid m d n \<Longrightarrow> valid m s n \<Longrightarrow> s \<le> d \<Longrightarrow> d + n < 2 ^ 64 \<Longrightarrow>
   memmove_words m d s n = Some (copied m (d + n mod 8) (s + n mod 8) (8 * (n div 8)), n mod 8)"
proof (induction n arbitrary: m rule: less_induct)
  case (less n)
  show ?case
  proof (cases "8 \<le> n")
    case False
    then show ?thesis by (subst memmove_words.simps) simp
  next
    case True
    let ?n = "n - 8"
    let ?m = "copied m (d + ?n) (s + ?n) 8" and ?k = "8 * (?n div 8)"
    have k: "?k + 8 = 8 * (n div 8)" "?n mod 8 = n mod 8" using True by (simp_all add: le_div_geq le_mod_geq)
    have v8: "valid m (s + ?n) 8" "valid m (d + ?n) 8"
      using True by (auto intro: valid_sub [OF less.prems(1)] valid_sub [OF less.prems(2)])
    have v: "valid ?m d ?n" "valid ?m s ?n"
      using True by (intro valid_copied valid_sub [OF less.prems(1)] valid_sub [OF less.prems(2)] v8; simp)+
    have "memmove_words m d s n = memmove_words ?m d s ?n"
      using copy8 [OF v8, of "\<lambda>m. memmove_words m d s ?n"] True szsub_ge [of 8 "d + n"] szsub_ge [of 8 "s + n"] less.prems(3,4)
      by (subst memmove_words.simps) simp
    also have "\<dots> = Some (copied ?m (d + n mod 8) (s + n mod 8) ?k, n mod 8)"
      unfolding k(2) [symmetric] using True v less.prems by (intro less.IH) auto
    also have "copied ?m (d + n mod 8) (s + n mod 8) ?k = copied m (d + n mod 8) (s + n mod 8) (8 * (n div 8))"
    proof -
      have "n mod 8 + ?k = ?n" using k(2) by (metis mod_mult_div_eq)
      then have e: "d + ?n = d + n mod 8 + ?k" "s + ?n = s + n mod 8 + ?k" by simp_all
      show ?thesis unfolding e k(1) [symmetric] using less.prems(3) by (intro copied_backward) simp
    qed
    finally show ?thesis .
  qed
qed

lemma memmove_tail_spec:
  "valid m d n \<Longrightarrow> valid m s n \<Longrightarrow> s \<le> d \<Longrightarrow> d + n < 2 ^ 64 \<Longrightarrow> memmove_tail m d s n = Some (copied m d s n)"
proof (induction n arbitrary: m)
  case 0
  show ?case by (subst memmove_tail.simps) simp
next
  case (Suc n)
  let ?m = "copied m (d + n) (s + n) 1"
  have v1: "valid m (d + n) (Suc 0)" "valid m (s + n) (Suc 0)"
    by (rule valid_sub [OF Suc.prems(1)]; simp) (rule valid_sub [OF Suc.prems(2)]; simp)
  have v: "valid ?m d n" "valid ?m s n"
    by (intro valid_copied valid_sub [OF Suc.prems(1)] valid_sub [OF Suc.prems(2)]; simp)+
  have "memmove_tail m d s (Suc n) = memmove_tail ?m d s n"
    using copy1 [OF v1(2,1), of "\<lambda>m. memmove_tail m d s n"] szsub_ge [of 1 "Suc (d + n)"] szsub_ge [of 1 "Suc (s + n)"] Suc.prems(3,4)
    by (subst memmove_tail.simps) simp
  also have "\<dots> = Some (copied ?m d s n)" using v Suc.prems by (intro Suc.IH) auto
  also have "copied ?m d s n = copied m d s (Suc n)"
    using copied_backward [of s d n 1 m] Suc.prems(3) by simp
  finally show ?case .
qed

section \<open>The three functions\<close>

text \<open>\<open>Memset\<close> fills the block, provided that the bytes before the first word boundary do not reach the
  end of a block of 256 addresses.\<close>

lemma aligned_low: "p mod 8 = 0 \<Longrightarrow> t < 8 \<Longrightarrow> p mod 256 + t \<le> (256 :: nat)"
proof -
  assume "p mod 8 = 0" "t < 8"
  then have "p mod 256 mod 8 = 0" by (simp add: mod_mod_cancel)
  then obtain y where y: "p mod 256 = 8 * y" by auto
  have "p mod 256 < 256" by simp
  then have "y < 32" unfolding y by simp
  then show ?thesis unfolding y using \<open>t < 8\<close> by simp
qed

lemma Memset_spec:
  assumes "valid m s n" and low: "s mod 256 + min (pad s) n < 256"
  shows "Memset m s c n = Some (s, filled m s (word_of_int c) n)"
proof -
  let ?b = "word_of_int c :: 8 word"
  define h where "h = min (pad s) n"
  define w where "w = 8 * ((n - h) div 8)"
  define t where "t = (n - h) mod 8"
  have split: "w + t = n - h" "h + (w + t) = n" by (simp_all add: w_def t_def) (simp add: h_def)
  have v: "valid (filled m s ?b h) (s + h) (n - h)" using split by (intro valid_filled valid_sub [OF assms(1)]) linarith+
  have words: "memset_words (filled m s ?b h) (memset_word c (n - h)) (s + h) (n - h) = Some (filled m s ?b (h + w), s + h + w, t)"
  proof (cases "n - h = 0")
    case True
    then have "w = 0" "t = 0" by (simp_all add: w_def t_def)
    with True show ?thesis by (subst memset_words.simps) simp
  next
    case False
    then show ?thesis using memset_words_spec [OF v memset_word_bytes [of _ c]] by (simp add: filled_step w_def t_def)
  qed
  have t: "(s + h + w) mod 256 + t \<le> 256"
  proof (cases "pad s \<le> n")
    case True
    then have "(s + h + w) mod 8 = 0" using pad_aligned [of s] by (simp add: h_def w_def min_absorb1)
    then show ?thesis by (rule aligned_low) (simp add: t_def)
  next
    case False
    then have "t = 0" by (simp add: t_def h_def)
    then show ?thesis by (simp add: less_imp_le)
  qed
  have v': "valid (filled m s ?b (h + w)) (s + h + w) t" using split by (intro valid_filled valid_sub [OF assms(1)]) linarith+
  have "filled (filled m s ?b (h + w)) (s + h + w) ?b t = filled m s ?b n"
    using filled_step [of m s ?b "h + w" t] split(2) by (simp add: add.assoc)
  with memset_tail_spec [OF v' t, of c]
  have "memset_tail (filled m s ?b (h + w)) c (s + h + w) t = Some (filled m s ?b n)" by simp
  then show ?thesis using memset_head_spec [OF assms, of c] words by (simp add: Memset_def Let_def flip: h_def)
qed

lemma Memcpy_spec:
  assumes m: "valid m d n" "valid m s n" and apart: "d \<le> s \<or> s + n \<le> d" and n: "pad d \<le> n" "n < 2 ^ 64"
    and low: "d mod 256 + pad d < 256" "s mod 256 + pad d < 256"
      "(s + n - (n - pad d) mod 8) mod 256 + (n - pad d) mod 8 \<le> 256"
  shows "Memcpy m d s n = Some (d, copied m d s n)"
proof -
  define h where "h = pad d"
  define w where "w = 8 * ((n - h) div 8)"
  define t where "t = (n - h) mod 8"
  have split: "w + t = n - h" "h + (w + t) = n" using n(1) by (simp_all add: w_def t_def) (simp add: h_def)
  have v: "valid (copied m d s h) (d + h) (n - h)" "valid (copied m d s h) (s + h) (n - h)"
    using split by (intro valid_copied valid_sub [OF m(1)] valid_sub [OF m(2)]; linarith)+
  have "copied (copied m d s h) (d + h) (s + h) w = copied m d s (h + w)"
    by (rule copied_forward) (use apart split in linarith)
  moreover have "d + h \<le> s + h \<or> s + h + (n - h) \<le> d + h" using apart split by linarith
  ultimately have words: "memcpy_words (copied m d s h) (d + h) (s + h) (n - h) = Some (copied m d s (h + w), d + (h + w), s + (h + w), t)"
    using memcpy_words_spec [OF v] by (simp add: add.assoc w_def t_def)
  have v': "valid (copied m d s (h + w)) (d + (h + w)) t" "valid (copied m d s (h + w)) (s + (h + w)) t"
    using split by (intro valid_copied valid_sub [OF m(1)] valid_sub [OF m(2)]; linarith)+
  have "(d + (h + w)) mod 8 = 0" using pad_aligned [of d] by (simp add: add.assoc [symmetric] h_def w_def)
  then have p: "(d + (h + w)) mod 256 + t \<le> 256" by (rule aligned_low) (simp add: t_def)
  have "s + (h + w) = s + n - t" using split by linarith
  with low(3) have q: "(s + (h + w)) mod 256 + t \<le> 256" by (simp add: t_def h_def)
  have "d + (h + w) \<le> s + (h + w) \<or> s + (h + w) + t \<le> d + (h + w)" using apart split by linarith
  from memcpy_tail_spec [OF v' this p q]
  have "memcpy_tail (copied m d s (h + w)) (d + (h + w)) (s + (h + w)) t = Some (copied m d s (h + w + t))"
    using copied_forward [of d s "h + w" t m] apart split by (simp add: add.assoc)
  then show ?thesis using memcpy_head_spec [OF m apart n low(1,2)] words split(2) by (simp add: Memcpy_def add.assoc flip: h_def)
qed

lemma lib_memcpy_spec:
  "valid m d n \<Longrightarrow> valid m s n \<Longrightarrow> n = 0 \<or> d + n \<le> s \<or> s + n \<le> d \<Longrightarrow> lib_memcpy m d s n = Some (copied m d s n)"
  using validD [of m s n] store_bytes_spec [of m d "map (the \<circ> m) [s..<s + n]"]
  by (auto simp: lib_memcpy_def load_bytes_spec copied_def fun_eq_iff)

lemma Memmove_spec:
  assumes m: "valid m d n" "valid m s n" and n: "d + n < 2 ^ 64" "s + n < 2 ^ 64"
    and before: "d < s \<Longrightarrow> n = 0 \<or> d + n \<le> s" and inside: "s \<le> d \<Longrightarrow> d \<le> s + n \<Longrightarrow> (d + n) mod 8 \<le> n"
  shows "Memmove m d s n = Some (d, copied m d s n)"
proof (cases "d < s \<or> d > s + n")
  case True
  then show ?thesis using lib_memcpy_spec [OF m] before n(2) by (auto simp: Memmove_def)
next
  case False
  define k where "k = (d + n) mod 8"
  define r where "r = (n - k) mod 8"
  define w where "w = 8 * ((n - k) div 8)"
  have sd: "s \<le> d" and kn: "(d + n) mod 8 \<le> n" using False inside by simp_all
  have split: "r + w = n - k" "n = r + (w + k)" using kn by (simp_all add: r_def w_def) (simp add: k_def)
  let ?m1 = "copied m (d + (n - k)) (s + (n - k)) k" and ?m2 = "copied m (d + r) (s + r) (w + k)"
  have v1: "valid ?m1 d (n - k)" "valid ?m1 s (n - k)"
    using split by (intro valid_copied valid_sub [OF m(1)] valid_sub [OF m(2)]; linarith)+
  have "d + (n - k) = d + r + w" "s + (n - k) = s + r + w" using split by linarith+
  then have "copied ?m1 (d + r) (s + r) w = ?m2" using sd by (simp only: copied_backward add_le_mono1 simp_thms)
  moreover have "d + (n - k) < 2 ^ 64" using n(1) split by linarith
  ultimately have words: "memmove_words ?m1 d s (n - k) = Some (?m2, r)"
    using memmove_words_spec [OF v1 sd] by (simp add: r_def w_def)
  have v2: "valid ?m2 d r" "valid ?m2 s r"
    using split by (intro valid_copied valid_sub [OF m(1)] valid_sub [OF m(2)]; linarith)+
  have "d + r < 2 ^ 64" using n(1) split by linarith
  moreover have "copied ?m2 d s r = copied m d s (r + (w + k))" using sd by (intro copied_backward) simp
  ultimately have "memmove_tail ?m2 d s r = Some (copied m d s n)"
    using memmove_tail_spec [OF v2 sd] split(2) by simp
  then show ?thesis using False n memmove_head_spec [OF m sd n(1) kn] words by (simp add: Memmove_def flip: k_def)
qed

text \<open>Where a byte pointer of \<open>Memcpy\<close> does not have to carry: up to the first word boundary of the target,
  and in the bytes behind the last whole word of the source.\<close>

definition carry_free :: "nat \<Rightarrow> nat \<Rightarrow> nat \<Rightarrow> bool" where
  "carry_free d s n \<longleftrightarrow> s mod 256 + pad d < 256 \<and>
     (s + n - (n - pad d) mod 8) mod 256 + (n - pad d) mod 8 \<le> 256"

text \<open>C26. On allocated blocks of at least seven bytes whose target does not cross a boundary of 256 addresses
  before its first word boundary, Memset fills the block and changes nothing else, Memmove copies the block where the
  source is not behind an overlapping target, and Memcpy copies it where the target is not inside the source and no
  byte pointer has to carry. Source bytes are those from before the call, also where the blocks overlap.\<close>

theorem memory_functions_correct:
  assumes "valid m d n" and "valid m s n" and "7 \<le> n" and "d + n < 2 ^ 64" and "s + n < 2 ^ 64"
    and "d mod 256 + pad d < 256"
  shows "Memset m d c n = Some (d, filled m d (word_of_int c) n) \<and>
    (s \<le> d \<or> d + n \<le> s \<longrightarrow> Memmove m d s n = Some (d, copied m d s n)) \<and>
    ((d \<le> s \<or> s + n \<le> d) \<and> carry_free d s n \<longrightarrow> Memcpy m d s n = Some (d, copied m d s n))"
proof (intro conjI impI)
  have h: "pad d \<le> n" using pad_less [of d] assms(3) by linarith
  have k: "(d + n) mod 8 \<le> n" using mod_less_divisor [of 8 "d + n"] assms(3) by linarith
  show "Memset m d c n = Some (d, filled m d (word_of_int c) n)"
    using h assms(6) by (intro Memset_spec assms(1)) simp
  show "Memmove m d s n = Some (d, copied m d s n)" if "s \<le> d \<or> d + n \<le> s"
    using that k by (intro Memmove_spec assms(1,2,4,5)) auto
  show "Memcpy m d s n = Some (d, copied m d s n)" if "(d \<le> s \<or> s + n \<le> d) \<and> carry_free d s n"
    using that h assms(4,6) by (intro Memcpy_spec assms(1,2)) (auto simp: carry_free_def)
qed

definition numbered :: memory where
  "numbered = (\<lambda>a. if a < 512 then Some (of_nat a) else None)"

lemma memory_functions_correct_witness:
  "Memset numbered 43 (- 1) 12 = Some (43, filled numbered 43 (- 1) 12) \<and>
   Memmove numbered 43 10 12 = Some (43, copied numbered 43 10 12) \<and>
   Memcpy numbered 43 10 12 = Some (43, copied numbered 43 10 12)"
  using memory_functions_correct [of numbered 43 12 10 "- 1"]
  by (simp add: valid_def numbered_def pad_def carry_free_def)

section \<open>Where they fail\<close>

text \<open>The pointer to the last bytes of a block of 256 addresses goes back to its start.\<close>

lemma Memset_no_carry:
  "map_option (\<lambda>(p, m). (m 256, m 0)) (Memset numbered 250 7 8) = Some (Some 0, Some 7)"
proof -
  have "memset_head numbered 7 250 8 = Some (filled numbered 250 7 6, 0, 2)"
    by (simp add: memset_head.simps store1_def numbered_def bump_def filled_def fun_eq_iff)
  moreover have "memset_words (filled numbered 250 7 6) w 0 2 = Some (filled numbered 250 7 6, 0, 2)" for w
    by (subst memset_words.simps) simp
  moreover have "memset_tail (filled numbered 250 7 6) 7 0 2 = Some (filled (filled numbered 250 7 6) 0 7 2)"
    using memset_tail_spec [of "filled numbered 250 7 6" 0 2 7] by (simp add: valid_def filled_def numbered_def)
  ultimately show ?thesis by (simp add: Memset_def Let_def filled_def numbered_def)
qed

text \<open>A block that ends before the word boundary: the count passes 0, and the copy runs out of the memory.\<close>

lemma store_bytes_None: "store_bytes m a bs = Some m' \<Longrightarrow> m x = None \<Longrightarrow> m' x = None"
proof (induction bs arbitrary: m a)
  case (Cons b bs)
  from Cons.prems(1) obtain m1 where m1: "store1 m a b = Some m1" "store_bytes m1 (a + 1) bs = Some m'"
    by (auto split: bind_splits)
  then have "m1 x = None" using Cons.prems(2) by (auto simp: store1_def split: option.splits)
  then show ?case by (rule Cons.IH [OF m1(2)])
qed simp

lemma memcpy_words_out:
  "(\<forall>x \<ge> N. m x = None) \<Longrightarrow> N + 16 \<le> q + n \<Longrightarrow> 8 \<le> n \<Longrightarrow> memcpy_words m p q n = None"
proof (induction n arbitrary: m p q rule: less_induct)
  case (less n)
  show ?case
  proof (cases "N \<le> q")
    case True
    then have "load8 m q = None" using less.prems(1) by (simp add: load8_def numeral_eq_Suc)
    then show ?thesis using less.prems(3) by (subst memcpy_words.simps) simp
  next
    case False
    have "memcpy_words m' (p + 8) (q + 8) (n - 8) = None" if "store8 m p w = Some m'" for w m'
      using that less.prems False store_bytes_None [of m p _ m'] by (intro less.IH) (auto simp: store8_def)
    then show ?thesis using less.prems(3) by (subst memcpy_words.simps) (auto split: bind_splits)
  qed
qed

lemma Memcpy_short: "Memcpy numbered 497 9 0 = None"
proof -
  have h: "memcpy_head numbered 497 9 0 = Some (m, p, q, n) \<Longrightarrow> (\<forall>x \<ge> 512. m x = None) \<and> q = 16 \<and> n = 18446744073709551609" for m p q n
    by (auto simp: memcpy_head.simps store1_def numbered_def bump_def szsub_def)
  have "memcpy_words m p q n = None" if "memcpy_head numbered 497 9 0 = Some (m, p, q, n)" for m p q n
    using h [OF that] by (intro memcpy_words_out [where N = 512]) auto
  then show ?thesis by (cases "memcpy_head numbered 497 9 0") (auto simp: Memcpy_def)
qed

lemma Memmove_overlap: "d < s \<Longrightarrow> s < d + n \<Longrightarrow> Memmove m d s n = None"
  by (simp add: Memmove_def lib_memcpy_def)

end
