(* ===== verification/ListPuzzles.thy ===== *)
theory ListPuzzles
  imports Recursion
begin

text \<open>
  The exercises on singly linked lists of \<open>ds/slist/part 2/slist_ex.c\<close>: reversing a list in a loop, the
  search for a loop with two runners, and the first common node of two lists. The nodes live in the store
  of the recursive reversal; a data pointer is an integer, the mark \<open>(void*)(-1)\<close> is \<open>- 1\<close>.
\<close>

section \<open>The functions\<close>

partial_function (option) flip_loop ::
  "'d lstore \<Rightarrow> addr option \<Rightarrow> addr option \<Rightarrow> ('d lstore \<times> addr option) option" where
  "flip_loop s head previus_one = (case head of
     None \<Rightarrow> Some (s, previus_one)
   | Some h \<Rightarrow> do {
       n \<leftarrow> s h;
       flip_loop (s(h \<mapsto> n\<lparr>lnext := previus_one\<rparr>)) (lnext n) (Some h)
     })"

definition Flip :: "'d lstore \<Rightarrow> addr option \<Rightarrow> ('d lstore \<times> addr option) option" where
  "Flip s head = flip_loop s head None"

text \<open>The condition of the loop dereferences the fast runner only where the runners differ.\<close>

partial_function (option) runners_loop :: "'d lstore \<Rightarrow> addr option \<Rightarrow> addr option \<Rightarrow> bool option" where
  "runners_loop s slow_runner usain_runner =
     (if slow_runner = usain_runner then Some True
      else do {
        u \<leftarrow> usain_runner;
        n \<leftarrow> s u;
        case lnext n of
          None \<Rightarrow> Some False
        | Some v \<Rightarrow> do {
            n \<leftarrow> s v;
            if lnext n = None then Some False
            else do {
              a \<leftarrow> slow_runner;
              m \<leftarrow> s a;
              runners_loop s (lnext m) (lnext n)
            }
          }
      })"

definition HasLoop :: "'d lstore \<Rightarrow> addr \<Rightarrow> bool option" where
  "HasLoop s head = do { n \<leftarrow> s head; runners_loop s (Some head) (lnext n) }"

partial_function (option) mark_loop :: "int lstore \<Rightarrow> addr \<Rightarrow> int lstore option" where
  "mark_loop s head_1 = do {
     n \<leftarrow> s head_1;
     case lnext n of
       None \<Rightarrow> Some s
     | Some nxt \<Rightarrow> mark_loop (s(head_1 \<mapsto> n\<lparr>ldata := - 1\<rparr>)) nxt
   }"

partial_function (option) find_mark :: "int lstore \<Rightarrow> addr \<Rightarrow> addr option" where
  "find_mark s head_2 = do {
     n \<leftarrow> s head_2;
     case lnext n of
       None \<Rightarrow> Some head_2
     | Some nxt \<Rightarrow> if ldata n \<noteq> - 1 then find_mark s nxt else Some head_2
   }"

definition FindIntersection :: "int lstore \<Rightarrow> addr \<Rightarrow> addr \<Rightarrow> (int lstore \<times> addr) option" where
  "FindIntersection s head_1 head_2 = do {
     s \<leftarrow> mark_loop s head_1;
     node \<leftarrow> find_mark s head_2;
     Some (s, node)
   }"

section \<open>Reversing\<close>

lemma flip_loop_spec:
  "chain s p as None \<Longrightarrow> chain s q bs None \<Longrightarrow> distinct (as @ bs) \<Longrightarrow>
   \<exists>s' r. flip_loop s p q = Some (s', r) \<and> chain s' r (rev as @ bs) None
     \<and> (\<forall>x. x \<notin> set as \<longrightarrow> s' x = s x) \<and> (\<forall>x. map_option ldata (s' x) = map_option ldata (s x))"
proof (induction as arbitrary: s p q bs)
  case Nil
  then show ?case by (subst flip_loop.simps) auto
next
  case (Cons a as)
  obtain n where n: "p = Some a" "s a = Some n" "chain s (lnext n) as None" using Cons.prems(1) by auto
  let ?s = "s(a \<mapsto> n\<lparr>lnext := q\<rparr>)"
  have "chain ?s (lnext n) as None" "chain ?s (Some a) (a # bs) None" "distinct (as @ a # bs)"
    using n Cons.prems by (auto simp: chain_upd)
  from Cons.IH [OF this] obtain s' r where r: "flip_loop ?s (lnext n) (Some a) = Some (s', r)"
    "chain s' r (rev as @ a # bs) None" "\<forall>x. x \<notin> set as \<longrightarrow> s' x = ?s x"
    "\<forall>x. map_option ldata (s' x) = map_option ldata (?s x)" by blast
  have "flip_loop s p q = Some (s', r)" using n r(1) by (subst flip_loop.simps) simp
  moreover have "\<forall>x. map_option ldata (s' x) = map_option ldata (s x)" using r(4) n(2) by simp
  ultimately show ?case using r(2,3) by auto
qed

text \<open>A chain determines the links of its nodes.\<close>

lemma chain_next_unique:
  "chain s p as q \<Longrightarrow> chain s' p as q \<Longrightarrow> a \<in> set as \<Longrightarrow> map_option lnext (s a) = map_option lnext (s' a)"
proof (induction as arbitrary: p)
  case (Cons b as)
  then obtain n m where nm: "s b = Some n" "chain s (lnext n) as q" "s' b = Some m" "chain s' (lnext m) as q" by auto
  then have "lnext n = lnext m" by (cases as) auto
  then show ?case using Cons nm by auto
qed simp

lemma lnode_eq: "ldata n = ldata m \<Longrightarrow> lnext n = lnext m \<Longrightarrow> n = (m :: 'd lnode)"
  by simp

lemma flips_agree:
  assumes c: "chain s (Some a) (a # as) None" "distinct (a # as)"
  shows "\<exists>s' b. FlipList s a = Some (s', b) \<and> Flip s (Some a) = Some (s', Some b) \<and> chain s' (Some b) (rev (a # as)) None"
proof -
  obtain s1 b where f: "FlipList s a = Some (s1, b)" "chain s1 (Some b) (rev (a # as)) None"
    "\<forall>x. x \<notin> set (a # as) \<longrightarrow> s1 x = s x" "\<forall>x. map_option ldata (s1 x) = map_option ldata (s x)"
    using FlipList_spec [OF c] by blast
  obtain s2 r where g: "Flip s (Some a) = Some (s2, r)" "chain s2 r (rev (a # as)) None"
    "\<forall>x. x \<notin> set (a # as) \<longrightarrow> s2 x = s x" "\<forall>x. map_option ldata (s2 x) = map_option ldata (s x)"
    using flip_loop_spec [OF c(1), of None "[]"] c(2) by (auto simp: Flip_def)
  have r: "r = Some b" using f(2) g(2) by (cases "rev (a # as)") auto
  have "s1 x = s2 x" for x
  proof (cases "x \<in> set (a # as)")
    case True
    then have "map_option lnext (s1 x) = map_option lnext (s2 x)"
      using chain_next_unique [OF f(2) g(2) [unfolded r], of x] by auto
    moreover have "map_option ldata (s1 x) = map_option ldata (s2 x)" using f(4) g(4) by simp
    ultimately show ?thesis by (cases "s1 x"; cases "s2 x") (auto intro: lnode_eq)
  next
    case False
    then show ?thesis using f(3) g(3) by simp
  qed
  then have "s1 = s2" by blast
  then show ?thesis using f g(1) r by blast
qed

section \<open>Two runners\<close>

text \<open>The place after \<open>i\<close> steps.\<close>

fun walk :: "'d lstore \<Rightarrow> addr option \<Rightarrow> nat \<Rightarrow> addr option" where
  "walk s p 0 = p"
| "walk s p (Suc i) = (case walk s p i of None \<Rightarrow> None | Some a \<Rightarrow> Option.bind (s a) lnext)"

definition closed :: "'d lstore \<Rightarrow> bool" where
  "closed s \<longleftrightarrow> (\<forall>a n b. s a = Some n \<and> lnext n = Some b \<longrightarrow> s b \<noteq> None)"

lemma walk_in: "closed s \<Longrightarrow> s a \<noteq> None \<Longrightarrow> walk s (Some a) i = Some b \<Longrightarrow> s b \<noteq> None"
proof (induction i arbitrary: b)
  case (Suc i)
  then show ?case unfolding closed_def by (auto split: option.splits bind_splits)
qed simp

lemma walk_add: "walk s p (i + j) = walk s (walk s p i) j"
  by (induction j) simp_all

lemma walk_None: "walk s p i = None \<Longrightarrow> i \<le> j \<Longrightarrow> walk s p j = None"
  by (induction j) (auto simp: le_Suc_eq)

lemma chain_walk: "chain s p as q \<Longrightarrow> walk s p (length as) = q \<and> (\<forall>i < length as. walk s p i = Some (as ! i))"
proof (induction as arbitrary: q rule: rev_induct)
  case (snoc a as)
  then obtain r where "chain s p as r" "chain s r [a] q" by (auto simp: chain_append)
  with snoc.IH [of r] show ?case by (auto simp: nth_append less_Suc_eq)
qed simp

text \<open>Without an end, two places in a finite store are the same, and from there on the places repeat.\<close>

lemma walk_cycle:
  assumes fin: "finite (dom s)" and c: "closed s" "s a \<noteq> None" and inf: "\<forall>i. walk s (Some a) i \<noteq> None"
  shows "\<exists>i. walk s (Some a) i = walk s (Some a) (2 * i + 1)"
proof -
  let ?f = "walk s (Some a)"
  have "range ?f \<subseteq> Some ` dom s" using inf walk_in [OF c] by (fastforce simp: image_iff)
  then have "finite (range ?f)" using fin finite_subset by blast
  then have "\<not> inj ?f" using finite_imageD infinite_UNIV_nat by blast
  then obtain i j where "i < j" "?f i = ?f j" unfolding inj_def by (metis linorder_neqE_nat)
  define k where "k = j - i"
  have k: "0 < k" "?f (i + k) = ?f i" using \<open>i < j\<close> \<open>?f i = ?f j\<close> by (simp_all add: k_def)
  have period: "?f (i + x + n * k) = ?f (i + x)" for x n
  proof (induction n)
    case (Suc n)
    have "?f (i + x + Suc n * k) = ?f (i + k + (x + n * k))" by (simp add: algebra_simps)
    also have "\<dots> = ?f (i + (x + n * k))"
      using k(2) by (simp only: walk_add [of s _ "i + k"] walk_add [of s _ i "x + n * k"])
    finally show ?case using Suc by (simp add: add.assoc)
  qed simp
  define t where "t = (i + 1) * k - 1"
  have "i + 1 \<le> (i + 1) * k" using mult_le_mono2 [of 1 k "i + 1"] Suc_leI [OF k(1)] by simp
  then have t: "t = i + (t - i)" "2 * t + 1 = t + (i + 1) * k" unfolding t_def by linarith+
  have "?f (2 * t + 1) = ?f t" using period [of "t - i" "i + 1"] unfolding t(2) t(1) [symmetric] .
  then show ?thesis by metis
qed

text \<open>The slow runner is \<open>i\<close> steps from the head, the fast one \<open>2 i + 1\<close>.\<close>

lemma runners_step:
  assumes c: "closed s" "s a \<noteq> None" and u: "walk s (Some a) (2 * i + 1) = Some u"
    and apart: "walk s (Some a) i \<noteq> Some u"
  shows "runners_loop s (walk s (Some a) i) (Some u) =
    (if walk s (Some a) (2 * i + 3) = None then Some False
     else runners_loop s (walk s (Some a) (i + 1)) (walk s (Some a) (2 * (i + 1) + 1)))"
proof -
  let ?f = "walk s (Some a)"
  obtain n where n: "s u = Some n" using walk_in [OF c u] by blast
  have 2: "?f (2 * i + 2) = lnext n" using u n by simp
  have "?f i \<noteq> None" using walk_None [of s "Some a" i "2 * i + 1"] u by auto
  then obtain b m where b: "?f i = Some b" "s b = Some m" using walk_in [OF c] by blast
  then have next_slow: "?f (i + 1) = lnext m" by simp
  show ?thesis
  proof (cases "lnext n")
    case None
    then have "?f (2 * i + 3) = None" using 2 walk_None [of s "Some a" "2 * i + 2" "2 * i + 3"] by simp
    then show ?thesis using apart n None by (subst runners_loop.simps) simp
  next
    case (Some v)
    then obtain k where k: "s v = Some k" using c(1) n unfolding closed_def by blast
    have "?f (2 * i + 3) = lnext k" using 2 Some k by (simp add: numeral_3_eq_3)
    then show ?thesis using apart n Some k b next_slow by (subst runners_loop.simps) (simp add: numeral_3_eq_3)
  qed
qed

lemma runners_loop_cycle:
  assumes c: "closed s" "s a \<noteq> None" and inf: "\<forall>i. walk s (Some a) i \<noteq> None"
    and meet: "walk s (Some a) t = walk s (Some a) (2 * t + 1)"
  shows "i \<le> t \<Longrightarrow> runners_loop s (walk s (Some a) i) (walk s (Some a) (2 * i + 1)) = Some True"
proof (induction "t - i" arbitrary: i)
  case 0
  then show ?case using meet by (subst runners_loop.simps) simp
next
  case (Suc d)
  obtain u where u: "walk s (Some a) (2 * i + 1) = Some u" using inf by blast
  show ?case
  proof (cases "walk s (Some a) i = Some u")
    case True
    then show ?thesis unfolding u by (subst runners_loop.simps) simp
  next
    case False
    have "walk s (Some a) (2 * i + 3) \<noteq> None" using inf by blast
    then show ?thesis using runners_step [OF c u False] Suc.hyps(1) [of "i + 1"] Suc.hyps(2) unfolding u by simp
  qed
qed

lemma runners_loop_end:
  assumes c: "closed s" "s a \<noteq> None" and l: "chain s (Some a) as None" "distinct as"
  shows "2 * i + 1 < length as \<Longrightarrow> runners_loop s (walk s (Some a) i) (walk s (Some a) (2 * i + 1)) = Some False"
proof (induction "length as - i" arbitrary: i rule: less_induct)
  case less
  note w = chain_walk [OF l(1)]
  have u: "walk s (Some a) (2 * i + 1) = Some (as ! (2 * i + 1))" and i: "walk s (Some a) i = Some (as ! i)"
    using w [THEN conjunct2, rule_format, of "2 * i + 1"] w [THEN conjunct2, rule_format, of i] less.prems by simp_all
  have "as ! i \<noteq> as ! (2 * i + 1)" using l(2) less.prems by (simp add: nth_eq_iff_index_eq)
  then have r: "walk s (Some a) i \<noteq> Some (as ! (2 * i + 1))" using i by simp
  show ?case
  proof (cases "2 * i + 3 < length as")
    case True
    then have "walk s (Some a) (2 * i + 3) \<noteq> None" using w [THEN conjunct2, rule_format, of "2 * i + 3"] by simp
    then show ?thesis using runners_step [OF c u r] less.hyps [of "i + 1"] True unfolding u by simp
  next
    case False
    then have "walk s (Some a) (2 * i + 3) = None"
      using w walk_None [of s "Some a" "length as" "2 * i + 3"] by simp
    then show ?thesis using runners_step [OF c u r] unfolding u by simp
  qed
qed

lemma no_end_walk:
  assumes "closed s" "s a \<noteq> None" "\<not> (\<exists>as. chain s (Some a) as None)"
  shows "walk s (Some a) i \<noteq> None \<and> (\<exists>as. length as = i \<and> chain s (Some a) as (walk s (Some a) i))"
proof (induction i)
  case (Suc i)
  then obtain as b where as: "length as = i" "chain s (Some a) as (Some b)" "walk s (Some a) i = Some b" by auto
  obtain n where n: "s b = Some n" using walk_in [OF assms(1,2) as(3)] by blast
  then have "chain s (Some a) (as @ [b]) (lnext n)" using as(2) by (simp add: chain_append)
  with assms(3) as(1,3) n show ?case by (metis bind.simps(2) length_append_singleton option.simps(5) walk.simps(2))
qed auto

lemma chain_distinct: "chain s p as None \<Longrightarrow> distinct as"
proof (induction as arbitrary: p)
  case (Cons a as)
  then obtain n where n: "p = Some a" "s a = Some n" "chain s (lnext n) as None" by auto
  have "a \<notin> set as"
  proof
    assume "a \<in> set as"
    then obtain bs cs where as: "as = bs @ a # cs" by (meson split_list)
    then have long: "chain s (Some a) (a # bs @ a # cs) None" and "chain s (Some a) (a # cs) None"
      using n by (auto simp: chain_append)
    then have "walk s (Some a) (length (a # cs)) = None" using chain_walk by blast
    moreover have "length (a # cs) < length (a # bs @ a # cs)" by simp
    then have "walk s (Some a) (length (a # cs)) \<noteq> None" using chain_walk [OF long] by blast
    ultimately show False by blast
  qed
  then show ?case using Cons.IH [OF n(3)] by simp
qed simp

text \<open>C27. On a list of at least two nodes in a finite store without dangling pointers, the search with
  two runners ends, and answers that there is a loop exactly where following the links never reaches NULL.\<close>

theorem HasLoop_correct:
  assumes "finite (dom s)" and "closed s" and "s a = Some n" and "lnext n \<noteq> None"
  shows "HasLoop s a = Some (\<not> (\<exists>as. chain s (Some a) as None))"
proof -
  have a: "s a \<noteq> None" using assms(3) by simp
  have start: "HasLoop s a = runners_loop s (walk s (Some a) 0) (walk s (Some a) (2 * 0 + 1))"
    using assms(3) by (simp add: HasLoop_def)
  show ?thesis
  proof (cases "\<exists>as. chain s (Some a) as None")
    case True
    then obtain as where as: "chain s (Some a) as None" by blast
    then obtain b c bs where "as = b # c # bs" using assms(3,4) by (cases as; cases "tl as") auto
    then have "2 * 0 + 1 < length as" by simp
    from runners_loop_end [OF assms(2) a as chain_distinct [OF as] this] show ?thesis using start True by simp
  next
    case False
    then have inf: "\<forall>i. walk s (Some a) i \<noteq> None" using no_end_walk [OF assms(2) a] by blast
    obtain t where "walk s (Some a) t = walk s (Some a) (2 * t + 1)" using walk_cycle [OF assms(1,2) a inf] by blast
    from runners_loop_cycle [OF assms(2) a inf this, of 0] show ?thesis using start False by simp
  qed
qed

definition lasso :: "int lstore" where
  "lasso = [1 \<mapsto> \<lparr>ldata = 10, lnext = Some 2\<rparr>, 2 \<mapsto> \<lparr>ldata = 20, lnext = Some 3\<rparr>, 3 \<mapsto> \<lparr>ldata = 30, lnext = Some 2\<rparr>]"

lemma HasLoop_correct_witness: "HasLoop lasso 1 = Some (\<not> (\<exists>as. chain lasso (Some 1) as None))"
  by (rule HasLoop_correct [where n = "\<lparr>ldata = 10, lnext = Some 2\<rparr>"]) (auto simp: lasso_def closed_def split: if_splits)

text \<open>A list of one node: the fast runner is NULL and is dereferenced.\<close>

lemma HasLoop_single: "s a = Some n \<Longrightarrow> lnext n = None \<Longrightarrow> HasLoop s a = None"
  by (simp add: HasLoop_def) (subst runners_loop.simps, simp)

section \<open>The first common node\<close>

definition marked :: "int lstore \<Rightarrow> addr list \<Rightarrow> int lstore" where
  "marked s as = (\<lambda>x. if x \<in> set as then map_option (ldata_update (\<lambda>_. - 1)) (s x) else s x)"

lemma mark_loop_spec:
  "chain s (Some a) (as @ [z]) None \<Longrightarrow> distinct (as @ [z]) \<Longrightarrow> mark_loop s a = Some (marked s as)"
proof (induction as arbitrary: s a)
  case Nil
  then show ?case by (subst mark_loop.simps) (auto simp: marked_def)
next
  case (Cons b as)
  obtain n where n: "b = a" "s a = Some n" "chain s (lnext n) (as @ [z]) None" using Cons.prems(1) by auto
  then obtain c where c: "lnext n = Some c" by (cases as) auto
  let ?s = "s(a \<mapsto> n\<lparr>ldata := - 1\<rparr>)"
  have "chain ?s (Some c) (as @ [z]) None" using n c Cons.prems(2) by (simp add: chain_upd)
  then have "mark_loop ?s c = Some (marked ?s as)" by (rule Cons.IH) (use Cons.prems(2) in simp)
  moreover have "marked ?s as = marked s (b # as)" using n Cons.prems(2) by (auto simp: marked_def fun_eq_iff)
  ultimately show ?case using n(2) c by (subst mark_loop.simps) simp
qed

lemma chain_marked: "chain (marked s bs) p as q \<longleftrightarrow> chain s p as q"
proof (induction as arbitrary: p)
  case (Cons a as)
  have "(\<exists>n. marked s bs a = Some n \<and> chain (marked s bs) (lnext n) as q) \<longleftrightarrow> (\<exists>n. s a = Some n \<and> chain (marked s bs) (lnext n) as q)"
    by (auto simp: marked_def)
  then show ?case using Cons by simp
qed simp

lemma find_mark_spec:
  "chain s (Some a) (as @ b # bs) None \<Longrightarrow> \<forall>x \<in> set as. \<exists>n. s x = Some n \<and> ldata n \<noteq> - 1 \<Longrightarrow>
   \<exists>n. s b = Some n \<and> (ldata n = - 1 \<or> bs = []) \<Longrightarrow> find_mark s a = Some b"
proof (induction as arbitrary: a)
  case Nil
  then show ?case by (subst find_mark.simps) (auto split: option.splits)
next
  case (Cons c as)
  obtain n where n: "c = a" "s a = Some n" "chain s (lnext n) (as @ b # bs) None" using Cons.prems(1) by auto
  then obtain d where d: "lnext n = Some d" by (cases as) auto
  have "find_mark s d = Some b" using Cons n d by simp
  then show ?case using n d Cons.prems(2) by (subst find_mark.simps) auto
qed

text \<open>Two lists with a common tail, whose second list holds no mark in its own part: the first common node is
  found. All nodes of the first list but its last lose their data.\<close>

lemma FindIntersection_first:
  assumes l: "chain s (Some a) (xs @ c # cs) None" "chain s (Some b) (ys @ c # cs) None"
    and apart: "set xs \<inter> set ys = {}" and data: "\<forall>x \<in> set ys. \<exists>n. s x = Some n \<and> ldata n \<noteq> - 1"
  shows "FindIntersection s a b = Some (marked s (butlast (xs @ c # cs)), c)"
proof -
  let ?as = "xs @ c # cs"
  let ?s = "marked s (butlast ?as)"
  have d: "distinct ?as" "distinct (ys @ c # cs)" using chain_distinct l by blast+
  have "butlast ?as @ [last ?as] = ?as" by (rule append_butlast_last_id) simp
  then have "mark_loop s a = Some ?s" using mark_loop_spec [of s a "butlast ?as" "last ?as"] l(1) d(1) by metis
  moreover have "find_mark ?s b = Some c"
  proof (rule find_mark_spec [where bs = cs and as = ys])
    show "chain ?s (Some b) (ys @ c # cs) None" using l(2) by (simp only: chain_marked)
    have "x \<notin> set (butlast ?as)" if "x \<in> set ys" for x
      using that apart d(2) in_set_butlastD [of x ?as] by auto
    then show "\<forall>x \<in> set ys. \<exists>n. ?s x = Some n \<and> ldata n \<noteq> - 1" using data by (simp add: marked_def)
    obtain n where "s c = Some n" using l(1) by (auto simp: chain_append)
    then show "\<exists>n. ?s c = Some n \<and> (ldata n = - 1 \<or> cs = [])" by (auto simp: marked_def butlast_append)
  qed
  ultimately show ?thesis by (simp add: FindIntersection_def)
qed

text \<open>Lists without a common node: the last node of the second list is answered.\<close>

lemma FindIntersection_disjoint:
  assumes l: "chain s (Some a) as None" "chain s (Some b) (bs @ [z]) None"
    and apart: "set as \<inter> set (bs @ [z]) = {}" and data: "\<forall>x \<in> set bs. \<exists>n. s x = Some n \<and> ldata n \<noteq> - 1"
  shows "FindIntersection s a b = Some (marked s (butlast as), z)"
proof -
  let ?s = "marked s (butlast as)"
  have ne: "as \<noteq> []" using l(1) by auto
  have "mark_loop s a = Some ?s"
    using mark_loop_spec [of s a "butlast as" "last as"] l(1) chain_distinct [OF l(1)] ne by simp
  moreover have "find_mark ?s b = Some z"
  proof (rule find_mark_spec [where bs = "[]" and as = bs])
    show "chain ?s (Some b) (bs @ [z]) None" using l(2) by (simp only: chain_marked)
    have "x \<notin> set (butlast as)" if "x \<in> set bs" for x using that apart in_set_butlastD [of x as] by auto
    then show "\<forall>x \<in> set bs. \<exists>n. ?s x = Some n \<and> ldata n \<noteq> - 1" using data by (simp add: marked_def)
    obtain n where "s z = Some n" using l(2) by (auto simp: chain_append)
    then show "\<exists>n. ?s z = Some n \<and> (ldata n = - 1 \<or> [] = [])" by (auto simp: marked_def)
  qed
  ultimately show ?thesis by (simp add: FindIntersection_def)
qed

end
