(* ===== verification/DictSort.thy ===== *)
theory DictSort
  imports Sorts CString
begin

text \<open>
  The sorting of a dictionary by five threads in \<open>system_programming/s_s_dictionary/s_s_dictionary.c\<close>.
  Pointers into the text are offsets, and it is pointers that are sorted; the text holds its words in the
  order of their addresses. Each thread sorts its own segment of the array, so a thread is one step, and the
  order in which the threads run is an argument. The loops of the merge are those of \<open>sorts.c\<close>.
\<close>

section \<open>Splitting the text\<close>

partial_function (option) count_lines_loop :: "string \<Rightarrow> nat \<Rightarrow> nat \<Rightarrow> nat option" where
  "count_lines_loop dictionary p cnt = do {
     c \<leftarrow> aget dictionary p;
     if c \<noteq> NUL then count_lines_loop dictionary (p + 1) (cnt + (if c = CHR 0x0A then 1 else 0))
     else Some (cnt + 1)
   }"

definition CountLines :: "string \<Rightarrow> nat option" where
  "CountLines dictionary = count_lines_loop dictionary 0 0"

text \<open>The library function \<open>strtok\<close> with the separator newline: the text it changes, the token, if
  there is one, and the place where the next call goes on.\<close>

partial_function (option) skip_newlines :: "string \<Rightarrow> nat \<Rightarrow> nat option" where
  "skip_newlines s p = do { c \<leftarrow> aget s p; if c = CHR 0x0A then skip_newlines s (p + 1) else Some p }"

partial_function (option) end_of_token :: "string \<Rightarrow> nat \<Rightarrow> nat option" where
  "end_of_token s p = do { c \<leftarrow> aget s p; if c \<noteq> CHR 0x0A \<and> c \<noteq> NUL then end_of_token s (p + 1) else Some p }"

definition strtok :: "string \<Rightarrow> nat \<Rightarrow> (string \<times> nat option \<times> nat) option" where
  "strtok s p = do {
     b \<leftarrow> skip_newlines s p;
     c \<leftarrow> aget s b;
     if c = NUL then Some (s, None, b)
     else do {
       e \<leftarrow> end_of_token s b;
       d \<leftarrow> aget s e;
       if d = NUL then Some (s, Some b, e) else do { s \<leftarrow> aset s e NUL; Some (s, Some b, e + 1) }
     }
   }"

text \<open>The array of pointers comes from \<open>malloc\<close>: its cells are indeterminate until they are assigned.\<close>

partial_function (option) split_loop :: "int option list \<Rightarrow> nat \<Rightarrow> string \<Rightarrow> nat option \<Rightarrow> nat \<Rightarrow> (int option list \<times> string) option" where
  "split_loop pointers_arr i dictionary token pos = (case token of
     None \<Rightarrow> Some (pointers_arr, dictionary)
   | Some t \<Rightarrow> do {
       pointers_arr \<leftarrow> aset pointers_arr i (Some (int t));
       (dictionary, token, pos) \<leftarrow> strtok dictionary pos;
       split_loop pointers_arr (i + 1) dictionary token pos
     })"

definition SplitAndPoint :: "int option list \<Rightarrow> string \<Rightarrow> (int option list \<times> string) option" where
  "SplitAndPoint pointers_arr dictionary = do {
     (dictionary, token, pos) \<leftarrow> strtok dictionary 0;
     split_loop pointers_arr 0 dictionary token pos
   }"

definition NUM_OF_COPIES :: nat where "NUM_OF_COPIES = 4"

definition NUM_OF_THREADS :: nat where "NUM_OF_THREADS = 5"

partial_function (option) duplicate_loop :: "'c list \<Rightarrow> 'c list \<Rightarrow> nat \<Rightarrow> nat \<Rightarrow> 'c list option" where
  "duplicate_loop small_arr big_Arr lines_num i = (if NUM_OF_COPIES > i then do {
       c_assert (lines_num \<le> length small_arr \<and> i * lines_num + lines_num \<le> length big_Arr);
       duplicate_loop small_arr
         (take (i * lines_num) big_Arr @ take lines_num small_arr @ drop (i * lines_num + lines_num) big_Arr) lines_num (i + 1)
     } else Some big_Arr)"

definition PointersArrDuplicate :: "'c list \<Rightarrow> 'c list \<Rightarrow> nat \<Rightarrow> 'c list option" where
  "PointersArrDuplicate small_arr big_Arr lines_num = duplicate_loop small_arr big_Arr lines_num 0"

section \<open>The merge sort of a segment\<close>

text \<open>The status is 1 where nothing was merged, because the halves are in order or memory is missing.\<close>

definition ptr_MergeBySize :: "bool \<Rightarrow> int list \<Rightarrow> nat \<Rightarrow> nat \<Rightarrow> nat \<Rightarrow> (int \<times> int list) option" where
  "ptr_MergeBySize mem arr arr1 arr2 len = do {
     a \<leftarrow> aget arr arr2;
     b \<leftarrow> aget arr (arr2 - 1);
     if a > b then Some (1, arr)
     else if \<not> mem then Some (1, arr)
     else do {
       (runner1, runner2, swap) \<leftarrow> merge_both arr arr1 arr2 arr2 (arr1 + len) [];
       swap \<leftarrow> merge_rest arr runner1 arr2 swap;
       swap \<leftarrow> merge_rest arr runner2 (arr1 + len) swap;
       Some (0, take arr1 arr @ swap @ drop (arr1 + len) arr)
     }
   }"

partial_function (option) ptr_MergeSort :: "(nat \<Rightarrow> nat \<Rightarrow> bool) \<Rightarrow> int list \<Rightarrow> nat \<Rightarrow> nat \<Rightarrow> (int \<times> int list) option" where
  "ptr_MergeSort mem arr off num_of_elements =
     (if num_of_elements = 1 then Some (1, arr)
      else do {
        (_, arr) \<leftarrow> ptr_MergeSort mem arr off (num_of_elements div 2);
        (_, arr) \<leftarrow> ptr_MergeSort mem arr (off + num_of_elements div 2) (num_of_elements div 2 + num_of_elements mod 2);
        (_, arr) \<leftarrow> ptr_MergeBySize (mem off num_of_elements) arr off (off + num_of_elements div 2) num_of_elements;
        Some (0, arr)
      })"

section \<open>The threads\<close>

text \<open>Start and length of the segment of thread \<open>i\<close>; the last one takes what is left over.\<close>

definition thread_segment :: "nat \<Rightarrow> nat \<Rightarrow> nat \<times> nat" where
  "thread_segment lines_num i =
     (i * (lines_num * NUM_OF_COPIES div NUM_OF_THREADS),
      lines_num * NUM_OF_COPIES div NUM_OF_THREADS
        + (if NUM_OF_THREADS = i + 1 then lines_num * NUM_OF_COPIES mod NUM_OF_THREADS else 0))"

definition ThreadSort :: "(nat \<Rightarrow> nat \<Rightarrow> bool) \<Rightarrow> int list \<Rightarrow> nat \<times> nat \<Rightarrow> int list option" where
  "ThreadSort mem arr data = map_option snd (ptr_MergeSort mem arr (fst data) (snd data))"

fun run_threads :: "(nat \<Rightarrow> nat \<Rightarrow> bool) \<Rightarrow> nat list \<Rightarrow> int list \<Rightarrow> nat \<Rightarrow> int list option" where
  "run_threads mem [] arr lines_num = Some arr"
| "run_threads mem (i # order) arr lines_num = do {
     arr \<leftarrow> ThreadSort mem arr (thread_segment lines_num i);
     run_threads mem order arr lines_num
   }"

definition MtShuffleSorting :: "(nat \<Rightarrow> nat \<Rightarrow> bool) \<Rightarrow> nat list \<Rightarrow> int list \<Rightarrow> nat \<Rightarrow> int list option" where
  "MtShuffleSorting mem order big_dictionary lines_num = run_threads mem order big_dictionary lines_num"

partial_function (option) merge_segments :: "(nat \<Rightarrow> bool) \<Rightarrow> int list \<Rightarrow> nat \<Rightarrow> nat \<Rightarrow> nat \<Rightarrow> int list option" where
  "merge_segments mem arr part lines_num i =
     (if NUM_OF_THREADS - 1 > i then do {
        (r, arr) \<leftarrow> ptr_MergeBySize (mem i) arr 0 (part * i) (part * (i + 1));
        if r = 1 then Some arr else merge_segments mem arr part lines_num (i + 1)
      } else do {
        (_, arr) \<leftarrow> ptr_MergeBySize (mem i) arr 0 (part * i) (lines_num * NUM_OF_COPIES);
        Some arr
      })"

definition MergeArr :: "(nat \<Rightarrow> bool) \<Rightarrow> int list \<Rightarrow> nat \<Rightarrow> int list option" where
  "MergeArr mem big_dictionary lines_num =
     merge_segments mem big_dictionary (lines_num * NUM_OF_COPIES div NUM_OF_THREADS) lines_num 1"

text \<open>The program, with the shuffle by \<open>qsort\<close> as an argument; comparing an indeterminate pointer is a fault.\<close>

definition sort_dictionary ::
  "(nat \<Rightarrow> nat \<Rightarrow> bool) \<Rightarrow> (nat \<Rightarrow> bool) \<Rightarrow> (int list \<Rightarrow> int list) \<Rightarrow> nat list \<Rightarrow> string \<Rightarrow> (int list \<times> string) option" where
  "sort_dictionary mem mem2 shuffle order dictionary = do {
     lines_num \<leftarrow> CountLines dictionary;
     (pointers_arr, dictionary) \<leftarrow> SplitAndPoint (replicate lines_num None) dictionary;
     big_arr \<leftarrow> PointersArrDuplicate pointers_arr (replicate (lines_num * NUM_OF_COPIES) None) lines_num;
     big_arr \<leftarrow> those big_arr;
     big_arr \<leftarrow> MtShuffleSorting mem order (shuffle big_arr) lines_num;
     big_arr \<leftarrow> MergeArr mem2 big_arr lines_num;
     Some (big_arr, dictionary)
   }"

section \<open>The merge sort\<close>

lemma ptr_MergeBySize_eq: "map_option snd (ptr_MergeBySize mem arr a m n) = MergeBySize mem arr a m n"
  by (cases "aget arr m"; cases "aget arr (m - Suc 0)"; cases "merge_both arr a m m (a + n) []")
    (auto simp: ptr_MergeBySize_def MergeBySize_def map_option_bind o_def split_def)

lemma ptr_MergeBySize_status:
  "ptr_MergeBySize True arr a m n = Some (r, ys) \<Longrightarrow> r = 1 \<longleftrightarrow> arr ! m > arr ! (m - 1)"
  by (auto simp: ptr_MergeBySize_def aget_eq_Some split: bind_splits if_splits)

lemma ptr_MergeBySize_spec:
  assumes "0 < a" "0 < b" "off + (a + b) \<le> length xs" "sorted (slice off a xs)" "sorted (slice (off + a) b xs)"
  shows "\<exists>r ys. ptr_MergeBySize True xs off (off + a) (a + b) = Some (r, ys) \<and> permutes_slice off (a + b) xs ys \<and>
    sorted (slice off (a + b) ys) \<and> (r = 1 \<longleftrightarrow> xs ! (off + a) > xs ! (off + a - 1))"
proof -
  obtain ys where "MergeBySize True xs off (off + a) (a + b) = Some ys" "permutes_slice off (a + b) xs ys"
    "sorted (slice off (a + b) ys)" using MergeBySize_spec [OF assms] by blast
  moreover then obtain r where "ptr_MergeBySize True xs off (off + a) (a + b) = Some (r, ys)"
    using ptr_MergeBySize_eq [of True xs off "off + a" "a + b"] by auto
  ultimately show ?thesis using ptr_MergeBySize_status by blast
qed

lemma ptr_MergeSort_eq: "0 < n \<Longrightarrow> map_option snd (ptr_MergeSort mem arr off n) = MergeSort mem arr off n"
proof (induction n arbitrary: arr off rule: less_induct)
  case (less n)
  show ?case
  proof (cases "n = 1")
    case True
    then show ?thesis by (subst ptr_MergeSort.simps, subst MergeSort.simps) simp
  next
    case False
    define a b where "a = n div 2" and "b = a + n mod 2"
    have ab: "0 < a" "a < n" "0 < b" "b < n" using False less.prems by (auto simp: a_def b_def) presburger+
    have IH: "map_option snd (ptr_MergeSort mem arr off a) = MergeSort mem arr off a"
      "map_option snd (ptr_MergeSort mem arr off b) = MergeSort mem arr off b" for arr off
      using less.IH ab by blast+
    have bind_snd: "Option.bind x (\<lambda>(_, y). f y) = Option.bind (map_option snd x) f" for x :: "(int \<times> int list) option" and f :: "int list \<Rightarrow> int list option"
      by (cases x) auto
    have "map_option snd (ptr_MergeSort mem arr off n) = do {
        (_, arr) \<leftarrow> ptr_MergeSort mem arr off a;
        (_, arr) \<leftarrow> ptr_MergeSort mem arr (off + a) b;
        (_, arr) \<leftarrow> ptr_MergeBySize (mem off n) arr off (off + a) n;
        Some arr }"
      using False by (subst ptr_MergeSort.simps) (simp add: map_option_bind o_def split_def flip: a_def b_def)
    also have "\<dots> = do {
        arr \<leftarrow> MergeSort mem arr off a;
        arr \<leftarrow> MergeSort mem arr (off + a) b;
        MergeBySize (mem off n) arr off (off + a) n }"
      unfolding bind_snd IH ptr_MergeBySize_eq by simp
    also have "\<dots> = MergeSort mem arr off n" using False by (subst (3) MergeSort.simps) (simp flip: a_def b_def)
    finally show ?thesis .
  qed
qed

section \<open>The threads in any order\<close>

lemma slice_eq_before:
  assumes "permutes_slice off n xs ys" "o1 + k \<le> off" "off + n \<le> length xs"
  shows "slice o1 k ys = slice o1 k xs"
proof (rule nth_equalityI)
  have l: "length ys = length xs" using assms(1) by (simp add: permutes_slice_def)
  then show "length (slice o1 k ys) = length (slice o1 k xs)" by (simp add: slice_def)
  fix i
  assume "i < length (slice o1 k ys)"
  then have "i < k" "o1 + i < length xs" using l by (auto simp: slice_def)
  then show "slice o1 k ys ! i = slice o1 k xs ! i"
    using permutes_slice_nth_before [OF assms(1), of "o1 + i"] assms(2) l by (simp add: slice_def)
qed

lemma slice_eq_after:
  assumes "permutes_slice off n xs ys" "off + n \<le> o1"
  shows "slice o1 k ys = slice o1 k xs"
proof (rule nth_equalityI)
  have l: "length ys = length xs" using assms(1) by (simp add: permutes_slice_def)
  then show "length (slice o1 k ys) = length (slice o1 k xs)" by (simp add: slice_def)
  fix i
  assume "i < length (slice o1 k ys)"
  then have "i < k" "o1 + i < length xs" using l by (auto simp: slice_def)
  then show "slice o1 k ys ! i = slice o1 k xs ! i"
    using permutes_slice_nth_after [OF assms(1), of "o1 + i"] assms(2) l by (simp add: slice_def)
qed

abbreviation segment_of :: "nat \<Rightarrow> nat \<Rightarrow> int list \<Rightarrow> int list" where
  "segment_of lines_num i xs \<equiv> slice (fst (thread_segment lines_num i)) (snd (thread_segment lines_num i)) xs"

lemma segments:
  assumes "2 \<le> lines_num" "i < 5"
  shows "0 < snd (thread_segment lines_num i)"
    "fst (thread_segment lines_num i) + snd (thread_segment lines_num i) \<le> lines_num * 4"
    "i < j \<Longrightarrow> j < 5 \<Longrightarrow> fst (thread_segment lines_num i) + snd (thread_segment lines_num i) \<le> fst (thread_segment lines_num j)"
proof -
  define p where "p = lines_num * 4 div 5"
  define r where "r = lines_num * 4 mod 5"
  have p: "0 < p" "lines_num * 4 = 5 * p + r" using assms(1) by (auto simp: p_def r_def)
  have seg: "thread_segment lines_num i = (i * p, p + (if i = 4 then r else 0))" for i
    by (auto simp: thread_segment_def NUM_OF_COPIES_def NUM_OF_THREADS_def p_def r_def)
  show "0 < snd (thread_segment lines_num i)" using p(1) by (simp add: seg)
  show "fst (thread_segment lines_num i) + snd (thread_segment lines_num i) \<le> lines_num * 4"
  proof (cases "i = 4")
    case False
    have "Suc i * p \<le> 5 * p" using assms(2) by (intro mult_le_mono1) simp
    then have "i * p + p \<le> 5 * p + r" unfolding mult_Suc by linarith
    then show ?thesis using p(2) False by (simp add: seg)
  qed (simp add: seg p(2))
  show "fst (thread_segment lines_num i) + snd (thread_segment lines_num i) \<le> fst (thread_segment lines_num j)" if "i < j" "j < 5"
  proof -
    have "Suc i * p \<le> j * p" using that by (intro mult_le_mono1) simp
    then show ?thesis using that by (simp add: seg)
  qed
qed

lemma ThreadSort_spec:
  assumes "2 \<le> lines_num" "i < 5" "length arr = lines_num * 4"
  shows "\<exists>ys. ThreadSort (\<lambda>_ _. True) arr (thread_segment lines_num i) = Some ys \<and> length ys = length arr \<and>
    segment_of lines_num i ys = sort (segment_of lines_num i arr) \<and>
    (\<forall>j < 5. j \<noteq> i \<longrightarrow> segment_of lines_num j ys = segment_of lines_num j arr)"
proof -
  let ?o = "fst (thread_segment lines_num i)" and ?n = "snd (thread_segment lines_num i)"
  note s = segments [OF assms(1,2)]
  obtain ys where ys: "MergeSort (\<lambda>_ _. True) arr ?o ?n = Some ys" "permutes_slice ?o ?n arr ys" "sorted (slice ?o ?n ys)"
    using MergeSort_spec [of ?n ?o arr] s(1,2) assms(3) by auto
  have "ThreadSort (\<lambda>_ _. True) arr (thread_segment lines_num i) = Some ys"
    using ptr_MergeSort_eq [OF s(1)] ys(1) by (simp add: ThreadSort_def)
  moreover have "mset (slice ?o ?n ys) = mset (slice ?o ?n arr)" "length ys = length arr"
    using ys(2) by (simp_all add: permutes_slice_def)
  moreover from this(1) ys(3) have "slice ?o ?n ys = sort (slice ?o ?n arr)" by (metis properties_for_sort)
  moreover have "segment_of lines_num j ys = segment_of lines_num j arr" if "j < 5" "j \<noteq> i" for j
  proof (cases "j < i")
    case True
    show ?thesis by (rule slice_eq_before [OF ys(2) segments(3) [OF assms(1) that(1) True assms(2)]]) (use s(2) assms(3) in simp)
  next
    case False
    then have "i < j" using that by simp
    then show ?thesis by (rule slice_eq_after [OF ys(2) s(3) [OF _ that(1)]])
  qed
  ultimately show ?thesis by blast
qed

lemma run_threads_spec:
  assumes l: "2 \<le> lines_num"
  shows "distinct order \<Longrightarrow> set order \<subseteq> {..<5} \<Longrightarrow> length arr = lines_num * 4 \<Longrightarrow>
   \<exists>ys. run_threads (\<lambda>_ _. True) order arr lines_num = Some ys \<and> length ys = length arr \<and>
     (\<forall>j < 5. segment_of lines_num j ys = (if j \<in> set order then sort (segment_of lines_num j arr) else segment_of lines_num j arr))"
proof (induction order arbitrary: arr)
  case (Cons i order)
  obtain ys where ys: "ThreadSort (\<lambda>_ _. True) arr (thread_segment lines_num i) = Some ys" "length ys = length arr"
    "segment_of lines_num i ys = sort (segment_of lines_num i arr)"
    "\<forall>j < 5. j \<noteq> i \<longrightarrow> segment_of lines_num j ys = segment_of lines_num j arr"
    using ThreadSort_spec [OF l, of i arr] Cons.prems by auto
  obtain zs where zs: "run_threads (\<lambda>_ _. True) order ys lines_num = Some zs" "length zs = length ys"
    "\<forall>j < 5. segment_of lines_num j zs = (if j \<in> set order then sort (segment_of lines_num j ys) else segment_of lines_num j ys)"
    using Cons.IH [of ys] Cons.prems ys(2) by auto
  have "segment_of lines_num j zs = (if j \<in> set (i # order) then sort (segment_of lines_num j arr) else segment_of lines_num j arr)"
    if "j < 5" for j
    using zs(3) ys(3,4) that Cons.prems(1) by (cases "j = i") auto
  then show ?case using ys(1,2) zs(1,2) by auto
qed simp

lemma concat_segments:
  assumes "2 \<le> lines_num" "length xs = lines_num * 4"
  shows "xs = concat (map (\<lambda>i. segment_of lines_num i xs) [0..<5])"
proof -
  define p where "p = lines_num * 4 div 5"
  define r where "r = lines_num * 4 mod 5"
  have seg: "thread_segment lines_num i = (i * p, p + (if i = 4 then r else 0))" for i
    by (auto simp: thread_segment_def NUM_OF_COPIES_def NUM_OF_THREADS_def p_def r_def)
  have "concat (map (\<lambda>i. segment_of lines_num i xs) [0..<5]) =
      slice 0 p xs @ slice (0 + p) p xs @ slice (0 + (p + p)) p xs @ slice (0 + (p + p + p)) p xs @ slice (0 + (p + p + p + p)) (p + r) xs"
    by (simp add: seg eval_nat_numeral add.assoc)
  also have "\<dots> = slice 0 (p + p + p + p + (p + r)) xs" unfolding append_assoc [symmetric] slice_join by simp
  also have "p + p + p + p + (p + r) = length xs"
    using assms(2) mult_div_mod_eq [of 5 "lines_num * 4"] unfolding p_def [symmetric] r_def [symmetric] by linarith
  finally show ?thesis by simp
qed

lemma MtShuffleSorting_spec:
  assumes "2 \<le> lines_num" "length arr = lines_num * 4" "distinct order" "set order = {..<5}"
  shows "\<exists>ys. MtShuffleSorting (\<lambda>_ _. True) order arr lines_num = Some ys \<and> length ys = length arr \<and>
    (\<forall>j < 5. segment_of lines_num j ys = sort (segment_of lines_num j arr)) \<and>
    ys = concat (map (\<lambda>i. sort (segment_of lines_num i arr)) [0..<5])"
proof -
  obtain ys where ys: "run_threads (\<lambda>_ _. True) order arr lines_num = Some ys" "length ys = length arr"
    "\<forall>j < 5. segment_of lines_num j ys = sort (segment_of lines_num j arr)"
    using run_threads_spec [OF assms(1,3), of arr] assms(2,4) by auto
  have "concat (map (\<lambda>i. segment_of lines_num i ys) [0..<5]) = concat (map (\<lambda>i. sort (segment_of lines_num i arr)) [0..<5])"
    using ys(3) by (intro arg_cong [where f = concat] map_cong) auto
  then show ?thesis using ys concat_segments [OF assms(1), of ys] assms(2) unfolding MtShuffleSorting_def by metis
qed

lemma mset_sorted_segments: "mset (concat (map (\<lambda>i. sort (f i)) js)) = mset (concat (map f js))"
  by (induction js) simp_all

section \<open>Merging the segments\<close>

text \<open>What the merge of the first \<open>i\<close> segments leaves of \<open>ys\<close>.\<close>

definition merged :: "int list \<Rightarrow> int list \<Rightarrow> nat \<Rightarrow> bool" where
  "merged ys xs n \<longleftrightarrow> permutes_slice 0 n ys xs \<and> sorted (slice 0 n xs)"

lemma merged_max: "merged ys xs n \<Longrightarrow> j < n \<Longrightarrow> n \<le> length ys \<Longrightarrow> ys ! j \<le> xs ! (n - 1)"
proof -
  assume m: "merged ys xs n" and j: "j < n" "n \<le> length ys"
  have "set (slice 0 n xs) = set (slice 0 n ys)" using m permutes_slice_set [of 0 n ys xs] by (simp add: merged_def)
  moreover have "ys ! j \<in> set (slice 0 n ys)" using j by (auto simp: slice_def in_set_conv_nth)
  ultimately have "ys ! j \<in> set (slice 0 n xs)" by simp
  moreover have l: "length xs = length ys" using m by (simp add: merged_def permutes_slice_def)
  ultimately obtain k where k: "k < n" "slice 0 n xs ! k = ys ! j"
    using j(2) unfolding in_set_conv_nth by auto
  have "slice 0 n xs ! k \<le> slice 0 n xs ! (n - 1)"
    using m k(1) j l by (intro sorted_nth_mono) (auto simp: merged_def)
  then show ?thesis using k j l by (simp add: slice_def)
qed

lemma merge_step:
  assumes "merged ys xs a" "0 < a" "0 < b" "a + b \<le> length ys" "sorted (slice a b ys)"
  shows "\<exists>r zs. ptr_MergeBySize True xs 0 a (a + b) = Some (r, zs) \<and> merged ys zs (a + b) \<and>
    (r = 1 \<longleftrightarrow> (\<forall>j < a. ys ! j < ys ! a))"
proof -
  have l: "length xs = length ys" using assms(1) by (simp add: merged_def permutes_slice_def)
  have seg: "slice a b xs = slice a b ys"
    using permutes_slice_after [of 0 a ys xs b] assms(1) by (simp add: merged_def)
  obtain r zs where z: "ptr_MergeBySize True xs 0 a (a + b) = Some (r, zs)" "permutes_slice 0 (a + b) xs zs"
    "sorted (slice 0 (a + b) zs)" "r = 1 \<longleftrightarrow> xs ! a > xs ! (a - 1)"
    using ptr_MergeBySize_spec [of a b 0 xs] assms l seg by (auto simp: merged_def)
  have "permutes_slice 0 (a + b) ys xs" using permutes_slice_left [of 0 a ys xs b] assms(1) by (simp add: merged_def)
  then have m: "merged ys zs (a + b)" using permutes_slice_trans z(2,3) by (auto simp: merged_def)
  have at: "xs ! a = ys ! a" using permutes_slice_nth_after [of 0 a ys xs a] assms by (simp add: merged_def)
  have "(xs ! (a - 1) < xs ! a) \<longleftrightarrow> (\<forall>j < a. ys ! j < ys ! a)"
  proof
    assume "xs ! (a - 1) < xs ! a"
    then show "\<forall>j < a. ys ! j < ys ! a" using merged_max [OF assms(1)] assms(4) at by fastforce
  next
    assume all: "\<forall>j < a. ys ! j < ys ! a"
    have "slice 0 a xs ! (a - 1) \<in> set (slice 0 a xs)" using assms(2,4) l by (intro nth_mem) (simp add: slice_def)
    then have "xs ! (a - 1) \<in> set (slice 0 a ys)"
      using assms(1,2) permutes_slice_set [of 0 a ys xs] by (simp add: merged_def slice_def)
    then obtain j where "j < a" "xs ! (a - 1) = ys ! j"
      using in_set_slice [of 0 a ys] assms(4) by auto
    then show "xs ! (a - 1) < xs ! a" using all at by simp
  qed
  then show ?thesis using z(1,4) m by blast
qed

text \<open>\<open>in_order ys part i\<close>: segment \<open>i\<close> starts above everything before it, which ends the merging.\<close>

definition in_order :: "int list \<Rightarrow> nat \<Rightarrow> nat \<Rightarrow> bool" where
  "in_order ys part i \<longleftrightarrow> (\<forall>j < part * i. ys ! j < ys ! (part * i))"

lemma merge_segments_spec:
  assumes l: "2 \<le> lines_num" "length ys = lines_num * 4"
    and segs: "\<forall>j < 5. sorted (segment_of lines_num j ys)" and part: "part = lines_num * 4 div 5"
  shows "1 \<le> i \<Longrightarrow> i \<le> 4 \<Longrightarrow> merged ys xs (part * i) \<Longrightarrow>
    \<exists>zs. merge_segments (\<lambda>_. True) xs part lines_num i = Some zs \<and> mset zs = mset ys \<and>
      ((\<forall>k. i \<le> k \<and> k < 4 \<longrightarrow> \<not> in_order ys part k) \<longrightarrow> sorted zs)"
proof (induction "4 - i" arbitrary: i xs)
  case 0
  let ?r = "part + lines_num * 4 mod 5"
  have i: "i = 4" using 0 by simp
  have p: "0 < part" "part * 4 + ?r = length ys" using l part by auto
  have "sorted (slice (part * 4) ?r ys)" using segs [rule_format, of 4]
    by (simp add: thread_segment_def NUM_OF_COPIES_def NUM_OF_THREADS_def part mult.commute)
  with merge_step [of ys xs "part * 4" ?r] 0(4) p obtain r zs where z: "ptr_MergeBySize True xs 0 (part * 4) (part * 4 + ?r) = Some (r, zs)"
    "merged ys zs (part * 4 + ?r)" by (auto simp: i)
  have "merge_segments (\<lambda>_. True) xs part lines_num i = Some zs"
    using z(1) p(2) l(2) by (subst merge_segments.simps) (simp add: i NUM_OF_THREADS_def NUM_OF_COPIES_def)
  moreover have "permutes_slice 0 (length ys) ys zs" "sorted (slice 0 (length ys) zs)" using z(2) p(2) by (simp_all add: merged_def)
  ultimately show ?case using permutes_slice_whole [of ys zs] by auto
next
  case (Suc d)
  then have i: "i < 4" "1 \<le> i" by simp_all
  have p: "0 < part" "part * 5 \<le> length ys" using l part by auto
  have "part * i + part \<le> part * 5" using i by (metis Suc_leI add.commute less_imp_le_nat mult_Suc_right mult_le_mono2 less_trans numeral_less_iff semiring_norm)
  then have le: "part * i + part \<le> length ys" using p(2) by linarith
  have "sorted (slice (part * i) part ys)" using segs [rule_format, of i] i
    by (simp add: thread_segment_def NUM_OF_COPIES_def NUM_OF_THREADS_def part mult.commute)
  with merge_step [OF Suc.prems(3) _ p(1) le] p(1) i obtain r zs where
    z: "ptr_MergeBySize True xs 0 (part * i) (part * i + part) = Some (r, zs)" "merged ys zs (part * i + part)"
      "r = 1 \<longleftrightarrow> in_order ys part i" by (auto simp: in_order_def)
  have step: "merge_segments (\<lambda>_. True) xs part lines_num i =
      (if r = 1 then Some zs else merge_segments (\<lambda>_. True) zs part lines_num (i + 1))"
    using z(1) i by (subst merge_segments.simps) (simp add: NUM_OF_THREADS_def algebra_simps)
  show ?case
  proof (cases "r = 1")
    case True
    have "permutes_slice 0 (part * i + part) ys zs" using z(2) by (simp add: merged_def)
    then have "mset zs = mset ys"
      using permutes_slice_left [of 0 "part * i + part" ys zs "length ys - (part * i + part)"] le permutes_slice_whole [of ys zs] by auto
    then show ?thesis using step True z(3) i by auto
  next
    case False
    have "merged ys zs (part * (i + 1))" using z(2) by (simp add: algebra_simps)
    moreover have "d = 4 - (i + 1)" "1 \<le> i + 1" "i + 1 \<le> 4" using Suc.hyps(2) i by simp_all
    ultimately obtain ws where
      "merge_segments (\<lambda>_. True) zs part lines_num (i + 1) = Some ws" "mset ws = mset ys"
      "(\<forall>k. i + 1 \<le> k \<and> k < 4 \<longrightarrow> \<not> in_order ys part k) \<longrightarrow> sorted ws" using Suc.hyps(1) [of "i + 1" zs] by blast
    then show ?thesis using step False by auto
  qed
qed

text \<open>C28. For a dictionary of at least two lines with memory available, the five threads, in whatever order
  they run, leave the concatenation of their sorted segments. The merge ends and keeps the elements, and the
  result is sorted unless one of the middle segments starts above everything before it.\<close>

theorem dictionary_sort_correct:
  assumes "2 \<le> lines_num" and "length arr = lines_num * 4" and "distinct order" and "set order = {..<5}"
  shows "\<exists>ys zs. MtShuffleSorting (\<lambda>_ _. True) order arr lines_num = Some ys \<and>
    ys = concat (map (\<lambda>i. sort (segment_of lines_num i arr)) [0..<5]) \<and>
    MergeArr (\<lambda>_. True) ys lines_num = Some zs \<and> mset zs = mset arr \<and>
    ((\<forall>k. 1 \<le> k \<and> k < 4 \<longrightarrow> \<not> in_order ys (lines_num * 4 div 5) k) \<longrightarrow> zs = sort arr)"
proof -
  let ?p = "lines_num * 4 div 5"
  obtain ys where ys: "MtShuffleSorting (\<lambda>_ _. True) order arr lines_num = Some ys" "length ys = length arr"
    "\<forall>j < 5. segment_of lines_num j ys = sort (segment_of lines_num j arr)"
    "ys = concat (map (\<lambda>i. sort (segment_of lines_num i arr)) [0..<5])"
    using MtShuffleSorting_spec [OF assms] by blast
  have "sorted (slice 0 ?p ys)" using ys(3) [rule_format, of 0]
    by (simp add: thread_segment_def NUM_OF_COPIES_def NUM_OF_THREADS_def)
  then have "merged ys ys (?p * 1)" by (simp add: merged_def)
  with merge_segments_spec [OF assms(1) _ _ refl, of ys 1 ys] ys(2,3) assms(2) obtain zs where
    z: "merge_segments (\<lambda>_. True) ys ?p lines_num 1 = Some zs" "mset zs = mset ys"
      "(\<forall>k. 1 \<le> k \<and> k < 4 \<longrightarrow> \<not> in_order ys ?p k) \<longrightarrow> sorted zs" by auto
  have "mset ys = mset arr"
    unfolding ys(4) mset_sorted_segments using concat_segments [OF assms(1,2)] by simp
  with z have "mset zs = mset arr" "(\<forall>k. 1 \<le> k \<and> k < 4 \<longrightarrow> \<not> in_order ys ?p k) \<longrightarrow> zs = sort arr"
    by (simp, metis properties_for_sort)
  then show ?thesis using ys(1,4) z(1) by (auto simp: MergeArr_def NUM_OF_COPIES_def NUM_OF_THREADS_def)
qed

lemma dictionary_sort_correct_witness:
  "\<exists>ys zs. MtShuffleSorting (\<lambda>_ _. True) [4, 2, 0, 1, 3] [2, 1, 1, 2, 1, 2, 2, 1] 2 = Some ys \<and>
    ys = concat (map (\<lambda>i. sort (segment_of 2 i [2, 1, 1, 2, 1, 2, 2, 1])) [0..<5]) \<and>
    MergeArr (\<lambda>_. True) ys 2 = Some zs \<and> mset zs = mset [2, 1, 1, 2, 1, 2, 2, 1] \<and>
    ((\<forall>k. 1 \<le> k \<and> k < 4 \<longrightarrow> \<not> in_order ys (2 * 4 div 5) k) \<longrightarrow> zs = sort [2, 1, 1, 2, 1, 2, 2, 1])"
proof -
  have "set [4, 2, 0, 1, 3] = {..<5 :: nat}" by auto
  then show ?thesis by (intro dictionary_sort_correct) simp_all
qed

section \<open>Where it fails\<close>

text \<open>The merge stops at the first segment that needs no merging.\<close>

lemma MergeArr_stops: "MergeArr mem [1, 2, 1, 2, 1, 1, 2, 2] 2 = Some [1, 2, 1, 2, 1, 1, 2, 2]"
  by (simp add: MergeArr_def NUM_OF_COPIES_def NUM_OF_THREADS_def)
    (subst merge_segments.simps, simp add: ptr_MergeBySize_def NUM_OF_THREADS_def)

text \<open>A text that ends in a newline has one line more than tokens: the last pointer is indeterminate.\<close>

lemma sort_dictionary_newline: "sort_dictionary mem mem2 shuffle order [CHR ''a'', CHR 0x0A, NUL] = None"
  by (simp add: sort_dictionary_def CountLines_def count_lines_loop.simps NUL_def SplitAndPoint_def strtok_def
      skip_newlines.simps end_of_token.simps split_loop.simps PointersArrDuplicate_def duplicate_loop.simps
      NUM_OF_COPIES_def eval_nat_numeral)

text \<open>For one line the segments of four threads are empty, and the sort of an empty segment does not end.\<close>

lemma ptr_MergeSort_empty: "ptr_MergeSort mem arr off 0 = None"
proof -
  have "n \<noteq> 0" if "ptr_MergeSort mem arr off n = Some y" for mem arr off n y
    by (rule ptr_MergeSort.raw_induct [of "\<lambda>_ _ _ n _. n \<noteq> 0", OF _ that])
      (auto split: bind_splits if_splits, metis div_0 gr0I)
  from this [of mem arr off 0] show ?thesis by (cases "ptr_MergeSort mem arr off 0") simp_all
qed

lemma one_line: "MtShuffleSorting mem [0, 1, 2, 3, 4] arr 1 = None"
  by (simp add: MtShuffleSorting_def thread_segment_def NUM_OF_COPIES_def NUM_OF_THREADS_def ThreadSort_def ptr_MergeSort_empty)

end
