(* ===== verification/LetterCount.thy ===== *)
theory LetterCount
  imports CString
begin

text \<open>
  Counting the characters of a text with four threads, \<open>system_programming/mt_c_sort/mt_c_sort.c\<close>. Each
  thread counts a quarter of the text into an array of its own; after joining them, the program adds the
  arrays. A thread writes nothing that another one reads, so it is a function of its index.
\<close>

definition NUM_OF_COPIES_mt :: nat where "NUM_OF_COPIES_mt = 1000"

definition NUM_OF_THREADS_mt :: nat where "NUM_OF_THREADS_mt = 4"

definition RANGE_OF_THREAD :: "nat \<Rightarrow> nat" where
  "RANGE_OF_THREAD number = number div NUM_OF_THREADS_mt"

definition START_OF_RANGE :: "nat \<Rightarrow> nat \<Rightarrow> nat" where
  "START_OF_RANGE number index = RANGE_OF_THREAD number * index"

definition ASCII_RANGE :: nat where "ASCII_RANGE = 256"

text \<open>The length of the text up to its terminator, as the library counts it.\<close>

partial_function (option) strlen_from :: "string \<Rightarrow> nat \<Rightarrow> nat option" where
  "strlen_from s p = do { c \<leftarrow> aget s p; if c = NUL then Some p else strlen_from s (p + 1) }"

text \<open>The index is a \<open>char\<close>, which is signed: for one above 127 it is outside the array.\<close>

partial_function (option) count_letters :: "string \<Rightarrow> nat \<Rightarrow> nat \<Rightarrow> nat list \<Rightarrow> nat list option" where
  "count_letters big_dictionary end_of i letter_count = (if end_of > i then do {
       c \<leftarrow> aget big_dictionary i;
       c_assert (0 \<le> c_char c);
       n \<leftarrow> aget letter_count (nat (c_char c));
       letter_count \<leftarrow> aset letter_count (nat (c_char c)) ((n + 1) mod 2 ^ 64);
       count_letters big_dictionary end_of (i + 1) letter_count
     } else Some letter_count)"

definition ThreadLettersCounter :: "string \<Rightarrow> nat \<Rightarrow> nat \<Rightarrow> nat list option" where
  "ThreadLettersCounter big_dictionary number index =
     count_letters big_dictionary (START_OF_RANGE number index + RANGE_OF_THREAD number) (START_OF_RANGE number index)
       (replicate ASCII_RANGE 0)"

fun join_threads :: "string \<Rightarrow> nat \<Rightarrow> nat list \<Rightarrow> nat list \<Rightarrow> nat list option" where
  "join_threads big_dictionary number [] arr = Some arr"
| "join_threads big_dictionary number (i # is) arr = do {
     letter_count \<leftarrow> ThreadLettersCounter big_dictionary number i;
     join_threads big_dictionary number is (map2 (\<lambda>a b. (a + b) mod 2 ^ 64) arr letter_count)
   }"

definition MT_C_Sorting :: "string \<Rightarrow> nat list option" where
  "MT_C_Sorting big_dictionary = do {
     number \<leftarrow> strlen_from big_dictionary 0;
     join_threads big_dictionary number [0..<NUM_OF_THREADS_mt] (replicate ASCII_RANGE 0)
   }"

text \<open>The copies of the file, given its contents and the answer of \<open>malloc\<close>.\<close>

definition GetBigDictionary :: "bool \<Rightarrow> string \<Rightarrow> string option" where
  "GetBigDictionary mem dictionary =
     (if mem then Some (concat (replicate NUM_OF_COPIES_mt dictionary)) else None)"

section \<open>What the threads count\<close>

definition letters :: "string \<Rightarrow> nat list" where
  "letters s = map (\<lambda>k. length (filter (\<lambda>c. c_char c = int k) s)) [0..<256]"

lemma length_letters [simp]: "length (letters s) = 256"
  by (simp add: letters_def)

lemma letters_nth: "k < 256 \<Longrightarrow> letters s ! k = length (filter (\<lambda>c. c_char c = int k) s)"
  by (simp add: letters_def del: upt_rec_numeral)

lemma letters_Nil: "letters [] = replicate 256 0"
  by (rule nth_equalityI) (simp_all add: letters_nth)

lemma letters_append: "map2 (+) (letters s) (letters t) = letters (s @ t)"
  by (rule nth_equalityI) (simp_all add: letters_nth)

lemma letters_snoc:
  assumes "0 \<le> c_char c" "c_char c < 256"
  shows "letters (s @ [c]) = (letters s)[nat (c_char c) := letters s ! nat (c_char c) + 1]"
  using assms by (intro nth_equalityI) (auto simp: letters_nth nth_list_update)

lemma c_char_less: "c_char c < 128"
proof -
  define n where "n = (of_char c :: nat)"
  have "n < 256" by (simp only: n_def nat_of_char_less_256)
  then show ?thesis by (auto simp: c_char_def Let_def simp flip: n_def)
qed

lemma count_letters_spec:
  assumes ascii: "\<forall>c \<in> set s. 0 \<le> c_char c" and len: "length s < 2 ^ 63"
  shows "b + n \<le> length s \<Longrightarrow> k \<le> n \<Longrightarrow>
    count_letters s (b + n) (b + k) (letters (take k (drop b s))) = Some (letters (take n (drop b s)))"
proof (induction "n - k" arbitrary: k)
  case 0
  then show ?case by (subst count_letters.simps) simp
next
  case (Suc d)
  let ?c = "s ! (b + k)"
  have k: "k < n" "b + k < length s" using Suc by simp_all
  have c: "0 \<le> c_char ?c" "c_char ?c < 256" using ascii k(2) c_char_less [of ?c] by auto
  have t: "take (Suc k) (drop b s) = take k (drop b s) @ [?c]" using k(2) by (simp add: take_Suc_conv_app_nth)
  have "letters (take k (drop b s)) ! nat (c_char ?c) \<le> length (take k (drop b s))" using c by (simp add: letters_nth del: length_take)
  then have small: "letters (take k (drop b s)) ! nat (c_char ?c) + 1 < 2 ^ 64" using k(2) len by simp
  have "count_letters s (b + n) (b + k) (letters (take k (drop b s))) =
      count_letters s (b + n) (b + Suc k) (letters (take (Suc k) (drop b s)))"
    unfolding t letters_snoc [OF c] using k c small by (subst count_letters.simps) simp
  then show ?case using Suc.hyps(1) [of "Suc k"] Suc.hyps(2) Suc.prems by simp
qed

lemma ThreadLettersCounter_spec:
  assumes "\<forall>c \<in> set s. 0 \<le> c_char c" "length s < 2 ^ 63" "number \<le> length s" "i < 4"
  shows "ThreadLettersCounter s number i = Some (letters (take (number div 4) (drop (number div 4 * i) s)))"
proof -
  have "number div 4 * Suc i \<le> number div 4 * 4" using assms(4) by (intro mult_le_mono2) simp
  moreover have "number div 4 * 4 \<le> number" by simp
  ultimately have "number div 4 * i + number div 4 \<le> length s" using assms(3) unfolding mult_Suc_right by linarith
  from count_letters_spec [OF assms(1,2) this, of 0] show ?thesis
    by (simp add: ThreadLettersCounter_def START_OF_RANGE_def RANGE_OF_THREAD_def NUM_OF_THREADS_mt_def ASCII_RANGE_def letters_Nil)
qed

lemma join_threads_spec:
  assumes a: "\<forall>c \<in> set s. 0 \<le> c_char c" "length s < 2 ^ 63" "number \<le> length s"
  shows "k \<le> 4 \<Longrightarrow> join_threads s number [k..<4] (letters (take (number div 4 * k) s)) = Some (letters (take (number div 4 * 4) s))"
proof (induction "4 - k" arbitrary: k)
  case (Suc d)
  let ?p = "number div 4"
  have k: "k < 4" using Suc by simp
  let ?s = "take (?p * k) s" and ?t = "take ?p (drop (?p * k) s)"
  have st: "?s @ ?t = take (?p * Suc k) s" by (simp only: mult_Suc_right add.commute [of ?p] take_add)
  have "map2 (\<lambda>a b. (a + b) mod 2 ^ 64) (letters ?s) (letters ?t) = map2 (+) (letters ?s) (letters ?t)"
  proof (rule nth_equalityI)
    fix j
    assume "j < length (map2 (\<lambda>a b. (a + b) mod 2 ^ 64) (letters ?s) (letters ?t))"
    then have j: "j < 256" by simp
    have "letters ?s ! j + letters ?t ! j = letters (?s @ ?t) ! j" using j by (simp add: letters_nth)
    also have "\<dots> \<le> length (?s @ ?t)" using j by (simp only: letters_nth length_filter_le)
    also have "\<dots> < 2 ^ 64" unfolding st using a(2) by simp
    finally show "map2 (\<lambda>a b. (a + b) mod 2 ^ 64) (letters ?s) (letters ?t) ! j = map2 (+) (letters ?s) (letters ?t) ! j"
      using j by simp
  qed simp
  then have m: "map2 (\<lambda>a b. (a + b) mod 2 ^ 64) (letters ?s) (letters ?t) = letters (take (?p * Suc k) s)"
    by (simp only: letters_append st)
  have "[k..<4] = k # [Suc k..<4]" using k by (rule upt_conv_Cons)
  moreover have "join_threads s number [Suc k..<4] (letters (take (?p * Suc k) s)) = Some (letters (take (?p * 4) s))"
    using Suc.hyps(1) [of "Suc k"] Suc.hyps(2) k by simp
  ultimately show ?case using ThreadLettersCounter_spec [OF a k] m by simp
qed simp

lemma strlen_from_spec: "NUL \<notin> set s \<Longrightarrow> p \<le> length s \<Longrightarrow> strlen_from (s @ NUL # rest) p = Some (length s)"
proof (induction "length s - p" arbitrary: p)
  case 0
  then have "p = length s" by simp
  then show ?case by (subst strlen_from.simps) (simp add: nth_append)
next
  case (Suc d)
  then have "p < length s" "(s @ NUL # rest) ! p \<noteq> NUL" by (auto simp: nth_append in_set_conv_nth)
  then show ?case using Suc.hyps(1) [of "Suc p"] Suc.hyps(2) Suc.prems by (subst strlen_from.simps) (simp add: nth_append)
qed

text \<open>For a terminated ASCII text, the threads together count the characters of its first
  \<open>4 * (n div 4)\<close> positions: up to three at the end belong to no thread.\<close>

lemma MT_C_Sorting_counts:
  assumes "NUL \<notin> set s" "\<forall>c \<in> set s. 0 \<le> c_char c" "length s < 2 ^ 62"
  shows "MT_C_Sorting (s @ [NUL]) = Some (letters (take (4 * (length s div 4)) s))"
proof -
  have "join_threads (s @ [NUL]) (length s) [0..<4] (letters (take (length s div 4 * 0) (s @ [NUL]))) =
      Some (letters (take (length s div 4 * 4) (s @ [NUL])))"
    using assms by (intro join_threads_spec) auto
  moreover have "length s div 4 * 4 \<le> length s" by simp
  ultimately show ?thesis using strlen_from_spec [of s 0 "[]"] assms(1)
    by (simp add: MT_C_Sorting_def NUM_OF_THREADS_mt_def ASCII_RANGE_def letters_Nil mult.commute del: upt_rec_numeral)
qed

section \<open>Where it fails\<close>

text \<open>The copies of the file have no terminator, so the length is not found inside them.\<close>

lemma strlen_none: "NUL \<notin> set s \<Longrightarrow> strlen_from s p = None"
proof (induction "length s - p" arbitrary: p)
  case 0
  then show ?case by (subst strlen_from.simps) simp
next
  case (Suc d)
  then have "s ! p \<noteq> NUL" using nth_mem [of p s] by force
  then show ?case using Suc.hyps(1) [of "Suc p"] Suc.hyps(2) Suc.prems by (subst strlen_from.simps) simp
qed

lemma copies_not_terminated: "GetBigDictionary mem s = Some t \<Longrightarrow> NUL \<notin> set s \<Longrightarrow> MT_C_Sorting t = None"
proof -
  assume "GetBigDictionary mem s = Some t" "NUL \<notin> set s"
  then have "NUL \<notin> set t" by (auto simp: GetBigDictionary_def split: if_splits)
  then show ?thesis by (simp add: MT_C_Sorting_def strlen_none)
qed

text \<open>A character above 127 is an access outside the array of counters.\<close>

lemma high_character: "c_char c < 0 \<Longrightarrow> MT_C_Sorting [c, c, c, c, NUL] = None"
proof -
  assume c: "c_char c < 0"
  then have "NUL \<notin> set [c, c, c, c]" by auto
  from strlen_from_spec [OF this, of 0 "[]"] have "strlen_from [c, c, c, c, NUL] 0 = Some 4" by simp
  moreover have "ThreadLettersCounter [c, c, c, c, NUL] 4 0 = None"
    using c by (simp add: ThreadLettersCounter_def START_OF_RANGE_def RANGE_OF_THREAD_def NUM_OF_THREADS_mt_def)
      (subst count_letters.simps, simp)
  moreover have "[0..<NUM_OF_THREADS_mt] = 0 # [1..<4]" by (simp add: NUM_OF_THREADS_mt_def upt_conv_Cons)
  ultimately show ?thesis by (simp add: MT_C_Sorting_def)
qed

end
