(* ===== verification/BitTricks.thy ===== *)
theory BitTricks
  imports Prelude "HOL-Library.Word"
begin

unbundle bit_operations_syntax

text \<open>
  The bit exercises of \<open>c/ws6/ws6.c\<close>. An \<open>unsigned int\<close> or an \<open>int\<close> is a word of 32 bits. A left shift
  moves the bits, a right shift of an \<open>int\<close> keeps its sign, and an overflow of the negation is a fault.
\<close>

definition Pow2 :: "32 word \<Rightarrow> 32 word \<Rightarrow> 32 word option" where
  "Pow2 x y = (if unat y < 32 then Some (push_bit (unat y) (x * 1)) else None)"

definition IsPow :: "32 word \<Rightarrow> int" where
  "IsPow n = (if n < 1 then 0 else if n AND (n - 1) = 0 then 1 else 0)"

partial_function (option) pow_loop :: "32 word \<Rightarrow> 32 word \<Rightarrow> 32 word option" where
  "pow_loop n pow2 = (if pow2 < n then pow_loop n (push_bit 1 pow2) else Some pow2)"

definition IsPowLoop :: "32 word \<Rightarrow> int option" where
  "IsPowLoop n = do { pow2 \<leftarrow> pow_loop n 1; Some (if pow2 = n then 1 else 0) }"

text \<open>The 32 terms of the sum.\<close>

definition CountSetBits :: "32 word \<Rightarrow> int" where
  "CountSetBits num = sum_list (map (\<lambda>i. uint (signed_drop_bit i num AND 1)) [0..<32])"

definition IsPowLoop2 :: "32 word \<Rightarrow> int" where
  "IsPowLoop2 n = (if 1 = CountSetBits n then 1 else 0)"

definition AddOne :: "32 word \<Rightarrow> 32 word option" where
  "AddOne num = (if sint (NOT num) = - (2 ^ 31) then None else Some (- (NOT num)))"

partial_function (option) add_one_loop :: "32 word \<Rightarrow> 32 word \<Rightarrow> (32 word \<times> 32 word) option" where
  "add_one_loop num pow2 =
     (if pow2 = num AND pow2 then add_one_loop (num XOR pow2) (push_bit 1 pow2)
      else Some (num, pow2))"

definition AddOneLoop :: "32 word \<Rightarrow> 32 word option" where
  "AddOneLoop num = do { (num, pow2) \<leftarrow> add_one_loop num 1; Some (num XOR pow2) }"

partial_function (option) three_loop :: "32 word \<Rightarrow> int \<Rightarrow> int option" where
  "three_loop num cnt =
     (if num \<noteq> 0 then three_loop (signed_drop_bit 1 num) (if 1 = 1 AND num then cnt + 1 else cnt) else Some cnt)"

definition IsThreeOn :: "32 word \<Rightarrow> int option" where
  "IsThreeOn num = do { cnt \<leftarrow> three_loop num 0; Some (if cnt = 3 then 1 else 0) }"

definition ByteMirror :: "8 word \<Rightarrow> 8 word" where
  "ByteMirror byte = (
     let byte = drop_bit 4 byte OR push_bit 4 byte;
         byte = drop_bit 2 (byte AND 204) OR push_bit 2 (byte AND 51);
         byte = drop_bit 1 (byte AND 170) OR push_bit 1 (byte AND 85)
     in byte)"

fun mirror_loop :: "nat \<Rightarrow> 32 word \<Rightarrow> 8 word \<Rightarrow> 32 word" where
  "mirror_loop 0 result byte = result"
| "mirror_loop (Suc n) result byte = mirror_loop n (push_bit 1 result OR ucast (byte AND 1)) (drop_bit 1 byte)"

definition ByteMirrorLoop :: "8 word \<Rightarrow> 8 word" where
  "ByteMirrorLoop byte = ucast (mirror_loop 8 0 byte)"

definition Is2And6BitsOn :: "8 word \<Rightarrow> int" where
  "Is2And6BitsOn byte = (let result6 = byte AND 32; result2 = byte AND 2 in uint (drop_bit 5 result6 AND drop_bit 1 result2))"

definition Is2Or6BitsOn :: "8 word \<Rightarrow> int" where
  "Is2Or6BitsOn byte = (let result6 = byte AND 32; result2 = byte AND 2 in uint (drop_bit 5 result6 OR drop_bit 1 result2))"

definition Swap3And5Bits :: "8 word \<Rightarrow> 8 word" where
  "Swap3And5Bits byte = (
     let bit3 = byte AND 4; bit5 = byte AND 16; bit3 = push_bit 2 bit3; bit5 = drop_bit 2 bit5;
         byte = byte AND (255 - 20); byte = byte OR bit5; byte = byte OR bit3
     in byte)"

definition FindClosestDivisibleBy16 :: "32 word \<Rightarrow> 32 word" where
  "FindClosestDivisibleBy16 num = num AND (4294967295 - 15)"

text \<open>The swap through two pointers into an array of integers.\<close>

definition SwapWithOnly2Var :: "32 word list \<Rightarrow> nat \<Rightarrow> nat \<Rightarrow> 32 word list option" where
  "SwapWithOnly2Var m num1 num2 = do {
     a \<leftarrow> aget m num1; b \<leftarrow> aget m num2; m \<leftarrow> aset m num1 (a XOR b);
     a \<leftarrow> aget m num1; b \<leftarrow> aget m num2; m \<leftarrow> aset m num2 (a XOR b);
     a \<leftarrow> aget m num1; b \<leftarrow> aget m num2; aset m num1 (a XOR b)
   }"

partial_function (option) set_bits_loop :: "32 word \<Rightarrow> int \<Rightarrow> 32 word \<Rightarrow> int option" where
  "set_bits_loop num cnt pow2 =
     (if 0 \<noteq> pow2 then set_bits_loop num (if pow2 = num AND pow2 then cnt + 1 else cnt) (push_bit 1 pow2)
      else Some cnt)"

definition CountSetBitsLoop :: "32 word \<Rightarrow> int option" where
  "CountSetBitsLoop num = set_bits_loop num 0 1"

section \<open>Counting bits\<close>

definition ones :: "nat \<Rightarrow> 32 word \<Rightarrow> int" where
  "ones k num = int (card {i. i < k \<and> bit num i})"

lemma ones_Suc: "ones (Suc k) num = ones k num + (if bit num k then 1 else 0)"
proof -
  have "{i. i < Suc k \<and> bit num i} = (if bit num k then insert k {i. i < k \<and> bit num i} else {i. i < k \<and> bit num i})"
    by (auto simp: less_Suc_eq)
  then show ?thesis by (simp add: ones_def)
qed

lemma ones_0: "ones 0 num = 0"
  by (simp add: ones_def)

lemma low_bit: "uint (w AND 1 :: 32 word) = (if bit w 0 then 1 else 0)"
proof -
  have "w AND 1 = (if bit w 0 then 1 else 0)" by (rule bit_word_eqI) (auto simp: bit_simps bit_1_iff intro: gr0I)
  then show ?thesis by simp
qed

lemma sum_bits: "k \<le> 32 \<Longrightarrow> sum_list (map (\<lambda>i. uint (signed_drop_bit i num AND 1)) [0..<k]) = ones k num"
  by (induction k) (simp_all add: ones_0 ones_Suc low_bit bit_simps)

lemma CountSetBits_eq: "CountSetBits num = ones 32 num"
  unfolding CountSetBits_def by (rule sum_bits) simp

lemma power_bit: "k < 32 \<Longrightarrow> (2 ^ k = num AND 2 ^ k) \<longleftrightarrow> bit (num :: 32 word) k"
proof
  assume k: "k < 32" and "2 ^ k = num AND 2 ^ k"
  moreover have "bit (2 ^ k :: 32 word) k" using k by (simp add: bit_simps)
  ultimately have "bit (num AND 2 ^ k) k" by metis
  then show "bit num k" by (simp add: bit_and_iff)
next
  assume k: "k < 32" and "bit num k"
  then show "2 ^ k = num AND 2 ^ k" by (intro bit_word_eqI) (auto simp: bit_simps)
qed

lemma set_bits_loop_spec:
  "k \<le> 32 \<Longrightarrow> set_bits_loop num (ones k num) (push_bit k 1) = Some (ones 32 num)"
proof (induction "32 - k" arbitrary: k)
  case 0
  then have "k = 32" by simp
  then have "push_bit k (1 :: 32 word) = 0" by (simp add: push_bit_eq_mult)
  with 0 show ?case by (subst set_bits_loop.simps) simp
next
  case (Suc d)
  have k: "k < 32" using Suc.hyps(2) by simp
  have p: "push_bit k (1 :: 32 word) = 2 ^ k" "push_bit 1 (2 ^ k) = push_bit (Suc k) (1 :: 32 word)" "(2 :: 32 word) ^ k \<noteq> 0"
    using k by (simp_all add: push_bit_eq_mult mult.commute exp_eq_zero_iff)
  have "set_bits_loop num (ones k num) (push_bit k 1) = set_bits_loop num (ones (Suc k) num) (push_bit (Suc k) 1)"
    unfolding p(1) using p(3) power_bit [OF k, of num] by (subst set_bits_loop.simps) (simp add: ones_Suc push_bit_eq_mult mult.commute)
  then show ?case using Suc.hyps(1) [of "Suc k"] Suc.hyps(2) k by simp
qed

lemma CountSetBits_agree: "CountSetBitsLoop num = Some (CountSetBits num)"
  using set_bits_loop_spec [of 0 num] by (simp add: CountSetBitsLoop_def CountSetBits_eq ones_0)

section \<open>Powers of two\<close>

lemma and_pred_nat: "0 < n \<Longrightarrow> n AND (n - 1) = 0 \<longleftrightarrow> (\<exists>k. n = 2 ^ k)" for n :: nat
proof (induction n rule: less_induct)
  case (less n)
  show ?case
  proof (cases "even n")
    case True
    then obtain m where m: "n = 2 * m" "0 < m" "m < n" using less.prems by (auto elim!: evenE)
    have "n AND (n - 1) = 2 * (m AND (m - 1))"
      using m(2) unfolding m(1) by (subst and_nat_rec) (cases m; simp)
    moreover have "(\<exists>k. n = 2 ^ k) \<longleftrightarrow> (\<exists>k. m = 2 ^ k)"
    proof
      assume "\<exists>k. n = 2 ^ k"
      then obtain k where "2 * m = 2 ^ k" using m(1) by auto
      then show "\<exists>k. m = 2 ^ k" by (cases k) auto
    next
      assume "\<exists>k. m = 2 ^ k"
      then show "\<exists>k. n = 2 ^ k" using m(1) by (metis power_Suc)
    qed
    ultimately show ?thesis using less.IH [OF m(3,2)] by simp
  next
    case False
    then obtain m where m: "n = 2 * m + 1" by (auto elim!: oddE)
    have "n AND (n - 1) = 2 * m" unfolding m by (subst and_nat_rec) simp
    moreover have "(\<exists>k. n = 2 ^ k) \<longleftrightarrow> m = 0"
    proof
      assume "\<exists>k. n = 2 ^ k"
      then obtain k where "2 * m + 1 = 2 ^ k" using m by auto
      then show "m = 0" by (cases k) (simp_all, presburger)
    next
      assume "m = 0"
      then show "\<exists>k. n = 2 ^ k" using m by (metis mult_0_right add_0 power_0)
    qed
    ultimately show ?thesis by simp
  qed
qed

lemma unat_power: "j < 32 \<Longrightarrow> unat (2 ^ j :: 32 word) = 2 ^ j"
proof -
  assume "j < 32"
  then have "(2 :: nat) ^ j < 2 ^ 32" by (intro power_strict_increasing) simp_all
  moreover have "(2 :: 32 word) ^ j = of_nat (2 ^ j)" by simp
  ultimately show ?thesis by (simp only: unat_of_nat len_bit0 len_num1) simp
qed

lemma IsPow_eq: "IsPow n = (if \<exists>k < 32. n = 2 ^ k then 1 else 0)"
proof (cases "n = 0")
  case True
  then have "\<not> (\<exists>k < 32. n = 2 ^ k)" by (auto simp: exp_eq_zero_iff)
  then show ?thesis using True by (simp add: IsPow_def)
next
  case False
  then have pos: "0 < unat n" by (simp add: unat_gt_0)
  have "unat (n - 1) = unat n - 1" using False by (simp add: unat_minus_one)
  then have "unat (n AND (n - 1)) = unat n AND (unat n - 1)" by (simp only: unsigned_and_eq)
  then have "n AND (n - 1) = 0 \<longleftrightarrow> unat n AND (unat n - 1) = 0" using unsigned_eq_0_iff [of "n AND (n - 1)"] by metis
  also have "\<dots> \<longleftrightarrow> (\<exists>k. unat n = 2 ^ k)" by (rule and_pred_nat [OF pos])
  also have "\<dots> \<longleftrightarrow> (\<exists>k < 32. n = 2 ^ k)"
  proof
    assume "\<exists>k. unat n = 2 ^ k"
    then obtain k where k: "unat n = 2 ^ k" by blast
    moreover have "unat n < 2 ^ 32" using unsigned_less [of n, where ?'a = nat] by simp
    ultimately have "k < 32" by (metis power_less_imp_less_exp one_less_numeral_iff semiring_norm(76))
    moreover from this have "unat n = unat (2 ^ k :: 32 word)" using k by (simp only: unat_power)
    then have "n = 2 ^ k" by (simp only: word_unat_eq_iff)
    ultimately show "\<exists>k < 32. n = 2 ^ k" by blast
  next
    assume "\<exists>k < 32. n = 2 ^ k"
    then show "\<exists>k. unat n = 2 ^ k" using unat_power by blast
  qed
  finally show ?thesis using False by (simp add: IsPow_def word_less_1)
qed

lemma pow_loop_spec:
  assumes "unat n \<le> 2 ^ 31"
  shows "k \<le> 31 \<Longrightarrow> \<exists>p. pow_loop n (2 ^ k) = Some p \<and> ((\<forall>j < k. 2 ^ j < unat n) \<longrightarrow> (p = n \<longleftrightarrow> (\<exists>j < 32. n = 2 ^ j)))"
proof (induction "31 - k" arbitrary: k rule: less_induct)
  case less
  have u: "unat (2 ^ j :: 32 word) = 2 ^ j" if "j < 32" for j using that by (rule unat_power)
  show ?case
  proof (cases "(2 :: 32 word) ^ k < n")
    case False
    then have le: "unat n \<le> 2 ^ k" using u [of k] less.prems by (simp add: word_less_nat_alt)
    have "2 ^ k = n \<longleftrightarrow> (\<exists>j < 32. n = 2 ^ j)" if small: "\<forall>j < k. 2 ^ j < unat n"
    proof
      assume "2 ^ k = n"
      then show "\<exists>j < 32. n = 2 ^ j" using less.prems by (intro exI [of _ k]) simp
    next
      assume "\<exists>j < 32. n = 2 ^ j"
      then obtain j where j: "j < 32" "n = 2 ^ j" by blast
      then have "(2 :: nat) ^ j \<le> 2 ^ k" using le u by simp
      then have "j \<le> k" by simp
      moreover have "\<not> j < k" using small j u by auto
      ultimately show "2 ^ k = n" using j by simp
    qed
    then show ?thesis using False by (subst pow_loop.simps) simp
  next
    case True
    then have lt: "2 ^ k < unat n" using u [of k] less.prems by (simp add: word_less_nat_alt)
    then have "(2 :: nat) ^ k < 2 ^ 31" using assms by linarith
    then have k: "k < 31" by (rule power_less_imp_less_exp [rotated]) simp
    have "push_bit 1 (2 ^ k) = (2 ^ Suc k :: 32 word)" by (simp add: push_bit_eq_mult mult.commute)
    then have "pow_loop n (2 ^ k) = pow_loop n (2 ^ Suc k)" using True by (subst pow_loop.simps) (simp add: mult.commute)
    moreover obtain p where "pow_loop n (2 ^ Suc k) = Some p" "(\<forall>j < Suc k. 2 ^ j < unat n) \<longrightarrow> (p = n \<longleftrightarrow> (\<exists>j < 32. n = 2 ^ j))"
      using less.hyps [OF diff_less_mono2 [of k "Suc k" 31]] k by (metis Suc_leI lessI)
    ultimately show ?thesis using lt by (auto simp: less_Suc_eq)
  qed
qed

lemma ones_power: "k < 32 \<Longrightarrow> ones 32 (2 ^ k) = 1"
proof -
  assume "k < 32"
  then have "{i. i < 32 \<and> bit (2 ^ k :: 32 word) i} = {k}" by (auto simp: bit_simps)
  then show ?thesis by (simp add: ones_def)
qed

lemma ones_1: "ones 32 n = 1 \<Longrightarrow> \<exists>k < 32. n = 2 ^ k"
proof -
  assume "ones 32 n = 1"
  then have "card {i. i < 32 \<and> bit n i} = 1" by (simp add: ones_def)
  then obtain k where k: "{i. i < 32 \<and> bit n i} = {k}" by (auto simp: card_1_singleton_iff)
  then have "k < 32" by auto
  moreover have "n = 2 ^ k"
  proof (rule bit_word_eqI)
    fix i
    assume "i < LENGTH(32)"
    then have "bit n i \<longleftrightarrow> i = k" using k by auto
    then show "bit n i \<longleftrightarrow> bit (2 ^ k :: 32 word) i" using \<open>k < 32\<close> by (simp add: bit_simps) auto
  qed
  ultimately show ?thesis by blast
qed

text \<open>The three tests for a power of two agree: the first and the third answer 1 exactly on the 32 powers
  of two, and the loop does the same on numbers up to \<open>2 ^ 31\<close>.\<close>

theorem powers_of_two_agree:
  assumes "n \<le> 2 ^ 31"
  shows "IsPow n = (if \<exists>k < 32. n = 2 ^ k then 1 else 0) \<and> IsPowLoop2 n = IsPow n \<and> IsPowLoop n = Some (IsPow n)"
proof -
  have "unat n \<le> unat (2 ^ 31 :: 32 word)" using assms by (simp only: word_le_nat_alt)
  then have "unat n \<le> 2 ^ 31" by simp
  from pow_loop_spec [OF this, of 0] obtain p where "pow_loop n 1 = Some p" "p = n \<longleftrightarrow> (\<exists>j < 32. n = 2 ^ j)" by auto
  then have "IsPowLoop n = Some (IsPow n)" by (simp add: IsPowLoop_def IsPow_eq)
  moreover have "IsPowLoop2 n = IsPow n"
    using ones_power ones_1 [of n] by (auto simp: IsPowLoop2_def IsPow_eq CountSetBits_eq)
  ultimately show ?thesis by (simp add: IsPow_eq)
qed

lemma powers_of_two_agree_witness: "IsPowLoop2 12 = IsPow 12 \<and> IsPowLoop 12 = Some (IsPow 12)"
  using powers_of_two_agree [of 12] by simp

text \<open>From \<open>2 ^ 31 + 1\<close> on the loop does not end: its power leaves the word and stays 0.\<close>

lemma pow_loop_0: "n \<noteq> 0 \<Longrightarrow> pow_loop n 0 = None"
proof -
  have "p \<noteq> 0 \<or> n = 0" if "pow_loop n p = Some y" for n p y
    by (rule pow_loop.raw_induct [of "\<lambda>n p _. p \<noteq> 0 \<or> n = 0", OF _ that])
      (auto split: if_splits simp: word_gt_0)
  from this [of n 0] show "n \<noteq> 0 \<Longrightarrow> pow_loop n 0 = None" by (cases "pow_loop n 0") auto
qed

lemma IsPowLoop_no_end:
  assumes "2 ^ 31 < n"
  shows "IsPowLoop n = None"
proof -
  have u: "2 ^ 31 < unat n" using assms by (simp add: word_less_nat_alt)
  have "pow_loop n (2 ^ k) = None" if "k \<le> 32" for k
    using that
  proof (induction "32 - k" arbitrary: k)
    case 0
    then have "k = 32" by simp
    then have "(2 :: 32 word) ^ k = 0" by simp
    moreover have "n \<noteq> 0" using assms by auto
    ultimately show ?case using pow_loop_0 [of n] by (simp only: simp_thms)
  next
    case (Suc d)
    then have k: "k < 32" by simp
    then have "(2 :: nat) ^ k \<le> 2 ^ 31" by (intro power_increasing) auto
    then have "(2 :: 32 word) ^ k < n" using u k by (simp add: word_less_nat_alt unat_power)
    moreover have "push_bit 1 (2 ^ k) = (2 ^ Suc k :: 32 word)" by (simp add: push_bit_eq_mult mult.commute)
    ultimately show ?case using Suc.hyps(1) [of "Suc k"] Suc.hyps(2) k by (subst pow_loop.simps) (simp add: mult.commute)
  qed
  from this [of 0] show ?thesis by (simp add: IsPowLoop_def)
qed

section \<open>Bytes\<close>

lemma bits_8: "k < 8 \<Longrightarrow> k = 0 \<or> k = 1 \<or> k = 2 \<or> k = 3 \<or> k = 4 \<or> k = 5 \<or> k = 6 \<or> k = (7 :: nat)"
  by linarith

lemma no_bit_8: "8 \<le> n \<Longrightarrow> \<not> bit (b :: 8 word) n"
  by (auto dest: bit_imp_le_length)

lemmas word_bits = bit_or_iff bit_and_iff bit_push_bit_iff bit_drop_bit_eq comp_apply

lemma ByteMirror_bit: "k < 8 \<Longrightarrow> bit (ByteMirror b) k \<longleftrightarrow> bit b (7 - k)"
  unfolding ByteMirror_def Let_def word_bits
  by (drule bits_8, elim disjE; simp add: no_bit_8)

lemma mirror_loop_bit:
  "n \<le> 8 \<Longrightarrow> k < 32 \<Longrightarrow> bit (mirror_loop n r b) k \<longleftrightarrow> (if k < n then bit b (n - 1 - k) else bit r (k - n))"
proof (induction n arbitrary: r b)
  case (Suc n)
  have b: "bit (push_bit 1 r OR ucast (b AND 1)) (k - n) \<longleftrightarrow> (if k - n = 0 then bit b 0 else bit r (k - n - 1))"
    using Suc.prems unfolding word_bits by (auto simp: bit_unsigned_iff bit_and_iff bit_1_iff)
  have "bit (mirror_loop (Suc n) r b) k \<longleftrightarrow>
      (if k < n then bit (drop_bit 1 b) (n - 1 - k) else bit (push_bit 1 r OR ucast (b AND 1)) (k - n))"
    using Suc by (simp only: mirror_loop.simps Suc_leD)
  also have "\<dots> \<longleftrightarrow> (if k < Suc n then bit b (Suc n - 1 - k) else bit r (k - Suc n))"
    unfolding b by (auto simp: bit_drop_bit_eq less_Suc_eq Suc_diff_Suc)
  finally show ?case .
qed simp

lemma ByteMirrors_agree: "ByteMirrorLoop b = ByteMirror b \<and> ByteMirror (ByteMirror b) = b"
proof
  show "ByteMirrorLoop b = ByteMirror b"
    by (rule bit_word_eqI) (simp add: ByteMirrorLoop_def mirror_loop_bit ByteMirror_bit bit_unsigned_iff)
  show "ByteMirror (ByteMirror b) = b" by (rule bit_word_eqI) (simp add: ByteMirror_bit)
qed

lemma Is2And6BitsOn_eq: "Is2And6BitsOn b = (if bit b 5 \<and> bit b 1 then 1 else 0)"
proof -
  have "drop_bit 5 (b AND 32) AND drop_bit 1 (b AND 2) = (if bit b 5 \<and> bit b 1 then 1 else 0)"
  proof (rule bit_word_eqI)
    fix k
    assume "k < LENGTH(8)"
    then have "k < 8" by simp
    then show "bit (drop_bit 5 (b AND 32) AND drop_bit 1 (b AND 2)) k = bit (if bit b 5 \<and> bit b 1 then 1 else 0 :: 8 word) k"
      unfolding word_bits by (drule_tac bits_8, elim disjE; simp add: no_bit_8 bit_1_iff)
  qed
  then show ?thesis by (simp add: Is2And6BitsOn_def Let_def)
qed

lemma Is2Or6BitsOn_eq: "Is2Or6BitsOn b = (if bit b 5 \<or> bit b 1 then 1 else 0)"
proof -
  have "drop_bit 5 (b AND 32) OR drop_bit 1 (b AND 2) = (if bit b 5 \<or> bit b 1 then 1 else 0)"
  proof (rule bit_word_eqI)
    fix k
    assume "k < LENGTH(8)"
    then have "k < 8" by simp
    then show "bit (drop_bit 5 (b AND 32) OR drop_bit 1 (b AND 2)) k = bit (if bit b 5 \<or> bit b 1 then 1 else 0 :: 8 word) k"
      unfolding word_bits by (drule_tac bits_8, elim disjE; simp add: no_bit_8 bit_1_iff)
  qed
  then show ?thesis by (simp add: Is2Or6BitsOn_def Let_def)
qed

lemma Swap3And5Bits_bit:
  "k < 8 \<Longrightarrow> bit (Swap3And5Bits b) k \<longleftrightarrow> bit b (if k = 2 then 4 else if k = 4 then 2 else k)"
  unfolding Swap3And5Bits_def Let_def word_bits
  by (drule bits_8, elim disjE; simp add: no_bit_8)

section \<open>Numbers\<close>

lemma Pow2_eq: "unat y < 32 \<Longrightarrow> Pow2 x y = Some (x * 2 ^ unat y)"
  by (simp add: Pow2_def push_bit_eq_mult mult.commute)

lemma FindClosestDivisibleBy16_eq: "unat (FindClosestDivisibleBy16 n) = 16 * (unat n div 16)"
proof -
  have m: "(4294967295 - 15 :: 32 word) = NOT (mask 4)" by (simp add: mask_eq_exp_minus_1)
  have "FindClosestDivisibleBy16 n = push_bit 4 (drop_bit 4 n)"
    unfolding FindClosestDivisibleBy16_def m
    by (rule bit_word_eqI) (auto simp: bit_simps not_less)
  also have "\<dots> = n div 16 * 16" by (simp add: push_bit_eq_mult drop_bit_eq_div)
  finally have "unat (FindClosestDivisibleBy16 n) = (16 * (unat n div 16)) mod 2 ^ 32"
    by (simp add: unat_word_ariths unat_div mult.commute mod_mult_right_eq)
  moreover have "unat n < 2 ^ 32" using unsigned_less [of n, where ?'a = nat] by simp
  then have "16 * (unat n div 16) < 2 ^ 32" by linarith
  ultimately show ?thesis by (simp only: mod_less)
qed

lemma SwapWithOnly2Var_swaps:
  assumes "i < length m" "j < length m" "i \<noteq> j"
  shows "SwapWithOnly2Var m i j = Some (m[i := m ! j, j := m ! i])"
proof -
  have x: "(a XOR b) XOR b = a" "(a XOR b) XOR a = b" for a b :: "32 word"
    by (simp_all add: xor.assoc) (simp add: xor.commute [of b] xor.assoc [symmetric])
  have "SwapWithOnly2Var m i j = Some (m[i := m ! i XOR m ! j, j := m ! i, i := m ! j])"
    using assms x [of "m ! i" "m ! j"] by (simp add: SwapWithOnly2Var_def)
  then show ?thesis using assms(3) by (simp add: list_update_swap)
qed

text \<open>Swapping a variable with itself clears it.\<close>

lemma SwapWithOnly2Var_same: "i < length m \<Longrightarrow> SwapWithOnly2Var m i i = Some (m[i := 0])"
  by (simp add: SwapWithOnly2Var_def)

lemma AddOne_eq: "AddOne n = (if sint n = 2 ^ 31 - 1 then None else Some (n + 1))"
proof -
  have "- NOT n = n + 1" by (simp add: not_eq_complement)
  moreover have "sint (NOT n) = NOT (sint n)"
    by (rule bit_eqI) (simp add: bit_signed_iff bit_not_iff min_less_iff_disj)
  then have "sint (NOT n) = - sint n - 1" by (simp add: not_int_def)
  ultimately show ?thesis unfolding AddOne_def by auto
qed

lemma flip_bit: "k < 32 \<Longrightarrow> n XOR 2 ^ k = (if bit n k then n - 2 ^ k else n + 2 ^ k :: 32 word)"
proof -
  assume k: "k < 32"
  have off: "\<not> bit m k \<Longrightarrow> m + 2 ^ k = m XOR 2 ^ k" for m :: "32 word"
    by (rule disjunctive_add_eq_xor) (auto intro!: bit_word_eqI simp: bit_simps)
  show ?thesis
  proof (cases "bit n k")
    case True
    have "\<not> bit (n XOR 2 ^ k) k" using True k by (simp add: bit_simps)
    from off [OF this] have "(n XOR 2 ^ k) + 2 ^ k = n" by (simp add: xor.assoc)
    then show ?thesis using True by (simp add: eq_diff_eq)
  qed (simp add: off)
qed

lemma add_one_loop_spec:
  assumes "n \<noteq> - 1"
  shows "k \<le> 31 \<Longrightarrow> (\<forall>i < k. bit n i) \<Longrightarrow> m + 2 ^ k = n + 1 \<Longrightarrow> (\<forall>i. k \<le> i \<longrightarrow> bit m i = bit n i) \<Longrightarrow>
    \<exists>m' p. add_one_loop m (2 ^ k) = Some (m', p) \<and> m' XOR p = n + 1"
proof (induction "31 - k" arbitrary: k m rule: less_induct)
  case less
  have k: "k < 32" using less.prems(1) by simp
  have t: "2 ^ k = m AND 2 ^ k \<longleftrightarrow> bit n k" using power_bit [OF k, of m] less.prems(4) by simp
  show ?case
  proof (cases "bit n k")
    case False
    then have "m XOR 2 ^ k = n + 1" using flip_bit [OF k, of m] less.prems(3,4) by simp
    then show ?thesis using False t by (subst add_one_loop.simps) simp
  next
    case True
    have "k \<noteq> 31"
    proof
      assume "k = 31"
      then have "bit n i" if "i < 32" for i using that True less.prems(2) by (cases "i = 31") auto
      then have "n = - 1" by (intro bit_word_eqI) simp
      then show False using assms by simp
    qed
    then have k31: "k < 31" using less.prems(1) by simp
    have p: "push_bit 1 (2 ^ k) = (2 ^ Suc k :: 32 word)" by (simp add: push_bit_eq_mult mult.commute)
    have "(m XOR 2 ^ k) + 2 ^ Suc k = n + 1"
      using flip_bit [OF k, of m] True less.prems(3,4) by (simp add: add.commute)
    moreover have "\<forall>i. Suc k \<le> i \<longrightarrow> bit (m XOR 2 ^ k) i = bit n i" using less.prems(4) by (simp add: bit_simps)
    moreover have "\<forall>i < Suc k. bit n i" using less.prems(2) True by (auto simp: less_Suc_eq)
    ultimately obtain m' q where "add_one_loop (m XOR 2 ^ k) (2 ^ Suc k) = Some (m', q)" "m' XOR q = n + 1"
      using less.hyps [OF diff_less_mono2 [of k "Suc k" 31]] k31 by (metis Suc_leI lessI)
    moreover have "add_one_loop m (2 ^ k) = add_one_loop (m XOR 2 ^ k) (2 ^ Suc k)"
      using True t p by (subst add_one_loop.simps) (simp add: mult.commute)
    ultimately show ?thesis by auto
  qed
qed

lemma AddOneLoop_eq: "n \<noteq> - 1 \<Longrightarrow> AddOneLoop n = Some (n + 1)"
  using add_one_loop_spec [of n 0 n] by (auto simp: AddOneLoop_def)

lemma bit_shift: "bit (signed_drop_bit (Suc 0) m) i \<longleftrightarrow> (if i = 31 then bit m 31 else bit (m :: 32 word) (Suc i))"
  by (auto simp: bit_signed_drop_bit_iff)

lemma ones_shift:
  "k \<le> 31 \<Longrightarrow> ones (Suc k) m = (if bit m 0 then 1 else 0) + ones k (signed_drop_bit 1 m)"
  by (induction k) (simp_all add: ones_Suc ones_0 bit_shift)

lemma three_loop_spec: "k \<le> 31 \<Longrightarrow> (\<forall>i. k \<le> i \<longrightarrow> \<not> bit m i) \<Longrightarrow> three_loop m c = Some (c + ones k m)"
proof (induction k arbitrary: m c)
  case 0
  then have "m = 0" by (intro bit_word_eqI) simp
  then show ?case by (subst three_loop.simps) (simp add: ones_0)
next
  case (Suc k)
  have "m AND 1 = (if bit m 0 then 1 else 0)" by (rule bit_word_eqI) (auto simp: bit_simps bit_1_iff intro: gr0I)
  then have low: "1 = 1 AND m \<longleftrightarrow> bit m 0" by (simp add: and.commute)
  show ?case
  proof (cases "m = 0")
    case True
    then show ?thesis by (subst three_loop.simps) (simp add: ones_def)
  next
    case False
    have z: "\<forall>i. k \<le> i \<longrightarrow> \<not> bit (signed_drop_bit 1 m) i" using Suc.prems by (auto simp: bit_shift)
    have "three_loop m c = three_loop (signed_drop_bit 1 m) (if bit m 0 then c + 1 else c)"
      using False low by (subst three_loop.simps) simp
    also have "\<dots> = Some ((if bit m 0 then c + 1 else c) + ones k (signed_drop_bit 1 m))"
      using Suc.IH [OF _ z] Suc.prems(1) by simp
    finally show ?thesis using ones_shift [of k m] Suc.prems(1) by simp
  qed
qed

lemma IsThreeOn_eq: "0 \<le> sint n \<Longrightarrow> IsThreeOn n = Some (if CountSetBits n = 3 then 1 else 0)"
proof -
  assume "0 \<le> sint n"
  then have "\<not> bit n 31" using bit_last_iff [of n] by simp
  then have z: "\<forall>i. 31 \<le> i \<longrightarrow> \<not> bit n i" by (auto simp: le_less dest: bit_imp_le_length)
  have "ones 32 n = ones 31 n" using ones_Suc [of 31 n] \<open>\<not> bit n 31\<close> by simp
  then show ?thesis using three_loop_spec [OF _ z, of 0] by (simp add: IsThreeOn_def CountSetBits_eq)
qed

text \<open>A negative number is shifted for ever.\<close>

lemma IsThreeOn_negative: "sint n < 0 \<Longrightarrow> IsThreeOn n = None"
proof -
  assume "sint n < 0"
  then have b: "bit n 31" using bit_last_iff [of n] by simp
  have "\<not> bit m 31" if "three_loop m c = Some y" for m c y
    by (rule three_loop.raw_induct [of "\<lambda>m _ _. \<not> bit m 31", OF _ that]) (auto split: if_splits, (metis bit_shift)+)
  from this [of n 0] b show ?thesis by (cases "three_loop n 0") (auto simp: IsThreeOn_def)
qed

text \<open>Adding one to -1 with the loop does not end either: the power becomes 0.\<close>

lemma AddOneLoop_minus_1: "AddOneLoop (- 1) = None"
proof -
  have none: "p \<noteq> 0" if "add_one_loop m p = Some y" for m p y
    by (rule add_one_loop.raw_induct [of "\<lambda>_ p _. p \<noteq> 0", OF _ that]) (auto split: if_splits, metis push_bit_of_0)
  have "k \<le> 32 \<Longrightarrow> \<forall>i. k \<le> i \<and> i < 32 \<longrightarrow> bit m i \<Longrightarrow> add_one_loop m (2 ^ k) = None" for k and m :: "32 word"
  proof (induction "32 - k" arbitrary: k m)
    case 0
    then have "k = 32" by simp
    then have "(2 :: 32 word) ^ k = 0" by simp
    then show ?case using none [of m "2 ^ k"] by (cases "add_one_loop m (2 ^ k)") auto
  next
    case (Suc d)
    then have k: "k < 32" by simp
    then have "2 ^ k = m AND 2 ^ k" using power_bit [OF k, of m] Suc.prems by simp
    moreover have "push_bit 1 (2 ^ k) = (2 ^ Suc k :: 32 word)" by (simp add: push_bit_eq_mult mult.commute)
    moreover have "add_one_loop (m XOR 2 ^ k) (2 ^ Suc k) = None"
      using Suc.hyps k Suc.prems(2) by (intro Suc.hyps(1)) (auto simp: bit_simps)
    ultimately show ?case by (subst add_one_loop.simps) (simp add: mult.commute)
  qed
  from this [of 0 "- 1"] show ?thesis by (simp add: AddOneLoop_def)
qed

end
