(* ===== verification/Exercises.thy ===== *)
theory Exercises
  imports Prelude "HOL-Library.Signed_Division"
begin

text \<open>
  Number exercises: the survivor of the circle of \<open>c/ws3/ws3.c\<close>, the reversal of the digits of
  \<open>c/ws1/ws1.c\<close>, and the best buy and sale of \<open>quizzes/20-8-2020 bursa.c\<close>.
\<close>

section \<open>Josephus\<close>

text \<open>\<open>mem\<close> is the answer of \<open>malloc\<close>, which the code does not test. The cells of the array are
  indeterminate at first.\<close>

partial_function (option) circle_loop :: "nat \<Rightarrow> nat option list \<Rightarrow> nat \<Rightarrow> (nat option list \<times> nat) option" where
  "circle_loop n players i = (if i \<le> szsub n 2 then do {
       players \<leftarrow> aset players i (Some (i + 1));
       circle_loop n players (i + 1)
     } else Some (players, i))"

partial_function (option) kill_loop :: "nat option list \<Rightarrow> nat \<Rightarrow> nat option" where
  "kill_loop players i = do {
     next_one \<leftarrow> cget players i;
     if i \<noteq> next_one then do {
       after \<leftarrow> cget players next_one;
       players \<leftarrow> aset players i (Some after);
       i \<leftarrow> cget players i;
       kill_loop players i
     } else Some i
   }"

definition Josephus :: "bool \<Rightarrow> nat \<Rightarrow> nat option" where
  "Josephus mem length_of_soldiers = do {
     c_assert mem;
     (players, i) \<leftarrow> circle_loop length_of_soldiers (replicate length_of_soldiers None) 0;
     players \<leftarrow> aset players i (Some 0);
     i \<leftarrow> kill_loop players 0;
     Some (i + 1)
   }"

text \<open>The circle as a queue: the first kills the second and goes to the back.\<close>

fun survivor :: "nat list \<Rightarrow> nat" where
  "survivor [] = 0"
| "survivor [x] = x"
| "survivor (x # y # xs) = survivor (xs @ [x])"

text \<open>\<open>circle players xs\<close>: from each of \<open>xs\<close> the array leads to the next one, from the last to the first.\<close>

definition circle :: "nat option list \<Rightarrow> nat list \<Rightarrow> bool" where
  "circle players xs \<longleftrightarrow> distinct xs \<and> (\<forall>x \<in> set xs. x < length players) \<and>
     (\<forall>j < length xs. players ! (xs ! j) = Some ((xs @ [hd xs]) ! Suc j))"

lemma circle_loop_spec:
  assumes "2 \<le> n" "n < 2 ^ 64"
  shows "i < n \<Longrightarrow> length players = n \<Longrightarrow> (\<forall>j < i. players ! j = Some (j + 1)) \<Longrightarrow>
    \<exists>ps. circle_loop n players i = Some (ps, n - 1) \<and> length ps = n \<and> (\<forall>j < n - 1. ps ! j = Some (j + 1))"
proof (induction "n - 1 - i" arbitrary: i players)
  case 0
  then have "i = n - 1" "\<not> i \<le> n - 2" using assms(1) by auto
  then show ?case using 0 szsub_ge [OF assms] by (subst circle_loop.simps) simp
next
  case (Suc d)
  then have i: "i < n - 1" "i \<le> n - 2" by simp_all
  let ?ps = "players[i := Some (i + 1)]"
  have step: "circle_loop n players i = circle_loop n ?ps (i + 1)"
    using i Suc.prems szsub_ge [OF assms] by (subst circle_loop.simps) simp
  have "\<forall>j < i + 1. ?ps ! j = Some (j + 1)" using Suc.prems by (auto simp: nth_list_update less_Suc_eq)
  then show ?case unfolding step using Suc.hyps(2) i Suc.prems(2) by (intro Suc.hyps(1)) simp_all
qed

lemma circle_start:
  assumes "2 \<le> n" "length ps = n" "\<forall>j < n - 1. ps ! j = Some (j + 1)"
  shows "circle (ps[n - 1 := Some 0]) [0..<n]"
  unfolding circle_def
proof (intro conjI allI impI)
  fix j
  assume "j < length [0..<n]"
  then have j: "j < n" by simp
  have h: "hd [0..<n] = 0" using assms(1) by simp
  show "ps[n - 1 := Some 0] ! ([0..<n] ! j) = Some (([0..<n] @ [hd [0..<n]]) ! Suc j)"
  proof (cases "j = n - 1")
    case True
    then show ?thesis using j assms(1,2) h by (simp add: nth_append)
  next
    case False
    then show ?thesis using j assms(2,3) by (auto simp: nth_append)
  qed
qed (use assms in auto)

lemma circle_step:
  assumes "circle ps (x # y # xs)"
  shows "ps ! x = Some y" "ps ! y = Some (hd (xs @ [x]))" "circle (ps[x := ps ! y]) (xs @ [x])"
proof -
  have d: "distinct (x # y # xs)" "x < length ps" "y < length ps" "\<forall>z \<in> set xs. z < length ps"
    and n: "\<And>j. j < Suc (Suc (length xs)) \<Longrightarrow> ps ! ((x # y # xs) ! j) = Some ((x # y # xs @ [x]) ! Suc j)"
    using assms by (auto simp: circle_def)
  show "ps ! x = Some y" using n [of 0] by simp
  show y: "ps ! y = Some (hd (xs @ [x]))" using n [of 1] by (cases xs) auto
  show "circle (ps[x := ps ! y]) (xs @ [x])" unfolding circle_def
  proof (intro conjI allI impI)
    fix j
    assume "j < length (xs @ [x])"
    then consider "j < length xs" | "j = length xs" by fastforce
    then show "ps[x := ps ! y] ! ((xs @ [x]) ! j) = Some (((xs @ [x]) @ [hd (xs @ [x])]) ! Suc j)"
    proof cases
      case 1
      then have "ps ! (xs ! j) = Some ((xs @ [x]) ! Suc j)" using n [of "Suc (Suc j)"] by simp
      moreover have "xs ! j \<noteq> x" using d(1) 1 by auto
      ultimately show ?thesis using 1 by (simp add: nth_append)
    next
      case 2
      then show ?thesis using d(2) y by (simp add: nth_append)
    qed
  qed (use d in auto)
qed

lemma kill_loop_spec: "circle ps xs \<Longrightarrow> xs \<noteq> [] \<Longrightarrow> kill_loop ps (hd xs) = Some (survivor xs)"
proof (induction xs arbitrary: ps rule: survivor.induct)
  case (2 x)
  then have "x < length ps" "ps ! x = Some x" by (auto simp: circle_def)
  then show ?case by (subst kill_loop.simps) (simp add: cget_def)
next
  case (3 x y xs)
  note c = circle_step [OF 3(2)]
  have b: "x < length ps" "y < length ps" "x \<noteq> y" using 3(2) by (auto simp: circle_def)
  have "kill_loop ps x = kill_loop (ps[x := ps ! y]) (hd (xs @ [x]))"
    using c(1,2) b by (subst kill_loop.simps) (simp add: cget_def)
  then show ?case using 3(1) [OF c(3)] by simp
qed simp

text \<open>A pass over the first elements leaves every second one.\<close>

fun evens :: "'a list \<Rightarrow> 'a list" where
  "evens [] = []"
| "evens [x] = [x]"
| "evens (x # y # xs) = x # evens xs"

lemma survivor_pass: "even (length xs) \<Longrightarrow> survivor (xs @ ys) = survivor (ys @ evens xs)"
proof (induction xs arbitrary: ys rule: evens.induct)
  case (3 x y xs)
  then have "survivor (xs @ (ys @ [x])) = survivor ((ys @ [x]) @ evens xs)" by simp
  then show ?case by simp
qed simp_all

lemma length_evens: "even (length xs) \<Longrightarrow> 2 * length (evens xs) = length xs"
  by (induction xs rule: evens.induct) simp_all

lemma hd_evens: "hd (evens xs) = hd xs"
  by (cases xs rule: evens.cases) simp_all

lemma survivor_power: "length xs = 2 ^ m \<Longrightarrow> survivor xs = hd xs"
proof (induction m arbitrary: xs)
  case 0
  then show ?case by (cases xs rule: survivor.cases) simp_all
next
  case (Suc m)
  then have e: "even (length xs)" by simp
  have "survivor xs = survivor (evens xs)" using survivor_pass [OF e, of "[]"] by simp
  moreover have "length (evens xs) = 2 ^ m" using length_evens [OF e] Suc.prems by simp
  ultimately show ?case using Suc.IH hd_evens by metis
qed

lemma survivor_closed:
  assumes "2 ^ m \<le> n" "n < 2 ^ Suc m"
  shows "survivor [0..<n] = 2 * (n - 2 ^ m)"
proof -
  let ?l = "2 * (n - 2 ^ m)"
  have l: "?l < n" using assms by simp
  have split: "[0..<n] = [0..<?l] @ [?l..<n]" using l upt_add_eq_append [of 0 ?l "n - ?l"] by simp
  have e: "even (length [0..<?l])" by simp
  have "survivor [0..<n] = survivor ([?l..<n] @ evens [0..<?l])" unfolding split by (rule survivor_pass [OF e])
  also have "\<dots> = hd ([?l..<n] @ evens [0..<?l])"
    using length_evens [OF e] assms by (intro survivor_power [of _ m]) simp
  also have "\<dots> = ?l" using l by simp
  finally show ?thesis .
qed

text \<open>For at least two soldiers and memory available, the loop over the circle ends and returns the
  place of the survivor of the game on a queue, which for \<open>n\<close> from \<open>2 ^ m\<close> up to \<open>2 ^ (m + 1)\<close> is
  \<open>2 * (n - 2 ^ m) + 1\<close>.\<close>

theorem Josephus_survivor:
  assumes "2 \<le> n" and "n < 2 ^ 61" and "2 ^ m \<le> n" and "n < 2 ^ Suc m"
  shows "Josephus True n = Some (survivor [0..<n] + 1) \<and> survivor [0..<n] + 1 = 2 * (n - 2 ^ m) + 1"
proof -
  have "n < 2 ^ 64" using assms(2) by simp
  from circle_loop_spec [OF assms(1) this, of 0 "replicate n None"] assms(1) obtain ps where
    ps: "circle_loop n (replicate n None) 0 = Some (ps, n - 1)" "length ps = n" "\<forall>j < n - 1. ps ! j = Some (j + 1)" by auto
  have "hd [0..<n] = 0" using assms(1) by simp
  with kill_loop_spec [OF circle_start [OF assms(1) ps(2,3)]] assms(1)
  have "kill_loop (ps[n - 1 := Some 0]) 0 = Some (survivor [0..<n])" by simp
  then show ?thesis using ps(1,2) assms(1) survivor_closed [OF assms(3,4)] by (simp add: Josephus_def)
qed

lemma Josephus_survivor_witness: "Josephus True 41 = Some 19"
  using Josephus_survivor [of 41 5] by simp

text \<open>For fewer than two soldiers the bound of the first loop wraps around.\<close>

lemma Josephus_one: "Josephus mem 1 = None"
proof -
  have "szsub 1 2 = 2 ^ 64 - 1" by (simp add: szsub_def)
  then show ?thesis by (simp add: Josephus_def) (subst circle_loop.simps, subst circle_loop.simps, simp)
qed

section \<open>Reversing the digits\<close>

partial_function (option) flip_digits :: "int \<Rightarrow> int \<Rightarrow> int option" where
  "flip_digits num result = (if num \<noteq> 0 then do {
       r \<leftarrow> int32 (result * 10);
       result \<leftarrow> int32 (r + num smod 10);
       flip_digits (num sdiv 10) result
     } else Some result)"

definition FlipInt :: "int \<Rightarrow> int option" where
  "FlipInt num = (if num < 10 then Some (num * 1) else do { result \<leftarrow> flip_digits num 0; Some (result * 1) })"

fun digits_of :: "nat \<Rightarrow> nat list" where
  "digits_of n = (if n = 0 then [] else n mod 10 # digits_of (n div 10))"

declare digits_of.simps [simp del]

text \<open>The value of a list of digits with the highest one first.\<close>

definition value_of :: "nat list \<Rightarrow> nat" where
  "value_of ds = foldl (\<lambda>a d. 10 * a + d) 0 ds"

lemma value_of_digits: "value_of (rev (digits_of n)) = n"
proof (induction n rule: digits_of.induct)
  case (1 n)
  then show ?case by (subst digits_of.simps) (simp add: value_of_def)
qed

lemma flip_digits_spec:
  "n < 10 ^ b \<Longrightarrow> r < 10 ^ a \<Longrightarrow> a + b \<le> 9 \<Longrightarrow>
   flip_digits (int n) (int r) = Some (int (foldl (\<lambda>a d. 10 * a + d) r (digits_of n)))"
proof (induction n arbitrary: r a b rule: digits_of.induct)
  case (1 n)
  show ?case
  proof (cases "n = 0")
    case True
    then show ?thesis by (subst flip_digits.simps, subst digits_of.simps) simp
  next
    case False
    let ?r = "10 * r + n mod 10"
    have b: "0 < b" using 1(2) False by (cases b) auto
    have "n mod 10 < 10" by simp
    then have small: "?r < 10 ^ Suc a" using 1(3) by simp
    also have "(10 :: nat) ^ Suc a \<le> 10 ^ 9" using 1(4) b by (intro power_increasing) auto
    finally have r31: "?r < 10 ^ 9" .
    have q: "n div 10 < 10 ^ (b - 1)" using 1(2) b by (cases b) (auto simp: less_mult_imp_div_less mult.commute)
    have "int32 (int r * 10) = Some (int r * 10)" "int32 (int r * 10 + int (n mod 10)) = Some (int ?r)"
      using r31 by (simp_all add: int32_def)
    moreover have "int n smod 10 = int (n mod 10)" "int n sdiv 10 = int (n div 10)"
      using False by (simp_all add: signed_modulo_int_def signed_divide_int_def zdiv_int zmod_int)
    ultimately have "flip_digits (int n) (int r) = flip_digits (int (n div 10)) (int ?r)"
      using False by (subst flip_digits.simps) simp
    also have "\<dots> = Some (int (foldl (\<lambda>a d. 10 * a + d) ?r (digits_of (n div 10))))"
      using 1(4) b by (intro 1(1) [OF False q small]) simp
    finally show ?thesis using False by (subst digits_of.simps) simp
  qed
qed

lemma FlipInt_reverses: "n < 10 ^ 9 \<Longrightarrow> FlipInt (int n) = Some (int (value_of (digits_of n)))"
  using flip_digits_spec [of n 9 0 0]
  by (auto simp: FlipInt_def value_of_def digits_of.simps [of n] digits_of.simps [of 0])

text \<open>Negative numbers are not reversed, although \<open>main\<close> expects \<open>- 321\<close> for \<open>- 123\<close>.\<close>

lemma FlipInt_negative: "n < 0 \<Longrightarrow> FlipInt n = Some n"
  by (simp add: FlipInt_def)

section \<open>The best buy and sale\<close>

text \<open>\<open>i\<close> is initialised with itself: its first value is an argument.\<close>

partial_function (option) bursa_loop ::
  "int list \<Rightarrow> nat \<Rightarrow> nat \<Rightarrow> nat \<Rightarrow> int \<Rightarrow> nat \<Rightarrow> nat \<Rightarrow> (int \<times> nat \<times> nat) option" where
  "bursa_loop arr num_of_element i min_buy max_profit buy sell =
     (if i < num_of_element then do {
        a \<leftarrow> aget arr i;
        m \<leftarrow> aget arr min_buy;
        d \<leftarrow> int32 (a - m);
        let (max_profit, buy, sell) = (if d > max_profit then (d, min_buy, i) else (max_profit, buy, sell));
        bursa_loop arr num_of_element (i + 1) (if a < m then i else min_buy) max_profit buy sell
      } else Some (max_profit, buy, sell))"

definition bursa :: "nat \<Rightarrow> int list \<Rightarrow> nat \<Rightarrow> (int \<times> nat \<times> nat) option" where
  "bursa i arr num_of_element = bursa_loop arr num_of_element i 0 0 0 1"

text \<open>What holds after \<open>i\<close> days: the cheapest one, and the best trade among them.\<close>

definition best_trade :: "int list \<Rightarrow> nat \<Rightarrow> int \<Rightarrow> nat \<Rightarrow> nat \<Rightarrow> bool" where
  "best_trade arr i p buy sell \<longleftrightarrow>
     (\<forall>j k. j \<le> k \<and> k < i \<longrightarrow> arr ! k - arr ! j \<le> p) \<and>
     (p = 0 \<and> buy = 0 \<and> sell = 1 \<or> 0 < p \<and> buy \<le> sell \<and> sell < i \<and> p = arr ! sell - arr ! buy)"

lemma bursa_loop_spec:
  assumes small: "\<forall>x \<in> set arr. - (2 ^ 30) \<le> x \<and> x < 2 ^ 30"
  shows "i \<le> length arr \<Longrightarrow> mb < max 1 i \<Longrightarrow> (\<forall>j < i. arr ! mb \<le> arr ! j) \<Longrightarrow> best_trade arr i p buy sell \<Longrightarrow>
    \<exists>p' buy' sell'. bursa_loop arr (length arr) i mb p buy sell = Some (p', buy', sell') \<and> best_trade arr (length arr) p' buy' sell'"
proof (induction "length arr - i" arbitrary: i mb p buy sell)
  case 0
  then show ?case by (subst bursa_loop.simps) simp
next
  case (Suc d)
  then have i: "i < length arr" "mb \<le> i" by auto
  let ?d = "arr ! i - arr ! mb"
  have "arr ! i \<in> set arr" "arr ! mb \<in> set arr" using i by simp_all
  then have fits: "int32 ?d = Some ?d" using small [THEN bspec, of "arr ! i"] small [THEN bspec, of "arr ! mb"] by (simp add: int32_def)
  define mb' where "mb' = (if arr ! i < arr ! mb then i else mb)"
  define p' where "p' = (if ?d > p then ?d else p)"
  define buy' where "buy' = (if ?d > p then mb else buy)"
  define sell' where "sell' = (if ?d > p then i else sell)"
  have step: "bursa_loop arr (length arr) i mb p buy sell = bursa_loop arr (length arr) (i + 1) mb' p' buy' sell'"
    using i fits by (subst bursa_loop.simps) (simp add: mb'_def p'_def buy'_def sell'_def)
  have m: "\<forall>j < i + 1. arr ! mb' \<le> arr ! j" using Suc.prems(3) by (auto simp: mb'_def less_Suc_eq)
  have "arr ! k - arr ! j \<le> p'" if "j \<le> k" "k < i + 1" for j k
  proof (cases "k = i")
    case True
    have "arr ! mb \<le> arr ! j \<or> j = i" using Suc.prems(3) that True by auto
    moreover have "0 \<le> p" using Suc.prems(4) by (auto simp: best_trade_def)
    ultimately show ?thesis using True by (auto simp: p'_def)
  next
    case False
    then have "arr ! k - arr ! j \<le> p" using Suc.prems(4) that by (simp add: best_trade_def)
    then show ?thesis by (simp add: p'_def)
  qed
  moreover have "0 \<le> p" using Suc.prems(4) by (auto simp: best_trade_def)
  ultimately have "best_trade arr (i + 1) p' buy' sell'"
    using Suc.prems(4) i unfolding best_trade_def p'_def buy'_def sell'_def by auto
  moreover have "mb' < max 1 (i + 1)" using i by (simp add: mb'_def)
  ultimately show ?case unfolding step using Suc.hyps(2) i m by (intro Suc.hyps(1)) simp_all
qed

lemma bursa_best:
  assumes "\<forall>x \<in> set arr. - (2 ^ 30) \<le> x \<and> x < 2 ^ 30"
  shows "\<exists>p buy sell. bursa 0 arr (length arr) = Some (p, buy, sell) \<and> best_trade arr (length arr) p buy sell"
  using bursa_loop_spec [OF assms, of 0 0 0 0 1] by (simp add: bursa_def best_trade_def)

text \<open>Another first value of \<open>i\<close> skips days.\<close>

lemma bursa_skips: "bursa 3 [1, 9, 2] 3 = Some (0, 0, 1) \<and> bursa 0 [1, 9, 2] 3 = Some (8, 0, 1)"
  by (simp add: bursa_def bursa_loop.simps int32_def)

end
