(* ===== verification/Divisors.thy ===== *)
theory Divisors
  imports Prelude
begin

text \<open>
  The sum of the divisors of a number, computed by many threads (\<open>system_programming/threads\<close>: \<open>ex4\<close> with
  32000 threads, \<open>ex5\<close> and \<open>ex6\<close> with 8). The number is written before the first thread starts and only
  read after that, and a thread hands its sum to \<open>pthread_join\<close>: what it computes does not depend on the
  order in which the threads run. The number of threads, a macro of each file, is a parameter here.
\<close>

definition PROCESS_LIMIT_ex4 :: nat where
  "PROCESS_LIMIT_ex4 = 32000"

definition PROCESS_LIMIT_ex5 :: nat where
  "PROCESS_LIMIT_ex5 = 8"

definition RANGE_OF_THREAD_ex4 :: "nat \<Rightarrow> nat \<Rightarrow> nat" where
  "RANGE_OF_THREAD_ex4 limit number = number div limit"

definition START_OF_RANGE_ex4 :: "nat \<Rightarrow> nat \<Rightarrow> nat \<Rightarrow> nat" where
  "START_OF_RANGE_ex4 limit number index = (RANGE_OF_THREAD_ex4 limit number * index + 1) mod 2 ^ 64"

partial_function (option) divisors_loop :: "nat \<Rightarrow> nat \<Rightarrow> nat \<Rightarrow> nat \<Rightarrow> nat option" where
  "divisors_loop number end_of i sum_of_divisors =
     (if i \<le> end_of then
        if i = 0 then None
        else divisors_loop number end_of ((i + 1) mod 2 ^ 64)
               (if number mod i = 0 then (sum_of_divisors + i) mod 2 ^ 64 else sum_of_divisors)
      else Some sum_of_divisors)"

definition ThreadNumOfDivisors :: "nat \<Rightarrow> nat \<Rightarrow> nat \<Rightarrow> nat option" where
  "ThreadNumOfDivisors limit number index =
     divisors_loop number ((START_OF_RANGE_ex4 limit number index + RANGE_OF_THREAD_ex4 limit number) mod 2 ^ 64)
       (START_OF_RANGE_ex4 limit number index) 0"

text \<open>The second loop of the main thread: it joins the threads in order and adds what they return.\<close>

partial_function (option) join_threads :: "nat \<Rightarrow> nat \<Rightarrow> nat \<Rightarrow> nat \<Rightarrow> nat option" where
  "join_threads limit number i sum_of_divisors_atomic =
     (if i < limit then do {
        sum_for_now \<leftarrow> ThreadNumOfDivisors limit number i;
        join_threads limit number (i + 1) ((sum_of_divisors_atomic + sum_for_now) mod 2 ^ 64)
      } else Some sum_of_divisors_atomic)"

definition OneHundredKArr :: "nat \<Rightarrow> nat \<Rightarrow> nat option" where
  "OneHundredKArr limit number_check_div = join_threads limit number_check_div 0 0"

section \<open>One thread\<close>

definition div_sum :: "nat \<Rightarrow> nat set \<Rightarrow> nat" where
  "div_sum n D = (\<Sum>d \<in> {d \<in> D. d dvd n}. d)"

lemma div_sum_Un: "finite A \<Longrightarrow> finite B \<Longrightarrow> A \<inter> B = {} \<Longrightarrow> div_sum n (A \<union> B) = div_sum n A + div_sum n B"
  unfolding div_sum_def Collect_disj_eq [symmetric]
  by (subst sum.union_disjoint [symmetric]) (auto intro: arg_cong2 [where f = sum])

lemma div_sum_empty [simp]: "div_sum n {} = 0"
  by (simp add: div_sum_def)

lemma div_sum_single: "div_sum n {i} = (if i dvd n then i else 0)"
  unfolding div_sum_def by (cases "i dvd n") (simp_all add: conj_commute Collect_conv_if cong: conj_cong)

lemma div_sum_mono: "finite B \<Longrightarrow> A \<subseteq> B \<Longrightarrow> div_sum n A \<le> div_sum n B"
  unfolding div_sum_def by (intro sum_mono2) auto

lemma div_sum_Suc:
  assumes "i \<le> m"
  shows "div_sum n {i..m} = (if n mod i = 0 then i else 0) + div_sum n {Suc i..m}"
proof -
  have "{i..m} = {i} \<union> {Suc i..m}" using assms by auto
  then show ?thesis using div_sum_Un [of "{i}" "{Suc i..m}" n] by (simp add: div_sum_single dvd_eq_mod_eq_0)
qed

lemma divisors_loop_eq:
  assumes "Suc m < 2 ^ 64"
  shows "0 < i \<Longrightarrow> acc + div_sum n {i..m} < 2 ^ 64 \<Longrightarrow>
    divisors_loop n m i acc = Some (acc + div_sum n {i..m})"
proof (induction "Suc m - i" arbitrary: i acc rule: less_induct)
  case less
  show ?case
  proof (cases "i \<le> m")
    case True
    let ?acc = "acc + (if n mod i = 0 then i else 0)"
    have b: "?acc + div_sum n {Suc i..m} < 2 ^ 64" using less.prems(2) div_sum_Suc [OF True, of n] by simp
    have acc: "n mod i = 0 \<longrightarrow> (acc + i) mod 2 ^ 64 = acc + i"
    proof
      assume "n mod i = 0"
      then have "acc + i < 2 ^ 64" using b by simp
      then show "(acc + i) mod 2 ^ 64 = acc + i" by (rule mod_less)
    qed
    have "divisors_loop n m i acc = divisors_loop n m (Suc i) ?acc"
      using True less.prems(1) assms acc by (subst divisors_loop.simps) simp
    also have "\<dots> = Some (?acc + div_sum n {Suc i..m})"
      using True b by (intro less.hyps) auto
    also have "?acc + div_sum n {Suc i..m} = acc + div_sum n {i..m}" using div_sum_Suc [OF True, of n] by simp
    finally show ?thesis .
  next
    case False
    then show ?thesis by (subst divisors_loop.simps) simp
  qed
qed

section \<open>All threads\<close>

text \<open>The ranges of two neighbouring threads share the first number of the second one.\<close>

definition thread_range :: "nat \<Rightarrow> nat \<Rightarrow> nat set" where
  "thread_range r k = {r * k + 1..r * Suc k + 1}"

lemma div_sum_range:
  "div_sum n (thread_range r k) = div_sum n {r * k + 1..r * Suc k} + (if r * Suc k + 1 dvd n then r * Suc k + 1 else 0)"
proof -
  have "thread_range r k = {r * k + 1..r * Suc k} \<union> {r * Suc k + 1}" by (auto simp: thread_range_def)
  then show ?thesis using div_sum_Un [of "{r * k + 1..r * Suc k}" "{r * Suc k + 1}" n] by (simp add: div_sum_single)
qed

lemma div_sum_ranges:
  "(\<Sum>k<m. div_sum n (thread_range r k))
   = div_sum n {1..r * m} + (\<Sum>k<m. if r * Suc k + 1 dvd n then r * Suc k + 1 else 0)"
proof (induction m)
  case (Suc m)
  have "{1..r * Suc m} = {1..r * m} \<union> {r * m + 1..r * Suc m}" by auto
  then have "div_sum n {1..r * Suc m} = div_sum n {1..r * m} + div_sum n {r * m + 1..r * Suc m}"
    using div_sum_Un [of "{1..r * m}" "{r * m + 1..r * Suc m}" n] by simp
  then show ?case using Suc.IH by (simp add: div_sum_range)
qed simp

lemma ThreadNumOfDivisors_eq:
  assumes "k < limit" "n + 2 < 2 ^ 64" "div_sum n (thread_range (n div limit) k) < 2 ^ 64"
  shows "ThreadNumOfDivisors limit n k = Some (div_sum n (thread_range (n div limit) k))"
proof -
  have "n div limit * Suc k \<le> n div limit * limit" using assms(1) by (intro mult_le_mono2) simp
  also have "\<dots> \<le> n" by simp
  finally have "n div limit * Suc k + 2 < 2 ^ 64" using assms(2) by simp
  then show ?thesis using assms(3) divisors_loop_eq [of "n div limit * Suc k + 1" "n div limit * k + 1" 0 n]
    by (simp add: ThreadNumOfDivisors_def START_OF_RANGE_ex4_def RANGE_OF_THREAD_ex4_def thread_range_def add.commute add.left_commute)
qed

lemma join_threads_eq:
  assumes "n + 2 < 2 ^ 64"
  shows "i \<le> limit \<Longrightarrow> acc + (\<Sum>k = i..<limit. div_sum n (thread_range (n div limit) k)) < 2 ^ 64 \<Longrightarrow>
    join_threads limit n i acc = Some (acc + (\<Sum>k = i..<limit. div_sum n (thread_range (n div limit) k)))"
proof (induction "limit - i" arbitrary: i acc)
  case 0
  then show ?case by (subst join_threads.simps) simp
next
  case (Suc d)
  let ?s = "div_sum n (thread_range (n div limit) i)"
  have i: "i < limit" using Suc.hyps(2) by simp
  have split: "(\<Sum>k = i..<limit. div_sum n (thread_range (n div limit) k))
      = ?s + (\<Sum>k = Suc i..<limit. div_sum n (thread_range (n div limit) k))"
    using i by (rule sum.atLeast_Suc_lessThan)
  have b: "acc + ?s + (\<Sum>k = Suc i..<limit. div_sum n (thread_range (n div limit) k)) < 2 ^ 64"
    using Suc.prems(2) split by simp
  have "join_threads limit n i acc = join_threads limit n (Suc i) (acc + ?s)"
    using ThreadNumOfDivisors_eq [OF i assms] b i by (subst join_threads.simps) simp
  also have "\<dots> = Some (acc + ?s + (\<Sum>k = Suc i..<limit. div_sum n (thread_range (n div limit) k)))"
    using Suc.hyps(2) i b by (intro Suc.hyps(1)) simp_all
  finally show ?case using split by simp
qed

text \<open>
  What the program computes: the sum of the divisors up to the end of the last range, and once more each
  divisor at which a range starts.
\<close>

lemma OneHundredKArr_eq:
  assumes "n + 2 < 2 ^ 64" and "div_sum n {1..n div limit * limit}
      + (\<Sum>k<limit. if n div limit * Suc k + 1 dvd n then n div limit * Suc k + 1 else 0) < 2 ^ 64"
  shows "OneHundredKArr limit n = Some (div_sum n {1..n div limit * limit}
      + (\<Sum>k<limit. if n div limit * Suc k + 1 dvd n then n div limit * Suc k + 1 else 0))"
  using join_threads_eq [OF assms(1), of 0 limit 0] assms(2)
  by (simp add: OneHundredKArr_def atLeast0LessThan div_sum_ranges)

lemma dvd_one_of_coprime_power:
  fixes d :: nat
  assumes "d dvd n" "n dvd r ^ e" "coprime d r"
  shows "d = 1"
proof -
  have "coprime d (r ^ e)" using assms(3) by simp
  moreover have "d dvd r ^ e" using assms(1,2) by (rule dvd_trans)
  ultimately show ?thesis by (metis coprime_absorb_left is_unit_gcd gcd_nat.absorb1 nat_dvd_1_iff_1)
qed

text \<open>Where every prime of the number divides the length of a range, no range starts at a divisor.\<close>

lemma OneHundredKArr_divisors:
  assumes "0 < n" "n < 2 ^ 32" "limit dvd n" "n dvd (n div limit) ^ e"
  shows "OneHundredKArr limit n = Some (\<Sum>d | d dvd n. d)"
proof -
  let ?r = "n div limit"
  have r: "0 < ?r" using assms(1,3) by (metis dvd_div_eq_0_iff gr0I)
  have n: "?r * limit = n" using assms(3) by simp
  have "\<not> ?r * Suc k + 1 dvd n" for k
  proof
    assume "?r * Suc k + 1 dvd n"
    moreover have "coprime (?r * Suc k + 1) ?r" by (rule coprimeI) (metis dvd_add_right_iff dvd_mult2)
    ultimately have "?r * Suc k + 1 = 1" using dvd_one_of_coprime_power assms(4) by blast
    then show False using r by simp
  qed
  then have none: "(\<Sum>k<limit. if ?r * Suc k + 1 dvd n then ?r * Suc k + 1 else 0) = 0" by simp
  have "{d \<in> {1..n}. d dvd n} = {d. d dvd n}" using assms(1) dvd_imp_le [of _ n] by (auto simp: Suc_le_eq intro: Nat.gr0I)
  then have s: "div_sum n {1..n} = (\<Sum>d | d dvd n. d)" by (simp add: div_sum_def)
  have "div_sum n {1..n} \<le> (\<Sum>d \<in> {1..n}. n)" unfolding div_sum_def
    by (rule order_trans [OF sum_mono2 [where B = "{1..n}"] sum_mono]) auto
  also have "\<dots> = n * n" by simp
  also have "\<dots> < 2 ^ 32 * 2 ^ 32" using assms(2) by (intro mult_strict_mono) auto
  finally have "div_sum n {1..n} < 2 ^ 64" by simp
  then show ?thesis using OneHundredKArr_eq [of n limit] none n s assms(2) by simp
qed

text \<open>The programs of \<open>ex4\<close>, \<open>ex5\<close> and \<open>ex6\<close> return the sum of the divisors of their number, whatever
  the number of threads, if the threads divide the number and each of its primes divides the length of the
  range of a thread: then no range begins at a divisor, where the ranges of two threads overlap.\<close>

lemma OneHundredKArr_correct:
  assumes "0 < number" "number < 2 ^ 32" "limit dvd number" "number dvd (RANGE_OF_THREAD_ex4 limit number) ^ e"
  shows "OneHundredKArr limit number = Some (\<Sum>d | d dvd number. d)"
  using OneHundredKArr_divisors [OF assms(1-3)] assms(4) by (simp add: RANGE_OF_THREAD_ex4_def)

lemma OneHundredKArr_main:
  "OneHundredKArr PROCESS_LIMIT_ex4 3200000000 = Some (\<Sum>d | d dvd 3200000000. d)
   \<and> OneHundredKArr PROCESS_LIMIT_ex5 3200000000 = Some (\<Sum>d | d dvd 3200000000. d)"
  using OneHundredKArr_correct [of 3200000000 PROCESS_LIMIT_ex4 3] OneHundredKArr_correct [of 3200000000 PROCESS_LIMIT_ex5 2]
  by (simp add: PROCESS_LIMIT_ex4_def PROCESS_LIMIT_ex5_def RANGE_OF_THREAD_ex4_def)

text \<open>Elsewhere divisors count twice (8 has the sum 15), or are left out (the sum of 15 is 24).\<close>

lemma div_sum_list: "div_sum n {1..m} = sum_list (filter (\<lambda>d. n mod d = 0) [1..<Suc m])"
proof -
  have "{d \<in> {1..m}. d dvd n} = set (filter (\<lambda>d. n mod d = 0) [1..<Suc m])" by (auto simp: dvd_eq_mod_eq_0)
  then show ?thesis unfolding div_sum_def by (simp only: sum.distinct_set_conv_list distinct_filter distinct_upt map_ident)
qed

lemma OneHundredKArr_twice: "OneHundredKArr PROCESS_LIMIT_ex5 8 = Some 29"
proof -
  have "div_sum 8 {1..8} = 15" unfolding div_sum_list by code_simp
  then show ?thesis using OneHundredKArr_eq [of 8 8]
    by (simp add: PROCESS_LIMIT_ex5_def lessThan_nat_numeral lessThan_Suc numeral_2_eq_2 [symmetric] numeral_3_eq_3 [symmetric])
qed

lemma OneHundredKArr_left_out: "OneHundredKArr PROCESS_LIMIT_ex5 15 = Some 17"
proof -
  have "div_sum 15 {1..8} = 9" unfolding div_sum_list by code_simp
  then show ?thesis using OneHundredKArr_eq [of 15 8]
    by (simp add: PROCESS_LIMIT_ex5_def lessThan_nat_numeral lessThan_Suc numeral_2_eq_2 [symmetric] numeral_3_eq_3 [symmetric])
qed

end
