(* ===== verification/SpellCheck.thy ===== *)
theory SpellCheck
  imports HashTable DictSort
begin

text \<open>
  The spell checker, \<open>ds/hash/spell_checker.c\<close>, a client of the hash table: it splits a text into its lines,
  inserts each into the table and looks a word up. The text, which the code maps from a file, is an
  argument. The table stores pointers into the text; \<open>strtok\<close> only writes behind the words it has
  returned, so the words stay what they were, and the model stores them.
\<close>

definition INDEX_LENGH :: nat where
  "INDEX_LENGH = 65"

definition string_at :: "string \<Rightarrow> nat \<Rightarrow> string option" where
  "string_at s p = (if NUL \<in> set (drop p s) then Some (takeWhile (\<lambda>c. c \<noteq> NUL) (drop p s)) else None)"

partial_function (option) insert_words ::
  "(string dheap \<Rightarrow> addr option) \<Rightarrow> string dheap \<Rightarrow> string hash_table \<Rightarrow> string \<Rightarrow> nat option \<Rightarrow> nat \<Rightarrow> string dheap option" where
  "insert_words malloc h dic_htable dic_add word pos = (case word of
     None \<Rightarrow> Some h
   | Some p \<Rightarrow> do {
       w \<leftarrow> string_at dic_add p;
       (_, h) \<leftarrow> HashInsert (malloc h) h dic_htable (Elem w);
       (dic_add, word, pos) \<leftarrow> strtok dic_add pos;
       insert_words malloc h dic_htable dic_add word pos
     })"

text \<open>The result is the word that \<open>printf\<close> reports as found, if there is one.\<close>

definition FindWord ::
  "(string dheap \<Rightarrow> addr option) \<Rightarrow> bool \<Rightarrow> bool \<Rightarrow> addr option list \<Rightarrow> string dheap \<Rightarrow> string \<Rightarrow> string \<Rightarrow> string option option" where
  "FindWord malloc mem1 mem2 mems h dic_add word_to_find = do {
     (table, h) \<leftarrow> HashCreate h mem1 mem2 mems HashCodeDic CmpFuncDic INDEX_LENGH;
     dic_htable \<leftarrow> (case table of Table t \<Rightarrow> Some t | _ \<Rightarrow> None);
     (dic_add, word, pos) \<leftarrow> strtok dic_add 0;
     h \<leftarrow> insert_words malloc h dic_htable dic_add word pos;
     found \<leftarrow> HashFind h dic_htable (Elem word_to_find);
     (case found of Null \<Rightarrow> Some None | Elem w \<Rightarrow> Some (Some w) | ListPtr _ \<Rightarrow> None)
   }"

section \<open>Splitting a text into its lines\<close>

definition is_line :: "string \<Rightarrow> bool" where
  "is_line w \<longleftrightarrow> w \<noteq> [] \<and> CHR 0x0A \<notin> set w \<and> NUL \<notin> set w"

definition text_of :: "string list \<Rightarrow> string" where
  "text_of ws = concat (map (\<lambda>w. w @ [CHR 0x0A]) ws)"

lemma newline_NUL [simp]: "CHR 0x0A \<noteq> NUL" "NUL \<noteq> CHR 0x0A"
  by (simp_all add: NUL_def)

lemma aget_append: "aget (xs @ y # ys) (length xs) = Some y"
  by (simp add: aget_def)

lemma end_of_token_line:
  "CHR 0x0A \<notin> set w \<Longrightarrow> NUL \<notin> set w \<Longrightarrow>
   end_of_token (pre @ w @ CHR 0x0A # post) (length pre) = Some (length pre + length w)"
proof (induction w arbitrary: pre)
  case Nil
  then show ?case by (subst end_of_token.simps) (simp add: aget_append)
next
  case (Cons c w)
  then show ?case using Cons.IH [of "pre @ [c]"] by (subst end_of_token.simps) (auto simp: aget_append)
qed

lemma strtok_line:
  assumes "is_line w"
  shows "strtok (pre @ w @ CHR 0x0A # post) (length pre)
    = Some (pre @ w @ NUL # post, Some (length pre), length pre + length w + 1)"
proof -
  obtain c v where w: "w = c # v" "c \<noteq> CHR 0x0A" "c \<noteq> NUL" using assms by (cases w) (auto simp: is_line_def)
  have "skip_newlines (pre @ w @ CHR 0x0A # post) (length pre) = Some (length pre)"
    using w by (subst skip_newlines.simps) (simp add: aget_append)
  moreover have "aget ((pre @ w) @ CHR 0x0A # post) (length (pre @ w)) = Some (CHR 0x0A)"
    "aset ((pre @ w) @ CHR 0x0A # post) (length (pre @ w)) NUL = Some ((pre @ w) @ NUL # post)"
    by (rule aget_append) (simp only: aset_def, simp add: list_update_append)
  moreover have "aget (pre @ w @ CHR 0x0A # post) (length pre) = Some c" using w by (simp add: aget_append)
  ultimately show ?thesis using end_of_token_line [of w pre post] assms w(3) by (simp add: strtok_def is_line_def)
qed

lemma strtok_end: "strtok (pre @ NUL # post) (length pre) = Some (pre @ NUL # post, None, length pre)"
proof -
  have "skip_newlines (pre @ NUL # post) (length pre) = Some (length pre)"
    by (subst skip_newlines.simps) (simp add: aget_append)
  then show ?thesis by (simp add: strtok_def aget_append)
qed

lemma string_at_line: "is_line w \<Longrightarrow> string_at (pre @ w @ NUL # post) (length pre) = Some w"
  by (simp add: string_at_def is_line_def takeWhile_append)

section \<open>Inserting the lines\<close>

lemma insert_words_run:
  "\<forall>w \<in> set ws. is_line w \<Longrightarrow> strtok (pre @ text_of ws @ NUL # post) (length pre) = Some (s, word, pos) \<Longrightarrow>
   insert_words malloc h t s word pos
   = dict_run (\<lambda>m h v. HashInsert m h t v) (\<lambda>h v. HashRemove h t v) malloc (map (\<lambda>w. Put (Elem w)) ws) h"
proof (induction ws arbitrary: pre s word pos h)
  case Nil
  then have "word = None" using strtok_end [of pre post] by (simp add: text_of_def)
  then show ?case by (subst insert_words.simps) simp
next
  case (Cons w ws)
  let ?pre = "pre @ w @ [NUL]"
  have w: "is_line w" using Cons.prems(1) by simp
  have s: "s = pre @ w @ NUL # text_of ws @ NUL # post" "word = Some (length pre)" "pos = length ?pre"
    using Cons.prems(2) strtok_line [OF w, of pre "text_of ws @ NUL # post"] by (simp_all add: text_of_def)
  have s': "s = ?pre @ text_of ws @ NUL # post" using s(1) by simp
  have at: "string_at s (length pre) = Some w" using string_at_line [OF w] by (simp add: s(1))
  have "\<exists>r. strtok s pos = Some r"
    using strtok_end [of ?pre post] strtok_line [of "hd ws" ?pre "text_of (tl ws) @ NUL # post"] Cons.prems(1)
    unfolding s' s(3) by (cases ws) (simp_all add: text_of_def)
  then obtain s2 word2 pos2 where r: "strtok s pos = Some (s2, word2, pos2)" by (metis prod_cases3)
  have "strtok (?pre @ text_of ws @ NUL # post) (length ?pre) = Some (s2, word2, pos2)" using r unfolding s(3) unfolding s' .
  note IH = Cons.IH [OF _ this]
  show ?case unfolding s(2)
    using at r IH Cons.prems(1) by (subst insert_words.simps) (auto split: Option.bind_splits)
qed

lemma dict_spec_puts:
  "dict_spec (\<lambda>x y. CmpFuncDic x y \<noteq> 0) Null (Elem w) (map (\<lambda>w. Put (Elem w)) ws) cur
   = (if w \<in> set ws then Elem w else cur)"
  by (induction ws arbitrary: cur) auto

section \<open>The property\<close>

text \<open>C25. The spell checker, on a text of non-empty lines and with memory for the table and its entries,
  returns without a fault, and finds the word it is asked for exactly if it is one of the lines.\<close>

theorem FindWord_correct:
  assumes "\<forall>w \<in> set ws. is_line w" "length ms = INDEX_LENGH" "distinct (blocks ms)"
    "set (blocks ms) \<inter> dom h = {}" "finite (dom h)"
    "\<And>h. finite (dom h) \<Longrightarrow> \<exists>n. malloc h = Some n \<and> n \<notin> dom h"
  shows "FindWord malloc True True (map Some ms) h (text_of ws @ NUL # pad) word
    = Some (if word \<in> set ws then Some word else None)"
proof -
  let ?t = "spell_table (Some (map Some ms))"
  have t: "\<lparr>hash_func = HashCodeDic, match_func = CmpFuncDic, ht_capacity = length ms, hash_arr = Some (map Some ms)\<rparr> = ?t"
    using assms(2) by (simp add: spell_table_def INDEX_LENGH_def)
  obtain h0 where h0: "HashCreate h True True (map Some ms) HashCodeDic CmpFuncDic (length ms) = Some (Table ?t, h0)"
    "hash_rep ?t h0 (replicate (ht_capacity ?t) [])" "finite (dom h0)"
    using HashCreate_spec [OF assms(3-5), of HashCodeDic CmpFuncDic] assms(2) t by (auto simp: INDEX_LENGH_def spell_table_def)
  have contract: "hash_contract ?t (range Elem)" by (rule spell.hash_contract_axioms)
  have none: "HashFind h0 ?t (Elem word) = Some Null" using hash_contract.empty_table_find [OF contract h0(2)] by simp
  obtain h' where h': "dict_run (\<lambda>m h v. HashInsert m h ?t v) (\<lambda>h v. HashRemove h ?t v) malloc (map (\<lambda>w. Put (Elem w)) ws) h0 = Some h'"
    "HashFind h' ?t (Elem word) = Some (if word \<in> set ws then Elem word else Null)"
  proof -
    have mf: "match_func ?t = CmpFuncDic" by (simp add: spell_table_def)
    have "\<exists>h'. dict_run (\<lambda>m h v. HashInsert m h ?t v) (\<lambda>h v. HashRemove h ?t v) malloc (map (\<lambda>w. Put (Elem w)) ws) h0 = Some h'
      \<and> (\<forall>k \<in> range Elem. \<forall>c. HashFind h0 ?t k = Some c \<longrightarrow>
          HashFind h' ?t k = Some (dict_spec (\<lambda>x y. CmpFuncDic x y \<noteq> 0) Null k (map (\<lambda>w. Put (Elem w)) ws) c))"
      by (rule hash_contract.dictionary_run [OF contract assms(6) spell.empty_table_ok [OF h0(2,3)], unfolded mf]) auto
    then show thesis using that none by (auto simp: dict_spec_puts)
  qed
  obtain s wd pos where r: "strtok (text_of ws @ NUL # pad) 0 = Some (s, wd, pos)"
    using strtok_end [of "[]" pad] strtok_line [of "hd ws" "[]" "text_of (tl ws) @ NUL # pad"] assms(1)
    by (cases ws) (auto simp: text_of_def)
  have "insert_words malloc h0 ?t s wd pos = Some h'"
    using insert_words_run [OF assms(1), of "[]" pad s wd pos malloc h0 ?t] r h'(1) by simp
  then show ?thesis using h0(1) h'(2) r assms(2) by (simp add: FindWord_def)
qed

theorem FindWord_correct_witness:
  "FindWord next_free True True (map Some (map ((*) 2) [0 ..< 65])) Map.empty (text_of [''tea'', ''cup''] @ [NUL]) ''cup'' = Some (Some ''cup'')"
proof -
  let ?ms = "map ((*) 2) [0 ..< 65] :: addr list"
  have d: "distinct (blocks ?ms)" by (simp add: blocks_def upt_conv_Cons)
  have l: "\<forall>w \<in> set [''tea'', ''cup'']. is_line w" by (simp add: is_line_def NUL_def)
  show ?thesis
    using FindWord_correct [OF l _ d _ _ next_free, of Map.empty "[]" "''cup''"] by (simp add: INDEX_LENGH_def)
qed

end
