(* ===== verification/WatchDog.thy ===== *)
theory WatchDog
  imports Prelude
begin

text \<open>
  The watch dog, \<open>projects/watch_dog\<close>: a program and a watch dog process send each other the signal SIGUSR1
  once in a second and count what they sent since the last answer; who counts too far starts the other one
  again. The globals of a process are a record, the signal handlers and the tasks of its scheduler are
  functions on it, and the calls of the operating system that they make are collected in a list; the answer
  of \<open>fork\<close> is an argument. Of the scheduler only the flag that stops it is kept: its loop is in
  \<open>Scheduler\<close>. The counters are atomic and wrap around.
\<close>

datatype os_signal = SIGUSR1 | SIGUSR2

datatype os_call = Kill int os_signal | Fork | Execv | Printf | SemOp nat int | SemRemove nat | Unsetenv

definition SIGNAL_MAX_REPEAT :: int where
  "SIGNAL_MAX_REPEAT = 2"

section \<open>The program that is watched\<close>

record wd_client =
  sig_counter :: int
  end_flag :: int
  thread_stop_flag :: int
  wd_pid_g :: int
  client_calls :: "os_call list"

definition client_call :: "os_call \<Rightarrow> wd_client \<Rightarrow> wd_client" where
  "client_call k c = c\<lparr>client_calls := client_calls c @ [k]\<rparr>"

definition CreateWDProcess :: "int \<Rightarrow> wd_client \<Rightarrow> wd_client" where
  "CreateWDProcess wd_pid c =
     (let c = client_call Fork c in
      if wd_pid < 0 then client_call Printf c
      else if wd_pid = 0 then client_call Execv c
      else c\<lparr>wd_pid_g := wd_pid\<rparr>)"

text \<open>The beginning of the thread, up to \<open>SchedulerRun\<close>: \<open>str_pid\<close> is the number in the environment
  variable \<open>WD_PID\<close>, \<open>parent\<close> the answer of \<open>getppid\<close>. The two calls wait for the semaphores.\<close>

definition WatchDogThread_start :: "int option \<Rightarrow> int \<Rightarrow> int \<Rightarrow> wd_client \<Rightarrow> wd_client" where
  "WatchDogThread_start str_pid parent fork_answer c =
     (let wd_pid = (case str_pid of Some pid \<Rightarrow> pid | None \<Rightarrow> 0);
          c = c\<lparr>wd_pid_g := wd_pid\<rparr>;
          c = (if wd_pid \<noteq> parent then CreateWDProcess fork_answer c else c)
      in client_call (SemOp 2 (-1)) (client_call (SemOp 1 1) c))"

text \<open>The first task sends and then counts. A signal handler may run between the two, so they are two steps.\<close>

definition SendSigusr1Task_kill :: "wd_client \<Rightarrow> wd_client" where
  "SendSigusr1Task_kill c = client_call (Kill (wd_pid_g c) SIGUSR1) c"

definition SendSigusr1Task_count :: "wd_client \<Rightarrow> int \<times> wd_client" where
  "SendSigusr1Task_count c =
     (let c = (if end_flag c = 1 then c\<lparr>thread_stop_flag := 1\<rparr> else c);
          c = c\<lparr>sig_counter := to_int32 (sig_counter c + 1)\<rparr>
      in (end_flag c, c))"

text \<open>The second task reads the counter once: a signal that arrives inside it has the effect of one that
  arrives after it.\<close>

definition CheckCounterTask :: "int \<Rightarrow> wd_client \<Rightarrow> int \<times> wd_client" where
  "CheckCounterTask fork_answer c =
     (let c = (if end_flag c = 1 then c\<lparr>thread_stop_flag := 1\<rparr> else c);
          c = (if SIGNAL_MAX_REPEAT \<le> sig_counter c then CreateWDProcess fork_answer c else c)
      in (end_flag c, c))"

definition Sigusr1Handler :: "wd_client \<Rightarrow> wd_client" where
  "Sigusr1Handler c = c\<lparr>sig_counter := 0\<rparr>"

definition Sigusr2Handler :: "wd_client \<Rightarrow> wd_client" where
  "Sigusr2Handler c = client_call (SemOp 2 1) c"

definition CleanUp :: "wd_client \<Rightarrow> wd_client" where
  "CleanUp c = client_call Unsetenv (client_call (SemRemove 2) (client_call (SemRemove 1) c))"

definition StopWatchdog :: "wd_client \<Rightarrow> wd_client" where
  "StopWatchdog c =
     (let c = c\<lparr>end_flag := 1\<rparr>;
          c = client_call (Kill (wd_pid_g c) SIGUSR2) c;
          c = client_call (SemOp 1 (-1)) c;
          c = client_call (SemOp 2 (-1)) c
      in CleanUp c)"

section \<open>The watch dog process\<close>

text \<open>\<open>wd_sch\<close> is the flag that stops the scheduler, or \<open>None\<close> when the scheduler is freed.\<close>

record wd_app =
  app_sig_counter :: int
  app_end_flag :: int
  wd_sch :: "int option"
  thread_pid :: int
  app_calls :: "os_call list"

definition app_call :: "os_call \<Rightarrow> wd_app \<Rightarrow> wd_app" where
  "app_call k w = w\<lparr>app_calls := app_calls w @ [k]\<rparr>"

definition app_SendSigusr1Task_kill :: "wd_app \<Rightarrow> wd_app" where
  "app_SendSigusr1Task_kill w = app_call (Kill (thread_pid w) SIGUSR1) w"

definition app_SendSigusr1Task_count :: "wd_app \<Rightarrow> int \<times> wd_app" where
  "app_SendSigusr1Task_count w =
     (let w = w\<lparr>app_sig_counter := to_int32 (app_sig_counter w + 1)\<rparr>
      in (app_end_flag w, w))"

definition app_CheckCounterTask :: "int \<Rightarrow> wd_app \<Rightarrow> (int \<times> wd_app) option" where
  "app_CheckCounterTask wd_pid w = do {
     w \<leftarrow> (if app_end_flag w = 1 then
              (case wd_sch w of None \<Rightarrow> None | Some _ \<Rightarrow> Some (w\<lparr>wd_sch := None\<rparr>))
            else Some w);
     let w = (if SIGNAL_MAX_REPEAT < app_sig_counter w then
         (let w = app_call Fork w in
          if wd_pid < 0 then app_call Printf w
          else if wd_pid = 0 then app_call Execv w
          else (app_call (SemOp 2 1) w)\<lparr>thread_pid := wd_pid, app_sig_counter := 0\<rparr>)
       else w);
     Some (app_end_flag w, w)
   }"

definition app_Sigusr1Handler :: "wd_app \<Rightarrow> wd_app" where
  "app_Sigusr1Handler w = w\<lparr>app_sig_counter := 0\<rparr>"

definition app_Sigusr2Handler :: "wd_app \<Rightarrow> wd_app option" where
  "app_Sigusr2Handler w =
     (let w = app_call (Kill (thread_pid w) SIGUSR2) (w\<lparr>app_end_flag := 1\<rparr>)
      in case wd_sch w of None \<Rightarrow> None | Some _ \<Rightarrow> Some (w\<lparr>wd_sch := Some 1\<rparr>))"

section \<open>What the processes do over time\<close>

text \<open>A run of a process is a sequence of events: the two steps of its first task, its second task with
  the answer that a \<open>fork\<close> would give, and the arrival of a signal SIGUSR1, at any place between them.
  The tasks run one after the other: \<open>order_run\<close> follows whether the first task is between its steps.\<close>

datatype wd_event = Sends | Counts | Check int | Usr1

fun order_step :: "wd_event \<Rightarrow> bool \<Rightarrow> bool option" where
  "order_step Sends b = (if b then None else Some True)"
| "order_step Counts b = (if b then Some False else None)"
| "order_step (Check _) b = (if b then None else Some False)"
| "order_step Usr1 b = Some b"

fun order_run :: "wd_event list \<Rightarrow> bool \<Rightarrow> bool option" where
  "order_run [] b = Some b"
| "order_run (e # es) b = do { b \<leftarrow> order_step e b; order_run es b }"

fun client_event :: "wd_event \<Rightarrow> wd_client \<Rightarrow> wd_client" where
  "client_event Sends c = SendSigusr1Task_kill c"
| "client_event Counts c = snd (SendSigusr1Task_count c)"
| "client_event (Check fork_answer) c = snd (CheckCounterTask fork_answer c)"
| "client_event Usr1 c = Sigusr1Handler c"

fun app_event :: "wd_event \<Rightarrow> wd_app \<Rightarrow> wd_app option" where
  "app_event Sends w = Some (app_SendSigusr1Task_kill w)"
| "app_event Counts w = Some (snd (app_SendSigusr1Task_count w))"
| "app_event (Check fork_answer) w = do { (_, w) \<leftarrow> app_CheckCounterTask fork_answer w; Some w }"
| "app_event Usr1 w = Some (app_Sigusr1Handler w)"

fun app_run :: "wd_event list \<Rightarrow> wd_app \<Rightarrow> wd_app option" where
  "app_run [] w = Some w"
| "app_run (e # es) w = do { w \<leftarrow> app_event e w; app_run es w }"

text \<open>How often an event happened since the last signal arrived; whether that signal arrived inside the
  first task, after it had sent and before it counted; and what a run owes to those two.\<close>

definition since :: "wd_event \<Rightarrow> wd_event list \<Rightarrow> nat" where
  "since x es = length (filter (\<lambda>e. e = x) (takeWhile (\<lambda>e. e \<noteq> Usr1) (rev es)))"

definition arrived_inside :: "wd_event list \<Rightarrow> bool" where
  "arrived_inside es = (case dropWhile (\<lambda>e. e \<noteq> Usr1) (rev es) of
     [] \<Rightarrow> False | _ # before \<Rightarrow> order_run (rev before) False = Some True)"

definition unanswered :: "wd_event list \<Rightarrow> nat" where
  "unanswered es = since Sends es + (if arrived_inside es then 1 else 0)"

definition answered :: "wd_event list \<Rightarrow> bool" where
  "answered es \<longleftrightarrow> (\<forall>xs ys zs. es = xs @ Sends # ys @ Sends # zs \<longrightarrow> Usr1 \<in> set ys)"

definition outside :: "wd_event list \<Rightarrow> bool" where
  "outside es \<longleftrightarrow> (\<forall>xs ys. es = xs @ Usr1 # ys \<longrightarrow> order_run xs False = Some False)"

lemma since_simps [simp]:
  "since x [] = 0"
  "e \<noteq> Usr1 \<Longrightarrow> since x (es @ [e]) = (if e = x then 1 else 0) + since x es"
  "since x (es @ [Usr1]) = 0"
  by (simp_all add: since_def)

lemma since_le: "since x es \<le> length es"
  unfolding since_def by (metis length_filter_le length_rev length_takeWhile_le order_trans)

lemma arrived_inside_simps [simp]:
  "arrived_inside [] = False"
  "e \<noteq> Usr1 \<Longrightarrow> arrived_inside (es @ [e]) = arrived_inside es"
  "arrived_inside (es @ [Usr1]) = (order_run es False = Some True)"
  by (simp_all add: arrived_inside_def)

lemma order_run_append: "order_run (xs @ ys) b = do { b \<leftarrow> order_run xs b; order_run ys b }"
  by (induction xs arbitrary: b) (auto split: bind_splits)

lemma order_run_snoc: "order_run (es @ [e]) b = Some b' \<longleftrightarrow> (\<exists>b1. order_run es b = Some b1 \<and> order_step e b1 = Some b')"
  by (auto simp: order_run_append split: bind_splits)

text \<open>In a run in order, what is counted is what was sent, and one more for an arrival inside the task.\<close>

lemma counted_sent:
  "order_run es False = Some b \<Longrightarrow> since Counts es + (if b then 1 else 0) = unanswered es"
  unfolding unanswered_def
proof (induction es arbitrary: b rule: rev_induct)
  case (snoc e es)
  then obtain b1 where b1: "order_run es False = Some b1" "order_step e b1 = Some b" by (auto simp: order_run_snoc)
  show ?case using snoc.IH [OF b1(1)] b1 by (cases e) (auto split: if_splits)
qed simp

lemma answered_butlast: "answered (es @ [e]) \<Longrightarrow> answered es"
  unfolding answered_def by (metis append.assoc append_Cons)

lemma outside_butlast: "outside (es @ [e]) \<Longrightarrow> outside es"
  unfolding outside_def by (metis append.assoc append_Cons)

lemma since_last: "since Sends es \<noteq> 0 \<Longrightarrow> \<exists>xs ys. es = xs @ Sends # ys \<and> Usr1 \<notin> set ys"
proof (induction es rule: rev_induct)
  case (snoc e es)
  show ?case
  proof (cases "e = Sends")
    case True
    then show ?thesis by (intro exI [of _ es] exI [of _ "[]"]) simp
  next
    case False
    have e: "e \<noteq> Usr1" using snoc.prems by auto
    then have "since Sends es \<noteq> 0" using snoc.prems False by simp
    then obtain xs ys where "es = xs @ Sends # ys \<and> Usr1 \<notin> set ys" using snoc.IH by blast
    then show ?thesis using e by (intro exI [of _ xs] exI [of _ "ys @ [e]"]) simp
  qed
qed simp

lemma answered_since: "answered es \<Longrightarrow> since Sends es \<le> 1"
proof (induction es rule: rev_induct)
  case (snoc e es)
  have a: "answered es" using snoc.prems by (rule answered_butlast)
  show ?case
  proof (cases "e = Sends")
    case True
    have "since Sends es = 0"
    proof (rule ccontr)
      assume "since Sends es \<noteq> 0"
      then obtain xs ys where "es = xs @ Sends # ys" "Usr1 \<notin> set ys" using since_last by blast
      then show False using snoc.prems True by (auto simp: answered_def)
    qed
    then show ?thesis using True by simp
  next
    case False
    then show ?thesis using snoc.IH [OF a] by (cases "e = Usr1") auto
  qed
qed simp

lemma outside_inside: "outside es \<Longrightarrow> \<not> arrived_inside es"
proof (induction es rule: rev_induct)
  case (snoc e es)
  show ?case
  proof (cases "e = Usr1")
    case True
    then show ?thesis using snoc.prems by (auto simp: outside_def)
  next
    case False
    then show ?thesis using snoc outside_butlast by auto
  qed
qed simp

lemma answered_counted:
  "answered es \<Longrightarrow> order_run es False = Some b \<Longrightarrow> since Counts es \<le> (if outside es then 1 else 2)"
  using answered_since [of es] counted_sent [of es b] outside_inside [of es]
  by (auto simp: unanswered_def split: if_splits)

lemma client_counter:
  assumes "sig_counter c = 0"
  shows "length es < 2 ^ 31 \<Longrightarrow> sig_counter (fold client_event es c) = int (since Counts es)"
proof (induction es rule: rev_induct)
  case (snoc e es)
  have "int (since Counts es) + 1 < 2 ^ 31" using since_le [of Counts es] snoc.prems by simp
  then show ?case using snoc
    by (cases e) (simp_all add: SendSigusr1Task_kill_def SendSigusr1Task_count_def CheckCounterTask_def
        Sigusr1Handler_def client_call_def Let_def CreateWDProcess_def to_int32_ok)
qed (use assms in simp)

lemma client_check_calls:
  "client_calls (snd (CheckCounterTask a c)) = client_calls c @ (if 2 \<le> sig_counter c
     then Fork # (if a < 0 then [Printf] else if a = 0 then [Execv] else []) else [])"
  by (simp add: CheckCounterTask_def CreateWDProcess_def client_call_def SIGNAL_MAX_REPEAT_def Let_def)

lemma client_no_fork:
  assumes "sig_counter c = 0" "Fork \<notin> set (client_calls c)"
  shows "length es < 2 ^ 31 \<Longrightarrow> order_run es False = Some b \<Longrightarrow> answered es \<Longrightarrow> outside es
    \<Longrightarrow> Fork \<notin> set (client_calls (fold client_event es c))"
proof (induction es arbitrary: b rule: rev_induct)
  case (snoc e es)
  have a: "answered es" "outside es" using snoc.prems(3,4) answered_butlast outside_butlast by blast+
  obtain b1 where b1: "order_run es False = Some b1" using snoc.prems(2) by (auto simp: order_run_snoc)
  have "sig_counter (fold client_event es c) \<le> 1"
    using client_counter [OF assms(1), of es] answered_counted [OF a(1) b1] a(2) snoc.prems(1) by simp
  then show ?case using snoc.IH [OF _ b1 a] snoc.prems(1)
    by (cases e) (simp_all add: client_check_calls, simp_all add: SendSigusr1Task_kill_def
        SendSigusr1Task_count_def Sigusr1Handler_def client_call_def Let_def)
qed (use assms in simp)

lemma app_check_eq:
  assumes "app_end_flag w = 0"
  shows "app_CheckCounterTask a w = Some (0, if app_sig_counter w \<le> 2 then w
     else if a < 0 then w\<lparr>app_calls := app_calls w @ [Fork, Printf]\<rparr>
     else if a = 0 then w\<lparr>app_calls := app_calls w @ [Fork, Execv]\<rparr>
     else w\<lparr>app_calls := app_calls w @ [Fork, SemOp 2 1], thread_pid := a, app_sig_counter := 0\<rparr>)"
  using assms by (simp add: app_CheckCounterTask_def app_call_def SIGNAL_MAX_REPEAT_def Let_def)

lemma app_run_append: "app_run (es @ fs) w = do { w \<leftarrow> app_run es w; app_run fs w }"
  by (induction es arbitrary: w) (auto split: bind_splits)

text \<open>What the watch dog has after the events \<open>es\<close>.\<close>

definition app_after :: "wd_event list \<Rightarrow> wd_app \<Rightarrow> bool" where
  "app_after es w \<longleftrightarrow> app_end_flag w = 0 \<and> 0 \<le> app_sig_counter w \<and> app_sig_counter w \<le> int (since Counts es)
     \<and> (Fork \<notin> set (app_calls w) \<longrightarrow> app_sig_counter w = int (since Counts es))"

lemma app_event_after:
  assumes "app_after es w" "length es + 1 < 2 ^ 31"
  shows "\<exists>w'. app_event e w = Some w' \<and> app_after (es @ [e]) w'
    \<and> (Fork \<in> set (app_calls w') \<longrightarrow> Fork \<in> set (app_calls w) \<or> 3 \<le> since Counts es)"
proof -
  have "int (since Counts es) + 1 < 2 ^ 31" using since_le [of Counts es] assms(2) by simp
  then show ?thesis using assms(1)
    by (cases e) (auto simp: app_after_def app_SendSigusr1Task_kill_def app_SendSigusr1Task_count_def app_call_def
        app_check_eq app_Sigusr1Handler_def Let_def to_int32_ok)
qed

lemma app_run_ok:
  assumes "app_sig_counter w = 0" "app_end_flag w = 0" "Fork \<notin> set (app_calls w)"
  shows "length es < 2 ^ 31 \<Longrightarrow> order_run es False = Some b \<Longrightarrow> \<exists>w'. app_run es w = Some w' \<and> app_after es w'
    \<and> (answered es \<longrightarrow> Fork \<notin> set (app_calls w'))"
proof (induction es arbitrary: b rule: rev_induct)
  case Nil
  then show ?case using assms by (simp add: app_after_def)
next
  case (snoc e es)
  obtain b1 where b1: "order_run es False = Some b1" using snoc.prems(2) by (auto simp: order_run_snoc)
  obtain w1 where w1: "app_run es w = Some w1" "app_after es w1" "answered es \<longrightarrow> Fork \<notin> set (app_calls w1)"
    using snoc.IH [OF _ b1] snoc.prems(1) by auto
  obtain w2 where w2: "app_event e w1 = Some w2" "app_after (es @ [e]) w2"
    "Fork \<in> set (app_calls w2) \<longrightarrow> Fork \<in> set (app_calls w1) \<or> 3 \<le> since Counts es"
    using app_event_after [OF w1(2)] snoc.prems(1) by auto
  have "answered (es @ [e]) \<Longrightarrow> answered es \<and> since Counts es \<le> 2"
    using answered_butlast answered_counted [OF _ b1] by (fastforce split: if_splits)
  then show ?case using w1 w2 by (auto simp: app_run_append)
qed

section \<open>When a process is started again\<close>

text \<open>C38. When the programs start each other again. Take fewer than 2 ^ 31 events of a process that has
  counted nothing, started nothing and (the watch dog) has not been told to stop: its tasks in order, the
  last one complete, and SIGUSR1 arriving anywhere, also between \<open>kill\<close> and \<open>++sig_counter\<close>. What the
  counter holds then is the number of signals sent since the last one that arrived, and one more if that
  one arrived between \<open>kill\<close> and \<open>++sig_counter\<close>. The program's check starts a watch dog exactly if this is
  at least two, whatever happened before; the watch dog's check, as long as it has started nothing, starts
  the program exactly if it is at least three (the thresholds of the code: the diagram \<open>ongoing activity.txt\<close>
  says ten). If a signal arrives between any two that are sent, the watch dog never starts the program,
  and if none arrives between \<open>kill\<close> and \<open>++sig_counter\<close> either, the program never starts a watch dog.\<close>

theorem watchdog_restarts:
  assumes "length es < 2 ^ 31" "order_run es False = Some False"
    "sig_counter c = 0" "Fork \<notin> set (client_calls c)"
    "app_sig_counter w = 0" "app_end_flag w = 0" "Fork \<notin> set (app_calls w)"
  shows "\<exists>c' w'. fold client_event es c = c' \<and> app_run es w = Some w'
    \<and> sig_counter c' = int (unanswered es)
    \<and> (\<forall>a. client_calls (snd (CheckCounterTask a c')) \<noteq> client_calls c' \<longleftrightarrow> 2 \<le> unanswered es)
    \<and> (Fork \<in> set (app_calls w') \<or> (\<forall>a. \<exists>w''. app_CheckCounterTask a w' = Some (0, w'')
         \<and> (Fork \<in> set (app_calls w'') \<longleftrightarrow> 3 \<le> unanswered es)))
    \<and> (\<not> answered es \<or> Fork \<notin> set (app_calls w') \<and> (\<not> outside es \<or> Fork \<notin> set (client_calls c')))"
proof -
  have n: "since Counts es = unanswered es" using counted_sent [OF assms(2)] by simp
  obtain w' where w': "app_run es w = Some w'" "app_after es w'" "answered es \<longrightarrow> Fork \<notin> set (app_calls w')"
    using app_run_ok [OF assms(5-7,1,2)] by blast
  have e: "app_end_flag w' = 0" using w'(2) by (simp add: app_after_def)
  have "Fork \<in> set (app_calls w') \<or> (\<forall>a. \<exists>w''. app_CheckCounterTask a w' = Some (0, w'')
         \<and> (Fork \<in> set (app_calls w'') \<longleftrightarrow> 3 \<le> unanswered es))"
    using w'(2) n by (auto simp: app_check_eq [OF e] app_after_def)
  then show ?thesis using w'(1,3) client_counter [OF assms(3,1)] client_no_fork [OF assms(3,4,1,2)] n
    by (auto simp: client_check_calls)
qed

abbreviation client0 :: wd_client where
  "client0 \<equiv> \<lparr>sig_counter = 0, end_flag = 0, thread_stop_flag = 0, wd_pid_g = 5, client_calls = []\<rparr>"

abbreviation app0 :: wd_app where
  "app0 \<equiv> \<lparr>app_sig_counter = 0, app_end_flag = 0, wd_sch = Some 0, thread_pid = 4, app_calls = []\<rparr>"

theorem watchdog_restarts_witness:
  "(let es = [Sends, Counts, Check 7, Sends, Usr1, Counts, Sends, Counts]
    in \<exists>c' w'. fold client_event es client0 = c' \<and> app_run es app0 = Some w' \<and> unanswered es = 2
      \<and> (\<forall>a. client_calls (snd (CheckCounterTask a c')) \<noteq> client_calls c')
      \<and> (\<exists>w''. app_CheckCounterTask 9 w' = Some (0, w'') \<and> Fork \<notin> set (app_calls w'')))"
proof -
  let ?es = "[Sends, Counts, Check 7, Sends, Usr1, Counts, Sends, Counts]"
  have u: "unanswered ?es = 2" by (simp add: unanswered_def since_def arrived_inside_def)
  have o: "order_run ?es False = Some False" by simp
  obtain c' w' where r: "fold client_event ?es client0 = c'" "app_run ?es app0 = Some w'"
    "\<forall>a. client_calls (snd (CheckCounterTask a c')) \<noteq> client_calls c'"
    "Fork \<in> set (app_calls w') \<or> (\<exists>w''. app_CheckCounterTask 9 w' = Some (0, w'') \<and> Fork \<notin> set (app_calls w''))"
    using watchdog_restarts [of ?es client0 app0] o u by auto
  have "Fork \<notin> set (app_calls w')"
    using r(2) by (auto simp: app_SendSigusr1Task_kill_def app_SendSigusr1Task_count_def app_call_def app_check_eq
        app_Sigusr1Handler_def Let_def to_int32_ok)
  then show ?thesis using r u by (auto simp: Let_def)
qed

text \<open>A signal that arrives between \<open>kill\<close> and \<open>++sig_counter\<close> is forgotten by the count that follows: the
  program starts a second watch dog although one has answered between its two signals.\<close>

lemma answer_inside_forgotten:
  "(let es = [Sends, Usr1, Counts, Sends, Counts]
    in answered es \<and> Fork \<in> set (client_calls (snd (CheckCounterTask 7 (fold client_event es client0)))))"
proof -
  have "answered [Sends, Usr1, Counts, Sends, Counts]" by (auto simp: answered_def Cons_eq_append_conv)
  then show ?thesis
    by (simp add: Let_def client_check_calls SendSigusr1Task_kill_def SendSigusr1Task_count_def Sigusr1Handler_def
        client_call_def to_int32_ok)
qed

text \<open>After SIGUSR2, a check that comes before the scheduler looks at its flag frees that scheduler: the loop
  of \<open>SchedulerRun\<close> goes on in freed memory, and a second check faults.\<close>

lemma app_check_after_stop:
  assumes "wd_sch w = Some f"
  shows "\<exists>w1 r w2. app_Sigusr2Handler w = Some w1 \<and> app_CheckCounterTask a w1 = Some (r, w2)
    \<and> wd_sch w2 = None \<and> app_CheckCounterTask a w2 = None"
  using assms by (auto simp: app_Sigusr2Handler_def app_CheckCounterTask_def app_call_def Let_def)

end
