(* ===== verification/Transport.thy ===== *)
theory Transport
  imports Prelude
begin

text \<open>
  Objects, inheritance and virtual functions written out in C, \<open>cpp_fs/cpp2c/cpp2c2.c\<close>: five classes of
  public transport, whose objects begin with a pointer to the table of their class. The objects are in an
  explicit store. An address is a block with, for the two members of a convoy that are objects themselves, the
  member; a cast to the base class leaves it as it is. The blocks in \<open>live\<close> are allocated, every access to
  another one is a fault, and so is reading a field before it is set. What the program prints is a list.
\<close>

section \<open>The store of objects\<close>

datatype vtable = pt_vtable | mb_vtable | ta_vtable | sta_vtable | pc_vtable

datatype oaddr = At nat | m_m nat | m_t nat

fun block :: "oaddr \<Rightarrow> nat" where
  "block (At n) = n" | "block (m_m n) = n" | "block (m_t n) = n"

datatype msg =
    PT_Ctor int | PT_Dtor int | PT_CCtor int | PT_display int
  | MB_Ctor | MB_Dtor | MB_CCtor | MB_display int int | MB_wash int int
  | TA_Ctor | TA_Dtor | TA_CCtor | TA_display int
  | STA_Ctor | STA_Dtor | STA_CCtor | STA_display int
  | Count int | Number int | Info_int

record objects =
  s_count :: int
  live :: "nat set"
  vptr :: "oaddr \<Rightarrow> vtable option"
  m_license_plate :: "oaddr \<Rightarrow> int option"
  m_numSeats :: "oaddr \<Rightarrow> int option"
  m_pt1 :: "nat \<Rightarrow> nat option"
  m_pt2 :: "nat \<Rightarrow> nat option"
  printed :: "msg list"

definition say :: "msg \<Rightarrow> objects \<Rightarrow> objects" where
  "say m s = s\<lparr>printed := printed s @ [m]\<rparr>"

definition set_vptr :: "oaddr \<Rightarrow> vtable \<Rightarrow> objects \<Rightarrow> objects option" where
  "set_vptr a v s = (if block a \<in> live s then Some (s\<lparr>vptr := (vptr s)(a := Some v)\<rparr>) else None)"

definition get_vptr :: "oaddr \<Rightarrow> objects \<Rightarrow> vtable option" where
  "get_vptr a s = (if block a \<in> live s then vptr s a else None)"

definition set_plate :: "oaddr \<Rightarrow> int \<Rightarrow> objects \<Rightarrow> objects option" where
  "set_plate a x s = (if block a \<in> live s then Some (s\<lparr>m_license_plate := (m_license_plate s)(a := Some x)\<rparr>) else None)"

definition set_seats :: "oaddr \<Rightarrow> int \<Rightarrow> objects \<Rightarrow> objects option" where
  "set_seats a x s = (if block a \<in> live s then Some (s\<lparr>m_numSeats := (m_numSeats s)(a := Some x)\<rparr>) else None)"

definition get_seats :: "oaddr \<Rightarrow> objects \<Rightarrow> int option" where
  "get_seats a s = (if block a \<in> live s then m_numSeats s a else None)"

definition get_pt1 :: "nat \<Rightarrow> objects \<Rightarrow> nat option" where
  "get_pt1 n s = (if n \<in> live s then m_pt1 s n else None)"

definition get_pt2 :: "nat \<Rightarrow> objects \<Rightarrow> nat option" where
  "get_pt2 n s = (if n \<in> live s then m_pt2 s n else None)"

text \<open>The answer of \<open>malloc\<close> is a block, \<open>None\<close> is NULL; \<open>free\<close> must get an allocated block.\<close>

definition allocate :: "nat option \<Rightarrow> objects \<Rightarrow> objects option" where
  "allocate answer s = (case answer of
     None \<Rightarrow> Some s
   | Some n \<Rightarrow> if n \<in> live s then None else Some (s\<lparr>live := insert n (live s)\<rparr>))"

definition release :: "nat \<Rightarrow> objects \<Rightarrow> objects option" where
  "release n s = (if n \<in> live s then Some (s\<lparr>live := live s - {n}\<rparr>) else None)"

section \<open>PublicTransport\<close>

definition PTCtor :: "oaddr \<Rightarrow> objects \<Rightarrow> objects option" where
  "PTCtor this s = do {
     s \<leftarrow> set_vptr this pt_vtable s;
     n \<leftarrow> int32 (s_count s + 1);
     s \<leftarrow> set_plate this n (s\<lparr>s_count := n\<rparr>);
     Some (say (PT_Ctor n) s)
   }"

definition PTGetID :: "oaddr \<Rightarrow> objects \<Rightarrow> int option" where
  "PTGetID this s = (if block this \<in> live s then m_license_plate s this else None)"

definition PTDtor :: "oaddr \<Rightarrow> objects \<Rightarrow> objects option" where
  "PTDtor this s = do {
     s \<leftarrow> set_vptr this pt_vtable s;
     n \<leftarrow> int32 (s_count s - 1);
     plate \<leftarrow> PTGetID this s;
     Some (say (PT_Dtor plate) (s\<lparr>s_count := n\<rparr>))
   }"

definition PTCctor :: "oaddr \<Rightarrow> oaddr \<Rightarrow> objects \<Rightarrow> objects option" where
  "PTCctor this other s = do {
     s \<leftarrow> set_vptr this pt_vtable s;
     n \<leftarrow> int32 (s_count s + 1);
     s \<leftarrow> set_plate this n (s\<lparr>s_count := n\<rparr>);
     Some (say (PT_CCtor n) s)
   }"

definition PTDisplay :: "oaddr \<Rightarrow> objects \<Rightarrow> objects option" where
  "PTDisplay this s = do { plate \<leftarrow> PTGetID this s; Some (say (PT_display plate) s) }"

section \<open>Minibus\<close>

definition MBCtor :: "oaddr \<Rightarrow> objects \<Rightarrow> objects option" where
  "MBCtor this s = do {
     s \<leftarrow> PTCtor this s;
     s \<leftarrow> set_vptr this mb_vtable s;
     s \<leftarrow> set_seats this 20 s;
     Some (say MB_Ctor s)
   }"

definition MBDtor :: "oaddr \<Rightarrow> objects \<Rightarrow> objects option" where
  "MBDtor this s = do { s \<leftarrow> set_vptr this mb_vtable s; PTDtor this (say MB_Dtor s) }"

definition MBCctor :: "oaddr \<Rightarrow> oaddr \<Rightarrow> objects \<Rightarrow> objects option" where
  "MBCctor this other s = do {
     s \<leftarrow> PTCctor this other s;
     s \<leftarrow> set_vptr this mb_vtable s;
     seats \<leftarrow> get_seats other s;
     s \<leftarrow> set_seats this seats s;
     Some (say MB_CCtor s)
   }"

definition MBDisplay :: "oaddr \<Rightarrow> objects \<Rightarrow> objects option" where
  "MBDisplay this s = do { plate \<leftarrow> PTGetID this s; seats \<leftarrow> get_seats this s; Some (say (MB_display plate seats) s) }"

definition MBWash :: "oaddr \<Rightarrow> int \<Rightarrow> objects \<Rightarrow> objects option" where
  "MBWash this minutes s = do { plate \<leftarrow> PTGetID this s; Some (say (MB_wash minutes plate) s) }"

section \<open>Taxi and SpecialTaxi\<close>

definition TACtor :: "oaddr \<Rightarrow> objects \<Rightarrow> objects option" where
  "TACtor this s = do { s \<leftarrow> PTCtor this s; s \<leftarrow> set_vptr this ta_vtable s; Some (say TA_Ctor s) }"

definition TADtor :: "oaddr \<Rightarrow> objects \<Rightarrow> objects option" where
  "TADtor this s = do { s \<leftarrow> set_vptr this ta_vtable s; PTDtor this (say TA_Dtor s) }"

definition TACctor :: "oaddr \<Rightarrow> oaddr \<Rightarrow> objects \<Rightarrow> objects option" where
  "TACctor this other s = do { s \<leftarrow> PTCctor this other s; s \<leftarrow> set_vptr this ta_vtable s; Some (say TA_CCtor s) }"

definition TADisplay :: "oaddr \<Rightarrow> objects \<Rightarrow> objects option" where
  "TADisplay this s = do { plate \<leftarrow> PTGetID this s; Some (say (TA_display plate) s) }"

definition STACtor :: "oaddr \<Rightarrow> objects \<Rightarrow> objects option" where
  "STACtor this s = do { s \<leftarrow> TACtor this s; s \<leftarrow> set_vptr this sta_vtable s; Some (say STA_Ctor s) }"

definition STADtor :: "oaddr \<Rightarrow> objects \<Rightarrow> objects option" where
  "STADtor this s = do { s \<leftarrow> set_vptr this sta_vtable s; TADtor this (say STA_Dtor s) }"

definition STACctor :: "oaddr \<Rightarrow> oaddr \<Rightarrow> objects \<Rightarrow> objects option" where
  "STACctor this other s = do { s \<leftarrow> TACctor this other s; s \<leftarrow> set_vptr this ta_vtable s; Some (say STA_CCtor s) }"

definition STADisplay :: "oaddr \<Rightarrow> objects \<Rightarrow> objects option" where
  "STADisplay this s = do { plate \<leftarrow> PTGetID this s; Some (say (STA_display plate) s) }"

section \<open>PublicConvoy\<close>

text \<open>A convoy is in a block of its own. The two answers of \<open>malloc\<close> are used without a test: the address
  NULL is no address of the store.\<close>

definition PCCtor :: "nat option \<Rightarrow> nat option \<Rightarrow> nat \<Rightarrow> objects \<Rightarrow> objects option" where
  "PCCtor answer1 answer2 this s = do {
     s \<leftarrow> PTCtor (At this) s;
     s \<leftarrow> set_vptr (At this) pc_vtable s;
     s \<leftarrow> allocate answer1 s;
     p \<leftarrow> answer1;
     s \<leftarrow> MBCtor (At p) (s\<lparr>m_pt1 := (m_pt1 s)(this := Some p)\<rparr>);
     s \<leftarrow> allocate answer2 s;
     q \<leftarrow> answer2;
     s \<leftarrow> TACtor (At q) (s\<lparr>m_pt2 := (m_pt2 s)(this := Some q)\<rparr>);
     s \<leftarrow> MBCtor (m_m this) s;
     TACtor (m_t this) s
   }"

definition PCCctor :: "nat option \<Rightarrow> nat option \<Rightarrow> nat \<Rightarrow> nat \<Rightarrow> objects \<Rightarrow> objects option" where
  "PCCctor answer1 answer2 this other s = do {
     s \<leftarrow> PTCtor (At this) s;
     s \<leftarrow> allocate answer1 s;
     p \<leftarrow> answer1;
     p' \<leftarrow> get_pt1 other s;
     s \<leftarrow> MBCctor (At p) (At p') (s\<lparr>m_pt1 := (m_pt1 s)(this := Some p)\<rparr>);
     s \<leftarrow> allocate answer2 s;
     q \<leftarrow> answer2;
     q' \<leftarrow> get_pt2 other s;
     s \<leftarrow> TACctor (At q) (At q') (s\<lparr>m_pt2 := (m_pt2 s)(this := Some q)\<rparr>);
     s \<leftarrow> set_vptr (At this) pc_vtable s;
     s \<leftarrow> MBCctor (m_m this) (m_m other) s;
     TACctor (m_t this) (m_t other) s
   }"

text \<open>A call through the table: the function of the class that the table belongs to. The tables of a convoy's
  members may again be those of convoys.\<close>

fun plain_dtor :: "vtable \<Rightarrow> oaddr \<Rightarrow> objects \<Rightarrow> objects option" where
  "plain_dtor pt_vtable this s = PTDtor this s"
| "plain_dtor mb_vtable this s = MBDtor this s"
| "plain_dtor ta_vtable this s = TADtor this s"
| "plain_dtor sta_vtable this s = STADtor this s"
| "plain_dtor pc_vtable this s = None"

partial_function (option) PCDtor :: "nat \<Rightarrow> objects \<Rightarrow> objects option" where
  "PCDtor this s = do {
     s \<leftarrow> set_vptr (At this) pc_vtable s;
     p \<leftarrow> get_pt1 this s;
     v \<leftarrow> get_vptr (At p) s;
     s \<leftarrow> (if v = pc_vtable then PCDtor p s else plain_dtor v (At p) s);
     s \<leftarrow> release p s;
     q \<leftarrow> get_pt2 this s;
     v \<leftarrow> get_vptr (At q) s;
     s \<leftarrow> (if v = pc_vtable then PCDtor q s else plain_dtor v (At q) s);
     s \<leftarrow> release q s;
     s \<leftarrow> TADtor (m_t this) s;
     s \<leftarrow> MBDtor (m_m this) s;
     PTDtor (At this) s
   }"

definition call_dtor :: "oaddr \<Rightarrow> objects \<Rightarrow> objects option" where
  "call_dtor this s = do { v \<leftarrow> get_vptr this s; if v = pc_vtable then PCDtor (block this) s else plain_dtor v this s }"

fun plain_display :: "vtable \<Rightarrow> oaddr \<Rightarrow> objects \<Rightarrow> objects option" where
  "plain_display pt_vtable this s = PTDisplay this s"
| "plain_display mb_vtable this s = MBDisplay this s"
| "plain_display ta_vtable this s = TADisplay this s"
| "plain_display sta_vtable this s = STADisplay this s"
| "plain_display pc_vtable this s = None"

partial_function (option) PCDisplay :: "nat \<Rightarrow> objects \<Rightarrow> objects option" where
  "PCDisplay this s = do {
     p \<leftarrow> get_pt1 this s;
     v \<leftarrow> get_vptr (At p) s;
     s \<leftarrow> (if v = pc_vtable then PCDisplay p s else plain_display v (At p) s);
     q \<leftarrow> get_pt2 this s;
     v \<leftarrow> get_vptr (At q) s;
     s \<leftarrow> (if v = pc_vtable then PCDisplay q s else plain_display v (At q) s);
     s \<leftarrow> MBDisplay (m_m this) s;
     TADisplay (m_t this) s
   }"

definition call_display :: "oaddr \<Rightarrow> objects \<Rightarrow> objects option" where
  "call_display this s = do { v \<leftarrow> get_vptr this s; if v = pc_vtable then PCDisplay (block this) s else plain_display v this s }"

text \<open>Only the table of a minibus has an entry for washing.\<close>

definition print_info_mn :: "oaddr \<Rightarrow> objects \<Rightarrow> objects option" where
  "print_info_mn m s = do { v \<leftarrow> get_vptr m s; if v = mb_vtable then MBWash m 3 s else None }"

definition print_count :: "objects \<Rightarrow> objects" where
  "print_count s = say (Count (s_count s)) s"

text \<open>\<open>m1\<close> and \<open>t_st\<close> are the blocks of local variables.\<close>

definition print_info_int :: "nat \<Rightarrow> int \<Rightarrow> oaddr \<Rightarrow> objects \<Rightarrow> objects option" where
  "print_info_int m1 i ret s = do {
     s \<leftarrow> MBCtor (At m1) s;
     s \<leftarrow> MBDisplay (At m1) (say Info_int s);
     s \<leftarrow> PTCctor ret (At m1) s;
     MBDtor (At m1) s
   }"

definition Taxi_Display :: "nat \<Rightarrow> oaddr \<Rightarrow> objects \<Rightarrow> objects option" where
  "Taxi_Display t_st other s = do {
     s \<leftarrow> TACctor (At t_st) other s;
     s \<leftarrow> TADisplay (At t_st) s;
     TADtor (At t_st) s
   }"

section \<open>The program\<close>

fun each :: "('a \<Rightarrow> objects \<Rightarrow> objects option) \<Rightarrow> 'a list \<Rightarrow> objects \<Rightarrow> objects option" where
  "each f [] s = Some s"
| "each f (x # xs) s = do { s \<leftarrow> f x s; each f xs s }"

text \<open>
  The local variables are the blocks 0 to 14 (the last two those of \<open>print_info_int\<close> and \<open>Taxi_Display\<close>), and
  \<open>mem i\<close> is the answer of the \<open>i\<close>th allocation. The four taxis of \<open>arr4\<close> are allocated at once; each has a block of its own here.
  A failed test of an allocation ends the program.
\<close>

definition transport_arrays :: "(nat \<Rightarrow> nat) \<Rightarrow> objects \<Rightarrow> objects option" where
  "transport_arrays mem s = do {
     s \<leftarrow> MBCtor (At 0) s;
     s \<leftarrow> print_info_mn (At 0) s;
     s \<leftarrow> print_info_int 13 3 (At 1) s;
     s \<leftarrow> PTDisplay (At 1) s;
     s \<leftarrow> PTDtor (At 1) s;
     let a0 = mem 0; s \<leftarrow> allocate (Some a0) s; s \<leftarrow> MBCtor (At a0) s;
     let a1 = mem 1; s \<leftarrow> allocate (Some a1) s; s \<leftarrow> TACtor (At a1) s;
     let a2 = mem 2; s \<leftarrow> allocate (Some a2) s; s \<leftarrow> MBCtor (At a2) s;
     s \<leftarrow> each (\<lambda>a. call_display (At a)) [a0, a1, a2] s;
     each (\<lambda>a s. do { s \<leftarrow> call_dtor (At a) s; release a s }) [a0, a1, a2] s
   }"

definition transport_locals :: "(nat \<Rightarrow> nat) \<Rightarrow> objects \<Rightarrow> objects option" where
  "transport_locals mem s = do {
     s \<leftarrow> MBCtor (At 5) s;
     s \<leftarrow> PTCctor (At 2) (At 5) s;
     s \<leftarrow> MBDtor (At 5) s;
     s \<leftarrow> TACtor (At 6) s;
     s \<leftarrow> PTCctor (At 3) (At 6) s;
     s \<leftarrow> TADtor (At 6) s;
     s \<leftarrow> PTCtor (At 4) s;
     s \<leftarrow> each (\<lambda>a. PTDisplay (At a)) [2, 3, 4] s;
     s \<leftarrow> call_display (At 2) s;
     s \<leftarrow> MBCtor (At 7) (print_count s);
     s \<leftarrow> each (\<lambda>a. MBCtor (At a)) [8, 9, 10, 11] (print_count s);
     let arr4 = [mem 3, mem 4, mem 5, mem 6];
     s \<leftarrow> each (\<lambda>a. allocate (Some a)) arr4 s;
     s \<leftarrow> each (\<lambda>a. TACtor (At a)) arr4 s;
     s \<leftarrow> each (\<lambda>a. call_dtor (At a)) (rev arr4) s;
     s \<leftarrow> each release arr4 s;
     s \<leftarrow> STACtor (At 12) (say (Number 2) (say (Number 2) s));
     Taxi_Display 14 (At 12) s
   }"

definition transport_convoys :: "(nat \<Rightarrow> nat) \<Rightarrow> objects \<Rightarrow> objects option" where
  "transport_convoys mem s = do {
     let ts1 = mem 7; s \<leftarrow> allocate (Some ts1) s; s \<leftarrow> PCCtor (Some (mem 8)) (Some (mem 9)) ts1 s;
     let ts2 = mem 10; s \<leftarrow> allocate (Some ts2) s; s \<leftarrow> PCCctor (Some (mem 11)) (Some (mem 12)) ts2 ts1 s;
     s \<leftarrow> call_display (At ts1) s;
     s \<leftarrow> call_display (At ts2) s;
     s \<leftarrow> call_dtor (At ts1) s;
     s \<leftarrow> release ts1 s;
     s \<leftarrow> call_display (At ts2) s;
     s \<leftarrow> call_dtor (At ts2) s;
     s \<leftarrow> release ts2 s;
     s \<leftarrow> STADtor (At 12) s;
     s \<leftarrow> each (\<lambda>a. MBDtor (At a)) [11, 10, 9, 8] s;
     s \<leftarrow> MBDtor (At 7) s;
     s \<leftarrow> each (\<lambda>a. PTDtor (At a)) [4, 3, 2] s;
     MBDtor (At 0) s
   }"

definition transport_start :: objects where
  "transport_start = \<lparr>s_count = 0, live = {0..14}, vptr = (\<lambda>_. None), m_license_plate = (\<lambda>_. None), m_numSeats = (\<lambda>_. None),
     m_pt1 = (\<lambda>_. None), m_pt2 = (\<lambda>_. None), printed = []\<rparr>"

definition transport_main :: "(nat \<Rightarrow> nat) \<Rightarrow> objects option" where
  "transport_main mem = do {
     s \<leftarrow> transport_arrays mem transport_start;
     s \<leftarrow> transport_locals mem s;
     transport_convoys mem s
   }"

section \<open>Objects live and die\<close>

lemmas transport_simps = PTCtor_def PTDtor_def PTCctor_def PTDisplay_def PTGetID_def MBCtor_def MBDtor_def MBCctor_def
  MBDisplay_def MBWash_def TACtor_def TADtor_def TACctor_def TADisplay_def STACtor_def STADtor_def STACctor_def STADisplay_def
  set_vptr_def get_vptr_def set_plate_def set_seats_def get_seats_def say_def allocate_def release_def get_pt1_def get_pt2_def
  print_info_mn_def print_info_int_def Taxi_Display_def print_count_def call_dtor_def call_display_def

text \<open>C39. A convoy and its copy share nothing. Construct a convoy and a copy of it, in blocks of their own, and
  destroy the original through its table of virtual functions. No access faults; every object is destroyed
  by the destructor of its own class; the copy can still be displayed, with plates of its own and the number of
  seats of the original; and after it is destroyed too, the counter is what it was and no block is left over.\<close>

theorem convoy_copy_independent:
  assumes "distinct [a, p, q, b, p', q']" "set [a, p, q, b, p', q'] \<inter> live s = {}" "s_count s = n" "0 \<le> n" "n + 10 < 2 ^ 31"
  shows "\<exists>s'. do {
      s \<leftarrow> allocate (Some a) s;
      s \<leftarrow> PCCtor (Some p) (Some q) a s;
      s \<leftarrow> allocate (Some b) s;
      s \<leftarrow> PCCctor (Some p') (Some q') b a s;
      s \<leftarrow> call_dtor (At a) s;
      s \<leftarrow> release a s;
      s \<leftarrow> call_display (At b) s;
      s \<leftarrow> call_dtor (At b) s;
      release b s } = Some s' \<and> s_count s' = n \<and> live s' = live s
    \<and> printed s' = printed s
      @ [PT_Ctor (n + 1), PT_Ctor (n + 2), MB_Ctor, PT_Ctor (n + 3), TA_Ctor, PT_Ctor (n + 4), MB_Ctor, PT_Ctor (n + 5), TA_Ctor]
      @ [PT_Ctor (n + 6), PT_CCtor (n + 7), MB_CCtor, PT_CCtor (n + 8), TA_CCtor, PT_CCtor (n + 9), MB_CCtor, PT_CCtor (n + 10), TA_CCtor]
      @ [MB_Dtor, PT_Dtor (n + 2), TA_Dtor, PT_Dtor (n + 3), TA_Dtor, PT_Dtor (n + 5), MB_Dtor, PT_Dtor (n + 4), PT_Dtor (n + 1)]
      @ [MB_display (n + 7) 20, TA_display (n + 8), MB_display (n + 9) 20, TA_display (n + 10)]
      @ [MB_Dtor, PT_Dtor (n + 7), TA_Dtor, PT_Dtor (n + 8), TA_Dtor, PT_Dtor (n + 10), MB_Dtor, PT_Dtor (n + 9), PT_Dtor (n + 6)]"
proof -
  have ne: "a \<noteq> p" "a \<noteq> q" "a \<noteq> b" "a \<noteq> p'" "a \<noteq> q'" "p \<noteq> q" "p \<noteq> b" "p \<noteq> p'" "p \<noteq> q'"
    "q \<noteq> b" "q \<noteq> p'" "q \<noteq> q'" "b \<noteq> p'" "b \<noteq> q'" "p' \<noteq> q'"
    and new: "a \<notin> live s" "p \<notin> live s" "q \<notin> live s" "b \<notin> live s" "p' \<notin> live s" "q' \<notin> live s"
    using assms(1,2) by simp_all
  show ?thesis using assms(4,5)
    by (simp add: transport_simps PCCtor_def PCCctor_def int32_def PCDtor.simps PCDisplay.simps insert_Diff_if
        ne ne [symmetric] new assms(3))
qed

theorem convoy_copy_independent_witness:
  "\<exists>s'. do {
      s \<leftarrow> allocate (Some 20) transport_start;
      s \<leftarrow> PCCtor (Some 21) (Some 22) 20 s;
      s \<leftarrow> allocate (Some 23) s;
      s \<leftarrow> PCCctor (Some 24) (Some 25) 23 20 s;
      s \<leftarrow> call_dtor (At 20) s;
      s \<leftarrow> release 20 s;
      s \<leftarrow> call_display (At 23) s;
      s \<leftarrow> call_dtor (At 23) s;
      release 23 s } = Some s' \<and> s_count s' = 0 \<and> live s' = live transport_start"
  using convoy_copy_independent [of 20 21 22 23 24 25 transport_start 0] by (auto simp: transport_start_def)

text \<open>The whole program ends with the counter at 0 and every allocated block freed.\<close>

declare PCDtor.simps [code] PCDisplay.simps [code]

lemma transport_main_balanced:
  "map_option (\<lambda>s. (s_count s, live s)) (transport_main (\<lambda>i. 15 + i)) = Some (0, {0..14})"
  by code_simp

text \<open>The plate is the number of objects, so two objects that exist together can have the same one, and do.\<close>

lemma plates_collide:
  "map_option (\<lambda>s. (m_license_plate s (At 1), m_license_plate s (At 2)))
     (do { s \<leftarrow> PTCtor (At 0) transport_start; s \<leftarrow> PTCtor (At 1) s; s \<leftarrow> PTDtor (At 0) s; PTCtor (At 2) s })
   = Some (Some 2, Some 2)"
  by code_simp

text \<open>The copy of a special taxi has the table of a taxi.\<close>

lemma STACctor_vptr:
  assumes "STACctor this other s = Some s'"
  shows "get_vptr this s' = Some ta_vtable"
  using assms by (auto simp: STACctor_def TACctor_def PTCctor_def transport_simps split: bind_splits if_splits)

text \<open>Without memory a convoy's constructor uses NULL.\<close>

lemma PCCtor_no_memory: "PCCtor None answer2 this s = None"
  by (auto simp: PCCtor_def allocate_def split: bind_splits)

end
