(* ===== verification/PollRing.thy ===== *)
theory PollRing
  imports SharedList
begin

text \<open>
  The ring of \<open>producers_consumers/ex3/ex3_1.c\<close>: the ring of \<open>ex3_2.c\<close> under one mutex, with one semaphore that
  counts its elements. A thread that finds the ring full or empty gives the mutex back and tries again.
  Taking and giving back the mutex and every call between them is a step.
\<close>

section \<open>The threads\<close>

datatype poll_enq_pc = P_first | P_unlock | P_lock | P_test | P_raise | P_enq | P_count | P_leave | P_done

datatype poll_deq_pc = C_first | C_unlock | C_lock | C_test | C_lower | C_deq | C_leave | C_done

record poll =
  pring :: fsq
  psem :: nat
  plock :: "holder option"
  pnext :: nat
  pout :: "int list"
  enqueuers :: "nat \<Rightarrow> poll_enq_pc"
  dequeuers :: "nat \<Rightarrow> poll_deq_pc"

definition poll_init :: poll where
  "poll_init = \<lparr>pring = the (FsqCreat True True 10), psem = 0, plock = None, pnext = 1, pout = [],
     enqueuers = (\<lambda>_. P_first), dequeuers = (\<lambda>_. C_first)\<rparr>"

abbreviation enq_at :: "nat \<Rightarrow> poll_enq_pc \<Rightarrow> poll \<Rightarrow> poll" where
  "enq_at p pc s \<equiv> s\<lparr>enqueuers := (enqueuers s)(p := pc)\<rparr>"

abbreviation deq_at :: "nat \<Rightarrow> poll_deq_pc \<Rightarrow> poll \<Rightarrow> poll" where
  "deq_at c pc s \<equiv> s\<lparr>dequeuers := (dequeuers s)(c := pc)\<rparr>"

definition ProducerFunc_poll :: "nat \<Rightarrow> poll \<Rightarrow> poll option" where
  "ProducerFunc_poll p s = (case enqueuers s p of
     P_first \<Rightarrow> if plock s = None then Some (enq_at p P_unlock (s\<lparr>plock := Some (Prod p)\<rparr>)) else None
   | P_unlock \<Rightarrow> Some (enq_at p P_lock (s\<lparr>plock := None\<rparr>))
   | P_lock \<Rightarrow> if plock s = None then Some (enq_at p P_test (s\<lparr>plock := Some (Prod p)\<rparr>)) else None
   | P_test \<Rightarrow> Some (enq_at p (if capacity (pring s) = psem s then P_unlock else P_raise) s)
   | P_raise \<Rightarrow> Some (enq_at p P_enq (s\<lparr>psem := psem s + 1\<rparr>))
   | P_enq \<Rightarrow> do { q \<leftarrow> FsqEnq (pring s) (int (pnext s)); Some (enq_at p P_count (s\<lparr>pring := q\<rparr>)) }
   | P_count \<Rightarrow> Some (enq_at p P_leave (s\<lparr>pnext := pnext s + 1\<rparr>))
   | P_leave \<Rightarrow> Some (enq_at p P_done (s\<lparr>plock := None\<rparr>))
   | P_done \<Rightarrow> None)"

text \<open>Lowering a semaphore that is 0 would block while the mutex is held: it has no step.\<close>

definition ConsumerFunc_poll :: "nat \<Rightarrow> poll \<Rightarrow> poll option" where
  "ConsumerFunc_poll c s = (case dequeuers s c of
     C_first \<Rightarrow> if plock s = None then Some (deq_at c C_unlock (s\<lparr>plock := Some (Cons c)\<rparr>)) else None
   | C_unlock \<Rightarrow> Some (deq_at c C_lock (s\<lparr>plock := None\<rparr>))
   | C_lock \<Rightarrow> if plock s = None then Some (deq_at c C_test (s\<lparr>plock := Some (Cons c)\<rparr>)) else None
   | C_test \<Rightarrow> Some (deq_at c (if 0 = psem s then C_unlock else C_lower) s)
   | C_lower \<Rightarrow> if 0 < psem s then Some (deq_at c C_deq (s\<lparr>psem := psem s - 1\<rparr>)) else None
   | C_deq \<Rightarrow> do { (q, x) \<leftarrow> FsqDeq (pring s); Some (deq_at c C_leave (s\<lparr>pring := q, pout := pout s @ [x]\<rparr>)) }
   | C_leave \<Rightarrow> Some (deq_at c C_done (s\<lparr>plock := None\<rparr>))
   | C_done \<Rightarrow> None)"

inductive poll_step :: "poll \<Rightarrow> poll \<Rightarrow> bool" where
  enq: "ProducerFunc_poll p s = Some s' \<Longrightarrow> poll_step s s'"
| deq: "ConsumerFunc_poll c s = Some s' \<Longrightarrow> poll_step s s'"

inductive_cases poll_stepE: "poll_step s s'"

section \<open>The ring\<close>

definition ring_holds :: "fsq \<Rightarrow> nat \<Rightarrow> nat \<Rightarrow> bool" where
  "ring_holds q e d \<longleftrightarrow> capacity q = 10 \<and> length (arr q) = 10 \<and> write_idx q = e mod 10 \<and> read_idx q = d mod 10
     \<and> d \<le> e \<and> e \<le> d + 10 \<and> (\<forall>k. d < k \<and> k \<le> e \<longrightarrow> arr q ! (k mod 10) = int k)"

lemma ring_holds_enq:
  assumes "ring_holds q e d" "e < d + 10"
  shows "\<exists>q'. FsqEnq q (int (e + 1)) = Some q' \<and> ring_holds q' (e + 1) d"
proof -
  have keep: "(arr q)[(e + 1) mod 10 := int (e + 1)] ! (k mod 10) = int k" if "d < k" "k \<le> e + 1" for k
    using assms that mod_window [of k "e + 1"] by (cases "k = e + 1") (auto simp: ring_holds_def)
  then show ?thesis using assms
    by (simp add: ring_holds_def FsqEnq_def enq_advance_def enq_store_def aset_def mod_Suc_eq)
qed

lemma ring_holds_deq:
  assumes "ring_holds q e d" "d < e"
  shows "\<exists>q'. FsqDeq q = Some (q', int (d + 1)) \<and> ring_holds q' e (d + 1)"
  using assms by (simp add: ring_holds_def FsqDeq_def deq_advance_def deq_load_def aget_def mod_Suc_eq)

section \<open>The invariant\<close>

definition enq_inside :: "poll_enq_pc \<Rightarrow> bool" where
  "enq_inside pc \<longleftrightarrow> pc \<notin> {P_first, P_lock, P_done}"

definition deq_inside :: "poll_deq_pc \<Rightarrow> bool" where
  "deq_inside pc \<longleftrightarrow> pc \<notin> {C_first, C_lock, C_done}"

definition mutex_ok :: "poll \<Rightarrow> bool" where
  "mutex_ok s \<longleftrightarrow> (\<forall>p. enq_inside (enqueuers s p) \<longleftrightarrow> plock s = Some (Prod p))
     \<and> (\<forall>c. deq_inside (dequeuers s c) \<longleftrightarrow> plock s = Some (Cons c))"

definition enq_now :: "poll \<Rightarrow> poll_enq_pc \<Rightarrow> bool" where
  "enq_now s pc \<longleftrightarrow> (case plock s of Some (Prod p) \<Rightarrow> enqueuers s p = pc | _ \<Rightarrow> False)"

definition deq_now :: "poll \<Rightarrow> poll_deq_pc \<Rightarrow> bool" where
  "deq_now s pc \<longleftrightarrow> (case plock s of Some (Cons c) \<Rightarrow> dequeuers s c = pc | _ \<Rightarrow> False)"

definition first_data :: "nat \<Rightarrow> int list" where
  "first_data d = map int [1..<Suc d]"

lemma first_data_Suc: "first_data (Suc d) = first_data d @ [int (Suc d)]"
  by (simp add: first_data_def)

definition poll_data :: "poll \<Rightarrow> nat \<Rightarrow> nat \<Rightarrow> bool" where
  "poll_data s e d \<longleftrightarrow> ring_holds (pring s) e d \<and> pout s = first_data d
     \<and> pnext s + of_bool (enq_now s P_count) = e + 1
     \<and> psem s + d + of_bool (deq_now s C_deq) = e + of_bool (enq_now s P_enq)
     \<and> (enq_now s P_raise \<or> enq_now s P_enq \<longrightarrow> e < d + 10)
     \<and> (deq_now s C_lower \<or> deq_now s C_deq \<longrightarrow> d < e)"

definition poll_inv :: "poll \<Rightarrow> bool" where
  "poll_inv s \<longleftrightarrow> mutex_ok s \<and> (\<exists>e d. poll_data s e d)"

lemma poll_inv_init: "poll_inv poll_init"
  by (auto simp: poll_inv_def poll_init_def mutex_ok_def enq_inside_def deq_inside_def poll_data_def ring_holds_def
      FsqCreat_def first_data_def enq_now_def deq_now_def intro!: exI [of _ 0])

lemma mutex_ok_enq:
  assumes "mutex_ok s" "enqueuers s' = (enqueuers s)(p := pc)" "dequeuers s' = dequeuers s"
    "enq_inside pc \<and> plock s' = Some (Prod p) \<and> (plock s = None \<or> plock s = Some (Prod p))
     \<or> \<not> enq_inside pc \<and> plock s' = None \<and> plock s = Some (Prod p)"
  shows "mutex_ok s'"
  using assms by (auto simp: mutex_ok_def)

lemma mutex_ok_deq:
  assumes "mutex_ok s" "dequeuers s' = (dequeuers s)(c := pc)" "enqueuers s' = enqueuers s"
    "deq_inside pc \<and> plock s' = Some (Cons c) \<and> (plock s = None \<or> plock s = Some (Cons c))
     \<or> \<not> deq_inside pc \<and> plock s' = None \<and> plock s = Some (Cons c)"
  shows "mutex_ok s'"
  using assms by (auto simp: mutex_ok_def)

lemma ProducerFunc_poll_data:
  assumes data: "poll_data s e d" and lock: "enq_inside (enqueuers s p) \<longleftrightarrow> plock s = Some (Prod p)"
    and step: "ProducerFunc_poll p s = Some s'"
  shows "\<exists>e d. poll_data s' e d"
proof -
  have cap: "capacity (pring s) = 10" "e \<le> d + 10" using data by (simp_all add: poll_data_def ring_holds_def)
  show ?thesis
  proof (cases "enqueuers s p")
    case P_first
    then have s': "s' = enq_at p P_unlock (s\<lparr>plock := Some (Prod p)\<rparr>)" "plock s = None"
      using step by (auto simp: ProducerFunc_poll_def split: if_splits)
    have "poll_data s' e d" using data P_first lock s'
      by (auto simp: poll_data_def enq_now_def deq_now_def enq_inside_def deq_inside_def)
    then show ?thesis by blast
  next
    case P_unlock
    then have s': "s' = enq_at p P_lock (s\<lparr>plock := None\<rparr>)"
      using step by (auto simp: ProducerFunc_poll_def split: if_splits)
    have "poll_data s' e d" using data P_unlock lock s'
      by (auto simp: poll_data_def enq_now_def deq_now_def enq_inside_def deq_inside_def)
    then show ?thesis by blast
  next
    case P_lock
    then have s': "s' = enq_at p P_test (s\<lparr>plock := Some (Prod p)\<rparr>)" "plock s = None"
      using step by (auto simp: ProducerFunc_poll_def split: if_splits)
    have "poll_data s' e d" using data P_lock lock s'
      by (auto simp: poll_data_def enq_now_def deq_now_def enq_inside_def deq_inside_def)
    then show ?thesis by blast
  next
    case P_raise
    then have s': "s' = enq_at p P_enq (s\<lparr>psem := psem s + 1\<rparr>)"
      using step by (auto simp: ProducerFunc_poll_def split: if_splits)
    have "poll_data s' e d" using data P_raise lock s'
      by (auto simp: poll_data_def enq_now_def deq_now_def enq_inside_def deq_inside_def)
    then show ?thesis by blast
  next
    case P_count
    then have s': "s' = enq_at p P_leave (s\<lparr>pnext := pnext s + 1\<rparr>)"
      using step by (auto simp: ProducerFunc_poll_def split: if_splits)
    have "poll_data s' e d" using data P_count lock s'
      by (auto simp: poll_data_def enq_now_def deq_now_def enq_inside_def deq_inside_def)
    then show ?thesis by blast
  next
    case P_leave
    then have s': "s' = enq_at p P_done (s\<lparr>plock := None\<rparr>)"
      using step by (auto simp: ProducerFunc_poll_def split: if_splits)
    have "poll_data s' e d" using data P_leave lock s'
      by (auto simp: poll_data_def enq_now_def deq_now_def enq_inside_def deq_inside_def)
    then show ?thesis by blast
  next
    case P_test
    then have s': "s' = enq_at p (if psem s = 10 then P_unlock else P_raise) s"
      using step P_test cap by (cases "psem s = 10") (simp_all add: ProducerFunc_poll_def)
    have "poll_data s' e d" using data P_test lock s' cap by (cases "psem s = 10") (auto simp: poll_data_def enq_now_def deq_now_def enq_inside_def)
    then show ?thesis by blast
  next
    case P_enq
    then have l: "plock s = Some (Prod p)" using lock by (simp add: enq_inside_def)
    then have "pnext s = e + 1" "e < d + 10" "ring_holds (pring s) e d"
      using data P_enq by (auto simp: poll_data_def enq_now_def)
    then obtain q where q: "FsqEnq (pring s) (int (pnext s)) = Some q" "ring_holds q (e + 1) d"
      using ring_holds_enq [of "pring s" e d] by auto
    then have "s' = enq_at p P_count (s\<lparr>pring := q\<rparr>)" using step P_enq by (simp add: ProducerFunc_poll_def)
    then have "poll_data s' (e + 1) d" using data P_enq l q(2) by (auto simp: poll_data_def enq_now_def deq_now_def)
    then show ?thesis by blast
  qed (use step in \<open>simp add: ProducerFunc_poll_def\<close>)
qed

lemma ProducerFunc_poll_inv:
  assumes inv: "poll_inv s" and step: "ProducerFunc_poll p s = Some s'"
  shows "poll_inv s'"
proof -
  obtain e d where ok: "mutex_ok s" and data: "poll_data s e d" using inv by (auto simp: poll_inv_def)
  have lock: "enq_inside (enqueuers s p) \<longleftrightarrow> plock s = Some (Prod p)" using ok by (simp add: mutex_ok_def)
  have "mutex_ok s'"
    using step lock
    by (intro mutex_ok_enq [OF ok, of s' p "enqueuers s' p"])
      (auto simp: ProducerFunc_poll_def enq_inside_def split: poll_enq_pc.splits if_splits bind_splits)
  then show ?thesis using ProducerFunc_poll_data [OF data lock step] by (simp add: poll_inv_def)
qed

lemma ConsumerFunc_poll_data:
  assumes data: "poll_data s e d" and lock: "deq_inside (dequeuers s c) \<longleftrightarrow> plock s = Some (Cons c)"
    and step: "ConsumerFunc_poll c s = Some s'"
  shows "\<exists>e d. poll_data s' e d"
proof -
  have cap: "capacity (pring s) = 10" "e \<le> d + 10" using data by (simp_all add: poll_data_def ring_holds_def)
  show ?thesis
  proof (cases "dequeuers s c")
    case C_first
    then have s': "s' = deq_at c C_unlock (s\<lparr>plock := Some (Cons c)\<rparr>)" "plock s = None"
      using step by (auto simp: ConsumerFunc_poll_def split: if_splits)
    have "poll_data s' e d" using data C_first lock s'
      by (auto simp: poll_data_def enq_now_def deq_now_def enq_inside_def deq_inside_def)
    then show ?thesis by blast
  next
    case C_unlock
    then have s': "s' = deq_at c C_lock (s\<lparr>plock := None\<rparr>)"
      using step by (auto simp: ConsumerFunc_poll_def split: if_splits)
    have "poll_data s' e d" using data C_unlock lock s'
      by (auto simp: poll_data_def enq_now_def deq_now_def enq_inside_def deq_inside_def)
    then show ?thesis by blast
  next
    case C_lock
    then have s': "s' = deq_at c C_test (s\<lparr>plock := Some (Cons c)\<rparr>)" "plock s = None"
      using step by (auto simp: ConsumerFunc_poll_def split: if_splits)
    have "poll_data s' e d" using data C_lock lock s'
      by (auto simp: poll_data_def enq_now_def deq_now_def enq_inside_def deq_inside_def)
    then show ?thesis by blast
  next
    case C_lower
    then have s': "s' = deq_at c C_deq (s\<lparr>psem := psem s - 1\<rparr>)" "0 < psem s"
      using step by (auto simp: ConsumerFunc_poll_def split: if_splits)
    have "poll_data s' e d" using data C_lower lock s'
      by (auto simp: poll_data_def enq_now_def deq_now_def enq_inside_def deq_inside_def)
    then show ?thesis by blast
  next
    case C_leave
    then have s': "s' = deq_at c C_done (s\<lparr>plock := None\<rparr>)"
      using step by (auto simp: ConsumerFunc_poll_def split: if_splits)
    have "poll_data s' e d" using data C_leave lock s'
      by (auto simp: poll_data_def enq_now_def deq_now_def enq_inside_def deq_inside_def)
    then show ?thesis by blast
  next
    case C_test
    then have s': "s' = deq_at c (if psem s = 0 then C_unlock else C_lower) s"
      using step C_test by (cases "psem s = 0") (simp_all add: ConsumerFunc_poll_def)
    have "poll_data s' e d" using data C_test lock s' by (cases "psem s = 0") (auto simp: poll_data_def enq_now_def deq_now_def deq_inside_def)
    then show ?thesis by blast
  next
    case C_deq
    then have l: "plock s = Some (Cons c)" using lock by (simp add: deq_inside_def)
    then have "d < e" "ring_holds (pring s) e d" using data C_deq by (auto simp: poll_data_def deq_now_def)
    then obtain q where q: "FsqDeq (pring s) = Some (q, int (d + 1))" "ring_holds q e (d + 1)"
      using ring_holds_deq [of "pring s" e d] by auto
    then have "s' = deq_at c C_leave (s\<lparr>pring := q, pout := pout s @ [int (d + 1)]\<rparr>)"
      using step C_deq by (simp add: ConsumerFunc_poll_def)
    then have "poll_data s' e (d + 1)" using data C_deq l q(2)
      by (auto simp: poll_data_def enq_now_def deq_now_def first_data_Suc)
    then show ?thesis by blast
  qed (use step in \<open>simp add: ConsumerFunc_poll_def\<close>)
qed

lemma ConsumerFunc_poll_inv:
  assumes inv: "poll_inv s" and step: "ConsumerFunc_poll c s = Some s'"
  shows "poll_inv s'"
proof -
  obtain e d where ok: "mutex_ok s" and data: "poll_data s e d" using inv by (auto simp: poll_inv_def)
  have lock: "deq_inside (dequeuers s c) \<longleftrightarrow> plock s = Some (Cons c)" using ok by (simp add: mutex_ok_def)
  have "mutex_ok s'"
    using step lock
    by (intro mutex_ok_deq [OF ok, of s' c "dequeuers s' c"])
      (auto simp: ConsumerFunc_poll_def deq_inside_def split: poll_deq_pc.splits if_splits bind_splits)
  then show ?thesis using ConsumerFunc_poll_data [OF data lock step] by (simp add: poll_inv_def)
qed

lemma poll_reachable: "poll_step\<^sup>*\<^sup>* poll_init s \<Longrightarrow> poll_inv s"
  by (induction rule: rtranclp_induct) (auto simp: poll_inv_init elim!: poll_stepE intro: ProducerFunc_poll_inv ConsumerFunc_poll_inv)

text \<open>In every interleaving the data come out in the order 1, 2, 3 and so on, the ring never holds more
  than its ten cells, and the thread that has the mutex always has a next step: it neither faults nor blocks.\<close>

lemma poll_fifo:
  assumes "poll_step\<^sup>*\<^sup>* poll_init s"
  shows "pout s = map int [1..<Suc (length (pout s))]"
    and "length (pout s) \<le> pnext s" and "pnext s \<le> length (pout s) + 11"
    and "plock s = Some (Prod p) \<Longrightarrow> ProducerFunc_poll p s \<noteq> None"
    and "plock s = Some (Cons c) \<Longrightarrow> ConsumerFunc_poll c s \<noteq> None"
proof -
  obtain e d where ok: "mutex_ok s" and data: "poll_data s e d" using poll_reachable [OF assms] by (auto simp: poll_inv_def)
  have d: "length (pout s) = d" "pout s = map int [1..<Suc d]" using data by (simp_all add: poll_data_def first_data_def)
  then show "pout s = map int [1..<Suc (length (pout s))]" by simp
  have ring: "d \<le> e" "e \<le> d + 10" "ring_holds (pring s) e d" using data by (simp_all add: poll_data_def ring_holds_def)
  show "length (pout s) \<le> pnext s" "pnext s \<le> length (pout s) + 11"
    using data ring(1,2) d(1) by (auto simp: poll_data_def of_bool_def split: if_splits)
  show "ProducerFunc_poll p s \<noteq> None" if "plock s = Some (Prod p)"
  proof -
    have "enq_inside (enqueuers s p)" using ok that by (simp add: mutex_ok_def)
    moreover have "enqueuers s p = P_enq \<longrightarrow> pnext s = e + 1 \<and> e < d + 10"
      using data that by (auto simp: poll_data_def enq_now_def)
    ultimately show ?thesis using ring_holds_enq [OF ring(3)]
      by (cases "enqueuers s p") (auto simp: ProducerFunc_poll_def enq_inside_def)
  qed
  show "ConsumerFunc_poll c s \<noteq> None" if "plock s = Some (Cons c)"
  proof -
    have "deq_inside (dequeuers s c)" using ok that by (simp add: mutex_ok_def)
    moreover have "dequeuers s c \<in> {C_lower, C_deq} \<longrightarrow> d < e" using data that by (auto simp: poll_data_def deq_now_def)
    moreover have "dequeuers s c = C_lower \<longrightarrow> psem s + d = e" using data that by (auto simp: poll_data_def enq_now_def deq_now_def)
    ultimately show ?thesis using ring_holds_deq [OF ring(3)]
      by (cases "dequeuers s c") (auto simp: ConsumerFunc_poll_def deq_inside_def)
  qed
qed

end
