(* ===== verification/TextExercises.thy ===== *)
theory TextExercises
  imports Strings "HOL-Library.Signed_Division"
begin

text \<open>
  More of the exercises on text: \<open>RemoveExtraWS\<close> and \<open>SevenBoom\<close> (\<open>c/ws2/string.c\<close>), the copy of the
  environment in lower case (\<open>c/ws3/ws3.c\<close>) and the conversion of hexadecimal text (\<open>c/ws1/ws1.c\<close>). A
  pointer that may leave its buffer at the front is an integer.
\<close>

section \<open>Removing blanks\<close>

definition char_get :: "string \<Rightarrow> int \<Rightarrow> char option" where
  "char_get s i = (if 0 \<le> i then aget s (nat i) else None)"

definition blank :: "char \<Rightarrow> bool" where
  "blank c \<longleftrightarrow> c = CHR '' '' \<or> c = CHR 0x09"

partial_function (option) count_spaces :: "string \<Rightarrow> nat \<Rightarrow> nat \<Rightarrow> nat option" where
  "count_spaces s tmp_c cnt = do {
     c \<leftarrow> aget s tmp_c;
     if c = CHR '' '' then count_spaces s (tmp_c + 1) (cnt + 1) else Some cnt
   }"

partial_function (option) shift_left :: "string \<Rightarrow> nat \<Rightarrow> nat \<Rightarrow> (string \<times> nat) option" where
  "shift_left s tmp_c cnt = do {
     c \<leftarrow> aget s (tmp_c + cnt);
     if c \<noteq> NUL then do { s \<leftarrow> aset s tmp_c c; shift_left s (tmp_c + 1) cnt } else Some (s, tmp_c)
   }"

partial_function (option) clear_rest :: "string \<Rightarrow> nat \<Rightarrow> string option" where
  "clear_rest s tmp_c = do {
     c \<leftarrow> aget s tmp_c;
     if c \<noteq> NUL then do { s \<leftarrow> aset s tmp_c NUL; clear_rest s (tmp_c + 1) } else Some s
   }"

partial_function (option) within_Space_remove :: "string \<Rightarrow> nat \<Rightarrow> string option" where
  "within_Space_remove s str = do {
     c \<leftarrow> aget s str;
     if c = NUL then Some s
     else if blank c then do {
       cnt \<leftarrow> count_spaces s (str + 1) 0;
       (s, tmp_c) \<leftarrow> shift_left s (str + 1) cnt;
       s \<leftarrow> clear_rest s tmp_c;
       within_Space_remove s (str + 2)
     }
     else within_Space_remove s (str + 1)
   }"

partial_function (option) skip_front :: "string \<Rightarrow> int \<Rightarrow> int \<Rightarrow> int option" where
  "skip_front s str str_end =
     (if str < str_end then do { c \<leftarrow> char_get s str; if blank c then skip_front s (str + 1) str_end else Some str }
      else Some str)"

partial_function (option) skip_back :: "string \<Rightarrow> int \<Rightarrow> int option" where
  "skip_back s str_end = do { c \<leftarrow> char_get s str_end; if blank c then skip_back s (str_end - 1) else Some str_end }"

text \<open>The result is the changed buffer and the pointer, \<open>None\<close> for NULL.\<close>

definition RemoveExtraWS :: "string \<Rightarrow> nat \<Rightarrow> (string \<times> nat option) option" where
  "RemoveExtraWS s str = do {
     n \<leftarrow> Strlen s str;
     let str_end = int str + int n - 1;
     str \<leftarrow> skip_front s (int str) str_end;
     str_end \<leftarrow> skip_back s str_end;
     if str_end \<le> str then Some (s, None)
     else do {
       s \<leftarrow> aset s (nat (str_end + 1)) NUL;
       s \<leftarrow> within_Space_remove s (nat str);
       Some (s, Some (nat str))
     }
   }"

text \<open>What it makes of a text: after a blank the spaces go, and the next character stays whatever it is.\<close>

function squeeze :: "string \<Rightarrow> string" where
  "squeeze w = (case w of [] \<Rightarrow> []
     | c # cs \<Rightarrow> if blank c then c # (case dropWhile (\<lambda>x. x = CHR '' '') cs of [] \<Rightarrow> [] | x # xs \<Rightarrow> x # squeeze xs) else c # squeeze cs)"
  by auto
termination
proof (relation "measure length")
  fix w c cs x xs assume "w = c # cs" "dropWhile (\<lambda>x. x = CHR '' '') cs = x # xs"
  then show "(xs, w) \<in> measure length"
    using length_dropWhile_le [of "\<lambda>x. x = CHR '' ''" cs] by simp
qed auto

declare squeeze.simps [simp del]

lemma aget_mid: "aget (xs @ y # ys) (length xs) = Some y"
  by (simp add: aget_def)

lemma aset_mid: "aset (xs @ y # ys) (length xs) z = Some (xs @ z # ys)"
  by (simp add: aset_def)

lemma count_spaces_eq:
  "\<forall>x \<in> set A. x = CHR '' '' \<Longrightarrow> y \<noteq> CHR '' '' \<Longrightarrow> count_spaces (P @ A @ y # S) (length P) n = Some (n + length A)"
proof (induction A arbitrary: P n)
  case Nil
  then show ?case by (subst count_spaces.simps) (simp add: aget_mid)
next
  case (Cons x A)
  then show ?case using Cons.IH [of "P @ [x]" "Suc n"] by (subst count_spaces.simps) (simp add: aget_mid)
qed

lemma shift_left_eq:
  "NUL \<notin> set r \<Longrightarrow> shift_left (P @ A @ r @ NUL # S) (length P) (length A)
    = Some (P @ r @ drop (length r) (A @ r) @ NUL # S, length P + length r)"
proof (induction r arbitrary: P A)
  case Nil
  have "aget ((P @ A) @ NUL # S) (length (P @ A)) = Some NUL" by (rule aget_mid)
  then show ?case by (subst shift_left.simps) simp
next
  case (Cons x r)
  have get: "aget ((P @ A) @ x # r @ NUL # S) (length (P @ A)) = Some x" by (rule aget_mid)
  have x: "x \<noteq> NUL" "NUL \<notin> set r" using Cons.prems by auto
  show ?case
  proof (cases A)
    case Nil
    then show ?thesis using get x Cons.IH [OF x(2), of "P @ [x]" "[]"] by (subst shift_left.simps) (simp add: aset_mid)
  next
    case (Cons a B)
    then have "shift_left (P @ A @ (x # r) @ NUL # S) (length P) (length A)
        = shift_left ((P @ [x]) @ (B @ [x]) @ r @ NUL # S) (length (P @ [x])) (length (B @ [x]))"
      using get x by (subst shift_left.simps) (simp add: aset_mid)
    then show ?thesis using Cons.IH [OF x(2), of "P @ [x]" "B @ [x]"] Cons by simp
  qed
qed

lemma clear_rest_eq:
  "NUL \<notin> set X \<Longrightarrow> clear_rest (P @ X @ NUL # S) (length P) = Some (P @ replicate (length X) NUL @ NUL # S)"
proof (induction X arbitrary: P)
  case Nil
  then show ?case by (subst clear_rest.simps) (simp add: aget_mid)
next
  case (Cons x X)
  then show ?case using Cons.IH [of "P @ [NUL]"] by (subst clear_rest.simps) (auto simp: aget_mid aset_mid)
qed

lemma within_Space_remove_eq:
  "NUL \<notin> set w \<Longrightarrow> w = [] \<or> \<not> blank (last w) \<Longrightarrow>
   \<exists>n. within_Space_remove (P @ w @ NUL # S) (length P) = Some (P @ squeeze w @ NUL # replicate n NUL @ S)"
proof (induction w arbitrary: P S rule: squeeze.induct)
  case (1 w)
  show ?case
  proof (cases w)
    case Nil
    then show ?thesis by (subst within_Space_remove.simps) (simp add: aget_mid squeeze.simps exI [of _ 0])
  next
    case w: (Cons c cs)
    have c: "c \<noteq> NUL" "NUL \<notin> set cs" using "1.prems"(1) w by auto
    show ?thesis
    proof (cases "blank c")
      case False
      then have "within_Space_remove (P @ w @ NUL # S) (length P) = within_Space_remove ((P @ [c]) @ cs @ NUL # S) (length (P @ [c]))"
        using c w by (subst within_Space_remove.simps) (simp add: aget_mid)
      moreover have "squeeze w = c # squeeze cs" using False w by (subst squeeze.simps) simp
      moreover have last: "cs = [] \<or> \<not> blank (last cs)" using "1.prems"(2) w by (cases cs) simp_all
      obtain n where "within_Space_remove ((P @ [c]) @ cs @ NUL # S) (length (P @ [c]))
          = Some ((P @ [c]) @ squeeze cs @ NUL # replicate n NUL @ S)"
        using "1.IH"(2) [OF w False c(2) last, of "P @ [c]" S] by blast
      ultimately show ?thesis by (intro exI [of _ n]) simp
    next
      case True
      define A r where "A = takeWhile (\<lambda>x. x = CHR '' '') cs" and "r = dropWhile (\<lambda>x. x = CHR '' '') cs"
      have cs: "cs = A @ r" by (simp add: A_def r_def)
      have A: "\<forall>x \<in> set A. x = CHR '' ''" by (auto simp: A_def dest: set_takeWhileD)
      have "cs \<noteq> []" using "1.prems"(2) w True by auto
      then have last: "\<not> blank (last cs)" using "1.prems"(2) w by simp
      have "r \<noteq> []"
      proof
        assume "r = []"
        then have "last cs \<in> set A" using cs \<open>cs \<noteq> []\<close> by (metis append_Nil2 last_in_set)
        then show False using A last by (simp add: blank_def)
      qed
      then obtain x xs where r: "r = x # xs" by (cases r) auto
      have "x \<noteq> CHR '' ''" using hd_dropWhile [of "\<lambda>x. x = CHR '' ''" cs] r by (simp only: r_def [symmetric]) simp
      moreover have "NUL \<notin> set r" using c(2) unfolding cs by simp
      ultimately have x: "x \<noteq> CHR '' ''" "x \<noteq> NUL" "NUL \<notin> set xs" "NUL \<notin> set r" using r by auto
      have xs: "xs = [] \<or> \<not> blank (last xs)" using last unfolding cs r by (cases xs) simp_all
      have step1: "count_spaces (P @ w @ NUL # S) (length P + 1) 0 = Some (length A)"
        using count_spaces_eq [OF A x(1), of "P @ [c]" "xs @ NUL # S" 0] by (simp add: w cs r)
      have step2: "shift_left (P @ w @ NUL # S) (length P + 1) (length A)
          = Some ((P @ [c]) @ r @ drop (length r) (A @ r) @ NUL # S, length P + 1 + length r)"
        using shift_left_eq [OF x(4), of "P @ [c]" A S] by (simp add: w cs)
      have "NUL \<notin> set (drop (length r) (A @ r))" using c(2) cs set_drop_subset by (metis in_mono)
      from clear_rest_eq [OF this, of "P @ c # r" S]
      have step3: "clear_rest ((P @ [c]) @ r @ drop (length r) (A @ r) @ NUL # S) (length P + 1 + length r)
          = Some ((P @ [c, x]) @ xs @ NUL # replicate (length A) NUL @ S)"
        by (simp add: r replicate_app_Cons_same)
      have "within_Space_remove (P @ w @ NUL # S) (length P)
          = within_Space_remove ((P @ [c, x]) @ xs @ NUL # replicate (length A) NUL @ S) (length (P @ [c, x]))"
        using c(1) True step1 step2 step3 by (subst within_Space_remove.simps) (simp add: w aget_mid)
      moreover have "squeeze w = c # x # squeeze xs" using True w r unfolding r_def by (subst squeeze.simps) simp
      moreover obtain n where "within_Space_remove ((P @ [c, x]) @ xs @ NUL # replicate (length A) NUL @ S) (length (P @ [c, x]))
          = Some ((P @ [c, x]) @ squeeze xs @ NUL # replicate n NUL @ replicate (length A) NUL @ S)"
        using "1.IH"(1) [OF w True r [unfolded r_def] x(3) xs, of "P @ [c, x]" "replicate (length A) NUL @ S"] by blast
      ultimately show ?thesis by (intro exI [of _ "n + length A"]) (simp add: replicate_add)
    qed
  qed
qed

lemma squeeze_cases:
  "squeeze [] = []"
  "\<not> blank c \<Longrightarrow> squeeze (c # cs) = c # squeeze cs"
  "blank c \<Longrightarrow> dropWhile (\<lambda>x. x = CHR '' '') cs = [] \<Longrightarrow> squeeze (c # cs) = [c]"
  "blank c \<Longrightarrow> dropWhile (\<lambda>x. x = CHR '' '') cs = x # xs \<Longrightarrow> squeeze (c # cs) = c # x # squeeze xs"
  by (subst squeeze.simps, simp only: list.case if_True if_False)+

lemma set_squeeze: "set (squeeze w) \<subseteq> set w"
proof (induction w rule: squeeze.induct)
  case (1 w)
  show ?case
  proof (cases w)
    case (Cons c cs)
    have d: "set (dropWhile (\<lambda>x. x = CHR '' '') cs) \<subseteq> set cs" using set_dropWhileD by fast
    show ?thesis
    proof (cases "blank c")
      case True
      show ?thesis
      proof (cases "dropWhile (\<lambda>x. x = CHR '' '') cs")
        case Nil
        then show ?thesis using squeeze_cases(3) [OF True Nil] Cons by simp
      next
        case (Cons x xs)
        then show ?thesis using "1.IH"(1) [OF \<open>w = c # cs\<close> True Cons] d \<open>w = c # cs\<close> squeeze_cases(4) [OF True Cons]
          by auto
      qed
    next
      case False
      then show ?thesis using "1.IH"(2) [OF Cons False] squeeze_cases(2) [OF False] Cons by auto
    qed
  qed (simp add: squeeze_cases)
qed

lemma skip_front_eq:
  "\<forall>x \<in> set A. blank x \<Longrightarrow> \<not> blank y \<Longrightarrow> int (length P + length A) < e
   \<Longrightarrow> skip_front (P @ A @ y # S) (int (length P)) e = Some (int (length P + length A))"
proof (induction A arbitrary: P)
  case Nil
  then show ?case by (subst skip_front.simps) (simp add: char_get_def aget_mid)
next
  case (Cons x A)
  then show ?case using Cons.IH [of "P @ [x]"]
    by (subst skip_front.simps) (simp add: char_get_def aget_mid add.commute)
qed

lemma skip_back_eq:
  "\<forall>x \<in> set B. blank x \<Longrightarrow> \<not> blank y \<Longrightarrow> skip_back (P @ y # B @ S) (int (length P + length B)) = Some (int (length P))"
proof (induction B arbitrary: S rule: rev_induct)
  case Nil
  then show ?case by (subst skip_back.simps) (simp add: char_get_def aget_mid)
next
  case (snoc x B)
  have "char_get (P @ y # (B @ [x]) @ S) (int (length P + length (B @ [x]))) = Some x"
    using aget_mid [of "P @ y # B" x S] by (simp add: char_get_def nat_add_distrib)
  then have "skip_back (P @ y # (B @ [x]) @ S) (int (length P + length (B @ [x]))) = skip_back (P @ y # B @ [x] @ S) (int (length P + length B))"
    using snoc.prems by (subst skip_back.simps) simp
  then show ?case using snoc by simp
qed

lemma Strlen_mid: "NUL \<notin> set w \<Longrightarrow> Strlen (P @ w @ NUL # S) (length P) = Some (length w)"
  by (rule Strlen_spec) (simp add: str_at_def)

text \<open>\<open>RemoveExtraWS\<close>, on a text whose part between the outer blanks has at least two characters, never
  leaves the buffer, returns the place where that part begins, and leaves there the string in which the
  spaces behind a blank are gone; what is before it in the buffer is as it was.\<close>

lemma RemoveExtraWS_correct:
  assumes "\<forall>x \<in> set a. blank x" "\<forall>x \<in> set b. blank x" "NUL \<notin> set w" "2 \<le> length w" "\<not> blank (hd w)" "\<not> blank (last w)"
  shows "\<exists>s. RemoveExtraWS (P @ (a @ w @ b) @ NUL # S) (length P) = Some (s, Some (length (P @ a)))
    \<and> str_at s (length (P @ a)) (squeeze w) \<and> take (length (P @ a)) s = P @ a"
proof -
  have "\<not> blank NUL" by (simp add: blank_def NUL_def)
  then have ab: "NUL \<notin> set a" "NUL \<notin> set b" using assms(1,2) by blast+
  obtain y v where w: "w = y # v" using assms(4) by (cases w) auto
  obtain u z where w': "w = u @ [z]" using assms(4) by (cases w rule: rev_cases) auto
  have len: "Strlen (P @ (a @ w @ b) @ NUL # S) (length P) = Some (length (a @ w @ b))"
    using assms(3) ab by (intro Strlen_mid) simp
  have front: "skip_front (P @ (a @ w @ b) @ NUL # S) (int (length P)) (int (length P) + int (length (a @ w @ b)) - 1)
      = Some (int (length (P @ a)))"
    using skip_front_eq [OF assms(1), of y P _ "v @ b @ NUL # S"] assms(4,5) w by simp
  have "int (length P) + int (length (a @ w @ b)) - 1 = int (length (P @ a @ u) + length b)" by (simp add: w')
  then have behind: "skip_back (P @ (a @ w @ b) @ NUL # S) (int (length P) + int (length (a @ w @ b)) - 1) = Some (int (length (P @ a @ u)))"
    using skip_back_eq [OF assms(2), of z "P @ a @ u" "NUL # S"] assms(6) w' by (simp add: add.assoc)
  have u: "length u \<noteq> 0" using assms(4) w' by auto
  obtain r R where r: "b @ NUL # S = r # R" by (cases b) auto
  have stored: "aset (P @ (a @ w @ b) @ NUL # S) (nat (int (length (P @ a @ u)) + 1)) NUL = Some ((P @ a) @ w @ NUL # R)"
    using aset_mid [of "P @ a @ w" r R NUL] r by (simp add: w' nat_add_distrib)
  obtain n where n: "within_Space_remove ((P @ a) @ w @ NUL # R) (length (P @ a)) = Some ((P @ a) @ squeeze w @ NUL # replicate n NUL @ R)"
    using within_Space_remove_eq [OF assms(3), of "P @ a" R] assms(6) by blast
  have "NUL \<notin> set (squeeze w)" using set_squeeze [of w] assms(3) by blast
  then have "str_at ((P @ a) @ squeeze w @ NUL # replicate n NUL @ R) (length (P @ a)) (squeeze w)" by (simp add: str_at_def)
  moreover have "RemoveExtraWS (P @ (a @ w @ b) @ NUL # S) (length P) = Some ((P @ a) @ squeeze w @ NUL # replicate n NUL @ R, Some (length (P @ a)))"
    using len front behind stored n u unfolding RemoveExtraWS_def by (simp add: Let_def nat_add_distrib)
  ultimately show ?thesis by (intro exI [of _ "(P @ a) @ squeeze w @ NUL # replicate n NUL @ R"]) simp
qed

lemma RemoveExtraWS_example:
  "\<exists>s. RemoveExtraWS (''  a  b	c '' @ [NUL]) 0 = Some (s, Some 2) \<and> str_at s 2 (''a b	c'')"
proof -
  have "squeeze ''a  b	c'' = ''a b	c''" by (simp add: squeeze_cases blank_def)
  then show ?thesis
    using RemoveExtraWS_correct [of "''  ''" "'' ''" "''a  b	c''" "[]" "[]"] by (auto simp: blank_def NUL_def numeral_2_eq_2)
qed

text \<open>A text of one character counts as empty, and the empty text is read before its first character.\<close>

lemma RemoveExtraWS_one:
  assumes "\<not> blank c" "c \<noteq> NUL"
  shows "RemoveExtraWS [c, NUL] 0 = Some ([c, NUL], None)"
proof -
  have "Strlen [c, NUL] 0 = Some 1" using Strlen_mid [of "[c]" "[]" "[]"] assms(2) by auto
  then show ?thesis using assms by (simp add: RemoveExtraWS_def skip_front.simps skip_back.simps char_get_def aget_def Let_def)
qed

lemma RemoveExtraWS_empty: "RemoveExtraWS [NUL] 0 = None"
proof -
  have "Strlen [NUL] 0 = Some 0" using Strlen_mid [of "[]" "[]" "[]"] by simp
  then show ?thesis by (simp add: RemoveExtraWS_def skip_front.simps skip_back.simps char_get_def Let_def)
qed

section \<open>SevenBoom\<close>

text \<open>The remainder and the quotient of a negative number are negative or zero, as in C.\<close>

partial_function (option) DigitSeven :: "int \<Rightarrow> int option" where
  "DigitSeven num = (if 0 \<noteq> num then (if 7 = num smod 10 then Some 1 else DigitSeven (num sdiv 10)) else Some 0)"

datatype boom = BOOM | Num int

text \<open>The numbers that are printed; counting beyond the largest \<open>int\<close> overflows.\<close>

partial_function (option) boom_loop :: "int \<Rightarrow> int \<Rightarrow> boom list \<Rightarrow> boom list option" where
  "boom_loop num1 num2 out =
     (if num1 \<le> num2 then do {
        seven \<leftarrow> (if 0 = num1 smod 7 then Some 1 else DigitSeven num1);
        next_num \<leftarrow> int32 (num1 + 1);
        boom_loop next_num num2 (out @ [if seven = 1 then BOOM else Num num1])
      } else Some out)"

definition SevenBoom :: "int \<Rightarrow> int \<Rightarrow> boom list option" where
  "SevenBoom num1 num2 = do { c_assert (num1 < num2); boom_loop num1 num2 [] }"

text \<open>Whether the decimal numeral of a natural number has a 7.\<close>

fun has_seven :: "nat \<Rightarrow> bool" where
  "has_seven n = (if n = 0 then False else n mod 10 = 7 \<or> has_seven (n div 10))"

declare has_seven.simps [simp del]

lemma DigitSeven_eq: "DigitSeven (int n) = Some (of_bool (has_seven n))"
proof (induction n rule: has_seven.induct)
  case (1 n)
  have "int n smod 10 = int (n mod 10)" "int n sdiv 10 = int (n div 10)"
    by (simp_all add: signed_modulo_int_def signed_divide_int_def sgn_if zmod_int zdiv_int)
  then show ?case using 1 by (subst DigitSeven.simps, subst has_seven.simps) auto
qed

definition boom_of :: "nat \<Rightarrow> boom" where
  "boom_of n = (if n mod 7 = 0 \<or> has_seven n then BOOM else Num (int n))"

lemma boom_loop_eq:
  "n < 2 ^ 31 - 1 \<Longrightarrow> boom_loop (int m) (int n) out = Some (out @ map boom_of [m..<Suc n])"
proof (induction "Suc n - m" arbitrary: m out)
  case 0
  then show ?case by (subst boom_loop.simps) simp
next
  case (Suc d)
  have m: "m \<le> n" using Suc.hyps(2) by simp
  have s: "int m smod 7 = int (m mod 7)" by (simp add: signed_modulo_int_def sgn_if zmod_int)
  have i: "int32 (int m + 1) = Some (int (Suc m))" using m Suc.prems by (simp add: int32_def)
  have "boom_loop (int m) (int n) out = boom_loop (int (Suc m)) (int n) (out @ [boom_of m])"
    using m s i by (subst boom_loop.simps) (simp add: DigitSeven_eq boom_of_def)
  also have "\<dots> = Some ((out @ [boom_of m]) @ map boom_of [Suc m..<Suc n])"
    using Suc.hyps(2) Suc.prems by (intro Suc.hyps(1)) simp_all
  also have "(out @ [boom_of m]) @ map boom_of [Suc m..<Suc n] = out @ map boom_of [m..<Suc n]"
    using m by (cases "m = n") (simp_all add: upt_conv_Cons)
  finally show ?case .
qed

lemma SevenBoom_prints:
  assumes "m < n" "n < 2 ^ 31 - 1"
  shows "SevenBoom (int m) (int n) = Some (map boom_of [m..<Suc n])"
  using assms boom_loop_eq [OF assms(2), of m "[]"] by (simp add: SevenBoom_def c_assert_def)

text \<open>The digits of a negative number are not found: -17 is no boom.\<close>

lemma DigitSeven_negative: "DigitSeven (- 17) = Some 0"
  by (simp add: DigitSeven.simps signed_modulo_int_def signed_divide_int_def)

section \<open>The environment in lower case\<close>

text \<open>\<open>DupLowerStr\<close> of \<open>ws3.c\<close>: the loop copies one character before its first test. The result is the
  new buffer, whose cells were indeterminate; \<open>mem\<close> tells whether \<open>malloc\<close> succeeds.\<close>

definition lower_char :: "char \<Rightarrow> char" where
  "lower_char c = (let n = of_char c :: nat in if 65 \<le> n \<and> n \<le> 90 then char_of (n + 32) else c)"

partial_function (option) dup_loop :: "string \<Rightarrow> nat \<Rightarrow> char option list \<Rightarrow> nat \<Rightarrow> (char option list \<times> nat) option" where
  "dup_loop envariable p dest_dup_var q = do {
     c \<leftarrow> aget envariable p;
     dest_dup_var \<leftarrow> aset dest_dup_var q (Some (lower_char c));
     d \<leftarrow> aget envariable (p + 1);
     if d \<noteq> CHR ''='' \<and> d \<noteq> NUL then dup_loop envariable (p + 1) dest_dup_var (q + 1)
     else Some (dest_dup_var, q + 1)
   }"

definition DupLowerStr :: "bool \<Rightarrow> string \<Rightarrow> char option list option" where
  "DupLowerStr mem envariable = do {
     n \<leftarrow> Strlen envariable 0;
     c_assert mem;
     (dest_dup_start, q) \<leftarrow> dup_loop envariable 0 (replicate (n + 1) None) 0;
     aset dest_dup_start q (Some NUL)
   }"

text \<open>The environment is a list of strings that ends with NULL.\<close>

fun PoinPoinSize :: "string option list \<Rightarrow> nat option" where
  "PoinPoinSize (Some _ # envp) = do { n \<leftarrow> PoinPoinSize envp; Some (n + 1) }"
| "PoinPoinSize (None # _) = Some 0"
| "PoinPoinSize [] = None"

fun duplicate_env :: "(nat \<Rightarrow> bool) \<Rightarrow> string option list \<Rightarrow> nat \<Rightarrow> char option list list option" where
  "duplicate_env mem (Some e # envp) i = do {
     d \<leftarrow> DupLowerStr (mem i) e;
     ds \<leftarrow> duplicate_env mem envp (i + 1);
     Some (d # ds)
   }"
| "duplicate_env mem (None # _) i = Some []"
| "duplicate_env mem [] i = None"

definition Duplicate :: "bool \<Rightarrow> (nat \<Rightarrow> bool) \<Rightarrow> string option list \<Rightarrow> char option list list option" where
  "Duplicate mem0 mem envp = do { _ \<leftarrow> PoinPoinSize envp; c_assert mem0; duplicate_env mem envp 0 }"

definition env_name :: "string \<Rightarrow> string" where
  "env_name e = takeWhile (\<lambda>c. c \<noteq> CHR ''='') e"

lemma dup_loop_eq:
  "NUL \<notin> set t \<Longrightarrow> CHR ''='' \<notin> set t \<Longrightarrow> d = CHR ''='' \<or> d = NUL \<Longrightarrow> length t < n \<Longrightarrow>
   dup_loop (P @ c # t @ d # S) (length P) (D @ replicate n None) (length D)
   = Some (D @ map (Some \<circ> lower_char) (c # t) @ replicate (n - Suc (length t)) None, length D + Suc (length t))"
proof (induction t arbitrary: P c D n)
  case Nil
  then obtain m where n: "n = Suc m" by (cases n) auto
  have "aget ((P @ [c]) @ d # S) (length (P @ [c])) = Some d" by (rule aget_mid)
  then show ?case using Nil n by (subst dup_loop.simps) (auto simp: aget_mid aset_mid)
next
  case (Cons x t)
  then obtain m where n: "n = Suc m" by (cases n) auto
  have get: "aget ((P @ [c]) @ x # t @ d # S) (length (P @ [c])) = Some x" by (rule aget_mid)
  have "dup_loop (P @ c # (x # t) @ d # S) (length P) (D @ replicate n None) (length D)
      = dup_loop ((P @ [c]) @ x # t @ d # S) (length (P @ [c])) ((D @ [Some (lower_char c)]) @ replicate m None) (length (D @ [Some (lower_char c)]))"
    using get n Cons.prems by (subst dup_loop.simps) (auto simp: aget_mid aset_mid)
  then show ?case using Cons.IH [of m "P @ [c]" x "D @ [Some (lower_char c)]"] Cons.prems n by simp
qed

lemma DupLowerStr_eq:
  assumes "NUL \<notin> set e" "env_name e \<noteq> []"
  shows "\<exists>rest. DupLowerStr True (e @ [NUL]) = Some (map (Some \<circ> lower_char) (env_name e) @ Some NUL # rest)"
proof -
  obtain c t where t: "env_name e = c # t" using assms(2) by (cases "env_name e") auto
  obtain d S where S: "dropWhile (\<lambda>c. c \<noteq> CHR ''='') e @ [NUL] = d # S" by (cases "dropWhile (\<lambda>c. c \<noteq> CHR ''='') e") auto
  have "e @ [NUL] = env_name e @ (dropWhile (\<lambda>c. c \<noteq> CHR ''='') e @ [NUL])" by (simp add: env_name_def)
  then have e: "e @ [NUL] = c # t @ d # S" unfolding S t by simp
  have "d = CHR ''='' \<or> d = NUL"
    using S hd_dropWhile [of "\<lambda>c. c \<noteq> CHR ''=''" e] by (cases "dropWhile (\<lambda>c. c \<noteq> CHR ''='') e") auto
  moreover have "NUL \<notin> set (env_name e)" "CHR ''='' \<notin> set (env_name e)"
    using assms(1) by (auto simp: env_name_def dest: set_takeWhileD)
  moreover have len: "length e = length t + Suc (length S)" using arg_cong [OF e, of length] by simp
  ultimately have loop: "dup_loop (c # t @ d # S) 0 (replicate (Suc (length e)) None) 0
      = Some (map (Some \<circ> lower_char) (c # t) @ replicate (Suc (length S)) None, Suc (length t))"
    using dup_loop_eq [of t d "Suc (length e)" "[]" c S "[]"] by (simp add: t)
  have "Strlen (e @ [NUL]) 0 = Some (length e)" using Strlen_mid [OF assms(1), of "[]" "[]"] by simp
  moreover have "aset (map (Some \<circ> lower_char) (c # t) @ None # replicate (length S) None) (length (map (Some \<circ> lower_char) (c # t))) (Some NUL)
      = Some (map (Some \<circ> lower_char) (c # t) @ Some NUL # replicate (length S) None)" by (rule aset_mid)
  ultimately show ?thesis using loop by (auto simp: DupLowerStr_def e t)
qed

definition lowered :: "string \<Rightarrow> char option list \<Rightarrow> bool" where
  "lowered e d \<longleftrightarrow> (\<exists>rest. d = map (Some \<circ> lower_char) (env_name e) @ Some NUL # rest)"

lemma Duplicate_lower:
  assumes "\<forall>e \<in> set env. NUL \<notin> set e \<and> env_name e \<noteq> []"
  shows "\<exists>ds. Duplicate True (\<lambda>_. True) (map (\<lambda>e. Some (e @ [NUL])) env @ [None]) = Some ds
    \<and> list_all2 lowered env ds"
proof -
  have "\<exists>ds. duplicate_env (\<lambda>_. True) (map (\<lambda>e. Some (e @ [NUL])) env @ [None]) i = Some ds
    \<and> list_all2 lowered env ds" for i
    using assms
  proof (induction env arbitrary: i)
    case (Cons e env)
    obtain d where d: "DupLowerStr True (e @ [NUL]) = Some d" "lowered e d"
      using DupLowerStr_eq [of e] Cons.prems unfolding lowered_def by fastforce
    obtain ds where "duplicate_env (\<lambda>_. True) (map (\<lambda>e. Some (e @ [NUL])) env @ [None]) (i + 1) = Some ds"
      "list_all2 lowered env ds"
      using Cons.IH [of "i + 1"] Cons.prems by auto
    then show ?case using d by simp
  qed simp
  moreover have "PoinPoinSize (map (\<lambda>e. Some (e @ [NUL])) env @ [None]) = Some (length env)" by (induction env) auto
  ultimately show ?thesis by (simp add: Duplicate_def)
qed

text \<open>An empty string has no room for the character that is copied before the first test: the terminator is
  copied, and the loop looks at the cell behind it.\<close>

lemma DupLowerStr_empty: "DupLowerStr True [NUL] = None"
proof -
  have "Strlen [NUL] 0 = Some 0" using Strlen_mid [of "[]" "[]" "[]"] by simp
  then show ?thesis by (simp add: DupLowerStr_def dup_loop.simps aget_def aset_def)
qed

section \<open>Hexadecimal text\<close>

text \<open>The characters that \<open>printf\<close> writes.\<close>

partial_function (option) hex_loop :: "string \<Rightarrow> nat \<Rightarrow> string \<Rightarrow> string option" where
  "hex_loop str i out = do {
     n \<leftarrow> Strlen str 0;
     if i \<le> szsub n 2 then do {
       r \<leftarrow> aget str (i + 1);
       let rightchar = c_char r - 48;
       let rightchar = (if 65 \<le> c_char r then rightchar - 7 else rightchar);
       l \<leftarrow> aget str i;
       hex_loop str ((i + 2) mod 2 ^ 64) (out @ [char_of ((c_char l - 48) * 16 + rightchar)])
     } else Some out
   }"

definition ConvertHex :: "string \<Rightarrow> string option" where
  "ConvertHex str = hex_loop str 0 []"

definition hex_digit :: "nat \<Rightarrow> char" where
  "hex_digit d = char_of (if d < 10 then 48 + d else 55 + d)"

definition hex_of :: "char \<Rightarrow> string" where
  "hex_of c = [hex_digit (of_char c div 16), hex_digit (of_char c mod 16)]"

definition hex_text :: "string \<Rightarrow> string" where
  "hex_text w = concat (map hex_of w)"

lemma c_char_hex_digit: "d < 16 \<Longrightarrow> c_char (hex_digit d) = (if d < 10 then 48 + int d else 55 + int d)"
  by (simp add: c_char_def hex_digit_def)

lemma hex_digit_NUL: "d < 16 \<Longrightarrow> hex_digit d \<noteq> NUL"
  using c_char_hex_digit [of d] c_char_eq_0 [of "hex_digit d"] by (auto split: if_splits)

lemma length_hex_text: "length (hex_text w) = 2 * length w"
  by (induction w) (simp_all add: hex_text_def hex_of_def)

lemma of_char_less: "(of_char c :: nat) < 256"
  by (rule nat_of_char_less_256)

lemma hex_text_NUL: "NUL \<notin> set (hex_text w)"
proof -
  have "NUL \<notin> set (hex_of c)" for c
  proof -
    have "of_char c div 16 < (16 :: nat)" "of_char c mod 16 < (16 :: nat)"
      using of_char_less [of c] by (intro less_mult_imp_div_less, simp_all)
    from this [THEN hex_digit_NUL] show ?thesis by (simp add: hex_of_def not_sym)
  qed
  then show ?thesis by (simp add: hex_text_def)
qed

lemma hex_text_get:
  "k < length w \<Longrightarrow> aget (hex_text w @ S) (2 * k) = Some (hex_digit (of_char (w ! k) div 16))
    \<and> aget (hex_text w @ S) (2 * k + 1) = Some (hex_digit (of_char (w ! k) mod 16))"
proof (induction w arbitrary: k)
  case (Cons c w)
  show ?case
  proof (cases k)
    case 0
    then show ?thesis by (simp add: hex_text_def hex_of_def aget_def)
  next
    case (Suc j)
    then show ?thesis using Cons.IH [of j] Cons.prems by (auto simp: hex_text_def hex_of_def aget_def split: if_splits)
  qed
qed simp

lemma hex_value:
  assumes "(of_char c :: nat) < 160"
  shows "char_of ((c_char (hex_digit (of_char c div 16)) - 48) * 16
      + (let r = c_char (hex_digit (of_char c mod 16)) in if 65 \<le> r then r - 48 - 7 else r - 48)) = c"
proof -
  define n where "n = (of_char c :: nat)"
  have n: "n < 160" using assms by (simp add: n_def)
  have "(c_char (hex_digit (n div 16)) - 48) * 16 + (let r = c_char (hex_digit (n mod 16)) in if 65 \<le> r then r - 48 - 7 else r - 48)
      = int (n div 16) * 16 + int (n mod 16)"
    using n c_char_hex_digit [of "n div 16"] c_char_hex_digit [of "n mod 16"] by (simp add: Let_def)
  also have "\<dots> = int (n div 16 * 16 + n mod 16)" by (simp only: of_nat_add of_nat_mult of_nat_numeral)
  also have "n div 16 * 16 + n mod 16 = n" by (rule div_mult_mod_eq)
  finally show ?thesis by (simp add: n_def Let_def)
qed

lemma hex_loop_eq:
  assumes "\<forall>c \<in> set w. (of_char c :: nat) < 160" "w \<noteq> []" "length w < 2 ^ 62"
  shows "k \<le> length w \<Longrightarrow> hex_loop (hex_text w @ [NUL]) (2 * k) out = Some (out @ drop k w)"
proof (induction "length w - k" arbitrary: k out)
  case 0
  have "Strlen (hex_text w @ [NUL]) 0 = Some (2 * length w)"
    using Strlen_mid [OF hex_text_NUL, of "[]" w "[]"] by (simp add: length_hex_text)
  moreover have "szsub (2 * length w) 2 = 2 * length w - 2" using assms(2,3) by (intro szsub_ge) (auto simp: Suc_le_eq)
  moreover have "\<not> 2 * length w \<le> 2 * length w - 2" using assms(2) by (cases w) simp_all
  moreover have "k = length w" using 0 by simp
  ultimately show ?case by (subst hex_loop.simps) simp
next
  case (Suc d)
  have k: "k < length w" using Suc.hyps(2) by simp
  have n: "Strlen (hex_text w @ [NUL]) 0 = Some (2 * length w)"
    using Strlen_mid [OF hex_text_NUL, of "[]" w "[]"] by (simp add: length_hex_text)
  have s: "szsub (2 * length w) 2 = 2 * length w - 2" using assms(2,3) by (intro szsub_ge) (auto simp: Suc_le_eq)
  have i: "(2 * k + 2) mod 2 ^ 64 = 2 * Suc k" using k assms(3) by simp
  have c: "(of_char (w ! k) :: nat) < 160" using assms(1) k by simp
  have le: "2 * k \<le> 2 * length w - 2" using k by arith
  have "hex_loop (hex_text w @ [NUL]) (2 * k) out = hex_loop (hex_text w @ [NUL]) (2 * Suc k) (out @ [w ! k])"
    using n s le hex_text_get [OF k, of "[NUL]"] hex_value [OF c] i
    by (subst hex_loop.simps) (simp add: Let_def)
  also have "\<dots> = Some ((out @ [w ! k]) @ drop (Suc k) w)" using Suc.hyps(2) k by (intro Suc.hyps(1)) simp_all
  also have "(out @ [w ! k]) @ drop (Suc k) w = out @ drop k w" using k by (simp add: Cons_nth_drop_Suc)
  finally show ?case .
qed

lemma ConvertHex_hex_text:
  assumes "\<forall>c \<in> set w. (of_char c :: nat) < 160" "w \<noteq> []" "length w < 2 ^ 62"
  shows "ConvertHex (hex_text w @ [NUL]) = Some w"
  using hex_loop_eq [OF assms, of 0 "[]"] by (simp add: ConvertHex_def)

text \<open>The left digit is not corrected for letters, and the empty text is read behind its end.\<close>

lemma ConvertHex_letter: "ConvertHex (''A0'' @ [NUL]) = Some [CHR 0x10]"
proof -
  have "Strlen (''A0'' @ [NUL]) 0 = Some 2" using Strlen_mid [of "''A0''" "[]" "[]"] by (simp add: NUL_def)
  moreover have "char_of (272 :: int) = CHR 0x10" by code_simp
  ultimately show ?thesis unfolding ConvertHex_def
    by (subst hex_loop.simps, subst hex_loop.simps) (simp add: szsub_def aget_def c_char_def Let_def)
qed

lemma ConvertHex_empty: "ConvertHex [NUL] = None"
proof -
  have "Strlen [NUL] 0 = Some 0" using Strlen_mid [of "[]" "[]" "[]"] by simp
  then show ?thesis unfolding ConvertHex_def by (subst hex_loop.simps) (simp add: aget_def szsub_def)
qed

end
