(* ===== verification/MoreExercises.thy ===== *)
theory MoreExercises
  imports CString "HOL-Library.Signed_Division"
begin

text \<open>
  Three more exercises: the characters of two strings that are not in a third (\<open>c/ws9/ws9_itoa.c\<close>), the
  editor that appends to a file (\<open>c/ws5/ws5.c\<close>), and elements that carry the functions for their type
  (\<open>c/ws7/ws7_ex1.c\<close>).
\<close>

section \<open>ThreeArrays\<close>

text \<open>A \<open>char\<close> is used as an index; one that is negative leaves the array.\<close>

definition char_cell :: "nat list \<Rightarrow> char \<Rightarrow> nat option" where
  "char_cell arr c = (if 0 \<le> c_char c then aget arr (nat (c_char c)) else None)"

definition set_char_cell :: "nat list \<Rightarrow> char \<Rightarrow> nat \<Rightarrow> nat list option" where
  "set_char_cell arr c v = (if 0 \<le> c_char c then aset arr (nat (c_char c)) v else None)"

fun mark_all :: "nat \<Rightarrow> nat list \<Rightarrow> string \<Rightarrow> nat list option" where
  "mark_all v arr [] = Some arr"
| "mark_all v arr (c # str) = do { arr \<leftarrow> set_char_cell arr c v; mark_all v arr str }"

fun mark_second :: "nat list \<Rightarrow> string \<Rightarrow> nat list option" where
  "mark_second arr [] = Some arr"
| "mark_second arr (c # str) = do {
     x \<leftarrow> char_cell arr c;
     arr \<leftarrow> (if x = 1 then set_char_cell arr c 2 else Some arr);
     mark_second arr str
   }"

text \<open>The characters that are printed, by their numbers.\<close>

definition ThreeArrays :: "string \<Rightarrow> string \<Rightarrow> string \<Rightarrow> nat list option" where
  "ThreeArrays str1 str2 str3 = do {
     arr \<leftarrow> mark_all 1 (replicate 255 0) str1;
     arr \<leftarrow> mark_second arr str2;
     arr \<leftarrow> mark_all 0 arr str3;
     Some (filter (\<lambda>i. arr ! i = 2) [0..<255])
   }"

definition code :: "char \<Rightarrow> nat" where
  "code c = of_char c"

lemma ascii_cell:
  assumes "code c < 128" "length arr = 255"
  shows "char_cell arr c = Some (arr ! code c)" "set_char_cell arr c v = Some (arr[code c := v])"
  using assms by (simp_all add: char_cell_def set_char_cell_def c_char_def code_def Let_def aget_def aset_def)

lemma mark_all_eq:
  "\<forall>c \<in> set str. code c < 128 \<Longrightarrow> length arr = 255 \<Longrightarrow> \<exists>arr'. mark_all v arr str = Some arr' \<and> length arr' = 255
    \<and> (\<forall>i < 255. arr' ! i = (if i \<in> code ` set str then v else arr ! i))"
proof (induction str arbitrary: arr)
  case (Cons c str)
  obtain arr' where "mark_all v (arr[code c := v]) str = Some arr'" "length arr' = 255"
    "\<forall>i < 255. arr' ! i = (if i \<in> code ` set str then v else arr[code c := v] ! i)"
    using Cons.IH [of "arr[code c := v]"] Cons.prems by auto
  then show ?case using Cons.prems by (auto simp: ascii_cell nth_list_update)
qed simp

lemma mark_second_eq:
  "\<forall>c \<in> set str. code c < 128 \<Longrightarrow> length arr = 255 \<Longrightarrow> \<exists>arr'. mark_second arr str = Some arr' \<and> length arr' = 255
    \<and> (\<forall>i < 255. arr' ! i = (if i \<in> code ` set str \<and> arr ! i = 1 then 2 else arr ! i))"
proof (induction str arbitrary: arr)
  case (Cons c str)
  define arr1 where "arr1 = (if arr ! code c = 1 then arr[code c := 2] else arr)"
  have step: "mark_second arr (c # str) = mark_second arr1 str" using Cons.prems by (simp add: ascii_cell arr1_def)
  have "length arr1 = 255" "\<forall>c \<in> set str. code c < 128" using Cons.prems by (simp_all add: arr1_def)
  then obtain arr' where arr': "mark_second arr1 str = Some arr'" "length arr' = 255"
    "\<forall>i < 255. arr' ! i = (if i \<in> code ` set str \<and> arr1 ! i = 1 then 2 else arr1 ! i)"
    using Cons.IH [of arr1] by blast
  have c: "code c < length arr" using Cons.prems by simp
  have "\<forall>i < 255. arr' ! i = (if i \<in> code ` set (c # str) \<and> arr ! i = 1 then 2 else arr ! i)"
  proof (intro allI impI)
    fix i :: nat assume i: "i < 255"
    show "arr' ! i = (if i \<in> code ` set (c # str) \<and> arr ! i = 1 then 2 else arr ! i)"
      using arr'(3) [rule_format, OF i] c unfolding arr1_def by (cases "i = code c"; cases "arr ! code c = 1") (simp_all add: nth_list_update)
  qed
  then show ?case using step arr'(1,2) by simp
qed simp

lemma ThreeArrays_letters:
  assumes "\<forall>c \<in> set str1 \<union> set str2 \<union> set str3. code c < 128"
  shows "ThreeArrays str1 str2 str3
    = Some (filter (\<lambda>i. i \<in> code ` set str1 \<and> i \<in> code ` set str2 \<and> i \<notin> code ` set str3) [0..<255])"
proof -
  obtain a where a: "mark_all 1 (replicate 255 0) str1 = Some a" "length a = 255"
    "\<forall>i < 255. a ! i = (if i \<in> code ` set str1 then 1 else replicate 255 0 ! i)"
    using mark_all_eq [of str1 "replicate 255 0" 1] assms by auto
  obtain b where b: "mark_second a str2 = Some b" "length b = 255"
    "\<forall>i < 255. b ! i = (if i \<in> code ` set str2 \<and> a ! i = 1 then 2 else a ! i)"
    using mark_second_eq [of str2 a] a(2) assms by auto
  obtain c where c: "mark_all 0 b str3 = Some c" "\<forall>i < 255. c ! i = (if i \<in> code ` set str3 then 0 else b ! i)"
    using mark_all_eq [of str3 b 0] b(2) assms by auto
  have "filter (\<lambda>i. c ! i = 2) [0..<255]
      = filter (\<lambda>i. i \<in> code ` set str1 \<and> i \<in> code ` set str2 \<and> i \<notin> code ` set str3) [0..<255]"
    by (rule filter_cong) (use a(3) b(3) c(2) in \<open>auto split: if_splits\<close>)
  then show ?thesis using a(1) b(1) c(1) by (simp add: ThreeArrays_def)
qed

lemma ThreeArrays_negative: "128 \<le> code c \<Longrightarrow> ThreeArrays (c # str1) str2 str3 = None"
proof -
  assume "128 \<le> code c"
  moreover have "code c < 256" by (simp add: code_def nat_of_char_less_256)
  ultimately have "c_char c < 0" by (simp add: c_char_def code_def Let_def)
  then show ?thesis by (simp add: ThreeArrays_def set_char_cell_def)
qed

section \<open>The editor\<close>

text \<open>The file is \<open>None\<close> where it does not exist; opening with \<open>"a+"\<close> creates it. \<open>reported\<close> lists the
  numbers of lines that were printed. A \<open>char\<close> that is compared with \<open>EOF\<close> takes the byte 255 for the end.\<close>

record editor =
  edited :: "string option"
  reported :: "nat list"

definition contents :: "editor \<Rightarrow> string" where
  "contents e = (case edited e of None \<Rightarrow> [] | Some s \<Rightarrow> s)"

definition till_EOF :: "string \<Rightarrow> string" where
  "till_EOF s = takeWhile (\<lambda>c. c_char c \<noteq> -1) s"

definition CONTINEWORKING :: int where "CONTINEWORKING = 1"
definition TRUECHECK :: int where "TRUECHECK = 10"
definition FALSECHECK :: int where "FALSECHECK = 15"

text \<open>\<open>strcmp\<close> as it is commonly built: the difference of the first characters that differ.\<close>

fun strcmp :: "string \<Rightarrow> string \<Rightarrow> int" where
  "strcmp [] [] = 0"
| "strcmp (c # s) [] = int (of_char c)"
| "strcmp [] (d # t) = - int (of_char d)"
| "strcmp (c # s) (d # t) = (if c = d then strcmp s t else int (of_char c) - int (of_char d))"

definition ComprationStartAppend :: "string \<Rightarrow> string \<Rightarrow> int" where
  "ComprationStartAppend user_command struct_command = (if take 1 user_command = ''<'' then TRUECHECK else FALSECHECK)"

definition DefaultChek :: "string \<Rightarrow> string \<Rightarrow> int" where
  "DefaultChek user_command struct_command = TRUECHECK"

text \<open>The operations; \<open>ok\<close> tells whether the calls that open files succeed.\<close>

definition RemoveFile :: "bool \<Rightarrow> string \<Rightarrow> editor \<Rightarrow> (int \<times> editor) option" where
  "RemoveFile ok text_to_add e = (case edited e of
     Some _ \<Rightarrow> Some (0, e\<lparr>edited := None\<rparr>)
   | None \<Rightarrow> Some (CONTINEWORKING, e))"

definition LineCounter :: "bool \<Rightarrow> string \<Rightarrow> editor \<Rightarrow> (int \<times> editor) option" where
  "LineCounter ok text_to_add e = (if \<not> ok then None
     else Some (CONTINEWORKING, e\<lparr>edited := Some (contents e),
                                 reported := reported e @ [length (filter (\<lambda>c. c = CHR 0x0A) (till_EOF (contents e)))]\<rparr>))"

definition ExitFile :: "bool \<Rightarrow> string \<Rightarrow> editor \<Rightarrow> (int \<times> editor) option" where
  "ExitFile ok text_to_add e = Some (0, e)"

definition AppendToStart :: "bool \<Rightarrow> string \<Rightarrow> editor \<Rightarrow> (int \<times> editor) option" where
  "AppendToStart ok text_to_add e = (if \<not> ok then Some (0, e)
     else Some (CONTINEWORKING, e\<lparr>edited := Some (drop 1 text_to_add @ till_EOF (contents e))\<rparr>))"

definition AppendOneLineToEnd :: "bool \<Rightarrow> string \<Rightarrow> editor \<Rightarrow> (int \<times> editor) option" where
  "AppendOneLineToEnd ok text_to_add e = (if \<not> ok then Some (0, e)
     else Some (CONTINEWORKING, e\<lparr>edited := Some (contents e @ text_to_add)\<rparr>))"

type_synonym file_edit = "string \<times> (string \<Rightarrow> string \<Rightarrow> int) \<times> (bool \<Rightarrow> string \<Rightarrow> editor \<Rightarrow> (int \<times> editor) option)"

definition special_commands :: "file_edit list" where
  "special_commands = [(''-remove'', strcmp, RemoveFile), (''-count'', strcmp, LineCounter), (''-exit'', strcmp, ExitFile),
     (''<'', ComprationStartAppend, AppendToStart), (''default'', DefaultChek, AppendOneLineToEnd)]"

text \<open>The inner loop runs the first operation whose comparison says so.\<close>

fun run_command :: "file_edit list \<Rightarrow> bool \<Rightarrow> string \<Rightarrow> int \<Rightarrow> editor \<Rightarrow> (int \<times> editor) option" where
  "run_command [] ok text_to_add i e = Some (i, e)"
| "run_command ((command, comparison, operation) # cs) ok text_to_add i e =
     (if comparison text_to_add command = TRUECHECK then operation ok text_to_add e
      else run_command cs ok text_to_add i e)"

text \<open>The loop over the lines that are typed: it stops, or waits for the next line.\<close>

fun AppenOnDemand :: "bool \<Rightarrow> string list \<Rightarrow> int \<Rightarrow> editor \<Rightarrow> (int \<times> editor) option" where
  "AppenOnDemand ok [] i e = Some (i, e)"
| "AppenOnDemand ok (text_to_add # input) i e =
     (if 1 = i then do {
        (i, e) \<leftarrow> run_command special_commands ok text_to_add i e;
        AppenOnDemand ok input i e
      } else Some (i, e))"

definition plain_line :: "string \<Rightarrow> bool" where
  "plain_line l \<longleftrightarrow> l \<noteq> [] \<and> hd l \<notin> {CHR ''-'', CHR ''7'', CHR ''<''}"

lemma plain_line_command: "plain_line l \<Longrightarrow> run_command special_commands ok l i e = AppendOneLineToEnd ok l e"
proof -
  assume l: "plain_line l"
  then obtain c s where cs: "l = c # s" "c \<noteq> CHR ''-''" "c \<noteq> CHR ''7''" "c \<noteq> CHR ''<''" by (cases l) (auto simp: plain_line_def)
  have "(of_char c :: nat) \<noteq> of_char (CHR ''7'')" using cs(3) by (simp only: of_char_eq_iff) simp
  then have "int (of_char c) - 45 \<noteq> 10" by simp
  then have "strcmp l (CHR ''-'' # t) \<noteq> TRUECHECK" for t using cs by (simp add: TRUECHECK_def)
  then show ?thesis using cs by (simp add: special_commands_def ComprationStartAppend_def DefaultChek_def TRUECHECK_def FALSECHECK_def)
qed

text \<open>Lines of text are appended in order, and \<open>-exit\<close> stops.\<close>

lemma AppenOnDemand_lines:
  "\<forall>l \<in> set ls. plain_line l \<Longrightarrow>
   AppenOnDemand True (ls @ [''-exit'' @ [CHR 0x0A]]) 1 e
   = Some (0, if ls = [] then e else e\<lparr>edited := Some (contents e @ concat ls)\<rparr>)"
proof (induction ls arbitrary: e)
  case Nil
  have "run_command special_commands True (''-exit'' @ [CHR 0x0A]) 1 e = Some (0, e)"
    by (simp add: special_commands_def TRUECHECK_def ExitFile_def)
  then show ?case by simp
next
  case (Cons l ls)
  let ?e = "e\<lparr>edited := Some (contents e @ l)\<rparr>"
  have "AppenOnDemand True ((l # ls) @ [''-exit'' @ [CHR 0x0A]]) 1 e = AppenOnDemand True (ls @ [''-exit'' @ [CHR 0x0A]]) 1 ?e"
    using Cons.prems plain_line_command [of l True 1 e] by (simp add: AppendOneLineToEnd_def CONTINEWORKING_def)
  then show ?case using Cons.IH [of ?e] Cons.prems by (simp add: contents_def)
qed

text \<open>A line that begins with the character 7 differs from \<open>-remove\<close> by 10, the number that stands for a
  match of the whole command: the file is removed.\<close>

lemma line_7_removes_file:
  "edited e = Some s \<Longrightarrow> AppenOnDemand ok ((CHR ''7'' # l) # input) 1 e = Some (0, e\<lparr>edited := None\<rparr>)"
  by (cases input) (simp_all add: special_commands_def TRUECHECK_def RemoveFile_def)

section \<open>Elements that carry their functions\<close>

text \<open>The word that holds the data is an int, a float or a pointer to a string in a buffer of its own;
  \<open>operations\<close> tells which of the three tables of functions the element has. The arithmetic of \<open>float\<close> is a
  parameter.\<close>

datatype 'f element = Int_element int | Float_element 'f | String_element "char list"

definition IntInitiation :: "'f element list \<Rightarrow> nat \<Rightarrow> int \<Rightarrow> 'f element list option" where
  "IntInitiation arr index num = aset arr index (Int_element num)"

definition FloatInitiation :: "'f element list \<Rightarrow> nat \<Rightarrow> 'f \<Rightarrow> 'f element list option" where
  "FloatInitiation arr index num = aset arr index (Float_element num)"

definition StringInitiation :: "bool \<Rightarrow> 'f element list \<Rightarrow> nat \<Rightarrow> string \<Rightarrow> 'f element list option" where
  "StringInitiation mem arr index str = (if mem then aset arr index (String_element str) else None)"

text \<open>The loop that counts the digits also builds the mirrored number, which may overflow.\<close>

partial_function (option) mirror_digits :: "int \<Rightarrow> int \<Rightarrow> nat \<Rightarrow> nat option" where
  "mirror_digits add_num mirror_int int_len = (if 0 \<noteq> add_num then do {
       m \<leftarrow> int32 (mirror_int * 10);
       mirror_int \<leftarrow> int32 (m + add_num smod 10);
       mirror_digits (add_num sdiv 10) mirror_int (int_len + 1)
     } else Some int_len)"

definition show_int :: "int \<Rightarrow> string" where
  "show_int n = (if n < 0 then CHR ''-'' # show_u (nat (- n)) else show_u (nat n))"

text \<open>The string that \<open>sprintf\<close> writes must fit into the buffer with its terminator. \<open>sprintf\<close> reads and
  writes the same buffer, which the C standard leaves undefined; here it does what is meant.\<close>

definition AddString :: "bool \<Rightarrow> string \<Rightarrow> int \<Rightarrow> string option" where
  "AddString mem str add_num = do {
     int_len \<leftarrow> mirror_digits add_num 0 0;
     c_assert mem;
     c_assert (length str + length (show_int add_num) < length str + int_len + 1);
     Some (str @ show_int add_num)
   }"

definition AddInt :: "int \<Rightarrow> int \<Rightarrow> int option" where
  "AddInt num add_num = int32 (num + add_num)"

definition add_to_var :: "('f \<Rightarrow> int \<Rightarrow> 'f) \<Rightarrow> bool \<Rightarrow> 'f element \<Rightarrow> int \<Rightarrow> 'f element option" where
  "add_to_var AddFloat mem e add_num = (case e of
     Int_element n \<Rightarrow> do { n \<leftarrow> AddInt n add_num; Some (Int_element n) }
   | Float_element x \<Rightarrow> Some (Float_element (AddFloat x add_num))
   | String_element s \<Rightarrow> do { s \<leftarrow> AddString mem s add_num; Some (String_element s) })"

lemma length_show_u: "length (show_u n) = (if n < 10 then 1 else Suc (length (show_u (n div 10))))"
  by (simp add: show_u.simps [of n])

lemma mirror_digits_eq:
  "0 < n \<Longrightarrow> 0 \<le> m \<Longrightarrow> (m + 1) * 10 ^ length (show_u n) < 2 ^ 31 \<Longrightarrow> mirror_digits (int n) m k = Some (k + length (show_u n))"
proof (induction n arbitrary: m k rule: less_induct)
  case (less n)
  define d where "d = int (n mod 10)"
  have d: "0 \<le> d" "d \<le> 9" by (simp_all add: d_def)
  have s: "int n smod 10 = d" "int n sdiv 10 = int (n div 10)"
    using less.prems(1) by (simp_all add: d_def signed_modulo_int_def signed_divide_int_def zmod_int zdiv_int)
  have p: "(1 :: int) \<le> 10 ^ l" for l by simp
  have "(m + 1) * 10 \<le> (m + 1) * 10 ^ length (show_u n)"
    using less.prems(2) self_le_power [of "10 :: int" "length (show_u n)"] by (intro mult_left_mono) (auto simp: show_u_not_Nil)
  then have big: "(m + 1) * 10 < 2 ^ 31" using less.prems(3) by linarith
  have i: "int32 (m * 10) = Some (m * 10)" "int32 (m * 10 + d) = Some (m * 10 + d)"
    using big less.prems(2) d by (simp_all add: int32_def)
  have step: "mirror_digits (int n) m k = mirror_digits (int (n div 10)) (m * 10 + d) (k + 1)"
    using less.prems(1) s i by (subst mirror_digits.simps) simp
  show ?case
  proof (cases "n < 10")
    case True
    then show ?thesis unfolding step by (subst mirror_digits.simps) (simp add: length_show_u)
  next
    case False
    have "(m * 10 + d + 1) * 10 ^ length (show_u (n div 10)) \<le> ((m + 1) * 10) * 10 ^ length (show_u (n div 10))"
      using d p by (intro mult_right_mono) auto
    also have "\<dots> = (m + 1) * 10 ^ length (show_u n)" using False by (subst length_show_u) simp
    finally have "(m * 10 + d + 1) * 10 ^ length (show_u (n div 10)) < 2 ^ 31" using less.prems(3) by linarith
    then have "mirror_digits (int (n div 10)) (m * 10 + d) (k + 1) = Some (k + 1 + length (show_u (n div 10)))"
      using False less.prems(2) d by (intro less.IH) auto
    then show ?thesis unfolding step using False by (subst length_show_u) simp
  qed
qed

text \<open>A positive number of at most nine digits is appended, in a buffer of exactly the right size.\<close>

lemma AddString_appends:
  assumes "0 < n" "length (show_u n) \<le> 9"
  shows "AddString True str (int n) = Some (str @ show_u n)"
proof -
  have "(0 + 1) * (10 :: int) ^ length (show_u n) \<le> 10 ^ 9" 
    using power_increasing [of "length (show_u n)" 9 "10 :: int"] assms(2) by simp
  then have "(0 + 1) * (10 :: int) ^ length (show_u n) < 2 ^ 31" by simp
  then show ?thesis using mirror_digits_eq [of n 0 0] assms(1) by (simp add: AddString_def show_int_def c_assert_def)
qed

text \<open>For 0 no digit is counted and for a negative number no sign: the buffer is one character too short.
  A number of ten digits whose mirror image is too large overflows, though the mirror image is not used.\<close>

lemma AddString_zero: "AddString True str 0 = None"
  by (simp add: AddString_def mirror_digits.simps show_int_def show_u.simps c_assert_def)

lemma AddString_negative: "AddString True str (- 7) = None"
  by (simp add: AddString_def mirror_digits.simps show_int_def show_u.simps c_assert_def int32_def
      signed_modulo_int_def signed_divide_int_def)

lemma AddString_mirror: "AddString True str 1999999999 = None"
  by (simp add: AddString_def mirror_digits.simps int32_def signed_modulo_int_def signed_divide_int_def)

end
