(* ===== verification/MpmcQueue.thy ===== *)
theory MpmcQueue
  imports Prelude
begin

text \<open>
  The bounded queue for many producers and consumers, \<open>prepare_for_interview/circle_q/mpmc_q.hpp\<close>. Each cell has a
  sequence number that tells whose turn it is; a thread claims a position by a compare-and-exchange, which
  may fail for no reason, works on the cell alone and publishes it through the sequence number. Every access
  to a shared atomic or to the data of a cell is a step, and any number of calls run at the same time.
\<close>

section \<open>The code\<close>

record 'a mpmc =
  sequence :: "nat list"
  cells :: "'a list"
  enqueue_pos :: nat
  dequeue_pos :: nat

definition MPMCQueue :: "nat \<Rightarrow> 'a list \<Rightarrow> 'a mpmc" where
  "MPMCQueue Capacity garbage = \<lparr>sequence = [0..<Capacity], cells = garbage, enqueue_pos = 0, dequeue_pos = 0\<rparr>"

text \<open>The conversion to \<open>intptr_t\<close> and the difference of two such numbers.\<close>

definition intptr :: "nat \<Rightarrow> int" where
  "intptr n = (if n < 2 ^ 63 then int n else int n - 2 ^ 64)"

definition ptr_diff :: "nat \<Rightarrow> nat \<Rightarrow> int option" where
  "ptr_diff a b = (let d = intptr a - intptr b in if - (2 ^ 63) \<le> d \<and> d < 2 ^ 63 then Some d else None)"

text \<open>The place in the code with the local variables that are live there. The last two are the two returns.\<close>

datatype 'a enq_pc = E_pos 'a | E_seq 'a nat | E_cas 'a nat | E_write 'a nat | E_publish 'a nat | E_true 'a nat | E_false 'a

datatype 'a deq_pc = D_pos | D_seq nat | D_cas nat | D_read nat | D_release nat 'a | D_true nat 'a | D_false

text \<open>\<open>weak\<close> tells that the exchange fails though the position is the expected one.\<close>

fun mpmc_enqueue :: "nat \<Rightarrow> bool \<Rightarrow> 'a mpmc \<Rightarrow> 'a enq_pc \<Rightarrow> ('a mpmc \<times> 'a enq_pc) option" where
  "mpmc_enqueue Capacity weak q (E_pos item) = Some (q, E_seq item (enqueue_pos q))"
| "mpmc_enqueue Capacity weak q (E_seq item pos) = do {
     s \<leftarrow> aget (sequence q) (pos mod Capacity);
     diff \<leftarrow> ptr_diff s pos;
     Some (q, if diff = 0 then E_cas item pos else if diff < 0 then E_false item else E_pos item)
   }"
| "mpmc_enqueue Capacity weak q (E_cas item pos) =
     (if \<not> weak \<and> enqueue_pos q = pos then Some (q\<lparr>enqueue_pos := (pos + 1) mod 2 ^ 64\<rparr>, E_write item pos)
      else Some (q, E_seq item (enqueue_pos q)))"
| "mpmc_enqueue Capacity weak q (E_write item pos) = do {
     d \<leftarrow> aset (cells q) (pos mod Capacity) item;
     Some (q\<lparr>cells := d\<rparr>, E_publish item pos)
   }"
| "mpmc_enqueue Capacity weak q (E_publish item pos) = do {
     s \<leftarrow> aset (sequence q) (pos mod Capacity) ((pos + 1) mod 2 ^ 64);
     Some (q\<lparr>sequence := s\<rparr>, E_true item pos)
   }"
| "mpmc_enqueue Capacity weak q (E_true item pos) = None"
| "mpmc_enqueue Capacity weak q (E_false item) = None"

fun mpmc_dequeue :: "nat \<Rightarrow> bool \<Rightarrow> 'a mpmc \<Rightarrow> 'a deq_pc \<Rightarrow> ('a mpmc \<times> 'a deq_pc) option" where
  "mpmc_dequeue Capacity weak q D_pos = Some (q, D_seq (dequeue_pos q))"
| "mpmc_dequeue Capacity weak q (D_seq pos) = do {
     s \<leftarrow> aget (sequence q) (pos mod Capacity);
     diff \<leftarrow> ptr_diff s ((pos + 1) mod 2 ^ 64);
     Some (q, if diff = 0 then D_cas pos else if diff < 0 then D_false else D_pos)
   }"
| "mpmc_dequeue Capacity weak q (D_cas pos) =
     (if \<not> weak \<and> dequeue_pos q = pos then Some (q\<lparr>dequeue_pos := (pos + 1) mod 2 ^ 64\<rparr>, D_read pos)
      else Some (q, D_seq (dequeue_pos q)))"
| "mpmc_dequeue Capacity weak q (D_read pos) = do {
     item \<leftarrow> aget (cells q) (pos mod Capacity);
     Some (q, D_release pos item)
   }"
| "mpmc_dequeue Capacity weak q (D_release pos item) = do {
     s \<leftarrow> aset (sequence q) (pos mod Capacity) ((pos + Capacity) mod 2 ^ 64);
     Some (q\<lparr>sequence := s\<rparr>, D_true pos item)
   }"
| "mpmc_dequeue Capacity weak q (D_true pos item) = None"
| "mpmc_dequeue Capacity weak q D_false = None"

text \<open>A call of one of the two operations.\<close>

datatype 'a call = Enqueue "'a enq_pc" | Dequeue "'a deq_pc"

fun mpmc_call :: "nat \<Rightarrow> bool \<Rightarrow> 'a mpmc \<Rightarrow> 'a call \<Rightarrow> ('a mpmc \<times> 'a call) option" where
  "mpmc_call C weak q (Enqueue pc) = map_option (\<lambda>(q, pc). (q, Enqueue pc)) (mpmc_enqueue C weak q pc)"
| "mpmc_call C weak q (Dequeue pc) = map_option (\<lambda>(q, pc). (q, Dequeue pc)) (mpmc_dequeue C weak q pc)"

fun returned :: "'a call \<Rightarrow> bool" where
  "returned (Enqueue (E_true item pos)) = True"
| "returned (Enqueue (E_false item)) = True"
| "returned (Dequeue (D_true pos item)) = True"
| "returned (Dequeue D_false) = True"
| "returned c = False"

text \<open>The calls have numbers. All have been started, in any order; they take their steps in any order.\<close>

inductive mpmc_step :: "nat \<Rightarrow> 'a mpmc \<times> (nat \<Rightarrow> 'a call) \<Rightarrow> 'a mpmc \<times> (nat \<Rightarrow> 'a call) \<Rightarrow> bool" for C where
  "mpmc_call C weak q (th i) = Some (q', c) \<Longrightarrow> mpmc_step C (q, th) (q', th(i := c))"

inductive_cases mpmc_stepE: "mpmc_step C s s'"

definition mpmc_start :: "nat \<Rightarrow> 'a mpmc \<times> (nat \<Rightarrow> 'a call) \<Rightarrow> bool" where
  "mpmc_start C s \<longleftrightarrow> (\<exists>garbage. length garbage = C \<and> fst s = MPMCQueue C garbage)
     \<and> (\<forall>i. snd s i = Dequeue D_pos \<or> (\<exists>item. snd s i = Enqueue (E_pos item)))"

section \<open>Positions\<close>

fun eticket :: "'a call \<Rightarrow> nat option" where
  "eticket (Enqueue (E_write item pos)) = Some pos"
| "eticket (Enqueue (E_publish item pos)) = Some pos"
| "eticket (Enqueue (E_true item pos)) = Some pos"
| "eticket c = None"

fun dticket :: "'a call \<Rightarrow> nat option" where
  "dticket (Dequeue (D_read pos)) = Some pos"
| "dticket (Dequeue (D_release pos item)) = Some pos"
| "dticket (Dequeue (D_true pos item)) = Some pos"
| "dticket c = None"

definition each_once :: "('b \<Rightarrow> nat option) \<Rightarrow> nat \<Rightarrow> (nat \<Rightarrow> 'b) \<Rightarrow> bool" where
  "each_once f n th \<longleftrightarrow> (\<forall>k. k < n \<longleftrightarrow> (\<exists>i. f (th i) = Some k)) \<and> (\<forall>i j k. f (th i) = Some k \<and> f (th j) = Some k \<longrightarrow> i = j)"

lemma each_once_same: "f c = f (th i) \<Longrightarrow> each_once f n th \<Longrightarrow> each_once f n (th(i := c))"
  unfolding each_once_def by (simp add: fun_upd_def) metis

lemma each_once_claim: "f (th i) = None \<Longrightarrow> f c = Some n \<Longrightarrow> each_once f n th \<Longrightarrow> each_once f (Suc n) (th(i := c))"
  unfolding each_once_def fun_upd_apply less_Suc_eq
  by (smt (verit, ccfv_threshold) nat_neq_iff option.discI option.inject)

lemma each_once_less: "each_once f n th \<Longrightarrow> f (th i) = Some k \<Longrightarrow> k < n"
  unfolding each_once_def by metis

lemma each_once_ex: "each_once f n th \<Longrightarrow> k < n \<Longrightarrow> \<exists>i. f (th i) = Some k"
  by (simp add: each_once_def)

lemma each_once_inj: "each_once f n th \<Longrightarrow> f (th i) = Some k \<Longrightarrow> f (th j) = Some k \<Longrightarrow> i = j"
  unfolding each_once_def by metis

text \<open>What has been published, and the positions that have been released.\<close>

definition items :: "(nat \<Rightarrow> 'a call) \<Rightarrow> (nat \<times> 'a) set" where
  "items th = {(k, x). \<exists>i. th i = Enqueue (E_true x k)}"

definition released :: "(nat \<Rightarrow> 'a call) \<Rightarrow> nat set" where
  "released th = {k. \<exists>i x. th i = Dequeue (D_true k x)}"

lemma items_upd: "\<not> returned (th i) \<Longrightarrow> items (th(i := c)) = items th \<union> {(k, x). c = Enqueue (E_true x k)}"
  by (auto simp: items_def) (metis returned.simps(1))

lemma released_upd: "\<not> returned (th i) \<Longrightarrow> released (th(i := c)) = released th \<union> {k. \<exists>x. c = Dequeue (D_true k x)}"
  by (auto simp: released_def) (metis returned.simps(3))

section \<open>The invariant\<close>

text \<open>The cell of a position holds the sequence number that says who may use it.\<close>

definition mem_ok :: "nat \<Rightarrow> 'a mpmc \<Rightarrow> (nat \<times> 'a) set \<Rightarrow> nat set \<Rightarrow> bool" where
  "mem_ok C q I R \<longleftrightarrow> length (sequence q) = C \<and> length (cells q) = C
     \<and> (\<forall>k. sequence q ! (k mod C) = k + 1 \<longleftrightarrow> k \<in> fst ` I \<and> k \<notin> R)
     \<and> (\<forall>k. sequence q ! (k mod C) = k \<longleftrightarrow> k \<notin> fst ` I \<and> (C \<le> k \<longrightarrow> k - C \<in> R))
     \<and> (\<forall>c < C. sequence q ! c \<le> enqueue_pos q + C)
     \<and> (\<forall>k < enqueue_pos q. C \<le> k \<longrightarrow> k - C \<in> R)
     \<and> (\<forall>(k, x) \<in> I. k < enqueue_pos q \<and> (k \<notin> R \<longrightarrow> cells q ! (k mod C) = x))
     \<and> R \<subseteq> fst ` I \<and> (\<forall>k < dequeue_pos q. k \<in> fst ` I) \<and> (\<forall>k \<in> R. k < dequeue_pos q)"

fun call_ok :: "nat \<Rightarrow> 'a mpmc \<Rightarrow> (nat \<times> 'a) set \<Rightarrow> nat set \<Rightarrow> 'a call \<Rightarrow> bool" where
  "call_ok C q I R (Enqueue (E_seq x k)) = (k \<le> enqueue_pos q)"
| "call_ok C q I R (Enqueue (E_cas x k)) = (k \<le> enqueue_pos q \<and> (C \<le> k \<longrightarrow> k - C \<in> R))"
| "call_ok C q I R (Enqueue (E_write x k)) = (k < enqueue_pos q \<and> k \<notin> fst ` I)"
| "call_ok C q I R (Enqueue (E_publish x k)) = (k < enqueue_pos q \<and> k \<notin> fst ` I \<and> cells q ! (k mod C) = x)"
| "call_ok C q I R (Dequeue (D_seq k)) = (k \<le> dequeue_pos q)"
| "call_ok C q I R (Dequeue (D_cas k)) = (k \<le> dequeue_pos q \<and> k \<in> fst ` I)"
| "call_ok C q I R (Dequeue (D_read k)) = (k < dequeue_pos q \<and> k \<notin> R)"
| "call_ok C q I R (Dequeue (D_release k x)) = (k < dequeue_pos q \<and> k \<notin> R \<and> (k, x) \<in> I)"
| "call_ok C q I R (Dequeue (D_true k x)) = ((k, x) \<in> I)"
| "call_ok C q I R c = True"

definition mpmc_inv :: "nat \<Rightarrow> 'a mpmc \<times> (nat \<Rightarrow> 'a call) \<Rightarrow> bool" where
  "mpmc_inv C s \<longleftrightarrow> (case s of (q, th) \<Rightarrow> mem_ok C q (items th) (released th)
     \<and> each_once eticket (enqueue_pos q) th \<and> each_once dticket (dequeue_pos q) th
     \<and> (\<forall>i. call_ok C q (items th) (released th) (th i)))"

lemma call_ok_mono:
  assumes "call_ok C q I R c" "enqueue_pos q \<le> enqueue_pos q'" "dequeue_pos q \<le> dequeue_pos q'" "R \<subseteq> R'" "I \<subseteq> I'"
    and "\<And>k. eticket c = Some k \<Longrightarrow> k \<notin> fst ` I \<Longrightarrow> k \<notin> fst ` I' \<and> cells q' ! (k mod C) = cells q ! (k mod C)"
    and "\<And>k. dticket c = Some k \<Longrightarrow> k \<notin> R \<Longrightarrow> k \<notin> R'"
  shows "call_ok C q' I' R' c"
  using assms by (cases "(C, q, I, R, c)" rule: call_ok.cases) (auto simp: subset_iff image_iff)

lemma mem_ok_facts:
  assumes "mem_ok C q I R"
  shows "length (sequence q) = C" "length (cells q) = C"
    and "sequence q ! (k mod C) = k + 1 \<longleftrightarrow> k \<in> fst ` I \<and> k \<notin> R"
    and "sequence q ! (k mod C) = k \<longleftrightarrow> k \<notin> fst ` I \<and> (C \<le> k \<longrightarrow> k - C \<in> R)"
    and "c < C \<Longrightarrow> sequence q ! c \<le> enqueue_pos q + C"
    and "k < enqueue_pos q \<Longrightarrow> C \<le> k \<Longrightarrow> k - C \<in> R"
    and "(k, x) \<in> I \<Longrightarrow> k < enqueue_pos q" "(k, x) \<in> I \<Longrightarrow> k \<notin> R \<Longrightarrow> cells q ! (k mod C) = x"
    and "R \<subseteq> fst ` I" "k < dequeue_pos q \<Longrightarrow> k \<in> fst ` I" "k \<in> R \<Longrightarrow> k < dequeue_pos q"
  using assms unfolding mem_ok_def by auto

lemma dequeue_le_enqueue: "mem_ok C q I R \<Longrightarrow> dequeue_pos q \<le> enqueue_pos q"
  unfolding mem_ok_def by (force simp: not_less [symmetric])

text \<open>Positions of one cell are a multiple of the capacity apart.\<close>

lemma same_cell: "2 \<le> C \<Longrightarrow> j mod C = k mod C \<Longrightarrow> j \<noteq> k + (1 :: nat)"
  by (auto simp: mod_Suc split: if_splits)

lemma ptr_diff_small: "a < 2 ^ 63 \<Longrightarrow> b < 2 ^ 63 \<Longrightarrow> ptr_diff a b = Some (int a - int b)"
  by (simp add: ptr_diff_def intptr_def Let_def)

section \<open>The steps that change the memory\<close>

lemma mem_ok_claim_enqueue:
  assumes "mem_ok C q I R" "C \<le> enqueue_pos q \<longrightarrow> enqueue_pos q - C \<in> R"
  shows "mem_ok C (q\<lparr>enqueue_pos := Suc (enqueue_pos q)\<rparr>) I R"
  using assms unfolding mem_ok_def by (auto simp: less_Suc_eq le_SucI)

lemma mem_ok_claim_dequeue:
  assumes "mem_ok C q I R" "dequeue_pos q \<in> fst ` I"
  shows "mem_ok C (q\<lparr>dequeue_pos := Suc (dequeue_pos q)\<rparr>) I R"
  using assms unfolding mem_ok_def by (auto simp: less_Suc_eq)

lemma mem_ok_write:
  assumes m: "mem_ok C q I R" and C: "2 \<le> C" and k: "k < enqueue_pos q" "k \<notin> fst ` I"
  shows "mem_ok C (q\<lparr>cells := (cells q)[k mod C := x]\<rparr>) I R"
proof -
  have "sequence q ! (k mod C) = k" using mem_ok_facts(4,6) [OF m] k by blast
  then have "j mod C \<noteq> k mod C" if "(j, y) \<in> I" "j \<notin> R" for j y
    using mem_ok_facts(3) [OF m, of j] that same_cell [OF C, of k j] by force
  then have "(cells q)[k mod C := x] ! (j mod C) = y" if "(j, y) \<in> I" "j \<notin> R" for j y
    using mem_ok_facts(8) [OF m that] that by (metis nth_list_update_neq)
  then show ?thesis using m unfolding mem_ok_def by auto
qed

lemma mem_ok_publish:
  assumes m: "mem_ok C q I R" and C: "2 \<le> C" and k: "k < enqueue_pos q" "k \<notin> fst ` I" "cells q ! (k mod C) = x"
  shows "mem_ok C (q\<lparr>sequence := (sequence q)[k mod C := Suc k]\<rparr>) (insert (k, x) I) R"
proof -
  have s: "sequence q ! (k mod C) = k" using mem_ok_facts(4,6) [OF m] k by blast
  have l: "length (sequence q) = C" "k mod C < C" using mem_ok_facts(1) [OF m] C by auto
  have kR: "k \<notin> R" using mem_ok_facts(9) [OF m] k(2) by blast
  have full: "(sequence q)[k mod C := Suc k] ! (j mod C) = j + 1 \<longleftrightarrow> j \<in> fst ` insert (k, x) I \<and> j \<notin> R" for j
  proof (cases "j mod C = k mod C")
    case True
    then have "j \<in> fst ` I \<and> j \<notin> R \<longleftrightarrow> False" using mem_ok_facts(3) [OF m, of j] s same_cell [OF C, of k j] by auto
    then show ?thesis using True l kR by auto
  next
    case False
    then show ?thesis using mem_ok_facts(3) [OF m, of j] by (auto simp: nth_list_update)
  qed
  have empty: "(sequence q)[k mod C := Suc k] ! (j mod C) = j \<longleftrightarrow> j \<notin> fst ` insert (k, x) I \<and> (C \<le> j \<longrightarrow> j - C \<in> R)" for j
  proof (cases "j mod C = k mod C")
    case True
    then have "Suc k \<noteq> j" using same_cell [OF C True] by auto
    moreover have "j \<noteq> k \<Longrightarrow> \<not> (j \<notin> fst ` I \<and> (C \<le> j \<longrightarrow> j - C \<in> R))"
      using mem_ok_facts(4) [OF m, of j] s True by auto
    ultimately show ?thesis using True l by auto
  next
    case False
    then show ?thesis using mem_ok_facts(4) [OF m, of j] by (auto simp: nth_list_update)
  qed
  show ?thesis using m k full empty unfolding mem_ok_def by (auto simp: nth_list_update)
qed

lemma mem_ok_release:
  assumes m: "mem_ok C q I R" and C: "2 \<le> C" and k: "k < dequeue_pos q" "k \<notin> R"
  shows "mem_ok C (q\<lparr>sequence := (sequence q)[k mod C := k + C]\<rparr>) I (insert k R)"
proof -
  have kI: "k \<in> fst ` I" using mem_ok_facts(10) [OF m k(1)] .
  then have s: "sequence q ! (k mod C) = k + 1" using mem_ok_facts(3) [OF m, of k] k by blast
  have l: "length (sequence q) = C" "k mod C < C" using mem_ok_facts(1) [OF m] C by auto
  have kE: "k < enqueue_pos q" using kI mem_ok_facts(7) [OF m] by force
  have nI: "k + C \<notin> fst ` I" using mem_ok_facts(6) [OF m, of "k + C"] mem_ok_facts(7) [OF m] k(2) by force
  have full: "(sequence q)[k mod C := k + C] ! (j mod C) = j + 1 \<longleftrightarrow> j \<in> fst ` I \<and> j \<notin> insert k R" for j
  proof (cases "j mod C = k mod C")
    case True
    then have "k + C \<noteq> j + 1" using same_cell [OF C, of "k + C" j] by auto
    moreover have "j \<noteq> k \<Longrightarrow> \<not> (j \<in> fst ` I \<and> j \<notin> R)" using mem_ok_facts(3) [OF m, of j] s True by auto
    ultimately show ?thesis using True l by auto
  next
    case False
    then show ?thesis using mem_ok_facts(3) [OF m, of j] by (auto simp: nth_list_update)
  qed
  have empty: "(sequence q)[k mod C := k + C] ! (j mod C) = j \<longleftrightarrow> j \<notin> fst ` I \<and> (C \<le> j \<longrightarrow> j - C \<in> insert k R)" for j
  proof (cases "j mod C = k mod C")
    case True
    show ?thesis
    proof (cases "j = k + C")
      case False
      then have "\<not> (j \<notin> fst ` I \<and> (C \<le> j \<longrightarrow> j - C \<in> R))"
        using mem_ok_facts(4) [OF m, of j] s True same_cell [OF C True] by auto
      then show ?thesis using True False l by auto
    qed (use nI True l in auto)
  next
    case False
    then have "j \<noteq> k + C" by auto
    then show ?thesis using False mem_ok_facts(4) [OF m, of j] by (auto simp: nth_list_update)
  qed
  show ?thesis using m k kI kE full empty unfolding mem_ok_def by (auto simp: nth_list_update)
qed

section \<open>Every step keeps the invariant\<close>

lemma mpmc_inv_step:
  assumes inv: "mpmc_inv C (q, th)" and i: "\<not> returned (th i)"
    and m: "mem_ok C q' (items (th(i := c))) (released (th(i := c)))"
    and e: "each_once eticket (enqueue_pos q') (th(i := c))" and d: "each_once dticket (dequeue_pos q') (th(i := c))"
    and c: "call_ok C q' (items (th(i := c))) (released (th(i := c))) c"
    and le: "enqueue_pos q \<le> enqueue_pos q'" "dequeue_pos q \<le> dequeue_pos q'"
    and fresh: "\<And>j k. j \<noteq> i \<Longrightarrow> eticket (th j) = Some k \<Longrightarrow> k \<notin> fst ` items th \<Longrightarrow> cells q' ! (k mod C) = cells q ! (k mod C)"
  shows "mpmc_inv C (q', th(i := c))"
proof -
  have "call_ok C q' (items (th(i := c))) (released (th(i := c))) (th j)" if j: "j \<noteq> i" for j
  proof (rule call_ok_mono [of C q "items th" "released th"])
    show "call_ok C q (items th) (released th) (th j)" using inv by (simp add: mpmc_inv_def)
    show "released th \<subseteq> released (th(i := c))" "items th \<subseteq> items (th(i := c))"
      using released_upd [of th i c, OF i] items_upd [of th i c, OF i] by auto
    show "k \<notin> fst ` items (th(i := c)) \<and> cells q' ! (k mod C) = cells q ! (k mod C)"
      if k: "eticket (th j) = Some k" "k \<notin> fst ` items th" for k
    proof -
      have "\<forall>x. c \<noteq> Enqueue (E_true x k)"
        using each_once_inj [OF e, of i k j] j k(1) by auto
      then show ?thesis using k(2) fresh [OF j k] by (auto simp: items_upd [of th i c, OF i])
    qed
    show "k \<notin> released (th(i := c))" if k: "dticket (th j) = Some k" "k \<notin> released th" for k
    proof -
      have "\<forall>x. c \<noteq> Dequeue (D_true k x)"
        using each_once_inj [OF d, of i k j] j k(1) by auto
      then show ?thesis using k(2) by (auto simp: released_upd [of th i c, OF i])
    qed
  qed (use le in auto)
  then show ?thesis using m e d c by (simp add: mpmc_inv_def)
qed

lemma step_enqueue:
  assumes inv: "mpmc_inv C (q, th)" and C: "2 \<le> C" and small: "enqueue_pos q + C + 1 < 2 ^ 63"
    and i: "th i = Enqueue pc" and s: "mpmc_enqueue C weak q pc = Some (q', pc')"
  shows "mpmc_inv C (q', th(i := Enqueue pc')) \<and> enqueue_pos q' \<le> enqueue_pos q + 1"
proof -
  note m = inv [unfolded mpmc_inv_def prod.case, THEN conjunct1]
    and t = inv [unfolded mpmc_inv_def prod.case, THEN conjunct2, THEN conjunct1]
    and d = inv [unfolded mpmc_inv_def prod.case, THEN conjunct2, THEN conjunct2, THEN conjunct1]
    and calls = inv [unfolded mpmc_inv_def prod.case, THEN conjunct2, THEN conjunct2, THEN conjunct2]
  have ok: "call_ok C q (items th) (released th) (Enqueue pc)" using calls [rule_format, of i] i by simp
  have nr: "\<not> returned (th i)" using s i by (cases pc) auto
  have up: "items (th(i := Enqueue pc')) = items th \<union> {(k, x). pc' = E_true x k}"
    "released (th(i := Enqueue pc')) = released th"
    using items_upd [of th i, OF nr] released_upd [of th i, OF nr] by auto
  have d': "each_once dticket (dequeue_pos q) (th(i := Enqueue pc'))"
    using each_once_same [OF _ d, of "Enqueue pc'" i] i by simp
  have keep: "mpmc_inv C (q, th(i := Enqueue pc'))"
    if "call_ok C q (items th) (released th) (Enqueue pc')" "eticket (Enqueue pc') = eticket (Enqueue pc)" "\<And>x k. pc' \<noteq> E_true x k"
    by (rule mpmc_inv_step [OF inv nr])
      (use that m d' i each_once_same [OF _ t, of "Enqueue pc'" i] in \<open>simp_all add: up\<close>)
  show ?thesis
  proof (cases pc)
    case (E_pos x)
    then show ?thesis using s keep by auto
  next
    case (E_seq x k)
    have l: "k mod C < C" using C by simp
    then have "sequence q ! (k mod C) \<le> enqueue_pos q + C" using mem_ok_facts(5) [OF m] by blast
    then have "ptr_diff (sequence q ! (k mod C)) k = Some (int (sequence q ! (k mod C)) - int k)"
      using small ok E_seq by (intro ptr_diff_small) auto
    then have "q' = q" "pc' = (if sequence q ! (k mod C) = k then E_cas x k else if sequence q ! (k mod C) < k then E_false x else E_pos x)"
      using s E_seq l mem_ok_facts(1) [OF m] by auto
    then show ?thesis using keep ok E_seq mem_ok_facts(4) [OF m, of k] by (auto split: if_splits)
  next
    case (E_cas x k)
    show ?thesis
    proof (cases "\<not> weak \<and> enqueue_pos q = k")
      case True
      then have q': "q' = q\<lparr>enqueue_pos := Suc k\<rparr>" "pc' = E_write x k" using s E_cas small by auto
      have "k \<notin> fst ` items th" using mem_ok_facts(7) [OF m] True by force
      then have "mpmc_inv C (q', th(i := Enqueue pc'))"
        using mem_ok_claim_enqueue [OF m] True ok E_cas d' i each_once_claim [OF _ _ t, of i "Enqueue pc'"]
        by (intro mpmc_inv_step [OF inv nr]) (simp_all only: up, simp_all add: q')
      then show ?thesis using q' True by simp
    next
      case False
      then show ?thesis using s E_cas keep by auto
    qed
  next
    case (E_write x k)
    then have q': "q' = q\<lparr>cells := (cells q)[k mod C := x]\<rparr>" "pc' = E_publish x k"
      using s mem_ok_facts(2) [OF m] C by auto
    have k: "k < enqueue_pos q" "k \<notin> fst ` items th" using ok E_write by auto
    have other: "(cells q)[k mod C := x] ! (j mod C) = cells q ! (j mod C)"
      if "eticket (th a) = Some j" "a \<noteq> i" "j \<notin> fst ` items th" for a j
    proof -
      have "j \<noteq> k" using each_once_inj [OF t, of i k a] that i E_write by auto
      moreover have "j < enqueue_pos q" using each_once_less [OF t that(1)] .
      ultimately have "j mod C \<noteq> k mod C"
        using mem_ok_facts(4,6) [OF m, of j] mem_ok_facts(4,6) [OF m, of k] k that(3) by metis
      then show ?thesis by simp
    qed
    have "mpmc_inv C (q', th(i := Enqueue pc'))"
      using mem_ok_write [OF m C k] k d' i E_write C mem_ok_facts(2) [OF m] each_once_same [OF _ t, of "Enqueue pc'" i] other
      by (intro mpmc_inv_step [OF inv nr]) (simp_all only: up, simp_all add: q')
    then show ?thesis using q' by simp
  next
    case (E_publish x k)
    have k: "k < enqueue_pos q" "k \<notin> fst ` items th" "cells q ! (k mod C) = x" using ok E_publish by auto
    then have q': "q' = q\<lparr>sequence := (sequence q)[k mod C := Suc k]\<rparr>" "pc' = E_true x k"
      using s mem_ok_facts(1) [OF m] C E_publish small by auto
    have it: "items (th(i := Enqueue pc')) = insert (k, x) (items th)" using up q'(2) by auto
    have "mpmc_inv C (q', th(i := Enqueue pc'))"
      using mem_ok_publish [OF m C k] k d' i E_publish each_once_same [OF _ t, of "Enqueue pc'" i]
      by (intro mpmc_inv_step [OF inv nr]) (simp_all add: it up(2), simp_all add: q')
    then show ?thesis using q' by simp
  qed (use s in auto)
qed

lemma step_dequeue:
  assumes inv: "mpmc_inv C (q, th)" and C: "2 \<le> C" and small: "enqueue_pos q + C + 1 < 2 ^ 63"
    and i: "th i = Dequeue pc" and s: "mpmc_dequeue C weak q pc = Some (q', pc')"
  shows "mpmc_inv C (q', th(i := Dequeue pc')) \<and> enqueue_pos q' = enqueue_pos q"
proof -
  note m = inv [unfolded mpmc_inv_def prod.case, THEN conjunct1]
    and t = inv [unfolded mpmc_inv_def prod.case, THEN conjunct2, THEN conjunct1]
    and d = inv [unfolded mpmc_inv_def prod.case, THEN conjunct2, THEN conjunct2, THEN conjunct1]
    and calls = inv [unfolded mpmc_inv_def prod.case, THEN conjunct2, THEN conjunct2, THEN conjunct2]
  have ok: "call_ok C q (items th) (released th) (Dequeue pc)" using calls [rule_format, of i] i by simp
  have nr: "\<not> returned (th i)" using s i by (cases pc) auto
  have up: "items (th(i := Dequeue pc')) = items th"
    "released (th(i := Dequeue pc')) = released th \<union> {k. \<exists>x. pc' = D_true k x}"
    using items_upd [of th i, OF nr] released_upd [of th i, OF nr] by auto
  have t': "each_once eticket (enqueue_pos q) (th(i := Dequeue pc'))"
    using each_once_same [OF _ t, of "Dequeue pc'" i] i by simp
  have le: "dequeue_pos q \<le> enqueue_pos q" using dequeue_le_enqueue [OF m] .
  have keep: "mpmc_inv C (q, th(i := Dequeue pc'))"
    if "call_ok C q (items th) (released th) (Dequeue pc')" "dticket (Dequeue pc') = dticket (Dequeue pc)" "\<And>x k. pc' \<noteq> D_true k x"
    by (rule mpmc_inv_step [OF inv nr])
      (use that m t' i each_once_same [OF _ d, of "Dequeue pc'" i] in \<open>simp_all add: up\<close>)
  show ?thesis
  proof (cases pc)
    case D_pos
    then show ?thesis using s keep by auto
  next
    case (D_seq k)
    have l: "k mod C < C" using C by simp
    then have "sequence q ! (k mod C) \<le> enqueue_pos q + C" using mem_ok_facts(5) [OF m] by blast
    then have "ptr_diff (sequence q ! (k mod C)) (k + 1) = Some (int (sequence q ! (k mod C)) - int (k + 1))"
      using small ok D_seq le by (intro ptr_diff_small) auto
    moreover have "(k + 1) mod 2 ^ 64 = k + 1" using small ok D_seq le by simp
    ultimately have "q' = q" "pc' = (if sequence q ! (k mod C) = k + 1 then D_cas k else if sequence q ! (k mod C) < k + 1 then D_false else D_pos)"
      using s D_seq l mem_ok_facts(1) [OF m] by auto
    then show ?thesis using keep ok D_seq mem_ok_facts(3) [OF m, of k] by (auto split: if_splits)
  next
    case (D_cas k)
    show ?thesis
    proof (cases "\<not> weak \<and> dequeue_pos q = k")
      case True
      then have q': "q' = q\<lparr>dequeue_pos := Suc k\<rparr>" "pc' = D_read k" using s D_cas small le by auto
      have "k \<notin> released th" using mem_ok_facts(11) [OF m] True by force
      then have "mpmc_inv C (q', th(i := Dequeue pc'))"
        using mem_ok_claim_dequeue [OF m] True ok D_cas t' i each_once_claim [OF _ _ d, of i "Dequeue pc'"]
        by (intro mpmc_inv_step [OF inv nr]) (simp_all only: up, simp_all add: q')
      then show ?thesis using q' by simp
    next
      case False
      then show ?thesis using s D_cas keep by auto
    qed
  next
    case (D_read k)
    then have q': "q' = q" "pc' = D_release k (cells q ! (k mod C))"
      using s mem_ok_facts(2) [OF m] C by auto
    have k: "k < dequeue_pos q" "k \<notin> released th" using ok D_read by auto
    then obtain x where x: "(k, x) \<in> items th" using mem_ok_facts(10) [OF m] by force
    then have "(k, cells q ! (k mod C)) \<in> items th" using mem_ok_facts(8) [OF m x k(2)] by simp
    then show ?thesis using keep q' k D_read by simp
  next
    case (D_release k x)
    have k: "k < dequeue_pos q" "k \<notin> released th" "(k, x) \<in> items th" using ok D_release by auto
    then have q': "q' = q\<lparr>sequence := (sequence q)[k mod C := k + C]\<rparr>" "pc' = D_true k x"
      using s mem_ok_facts(1) [OF m] C D_release small le by auto
    have rl: "released (th(i := Dequeue pc')) = insert k (released th)" using up q'(2) by auto
    have "mpmc_inv C (q', th(i := Dequeue pc'))"
      using mem_ok_release [OF m C k(1,2)] k t' i D_release each_once_same [OF _ d, of "Dequeue pc'" i]
      by (intro mpmc_inv_step [OF inv nr]) (simp_all add: rl up(1), simp_all add: q')
    then show ?thesis using q' by simp
  qed (use s in auto)
qed

lemma mpmc_inv_preserved:
  assumes "mpmc_inv C s" "2 \<le> C" "enqueue_pos (fst s) + C + 1 < 2 ^ 63" "mpmc_step C s s'"
  shows "mpmc_inv C s' \<and> enqueue_pos (fst s') \<le> enqueue_pos (fst s) + 1"
  using assms(4)
proof (rule mpmc_stepE)
  fix weak q th i q' c
  assume s: "s = (q, th)" "s' = (q', th(i := c))" "mpmc_call C weak q (th i) = Some (q', c)"
  show ?thesis
  proof (cases "th i")
    case (Enqueue pc)
    then obtain pc' where "mpmc_enqueue C weak q pc = Some (q', pc')" "c = Enqueue pc'" using s(3) by auto
    then show ?thesis using step_enqueue [of C q th i pc weak q' pc'] assms s Enqueue by auto
  next
    case (Dequeue pc)
    then obtain pc' where "mpmc_dequeue C weak q pc = Some (q', pc')" "c = Dequeue pc'" using s(3) by auto
    then show ?thesis using step_dequeue [of C q th i pc weak q' pc'] assms s Dequeue by auto
  qed
qed

lemma mpmc_inv_start:
  assumes st: "mpmc_start C s" and C: "2 \<le> C"
  shows "mpmc_inv C s \<and> enqueue_pos (fst s) = 0"
proof -
  obtain q th where s: "s = (q, th)" by (cases s)
  obtain g where q: "length g = C" "q = MPMCQueue C g" using st s by (auto simp: mpmc_start_def)
  have th: "th i = Dequeue D_pos \<or> (\<exists>x. th i = Enqueue (E_pos x))" for i using st s by (auto simp: mpmc_start_def)
  have "th i \<noteq> Enqueue (E_true x k)" "th i \<noteq> Dequeue (D_true k x)" for i x k using th [of i] by auto
  then have e: "items th = {}" "released th = {}" by (simp_all add: items_def released_def)
  have t: "eticket (th i) = None" "dticket (th i) = None" "call_ok C q {} {} (th i)" for i using th [of i] by auto
  have "k mod C \<noteq> Suc k" for k using mod_less_eq_dividend [of k C] by linarith
  moreover have "k mod C = k \<longleftrightarrow> \<not> C \<le> k" for k
    using mod_less_divisor [of C k] mod_less [of k C] C by linarith
  ultimately have "mem_ok C q {} {}" using q C by (simp add: mem_ok_def MPMCQueue_def)
  then show ?thesis using t by (simp add: mpmc_inv_def s e each_once_def q(2) MPMCQueue_def)
qed

lemma mpmc_inv_run:
  assumes "mpmc_start C s" "2 \<le> C"
  shows "(mpmc_step C ^^ n) s s' \<Longrightarrow> n + C < 2 ^ 63 \<Longrightarrow> mpmc_inv C s' \<and> enqueue_pos (fst s') \<le> n"
proof (induction n arbitrary: s')
  case 0
  then show ?case using mpmc_inv_start [OF assms] by simp
next
  case (Suc n)
  obtain r where r: "(mpmc_step C ^^ n) s r" "mpmc_step C r s'" using Suc.prems(1) by auto
  have "mpmc_inv C r \<and> enqueue_pos (fst r) \<le> n" using Suc.IH [OF r(1)] Suc.prems(2) by simp
  then show ?case using mpmc_inv_preserved [OF _ assms(2) _ r(2)] Suc.prems(2) by fastforce
qed

text \<open>No access leaves the array and no difference overflows.\<close>

lemma mpmc_no_fault:
  assumes inv: "mpmc_inv C (q, th)" and C: "2 \<le> C" and small: "enqueue_pos q + C + 1 < 2 ^ 63" and r: "\<not> returned (th i)"
  shows "mpmc_call C weak q (th i) \<noteq> None"
proof -
  have m: "mem_ok C q (items th) (released th)" and ok: "call_ok C q (items th) (released th) (th i)"
    using inv by (auto simp: mpmc_inv_def)
  have l: "k mod C < C" for k using C by simp
  have s: "sequence q ! (k mod C) \<le> enqueue_pos q + C" for k using mem_ok_facts(5) [OF m] l by blast
  have n: "length (sequence q) = C" "length (cells q) = C" using mem_ok_facts(1,2) [OF m] by auto
  have le: "dequeue_pos q \<le> enqueue_pos q" using dequeue_le_enqueue [OF m] .
  have p: "\<exists>d. ptr_diff (sequence q ! (k mod C)) k = Some d" if "k \<le> enqueue_pos q" for k
    using s [of k] that small ptr_diff_small [of "sequence q ! (k mod C)" k] by auto
  have p1: "\<exists>d. ptr_diff (sequence q ! (k mod C)) ((k + 1) mod 2 ^ 64) = Some d" if "k \<le> dequeue_pos q" for k
    using s [of k] that small le ptr_diff_small [of "sequence q ! (k mod C)" "k + 1"] by auto
  show ?thesis
  proof (cases "th i")
    case (Enqueue pc)
    then show ?thesis using r ok n l p by (cases pc) (auto, force)
  next
    case (Dequeue pc)
    then show ?thesis using r ok n l p1 by (cases pc) (auto, force)
  qed
qed

text \<open>A call that is alone succeeds: an enqueuing one unless the queue is full, a dequeuing one unless it is
  empty, which then returns the oldest item.\<close>

fun drive :: "nat \<Rightarrow> nat \<Rightarrow> 'a mpmc \<Rightarrow> 'a call \<Rightarrow> ('a mpmc \<times> 'a call) option" where
  "drive 0 C q c = Some (q, c)"
| "drive (Suc n) C q c = do { (q, c) \<leftarrow> mpmc_call C False q c; drive n C q c }"

lemma drive_numeral: "drive (numeral n) C q c = do { (q, c) \<leftarrow> mpmc_call C False q c; drive (pred_numeral n) C q c }"
  by (simp add: numeral_eq_Suc)

lemma returned_ticket:
  "eticket c = Some k \<Longrightarrow> returned c \<Longrightarrow> \<exists>x. c = Enqueue (E_true x k)"
  "dticket c = Some k \<Longrightarrow> returned c \<Longrightarrow> \<exists>x. c = Dequeue (D_true k x)"
  by (cases c rule: returned.cases; simp)+

lemma all_returned:
  assumes inv: "mpmc_inv C (q, th)" and r: "\<And>j. j \<noteq> i \<Longrightarrow> returned (th j)" and i: "eticket (th i) = None" "dticket (th i) = None"
  shows "k < enqueue_pos q \<Longrightarrow> k \<in> fst ` items th" and "k < dequeue_pos q \<Longrightarrow> k \<in> released th"
proof -
  have t: "each_once eticket (enqueue_pos q) th" "each_once dticket (dequeue_pos q) th" using inv by (auto simp: mpmc_inv_def)
  show "k \<in> fst ` items th" if "k < enqueue_pos q"
  proof -
    obtain j where j: "eticket (th j) = Some k" using each_once_ex [OF t(1)] \<open>k < enqueue_pos q\<close> by blast
    then have "returned (th j)" using r [of j] i(1) by (metis option.distinct(1))
    then obtain x where "th j = Enqueue (E_true x k)" using returned_ticket(1) [OF j] by blast
    then show ?thesis by (intro image_eqI [of _ _ "(k, x)"]) (auto simp: items_def)
  qed
  show "k \<in> released th" if "k < dequeue_pos q"
  proof -
    obtain j where j: "dticket (th j) = Some k" using each_once_ex [OF t(2)] \<open>k < dequeue_pos q\<close> by blast
    then have "returned (th j)" using r [of j] i(2) by (metis option.distinct(1))
    then obtain x where "th j = Dequeue (D_true k x)" using returned_ticket(2) [OF j] by blast
    then show ?thesis by (auto simp: released_def)
  qed
qed

lemma mpmc_enqueue_alone:
  assumes inv: "mpmc_inv C (q, th)" and C: "2 \<le> C" and small: "enqueue_pos q + C + 1 < 2 ^ 63"
    and r: "\<And>j. j \<noteq> i \<Longrightarrow> returned (th j)" and i: "th i = Enqueue (E_pos x)"
  shows "enqueue_pos q < dequeue_pos q + C \<Longrightarrow> \<exists>q'. drive 5 C q (th i) = Some (q', Enqueue (E_true x (enqueue_pos q)))"
    and "enqueue_pos q = dequeue_pos q + C \<Longrightarrow> drive 2 C q (th i) = Some (q, Enqueue (E_false x))"
proof -
  let ?E = "enqueue_pos q"
  have m: "mem_ok C q (items th) (released th)" using inv by (simp add: mpmc_inv_def)
  note f = mem_ok_facts [OF m] and ret = all_returned [OF inv r] 
  have l: "?E mod C < C" "length (sequence q) = C" "length (cells q) = C" using C f(1,2) by auto
  have n: "?E \<notin> fst ` items th" using f(7) by force
  {
    assume "?E < dequeue_pos q + C"
    then have "C \<le> ?E \<longrightarrow> ?E - C \<in> released th" using ret(2) [of i "?E - C"] i by auto
    then have "sequence q ! (?E mod C) = ?E" using f(4) [of ?E] n by blast
    then show "\<exists>q'. drive 5 C q (th i) = Some (q', Enqueue (E_true x ?E))"
      using l small by (simp add: i drive_numeral ptr_diff_small)
  }
  {
    assume e: "?E = dequeue_pos q + C"
    let ?D = "dequeue_pos q"
    have "?D \<in> fst ` items th" "?D \<notin> released th" using ret(1) [of i ?D] i e C f(11) [of ?D] by auto
    then have "sequence q ! (?E mod C) = ?D + 1" using f(3) [of ?D] e by simp
    then show "drive 2 C q (th i) = Some (q, Enqueue (E_false x))"
      using l small e C by (simp add: i drive_numeral ptr_diff_small)
  }
qed

lemma mpmc_dequeue_alone:
  assumes inv: "mpmc_inv C (q, th)" and C: "2 \<le> C" and small: "enqueue_pos q + C + 1 < 2 ^ 63"
    and r: "\<And>j. j \<noteq> i \<Longrightarrow> returned (th j)" and i: "th i = Dequeue D_pos"
  shows "dequeue_pos q < enqueue_pos q \<Longrightarrow>
      \<exists>q' x. drive 5 C q (th i) = Some (q', Dequeue (D_true (dequeue_pos q) x)) \<and> (dequeue_pos q, x) \<in> items th"
    and "dequeue_pos q = enqueue_pos q \<Longrightarrow> drive 2 C q (th i) = Some (q, Dequeue D_false)"
proof -
  let ?D = "dequeue_pos q"
  have m: "mem_ok C q (items th) (released th)" using inv by (simp add: mpmc_inv_def)
  note f = mem_ok_facts [OF m] and ret = all_returned [OF inv r]
  have l: "?D mod C < C" "length (sequence q) = C" "length (cells q) = C" using C f(1,2) by auto
  have R: "?D \<notin> released th" using f(11) [of ?D] by auto
  {
    assume d: "?D < enqueue_pos q"
    then obtain x where x: "(?D, x) \<in> items th" using ret(1) [of i ?D] i by force
    then have "sequence q ! (?D mod C) = ?D + 1" using f(3) [of ?D] R by force
    then show "\<exists>q' x. drive 5 C q (th i) = Some (q', Dequeue (D_true ?D x)) \<and> (?D, x) \<in> items th"
      using l small d x f(8) [OF x R] by (simp add: i drive_numeral ptr_diff_small)
  }
  {
    assume e: "?D = enqueue_pos q"
    then have "?D \<notin> fst ` items th" using f(7) by force
    moreover have "C \<le> ?D \<longrightarrow> ?D - C \<in> released th" using ret(2) [of i "?D - C"] i C by auto
    ultimately have "sequence q ! (?D mod C) = ?D" using f(4) [of ?D] by blast
    then show "drive 2 C q (th i) = Some (q, Dequeue D_false)"
      using l small e by (simp add: i drive_numeral ptr_diff_small)
  }
qed

section \<open>First in, first out\<close>

text \<open>C7. Any number of threads enqueue and dequeue at the same time on a queue of capacity at least two; the
  exchange may fail for no reason. After any run of \<open>n\<close> steps in any order, as long as the counters have not
  come near \<open>2 ^ 63\<close>: no call is at a fault; the positions claimed by enqueuing calls are exactly those
  below \<open>enqueue_pos\<close>, each claimed once, and those claimed by dequeuing calls exactly those below \<open>dequeue_pos\<close>,
  each once, of which there are at most as many; and a dequeuing call that returns true with position \<open>k\<close> returns
  the item that the call with position \<open>k\<close> enqueued, which has returned. So every item comes out at most
  once, in the order in which the positions were claimed.\<close>

theorem mpmc_fifo:
  assumes "mpmc_start C s" "2 \<le> C" "(mpmc_step C ^^ n) s (q, th)" "n + C + 1 < 2 ^ 63"
  shows "(\<forall>i weak. returned (th i) \<or> mpmc_call C weak q (th i) \<noteq> None)
    \<and> (\<forall>k. k < enqueue_pos q \<longleftrightarrow> (\<exists>i. eticket (th i) = Some k)) \<and> (\<forall>i j k. eticket (th i) = Some k \<and> eticket (th j) = Some k \<longrightarrow> i = j)
    \<and> (\<forall>k. k < dequeue_pos q \<longleftrightarrow> (\<exists>i. dticket (th i) = Some k)) \<and> (\<forall>i j k. dticket (th i) = Some k \<and> dticket (th j) = Some k \<longrightarrow> i = j)
    \<and> dequeue_pos q \<le> enqueue_pos q \<and> enqueue_pos q \<le> dequeue_pos q + C
    \<and> (\<forall>i k x. th i = Dequeue (D_true k x) \<longrightarrow> (\<exists>j. th j = Enqueue (E_true x k)))"
proof -
  have inv: "mpmc_inv C (q, th)" and n: "enqueue_pos q \<le> n" using mpmc_inv_run [OF assms(1-3)] assms(4) by auto
  then have m: "mem_ok C q (items th) (released th)"
    and e: "each_once eticket (enqueue_pos q) th" and d: "each_once dticket (dequeue_pos q) th"
    and c: "\<forall>i. call_ok C q (items th) (released th) (th i)" by (auto simp: mpmc_inv_def)
  have "mpmc_call C weak q (th i) \<noteq> None" if "\<not> returned (th i)" for i weak
    using mpmc_no_fault [OF inv assms(2) _ that] n assms(4) by simp
  moreover have "enqueue_pos q \<le> dequeue_pos q + C"
  proof (rule ccontr)
    assume "\<not> ?thesis"
    then have "dequeue_pos q + C < enqueue_pos q" by simp
    then have "dequeue_pos q \<in> released th" using mem_ok_facts(6) [OF m, of "dequeue_pos q + C"] by simp
    then show False using mem_ok_facts(11) [OF m] by blast
  qed
  moreover have "\<exists>j. th j = Enqueue (E_true x k)" if "th i = Dequeue (D_true k x)" for i k x
    using c [rule_format, of i] that by (auto simp: items_def)
  ultimately show ?thesis using e d dequeue_le_enqueue [OF m] unfolding each_once_def by blast
qed

text \<open>A capacity of one breaks the rule: the number of a full cell is the number of the next free one, and the
  second item overwrites the first, which is then never returned.\<close>

fun mpmc_run :: "nat \<Rightarrow> 'a mpmc \<Rightarrow> 'a call list \<Rightarrow> nat list \<Rightarrow> ('a mpmc \<times> 'a call list) option" where
  "mpmc_run C q th [] = Some (q, th)"
| "mpmc_run C q th (i # is) = do { c \<leftarrow> aget th i; (q, c) \<leftarrow> mpmc_call C False q c; mpmc_run C q (th[i := c]) is }"

definition with_calls :: "'a call list \<Rightarrow> nat \<Rightarrow> 'a call" where
  "with_calls th i = (if i < length th then th ! i else Dequeue D_pos)"

lemma mpmc_run_steps:
  "mpmc_run C q th is = Some (q', th') \<Longrightarrow> length is = n \<Longrightarrow> (mpmc_step C ^^ n) (q, with_calls th) (q', with_calls th')"
proof (induction "is" arbitrary: q th n)
  case (Cons i "is")
  obtain r c where c: "i < length th" "mpmc_call C False q (th ! i) = Some (r, c)" "mpmc_run C r (th[i := c]) is = Some (q', th')"
    using Cons.prems by (auto simp: bind_eq_Some_conv aget_def split: if_splits)
  have "mpmc_step C (q, with_calls th) (r, (with_calls th)(i := c))"
    using c(1,2) by (intro mpmc_step.intros) (simp add: with_calls_def)
  moreover have "(with_calls th)(i := c) = with_calls (th[i := c])" using c(1) by (auto simp: with_calls_def)
  ultimately have "mpmc_step C (q, with_calls th) (r, with_calls (th[i := c]))" by simp
  then have "(mpmc_step C ^^ Suc (length is)) (q, with_calls th) (q', with_calls th')"
    using Cons.IH [OF c(3) refl] by (rule relpowp_Suc_I2)
  then show ?case using Cons.prems(2) by (simp only: list.size add_0_right One_nat_def add_Suc_right)
qed simp

lemma mpmc_capacity_1:
  "mpmc_run 1 (MPMCQueue 1 [0]) [Enqueue (E_pos 7), Enqueue (E_pos 8), Dequeue D_pos] ([0, 0, 0, 0, 0] @ [1, 1, 1, 1, 1] @ [2, 2, 2])
   = Some (\<lparr>sequence = [2], cells = [8], enqueue_pos = 2, dequeue_pos = 0\<rparr>,
       [Enqueue (E_true 7 0), Enqueue (E_true (8 :: int) 1), Dequeue (D_seq 0)])"
  by (simp add: MPMCQueue_def ptr_diff_def intptr_def aget_def aset_def)

theorem mpmc_fifo_witness:
  "\<exists>q th. (mpmc_step 2 ^^ 10) (MPMCQueue 2 [0, 0], with_calls [Enqueue (E_pos (5 :: int))]) (q, th)
     \<and> th 1 = Dequeue (D_true 0 5) \<and> (\<exists>j. th j = Enqueue (E_true 5 0))"
proof -
  let ?q = "\<lparr>sequence = [2, 1], cells = [5, 0], enqueue_pos = 1, dequeue_pos = 1\<rparr>"
  let ?th = "[Enqueue (E_true 5 0), Dequeue (D_true 0 (5 :: int))]"
  have "mpmc_run 2 (MPMCQueue 2 [0, 0]) [Enqueue (E_pos 5), Dequeue D_pos] [0, 0, 0, 0, 0, 1, 1, 1, 1, 1] = Some (?q, ?th)"
    by (simp add: MPMCQueue_def upt_rec ptr_diff_def intptr_def aget_def aset_def)
  then have r: "(mpmc_step 2 ^^ 10) (MPMCQueue 2 [0, 0], with_calls [Enqueue (E_pos 5), Dequeue D_pos]) (?q, with_calls ?th)"
    by (rule mpmc_run_steps) simp
  have eq: "with_calls [Enqueue (E_pos (5 :: int)), Dequeue D_pos] = with_calls [Enqueue (E_pos 5)]"
    by (auto simp: with_calls_def nth_Cons')
  have st: "mpmc_start 2 (MPMCQueue 2 [0, 0], with_calls [Enqueue (E_pos (5 :: int))])"
    unfolding mpmc_start_def by (intro conjI exI [of _ "[0, 0]"]) (auto simp: with_calls_def)
  have th: "with_calls ?th 1 = Dequeue (D_true 0 5)" by (simp add: with_calls_def)
  have "\<exists>j. with_calls ?th j = Enqueue (E_true 5 0)"
    using mpmc_fifo [OF st _ r [unfolded eq]] th by simp
  then show ?thesis using r [unfolded eq] th by blast
qed

end
