(* ===== verification/SpscQueue.thy ===== *)
theory SpscQueue
  imports Prelude
begin

text \<open>
  The circular queue for one producer and one consumer, \<open>prepare_for_interview/circle_q/circle_q.hpp\<close>. The producer
  offers the items of a list one after the other and the consumer keeps what it gets; a call that returns
  false is made again. Every access to the shared indexes and to a cell of the buffer is a step.
\<close>

section \<open>The code\<close>

record 'a spsc =
  head :: nat
  tail :: nat
  buffer :: "'a list"

text \<open>The place in \<open>enqueue\<close> with the local copy of the tail, and in \<open>dequeue\<close> with the copy of the head.\<close>

datatype put_pc = Put_tail | Put_head nat | Put_write nat | Put_store nat

datatype 'a get_pc = Get_head | Get_tail nat | Get_read nat | Get_store nat 'a

record 'a spsc_run = "'a spsc" +
  put_at :: put_pc
  sent :: nat
  get_at :: "'a get_pc"
  got :: "'a list"

definition rem_size :: "nat \<Rightarrow> nat \<Rightarrow> nat option" where
  "rem_size a b = (if b = 0 then None else Some (a mod b))"

text \<open>One step of the producer. Its item is \<open>items ! sent\<close>; with no item left it has no step.\<close>

definition spsc_enqueue :: "nat \<Rightarrow> 'a list \<Rightarrow> 'a spsc_run \<Rightarrow> 'a spsc_run option" where
  "spsc_enqueue Capacity items s = (if sent s < length items then (case put_at s of
       Put_tail \<Rightarrow> Some (s\<lparr>put_at := Put_head (tail s)\<rparr>)
     | Put_head t \<Rightarrow> do {
         next_tail \<leftarrow> rem_size (t + 1) Capacity;
         Some (s\<lparr>put_at := if next_tail = head s then Put_tail else Put_write t\<rparr>)
       }
     | Put_write t \<Rightarrow> do {
         b \<leftarrow> aset (buffer s) t (items ! sent s);
         Some (s\<lparr>buffer := b, put_at := Put_store t\<rparr>)
       }
     | Put_store t \<Rightarrow> do {
         next_tail \<leftarrow> rem_size (t + 1) Capacity;
         Some (s\<lparr>tail := next_tail, put_at := Put_tail, sent := sent s + 1\<rparr>)
       }) else None)"

definition spsc_dequeue :: "nat \<Rightarrow> 'a spsc_run \<Rightarrow> 'a spsc_run option" where
  "spsc_dequeue Capacity s = (case get_at s of
       Get_head \<Rightarrow> Some (s\<lparr>get_at := Get_tail (head s)\<rparr>)
     | Get_tail h \<Rightarrow> Some (s\<lparr>get_at := if h = tail s then Get_head else Get_read h\<rparr>)
     | Get_read h \<Rightarrow> do { item \<leftarrow> aget (buffer s) h; Some (s\<lparr>get_at := Get_store h item\<rparr>) }
     | Get_store h item \<Rightarrow> do {
         next_head \<leftarrow> rem_size (h + 1) Capacity;
         Some (s\<lparr>head := next_head, get_at := Get_head, got := got s @ [item]\<rparr>)
       })"

definition spsc_start :: "'a list \<Rightarrow> 'a spsc_run" where
  "spsc_start garbage = \<lparr>head = 0, tail = 0, buffer = garbage, put_at = Put_tail, sent = 0, get_at = Get_head, got = []\<rparr>"

inductive spsc_step :: "nat \<Rightarrow> 'a list \<Rightarrow> 'a spsc_run \<Rightarrow> 'a spsc_run \<Rightarrow> bool" for C items where
  put: "spsc_enqueue C items s = Some s' \<Longrightarrow> spsc_step C items s s'"
| get: "spsc_dequeue C s = Some s' \<Longrightarrow> spsc_step C items s s'"

inductive_cases spsc_stepE: "spsc_step C items s s'"

section \<open>The invariant\<close>

text \<open>\<open>d\<close> items have been taken and \<open>e\<close> stored; the cells between hold the items in order.\<close>

definition ring_ok :: "nat \<Rightarrow> 'a list \<Rightarrow> 'a spsc_run \<Rightarrow> bool" where
  "ring_ok C items s \<longleftrightarrow> (let d = length (got s); e = sent s in
     0 < C \<and> length (buffer s) = C \<and> head s = d mod C \<and> tail s = e mod C \<and> d \<le> e \<and> e < d + C \<and> e \<le> length items
     \<and> got s = take d items \<and> (\<forall>k. d \<le> k \<and> k < e \<longrightarrow> buffer s ! (k mod C) = items ! k))"

definition put_ok :: "nat \<Rightarrow> 'a list \<Rightarrow> 'a spsc_run \<Rightarrow> bool" where
  "put_ok C items s \<longleftrightarrow> (case put_at s of
     Put_tail \<Rightarrow> True
   | Put_head t \<Rightarrow> t = tail s
   | Put_write t \<Rightarrow> t = tail s \<and> sent s + 1 < length (got s) + C
   | Put_store t \<Rightarrow> t = tail s \<and> sent s + 1 < length (got s) + C \<and> sent s < length items \<and> buffer s ! t = items ! sent s)"

definition get_ok :: "'a list \<Rightarrow> 'a spsc_run \<Rightarrow> bool" where
  "get_ok items s \<longleftrightarrow> (case get_at s of
     Get_head \<Rightarrow> True
   | Get_tail h \<Rightarrow> h = head s
   | Get_read h \<Rightarrow> h = head s \<and> length (got s) < sent s
   | Get_store h x \<Rightarrow> h = head s \<and> length (got s) < sent s \<and> x = items ! length (got s))"

definition spsc_inv :: "nat \<Rightarrow> 'a list \<Rightarrow> 'a spsc_run \<Rightarrow> bool" where
  "spsc_inv C items s \<longleftrightarrow> ring_ok C items s \<and> put_ok C items s \<and> get_ok items s"

lemma spsc_frame [simp]:
  "ring_ok C items (s\<lparr>put_at := a\<rparr>) = ring_ok C items s" "ring_ok C items (s\<lparr>get_at := b\<rparr>) = ring_ok C items s"
  "put_ok C items (s\<lparr>get_at := b\<rparr>) = put_ok C items s" "get_ok items (s\<lparr>put_at := a\<rparr>) = get_ok items s"
  "get_ok items (s\<lparr>buffer := d\<rparr>) = get_ok items s"
  by (simp_all add: ring_ok_def put_ok_def get_ok_def split: put_pc.splits get_pc.splits)

lemma mod_step: "0 < C \<Longrightarrow> (a mod C + 1) mod C = (a + 1) mod (C :: nat)"
  by (simp add: mod_Suc_eq)

lemma spsc_enqueue_inv:
  assumes inv: "spsc_inv C items s" and st: "spsc_enqueue C items s = Some s'"
  shows "spsc_inv C items s'"
proof -
  have r: "ring_ok C items s" and p: "put_ok C items s" and g: "get_ok items s" and len: "sent s < length items"
    using inv st by (auto simp: spsc_inv_def spsc_enqueue_def split: if_splits)
  note ring = r [unfolded ring_ok_def Let_def]
  have C: "0 < C" using ring by simp
  show ?thesis
  proof (cases "put_at s")
    case Put_tail
    then have "s' = s\<lparr>put_at := Put_head (tail s)\<rparr>" using st len by (simp add: spsc_enqueue_def)
    then show ?thesis using inv by (simp add: spsc_inv_def put_ok_def)
  next
    case (Put_head t)
    have s': "s' = s\<lparr>put_at := if (t + 1) mod C = head s then Put_tail else Put_write t\<rparr>"
      using st len Put_head C by (simp add: spsc_enqueue_def rem_size_def)
    have t: "t = sent s mod C" using p Put_head ring by (simp add: put_ok_def)
    have "sent s + 1 < length (got s) + C" if "(t + 1) mod C \<noteq> head s"
    proof (rule ccontr)
      assume "\<not> ?thesis"
      then have "sent s + 1 = length (got s) + C" using ring by linarith
      then have "(sent s + 1) mod C = length (got s) mod C" by simp
      then show False using that ring t mod_step [OF C, of "sent s"] by simp
    qed
    then show ?thesis using inv s' Put_head by (simp add: spsc_inv_def put_ok_def)
  next
    case (Put_write t)
    have t: "t = sent s mod C" "t = tail s" "sent s + 1 < length (got s) + C" using p Put_write ring by (auto simp: put_ok_def)
    have l: "t < length (buffer s)" using t(1) ring by simp
    then have s': "s' = s\<lparr>buffer := (buffer s)[t := items ! sent s], put_at := Put_store t\<rparr>"
      using st len Put_write by (simp add: spsc_enqueue_def)
    have "(buffer s)[t := items ! sent s] ! (k mod C) = items ! k" if "length (got s) \<le> k" "k < sent s" for k
    proof -
      have "k mod C \<noteq> t" using mod_near [of "length (got s)" k "sent s" C] that ring t(1) by auto
      then show ?thesis using ring that by simp
    qed
    then have "ring_ok C items (s\<lparr>buffer := (buffer s)[t := items ! sent s]\<rparr>)" using ring by (simp add: ring_ok_def Let_def)
    then show ?thesis using g s' t l len by (simp add: spsc_inv_def put_ok_def)
  next
    case (Put_store t)
    have t: "t = sent s mod C" "sent s + 1 < length (got s) + C" "buffer s ! t = items ! sent s"
      using p Put_store ring by (auto simp: put_ok_def)
    have s': "s' = s\<lparr>tail := (t + 1) mod C, put_at := Put_tail, sent := sent s + 1\<rparr>"
      using st len Put_store C by (simp add: spsc_enqueue_def rem_size_def)
    have "ring_ok C items s'"
      using ring t len mod_step [OF C, of "sent s"] by (auto simp: s' ring_ok_def Let_def less_Suc_eq)
    moreover have "get_ok items s'" using g by (auto simp: s' get_ok_def split: get_pc.splits)
    ultimately show ?thesis by (simp add: spsc_inv_def put_ok_def s')
  qed
qed

lemma spsc_dequeue_inv:
  assumes inv: "spsc_inv C items s" and st: "spsc_dequeue C s = Some s'"
  shows "spsc_inv C items s'"
proof -
  have r: "ring_ok C items s" and p: "put_ok C items s" and g: "get_ok items s"
    using inv by (auto simp: spsc_inv_def)
  note ring = r [unfolded ring_ok_def Let_def]
  have C: "0 < C" using ring by simp
  show ?thesis
  proof (cases "get_at s")
    case Get_head
    then have "s' = s\<lparr>get_at := Get_tail (head s)\<rparr>" using st by (simp add: spsc_dequeue_def)
    then show ?thesis using inv by (simp add: spsc_inv_def get_ok_def)
  next
    case (Get_tail h)
    have s': "s' = s\<lparr>get_at := if h = tail s then Get_head else Get_read h\<rparr>" using st Get_tail by (simp add: spsc_dequeue_def)
    have "h = length (got s) mod C" using g Get_tail ring by (simp add: get_ok_def)
    then have "h \<noteq> tail s \<Longrightarrow> length (got s) < sent s" using ring by (metis le_neq_implies_less)
    then show ?thesis using inv s' Get_tail by (simp add: spsc_inv_def get_ok_def)
  next
    case (Get_read h)
    have h: "h = length (got s) mod C" "length (got s) < sent s" using g Get_read ring by (auto simp: get_ok_def)
    then have "aget (buffer s) h = Some (items ! length (got s))" using ring by simp
    then have "s' = s\<lparr>get_at := Get_store h (items ! length (got s))\<rparr>" using st Get_read by (simp add: spsc_dequeue_def)
    then show ?thesis using inv Get_read by (simp add: spsc_inv_def get_ok_def)
  next
    case (Get_store h x)
    have h: "h = length (got s) mod C" "length (got s) < sent s" "x = items ! length (got s)"
      using g Get_store ring by (auto simp: get_ok_def)
    have s': "s' = s\<lparr>head := (h + 1) mod C, get_at := Get_head, got := got s @ [x]\<rparr>"
      using st Get_store C by (simp add: spsc_dequeue_def rem_size_def)
    have "got s @ [x] = take (length (got s) + 1) items"
      using ring h by (metis Suc_eq_plus1 less_le_trans take_Suc_conv_app_nth)
    then have "ring_ok C items s'"
      using ring h mod_step [OF C, of "length (got s)"] by (simp add: s' ring_ok_def Let_def)
    moreover have "put_ok C items s'" using p by (auto simp: s' put_ok_def split: put_pc.splits)
    ultimately show ?thesis by (simp add: spsc_inv_def get_ok_def s')
  qed
qed

lemma spsc_reachable:
  assumes "length garbage = C" "0 < C"
  shows "(spsc_step C items)\<^sup>*\<^sup>* (spsc_start garbage) s \<Longrightarrow> spsc_inv C items s"
proof (induction rule: rtranclp_induct)
  case base
  then show ?case using assms by (simp add: spsc_inv_def ring_ok_def put_ok_def get_ok_def spsc_start_def Let_def)
next
  case (step s s')
  then show ?case by (auto elim!: spsc_stepE intro: spsc_enqueue_inv spsc_dequeue_inv)
qed

section \<open>First in, first out\<close>

text \<open>After any interleaving the consumer has got a prefix of the items, what is stored and not taken is at most
  one less than the capacity, and neither thread is at a fault.\<close>

theorem spsc_fifo:
  assumes "length garbage = C" "0 < C" "(spsc_step C items)\<^sup>*\<^sup>* (spsc_start garbage) s"
  shows "got s = take (length (got s)) items \<and> length (got s) \<le> sent s \<and> sent s < length (got s) + C
    \<and> (sent s < length items \<longrightarrow> spsc_enqueue C items s \<noteq> None) \<and> spsc_dequeue C s \<noteq> None"
proof -
  have inv: "spsc_inv C items s" using spsc_reachable [OF assms] .
  then have C: "0 < C" "length (buffer s) = C" "tail s < C" "head s < C" by (auto simp: spsc_inv_def ring_ok_def Let_def)
  show ?thesis
    using inv C by (auto simp: spsc_inv_def ring_ok_def Let_def spsc_enqueue_def spsc_dequeue_def rem_size_def put_ok_def get_ok_def
      split: put_pc.splits get_pc.splits)
qed

text \<open>A queue of capacity one accepts nothing: one cell always stays empty.\<close>

lemma spsc_capacity_1:
  assumes "(spsc_step 1 items)\<^sup>*\<^sup>* (spsc_start [g]) s"
  shows "sent s = 0"
  using assms
proof (induction rule: rtranclp_induct)
  case (step s s')
  have "spsc_inv 1 items s" using spsc_reachable [of "[g]" 1 items s] step.hyps(1) by simp
  then have "\<forall>t. put_at s \<noteq> Put_store t" by (auto simp: spsc_inv_def put_ok_def ring_ok_def Let_def)
  then have "sent s' = sent s"
    using step.hyps(2)
    by (auto elim!: spsc_stepE simp: spsc_enqueue_def spsc_dequeue_def bind_eq_Some_conv split: if_splits put_pc.splits get_pc.splits)
  then show ?case using step.IH by simp
qed (simp add: spsc_start_def)

end
