(* ===== verification/RefCount.thy ===== *)
theory RefCount
  imports Prelude
begin

text \<open>
  What the counted pointers of \<open>cpp_fs/shared_pointer\<close> and \<open>cpp_fs/rcstring\<close> share: variables that hold the
  address of a counter, and counters that say how many variables do. A counter without a holder does not exist.
\<close>

definition holders :: "('v \<Rightarrow> addr option) \<Rightarrow> addr \<Rightarrow> 'v set" where
  "holders env c = {v. env v = Some c}"

definition counts_ok :: "('v \<Rightarrow> addr option) \<Rightarrow> (addr \<Rightarrow> nat option) \<Rightarrow> bool" where
  "counts_ok env cnt \<longleftrightarrow> finite (dom env) \<and> (\<forall>c. cnt c = (if holders env c = {} then None else Some (card (holders env c))))"

lemma finite_holders: "finite (dom env) \<Longrightarrow> finite (holders env c)"
  by (rule finite_subset [of _ "dom env"]) (auto simp: holders_def)

lemma counts_okD:
  assumes "counts_ok env cnt" "env v = Some c"
  shows "cnt c = Some (card (holders env c))" "0 < card (holders env c)" "card (holders env c) \<le> card (dom env)"
proof -
  have f: "finite (dom env)" and v: "v \<in> holders env c" using assms by (auto simp: counts_ok_def holders_def)
  then show "cnt c = Some (card (holders env c))" using assms(1) by (auto simp: counts_ok_def)
  show "0 < card (holders env c)" using v finite_holders [OF f] by (auto simp: card_gt_0_iff)
  show "card (holders env c) \<le> card (dom env)" using f by (intro card_mono) (auto simp: holders_def)
qed

lemma counts_ok_live: "counts_ok env cnt \<Longrightarrow> cnt c \<noteq> None \<longleftrightarrow> (\<exists>v. env v = Some c)"
  by (auto simp: counts_ok_def holders_def)

lemma holders_add: "env v = None \<Longrightarrow> holders (env(v \<mapsto> c)) d = (if d = c then insert v (holders env d) else holders env d)"
  by (auto simp: holders_def)

lemma holders_remove: "holders (env(v := None)) d = holders env d - {v}"
  by (auto simp: holders_def)

lemma counts_ok_new:
  "counts_ok env cnt \<Longrightarrow> env v = None \<Longrightarrow> cnt c = None \<Longrightarrow> counts_ok (env(v \<mapsto> c)) (cnt(c \<mapsto> 1))"
  by (auto simp: counts_ok_def holders_add split: if_splits)

lemma counts_ok_add:
  assumes "counts_ok env cnt" "env v = None" "cnt c = Some n"
  shows "counts_ok (env(v \<mapsto> c)) (cnt(c \<mapsto> n + 1))"
proof -
  have "finite (dom env)" "n = card (holders env c)" using assms by (auto simp: counts_ok_def split: if_splits)
  moreover have "v \<notin> holders env c" using assms(2) by (simp add: holders_def)
  ultimately show ?thesis using assms by (auto simp: counts_ok_def holders_add finite_holders)
qed

lemma counts_ok_remove:
  assumes "counts_ok env cnt" "env v = Some c" "cnt c = Some n"
  shows "counts_ok (env(v := None)) (cnt(c := if n = 1 then None else Some (n - 1)))"
proof -
  have f: "finite (dom env)" and n: "n = card (holders env c)" and all: "\<And>d. cnt d = (if holders env d = {} then None else Some (card (holders env d)))"
    using assms by (auto simp: counts_ok_def split: if_splits)
  have v: "v \<in> holders env c" using assms(2) by (simp add: holders_def)
  have "card (holders env c - {v}) = n - 1" using v finite_holders [OF f] n by simp
  moreover have "holders env c - {v} = {} \<longleftrightarrow> n = 1"
    using v n by (auto simp: card_1_singleton_iff)
  moreover have "d \<noteq> c \<Longrightarrow> holders env d - {v} = holders env d" for d using assms(2) by (auto simp: holders_def)
  ultimately show ?thesis using f all by (auto simp: counts_ok_def holders_remove)
qed

text \<open>An assignment takes one holder from a counter and gives it to another.\<close>

lemma counts_ok_move:
  assumes "counts_ok env cnt" "env v = Some c" "cnt c = Some n" "cnt d = Some m" "c \<noteq> d"
  shows "counts_ok (env(v \<mapsto> d)) (cnt(c := if n = 1 then None else Some (n - 1), d \<mapsto> m + 1))"
proof -
  have "counts_ok (env(v := None)) (cnt(c := if n = 1 then None else Some (n - 1)))" (is "counts_ok ?env ?cnt")
    by (rule counts_ok_remove [OF assms(1-3)])
  moreover have "?cnt d = Some m" using assms(4,5) by simp
  ultimately have "counts_ok (?env(v \<mapsto> d)) (?cnt(d \<mapsto> m + 1))" by (intro counts_ok_add) auto
  then show ?thesis by simp
qed

end
