(* ===== verification/SharedPtr.thy ===== *)
theory SharedPtr
  imports RefCount
begin

text \<open>
  The shared pointer of \<open>cpp_fs/shared_pointer\<close>: an object and a counter on the heap, and pointers that hold
  the addresses of both. Deleting what is not there and touching a deleted counter are faults. \<open>new\<close> answers
  with an address that is not in use, or throws.
\<close>

section \<open>The code\<close>

record 'a sp_mem =
  objs :: "addr \<Rightarrow> 'a option"
  cnts :: "addr \<Rightarrow> nat option"

record SharedPtr =
  m_ptr :: "addr option"
  m_counter :: addr

definition delete_obj :: "addr option \<Rightarrow> 'a sp_mem \<Rightarrow> 'a sp_mem option" where
  "delete_obj p m = (case p of
     None \<Rightarrow> Some m
   | Some a \<Rightarrow> (case objs m a of None \<Rightarrow> None | Some _ \<Rightarrow> Some (m\<lparr>objs := (objs m)(a := None)\<rparr>)))"

text \<open>The constructor: without memory for the counter it deletes the object and throws (the result \<open>None\<close>).\<close>

definition SharedPtr_ctor :: "addr option \<Rightarrow> addr option \<Rightarrow> 'a sp_mem \<Rightarrow> (SharedPtr option \<times> 'a sp_mem) option" where
  "SharedPtr_ctor new ptr m = (case new of
     None \<Rightarrow> do { m \<leftarrow> delete_obj ptr m; Some (None, m) }
   | Some c \<Rightarrow> do {
       c_assert (cnts m c = None);
       Some (Some \<lparr>m_ptr = ptr, m_counter = c\<rparr>, m\<lparr>cnts := (cnts m)(c \<mapsto> 1)\<rparr>)
     })"

definition SharedPtr_dtor :: "SharedPtr \<Rightarrow> 'a sp_mem \<Rightarrow> 'a sp_mem option" where
  "SharedPtr_dtor this m = do {
     n \<leftarrow> cnts m (m_counter this);
     let m = m\<lparr>cnts := (cnts m)(m_counter this \<mapsto> szsub n 1)\<rparr>;
     if 0 = szsub n 1 then do {
       m \<leftarrow> delete_obj (m_ptr this) m;
       Some (m\<lparr>cnts := (cnts m)(m_counter this := None)\<rparr>)
     } else Some m
   }"

definition SharedPtr_copy :: "SharedPtr \<Rightarrow> 'a sp_mem \<Rightarrow> (SharedPtr \<times> 'a sp_mem) option" where
  "SharedPtr_copy other m = do {
     n \<leftarrow> cnts m (m_counter other);
     Some (\<lparr>m_ptr = m_ptr other, m_counter = m_counter other\<rparr>, m\<lparr>cnts := (cnts m)(m_counter other \<mapsto> (n + 1) mod 2 ^ 64)\<rparr>)
   }"

text \<open>The conversion from a pointer to a derived class: the address stays what it is.\<close>

definition SharedPtr_convert :: "SharedPtr \<Rightarrow> 'a sp_mem \<Rightarrow> (SharedPtr \<times> 'a sp_mem) option" where
  "SharedPtr_convert other m = do {
     let ptr = m_ptr other;
     n \<leftarrow> cnts m (m_counter other);
     Some (\<lparr>m_ptr = ptr, m_counter = m_counter other\<rparr>, m\<lparr>cnts := (cnts m)(m_counter other \<mapsto> (n + 1) mod 2 ^ 64)\<rparr>)
   }"

definition SharedPtr_assign :: "SharedPtr \<Rightarrow> SharedPtr \<Rightarrow> 'a sp_mem \<Rightarrow> (SharedPtr \<times> 'a sp_mem) option" where
  "SharedPtr_assign this other m = do {
     let tmp_ptr = m_ptr this;
     let tmp_counter = m_counter this;
     n \<leftarrow> cnts m tmp_counter;
     let m = m\<lparr>cnts := (cnts m)(tmp_counter \<mapsto> szsub n 1)\<rparr>;
     let this = other;
     k \<leftarrow> cnts m (m_counter this);
     let m = m\<lparr>cnts := (cnts m)(m_counter this \<mapsto> (k + 1) mod 2 ^ 64)\<rparr>;
     t \<leftarrow> cnts m tmp_counter;
     if 0 = t then do {
       m \<leftarrow> delete_obj tmp_ptr m;
       Some (this, m\<lparr>cnts := (cnts m)(tmp_counter := None)\<rparr>)
     } else Some (this, m)
   }"

definition SharedPtr_deref :: "SharedPtr \<Rightarrow> 'a sp_mem \<Rightarrow> 'a option" where
  "SharedPtr_deref this m = do { a \<leftarrow> m_ptr this; objs m a }"

definition SharedPtr_arrow :: "SharedPtr \<Rightarrow> addr option" where
  "SharedPtr_arrow this = m_ptr this"

section \<open>Programs with shared pointers\<close>

text \<open>A program constructs pointers to objects it has just made (or to none), copies, assigns and destroys them.\<close>

datatype 'a sp_op = Make nat "(addr \<times> 'a) option" "addr option" | Copy nat nat | Assign nat nat | Destroy nat

type_synonym 'a sp_state = "'a sp_mem \<times> (nat \<Rightarrow> SharedPtr option)"

text \<open>The programs of the theorem: a variable is used while it lives, and an object is given to the constructor once,
  when it has just been made, so that its address is fresh.\<close>

fun sp_allowed :: "'a sp_op \<Rightarrow> 'a sp_state \<Rightarrow> bool" where
  "sp_allowed (Make v obj new) (m, vars) \<longleftrightarrow> vars v = None \<and> (case obj of None \<Rightarrow> True | Some (a, x) \<Rightarrow> objs m a = None)
     \<and> (case new of None \<Rightarrow> True | Some c \<Rightarrow> cnts m c = None)"
| "sp_allowed (Copy v w) (m, vars) \<longleftrightarrow> vars v = None \<and> vars w \<noteq> None"
| "sp_allowed (Assign v w) (m, vars) \<longleftrightarrow> vars v \<noteq> None \<and> vars w \<noteq> None"
| "sp_allowed (Destroy v) (m, vars) \<longleftrightarrow> vars v \<noteq> None"

fun sp_exec :: "'a sp_op \<Rightarrow> 'a sp_state \<Rightarrow> 'a sp_state option" where
  "sp_exec (Make v obj new) (m, vars) = do {
     let m = (case obj of None \<Rightarrow> m | Some (a, x) \<Rightarrow> m\<lparr>objs := (objs m)(a \<mapsto> x)\<rparr>);
     (p, m) \<leftarrow> SharedPtr_ctor new (map_option fst obj) m;
     Some (m, vars(v := p))
   }"
| "sp_exec (Copy v w) (m, vars) = do { q \<leftarrow> vars w; (p, m) \<leftarrow> SharedPtr_copy q m; Some (m, vars(v \<mapsto> p)) }"
| "sp_exec (Assign v w) (m, vars) = do { p \<leftarrow> vars v; q \<leftarrow> vars w; (p, m) \<leftarrow> SharedPtr_assign p q m; Some (m, vars(v \<mapsto> p)) }"
| "sp_exec (Destroy v) (m, vars) = do { p \<leftarrow> vars v; m \<leftarrow> SharedPtr_dtor p m; Some (m, vars(v := None)) }"

text \<open>A step that is not allowed is left out.\<close>

fun sp_run :: "'a sp_op list \<Rightarrow> 'a sp_state \<Rightarrow> 'a sp_state option" where
  "sp_run [] s = Some s"
| "sp_run (op # ops) s = (if sp_allowed op s then do { s \<leftarrow> sp_exec op s; sp_run ops s } else sp_run ops s)"

definition sp_start :: "'a sp_state" where
  "sp_start = (\<lparr>objs = (\<lambda>_. None), cnts = (\<lambda>_. None)\<rparr>, \<lambda>_. None)"

section \<open>The invariant\<close>

definition counter_of :: "(nat \<Rightarrow> SharedPtr option) \<Rightarrow> nat \<Rightarrow> addr option" where
  "counter_of vars v = map_option m_counter (vars v)"

definition pointed :: "(nat \<Rightarrow> SharedPtr option) \<Rightarrow> addr set" where
  "pointed vars = {a. \<exists>v p. vars v = Some p \<and> m_ptr p = Some a}"

definition same_object :: "SharedPtr \<Rightarrow> SharedPtr \<Rightarrow> bool" where
  "same_object p q \<longleftrightarrow> (m_counter p = m_counter q \<longrightarrow> m_ptr p = m_ptr q)
     \<and> (m_ptr p = m_ptr q \<and> m_ptr p \<noteq> None \<longrightarrow> m_counter p = m_counter q)"

definition coherent :: "(nat \<Rightarrow> SharedPtr option) \<Rightarrow> bool" where
  "coherent vars \<longleftrightarrow> (\<forall>p \<in> ran vars. \<forall>q \<in> ran vars. same_object p q)"

lemma coherent_subset: "coherent vars \<Longrightarrow> ran vars' \<subseteq> ran vars \<Longrightarrow> coherent vars'"
  by (auto simp: coherent_def)

lemma ran_remove: "ran (vars(v := None)) \<subseteq> ran vars"
  by (auto simp: ran_def)

lemma ran_copy: "vars w = Some q \<Longrightarrow> ran (vars(v \<mapsto> q)) \<subseteq> ran vars"
  by (auto simp: ran_def)

lemma coherent_add:
  assumes "coherent vars" "\<And>q. q \<in> ran vars \<Longrightarrow> same_object p q"
  shows "coherent (vars(v \<mapsto> p))"
proof -
  have r: "q \<in> ran (vars(v \<mapsto> p)) \<Longrightarrow> q = p \<or> q \<in> ran vars" for q by (auto simp: ran_def split: if_splits)
  have sym: "same_object q p" if "same_object p q" for q using that unfolding same_object_def by metis
  have "same_object p p" by (simp add: same_object_def)
  then have "same_object x y" if xy: "x = p \<or> x \<in> ran vars" "y = p \<or> y \<in> ran vars" for x y
    using xy assms(2) assms(1) [unfolded coherent_def] sym [OF assms(2)] by auto
  then show ?thesis using r unfolding coherent_def by simp
qed

definition sp_inv :: "'a sp_state \<Rightarrow> bool" where
  "sp_inv s \<longleftrightarrow> (case s of (m, vars) \<Rightarrow> counts_ok (counter_of vars) (cnts m) \<and> dom (objs m) = pointed vars \<and> coherent vars)"

lemma counter_of_upd: "counter_of (vars(v := x)) = (counter_of vars)(v := map_option m_counter x)"
  by (auto simp: counter_of_def)

lemma sp_invD:
  assumes "sp_inv (m, vars)"
  shows "counts_ok (counter_of vars) (cnts m)" "dom (objs m) = pointed vars"
    and "vars v = Some p \<Longrightarrow> vars w = Some q \<Longrightarrow> m_counter p = m_counter q \<Longrightarrow> m_ptr p = m_ptr q"
    and "vars v = Some p \<Longrightarrow> vars w = Some q \<Longrightarrow> m_ptr p = m_ptr q \<Longrightarrow> m_ptr p \<noteq> None \<Longrightarrow> m_counter p = m_counter q"
    and "coherent vars"
proof -
  have i: "counts_ok (counter_of vars) (cnts m)" "dom (objs m) = pointed vars" "coherent vars" using assms by (auto simp: sp_inv_def)
  then show "counts_ok (counter_of vars) (cnts m)" "dom (objs m) = pointed vars" "coherent vars" by blast+
  have "same_object p q" if "vars v = Some p" "vars w = Some q"
    using i(3) that by (auto simp: coherent_def ran_def)
  then show "vars v = Some p \<Longrightarrow> vars w = Some q \<Longrightarrow> m_counter p = m_counter q \<Longrightarrow> m_ptr p = m_ptr q"
    and "vars v = Some p \<Longrightarrow> vars w = Some q \<Longrightarrow> m_ptr p = m_ptr q \<Longrightarrow> m_ptr p \<noteq> None \<Longrightarrow> m_counter p = m_counter q"
    by (auto simp: same_object_def)
qed

lemma pointed_add: "vars v = None \<Longrightarrow> pointed (vars(v \<mapsto> p)) = pointed vars \<union> set_option (m_ptr p)"
  by (auto simp: pointed_def elem_set) (metis option.distinct(1))+

lemma pointed_split: "vars v = Some p \<Longrightarrow> pointed vars = pointed (vars(v := None)) \<union> set_option (m_ptr p)"
  using pointed_add [of "vars(v := None)" v p] by (simp add: fun_upd_idem)

text \<open>The last holder of a counter is the only variable that points to its object.\<close>

lemma last_holder:
  assumes inv: "sp_inv (m, vars)" and v: "vars v = Some p" and n: "cnts m (m_counter p) = Some 1"
  shows "pointed (vars(v := None)) = pointed vars - set_option (m_ptr p)"
proof -
  have "card (holders (counter_of vars) (m_counter p)) = 1"
    using counts_okD(1) [OF sp_invD(1) [OF inv], of v "m_counter p"] v n by (simp add: counter_of_def)
  moreover have "v \<in> holders (counter_of vars) (m_counter p)" using v by (simp add: holders_def counter_of_def)
  ultimately have "holders (counter_of vars) (m_counter p) = {v}" by (auto simp: card_1_singleton_iff)
  then have only: "w = v" if "vars w = Some q" "m_ptr q = m_ptr p" "m_ptr p \<noteq> None" for w q
    using sp_invD(4) [OF inv that(1) v that(2)] that by (auto simp: holders_def counter_of_def)
  have "a \<notin> pointed (vars(v := None))" if "m_ptr p = Some a" for a
  proof
    assume "a \<in> pointed (vars(v := None))"
    then obtain w q where "vars w = Some q" "m_ptr q = Some a" "w \<noteq> v" by (auto simp: pointed_def split: if_splits)
    then show False using only [of w q] that by simp
  qed
  then show ?thesis using pointed_split [of vars v p, OF v] by (auto simp: elem_set)
qed

text \<open>Where another variable shares the counter, the object stays pointed to.\<close>

lemma other_holder:
  assumes inv: "sp_inv (m, vars)" and v: "vars v = Some p" and n: "cnts m (m_counter p) = Some n" "n \<noteq> 1"
  shows "pointed (vars(v := None)) = pointed vars"
proof -
  let ?H = "holders (counter_of vars) (m_counter p)"
  have c: "card ?H = n" "0 < card ?H"
    using counts_okD [OF sp_invD(1) [OF inv], of v "m_counter p"] v n(1) by (simp_all add: counter_of_def)
  have "\<not> ?H \<subseteq> {v}"
  proof
    assume "?H \<subseteq> {v}"
    then have "card ?H \<le> 1" using card_mono [of "{v}" ?H] by simp
    then show False using c n(2) by simp
  qed
  then obtain w where "w \<noteq> v" "w \<in> ?H" by auto
  then obtain q where q: "vars w = Some q" "m_counter q = m_counter p" by (auto simp: holders_def counter_of_def)
  have "m_ptr q = m_ptr p" using sp_invD(3) [OF inv q(1) v q(2)] .
  then have "a \<in> pointed (vars(v := None))" if "m_ptr p = Some a" for a
    using q(1) \<open>w \<noteq> v\<close> that by (auto simp: pointed_def)
  then show ?thesis using pointed_split [of vars v p, OF v] by (auto simp: elem_set)
qed

section \<open>The operations keep the invariant\<close>

lemma sp_inv_Make:
  assumes inv: "sp_inv (m, vars)" and al: "sp_allowed (Make v obj new) (m, vars)"
  shows "\<exists>m' p. sp_exec (Make v obj new) (m, vars) = Some (m', vars(v := p)) \<and> sp_inv (m', vars(v := p)) \<and> (p = None \<longleftrightarrow> new = None)"
proof (cases new)
  case None
  have "sp_exec (Make v obj new) (m, vars) = Some (m, vars(v := None))"
  proof (cases obj)
    case (Some ax)
    then have "objs m (fst ax) = None" using al by (auto split: prod.splits)
    then show ?thesis using None Some by (cases ax) (simp add: SharedPtr_ctor_def delete_obj_def fun_upd_idem)
  qed (use None in \<open>simp add: SharedPtr_ctor_def delete_obj_def\<close>)
  then show ?thesis using inv al None by (intro exI [of _ m] exI [of _ None]) (simp add: fun_upd_idem)
next
  case (Some c)
  let ?p = "\<lparr>m_ptr = map_option fst obj, m_counter = c\<rparr>"
  let ?m = "case obj of None \<Rightarrow> m | Some (a, x) \<Rightarrow> m\<lparr>objs := (objs m)(a \<mapsto> x)\<rparr>"
  have v: "vars v = None" "cnts m c = None" using al Some by auto
  have cm: "cnts ?m = cnts m" by (simp split: option.splits prod.splits)
  have "sp_exec (Make v obj new) (m, vars) = Some (?m\<lparr>cnts := (cnts m)(c \<mapsto> 1)\<rparr>, vars(v \<mapsto> ?p))"
    using v cm Some by (simp add: SharedPtr_ctor_def Let_def)
  moreover have "sp_inv (?m\<lparr>cnts := (cnts m)(c \<mapsto> 1)\<rparr>, vars(v \<mapsto> ?p))"
  proof -
    have cnt: "counts_ok (counter_of (vars(v \<mapsto> ?p))) ((cnts m)(c \<mapsto> 1))"
      using counts_ok_new [OF sp_invD(1) [OF inv] _ v(2)] v(1) by (simp add: counter_of_upd counter_of_def)
    have dom: "dom (objs ?m) = pointed (vars(v \<mapsto> ?p))"
      using sp_invD(2) [OF inv] pointed_add [of vars v ?p, OF v(1)] by (cases obj) (auto split: prod.splits)
    have "m_counter q \<noteq> c" if "vars w = Some q" for w q
      using counts_ok_live [OF sp_invD(1) [OF inv], of c] v(2) that by (auto simp: counter_of_def)
    moreover have "m_ptr q \<noteq> map_option fst obj" if w: "vars w = Some q" "m_ptr q \<noteq> None" for w q
    proof
      assume e: "m_ptr q = map_option fst obj"
      then obtain a x where o: "obj = Some (a, x)" "m_ptr q = Some a" using w(2) by (cases obj) auto
      then have "a \<in> dom (objs m)" using sp_invD(2) [OF inv] w(1) by (auto simp: pointed_def)
      then show False using al o by auto
    qed
    ultimately have "same_object ?p q" if q: "q \<in> ran vars" for q using q by (force simp: ran_def same_object_def)
    then have "coherent (vars(v \<mapsto> ?p))" by (rule coherent_add [OF sp_invD(5) [OF inv]])
    then show ?thesis using cnt dom by (simp add: sp_inv_def)
  qed
  ultimately show ?thesis using Some by blast
qed

lemma sp_inv_Copy:
  assumes inv: "sp_inv (m, vars)" and v: "vars v = None" and w: "vars w = Some q" and small: "card (dom vars) < 2 ^ 64 - 1"
  shows "\<exists>m'. sp_exec (Copy v w) (m, vars) = Some (m', vars(v \<mapsto> q)) \<and> sp_inv (m', vars(v \<mapsto> q))"
proof -
  define n where "n = card (holders (counter_of vars) (m_counter q))"
  have d: "dom (counter_of vars) = dom vars" by (auto simp: counter_of_def dom_def)
  have n: "cnts m (m_counter q) = Some n" "n \<le> card (dom vars)"
    using counts_okD [OF sp_invD(1) [OF inv], of w "m_counter q"] w unfolding d n_def by (auto simp: counter_of_def)
  then have "(n + 1) mod 2 ^ 64 = n + 1" using small by simp
  then have ex: "sp_exec (Copy v w) (m, vars) = Some (m\<lparr>cnts := (cnts m)(m_counter q \<mapsto> n + 1)\<rparr>, vars(v \<mapsto> q))"
    using w n(1) by (cases q) (simp add: SharedPtr_copy_def)
  have "counts_ok (counter_of (vars(v \<mapsto> q))) ((cnts m)(m_counter q \<mapsto> n + 1))"
    using counts_ok_add [OF sp_invD(1) [OF inv] _ n(1), of v] v by (simp add: counter_of_upd counter_of_def)
  moreover have "dom (objs m) = pointed (vars(v \<mapsto> q))"
    using sp_invD(2) [OF inv] pointed_add [of vars v q, OF v] w by (auto simp: pointed_def elem_set)
  ultimately have "sp_inv (m\<lparr>cnts := (cnts m)(m_counter q \<mapsto> n + 1)\<rparr>, vars(v \<mapsto> q))"
    using coherent_subset [OF sp_invD(5) [OF inv] ran_copy [of vars w q, OF w]] by (simp add: sp_inv_def)
  then show ?thesis using ex by blast
qed

lemma sp_inv_Destroy:
  assumes inv: "sp_inv (m, vars)" and v: "vars v = Some p" and small: "card (dom vars) < 2 ^ 64 - 1"
  shows "\<exists>m'. sp_exec (Destroy v) (m, vars) = Some (m', vars(v := None)) \<and> sp_inv (m', vars(v := None))"
proof -
  let ?c = "m_counter p"
  define n where "n = card (holders (counter_of vars) ?c)"
  have d: "dom (counter_of vars) = dom vars" by (auto simp: counter_of_def dom_def)
  have n: "cnts m ?c = Some n" "n \<le> card (dom vars)" "0 < n"
    using counts_okD [OF sp_invD(1) [OF inv], of v ?c] v unfolding d n_def by (auto simp: counter_of_def)
  have sz: "szsub n 1 = n - 1" using n small by (intro szsub_ge) auto
  have cnt: "counts_ok (counter_of (vars(v := None))) ((cnts m)(?c := if n = 1 then None else Some (n - 1)))"
    using counts_ok_remove [OF sp_invD(1) [OF inv] _ n(1), of v] v by (simp add: counter_of_upd counter_of_def)
  have rest: "coherent (vars(v := None))" using coherent_subset [OF sp_invD(5) [OF inv] ran_remove] .
  show ?thesis
  proof (cases "n = 1")
    case True
    have dom: "dom (objs m) = pointed vars" using sp_invD(2) [OF inv] .
    have p: "pointed (vars(v := None)) = pointed vars - set_option (m_ptr p)" using last_holder [OF inv v] n(1) True by simp
    have "\<exists>m'. delete_obj (m_ptr p) (m\<lparr>cnts := (cnts m)(?c \<mapsto> 0)\<rparr>) = Some m' \<and> cnts m' = (cnts m)(?c \<mapsto> 0)
        \<and> dom (objs m') = pointed (vars(v := None))"
    proof (cases "m_ptr p")
      case (Some a)
      then obtain x where "objs m a = Some x" using dom v by (force simp: pointed_def)
      then show ?thesis using Some dom p by (auto simp: delete_obj_def)
    qed (use dom p in \<open>simp add: delete_obj_def\<close>)
    then obtain m' where m': "delete_obj (m_ptr p) (m\<lparr>cnts := (cnts m)(?c \<mapsto> 0)\<rparr>) = Some m'" "cnts m' = (cnts m)(?c \<mapsto> 0)"
      "dom (objs m') = pointed (vars(v := None))" by blast
    have "sp_exec (Destroy v) (m, vars) = Some (m'\<lparr>cnts := (cnts m)(?c := None)\<rparr>, vars(v := None))"
      using v n(1) sz True m'(1,2) by (simp add: SharedPtr_dtor_def Let_def)
    then show ?thesis using cnt True m'(3) rest unfolding sp_inv_def prod.case by auto
  next
    case False
    have "sp_exec (Destroy v) (m, vars) = Some (m\<lparr>cnts := (cnts m)(?c \<mapsto> n - 1)\<rparr>, vars(v := None))"
      using v n(1,3) sz False by (simp add: SharedPtr_dtor_def Let_def)
    moreover have "dom (objs m) = pointed (vars(v := None))"
      using sp_invD(2) [OF inv] other_holder [OF inv v n(1) False] by simp
    ultimately show ?thesis using cnt False rest unfolding sp_inv_def prod.case by auto
  qed
qed

text \<open>Assigning to a pointer with another counter is destroying it and copying.\<close>

lemma assign_destroy_copy:
  assumes "m_counter p \<noteq> m_counter q" "cnts m (m_counter p) = Some n" "cnts m (m_counter q) = Some k"
  shows "SharedPtr_assign p q m = do { m \<leftarrow> SharedPtr_dtor p m; SharedPtr_copy q m }"
proof -
  have del: "delete_obj a (m\<lparr>cnts := f\<rparr>) = map_option (\<lambda>m. m\<lparr>cnts := f\<rparr>) (delete_obj a m)" for a f and m :: "'a sp_mem"
    by (simp add: delete_obj_def split: option.splits)
  show ?thesis
    using assms by (cases "delete_obj (m_ptr p) m")
      (simp_all add: SharedPtr_assign_def SharedPtr_dtor_def SharedPtr_copy_def Let_def del fun_upd_twist)
qed

lemma sp_inv_Assign:
  assumes inv: "sp_inv (m, vars)" and v: "vars v = Some p" and w: "vars w = Some q" and small: "card (dom vars) < 2 ^ 64 - 1"
  shows "\<exists>m'. sp_exec (Assign v w) (m, vars) = Some (m', vars(v \<mapsto> q)) \<and> sp_inv (m', vars(v \<mapsto> q))"
proof -
  have d: "dom (counter_of vars) = dom vars" by (auto simp: counter_of_def dom_def)
  obtain n where n: "cnts m (m_counter p) = Some n" "n \<le> card (dom vars)" "0 < n"
    using counts_okD [OF sp_invD(1) [OF inv], of v "m_counter p"] v unfolding d by (auto simp: counter_of_def)
  obtain k where k: "cnts m (m_counter q) = Some k"
    using counts_okD [OF sp_invD(1) [OF inv], of w "m_counter q"] w by (auto simp: counter_of_def)
  show ?thesis
  proof (cases "m_counter p = m_counter q")
    case True
    then have pq: "p = q" using sp_invD(3) [OF inv v w] by simp
    have "szsub n 1 = n - 1" using n small by (intro szsub_ge) auto
    then have "sp_exec (Assign v w) (m, vars) = Some (m, vars(v \<mapsto> q))"
      using v w n small by (simp add: SharedPtr_assign_def Let_def pq fun_upd_idem)
    then show ?thesis using inv v pq by (simp add: fun_upd_idem)
  next
    case False
    then have wv: "w \<noteq> v" using v w by auto
    obtain m1 where m1: "sp_exec (Destroy v) (m, vars) = Some (m1, vars(v := None))" "sp_inv (m1, vars(v := None))"
      using sp_inv_Destroy [OF inv v small] by blast
    have "card (dom (vars(v := None))) < 2 ^ 64 - 1"
      using small by (simp add: le_less_trans [OF card_Diff1_le])
    then obtain m2 where m2: "sp_exec (Copy v w) (m1, vars(v := None)) = Some (m2, vars(v \<mapsto> q))" "sp_inv (m2, vars(v \<mapsto> q))"
      using sp_inv_Copy [OF m1(2), of v w q] w wv by auto
    have "SharedPtr_dtor p m = Some m1" using m1(1) v by (auto simp: bind_eq_Some_conv)
    moreover have "SharedPtr_copy q m1 = Some (q, m2)" using m2(1) w wv by (auto simp: bind_eq_Some_conv dest!: fun_cong [of _ _ v])
    ultimately have "SharedPtr_assign p q m = Some (q, m2)" using assign_destroy_copy [OF False n(1) k] by simp
    then show ?thesis using v w m2(2) by simp
  qed
qed

lemma sp_inv_step:
  assumes inv: "sp_inv (m, vars)" and al: "sp_allowed op (m, vars)" and small: "card (dom vars) < 2 ^ 64 - 1"
  shows "\<exists>m' vars'. sp_exec op (m, vars) = Some (m', vars') \<and> sp_inv (m', vars') \<and> card (dom vars') \<le> card (dom vars) + 1"
proof -
  have fin: "finite (dom vars)"
    using sp_invD(1) [OF inv] by (simp add: counts_ok_def counter_of_def dom_def)
  have size: "card (dom (vars(v := x))) \<le> card (dom vars) + 1" for v x
  proof -
    have "dom (vars(v := x)) \<subseteq> insert v (dom vars)" by auto
    then have "card (dom (vars(v := x))) \<le> card (insert v (dom vars))" using fin by (intro card_mono) auto
    also have "\<dots> \<le> card (dom vars) + 1" using fin by (simp add: card_insert_if)
    finally show ?thesis .
  qed
  show ?thesis
  proof (cases op)
    case (Make v obj new)
    then show ?thesis using sp_inv_Make [OF inv al [unfolded Make]] size by blast
  next
    case (Copy v w)
    then obtain q where "vars v = None" "vars w = Some q" using al by auto
    then show ?thesis using sp_inv_Copy [OF inv _ _ small, of v w q] Copy size by blast
  next
    case (Assign v w)
    then obtain p q where "vars v = Some p" "vars w = Some q" using al by auto
    then show ?thesis using sp_inv_Assign [OF inv _ _ small, of v p w q] Assign size by blast
  next
    case (Destroy v)
    then obtain p where "vars v = Some p" using al by auto
    then show ?thesis using sp_inv_Destroy [OF inv _ small, of v p] Destroy size by blast
  qed
qed

lemma sp_run_inv:
  "\<lbrakk>sp_inv (m, vars); card (dom vars) + length ops < 2 ^ 64\<rbrakk> \<Longrightarrow>
   \<exists>m' vars'. sp_run ops (m, vars) = Some (m', vars') \<and> sp_inv (m', vars')"
proof (induction ops arbitrary: m vars)
  case (Cons op ops)
  show ?case
  proof (cases "sp_allowed op (m, vars)")
    case True
    obtain m' vars' where "sp_exec op (m, vars) = Some (m', vars')" "sp_inv (m', vars')" "card (dom vars') \<le> card (dom vars) + 1"
      using sp_inv_step [OF Cons.prems(1) True] Cons.prems(2) by auto
    then show ?thesis using Cons.IH [of m' vars'] Cons.prems(2) True by auto
  next
    case False
    then show ?thesis using Cons.IH [OF Cons.prems(1)] Cons.prems(2) by auto
  qed
qed auto

lemma sp_inv_start: "sp_inv sp_start"
  by (simp add: sp_start_def sp_inv_def counts_ok_def counter_of_def holders_def pointed_def coherent_def dom_def)

section \<open>No leak and no pointer to a deleted object\<close>

text \<open>C8. A program gives every object to the constructor of one shared pointer only, when it has just been made with
  \<open>new\<close> (a second pointer made from the same raw pointer deletes it twice, \<open>two_counters_delete_twice\<close> below), and
  uses each pointer while it lives. Then, however it constructs, copies, assigns and destroys shared pointers in
  fewer than \<open>2 ^ 64\<close> operations, and also when the allocation of a counter throws, no operation touches deleted
  memory or deletes twice; the objects that live are those that some pointer points to, so the last pointer
  to an object deletes it and no other does; the counters that live are those of the pointers, and each says how
  many pointers share it; and a pointer can be dereferenced unless it is NULL.\<close>

theorem shared_ptr_safe:
  assumes "length ops < 2 ^ 64"
  shows "\<exists>m vars. sp_run ops sp_start = Some (m, vars)
    \<and> dom (objs m) = {a. \<exists>v p. vars v = Some p \<and> m_ptr p = Some a}
    \<and> (\<forall>c. cnts m c = (if \<exists>v p. vars v = Some p \<and> m_counter p = c
             then Some (card {v. \<exists>p. vars v = Some p \<and> m_counter p = c}) else None))
    \<and> (\<forall>v p. vars v = Some p \<and> m_ptr p \<noteq> None \<longrightarrow> SharedPtr_deref p m \<noteq> None)"
proof -
  obtain m vars where r: "sp_run ops sp_start = Some (m, vars)" "sp_inv (m, vars)"
    using sp_run_inv [of "fst sp_start" "snd sp_start" ops] sp_inv_start assms by (auto simp: sp_start_def)
  have h: "holders (counter_of vars) c = {v. \<exists>p. vars v = Some p \<and> m_counter p = c}" for c
    by (auto simp: holders_def counter_of_def)
  have "cnts m c = (if holders (counter_of vars) c = {} then None else Some (card (holders (counter_of vars) c)))" for c
    using sp_invD(1) [OF r(2)] by (simp add: counts_ok_def)
  then have "cnts m c = (if \<exists>v p. vars v = Some p \<and> m_counter p = c
      then Some (card {v. \<exists>p. vars v = Some p \<and> m_counter p = c}) else None)" for c
    unfolding h by auto
  moreover have "SharedPtr_deref p m \<noteq> None" if vp: "vars v = Some p" "m_ptr p \<noteq> None" for v p
  proof -
    obtain a where a: "m_ptr p = Some a" using vp(2) by blast
    then have "a \<in> dom (objs m)" unfolding sp_invD(2) [OF r(2)] pointed_def using vp(1) by blast
    then show ?thesis using a by (auto simp: SharedPtr_deref_def)
  qed
  ultimately show ?thesis using r(1) sp_invD(2) [OF r(2)] unfolding pointed_def by blast
qed

theorem shared_ptr_safe_witness:
  "\<exists>m vars. sp_run [Make 0 (Some (10, 7 :: int)) (Some 100), Copy 1 0, Destroy 0, Make 2 (Some (11, 8)) (Some 101), Assign 1 2]
      sp_start = Some (m, vars)
    \<and> dom (objs m) = {a. \<exists>v p. vars v = Some p \<and> m_ptr p = Some a} \<and> vars 0 = None \<and> vars 1 = vars 2 \<and> objs m 10 = None"
  using shared_ptr_safe [of "[Make 0 (Some (10, 7 :: int)) (Some 100), Copy 1 0, Destroy 0, Make 2 (Some (11, 8)) (Some 101), Assign 1 2]"]
  by (simp add: sp_start_def SharedPtr_ctor_def SharedPtr_copy_def SharedPtr_dtor_def SharedPtr_assign_def delete_obj_def szsub_def Let_def)

text \<open>Two pointers made from the same object have two counters: the second destructor deletes it again.\<close>

lemma two_counters_delete_twice:
  "do { (p, m) \<leftarrow> SharedPtr_ctor (Some 1) (Some 5) \<lparr>objs = [5 \<mapsto> x], cnts = Map.empty\<rparr>;
        (q, m) \<leftarrow> SharedPtr_ctor (Some 2) (Some 5) m;
        p \<leftarrow> p; q \<leftarrow> q;
        m \<leftarrow> SharedPtr_dtor p m;
        SharedPtr_dtor q m } = None"
  by (simp add: SharedPtr_ctor_def SharedPtr_dtor_def delete_obj_def szsub_def Let_def)

end
