(* ===== verification/RcString.thy ===== *)
theory RcString
  imports RefCount CString
begin

text \<open>
  The string with a shared buffer of \<open>cpp_fs/rcstring\<close>: a copy only counts, and the buffer is copied when a
  character of a shared one is asked for to be written. A buffer is on the heap together with its count.
\<close>

section \<open>The code\<close>

record SharedRef =
  m_count :: nat
  m_ref_str :: string

type_synonym rc_heap = "addr \<Rightarrow> SharedRef option"

datatype rc_exception = bad_alloc | out_of_range

definition c_str :: "string \<Rightarrow> string option" where
  "c_str buf = (if NUL \<in> set buf then Some (takeWhile (\<lambda>c. c \<noteq> NUL) buf) else None)"

definition set_count :: "addr \<Rightarrow> nat \<Rightarrow> rc_heap \<Rightarrow> rc_heap option" where
  "set_count a n h = do { r \<leftarrow> h a; Some (h(a \<mapsto> r\<lparr>m_count := n\<rparr>)) }"

definition dec_count :: "addr \<Rightarrow> rc_heap \<Rightarrow> rc_heap option" where
  "dec_count a h = do { r \<leftarrow> h a; set_count a (szsub (m_count r) 1) h }"

definition inc_count :: "addr \<Rightarrow> rc_heap \<Rightarrow> rc_heap option" where
  "inc_count a h = do { r \<leftarrow> h a; set_count a ((m_count r + 1) mod 2 ^ 64) h }"

definition ToCStr :: "addr \<Rightarrow> rc_heap \<Rightarrow> string option" where
  "ToCStr this h = do { r \<leftarrow> h this; c_str (m_ref_str r) }"

definition Length :: "addr \<Rightarrow> rc_heap \<Rightarrow> nat option" where
  "Length this h = do { s \<leftarrow> ToCStr this h; Some (length s) }"

definition IsShared :: "addr \<Rightarrow> rc_heap \<Rightarrow> bool option" where
  "IsShared this h = do { r \<leftarrow> h this; Some (1 < m_count r) }"

text \<open>\<open>a\<close> is the address that \<open>new\<close> answers with.\<close>

definition SharedInit :: "addr \<Rightarrow> string \<Rightarrow> rc_heap \<Rightarrow> rc_heap option" where
  "SharedInit a str h = do { c_assert (h a = None); Some (h(a \<mapsto> \<lparr>m_count = 1, m_ref_str = str @ [NUL]\<rparr>)) }"

definition ConcatTwoRcstings :: "addr \<Rightarrow> addr \<Rightarrow> addr \<Rightarrow> rc_heap \<Rightarrow> rc_heap option" where
  "ConcatTwoRcstings a this other h = do {
     s \<leftarrow> ToCStr this h;
     t \<leftarrow> ToCStr other h;
     c_assert (h a = None);
     Some (h(a \<mapsto> \<lparr>m_count = 1, m_ref_str = s @ t @ [NUL]\<rparr>))
   }"

definition RCString_copy :: "addr \<Rightarrow> rc_heap \<Rightarrow> (addr \<times> rc_heap) option" where
  "RCString_copy other h = do { h \<leftarrow> inc_count other h; Some (other, h) }"

definition RCString_assign :: "addr \<Rightarrow> addr \<Rightarrow> rc_heap \<Rightarrow> (addr \<times> rc_heap) option" where
  "RCString_assign this other h = do {
     let buffer_data = this;
     h \<leftarrow> inc_count other h;
     h \<leftarrow> dec_count buffer_data h;
     r \<leftarrow> h buffer_data;
     Some (other, if 0 = m_count r then h(buffer_data := None) else h)
   }"

definition RCString_dtor :: "addr \<Rightarrow> rc_heap \<Rightarrow> rc_heap option" where
  "RCString_dtor this h = do {
     shared \<leftarrow> IsShared this h;
     if \<not> shared then Some (h(this := None)) else dec_count this h
   }"

text \<open>\<open>operator[]\<close> gives a reference into the buffer that the string has afterwards; \<open>new = None\<close> throws. The
  result is the exception, if there is one, with the buffer and the heap.\<close>

definition RCString_at :: "addr option \<Rightarrow> addr \<Rightarrow> nat \<Rightarrow> rc_heap \<Rightarrow> (rc_exception option \<times> addr \<times> rc_heap) option" where
  "RCString_at new this pos h = do {
     len \<leftarrow> Length this h;
     if len \<le> pos then Some (Some out_of_range, this, h)
     else do {
       shared \<leftarrow> IsShared this h;
       if shared then do {
         h \<leftarrow> dec_count this h;
         str \<leftarrow> ToCStr this h;
         (case new of
            None \<Rightarrow> Some (Some bad_alloc, this, h)
          | Some a \<Rightarrow> do { h \<leftarrow> SharedInit a str h; Some (None, a, h) })
       } else Some (None, this, h)
     }
   }"

text \<open>An assignment through that reference.\<close>

definition write_ref :: "addr \<Rightarrow> nat \<Rightarrow> char \<Rightarrow> rc_heap \<Rightarrow> rc_heap option" where
  "write_ref this pos c h = do {
     r \<leftarrow> h this;
     s \<leftarrow> aset (m_ref_str r) pos c;
     Some (h(this \<mapsto> r\<lparr>m_ref_str := s\<rparr>))
   }"

definition RCString_const_at :: "addr \<Rightarrow> nat \<Rightarrow> rc_heap \<Rightarrow> (rc_exception + char) option" where
  "RCString_const_at this pos h = do {
     len \<leftarrow> Length this h;
     if len \<le> pos then Some (Inl out_of_range)
     else do { r \<leftarrow> h this; c \<leftarrow> aget (m_ref_str r) pos; Some (Inr c) }
   }"

definition RCString_Concat :: "addr option \<Rightarrow> addr \<Rightarrow> addr \<Rightarrow> rc_heap \<Rightarrow> (rc_exception option \<times> addr \<times> rc_heap) option" where
  "RCString_Concat new this other h = (case new of
     None \<Rightarrow> Some (Some bad_alloc, this, h)
   | Some a \<Rightarrow> do {
       h \<leftarrow> ConcatTwoRcstings a this other h;
       shared \<leftarrow> IsShared this h;
       h \<leftarrow> (if \<not> shared then Some (h(this := None)) else dec_count this h);
       Some (None, a, h)
     })"

definition RCString_eq :: "addr \<Rightarrow> addr \<Rightarrow> rc_heap \<Rightarrow> bool option" where
  "RCString_eq lhs rhs h = do { s \<leftarrow> ToCStr lhs h; t \<leftarrow> ToCStr rhs h; Some (s = t) }"

text \<open>\<open>operator+\<close>: the result is a copy of the left string, to which the right one is appended. If that throws,
  the copy is destroyed.\<close>

definition RCString_plus :: "addr option \<Rightarrow> addr \<Rightarrow> addr \<Rightarrow> rc_heap \<Rightarrow> (rc_exception option \<times> addr \<times> rc_heap) option" where
  "RCString_plus new lhs rhs h = do {
     (result, h) \<leftarrow> RCString_copy lhs h;
     (e, result, h) \<leftarrow> RCString_Concat new result rhs h;
     (case e of
        None \<Rightarrow> Some (None, result, h)
      | Some _ \<Rightarrow> do { h \<leftarrow> RCString_dtor result h; Some (e, result, h) })
   }"

text \<open>\<open>operator>>\<close>: the next word of the input, cut to fit the buffer, becomes a string that is assigned.\<close>

definition g_buffer_size :: nat where
  "g_buffer_size = 1024"

definition RCString_read :: "addr option \<Rightarrow> string \<Rightarrow> addr \<Rightarrow> rc_heap \<Rightarrow> (rc_exception option \<times> addr \<times> rc_heap) option" where
  "RCString_read new word this h = do {
     str \<leftarrow> c_str (take (g_buffer_size - 1) word @ [NUL]);
     (case new of
        None \<Rightarrow> Some (Some bad_alloc, this, h)
      | Some a \<Rightarrow> do {
          h \<leftarrow> SharedInit a str h;
          (this, h) \<leftarrow> RCString_assign this a h;
          h \<leftarrow> RCString_dtor a h;
          Some (None, this, h)
        })
   }"

section \<open>Programs with strings\<close>

datatype rc_op = Make nat string | Copy nat nat | Assign nat nat | Destroy nat | SetAt nat nat char | Concat nat nat | Plus nat nat nat

type_synonym rc_state = "rc_heap \<times> (nat \<Rightarrow> addr option)"

fun rc_allowed :: "rc_op \<Rightarrow> (nat \<Rightarrow> 'b option) \<Rightarrow> bool" where
  "rc_allowed (Make v str) vars \<longleftrightarrow> vars v = None \<and> NUL \<notin> set str"
| "rc_allowed (Copy v w) vars \<longleftrightarrow> vars v = None \<and> vars w \<noteq> None"
| "rc_allowed (Assign v w) vars \<longleftrightarrow> vars v \<noteq> None \<and> vars w \<noteq> None"
| "rc_allowed (Destroy v) vars \<longleftrightarrow> vars v \<noteq> None"
| "rc_allowed (SetAt v pos c) vars \<longleftrightarrow> vars v \<noteq> None"
| "rc_allowed (Concat v w) vars \<longleftrightarrow> vars v \<noteq> None \<and> vars w \<noteq> None"
| "rc_allowed (Plus x v w) vars \<longleftrightarrow> vars x = None \<and> vars v \<noteq> None \<and> vars w \<noteq> None"

text \<open>Memory is available: \<open>new h\<close> is an address not in use.\<close>

fun rc_exec :: "(rc_heap \<Rightarrow> addr) \<Rightarrow> rc_op \<Rightarrow> rc_state \<Rightarrow> rc_state option" where
  "rc_exec new (Make v str) (h, vars) = do { let a = new h; h \<leftarrow> SharedInit a str h; Some (h, vars(v \<mapsto> a)) }"
| "rc_exec new (Copy v w) (h, vars) = do { t \<leftarrow> vars w; (s, h) \<leftarrow> RCString_copy t h; Some (h, vars(v \<mapsto> s)) }"
| "rc_exec new (Assign v w) (h, vars) = do { s \<leftarrow> vars v; t \<leftarrow> vars w; (s, h) \<leftarrow> RCString_assign s t h; Some (h, vars(v \<mapsto> s)) }"
| "rc_exec new (Destroy v) (h, vars) = do { s \<leftarrow> vars v; h \<leftarrow> RCString_dtor s h; Some (h, vars(v := None)) }"
| "rc_exec new (SetAt v pos c) (h, vars) = do {
     s \<leftarrow> vars v;
     (ex, s, h) \<leftarrow> RCString_at (Some (new h)) s pos h;
     (case ex of
        Some _ \<Rightarrow> Some (h, vars(v \<mapsto> s))
      | None \<Rightarrow> do { h \<leftarrow> write_ref s pos c h; Some (h, vars(v \<mapsto> s)) })
   }"
| "rc_exec new (Concat v w) (h, vars) = do {
     s \<leftarrow> vars v; t \<leftarrow> vars w;
     (ex, s, h) \<leftarrow> RCString_Concat (Some (new h)) s t h;
     Some (h, vars(v \<mapsto> s))
   }"
| "rc_exec new (Plus x v w) (h, vars) = do {
     s \<leftarrow> vars v; t \<leftarrow> vars w;
     (ex, s, h) \<leftarrow> RCString_plus (Some (new h)) s t h;
     Some (h, vars(x \<mapsto> s))
   }"

fun rc_run :: "(rc_heap \<Rightarrow> addr) \<Rightarrow> rc_op list \<Rightarrow> rc_state \<Rightarrow> rc_state option" where
  "rc_run new [] s = Some s"
| "rc_run new (op # ops) s = (if rc_allowed op (snd s) then do { s \<leftarrow> rc_exec new op s; rc_run new ops s } else rc_run new ops s)"

text \<open>What the program means: every variable has a string of its own.\<close>

fun str_exec :: "rc_op \<Rightarrow> (nat \<Rightarrow> string option) \<Rightarrow> nat \<Rightarrow> string option" where
  "str_exec (Make v str) m = m(v \<mapsto> str)"
| "str_exec (Copy v w) m = m(v := m w)"
| "str_exec (Assign v w) m = m(v := m w)"
| "str_exec (Destroy v) m = m(v := None)"
| "str_exec (SetAt v pos c) m = (case m v of None \<Rightarrow> m | Some s \<Rightarrow>
     if pos < length s then m(v \<mapsto> takeWhile (\<lambda>c. c \<noteq> NUL) (s[pos := c])) else m)"
| "str_exec (Concat v w) m = m(v \<mapsto> the (m v) @ the (m w))"
| "str_exec (Plus x v w) m = m(x \<mapsto> the (m v) @ the (m w))"

fun str_run :: "rc_op list \<Rightarrow> (nat \<Rightarrow> string option) \<Rightarrow> nat \<Rightarrow> string option" where
  "str_run [] m = m"
| "str_run (op # ops) m = str_run ops (if rc_allowed op m then str_exec op m else m)"

section \<open>The invariant and the values\<close>

definition counts :: "rc_heap \<Rightarrow> addr \<Rightarrow> nat option" where
  "counts h a = map_option m_count (h a)"

definition rc_inv :: "rc_state \<Rightarrow> bool" where
  "rc_inv s \<longleftrightarrow> (case s of (h, vars) \<Rightarrow> counts_ok vars (counts h) \<and> (\<forall>a r. h a = Some r \<longrightarrow> NUL \<in> set (m_ref_str r)))"

definition values_of :: "rc_state \<Rightarrow> nat \<Rightarrow> string option" where
  "values_of s v = do { a \<leftarrow> snd s v; ToCStr a (fst s) }"

lemma counts_upd: "counts (h(a := x)) = (counts h)(a := map_option m_count x)"
  by (auto simp: counts_def)

lemma rc_invD:
  assumes "rc_inv (h, vars)"
  shows "counts_ok vars (counts h)" "h a = Some r \<Longrightarrow> NUL \<in> set (m_ref_str r)"
    and "vars v = Some a \<Longrightarrow> \<exists>r. h a = Some r \<and> m_count r = card (holders vars a) \<and> 0 < m_count r \<and> m_count r \<le> card (dom vars)"
    and "finite (dom vars)" "finite (dom h)"
proof -
  show c: "counts_ok vars (counts h)" and "h a = Some r \<Longrightarrow> NUL \<in> set (m_ref_str r)" using assms by (auto simp: rc_inv_def)
  show "vars v = Some a \<Longrightarrow> \<exists>r. h a = Some r \<and> m_count r = card (holders vars a) \<and> 0 < m_count r \<and> m_count r \<le> card (dom vars)"
    using counts_okD [OF c, of v a] by (auto simp: counts_def)
  show f: "finite (dom vars)" using c by (simp add: counts_ok_def)
  have "dom h = ran vars" using counts_ok_live [OF c] by (auto simp: counts_def ran_def dom_def)
  then show "finite (dom h)" using finite_ran [OF f] by simp
qed

lemma c_str_append: "NUL \<notin> set s \<Longrightarrow> c_str (s @ NUL # t) = Some s"
  by (auto simp: c_str_def intro!: trans [OF takeWhile_append2])

lemma c_str_no_NUL: "c_str b = Some s \<Longrightarrow> NUL \<notin> set s"
  by (auto simp: c_str_def dest: set_takeWhileD split: if_splits)

lemma values_of_ex: "rc_inv (h, vars) \<Longrightarrow> vars v = Some a \<Longrightarrow> \<exists>r s. h a = Some r \<and> c_str (m_ref_str r) = Some s \<and> values_of (h, vars) v = Some s"
  using rc_invD(2,3) [of h vars] by (fastforce simp: values_of_def ToCStr_def c_str_def)

lemma values_of_None: "rc_inv (h, vars) \<Longrightarrow> values_of (h, vars) v = None \<longleftrightarrow> vars v = None"
  using values_of_ex [of h vars v] by (cases "vars v") (auto simp: values_of_def)

text \<open>A new buffer for a new variable.\<close>

lemma new_buffer:
  assumes inv: "rc_inv (h, vars)" and v: "vars v = None" and a: "h a = None" and s: "NUL \<notin> set s"
  defines "h' \<equiv> h(a \<mapsto> \<lparr>m_count = 1, m_ref_str = s @ [NUL]\<rparr>)"
  shows "rc_inv (h', vars(v \<mapsto> a))" "values_of (h', vars(v \<mapsto> a)) = (values_of (h, vars))(v \<mapsto> s)"
proof -
  have "counts_ok (vars(v \<mapsto> a)) ((counts h)(a \<mapsto> 1))"
    using counts_ok_new [OF rc_invD(1) [OF inv] v, of a] a by (simp add: counts_def)
  then show "rc_inv (h', vars(v \<mapsto> a))" using rc_invD(2) [OF inv] by (auto simp: rc_inv_def h'_def counts_upd)
  have "vars w \<noteq> Some a" for w using counts_ok_live [OF rc_invD(1) [OF inv], of a] a by (auto simp: counts_def)
  then show "values_of (h', vars(v \<mapsto> a)) = (values_of (h, vars))(v \<mapsto> s)"
    using c_str_append [OF s, of "[]"] by (auto simp: values_of_def ToCStr_def h'_def fun_eq_iff split: Option.bind_splits)
qed

text \<open>One more holder of a buffer.\<close>

lemma copy_buffer:
  assumes inv: "rc_inv (h, vars)" and v: "vars v = None" and w: "vars w = Some a" and small: "card (dom vars) < 2 ^ 64 - 1"
  shows "\<exists>h'. RCString_copy a h = Some (a, h') \<and> rc_inv (h', vars(v \<mapsto> a))
    \<and> values_of (h', vars(v \<mapsto> a)) = (values_of (h, vars))(v := values_of (h, vars) w) \<and> dom h' = dom h"
proof -
  obtain r where r: "h a = Some r" "m_count r \<le> card (dom vars)" using rc_invD(3) [OF inv w] by blast
  let ?h = "h(a \<mapsto> r\<lparr>m_count := m_count r + 1\<rparr>)"
  have "(m_count r + 1) mod 2 ^ 64 = m_count r + 1" using r(2) small by simp
  then have "RCString_copy a h = Some (a, ?h)" using r(1) by (simp add: RCString_copy_def inc_count_def set_count_def)
  moreover have "counts_ok (vars(v \<mapsto> a)) ((counts h)(a \<mapsto> m_count r + 1))"
    using counts_ok_add [OF rc_invD(1) [OF inv] v, of a "m_count r"] r(1) by (simp add: counts_def)
  then have "rc_inv (?h, vars(v \<mapsto> a))" using rc_invD(2) [OF inv] r(1) by (auto simp: rc_inv_def counts_upd)
  moreover have "ToCStr b ?h = ToCStr b h" for b using r(1) by (simp add: ToCStr_def)
  then have "values_of (?h, vars(v \<mapsto> a)) = (values_of (h, vars))(v := values_of (h, vars) w)"
    using w by (auto simp: values_of_def fun_eq_iff)
  moreover have "dom ?h = dom h" using r(1) by auto
  ultimately show ?thesis by blast
qed

text \<open>A holder less; the last one deletes the buffer.\<close>

lemma release_buffer:
  assumes inv: "rc_inv (h, vars)" and v: "vars v = Some a" and small: "card (dom vars) < 2 ^ 64"
  shows "\<exists>h'. RCString_dtor a h = Some h' \<and> rc_inv (h', vars(v := None))
    \<and> values_of (h', vars(v := None)) = (values_of (h, vars))(v := None) \<and> dom h' \<subseteq> dom h"
proof -
  obtain r where r: "h a = Some r" "m_count r \<le> card (dom vars)" "0 < m_count r" "m_count r = card (holders vars a)"
    using rc_invD(3) [OF inv v] by blast
  have sz: "szsub (m_count r) 1 = m_count r - 1" using r small by (intro szsub_ge) auto
  define h' where "h' = (if m_count r = 1 then h(a := None) else h(a \<mapsto> r\<lparr>m_count := m_count r - 1\<rparr>))"
  have d: "RCString_dtor a h = Some h'"
    using r(1,3) sz by (auto simp: RCString_dtor_def IsShared_def dec_count_def set_count_def h'_def)
  have "counts_ok (vars(v := None)) ((counts h)(a := if m_count r = 1 then None else Some (m_count r - 1)))"
    using counts_ok_remove [OF rc_invD(1) [OF inv] v, of "m_count r"] r(1) by (simp add: counts_def)
  then have i: "rc_inv (h', vars(v := None))" using rc_invD(2) [OF inv] r(1) by (auto simp: rc_inv_def h'_def counts_upd split: if_splits)
  have "ToCStr b h' = ToCStr b h" if "vars w = Some b" "w \<noteq> v" for w b
  proof -
    have "m_count r \<noteq> 1" if "b = a"
    proof
      assume "m_count r = 1"
      then obtain x where "holders vars a = {x}" using r(4) by (auto simp: card_1_singleton_iff)
      moreover have "v \<in> holders vars a" "w \<in> holders vars a" using v \<open>vars w = Some b\<close> that by (auto simp: holders_def)
      ultimately show False using \<open>w \<noteq> v\<close> by auto
    qed
    then show ?thesis using r(1) by (auto simp: ToCStr_def h'_def)
  qed
  then have "values_of (h', vars(v := None)) = (values_of (h, vars))(v := None)"
    by (auto simp: values_of_def fun_eq_iff split: Option.bind_splits)
  moreover have "dom h' \<subseteq> dom h" using r(1) by (auto simp: h'_def split: if_splits)
  ultimately show ?thesis using d i by blast
qed

text \<open>Writing into a buffer that has one holder.\<close>

lemma takeWhile_stop: "\<not> P y \<Longrightarrow> takeWhile P (xs @ y # zs) = takeWhile P xs"
  by (induction xs) auto

lemma c_str_split: "c_str b = Some s \<Longrightarrow> \<exists>rest. b = s @ NUL # rest"
proof -
  assume a: "c_str b = Some s"
  then have "NUL \<in> set b" and s: "s = takeWhile (\<lambda>c. c \<noteq> NUL) b" by (auto simp: c_str_def split: if_splits)
  then have ne: "dropWhile (\<lambda>c. c \<noteq> NUL) b \<noteq> []" by (auto simp: dropWhile_eq_Nil_conv)
  then have "dropWhile (\<lambda>c. c \<noteq> NUL) b = NUL # tl (dropWhile (\<lambda>c. c \<noteq> NUL) b)"
    using hd_dropWhile [OF ne] by (metis list.collapse)
  then show ?thesis using takeWhile_dropWhile_id [of "\<lambda>c. c \<noteq> NUL" b] s by metis
qed

lemma write_buffer:
  assumes inv: "rc_inv (h, vars)" and v: "vars v = Some a" "h a = Some r" "m_count r = 1"
    and s: "c_str (m_ref_str r) = Some s" "pos < length s"
  shows "\<exists>h'. write_ref a pos c h = Some h' \<and> rc_inv (h', vars)
    \<and> values_of (h', vars) = (values_of (h, vars))(v \<mapsto> takeWhile (\<lambda>c. c \<noteq> NUL) (s[pos := c]))"
proof -
  obtain rest where b: "m_ref_str r = s @ NUL # rest" using c_str_split [OF s(1)] by blast
  let ?b = "s[pos := c] @ NUL # rest"
  let ?h = "h(a \<mapsto> r\<lparr>m_ref_str := ?b\<rparr>)"
  have w: "write_ref a pos c h = Some ?h" using v(2) s(2) b by (simp add: write_ref_def list_update_append)
  have "counts ?h = counts h" using v(2) by (auto simp: counts_def)
  then have i: "rc_inv (?h, vars)" using inv by (auto simp: rc_inv_def)
  have "card (holders vars a) = 1" using rc_invD(3) [OF inv v(1)] v(2,3) by auto
  moreover have "v \<in> holders vars a" using v(1) by (simp add: holders_def)
  ultimately have "holders vars a = {v}" by (auto simp: card_1_singleton_iff)
  then have only: "x = v" if "vars x = Some a" for x using that by (auto simp: holders_def)
  have "c_str ?b = Some (takeWhile (\<lambda>c. c \<noteq> NUL) (s[pos := c]))" by (simp add: c_str_def takeWhile_stop)
  then have new: "ToCStr a ?h = Some (takeWhile (\<lambda>c. c \<noteq> NUL) (s[pos := c]))" by (simp add: ToCStr_def)
  have old: "ToCStr b ?h = ToCStr b h" if "b \<noteq> a" for b using that by (simp add: ToCStr_def)
  have "values_of (?h, vars) x = ((values_of (h, vars))(v \<mapsto> takeWhile (\<lambda>c. c \<noteq> NUL) (s[pos := c]))) x" for x
  proof (cases "vars x = Some a")
    case True
    then show ?thesis using only [OF True] new by (simp add: values_of_def)
  next
    case False
    then have "x \<noteq> v" using v(1) by auto
    then show ?thesis using False old by (cases "vars x") (simp_all add: values_of_def)
  qed
  then have "values_of (?h, vars) = (values_of (h, vars))(v \<mapsto> takeWhile (\<lambda>c. c \<noteq> NUL) (s[pos := c]))" by (rule ext)
  then show ?thesis using w i by blast
qed

section \<open>The operations\<close>

lemma assign_release_copy:
  assumes "a \<noteq> b" "h a = Some r" "h b = Some q" "0 < m_count r" "m_count r < 2 ^ 64"
  shows "RCString_assign a b h = do { h \<leftarrow> RCString_dtor a h; RCString_copy b h }"
proof -
  have "szsub (m_count r) 1 = m_count r - 1" using assms(4,5) by (intro szsub_ge) auto
  then show ?thesis
    using assms by (auto simp: RCString_assign_def RCString_dtor_def RCString_copy_def IsShared_def inc_count_def dec_count_def
        set_count_def fun_upd_twist)
qed

lemma assign_same: "h a = Some r \<Longrightarrow> 0 < m_count r \<Longrightarrow> m_count r + 1 < 2 ^ 64 \<Longrightarrow> RCString_assign a a h = Some (a, h)"
  using szsub_ge [of 1 "m_count r + 1"] by (auto simp: RCString_assign_def inc_count_def dec_count_def set_count_def fun_eq_iff)

lemma concat_release:
  assumes "h a = None" "ToCStr s h = Some x" "ToCStr t h = Some y"
  shows "RCString_Concat (Some a) s t h
    = do { h \<leftarrow> RCString_dtor s h; Some (None, a, h(a \<mapsto> \<lparr>m_count = 1, m_ref_str = (x @ y) @ [NUL]\<rparr>)) }"
proof -
  have "s \<noteq> a" using assms(1,2) by (auto simp: ToCStr_def)
  then show ?thesis
    using assms by (auto simp: RCString_Concat_def ConcatTwoRcstings_def RCString_dtor_def IsShared_def dec_count_def set_count_def
        fun_upd_twist split: Option.bind_splits)
qed

lemma exec_Assign:
  assumes inv: "rc_inv (h, vars)" and v: "vars v = Some a" and w: "vars w = Some b" and small: "card (dom vars) < 2 ^ 64 - 1"
  shows "\<exists>h'. rc_exec new (Assign v w) (h, vars) = Some (h', vars(v \<mapsto> b)) \<and> rc_inv (h', vars(v \<mapsto> b))
    \<and> values_of (h', vars(v \<mapsto> b)) = str_exec (Assign v w) (values_of (h, vars))"
proof -
  obtain r where r: "h a = Some r" "0 < m_count r" "m_count r \<le> card (dom vars)" using rc_invD(3) [OF inv v] by blast
  obtain q where q: "h b = Some q" using rc_invD(3) [OF inv w] by blast
  show ?thesis
  proof (cases "a = b")
    case True
    then have "values_of (h, vars) w = values_of (h, vars) v" using v w by (simp add: values_of_def)
    then show ?thesis using assign_same [of h a r, OF r(1,2)] r(3) small v w True inv by (auto simp: fun_upd_idem)
  next
    case False
    then have wv: "w \<noteq> v" using v w by auto
    obtain h1 where h1: "RCString_dtor a h = Some h1" "rc_inv (h1, vars(v := None))"
      "values_of (h1, vars(v := None)) = (values_of (h, vars))(v := None)"
      using release_buffer [OF inv v] small by auto
    have "card (dom (vars(v := None))) < 2 ^ 64 - 1" using small by (simp add: le_less_trans [OF card_Diff1_le])
    then obtain h2 where h2: "RCString_copy b h1 = Some (b, h2)" "rc_inv (h2, vars(v \<mapsto> b))"
      "values_of (h2, vars(v \<mapsto> b)) = (values_of (h1, vars(v := None)))(v := values_of (h1, vars(v := None)) w)"
      using copy_buffer [OF h1(2), of v w b] w wv by auto
    have "RCString_assign a b h = Some (b, h2)"
      using assign_release_copy [of a b h r q, OF False r(1) q r(2)] r(3) small h1(1) h2(1) by simp
    then show ?thesis using v w wv h1(3) h2(2,3) by auto
  qed
qed

text \<open>Reading gives the string the word as its value, if that has no zero character.\<close>

lemma RCString_read_ok:
  assumes inv: "rc_inv (h, vars)" and v: "vars v = Some a" and small: "card (dom vars) < 2 ^ 64 - 2"
    and n: "h n = None" and word: "NUL \<notin> set word"
  shows "\<exists>h'. RCString_read (Some n) word a h = Some (None, n, h') \<and> rc_inv (h', vars(v \<mapsto> n))
    \<and> values_of (h', vars(v \<mapsto> n)) = (values_of (h, vars))(v \<mapsto> take 1023 word)"
proof -
  let ?s = "take 1023 word" and ?h1 = "h(n \<mapsto> \<lparr>m_count = 1, m_ref_str = take 1023 word @ [NUL]\<rparr>)"
  obtain x where x: "vars x = None"
    using rc_invD(4) [OF inv] by (metis domIff ex_new_if_finite infinite_UNIV_nat)
  have s: "NUL \<notin> set ?s" using word by (auto dest: in_set_takeD)
  have xv: "x \<noteq> v" using x v by auto
  have h1: "rc_inv (?h1, vars(x \<mapsto> n))" "values_of (?h1, vars(x \<mapsto> n)) = (values_of (h, vars))(x \<mapsto> ?s)"
    using new_buffer [OF inv x n s] by simp_all
  have c1: "card (dom (vars(x \<mapsto> n))) < 2 ^ 64 - 1"
    using small x rc_invD(4) [OF inv] by (simp add: card_insert_if)
  have vx: "(vars(x \<mapsto> n)) v = Some a" "(vars(x \<mapsto> n)) x = Some n" using v xv by auto
  obtain h2 where h2: "rc_exec (\<lambda>_. 0) (Assign v x) (?h1, vars(x \<mapsto> n)) = Some (h2, (vars(x \<mapsto> n))(v \<mapsto> n))"
    "rc_inv (h2, (vars(x \<mapsto> n))(v \<mapsto> n))"
    "values_of (h2, (vars(x \<mapsto> n))(v \<mapsto> n)) = str_exec (Assign v x) (values_of (?h1, vars(x \<mapsto> n)))"
    using exec_Assign [OF h1(1) vx c1, of "\<lambda>_. 0"] by blast
  obtain s2 where as: "RCString_assign a n ?h1 = Some (s2, h2)" using h2(1) vx by (auto split: Option.bind_splits)
  then have s2: "s2 = n" by (auto simp: RCString_assign_def split: Option.bind_splits)
  have "dom ((vars(x \<mapsto> n))(v \<mapsto> n)) = dom (vars(x \<mapsto> n))" using v by auto
  then have c2: "card (dom ((vars(x \<mapsto> n))(v \<mapsto> n))) < 2 ^ 64" using c1 by simp
  have x2: "((vars(x \<mapsto> n))(v \<mapsto> n)) x = Some n" using xv by simp
  have u: "((vars(x \<mapsto> n))(v \<mapsto> n))(x := None) = vars(v \<mapsto> n)" using x xv by auto
  obtain h3 where h3: "RCString_dtor n h2 = Some h3" "rc_inv (h3, vars(v \<mapsto> n))"
    "values_of (h3, vars(v \<mapsto> n)) = (values_of (h2, (vars(x \<mapsto> n))(v \<mapsto> n)))(x := None)"
    using release_buffer [OF h2(2) x2 c2] unfolding u by blast
  have "values_of (h, vars) x = None" using x by (simp add: values_of_def)
  then have "values_of (h3, vars(v \<mapsto> n)) = (values_of (h, vars))(v \<mapsto> ?s)" using h3(3) h2(3) h1(2) xv by auto
  moreover have "RCString_read (Some n) word a h = Some (None, n, h3)"
    using c_str_append [OF s, of "[]"] n as [unfolded s2] h3(1) by (simp add: RCString_read_def g_buffer_size_def SharedInit_def)
  ultimately show ?thesis using h3(2) by blast
qed

lemma exec_Concat:
  assumes inv: "rc_inv (h, vars)" and v: "vars v = Some a" and w: "vars w = Some b" and small: "card (dom vars) < 2 ^ 64 - 1"
    and n: "h n = None"
  shows "\<exists>h'. RCString_Concat (Some n) a b h = Some (None, n, h') \<and> rc_inv (h', vars(v \<mapsto> n))
    \<and> values_of (h', vars(v \<mapsto> n)) = (values_of (h, vars))(v \<mapsto> the (values_of (h, vars) v) @ the (values_of (h, vars) w))"
proof -
  obtain x where x: "ToCStr a h = Some x" "values_of (h, vars) v = Some x" "NUL \<notin> set x"
    using values_of_ex [OF inv v] c_str_no_NUL by (auto simp: ToCStr_def)
  obtain y where y: "ToCStr b h = Some y" "values_of (h, vars) w = Some y" "NUL \<notin> set y"
    using values_of_ex [OF inv w] c_str_no_NUL by (auto simp: ToCStr_def)
  obtain h1 where h1: "RCString_dtor a h = Some h1" "rc_inv (h1, vars(v := None))"
    "values_of (h1, vars(v := None)) = (values_of (h, vars))(v := None)" "dom h1 \<subseteq> dom h"
    using release_buffer [OF inv v] small by auto
  have n1: "h1 n = None" using h1(4) n by (metis domIff subsetD)
  show ?thesis
    using new_buffer [OF h1(2) _ n1, of v "x @ y"] x y h1(1,3) concat_release [OF n x(1) y(1)] by auto
qed

lemma exec_SetAt:
  assumes inv: "rc_inv (h, vars)" and v: "vars v = Some a" and small: "card (dom vars) < 2 ^ 64 - 1" and n: "h (new h) = None"
  shows "\<exists>h' b. rc_exec new (SetAt v pos c) (h, vars) = Some (h', vars(v \<mapsto> b)) \<and> rc_inv (h', vars(v \<mapsto> b))
    \<and> values_of (h', vars(v \<mapsto> b)) = str_exec (SetAt v pos c) (values_of (h, vars))"
proof -
  let ?n = "new h"
  obtain r x where r: "h a = Some r" "c_str (m_ref_str r) = Some x" "values_of (h, vars) v = Some x"
    using values_of_ex [OF inv v] by blast
  have x: "ToCStr a h = Some x" "NUL \<notin> set x" using r c_str_no_NUL by (auto simp: ToCStr_def)
  have cnt: "0 < m_count r" "m_count r \<le> card (dom vars)" using rc_invD(3) [OF inv v] r(1) by auto
  show ?thesis
  proof (cases "length x \<le> pos")
    case True
    then show ?thesis using v x(1) r(3) inv
      by (intro exI [of _ h] exI [of _ a]) (simp add: RCString_at_def Length_def fun_upd_idem)
  next
    case pos: False
    show ?thesis
    proof (cases "m_count r = 1")
      case True
      then have at: "RCString_at (Some ?n) a pos h = Some (None, a, h)"
        using pos x(1) r(1) by (simp add: RCString_at_def Length_def IsShared_def)
      obtain h' where "write_ref a pos c h = Some h'" "rc_inv (h', vars)"
        "values_of (h', vars) = (values_of (h, vars))(v \<mapsto> takeWhile (\<lambda>c. c \<noteq> NUL) (x[pos := c]))"
        using write_buffer [OF inv v r(1) True r(2), of pos c] pos by auto
      then show ?thesis using v at r(3) pos by (intro exI [of _ h'] exI [of _ a]) (simp add: fun_upd_idem)
    next
      case False
      obtain h1 where h1: "RCString_dtor a h = Some h1" "rc_inv (h1, vars(v := None))"
        "values_of (h1, vars(v := None)) = (values_of (h, vars))(v := None)" "dom h1 \<subseteq> dom h"
        using release_buffer [OF inv v] small by auto
      have dec: "dec_count a h = Some h1" using h1(1) r(1) cnt(1) False by (auto simp: RCString_dtor_def IsShared_def)
      then have x1: "ToCStr a h1 = Some x" using r(1,2) by (auto simp: dec_count_def set_count_def ToCStr_def)
      have n1: "h1 ?n = None" using h1(4) n by (metis domIff subsetD)
      define h2 where "h2 = h1(?n \<mapsto> \<lparr>m_count = 1, m_ref_str = x @ [NUL]\<rparr>)"
      have at: "RCString_at (Some ?n) a pos h = Some (None, ?n, h2)"
        using pos x(1) r(1) cnt(1) False dec x1 n1 by (simp add: RCString_at_def Length_def IsShared_def SharedInit_def h2_def)
      have i2: "rc_inv (h2, vars(v \<mapsto> ?n))" "values_of (h2, vars(v \<mapsto> ?n)) = (values_of (h, vars))(v \<mapsto> x)"
        using new_buffer [OF h1(2) _ n1 x(2), of v] h1(3) by (simp_all add: h2_def)
      obtain h' where "write_ref ?n pos c h2 = Some h'" "rc_inv (h', vars(v \<mapsto> ?n))"
        "values_of (h', vars(v \<mapsto> ?n)) = (values_of (h2, vars(v \<mapsto> ?n)))(v \<mapsto> takeWhile (\<lambda>c. c \<noteq> NUL) (x[pos := c]))"
        using write_buffer [OF i2(1), of v ?n _ x pos c] pos c_str_append [OF x(2), of "[]"] by (auto simp: h2_def)
      then show ?thesis using v at r(3) pos i2(2) by (intro exI [of _ h'] exI [of _ ?n]) simp
    qed
  qed
qed

lemma exec_Plus:
  assumes inv: "rc_inv (h, vars)" and x: "vars x = None" and v: "vars v = Some a" and w: "vars w = Some b"
    and small: "card (dom vars) < 2 ^ 64 - 2" and n: "h n = None"
  shows "\<exists>h'. RCString_plus (Some n) a b h = Some (None, n, h') \<and> rc_inv (h', vars(x \<mapsto> n))
    \<and> values_of (h', vars(x \<mapsto> n)) = (values_of (h, vars))(x \<mapsto> the (values_of (h, vars) v) @ the (values_of (h, vars) w))"
proof -
  obtain h1 where h1: "RCString_copy a h = Some (a, h1)" "rc_inv (h1, vars(x \<mapsto> a))"
    "values_of (h1, vars(x \<mapsto> a)) = (values_of (h, vars))(x := values_of (h, vars) v)" "dom h1 = dom h"
    using copy_buffer [OF inv x v] small by auto
  have n1: "h1 n = None" using h1(4) n by (metis domIff)
  have card: "card (dom (vars(x \<mapsto> a))) < 2 ^ 64 - 1" using small x rc_invD(4) [OF inv] by (simp add: card_insert_if)
  have xa: "(vars(x \<mapsto> a)) x = Some a" and wb: "(vars(x \<mapsto> a)) w = Some b" using w x by auto
  then obtain h' where "RCString_Concat (Some n) a b h1 = Some (None, n, h')" "rc_inv (h', (vars(x \<mapsto> a))(x \<mapsto> n))"
    "values_of (h', (vars(x \<mapsto> a))(x \<mapsto> n)) = (values_of (h1, vars(x \<mapsto> a)))
       (x \<mapsto> the (values_of (h1, vars(x \<mapsto> a)) x) @ the (values_of (h1, vars(x \<mapsto> a)) w))"
    using exec_Concat [OF h1(2) xa wb card n1] by blast
  then show ?thesis using h1(1,3) w x by (auto simp: RCString_plus_def)
qed

lemma rc_exec_spec:
  assumes inv: "rc_inv (h, vars)" and al: "rc_allowed op vars" and small: "card (dom vars) < 2 ^ 64 - 2"
    and new: "\<forall>h. finite (dom h) \<longrightarrow> h (new h) = None"
  shows "\<exists>h' v b. rc_exec new op (h, vars) = Some (h', vars(v := b)) \<and> rc_inv (h', vars(v := b))
    \<and> values_of (h', vars(v := b)) = str_exec op (values_of (h, vars))"
proof -
  have n: "h (new h) = None" using new rc_invD(5) [OF inv] by blast
  show ?thesis
  proof (cases op)
    case (Make v str)
    then show ?thesis using new_buffer [OF inv _ n, of v str] al n
      by (intro exI [of _ "h(new h \<mapsto> \<lparr>m_count = 1, m_ref_str = str @ [NUL]\<rparr>)"] exI [of _ v] exI [of _ "Some (new h)"])
        (simp add: SharedInit_def Let_def)
  next
    case (Copy v w)
    then obtain a where "vars v = None" "vars w = Some a" using al by auto
    then show ?thesis using copy_buffer [OF inv, of v w a] small Copy by fastforce
  next
    case (Assign v w)
    then obtain a b where "vars v = Some a" "vars w = Some b" using al by auto
    then show ?thesis using exec_Assign [OF inv, of v a w b] small Assign by fastforce
  next
    case (Destroy v)
    then obtain a where "vars v = Some a" using al by auto
    then show ?thesis using release_buffer [OF inv, of v a] small Destroy by fastforce
  next
    case (SetAt v pos c)
    then obtain a where "vars v = Some a" using al by auto
    then show ?thesis using exec_SetAt [OF inv, of v a new pos c] small SetAt n by fastforce
  next
    case (Concat v w)
    then obtain a b where "vars v = Some a" "vars w = Some b" using al by auto
    then show ?thesis using exec_Concat [OF inv, of v a w b "new h"] small Concat n by fastforce
  next
    case (Plus x v w)
    then obtain a b where "vars x = None" "vars v = Some a" "vars w = Some b" using al by auto
    then show ?thesis using exec_Plus [OF inv, of x v a w b "new h"] small Plus n by fastforce
  qed
qed

lemma rc_allowed_values: "rc_inv (h, vars) \<Longrightarrow> rc_allowed op (values_of (h, vars)) = rc_allowed op vars"
  by (cases op) (simp_all add: values_of_None)

lemma card_dom_upd: "finite (dom vars) \<Longrightarrow> card (dom (vars(v := b))) \<le> card (dom vars) + 1"
proof -
  assume f: "finite (dom vars)"
  have "card (dom (vars(v := b))) \<le> card (insert v (dom vars))" using f by (intro card_mono) auto
  also have "\<dots> \<le> card (dom vars) + 1" using f by (simp add: card_insert_if)
  finally show ?thesis .
qed

lemma rc_run_spec:
  assumes new: "\<forall>h. finite (dom h) \<longrightarrow> h (new h) = None"
  shows "\<lbrakk>rc_inv (h, vars); card (dom vars) + length ops < 2 ^ 64 - 1\<rbrakk> \<Longrightarrow>
    \<exists>s. rc_run new ops (h, vars) = Some s \<and> rc_inv s \<and> values_of s = str_run ops (values_of (h, vars))"
proof (induction ops arbitrary: h vars)
  case (Cons op ops)
  show ?case
  proof (cases "rc_allowed op vars")
    case True
    obtain h' v b where s: "rc_exec new op (h, vars) = Some (h', vars(v := b))" "rc_inv (h', vars(v := b))"
      "values_of (h', vars(v := b)) = str_exec op (values_of (h, vars))"
      using rc_exec_spec [of h vars op new, OF Cons.prems(1) True _ new] Cons.prems(2) by auto
    have c: "card (dom (vars(v := b))) + length ops < 2 ^ 64 - 1"
      using card_dom_upd [OF rc_invD(4) [OF Cons.prems(1)], of v b] Cons.prems(2) by simp
    have "rc_run new (op # ops) (h, vars) = rc_run new ops (h', vars(v := b))" using s(1) True by simp
    moreover have "str_run (op # ops) (values_of (h, vars)) = str_run ops (values_of (h', vars(v := b)))"
      using s(3) True rc_allowed_values [OF Cons.prems(1), of op] by simp
    ultimately show ?thesis using Cons.IH [OF s(2) c] by (simp only:)
  next
    case False
    then show ?thesis using Cons.IH [OF Cons.prems(1)] Cons.prems(2) rc_allowed_values [OF Cons.prems(1)] by simp
  qed
qed simp

section \<open>Sharing is invisible\<close>

text \<open>C9. As long as memory is available (\<open>new\<close> never throws and gives an address not in use) and a character is written
  in the expression \<open>s[pos] = c\<close> itself, no reference from the index operator being kept, whatever a program does
  with strings in fewer than \<open>2 ^ 64 - 1\<close> operations - constructs them from C strings, copies, assigns, destroys, writes
  a character, appends, adds, each variable while it lives - no operation touches a deleted buffer, and every variable has exactly the
  value it would have if each string had a buffer of its own; the buffers
  that live are those some variable uses. An index out of range throws and changes nothing. Without the two
  conditions the claim fails: \<open>at_throws\<close> and \<open>reference_shared\<close> below.\<close>

theorem rcstring_values:
  assumes "\<forall>h. finite (dom h) \<longrightarrow> h (new h) = None" "length ops < 2 ^ 64 - 1"
  shows "\<exists>h vars. rc_run new ops (\<lambda>_. None, \<lambda>_. None) = Some (h, vars)
    \<and> (\<forall>v. do { a \<leftarrow> vars v; ToCStr a h } = str_run ops (\<lambda>_. None) v)
    \<and> (\<forall>v. vars v = None \<longleftrightarrow> str_run ops (\<lambda>_. None) v = None)
    \<and> (\<forall>a. (h a = None) = (\<forall>v. vars v \<noteq> Some a))"
proof -
  have i: "rc_inv (\<lambda>_. None, \<lambda>_. None)" by (simp add: rc_inv_def counts_ok_def counts_def holders_def dom_def)
  have v0: "values_of (\<lambda>_. None, \<lambda>_. None) = (\<lambda>_. None)" by (simp add: values_of_def fun_eq_iff)
  obtain h vars where r: "rc_run new ops (\<lambda>_. None, \<lambda>_. None) = Some (h, vars)" "rc_inv (h, vars)"
    "values_of (h, vars) = str_run ops (\<lambda>_. None)"
    using rc_run_spec [OF assms(1) i, of ops] assms(2) unfolding v0 by auto
  have "(h a = None) = (\<forall>v. vars v \<noteq> Some a)" for a
    using counts_ok_live [OF rc_invD(1) [OF r(2)], of a] by (auto simp: counts_def)
  moreover have "do { a \<leftarrow> vars v; ToCStr a h } = str_run ops (\<lambda>_. None) v" for v
    using r(3) by (simp add: values_of_def fun_eq_iff)
  ultimately show ?thesis using r(1) values_of_None [OF r(2)] r(3) by auto
qed

text \<open>An allocator: the least address that is free.\<close>

definition least_free :: "rc_heap \<Rightarrow> addr" where
  "least_free h = (if dom h = {} then 0 else Suc (Max (dom h)))"

lemma least_free_new: "finite (dom h) \<Longrightarrow> h (least_free h) = None"
proof (rule ccontr)
  assume f: "finite (dom h)" and n: "h (least_free h) \<noteq> None"
  then have "least_free h \<in> dom h" by auto
  then have "least_free h \<le> Max (dom h)" using f by simp
  then show False using n by (auto simp: least_free_def split: if_splits)
qed

theorem rcstring_values_witness:
  "\<exists>h vars. rc_run least_free [Make 0 ''ab'', Copy 1 0, SetAt 1 0 (CHR ''x''), Concat 0 1] (\<lambda>_. None, \<lambda>_. None) = Some (h, vars)
    \<and> (\<forall>v. do { a \<leftarrow> vars v; ToCStr a h } = [0 \<mapsto> ''abxb'', 1 \<mapsto> ''xb''] v)"
proof -
  let ?ops = "[Make 0 ''ab'', Copy 1 0, SetAt 1 0 (CHR ''x''), Concat 0 1]"
  have e: "str_run ?ops (\<lambda>_. None) = [0 \<mapsto> ''abxb'', 1 \<mapsto> ''xb'']"
    by (simp add: fun_eq_iff NUL_def)
  have a: "\<forall>h. finite (dom h) \<longrightarrow> h (least_free h) = None" using least_free_new by blast
  have "length ?ops < 2 ^ 64 - 1" by simp
  from rcstring_values [OF a this] show ?thesis unfolding e by blast
qed

section \<open>Where sharing shows\<close>

text \<open>A reference to a character survives a copy, and writing through it then changes both strings.\<close>

lemma reference_shared:
  "do { h \<leftarrow> SharedInit 1 ''ab'' (\<lambda>_. None);
        (ex, s, h) \<leftarrow> RCString_at (Some 2) 1 0 h;
        (t, h) \<leftarrow> RCString_copy s h;
        h \<leftarrow> write_ref s 0 (CHR ''x'') h;
        ToCStr t h } = Some ''xb''"
  by (simp add: SharedInit_def RCString_at_def RCString_copy_def write_ref_def ToCStr_def c_str_def Length_def IsShared_def
      inc_count_def set_count_def NUL_def)

text \<open>When \<open>new\<close> throws, \<open>operator[]\<close> has already given up its share: destroying the string then deletes the buffer
  that the other one uses.\<close>

lemma at_throws:
  "do { h \<leftarrow> SharedInit 1 ''ab'' (\<lambda>_. None);
        (t, h) \<leftarrow> RCString_copy 1 h;
        (ex, s, h) \<leftarrow> RCString_at None 1 0 h;
        h \<leftarrow> RCString_dtor s h;
        ToCStr t h } = None"
  by (simp add: SharedInit_def RCString_at_def RCString_copy_def RCString_dtor_def ToCStr_def c_str_def Length_def IsShared_def
      inc_count_def dec_count_def set_count_def szsub_def NUL_def)

end
