(* ===== verification/BitSet.thy ===== *)
theory BitSet
  imports BitArray
begin

unbundle bit_operations_syntax

text \<open>
  The bit array with \<open>N\<close> bits of \<open>cpp_fs/bit_array\<close>: a vector of words of 64 bits, with a proxy for one bit.
  The number \<open>N\<close> is a parameter of the class and so of every operation.
\<close>

section \<open>The code\<close>

datatype bits_exception = illegal_pos

definition GetIndex :: "nat \<Rightarrow> nat" where
  "GetIndex pos = pos div 64"

definition GetShiftNum :: "nat \<Rightarrow> nat" where
  "GetShiftNum pos = pos mod 64"

definition GetSize :: "nat \<Rightarrow> nat" where
  "GetSize N = GetIndex N + (if N mod 64 \<noteq> 0 then 1 else 0)"

definition BitArray_new :: "nat \<Rightarrow> 64 word list" where
  "BitArray_new N = replicate (GetSize N) 0"

definition CheckPos :: "nat \<Rightarrow> nat \<Rightarrow> bits_exception + unit" where
  "CheckPos N pos = (if N < pos then Inl illegal_pos else Inr ())"

text \<open>The unused bits of the last word are cleared.\<close>

definition SetLastIndex :: "nat \<Rightarrow> 64 word list \<Rightarrow> 64 word list option" where
  "SetLastIndex N a = do {
     let mask = 0xffffffffffffffff;
     mask \<leftarrow> shr mask (64 - GetShiftNum N);
     w \<leftarrow> aget a (GetIndex N);
     aset a (GetIndex N) (w AND mask)
   }"

text \<open>A proxy refers to the array and has a position.\<close>

definition proxy_assign :: "nat \<Rightarrow> bool \<Rightarrow> 64 word list \<Rightarrow> 64 word list option" where
  "proxy_assign m_pos value a = do {
     let index = GetIndex m_pos;
     let ShiftNum = GetShiftNum m_pos;
     mask \<leftarrow> shl 1 ShiftNum;
     v \<leftarrow> shl (of_bool value) ShiftNum;
     w \<leftarrow> aget a index;
     aset a index ((w AND NOT mask) OR v)
   }"

definition proxy_bool :: "nat \<Rightarrow> 64 word list \<Rightarrow> bool option" where
  "proxy_bool m_pos a = do {
     let shift_num = GetShiftNum m_pos;
     index_value \<leftarrow> aget a (GetIndex m_pos);
     w \<leftarrow> shr index_value shift_num;
     Some (1 = w AND 1)
   }"

definition proxy_not :: "nat \<Rightarrow> 64 word list \<Rightarrow> bool option" where
  "proxy_not m_pos a = do {
     let shift_num = GetShiftNum m_pos;
     index_value \<leftarrow> aget a (GetIndex m_pos);
     w \<leftarrow> shr index_value shift_num;
     Some (0 = w AND 1)
   }"

definition proxy_copy :: "nat \<Rightarrow> nat \<Rightarrow> 64 word list \<Rightarrow> 64 word list \<Rightarrow> 64 word list option" where
  "proxy_copy m_pos other_pos other a = do { val \<leftarrow> proxy_bool other_pos other; proxy_assign m_pos val a }"

text \<open>The position is taken for the index of a word, and \<open>!\<close> is not \<open>~\<close>.\<close>

definition proxy_Flip :: "nat \<Rightarrow> 64 word list \<Rightarrow> 64 word list option" where
  "proxy_Flip m_pos a = do { w \<leftarrow> aget a m_pos; aset a m_pos (if w = 0 then 1 else 0) }"

text \<open>The operator of a constant array. The comparison binds stronger than \<open>&\<close>.\<close>

definition const_index :: "nat \<Rightarrow> nat \<Rightarrow> 64 word list \<Rightarrow> (bits_exception + bool) option" where
  "const_index N pos a = (case CheckPos N pos of
     Inl e \<Rightarrow> Some (Inl e)
   | Inr _ \<Rightarrow> do {
       w \<leftarrow> aget a (GetIndex pos);
       w \<leftarrow> shr w (GetShiftNum pos);
       Some (Inr ((if 1 = w then 1 else 0) AND 1 \<noteq> (0 :: 64 word)))
     })"

text \<open>The other operator and \<open>Get\<close> give a proxy, which is its position.\<close>

definition BitArray_Get :: "nat \<Rightarrow> nat \<Rightarrow> bits_exception + nat" where
  "BitArray_Get N pos = (case CheckPos N pos of Inl e \<Rightarrow> Inl e | Inr _ \<Rightarrow> Inr pos)"

definition Set_at :: "nat \<Rightarrow> nat \<Rightarrow> bool \<Rightarrow> 64 word list \<Rightarrow> (bits_exception + 64 word list) option" where
  "Set_at N pos value a = (case CheckPos N pos of
     Inl e \<Rightarrow> Some (Inl e)
   | Inr _ \<Rightarrow> do { a \<leftarrow> proxy_assign pos value a; Some (Inr a) })"

definition Set_all :: "nat \<Rightarrow> 64 word list \<Rightarrow> 64 word list option" where
  "Set_all N a = SetLastIndex N (map (\<lambda>_. 0xffffffffffffffff) a)"

definition Flip_all :: "nat \<Rightarrow> 64 word list \<Rightarrow> 64 word list option" where
  "Flip_all N a = SetLastIndex N (map (\<lambda>num. NOT num) a)"

definition Flip_at :: "nat \<Rightarrow> nat \<Rightarrow> 64 word list \<Rightarrow> (bits_exception + 64 word list) option" where
  "Flip_at N pos a = (case CheckPos N pos of
     Inl e \<Rightarrow> Some (Inl e)
   | Inr _ \<Rightarrow> do { flipper \<leftarrow> proxy_not pos a; Set_at N pos flipper a })"

definition and_assign :: "64 word list \<Rightarrow> 64 word list \<Rightarrow> 64 word list" where
  "and_assign this other = map2 (AND) other this"

definition or_assign :: "64 word list \<Rightarrow> 64 word list \<Rightarrow> 64 word list" where
  "or_assign this other = map2 (OR) other this"

definition bits_eq :: "64 word list \<Rightarrow> 64 word list \<Rightarrow> bool" where
  "bits_eq this rhs = (this = rhs)"

definition lut_256 :: "nat list" where
  "lut_256 =
    [0, 1, 1, 2, 1, 2, 2, 3, 1, 2, 2, 3, 2, 3, 3, 4,
     1, 2, 2, 3, 2, 3, 3, 4, 2, 3, 3, 4, 3, 4, 4, 5,
     1, 2, 2, 3, 2, 3, 3, 4, 2, 3, 3, 4, 3, 4, 4, 5,
     2, 3, 3, 4, 3, 4, 4, 5, 3, 4, 4, 5, 4, 5, 5, 6,
     1, 2, 2, 3, 2, 3, 3, 4, 2, 3, 3, 4, 3, 4, 4, 5,
     2, 3, 3, 4, 3, 4, 4, 5, 3, 4, 4, 5, 4, 5, 5, 6,
     2, 3, 3, 4, 3, 4, 4, 5, 3, 4, 4, 5, 4, 5, 5, 6,
     3, 4, 4, 5, 4, 5, 5, 6, 4, 5, 5, 6, 5, 6, 6, 7,
     1, 2, 2, 3, 2, 3, 3, 4, 2, 3, 3, 4, 3, 4, 4, 5,
     2, 3, 3, 4, 3, 4, 4, 5, 3, 4, 4, 5, 4, 5, 5, 6,
     2, 3, 3, 4, 3, 4, 4, 5, 3, 4, 4, 5, 4, 5, 5, 6,
     3, 4, 4, 5, 4, 5, 5, 6, 4, 5, 5, 6, 5, 6, 6, 7,
     2, 3, 3, 4, 3, 4, 4, 5, 3, 4, 4, 5, 4, 5, 5, 6,
     3, 4, 4, 5, 4, 5, 5, 6, 4, 5, 5, 6, 5, 6, 6, 7,
     3, 4, 4, 5, 4, 5, 5, 6, 4, 5, 5, 6, 5, 6, 6, 7,
     4, 5, 5, 6, 5, 6, 6, 7, 5, 6, 6, 7, 6, 7, 7, 8]"

definition CountIndx :: "nat \<Rightarrow> nat \<Rightarrow> nat" where
  "CountIndx init byte = lut_256 ! byte + init"

text \<open>The bytes of a word in memory.\<close>

definition bytes_of :: "64 word \<Rightarrow> nat list" where
  "bytes_of w = map (\<lambda>k. unat w div 256 ^ k mod 256) [0..<8]"

definition Count_Bits :: "nat \<Rightarrow> 64 word \<Rightarrow> nat" where
  "Count_Bits init idx = foldl CountIndx 0 (bytes_of idx) + init"

definition BitArray_Count :: "64 word list \<Rightarrow> nat" where
  "BitArray_Count a = foldl Count_Bits 0 a"

text \<open>The digits of one word, \<open>left\<close> of which remain; the counter goes on through the words.\<close>

fun To_String :: "nat \<Rightarrow> nat \<Rightarrow> string \<Rightarrow> nat \<Rightarrow> 64 word \<Rightarrow> (string \<times> nat) option" where
  "To_String 0 N dest m_counter num = Some (dest, m_counter)"
| "To_String (Suc left) N dest m_counter num = (if m_counter < N then do {
     dest \<leftarrow> aset dest m_counter (if num AND 1 = 1 then CHR ''1'' else CHR ''0'');
     To_String left N dest (m_counter + 1) (drop_bit 1 num)
   } else Some (dest, m_counter))"

fun to_string_words :: "nat \<Rightarrow> string \<Rightarrow> nat \<Rightarrow> 64 word list \<Rightarrow> string option" where
  "to_string_words N dest m_counter [] = Some dest"
| "to_string_words N dest m_counter (w # ws) = do {
     (dest, m_counter) \<leftarrow> To_String 64 N dest m_counter w;
     to_string_words N dest m_counter ws
   }"

definition BitArray_ToString :: "nat \<Rightarrow> 64 word list \<Rightarrow> string option" where
  "BitArray_ToString N a = do {
     str_bitarr \<leftarrow> to_string_words N (replicate N (CHR 0x00)) 0 a;
     Some (take N str_bitarr)
   }"

section \<open>The bits of an array\<close>

definition bit_at :: "64 word list \<Rightarrow> nat \<Rightarrow> bool" where
  "bit_at a i = bit (a ! (i div 64)) (i mod 64)"

definition bits :: "nat \<Rightarrow> 64 word list \<Rightarrow> bool list" where
  "bits N a = map (bit_at a) [0..<N]"

text \<open>The vector has the size for \<open>N\<close> bits, and the bits that do not belong to the array are 0.\<close>

definition bits_inv :: "nat \<Rightarrow> 64 word list \<Rightarrow> bool" where
  "bits_inv N a \<longleftrightarrow> length a = GetSize N \<and> (\<forall>i. N \<le> i \<and> i < 64 * length a \<longrightarrow> \<not> bit_at a i)"

lemma length_bits [simp]: "length (bits N a) = N"
  by (simp add: bits_def)

lemma nth_bits [simp]: "i < N \<Longrightarrow> bits N a ! i = bit_at a i"
  by (simp add: bits_def)

lemma GetSize_bounds: "N \<le> 64 * GetSize N" "64 * GetSize N < N + 64" "i < N \<Longrightarrow> i div 64 < GetSize N"
  unfolding GetSize_def GetIndex_def by (auto split: if_splits) presburger+

lemma bits_eqI: "bits_inv N b \<Longrightarrow> length xs = N \<Longrightarrow> (\<And>i. i < N \<Longrightarrow> bit_at b i = xs ! i) \<Longrightarrow> bits N b = xs"
  by (rule nth_equalityI) auto

lemma bits_inj:
  assumes "bits_inv N a" "bits_inv N b" "bits N a = bits N b"
  shows "a = b"
proof (rule nth_equalityI)
  show l: "length a = length b" using assms(1,2) by (simp add: bits_inv_def)
  fix k assume k: "k < length a"
  show "a ! k = b ! k"
  proof (rule bit_word_eqI)
    fix n assume n: "n < LENGTH(64)"
    let ?i = "64 * k + n"
    have d: "?i div 64 = k" "?i mod 64 = n" using n by simp_all
    have "bit_at a ?i = bit_at b ?i"
    proof (cases "?i < N")
      case True
      then show ?thesis using assms(3) nth_bits by metis
    next
      case False
      then show ?thesis using assms(1,2) k l n by (simp add: bits_inv_def)
    qed
    then show "bit (a ! k) n = bit (b ! k) n" by (simp only: bit_at_def d)
  qed
qed

lemma bit_at_update:
  assumes "i div 64 < length a"
    and "\<And>n. n < 64 \<Longrightarrow> bit w n = (if n = i mod 64 then v else bit (a ! (i div 64)) n)"
  shows "bit_at (a[i div 64 := w]) j = (if j = i then v else bit_at a j)"
proof -
  have "j div 64 = i div 64 \<Longrightarrow> j mod 64 = i mod 64 \<Longrightarrow> j = i" by (metis div_mult_mod_eq)
  then show ?thesis using assms by (auto simp: bit_at_def nth_list_update)
qed

lemma proxy_assign_ok:
  assumes "pos div 64 < length a"
  shows "\<exists>b. proxy_assign pos v a = Some b \<and> length b = length a \<and> (\<forall>j. bit_at b j = (if j = pos then v else bit_at a j))"
proof -
  let ?w = "(a ! (pos div 64) AND NOT (push_bit (pos mod 64) 1)) OR push_bit (pos mod 64) (of_bool v)"
  have "bit ?w n = (if n = pos mod 64 then v else bit (a ! (pos div 64)) n)" if "n < 64" for n
    using that by (auto simp: bit_or_iff bit_and_iff bit_not_iff bit_push_bit_iff bit_1_iff bit_of_bool_iff bit_exp_iff split: if_splits)
  then have "bit_at (a[pos div 64 := ?w]) j = (if j = pos then v else bit_at a j)" for j
    using bit_at_update [OF assms] by blast
  then show ?thesis using assms by (simp add: proxy_assign_def GetIndex_def GetShiftNum_def shl_def Let_def)
qed

lemma bit_of_shift: "drop_bit n (w :: 64 word) AND 1 = 1 \<longleftrightarrow> bit w n" "drop_bit n w AND 1 = 0 \<longleftrightarrow> \<not> bit w n"
  by (auto simp: and_one_eq bit_iff_odd_drop_bit mod_2_eq_odd)

lemma proxy_bool_ok: "pos div 64 < length a \<Longrightarrow> proxy_bool pos a = Some (bit_at a pos)"
  by (simp add: proxy_bool_def GetIndex_def GetShiftNum_def shr_def Let_def eq_commute [of 1] eq_commute [of 0] bit_of_shift bit_at_def)

lemma proxy_not_ok: "pos div 64 < length a \<Longrightarrow> proxy_not pos a = Some (\<not> bit_at a pos)"
  by (simp add: proxy_not_def GetIndex_def GetShiftNum_def shr_def Let_def eq_commute [of 1] eq_commute [of 0] bit_of_shift bit_at_def)

lemma Set_at_ok:
  assumes inv: "bits_inv N a" and pos: "pos < N"
  shows "\<exists>b. Set_at N pos v a = Some (Inr b) \<and> bits_inv N b \<and> bits N b = (bits N a)[pos := v]"
proof -
  have "pos div 64 < length a" using inv pos GetSize_bounds(3) by (simp add: bits_inv_def)
  from proxy_assign_ok [OF this] obtain b where b: "proxy_assign pos v a = Some b" "length b = length a"
    "\<forall>j. bit_at b j = (if j = pos then v else bit_at a j)" by blast
  have i: "bits_inv N b" using inv pos b(2,3) by (simp add: bits_inv_def)
  have "bits N b = (bits N a)[pos := v]" by (rule bits_eqI [OF i]) (auto simp: b(3) nth_list_update)
  then show ?thesis using b(1) i pos by (simp add: Set_at_def CheckPos_def)
qed

lemma Flip_at_ok:
  assumes inv: "bits_inv N a" and pos: "pos < N"
  shows "\<exists>b. Flip_at N pos a = Some (Inr b) \<and> bits_inv N b \<and> bits N b = (bits N a)[pos := \<not> bits N a ! pos]"
  using Set_at_ok [OF assms, of "\<not> bit_at a pos"] proxy_not_ok [of pos a] GetSize_bounds(3) [OF pos] inv pos
  by (simp add: Flip_at_def CheckPos_def bits_inv_def)

text \<open>The mask of the last word: only where \<open>N\<close> is not a multiple of 64 is there a word to mask.\<close>

lemma bit_all_ones: "n < 64 \<Longrightarrow> bit (0xffffffffffffffff :: 64 word) n"
proof -
  have "(0xffffffffffffffff :: 64 word) = mask 64" by (simp add: mask_numeral)
  then show "n < 64 \<Longrightarrow> ?thesis" by (simp only: bit_mask_iff) simp
qed

lemma SetLastIndex_ok:
  assumes N: "N mod 64 \<noteq> 0" and a: "length a = GetSize N"
  shows "\<exists>b. SetLastIndex N a = Some b \<and> bits_inv N b \<and> bits N b = bits N a"
proof -
  let ?m = "drop_bit (64 - N mod 64) (0xffffffffffffffff :: 64 word)" and ?k = "N div 64"
  have k: "length a = Suc ?k" using N a by (simp add: GetSize_def GetIndex_def)
  have m: "bit ?m n = (n < N mod 64)" if "n < 64" for n
  proof -
    have "bit ?m n = bit (0xffffffffffffffff :: 64 word) (64 - N mod 64 + n)" by (simp add: bit_drop_bit_eq)
    also have "\<dots> = (n < N mod 64)"
    proof (cases "n < N mod 64")
      case True
      then have "64 - N mod 64 + n < 64" by simp
      then show ?thesis using bit_all_ones True by blast
    next
      case False
      then have "64 \<le> 64 - N mod 64 + n" using N by simp
      then show ?thesis using False by (simp add: bit_word.rep_eq)
    qed
    finally show ?thesis .
  qed
  let ?b = "a[?k := a ! ?k AND ?m]"
  have at: "bit_at ?b i = (bit_at a i \<and> i < N)" if i: "i < 64 * length a" for i
  proof (cases "i div 64 = ?k")
    case True
    then have "(i mod 64 < N mod 64) = (i < N)" by (metis add_less_cancel_left div_mult_mod_eq)
    then show ?thesis using True k m [of "i mod 64"] by (simp add: bit_at_def bit_and_iff)
  next
    case False
    then have "i div 64 < ?k" using i k by (simp add: less_mult_imp_div_less mult.commute less_Suc_eq)
    then have "i < N" by (metis div_le_mono leD not_le)
    then show ?thesis using False by (simp add: bit_at_def)
  qed
  have "SetLastIndex N a = Some ?b" using N k by (simp add: SetLastIndex_def shr_def GetShiftNum_def GetIndex_def)
  moreover have i: "bits_inv N ?b" using at a by (auto simp: bits_inv_def)
  moreover have "bits N ?b = bits N a"
    using at a GetSize_bounds(1) [of N] by (intro bits_eqI [OF i]) auto
  ultimately show ?thesis by blast
qed

section \<open>Counting and printing\<close>

text \<open>All bits of the words, the unused ones too.\<close>

lemma bits_Cons: "bits (64 + n) (w # ws) = map (bit w) [0..<64] @ bits n ws"
proof -
  have "[0..<64 + n] = [0..<64] @ map (\<lambda>i. i + 64) [0..<n]" using upt_add_eq_append [of 0 64 n] by (simp add: map_add_upt add.commute)
  moreover have "map (bit_at (w # ws)) [0..<64] = map (bit w) [0..<64]" by (rule map_cong) (auto simp: bit_at_def)
  moreover have "bit_at (w # ws) (i + 64) = bit_at ws i" for i by (simp add: bit_at_def div_add_self2)
  ultimately show ?thesis by (simp add: bits_def comp_def del: upt_Suc)
qed

lemma bits_words: "bits (64 * length a) a = concat (map (\<lambda>w. map (bit w) [0..<64]) a)"
proof (induction a)
  case (Cons w ws)
  have "64 * length (w # ws) = 64 + 64 * length ws" by simp
  then show ?case using Cons.IH by (simp only: bits_Cons list.map concat.simps)
qed (simp add: bits_def)

lemma bits_inv_words:
  assumes "bits_inv N a"
  shows "bits (64 * length a) a = bits N a @ replicate (64 * length a - N) False"
proof (rule nth_equalityI)
  have "N \<le> 64 * length a" using assms GetSize_bounds(1) by (simp add: bits_inv_def)
  then show "length (bits (64 * length a) a) = length (bits N a @ replicate (64 * length a - N) False)" by simp
qed (use assms in \<open>auto simp: nth_append bits_inv_def\<close>)

lemma lut_256_nth: "k < 256 \<Longrightarrow> lut_256 ! k = ones_nat k"
proof -
  have "\<forall>k \<in> set [0..<256]. lut_256 ! k = ones_nat k" by code_simp
  then show "k < 256 \<Longrightarrow> lut_256 ! k = ones_nat k" by simp
qed

lemma ones_nat_byte: "ones_nat n = ones_nat (n mod 256) + ones_nat (n div 256)"
proof -
  have "n mod 256 mod 16 = n mod 16" by (simp add: mod_mod_cancel)
  moreover have "n mod 256 div 16 = n div 16 mod 16" using mod_mult2_eq [of n 16 16] by simp
  moreover have "n div 16 div 16 = n div 256" using div_mult2_eq [of n 16 16] by simp
  ultimately show ?thesis
    using ones_nat_nibble [of n] ones_nat_nibble [of "n div 16"] ones_nat_nibble [of "n mod 256"] by simp
qed

lemma foldl_CountIndx: "(\<And>k. k \<in> set ks \<Longrightarrow> k < 256) \<Longrightarrow> foldl CountIndx n ks = n + (\<Sum>k\<leftarrow>ks. ones_nat k)"
  by (induction ks arbitrary: n) (simp_all add: CountIndx_def lut_256_nth)

lemma ones_nat_bytes: "n < 256 ^ m \<Longrightarrow> (\<Sum>k\<leftarrow>[0..<m]. ones_nat (n div 256 ^ k mod 256)) = ones_nat n"
proof (induction m arbitrary: n)
  case (Suc m)
  have "[0..<Suc m] = 0 # map Suc [0..<m]" by (simp add: upt_conv_Cons map_Suc_upt del: upt_Suc)
  then have "(\<Sum>k\<leftarrow>[0..<Suc m]. ones_nat (n div 256 ^ k mod 256))
      = ones_nat (n mod 256) + (\<Sum>k\<leftarrow>[0..<m]. ones_nat (n div 256 div 256 ^ k mod 256))"
    by (simp add: comp_def div_mult2_eq del: upt_Suc)
  also have "\<dots> = ones_nat (n mod 256) + ones_nat (n div 256)"
    using Suc by (simp add: div_less_iff_less_mult mult.commute)
  finally show ?case using ones_nat_byte [of n] by simp
qed simp

lemma Count_Bits_eq: "Count_Bits n w = n + length (filter id (map (bit w) [0..<64]))"
proof -
  have w: "unat w < 256 ^ 8" using unsigned_less [of w] by simp
  have "foldl CountIndx 0 (bytes_of w) = (\<Sum>k\<leftarrow>bytes_of w. ones_nat k)"
  proof -
    have "k < 256" if "k \<in> set (bytes_of w)" for k using that unfolding bytes_of_def set_map by fastforce
    then show ?thesis using foldl_CountIndx [of "bytes_of w" 0] by simp
  qed
  also have "\<dots> = ones_nat (unat w)" using ones_nat_bytes [OF w] by (simp only: bytes_of_def map_map comp_def)
  finally show ?thesis by (simp add: Count_Bits_def ones_eq [symmetric] ones_def filter_map comp_def del: upt_Suc)
qed

lemma foldl_Count_Bits: "foldl Count_Bits n a = n + length (filter id (bits (64 * length a) a))"
  unfolding bits_words by (induction a arbitrary: n) (simp_all add: Count_Bits_eq del: upt_Suc)

lemma Count_ok: "bits_inv N a \<Longrightarrow> BitArray_Count a = length (filter id (bits N a))"
  by (simp add: BitArray_Count_def foldl_Count_Bits bits_inv_words)

definition bit_digit :: "bool \<Rightarrow> char" where
  "bit_digit b = (if b then CHR ''1'' else CHR ''0'')"

lemma To_String_ok:
  "length dest = N \<Longrightarrow> c \<le> N \<Longrightarrow> To_String left N dest c w
   = Some (take c dest @ map bit_digit (take (N - c) (map (bit w) [0..<left])) @ drop (c + left) dest, min N (c + left))"
proof (induction left arbitrary: dest c w)
  case (Suc left)
  show ?case
  proof (cases "c < N")
    case True
    have d: "(if w AND 1 = 1 then CHR ''1'' else CHR ''0'') = bit_digit (bit w 0)"
      by (simp add: bit_digit_def and_one_eq bit_0 odd_iff_mod_2_eq_one)
    have "map (bit w) [0..<Suc left] = bit w 0 # map (bit (drop_bit 1 w)) [0..<left]"
      by (simp add: upt_conv_Cons map_Suc_upt [symmetric] bit_drop_bit_eq comp_def del: upt_Suc)
    moreover have "take (N - c) (x # xs) = x # take (N - (c + 1)) xs" for x :: bool and xs
      using True Suc_diff_Suc [of c N] by (metis Suc_eq_plus1 take_Suc_Cons)
    moreover have "take (c + 1) (dest[c := y]) = take c dest @ [y]" for y
      using True Suc.prems(1) by (simp add: take_Suc_conv_app_nth)
    ultimately show ?thesis using Suc.IH [of "dest[c := bit_digit (bit w 0)]" "c + 1" "drop_bit 1 w"] Suc.prems(1) True
      by (simp add: d del: upt_Suc)
  qed (use Suc.prems in \<open>simp del: upt_Suc\<close>)
qed simp

lemma to_string_words_ok:
  "length dest = N \<Longrightarrow> c \<le> N \<Longrightarrow> to_string_words N dest c a
   = Some (take c dest @ map bit_digit (take (N - c) (bits (64 * length a) a)) @ drop (c + 64 * length a) dest)"
  unfolding bits_words
proof (induction a arbitrary: dest c)
  case (Cons w ws)
  let ?d = "take c dest @ map bit_digit (take (N - c) (map (bit w) [0..<64])) @ drop (c + 64) dest"
  have t: "To_String 64 N dest c w = Some (?d, min N (c + 64))" using To_String_ok Cons.prems by blast
  have l: "length ?d = N" using Cons.prems by (simp add: min_def)
  show ?case
  proof (cases "c + 64 \<le> N")
    case True
    then show ?thesis using t Cons.IH [OF l, of "c + 64"] Cons.prems by (simp add: min_absorb2 algebra_simps del: upt_Suc)
  next
    case False
    then show ?thesis using t Cons.IH [OF l, of N] Cons.prems by (simp add: min_absorb1 del: upt_Suc)
  qed
qed simp

lemma ToString_ok:
  assumes "bits_inv N a"
  shows "BitArray_ToString N a = Some (map bit_digit (bits N a))"
proof -
  have "N \<le> 64 * length a" using assms GetSize_bounds(1) by (simp add: bits_inv_def)
  then show ?thesis using to_string_words_ok [of "replicate N (CHR 0x00)" N 0 a] bits_inv_words [OF assms]
    by (simp add: BitArray_ToString_def)
qed

section \<open>Programs with bit arrays\<close>

text \<open>A program has arrays in numbered variables, all of them with \<open>N\<close> bits. An exception leaves them as they are.
  \<open>IndexSet\<close> and \<open>IndexCopy\<close> are the assignments \<open>a[pos] = x\<close> and \<open>a[pos] = b[q]\<close> through proxies, \<open>ProxyFlip\<close> is
  \<open>a[pos].Flip()\<close>.\<close>

datatype bits_op = SetAt nat nat bool | FlipAt nat nat | SetAll nat | FlipAll nat | AndWith nat nat | OrWith nat nat
  | IndexSet nat nat bool | IndexCopy nat nat nat nat | ProxyFlip nat nat

definition caught :: "64 word list \<Rightarrow> bits_exception + 64 word list \<Rightarrow> 64 word list" where
  "caught a r = (case r of Inl _ \<Rightarrow> a | Inr b \<Rightarrow> b)"

fun bits_exec :: "nat \<Rightarrow> bits_op \<Rightarrow> (nat \<Rightarrow> 64 word list) \<Rightarrow> (nat \<Rightarrow> 64 word list) option" where
  "bits_exec N (SetAt v pos x) s = map_option (\<lambda>r. s(v := caught (s v) r)) (Set_at N pos x (s v))"
| "bits_exec N (FlipAt v pos) s = map_option (\<lambda>r. s(v := caught (s v) r)) (Flip_at N pos (s v))"
| "bits_exec N (SetAll v) s = map_option (\<lambda>a. s(v := a)) (Set_all N (s v))"
| "bits_exec N (FlipAll v) s = map_option (\<lambda>a. s(v := a)) (Flip_all N (s v))"
| "bits_exec N (AndWith v w) s = Some (s(v := and_assign (s v) (s w)))"
| "bits_exec N (OrWith v w) s = Some (s(v := or_assign (s v) (s w)))"
| "bits_exec N (IndexSet v pos x) s = (case BitArray_Get N pos of
     Inl e \<Rightarrow> Some s | Inr p \<Rightarrow> map_option (\<lambda>a. s(v := a)) (proxy_assign p x (s v)))"
| "bits_exec N (IndexCopy v pos w q) s = (case (BitArray_Get N pos, BitArray_Get N q) of
     (Inr p, Inr r) \<Rightarrow> map_option (\<lambda>a. s(v := a)) (proxy_copy p r (s w) (s v)) | _ \<Rightarrow> Some s)"
| "bits_exec N (ProxyFlip v pos) s = (case BitArray_Get N pos of
     Inl e \<Rightarrow> Some s | Inr p \<Rightarrow> map_option (\<lambda>a. s(v := a)) (proxy_Flip p (s v)))"

fun bits_run :: "nat \<Rightarrow> bits_op list \<Rightarrow> (nat \<Rightarrow> 64 word list) \<Rightarrow> (nat \<Rightarrow> 64 word list) option" where
  "bits_run N [] s = Some s"
| "bits_run N (op # ops) s = do { s \<leftarrow> bits_exec N op s; bits_run N ops s }"

text \<open>The same program on lists of truth values.\<close>

fun ref_exec :: "nat \<Rightarrow> bits_op \<Rightarrow> (nat \<Rightarrow> bool list) \<Rightarrow> nat \<Rightarrow> bool list" where
  "ref_exec N (SetAt v pos x) s = s(v := (s v)[pos := x])"
| "ref_exec N (FlipAt v pos) s = s(v := (s v)[pos := \<not> s v ! pos])"
| "ref_exec N (SetAll v) s = s(v := replicate N True)"
| "ref_exec N (FlipAll v) s = s(v := map Not (s v))"
| "ref_exec N (AndWith v w) s = s(v := map2 (\<and>) (s v) (s w))"
| "ref_exec N (OrWith v w) s = s(v := map2 (\<or>) (s v) (s w))"
| "ref_exec N (IndexSet v pos x) s = s(v := (s v)[pos := x])"
| "ref_exec N (IndexCopy v pos w q) s = (if q < N then s(v := (s v)[pos := s w ! q]) else s)"
| "ref_exec N (ProxyFlip v pos) s = s(v := (s v)[pos := \<not> s v ! pos])"

definition ref_run :: "nat \<Rightarrow> bits_op list \<Rightarrow> (nat \<Rightarrow> bool list) \<Rightarrow> nat \<Rightarrow> bool list" where
  "ref_run N ops s = fold (ref_exec N) ops s"

text \<open>The programs of the theorem below: no position is \<open>N\<close> itself, which \<open>CheckPos\<close> lets through, and no bit
  is flipped through a proxy, which takes the position for the index of a word.\<close>

fun defined_op :: "nat \<Rightarrow> bits_op \<Rightarrow> bool" where
  "defined_op N (SetAt v pos x) \<longleftrightarrow> pos \<noteq> N"
| "defined_op N (FlipAt v pos) \<longleftrightarrow> pos \<noteq> N"
| "defined_op N (IndexSet v pos x) \<longleftrightarrow> pos \<noteq> N"
| "defined_op N (IndexCopy v pos w q) \<longleftrightarrow> pos \<noteq> N \<and> q \<noteq> N"
| "defined_op N (ProxyFlip v pos) \<longleftrightarrow> False"
| "defined_op N op \<longleftrightarrow> True"

lemma Set_all_ok:
  assumes "N mod 64 \<noteq> 0" "bits_inv N a"
  shows "\<exists>b. Set_all N a = Some b \<and> bits_inv N b \<and> bits N b = replicate N True"
proof -
  let ?a = "map (\<lambda>_. 0xffffffffffffffff) a :: 64 word list"
  have l: "length ?a = GetSize N" using assms(2) by (simp add: bits_inv_def)
  have "bit_at ?a i" if "i < N" for i using GetSize_bounds(3) [OF that] l bit_all_ones [of "i mod 64"] by (simp add: bit_at_def)
  then have "bits N ?a = replicate N True" by (intro nth_equalityI) auto
  then show ?thesis using SetLastIndex_ok [OF assms(1) l] by (simp add: Set_all_def)
qed

lemma Flip_all_ok:
  assumes "N mod 64 \<noteq> 0" "bits_inv N a"
  shows "\<exists>b. Flip_all N a = Some b \<and> bits_inv N b \<and> bits N b = map Not (bits N a)"
proof -
  let ?a = "map (\<lambda>num. NOT num) a"
  have l: "length ?a = GetSize N" using assms(2) by (simp add: bits_inv_def)
  have "bit_at ?a i = (\<not> bit_at a i)" if "i < N" for i
    using GetSize_bounds(3) [OF that] l by (simp add: bit_at_def bit_not_iff)
  then have "bits N ?a = map Not (bits N a)" by (intro nth_equalityI) auto
  then show ?thesis using SetLastIndex_ok [OF assms(1) l] by (simp add: Flip_all_def)
qed

lemma and_or_ok:
  assumes "bits_inv N a" "bits_inv N b"
  shows "bits_inv N (and_assign a b)" "bits N (and_assign a b) = map2 (\<and>) (bits N a) (bits N b)"
    and "bits_inv N (or_assign a b)" "bits N (or_assign a b) = map2 (\<or>) (bits N a) (bits N b)"
proof -
  have l: "length a = GetSize N" "length b = GetSize N" using assms by (simp_all add: bits_inv_def)
  have at: "bit_at (and_assign a b) i = (bit_at a i \<and> bit_at b i)" "bit_at (or_assign a b) i = (bit_at a i \<or> bit_at b i)"
    if "i < 64 * GetSize N" for i
  proof -
    have "i div 64 < GetSize N" using that by (simp add: less_mult_imp_div_less mult.commute)
    then show "bit_at (and_assign a b) i = (bit_at a i \<and> bit_at b i)" "bit_at (or_assign a b) i = (bit_at a i \<or> bit_at b i)"
      using l by (auto simp: and_assign_def or_assign_def bit_at_def bit_and_iff bit_or_iff)
  qed
  have len: "length (and_assign a b) = GetSize N" "length (or_assign a b) = GetSize N"
    using l by (simp_all add: and_assign_def or_assign_def)
  show i: "bits_inv N (and_assign a b)" "bits_inv N (or_assign a b)"
    using assms at l len by (auto simp: bits_inv_def)
  show "bits N (and_assign a b) = map2 (\<and>) (bits N a) (bits N b)" "bits N (or_assign a b) = map2 (\<or>) (bits N a) (bits N b)"
    using at GetSize_bounds(1) [of N] by (auto intro!: nth_equalityI)
qed

lemma bits_exec_ok:
  assumes N: "N mod 64 \<noteq> 0" and inv: "\<And>v. bits_inv N (s v)" and pos: "defined_op N op"
  shows "\<exists>t. bits_exec N op s = Some t \<and> (\<forall>v. bits_inv N (t v)) \<and> (\<forall>v. bits N (t v) = ref_exec N op (\<lambda>v. bits N (s v)) v)"
proof (cases op)
  case (SetAt v p x)
  show ?thesis
  proof (cases "p < N")
    case True
    then show ?thesis using Set_at_ok [OF inv [of v] True, of x] inv SetAt by (auto simp: caught_def)
  next
    case False
    then show ?thesis using pos SetAt inv by (auto simp: Set_at_def CheckPos_def caught_def list_update_beyond)
  qed
next
  case (FlipAt v p)
  show ?thesis
  proof (cases "p < N")
    case True
    then show ?thesis using Flip_at_ok [OF inv [of v] True] inv FlipAt by (auto simp: caught_def)
  next
    case False
    then show ?thesis using pos FlipAt inv by (auto simp: Flip_at_def CheckPos_def caught_def list_update_beyond)
  qed
next
  case (SetAll v)
  then show ?thesis using Set_all_ok [OF N inv, of v] inv by auto
next
  case (FlipAll v)
  then show ?thesis using Flip_all_ok [OF N inv, of v] inv by auto
next
  case (AndWith v w)
  then show ?thesis using and_or_ok(1,2) [OF inv inv, of v w] inv by auto
next
  case (OrWith v w)
  then show ?thesis using and_or_ok(3,4) [OF inv inv, of v w] inv by auto
next
  case (IndexSet v p x)
  show ?thesis
  proof (cases "p < N")
    case True
    then obtain b where "proxy_assign p x (s v) = Some b" "bits_inv N b" "bits N b = (bits N (s v))[p := x]"
      using Set_at_ok [OF inv [of v] True, of x] by (auto simp: Set_at_def CheckPos_def bind_eq_Some_conv)
    then show ?thesis using True inv IndexSet by (auto simp: BitArray_Get_def CheckPos_def)
  next
    case False
    then show ?thesis using pos IndexSet inv by (auto simp: BitArray_Get_def CheckPos_def list_update_beyond)
  qed
next
  case (IndexCopy v p w q)
  consider "p < N" "q < N" | "N < q" | "N < p" "q < N" using pos IndexCopy by (auto simp: neq_iff)
  then show ?thesis
  proof cases
    case 1
    have "proxy_bool q (s w) = Some (bits N (s w) ! q)"
      using proxy_bool_ok [of q "s w"] inv [of w] GetSize_bounds(3) [OF 1(2)] 1(2) by (simp add: bits_inv_def)
    moreover obtain b where "proxy_assign p (bits N (s w) ! q) (s v) = Some b" "bits_inv N b"
      "bits N b = (bits N (s v))[p := bits N (s w) ! q]"
      using Set_at_ok [OF inv [of v] 1(1), of "bits N (s w) ! q"] 1 by (auto simp: Set_at_def CheckPos_def bind_eq_Some_conv)
    ultimately show ?thesis using 1 inv IndexCopy by (auto simp: BitArray_Get_def CheckPos_def proxy_copy_def)
  qed (use inv IndexCopy in \<open>auto simp: BitArray_Get_def CheckPos_def list_update_beyond split: sum.splits\<close>)
next
  case (ProxyFlip v p)
  then show ?thesis using pos by simp
qed

text \<open>What the operator of a constant array reads: whether the bit is the highest one set in its word.\<close>

lemma one_eq_drop_bit: "drop_bit k (w :: 64 word) = 1 \<longleftrightarrow> bit w k \<and> (\<forall>n. k < n \<and> n < 64 \<longrightarrow> \<not> bit w n)"
proof
  assume d: "drop_bit k w = 1"
  have b: "bit w (k + n) = (n = 0)" for n using arg_cong [OF d, of "\<lambda>x. bit x n"] by (simp add: bit_drop_bit_eq bit_1_iff)
  then have "\<not> bit w n" if "k < n" for n using b [of "n - k"] that by simp
  then show "bit w k \<and> (\<forall>n. k < n \<and> n < 64 \<longrightarrow> \<not> bit w n)" using b [of 0] by simp
next
  assume h: "bit w k \<and> (\<forall>n. k < n \<and> n < 64 \<longrightarrow> \<not> bit w n)"
  show "drop_bit k w = 1"
  proof (rule bit_word_eqI)
    fix n assume "n < LENGTH(64)"
    have "\<not> bit w (k + n)" if "0 < n"
    proof (cases "k + n < 64")
      case True
      then show ?thesis using h that by auto
    next
      case False
      then show ?thesis using bit_imp_le_length [of w "k + n"] by auto
    qed
    then show "bit (drop_bit k w) n = bit 1 n" using h by (cases "n = 0") (auto simp: bit_drop_bit_eq bit_1_iff)
  qed
qed

lemma const_index_ok:
  assumes inv: "bits_inv N a" and pos: "pos < N"
  shows "const_index N pos a = Some (Inr (bits N a ! pos \<and>
    (\<forall>q. pos < q \<and> q < N \<and> q div 64 = pos div 64 \<longrightarrow> \<not> bits N a ! q)))"
proof -
  have l: "pos div 64 < length a" using inv GetSize_bounds(3) [OF pos] by (simp add: bits_inv_def)
  let ?w = "a ! (pos div 64)"
  have same: "(\<forall>n. pos mod 64 < n \<and> n < 64 \<longrightarrow> \<not> bit ?w n) \<longleftrightarrow>
      (\<forall>q. pos < q \<and> q < N \<and> q div 64 = pos div 64 \<longrightarrow> \<not> bits N a ! q)" (is "?A \<longleftrightarrow> ?B")
  proof
    assume A: ?A
    have "\<not> bits N a ! q" if q: "pos < q" "q < N" "q div 64 = pos div 64" for q
    proof -
      have "pos mod 64 < q mod 64" using q(1,3) by (metis div_mult_mod_eq nat_add_left_cancel_less)
      then show ?thesis using A q by (simp add: bit_at_def)
    qed
    then show ?B by blast
  next
    assume B: ?B
    have "\<not> bit ?w n" if n: "pos mod 64 < n" "n < 64" for n
    proof -
      define q where "q = 64 * (pos div 64) + n"
      have q: "q div 64 = pos div 64" "q mod 64 = n" using n(2) by (simp_all add: q_def)
      have "pos = 64 * (pos div 64) + pos mod 64" by simp
      then have "pos < q" using n(1) unfolding q_def by linarith
      have "\<not> bit_at a q"
      proof (cases "q < N")
        case True
        then show ?thesis using B \<open>pos < q\<close> q by auto
      next
        case False
        moreover have "q < 64 * length a" using l n(2) unfolding q_def by linarith
        ultimately show ?thesis using inv by (simp add: bits_inv_def)
      qed
      then show ?thesis using q by (simp add: bit_at_def)
    qed
    then show ?A by blast
  qed
  have "const_index N pos a = Some (Inr (drop_bit (pos mod 64) ?w = 1))"
    using l pos by (auto simp: const_index_def CheckPos_def GetIndex_def GetShiftNum_def shr_def)
  then show ?thesis unfolding one_eq_drop_bit same using pos by (simp add: bit_at_def)
qed

lemma bits_run_ok:
  assumes "N mod 64 \<noteq> 0" "\<And>v. bits_inv N (s v)" "\<forall>op \<in> set ops. defined_op N op"
  shows "\<exists>t. bits_run N ops s = Some t \<and> (\<forall>v. bits_inv N (t v)) \<and> (\<lambda>v. bits N (t v)) = ref_run N ops (\<lambda>v. bits N (s v))"
  using assms(2,3)
proof (induction ops arbitrary: s)
  case (Cons op ops)
  obtain t where t: "bits_exec N op s = Some t" "\<forall>v. bits_inv N (t v)" "\<forall>v. bits N (t v) = ref_exec N op (\<lambda>v. bits N (s v)) v"
    using bits_exec_ok [OF assms(1), of s op] Cons.prems by auto
  then have "(\<lambda>v. bits N (t v)) = ref_exec N op (\<lambda>v. bits N (s v))" by blast
  then show ?case using Cons.IH [of t] t(1,2) Cons.prems(2) by (simp add: ref_run_def)
qed (simp add: ref_run_def)

lemma bits_new: "bits_inv N (BitArray_new N)" "bits N (BitArray_new N) = replicate N False"
proof -
  have at: "\<not> bit_at (BitArray_new N) i" if "i < 64 * GetSize N" for i
  proof -
    have "i div 64 < GetSize N" using that by (simp add: less_mult_imp_div_less mult.commute)
    then show ?thesis by (simp add: bit_at_def BitArray_new_def)
  qed
  show i: "bits_inv N (BitArray_new N)" using at by (simp add: bits_inv_def BitArray_new_def)
  show "bits N (BitArray_new N) = replicate N False" using at GetSize_bounds(1) [of N] by (intro bits_eqI [OF i]) auto
qed

text \<open>C10. Whatever a program does with its bit arrays of \<open>N\<close> bits - \<open>Set\<close> and \<open>Flip\<close> of the array and of one
  position, \<open>&=\<close> and \<open>|=\<close>, assignments to \<open>a[pos]\<close> of a truth value or of another \<open>b[q]\<close>, positions behind the end
  included, which throw and change nothing - no operation is undefined, and the arrays hold what lists of \<open>N\<close>
  truth values would: the counts, the texts, the values read through a proxy and the comparisons are those of
  the lists. The operator \<open>[]\<close> of a constant array reads something else: whether the bit is the highest one that is
  set in its word of 64 bits. \<open>N\<close> is not a multiple of 64, no operation is given the position \<open>N\<close> itself, and no
  bit is flipped with \<open>BitProxy::Flip\<close>: these three fail (lemmas below).\<close>

theorem bit_array_refines_list:
  assumes "N mod 64 \<noteq> 0" "\<forall>op \<in> set ops. defined_op N op"
  shows "\<exists>s. bits_run N ops (\<lambda>_. BitArray_new N) = Some s \<and> (let t = ref_run N ops (\<lambda>_. replicate N False) in
     (\<forall>v. BitArray_Count (s v) = length (filter id (t v)) \<and> BitArray_ToString N (s v) = Some (map bit_digit (t v))
        \<and> (\<forall>pos < N. proxy_bool pos (s v) = Some (t v ! pos) \<and> const_index N pos (s v) = Some (Inr (t v ! pos \<and>
            (\<forall>q. pos < q \<and> q < N \<and> q div 64 = pos div 64 \<longrightarrow> \<not> t v ! q))))
        \<and> (\<forall>w. bits_eq (s v) (s w) \<longleftrightarrow> t v = t w)))"
proof -
  obtain s where s: "bits_run N ops (\<lambda>_. BitArray_new N) = Some s" "\<forall>v. bits_inv N (s v)"
    "(\<lambda>v. bits N (s v)) = ref_run N ops (\<lambda>_. replicate N False)"
    using bits_run_ok [OF assms(1) bits_new(1) assms(2)] unfolding bits_new(2) by blast
  have "proxy_bool pos (s v) = Some (bits N (s v) ! pos)" if "pos < N" for pos v
    using proxy_bool_ok [of pos "s v"] s(2) GetSize_bounds(3) [OF that] that by (simp add: bits_inv_def)
  moreover have "bits_eq (s v) (s w) \<longleftrightarrow> bits N (s v) = bits N (s w)" for v w
    using bits_inj s(2) by (auto simp: bits_eq_def)
  moreover have "BitArray_Count (s v) = length (filter id (bits N (s v)))" "BitArray_ToString N (s v) = Some (map bit_digit (bits N (s v)))"
    for v using Count_ok ToString_ok s(2) by blast+
  moreover have "const_index N pos (s v) = Some (Inr (bits N (s v) ! pos \<and>
      (\<forall>q. pos < q \<and> q < N \<and> q div 64 = pos div 64 \<longrightarrow> \<not> bits N (s v) ! q)))" if "pos < N" for pos v
    using const_index_ok s(2) that by blast
  ultimately show ?thesis unfolding s(3) [symmetric] Let_def using s(1) by blast
qed

theorem bit_array_refines_list_witness:
  "\<exists>s. bits_run 70 [SetAll 0, SetAt 0 3 False, FlipAll 0, IndexCopy 1 3 0 3, FlipAt 1 99] (\<lambda>_. BitArray_new 70) = Some s
     \<and> BitArray_Count (s 0) = 1 \<and> proxy_bool 3 (s 0) = Some True \<and> bits_eq (s 0) (s 1)"
proof -
  let ?ops = "[SetAll 0, SetAt 0 3 False, FlipAll 0, IndexCopy 1 3 0 3, FlipAt 1 99]"
  let ?l = "(replicate 70 False)[3 := True]"
  have t: "ref_run 70 ?ops (\<lambda>_. replicate 70 False) 0 = ?l" "ref_run 70 ?ops (\<lambda>_. replicate 70 False) 1 = ?l"
    by (simp_all add: ref_run_def map_update list_update_beyond)
  have c: "length (filter id ?l) = 1" "?l ! 3 = True" by code_simp+
  have "(70 :: nat) mod 64 \<noteq> 0" "\<forall>op \<in> set ?ops. defined_op 70 op" by simp_all
  from bit_array_refines_list [OF this] obtain s where s: "bits_run 70 ?ops (\<lambda>_. BitArray_new 70) = Some s"
    and r: "\<forall>v. BitArray_Count (s v) = length (filter id (ref_run 70 ?ops (\<lambda>_. replicate 70 False) v))"
      "\<forall>v. \<forall>pos < 70. proxy_bool pos (s v) = Some (ref_run 70 ?ops (\<lambda>_. replicate 70 False) v ! pos)"
      "\<forall>v w. bits_eq (s v) (s w) \<longleftrightarrow> ref_run 70 ?ops (\<lambda>_. replicate 70 False) v = ref_run 70 ?ops (\<lambda>_. replicate 70 False) w"
    unfolding Let_def by blast
  have "BitArray_Count (s 0) = 1" using r(1) t(1) c(1) by simp
  moreover have "proxy_bool 3 (s 0) = Some True" using r(2) [rule_format, of 3 0] t(1) c(2) by simp
  moreover have "bits_eq (s 0) (s 1)" using r(3) t by simp
  ultimately show ?thesis using s by blast
qed

section \<open>Where the class fails\<close>

text \<open>With a multiple of 64 bits, 64 being the default, there is no last word to mask: the shift is by 64 places.\<close>

lemma Set_all_multiple: "N mod 64 = 0 \<Longrightarrow> Set_all N a = None \<and> Flip_all N a = None"
  by (simp add: Set_all_def Flip_all_def SetLastIndex_def shr_def GetShiftNum_def Let_def)

text \<open>The operator of a constant array says whether a bit is the highest one that is set.\<close>

lemma const_index_highest: "const_index 8 0 [5] = Some (Inr False)" "const_index 8 2 [5] = Some (Inr True)"
  by (simp_all add: const_index_def CheckPos_def GetIndex_def GetShiftNum_def shr_def)

text \<open>The position \<open>N\<close> is accepted: setting it changes the count of the array, or writes behind the vector.\<close>

lemma Set_at_end: "Set_at 8 8 True [0] = Some (Inr [256])" "BitArray_Count [256] = 1" "Set_at 64 64 True [0] = None"
proof -
  show "Set_at 8 8 True [0] = Some (Inr [256])" "Set_at 64 64 True [0] = None"
    by (simp_all add: Set_at_def CheckPos_def proxy_assign_def GetIndex_def GetShiftNum_def shl_def Let_def)
  show "BitArray_Count [256] = 1"
    by (simp add: BitArray_Count_def Count_Bits_def bytes_of_def CountIndx_def lut_256_def upt_rec)
qed

text \<open>Flipping through the proxy takes the position for the index of a word.\<close>

lemma proxy_Flip_word: "proxy_Flip 0 [6] = Some [0]" "proxy_Flip 1 [6] = None"
  by (simp_all add: proxy_Flip_def)

end

