(* ===== verification/WaitableQueue.thy ===== *)
theory WaitableQueue
  imports Prelude
begin

text \<open>
  The queue of \<open>projects/waitable_queue\<close> with its default container: threads push, and pop with or without a time
  limit. The queue is guarded by a mutex, and a thread that finds it empty waits for a condition variable.
  A wait gives the mutex back and ends by \<open>notify_one\<close>, for no reason, or at its time limit, and takes the mutex again.
\<close>

section \<open>The code\<close>

text \<open>The place in \<open>Push\<close> with its argument, in the two versions of \<open>Pop\<close> with \<open>True\<close> for the one with a limit, and in the
  part of the latter that is reached when the time is over.\<close>

datatype 'a pc = Push_lock 'a | Push_push 'a | Push_unlock 'a | Push_notify 'a | Push_done 'a
  | Pop_lock bool | Pop_test bool | Pop_wait bool | Pop_relock bool | Pop_front bool | Pop_pop bool 'a | Pop_unlock bool 'a | Pop_done bool 'a
  | Late_lock | Late_unlock | Late_done

text \<open>The object with the threads that use it, and what has been pushed and popped so far.\<close>

record 'a wqueue =
  m_queue :: "'a list"
  m_mutex :: "nat option"
  thr :: "'a pc list"
  pushed :: "'a list"
  popped :: "'a list"

definition go_to :: "nat \<Rightarrow> 'a pc \<Rightarrow> 'a wqueue \<Rightarrow> 'a wqueue" where
  "go_to i c s = s\<lparr>thr := (thr s)[i := c]\<rparr>"

fun waits :: "'a pc \<Rightarrow> bool" where
  "waits (Pop_wait t) = True"
| "waits c = False"

text \<open>A step of thread \<open>i\<close>, \<open>None\<close> if it can make none; \<open>w\<close> is the thread that \<open>notify_one\<close> wakes up if there is one to wake.\<close>

definition wq_push :: "nat \<Rightarrow> nat \<Rightarrow> 'a wqueue \<Rightarrow> 'a wqueue option" where
  "wq_push i w s = (case thr s ! i of
     Push_lock data \<Rightarrow> if m_mutex s = None then Some (go_to i (Push_push data) (s\<lparr>m_mutex := Some i\<rparr>)) else None
   | Push_push data \<Rightarrow> Some (go_to i (Push_unlock data) (s\<lparr>m_queue := m_queue s @ [data], pushed := pushed s @ [data]\<rparr>))
   | Push_unlock data \<Rightarrow> Some (go_to i (Push_notify data) (s\<lparr>m_mutex := None\<rparr>))
   | Push_notify data \<Rightarrow>
       if list_ex waits (thr s) then
         (if w < length (thr s) then (case thr s ! w of Pop_wait t \<Rightarrow> Some (go_to i (Push_done data) (go_to w (Pop_relock t) s)) | _ \<Rightarrow> None)
          else None)
       else Some (go_to i (Push_done data) s)
   | _ \<Rightarrow> None)"

definition wq_pop :: "nat \<Rightarrow> 'a wqueue \<Rightarrow> 'a wqueue option" where
  "wq_pop i s = (case thr s ! i of
     Pop_lock t \<Rightarrow> if m_mutex s = None then Some (go_to i (Pop_test t) (s\<lparr>m_mutex := Some i\<rparr>)) else None
   | Pop_test t \<Rightarrow>
       if m_queue s = [] then Some (go_to i (Pop_wait t) (s\<lparr>m_mutex := None\<rparr>))
       else Some (go_to i (Pop_front t) s)
   | Pop_relock t \<Rightarrow> if m_mutex s = None then Some (go_to i (Pop_test t) (s\<lparr>m_mutex := Some i\<rparr>)) else None
   | Pop_front t \<Rightarrow> (case m_queue s of [] \<Rightarrow> None | x # _ \<Rightarrow> Some (go_to i (Pop_pop t x) s))
   | Pop_pop t x \<Rightarrow> (case m_queue s of [] \<Rightarrow> None | y # q \<Rightarrow> Some (go_to i (Pop_unlock t x) (s\<lparr>m_queue := q, popped := popped s @ [y]\<rparr>)))
   | Pop_unlock t x \<Rightarrow> Some (go_to i (Pop_done t x) (s\<lparr>m_mutex := None\<rparr>))
   | Late_lock \<Rightarrow> if m_mutex s = None then Some (go_to i Late_unlock (s\<lparr>m_mutex := Some i\<rparr>)) else None
   | Late_unlock \<Rightarrow> Some (go_to i Late_done (s\<lparr>m_mutex := None\<rparr>))
   | _ \<Rightarrow> None)"

inductive wq_step :: "'a wqueue \<Rightarrow> 'a wqueue \<Rightarrow> bool" where
  push: "i < length (thr s) \<Longrightarrow> wq_push i w s = Some s' \<Longrightarrow> wq_step s s'"
| pop: "i < length (thr s) \<Longrightarrow> wq_pop i s = Some s' \<Longrightarrow> wq_step s s'"
| spurious: "i < length (thr s) \<Longrightarrow> thr s ! i = Pop_wait t \<Longrightarrow> wq_step s (go_to i (Pop_relock t) s)"
| timeout: "i < length (thr s) \<Longrightarrow> thr s ! i = Pop_wait True \<Longrightarrow> wq_step s (go_to i Late_lock s)"

inductive_cases wq_stepE: "wq_step s s'"

text \<open>A new queue and the threads before their calls.\<close>

fun before_call :: "'a pc \<Rightarrow> bool" where
  "before_call (Push_lock x) = True"
| "before_call (Pop_lock t) = True"
| "before_call c = False"

definition wq_start :: "'a pc list \<Rightarrow> 'a wqueue" where
  "wq_start calls = \<lparr>m_queue = [], m_mutex = None, thr = calls, pushed = [], popped = []\<rparr>"

fun has_returned :: "'a pc \<Rightarrow> bool" where
  "has_returned (Push_done x) = True"
| "has_returned (Pop_done t x) = True"
| "has_returned Late_done = True"
| "has_returned c = False"

section \<open>The invariant\<close>

fun holds_mutex :: "'a pc \<Rightarrow> bool" where
  "holds_mutex (Push_push x) = True"
| "holds_mutex (Push_unlock x) = True"
| "holds_mutex (Pop_test t) = True"
| "holds_mutex (Pop_front t) = True"
| "holds_mutex (Pop_pop t x) = True"
| "holds_mutex (Pop_unlock t x) = True"
| "holds_mutex Late_unlock = True"
| "holds_mutex c = False"

text \<open>Threads that will wake another one up or look at the queue themselves.\<close>

fun active :: "'a pc \<Rightarrow> nat" where
  "active (Push_unlock x) = 1"
| "active (Push_notify x) = 1"
| "active (Pop_lock t) = 1"
| "active (Pop_relock t) = 1"
| "active (Pop_test t) = 1"
| "active (Pop_front t) = 1"
| "active (Pop_pop t x) = 1"
| "active c = 0"

fun gave :: "'a pc \<Rightarrow> 'a multiset" where
  "gave (Push_unlock x) = {#x#}"
| "gave (Push_notify x) = {#x#}"
| "gave (Push_done x) = {#x#}"
| "gave c = {#}"

fun got :: "'a pc \<Rightarrow> 'a multiset" where
  "got (Pop_unlock t x) = {#x#}"
| "got (Pop_done t x) = {#x#}"
| "got c = {#}"

fun place_ok :: "'a list \<Rightarrow> 'a pc \<Rightarrow> bool" where
  "place_ok q (Pop_front t) = (q \<noteq> [])"
| "place_ok q (Pop_pop t x) = (\<exists>q'. q = x # q')"
| "place_ok q c = True"

definition sum_over :: "('a pc \<Rightarrow> 'b) \<Rightarrow> 'a pc list \<Rightarrow> 'b :: comm_monoid_add" where
  "sum_over f cs = sum_list (map f cs)"

definition wq_core :: "'a wqueue \<Rightarrow> bool" where
  "wq_core s \<longleftrightarrow> (\<forall>i<length (thr s). holds_mutex (thr s ! i) \<longleftrightarrow> m_mutex s = Some i)
     \<and> (\<forall>i. m_mutex s = Some i \<longrightarrow> i < length (thr s))
     \<and> (\<forall>i<length (thr s). place_ok (m_queue s) (thr s ! i))
     \<and> pushed s = popped s @ m_queue s \<and> mset (pushed s) = sum_over gave (thr s) \<and> mset (popped s) = sum_over got (thr s)"

text \<open>If a thread waits, as many threads are active as there are elements in the queue.\<close>

definition wake_ok :: "'a wqueue \<Rightarrow> bool" where
  "wake_ok s \<longleftrightarrow> (list_ex waits (thr s) \<longrightarrow> length (m_queue s) \<le> sum_over active (thr s))"

lemma sum_over_update: "i < length cs \<Longrightarrow> f (cs ! i) + sum_over f (cs[i := c]) = sum_over f cs + f c"
proof (induction cs arbitrary: i)
  case (Cons d cs)
  then show ?case by (cases i) (auto simp: sum_over_def ac_simps)
qed simp

lemma place_ok_free: "\<not> holds_mutex c \<Longrightarrow> place_ok q c"
  by (cases c) auto

lemma waits_update: "list_ex waits (cs[i := c]) \<Longrightarrow> list_ex waits cs \<or> waits c"
  by (auto simp: list_ex_iff dest: set_update_subset_insert [THEN subsetD])

lemma wq_core_go:
  assumes inv: "wq_core s" and i: "i < length (thr s)" and t: "thr s' = (thr s)[i := c]"
    and h: "holds_mutex c \<longleftrightarrow> m_mutex s' = Some i"
    and m: "m_mutex s' = m_mutex s \<or> m_mutex s = None \<and> m_mutex s' = Some i \<or> m_mutex s = Some i \<and> m_mutex s' = None"
    and q: "m_queue s' = m_queue s \<or> m_mutex s = Some i" and p: "place_ok (m_queue s') c"
    and l: "pushed s' = popped s' @ m_queue s'"
    and g: "mset (pushed s') + gave (thr s ! i) = mset (pushed s) + gave c" "mset (popped s') + got (thr s ! i) = mset (popped s) + got c"
  shows "wq_core s'"
proof -
  have hold: "holds_mutex (thr s' ! j) \<longleftrightarrow> m_mutex s' = Some j" if "j < length (thr s)" for j
    using inv that m h i by (cases "j = i") (auto simp: wq_core_def t)
  have "place_ok (m_queue s') (thr s' ! j)" if j: "j < length (thr s)" for j
  proof (cases "j = i")
    case False
    then show ?thesis
    proof (cases "m_mutex s = Some i")
      case True
      then have "\<not> holds_mutex (thr s ! j)" using inv j False by (simp add: wq_core_def)
      then show ?thesis using place_ok_free False t by simp
    qed (use inv q j t in \<open>simp add: wq_core_def\<close>)
  qed (use p i t in simp)
  moreover have "mset (pushed s') = sum_over gave (thr s')" "mset (popped s') = sum_over got (thr s')"
  proof -
    have "gave (thr s ! i) + mset (pushed s') = gave (thr s ! i) + sum_over gave (thr s')"
      "got (thr s ! i) + mset (popped s') = got (thr s ! i) + sum_over got (thr s')"
      using g inv sum_over_update [OF i, of gave c] sum_over_update [OF i, of got c] unfolding wq_core_def t by (metis add.commute)+
    then show "mset (pushed s') = sum_over gave (thr s')" "mset (popped s') = sum_over got (thr s')" by (blast dest: add_left_imp_eq)+
  qed
  moreover have "\<forall>j. m_mutex s' = Some j \<longrightarrow> j < length (thr s')" using inv m i t by (auto simp: wq_core_def)
  ultimately show ?thesis using hold l t by (simp add: wq_core_def)
qed

lemma wake_ok_go:
  assumes inv: "wake_ok s" and i: "i < length (thr s)" and t: "thr s' = (thr s)[i := c]"
    and q: "length (m_queue s') + active (thr s ! i) \<le> length (m_queue s) + active c \<and> \<not> waits c \<or> m_queue s' = []"
  shows "wake_ok s'"
proof -
  have "active (thr s ! i) + sum_over active (thr s') = sum_over active (thr s) + active c"
    using sum_over_update [OF i, of active c] t by simp
  then show ?thesis using inv q waits_update [of "thr s" i c] t by (auto simp: wake_ok_def)
qed

lemma wq_go:
  assumes "wq_core s" "wake_ok s" "i < length (thr s)" "thr s' = (thr s)[i := c]" "holds_mutex c \<longleftrightarrow> m_mutex s' = Some i"
    "m_mutex s' = m_mutex s \<or> m_mutex s = None \<and> m_mutex s' = Some i \<or> m_mutex s = Some i \<and> m_mutex s' = None"
    "m_queue s' = m_queue s \<or> m_mutex s = Some i" "place_ok (m_queue s') c" "pushed s' = popped s' @ m_queue s'"
    "mset (pushed s') + gave (thr s ! i) = mset (pushed s) + gave c" "mset (popped s') + got (thr s ! i) = mset (popped s) + got c"
    "length (m_queue s') + active (thr s ! i) \<le> length (m_queue s) + active c \<and> \<not> waits c \<or> m_queue s' = []"
  shows "wq_core s' \<and> wake_ok s'"
  using wq_core_go [OF assms(1,3,4,5,6,7,8,9,10,11)] wake_ok_go [OF assms(2,3,4,12)] by blast

lemma wq_core_not_holding: "wq_core s \<Longrightarrow> i < length (thr s) \<Longrightarrow> holds_mutex (thr s ! i) \<longleftrightarrow> m_mutex s = Some i"
  by (simp add: wq_core_def)

lemma wq_push_inv:
  assumes inv: "wq_core s" "wake_ok s" and i: "i < length (thr s)" and step: "wq_push i w s = Some s'"
  shows "wq_core s' \<and> wake_ok s'"
proof -
  have l: "pushed s = popped s @ m_queue s" using inv(1) by (simp add: wq_core_def)
  have h: "holds_mutex (thr s ! i) \<longleftrightarrow> m_mutex s = Some i" using wq_core_not_holding inv(1) i by blast
  show ?thesis
  proof (cases "thr s ! i")
    case (Push_lock x)
    then have "s' = go_to i (Push_push x) (s\<lparr>m_mutex := Some i\<rparr>)" "m_mutex s = None" using step by (auto simp: wq_push_def split: if_splits)
    then show ?thesis using Push_lock l by (intro wq_go [OF inv i, of s' "Push_push x"]) (auto simp: go_to_def)
  next
    case (Push_push x)
    then have "s' = go_to i (Push_unlock x) (s\<lparr>m_queue := m_queue s @ [x], pushed := pushed s @ [x]\<rparr>)"
      using step by (auto simp: wq_push_def)
    then show ?thesis using Push_push l h by (intro wq_go [OF inv i, of s' "Push_unlock x"]) (auto simp: go_to_def)
  next
    case (Push_unlock x)
    then have "s' = go_to i (Push_notify x) (s\<lparr>m_mutex := None\<rparr>)" using step by (auto simp: wq_push_def)
    then show ?thesis using Push_unlock l h by (intro wq_go [OF inv i, of s' "Push_notify x"]) (auto simp: go_to_def)
  next
    case (Push_notify x)
    show ?thesis
    proof (cases "list_ex waits (thr s)")
      case True
      then obtain t where w: "w < length (thr s)" "thr s ! w = Pop_wait t" "s' = go_to i (Push_done x) (go_to w (Pop_relock t) s)"
        using step Push_notify by (auto simp: wq_push_def split: if_splits pc.splits)
      have wi: "w \<noteq> i" using w(2) Push_notify by auto
      let ?u = "go_to w (Pop_relock t) s"
      have hw: "m_mutex s \<noteq> Some w" "m_mutex s \<noteq> Some i"
        using wq_core_not_holding [OF inv(1) w(1)] wq_core_not_holding [OF inv(1) i] w(2) Push_notify by auto
      have u: "wq_core ?u" using w(2) l hw by (intro wq_core_go [OF inv(1) w(1), of _ "Pop_relock t"]) (auto simp: go_to_def)
      have ui: "thr ?u ! i = Push_notify x" "i < length (thr ?u)" using wi Push_notify i by (simp_all add: go_to_def)
      have "wq_core s'" using ui l hw w(3) by (intro wq_core_go [OF u ui(2), of _ "Push_done x"]) (auto simp: go_to_def)
      moreover have "sum_over active (thr s') = sum_over active (thr s)"
        using sum_over_update [OF w(1), of active "Pop_relock t"] sum_over_update [OF ui(2), of active "Push_done x"] w(2,3) ui(1)
        by (simp add: go_to_def)
      ultimately show ?thesis using inv(2) True w(3) by (simp add: wake_ok_def go_to_def)
    next
      case False
      then have s': "s' = go_to i (Push_done x) s" using step Push_notify by (auto simp: wq_push_def)
      then have "\<not> list_ex waits (thr s')" using False waits_update [of "thr s" i "Push_done x"] by (auto simp: go_to_def)
      then show ?thesis using s' Push_notify l h
        by (intro conjI wq_core_go [OF inv(1) i, of s' "Push_done x"]) (auto simp: go_to_def wake_ok_def)
    qed
  qed (use step in \<open>auto simp: wq_push_def\<close>)
qed

lemma wq_pop_inv:
  assumes inv: "wq_core s" "wake_ok s" and i: "i < length (thr s)" and step: "wq_pop i s = Some s'"
  shows "wq_core s' \<and> wake_ok s'"
proof -
  have l: "pushed s = popped s @ m_queue s" using inv(1) by (simp add: wq_core_def)
  have h: "holds_mutex (thr s ! i) \<longleftrightarrow> m_mutex s = Some i" using wq_core_not_holding inv(1) i by blast
  have p: "place_ok (m_queue s) (thr s ! i)" using inv(1) i by (simp add: wq_core_def)
  note go = wq_go [OF inv i]
  show ?thesis
  proof (cases "thr s ! i")
    case (Pop_lock t)
    then show ?thesis using step l by (intro go [of s' "Pop_test t"]) (auto simp: wq_pop_def go_to_def split: if_splits)
  next
    case (Pop_test t)
    show ?thesis
    proof (cases "m_queue s = []")
      case True
      then show ?thesis using Pop_test step l h by (intro go [of s' "Pop_wait t"]) (auto simp: wq_pop_def go_to_def)
    next
      case False
      then show ?thesis using Pop_test step l h by (intro go [of s' "Pop_front t"]) (auto simp: wq_pop_def go_to_def)
    qed
  next
    case (Pop_relock t)
    then show ?thesis using step l by (intro go [of s' "Pop_test t"]) (auto simp: wq_pop_def go_to_def split: if_splits)
  next
    case (Pop_front t)
    then obtain x q where q: "m_queue s = x # q" using p by (cases "m_queue s") auto
    then show ?thesis using Pop_front step l h by (intro go [of s' "Pop_pop t x"]) (auto simp: wq_pop_def go_to_def)
  next
    case (Pop_pop t x)
    then obtain q where q: "m_queue s = x # q" using p by auto
    then show ?thesis using Pop_pop step l h by (intro go [of s' "Pop_unlock t x"]) (auto simp: wq_pop_def go_to_def)
  next
    case (Pop_unlock t x)
    then show ?thesis using step l h by (intro go [of s' "Pop_done t x"]) (auto simp: wq_pop_def go_to_def)
  next
    case Late_lock
    then show ?thesis using step l by (intro go [of s' Late_unlock]) (auto simp: wq_pop_def go_to_def split: if_splits)
  next
    case Late_unlock
    then show ?thesis using step l h by (intro go [of s' Late_done]) (auto simp: wq_pop_def go_to_def)
  qed (use step in \<open>auto simp: wq_pop_def\<close>)
qed

lemma wq_wake_inv:
  assumes inv: "wq_core s" "wake_ok s" and i: "i < length (thr s)" "thr s ! i = Pop_wait t" and c: "c = Pop_relock t \<or> c = Late_lock"
  shows "wq_core (go_to i c s) \<and> wake_ok (go_to i c s)"
proof -
  have l: "pushed s = popped s @ m_queue s" using inv(1) by (simp add: wq_core_def)
  have h: "m_mutex s \<noteq> Some i" using wq_core_not_holding [OF inv(1) i(1)] i(2) by simp
  show ?thesis using l h i(2) c by (intro wq_go [OF inv i(1), of _ c]) (auto simp: go_to_def)
qed

lemma wq_step_inv: "wq_step s s' \<Longrightarrow> wq_core s \<Longrightarrow> wake_ok s \<Longrightarrow> wq_core s' \<and> wake_ok s'"
  by (erule wq_stepE) (use wq_push_inv wq_pop_inv wq_wake_inv in blast)+

lemma wq_start_inv:
  assumes "\<forall>c \<in> set calls. before_call c"
  shows "wq_core (wq_start calls)" "wake_ok (wq_start calls)"
proof -
  have z: "\<not> holds_mutex c \<and> gave c = {#} \<and> got c = {#} \<and> \<not> waits c" if "before_call c" for c :: "'a pc"
    using that by (cases c) auto
  have "sum_over gave calls = {#}" "sum_over got calls = {#}" using assms z by (induction calls) (auto simp: sum_over_def)
  moreover have "\<forall>i<length calls. \<not> holds_mutex (calls ! i)" using assms z by (auto simp: all_set_conv_all_nth)
  ultimately show "wq_core (wq_start calls)" by (auto simp: wq_core_def wq_start_def place_ok_free)
  show "wake_ok (wq_start calls)" by (simp add: wake_ok_def wq_start_def)
qed

lemma wq_reachable:
  assumes "\<forall>c \<in> set calls. before_call c" "wq_step\<^sup>*\<^sup>* (wq_start calls) s"
  shows "wq_core s \<and> wake_ok s \<and> length (thr s) = length calls"
  using assms(2)
proof (induction rule: rtranclp_induct)
  case base
  then show ?case using wq_start_inv [OF assms(1)] by (simp add: wq_start_def)
next
  case (step s s')
  have "length (thr s') = length (thr s)"
    using step.hyps(2) by (elim wq_stepE) (auto simp: wq_push_def wq_pop_def go_to_def split: pc.splits if_splits list.splits)
  then show ?case using step wq_step_inv by metis
qed

text \<open>A thread that can make no step has returned, waits, or needs the mutex that another one has.\<close>

lemma no_step_cases:
  assumes inv: "wq_core s" and i: "i < length (thr s)" and push: "\<forall>w. wq_push i w s = None" and pop: "wq_pop i s = None"
  shows "has_returned (thr s ! i) \<or> waits (thr s ! i) \<or> m_mutex s \<noteq> None \<and> \<not> holds_mutex (thr s ! i)"
proof -
  have p: "place_ok (m_queue s) (thr s ! i)" using inv i by (simp add: wq_core_def)
  show ?thesis
  proof (cases "thr s ! i")
    case (Push_notify x)
    show ?thesis
    proof (cases "list_ex waits (thr s)")
      case True
      then obtain w where w: "w < length (thr s)" "waits (thr s ! w)" by (auto simp: list_ex_length)
      then obtain t where "thr s ! w = Pop_wait t" by (cases "thr s ! w") auto
      then have "wq_push i w s \<noteq> None" using True w(1) Push_notify by (simp add: wq_push_def)
      then show ?thesis using push by simp
    next
      case False
      then show ?thesis using push Push_notify by (auto simp: wq_push_def)
    qed
  qed (use p push pop in \<open>auto simp: wq_push_def wq_pop_def split: if_splits list.splits\<close>)
qed

text \<open>C11. However the calls of any number of threads interleave, the values leave the queue in the order in which they
  entered it, the calls of \<open>Pop\<close> have got exactly the values that were taken out, and those of \<open>Push\<close> have put in exactly
  the values that were pushed. No wake-up is lost: when no thread can go on by itself, every call has returned, or
  it is a \<open>Pop\<close> that waits and the queue is empty.\<close>

theorem waitable_queue_correct:
  assumes "\<forall>c \<in> set calls. before_call c" "wq_step\<^sup>*\<^sup>* (wq_start calls) s"
  shows "pushed s = popped s @ m_queue s \<and> mset (pushed s) = sum_over gave (thr s) \<and> mset (popped s) = sum_over got (thr s)
    \<and> ((\<forall>i<length calls. (\<forall>w. wq_push i w s = None) \<and> wq_pop i s = None)
       \<longrightarrow> (\<forall>i<length calls. has_returned (thr s ! i) \<or> waits (thr s ! i) \<and> m_queue s = []))"
proof -
  have inv: "wq_core s" "wake_ok s" "length (thr s) = length calls" using wq_reachable [OF assms] by auto
  have "has_returned (thr s ! i) \<or> waits (thr s ! i) \<and> m_queue s = []"
    if stuck: "\<forall>i<length calls. (\<forall>w. wq_push i w s = None) \<and> wq_pop i s = None" and i: "i < length calls" for i
  proof -
    have c: "has_returned (thr s ! j) \<or> waits (thr s ! j) \<or> m_mutex s \<noteq> None \<and> \<not> holds_mutex (thr s ! j)" if "j < length calls" for j
      using no_step_cases [OF inv(1), of j] stuck that inv(3) by simp
    have "m_mutex s = None"
    proof (rule ccontr)
      assume "m_mutex s \<noteq> None"
      then obtain k where k: "k < length calls" "holds_mutex (thr s ! k)" using inv(1,3) by (auto simp: wq_core_def)
      then show False using c [OF k(1)] by (cases "thr s ! k") auto
    qed
    then have r: "has_returned (thr s ! j) \<or> waits (thr s ! j)" if "j < length calls" for j using c [OF that] by blast
    have "active (thr s ! j) = 0" if "j < length calls" for j using r [OF that] by (cases "thr s ! j") auto
    then have "sum_over active (thr s) = 0" using inv(3) by (auto simp: sum_over_def in_set_conv_nth)
    then have "waits (thr s ! i) \<Longrightarrow> m_queue s = []" using inv(2,3) i by (auto simp: wake_ok_def list_ex_length)
    then show ?thesis using r [OF i] by blast
  qed
  then show ?thesis using inv(1) unfolding wq_core_def by blast
qed

text \<open>Runs that are given by the threads that make the steps.\<close>

definition wq_go_on :: "nat \<Rightarrow> 'a wqueue \<Rightarrow> 'a wqueue option" where
  "wq_go_on i s = (if i < length (thr s) then (case wq_push i 1 s of Some s' \<Rightarrow> Some s' | None \<Rightarrow> wq_pop i s) else None)"

fun wq_run :: "nat list \<Rightarrow> 'a wqueue \<Rightarrow> 'a wqueue option" where
  "wq_run [] s = Some s"
| "wq_run (i # is) s = do { s \<leftarrow> wq_go_on i s; wq_run is s }"

lemma wq_run_steps: "wq_run is s = Some s' \<Longrightarrow> wq_step\<^sup>*\<^sup>* s s'"
proof (induction "is" arbitrary: s)
  case (Cons i "is")
  then obtain s1 where s1: "wq_go_on i s = Some s1" "wq_run is s1 = Some s'" by (auto split: Option.bind_splits)
  then have "wq_step s s1" by (auto simp: wq_go_on_def intro: wq_step.intros split: if_splits option.splits)
  then show ?case using Cons.IH [OF s1(2)] by (rule converse_rtranclp_into_rtranclp)
qed simp

theorem waitable_queue_correct_witness:
  "\<exists>s. wq_step\<^sup>*\<^sup>* (wq_start [Push_lock (5 :: int), Pop_lock False]) s \<and> thr s = [Push_done 5, Pop_done False 5]
     \<and> pushed s = popped s @ m_queue s \<and> mset (popped s) = {#5#}"
proof -
  let ?c = "[Push_lock (5 :: int), Pop_lock False]"
  let ?s = "\<lparr>m_queue = [], m_mutex = None, thr = [Push_done 5, Pop_done False 5], pushed = [5], popped = [5 :: int]\<rparr>"
  have "wq_run [1, 1, 0, 0, 0, 0, 1, 1, 1, 1, 1] (wq_start ?c) = Some ?s"
    by (simp add: wq_start_def wq_go_on_def wq_push_def wq_pop_def go_to_def)
  then have r: "wq_step\<^sup>*\<^sup>* (wq_start ?c) ?s" by (rule wq_run_steps)
  have "\<forall>c \<in> set ?c. before_call c" by simp
  from waitable_queue_correct [OF this r] show ?thesis using r by (intro exI [of _ ?s]) (simp add: sum_over_def)
qed

end
