(* ===== verification/WaitableFsq.thy ===== *)
theory WaitableFsq
  imports Prelude
begin

text \<open>
  The bounded queue of \<open>quizzes/waitable_fsq.cpp\<close>. \<open>Push\<close> and \<open>Pop\<close> have a mutex each, which they hold while they
  work on the ring and while they notify; they wait for a condition variable with it. A \<open>Pop\<close> tests for
  emptiness and goes to sleep in two steps, between which a \<open>Push\<close>, which takes the other mutex, can be made.
\<close>

section \<open>The code\<close>

datatype 'a fsq_pc = W_lock 'a | W_test 'a | W_sleep 'a | W_wait 'a | W_relock 'a | W_store 'a | W_notify 'a | W_unlock 'a | W_done 'a
  | R_lock | R_test | R_sleep | R_wait | R_relock | R_load | R_notify 'a | R_unlock 'a | R_done 'a

record 'a fsq =
  m_fsq :: "'a list"
  m_size :: nat
  m_write :: nat
  m_read :: nat
  m_write_mutex :: "nat option"
  m_read_mutex :: "nat option"
  calls :: "'a fsq_pc list"

definition Waitable_FSQ :: "'a list \<Rightarrow> 'a fsq_pc list \<Rightarrow> 'a fsq" where
  "Waitable_FSQ garbage cs = \<lparr>m_fsq = garbage, m_size = length garbage, m_write = 0, m_read = 0,
     m_write_mutex = None, m_read_mutex = None, calls = cs\<rparr>"

definition fsq_IsEmpty :: "'a fsq \<Rightarrow> bool" where
  "fsq_IsEmpty s \<longleftrightarrow> m_read s = m_write s"

text \<open>The next index; the remainder by a size of 0 is a fault.\<close>

definition fsq_next :: "nat \<Rightarrow> 'a fsq \<Rightarrow> nat option" where
  "fsq_next k s = (if m_size s = 0 then None else Some ((k + 1) mod m_size s))"

definition fsq_IsFull :: "'a fsq \<Rightarrow> bool option" where
  "fsq_IsFull s = do { w \<leftarrow> fsq_next (m_write s) s; Some (m_read s = w) }"

definition at_pc :: "nat \<Rightarrow> 'a fsq_pc \<Rightarrow> 'a fsq \<Rightarrow> 'a fsq" where
  "at_pc i c s = s\<lparr>calls := (calls s)[i := c]\<rparr>"

text \<open>The first waiting thread is woken up, if there is one.\<close>

fun wake_reader :: "'a fsq_pc list \<Rightarrow> 'a fsq_pc list" where
  "wake_reader [] = []"
| "wake_reader (c # cs) = (case c of R_wait \<Rightarrow> R_relock # cs | _ \<Rightarrow> c # wake_reader cs)"

fun wake_writer :: "'a fsq_pc list \<Rightarrow> 'a fsq_pc list" where
  "wake_writer [] = []"
| "wake_writer (c # cs) = (case c of W_wait x \<Rightarrow> W_relock x # cs | _ \<Rightarrow> c # wake_writer cs)"

text \<open>A step of thread \<open>i\<close>; \<open>None\<close> if it can make none.\<close>

definition fsq_Push :: "nat \<Rightarrow> 'a fsq \<Rightarrow> 'a fsq option" where
  "fsq_Push i s = (case calls s ! i of
     W_lock x \<Rightarrow> if m_write_mutex s = None then Some (at_pc i (W_test x) (s\<lparr>m_write_mutex := Some i\<rparr>)) else None
   | W_test x \<Rightarrow> do { full \<leftarrow> fsq_IsFull s; Some (at_pc i (if full then W_sleep x else W_store x) s) }
   | W_sleep x \<Rightarrow> Some (at_pc i (W_wait x) (s\<lparr>m_write_mutex := None\<rparr>))
   | W_relock x \<Rightarrow> if m_write_mutex s = None then Some (at_pc i (W_test x) (s\<lparr>m_write_mutex := Some i\<rparr>)) else None
   | W_store x \<Rightarrow> do {
       a \<leftarrow> aset (m_fsq s) (m_write s) x;
       w \<leftarrow> fsq_next (m_write s) s;
       Some (at_pc i (W_notify x) (s\<lparr>m_fsq := a, m_write := w\<rparr>))
     }
   | W_notify x \<Rightarrow> Some (at_pc i (W_unlock x) (s\<lparr>calls := wake_reader (calls s)\<rparr>))
   | W_unlock x \<Rightarrow> Some (at_pc i (W_done x) (s\<lparr>m_write_mutex := None\<rparr>))
   | _ \<Rightarrow> None)"

definition fsq_Pop :: "nat \<Rightarrow> 'a fsq \<Rightarrow> 'a fsq option" where
  "fsq_Pop i s = (case calls s ! i of
     R_lock \<Rightarrow> if m_read_mutex s = None then Some (at_pc i R_test (s\<lparr>m_read_mutex := Some i\<rparr>)) else None
   | R_test \<Rightarrow> Some (at_pc i (if fsq_IsEmpty s then R_sleep else R_load) s)
   | R_sleep \<Rightarrow> Some (at_pc i R_wait (s\<lparr>m_read_mutex := None\<rparr>))
   | R_relock \<Rightarrow> if m_read_mutex s = None then Some (at_pc i R_test (s\<lparr>m_read_mutex := Some i\<rparr>)) else None
   | R_load \<Rightarrow> do {
       x \<leftarrow> aget (m_fsq s) (m_read s);
       r \<leftarrow> fsq_next (m_read s) s;
       Some (at_pc i (R_notify x) (s\<lparr>m_read := r\<rparr>))
     }
   | R_notify x \<Rightarrow> Some (at_pc i (R_unlock x) (s\<lparr>calls := wake_writer (calls s)\<rparr>))
   | R_unlock x \<Rightarrow> Some (at_pc i (R_done x) (s\<lparr>m_read_mutex := None\<rparr>))
   | _ \<Rightarrow> None)"

definition fsq_go :: "nat \<Rightarrow> 'a fsq \<Rightarrow> 'a fsq option" where
  "fsq_go i s = (if i < length (calls s) then (case fsq_Push i s of Some t \<Rightarrow> Some t | None \<Rightarrow> fsq_Pop i s) else None)"

fun fsq_run :: "nat list \<Rightarrow> 'a fsq \<Rightarrow> 'a fsq option" where
  "fsq_run [] s = Some s"
| "fsq_run (i # is) s = do { s \<leftarrow> fsq_go i s; fsq_run is s }"

section \<open>The queue\<close>

text \<open>What the ring holds.\<close>

definition fsq_items :: "'a fsq \<Rightarrow> 'a list" where
  "fsq_items s = map (\<lambda>k. m_fsq s ! ((m_read s + k) mod m_size s)) [0..<(m_write s + m_size s - m_read s) mod m_size s]"

definition fsq_ok :: "'a fsq \<Rightarrow> bool" where
  "fsq_ok s \<longleftrightarrow> 0 < m_size s \<and> length (m_fsq s) = m_size s \<and> m_write s < m_size s \<and> m_read s < m_size s"

lemma ring_used:
  fixes r w n :: nat
  assumes "r < n" "w < n"
  shows "(w + n - r) mod n = (if r \<le> w then w - r else w + n - r)" "(r + (w + n - r) mod n) mod n = w"
proof -
  show u: "(w + n - r) mod n = (if r \<le> w then w - r else w + n - r)"
  proof (cases "r \<le> w")
    case True
    then have "w + n - r = (w - r) + n" by simp
    then show ?thesis using True assms(2) by (simp only: mod_add_self2) simp
  qed (use assms in simp)
  show "(r + (w + n - r) mod n) mod n = w" using assms unfolding u by (cases "r \<le> w") auto
qed

lemma next_used:
  fixes r w n :: nat
  assumes "r < n" "w < n" "r \<noteq> (w + 1) mod n"
  shows "((w + 1) mod n + n - r) mod n = (w + n - r) mod n + 1"
proof -
  have w: "(w + 1) mod n = (if w + 1 = n then 0 else w + 1)" using assms(2) by simp
  show ?thesis
  proof (cases "w + 1 = n")
    case True
    then have "0 < r" using assms(3) w by simp
    then show ?thesis using True assms(1) ring_used(1) [of r n w] ring_used(1) [of r n 0] w by simp
  next
    case False
    then have "w + 1 < n" "r \<noteq> w + 1" using assms(2,3) w by auto
    then show ?thesis using assms ring_used(1) [of r n w] ring_used(1) [of r n "w + 1"] by auto
  qed
qed

lemma fsq_IsEmpty_iff: "fsq_ok s \<Longrightarrow> fsq_IsEmpty s \<longleftrightarrow> fsq_items s = []"
  using ring_used [of "m_read s" "m_size s" "m_write s"] by (auto simp: fsq_ok_def fsq_IsEmpty_def fsq_items_def)

lemma fsq_IsFull_iff:
  assumes ok: "fsq_ok s"
  shows "fsq_IsFull s = Some (length (fsq_items s) = m_size s - 1)"
proof -
  let ?r = "m_read s" and ?w = "m_write s" and ?n = "m_size s"
  have b: "?r < ?n" "?w < ?n" using ok by (simp_all add: fsq_ok_def)
  have "?r = (?w + 1) mod ?n \<longleftrightarrow> (?w + ?n - ?r) mod ?n = ?n - 1"
  proof
    assume "?r = (?w + 1) mod ?n"
    then show "(?w + ?n - ?r) mod ?n = ?n - 1" using b ring_used(1) [OF b] by (cases "?w + 1 = ?n") auto
  next
    assume a: "(?w + ?n - ?r) mod ?n = ?n - 1"
    show "?r = (?w + 1) mod ?n" using next_used [OF b] mod_less_divisor [of ?n "(?w + 1) mod ?n + ?n - ?r"] a b by fastforce
  qed
  then show ?thesis using b by (simp add: fsq_IsFull_def fsq_next_def fsq_items_def)
qed

text \<open>Storing appends a value to a queue that is not full, and loading takes the first value of one that is not empty,
  whatever the other threads do between the steps of the call.\<close>

lemma fsq_store:
  assumes ok: "fsq_ok s" and pc: "calls s ! i = W_store x" and free: "length (fsq_items s) < m_size s - 1"
  shows "\<exists>t. fsq_Push i s = Some t \<and> fsq_ok t \<and> fsq_items t = fsq_items s @ [x]"
proof -
  let ?r = "m_read s" and ?w = "m_write s" and ?n = "m_size s"
  have b: "?r < ?n" "?w < ?n" using ok by (simp_all add: fsq_ok_def)
  have nf: "?r \<noteq> (?w + 1) mod ?n" using fsq_IsFull_iff [OF ok] free b by (auto simp: fsq_IsFull_def fsq_next_def)
  define t where "t = at_pc i (W_notify x) (s\<lparr>m_fsq := (m_fsq s)[?w := x], m_write := (?w + 1) mod ?n\<rparr>)"
  let ?k = "(?w + ?n - ?r) mod ?n"
  have old: "(?r + k) mod ?n \<noteq> ?w" if "k < ?k" for k
  proof
    assume "(?r + k) mod ?n = ?w"
    then have "(?r + k) mod ?n = (?r + ?k) mod ?n" using ring_used(2) [OF b] by simp
    moreover have "?k < ?n" using b by simp
    ultimately have "?r + k = ?r + ?k"
      using mod_near [of ?r "?r + k" "?r + ?k" ?n] that less_trans [OF that] by (simp only: le_add1 add_less_cancel_left)
    then show False using that by simp
  qed
  have "fsq_items t = map (\<lambda>k. (m_fsq s)[?w := x] ! ((?r + k) mod ?n)) ([0..<?k] @ [?k])"
    using next_used [OF b nf] by (simp add: fsq_items_def t_def at_pc_def)
  also have "\<dots> = fsq_items s @ [x]"
  proof -
    have "(m_fsq s)[?w := x] ! ((?r + k) mod ?n) = m_fsq s ! ((?r + k) mod ?n)" if "k < ?k" for k
      using old [OF that] by (intro nth_list_update_neq) simp
    then show ?thesis using ring_used(2) [OF b] ok b by (simp add: fsq_items_def fsq_ok_def)
  qed
  finally have "fsq_items t = fsq_items s @ [x]" .
  moreover have "fsq_Push i s = Some t" using pc ok b by (simp add: fsq_Push_def fsq_next_def fsq_ok_def t_def)
  moreover have "fsq_ok t" using ok b by (simp add: fsq_ok_def t_def at_pc_def)
  ultimately show ?thesis by blast
qed

lemma fsq_load:
  assumes ok: "fsq_ok s" and pc: "calls s ! i = R_load" and items: "fsq_items s = x # xs"
  shows "\<exists>t. fsq_Pop i s = Some t \<and> calls t = (calls s)[i := R_notify x] \<and> fsq_ok t \<and> fsq_items t = xs"
proof -
  let ?r = "m_read s" and ?w = "m_write s" and ?n = "m_size s"
  have b: "?r < ?n" "?w < ?n" using ok by (simp_all add: fsq_ok_def)
  obtain k where k: "(?w + ?n - ?r) mod ?n = Suc k" using items by (cases "(?w + ?n - ?r) mod ?n") (auto simp: fsq_items_def)
  have up: "[0..<Suc k] = 0 # map Suc [0..<k]" by (simp add: upt_conv_Cons map_Suc_upt del: upt_Suc)
  have x: "m_fsq s ! ?r = x" "xs = map (\<lambda>k. m_fsq s ! ((?r + Suc k) mod ?n)) [0..<k]"
    using items b unfolding fsq_items_def k up by (simp_all add: comp_def)
  define t where "t = at_pc i (R_notify x) (s\<lparr>m_read := (?r + 1) mod ?n\<rparr>)"
  have "(?w + ?n - (?r + 1) mod ?n) mod ?n = k"
    using k ring_used(1) [OF b] ring_used(1) [of "(?r + 1) mod ?n" ?n ?w] b by (cases "?r + 1 = ?n") (auto split: if_splits)
  moreover have "((?r + 1) mod ?n + j) mod ?n = (?r + Suc j) mod ?n" for j by (simp add: mod_add_left_eq)
  ultimately have "fsq_items t = xs" by (simp add: fsq_items_def t_def at_pc_def x(2))
  moreover have "fsq_Pop i s = Some t" using pc ok b x(1) by (simp add: fsq_Pop_def fsq_next_def fsq_ok_def t_def)
  moreover have "fsq_ok t" using ok b by (simp add: fsq_ok_def t_def at_pc_def)
  ultimately show ?thesis by (auto simp: t_def at_pc_def)
qed

section \<open>Where the queue fails\<close>

text \<open>The reader finds the queue empty; before it sleeps a whole \<open>Push\<close> is made, and its notification meets nobody. Then
  the reader waits though there is a value, and nobody can make a step.\<close>

lemma lost_wake_up:
  "\<exists>s. fsq_run [0, 0, 1, 1, 1, 1, 1, 0] (Waitable_FSQ [0, 0, 0] [R_lock, W_lock 7]) = Some s
     \<and> calls s = [R_wait, W_done (7 :: int)] \<and> fsq_items s = [7] \<and> (\<forall>i. fsq_go i s = None)"
proof -
  let ?s = "\<lparr>m_fsq = [7, 0, 0], m_size = 3, m_write = 1, m_read = 0, m_write_mutex = None, m_read_mutex = None,
     calls = [R_wait, W_done (7 :: int)]\<rparr>"
  have "fsq_run [0, 0, 1, 1, 1, 1, 1, 0] (Waitable_FSQ [0, 0, 0] [R_lock, W_lock 7]) = Some ?s"
    by (simp add: Waitable_FSQ_def fsq_go_def fsq_Push_def fsq_Pop_def fsq_IsEmpty_def fsq_IsFull_def fsq_next_def at_pc_def aset_def)
  moreover have "fsq_go i ?s = None" for i
    by (cases i; cases "i - 1") (auto simp: fsq_go_def fsq_Push_def fsq_Pop_def)
  ultimately show ?thesis by (intro exI [of _ ?s]) (simp add: fsq_items_def)
qed

text \<open>A queue of size one is always full, and one of size zero faults at the first test.\<close>

lemma fsq_size_1: "fsq_IsFull (Waitable_FSQ [g] cs) = Some True" "fsq_IsFull (Waitable_FSQ [] cs) = None"
  by (simp_all add: Waitable_FSQ_def fsq_IsFull_def fsq_next_def)

end
