(* ===== verification/TicTacToeAI.thy ===== *)
theory TicTacToeAI
  imports Prelude
begin

text \<open>
  The game of \<open>test_dir/ai_first_try/ai_tictactoe.cpp\<close>: a board of nine cells, a search of the whole game tree, and
  the loop in which the program and the player move. The search marks a cell, calls itself and clears the cell
  again, so it leaves the board as it was; here it gets the marked board as an argument.
\<close>

section \<open>The code\<close>

type_synonym board = string

definition HUMAN :: char where
  "HUMAN = CHR ''X''"

definition AI :: char where
  "AI = CHR ''O''"

definition EMPTY :: char where
  "EMPTY = CHR '' ''"

definition INT_MIN :: int where
  "INT_MIN = - (2 ^ 31)"

definition INT_MAX :: int where
  "INT_MAX = 2 ^ 31 - 1"

definition isMovesLeft :: "board \<Rightarrow> bool" where
  "isMovesLeft b = list_ex (\<lambda>c. c = EMPTY) b"

text \<open>One comparison of \<open>evaluate\<close>: \<open>None\<close> goes on to the next line.\<close>

definition line_score :: "board \<Rightarrow> nat \<times> nat \<times> nat \<Rightarrow> int option" where
  "line_score b = (\<lambda>(i, j, k). if b ! i = b ! j \<and> b ! j = b ! k then
     (if b ! i = AI then Some 10 else if b ! i = HUMAN then Some (-10) else None) else None)"

definition board_lines :: "(nat \<times> nat \<times> nat) list" where
  "board_lines = map (\<lambda>row. (row * 3, row * 3 + 1, row * 3 + 2)) [0..<3] @ map (\<lambda>col. (col, col + 3, col + 6)) [0..<3]
     @ [(0, 4, 8), (2, 4, 6)]"

fun first_score :: "int option list \<Rightarrow> int option" where
  "first_score [] = None"
| "first_score (x # xs) = (case x of Some s \<Rightarrow> Some s | None \<Rightarrow> first_score xs)"

definition evaluate :: "board \<Rightarrow> int" where
  "evaluate b = (case first_score (map (line_score b) board_lines) of Some s \<Rightarrow> s | None \<Rightarrow> 0)"

lemma fewer_empty: "aget b i = Some c \<Longrightarrow> d \<noteq> c \<Longrightarrow> count_list (b[i := d]) c < count_list b c"
  by (induction b arbitrary: i) (auto simp: aget_eq_Some nth_Cons' split: nat.splits)

function minimax :: "board \<Rightarrow> int \<Rightarrow> bool \<Rightarrow> int" where
  "minimax board depth isMax = (let score = evaluate board in
     if score = 10 \<or> score = -10 then score
     else if \<not> isMovesLeft board then 0
     else if isMax then foldl (\<lambda>best i. if aget board i = Some EMPTY
         then max best (minimax (board[i := AI]) (depth + 1) False) else best) INT_MIN [0..<9]
     else foldl (\<lambda>best i. if aget board i = Some EMPTY
         then min best (minimax (board[i := HUMAN]) (depth + 1) True) else best) INT_MAX [0..<9])"
  by auto
termination
  by (relation "measure (\<lambda>(b, _, _). count_list b EMPTY)") (auto intro!: fewer_empty simp: AI_def HUMAN_def EMPTY_def)

declare minimax.simps [simp del]

definition findBestMove :: "board \<Rightarrow> int" where
  "findBestMove board = snd (foldl (\<lambda>(bestVal, bestMove) i. if aget board i = Some EMPTY
     then (let moveVal = minimax (board[i := AI]) 0 False in if bestVal < moveVal then (moveVal, int i) else (bestVal, bestMove))
     else (bestVal, bestMove)) (INT_MIN, -1) [0..<9])"

datatype outcome = AI_wins | Human_wins | Draw

text \<open>What the player enters. \<open>cin >> move\<close> stores a number; one outside the range of \<open>int\<close> is replaced by the nearest
  limit and something that is no number by 0, and then the stream has failed. A read from a stream that has
  failed or has ended stores nothing: \<open>move\<close>, which is not initialised, is indeterminate, and using it is a fault.\<close>

datatype entry = Number int | NotANumber

fun read_int :: "entry list \<Rightarrow> (int \<times> entry list) option" where
  "read_int [] = None"
| "read_int (NotANumber # es) = Some (0, [])"
| "read_int (Number m # es) = Some (if m < INT_MIN then (INT_MIN, []) else if INT_MAX < m then (INT_MAX, []) else (m, es))"

lemma read_int_shorter: "read_int es = Some (m, es') \<Longrightarrow> length es' < length es"
  by (induction es rule: read_int.induct) (auto split: if_splits)

text \<open>The loop of \<open>main\<close>. After a move that is not allowed it goes on with \<open>continue\<close>.\<close>

function play :: "entry list \<Rightarrow> board \<Rightarrow> (outcome \<times> board) option" where
  "play entries board = do {
     let aiMove = findBestMove board;
     c_assert (0 \<le> aiMove);
     board \<leftarrow> aset board (nat aiMove) AI;
     if evaluate board = 10 then Some (AI_wins, board)
     else if \<not> isMovesLeft board then Some (Draw, board)
     else do {
       (move, entries) \<leftarrow> read_int entries;
       move \<leftarrow> int32 (move - 1);
       if move < 0 \<or> 9 \<le> move \<or> aget board (nat move) \<noteq> Some EMPTY then play entries board
       else do {
         board \<leftarrow> aset board (nat move) HUMAN;
         if evaluate board = -10 then Some (Human_wins, board)
         else if \<not> isMovesLeft board then Some (Draw, board)
         else play entries board
       }
     }
   }"
  by pat_completeness auto
termination
  by (relation "measure (\<lambda>(es, _). length es)") (auto dest: read_int_shorter)

declare play.simps [simp del]

section \<open>Lines\<close>

lemma marks [simp]: "AI \<noteq> HUMAN" "HUMAN \<noteq> AI" "AI \<noteq> EMPTY" "EMPTY \<noteq> AI" "HUMAN \<noteq> EMPTY" "EMPTY \<noteq> HUMAN"
  by (simp_all add: AI_def HUMAN_def EMPTY_def)

lemma board_lines_less: "(i, j, k) \<in> set board_lines \<Longrightarrow> i < 9 \<and> j < 9 \<and> k < 9"
  by (auto simp: board_lines_def upt_rec)

lemma line_score_range: "line_score b l = Some s \<Longrightarrow> s = 10 \<or> s = -10"
  by (auto simp: line_score_def split: prod.splits if_splits)

lemma first_score_in: "first_score xs = Some s \<Longrightarrow> Some s \<in> set xs"
  by (induction xs) (auto split: option.splits)

lemma first_line_range: "first_score (map (line_score b) ls) = Some s \<Longrightarrow> s = 10 \<or> s = -10"
proof -
  assume "first_score (map (line_score b) ls) = Some s"
  then obtain l where "line_score b l = Some s" using first_score_in by (metis (no_types, lifting) imageE list.set_map)
  then show ?thesis by (rule line_score_range)
qed

lemma evaluate_range: "evaluate b = 10 \<or> evaluate b = -10 \<or> evaluate b = 0"
proof (cases "first_score (map (line_score b) board_lines)")
  case (Some s)
  then show ?thesis using first_line_range [OF Some] by (auto simp: evaluate_def)
qed (simp add: evaluate_def)

text \<open>More marks of the program, everything else the same.\<close>

definition more_AI :: "board \<Rightarrow> board \<Rightarrow> bool" where
  "more_AI b b' \<longleftrightarrow> length b = 9 \<and> length b' = 9 \<and> (\<forall>k<9. b' ! k = b ! k \<or> (b ! k = EMPTY \<and> b' ! k = AI))"

lemma more_AI_refl: "length b = 9 \<Longrightarrow> more_AI b b"
  by (simp add: more_AI_def)

lemma more_AI_line:
  assumes "more_AI b b'" "l \<in> set board_lines"
  shows "line_score b' l = Some (-10) \<Longrightarrow> line_score b l = Some (-10)" "line_score b' l = None \<Longrightarrow> line_score b l = None"
proof -
  obtain i j k where l: "l = (i, j, k)" by (cases l)
  have k: "b' ! n = b ! n \<or> (b ! n = EMPTY \<and> b' ! n = AI)" if "n \<in> {i, j, k}" for n
    using assms that board_lines_less [of i j k] l by (auto simp: more_AI_def)
  show "line_score b' l = Some (-10) \<Longrightarrow> line_score b l = Some (-10)" "line_score b' l = None \<Longrightarrow> line_score b l = None"
    using k [of i] k [of j] k [of k] by (auto simp: l line_score_def split: if_splits)
qed

lemma first_score_more:
  assumes "\<And>l. l \<in> set ls \<Longrightarrow> f l = Some (-10) \<longrightarrow> g l = Some (-10)" "\<And>l. l \<in> set ls \<Longrightarrow> f l = None \<longrightarrow> g l = None"
  shows "(first_score (map f ls) = Some (-10) \<longrightarrow> first_score (map g ls) = Some (-10))
    \<and> (first_score (map f ls) = None \<longrightarrow> first_score (map g ls) = None)"
  using assms by (induction ls) (auto split: option.splits)

lemma more_AI_evaluate:
  assumes "more_AI b b'"
  shows "evaluate b' = -10 \<Longrightarrow> evaluate b = -10" "evaluate b' = 0 \<Longrightarrow> evaluate b = 0"
proof -
  have m: "(first_score (map (line_score b') board_lines) = Some (-10) \<longrightarrow> first_score (map (line_score b) board_lines) = Some (-10))
    \<and> (first_score (map (line_score b') board_lines) = None \<longrightarrow> first_score (map (line_score b) board_lines) = None)"
    using more_AI_line [OF assms] by (intro first_score_more) auto
  have "first_score (map (line_score b') board_lines) \<noteq> Some 0" using first_line_range by force
  then show "evaluate b' = -10 \<Longrightarrow> evaluate b = -10" "evaluate b' = 0 \<Longrightarrow> evaluate b = 0"
    using m by (auto simp: evaluate_def split: option.splits)
qed

text \<open>The same board with the players exchanged.\<close>

definition swap_mark :: "char \<Rightarrow> char" where
  "swap_mark c = (if c = AI then HUMAN else if c = HUMAN then AI else c)"

definition swap_board :: "board \<Rightarrow> board" where
  "swap_board b = map swap_mark b"

lemma swap_mark_simps [simp]: "swap_mark AI = HUMAN" "swap_mark HUMAN = AI" "swap_mark EMPTY = EMPTY"
    "swap_mark (swap_mark c) = c" "swap_mark c = EMPTY \<longleftrightarrow> c = EMPTY"
  by (auto simp: swap_mark_def)

lemma swap_board_simps [simp]: "length (swap_board b) = length b" "swap_board (swap_board b) = b"
    "swap_board (b[i := c]) = (swap_board b)[i := swap_mark c]" "i < length b \<Longrightarrow> swap_board b ! i = swap_mark (b ! i)"
  by (simp_all add: swap_board_def map_update comp_def)

lemma swap_board_evaluate:
  assumes "length b = 9"
  shows "evaluate (swap_board b) = - evaluate b"
proof -
  have "line_score (swap_board b) l = map_option uminus (line_score b l)" if "l \<in> set board_lines" for l
  proof -
    obtain i j k where l: "l = (i, j, k)" by (cases l)
    have "swap_mark c = swap_mark d \<longleftrightarrow> c = d" for c d by (metis swap_mark_simps(4))
    then show ?thesis using that board_lines_less [of i j k] l assms by (auto simp: line_score_def) (auto simp: swap_mark_def split: if_splits)
  qed
  then have "map (line_score (swap_board b)) board_lines = map (map_option uminus) (map (line_score b) board_lines)" by simp
  moreover have "first_score (map (map_option uminus) xs) = map_option uminus (first_score xs)" for xs
    by (induction xs) (auto split: option.splits)
  ultimately have "first_score (map (line_score (swap_board b)) board_lines) = map_option uminus (first_score (map (line_score b) board_lines))"
    by metis
  then show ?thesis by (simp add: evaluate_def split: option.splits)
qed

section \<open>The game\<close>

text \<open>A player can force a win: \<open>forced True\<close> for the program, with \<open>m\<close> if it is to move.\<close>

definition mark :: "bool \<Rightarrow> char" where
  "mark a = (if a then AI else HUMAN)"

definition goal :: "bool \<Rightarrow> int" where
  "goal a = (if a then 10 else -10)"

inductive forced :: "bool \<Rightarrow> board \<Rightarrow> bool \<Rightarrow> bool" for a where
  won: "evaluate b = goal a \<Longrightarrow> forced a b m"
| own: "evaluate b = 0 \<Longrightarrow> i < 9 \<Longrightarrow> b ! i = EMPTY \<Longrightarrow> forced a (b[i := mark a]) (\<not> a) \<Longrightarrow> forced a b a"
| other: "evaluate b = 0 \<Longrightarrow> i < 9 \<Longrightarrow> b ! i = EMPTY \<Longrightarrow> (\<forall>i<9. b ! i = EMPTY \<longrightarrow> forced a (b[i := mark (\<not> a)]) a) \<Longrightarrow> forced a b (\<not> a)"

inductive_cases forcedE: "forced a b m"

lemma forced_over: "evaluate b \<noteq> 0 \<Longrightarrow> forced a b m \<longleftrightarrow> evaluate b = goal a"
  by (auto intro: forced.won elim: forcedE)

lemma forced_own: "evaluate b = 0 \<Longrightarrow> forced a b a \<longleftrightarrow> (\<exists>i<9. b ! i = EMPTY \<and> forced a (b[i := mark a]) (\<not> a))"
  by (subst forced.simps) (auto simp: goal_def)

lemma forced_other: "evaluate b = 0 \<Longrightarrow> m = (\<not> a) \<Longrightarrow> forced a b m
    \<longleftrightarrow> (\<exists>i<9. b ! i = EMPTY) \<and> (\<forall>i<9. b ! i = EMPTY \<longrightarrow> forced a (b[i := mark m]) a)"
  by (subst forced.simps) (auto simp: goal_def)

lemma forced_swap:
  assumes "forced a b m" "length b = 9"
  shows "forced (\<not> a) (swap_board b) (\<not> m)"
  using assms
proof (induction rule: forced.induct)
  case (won b m)
  then show ?case by (intro forced.won) (simp add: swap_board_evaluate goal_def)
next
  case (own b i)
  have "swap_mark (mark a) = mark (\<not> a)" by (simp add: mark_def)
  then show ?case using own by (intro forced.own [of _ i]) (simp_all add: swap_board_evaluate)
next
  case (other b i)
  have m: "swap_mark (mark (\<not> a)) = mark a" by (simp add: mark_def)
  have "forced (\<not> a) (swap_board b) (\<not> \<not> a)"
    using other m by (intro forced.other [of _ i]) (auto simp: swap_board_evaluate)
  then show ?case by simp
qed

text \<open>If the human can force a win though the program has more marks, then also without them.\<close>

lemma forced_more:
  assumes "forced False b' m" "more_AI b b'"
  shows "forced False b m"
  using assms
proof (induction arbitrary: b rule: forced.induct)
  case (won b' m)
  then show ?case using more_AI_evaluate(1) by (intro forced.won) (simp add: goal_def)
next
  case (own b' i)
  have "more_AI (b[i := HUMAN]) (b'[i := HUMAN])" using own.prems own.hyps(2) by (auto simp: more_AI_def nth_list_update)
  moreover have "b ! i = EMPTY" using own.prems own.hyps(2,3) by (auto simp: more_AI_def)
  ultimately show ?case
    using own.IH own.hyps(1,2) more_AI_evaluate(2) [OF own.prems] by (intro forced.own [of b i]) (auto simp: mark_def)
next
  case (other b' i)
  have l: "length b' = 9" "length b = 9" using other.prems by (simp_all add: more_AI_def)
  have step: "forced False (b[j := AI]) False" if j: "j < 9" "b ! j = EMPTY" for j
  proof (cases "b' ! j = EMPTY")
    case True
    then show ?thesis using other.IH other.prems j by (auto simp: mark_def more_AI_def nth_list_update)
  next
    case False
    then have "b' ! j = AI" using other.prems j by (auto simp: more_AI_def)
    then have "more_AI (b[j := AI]) (b'[i := AI])" using other.prems other.hyps(2,3) j by (auto simp: more_AI_def nth_list_update)
    then show ?thesis using other.IH other.hyps(2,3) by (auto simp: mark_def)
  qed
  have "b ! i = EMPTY" using other.prems other.hyps(2,3) by (auto simp: more_AI_def)
  then show ?case
    using forced.other [of b i False] more_AI_evaluate(2) [OF other.prems other.hyps(1)] other.hyps(2) step by (simp add: mark_def)
qed

section \<open>The search\<close>

lemma foldl_max:
  "v \<le> foldl (\<lambda>best i. if P i then max best (f i) else best) x xs \<longleftrightarrow> v \<le> x \<or> (\<exists>i \<in> set xs. P i \<and> v \<le> (f i :: int))"
  by (induction xs arbitrary: x) auto

lemma foldl_min:
  "foldl (\<lambda>best i. if P i then min best (f i) else best) x xs \<le> v \<longleftrightarrow> x \<le> v \<or> (\<exists>i \<in> set xs. P i \<and> f i \<le> (v :: int))"
  by (induction xs arbitrary: x) auto

lemma moves_left_iff: "length b = 9 \<Longrightarrow> isMovesLeft b \<longleftrightarrow> (\<exists>i<9. b ! i = EMPTY)"
  by (auto simp: isMovesLeft_def list_ex_length)

lemma minimax_over: "evaluate b \<noteq> 0 \<Longrightarrow> minimax b d m = evaluate b"
  using evaluate_range [of b] by (auto simp: minimax.simps [of b] Let_def)

lemma minimax_full: "evaluate b = 0 \<Longrightarrow> \<not> isMovesLeft b \<Longrightarrow> minimax b d m = 0"
  by (simp add: minimax.simps [of b] Let_def)

lemma minimax_max:
  assumes "evaluate b = 0" "isMovesLeft b" "length b = 9" "INT_MIN < v"
  shows "v \<le> minimax b d True \<longleftrightarrow> (\<exists>i<9. b ! i = EMPTY \<and> v \<le> minimax (b[i := AI]) (d + 1) False)"
  using assms by (auto simp: minimax.simps [of b d] Let_def foldl_max aget_eq_Some)

lemma minimax_min:
  assumes "evaluate b = 0" "isMovesLeft b" "length b = 9" "v < INT_MAX"
  shows "minimax b d False \<le> v \<longleftrightarrow> (\<exists>i<9. b ! i = EMPTY \<and> minimax (b[i := HUMAN]) (d + 1) True \<le> v)"
  using assms by (auto simp: minimax.simps [of b d] Let_def foldl_min aget_eq_Some)

text \<open>The value tells who can force a win.\<close>

definition value_ok :: "board \<Rightarrow> bool \<Rightarrow> int \<Rightarrow> bool" where
  "value_ok b m v \<longleftrightarrow> (v = 10 \<longleftrightarrow> forced True b m) \<and> (v = -10 \<longleftrightarrow> forced False b m) \<and> v \<in> {10, 0, -10}"

lemma goals [simp]: "goal True = 10" "goal False = -10"
  by (simp_all add: goal_def)

lemma best_value:
  fixes M :: int
  assumes ex: "\<exists>i. P i" and g: "\<And>i. P i \<Longrightarrow> g i \<in> {10, 0, -10}"
    and M: "\<And>v. -11 < v \<Longrightarrow> v \<le> M \<longleftrightarrow> (\<exists>i. P i \<and> v \<le> g i)"
  shows "M \<in> {10, 0, -10} \<and> (M = 10 \<longleftrightarrow> (\<exists>i. P i \<and> g i = 10)) \<and> (M = -10 \<longleftrightarrow> (\<forall>i. P i \<longrightarrow> g i = -10))"
proof -
  have r: "g i = 10 \<or> g i = 0 \<or> g i = -10" if "P i" for i using g [OF that] by auto
  have "-10 \<le> M" using M [of "-10"] ex r by fastforce
  moreover have "\<not> 11 \<le> M" using M [of 11] r by fastforce
  moreover have "1 \<le> M \<longleftrightarrow> (\<exists>i. P i \<and> g i = 10)" using M [of 1] r by fastforce
  moreover have "10 \<le> M \<longleftrightarrow> (\<exists>i. P i \<and> g i = 10)" using M [of 10] r by fastforce
  moreover have "-9 \<le> M \<longleftrightarrow> (\<exists>i. P i \<and> g i \<noteq> -10)" using M [of "-9"] r by fastforce
  moreover have "0 \<le> M \<longleftrightarrow> (\<exists>i. P i \<and> g i \<noteq> -10)" using M [of 0] r by fastforce
  ultimately show ?thesis by (cases "0 \<le> M"; cases "1 \<le> M") auto
qed

lemma minus_10: "- x = 10 \<longleftrightarrow> x = -10" "- x = -10 \<longleftrightarrow> x = 10" "- x \<in> {10, 0, -10} \<longleftrightarrow> x \<in> {10, 0, -10}" for x :: int
  by auto

lemma minimax_value: "length b = 9 \<Longrightarrow> value_ok b m (minimax b d m)"
proof (induction b d m rule: minimax.induct)
  case (1 b d m)
  consider "evaluate b \<noteq> 0" | "evaluate b = 0" "\<not> isMovesLeft b" | "evaluate b = 0" "isMovesLeft b" by blast
  then show ?case
  proof cases
    case 1
    then show ?thesis using forced_over [of b] minimax_over evaluate_range [of b] by (auto simp: value_ok_def)
  next
    case 2
    then have none: "\<not> (\<exists>i<9. b ! i = EMPTY)" using "1.prems" moves_left_iff by blast
    have "\<not> forced a b m" for a
      using forced_own [of b a] forced_other [of b m a] 2 none by (cases "m = a") auto
    then show ?thesis using minimax_full 2 by (simp add: value_ok_def)
  next
    case 3
    have ex: "\<exists>i<9. b ! i = EMPTY" using 3 "1.prems" moves_left_iff by blast
    let ?P = "\<lambda>i. i < 9 \<and> b ! i = EMPTY"
    show ?thesis
    proof (cases m)
      case True
      let ?g = "\<lambda>i. minimax (b[i := AI]) (d + 1) False"
      have ih: "value_ok (b[i := AI]) False (?g i)" if "?P i" for i
        using "1.IH"(1) [OF refl _ _ True, of i] 3 that "1.prems" by (simp add: aget_eq_Some)
      have "v \<le> minimax b d True \<longleftrightarrow> (\<exists>i. ?P i \<and> v \<le> ?g i)" if "-11 < v" for v
        using minimax_max [of b v d] 3 "1.prems" that by (auto simp: INT_MIN_def)
      then have "minimax b d True \<in> {10, 0, -10} \<and> (minimax b d True = 10 \<longleftrightarrow> (\<exists>i. ?P i \<and> ?g i = 10))
          \<and> (minimax b d True = -10 \<longleftrightarrow> (\<forall>i. ?P i \<longrightarrow> ?g i = -10))"
        using ex ih by (intro best_value) (auto simp: value_ok_def)
      moreover have "forced True b True \<longleftrightarrow> (\<exists>i. ?P i \<and> forced True (b[i := AI]) False)"
        "forced False b True \<longleftrightarrow> (\<forall>i. ?P i \<longrightarrow> forced False (b[i := AI]) False)"
        using forced_own [of b True] forced_other [of b True False] 3 ex by (auto simp: mark_def)
      ultimately show ?thesis using ih True by (auto simp: value_ok_def)
    next
      case False
      let ?g = "\<lambda>i. minimax (b[i := HUMAN]) (d + 1) True"
      have ih: "value_ok (b[i := HUMAN]) True (?g i)" if "?P i" for i
        using "1.IH"(2) [OF refl _ _ False, of i] 3 that "1.prems" by (simp add: aget_eq_Some)
      have "v \<le> - minimax b d False \<longleftrightarrow> (\<exists>i. ?P i \<and> v \<le> - ?g i)" if "-11 < v" for v
        using minimax_min [of b "-v" d] 3 "1.prems" that by (auto simp: INT_MAX_def le_minus_iff minus_le_iff)
      moreover have "- ?g i \<in> {10, 0, -10}" if "?P i" for i
        using ih [OF that] unfolding value_ok_def by (elim conjE insertE) simp_all
      ultimately have "minimax b d False \<in> {10, 0, -10} \<and> (minimax b d False = -10 \<longleftrightarrow> (\<exists>i. ?P i \<and> ?g i = -10))
          \<and> (minimax b d False = 10 \<longleftrightarrow> (\<forall>i. ?P i \<longrightarrow> ?g i = 10))"
        using best_value [of ?P "\<lambda>i. - ?g i" "- minimax b d False"] ex unfolding minus_10 by blast
      moreover have "forced False b False \<longleftrightarrow> (\<exists>i. ?P i \<and> forced False (b[i := HUMAN]) True)"
        "forced True b False \<longleftrightarrow> (\<forall>i. ?P i \<longrightarrow> forced True (b[i := HUMAN]) True)"
        using forced_own [of b False] forced_other [of b False True] 3 ex by (auto simp: mark_def)
      ultimately show ?thesis using ih False by (auto simp: value_ok_def)
    qed
  qed
qed

lemma forced_one: "length b = 9 \<Longrightarrow> forced True b m \<Longrightarrow> \<not> forced False b m"
  using minimax_value [of b m 0] by (auto simp: value_ok_def)

text \<open>Who moves first does not lose: if the human could force a win as the second, a mark of the program anywhere would
  not keep the human from winning, so the human would also win as the first, and the program as the second.\<close>

definition new_board :: board where
  "new_board = replicate 9 EMPTY"

lemma new_board_facts: "length new_board = 9" "evaluate new_board = 0" "i < 9 \<Longrightarrow> new_board ! i = EMPTY" "swap_board new_board = new_board"
  by (simp_all add: new_board_def evaluate_def board_lines_def line_score_def upt_rec swap_board_def)

lemma first_does_not_lose: "\<not> forced False new_board True"
proof
  assume f: "forced False new_board True"
  then have "forced False (new_board[4 := AI]) False"
    using forced_other [of new_board True False] new_board_facts(2,3) by (simp add: mark_def)
  moreover have "more_AI new_board (new_board[4 := AI])"
    using new_board_facts(1,3) by (auto simp: more_AI_def nth_list_update)
  ultimately have "forced False new_board False" by (rule forced_more)
  moreover have "forced True new_board False" using forced_swap [OF f] new_board_facts by simp
  ultimately show False using forced_one new_board_facts(1) by blast
qed

section \<open>The moves of the program\<close>

lemma best_loop:
  fixes f :: "nat \<Rightarrow> int" and P :: "nat \<Rightarrow> bool"
  defines "step \<equiv> \<lambda>(bestVal, bestMove) i. if P i then (let moveVal = f i in if bestVal < moveVal then (moveVal, int i) else (bestVal, bestMove))
      else (bestVal, bestMove)"
  assumes "\<And>i. i \<in> set xs \<Longrightarrow> P i \<Longrightarrow> x < f i" "\<exists>i \<in> set xs. P i"
  shows "\<exists>i \<in> set xs. P i \<and> snd (foldl step (x, y) xs) = int i \<and> (\<forall>j \<in> set xs. P j \<longrightarrow> f j \<le> f i)"
proof -
  have *: "(foldl step (v, y) zs = (v, y) \<and> (\<forall>j \<in> set zs. P j \<longrightarrow> f j \<le> v))
      \<or> (\<exists>i \<in> set zs. P i \<and> foldl step (v, y) zs = (f i, int i) \<and> v < f i \<and> (\<forall>j \<in> set zs. P j \<longrightarrow> f j \<le> f i))" for v y zs
  proof (induction zs arbitrary: v y)
    case (Cons z zs)
    show ?case
    proof (cases "P z \<and> v < f z")
      case True
      then have "step (v, y) z = (f z, int z)" by (simp add: step_def)
      then have "foldl step (v, y) (z # zs) = foldl step (f z, int z) zs" by simp
      then consider "foldl step (v, y) (z # zs) = (f z, int z)" "\<forall>j \<in> set zs. P j \<longrightarrow> f j \<le> f z"
        | i where "i \<in> set zs" "P i" "foldl step (v, y) (z # zs) = (f i, int i)" "f z < f i" "\<forall>j \<in> set zs. P j \<longrightarrow> f j \<le> f i"
        using Cons.IH [of "f z" "int z"] by metis
      then show ?thesis
      proof cases
        case 1
        then show ?thesis using True by (intro disjI2 bexI [of _ z]) auto
      next
        case (2 i)
        then show ?thesis using True by (intro disjI2 bexI [of _ i]) auto
      qed
    next
      case False
      then have "step (v, y) z = (v, y)" by (auto simp: step_def Let_def)
      then have "foldl step (v, y) (z # zs) = foldl step (v, y) zs" by simp
      then consider "foldl step (v, y) (z # zs) = (v, y)" "\<forall>j \<in> set zs. P j \<longrightarrow> f j \<le> v"
        | i where "i \<in> set zs" "P i" "foldl step (v, y) (z # zs) = (f i, int i)" "v < f i" "\<forall>j \<in> set zs. P j \<longrightarrow> f j \<le> f i"
        using Cons.IH [of v y] by metis
      then show ?thesis
      proof cases
        case 1
        then show ?thesis using False by (intro disjI1) auto
      next
        case (2 i)
        then show ?thesis using False by (intro disjI2 bexI [of _ i]) auto
      qed
    qed
  qed simp
  show ?thesis using * [of x y xs] assms(2,3) by fastforce
qed

lemma findBestMove_best:
  assumes "length b = 9" "isMovesLeft b"
  shows "\<exists>i<9. b ! i = EMPTY \<and> findBestMove b = int i
    \<and> (\<forall>j<9. b ! j = EMPTY \<longrightarrow> minimax (b[j := AI]) 0 False \<le> minimax (b[i := AI]) 0 False)"
proof -
  have "INT_MIN < minimax (b[i := AI]) 0 False" for i
    using minimax_value [of "b[i := AI]" False 0] assms(1) by (auto simp: value_ok_def INT_MIN_def)
  moreover have "\<exists>i \<in> set [0..<9]. aget b i = Some EMPTY"
    using assms moves_left_iff by (auto simp: aget_eq_Some)
  ultimately obtain i where "i \<in> set [0..<9]" "aget b i = Some EMPTY" "findBestMove b = int i"
    "\<forall>j \<in> set [0..<9]. aget b j = Some EMPTY \<longrightarrow> minimax (b[j := AI]) 0 False \<le> minimax (b[i := AI]) 0 False"
    using best_loop [of "[0..<9]" "\<lambda>i. aget b i = Some EMPTY" INT_MIN "\<lambda>i. minimax (b[i := AI]) 0 False" "-1"]
    unfolding findBestMove_def by blast
  then show ?thesis using assms(1) by (auto simp: aget_eq_Some)
qed

text \<open>The program keeps what it can force, whether the human moves or forfeits the turn.\<close>

definition keeps :: "bool \<Rightarrow> bool \<Rightarrow> board \<Rightarrow> bool \<Rightarrow> bool" where
  "keeps nolose win b m \<longleftrightarrow> (nolose \<longrightarrow> \<not> forced False b m) \<and> (win \<longrightarrow> forced True b m)"

lemma AI_keeps:
  assumes "length b = 9" "isMovesLeft b" "evaluate b = 0" "keeps nolose win b True"
  shows "\<exists>i<9. b ! i = EMPTY \<and> findBestMove b = int i \<and> keeps nolose win (b[i := AI]) False"
proof -
  obtain i where i: "i < 9" "b ! i = EMPTY" "findBestMove b = int i"
    "\<forall>j<9. b ! j = EMPTY \<longrightarrow> minimax (b[j := AI]) 0 False \<le> minimax (b[i := AI]) 0 False"
    using findBestMove_best [OF assms(1,2)] by blast
  have v: "value_ok (b[j := AI]) False (minimax (b[j := AI]) 0 False)" for j using minimax_value assms(1) by simp
  have "forced True (b[i := AI]) False" if f: "forced True b True"
  proof -
    obtain j where "j < 9" "b ! j = EMPTY" "forced True (b[j := AI]) False"
      using f forced_own [OF assms(3), of True] by (auto simp: mark_def)
    then show ?thesis using i(4) v [of i] v [of j] by (force simp: value_ok_def)
  qed
  moreover have "\<not> forced False (b[i := AI]) False" if f: "\<not> forced False b True"
  proof -
    obtain j where "j < 9" "b ! j = EMPTY" "\<not> forced False (b[j := AI]) False"
      using f forced_other [OF assms(3), of True False] i(1,2) by (auto simp: mark_def)
    then show ?thesis using i(4) v [of i] v [of j] by (force simp: value_ok_def)
  qed
  ultimately show ?thesis using i assms(4) by (auto simp: keeps_def)
qed

lemma human_keeps:
  assumes "length b = 9" "evaluate b = 0" "keeps nolose win b False" "i < 9" "b ! i = EMPTY"
  shows "keeps nolose win (b[i := HUMAN]) True"
  using assms(3-5) forced_own [OF assms(2), of False] forced_other [OF assms(2), of False True] by (auto simp: keeps_def mark_def)

lemma forfeit_keeps:
  assumes "length b = 9" "evaluate b = 0" "isMovesLeft b" "keeps nolose win b False"
  shows "keeps nolose win b True"
proof -
  obtain i where i: "i < 9" "b ! i = EMPTY" using assms(1,3) moves_left_iff by blast
  have l: "length (swap_board b) = 9" "evaluate (swap_board b) = 0" "swap_board b ! i = EMPTY"
    using assms(1,2) i by (simp_all add: swap_board_evaluate)
  have hand_over: "forced False c False" if "forced False c True" "length c = 9" "evaluate c = 0" "c ! i = EMPTY" for c
  proof -
    have "forced False (c[i := AI]) False" using that forced_other [of c True False] i(1) by (simp add: mark_def)
    moreover have "more_AI c (c[i := AI])" using that(2,4) i(1) by (auto simp: more_AI_def nth_list_update)
    ultimately show ?thesis by (rule forced_more)
  qed
  have "forced True b True" if "forced True b False"
  proof -
    have "forced False (swap_board b) True" using forced_swap [OF that assms(1)] by simp
    then have "forced False (swap_board b) False" using hand_over l by blast
    then show ?thesis using forced_swap [of False "swap_board b" False] l(1) by simp
  qed
  then show ?thesis using assms(4) hand_over [of b] assms(1,2) i(2) by (auto simp: keeps_def)
qed

lemma human_move_AI_line:
  assumes "length b = 9" "evaluate b = 0" "i < 9" "b ! i = EMPTY"
  shows "evaluate (b[i := HUMAN]) \<noteq> 10"
proof
  assume e: "evaluate (b[i := HUMAN]) = 10"
  have "more_AI (swap_board b) ((swap_board b)[i := AI])" using assms by (auto simp: more_AI_def nth_list_update)
  moreover have "evaluate ((swap_board b)[i := AI]) = -10"
    using swap_board_evaluate [of "b[i := HUMAN]"] e assms(1) by simp
  ultimately have "evaluate (swap_board b) = -10" using more_AI_evaluate(1) by blast
  then show False using swap_board_evaluate [OF assms(1)] assms(2) by simp
qed

lemma AI_moves:
  assumes "length b = 9" "isMovesLeft b" "evaluate b = 0" "keeps nolose win b True"
  shows "\<exists>c. 0 \<le> findBestMove b \<and> aset b (nat (findBestMove b)) AI = Some c \<and> length c = 9 \<and> keeps nolose win c False
    \<and> count_list c EMPTY < count_list b EMPTY \<and> (evaluate c = 10 \<or> evaluate c = 0 \<and> (win \<longrightarrow> isMovesLeft c))"
proof -
  obtain i where i: "i < 9" "b ! i = EMPTY" "findBestMove b = int i" "keeps nolose win (b[i := AI]) False"
    using AI_keeps [OF assms] by blast
  let ?c = "b[i := AI]"
  have "more_AI b ?c" using assms(1) i(1,2) by (auto simp: more_AI_def nth_list_update)
  then have "evaluate ?c \<noteq> -10" using more_AI_evaluate(1) [of b ?c] assms(3) by auto
  then have "evaluate ?c = 10 \<or> evaluate ?c = 0" using evaluate_range [of ?c] by blast
  moreover have "isMovesLeft ?c" if "win" "evaluate ?c = 0"
    using i(4) that forced_other [OF that(2), of False True] moves_left_iff [of ?c] assms(1) by (simp add: keeps_def)
  moreover have "count_list ?c EMPTY < count_list b EMPTY" using fewer_empty [of b i EMPTY AI] i(1,2) assms(1) by simp
  ultimately show ?thesis using i assms(1) by auto
qed

text \<open>One round: the program ends the game, or it is the human's turn.\<close>

abbreviation human_turn :: "int \<Rightarrow> entry list \<Rightarrow> board \<Rightarrow> (outcome \<times> board) option" where
  "human_turn move es c \<equiv>
     (if move < 0 \<or> 9 \<le> move \<or> aget c (nat move) \<noteq> Some EMPTY then play es c
      else do {
        d \<leftarrow> aset c (nat move) HUMAN;
        if evaluate d = -10 then Some (Human_wins, d) else if \<not> isMovesLeft d then Some (Draw, d) else play es d
      })"

definition turn_of :: "bool \<Rightarrow> bool \<Rightarrow> board \<Rightarrow> bool \<Rightarrow> bool" where
  "turn_of nolose win b m \<longleftrightarrow> length b = 9 \<and> isMovesLeft b \<and> evaluate b = 0 \<and> keeps nolose win b m"

lemma AI_round:
  assumes "turn_of nolose win b True"
  obtains r c where "\<And>es. play es b = Some (r, c)" "r = AI_wins \<or> r = Draw \<and> \<not> win"
  | c where "turn_of nolose win c False" "count_list c EMPTY < count_list b EMPTY"
      "\<And>es. play es b = do { (m, es) \<leftarrow> read_int es; move \<leftarrow> int32 (m - 1); human_turn move es c }"
proof -
  obtain c where c: "0 \<le> findBestMove b" "aset b (nat (findBestMove b)) AI = Some c" "length c = 9" "keeps nolose win c False"
    "count_list c EMPTY < count_list b EMPTY" "evaluate c = 10 \<or> evaluate c = 0 \<and> (win \<longrightarrow> isMovesLeft c)"
    using AI_moves [of b nolose win] assms by (auto simp: turn_of_def)
  consider "evaluate c = 10" | "evaluate c = 0" "\<not> isMovesLeft c" "\<not> win" | "evaluate c = 0" "isMovesLeft c" using c(6) by blast
  then show thesis
  proof cases
    case 1
    then have "play es b = Some (AI_wins, c)" for es using c(1,2) by (subst play.simps) simp
    then show thesis using that(1) by blast
  next
    case 2
    then have "play es b = Some (Draw, c)" for es using c(1,2) by (subst play.simps) simp
    then show thesis using that(1) 2(3) by blast
  next
    case 3
    then have "play es b = do { (m, es) \<leftarrow> read_int es; move \<leftarrow> int32 (m - 1); human_turn move es c }" for es
      using c(1,2) by (subst play.simps) simp
    then show thesis using that(2) [of c] c(3-5) 3 by (simp add: turn_of_def)
  qed
qed

lemma human_round:
  assumes "turn_of nolose win c False"
  obtains r d where "\<And>es. human_turn move es c = Some (r, d)" "r = Draw \<and> \<not> win \<or> r = Human_wins \<and> \<not> nolose \<and> \<not> win"
  | d where "turn_of nolose win d True" "count_list d EMPTY \<le> count_list c EMPTY" "\<And>es. human_turn move es c = play es d"
proof (cases "move < 0 \<or> 9 \<le> move \<or> aget c (nat move) \<noteq> Some EMPTY")
  case True
  have "turn_of nolose win c True" using forfeit_keeps [of c nolose win] assms by (simp add: turn_of_def)
  then show thesis using that(2) [of c] True by simp
next
  case False
  let ?i = "nat move"
  let ?d = "c[?i := HUMAN]"
  have c: "length c = 9" "evaluate c = 0" "keeps nolose win c False" using assms by (simp_all add: turn_of_def)
  have i: "?i < 9" "c ! ?i = EMPTY" using False by (auto simp: aget_eq_Some)
  have k: "keeps nolose win ?d True" using human_keeps [OF c i] .
  have w: "win \<longrightarrow> evaluate ?d = 0 \<and> isMovesLeft ?d"
    using k human_move_AI_line [OF c(1,2) i] forced_over [of ?d True True] forced_own [of ?d True] moves_left_iff [of ?d] c(1)
    by (auto simp: keeps_def)
  consider "evaluate ?d = -10" | "evaluate ?d = 0" "\<not> isMovesLeft ?d" | "evaluate ?d = 0" "isMovesLeft ?d"
    using evaluate_range [of ?d] human_move_AI_line [OF c(1,2) i] by blast
  then show thesis
  proof cases
    case 1
    then have "\<not> nolose" "\<not> win" using k forced_over [of ?d False True] w by (auto simp: keeps_def goal_def)
    then show thesis using that(1) [of Human_wins ?d] 1 False c(1) i by simp
  next
    case 2
    then show thesis using that(1) [of Draw ?d] w False c(1) i by simp
  next
    case 3
    have "count_list ?d EMPTY < count_list c EMPTY" using fewer_empty [of c ?i EMPTY HUMAN] i c(1) by simp
    then show thesis using that(2) [of ?d] 3 k c(1) False i by (simp add: turn_of_def)
  qed
qed

text \<open>A game that ends, ends well; and it ends when enough numbers are entered.\<close>

lemma play_keeps:
  "play es b = Some (r, b') \<Longrightarrow> turn_of nolose win b True \<Longrightarrow> (nolose \<longrightarrow> r \<noteq> Human_wins) \<and> (win \<longrightarrow> r = AI_wins)"
proof (induction "length es" arbitrary: es b rule: less_induct)
  case less
  from less.prems(2) show ?case
  proof (cases rule: AI_round)
    case (1 r c)
    then show ?thesis using less.prems(1) by auto
  next
    case (2 c)
    obtain m es' move where m: "read_int es = Some (m, es')" "int32 (m - 1) = Some move" "human_turn move es' c = Some (r, b')"
      using less.prems(1) unfolding 2(3) by (auto simp: bind_eq_Some_conv)
    from 2(1) show ?thesis
    proof (cases rule: human_round [of _ _ _ move])
      case (1 r d)
      then show ?thesis using m(3) by auto
    next
      case (2 d)
      then show ?thesis using less.hyps [of es' d] read_int_shorter [OF m(1)] m(3) by auto
    qed
  qed
qed

definition plain_number :: "entry \<Rightarrow> bool" where
  "plain_number e \<longleftrightarrow> (case e of Number m \<Rightarrow> INT_MIN < m \<and> m \<le> INT_MAX | NotANumber \<Rightarrow> False)"

lemma isMovesLeft_count: "isMovesLeft b \<longleftrightarrow> 0 < count_list b EMPTY"
  by (induction b) (auto simp: isMovesLeft_def)

lemma play_returns:
  "turn_of nolose win b True \<Longrightarrow> count_list b EMPTY \<le> Suc n \<Longrightarrow> n \<le> length es \<Longrightarrow> (\<forall>e \<in> set (take n es). plain_number e)
   \<Longrightarrow> \<exists>r b'. play es b = Some (r, b')"
proof (induction n arbitrary: es b)
  case 0
  from 0(1) show ?case
  proof (cases rule: AI_round)
    case (2 c)
    then show ?thesis using 0(2) isMovesLeft_count [of c] by (simp add: turn_of_def)
  qed auto
next
  case (Suc n)
  then obtain m es' where es: "es = Number m # es'" "INT_MIN < m" "m \<le> INT_MAX"
    by (cases es) (auto simp: plain_number_def split: entry.splits)
  then have r: "read_int es = Some (m, es')" "int32 (m - 1) = Some (m - 1)" by (simp_all add: int32_def INT_MIN_def INT_MAX_def)
  from Suc.prems(1) show ?case
  proof (cases rule: AI_round)
    case 1
    then show ?thesis by blast
  next
    case (2 c)
    note p = 2(3) [of es, unfolded r(1)]
    from 2(1) show ?thesis
    proof (cases rule: human_round [of _ _ _ "m - 1"])
      case (1 r d)
      then show ?thesis using p r(2) by simp
    next
      case (2 d)
      have "count_list d EMPTY \<le> Suc n" using 2(2) \<open>count_list c EMPTY < count_list b EMPTY\<close> Suc.prems(2) by simp
      then have "\<exists>r b'. play es' d = Some (r, b')" using Suc.IH [OF 2(1)] Suc.prems(3,4) es(1) by simp
      then show ?thesis using p r(2) 2(3) by simp
    qed
  qed
qed

text \<open>C12. The tree search of the program is right and it never loses: on every board of nine cells the value of the search is
  10 if the program can force a line, -10 if the human can, and 0 otherwise. Whatever is entered, moves that are
  not allowed, text that is no number and too few entries included, a game from the empty board that ends does not end with a line
  of the human; and if the first eight entries are numbers of type \<open>int\<close> other than \<open>INT_MIN\<close> (which \<open>move--\<close>
  would take out of the range), allowed or not, it does end, with a line of the program or a draw.\<close>

theorem tictactoe_never_loses:
  assumes "length b = 9"
  shows "minimax b d m = (if forced True b m then 10 else if forced False b m then -10 else 0)
    \<and> (\<forall>r b'. play es (replicate 9 EMPTY) = Some (r, b') \<longrightarrow> r \<noteq> Human_wins)
    \<and> (8 \<le> length es \<and> (\<forall>e \<in> set (take 8 es). plain_number e) \<longrightarrow>
        (\<exists>r b'. play es (replicate 9 EMPTY) = Some (r, b') \<and> (r = AI_wins \<or> r = Draw)))"
proof (intro conjI allI impI)
  show "minimax b d m = (if forced True b m then 10 else if forced False b m then -10 else 0)"
    using minimax_value [OF assms, of m d] by (auto simp: value_ok_def)
  have "isMovesLeft new_board" using moves_left_iff [of new_board] new_board_facts(1,3) by (metis zero_less_numeral)
  moreover have "keeps True False new_board True" using first_does_not_lose by (simp add: keeps_def)
  ultimately have t: "turn_of True False (replicate 9 EMPTY) True"
    using new_board_facts(1,2) by (simp add: turn_of_def flip: new_board_def)
  then show safe: "r \<noteq> Human_wins" if "play es (replicate 9 EMPTY) = Some (r, b')" for r b'
    using play_keeps [OF that t] by simp
  assume "8 \<le> length es \<and> (\<forall>e \<in> set (take 8 es). plain_number e)"
  moreover have "count_list (replicate 9 EMPTY) EMPTY \<le> Suc 8" by (simp add: eval_nat_numeral)
  ultimately obtain r b' where "play es (replicate 9 EMPTY) = Some (r, b')" using play_returns [OF t, of 8 es] by blast
  then show "\<exists>r b'. play es (replicate 9 EMPTY) = Some (r, b') \<and> (r = AI_wins \<or> r = Draw)"
    using safe by (cases r) auto
qed

theorem tictactoe_never_loses_witness:
  "minimax ''OOOXX    '' 0 False = 10 \<and>
   (\<exists>r b'. play (map Number [5, 0, 3, 3, 99, 7, -1, 8]) (replicate 9 EMPTY) = Some (r, b') \<and> (r = AI_wins \<or> r = Draw))"
proof -
  have "evaluate ''OOOXX    '' = 10" by (simp add: evaluate_def board_lines_def line_score_def upt_rec AI_def HUMAN_def)
  then have "forced True ''OOOXX    '' False" by (intro forced.won) (simp add: goal_def)
  moreover have "8 \<le> length (map Number [5, 0, 3, 3, 99, 7, -1, 8]) \<and>
      (\<forall>e \<in> set (take 8 (map Number [5, 0, 3, 3, 99, 7, -1, 8])). plain_number e)"
    by (simp add: plain_number_def INT_MIN_def INT_MAX_def)
  ultimately show ?thesis using tictactoe_never_loses [of "''OOOXX    ''" 0 False "map Number [5, 0, 3, 3, 99, 7, -1, 8]"] by auto
qed

text \<open>From a board on which the program can force a line, it gets it.\<close>

lemma forced_win_is_won:
  assumes "length b = 9" "isMovesLeft b" "evaluate b = 0" "forced True b True" "play es b = Some (r, b')"
  shows "r = AI_wins"
  using play_keeps [OF assms(5), of False True] assms(1-4) by (auto simp: keeps_def turn_of_def)

text \<open>After a move that is not allowed the program moves again.\<close>

lemma forfeited_turn:
  assumes "findBestMove b = int i" "i < length b" "evaluate (b[i := AI]) \<noteq> 10" "isMovesLeft (b[i := AI])"
  shows "play (Number 0 # es) b = play es (b[i := AI])"
  using assms by (subst play.simps) (simp add: INT_MIN_def INT_MAX_def int32_def)

text \<open>After something that is no number the program moves once more, and then uses a number that was not read.\<close>

lemma failed_stream: "read_int (NotANumber # es) = Some (0, [])" "read_int [] = None"
  by simp_all

end
