(* ===== verification/Prisoners.thy ===== *)
theory Prisoners
  imports Prelude
begin

text \<open>
  The simulation of \<open>test_dir/prisons_question/prisons_question.cpp\<close>: twenty prisoners visit a room with a lamp in some
  order. The leader counts how often it finds the lamp on and puts it out; each of the others lights it once. The
  order, for which the program calls \<open>rand\<close>, is a list.
\<close>

section \<open>The code\<close>

record PrisonerState =
  count_visits :: int
  turned_on_once :: bool

datatype lamp_state = ON | OFF

record Simulation =
  prisoners :: "PrisonerState list"
  lamp :: lamp_state
  leader :: nat
  leader_count :: int

definition new_simulation :: Simulation where
  "new_simulation = \<lparr>prisoners = replicate 20 \<lparr>count_visits = 0, turned_on_once = False\<rparr>, lamp = OFF, leader = 0, leader_count = 0\<rparr>"

definition handle_visit :: "Simulation \<Rightarrow> nat \<Rightarrow> Simulation option" where
  "handle_visit sim idx = do {
     sim \<leftarrow> (if idx = leader sim then
         (if lamp sim = ON then do {
            k \<leftarrow> int32 (leader_count sim + 1);
            Some (sim\<lparr>lamp := OFF, leader_count := k\<rparr>)
          } else Some sim)
       else do {
         p \<leftarrow> aget (prisoners sim) idx;
         if \<not> turned_on_once p \<and> lamp sim = OFF then do {
           ps \<leftarrow> aset (prisoners sim) idx (p\<lparr>turned_on_once := True\<rparr>);
           Some (sim\<lparr>lamp := ON, prisoners := ps\<rparr>)
         } else Some sim
       });
     p \<leftarrow> aget (prisoners sim) idx;
     k \<leftarrow> int32 (count_visits p + 1);
     ps \<leftarrow> aset (prisoners sim) idx (p\<lparr>count_visits := k\<rparr>);
     Some (sim\<lparr>prisoners := ps\<rparr>)
   }"

definition should_stop :: "Simulation \<Rightarrow> bool" where
  "should_stop sim \<longleftrightarrow> 19 \<le> leader_count sim"

text \<open>The loop over the visits of one simulation; the second result tells whether it has stopped.\<close>

fun simulate :: "nat list \<Rightarrow> Simulation \<Rightarrow> (Simulation \<times> bool) option" where
  "simulate [] sim = Some (sim, False)"
| "simulate (idx # idxs) sim = do {
     sim \<leftarrow> handle_visit sim idx;
     if should_stop sim then Some (sim, True) else simulate idxs sim
   }"

text \<open>The sum that is returned at the end of a simulation.\<close>

definition print_aligned_counts :: "Simulation \<Rightarrow> int" where
  "print_aligned_counts sim = foldl (\<lambda>total_visits i. total_visits + count_visits (prisoners sim ! i)) 0 [0..<20]"

section \<open>The invariant\<close>

definition lit :: "Simulation \<Rightarrow> nat set" where
  "lit sim = {i. i < 20 \<and> turned_on_once (prisoners sim ! i)}"

text \<open>\<open>vs\<close> are the visits so far. Every prisoner who has lit the lamp has been counted, or the lamp is on.\<close>

definition visits_inv :: "nat list \<Rightarrow> Simulation \<Rightarrow> bool" where
  "visits_inv vs sim \<longleftrightarrow> length (prisoners sim) = 20 \<and> leader sim = 0 \<and> set vs \<subseteq> {0..<20}
     \<and> (\<forall>i<20. count_visits (prisoners sim ! i) = int (count_list vs i))
     \<and> lit sim \<subseteq> set vs - {0} \<and> (0 < leader_count sim \<longrightarrow> 0 \<in> set vs)
     \<and> leader_count sim + (if lamp sim = ON then 1 else 0) = int (card (lit sim))"

definition progress :: "Simulation \<Rightarrow> nat \<Rightarrow> bool" where
  "progress sim idx \<longleftrightarrow> (if idx = 0 then lamp sim = ON else lamp sim = OFF \<and> idx \<notin> lit sim)"

definition rank :: "Simulation \<Rightarrow> int" where
  "rank sim = 2 * leader_count sim + (if lamp sim = ON then 1 else 0)"

lemma lit_card: "visits_inv vs sim \<Longrightarrow> card (lit sim) \<le> 19"
proof -
  assume "visits_inv vs sim"
  then have "lit sim \<subseteq> {0..<20} - {0}" unfolding visits_inv_def by blast
  then have "lit sim \<subseteq> {1..<20}" by fastforce
  then show ?thesis using card_mono [of "{1..<20 :: nat}" "lit sim"] by simp
qed

lemma count_list_snoc: "count_list (xs @ [x]) y = count_list xs y + (if x = y then 1 else 0)"
  by simp

lemma count_le_visits: "visits_inv vs sim \<Longrightarrow> i < 20 \<Longrightarrow> count_visits (prisoners sim ! i) \<le> int (length vs)"
  by (simp add: visits_inv_def count_le_length)

text \<open>One visit: the rank grows if there is something to do, and nothing else changes if there is not.\<close>

lemma handle_visit_ok:
  assumes inv: "visits_inv vs sim" and idx: "idx < 20" and len: "int (length vs) + 1 < 2 ^ 31"
  shows "\<exists>sim'. handle_visit sim idx = Some sim' \<and> visits_inv (vs @ [idx]) sim'
    \<and> (if progress sim idx then rank sim' = rank sim + 1 else lamp sim' = lamp sim \<and> lit sim' = lit sim \<and> leader_count sim' = leader_count sim)"
proof -
  let ?ps = "prisoners sim" and ?p = "prisoners sim ! idx"
  have c: "int32 (count_visits ?p + 1) = Some (count_visits ?p + 1)"
    using count_le_visits [OF inv idx] len inv idx by (intro int32_in) (auto simp: visits_inv_def)
  have l: "length ?ps = 20" "leader sim = 0" using inv by (simp_all add: visits_inv_def)
  have k: "leader_count sim \<le> 19" "0 \<le> leader_count sim + (if lamp sim = ON then 1 else 0)"
    using lit_card [OF inv] inv by (auto simp: visits_inv_def split: if_splits)
  have fin: "finite (lit sim)" by (simp add: lit_def)
  consider "idx = 0" "lamp sim = ON" | "idx \<noteq> 0" "progress sim idx" | "\<not> progress sim idx"
    by (cases "idx = 0") (auto simp: progress_def)
  then show ?thesis
  proof cases
    case 1
    let ?s = "sim\<lparr>lamp := OFF, leader_count := leader_count sim + 1, prisoners := ?ps[idx := ?p\<lparr>count_visits := count_visits ?p + 1\<rparr>]\<rparr>"
    have "int32 (leader_count sim + 1) = Some (leader_count sim + 1)" using k 1 by (simp add: int32_def)
    then have "handle_visit sim idx = Some ?s" using 1 l c idx by (simp add: handle_visit_def)
    moreover have "lit ?s = lit sim" using l idx by (auto simp: lit_def nth_list_update)
    ultimately show ?thesis using inv 1 l idx by (auto simp: visits_inv_def nth_list_update progress_def rank_def)
  next
    case 2
    let ?s = "sim\<lparr>lamp := ON, prisoners := ?ps[idx := ?p\<lparr>turned_on_once := True, count_visits := count_visits ?p + 1\<rparr>]\<rparr>"
    have p: "lamp sim = OFF" "idx \<notin> lit sim" "\<not> turned_on_once ?p" using 2 idx by (auto simp: progress_def lit_def)
    then have "handle_visit sim idx = Some ?s" using 2(1) l c idx by (simp add: handle_visit_def)
    moreover have "lit ?s = insert idx (lit sim)" using l idx by (auto simp: lit_def nth_list_update)
    ultimately show ?thesis using inv 2 l idx p fin by (auto simp: visits_inv_def nth_list_update rank_def)
  next
    case 3
    let ?s = "sim\<lparr>prisoners := ?ps[idx := ?p\<lparr>count_visits := count_visits ?p + 1\<rparr>]\<rparr>"
    have "handle_visit sim idx = Some ?s" using 3 l c idx by (cases "lamp sim") (auto simp: handle_visit_def progress_def lit_def split: if_splits)
    moreover have "lit ?s = lit sim" using l idx by (auto simp: lit_def nth_list_update)
    ultimately show ?thesis using inv 3 l idx by (auto simp: visits_inv_def nth_list_update)
  qed
qed

lemma simulate_ok:
  assumes "visits_inv vs sim" "set w \<subseteq> {0..<20}" "int (length vs + length w) < 2 ^ 31"
  shows "\<exists>sim' b k. simulate w sim = Some (sim', b) \<and> k \<le> length w \<and> visits_inv (vs @ take k w) sim'
    \<and> simulate (take k w) sim = Some (sim', b) \<and> (\<forall>j<k. \<exists>s. simulate (take j w) sim = Some (s, False))
    \<and> (if b then should_stop sim' else (should_stop sim' \<longrightarrow> should_stop sim) \<and> k = length w \<and> rank sim \<le> rank sim' \<and> (rank sim' = rank sim \<longrightarrow> (\<forall>i \<in> set w. \<not> progress sim i)))"
  using assms
proof (induction w arbitrary: vs sim)
  case (Cons i w)
  obtain s where s: "handle_visit sim i = Some s" "visits_inv (vs @ [i]) s"
    "if progress sim i then rank s = rank sim + 1 else lamp s = lamp sim \<and> lit s = lit sim \<and> leader_count s = leader_count sim"
    using handle_visit_ok [OF Cons.prems(1), of i] Cons.prems(2,3) by auto
  show ?case
  proof (cases "should_stop s")
    case True
    then show ?thesis using s(1,2) by (intro exI [of _ s] exI [of _ True] exI [of _ 1]) (simp add: less_Suc_eq)
  next
    case False
    obtain s' b k where r: "simulate w s = Some (s', b)" "k \<le> length w" "visits_inv ((vs @ [i]) @ take k w) s'"
      "simulate (take k w) s = Some (s', b)" "\<forall>j<k. \<exists>t. simulate (take j w) s = Some (t, False)"
      "if b then should_stop s' else (should_stop s' \<longrightarrow> should_stop s) \<and> k = length w \<and> rank s \<le> rank s' \<and> (rank s' = rank s \<longrightarrow> (\<forall>i \<in> set w. \<not> progress s i))"
      using Cons.IH [OF s(2)] Cons.prems(2,3) by fastforce
    have "progress s j = progress sim j" "rank s = rank sim" if "\<not> progress sim i" for j
      using s(3) that by (simp_all add: progress_def rank_def)
    moreover have "\<exists>t. simulate (take j (i # w)) sim = Some (t, False)" if "j < Suc k" for j
      using that s(1) False r(5) by (cases j) auto
    ultimately show ?thesis using s(1,3) False r(1-4,6)
      by (intro exI [of _ s'] exI [of _ b] exI [of _ "Suc k"]) (auto split: if_splits)
  qed
qed auto

text \<open>If everybody visits the room, there is something to do, unless all have been counted.\<close>

lemma window_progress:
  assumes inv: "visits_inv vs sim" and all: "{0..<20} \<subseteq> set w" and go: "\<not> should_stop sim"
  shows "\<exists>i \<in> set w. progress sim i"
proof (cases "lamp sim")
  case ON
  then show ?thesis using all by (intro bexI [of _ 0]) (auto simp: progress_def)
next
  case OFF
  have "\<not> {1..<20} \<subseteq> lit sim"
  proof
    assume "{1..<20} \<subseteq> lit sim"
    then have "card {1..<20 :: nat} \<le> card (lit sim)" by (intro card_mono) (auto simp: lit_def)
    then show False using inv OFF go by (simp add: visits_inv_def should_stop_def)
  qed
  then obtain i where "i \<in> {1..<20}" "i \<notin> lit sim" by (metis subsetI)
  then show ?thesis using OFF all by (intro bexI [of _ i]) (auto simp: progress_def)
qed

lemma simulate_append:
  "simulate (xs @ ys) sim = do { (sim, b) \<leftarrow> simulate xs sim; if b then Some (sim, True) else simulate ys sim }"
  by (induction xs arbitrary: sim) (auto split: Option.bind_splits)

lemma rank_bound: "visits_inv vs sim \<Longrightarrow> \<not> should_stop sim \<Longrightarrow> rank sim < 38"
  by (auto simp: rank_def should_stop_def)

lemma windows_stop:
  assumes "visits_inv vs sim" "\<forall>w \<in> set ws. set w = {0..<20}" "int (length vs + length (concat ws)) < 2 ^ 31"
    and "38 \<le> rank sim + int (length ws)" "\<not> should_stop sim"
  shows "\<exists>sim'. simulate (concat ws) sim = Some (sim', True)"
  using assms
proof (induction ws arbitrary: vs sim)
  case Nil
  then show ?case using rank_bound [OF Nil.prems(1)] by simp
next
  case (Cons w ws)
  have sw: "set w \<subseteq> {0..<20}" "int (length vs + length w) < 2 ^ 31" using Cons.prems(2,3) by auto
  obtain s b k where r: "simulate w sim = Some (s, b)" "k \<le> length w" "visits_inv (vs @ take k w) s"
    "if b then should_stop s else (should_stop s \<longrightarrow> should_stop sim) \<and> k = length w \<and> rank sim \<le> rank s \<and> (rank s = rank sim \<longrightarrow> (\<forall>i \<in> set w. \<not> progress sim i))"
    using simulate_ok [OF Cons.prems(1) sw] by blast
  show ?case
  proof (cases b)
    case True
    then show ?thesis using r(1) by (simp add: simulate_append)
  next
    case False
    then have k: "k = length w" "rank sim < rank s"
      using r(4) window_progress [OF Cons.prems(1) _ Cons.prems(5), of w] Cons.prems(2) by fastforce+
    have "\<not> should_stop s" using r(4) False Cons.prems(5) by simp
    moreover have "38 \<le> rank s + int (length ws)" using Cons.prems(4) k(2) by simp
    moreover have "visits_inv (vs @ w) s" using r(3) k(1) by simp
    ultimately obtain s' where "simulate (concat ws) s = Some (s', True)"
      using Cons.IH [of "vs @ w" s] Cons.prems(2,3) by auto
    then show ?thesis using r(1) False by (simp add: simulate_append)
  qed
qed

lemma visits_inv_new: "visits_inv [] new_simulation" "\<not> should_stop new_simulation" "rank new_simulation = 0"
  by (auto simp: visits_inv_def new_simulation_def lit_def should_stop_def rank_def)

text \<open>When the simulation stops everybody has been in the room, and the sum is the number of visits.\<close>

lemma stop_all_visited:
  assumes inv: "visits_inv vs sim" and stop: "should_stop sim"
  shows "{0..<20} \<subseteq> set vs"
proof -
  have "19 \<le> int (card (lit sim))" using inv stop by (simp add: visits_inv_def should_stop_def split: if_splits)
  moreover have "lit sim \<subseteq> {1..<20}"
  proof -
    have "lit sim \<subseteq> {0..<20} - {0}" using inv unfolding visits_inv_def by blast
    then show ?thesis by fastforce
  qed
  ultimately have "lit sim = {1..<20}" using card_seteq [of "{1..<20 :: nat}" "lit sim"] by simp
  then have "{1..<20} \<subseteq> set vs" using inv unfolding visits_inv_def by blast
  moreover have "0 \<in> set vs" using inv stop by (simp add: visits_inv_def should_stop_def)
  moreover have "{0..<20} \<subseteq> insert 0 {1..<20 :: nat}" by auto
  ultimately show ?thesis by blast
qed

lemma print_aligned_counts_visits:
  assumes "visits_inv vs sim"
  shows "print_aligned_counts sim = int (length vs)"
proof -
  have "foldl (\<lambda>t i. t + f i) x [0..<n] = x + (\<Sum>i<n. f i)" for f :: "nat \<Rightarrow> int" and x n
    by (induction n) simp_all
  then have "print_aligned_counts sim = (\<Sum>i<20. count_visits (prisoners sim ! i))" by (simp only: print_aligned_counts_def add_0)
  also have "\<dots> = (\<Sum>i<20. int (count_list vs i))" using assms by (intro sum.cong) (auto simp: visits_inv_def)
  also have "\<dots> = int (\<Sum>i<20. count_list vs i)" by simp
  also have "(\<Sum>i<20. count_list vs i) = length vs"
  proof (rule sum_count_set)
    show "set vs \<subseteq> {..<20}" using assms by (simp add: visits_inv_def lessThan_atLeast0)
  qed simp
  finally show ?thesis .
qed

text \<open>C13. In whatever order the prisoners visit the room, fewer than \<open>2 ^ 31\<close> times: the simulation ends after the first visit
  with which the leader's count reaches 19, or with the last visit; the sum that is returned is exactly the number
  of visits up to there; and if it has ended with the count every prisoner has been there at least once. And the
  leader does count to 19: it is enough that the visits fall into 38 rounds in each of which everybody comes at
  least once.\<close>

theorem prisoners_correct:
  assumes "set idxs \<subseteq> {0..<20}" "length idxs < 2 ^ 31"
  shows "\<exists>sim b k. simulate idxs new_simulation = Some (sim, b) \<and> k \<le> length idxs
    \<and> simulate (take k idxs) new_simulation = Some (sim, b) \<and> b = should_stop sim \<and> (\<not> b \<longrightarrow> k = length idxs)
    \<and> (\<forall>j<k. \<exists>s. simulate (take j idxs) new_simulation = Some (s, False))
    \<and> print_aligned_counts sim = int k \<and> (b \<longrightarrow> {0..<20} \<subseteq> set (take k idxs))
    \<and> ((\<exists>ws. idxs = concat ws \<and> 38 \<le> length ws \<and> (\<forall>w \<in> set ws. {0..<20} \<subseteq> set w)) \<longrightarrow> b)"
proof -
  have len: "int (length [] + length idxs) < 2 ^ 31" using assms(2) by simp
  obtain sim b k where r: "simulate idxs new_simulation = Some (sim, b)" "k \<le> length idxs" "visits_inv ([] @ take k idxs) sim"
    and p: "simulate (take k idxs) new_simulation = Some (sim, b)" "\<forall>j<k. \<exists>s. simulate (take j idxs) new_simulation = Some (s, False)"
    and e: "if b then should_stop sim else (should_stop sim \<longrightarrow> should_stop new_simulation) \<and> k = length idxs
      \<and> rank new_simulation \<le> rank sim \<and> (rank sim = rank new_simulation \<longrightarrow> (\<forall>i \<in> set idxs. \<not> progress new_simulation i))"
    using simulate_ok [OF visits_inv_new(1) assms(1) len] by blast
  have s: "b = should_stop sim" "\<not> b \<longrightarrow> k = length idxs" using e visits_inv_new(2) by (auto split: if_splits)
  have "b" if ws: "idxs = concat ws" "38 \<le> length ws" "\<forall>w \<in> set ws. {0..<20} \<subseteq> set w" for ws
  proof -
    have "\<forall>w \<in> set ws. set w = {0..<20}" using assms(1) ws(1,3) by fastforce
    then show ?thesis using windows_stop [OF visits_inv_new(1), of ws] visits_inv_new(2,3) ws(1,2) assms(2) r(1) by fastforce
  qed
  moreover have "print_aligned_counts sim = int k" using print_aligned_counts_visits [OF r(3)] r(2) by simp
  moreover have "{0..<20} \<subseteq> set (take k idxs)" if b using stop_all_visited [OF r(3)] s(1) that by simp
  ultimately show ?thesis using r(1,2) p s by (intro exI [of _ sim] exI [of _ b] exI [of _ k]) blast
qed

theorem prisoners_correct_witness:
  "\<exists>sim k. simulate (concat (replicate 38 [0..<20])) new_simulation = Some (sim, True) \<and> {0..<20} \<subseteq> set (take k (concat (replicate 38 [0..<20])))
    \<and> simulate (take k (concat (replicate 38 [0..<20]))) new_simulation = Some (sim, True) \<and> print_aligned_counts sim = int k"
proof -
  let ?idxs = "concat (replicate 38 [0..<20 :: nat])"
  have len: "length ?idxs = 760" by (simp add: length_concat sum_list_replicate del: upt_Suc)
  have "set ?idxs \<subseteq> {0..<20}" "length ?idxs < 2 ^ 31" using len by auto
  from prisoners_correct [OF this] obtain sim b k where r: "simulate ?idxs new_simulation = Some (sim, b)"
    "simulate (take k ?idxs) new_simulation = Some (sim, b)" "print_aligned_counts sim = int k" "b \<longrightarrow> {0..<20} \<subseteq> set (take k ?idxs)"
    "(\<exists>ws. ?idxs = concat ws \<and> 38 \<le> length ws \<and> (\<forall>w \<in> set ws. {0..<20} \<subseteq> set w)) \<longrightarrow> b" by blast
  have "\<exists>ws. ?idxs = concat ws \<and> 38 \<le> length ws \<and> (\<forall>w \<in> set ws. {0..<20} \<subseteq> set w)"
    by (intro exI [of _ "replicate 38 [0..<20]"]) (simp del: upt_Suc)
  then have b using r(5) by blast
  then show ?thesis using r(1-4) by auto
qed

end
