(* ===== verification/MinHeap.thy ===== *)
theory MinHeap
  imports Prelude
begin

text \<open>
  The heap of \<open>prepare_for_interview/min_heap/min_heap.cpp\<close>: a vector of numbers with the smallest in front. The lines
  that the program prints are left out, but not the accesses to the vector that are made for them.
\<close>

section \<open>The code\<close>

definition parent :: "nat \<Rightarrow> nat" where
  "parent i = (i - 1) div 2"

definition leftChild :: "nat \<Rightarrow> nat option" where
  "leftChild i = (if 2 * i + 1 < 2 ^ 31 then Some (2 * i + 1) else None)"

definition rightChild :: "nat \<Rightarrow> nat option" where
  "rightChild i = (if 2 * i + 2 < 2 ^ 31 then Some (2 * i + 2) else None)"

definition swap_cells :: "'a list \<Rightarrow> nat \<Rightarrow> nat \<Rightarrow> 'a list option" where
  "swap_cells h i j = do { x \<leftarrow> aget h i; y \<leftarrow> aget h j; h \<leftarrow> aset h i y; aset h j x }"

lemma parent_less: "0 < i \<Longrightarrow> parent i < i"
  by (simp add: parent_def)

function heapifyUp :: "int list \<Rightarrow> nat \<Rightarrow> int list option" where
  "heapifyUp heap index = (if 0 < index then do {
     p \<leftarrow> aget heap (parent index);
     c \<leftarrow> aget heap index;
     if p > c then do { heap \<leftarrow> swap_cells heap (parent index) index; heapifyUp heap (parent index) } else Some heap
   } else Some heap)"
  by auto
termination by (relation "measure snd") (simp_all add: parent_less)

declare heapifyUp.simps [simp del]

function sift_up_loop :: "int list \<Rightarrow> nat \<Rightarrow> int \<Rightarrow> int list option" where
  "sift_up_loop heap index currentValue = (if 0 < index then do {
     let parentIndex = parent index;
     p \<leftarrow> aget heap parentIndex;
     if p \<le> currentValue then aset heap index currentValue
     else do { heap \<leftarrow> aset heap index p; sift_up_loop heap parentIndex currentValue }
   } else aset heap index currentValue)"
  by auto
termination by (relation "measure (\<lambda>(_, i, _). i)") (simp_all add: parent_less)

declare sift_up_loop.simps [simp del]

definition siftUp :: "int list \<Rightarrow> nat \<Rightarrow> int list option" where
  "siftUp heap index = do { currentValue \<leftarrow> aget heap index; sift_up_loop heap index currentValue }"

text \<open>The comparisons of one round on the way down.\<close>

definition smallest_of :: "int list \<Rightarrow> nat \<Rightarrow> nat option" where
  "smallest_of heap index = do {
     let smallest = index;
     left \<leftarrow> leftChild index;
     right \<leftarrow> rightChild index;
     smallest \<leftarrow> (if left < length heap then do { l \<leftarrow> aget heap left; s \<leftarrow> aget heap smallest; Some (if l < s then left else smallest) }
       else Some smallest);
     (if right < length heap then do { r \<leftarrow> aget heap right; s \<leftarrow> aget heap smallest; Some (if r < s then right else smallest) }
       else Some smallest)
   }"

lemma smallest_of_range: "smallest_of h i = Some s \<Longrightarrow> s = i \<or> i < s \<and> s < length h"
  by (auto simp: smallest_of_def leftChild_def rightChild_def Let_def split: if_splits Option.bind_splits)

lemma length_swap_cells: "swap_cells h i j = Some h' \<Longrightarrow> length h' = length h"
  by (auto simp: swap_cells_def aset_eq_Some split: Option.bind_splits)

function heapifyDown :: "int list \<Rightarrow> nat \<Rightarrow> int list option" where
  "heapifyDown heap index = do {
     smallest \<leftarrow> smallest_of heap index;
     if smallest \<noteq> index then do { heap \<leftarrow> swap_cells heap index smallest; heapifyDown heap smallest } else Some heap
   }"
  by auto
termination
  by (relation "measure (\<lambda>(h, i). length h - i)") (auto dest!: length_swap_cells smallest_of_range)

declare heapifyDown.simps [simp del]

text \<open>The version with a loop.\<close>

partial_function (option) heapifyDownNoRecursive :: "int list \<Rightarrow> nat \<Rightarrow> int list option" where
  "heapifyDownNoRecursive heap index = do {
     smallest \<leftarrow> smallest_of heap index;
     if smallest = index then Some heap
     else do { heap \<leftarrow> swap_cells heap index smallest; heapifyDownNoRecursive heap smallest }
   }"

definition heap_insert :: "int list \<Rightarrow> int \<Rightarrow> int list option" where
  "heap_insert heap key = do { let heap = heap @ [key]; heapifyUp heap (length heap - 1) }"

datatype heap_exception = Heap_is_empty

definition getMin :: "int list \<Rightarrow> (heap_exception + int) option" where
  "getMin heap = (if heap = [] then Some (Inl Heap_is_empty) else do { x \<leftarrow> aget heap 0; Some (Inr x) })"

definition extractMin :: "int list \<Rightarrow> (heap_exception + int \<times> int list) option" where
  "extractMin heap = (if heap = [] then Some (Inl Heap_is_empty) else do {
     minVal \<leftarrow> aget heap 0;
     heap \<leftarrow> aset heap 0 (last heap);
     let heap = butlast heap;
     printed \<leftarrow> aget heap 0;
     heap \<leftarrow> (if heap \<noteq> [] then heapifyDownNoRecursive heap 0 else Some heap);
     Some (Inr (minVal, heap))
   })"

section \<open>The order of the heap\<close>

definition heap_ok :: "int list \<Rightarrow> bool" where
  "heap_ok h \<longleftrightarrow> (\<forall>k. 0 < k \<and> k < length h \<longrightarrow> h ! parent k \<le> h ! k)"

definition up_ok :: "int list \<Rightarrow> nat \<Rightarrow> bool" where
  "up_ok h i \<longleftrightarrow> (\<forall>k. 0 < k \<and> k < length h \<and> k \<noteq> i \<longrightarrow> h ! parent k \<le> h ! k)
     \<and> (\<forall>k. 0 < k \<and> k < length h \<and> parent k = i \<and> 0 < i \<longrightarrow> h ! parent i \<le> h ! k)"

definition down_ok :: "int list \<Rightarrow> nat \<Rightarrow> bool" where
  "down_ok h i \<longleftrightarrow> (\<forall>k. 0 < k \<and> k < length h \<and> parent k \<noteq> i \<longrightarrow> h ! parent k \<le> h ! k)
     \<and> (\<forall>k. 0 < k \<and> k < length h \<and> parent k = i \<and> 0 < i \<longrightarrow> h ! parent i \<le> h ! k)"

lemma parent_iff: "0 < k \<Longrightarrow> parent k = i \<longleftrightarrow> k = 2 * i + 1 \<or> k = 2 * i + 2"
  unfolding parent_def by presburger

lemma swap_cells_ok: "i < length h \<Longrightarrow> j < length h \<Longrightarrow> swap_cells h i j = Some (h[i := h ! j, j := h ! i])"
  by (simp add: swap_cells_def)

lemma mset_swap_cells: "i < length h \<Longrightarrow> j < length h \<Longrightarrow> mset (h[i := h ! j, j := h ! i]) = mset h"
  by (rule mset_swap)

lemma heapifyUp_ok:
  "i < length h \<Longrightarrow> up_ok h i \<Longrightarrow> \<exists>h'. heapifyUp h i = Some h' \<and> heap_ok h' \<and> mset h' = mset h"
proof (induction h i rule: heapifyUp.induct)
  case (1 h i)
  let ?p = "parent i"
  show ?case
  proof (cases "0 < i \<and> h ! i < h ! ?p")
    case True
    then have p: "?p < i" "?p < length h" using parent_less [of i] "1.prems"(1) by auto
    let ?h = "h[?p := h ! i, i := h ! ?p]"
    have at: "?h ! k = (if k = i then h ! ?p else if k = ?p then h ! i else h ! k)" if "k < length h" for k
      using that p "1.prems"(1) by (auto simp: nth_list_update)
    have "up_ok ?h ?p"
      unfolding up_ok_def
    proof (intro conjI allI impI; elim conjE)
      fix k assume k: "0 < k" "k < length ?h" "k \<noteq> ?p"
      have pk: "parent k < length h" "k < length h" using k parent_less [of k] by simp_all
      have up: "k \<noteq> i \<Longrightarrow> h ! parent k \<le> h ! k" "parent k = i \<Longrightarrow> h ! ?p \<le> h ! k"
        using "1.prems"(2) k True by (auto simp: up_ok_def)
      consider "k = i" | "k \<noteq> i" "parent k = i" | "k \<noteq> i" "parent k = ?p" | "k \<noteq> i" "parent k \<noteq> i" "parent k \<noteq> ?p" by blast
      then show "?h ! parent k \<le> ?h ! k"
      proof cases
        case 3
        then show ?thesis using up(1) at [OF pk(1)] at [OF pk(2)] k(3) True p by simp
      qed (use up at [OF pk(1)] at [OF pk(2)] k(3) True p in simp_all)
    next
      fix k assume k: "0 < k" "k < length ?h" "parent k = ?p" "0 < ?p"
      have "h ! parent ?p \<le> h ! ?p" using "1.prems"(2) p k(4) by (auto simp: up_ok_def)
      moreover have "parent ?p < ?p" using parent_less k(4) by blast
      moreover have "k \<noteq> i \<Longrightarrow> h ! ?p \<le> h ! k" using "1.prems"(2) k(1-3) unfolding up_ok_def by (metis length_list_update)
      moreover have "k \<noteq> ?p" using parent_less [of k] k(1,3) by auto
      ultimately show "?h ! parent ?p \<le> ?h ! k"
        using k p at [of k] at [of "parent ?p"] by (cases "k = i") auto
    qed
    moreover have "swap_cells h ?p i = Some ?h" using swap_cells_ok p(2) "1.prems"(1) by blast
    ultimately obtain h' where "heapifyUp ?h ?p = Some h'" "heap_ok h'" "mset h' = mset ?h"
      using "1.IH" [of "h ! ?p" "h ! i" ?h] True p "1.prems"(1) by auto
    then show ?thesis
      using True p "1.prems"(1) \<open>swap_cells h ?p i = Some ?h\<close> mset_swap_cells [of ?p h i]
      by (simp add: heapifyUp.simps [of h i])
  next
    case False
    then have "heapifyUp h i = Some h"
      using parent_less [of i] "1.prems"(1) by (auto simp: heapifyUp.simps [of h i])
    moreover have "heap_ok h" using False "1.prems"(2) unfolding heap_ok_def up_ok_def by (metis not_less)
    ultimately show ?thesis by simp
  qed
qed

text \<open>The two ways up do the same.\<close>

lemma sift_up_loop_eq: "i < length h \<Longrightarrow> sift_up_loop h i v = heapifyUp (h[i := v]) i"
proof (induction h i v rule: sift_up_loop.induct)
  case (1 h i v)
  show ?case
  proof (cases "0 < i")
    case True
    have p: "parent i < i" "parent i < length h" using parent_less [OF True] "1.prems" by auto
    have "h[i := v, parent i := v, i := h ! parent i] = h[i := h ! parent i, parent i := v]"
      using p by (simp add: list_update_swap [of i "parent i"])
    then show ?thesis
      using "1.IH" [OF True refl, of "h ! parent i" "h[i := h ! parent i]"] True p "1.prems"
      by (simp add: sift_up_loop.simps [of h i v] heapifyUp.simps [of "h[i := v]" i] swap_cells_def Let_def list_update_swap)
  next
    case False
    then show ?thesis using "1.prems" by (subst sift_up_loop.simps, subst heapifyUp.simps) simp
  qed
qed

lemma siftUp_eq: "i < length h \<Longrightarrow> siftUp h i = heapifyUp h i"
  by (simp add: siftUp_def sift_up_loop_eq)

text \<open>One round on the way down.\<close>

lemma smallest_of_ok:
  assumes "i < length h" "length h < 2 ^ 30"
  shows "\<exists>s. smallest_of h i = Some s \<and> s < length h \<and> (s = i \<or> 0 < s \<and> parent s = i \<and> h ! s < h ! i)
    \<and> (\<forall>k. 0 < k \<and> k < length h \<and> parent k = i \<longrightarrow> h ! s \<le> h ! k)"
proof -
  have c: "leftChild i = Some (2 * i + 1)" "rightChild i = Some (2 * i + 2)" using assms by (simp_all add: leftChild_def rightChild_def)
  have p: "parent (2 * i + 1) = i" "parent (2 * i + 2) = i" by (simp_all add: parent_iff)
  have ch: "0 < k \<and> k < length h \<and> parent k = i \<longleftrightarrow> k < length h \<and> (k = 2 * i + 1 \<or> k = 2 * i + 2)" for k
    by (cases "0 < k") (auto simp: parent_iff)
  show ?thesis unfolding ch using assms(1) p by (auto simp: smallest_of_def c Let_def)
qed

lemma heapifyDown_ok:
  "i < length h \<Longrightarrow> length h < 2 ^ 30 \<Longrightarrow> down_ok h i \<Longrightarrow> \<exists>h'. heapifyDown h i = Some h' \<and> heap_ok h' \<and> mset h' = mset h"
proof (induction h i rule: heapifyDown.induct)
  case (1 h i)
  obtain s where s: "smallest_of h i = Some s" "s < length h" "s = i \<or> 0 < s \<and> parent s = i \<and> h ! s < h ! i"
    "\<forall>k. 0 < k \<and> k < length h \<and> parent k = i \<longrightarrow> h ! s \<le> h ! k"
    using smallest_of_ok [OF "1.prems"(1,2)] by blast
  show ?case
  proof (cases "s = i")
    case True
    have "heap_ok h" using s(4) "1.prems"(3) True unfolding heap_ok_def down_ok_def by metis
    then show ?thesis using s(1) True by (simp add: heapifyDown.simps [of h i])
  next
    case False
    then have f: "0 < s" "parent s = i" "h ! s < h ! i" "i < s" using s(3) parent_less [of s] by auto
    let ?h = "h[i := h ! s, s := h ! i]"
    have at: "?h ! k = (if k = s then h ! i else if k = i then h ! s else h ! k)" if "k < length h" for k
      using that s(2) "1.prems"(1) by (auto simp: nth_list_update)
    have "down_ok ?h s"
      unfolding down_ok_def
    proof (intro conjI allI impI; elim conjE)
      fix k assume k: "0 < k" "k < length ?h" "parent k \<noteq> s"
      have pk: "parent k < length h" "k < length h" using k parent_less [of k] by simp_all
      have dn: "parent k \<noteq> i \<Longrightarrow> h ! parent k \<le> h ! k" "parent k = i \<Longrightarrow> h ! s \<le> h ! k" "k = i \<Longrightarrow> h ! parent i \<le> h ! s"
        using "1.prems"(3) s(2,4) k f by (auto simp: down_ok_def)
      have neq: "parent k \<noteq> k" using parent_less [OF k(1)] by simp
      consider "k = s" | "k \<noteq> s" "parent k = i" | "k = i" | "k \<noteq> s" "k \<noteq> i" "parent k \<noteq> i" by blast
      then show "?h ! parent k \<le> ?h ! k" using dn at [OF pk(1)] at [OF pk(2)] k(3) f neq by cases simp_all
    next
      fix k assume k: "0 < k" "k < length ?h" "parent k = s" "0 < s"
      have "s < k" using k(1,3) parent_less [of k] by auto
      moreover have "h ! s \<le> h ! k" using "1.prems"(3) k f by (auto simp: down_ok_def)
      ultimately show "?h ! parent s \<le> ?h ! k" using k f at [of k] at [of i] "1.prems"(1) by auto
    qed
    moreover have sw: "swap_cells h i s = Some ?h" using swap_cells_ok s(2) "1.prems"(1) by blast
    ultimately obtain h' where "heapifyDown ?h s = Some h'" "heap_ok h'" "mset h' = mset ?h"
      using "1.IH" [OF s(1) False sw] s(2) "1.prems"(2) by auto
    then show ?thesis
      using s(1,2) False sw mset_swap_cells [of i h s] "1.prems"(1) by (simp add: heapifyDown.simps [of h i])
  qed
qed

lemma heapifyDown_loop_eq: "heapifyDownNoRecursive h i = heapifyDown h i"
proof (induction h i rule: heapifyDown.induct)
  case (1 h i)
  then show ?case
    by (auto simp: heapifyDown.simps [of h i] heapifyDownNoRecursive.simps [of h i] split: Option.bind_splits)
qed

section \<open>The operations\<close>

lemma heap_insert_ok:
  assumes "heap_ok h"
  shows "\<exists>h'. heap_insert h x = Some h' \<and> heap_ok h' \<and> mset h' = add_mset x (mset h)"
proof -
  have "up_ok (h @ [x]) (length h)"
    unfolding up_ok_def
  proof (intro conjI allI impI; elim conjE)
    fix k assume k: "0 < k" "k < length (h @ [x])" "k \<noteq> length h"
    then show "(h @ [x]) ! parent k \<le> (h @ [x]) ! k"
      using assms parent_less [of k] by (auto simp: heap_ok_def nth_append)
  next
    fix k assume "0 < k" "k < length (h @ [x])" "parent k = length h" "0 < length h"
    then show "(h @ [x]) ! parent (length h) \<le> (h @ [x]) ! k" using parent_less [of k] by simp
  qed
  then show ?thesis using heapifyUp_ok [of "length h" "h @ [x]"] by (simp add: heap_insert_def Let_def)
qed

lemma heap_least: "heap_ok h \<Longrightarrow> k < length h \<Longrightarrow> h ! 0 \<le> h ! k"
proof (induction k rule: less_induct)
  case (less k)
  show ?case
  proof (cases "k = 0")
    case False
    then have "parent k < k" "h ! parent k \<le> h ! k" using parent_less less.prems by (auto simp: heap_ok_def)
    then show ?thesis using less.IH [of "parent k"] less.prems by simp
  qed simp
qed

lemma extractMin_ok:
  assumes ok: "heap_ok h" and len: "2 \<le> length h" "length h < 2 ^ 30"
  shows "\<exists>x h'. extractMin h = Some (Inr (x, h')) \<and> heap_ok h' \<and> mset h = add_mset x (mset h') \<and> (\<forall>y \<in> set h'. x \<le> y)"
proof -
  obtain x t where h: "h = x # t" "t \<noteq> []" using len(1) by (cases h; cases "tl h") auto
  let ?h = "last t # butlast t"
  have m: "mset ?h = mset t" using h(2) by (metis append_butlast_last_id mset.simps(2) mset_append union_mset_add_mset_right add.right_neutral mset_single_iff)
  have nth: "?h ! k = h ! k" if "0 < k" "k < length ?h" for k using that h by (cases k) (auto simp: nth_butlast)
  have "down_ok ?h 0"
    unfolding down_ok_def
  proof (intro conjI allI impI; elim conjE)
    fix k assume k: "0 < k" "k < length ?h" "parent k \<noteq> 0"
    then have "?h ! k = h ! k" "?h ! parent k = h ! parent k" using nth [of k] nth [of "parent k"] parent_less [of k] by simp_all
    moreover have "h ! parent k \<le> h ! k" using ok k(1,2) h unfolding heap_ok_def by simp
    ultimately show "?h ! parent k \<le> ?h ! k" by simp
  qed simp
  then obtain h' where h': "heapifyDown ?h 0 = Some h'" "heap_ok h'" "mset h' = mset ?h"
    using heapifyDown_ok [of 0 ?h] h len(2) by auto
  have "butlast (last t # t) = ?h" using h(2) by simp
  then have "extractMin h = Some (Inr (x, h'))" using h h'(1) by (simp add: extractMin_def heapifyDown_loop_eq)
  moreover have "x \<le> y" if "y \<in> set h'" for y
  proof -
    have "y \<in> set h" using that h'(3) m h(1) by (metis list.set_intros(2) set_mset_mset)
    then obtain k where "k < length h" "h ! k = y" by (auto simp: in_set_conv_nth)
    then show ?thesis using heap_least [OF ok, of k] h(1) by simp
  qed
  ultimately show ?thesis using h'(2,3) m h(1) by auto
qed

section \<open>Sorting with the heap\<close>

fun insert_all :: "int list \<Rightarrow> int list \<Rightarrow> int list option" where
  "insert_all [] heap = Some heap"
| "insert_all (x # xs) heap = do { heap \<leftarrow> heap_insert heap x; insert_all xs heap }"

fun extract_many :: "nat \<Rightarrow> int list \<Rightarrow> (int list \<times> int list) option" where
  "extract_many 0 heap = Some ([], heap)"
| "extract_many (Suc n) heap = do {
     r \<leftarrow> extractMin heap;
     (case r of Inl _ \<Rightarrow> None
      | Inr (x, heap) \<Rightarrow> do { (xs, heap) \<leftarrow> extract_many n heap; Some (x # xs, heap) })
   }"

lemma insert_all_ok: "heap_ok h \<Longrightarrow> \<exists>h'. insert_all xs h = Some h' \<and> heap_ok h' \<and> mset h' = mset xs + mset h"
proof (induction xs arbitrary: h)
  case (Cons x xs)
  obtain h1 where "heap_insert h x = Some h1" "heap_ok h1" "mset h1 = add_mset x (mset h)" using heap_insert_ok [OF Cons.prems] by blast
  then show ?case using Cons.IH [of h1] by auto
qed simp

lemma extract_many_ok:
  "heap_ok h \<Longrightarrow> n < length h \<Longrightarrow> length h < 2 ^ 30 \<Longrightarrow>
   \<exists>h'. extract_many n h = Some (take n (sort h), h') \<and> heap_ok h' \<and> sort h' = drop n (sort h)"
proof (induction n arbitrary: h)
  case (Suc n)
  obtain x h1 where x: "extractMin h = Some (Inr (x, h1))" "heap_ok h1" "mset h = add_mset x (mset h1)" "\<forall>y \<in> set h1. x \<le> y"
    using extractMin_ok [of h] Suc.prems by auto
  have l: "length h = Suc (length h1)" using arg_cong [OF x(3), of size] by simp
  have "sort h = x # sort h1" using x(3,4) by (intro properties_for_sort) auto
  then show ?case using Suc.IH [OF x(2)] l Suc.prems(2,3) x(1) by auto
qed simp

text \<open>Inserting any numbers into an empty heap and extracting all but one of them returns, and gives the numbers in
  increasing order; the greatest is what is left, and \<open>getMin\<close> is the first of the order at every moment.\<close>

theorem minheap_sorts:
  assumes "xs \<noteq> []" "length xs < 2 ^ 30" "n < length xs"
  shows "\<exists>h h'. insert_all xs [] = Some h \<and> extract_many n h = Some (take n (sort xs), h') \<and> getMin h' = Some (Inr (sort xs ! n))"
proof -
  obtain h where h: "insert_all xs [] = Some h" "heap_ok h" "mset h = mset xs"
    using insert_all_ok [of "[]" xs] by (auto simp: heap_ok_def)
  have l: "length h = length xs" "sort h = sort xs" using h(3) by (auto dest: mset_eq_length intro: properties_for_sort)
  obtain h' where h': "extract_many n h = Some (take n (sort xs), h')" "heap_ok h'" "sort h' = drop n (sort xs)"
    using extract_many_ok [OF h(2), of n] assms(2,3) l by auto
  have m: "mset h' = mset (drop n (sort xs))" using h'(3) by (metis mset_sort)
  then have ne: "h' \<noteq> []" using assms(3) by auto
  have "h' ! 0 = hd (sort h')"
  proof -
    have s: "sorted (sort h')" "sort h' \<noteq> []" "set (sort h') = set h'" using ne by (auto dest: arg_cong [of _ _ length])
    have "h' ! 0 \<in> set (sort h')" using ne by simp
    then have "hd (sort h') \<le> h' ! 0" using s(1,2) by (cases "sort h'") auto
    moreover obtain k where "k < length h'" "h' ! k = hd (sort h')" using s(2,3) hd_in_set by (metis in_set_conv_nth)
    ultimately show ?thesis using heap_least [OF h'(2), of k] by simp
  qed
  then have "h' ! 0 = sort xs ! n" using h'(3) assms(3) by (simp add: hd_drop_conv_nth)
  then show ?thesis using h(1) h'(1) ne by (auto simp: getMin_def)
qed

theorem minheap_sorts_witness:
  "\<exists>h h'. insert_all [3, 2, 15, 5] [] = Some h \<and> extract_many 3 h = Some ([2, 3, 5], h') \<and> getMin h' = Some (Inr 15)"
  using minheap_sorts [of "[3, 2, 15, 5]" 3] by simp

text \<open>Extracting the last number reads the first cell of the vector that has become empty, to print it.\<close>

lemma extractMin_last: "extractMin [x] = None"
  by (simp add: extractMin_def)

end
