(* ===== verification/Spec2Isabelle.thy ===== *)
theory Spec2Isabelle
  imports Prelude BitArray CircularBuffer Stacks DynVector Dlist SortedList PQInterface PriorityQueue Heap HeapPQ Task Scheduler HashTable Avl Sorts CString Strings Recursion Slist Queue Dhcp Fsa Vsa Calc Handshake Broadcast BoundedBuffer SharedList Numbers Bst KeySorts FirstSorts KnightTour Memory ListPuzzles DictSort LetterCount BitTricks Exercises Divisors SpellCheck WatchDog Transport PollRing TextExercises MoreExercises MpmcQueue SpscQueue RefCount SharedPtr RcString BitSet WaitableQueue WaitableFsq TicTacToeAI Prisoners MinHeap
begin

text \<open>
  A model of the C code under \<open>src/infinity\<close> and of some of the C++ programs of the repository: data structures (\<open>ds\<close>), string, number, bit and recursion
  exercises (\<open>c\<close>), memory allocators, threaded programs and producers and consumers
  (\<open>system_programming\<close>), the watch dog (\<open>projects/watch_dog\<close>), objects written out in C (\<open>cpp_fs/cpp2c\<close>), and
  classes with shared ownership, bit sets, queues for threads and two puzzles in C++.

  \<^bold>\<open>How C is modelled.\<close> A function is a HOL function into \<open>'a option\<close>, written with \<open>do\<close>: \<open>None\<close> is a
  fault, that is a failed \<open>assert\<close>, an access outside an array or through NULL or a freed node, a use
  of an indeterminate cell, or an undefined shift or overflow. A loop that the code does not bound is a
  \<open>partial_function (option)\<close>, for which \<open>None\<close> also means that it does not return; the theorems say
  that the result is \<open>Some\<close>, so they include that the code returns. The answers of \<open>malloc\<close>, the clock
  and the callbacks are arguments. Sizes are natural numbers with the wrap-around of \<open>size_t\<close> written
  out (\<open>szsub\<close>, \<open>to_size\<close>, \<open>mod 2 ^ 64\<close>), and bit arrays and IP addresses are words. An \<open>int\<close> that
  counts, indexes or is computed with is checked to stay in its 32 bits (\<open>int32\<close>, and \<open>int64\<close> for the \<open>long\<close>
  of \<open>Vsa\<close>): in \<open>BitTricks\<close>, \<open>DynVector\<close> and what rests on it, \<open>Exercises\<close>, \<open>KeySorts\<close>, \<open>MinHeap\<close>,
  \<open>MoreExercises\<close>, \<open>Numbers\<close>, \<open>Prisoners\<close>, \<open>Recursion\<close>, \<open>Stacks\<close>, \<open>TextExercises\<close>, \<open>TicTacToeAI\<close> and
  \<open>Transport\<close>; the counters of \<open>WatchDog\<close> wrap around, and \<open>Scheduler\<close> and \<open>Task\<close> convert where the code
  does. Elsewhere an \<open>int\<close> is an unbounded integer: there it is an element or the result of a comparison, on
  which nothing is computed, or a number that the code keeps small (heights, places on a board, loop counters of
  a fixed bound). Linked structures live in an explicit store of nodes where their
  pointers are shared (lists, queues), and are trees where each node is reached by one path only. An
  array is a list, a pointer into a buffer is an offset. Threads are step functions of a shared state,
  interleaved by an inductive step relation. Two facts of the platform are assumed throughout: \<open>size_t\<close>
  and pointers have 64 bits and \<open>char\<close> is signed.

  \<^bold>\<open>Theories and sources.\<close>
  \<^item> \<open>Prelude\<close>: faults, arrays, \<open>size_t\<close>, generic pointers, the locale \<open>key_comparison\<close>.
  \<^item> \<open>BitArray\<close> (\<open>ds/bit_array\<close>): every operation on a 64-bit word; the table-driven counts and mirrors
    agree with the plain ones.
  \<^item> \<open>CircularBuffer\<close> (\<open>ds/circular_buffer\<close>): writing appends to and reading drops from the byte queue.
  \<^item> \<open>Stacks\<close> (\<open>ds/stack\<close> and \<open>ds/stack/advanced\<close>): the locale \<open>bounded_stack\<close>, both implementations, and
    its client \<open>SortStack\<close> of \<open>c/recursion\<close>.
  \<^item> \<open>DynVector\<close> (\<open>ds/dynamic_vector\<close>), \<open>Heap\<close> (\<open>ds/heap\<close>) on it.
  \<^item> \<open>Dlist\<close> (\<open>ds/dlist\<close>) over a store of nodes; \<open>SortedList\<close> (\<open>ds/sorted_list\<close>) on it, with the locales
    \<open>insertion_order\<close> and \<open>total_comparison\<close> for what a comparison must promise; \<open>PriorityQueue\<close>
    (\<open>ds/pqueue/pqueue.c\<close>) on that.
  \<^item> \<open>PQInterface\<close>: the locale \<open>priority_queue\<close> for \<open>pqueue.h\<close>, which \<open>PriorityQueue\<close> and \<open>HeapPQ\<close>
    (\<open>ds/pqueue/heap_PQ.c\<close>, on the heap) both meet.
  \<^item> \<open>Task\<close> (\<open>ds/uid\<close>, \<open>ds/task\<close>) and \<open>Scheduler\<close> (\<open>ds/scheduler/scheduler.c\<close>) on the priority queue. The two
    readings of the clock and \<open>sleep\<close> are arguments with the laws \<open>clock_laws\<close>; a sleep may end early, and that no task runs
    before its time is stated for runs in which none does (\<open>never_interrupted\<close>).
  \<^item> \<open>HashTable\<close> (\<open>ds/hash\<close>): an array of doubly linked lists that meets the locale \<open>dictionary\<close>.
  \<^item> \<open>SpellCheck\<close> (\<open>ds/hash/spell_checker.c\<close>): the client that fills the table with the words of a text, which
    is cut by \<open>strtok\<close>, and looks one up.
  \<^item> \<open>Avl\<close> (\<open>ds/avl\<close>), \<open>Slist\<close> (\<open>ds/slist\<close>) and \<open>Queue\<close> (\<open>ds/queue\<close>, the locale \<open>fifo\<close>), \<open>Dhcp\<close>
    (\<open>ds/dhcp\<close>, a binary trie of addresses).
  \<^item> \<open>Sorts\<close> and \<open>KeySorts\<close> (\<open>ds/utils/sorts/sorts.c\<close>): the sorts by comparison, and those by keys with the
    binary searches; \<open>FirstSorts\<close> (\<open>ds/utils/sorts/binary search\<close>), the earlier file.
  \<^item> \<open>KnightTour\<close> (\<open>ds/knight_tour\<close>): both walks over the board, on the bit array and the vector.
  \<^item> \<open>ListPuzzles\<close> (\<open>ds/slist/part 2\<close>): reversal, loop and intersection of lists in a store.
  \<^item> \<open>Memory\<close> (\<open>c/ws8\<close>): \<open>Memset\<close>, \<open>Memcpy\<close> and \<open>Memmove\<close> by words, on addresses and bytes.
  \<^item> \<open>BitTricks\<close> (\<open>c/ws6\<close>), \<open>Exercises\<close> (Josephus and others of \<open>c/ws3\<close>, \<open>c/ws1\<close> and the quizzes),
    \<open>TextExercises\<close> (white space, hexadecimal text and the environment in \<open>c/ws1\<close> to \<open>c/ws3\<close>),
    \<open>MoreExercises\<close> (the editor of \<open>c/ws5\<close>, the elements of \<open>c/ws7\<close>, the letters of \<open>c/ws9\<close>).
  \<^item> \<open>DictSort\<close> (\<open>system_programming/s_s_dictionary\<close>), \<open>LetterCount\<close> (\<open>mt_c_sort\<close>) and \<open>Divisors\<close>
    (\<open>threads\<close>, exercises 4 to 6): programs that share out their work to threads that do not interact, so
    each thread is one function and joining them is a loop.
  \<^item> \<open>WatchDog\<close> (\<open>projects/watch_dog\<close>): the two processes that guard each other, as steps on their counters;
    the calls of the operating system are a list, and a signal may arrive between \<open>kill\<close> and the count that follows it.
  \<^item> \<open>Transport\<close> (\<open>cpp_fs/cpp2c/cpp2c2.c\<close>): inheritance and virtual functions by tables, over a store of objects.
  \<^item> \<open>Calc\<close> (\<open>ds/utils/calc\<close>, \<open>ds/utils/parser\<close>) on the stack: the two-stack evaluator computes the value
    of the syntax tree of the text. The arithmetic of \<open>double\<close> and \<open>strtod\<close> are parameters; of \<open>strtod\<close>
    only that it reads a number up to an operator, a closing bracket or the end.
  \<^item> \<open>CString\<close>, \<open>Strings\<close> (\<open>c/ws2/string.c\<close> and the recursive versions of \<open>c/recursion\<close>), \<open>Recursion\<close>
    (Fibonacci and the list reversal of \<open>c/recursion\<close>), and \<open>Numbers\<close> (\<open>c/ws9\<close>, conversion
    between numbers and text in any base).
  \<^item> \<open>Bst\<close> (\<open>ds/bst\<close>): the search tree with parent links in a store; contexts (a tree with a hole)
    describe the place of an iterator.
  \<^item> \<open>Fsa\<close> and \<open>Vsa\<close> (\<open>system_programming/fsa\<close>, \<open>vsa\<close>): the allocators, on the memory they manage. Any program on the
    first gets the block that was freed last or the lowest one never handed out; the requests of the second are converted to
    \<open>long\<close>, and its contract is for those below 2 ^ 63.
  \<^item> \<open>Handshake\<close>, \<open>BoundedBuffer\<close>, \<open>PollRing\<close>, \<open>Broadcast\<close>, \<open>SharedList\<close>
    (\<open>system_programming/producers_consumers\<close>): the threads of exercises 1 to 5, with safety for every interleaving, absence of deadlock, and
    termination where the program has no unbounded waiting loop.
  \<^item> \<open>RefCount\<close>: lemmas on counting the holders of an address, for \<open>SharedPtr\<close> (\<open>cpp_fs/shared_pointer\<close>) and
    \<open>RcString\<close> (\<open>cpp_fs/rcstring\<close>): programs that copy, assign and destroy never touch what is deleted, delete
    everything once, and see values.
  \<^item> \<open>BitSet\<close> (\<open>cpp_fs/bit_array\<close>): the bit array of any length refines a list of truth values, for the operations that
    are defined there (\<open>defined_op\<close>); exceptions are values of a sum.
  \<^item> \<open>MpmcQueue\<close>, \<open>SpscQueue\<close> (\<open>prepare_for_interview/circle_q\<close>): the queues without locks; every access to shared
    memory is a step, and a compare-and-exchange may fail for no reason.
  \<^item> \<open>WaitableQueue\<close> (\<open>projects/waitable_queue\<close>): a queue with a condition variable, on which no wake-up is lost;
    \<open>WaitableFsq\<close> (\<open>quizzes/waitable_fsq.cpp\<close>), on which one is.
  \<^item> \<open>MinHeap\<close> (\<open>prepare_for_interview/min_heap\<close>), \<open>TicTacToeAI\<close> (\<open>test_dir/ai_first_try\<close>): the search of the game tree
    against an inductive notion of a forced win, and the game it plays on any input; \<open>Prisoners\<close> (\<open>test_dir/prisons_question\<close>).

  \<^bold>\<open>What the lemmas show.\<close> For each component there is an abstraction (a list, a multiset, a map, a set
  of addresses, a list of blocks), an invariant, and one lemma per operation (\<open>..._spec\<close>, \<open>..._ok\<close>,
  \<open>..._eq\<close>) that says what the operation does to it, when it faults, and what it returns, including
  the branch in which memory is missing. The properties compose these lemmas. Where the code does not
  do what it means to, a lemma shows it on an input: among others \<open>Avl.AVLRemove_loses_nodes\<close>,
  \<open>Avl.AVLRemove_faults\<close>, \<open>Heap.HeapRemove_breaks_order\<close>, \<open>Dlist.DlistSplice_empty_range\<close>,
  \<open>HashTable.HashCreate_dangling\<close>, \<open>Scheduler.later_task_first\<close>, \<open>Slist.SlistRemove_last\<close>,
  \<open>Dhcp.FreeIp_leaf_missing\<close>, \<open>Dhcp.foreign_request\<close>, \<open>Vsa.VSAAlloc_misses_header\<close>,
  \<open>Vsa.VSAAlloc_huge_size\<close>, \<open>WatchDog.answer_inside_forgotten\<close>, \<open>Strings.Strcat_keeps_garbage\<close>,
  \<open>Sorts.BubbleSort_empty\<close>, \<open>SharedList.sem_pops_empty\<close>, \<open>SharedList.ring4_stale_read\<close>.

  \<^bold>\<open>Bounds.\<close> The theorems hold for all sizes, with the hypotheses that sizes stay below \<open>2 ^ 31\<close> where the code
  counts in an \<open>int\<close>, and below \<open>2 ^ 61\<close> or \<open>2 ^ 63\<close> where it computes byte counts, and with the capacities the code fixes (100 and 1000
  entries in the calculator's stacks, 10 threads and cells in the exercises with threads). No fuel is used.

  \<^bold>\<open>Not modelled.\<close> Printing, the tests and the \<open>main\<close> functions that only call them; the exercises that
  consist of calls of the operating system (signals, pipes, message queues, shared memory, sockets, files,
  the listing of directories and disk images), because nothing of the program is left once those calls are
  parameters; second copies of modelled files (\<open>ds/knight_tour/review\<close>, \<open>projects/watch_dog/include\<close>,
  \<open>ds/scheduler/heap_SCH.c\<close>, \<open>mt_c_sort/CR\<close>); files that do not compile; arithmetic on \<open>double\<close>; and
  the other C++ programs (thread pool, reactor, dispatcher, network block device, library experiments). Under
  \<open>ds/avl/review\<close> and \<open>ds/dhcp/review\<close> are drafts of modelled files, of which those of \<open>dhcp\<close> need macros that no
  file of the repository defines. The memory model is that of a sequential machine: the atomics of the threaded programs
  are steps that see the last write. The operating system decides nothing in the models but the order of steps.
\<close>


end
